(* ===== verification/Prelude.thy ===== *)
theory Prelude
  imports Main "HOL-Library.Word" "HOL-Library.Multiset"
begin

unbundle bit_operations_syntax

text \<open>
  Shared types and lemmas of the dtorrent development.

  The integer typedefs of \<^verbatim>\<open>src/bttypes.h\<close> are machine words: piece indices, offsets, lengths,
  counts and rates are \<^typ>\<open>32 word\<close>, data totals are \<^typ>\<open>64 word\<close>, bytes are
  \<^typ>\<open>8 word\<close>.  Sizes of type \<^verbatim>\<open>size_t\<close> and loop counters that are bounded by a word are
  \<^typ>\<open>nat\<close>.  A C++ array is a list; \<open>memcpy_to\<close> and \<open>memset_to\<close> overwrite a prefix of it.
\<close>

type_synonym u8 = "8 word"
type_synonym u16 = "16 word"
type_synonym u32 = "32 word"
type_synonym u64 = "64 word"

type_synonym bt_index = u32
type_synonym bt_offset = u32
type_synonym bt_length = u32
type_synonym dt_count = u32
type_synonym dt_rate = u32
type_synonym dt_datalen = u64
type_synonym bytes = "u8 list"

named_theorems bf_simps \<open>defining equations of the bit field operations\<close>
named_theorems rq_simps \<open>defining equations of the request queue operations\<close>
named_theorems rq_inv_intros \<open>operations that keep the request queue invariant\<close>
named_theorems io_simps \<open>defining equations of the buffered I/O operations\<close>

section \<open>Array copies\<close>

definition memcpy_to :: "'a list \<Rightarrow> nat \<Rightarrow> 'a list \<Rightarrow> nat \<Rightarrow> 'a list" where
  "memcpy_to dst at src n = take at dst @ take n src @ drop (at + n) dst"

definition memset_to :: "'a list \<Rightarrow> 'a \<Rightarrow> nat \<Rightarrow> 'a list" where
  "memset_to dst v n = replicate n v @ drop n dst"

lemma length_memcpy_to [simp]:
  "n \<le> length src \<Longrightarrow> at + n \<le> length dst \<Longrightarrow> length (memcpy_to dst at src n) = length dst"
  by (simp add: memcpy_to_def)

lemma length_memset_to [simp]: "n \<le> length dst \<Longrightarrow> length (memset_to dst v n) = length dst"
  by (simp add: memset_to_def)

lemma memcpy_to_all [simp]:
  "length src = n \<Longrightarrow> length dst = n \<Longrightarrow> memcpy_to dst 0 src n = src"
  by (simp add: memcpy_to_def)

lemma memset_to_all [simp]: "length dst = n \<Longrightarrow> memset_to dst v n = replicate n v"
  by (simp add: memset_to_def)

lemma take_memcpy_to:
  "at \<le> length dst \<Longrightarrow> n \<le> length src \<Longrightarrow> take (at + n) (memcpy_to dst at src n) = take at dst @ take n src"
  by (simp add: memcpy_to_def)

section \<open>Words as numbers\<close>

lemma unat_u32_lt [simp]: "unat (x :: u32) < 4294967296"
  using unsigned_less[of x, where ?'a = nat] by simp

lemma unat_u64_lt [simp]: "unat (x :: u64) < 18446744073709551616"
  using unsigned_less[of x, where ?'a = nat] by simp

lemma unat_u8_lt [simp]: "unat (x :: u8) < 256"
  using unsigned_less[of x, where ?'a = nat] by simp

lemma unat_of_nat_u32: "n < 4294967296 \<Longrightarrow> unat (of_nat n :: u32) = n"
  by (simp add: unat_of_nat take_bit_eq_mod)

lemma unat_of_nat_u64: "n < 18446744073709551616 \<Longrightarrow> unat (of_nat n :: u64) = n"
  by (simp add: unat_of_nat take_bit_eq_mod)

lemma unat_of_nat_u8: "n < 256 \<Longrightarrow> unat (of_nat n :: u8) = n"
  by (simp add: unat_of_nat take_bit_eq_mod)

lemma u32_le_iff: "(x :: u32) \<le> y \<longleftrightarrow> unat x \<le> unat y"
  by (rule word_le_nat_alt)

lemma u32_less_iff: "(x :: u32) < y \<longleftrightarrow> unat x < unat y"
  by (rule word_less_nat_alt)

lemma u32_add: "unat (x :: u32) + unat y < 4294967296 \<Longrightarrow> unat (x + y) = unat x + unat y"
  by (simp add: unat_word_ariths)

lemma u32_add_wrap: "unat ((x :: u32) + y) = (unat x + unat y) mod 4294967296"
  by (simp add: unat_word_ariths)

lemma u32_diff: "(y :: u32) \<le> x \<Longrightarrow> unat (x - y) = unat x - unat y"
  by (simp add: unat_sub)

lemma u32_eq_iff: "(x :: u32) = y \<longleftrightarrow> unat x = unat y"
  by (simp add: word_unat_eq_iff)

lemma u32_div: "unat ((x :: u32) div y) = unat x div unat y"
  by (rule unat_div_distrib)

lemma u32_mod: "unat ((x :: u32) mod y) = unat x mod unat y"
  by (rule unat_mod_distrib)

lemma u32_zero_iff: "(x :: u32) = 0 \<longleftrightarrow> unat x = 0"
  by (simp add: unat_eq_zero)

lemmas u32_nat = u32_le_iff u32_less_iff u32_eq_iff u32_div u32_mod

lemma ceil8:
  assumes "m mod 8 \<noteq> 0" shows "(m + 7) div 8 = m div 8 + (1 :: nat)"
proof -
  define q r where "q = m div 8" and "r = m mod 8"
  have m: "m = 8 * q + r" and r: "0 < r" "r < 8" using assms by (simp_all add: q_def r_def)
  have "(8 * q + r + 7) div 8 = q + 1" by (rule div_nat_eqI) (use r in simp_all)
  then have "(m + 7) div 8 = q + 1" by (simp only: m[symmetric])
  then show ?thesis by (simp only: q_def)
qed

section \<open>Lists\<close>

lemma sum_list_update_nat:
  "i < length xs \<Longrightarrow> sum_list (xs[i := (v::nat)]) + xs ! i = sum_list xs + v"
  by (induction xs arbitrary: i) (auto split: nat.splits)

lemma filter_upd_other: "x \<notin> set ys \<Longrightarrow> filter (\<lambda>y. y \<noteq> x) ys = ys"
  by (induction ys) auto

lemma notin_image_iff: "k \<notin> f ` A \<longleftrightarrow> (\<forall>x\<in>A. f x \<noteq> k)"
  by auto

lemma append_eq_split_elem:
  assumes "r @ rest = xs @ s # ys"
  shows "(\<exists>us. xs = r @ us \<and> rest = us @ s # ys) \<or> (\<exists>us. r = xs @ s # us \<and> ys = us @ rest)"
  using assms by (auto simp: append_eq_append_conv2 Cons_eq_append_conv append_eq_Cons_conv)

lemma find_append: "find P (xs @ ys) = (case find P xs of None \<Rightarrow> find P ys | Some x \<Rightarrow> Some x)"
  by (induction xs) simp_all

section \<open>Reading a cursor to its end\<close>

text \<open>
  \<open>drain take1 n s\<close> calls \<open>take1\<close> until it delivers nothing, at most \<open>n\<close> times: the shape of
  the loops over \<^verbatim>\<open>PeekSend\<close>/\<^verbatim>\<open>Sent\<close>, \<^verbatim>\<open>PeekNext\<close>, \<^verbatim>\<open>Pop\<close> and \<^verbatim>\<open>PickUp\<close>.
\<close>

fun drain :: "('s \<Rightarrow> 'a option \<times> 's) \<Rightarrow> nat \<Rightarrow> 's \<Rightarrow> 'a list \<times> 's" where
  "drain take1 0 s = ([], s)"
| "drain take1 (Suc n) s =
     (case take1 s of
        (None, s') \<Rightarrow> ([], s')
      | (Some x, s') \<Rightarrow> (case drain take1 n s' of (xs, t) \<Rightarrow> (x # xs, t)))"

text \<open>What a source of elements promises: it delivers the elements of \<open>rest\<close> one by one.\<close>

locale cursor =
  fixes ok :: "'s \<Rightarrow> bool" and rest :: "'s \<Rightarrow> 'a list" and take1 :: "'s \<Rightarrow> 'a option \<times> 's"
  assumes take1_Nil: "ok s \<Longrightarrow> rest s = [] \<Longrightarrow> fst (take1 s) = None"
    and take1_Cons: "ok s \<Longrightarrow> rest s = x # xs \<Longrightarrow>
      fst (take1 s) = Some x \<and> ok (snd (take1 s)) \<and> rest (snd (take1 s)) = xs"
begin

lemma drain_out: "ok s \<Longrightarrow> fst (drain take1 n s) = take n (rest s)"
proof (induction n arbitrary: s)
  case (Suc n)
  show ?case
  proof (cases "rest s")
    case Nil
    then show ?thesis using take1_Nil[OF Suc.prems Nil] by (cases "take1 s") auto
  next
    case (Cons x xs)
    note t = take1_Cons[OF Suc.prems Cons]
    then show ?thesis using Suc.IH[of "snd (take1 s)"] Cons
      by (cases "take1 s"; cases "drain take1 n (snd (take1 s))") auto
  qed
qed simp

lemma drain_all: "ok s \<Longrightarrow> length (rest s) \<le> n \<Longrightarrow> fst (drain take1 n s) = rest s"
  by (simp add: drain_out)

end

text \<open>A source that stays empty once it is empty.\<close>

locale queue_cursor = cursor +
  assumes take1_end: "ok s \<Longrightarrow> rest s = [] \<Longrightarrow> ok (snd (take1 s)) \<and> rest (snd (take1 s)) = []"
begin

lemma drain_state: "ok s \<Longrightarrow> ok (snd (drain take1 n s)) \<and> rest (snd (drain take1 n s)) = drop n (rest s)"
proof (induction n arbitrary: s)
  case (Suc n)
  show ?case
  proof (cases "rest s")
    case Nil
    then show ?thesis using take1_Nil[OF Suc.prems Nil] take1_end[OF Suc.prems Nil]
      by (cases "take1 s") auto
  next
    case (Cons x xs)
    note t = take1_Cons[OF Suc.prems Cons]
    then show ?thesis using Suc.IH[of "snd (take1 s)"] Cons
      by (cases "take1 s"; cases "drain take1 n (snd (take1 s))") auto
  qed
qed simp

end

text \<open>Case distinctions over small numbers.\<close>

lemma less32: "k < (32::nat) \<Longrightarrow> k \<in> {0,1,2,3,4,5,6,7,8,9,10,11,12,13,14,15,16,17,18,19,20,21,22,23,24,25,26,27,28,29,30,31}"
  by (simp add: lessThan_iff[symmetric] lessThan_nat_numeral lessThan_Suc del: lessThan_iff) blast

lemma less16: "k < (16::nat) \<Longrightarrow> k \<in> {0,1,2,3,4,5,6,7,8,9,10,11,12,13,14,15}"
  by (simp add: lessThan_iff[symmetric] lessThan_nat_numeral lessThan_Suc del: lessThan_iff) blast

end
