(* ===== verification/Bencode.thy ===== *)
theory Bencode
  imports Prelude
begin

text \<open>
  Bencoding, from \<^verbatim>\<open>src/bencode.cpp\<close>: the scanners that return the number of bytes a value
  takes (0 for an error), the query for a value below a key path, the writers, and the conversion
  between path names and bencoded lists.

  A buffer \<open>b\<close> of \<^verbatim>\<open>len\<close> bytes is the list of exactly these bytes, \<^verbatim>\<open>b + n\<close> with
  \<^verbatim>\<open>len - n\<close> is \<open>drop n b\<close>.  A NUL-terminated string is the list of its bytes; the null
  pointer as key list is \<^term>\<open>None\<close>.  A \<^verbatim>\<open>FILE\<close> is the bytes written so far and the room
  left on its device.
\<close>

section \<open>Scanning\<close>

abbreviation c_i :: u8 where "c_i \<equiv> 105"
abbreviation c_d :: u8 where "c_d \<equiv> 100"
abbreviation c_l :: u8 where "c_l \<equiv> 108"
abbreviation c_e :: u8 where "c_e \<equiv> 101"
abbreviation c_colon :: u8 where "c_colon \<equiv> 58"
abbreviation c_minus :: u8 where "c_minus \<equiv> 45"
abbreviation KEY_SP :: u8 where "KEY_SP \<equiv> 124"
abbreviation PATH_SP :: u8 where "PATH_SP \<equiv> 47"
abbreviation KEYNAME_SIZ :: nat where "KEYNAME_SIZ \<equiv> 32"
abbreviation MAX_INT_SIZ :: nat where "MAX_INT_SIZ \<equiv> 64"

definition isdigit :: "u8 \<Rightarrow> bool" where
  "isdigit c \<longleftrightarrow> 48 \<le> c \<and> c \<le> 57"

fun next_key :: "bytes \<Rightarrow> bytes" where
  "next_key [] = []"
| "next_key (c # cs) = (if c = KEY_SP then cs else next_key cs)"

fun compare_key :: "bytes \<Rightarrow> bytes \<Rightarrow> nat" where
  "compare_key [] [] = 0"
| "compare_key [] (c # cs) = (if c \<noteq> KEY_SP then 1 else 0)"
| "compare_key (k # ks) [] = Suc (length ks)"
| "compare_key (k # ks) (c # cs) = (if k = c then compare_key ks cs else Suc (length ks))"

text \<open>\<^verbatim>\<open>strtoll\<close> on a run of digits: the value, saturated at the largest 64-bit integer.\<close>

fun digits_val :: "nat \<Rightarrow> bytes \<Rightarrow> nat" where
  "digits_val n [] = n"
| "digits_val n (c # cs) = digits_val (10 * n + (unat c - 48)) cs"

definition strtoll_digits :: "bytes \<Rightarrow> int" where
  "strtoll_digits ds = min (int (digits_val 0 ds)) 9223372036854775807"

text \<open>
  \<^verbatim>\<open>buf_int\<close> returns the bytes consumed and the value; the value is only stored on success.
\<close>

definition buf_int :: "bytes \<Rightarrow> u8 option \<Rightarrow> u8 \<Rightarrow> nat \<times> int" where
  "buf_int b beginchar endchar =
     (if length b < 2 then (0, 0)
      else case (case beginchar of None \<Rightarrow> Some b | Some c \<Rightarrow> if hd b \<noteq> c then None else Some (tl b)) of
             None \<Rightarrow> (0, 0)
           | Some p \<Rightarrow>
              (let ds = takeWhile isdigit p; r = dropWhile isdigit p
               in if r = [] \<or> MAX_INT_SIZ < length ds \<or> hd r \<noteq> endchar then (0, 0)
                  else (length b - length r + 1, strtoll_digits ds)))"

text \<open>\<^verbatim>\<open>buf_str\<close>: bytes consumed, and the string found.\<close>

definition buf_str :: "bytes \<Rightarrow> nat \<times> bytes" where
  "buf_str b =
     (let (rl, tmp) = buf_int b None c_colon; sl = nat tmp
      in if rl = 0 then (0, [])
         else if length b < rl + sl then (0, [])
         else (rl + sl, take sl (drop rl b)))"

definition decode_int :: "bytes \<Rightarrow> nat" where
  "decode_int b = fst (buf_int b (Some c_i) c_e)"

definition decode_str :: "bytes \<Rightarrow> nat" where
  "decode_str b = fst (buf_str b)"

text \<open>
  The three mutually recursive scanners.  \<open>dict_loop\<close> and \<open>list_loop\<close> are their \<^verbatim>\<open>while\<close>
  loops on the rest of the buffer, with \<open>dl\<close> and \<open>ll\<close> the bytes already taken.
\<close>

lemma buf_int_le: "fst (buf_int b bc ec) \<le> length b"
proof -
  have l: "length (dropWhile isdigit p) \<le> length p" for p by (induction p) auto
  have "r \<noteq> [] \<Longrightarrow> length b - length r + 1 \<le> length b" if "length r \<le> length b" for r :: bytes
    using that by (cases r) auto
  then show ?thesis
    using l[of b] l[of "tl b"] by (auto simp: buf_int_def Let_def split: option.splits if_splits)
qed

lemma buf_str_le: "fst (buf_str b) \<le> length b"
  by (simp add: buf_str_def Let_def split: prod.splits)

lemma buf_str_pos: "fst (buf_str b) \<noteq> 0 \<Longrightarrow> b \<noteq> []"
  using buf_str_le[of b] by auto

function (sequential) decode_dict :: "bytes \<Rightarrow> bytes option \<Rightarrow> nat"
  and dict_loop :: "bytes \<Rightarrow> nat \<Rightarrow> bytes option \<Rightarrow> nat"
  and decode_list :: "bytes \<Rightarrow> bytes option \<Rightarrow> nat"
  and list_loop :: "bytes \<Rightarrow> nat \<Rightarrow> bytes option \<Rightarrow> nat"
  and decode_rev :: "bytes \<Rightarrow> bytes option \<Rightarrow> nat"
where
  "decode_dict b keylist = (if length b < 2 \<or> hd b \<noteq> c_d then 0 else dict_loop (tl b) 1 keylist)"
| "dict_loop b dl keylist =
     (if b = [] then 0
      else if hd b = c_e then (if keylist \<noteq> None then 0 else dl + 1)
      else let (rl, pkey) = buf_str b
      in if rl = 0 \<or> KEYNAME_SIZ < length pkey then 0
      else if keylist \<noteq> None \<and> compare_key pkey (the keylist) = 0 then
        (let kl = next_key (the keylist)
         in if kl = [] then dl + rl
            else let r = decode_dict (drop rl b) (Some kl)
                 in if r = 0 then 0 else dl + rl + r)
      else let r = decode_rev (drop rl b) None
           in if r = 0 then 0 else dict_loop (drop (rl + r) b) (dl + rl + r) keylist)"
| "decode_list b keylist = (if length b < 2 \<or> hd b \<noteq> c_l then 0 else list_loop (tl b) 1 keylist)"
| "list_loop b ll keylist =
     (if b = [] then 0
      else if hd b = c_e then ll + 1
      else let rl = decode_rev b keylist
           in if rl = 0 then 0 else list_loop (drop rl b) (ll + rl) keylist)"
| "decode_rev b keylist =
     (if b = [] then 0
      else if hd b = c_i then decode_int b
      else if hd b = c_d then decode_dict b keylist
      else if hd b = c_l then decode_list b keylist
      else decode_str b)"
  by pat_completeness auto
termination
  by (relation "measure (\<lambda>x. case x of
      Inl (Inl (b, _)) \<Rightarrow> 3 * length b
    | Inl (Inr (b, _, _)) \<Rightarrow> 3 * length b + 1
    | Inr (Inl (b, _)) \<Rightarrow> 3 * length b
    | Inr (Inr (Inl (b, _, _))) \<Rightarrow> 3 * length b + 2
    | Inr (Inr (Inr (b, _))) \<Rightarrow> 3 * length b + 1)") auto

declare decode_dict.simps [simp del] dict_loop.simps [simp del] decode_list.simps [simp del]
  list_loop.simps [simp del] decode_rev.simps [simp del]

text \<open>
  \<^verbatim>\<open>decode_query\<close>; the three methods have their own result types here.  The key list is
  copied into 256 bytes; the code's own key lists are shorter.
\<close>

definition decode_query_str :: "bytes \<Rightarrow> bytes \<Rightarrow> nat \<times> bytes" where
  "decode_query_str b keylist =
     (let pos = decode_rev b (Some keylist) in if pos = 0 then (0, []) else buf_str (drop pos b))"

definition decode_query_int :: "bytes \<Rightarrow> bytes \<Rightarrow> nat \<times> int" where
  "decode_query_int b keylist =
     (let pos = decode_rev b (Some keylist) in if pos = 0 then (0, 0) else buf_int (drop pos b) (Some c_i) c_e)"

definition decode_query_pos :: "bytes \<Rightarrow> bytes \<Rightarrow> nat \<times> nat" where
  "decode_query_pos b keylist =
     (let pos = decode_rev b (Some keylist) in if pos = 0 then (0, 0) else (pos, decode_rev (drop pos b) None))"

section \<open>Writing\<close>

type_synonym ofile = "bytes \<times> nat"

text \<open>\<^verbatim>\<open>fwrite(s, len, 1, fp) != 1\<close>: no object is written when its size is 0.\<close>

definition fwrite1 :: "bytes \<Rightarrow> ofile \<Rightarrow> bool \<times> ofile" where
  "fwrite1 s fp =
     (let (out, room) = fp
      in if s = [] then (False, fp)
         else if length s \<le> room then (True, (out @ s, room - length s))
         else (False, (out @ take room s, 0)))"

definition fputc :: "u8 \<Rightarrow> ofile \<Rightarrow> bool \<times> ofile" where
  "fputc c fp = (let (out, room) = fp in if room = 0 then (False, fp) else (True, (out @ [c], room - 1)))"

fun dec_nat :: "nat \<Rightarrow> bytes" where
  "dec_nat n = (if n < 10 then [48 + of_nat n] else dec_nat (n div 10) @ [48 + of_nat (n mod 10)])"

declare dec_nat.simps [simp del]

definition dec_int :: "int \<Rightarrow> bytes" where
  "dec_int i = (if i < 0 then c_minus # dec_nat (nat (- i)) else dec_nat (nat i))"

definition bencode_buf :: "bytes \<Rightarrow> ofile \<Rightarrow> bool \<times> ofile" where
  "bencode_buf buf fp =
     (let slen = dec_int (sint (of_nat (length buf) :: u32)) @ [c_colon]
      in if MAX_INT_SIZ \<le> length slen then (False, fp)
         else let (ok, fp) = fwrite1 slen fp
         in if \<not> ok then (False, fp) else fwrite1 buf fp)"

definition bencode_str :: "bytes \<Rightarrow> ofile \<Rightarrow> bool \<times> ofile" where
  "bencode_str str fp = bencode_buf str fp"

definition bencode_int :: "int \<Rightarrow> ofile \<Rightarrow> bool \<times> ofile" where
  "bencode_int integer fp =
     (let (ok, fp) = fputc c_i fp
      in if \<not> ok then (False, fp)
         else let buf = dec_int integer
         in if MAX_INT_SIZ \<le> length buf then (False, fp)
         else let (ok, fp) = fwrite1 buf fp
         in if \<not> ok then (False, fp) else fputc c_e fp)"

definition bencode_begin_dict :: "ofile \<Rightarrow> bool \<times> ofile" where
  "bencode_begin_dict fp = fputc c_d fp"

definition bencode_begin_list :: "ofile \<Rightarrow> bool \<times> ofile" where
  "bencode_begin_list fp = fputc c_l fp"

definition bencode_end_dict_list :: "ofile \<Rightarrow> bool \<times> ofile" where
  "bencode_end_dict_list fp = fputc c_e fp"

function path_items :: "bytes \<Rightarrow> ofile \<Rightarrow> bool \<times> ofile" where
  "path_items p fp =
     (if p = [] then bencode_end_dict_list fp
      else if PATH_SP \<in> set p then
        (let (ok, fp) = bencode_buf (takeWhile (\<lambda>c. c \<noteq> PATH_SP) p) fp
         in if \<not> ok then (False, fp) else path_items (tl (dropWhile (\<lambda>c. c \<noteq> PATH_SP) p)) fp)
      else
        (let (ok, fp) = bencode_str p fp
         in if \<not> ok then (False, fp) else bencode_end_dict_list fp))"
  by pat_completeness auto
termination
proof (relation "measure (\<lambda>(p, _). length p)", goal_cases)
  case (2 p fp)
  have "length (dropWhile (\<lambda>c. c \<noteq> PATH_SP) p) \<le> length p" by (rule length_dropWhile_le)
  then have "length (tl (dropWhile (\<lambda>c. c \<noteq> PATH_SP) p)) < length p" using 2(1) by (cases p) auto
  then show ?case by simp
qed simp

declare path_items.simps [simp del]

definition bencode_path2list :: "bytes \<Rightarrow> ofile \<Rightarrow> bool \<times> ofile" where
  "bencode_path2list pathname fp =
     (let (ok, fp) = bencode_begin_list fp in if \<not> ok then (False, fp) else path_items pathname fp)"

section \<open>From a list to a path name\<close>

text \<open>
  \<open>buf\<close> is the caller's array of \<^verbatim>\<open>maxlen\<close> bytes and \<open>at\<close> the place of \<^verbatim>\<open>pathname\<close> in
  it; \<open>room\<close> is the variable \<^verbatim>\<open>maxlen\<close>, which the code decrements, and \<open>endmax\<close> its
  initial value minus one.  A read or write outside of the arrays is the result \<^term>\<open>None\<close>.
\<close>

definition poke :: "bytes \<Rightarrow> nat \<Rightarrow> bytes \<Rightarrow> bytes option" where
  "poke buf at s = (if at + length s \<le> length buf then Some (memcpy_to buf at s (length s)) else None)"

lemma drop_shorter: "drop r pb = c # cs \<Longrightarrow> 0 < r \<Longrightarrow> Suc (length cs) < length pb"
proof -
  assume d: "drop r pb = c # cs" and r: "0 < r"
  have "length (drop r pb) = length pb - r" by simp
  then show ?thesis using d r by simp
qed

function list2path_loop :: "bytes \<Rightarrow> nat \<Rightarrow> bytes \<Rightarrow> nat \<Rightarrow> nat \<Rightarrow> nat \<Rightarrow> (nat \<times> bytes) option" where
  "list2path_loop pb taken buf at room endmax =
     (if pb = [] \<or> endmax \<le> at then map_option (\<lambda>buf. (taken + 1, buf)) (poke buf at [0])
      else let (r, s) = buf_str pb
      in if r = 0 then Some (0, buf)
      else if room \<le> length s then Some (0, buf)
      else case poke buf at s of
             None \<Rightarrow> None
           | Some buf \<Rightarrow>
              (let at = at + length s; room = room - length s; pb = drop r pb
               in case pb of
                    [] \<Rightarrow> None
                  | c # _ \<Rightarrow>
                      (if c = c_e then map_option (\<lambda>buf. (taken + r + 1, buf)) (poke buf at [0])
                       else if endmax \<le> at then Some (0, buf)
                       else case poke buf at [PATH_SP] of
                              None \<Rightarrow> None
                            | Some buf \<Rightarrow> list2path_loop pb (taken + r) buf (at + 1) room endmax)))"
  by pat_completeness auto
termination
  by (relation "measure (\<lambda>(pb, _). length pb)") (auto dest!: drop_shorter)

definition decode_list2path :: "bytes \<Rightarrow> bytes \<Rightarrow> nat \<Rightarrow> (nat \<times> bytes) option" where
  "decode_list2path b pathname maxlen =
     (case b of
        [] \<Rightarrow> None
      | c # pb \<Rightarrow>
          (if c \<noteq> c_l then Some (0, pathname)
           else if pb = [] then Some (0, pathname)
           else list2path_loop pb 1 pathname 0 maxlen (maxlen - 1)))"

section \<open>Scanners stay inside the buffer\<close>

lemma decode_bounds:
  "decode_dict b kl \<le> length b"
  "dict_loop b dl kl \<le> dl + length b"
  "decode_list b kl \<le> length b"
  "list_loop b ll kl \<le> ll + length b"
  "decode_rev b kl \<le> length b"
proof (induction b kl and b dl kl and b kl and b ll kl and b kl
    rule: decode_dict_dict_loop_decode_list_list_loop_decode_rev.induct)
  case (1 b kl)
  show ?case
  proof (cases "length b < 2 \<or> hd b \<noteq> c_d")
    case False
    then show ?thesis using 1[OF False] by (subst decode_dict.simps) (cases b; simp)
  qed (simp add: decode_dict.simps)
next
  case (2 b dl kl)
  obtain rl pkey where bs: "buf_str b = (rl, pkey)" by force
  have rl: "rl \<le> length b" using buf_str_le[of b] bs by simp
  let ?r = "decode_rev (drop rl b) None"
  show ?case
  proof (cases "b = [] \<or> hd b = c_e \<or> rl = 0 \<or> KEYNAME_SIZ < length pkey")
    case True
    then show ?thesis using bs by (subst dict_loop.simps) (cases b; auto)
  next
    case False
    then have c: "b \<noteq> []" "hd b \<noteq> c_e" "\<not> (rl = 0 \<or> KEYNAME_SIZ < length pkey)" by auto
    note IH = 2[OF c(1,2) bs[symmetric] refl c(3)]
    show ?thesis
    proof (cases "kl \<noteq> None \<and> compare_key pkey (the kl) = 0")
      case m: True
      show ?thesis
      proof (cases "next_key (the kl) = []")
        case True
        then show ?thesis using c bs m rl by (subst dict_loop.simps) simp
      next
        case f: False
        then show ?thesis using c bs m rl IH(1)[OF m refl f]
          by (subst dict_loop.simps) (simp add: Let_def, linarith)
      qed
    next
      case m: False
      show ?thesis
      proof (cases "?r = 0")
        case True
        then show ?thesis using c bs m by (subst dict_loop.simps) auto
      next
        case r: False
        have "?r \<le> length (drop rl b)" by (rule IH(2)[OF m])
        moreover have "dict_loop (drop (rl + ?r) b) (dl + rl + ?r) kl \<le> dl + rl + ?r + length (drop (rl + ?r) b)"
          by (rule IH(3)[OF m refl r])
        moreover have "dict_loop b dl kl = dict_loop (drop (rl + ?r) b) (dl + rl + ?r) kl"
          using c bs m r by (subst dict_loop.simps) (auto simp: Let_def)
        ultimately show ?thesis using rl by simp
      qed
    qed
  qed
next
  case (3 b kl)
  show ?case
  proof (cases "length b < 2 \<or> hd b \<noteq> c_l")
    case False
    then show ?thesis using 3[OF False] by (subst decode_list.simps) (cases b; simp)
  qed (simp add: decode_list.simps)
next
  case (4 b ll kl)
  show ?case
  proof (cases "b = [] \<or> hd b = c_e \<or> decode_rev b kl = 0")
    case True
    then show ?thesis by (subst list_loop.simps) (cases b; auto)
  next
    case False
    then have c: "b \<noteq> []" "hd b \<noteq> c_e" "decode_rev b kl \<noteq> 0" by auto
    then show ?thesis using 4(1)[OF c(1,2)] 4(2)[OF c(1,2) refl c(3)]
      by (subst list_loop.simps) (simp add: Let_def)
  qed
next
  case (5 b kl)
  show ?case
    using 5 buf_int_le[of b] buf_str_le[of b]
    by (subst decode_rev.simps) (simp add: decode_int_def decode_str_def)
qed

section \<open>Decimal numbers\<close>

lemma isdigit_iff: "isdigit c \<longleftrightarrow> 48 \<le> unat c \<and> unat c \<le> 57"
  by (simp add: isdigit_def word_le_nat_alt)

lemma unat_digit: "d < 10 \<Longrightarrow> unat (48 + of_nat d :: u8) = 48 + d"
  by (simp add: unat_word_ariths unat_of_nat_u8)

lemma mod10_le: "n mod 10 \<le> (9 :: nat)"
  using mod_less_divisor[of 10 n] by simp

lemma dec_nat_digits: "\<forall>c\<in>set (dec_nat n). isdigit c"
  by (induction n rule: dec_nat.induct) (subst dec_nat.simps, simp add: isdigit_iff unat_digit mod10_le)

lemma dec_nat_ne [simp]: "dec_nat n \<noteq> []"
  by (subst dec_nat.simps) simp

lemma digits_val_append: "digits_val n (xs @ ys) = digits_val (digits_val n xs) ys"
  by (induction xs arbitrary: n) simp_all

lemma digits_val_dec [simp]: "digits_val 0 (dec_nat n) = n"
proof (induction n rule: dec_nat.induct)
  case (1 n)
  show ?case
  proof (cases "n < 10")
    case True
    then show ?thesis by (subst dec_nat.simps) (simp add: unat_digit)
  next
    case False
    then show ?thesis using 1 by (subst dec_nat.simps) (simp add: digits_val_append unat_digit)
  qed
qed

lemma dec_nat_length: "n < 10 ^ Suc k \<Longrightarrow> length (dec_nat n) \<le> Suc k"
proof (induction k arbitrary: n)
  case 0
  then show ?case by (subst dec_nat.simps) simp
next
  case (Suc k)
  have "n div 10 < 10 ^ Suc k" using Suc.prems by (simp add: less_mult_imp_div_less)
  then show ?case using Suc.IH[of "n div 10"] by (subst dec_nat.simps) simp
qed

lemma takeWhile_digits:
  assumes "\<not> isdigit c"
  shows "takeWhile isdigit (dec_nat n @ c # rest) = dec_nat n" "dropWhile isdigit (dec_nat n @ c # rest) = c # rest"
  using dec_nat_digits[of n] assms by (simp_all add: takeWhile_append2 dropWhile_append2)

definition small :: "nat \<Rightarrow> bool" where
  "small n \<longleftrightarrow> n < 9223372036854775808"

lemma small_length: "small n \<Longrightarrow> length (dec_nat n) \<le> 19"
  using dec_nat_length[of n 18] by (simp add: small_def)

lemma buf_int_dec:
  assumes "small n" "\<not> isdigit ec"
  shows "buf_int (dec_nat n @ ec # rest) None ec = (length (dec_nat n) + 1, int n)"
    "\<not> isdigit bc \<Longrightarrow> buf_int (bc # dec_nat n @ ec # rest) (Some bc) ec = (length (dec_nat n) + 2, int n)"
proof -
  have l: "0 < length (dec_nat n)" by simp
  have v: "strtoll_digits (dec_nat n) = int n" using assms(1) by (simp add: strtoll_digits_def small_def)
  note t = takeWhile_digits[OF assms(2), of n rest] small_length[OF assms(1)]
  show "buf_int (dec_nat n @ ec # rest) None ec = (length (dec_nat n) + 1, int n)"
    using l t v by (simp add: buf_int_def Let_def del: length_greater_0_conv)
  show "buf_int (bc # dec_nat n @ ec # rest) (Some bc) ec = (length (dec_nat n) + 2, int n)"
    using l t v by (simp add: buf_int_def Let_def del: length_greater_0_conv)
qed

section \<open>Encoded values\<close>

text \<open>The values bencoding stands for, and their encoding as the writers produce it.\<close>

datatype bval = BInt int | BStr bytes | BList "bval list" | BDict "(bytes \<times> bval) list"

definition enc_str :: "bytes \<Rightarrow> bytes" where
  "enc_str s = dec_nat (length s) @ c_colon # s"

fun enc :: "bval \<Rightarrow> bytes" where
  "enc (BInt i) = c_i # dec_int i @ [c_e]"
| "enc (BStr s) = enc_str s"
| "enc (BList vs) = c_l # concat (map enc vs) @ [c_e]"
| "enc (BDict kvs) = c_d # concat (map (\<lambda>(k, v). enc_str k @ enc v) kvs) @ [c_e]"

definition key_ok :: "bytes \<Rightarrow> bool" where
  "key_ok k \<longleftrightarrow> k \<noteq> [] \<and> length k \<le> KEYNAME_SIZ \<and> KEY_SP \<notin> set k"

fun wf_val :: "bval \<Rightarrow> bool" where
  "wf_val (BInt i) = (0 \<le> i \<and> small (nat i))"
| "wf_val (BStr s) = small (length s)"
| "wf_val (BList vs) = list_all wf_val vs"
| "wf_val (BDict kvs) = list_all (\<lambda>(k, v). key_ok k \<and> wf_val v) kvs"

abbreviation enc_pairs :: "(bytes \<times> bval) list \<Rightarrow> bytes" where
  "enc_pairs kvs \<equiv> concat (map (\<lambda>(k, v). enc_str k @ enc v) kvs)"

lemma colon_not_digit [simp]: "\<not> isdigit c_colon" "\<not> isdigit c_e" "\<not> isdigit c_i" "\<not> isdigit c_d" "\<not> isdigit c_l"
  by (simp_all add: isdigit_iff)

lemma buf_str_enc: "small (length s) \<Longrightarrow> buf_str (enc_str s @ rest) = (length (enc_str s), s)"
  using buf_int_dec(1)[of "length s" c_colon "s @ rest"] by (simp add: buf_str_def enc_str_def Let_def)

lemma hd_enc_str: "isdigit (hd (enc_str s @ rest))"
  using dec_nat_digits[of "length s"] by (simp add: enc_str_def)

lemma enc_str_ne [simp]: "enc_str s \<noteq> []" "0 < length (enc_str s)"
  by (simp_all add: enc_str_def)

lemma enc_ne [simp]: "enc v \<noteq> []"
  by (cases v) simp_all

lemma decode_rev_str:
  assumes "small (length s)"
  shows "decode_rev (enc_str s @ rest) kl = length (enc_str s)"
proof -
  have "hd (enc_str s @ rest) \<notin> {c_i, c_d, c_l}" using hd_enc_str[of s rest] by (auto simp: isdigit_iff)
  then show ?thesis using buf_str_enc[OF assms] by (subst decode_rev.simps) (simp add: decode_str_def)
qed

lemma dict_loop_pair:
  assumes "key_ok k"
  shows "dict_loop (enc_str k @ b) dl kl =
    (if kl \<noteq> None \<and> compare_key k (the kl) = 0 then
       (let kl = next_key (the kl)
        in if kl = [] then dl + length (enc_str k)
           else let r = decode_dict b (Some kl) in if r = 0 then 0 else dl + length (enc_str k) + r)
     else let r = decode_rev b None
          in if r = 0 then 0 else dict_loop (drop r b) (dl + length (enc_str k) + r) kl)"
proof -
  have "hd (enc_str k @ b) \<noteq> c_e" using hd_enc_str[of k b] by (auto simp: isdigit_iff)
  moreover have "small (length k)" "length k \<le> KEYNAME_SIZ" using assms by (auto simp: key_ok_def small_def)
  ultimately show ?thesis using buf_str_enc[of k b]
    by (subst dict_loop.simps) (simp add: Let_def)
qed

text \<open>A key-less scan takes exactly one encoded value.\<close>

lemma dict_loop_all:
  assumes "\<And>k v rest. (k, v) \<in> set kvs \<Longrightarrow> decode_rev (enc v @ rest) None = length (enc v)"
    and "\<forall>(k, v)\<in>set kvs. key_ok k"
  shows "dict_loop (enc_pairs kvs @ c_e # rest) dl None = dl + length (enc_pairs kvs) + 1"
  using assms
proof (induction kvs arbitrary: dl)
  case Nil
  show ?case by (subst dict_loop.simps) simp
next
  case (Cons kv kvs)
  obtain k v where kv: "kv = (k, v)" by force
  then have k: "key_ok k" using Cons.prems(2) by auto
  have v: "decode_rev (enc v @ enc_pairs kvs @ c_e # rest) None = length (enc v)"
    using Cons.prems(1)[of k v] kv by simp
  have "dict_loop (enc_pairs kvs @ c_e # rest) d None = d + length (enc_pairs kvs) + 1" for d
    using Cons.prems by (intro Cons.IH) auto
  then show ?case using v by (simp add: kv dict_loop_pair[OF k] Let_def)
qed

lemma list_loop_all:
  assumes "\<And>v rest. v \<in> set vs \<Longrightarrow> decode_rev (enc v @ rest) kl = length (enc v)"
    and "\<And>v rest. v \<in> set vs \<Longrightarrow> hd (enc v @ rest) \<noteq> c_e"
  shows "list_loop (concat (map enc vs) @ c_e # rest) ll kl = ll + length (concat (map enc vs)) + 1"
  using assms
proof (induction vs arbitrary: ll)
  case Nil
  show ?case by (subst list_loop.simps) simp
next
  case (Cons v vs)
  let ?r = "concat (map enc vs) @ c_e # rest"
  have "decode_rev (enc v @ ?r) kl = length (enc v)" "hd (enc v @ ?r) \<noteq> c_e"
    using Cons.prems(1)[of v ?r] Cons.prems(2)[of v ?r] by simp_all
  moreover have "list_loop ?r d kl = d + length (concat (map enc vs)) + 1" for d
    using Cons.prems by (intro Cons.IH) auto
  ultimately show ?case by (subst list_loop.simps) (simp add: Let_def)
qed

lemma hd_enc: "hd (enc v @ rest) \<noteq> c_e"
proof (cases v)
  case (BStr s)
  then show ?thesis using hd_enc_str[of s rest] colon_not_digit(2) by (metis enc.simps(2))
qed simp_all

lemma dec_int_nonneg: "0 \<le> i \<Longrightarrow> dec_int i = dec_nat (nat i)"
  by (simp add: dec_int_def)

lemma buf_int_enc:
  assumes "wf_val (BInt i)"
  shows "buf_int (enc (BInt i) @ rest) (Some c_i) c_e = (length (enc (BInt i)), i)"
  using buf_int_dec(2)[of "nat i" c_e c_i rest] assms by (simp add: dec_int_nonneg)

lemma decode_rev_enc: "wf_val v \<Longrightarrow> decode_rev (enc v @ rest) None = length (enc v)"
proof (induction v arbitrary: rest)
  case (BInt i)
  then show ?case using buf_int_enc[of i rest] by (subst decode_rev.simps) (simp add: decode_int_def)
next
  case (BStr s)
  then show ?case by (simp add: decode_rev_str)
next
  case (BList vs)
  have "list_loop (concat (map enc vs) @ c_e # rest) 1 None = 1 + length (concat (map enc vs)) + 1"
    by (rule list_loop_all) (use BList hd_enc in \<open>auto simp: list_all_iff\<close>)
  then show ?case by (subst decode_rev.simps) (simp add: decode_list.simps)
next
  case (BDict kvs)
  have "dict_loop (enc_pairs kvs @ c_e # rest) 1 None = 1 + length (enc_pairs kvs) + 1"
    by (rule dict_loop_all) (use BDict in \<open>auto simp: list_all_iff\<close>)
  then show ?case by (subst decode_rev.simps) (simp add: decode_dict.simps)
qed

section \<open>Queries\<close>

text \<open>The value below a path of keys; a dictionary answers with its first entry of a name.\<close>

fun lookup_path :: "bytes list \<Rightarrow> bval \<Rightarrow> bval option" where
  "lookup_path [] v = Some v"
| "lookup_path (k # ks) (BDict kvs) = (case map_of kvs k of None \<Rightarrow> None | Some v \<Rightarrow> lookup_path ks v)"
| "lookup_path (k # ks) _ = None"

fun join_keys :: "bytes list \<Rightarrow> bytes" where
  "join_keys [] = []"
| "join_keys [k] = k"
| "join_keys (k # ks) = k @ KEY_SP # join_keys ks"

lemma compare_key_exact: "KEY_SP \<notin> set k \<Longrightarrow> KEY_SP \<notin> set j \<Longrightarrow> compare_key j k = 0 \<longleftrightarrow> j = k"
  by (induction j k rule: compare_key.induct) auto

lemma compare_key_sep: "KEY_SP \<notin> set k \<Longrightarrow> KEY_SP \<notin> set j \<Longrightarrow> compare_key j (k @ KEY_SP # kl) = 0 \<longleftrightarrow> j = k"
proof (induction k arbitrary: j)
  case Nil
  then show ?case by (cases j) auto
next
  case (Cons c k)
  then show ?case by (cases j) auto
qed

lemma compare_join:
  "KEY_SP \<notin> set k \<Longrightarrow> KEY_SP \<notin> set j \<Longrightarrow> compare_key j (join_keys (k # ks)) = 0 \<longleftrightarrow> j = k"
  by (cases ks) (simp_all add: compare_key_exact compare_key_sep)

lemma next_key_sep: "KEY_SP \<notin> set k \<Longrightarrow> next_key (k @ KEY_SP # kl) = kl"
  by (induction k) auto

lemma next_key_end: "KEY_SP \<notin> set k \<Longrightarrow> next_key k = []"
  by (induction k) auto

lemma next_join: "KEY_SP \<notin> set k \<Longrightarrow> next_key (join_keys (k # ks)) = join_keys ks"
  by (cases ks) (simp_all add: next_key_sep next_key_end)

lemma join_keys_Nil: "\<forall>k\<in>set ks. key_ok k \<Longrightarrow> join_keys ks = [] \<longleftrightarrow> ks = []"
  by (cases ks rule: join_keys.cases) (auto simp: key_ok_def)

lemma dict_loop_find:
  assumes "list_all (\<lambda>(k, v). key_ok k \<and> wf_val v) kvs" "\<forall>k\<in>set (k # ks). key_ok k"
  shows "dict_loop (enc_pairs kvs @ c_e # rest) dl (Some (join_keys (k # ks))) =
    (case map_of kvs k of None \<Rightarrow> 0
     | Some v \<Rightarrow>
        (let pre = takeWhile (\<lambda>(j, v). j \<noteq> k) kvs; post = tl (dropWhile (\<lambda>(j, v). j \<noteq> k) kvs);
             pos = dl + length (enc_pairs pre) + length (enc_str k)
         in if ks = [] then pos
            else let r = decode_dict (enc v @ enc_pairs post @ c_e # rest) (Some (join_keys ks))
                 in if r = 0 then 0 else pos + r))"
  using assms
proof (induction kvs arbitrary: dl)
  case Nil
  show ?case by (subst dict_loop.simps) simp
next
  case (Cons kv kvs)
  obtain j v where kv: "kv = (j, v)" by force
  have ok: "key_ok j" "wf_val v" "key_ok k" "\<forall>k\<in>set ks. key_ok k"
    "list_all (\<lambda>(k, v). key_ok k \<and> wf_val v) kvs" using Cons.prems kv by auto
  have sp: "KEY_SP \<notin> set j" "KEY_SP \<notin> set k" using ok by (auto simp: key_ok_def)
  note P = dict_loop_pair[OF ok(1), of "enc v @ enc_pairs kvs @ c_e # rest" dl "Some (join_keys (k # ks))"]
  show ?case
  proof (cases "j = k")
    case True
    then show ?thesis using P compare_join[OF sp(2,1)] next_join[OF sp(2)] join_keys_Nil[OF ok(4)]
      by (simp add: kv Let_def)
  next
    case False
    then show ?thesis using P compare_join[OF sp(2,1)] decode_rev_enc[OF ok(2)]
        Cons.IH[OF ok(5), of "dl + length (enc_str j) + length (enc v)"] Cons.prems(2)
      by (cases "map_of kvs k") (simp_all add: kv Let_def add.assoc)
  qed
qed

lemma not_dict_decode:
  assumes "\<forall>kvs. v \<noteq> BDict kvs"
  shows "decode_dict (enc v @ rest) kl = 0"
proof -
  have "hd (enc v @ rest) \<noteq> c_d"
  proof (cases v)
    case (BStr s)
    then show ?thesis using hd_enc_str[of s rest] colon_not_digit(4) by (metis enc.simps(2))
  qed (use assms in simp_all)
  then show ?thesis by (simp add: decode_dict.simps)
qed

text \<open>\<open>finds b r ov\<close>: \<open>r\<close> is the place of the value \<open>ov\<close> in \<open>b\<close>, or 0 if there is none.\<close>

definition finds :: "bytes \<Rightarrow> nat \<Rightarrow> bval option \<Rightarrow> bool" where
  "finds b r ov = (case ov of None \<Rightarrow> r = 0 | Some v \<Rightarrow> 0 < r \<and> (\<exists>rest. drop r b = enc v @ rest))"

lemma map_of_split:
  assumes "map_of kvs k = Some v"
  shows "kvs = takeWhile (\<lambda>(j, v). j \<noteq> k) kvs @ (k, v) # tl (dropWhile (\<lambda>(j, v). j \<noteq> k) kvs)"
  using assms by (induction kvs) (auto split: if_splits)

lemma decode_dict_finds:
  assumes "wf_val (BDict kvs)" "\<forall>k\<in>set (k # ks). key_ok k"
  shows "finds (enc (BDict kvs) @ rest) (decode_dict (enc (BDict kvs) @ rest) (Some (join_keys (k # ks))))
    (lookup_path (k # ks) (BDict kvs))"
  using assms
proof (induction ks arbitrary: k kvs rest)
  case Nil
  have D: "decode_dict (enc (BDict kvs) @ rest) (Some (join_keys [k])) =
      dict_loop (enc_pairs kvs @ c_e # rest) 1 (Some (join_keys [k]))"
    by (subst decode_dict.simps) simp
  show ?case
  proof (cases "map_of kvs k")
    case None
    then show ?thesis unfolding D using dict_loop_find[of kvs k "[]"] Nil.prems by (simp add: finds_def)
  next
    case (Some v)
    define pre post where "pre = takeWhile (\<lambda>(j, v). j \<noteq> k) kvs" and "post = tl (dropWhile (\<lambda>(j, v). j \<noteq> k) kvs)"
    have kvs: "kvs = pre @ (k, v) # post" using map_of_split[OF Some] by (simp add: pre_def post_def)
    have "dict_loop (enc_pairs kvs @ c_e # rest) 1 (Some (join_keys [k])) = 1 + length (enc_pairs pre) + length (enc_str k)"
      using dict_loop_find[of kvs k "[]" rest 1] Nil.prems Some by (simp add: pre_def)
    moreover have "drop (1 + length (enc_pairs pre) + length (enc_str k)) (enc (BDict kvs) @ rest) =
        enc v @ enc_pairs post @ c_e # rest" by (simp add: kvs)
    ultimately show ?thesis unfolding D using Some by (auto simp: finds_def)
  qed
next
  case (Cons j ks)
  have D: "decode_dict (enc (BDict kvs) @ rest) (Some (join_keys (k # j # ks))) =
      dict_loop (enc_pairs kvs @ c_e # rest) 1 (Some (join_keys (k # j # ks)))"
    by (subst decode_dict.simps) simp
  show ?case
  proof (cases "map_of kvs k")
    case None
    then show ?thesis unfolding D using dict_loop_find[of kvs k "j # ks"] Cons.prems by (simp add: finds_def)
  next
    case (Some v)
    define pre post where "pre = takeWhile (\<lambda>(j, v). j \<noteq> k) kvs" and "post = tl (dropWhile (\<lambda>(j, v). j \<noteq> k) kvs)"
    have kvs: "kvs = pre @ (k, v) # post" using map_of_split[OF Some] by (simp add: pre_def post_def)
    let ?b = "enc v @ enc_pairs post @ c_e # rest"
    let ?r = "decode_dict ?b (Some (join_keys (j # ks)))" and ?p = "1 + length (enc_pairs pre) + length (enc_str k)"
    have L: "dict_loop (enc_pairs kvs @ c_e # rest) 1 (Some (join_keys (k # j # ks))) = (if ?r = 0 then 0 else ?p + ?r)"
      using dict_loop_find[of kvs k "j # ks" rest 1] Cons.prems Some
      by (simp add: pre_def post_def Let_def)
    have dr: "drop ?p (enc (BDict kvs) @ rest) = ?b" by (simp add: kvs)
    have F: "finds ?b ?r (lookup_path (j # ks) v)"
    proof (cases "\<exists>kvs. v = BDict kvs")
      case True
      then obtain kvs' where v: "v = BDict kvs'" by blast
      have "wf_val v" using Cons.prems(1) kvs by (auto simp: list_all_iff)
      then show ?thesis using Cons.IH[of kvs' j "enc_pairs post @ c_e # rest"] Cons.prems(2) v by simp
    next
      case False
      then have "lookup_path (j # ks) v = None" by (cases v) auto
      then show ?thesis using False not_dict_decode[of v] by (simp add: finds_def)
    qed
    have "drop (?p + r) (enc (BDict kvs) @ rest) = drop r ?b" for r
      unfolding dr[symmetric] drop_drop add.commute[of r] ..
    then show ?thesis unfolding D L using F Some by (auto simp: finds_def split: option.splits)
  qed
qed


text \<open>An example: \<^verbatim>\<open>d4:infod6:lengthi7eee\<close>.\<close>

definition ex_val :: bval where
  "ex_val = BDict [([105, 110, 102, 111], BDict [([108, 101, 110, 103, 116, 104], BInt 7)])]"


text \<open>
  C37: The scanners never take more bytes than the buffer holds, whatever its contents, and they
  take exactly the bytes of a well-formed value, leaving what follows alone.
\<close>

theorem decode_rev_exact:
  "(\<forall>b kl. decode_rev b kl \<le> length b) \<and>
   (\<forall>v rest. wf_val v \<longrightarrow> decode_rev (enc v @ rest) None = length (enc v))"
  using decode_bounds(5) decode_rev_enc by blast

theorem decode_rev_exact_witness:
  "decode_rev (enc ex_val @ [1, 2]) None = length (enc ex_val)"
  using decode_rev_exact by (simp add: ex_val_def key_ok_def small_def del: enc.simps)

section \<open>The writers\<close>

text \<open>\<open>writes f s\<close>: \<open>f\<close> succeeds and appends \<open>s\<close> wherever there is room for it.\<close>

definition writes :: "(ofile \<Rightarrow> bool \<times> ofile) \<Rightarrow> bytes \<Rightarrow> bool" where
  "writes f s \<longleftrightarrow> (\<forall>out room. length s \<le> room \<longrightarrow> f (out, room) = (True, (out @ s, room - length s)))"

lemma writes_seq:
  assumes "writes f s" "writes g t"
  shows "writes (\<lambda>fp. let (ok, fp) = f fp in if \<not> ok then (False, fp) else g fp) (s @ t)"
  using assms unfolding writes_def by (auto simp: Let_def)

lemma writes_fwrite1: "s \<noteq> [] \<Longrightarrow> writes (fwrite1 s) s"
  by (simp add: writes_def fwrite1_def)

lemma writes_fputc: "writes (fputc c) [c]"
  by (auto simp: writes_def fputc_def)

lemma sint_len:
  "n < 2147483648 \<Longrightarrow> sint (of_nat n :: u32) = int n"
  by (simp add: signed_of_nat signed_take_bit_int_eq_self)

lemma writes_bencode_buf:
  assumes "s \<noteq> []" "length s < 2147483648"
  shows "writes (bencode_buf s) (enc_str s)"
proof -
  have "length (dec_nat (length s)) \<le> 19" using small_length[of "length s"] assms(2) by (simp add: small_def)
  then have "bencode_buf s = (\<lambda>fp. let (ok, fp) = fwrite1 (dec_nat (length s) @ [c_colon]) fp
      in if \<not> ok then (False, fp) else fwrite1 s fp)"
    using sint_len[OF assms(2)] by (intro ext) (simp add: bencode_buf_def dec_int_def)
  then show ?thesis
    using writes_seq[OF writes_fwrite1 writes_fwrite1[OF assms(1)], of "dec_nat (length s) @ [c_colon]"]
    by (simp add: enc_str_def)
qed

lemma writes_bencode_int:
  assumes "0 \<le> i" "small (nat i)"
  shows "writes (bencode_int i) (enc (BInt i))"
proof -
  have l: "length (dec_int i) \<le> 19" using small_length[OF assms(2)] assms(1) by (simp add: dec_int_def)
  have ne: "dec_int i \<noteq> []" using assms(1) by (simp add: dec_int_def)
  have "bencode_int i = (\<lambda>fp. let (ok, fp) = fputc c_i fp in if \<not> ok then (False, fp) else
      (\<lambda>fp. let (ok, fp) = fwrite1 (dec_int i) fp in if \<not> ok then (False, fp) else fputc c_e fp) fp)"
    using l by (intro ext) (auto simp: bencode_int_def Let_def split: prod.splits)
  then show ?thesis
    using writes_seq[OF writes_fputc writes_seq[OF writes_fwrite1[OF ne] writes_fputc], of c_i c_e] by simp
qed

text \<open>A negative number is written but not read back; an empty string is not written.\<close>

lemma bencode_int_negative:
  "bencode_int (-5) ([], 100) = (True, ([c_i, c_minus, 53, c_e], 96)) \<and> decode_rev [c_i, c_minus, 53, c_e] None = 0"
  by code_simp

lemma bencode_buf_empty: "fst (bencode_buf [] fp) = False"
  by (cases fp) (simp add: bencode_buf_def fwrite1_def dec_int_def dec_nat.simps Let_def)

section \<open>Path names\<close>

fun join_path :: "bytes list \<Rightarrow> bytes" where
  "join_path [] = []"
| "join_path [c] = c"
| "join_path (c # cs) = c @ PATH_SP # join_path cs"

definition comp_ok :: "bytes \<Rightarrow> bool" where
  "comp_ok c \<longleftrightarrow> c \<noteq> [] \<and> PATH_SP \<notin> set c \<and> length c < 2147483648"

lemma join_path_Cons: "cs \<noteq> [] \<Longrightarrow> join_path (c # cs) = c @ PATH_SP # join_path cs"
  by (cases cs) simp_all

lemma enc_path: "enc (BList (map BStr cs)) = c_l # concat (map enc_str cs) @ [c_e]"
  by (simp add: comp_def)

lemma writes_path_items:
  "\<forall>c\<in>set cs. comp_ok c \<Longrightarrow> cs \<noteq> [] \<Longrightarrow> writes (path_items (join_path cs)) (concat (map enc_str cs) @ [c_e])"
proof (induction cs)
  case (Cons c cs)
  have c: "c \<noteq> []" "PATH_SP \<notin> set c" "length c < 2147483648" using Cons.prems(1) by (auto simp: comp_ok_def)
  note w = writes_bencode_buf[OF c(1,3)]
  have e: "writes bencode_end_dict_list [c_e]"
    using writes_fputc[of c_e] by (simp add: bencode_end_dict_list_def[abs_def])
  show ?case
  proof (cases "cs = []")
    case True
    have "path_items c = (\<lambda>fp. let (ok, fp) = bencode_buf c fp in if \<not> ok then (False, fp) else bencode_end_dict_list fp)"
      using c by (intro ext) (subst path_items.simps, simp add: bencode_str_def)
    then show ?thesis using writes_seq[OF w e] True by simp
  next
    case False
    have t: "takeWhile (\<lambda>x. x \<noteq> PATH_SP) (c @ PATH_SP # join_path cs) = c"
      "dropWhile (\<lambda>x. x \<noteq> PATH_SP) (c @ PATH_SP # join_path cs) = PATH_SP # join_path cs"
      using c(2) by (auto simp: takeWhile_append dropWhile_append)
    have "path_items (join_path (c # cs)) =
      (\<lambda>fp. let (ok, fp) = bencode_buf c fp in if \<not> ok then (False, fp) else path_items (join_path cs) fp)"
      unfolding join_path_Cons[OF False] by (intro ext) (subst path_items.simps, simp add: t cong: if_cong)
    moreover have "writes (path_items (join_path cs)) (concat (map enc_str cs) @ [c_e])"
      using Cons False by simp
    ultimately show ?thesis using writes_seq[OF w] by simp
  qed
qed simp

lemma writes_path2list:
  assumes "\<forall>c\<in>set cs. comp_ok c" "cs \<noteq> []"
  shows "writes (bencode_path2list (join_path cs)) (enc (BList (map BStr cs)))"
proof -
  have "bencode_path2list (join_path cs) =
    (\<lambda>fp. let (ok, fp) = fputc c_l fp in if \<not> ok then (False, fp) else path_items (join_path cs) fp)"
    by (intro ext) (simp add: bencode_path2list_def bencode_begin_list_def)
  then show ?thesis using writes_seq[OF writes_fputc writes_path_items[OF assms], of c_l]
    by (simp add: enc_path del: enc.simps)
qed

declare list2path_loop.simps [simp del]

lemma poke_ok: "at + length s \<le> length buf \<Longrightarrow> poke buf at s = Some (take at buf @ s @ drop (at + length s) buf)"
  by (simp add: poke_def memcpy_to_def)

lemma list2path_loop_join:
  assumes "\<forall>c\<in>set cs. comp_ok c" "cs \<noteq> []"
    and "at + length (join_path cs) < length buf" "length buf \<le> at + room" "endmax = length buf - 1"
  shows "list2path_loop (concat (map enc_str cs) @ c_e # rest) taken buf at room endmax =
    Some (taken + length (concat (map enc_str cs)) + 1,
      take at buf @ join_path cs @ 0 # drop (at + length (join_path cs) + 1) buf)"
  using assms
proof (induction cs arbitrary: taken buf at room)
  case (Cons c cs)
  let ?r = "concat (map enc_str cs) @ c_e # rest"
  have c: "c \<noteq> []" "small (length c)" using Cons.prems(1) by (auto simp: comp_ok_def small_def)
  have lc: "length c \<le> length (join_path (c # cs))" by (cases cs) simp_all
  have bs: "buf_str (enc_str c @ ?r) = (length (enc_str c), c)" by (rule buf_str_enc[OF c(2)])
  have at: "at + length c < length buf" "\<not> endmax \<le> at" "\<not> room \<le> length c"
    using Cons.prems(3,4,5) lc c(1) by (cases c; simp)+
  let ?buf = "take at buf @ c @ drop (at + length c) buf"
  have pk: "poke buf at c = Some ?buf" using at(1) by (intro poke_ok) simp
  have lb: "length ?buf = length buf" using at(1) by simp
  show ?case
  proof (cases cs)
    case Nil
    have "poke ?buf (at + length c) [0] =
        Some (take (at + length c) ?buf @ [0] @ drop (at + length c + 1) ?buf)"
      using at(1) poke_ok[of "at + length c" "[0]" ?buf] by simp
    also have "take (at + length c) ?buf @ [0] @ drop (at + length c + 1) ?buf =
        take at buf @ c @ 0 # drop (at + length c + 1) buf" using at(1) by simp
    finally show ?thesis using Nil at pk bs
      by (subst list2path_loop.simps) (simp add: Let_def)
  next
    case (Cons d ds)
    let ?j = "join_path cs"
    have cs: "cs \<noteq> []" using Cons by simp
    have j: "join_path (c # cs) = c @ PATH_SP # ?j" by (rule join_path_Cons[OF cs])
    have "d \<noteq> []" using Cons.prems(1) Cons by (auto simp: comp_ok_def)
    then have "?j \<noteq> []" using Cons by (cases ds) auto
    then have jl: "0 < length ?j" by simp
    have ne: "\<not> endmax \<le> at + length c" using Cons.prems(3,5) jl unfolding j by simp
    let ?buf2 = "take at buf @ (c @ [PATH_SP]) @ drop (at + length c + 1) buf"
    have "poke ?buf (at + length c) [PATH_SP] =
        Some (take (at + length c) ?buf @ [PATH_SP] @ drop (at + length c + 1) ?buf)"
      using at(1) poke_ok[of "at + length c" "[PATH_SP]" ?buf] by simp
    also have "take (at + length c) ?buf @ [PATH_SP] @ drop (at + length c + 1) ?buf = ?buf2" using at(1) by simp
    finally have pk2: "poke ?buf (at + length c) [PATH_SP] = Some ?buf2" .
    have h: "?r = hd (enc_str d) # tl (enc_str d) @ concat (map enc_str ds) @ c_e # rest"
      using Cons enc_str_ne(1)[of d] by (cases "enc_str d") auto
    have hd: "hd (enc_str d) \<noteq> c_e" using hd_enc_str[of d "[]"] colon_not_digit(2) by (metis append_Nil2)
    have "list2path_loop ?r (taken + length (enc_str c)) ?buf2 (at + length c + 1) (room - length c) endmax =
      Some (taken + length (enc_str c) + length (concat (map enc_str cs)) + 1,
        take (at + length c + 1) ?buf2 @ ?j @ 0 # drop (at + length c + 1 + length ?j + 1) ?buf2)"
      using Cons.prems at(1) j cs by (intro Cons.IH) auto
    also have "take (at + length c + 1) ?buf2 @ ?j @ 0 # drop (at + length c + 1 + length ?j + 1) ?buf2 =
      take at buf @ join_path (c # cs) @ 0 # drop (at + length (join_path (c # cs)) + 1) buf"
      using Cons.prems(3) at(1) unfolding j by (simp add: ac_simps)
    finally have IH: "list2path_loop ?r (taken + length (enc_str c)) ?buf2 (at + length c + 1) (room - length c) endmax =
      Some (taken + length (enc_str c) + length (concat (map enc_str cs)) + 1,
       take at buf @ join_path (c # cs) @ 0 # drop (at + length (join_path (c # cs)) + 1) buf)" .
    have "list2path_loop (enc_str c @ ?r) taken buf at room endmax =
      list2path_loop ?r (taken + length (enc_str c)) ?buf2 (at + length c + 1) (room - length c) endmax"
      using at pk pk2 bs ne hd h by (subst list2path_loop.simps) (simp add: Let_def)
    then show ?thesis using IH by simp
  qed
qed simp

text \<open>
  A path whose components are not empty is written as a list of its components, and reading
  that list back into a buffer the path fits into gives the same path, NUL-terminated, takes
  exactly the bytes of the list, and changes nothing beyond the terminator.
\<close>

theorem path_list_roundtrip:
  assumes cs: "\<forall>c\<in>set cs. comp_ok c" "cs \<noteq> []"
    and room: "length (enc (BList (map BStr cs))) \<le> room" and fits: "length (join_path cs) < length buf"
  shows "bencode_path2list (join_path cs) ([], room) = (True, (enc (BList (map BStr cs)), room - length (enc (BList (map BStr cs))))) \<and>
    decode_list2path (enc (BList (map BStr cs)) @ rest) buf (length buf) =
      Some (length (enc (BList (map BStr cs))), join_path cs @ 0 # drop (length (join_path cs) + 1) buf)"
proof -
  have "bencode_path2list (join_path cs) ([], room) = (True, (enc (BList (map BStr cs)), room - length (enc (BList (map BStr cs)))))"
    using writes_path2list[OF cs] room unfolding writes_def by simp
  moreover have "list2path_loop (concat (map enc_str cs) @ c_e # rest) 1 buf 0 (length buf) (length buf - 1) =
    Some (1 + length (concat (map enc_str cs)) + 1, take 0 buf @ join_path cs @ 0 # drop (0 + length (join_path cs) + 1) buf)"
    by (rule list2path_loop_join) (use cs fits in auto)
  ultimately show ?thesis by (simp add: decode_list2path_def enc_path del: enc.simps)
qed

text \<open>The path \<^verbatim>\<open>a/bc\<close>.\<close>

theorem path_list_roundtrip_witness:
  "decode_list2path (enc (BList [BStr [97], BStr [98, 99]])) (replicate 6 1) 6 = Some (9, [97, 47, 98, 99, 0, 1])"
proof -
  let ?cs = "[[97], [98, 99]] :: bytes list"
  have e: "enc (BList [BStr [97], BStr [98, 99]]) = [108, 49, 58, 97, 50, 58, 98, 99, 101]" by code_simp
  have "\<forall>c\<in>set ?cs. comp_ok c" "?cs \<noteq> []" "length (enc (BList (map BStr ?cs))) \<le> 9"
    "length (join_path ?cs) < length (replicate 6 1 :: bytes)" by (simp_all add: comp_ok_def e del: enc.simps)
  from path_list_roundtrip[OF this, of "[]"] e show ?thesis
    by (simp add: numeral_eq_Suc del: enc.simps)
qed

text \<open>
  The bytes taken up by separators are not subtracted from \<^verbatim>\<open>maxlen\<close>, so a longer path can be
  written past the end of the array; here 4 bytes for \<^verbatim>\<open>a/bc\<close> and its terminator.
\<close>

lemma list2path_overflow:
  "decode_list2path (enc (BList [BStr [97], BStr [98, 99]])) (replicate 4 1) 4 = None"
  by code_simp

text \<open>A path with an empty component cannot be written.\<close>

lemma path2list_empty_component:
  "fst (bencode_path2list [97, 47, 47, 98] ([], 100)) = False"
  by code_simp

end
