(* ===== verification/Geometry.thy ===== *)
theory Geometry
  imports Prelude
begin

text \<open>
  The division of a torrent into pieces, from \<^verbatim>\<open>btContent\<close> (\<^verbatim>\<open>src/btcontent.cpp\<close>).

  \<open>geometry\<close> holds the three numbers the piece arithmetic of the code reads: \<^verbatim>\<open>m_npieces\<close>,
  \<^verbatim>\<open>m_piece_length\<close> and \<^verbatim>\<open>m_btfiles.GetTotalLength()\<close>.  \<open>geo_ok\<close> is what \<^verbatim>\<open>InitialFromMI\<close> checks
  before a download starts.
\<close>

record geometry =
  g_npieces :: u32
  g_piece_length :: u32
  g_total :: u64

definition GetPieceLength :: "geometry \<Rightarrow> u32 \<Rightarrow> u32" where
  "GetPieceLength g idx =
     (if idx = g_npieces g - 1 \<and> ucast idx = g_total g div ucast (g_piece_length g)
      then ucast (g_total g mod ucast (g_piece_length g))
      else g_piece_length g)"

text \<open>The test of \<^verbatim>\<open>InitialFromMI\<close>: the hash table has one entry per piece of the files.\<close>

definition piece_count :: "u64 \<Rightarrow> u32 \<Rightarrow> u64" where
  "piece_count tot plen =
     (let left = tot div ucast plen
      in if tot mod ucast plen \<noteq> 0 then left + 1 else left)"

definition geo_accepted :: "geometry \<Rightarrow> bool" where
  "geo_accepted g \<longleftrightarrow> piece_count (g_total g) (g_piece_length g) = ucast (g_npieces g)"

text \<open>The piece length \<^verbatim>\<open>InitialFromFS\<close> uses for a new torrent.\<close>

definition create_piece_length :: "u32 \<Rightarrow> u32" where
  "create_piece_length pl =
     (let pl = (if pl mod 65536 \<noteq> 0 then pl div 65536 * 65536 else pl)
      in if pl = 0 \<or> pl > 4096 * 1024 then 262144 else pl)"

text \<open>The file offset of a slice, as \<^verbatim>\<open>ReadSlice\<close> and \<^verbatim>\<open>WriteSlice\<close> compute it.\<close>

definition slice_pos :: "geometry \<Rightarrow> u32 \<Rightarrow> u32 \<Rightarrow> u64" where
  "slice_pos g idx off = ucast idx * ucast (g_piece_length g) + ucast off"

definition geo_ok :: "geometry \<Rightarrow> bool" where
  "geo_ok g \<longleftrightarrow> 0 < g_piece_length g \<and> 0 < g_total g \<and> geo_accepted g"

section \<open>Facts about the geometry\<close>

lemma unat_ucast_u32_u64 [simp]: "unat (ucast (x :: u32) :: u64) = unat x"
proof -
  have "unat x < 18446744073709551616" using unat_u32_lt[of x] by linarith
  then show ?thesis by (simp add: unsigned_ucast_eq take_bit_eq_mod)
qed

lemma total_of_tile:
  assumes "0 < p" and "n = (t + p - 1) div p"
  shows "(\<Sum>i<n. min p (t - i * p)) = (t :: nat)"
proof -
  have "(\<Sum>i<k. min p (t - i * p)) = min (k * p) t" for k
    by (induction k) auto
  moreover have "t \<le> n * p"
  proof -
    have "(t + p - 1) mod p < p" using assms(1) by simp
    moreover have "t + p - 1 = n * p + (t + p - 1) mod p" using assms(2) by simp
    ultimately show ?thesis by linarith
  qed
  ultimately show ?thesis by simp
qed

lemma u64_div: "unat ((x :: u64) div y) = unat x div unat y"
  by (rule unat_div_distrib)

lemma u64_mod: "unat ((x :: u64) mod y) = unat x mod unat y"
  by (rule unat_mod_distrib)

lemma piece_count_nat:
  assumes "0 < plen"
  shows "unat (piece_count tot plen) = (unat tot + unat plen - 1) div unat plen"
proof -
  let ?t = "unat tot" and ?p = "unat plen"
  have p: "0 < ?p" using assms by (simp add: u32_less_iff)
  have tm: "tot mod ucast plen = 0 \<longleftrightarrow> ?t mod ?p = 0"
    by (simp add: word_unat_eq_iff u64_mod)
  define q r where "q = ?t div ?p" and "r = ?t mod ?p"
  have t: "?t = ?p * q + r" and r: "r < ?p" using p by (simp_all add: q_def r_def)
  show ?thesis
  proof (cases "r = 0")
    case True
    have "(?p * q + r + ?p - 1) div ?p = q" using p True by (intro div_nat_eqI) simp_all
    then have "(?t + ?p - 1) div ?p = q" using t by simp
    moreover have "tot mod ucast plen = 0" using tm True by (simp add: r_def)
    ultimately show ?thesis by (simp add: piece_count_def u64_div q_def)
  next
    case False
    have "1 * q \<le> ?p * q" using p by (intro mult_le_mono) (simp_all del: mult_le_cancel2)
    then have "q + 1 \<le> ?p * q + r" using False by linarith
    then have "q + 1 < 18446744073709551616" using unat_u64_lt[of tot] t by linarith
    then have a: "unat (tot div ucast plen + 1) = q + 1"
      by (simp add: unat_word_ariths u64_div q_def[symmetric])
    have "(?p * q + r + ?p - 1) div ?p = q + 1" using p False r by (intro div_nat_eqI) simp_all
    then show ?thesis using tm False a by (simp add: piece_count_def r_def[symmetric] t[symmetric])
  qed
qed

lemma geo_npieces:
  assumes "geo_ok g"
  shows "unat (g_npieces g) = (unat (g_total g) + unat (g_piece_length g) - 1) div unat (g_piece_length g)"
  using assms piece_count_nat[of "g_piece_length g" "g_total g"]
  by (simp add: geo_ok_def geo_accepted_def)

text \<open>All pieces have the full length but the last one, which has what is left.\<close>

lemma GetPieceLength_nat:
  assumes ok: "geo_ok g" and i: "idx < g_npieces g"
  shows "unat (GetPieceLength g idx) =
    min (unat (g_piece_length g)) (unat (g_total g) - unat idx * unat (g_piece_length g))"
proof -
  let ?t = "unat (g_total g)" and ?p = "unat (g_piece_length g)" and ?n = "unat (g_npieces g)"
  have p: "0 < ?p" using ok by (simp add: geo_ok_def u32_less_iff)
  have t0: "0 < ?t" using ok by (simp add: geo_ok_def word_less_nat_alt)
  have n: "?n = (?t + ?p - 1) div ?p" by (rule geo_npieces[OF ok])
  define q r where "q = ?t div ?p" and "r = ?t mod ?p"
  have t: "?t = ?p * q + r" and r: "r < ?p" using p by (simp_all add: q_def r_def)
  have n': "?n = (if r = 0 then q else q + 1)"
    unfolding n t using p r by (auto intro!: div_nat_eqI)
  have in': "unat idx < ?n" using i by (simp add: u32_less_iff)
  have last: "idx = g_npieces g - 1 \<longleftrightarrow> unat idx = ?n - 1"
    using in' by (subst word_unat_eq_iff, subst unat_minus_one) auto
  have quot: "(ucast idx :: u64) = g_total g div ucast (g_piece_length g) \<longleftrightarrow> unat idx = q"
    by (simp add: word_unat_eq_iff u64_div q_def)
  show ?thesis
  proof (cases "unat idx = q")
    case True
    then have r0: "r \<noteq> 0" and "unat idx = ?n - 1" using in' n' by (auto split: if_splits)
    then have "GetPieceLength g idx = ucast (g_total g mod ucast (g_piece_length g))"
      using last quot True by (simp add: GetPieceLength_def)
    moreover have "unat (ucast (g_total g mod ucast (g_piece_length g)) :: u32) = r"
    proof -
      have "r < 4294967296" using r unat_u32_lt[of "g_piece_length g"] by linarith
      then show ?thesis by (simp add: unsigned_ucast_eq u64_mod r_def take_bit_eq_mod)
    qed
    ultimately show ?thesis using True t r by simp
  next
    case False
    then have "GetPieceLength g idx = g_piece_length g" using quot by (simp add: GetPieceLength_def)
    moreover have "unat idx < q" using False in' n' by (auto split: if_splits)
    then have "Suc (unat idx) * ?p \<le> q * ?p" by (intro mult_le_mono) simp_all
    then have "?p \<le> ?t - unat idx * ?p" using t by (simp add: mult.commute)
    ultimately show ?thesis by simp
  qed
qed

lemma GetPieceLength_pos:
  assumes "geo_ok g" and "idx < g_npieces g"
  shows "0 < unat (GetPieceLength g idx)"
proof -
  let ?t = "unat (g_total g)" and ?p = "unat (g_piece_length g)"
  have p: "0 < ?p" using assms by (simp add: geo_ok_def u32_less_iff)
  have "unat idx < (?t + ?p - 1) div ?p" using assms geo_npieces[OF assms(1)] by (simp add: u32_less_iff)
  then have "Suc (unat idx) \<le> (?t + ?p - 1) div ?p" by simp
  then have "Suc (unat idx) * ?p \<le> (?t + ?p - 1) div ?p * ?p" by (rule mult_le_mono1)
  also have "\<dots> \<le> ?t + ?p - 1" by simp
  finally have "unat idx * ?p < ?t" using p by simp
  then show ?thesis using p GetPieceLength_nat[OF assms] by simp
qed

text \<open>
  C35: For a torrent the code accepts (\<open>geo_ok\<close>, the check of \<^verbatim>\<open>InitialFromMI\<close>), the lengths
  \<^verbatim>\<open>GetPieceLength\<close> reports add up to the total length of the files, every piece is
  non-empty and at most the piece length, and every slice of a piece lies within the files: its
  64-bit file position does not wrap.
\<close>

theorem pieces_cover_files:
  assumes ok: "geo_ok g"
  shows "(\<Sum>i<unat (g_npieces g). unat (GetPieceLength g (of_nat i))) = unat (g_total g) \<and>
    (\<forall>idx<g_npieces g. 0 < GetPieceLength g idx \<and> GetPieceLength g idx \<le> g_piece_length g \<and>
      (\<forall>off (len :: u32). unat off + unat len \<le> unat (GetPieceLength g idx) \<longrightarrow>
        unat (slice_pos g idx off) + unat len \<le> unat (g_total g)))"
proof -
  let ?t = "unat (g_total g)" and ?p = "unat (g_piece_length g)" and ?n = "unat (g_npieces g)"
  have p: "0 < ?p" using ok by (simp add: geo_ok_def u32_less_iff)
  have "(\<Sum>i<?n. unat (GetPieceLength g (of_nat i))) = (\<Sum>i<?n. min ?p (?t - i * ?p))"
  proof (rule sum.cong)
    fix i assume "i \<in> {..<?n}"
    then have i: "unat (of_nat i :: u32) = i" "i < ?n"
      using unat_u32_lt[of "g_npieces g"] by (auto intro!: unat_of_nat_u32 simp del: unat_u32_lt)
    then have "of_nat i < g_npieces g" by (simp add: u32_less_iff)
    from GetPieceLength_nat[OF ok this] i show
      "unat (GetPieceLength g (of_nat i)) = min ?p (?t - i * ?p)" by simp
  qed simp
  then have "(\<Sum>i<?n. unat (GetPieceLength g (of_nat i))) = ?t"
    using total_of_tile[OF p geo_npieces[OF ok]] by simp
  moreover have "0 < GetPieceLength g idx \<and> GetPieceLength g idx \<le> g_piece_length g \<and>
      (\<forall>off (len :: u32). unat off + unat len \<le> unat (GetPieceLength g idx) \<longrightarrow>
        unat (slice_pos g idx off) + unat len \<le> ?t)" if i: "idx < g_npieces g" for idx
  proof (intro conjI allI impI)
    show "0 < GetPieceLength g idx" using GetPieceLength_pos[OF ok i] by (simp add: u32_less_iff)
    show "GetPieceLength g idx \<le> g_piece_length g"
      using GetPieceLength_nat[OF ok i] by (simp add: u32_le_iff)
    fix off len :: u32
    assume "unat off + unat len \<le> unat (GetPieceLength g idx)"
    then have le: "unat idx * ?p + unat off + unat len \<le> ?t"
      using GetPieceLength_nat[OF ok i] GetPieceLength_pos[OF ok i] by linarith
    then have "unat idx * ?p + unat off < 18446744073709551616"
      using unat_u64_lt[of "g_total g"] by linarith
    then have "unat (slice_pos g idx off) = unat idx * ?p + unat off"
      by (simp add: slice_pos_def unat_word_ariths)
    then show "unat (slice_pos g idx off) + unat len \<le> ?t" using le by simp
  qed
  ultimately show ?thesis by blast
qed

definition ex_geo :: geometry where
  "ex_geo = \<lparr>g_npieces = 4, g_piece_length = 32768, g_total = 100000\<rparr>"

theorem pieces_cover_files_witness:
  "geo_ok ex_geo \<and> (\<Sum>i<unat (g_npieces ex_geo). unat (GetPieceLength ex_geo (of_nat i))) = 100000"
proof -
  have "geo_ok ex_geo" by code_simp
  from conjunct1[OF pieces_cover_files[OF this]] this show ?thesis
    by (simp only: ex_geo_def geometry.simps) simp
qed

end
