(* ===== verification/Bitfield.thy ===== *)
theory Bitfield
  imports Prelude
begin

text \<open>
  The piece bit field of \<^verbatim>\<open>src/bitfield.cpp\<close> and \<^verbatim>\<open>src/bitfield.h\<close>.

  A \<^verbatim>\<open>Bitfield\<close> is the record \<open>bitfield\<close>: the byte array \<open>bf_b\<close> (\<^const>\<open>None\<close> is the null
  pointer, the code's representation of a full field) and the number \<open>bf_nset\<close> of set bits.  The
  class statics \<^verbatim>\<open>nbits\<close> and \<^verbatim>\<open>nbytes\<close> are the argument \<open>n\<close> of every operation and \<open>bf_nbytes n\<close>.
  The abstraction \<open>bf_set\<close> reads a field as the set of its piece numbers; the refinement lemmas
  show that every operation computes the set operation of its name and keeps the invariant
  \<open>bf_inv\<close> (array length, no stray bits behind the last piece, exact count, null array exactly
  when full).  The interface \<open>piece_set\<close> at the end is what the other components rely on.
\<close>

section \<open>State and operations\<close>

record bitfield =
  bf_b :: "bytes option"
  bf_nset :: u32

definition BIT_HEX :: "u8 list" where
  "BIT_HEX = [0x80, 0x40, 0x20, 0x10, 0x08, 0x04, 0x02, 0x01]"

definition bf_nbytes :: "u32 \<Rightarrow> u32" where
  "bf_nbytes n = n div 8 + (if n mod 8 \<noteq> 0 then 1 else 0)"

text \<open>The macros \<^verbatim>\<open>_isset\<close>, \<^verbatim>\<open>_isempty\<close> and \<^verbatim>\<open>_isfull\<close>.\<close>

definition raw_isset :: "bytes \<Rightarrow> u32 \<Rightarrow> u8" where
  "raw_isset b idx = (b ! unat (idx div 8)) AND (BIT_HEX ! unat (idx mod 8))"

definition raw_isempty :: "bitfield \<Rightarrow> bool" where
  "raw_isempty bf \<longleftrightarrow> bf_nset bf = 0"

definition raw_isfull :: "u32 \<Rightarrow> bitfield \<Rightarrow> bool" where
  "raw_isfull n bf \<longleftrightarrow> bf_nset bf \<ge> n"

text \<open>\<^verbatim>\<open>new unsigned char[nbytes]\<close>: every use overwrites all the bytes before reading one.\<close>

definition new_bytes :: "u32 \<Rightarrow> bytes" where
  "new_bytes n = replicate (unat (bf_nbytes n)) 0"

definition bf_new :: "u32 \<Rightarrow> bitfield" where
  "bf_new n = \<lparr>bf_b = Some (memset_to (new_bytes n) 0 (unat (bf_nbytes n))), bf_nset = 0\<rparr>"

definition bf_copy :: "u32 \<Rightarrow> bitfield \<Rightarrow> bitfield" where
  "bf_copy n src =
     (if raw_isfull n src then \<lparr>bf_b = None, bf_nset = bf_nset src\<rparr>
      else \<lparr>bf_b = Some (memcpy_to (new_bytes n) 0 (the (bf_b src)) (unat (bf_nbytes n))),
            bf_nset = bf_nset src\<rparr>)"

definition bf_assign :: "u32 \<Rightarrow> bitfield \<Rightarrow> bitfield \<Rightarrow> bitfield" where
  "bf_assign n bf src =
     (if raw_isfull n src then \<lparr>bf_b = None, bf_nset = bf_nset src\<rparr>
      else (let b = (case bf_b bf of None \<Rightarrow> new_bytes n | Some b \<Rightarrow> b)
            in \<lparr>bf_b = Some (memcpy_to b 0 (the (bf_b src)) (unat (bf_nbytes n))),
                bf_nset = bf_nset src\<rparr>))"

definition byte_or_bit :: "bytes \<Rightarrow> u32 \<Rightarrow> bytes" where
  "byte_or_bit b idx =
     b[unat (idx div 8) := (b ! unat (idx div 8)) OR (BIT_HEX ! unat (idx mod 8))]"

definition byte_clear_bit :: "bytes \<Rightarrow> u32 \<Rightarrow> bytes" where
  "byte_clear_bit b idx =
     b[unat (idx div 8) := (b ! unat (idx div 8)) AND NOT (BIT_HEX ! unat (idx mod 8))]"

definition bf_set_raw :: "u32 \<Rightarrow> u32 \<Rightarrow> bitfield \<Rightarrow> bitfield" where
  "bf_set_raw n idx bf =
     (if idx < n \<and> \<not> raw_isfull n bf \<and> raw_isset (the (bf_b bf)) idx = 0
      then bf\<lparr>bf_b := Some (byte_or_bit (the (bf_b bf)) idx)\<rparr> else bf)"

text \<open>The mask of the bits of the last byte that stand for pieces.\<close>

definition tail_mask :: "u32 \<Rightarrow> u8" where
  "tail_mask n = NOT (BIT_HEX ! unat (n mod 8 - 1) - 1)"

definition bf_setall_raw :: "u32 \<Rightarrow> bytes \<Rightarrow> bytes" where
  "bf_setall_raw n buf =
     (let nb = unat (bf_nbytes n); buf = memset_to buf 0xff (nb - 1)
      in if n mod 8 \<noteq> 0 then buf[nb - 1 := tail_mask n] else buf[nb - 1 := 0xff])"

text \<open>The table \<^verbatim>\<open>BITS\<close> of \<^verbatim>\<open>_recalc\<close>, built the way the code builds it on the first call.\<close>

fun bits_row :: "nat \<Rightarrow> nat \<Rightarrow> u8 list \<times> nat \<Rightarrow> u8 list \<times> nat" where
  "bits_row 0 j s = s"
| "bits_row (Suc k) j (t, x) = bits_row k (Suc j) (t[Suc x := t ! j + 1], Suc x)"

fun bits_rows :: "nat \<Rightarrow> nat \<Rightarrow> u8 list \<times> nat \<Rightarrow> u8 list \<times> nat" where
  "bits_rows 0 i s = s"
| "bits_rows (Suc k) i s = bits_rows k (Suc i) (bits_row (2 ^ i) 0 s)"

definition BITS :: "u8 list" where
  "BITS = fst (bits_rows 8 0 (replicate 256 0, 0))"

definition bf_recalc :: "u32 \<Rightarrow> bitfield \<Rightarrow> bitfield" where
  "bf_recalc n bf =
     (let b = the (bf_b bf);
          nset = foldl (\<lambda>acc x. acc + ucast (BITS ! unat x)) 0 (take (unat (bf_nbytes n)) b)
      in if nset \<ge> n then \<lparr>bf_b = None, bf_nset = nset\<rparr> else \<lparr>bf_b = Some b, bf_nset = nset\<rparr>)"

definition SetAll :: "u32 \<Rightarrow> bitfield \<Rightarrow> bitfield" where
  "SetAll n bf = \<lparr>bf_b = None, bf_nset = n\<rparr>"

definition Clear :: "u32 \<Rightarrow> bitfield \<Rightarrow> bitfield" where
  "Clear n bf =
     (let b = (if raw_isfull n bf then new_bytes n else the (bf_b bf))
      in \<lparr>bf_b = Some (memset_to b 0 (unat (bf_nbytes n))), bf_nset = 0\<rparr>)"

text \<open>\<^verbatim>\<open>IsSet\<close> returns the masked byte itself, not 0 or 1: callers only test it for zero.\<close>

definition IsSet_int :: "u32 \<Rightarrow> bitfield \<Rightarrow> u32 \<Rightarrow> int" where
  "IsSet_int n bf idx =
     (if idx \<ge> n then 0
      else if raw_isfull n bf then 1 else uint (raw_isset (the (bf_b bf)) idx))"

definition IsSet :: "u32 \<Rightarrow> bitfield \<Rightarrow> u32 \<Rightarrow> bool" where
  "IsSet n bf idx \<longleftrightarrow> IsSet_int n bf idx \<noteq> 0"

definition Set :: "u32 \<Rightarrow> u32 \<Rightarrow> bitfield \<Rightarrow> bitfield" where
  "Set n idx bf =
     (if idx \<ge> n then bf
      else if \<not> raw_isfull n bf \<and> raw_isset (the (bf_b bf)) idx = 0 then
        (let b = byte_or_bit (the (bf_b bf)) idx; nset = bf_nset bf + 1
         in if nset \<ge> n then \<lparr>bf_b = None, bf_nset = nset\<rparr> else \<lparr>bf_b = Some b, bf_nset = nset\<rparr>)
      else bf)"

definition UnSet :: "u32 \<Rightarrow> u32 \<Rightarrow> bitfield \<Rightarrow> bitfield" where
  "UnSet n idx bf =
     (if idx \<ge> n then bf
      else if raw_isfull n bf then
        \<lparr>bf_b = Some (byte_clear_bit (bf_setall_raw n (new_bytes n)) idx), bf_nset = n - 1\<rparr>
      else if raw_isset (the (bf_b bf)) idx \<noteq> 0 then
        \<lparr>bf_b = Some (byte_clear_bit (the (bf_b bf)) idx), bf_nset = bf_nset bf - 1\<rparr>
      else bf)"

fun invert_tail :: "u32 \<Rightarrow> u32 list \<Rightarrow> bitfield \<Rightarrow> bitfield" where
  "invert_tail n [] bf = bf"
| "invert_tail n (i # is) bf =
     invert_tail n is (if raw_isset (the (bf_b bf)) i \<noteq> 0 then UnSet n i bf else bf_set_raw n i bf)"

definition Invert :: "u32 \<Rightarrow> bitfield \<Rightarrow> bitfield" where
  "Invert n bf =
     (if raw_isempty bf then SetAll n bf
      else if raw_isfull n bf then Clear n bf
      else
        (let s = bf_nset bf; nb = unat (bf_nbytes n); b = the (bf_b bf);
             b = map (\<lambda>x. NOT x) (take (nb - 1) b) @ drop (nb - 1) b;
             bf = bf\<lparr>bf_b := Some b\<rparr>;
             bf = (if n mod 8 \<noteq> 0
                   then invert_tail n (map of_nat [8 * (nb - 1)..<unat n]) bf
                   else bf\<lparr>bf_b := Some (b[nb - 1 := NOT (b ! (nb - 1))])\<rparr>)
         in bf\<lparr>bf_nset := n - s\<rparr>))"

definition Or_bf :: "u32 \<Rightarrow> bitfield \<Rightarrow> bitfield \<Rightarrow> bitfield" where
  "Or_bf n bf other =
     (if \<not> raw_isempty other \<and> \<not> raw_isfull n bf then
        if raw_isfull n other then SetAll n bf
        else if raw_isempty bf then
          \<lparr>bf_b = Some (memcpy_to (the (bf_b bf)) 0 (the (bf_b other)) (unat (bf_nbytes n))),
           bf_nset = bf_nset other\<rparr>
        else bf_recalc n (bf\<lparr>bf_b := Some (map2 (OR) (the (bf_b bf)) (the (bf_b other)))\<rparr>)
      else bf)"

definition Except :: "u32 \<Rightarrow> bitfield \<Rightarrow> bitfield \<Rightarrow> bitfield" where
  "Except n bf other =
     (if \<not> raw_isempty other \<and> \<not> raw_isempty bf then
        if raw_isfull n other then Clear n bf
        else
          (let b = (if raw_isfull n bf then bf_setall_raw n (new_bytes n) else the (bf_b bf))
           in bf_recalc n (bf\<lparr>bf_b := Some (map2 (\<lambda>x y. x AND NOT y) b (the (bf_b other)))\<rparr>))
      else bf)"

definition And_bf :: "u32 \<Rightarrow> bitfield \<Rightarrow> bitfield \<Rightarrow> bitfield" where
  "And_bf n bf other =
     (if \<not> raw_isfull n other \<and> \<not> raw_isempty bf then
        if raw_isempty other then Clear n bf
        else if raw_isfull n bf then
          \<lparr>bf_b = Some (memcpy_to (new_bytes n) 0 (the (bf_b other)) (unat (bf_nbytes n))),
           bf_nset = bf_nset other\<rparr>
        else bf_recalc n (bf\<lparr>bf_b := Some (map2 (AND) (the (bf_b bf)) (the (bf_b other)))\<rparr>)
      else bf)"

definition IsFull :: "u32 \<Rightarrow> bitfield \<Rightarrow> bool" where
  "IsFull n bf \<longleftrightarrow> bf_nset bf \<ge> n"

definition IsEmpty :: "bitfield \<Rightarrow> bool" where
  "IsEmpty bf \<longleftrightarrow> bf_nset bf = 0"

definition Count :: "bitfield \<Rightarrow> u32" where
  "Count bf = bf_nset bf"

text \<open>
  \<^verbatim>\<open>Random\<close> with the value \<open>r\<close> of \<^verbatim>\<open>random()\<close>.  \<^const>\<open>None\<close> is the integer division by zero of
  \<^verbatim>\<open>random() % nset\<close> on an empty field (and of \<^verbatim>\<open>random() % nbits\<close> without pieces).
\<close>

fun random_scan :: "bytes \<Rightarrow> nat \<Rightarrow> u32 list \<Rightarrow> nat \<Rightarrow> nat" where
  "random_scan b idx [] i = idx"
| "random_scan b idx (j # js) i =
     (if i = 0 then idx else random_scan b (Suc idx) js (if raw_isset b j \<noteq> 0 then i - 1 else i))"

definition Random :: "u32 \<Rightarrow> nat \<Rightarrow> bitfield \<Rightarrow> u32 option" where
  "Random n r bf =
     (if raw_isfull n bf then (if n = 0 then None else Some (of_nat (r mod unat n)))
      else if bf_nset bf = 0 then None
      else Some (of_nat (random_scan (the (bf_b bf)) 0 (map of_nat [0..<unat n])
                           (r mod unat (bf_nset bf) + 1)) - 1))"

definition SetReferBuffer :: "u32 \<Rightarrow> bytes \<Rightarrow> bitfield \<Rightarrow> bitfield" where
  "SetReferBuffer n buf bf =
     (let nb = unat (bf_nbytes n);
          b = (case bf_b bf of None \<Rightarrow> new_bytes n | Some b \<Rightarrow> b);
          b = memcpy_to b 0 buf nb;
          b = (if n mod 8 \<noteq> 0 then b[nb - 1 := (b ! (nb - 1)) AND tail_mask n] else b)
      in bf_recalc n (bf\<lparr>bf_b := Some b\<rparr>))"

definition WriteToBuffer :: "u32 \<Rightarrow> bitfield \<Rightarrow> bytes \<Rightarrow> bytes" where
  "WriteToBuffer n bf buf =
     (if raw_isfull n bf then bf_setall_raw n buf
      else memcpy_to buf 0 (the (bf_b bf)) (unat (bf_nbytes n)))"

text \<open>
  The file forms.  \<open>st\<close> is what \<^verbatim>\<open>stat\<close> reports (\<^const>\<open>None\<close> on failure), \<open>rd\<close> what can be read
  after \<^verbatim>\<open>fopen\<close> (\<^const>\<open>None\<close> if it fails); a short file makes \<^verbatim>\<open>fread\<close> fail.
\<close>

definition SetReferFile :: "u32 \<Rightarrow> nat option \<Rightarrow> bytes option \<Rightarrow> bitfield \<Rightarrow> int \<times> bitfield" where
  "SetReferFile n st rd bf =
     (case st of None \<Rightarrow> (-1, bf)
      | Some sz \<Rightarrow>
          if sz \<noteq> unat (bf_nbytes n) then (-1, bf)
          else (case rd of None \<Rightarrow> (-1, bf)
                | Some c \<Rightarrow>
                    if unat (bf_nbytes n) = 0 \<or> length c < unat (bf_nbytes n) then (-1, bf)
                    else (0, SetReferBuffer n (take (unat (bf_nbytes n)) c) bf)))"

text \<open>The written file's contents, if \<^verbatim>\<open>fopen\<close> (\<open>opened\<close>) and \<^verbatim>\<open>fwrite\<close> (\<open>written\<close>) succeed.\<close>

definition WriteToFile :: "u32 \<Rightarrow> bool \<Rightarrow> bool \<Rightarrow> bitfield \<Rightarrow> int \<times> bytes option" where
  "WriteToFile n opened written bf =
     (if \<not> opened then (-1, None)
      else let bitbuf = WriteToBuffer n bf (new_bytes n)
           in if unat (bf_nbytes n) = 0 \<or> \<not> written then (-1, None) else (0, Some bitbuf))"


section \<open>Bits of the array and the abstraction to sets\<close>

text \<open>The table holds the number of set bits of every byte.\<close>

definition popc :: "u8 \<Rightarrow> nat" where "popc x = card {k. k < 8 \<and> bit x k}"

lemma BITS_eq: "BITS = map (\<lambda>k. of_nat (length (filter (\<lambda>m. bit (of_nat k :: u8) m) [0..<8]))) [0..<256]"
  by code_simp

lemma popc_filter: "popc x = length (filter (bit x) [0..<8])"
proof -
  have "set (filter (bit x) [0..<8]) = {k. k < 8 \<and> bit x k}" by auto
  then show ?thesis unfolding popc_def
    by (metis distinct_card distinct_filter distinct_upt)
qed

lemma BITS_nth: "BITS ! unat x = of_nat (popc x)"
  by (subst BITS_eq) (simp add: popc_filter)

lemma BIT_HEX_nth: "k < 8 \<Longrightarrow> BIT_HEX ! k = push_bit (7 - k) 1"
proof -
  assume "k < 8"
  then have "k \<in> {0,1,2,3,4,5,6,7}" by auto
  then show ?thesis by (auto simp: BIT_HEX_def)
qed

lemma BIT_HEX_bit: "k < 8 \<Longrightarrow> m < 8 \<Longrightarrow> bit (BIT_HEX ! k) m \<longleftrightarrow> m = 7 - k"
  by (auto simp: BIT_HEX_nth bit_exp_iff)

lemma tail_mask_bit: "n mod 8 \<noteq> 0 \<Longrightarrow> m < 8 \<Longrightarrow> bit (tail_mask n) m \<longleftrightarrow> 8 \<le> m + unat (n mod 8)"
proof -
  assume n: "n mod 8 \<noteq> 0" and m: "m < 8"
  let ?r = "unat (n mod 8)"
  have r: "0 < ?r" "?r < 8"
    using n by (auto simp: u32_mod u32_zero_iff)
  have d: "unat (n mod 8 - 1) = ?r - 1"
    using n by (simp add: unat_minus_one)
  have "BIT_HEX ! (?r - 1) - 1 = mask (8 - ?r)"
    using r by (simp add: BIT_HEX_nth mask_eq_exp_minus_1 push_bit_eq_mult)
  then show ?thesis
    using m by (simp add: tail_mask_def d bit_not_iff bit_mask_iff) linarith
qed

text \<open>
  Piece \<open>i\<close> is bit \<open>7 - i mod 8\<close> of byte \<open>i div 8\<close>.  \<open>bits_of\<close> are the bits set in an array,
  \<open>bf_set\<close> the pieces of a field, \<open>bytes_ok\<close> an array of the right length without stray bits.
\<close>

definition bit_at :: "bytes \<Rightarrow> nat \<Rightarrow> bool" where
  "bit_at b i \<longleftrightarrow> bit (b ! (i div 8)) (7 - i mod 8)"

definition bits_of :: "bytes \<Rightarrow> nat set" where
  "bits_of b = {i. i < 8 * length b \<and> bit_at b i}"

definition bf_set :: "u32 \<Rightarrow> bitfield \<Rightarrow> nat set" where
  "bf_set n bf = (case bf_b bf of None \<Rightarrow> {..<unat n} | Some b \<Rightarrow> bits_of b)"

definition nbs :: "u32 \<Rightarrow> nat" where
  "nbs n = (unat n + 7) div 8"

definition bytes_ok :: "u32 \<Rightarrow> bytes \<Rightarrow> bool" where
  "bytes_ok n b \<longleftrightarrow> length b = nbs n \<and> bits_of b \<subseteq> {..<unat n}"

definition bf_inv :: "u32 \<Rightarrow> bitfield \<Rightarrow> bool" where
  "bf_inv n bf \<longleftrightarrow> 0 < n \<and>
     (case bf_b bf of None \<Rightarrow> bf_nset bf = n
      | Some b \<Rightarrow> bytes_ok n b \<and> unat (bf_nset bf) = card (bits_of b) \<and> bf_nset bf < n)"

lemma nbs_eq: "unat (bf_nbytes n) = nbs n"
proof (cases "n mod 8 = 0")
  case True
  then have "unat n mod 8 = 0" by (simp add: u32_eq_iff u32_mod)
  then obtain k where "unat n = 8 * k" by blast
  then have "unat n div 8 = (unat n + 7) div 8" by simp
  then show ?thesis using True by (simp add: bf_nbytes_def nbs_def u32_div)
next
  case False
  then have m: "unat n mod 8 \<noteq> 0" by (simp add: u32_eq_iff u32_mod)
  have add: "unat (n div 8 + 1) = unat (n div 8) + 1"
  proof -
    have "unat n < 4294967296" by simp
    then have "unat n div 8 < 4294967295" by linarith
    then have "unat (n div 8) + unat (1 :: u32) < 4294967296" by (simp add: u32_div)
    from u32_add[OF this] show ?thesis by simp
  qed
  have "(unat n + 7) div 8 = unat n div 8 + 1" by (rule ceil8[OF m])
  with add show ?thesis using False by (simp add: bf_nbytes_def nbs_def u32_div)
qed

lemma raw_isset_bit [simp]: "raw_isset b idx \<noteq> 0 \<longleftrightarrow> bit_at b (unat idx)" "raw_isset b idx = 0 \<longleftrightarrow> \<not> bit_at b (unat idx)"
proof -
  have m: "unat (idx mod 8) = unat idx mod 8" by (simp add: u32_mod)
  have d: "unat (idx div 8) = unat idx div 8" by (simp add: u32_div)
  show "raw_isset b idx \<noteq> 0 \<longleftrightarrow> bit_at b (unat idx)"
    by (simp add: raw_isset_def bit_at_def m d BIT_HEX_nth bit_iff_and_push_bit_not_eq_0 and.commute)
  then show "raw_isset b idx = 0 \<longleftrightarrow> \<not> bit_at b (unat idx)" by blast
qed

lemma seven_minus_mod: "(7 - i mod 8 = 7 - j mod (8::nat)) = (i mod 8 = j mod 8)"
proof -
  have "i mod 8 < 8" "j mod 8 < 8" by simp_all
  then show ?thesis by linarith
qed

lemma div_mod_eq8: "i div 8 = j div 8 \<Longrightarrow> i mod 8 = j mod 8 \<Longrightarrow> i = (j::nat)"
  by (metis div_mult_mod_eq)

lemma length_byte_or_bit [simp]: "length (byte_or_bit b idx) = length b"
  by (simp add: byte_or_bit_def)

lemma length_byte_clear_bit [simp]: "length (byte_clear_bit b idx) = length b"
  by (simp add: byte_clear_bit_def)

lemma bit_at_or:
  assumes "unat idx < 8 * length b"
  shows "bit_at (byte_or_bit b idx) j \<longleftrightarrow> j = unat idx \<or> bit_at b j"
proof (cases "j div 8 = unat idx div 8")
  case True
  have "7 - j mod 8 < (8::nat)" "unat idx mod 8 < 8" by auto
  with True assms show ?thesis
    by (auto simp: bit_at_def byte_or_bit_def u32_mod u32_div bit_or_iff BIT_HEX_bit seven_minus_mod
        dest: div_mod_eq8)
next
  case False
  then show ?thesis
    by (auto simp: bit_at_def byte_or_bit_def u32_div)
qed

lemma bit_at_clear:
  assumes "unat idx < 8 * length b"
  shows "bit_at (byte_clear_bit b idx) j \<longleftrightarrow> j \<noteq> unat idx \<and> bit_at b j"
proof (cases "j div 8 = unat idx div 8")
  case True
  have "7 - j mod 8 < (8::nat)" "unat idx mod 8 < 8" by auto
  with True assms show ?thesis
    by (auto simp: bit_at_def byte_clear_bit_def u32_mod u32_div bit_and_iff bit_not_iff BIT_HEX_bit
        seven_minus_mod dest: div_mod_eq8)
next
  case False
  then show ?thesis
    by (auto simp: bit_at_def byte_clear_bit_def u32_div)
qed

lemma bits_of_or:
  "unat idx < 8 * length b \<Longrightarrow> bits_of (byte_or_bit b idx) = insert (unat idx) (bits_of b)"
  by (auto simp: bits_of_def bit_at_or)

lemma bits_of_clear:
  "unat idx < 8 * length b \<Longrightarrow> bits_of (byte_clear_bit b idx) = bits_of b - {unat idx}"
  by (auto simp: bits_of_def bit_at_clear)

lemma bits_of_map2:
  assumes "length b = length c"
  shows "bits_of (map2 (OR) b c) = bits_of b \<union> bits_of c"
    and "bits_of (map2 (AND) b c) = bits_of b \<inter> bits_of c"
    and "bits_of (map2 (\<lambda>x y. x AND NOT y) b c) = bits_of b - bits_of c"
proof -
  have *: "7 - i mod 8 < (8::nat)" for i :: nat by auto
  show "bits_of (map2 (OR) b c) = bits_of b \<union> bits_of c"
    using assms by (auto simp: bits_of_def bit_at_def bit_or_iff)
  show "bits_of (map2 (AND) b c) = bits_of b \<inter> bits_of c"
    using assms by (auto simp: bits_of_def bit_at_def bit_and_iff)
  show "bits_of (map2 (\<lambda>x y. x AND NOT y) b c) = bits_of b - bits_of c"
    using assms * by (auto simp: bits_of_def bit_at_def bit_and_iff bit_not_iff)
qed

lemma bits_of_zeros [simp]: "bits_of (replicate k 0) = {}"
  by (auto simp: bits_of_def bit_at_def)

lemma finite_bits_of [simp]: "finite (bits_of b)"
  by (simp add: bits_of_def)

lemma bits_of_Cons: "bits_of (x # b) = {i. i < 8 \<and> bit x (7 - i)} \<union> (\<lambda>i. i + 8) ` bits_of b"
proof (rule set_eqI)
  fix i
  show "i \<in> bits_of (x # b) \<longleftrightarrow> i \<in> {i. i < 8 \<and> bit x (7 - i)} \<union> (\<lambda>i. i + 8) ` bits_of b"
  proof (cases "i < 8")
    case True
    then show ?thesis by (auto simp: bits_of_def bit_at_def)
  next
    case False
    then obtain j where j: "i = j + 8" by (metis add.commute le_Suc_ex not_less)
    have "(j + 8) div 8 = Suc (j div 8)" by simp
    then show ?thesis using j by (auto simp: bits_of_def bit_at_def image_iff simp del: div_add_self2)
  qed
qed

lemma card_rev8: "card {i. i < 8 \<and> bit (x::u8) (7 - i)} = popc x"
proof -
  have "bij_betw (\<lambda>i. 7 - i) {i. i < 8 \<and> bit x (7 - i)} {k. k < 8 \<and> bit x k}"
    by (rule bij_betw_byWitness[where f' = "\<lambda>i. 7 - i"]) auto
  then show ?thesis by (simp add: popc_def bij_betw_same_card)
qed

lemma card_bits_of: "card (bits_of b) = sum_list (map popc b)"
proof (induction b)
  case Nil
  then show ?case by (simp add: bits_of_def)
next
  case (Cons x b)
  have "card (bits_of (x # b)) = card {i. i < 8 \<and> bit x (7 - i)} + card ((\<lambda>i. i + 8) ` bits_of b)"
    unfolding bits_of_Cons by (rule card_Un_disjoint) auto
  also have "card ((\<lambda>i. i + 8) ` bits_of b) = card (bits_of b)"
    by (rule card_image) (simp add: inj_on_def)
  finally show ?case by (simp add: card_rev8 Cons.IH)
qed

lemma popc_le: "popc x \<le> 8"
  unfolding popc_def by (rule order_trans[OF card_mono[of "{..<8}"]]) auto

lemma recalc_fold:
  "foldl (\<lambda>acc x. acc + ucast (BITS ! unat x)) (of_nat k :: u32) b = of_nat (k + sum_list (map popc b))"
proof (induction b arbitrary: k)
  case Nil
  then show ?case by simp
next
  case (Cons x b)
  have "(ucast (BITS ! unat x) :: u32) = of_nat (popc x)"
    using popc_le[of x] by (simp add: BITS_nth unsigned_of_nat take_bit_eq_mod)
  then show ?case using Cons.IH[of "k + popc x"] by (simp add: add.assoc)
qed

lemma bits_of_bound: "bytes_ok n b \<Longrightarrow> card (bits_of b) \<le> unat n"
  using card_mono[of "{..<unat n}" "bits_of b"] by (simp add: bytes_ok_def)

lemma bits_of_full: "bytes_ok n b \<Longrightarrow> card (bits_of b) = unat n \<Longrightarrow> bits_of b = {..<unat n}"
  by (rule card_subset_eq) (auto simp: bytes_ok_def)

lemma recalc_ok:
  assumes ok: "bytes_ok n b" and n: "0 < n" and b: "bf_b bf = Some b"
  shows "bf_inv n (bf_recalc n bf) \<and> bf_set n (bf_recalc n bf) = bits_of b"
proof -
  let ?c = "card (bits_of b)"
  have c: "?c \<le> unat n" by (rule bits_of_bound[OF ok])
  then have lt: "?c < 4294967296" using unat_u32_lt[of n] by linarith
  have nset: "foldl (\<lambda>acc x. acc + ucast (BITS ! unat x)) (0 :: u32) (take (unat (bf_nbytes n)) b) = of_nat ?c"
    using ok recalc_fold[of 0 b] by (simp add: bytes_ok_def nbs_eq card_bits_of)
  have u: "unat (of_nat ?c :: u32) = ?c" by (rule unat_of_nat_u32[OF lt])
  show ?thesis
  proof (cases "?c = unat n")
    case True
    then have "(of_nat ?c :: u32) = n" by simp
    with True show ?thesis
      using n bits_of_full[OF ok True]
      by (simp add: bf_recalc_def b nset bf_inv_def bf_set_def)
  next
    case False
    with c have "\<not> n \<le> of_nat ?c" by (simp add: u32_le_iff u)
    then show ?thesis
      using n ok by (simp add: bf_recalc_def b nset bf_inv_def bf_set_def u)
  qed
qed

lemma bf_invE:
  assumes "bf_inv n bf"
  obtains (full) "bf_b bf = None" "bf_nset bf = n" "0 < n" "bf_set n bf = {..<unat n}"
  | (part) b where "bf_b bf = Some b" "bytes_ok n b" "unat (bf_nset bf) = card (bits_of b)"
      "bf_nset bf < n" "0 < n" "bf_set n bf = bits_of b"
  using assms by (cases "bf_b bf") (auto simp: bf_inv_def bf_set_def)

lemma isfull_iff: "bf_inv n bf \<Longrightarrow> raw_isfull n bf \<longleftrightarrow> bf_b bf = None"
  by (auto simp: raw_isfull_def elim!: bf_invE)

lemma nbs_bound: "i < unat n \<Longrightarrow> i < 8 * nbs n"
  by (simp add: nbs_def)

lemma nbs_pos: "0 < n \<Longrightarrow> 0 < nbs n"
  by (auto simp: nbs_def u32_less_iff)

lemma bf_set_subset: "bf_inv n bf \<Longrightarrow> bf_set n bf \<subseteq> {..<unat n}"
  by (auto simp: bytes_ok_def elim!: bf_invE)


lemma finite_bf_set [simp]: "bf_inv n bf \<Longrightarrow> finite (bf_set n bf)"
  by (erule bf_invE) simp_all

lemma Count_card: "bf_inv n bf \<Longrightarrow> unat (Count bf) = card (bf_set n bf)"
  by (erule bf_invE) (simp_all add: Count_def)

lemma IsEmpty_iff: "bf_inv n bf \<Longrightarrow> IsEmpty bf \<longleftrightarrow> bf_set n bf = {}"
  using Count_card[of n bf] by (simp add: IsEmpty_def Count_def u32_zero_iff)

lemma isempty_iff: "bf_inv n bf \<Longrightarrow> raw_isempty bf \<longleftrightarrow> bf_set n bf = {}"
  using IsEmpty_iff by (simp add: IsEmpty_def raw_isempty_def)

lemma part_not_all:
  assumes "bytes_ok n b" "card (bits_of b) < unat n"
  shows "bits_of b \<noteq> {..<unat n}"
  using assms by (metis card_lessThan less_irrefl)

lemma isfull_set: "bf_inv n bf \<Longrightarrow> raw_isfull n bf \<longleftrightarrow> bf_set n bf = {..<unat n}"
proof (erule bf_invE)
  fix b assume b: "bytes_ok n b" "unat (bf_nset bf) = card (bits_of b)" "bf_nset bf < n" "bf_set n bf = bits_of b"
  then have "bits_of b \<noteq> {..<unat n}" by (intro part_not_all) (simp_all add: u32_less_iff)
  then show "raw_isfull n bf \<longleftrightarrow> bf_set n bf = {..<unat n}" using b by (simp add: raw_isfull_def)
qed (simp add: raw_isfull_def)

lemma IsFull_iff: "bf_inv n bf \<Longrightarrow> IsFull n bf \<longleftrightarrow> bf_set n bf = {..<unat n}"
  using isfull_set by (simp add: IsFull_def raw_isfull_def)

lemma IsSet_iff:
  assumes "bf_inv n bf" shows "IsSet n bf idx \<longleftrightarrow> unat idx \<in> bf_set n bf"
  using assms
proof (cases rule: bf_invE)
  case full
  then show ?thesis by (auto simp: IsSet_def IsSet_int_def raw_isfull_def u32_le_iff)
next
  case (part b)
  have r: "uint (raw_isset b idx) \<noteq> 0 \<longleftrightarrow> bit_at b (unat idx)"
    using raw_isset_bit(1)[of b idx] by (simp add: uint_0_iff)
  show ?thesis
  proof (cases "idx < n")
    case True
    then have "unat idx < 8 * length b" using part nbs_bound[of "unat idx" n] by (simp add: bytes_ok_def u32_less_iff)
    then have "unat idx \<in> bf_set n bf \<longleftrightarrow> bit_at b (unat idx)" by (simp add: part(6) bits_of_def)
    moreover have "IsSet n bf idx \<longleftrightarrow> bit_at b (unat idx)"
      using part(1,4) True r by (simp add: IsSet_def IsSet_int_def raw_isfull_def not_le[symmetric])
    ultimately show ?thesis by simp
  next
    case False
    then have "n \<le> idx" "unat idx \<notin> {..<unat n}" by (simp_all add: not_less u32_le_iff)
    then show ?thesis using part by (auto simp: IsSet_def IsSet_int_def bytes_ok_def)
  qed
qed

lemma new_ok: "0 < n \<Longrightarrow> bf_inv n (bf_new n) \<and> bf_set n (bf_new n) = {}"
  by (simp add: bf_new_def new_bytes_def bf_inv_def bf_set_def bytes_ok_def nbs_eq)

lemma length_new_bytes [simp]: "length (new_bytes n) = nbs n"
  by (simp add: new_bytes_def nbs_eq)

lemma bf_inv_None: "0 < n \<Longrightarrow> bf_inv n \<lparr>bf_b = None, bf_nset = n\<rparr>"
  by (simp add: bf_inv_def)

lemma bf_set_None: "bf_b bf = None \<Longrightarrow> bf_set n bf = {..<unat n}"
  by (simp add: bf_set_def)

lemma bf_set_Some: "bf_b bf = Some b \<Longrightarrow> bf_set n bf = bits_of b"
  by (simp add: bf_set_def)

lemma bf_inv_pos: "bf_inv n bf \<Longrightarrow> 0 < n"
  by (simp add: bf_inv_def)

lemma copy_ok:
  assumes "bf_inv n src" shows "bf_inv n (bf_copy n src) \<and> bf_set n (bf_copy n src) = bf_set n src"
  using assms
  by (cases rule: bf_invE)
    (auto simp: bf_copy_def raw_isfull_def bf_inv_def bf_set_def nbs_eq bytes_ok_def)

lemma assign_ok:
  assumes "bf_inv n src" "bf_inv n bf"
  shows "bf_inv n (bf_assign n bf src) \<and> bf_set n (bf_assign n bf src) = bf_set n src"
  using assms(1)
proof (cases rule: bf_invE)
  case full
  then show ?thesis by (auto simp: bf_assign_def raw_isfull_def bf_inv_def bf_set_def)
next
  case (part b)
  have "length (case bf_b bf of None \<Rightarrow> new_bytes n | Some b \<Rightarrow> b) = nbs n"
    using assms(2) by (cases rule: bf_invE) (auto simp: bytes_ok_def)
  with part show ?thesis
    by (auto simp: bf_assign_def raw_isfull_def bf_inv_def bf_set_def nbs_eq bytes_ok_def Let_def)
qed

lemma SetAll_ok: "0 < n \<Longrightarrow> bf_inv n (SetAll n bf) \<and> bf_set n (SetAll n bf) = {..<unat n}"
  by (simp add: SetAll_def bf_inv_def bf_set_def)

lemma Clear_ok:
  assumes "bf_inv n bf" shows "bf_inv n (Clear n bf) \<and> bf_set n (Clear n bf) = {}"
  using assms
  by (cases rule: bf_invE)
    (auto simp: Clear_def raw_isfull_def bf_inv_def bf_set_def nbs_eq bytes_ok_def)

lemma setall_raw_bits:
  assumes n: "0 < n" and len: "length buf = nbs n"
  shows "length (bf_setall_raw n buf) = nbs n" and "bits_of (bf_setall_raw n buf) = {..<unat n}"
proof -
  let ?nb = "nbs n"
  let ?last = "if n mod 8 \<noteq> 0 then tail_mask n else (0xff :: u8)"
  have nb: "0 < ?nb" by (rule nbs_pos[OF n])
  have m: "memset_to buf 0xff (?nb - 1) = replicate (?nb - 1) 0xff @ drop (?nb - 1) buf"
    by (simp add: memset_to_def)
  have dl: "length (drop (?nb - 1) buf) = 1" using len nb by simp
  then obtain x where x: "drop (?nb - 1) buf = [x]" by (metis One_nat_def length_0_conv length_Suc_conv)
  have eq: "bf_setall_raw n buf = replicate (?nb - 1) 0xff @ [?last]"
    using m x by (simp add: bf_setall_raw_def nbs_eq Let_def list_update_append)
  show l: "length (bf_setall_raw n buf) = nbs n" using nb by (simp add: eq)
  have ff: "bit (0xff :: u8) k \<longleftrightarrow> k < 8" for k
    using bit_mask_iff[of 8 k, where ?'a = "8 word"] by (simp add: mask_eq_exp_minus_1)
  have "i < 8 * ?nb \<and> bit_at (bf_setall_raw n buf) i \<longleftrightarrow> i < unat n" for i
  proof (cases "i div 8 < ?nb - 1")
    case True
    then have "i < unat n" unfolding nbs_def by linarith
    moreover from True have "i < 8 * ?nb" by linarith
    ultimately show ?thesis using True ff[of "7 - i mod 8"] by (simp add: eq bit_at_def nth_append)
  next
    case False
    show ?thesis
    proof (cases "i < 8 * ?nb")
      case i: True
      with False have d: "i div 8 = ?nb - 1" by linarith
      have "bit ?last (7 - i mod 8) \<longleftrightarrow> i < unat n"
      proof (cases "n mod 8 = 0")
        case True
        then have "unat n mod 8 = 0" by (simp add: u32_eq_iff u32_mod)
        then have "i < unat n" using i unfolding nbs_def by presburger
        then show ?thesis using True ff[of "7 - i mod 8"] by simp
      next
        case nz: False
        then have r: "unat n mod 8 \<noteq> 0" by (simp add: u32_eq_iff u32_mod)
        have "8 \<le> 7 - i mod 8 + unat n mod 8 \<longleftrightarrow> i mod 8 < unat n mod 8"
          using mod_less_divisor[of 8 i] by linarith
        also have "\<dots> \<longleftrightarrow> i < unat n"
        proof -
          have "(unat n + 7) div 8 = unat n div 8 + 1" by (rule ceil8[OF r])
          then have "i div 8 = unat n div 8" using d unfolding nbs_def by simp
          then show ?thesis by (metis add_less_cancel_left div_mult_mod_eq)
        qed
        finally show ?thesis using nz tail_mask_bit[OF nz, of "7 - i mod 8"] by (simp add: u32_mod)
      qed
      then show ?thesis using i d by (simp add: eq bit_at_def nth_append)
    next
      case False
      then show ?thesis using nbs_bound by blast
    qed
  qed
  then show "bits_of (bf_setall_raw n buf) = {..<unat n}"
    by (auto simp: bits_of_def l)
qed

lemma Set_ok:
  assumes "bf_inv n bf" and i: "idx < n"
  shows "bf_inv n (Set n idx bf) \<and> bf_set n (Set n idx bf) = insert (unat idx) (bf_set n bf)"
  using assms(1)
proof (cases rule: bf_invE)
  case full
  then show ?thesis using i assms(1) by (auto simp: Set_def raw_isfull_def u32_less_iff)
next
  case (part b)
  have lt: "unat idx < 8 * length b" using part i nbs_bound[of "unat idx" n] by (simp add: bytes_ok_def u32_less_iff)
  show ?thesis
  proof (cases "bit_at b (unat idx)")
    case True
    then have "unat idx \<in> bits_of b" using lt by (simp add: bits_of_def)
    moreover have "Set n idx bf = bf"
      using part(1,4) i True by (simp add: Set_def raw_isfull_def not_le[symmetric])
    ultimately show ?thesis using part(6) assms(1) by (simp add: insert_absorb)
  next
    case False
    let ?b = "byte_or_bit b idx"
    have nin: "unat idx \<notin> bits_of b" using False by (simp add: bits_of_def)
    have c: "card (bits_of ?b) = Suc (card (bits_of b))" using nin by (simp add: bits_of_or[OF lt])
    have ok: "bytes_ok n ?b" using part i by (auto simp: bytes_ok_def bits_of_or[OF lt] u32_less_iff)
    have u: "unat (bf_nset bf + 1) = card (bits_of ?b)"
    proof -
      have "unat (bf_nset bf) < unat n" using part by (simp add: u32_less_iff)
      then have "unat (bf_nset bf) + unat (1::u32) < 4294967296" using unat_u32_lt[of n] unfolding unat_1 by linarith
      from u32_add[OF this] show ?thesis using c part by simp
    qed
    have e: "Set n idx bf = (if n \<le> bf_nset bf + 1 then \<lparr>bf_b = None, bf_nset = bf_nset bf + 1\<rparr>
        else \<lparr>bf_b = Some ?b, bf_nset = bf_nset bf + 1\<rparr>)"
      using part i False by (simp add: Set_def raw_isfull_def Let_def)
    show ?thesis
    proof (cases "n \<le> bf_nset bf + 1")
      case True
      then have eq: "card (bits_of ?b) = unat n" using bits_of_bound[OF ok] u by (simp add: u32_le_iff)
      then have "bf_nset bf + 1 = n" using u by (simp add: u32_eq_iff)
      then show ?thesis using True part bits_of_full[OF ok eq]
        by (simp add: e bf_inv_def bf_set_def bits_of_or[OF lt])
    next
      case f: False
      then show ?thesis using part ok u by (simp add: e bf_inv_def bf_set_def bits_of_or[OF lt])
    qed
  qed
qed

lemma UnSet_ok:
  assumes "bf_inv n bf" and i: "idx < n"
  shows "bf_inv n (UnSet n idx bf) \<and> bf_set n (UnSet n idx bf) = bf_set n bf - {unat idx}"
  using assms(1)
proof (cases rule: bf_invE)
  case full
  note sr = setall_raw_bits[OF full(3) length_new_bytes]
  let ?b = "byte_clear_bit (bf_setall_raw n (new_bytes n)) idx"
  have lt: "unat idx < 8 * length (bf_setall_raw n (new_bytes n))"
    using i by (simp add: sr u32_less_iff nbs_bound)
  have bits: "bits_of ?b = {..<unat n} - {unat idx}" by (simp add: bits_of_clear[OF lt] sr)
  have "card (bits_of ?b) = unat n - 1" using i by (simp add: bits u32_less_iff)
  moreover have "unat (n - 1) = unat n - 1" using full by (simp add: unat_minus_one)
  moreover have e: "UnSet n idx bf = \<lparr>bf_b = Some ?b, bf_nset = n - 1\<rparr>"
    using full i by (simp add: UnSet_def raw_isfull_def)
  moreover have "n - 1 < n" using full(3) by (simp add: u32_less_iff unat_minus_one[OF full(3)[THEN less_imp_neq, THEN not_sym]])
  moreover have "bytes_ok n ?b" using bits by (auto simp: bytes_ok_def sr)
  ultimately show ?thesis using full(3,4) bits by (simp add: bf_inv_def bf_set_def)
next
  case (part b)
  have lt: "unat idx < 8 * length b" using part i nbs_bound[of "unat idx" n] by (simp add: bytes_ok_def u32_less_iff)
  show ?thesis
  proof (cases "bit_at b (unat idx)")
    case True
    have mem: "unat idx \<in> bits_of b" using True lt by (simp add: bits_of_def)
    then have "card (bits_of b) \<noteq> 0" by auto
    then have "unat (bf_nset bf - 1) = card (bits_of b) - 1"
      using part(3) by (simp add: unat_minus_one u32_zero_iff)
    then have c: "unat (bf_nset bf - 1) = card (bits_of (byte_clear_bit b idx))"
      using mem by (simp add: bits_of_clear[OF lt])
    have "card (bits_of (byte_clear_bit b idx)) \<le> card (bits_of b)"
      by (rule card_mono) (auto simp: bits_of_clear[OF lt])
    then have "bf_nset bf - 1 < n" using c part(3,4) by (simp add: u32_less_iff)
    moreover have "UnSet n idx bf = \<lparr>bf_b = Some (byte_clear_bit b idx), bf_nset = bf_nset bf - 1\<rparr>"
      using part(1,4) i True by (simp add: UnSet_def raw_isfull_def not_le[symmetric])
    moreover have "bytes_ok n (byte_clear_bit b idx)"
      using part(2) by (auto simp: bytes_ok_def bits_of_clear[OF lt])
    ultimately show ?thesis using part(5,6) c by (simp add: bf_inv_def bf_set_def bits_of_clear[OF lt])
  next
    case False
    then have "unat idx \<notin> bits_of b" by (simp add: bits_of_def)
    moreover have "UnSet n idx bf = bf"
      using part(1,4) i False by (simp add: UnSet_def raw_isfull_def not_le[symmetric])
    ultimately show ?thesis using part(6) assms(1) by simp
  qed
qed

lemma binop_ok:
  assumes "bytes_ok n b" "length c = nbs n"
  shows "bytes_ok n (map2 (AND) b c)" "bytes_ok n (map2 (\<lambda>x y. x AND NOT y) b c)"
    "bits_of c \<subseteq> {..<unat n} \<Longrightarrow> bytes_ok n (map2 (OR) b c)"
  using assms by (auto simp: bytes_ok_def bits_of_map2)

lemma Or_ok:
  assumes "bf_inv n bf" "bf_inv n other"
  shows "bf_inv n (Or_bf n bf other) \<and> bf_set n (Or_bf n bf other) = bf_set n bf \<union> bf_set n other"
proof (cases "raw_isempty other \<or> raw_isfull n bf")
  case True
  then show ?thesis using assms bf_set_subset[OF assms(2)]
    by (auto simp: Or_bf_def isempty_iff isfull_set)
next
  case False
  then obtain b where b: "bf_b bf = Some b" "bytes_ok n b" "bf_set n bf = bits_of b" "0 < n"
    using assms(1) by (auto simp: raw_isfull_def elim!: bf_invE)
  show ?thesis
  proof (cases "raw_isfull n other")
    case True
    then show ?thesis using False b SetAll_ok[OF b(4), of bf] assms(2)
      by (auto simp: Or_bf_def isfull_set bytes_ok_def)
  next
    case nf: False
    then obtain c where c: "bf_b other = Some c" "bytes_ok n c" "bf_set n other = bits_of c"
      "unat (bf_nset other) = card (bits_of c)" "bf_nset other < n"
      using assms(2) by (auto simp: raw_isfull_def elim!: bf_invE)
    show ?thesis
    proof (cases "raw_isempty bf")
      case True
      then have "bits_of b = {}" using b assms(1) by (simp add: isempty_iff)
      then show ?thesis using False nf True b c
        by (simp add: Or_bf_def nbs_eq bytes_ok_def bf_inv_def bf_set_def)
    next
      case ne: False
      have "bytes_ok n (map2 (OR) b c)" using b c by (intro binop_ok) (auto simp: bytes_ok_def)
      from recalc_ok[OF this b(4), of "bf\<lparr>bf_b := Some (map2 (OR) b c)\<rparr>"]
      show ?thesis using False nf ne b c bits_of_map2(1)[of b c]
        by (simp add: Or_bf_def bytes_ok_def)
    qed
  qed
qed

lemma Except_ok:
  assumes "bf_inv n bf" "bf_inv n other"
  shows "bf_inv n (Except n bf other) \<and> bf_set n (Except n bf other) = bf_set n bf - bf_set n other"
proof (cases "raw_isempty other \<or> raw_isempty bf")
  case True
  then show ?thesis using assms by (auto simp: Except_def isempty_iff)
next
  case False
  have n: "0 < n" by (rule bf_inv_pos[OF assms(1)])
  show ?thesis
  proof (cases "raw_isfull n other")
    case True
    then show ?thesis using False Clear_ok[OF assms(1)] bf_set_subset[OF assms(1)] assms(2)
      by (auto simp: Except_def isfull_set)
  next
    case nf: False
    then obtain c where c: "bf_b other = Some c" "bytes_ok n c" "bf_set n other = bits_of c"
      using assms(2) by (auto simp: raw_isfull_def elim!: bf_invE)
    let ?b = "if raw_isfull n bf then bf_setall_raw n (new_bytes n) else the (bf_b bf)"
    have b: "bytes_ok n ?b \<and> bf_set n bf = bits_of ?b"
      using assms(1) by (cases rule: bf_invE) (auto simp: raw_isfull_def bytes_ok_def setall_raw_bits)
    have l: "length ?b = length c" using b c by (simp add: bytes_ok_def)
    let ?m = "map2 (\<lambda>x y. x AND NOT y) ?b c"
    have "bytes_ok n ?m" using b c by (intro binop_ok) (auto simp: bytes_ok_def)
    from recalc_ok[OF this n, of "bf\<lparr>bf_b := Some ?m\<rparr>"]
    show ?thesis using False nf b c bits_of_map2(3)[OF l]
      by (simp add: Except_def Let_def)
  qed
qed

lemma And_ok:
  assumes "bf_inv n bf" "bf_inv n other"
  shows "bf_inv n (And_bf n bf other) \<and> bf_set n (And_bf n bf other) = bf_set n bf \<inter> bf_set n other"
proof (cases "raw_isfull n other \<or> raw_isempty bf")
  case True
  then show ?thesis using assms bf_set_subset[OF assms(1)]
    by (auto simp: And_bf_def isempty_iff isfull_set)
next
  case False
  have n: "0 < n" by (rule bf_inv_pos[OF assms(1)])
  obtain c where c: "bf_b other = Some c" "bytes_ok n c" "bf_set n other = bits_of c"
      "unat (bf_nset other) = card (bits_of c)" "bf_nset other < n"
    using False assms(2) by (auto simp: raw_isfull_def elim!: bf_invE)
  consider (e) "raw_isempty other" | (f) "\<not> raw_isempty other" "raw_isfull n bf"
    | (p) "\<not> raw_isempty other" "\<not> raw_isfull n bf" by blast
  then show ?thesis
  proof cases
    case e
    then show ?thesis using False Clear_ok[OF assms(1)] assms(2) by (simp add: And_bf_def isempty_iff)
  next
    case f
    have "bf_set n bf = {..<unat n}" using f assms(1) by (simp add: isfull_set)
    then have "bf_set n bf \<inter> bits_of c = bits_of c" using c by (auto simp: bytes_ok_def)
    then show ?thesis using f False c n
      by (simp add: And_bf_def nbs_eq bytes_ok_def bf_inv_def bf_set_Some)
  next
    case p
    then obtain b where b: "bf_b bf = Some b" "bytes_ok n b" "bf_set n bf = bits_of b"
      using assms(1) by (auto simp: raw_isfull_def elim!: bf_invE)
    have "bytes_ok n (map2 (AND) b c)" using b c by (intro binop_ok) (auto simp: bytes_ok_def)
    from recalc_ok[OF this n, of "bf\<lparr>bf_b := Some (map2 (AND) b c)\<rparr>"]
    show ?thesis using False p b c bits_of_map2(2)[of b c]
      by (simp add: And_bf_def bytes_ok_def)
  qed
qed


lemma bit_at_upd_last:
  assumes "length b = k" "0 < k"
  shows "bit_at (b[k - 1 := v]) i \<longleftrightarrow> (if i div 8 = k - 1 then bit v (7 - i mod 8) else bit_at b i)"
  using assms by (simp add: bit_at_def nth_list_update)

lemma invert_tail_ok:
  assumes "distinct is" "\<forall>i \<in> set is. i < n" "bf_b bf = Some b" "length b = nbs n"
    "bf_nset bf < n" "length (filter (\<lambda>i. bit_at b (unat i)) is) \<le> unat (bf_nset bf)"
  shows "\<exists>b'. bf_b (invert_tail n is bf) = Some b' \<and> length b' = nbs n \<and>
    (\<forall>j. bit_at b' j \<longleftrightarrow> (if j \<in> unat ` set is then \<not> bit_at b j else bit_at b j))"
  using assms
proof (induction "is" arbitrary: bf b)
  case Nil
  then show ?case by simp
next
  case (Cons i "is")
  have i: "i < n" using Cons.prems by simp
  then have lt: "unat i < 8 * length b"
    using Cons.prems(4) nbs_bound[of "unat i" n] by (simp add: u32_less_iff)
  have nf: "\<not> raw_isfull n bf" using Cons.prems(5) by (simp add: raw_isfull_def not_le)
  let ?b = "if bit_at b (unat i) then byte_clear_bit b i else byte_or_bit b i"
  let ?bf = "if raw_isset (the (bf_b bf)) i \<noteq> 0 then UnSet n i bf else bf_set_raw n i bf"
  have bits: "bit_at ?b j \<longleftrightarrow> (if j = unat i then \<not> bit_at b j else bit_at b j)" for j
    by (simp add: bit_at_or[OF lt] bit_at_clear[OF lt])
  have ni: "i \<notin> set is" using Cons.prems by simp
  then have "filter (\<lambda>i. bit_at ?b (unat i)) is = filter (\<lambda>i. bit_at b (unat i)) is"
    by (intro filter_cong) (auto simp: bits word_unat_eq_iff[symmetric])
  then have len: "length (filter (\<lambda>i. bit_at ?b (unat i)) is) + (if bit_at b (unat i) then 1 else 0)
      \<le> unat (bf_nset bf)"
    using Cons.prems(6) by (simp split: if_splits)
  have e: "bf_b ?bf = Some ?b \<and> bf_nset ?bf = (if bit_at b (unat i) then bf_nset bf - 1 else bf_nset bf)"
    using nf i Cons.prems(3) by (simp add: UnSet_def bf_set_raw_def not_le[symmetric])
  have d: "bit_at b (unat i) \<Longrightarrow> unat (bf_nset bf - 1) = unat (bf_nset bf) - 1"
    using len by (intro unat_minus_one) auto
  have ns: "bf_nset ?bf < n \<and> length (filter (\<lambda>i. bit_at ?b (unat i)) is) \<le> unat (bf_nset ?bf)"
  proof (cases "bit_at b (unat i)")
    case True
    with d have "unat (bf_nset bf - 1) = unat (bf_nset bf) - 1" by simp
    with True len Cons.prems(5) e show ?thesis by (simp add: u32_less_iff) linarith
  next
    case False
    with len Cons.prems(5) e show ?thesis by simp
  qed
  have "\<exists>b'. bf_b (invert_tail n is ?bf) = Some b' \<and> length b' = nbs n \<and>
    (\<forall>j. bit_at b' j \<longleftrightarrow> (if j \<in> unat ` set is then \<not> bit_at ?b j else bit_at ?b j))"
    using Cons.prems e ns by (intro Cons.IH) auto
  then obtain b' where b': "bf_b (invert_tail n is ?bf) = Some b'" "length b' = nbs n"
    "\<And>j. bit_at b' j \<longleftrightarrow> (if j \<in> unat ` set is then \<not> bit_at ?b j else bit_at ?b j)" by blast
  have "unat i \<notin> unat ` set is" using ni by (metis imageE word_unat_eq_iff)
  then have "bit_at b' j \<longleftrightarrow> (if j \<in> unat ` set (i # is) then \<not> bit_at b j else bit_at b j)" for j
    unfolding b'(3) bits by auto
  then show ?case using b'(1,2) by auto
qed

lemma Invert_ok:
  assumes inv: "bf_inv n bf"
  shows "bf_inv n (Invert n bf) \<and> bf_set n (Invert n bf) = {..<unat n} - bf_set n bf"
proof -
  have n: "0 < n" by (rule bf_inv_pos[OF inv])
  consider (e) "raw_isempty bf" | (f) "\<not> raw_isempty bf" "raw_isfull n bf"
    | (p) "\<not> raw_isempty bf" "\<not> raw_isfull n bf" by blast
  then show ?thesis
  proof cases
    case e
    then show ?thesis using SetAll_ok[OF n, of bf] inv by (simp add: Invert_def isempty_iff)
  next
    case f
    then show ?thesis using Clear_ok[OF inv] inv by (simp add: Invert_def isfull_set)
  next
    case p
    then obtain b where b: "bf_b bf = Some b" "bytes_ok n b" "bf_set n bf = bits_of b"
      "unat (bf_nset bf) = card (bits_of b)" "bf_nset bf < n"
      using inv by (auto simp: raw_isfull_def elim!: bf_invE)
    let ?nb = "nbs n"
    have nb: "0 < ?nb" by (rule nbs_pos[OF n])
    have len: "length b = ?nb" and sub: "bits_of b \<subseteq> {..<unat n}" using b by (auto simp: bytes_ok_def)
    have ne: "bits_of b \<noteq> {}" using p inv b by (simp add: isempty_iff)
    let ?b1 = "map (\<lambda>x. NOT x) (take (?nb - 1) b) @ drop (?nb - 1) b"
    have len1: "length ?b1 = ?nb" using len nb by simp
    have b1: "bit_at ?b1 i \<longleftrightarrow> (if i div 8 < ?nb - 1 then \<not> bit_at b i else bit_at b i)"
      if "i < 8 * ?nb" for i
    proof -
      have "i div 8 = ?nb - 1" if "\<not> i div 8 < ?nb - 1" using that \<open>i < 8 * ?nb\<close> by linarith
      then show ?thesis using len nb by (auto simp: bit_at_def nth_append bit_not_iff)
    qed
    have "\<exists>b'. bf_b (Invert n bf) = Some b' \<and> length b' = ?nb \<and> bits_of b' = {..<unat n} - bits_of b"
    proof (cases "n mod 8 = 0")
      case True
      then have "unat n mod 8 = 0" by (simp add: u32_eq_iff u32_mod)
      then have n8: "8 * ?nb = unat n" by (simp add: nbs_def) presburger
      let ?b2 = "?b1[?nb - 1 := NOT (?b1 ! (?nb - 1))]"
      have "bit_at ?b2 i \<longleftrightarrow> \<not> bit_at b i" if "i < 8 * ?nb" for i
        using that b1[OF that] nb unfolding bit_at_upd_last[OF len1 nb]
        by (auto simp: bit_not_iff bit_at_def)
      then have "bits_of ?b2 = {..<unat n} - bits_of b" using len len1 n8 by (auto simp: bits_of_def)
      moreover have "bf_b (Invert n bf) = Some ?b2"
        using p True b by (simp add: Invert_def Let_def nbs_eq)
      ultimately show ?thesis using len1 by simp
    next
      case False
      let ?is = "map of_nat [8 * (?nb - 1)..<unat n] :: u32 list"
      have u: "unat (of_nat i :: u32) = i" if "i < unat n" for i
        using that unat_u32_lt[of n] by (intro unat_of_nat_u32) linarith
      have img: "unat ` set ?is = {8 * (?nb - 1)..<unat n}"
        using u by (auto simp: image_iff)
      have dist: "distinct ?is"
        using u by (auto simp: distinct_map inj_on_def) (metis u)
      have lt: "\<forall>i \<in> set ?is. i < n" using u by (auto simp: u32_less_iff)
      have cnt: "length (filter (\<lambda>i. bit_at ?b1 (unat i)) ?is) \<le> unat (bf_nset bf)"
      proof -
        have "length (filter (\<lambda>i. bit_at ?b1 (unat i)) ?is)
            = card (set (filter (\<lambda>i. bit_at ?b1 i) [8 * (?nb - 1)..<unat n]))"
        proof -
          have "length (filter (\<lambda>i. bit_at ?b1 (unat i)) ?is)
              = length (filter (\<lambda>i. bit_at ?b1 (unat (of_nat i :: u32))) [8 * (?nb - 1)..<unat n])"
            by (simp add: filter_map comp_def)
          also have "\<dots> = length (filter (\<lambda>i. bit_at ?b1 i) [8 * (?nb - 1)..<unat n])"
            by (rule arg_cong[where f = length], rule filter_cong) (auto simp: u)
          also have "\<dots> = card (set (filter (\<lambda>i. bit_at ?b1 i) [8 * (?nb - 1)..<unat n]))"
            by (rule distinct_card[symmetric]) simp
          finally show ?thesis .
        qed
        also have "\<dots> \<le> card (bits_of b)"
        proof (rule card_mono)
          show "set (filter (\<lambda>i. bit_at ?b1 i) [8 * (?nb - 1)..<unat n]) \<subseteq> bits_of b"
          proof
            fix i assume "i \<in> set (filter (\<lambda>i. bit_at ?b1 i) [8 * (?nb - 1)..<unat n])"
            then have i: "8 * (?nb - 1) \<le> i" "i < unat n" "bit_at ?b1 i" by auto
            then have "i < 8 * ?nb" by (simp add: nbs_bound)
            moreover have "\<not> i div 8 < ?nb - 1" using i(1) by linarith
            ultimately show "i \<in> bits_of b" using b1[of i] i(3) len by (simp add: bits_of_def)
          qed
        qed simp
        finally show ?thesis using b(4) by simp
      qed
      have "\<exists>b'. bf_b (invert_tail n ?is (bf\<lparr>bf_b := Some ?b1\<rparr>)) = Some b' \<and> length b' = ?nb \<and>
        (\<forall>j. bit_at b' j \<longleftrightarrow> (if j \<in> unat ` set ?is then \<not> bit_at ?b1 j else bit_at ?b1 j))"
        by (rule invert_tail_ok[OF dist lt]) (use len1 b(5) cnt in simp_all)
      then obtain b' where b': "bf_b (invert_tail n ?is (bf\<lparr>bf_b := Some ?b1\<rparr>)) = Some b'" "length b' = ?nb"
        "\<And>j. bit_at b' j \<longleftrightarrow> (if j \<in> {8 * (?nb - 1)..<unat n} then \<not> bit_at ?b1 j else bit_at ?b1 j)"
        unfolding img by auto
      have "j \<in> bits_of b' \<longleftrightarrow> j \<in> {..<unat n} - bits_of b" for j
      proof (cases "j < 8 * ?nb")
        case True
        have "j div 8 < ?nb - 1 \<longleftrightarrow> j < 8 * (?nb - 1)" by linarith
        moreover have "j < 8 * (?nb - 1) \<Longrightarrow> j < unat n" unfolding nbs_def by linarith
        ultimately show ?thesis using True b'(2,3) b1[OF True] len sub
          by (auto simp: bits_of_def)
      next
        case False
        then show ?thesis using b'(2) nbs_bound[of j n] by (auto simp: bits_of_def)
      qed
      then have "bits_of b' = {..<unat n} - bits_of b" by blast
      moreover have "bf_b (Invert n bf) = Some b'"
        using p False b b'(1) by (simp add: Invert_def Let_def nbs_eq)
      ultimately show ?thesis using b'(2) by simp
    qed
    then obtain b' where b': "bf_b (Invert n bf) = Some b'" "length b' = ?nb"
      "bits_of b' = {..<unat n} - bits_of b" by blast
    have ns: "bf_nset (Invert n bf) = n - bf_nset bf" using p by (simp add: Invert_def Let_def)
    have u: "unat (n - bf_nset bf) = unat n - card (bits_of b)"
      using b(4,5) by (simp add: u32_diff)
    moreover have "card ({..<unat n} - bits_of b) = unat n - card (bits_of b)"
      using sub by (simp add: card_Diff_subset)
    moreover have "0 < card (bits_of b)" using ne by (simp add: card_gt_0_iff)
    moreover have "0 < unat n" using n by (simp add: u32_less_iff)
    ultimately have "unat (n - bf_nset bf) = card (bits_of b')" "n - bf_nset bf < n"
      using b'(3) by (simp_all add: u32_less_iff)
    then show ?thesis using b' b(3) n ns by (simp add: bf_inv_def bf_set_def bytes_ok_def)
  qed
qed

lemma WriteToBuffer_ok:
  assumes inv: "bf_inv n bf" and len: "length buf = nbs n"
  shows "length (WriteToBuffer n bf buf) = nbs n \<and> bits_of (WriteToBuffer n bf buf) = bf_set n bf"
  using inv
proof (cases rule: bf_invE)
  case full
  then show ?thesis using setall_raw_bits[OF full(3) len] by (simp add: WriteToBuffer_def raw_isfull_def)
next
  case (part b)
  then show ?thesis using len by (simp add: WriteToBuffer_def raw_isfull_def not_le[symmetric] nbs_eq bytes_ok_def)
qed

lemma SetReferBuffer_ok:
  assumes inv: "bf_inv n bf" and len: "length buf = nbs n"
  shows "bf_inv n (SetReferBuffer n buf bf) \<and>
    bf_set n (SetReferBuffer n buf bf) = {i. i < unat n \<and> bit_at buf i}"
proof -
  let ?nb = "nbs n"
  have n: "0 < n" by (rule bf_inv_pos[OF inv])
  have nb: "0 < ?nb" by (rule nbs_pos[OF n])
  let ?b0 = "case bf_b bf of None \<Rightarrow> new_bytes n | Some b \<Rightarrow> b"
  have "length ?b0 = ?nb" using inv by (cases rule: bf_invE) (simp_all add: bytes_ok_def)
  then have cp: "memcpy_to ?b0 0 buf ?nb = buf" using len by simp
  let ?b = "if n mod 8 \<noteq> 0 then buf[?nb - 1 := (buf ! (?nb - 1)) AND tail_mask n] else buf"
  have lb: "length ?b = ?nb" using len by simp
  have "i < 8 * ?nb \<and> bit_at ?b i \<longleftrightarrow> i < unat n \<and> bit_at buf i" for i
  proof (cases "i < 8 * ?nb")
    case i: True
    show ?thesis
    proof (cases "n mod 8 = 0")
      case True
      then have "unat n mod 8 = 0" by (simp add: u32_eq_iff u32_mod)
      then have "8 * ?nb = unat n" by (simp add: nbs_def) presburger
      then show ?thesis using True i by simp
    next
      case nz: False
      then have r: "unat n mod 8 \<noteq> 0" by (simp add: u32_eq_iff u32_mod)
      have c8: "(unat n + 7) div 8 = unat n div 8 + 1" by (rule ceil8[OF r])
      show ?thesis
      proof (cases "i div 8 = ?nb - 1")
        case True
        then have "i div 8 = unat n div 8" using c8 unfolding nbs_def by simp
        then have "i < unat n \<longleftrightarrow> i mod 8 < unat n mod 8" by (metis add_less_cancel_left div_mult_mod_eq)
        also have "\<dots> \<longleftrightarrow> 8 \<le> 7 - i mod 8 + unat n mod 8" using mod_less_divisor[of 8 i] by linarith
        finally show ?thesis using True i nz nb len tail_mask_bit[OF nz, of "7 - i mod 8"]
          by (auto simp: bit_at_def bit_and_iff u32_mod)
      next
        case False
        then have "i < unat n" using i unfolding nbs_def by linarith
        then show ?thesis using False i nz nb len bit_at_upd_last[OF len nb] by simp
      qed
    qed
  next
    case False
    then show ?thesis using nbs_bound by blast
  qed
  then have bits: "bits_of ?b = {i. i < unat n \<and> bit_at buf i}" unfolding bits_of_def lb by blast
  then have "bytes_ok n ?b" unfolding bytes_ok_def using lb by auto
  moreover have "SetReferBuffer n buf bf = bf_recalc n (bf\<lparr>bf_b := Some ?b\<rparr>)"
    by (simp add: SetReferBuffer_def Let_def nbs_eq cp)
  ultimately show ?thesis using recalc_ok[of n ?b "bf\<lparr>bf_b := Some ?b\<rparr>"] n bits by simp
qed

lemma bits_eq_bit_at: "length b = nbs n \<Longrightarrow> bits_of b \<subseteq> {..<unat n} \<Longrightarrow>
  {i. i < unat n \<and> bit_at b i} = bits_of b"
  using nbs_bound by (auto simp: bits_of_def)

lemma random_scan_0 [simp]: "random_scan b idx js 0 = idx"
  by (cases js) simp_all

lemma random_scan_spec:
  assumes "0 < i" "i \<le> card {j. idx \<le> j \<and> j < m \<and> bit_at b j}" "idx \<le> m" "m < 4294967296"
  shows "\<exists>r. random_scan b idx (map of_nat [idx..<m]) i = Suc r \<and> idx \<le> r \<and> r < m \<and> bit_at b r \<and>
    card {j. idx \<le> j \<and> j \<le> r \<and> bit_at b j} = i"
  using assms
proof (induction "m - idx" arbitrary: idx i)
  case 0
  then have "{j. idx \<le> j \<and> j < m \<and> bit_at b j} = {}" by auto
  then have "card {j. idx \<le> j \<and> j < m \<and> bit_at b j} = 0" by (simp only: card.empty)
  with "0.prems"(1,2) have False by linarith
  then show ?case ..
next
  case (Suc k)
  then have lt: "idx < m" by simp
  have js: "map of_nat [idx..<m] = (of_nat idx :: u32) # map of_nat [Suc idx..<m]"
    using lt by (simp add: upt_conv_Cons)
  have u: "unat (of_nat idx :: u32) = idx" using lt Suc.prems by (intro unat_of_nat_u32) simp
  let ?S = "\<lambda>a. {j. a \<le> j \<and> j < m \<and> bit_at b j}"
  have split: "?S idx = (if bit_at b idx then insert idx (?S (Suc idx)) else ?S (Suc idx))"
    using lt by (auto simp: Suc_le_eq) (metis order_le_less)+
  have fin: "finite (?S (Suc idx))" by simp
  have cs: "card (?S idx) = (if bit_at b idx then 1 else 0) + card (?S (Suc idx))"
    unfolding split using fin by (auto simp: card_insert_if)
  show ?case
  proof (cases "bit_at b idx \<and> i = 1")
    case True
    have e: "random_scan b idx (map of_nat [idx..<m]) i = Suc idx"
      using True by (simp add: js u)
    have "{j. idx \<le> j \<and> j \<le> idx \<and> bit_at b j} = {idx}" using True by auto
    then show ?thesis using True e lt by auto
  next
    case False
    let ?i = "if bit_at b idx then i - 1 else i"
    have "0 < ?i" "?i \<le> card (?S (Suc idx))" "Suc idx \<le> m" "k = m - Suc idx"
      using False Suc.prems(1,2) cs lt Suc.hyps(2) by (auto split: if_splits)
    from Suc.hyps(1)[OF this(4) this(1,2,3) Suc.prems(4)]
    obtain r where r: "random_scan b (Suc idx) (map of_nat [Suc idx..<m]) ?i = Suc r"
      "Suc idx \<le> r" "r < m" "bit_at b r" "card {j. Suc idx \<le> j \<and> j \<le> r \<and> bit_at b j} = ?i" by blast
    have "{j. idx \<le> j \<and> j \<le> r \<and> bit_at b j} = (if bit_at b idx then insert idx {j. Suc idx \<le> j \<and> j \<le> r \<and> bit_at b j} else {j. Suc idx \<le> j \<and> j \<le> r \<and> bit_at b j})"
      using r(2) by (auto simp: Suc_le_eq) (metis order_le_less)+
    then have "card {j. idx \<le> j \<and> j \<le> r \<and> bit_at b j} = i"
      using r(5) Suc.prems(1) by (auto simp: card_insert_if split: if_splits)
    moreover have "random_scan b idx (map of_nat [idx..<m]) i = Suc r"
      using r(1) Suc.prems(1) by (simp add: js u split: if_splits)
    ultimately show ?thesis using r lt by auto
  qed
qed

lemma Random_ok:
  assumes inv: "bf_inv n bf" and ne: "bf_set n bf \<noteq> {}"
  shows "\<exists>idx. Random n r bf = Some idx \<and> unat idx \<in> bf_set n bf \<and>
    card {j \<in> bf_set n bf. j \<le> unat idx} = r mod card (bf_set n bf) + 1"
  using inv
proof (cases rule: bf_invE)
  case full
  have p: "0 < unat n" using full(3) by (simp add: u32_less_iff)
  have lt: "r mod unat n < unat n" using p by simp
  then have u: "unat (of_nat (r mod unat n) :: u32) = r mod unat n"
    using unat_u32_lt[of n] by (intro unat_of_nat_u32) linarith
  have "Random n r bf = Some (of_nat (r mod unat n))"
    using full p by (auto simp: Random_def raw_isfull_def)
  moreover have "{j. j < unat n \<and> j \<le> r mod unat n} = {..r mod unat n}" using lt by auto
  ultimately show ?thesis using full(4) lt u by (intro exI[of _ "of_nat (r mod unat n)"]) simp
next
  case (part b)
  let ?i = "r mod card (bits_of b) + 1"
  have c: "0 < card (bits_of b)" using ne part(6) by (simp add: card_gt_0_iff)
  have S: "{j. 0 \<le> j \<and> j < unat n \<and> bit_at b j} = bits_of b"
    using part(2) by (simp add: bytes_ok_def bits_eq_bit_at)
  have "?i \<le> card (bits_of b)" using c by (simp add: Suc_le_eq)
  from random_scan_spec[of ?i 0 "unat n" b, unfolded S, OF _ this]
  obtain q where q: "random_scan b 0 (map of_nat [0..<unat n]) ?i = Suc q" "q < unat n" "bit_at b q"
    "card {j. j \<le> q \<and> bit_at b j} = ?i" by auto
  have u: "unat (of_nat q :: u32) = q" using q(2) unat_u32_lt[of n] by (intro unat_of_nat_u32) linarith
  have nz: "bf_nset bf \<noteq> 0" using c part(3) by (auto simp: u32_zero_iff)
  have "Random n r bf = Some (of_nat q)"
    using part(1,3,4) nz q(1) by (simp add: Random_def raw_isfull_def not_le[symmetric])
  moreover have "q \<in> bits_of b" using q(2,3) S by blast
  moreover have "{j \<in> {j. 0 \<le> j \<and> j < unat n \<and> bit_at b j}. j \<le> q} = {j. j \<le> q \<and> bit_at b j}"
    using q(2) by auto
  then have "{j \<in> bits_of b. j \<le> q} = {j. j \<le> q \<and> bit_at b j}" unfolding S .
  ultimately show ?thesis unfolding part(6) by (intro exI[of _ "of_nat q"]) (simp only: u q(4) simp_thms)
qed

section \<open>The interface of piece sets\<close>

text \<open>
  What the clients of a bit field use: the laws are the refinement lemmas above, over an
  abstraction \<open>els\<close> to sets of piece numbers and an invariant \<open>inv\<close>.  The lemmas proved here are
  the combinations the clients compute (what a peer has that I want, what is still missing).
\<close>

locale piece_set =
  fixes inv :: "'b \<Rightarrow> bool" and els :: "'b \<Rightarrow> nat set" and univ :: "nat set"
    and union :: "'b \<Rightarrow> 'b \<Rightarrow> 'b" and diff :: "'b \<Rightarrow> 'b \<Rightarrow> 'b" and inter :: "'b \<Rightarrow> 'b \<Rightarrow> 'b"
    and compl :: "'b \<Rightarrow> 'b" and empty :: "'b \<Rightarrow> bool" and full :: "'b \<Rightarrow> bool"
  assumes els_univ: "inv a \<Longrightarrow> els a \<subseteq> univ"
    and finite_univ: "finite univ"
    and union: "inv a \<Longrightarrow> inv b \<Longrightarrow> inv (union a b) \<and> els (union a b) = els a \<union> els b"
    and diff: "inv a \<Longrightarrow> inv b \<Longrightarrow> inv (diff a b) \<and> els (diff a b) = els a - els b"
    and inter: "inv a \<Longrightarrow> inv b \<Longrightarrow> inv (inter a b) \<and> els (inter a b) = els a \<inter> els b"
    and compl: "inv a \<Longrightarrow> inv (compl a) \<and> els (compl a) = univ - els a"
    and empty: "inv a \<Longrightarrow> empty a \<longleftrightarrow> els a = {}"
    and full: "inv a \<Longrightarrow> full a \<longleftrightarrow> els a = univ"
begin

lemma inv_ops:
  "inv a \<Longrightarrow> inv b \<Longrightarrow> inv (union a b)" "inv a \<Longrightarrow> inv b \<Longrightarrow> inv (diff a b)"
  "inv a \<Longrightarrow> inv b \<Longrightarrow> inv (inter a b)" "inv a \<Longrightarrow> inv (compl a)"
  by (simp_all add: union diff inter compl)

lemma els_ops:
  "inv a \<Longrightarrow> inv b \<Longrightarrow> els (union a b) = els a \<union> els b"
  "inv a \<Longrightarrow> inv b \<Longrightarrow> els (diff a b) = els a - els b"
  "inv a \<Longrightarrow> inv b \<Longrightarrow> els (inter a b) = els a \<inter> els b"
  "inv a \<Longrightarrow> els (compl a) = univ - els a"
  by (simp_all add: union diff inter compl)

lemma diff_empty: "inv a \<Longrightarrow> inv b \<Longrightarrow> empty (diff a b) \<longleftrightarrow> els a \<subseteq> els b"
  by (simp add: empty inv_ops els_ops)

text \<open>What \<open>p\<close> has, \<open>h\<close> lacks, \<open>f\<close> does not filter out and \<open>c\<close> has checked.\<close>

lemma wanted:
  "inv p \<Longrightarrow> inv h \<Longrightarrow> inv f \<Longrightarrow> inv c \<Longrightarrow>
    empty (inter (diff (diff p h) f) c) \<longleftrightarrow> els p \<inter> els c \<subseteq> els h \<union> els f"
  by (simp add: empty inv_ops els_ops) blast

lemma union_full:
  "inv h \<Longrightarrow> inv f \<Longrightarrow> full (union h f) \<longleftrightarrow> univ - els h \<subseteq> els f"
  using els_univ[of h] els_univ[of f] by (simp add: full inv_ops els_ops) blast

lemma missing:
  "inv h \<Longrightarrow> inv f \<Longrightarrow> els (diff (compl h) f) = univ - els h - els f"
  by (auto simp: inv_ops els_ops)

end

interpretation bfs: piece_set "bf_inv n" "bf_set n" "{..<unat n}" "Or_bf n" "Except n" "And_bf n"
  "Invert n" IsEmpty "IsFull n" for n
  by unfold_locales
    (simp_all add: bf_set_subset Or_ok Except_ok And_ok Invert_ok IsEmpty_iff IsFull_iff)


section \<open>Properties\<close>

text \<open>Two small fields for the closed instances below.\<close>

definition ex_bf1 :: bitfield where
  "ex_bf1 = Set 12 3 (Set 12 9 (bf_new 12))"

definition ex_bf2 :: bitfield where
  "ex_bf2 = Set 12 9 (Set 12 11 (bf_new 12))"

lemma ex_bf1_ok: "bf_inv 12 ex_bf1" "bf_set 12 ex_bf1 = {3, 9}"
  using Set_ok[of 12 "Set 12 9 (bf_new 12)" 3] Set_ok[of 12 "bf_new 12" 9] new_ok[of 12]
  by (simp_all add: ex_bf1_def insert_commute)

lemma ex_bf2_ok: "bf_inv 12 ex_bf2" "bf_set 12 ex_bf2 = {9, 11}"
  using Set_ok[of 12 "Set 12 11 (bf_new 12)" 9] Set_ok[of 12 "bf_new 12" 11] new_ok[of 12]
  by (simp_all add: ex_bf2_def insert_commute)

text \<open>
  C26: \<open>Or\<close>, \<open>And\<close>, \<open>Except\<close> and \<open>Invert\<close> of \<^verbatim>\<open>Bitfield\<close> compute union, intersection, difference and
  complement of the piece sets, through every shortcut the code takes for empty and full fields;
  they keep the representation invariant, and \<open>Count\<close> stays the number of pieces in the set.
\<close>

theorem bitfield_algebra:
  assumes "bf_inv n a" and "bf_inv n b"
  shows "bf_inv n (Or_bf n a b) \<and> bf_set n (Or_bf n a b) = bf_set n a \<union> bf_set n b \<and>
    bf_inv n (And_bf n a b) \<and> bf_set n (And_bf n a b) = bf_set n a \<inter> bf_set n b \<and>
    bf_inv n (Except n a b) \<and> bf_set n (Except n a b) = bf_set n a - bf_set n b \<and>
    bf_inv n (Invert n a) \<and> bf_set n (Invert n a) = {..<unat n} - bf_set n a \<and>
    unat (Count (Or_bf n a b)) = card (bf_set n a \<union> bf_set n b)"
  using Or_ok[OF assms] And_ok[OF assms] Except_ok[OF assms] Invert_ok[OF assms(1)]
    Count_card[of n "Or_bf n a b"] by simp_all

theorem bitfield_algebra_witness:
  "bf_set 12 (Or_bf 12 ex_bf1 ex_bf2) = {3, 9, 11} \<and> bf_set 12 (And_bf 12 ex_bf1 ex_bf2) = {9} \<and>
   bf_set 12 (Except 12 ex_bf1 ex_bf2) = {3}"
  using bitfield_algebra[OF ex_bf1_ok(1) ex_bf2_ok(1)] by (auto simp: ex_bf1_ok ex_bf2_ok)

text \<open>
  \<open>Set\<close> and \<open>UnSet\<close> change the membership of exactly the given piece (as \<open>IsSet\<close> reports
  it), keep the invariant, and an index behind the last piece changes nothing.
\<close>

theorem bitfield_point_updates:
  assumes "bf_inv n bf"
  shows "bf_inv n (Set n idx bf) \<and> bf_inv n (UnSet n idx bf) \<and>
    (IsSet n (Set n idx bf) j \<longleftrightarrow> (idx < n \<and> j = idx) \<or> IsSet n bf j) \<and>
    (IsSet n (UnSet n idx bf) j \<longleftrightarrow> j \<noteq> idx \<and> IsSet n bf j)"
proof -
  have out: "Set n idx bf = bf \<and> UnSet n idx bf = bf \<and> \<not> IsSet n bf idx" if "\<not> idx < n"
    using that by (simp add: Set_def UnSet_def IsSet_def IsSet_int_def not_less)
  have "bf_inv n (Set n idx bf) \<and> bf_inv n (UnSet n idx bf)"
    using Set_ok[OF assms] UnSet_ok[OF assms] out assms by (cases "idx < n") simp_all
  moreover have "IsSet n (Set n idx bf) j \<longleftrightarrow> (idx < n \<and> j = idx) \<or> IsSet n bf j"
    using Set_ok[OF assms, of idx] out assms
    by (cases "idx < n") (simp_all add: IsSet_iff word_unat_eq_iff)
  moreover have "IsSet n (UnSet n idx bf) j \<longleftrightarrow> j \<noteq> idx \<and> IsSet n bf j"
    using UnSet_ok[OF assms, of idx] out assms
    by (cases "idx < n") (auto simp: IsSet_iff word_unat_eq_iff)
  ultimately show ?thesis by blast
qed

theorem bitfield_point_updates_witness:
  "IsSet 12 (Set 12 5 ex_bf1) 5 \<and> IsSet 12 (Set 12 5 ex_bf1) 9 \<and> \<not> IsSet 12 (UnSet 12 9 ex_bf1) 9"
  using bitfield_point_updates[OF ex_bf1_ok(1), where idx = 5 and j = 5]
    bitfield_point_updates[OF ex_bf1_ok(1), where idx = 5 and j = 9]
    bitfield_point_updates[OF ex_bf1_ok(1), where idx = 9 and j = 9] IsSet_iff[OF ex_bf1_ok(1), of 9]
  by (simp add: ex_bf1_ok)

text \<open>
  C36: a field saved with \<open>WriteToFile\<close> (the wire and resume format) and read back with
  \<open>SetReferFile\<close> into any field of the same torrent is the same set of pieces; a file of
  another size is refused and leaves the field as it was.
\<close>

theorem bitfield_file_roundtrip:
  assumes "bf_inv n a" and "bf_inv n b"
  shows "(\<exists>c b'. WriteToFile n True True a = (0, Some c) \<and>
      SetReferFile n (Some (length c)) (Some c) b = (0, b') \<and>
      bf_inv n b' \<and> bf_set n b' = bf_set n a) \<and>
    (sz \<noteq> unat (bf_nbytes n) \<longrightarrow> SetReferFile n (Some sz) rd b = (-1, b))"
proof -
  let ?c = "WriteToBuffer n a (new_bytes n)"
  have nb: "0 < nbs n" by (rule nbs_pos[OF bf_inv_pos[OF assms(1)]])
  have c: "length ?c = nbs n" "bits_of ?c = bf_set n a"
    using WriteToBuffer_ok[OF assms(1), of "new_bytes n"] by simp_all
  have "bf_inv n (SetReferBuffer n ?c b) \<and> bf_set n (SetReferBuffer n ?c b) = bf_set n a"
    using SetReferBuffer_ok[OF assms(2) c(1)] bits_eq_bit_at[OF c(1)] c(2) bf_set_subset[OF assms(1)]
    by simp
  then have "\<exists>c b'. WriteToFile n True True a = (0, Some c) \<and>
      SetReferFile n (Some (length c)) (Some c) b = (0, b') \<and>
      bf_inv n b' \<and> bf_set n b' = bf_set n a"
    using nb c(1) by (simp add: WriteToFile_def SetReferFile_def nbs_eq)
  then show ?thesis by (simp add: SetReferFile_def)
qed

theorem bitfield_file_roundtrip_witness:
  "\<exists>c b'. WriteToFile 12 True True ex_bf1 = (0, Some c) \<and>
      SetReferFile 12 (Some (length c)) (Some c) ex_bf2 = (0, b') \<and> bf_set 12 b' = {3, 9}"
  using bitfield_file_roundtrip[OF ex_bf1_ok(1) ex_bf2_ok(1), where sz = 0 and rd = None]
  by (auto simp: ex_bf1_ok)

text \<open>
  on a non-empty field \<open>Random\<close> always returns a piece of the field, and as the random number
  runs through \<open>0..Count-1\<close> every piece is returned exactly once: with a uniform source the
  choice is uniform.
\<close>

theorem bitfield_random_uniform:
  assumes "bf_inv n bf" and "bf_set n bf \<noteq> {}"
  shows "bij_betw (\<lambda>r. unat (the (Random n r bf))) {..<card (bf_set n bf)} (bf_set n bf)"
proof (rule bij_betwI')
  let ?f = "\<lambda>r. unat (the (Random n r bf))" and ?S = "bf_set n bf"
  have R: "?f r \<in> ?S \<and> card {j \<in> ?S. j \<le> ?f r} = r mod card ?S + 1" for r
    using Random_ok[OF assms, of r] by auto
  show "(?f x = ?f y) = (x = y)" if "x \<in> {..<card ?S}" "y \<in> {..<card ?S}" for x y
  proof
    assume "?f x = ?f y"
    then have "x mod card ?S + 1 = y mod card ?S + 1"
      using R[of x, THEN conjunct2] R[of y, THEN conjunct2] by (simp only:)
    then show "x = y" using that by simp
  qed simp
  show "?f x \<in> ?S" if "x \<in> {..<card ?S}" for x using R by blast
  show "\<exists>x \<in> {..<card ?S}. y = ?f x" if y: "y \<in> ?S" for y
  proof -
    let ?r = "card {j \<in> ?S. j \<le> y} - 1"
    have fin: "finite ?S" using assms(1) by simp
    have pos: "0 < card {j \<in> ?S. j \<le> y}" using y fin by (auto simp: card_gt_0_iff)
    have le: "card {j \<in> ?S. j \<le> y} \<le> card ?S" by (rule card_mono) (use fin in auto)
    have lt: "?r < card ?S" using pos le by linarith
    have eq: "card {j \<in> ?S. j \<le> ?f ?r} = card {j \<in> ?S. j \<le> y}" using R[of ?r] lt pos by simp
    have "{j \<in> ?S. j \<le> ?f ?r} = {j \<in> ?S. j \<le> y}"
    proof (cases "?f ?r \<le> y")
      case True
      then have "{j \<in> ?S. j \<le> ?f ?r} \<subseteq> {j \<in> ?S. j \<le> y}" by auto
      then show ?thesis using eq fin by (intro card_subset_eq) auto
    next
      case False
      then have "{j \<in> ?S. j \<le> y} \<subseteq> {j \<in> ?S. j \<le> ?f ?r}" by auto
      then have "{j \<in> ?S. j \<le> y} = {j \<in> ?S. j \<le> ?f ?r}" using eq fin by (intro card_subset_eq) auto
      then show ?thesis by simp
    qed
    then have "y \<le> ?f ?r" "?f ?r \<le> y" using y R[of ?r] by auto
    then show ?thesis using lt by (intro bexI[of _ ?r]) auto
  qed
qed

theorem bitfield_random_uniform_witness:
  "bij_betw (\<lambda>r. unat (the (Random 12 r ex_bf1))) {..<2} {3, 9}"
  using bitfield_random_uniform[OF ex_bf1_ok(1)] by (simp add: ex_bf1_ok eval_nat_numeral)

end
