(* ===== verification/Request_Queue.thy ===== *)
theory Request_Queue
  imports Geometry Bitfield "HOL-Library.While_Combinator"
begin

text \<open>
  The request queue, \<^verbatim>\<open>RequestQueue\<close> of \<^verbatim>\<open>src/btrequest.cpp\<close>: a list of pieces, each a list
  of slices, with a cursor \<^verbatim>\<open>rq_send\<close> at the next slice to request and a cursor \<^verbatim>\<open>m_peek\<close>
  for iteration.

  The two linked lists are lists.  The cursors are pointers to slices, so every slice carries the
  address the allocator gave it and a cursor is an optional address; a pointer comparison is a
  comparison of addresses.  The allocator is a counter \<open>a\<close> of the allocations made and a function
  \<open>mem\<close> that says which of them succeed; the \<open>a\<close>-th allocation returns the address \<open>a\<close>.
  \<open>rq_inv\<close> says that pieces are non-empty, hold slices of one index and their number, that no piece
  occurs twice, that addresses are distinct, and that the send cursor is null or points to a slice
  of the queue.
\<close>

record slice =
  sl_addr :: nat
  sl_index :: u32
  sl_offset :: u32
  sl_length :: u32
  sl_reqtime :: int
  sl_sent :: bool

record piece =
  p_count :: u32
  p_slices :: "slice list"

record rqueue =
  rq_head :: "piece list"
  m_peek :: "nat option"
  rq_send :: "nat option"

type_synonym request = "u32 \<times> u32 \<times> u32"

definition rq_new :: rqueue where
  "rq_new = \<lparr>rq_head = [], m_peek = None, rq_send = None\<rparr>"

abbreviation p_index :: "piece \<Rightarrow> u32" where
  "p_index p \<equiv> sl_index (hd (p_slices p))"

section \<open>Searching and following pointers\<close>

text \<open>
  A search that also delivers the predecessor is a split of the list in front of the element found:
  \<^verbatim>\<open>prev\<close> is the last element of the first part, the target the head of the second.
\<close>

definition FindPiece :: "u32 \<Rightarrow> piece list \<Rightarrow> piece list \<times> piece list" where
  "FindPiece idx ps = (takeWhile (\<lambda>p. p_index p \<noteq> idx) ps, dropWhile (\<lambda>p. p_index p \<noteq> idx) ps)"

definition is_request :: "u32 \<Rightarrow> u32 \<Rightarrow> u32 \<Rightarrow> slice \<Rightarrow> bool" where
  "is_request idx off len s \<longleftrightarrow> sl_index s = idx \<and> sl_offset s = off \<and> sl_length s = len"

definition find_in_piece :: "u32 \<Rightarrow> u32 \<Rightarrow> u32 \<Rightarrow> slice list \<Rightarrow> slice list \<times> slice list" where
  "find_in_piece idx off len ss =
     (takeWhile (\<lambda>s. \<not> is_request idx off len s) ss, dropWhile (\<lambda>s. \<not> is_request idx off len s) ss)"

definition FindSlice :: "rqueue \<Rightarrow> u32 \<Rightarrow> u32 \<Rightarrow> u32 \<Rightarrow> slice option" where
  "FindSlice q idx off len =
     (case snd (FindPiece idx (rq_head q)) of
        [] \<Rightarrow> None
      | p # _ \<Rightarrow> (case snd (find_in_piece idx off len (p_slices p)) of [] \<Rightarrow> None | s # _ \<Rightarrow> Some s))"

definition slices_addr :: "slice list \<Rightarrow> nat option" where
  "slices_addr ss = (case ss of [] \<Rightarrow> None | s # _ \<Rightarrow> Some (sl_addr s))"

definition head_addr :: "piece list \<Rightarrow> nat option" where
  "head_addr ps = (case ps of [] \<Rightarrow> None | p # _ \<Rightarrow> slices_addr (p_slices p))"

definition all_slices :: "rqueue \<Rightarrow> slice list" where
  "all_slices q = concat (map p_slices (rq_head q))"

text \<open>Reading through a slice pointer, and its \<^verbatim>\<open>next\<close> field.\<close>

definition slice_at :: "rqueue \<Rightarrow> nat \<Rightarrow> slice option" where
  "slice_at q a = find (\<lambda>s. sl_addr s = a) (all_slices q)"

definition slice_next :: "rqueue \<Rightarrow> nat \<Rightarrow> nat option" where
  "slice_next q a =
     (case find (\<lambda>p. a \<in> sl_addr ` set (p_slices p)) (rq_head q) of
        None \<Rightarrow> None
      | Some p \<Rightarrow> slices_addr (tl (dropWhile (\<lambda>s. sl_addr s \<noteq> a) (p_slices p))))"

text \<open>The slice after \<open>a\<close>: in its piece, or the first of the piece after it.\<close>

definition slice_after :: "rqueue \<Rightarrow> nat \<Rightarrow> nat option" where
  "slice_after q a =
     (case slice_next q a of
        Some b \<Rightarrow> Some b
      | None \<Rightarrow>
          (case slice_at q a of
             None \<Rightarrow> None
           | Some s \<Rightarrow> head_addr (tl (snd (FindPiece (sl_index s) (rq_head q))))))"

text \<open>\<^verbatim>\<open>rq_send && rq_send->index == idx\<close>\<close>

definition send_in :: "rqueue \<Rightarrow> u32 \<Rightarrow> bool" where
  "send_in q idx \<longleftrightarrow>
     (case rq_send q of
        None \<Rightarrow> False
      | Some a \<Rightarrow> (case slice_at q a of None \<Rightarrow> False | Some s \<Rightarrow> sl_index s = idx))"

definition upd_slice :: "nat \<Rightarrow> (slice \<Rightarrow> slice) \<Rightarrow> rqueue \<Rightarrow> rqueue" where
  "upd_slice a f q =
     q\<lparr>rq_head := map (\<lambda>p. p\<lparr>p_slices := map (\<lambda>s. if sl_addr s = a then f s else s) (p_slices p)\<rparr>) (rq_head q)\<rparr>"

section \<open>Queries\<close>

definition IsEmpty_q :: "rqueue \<Rightarrow> bool" where
  "IsEmpty_q q \<longleftrightarrow> rq_head q = []"

definition HasPiece :: "rqueue \<Rightarrow> u32 \<Rightarrow> bool" where
  "HasPiece q idx \<longleftrightarrow> snd (FindPiece idx (rq_head q)) \<noteq> []"

definition HasSlice :: "rqueue \<Rightarrow> u32 \<Rightarrow> u32 \<Rightarrow> u32 \<Rightarrow> bool" where
  "HasSlice q idx off len \<longleftrightarrow> FindSlice q idx off len \<noteq> None"

definition GetRequestIdx :: "geometry \<Rightarrow> rqueue \<Rightarrow> u32" where
  "GetRequestIdx g q = (case rq_head q of [] \<Rightarrow> g_npieces g | p # _ \<Rightarrow> p_index p)"

definition GetRequestLen :: "rqueue \<Rightarrow> u32" where
  "GetRequestLen q = (case rq_head q of [] \<Rightarrow> 0 | p # _ \<Rightarrow> sl_length (hd (p_slices p)))"

definition Qsize :: "rqueue \<Rightarrow> u32" where
  "Qsize q = fold (\<lambda>p total. total + p_count p) (rq_head q) 0"

definition Qlen :: "rqueue \<Rightarrow> u32 \<Rightarrow> u32" where
  "Qlen q idx = (case snd (FindPiece idx (rq_head q)) of [] \<Rightarrow> 0 | p # _ \<Rightarrow> p_count p)"

definition LastSlice :: "rqueue \<Rightarrow> bool" where
  "LastSlice q \<longleftrightarrow> (case rq_head q of [] \<Rightarrow> False | p # _ \<Rightarrow> tl (p_slices p) = [])"

definition IsSent :: "rqueue \<Rightarrow> u32 \<Rightarrow> u32 \<Rightarrow> u32 \<Rightarrow> bool" where
  "IsSent q idx off len = (case FindSlice q idx off len of None \<Rightarrow> False | Some s \<Rightarrow> sl_sent s)"

definition GetReqTime :: "rqueue \<Rightarrow> u32 \<Rightarrow> u32 \<Rightarrow> u32 \<Rightarrow> int" where
  "GetReqTime q idx off len = (case FindSlice q idx off len of None \<Rightarrow> 0 | Some s \<Rightarrow> sl_reqtime s)"

definition FindCommonRequest :: "geometry \<Rightarrow> rqueue \<Rightarrow> bitfield \<Rightarrow> rqueue \<Rightarrow> u32" where
  "FindCommonRequest g q proposerbf proposerq =
     (case find (\<lambda>p. IsSet (g_npieces g) proposerbf (p_index p) \<and> \<not> HasPiece proposerq (p_index p)) (rq_head q) of
        None \<Rightarrow> g_npieces g
      | Some p \<Rightarrow> p_index p)"

definition FindLastCommonRequest :: "geometry \<Rightarrow> rqueue \<Rightarrow> bitfield \<Rightarrow> u32" where
  "FindLastCommonRequest g q proposerbf =
     fold (\<lambda>p idx. if IsSet (g_npieces g) proposerbf (p_index p) then p_index p else idx) (rq_head q) (g_npieces g)"

definition QueuedPieces :: "u32 \<Rightarrow> rqueue \<Rightarrow> bitfield \<Rightarrow> bitfield" where
  "QueuedPieces n q bf = fold (\<lambda>p. Set n (p_index p)) (rq_head q) (Clear n bf)"

definition CountSlicesBeforePiece :: "rqueue \<Rightarrow> u32 \<Rightarrow> u32" where
  "CountSlicesBeforePiece q idx = fold (\<lambda>p total. total + p_count p) (fst (FindPiece idx (rq_head q))) 0"

definition NSlices :: "geometry \<Rightarrow> u32 \<Rightarrow> u32 \<Rightarrow> u32" where
  "NSlices g cfg_req_slice_size idx =
     (let len = GetPieceLength g idx; n = len div cfg_req_slice_size
      in if len mod cfg_req_slice_size \<noteq> 0 then n + 1 else n)"

definition MAX_SLICE_SIZE :: u32 where
  "MAX_SLICE_SIZE = 131072"

definition IsValidRequest :: "geometry \<Rightarrow> u32 \<Rightarrow> u32 \<Rightarrow> u32 \<Rightarrow> bool" where
  "IsValidRequest g idx off len \<longleftrightarrow>
     idx < g_npieces g \<and> len > 0 \<and> off + len \<le> GetPieceLength g idx \<and> len \<le> MAX_SLICE_SIZE"

section \<open>The send cursor\<close>

definition FixSend :: "rqueue \<Rightarrow> rqueue option" where
  "FixSend q =
     (case head_addr (rq_head q) of
        None \<Rightarrow> Some (q\<lparr>rq_send := None\<rparr>)
      | Some first \<Rightarrow>
         (let start =
            (case rq_send q of
               None \<Rightarrow> Some first
             | Some a \<Rightarrow>
                (case slice_at q a of
                   None \<Rightarrow> Some first
                 | Some s \<Rightarrow> (if HasPiece q (sl_index s) then Some a else Some first)))
          in case while_option
                 (\<lambda>c. case c of None \<Rightarrow> False
                    | Some a \<Rightarrow> (case slice_at q a of None \<Rightarrow> False | Some s \<Rightarrow> sl_sent s))
                 (\<lambda>c. case c of None \<Rightarrow> None | Some a \<Rightarrow> slice_after q a) start of
               None \<Rightarrow> None
             | Some c \<Rightarrow> Some (q\<lparr>rq_send := c\<rparr>)))"

text \<open>\<^verbatim>\<open>Sent(timestamp, slice)\<close> with a slice, and with the null pointer.\<close>

definition Sent_slice :: "rqueue \<Rightarrow> int \<Rightarrow> nat \<Rightarrow> rqueue" where
  "Sent_slice q timestamp a =
     (let q' = upd_slice a (\<lambda>s. s\<lparr>sl_reqtime := timestamp, sl_sent := True\<rparr>) q
      in if rq_send q = Some a then q'\<lparr>rq_send := slice_after q a\<rparr> else q')"

definition Sent :: "rqueue \<Rightarrow> int \<Rightarrow> rqueue option" where
  "Sent q timestamp =
     (case rq_send q of
        Some a \<Rightarrow> Some (Sent_slice q timestamp a)
      | None \<Rightarrow>
         (case FixSend q of
            None \<Rightarrow> None
          | Some q' \<Rightarrow> (case rq_send q' of None \<Rightarrow> Some q' | Some a \<Rightarrow> Some (Sent_slice q' timestamp a))))"

definition Sent_req :: "rqueue \<Rightarrow> int \<Rightarrow> u32 \<Rightarrow> u32 \<Rightarrow> u32 \<Rightarrow> rqueue" where
  "Sent_req q timestamp idx off len =
     (case FindSlice q idx off len of None \<Rightarrow> q | Some s \<Rightarrow> Sent_slice q timestamp (sl_addr s))"

definition PeekSend :: "rqueue \<Rightarrow> slice option" where
  "PeekSend q = (case rq_send q of None \<Rightarrow> None | Some a \<Rightarrow> slice_at q a)"

section \<open>Changing the queue\<close>

definition Empty_q :: "rqueue \<Rightarrow> rqueue" where
  "Empty_q q = q\<lparr>rq_head := [], rq_send := None\<rparr>"

definition new_slice :: "nat \<Rightarrow> u32 \<Rightarrow> u32 \<Rightarrow> u32 \<Rightarrow> slice" where
  "new_slice a idx off len =
     \<lparr>sl_addr = a, sl_index = idx, sl_offset = off, sl_length = len, sl_reqtime = 0, sl_sent = False\<rparr>"

definition Add :: "(nat \<Rightarrow> bool) \<Rightarrow> nat \<Rightarrow> rqueue \<Rightarrow> u32 \<Rightarrow> u32 \<Rightarrow> u32 \<Rightarrow> bool \<times> nat \<times> rqueue" where
  "Add mem a q idx off len =
     (if \<not> mem a then (False, a + 1, q)
      else let s = new_slice a idx off len
      in case FindPiece idx (rq_head q) of
           (before, p # after) \<Rightarrow>
             (True, a + 1,
              q\<lparr>rq_head := before @ p\<lparr>p_count := p_count p + 1, p_slices := p_slices p @ [s]\<rparr> # after,
                rq_send := (if rq_send q = None \<and> after = [] then Some a else rq_send q)\<rparr>)
         | (before, []) \<Rightarrow>
             (if \<not> mem (a + 1) then (False, a + 2, q)
              else (True, a + 2,
                q\<lparr>rq_head := before @ [\<lparr>p_count = 1, p_slices = [s]\<rparr>],
                  rq_send := (if rq_send q = None then Some a else rq_send q)\<rparr>)))"

definition Remove :: "rqueue \<Rightarrow> u32 \<Rightarrow> u32 \<Rightarrow> u32 \<Rightarrow> bool \<times> rqueue" where
  "Remove q idx off len =
     (case FindPiece idx (rq_head q) of
        (_, []) \<Rightarrow> (False, q)
      | (before, p # after) \<Rightarrow>
         (case find_in_piece idx off len (p_slices p) of
            (_, []) \<Rightarrow> (False, q)
          | (sbefore, s # safter) \<Rightarrow>
              (let snd' = (if rq_send q = Some (sl_addr s)
                           then (case slices_addr safter of Some b \<Rightarrow> Some b | None \<Rightarrow> head_addr after)
                           else rq_send q);
                   ss = sbefore @ safter
               in (True,
                   q\<lparr>rq_head := before @ (if ss = [] then [] else [p\<lparr>p_count := p_count p - 1, p_slices := ss\<rparr>]) @ after,
                     rq_send := snd'\<rparr>))))"

definition Delete :: "rqueue \<Rightarrow> u32 \<Rightarrow> bool \<times> rqueue" where
  "Delete q idx =
     (case FindPiece idx (rq_head q) of
        (_, []) \<Rightarrow> (False, q)
      | (before, p # after) \<Rightarrow>
          (True, q\<lparr>rq_head := before @ after,
                   rq_send := (if send_in q idx then head_addr after else rq_send q)\<rparr>))"

definition Pop :: "rqueue \<Rightarrow> slice option \<times> rqueue" where
  "Pop q =
     (case rq_head q of
        [] \<Rightarrow> (None, q)
      | p # after \<Rightarrow>
         (case p_slices p of
            [] \<Rightarrow> (None, q)
          | s # ss \<Rightarrow>
              (Some s,
               q\<lparr>rq_send := (if rq_send q = Some (sl_addr s)
                             then (case slices_addr ss of Some b \<Rightarrow> Some b | None \<Rightarrow> head_addr after)
                             else rq_send q),
                 rq_head := (if ss = [] then after else p\<lparr>p_count := p_count p - 1, p_slices := ss\<rparr> # after)\<rparr>)))"

text \<open>\<^verbatim>\<open>Append\<close> clears the \<^verbatim>\<open>sent\<close> flag of the leading slices that have it.\<close>

fun unsend_leading :: "slice list \<Rightarrow> slice list" where
  "unsend_leading [] = []"
| "unsend_leading (s # ss) = (if sl_sent s then s\<lparr>sl_sent := False\<rparr> # unsend_leading ss else s # ss)"

definition Append :: "rqueue \<Rightarrow> piece \<Rightarrow> bool \<times> rqueue" where
  "Append q p =
     (case FindPiece (p_index p) (rq_head q) of
        (_, _ # _) \<Rightarrow> (False, q)
      | (before, []) \<Rightarrow>
          (True, q\<lparr>rq_head := before @ [p\<lparr>p_slices := unsend_leading (p_slices p)\<rparr>],
                   rq_send := (if rq_send q = None then slices_addr (p_slices p) else rq_send q)\<rparr>))"

text \<open>
  \<^verbatim>\<open>Transfer(dstq, idx)\<close>; \<open>to_pending\<close> is the test \<^verbatim>\<open>&PENDING == &dstq\<close>.
\<close>

definition Transfer_piece ::
  "geometry \<Rightarrow> u32 \<Rightarrow> bool \<Rightarrow> rqueue \<Rightarrow> rqueue \<Rightarrow> u32 \<Rightarrow> bool \<times> rqueue \<times> rqueue" where
  "Transfer_piece g cfg_req_slice_size to_pending q dstq idx =
     (case FindPiece idx (rq_head q) of
        (_, []) \<Rightarrow> (True, q, dstq)
      | (before, p # after) \<Rightarrow>
          (let q' = q\<lparr>rq_send := (if send_in q idx then head_addr after else rq_send q),
                      rq_head := before @ after\<rparr>
           in if to_pending \<and> NSlices g cfg_req_slice_size (p_index p) \<le> p_count p
              then (False, q', dstq)
              else (let (ok, dstq') = Append dstq p in (ok, q', dstq'))))"

function Transfer_loop ::
  "geometry \<Rightarrow> u32 \<Rightarrow> bool \<Rightarrow> bool \<Rightarrow> rqueue \<Rightarrow> rqueue \<Rightarrow> bool \<times> rqueue \<times> rqueue" where
  "Transfer_loop g ss to_pending result q dstq =
     (case rq_head q of
        [] \<Rightarrow> (result, q, dstq)
      | p # _ \<Rightarrow>
          (let (ok, q', dstq') = Transfer_piece g ss to_pending q dstq (p_index p)
           in Transfer_loop g ss to_pending (if ok then result else False) q' dstq'))"
  by pat_completeness auto
termination
  by (relation "measure (\<lambda>(_, _, _, _, q, _). length (rq_head q))")
    (auto simp: Transfer_piece_def FindPiece_def Let_def split: if_splits prod.splits)

definition Transfer :: "geometry \<Rightarrow> u32 \<Rightarrow> bool \<Rightarrow> rqueue \<Rightarrow> rqueue \<Rightarrow> bool \<times> rqueue \<times> rqueue" where
  "Transfer g ss to_pending q dstq =
     (let (result, q', dstq') = Transfer_loop g ss to_pending True q dstq
      in (result, q'\<lparr>rq_send := None\<rparr>, dstq'))"

fun Reassign_loop ::
  "u32 \<Rightarrow> bitfield \<Rightarrow> piece list \<Rightarrow> piece list \<Rightarrow> rqueue \<Rightarrow> rqueue \<Rightarrow> u32 \<Rightarrow> u32 \<times> rqueue \<times> rqueue"
where
  "Reassign_loop n bf before [] q dstq idx = (idx, q, dstq)"
| "Reassign_loop n bf before (p # after) q dstq idx =
     (if IsSet n bf (p_index p) \<and> \<not> HasPiece dstq (p_index p) then
        (let idx' = p_index p;
             q' = q\<lparr>rq_send := (if send_in q idx' then head_addr after else rq_send q),
                    rq_head := before @ after\<rparr>;
             (ok, dstq') = Append dstq p
         in if ok then (idx', q', dstq') else Reassign_loop n bf before after q' dstq' idx')
      else Reassign_loop n bf (before @ [p]) after q dstq idx)"

definition Reassign :: "geometry \<Rightarrow> rqueue \<Rightarrow> rqueue \<Rightarrow> bitfield \<Rightarrow> u32 \<times> rqueue \<times> rqueue" where
  "Reassign g q dstq bf = Reassign_loop (g_npieces g) bf [] (rq_head q) q dstq (g_npieces g)"

definition Requeue :: "(nat \<Rightarrow> bool) \<Rightarrow> nat \<Rightarrow> rqueue \<Rightarrow> u32 \<Rightarrow> u32 \<Rightarrow> u32 \<Rightarrow> int \<times> nat \<times> rqueue" where
  "Requeue mem a q idx off len =
     (let (before, rest) = FindPiece idx (rq_head q);
          send = (\<forall>p\<in>set (before @ take 1 rest). \<not> send_in q (p_index p));
          (ok, a', q') = Add mem a q idx off len
      in (if ok then if send then 1 else 0 else -1, a', q'\<lparr>rq_send := rq_send q\<rparr>))"

definition MoveLast :: "rqueue \<Rightarrow> u32 \<Rightarrow> u32 \<Rightarrow> u32 \<Rightarrow> rqueue" where
  "MoveLast q idx off len =
     (case FindPiece idx (rq_head q) of
        (_, []) \<Rightarrow> q
      | (before, p # after) \<Rightarrow>
         (case find_in_piece idx off len (p_slices p) of
            (sbefore, s # n # safter) \<Rightarrow>
              q\<lparr>rq_head := before @ p\<lparr>p_slices := sbefore @ n # safter @ [s\<lparr>sl_sent := False\<rparr>]\<rparr> # after,
                rq_send := (if rq_send q = Some (sl_addr s) then Some (sl_addr n) else rq_send q)\<rparr>
          | _ \<Rightarrow> q))"

fun Copy_loop ::
  "(nat \<Rightarrow> bool) \<Rightarrow> nat \<Rightarrow> slice list \<Rightarrow> rqueue \<Rightarrow> u32 \<Rightarrow> int \<times> nat \<times> rqueue" where
  "Copy_loop mem a [] dstq idx = (1, a, dstq)"
| "Copy_loop mem a (s # ss) dstq idx =
     (let (ok, a', dstq') = Add mem a dstq (sl_index s) (sl_offset s) (sl_length s)
      in if ok then Copy_loop mem a' ss dstq' idx else (-1, a', snd (Delete dstq' idx)))"

definition Copy :: "(nat \<Rightarrow> bool) \<Rightarrow> nat \<Rightarrow> rqueue \<Rightarrow> rqueue \<Rightarrow> u32 \<Rightarrow> int \<times> nat \<times> rqueue" where
  "Copy mem a q dstq idx =
     (if HasPiece dstq idx then (0, a, dstq)
      else case snd (FindPiece idx (rq_head q)) of
             [] \<Rightarrow> (0, a, dstq)
           | p # _ \<Rightarrow> Copy_loop mem a (p_slices p) dstq idx)"

text \<open>
  \<^verbatim>\<open>AddPiece\<close>.  The loop ends when the slice size is not zero; that it does is a theorem, so the
  result is optional.
\<close>

partial_function (option) AddPiece_loop ::
  "(nat \<Rightarrow> bool) \<Rightarrow> u32 \<Rightarrow> u32 \<Rightarrow> nat \<Rightarrow> rqueue \<Rightarrow> u32 \<Rightarrow> u32 \<Rightarrow> (int \<times> nat \<times> rqueue) option" where
  "AddPiece_loop mem cfg_req_slice_size idx a q off remain =
     (if remain = 0 then Some (0, a, q)
      else let len = (if remain < cfg_req_slice_size then remain else cfg_req_slice_size)
      in case Add mem a q idx off len of
           (ok, a', q') \<Rightarrow>
             if \<not> ok then Some (-1, a', q')
             else AddPiece_loop mem cfg_req_slice_size idx a' q' (off + len) (remain - len))"

declare AddPiece_loop.simps [code]

definition AddPiece ::
  "geometry \<Rightarrow> u32 \<Rightarrow> (nat \<Rightarrow> bool) \<Rightarrow> nat \<Rightarrow> rqueue \<Rightarrow> u32 \<Rightarrow> (int \<times> nat \<times> rqueue) option" where
  "AddPiece g cfg_req_slice_size mem a q idx =
     AddPiece_loop mem cfg_req_slice_size idx a q 0 (GetPieceLength g idx)"

section \<open>Shuffling a piece\<close>

text \<open>
  \<^verbatim>\<open>Shuffle\<close> takes the list apart and inserts every slice again at a place given by two random
  bits.  The pointers of the code into the list being built are positions: \<open>k\<close> stands for
  \<^verbatim>\<open>prev\<close>, whose successor is the element at \<open>k\<close> (so 0 is \<^verbatim>\<open>&start\<close>), and \<open>e\<close> is the
  position of \<^verbatim>\<open>end\<close>.  Writing \<^verbatim>\<open>end->next\<close> drops whatever followed \<^verbatim>\<open>end\<close>.  \<open>rnd\<close> delivers
  the results of \<^verbatim>\<open>RandBits(1)\<close> in order, \<open>rnd3\<close> that of \<^verbatim>\<open>RandBits(3)\<close>.
\<close>

definition shuffle_insert ::
  "slice \<Rightarrow> bool \<Rightarrow> bool \<Rightarrow> slice list \<times> nat \<times> nat \<Rightarrow> slice list \<times> nat \<times> nat" where
  "shuffle_insert s b1 b2 st =
     (let (l, k, e) = st
      in if b1 then
           (if b2 then (take (e + 1) l @ [s], e + 1, e + 1)
            else (s # l, 0, e + 1))
         else
           (if b2 then (take (k + 1) l @ s # drop (k + 1) l, k + 1,
                        if e = k then k + 1 else if k < e then e + 1 else e)
            else (take k l @ s # drop k l, k, if k \<le> e then e + 1 else e)))"

fun shuffle_slices ::
  "(nat \<Rightarrow> bool) \<Rightarrow> nat \<Rightarrow> slice list \<Rightarrow> slice list \<times> nat \<times> nat \<Rightarrow> nat \<times> slice list \<times> nat \<times> nat" where
  "shuffle_slices rnd i [] st = (i, st)"
| "shuffle_slices rnd i (s # ss) st =
     (if rnd i then shuffle_slices rnd (i + 2) ss (shuffle_insert s True (rnd (i + 1)) st)
      else shuffle_slices rnd (i + 2) ss (shuffle_insert s False (rnd (i + 1)) st))"

fun shuffle_passes :: "(nat \<Rightarrow> bool) \<Rightarrow> nat \<Rightarrow> nat \<Rightarrow> slice list \<Rightarrow> nat \<Rightarrow> slice list \<times> nat" where
  "shuffle_passes rnd 0 i l e = (l, e)"
| "shuffle_passes rnd (Suc n) i l e =
     (let (i', l', k, e') = shuffle_slices rnd i (tl l) ([hd l], 0, 0)
      in shuffle_passes rnd n i' l' e')"

text \<open>
  The result is \<^term>\<open>None\<close> where the code loops on a negative count or follows the null pointer
  \<^verbatim>\<open>rq_send\<close>.
\<close>

definition Shuffle :: "nat \<Rightarrow> (nat \<Rightarrow> bool) \<Rightarrow> rqueue \<Rightarrow> u32 \<Rightarrow> rqueue option" where
  "Shuffle rnd3 rnd q idx =
     (case FindPiece idx (rq_head q) of
        (_, []) \<Rightarrow> Some q
      | (before, p # after) \<Rightarrow>
         (let len = sint (p_count p)
          in if len = 1 then Some q
             else
               (let firstoff = sl_offset (hd (p_slices p));
                    half = (if len < 0 then - ((- len) div 2) else len div 2);
                    shuffle = (if int rnd3 + 2 > half then half else int rnd3 + 2)
                in if shuffle < 0 then None
                   else
                     (let (l, e) = shuffle_passes rnd (nat shuffle) 0 (p_slices p) 0;
                          l' = (if sl_offset (hd l) = firstoff then tl (take (e + 1) l) @ [hd l] else l);
                          q' = q\<lparr>rq_head := before @ p\<lparr>p_slices := l'\<rparr> # after\<rparr>
                      in case rq_send q of
                           None \<Rightarrow> None
                         | Some a \<Rightarrow>
                             (if map_option sl_index (slice_at q' a) = Some (sl_index (hd l'))
                              then Some (q'\<lparr>rq_send := slices_addr l'\<rparr>) else Some q')))))"

section \<open>Iteration\<close>

text \<open>
  The \<^verbatim>\<open>Peek\<close> functions deliver index, offset, length and sent flag through pointers; here they
  return the slice read.  \<^verbatim>\<open>m_peek\<close> is mutable, so they return the queue as well.
\<close>

definition PeekNext :: "rqueue \<Rightarrow> slice option \<times> rqueue" where
  "PeekNext q =
     (let next = (case m_peek q of None \<Rightarrow> head_addr (rq_head q) | Some a \<Rightarrow> slice_after q a)
      in (case next of None \<Rightarrow> None | Some a \<Rightarrow> slice_at q a, q\<lparr>m_peek := next\<rparr>))"

definition Peek :: "rqueue \<Rightarrow> slice option \<times> rqueue" where
  "Peek q = PeekNext (q\<lparr>m_peek := None\<rparr>)"

definition PeekPiece :: "rqueue \<Rightarrow> u32 \<Rightarrow> slice option \<times> rqueue" where
  "PeekPiece q idx =
     (case snd (FindPiece idx (rq_head q)) of
        [] \<Rightarrow> (None, q)
      | p # _ \<Rightarrow> (Some (hd (p_slices p)), q\<lparr>m_peek := slices_addr (p_slices p)\<rparr>))"

definition PeekNextPiece :: "rqueue \<Rightarrow> slice option \<times> rqueue" where
  "PeekNextPiece q =
     (case m_peek q of
        None \<Rightarrow> PeekNext q
      | Some a \<Rightarrow>
         (case slice_at q a of
            None \<Rightarrow> (None, q)
          | Some s \<Rightarrow>
             (case snd (FindPiece (sl_index s) (rq_head q)) of
                [] \<Rightarrow> (None, q)
              | _ # after \<Rightarrow>
                  (case after of
                     [] \<Rightarrow> (None, q\<lparr>m_peek := None\<rparr>)
                   | p # _ \<Rightarrow> (Some (hd (p_slices p)), q\<lparr>m_peek := slices_addr (p_slices p)\<rparr>)))))"

section \<open>Invariant\<close>

definition piece_ok :: "piece \<Rightarrow> bool" where
  "piece_ok p \<longleftrightarrow> p_slices p \<noteq> [] \<and> (\<forall>s\<in>set (p_slices p). sl_index s = p_index p) \<and>
     p_count p = of_nat (length (p_slices p))"

abbreviation flat :: "piece list \<Rightarrow> slice list" where
  "flat ps \<equiv> concat (map p_slices ps)"

definition head_ok :: "piece list \<Rightarrow> bool" where
  "head_ok ps \<longleftrightarrow> (\<forall>p\<in>set ps. piece_ok p) \<and> distinct (map p_index ps) \<and> distinct (map sl_addr (flat ps))"

definition rq_inv :: "nat \<Rightarrow> rqueue \<Rightarrow> bool" where
  "rq_inv a q \<longleftrightarrow> head_ok (rq_head q) \<and> (\<forall>s\<in>set (all_slices q). sl_addr s < a) \<and>
     (case rq_send q of None \<Rightarrow> True | Some c \<Rightarrow> c \<in> sl_addr ` set (all_slices q))"

definition reqs :: "rqueue \<Rightarrow> request list" where
  "reqs q = map (\<lambda>s. (sl_index s, sl_offset s, sl_length s)) (all_slices q)"

lemma rq_invI:
  assumes "head_ok ps" "\<forall>s\<in>set (flat ps). sl_addr s < a"
    and "snd' = None \<or> (\<exists>s\<in>set (flat ps). snd' = Some (sl_addr s))"
  shows "rq_inv a (q\<lparr>rq_head := ps, rq_send := snd'\<rparr>)"
  using assms by (auto simp: rq_inv_def all_slices_def split: option.splits)

lemma rq_invD:
  assumes "rq_inv a q"
  shows "head_ok (rq_head q)" "\<forall>s\<in>set (all_slices q). sl_addr s < a"
    "\<And>c. rq_send q = Some c \<Longrightarrow> c \<in> sl_addr ` set (all_slices q)"
  using assms by (auto simp: rq_inv_def)

lemma rq_inv_mono: "rq_inv a q \<Longrightarrow> a \<le> a' \<Longrightarrow> rq_inv a' q"
  by (auto simp: rq_inv_def)

lemma rq_inv_new: "rq_inv a rq_new"
  by (simp add: rq_inv_def rq_new_def head_ok_def all_slices_def)

lemma head_ok_Nil [simp]: "head_ok []"
  by (simp add: head_ok_def)

lemma head_ok_append:
  "head_ok (xs @ ys) \<longleftrightarrow> head_ok xs \<and> head_ok ys \<and>
     p_index ` set xs \<inter> p_index ` set ys = {} \<and>
     sl_addr ` set (flat xs) \<inter> sl_addr ` set (flat ys) = {}"
  by (auto simp: head_ok_def)

lemma head_ok_single:
  "head_ok [p] \<longleftrightarrow> piece_ok p \<and> distinct (map sl_addr (p_slices p))"
  by (simp add: head_ok_def)

lemma head_ok_Cons:
  "head_ok (p # ys) \<longleftrightarrow> head_ok [p] \<and> head_ok ys \<and> p_index p \<notin> p_index ` set ys \<and>
     sl_addr ` set (p_slices p) \<inter> sl_addr ` set (flat ys) = {}"
  using head_ok_append[of "[p]" ys] by simp

lemma piece_ok_ne: "piece_ok p \<Longrightarrow> p_slices p \<noteq> []"
  by (simp add: piece_ok_def)

lemma head_addr_flat: "(\<forall>p\<in>set ps. p_slices p \<noteq> []) \<Longrightarrow> head_addr ps = slices_addr (flat ps)"
  by (cases ps) (auto simp: head_addr_def slices_addr_def split: list.splits)

lemma slices_addr_append: "slices_addr (xs @ ys) = (if xs = [] then slices_addr ys else slices_addr xs)"
  by (cases xs) (simp_all add: slices_addr_def)

lemma slices_addr_Nil [simp]: "slices_addr [] = None"
  by (simp add: slices_addr_def)

lemma slices_addr_Cons [simp]: "slices_addr (s # ss) = Some (sl_addr s)"
  by (simp add: slices_addr_def)

lemma slices_addr_None [simp]: "slices_addr ss = None \<longleftrightarrow> ss = []"
  by (cases ss) simp_all

lemma slices_addr_live: "slices_addr ss = Some c \<Longrightarrow> \<exists>s\<in>set ss. c = sl_addr s"
  by (cases ss) auto

lemma slices_addr_or: "(case slices_addr xs of None \<Rightarrow> slices_addr ys | Some b \<Rightarrow> Some b) = slices_addr (xs @ ys)"
  by (cases xs) simp_all

text \<open>The outcome of the two searches.\<close>

lemma FindPiece_cases:
  obtains (none) "FindPiece idx ps = (ps, [])" "\<forall>p\<in>set ps. p_index p \<noteq> idx"
  | (some) before p after where "FindPiece idx ps = (before, p # after)" "ps = before @ p # after"
      "p_index p = idx" "\<forall>p\<in>set before. p_index p \<noteq> idx"
proof (cases "\<exists>p\<in>set ps. p_index p = idx")
  case True
  then obtain before p after where "ps = before @ p # after" "p_index p = idx"
    "\<forall>p\<in>set before. p_index p \<noteq> idx"
    using split_list_first_prop[of ps "\<lambda>p. p_index p = idx"] by blast
  moreover from this have "FindPiece idx ps = (before, p # after)"
    by (simp add: FindPiece_def)
  ultimately show thesis by (rule some[rotated])
next
  case False
  then have "FindPiece idx ps = (ps, [])"
    by (simp add: FindPiece_def dropWhile_eq_Nil_conv)
  then show thesis using False none by blast
qed

lemma find_in_piece_cases:
  obtains (none) "find_in_piece idx off len ss = (ss, [])" "\<forall>s\<in>set ss. \<not> is_request idx off len s"
  | (some) before s after where "find_in_piece idx off len ss = (before, s # after)" "ss = before @ s # after"
      "is_request idx off len s" "\<forall>s\<in>set before. \<not> is_request idx off len s"
proof (cases "\<exists>s\<in>set ss. is_request idx off len s")
  case True
  then obtain before p after where "ss = before @ p # after" "is_request idx off len p"
    "\<forall>p\<in>set before. \<not> is_request idx off len p"
    using split_list_first_prop[of ss "is_request idx off len"] by blast
  moreover from this have "find_in_piece idx off len ss = (before, p # after)"
    by (simp add: find_in_piece_def)
  ultimately show thesis by (rule some[rotated])
next
  case False
  then have "find_in_piece idx off len ss = (ss, [])"
    by (simp add: find_in_piece_def dropWhile_eq_Nil_conv)
  then show thesis using False none by blast
qed

lemma HasPiece_iff: "HasPiece q idx \<longleftrightarrow> idx \<in> p_index ` set (rq_head q)"
  by (cases rule: FindPiece_cases[of idx "rq_head q"]) (auto simp: HasPiece_def)

lemma FindPiece_split:
  assumes "head_ok (before @ p # after)"
  shows "FindPiece (p_index p) (before @ p # after) = (before, p # after)"
  using assms by (simp add: FindPiece_def head_ok_def takeWhile_append dropWhile_append notin_image_iff)

text \<open>Reading through pointers.\<close>

lemma slice_at_Some:
  assumes "distinct (map sl_addr (all_slices q))" "s \<in> set (all_slices q)"
  shows "slice_at q (sl_addr s) = Some s"
proof -
  obtain xs ys where s: "all_slices q = xs @ s # ys" using assms(2) by (meson split_list)
  then have "find (\<lambda>t. sl_addr t = sl_addr s) xs = None"
    using assms(1) by (auto simp: find_None_iff notin_image_iff)
  then show ?thesis by (simp add: slice_at_def s find_append)
qed

lemma slice_at_None: "c \<notin> sl_addr ` set (all_slices q) \<Longrightarrow> slice_at q c = None"
  by (auto simp: slice_at_def find_None_iff)

lemma slice_atD: "slice_at q c = Some s \<Longrightarrow> s \<in> set (all_slices q) \<and> sl_addr s = c"
  by (auto simp: slice_at_def find_Some_iff)

lemma head_ok_distinct: "head_ok (rq_head q) \<Longrightarrow> distinct (map sl_addr (all_slices q))"
  by (simp add: head_ok_def all_slices_def)

lemma head_ok_index:
  "head_ok ps \<Longrightarrow> p \<in> set ps \<Longrightarrow> s \<in> set (p_slices p) \<Longrightarrow> sl_index s = p_index p"
  unfolding head_ok_def piece_ok_def by blast

lemma head_ok_ne: "head_ok ps \<Longrightarrow> p \<in> set ps \<Longrightarrow> p_slices p \<noteq> []"
  unfolding head_ok_def piece_ok_def by blast

lemma send_in_iff:
  assumes "rq_inv a q"
  shows "send_in q idx \<longleftrightarrow> (\<exists>s\<in>set (all_slices q). rq_send q = Some (sl_addr s) \<and> sl_index s = idx)"
  using rq_invD[OF assms] slice_at_Some[OF head_ok_distinct[of q]]
  by (auto simp: send_in_def split: option.splits dest: slice_atD)

lemma send_in_split:
  assumes "rq_inv a q" "rq_head q = before @ p # after"
  shows "send_in q (p_index p) \<longleftrightarrow> (\<exists>s\<in>set (p_slices p). rq_send q = Some (sl_addr s))"
proof -
  have h: "head_ok (before @ p # after)" using rq_invD(1)[OF assms(1)] assms(2) by simp
  have "sl_index s \<noteq> p_index p" if "s \<in> set (flat (before @ after))" for s
  proof -
    from that obtain r where r: "r \<in> set (before @ after)" "s \<in> set (p_slices r)" by auto
    then have "sl_index s = p_index r" using head_ok_index[OF h, of r s] by auto
    moreover have "p_index r \<noteq> p_index p"
      using h r(1) by (auto simp: head_ok_def notin_image_iff)
    ultimately show ?thesis by simp
  qed
  moreover have "sl_index s = p_index p" if "s \<in> set (p_slices p)" for s
    using head_ok_index[OF h _ that] by simp
  ultimately show ?thesis
    unfolding send_in_iff[OF assms(1)] all_slices_def assms(2) by auto
qed

lemma slice_next_split:
  assumes h: "head_ok (before @ p # after)" and q: "rq_head q = before @ p # after"
    and p: "p_slices p = u @ s # v"
  shows "slice_next q (sl_addr s) = slices_addr v"
proof -
  have nb: "sl_addr s \<notin> sl_addr ` set (flat before)" and nu: "\<forall>t\<in>set u. sl_addr t \<noteq> sl_addr s"
    using h p by (simp_all add: head_ok_def notin_image_iff)
  from nb have "find (\<lambda>p. sl_addr s \<in> sl_addr ` set (p_slices p)) before = None"
    by (auto simp: find_None_iff)
  then have "find (\<lambda>p. sl_addr s \<in> sl_addr ` set (p_slices p)) (rq_head q) = Some p"
    by (simp add: q find_append p)
  moreover have "dropWhile (\<lambda>t. sl_addr t \<noteq> sl_addr s) (p_slices p) = s # v"
    using nu by (simp add: p dropWhile_append)
  ultimately show ?thesis by (simp add: slice_next_def)
qed

lemma flat_split:
  assumes "flat ps = xs @ s # ys"
  obtains before p after u v where "ps = before @ p # after" "p_slices p = u @ s # v"
    "xs = flat before @ u" "ys = v @ flat after"
proof -
  have "\<exists>before p after u v. ps = before @ p # after \<and> p_slices p = u @ s # v \<and>
    xs = flat before @ u \<and> ys = v @ flat after" using assms
  proof (induction ps arbitrary: xs)
    case (Cons r ps)
    then have "p_slices r @ flat ps = xs @ s # ys" by simp
    from append_eq_split_elem[OF this] show ?case
    proof (elim disjE exE conjE)
      fix us assume 1: "xs = p_slices r @ us" "flat ps = us @ s # ys"
      from Cons.IH[OF 1(2)] obtain before p after u v where "ps = before @ p # after"
        "p_slices p = u @ s # v" "us = flat before @ u" "ys = v @ flat after" by blast
      then show ?thesis using 1
        by (intro exI[of _ "r # before"] exI[of _ p] exI[of _ after] exI[of _ u] exI[of _ v]) simp
    next
      fix us assume "p_slices r = xs @ s # us" "ys = us @ flat ps"
      then show ?thesis
        by (intro exI[of _ "[]"] exI[of _ r] exI[of _ ps] exI[of _ xs] exI[of _ us]) simp
    qed
  qed simp
  then show thesis using that by blast
qed

text \<open>The successor of a slice, found by following pointers, is the next one in the flattened queue.\<close>

lemma slice_after_flat:
  assumes h: "head_ok (rq_head q)" and q: "all_slices q = xs @ s # ys"
  shows "slice_after q (sl_addr s) = slices_addr ys"
proof -
  from q[unfolded all_slices_def] obtain before p after u v where
    q': "rq_head q = before @ p # after" and p: "p_slices p = u @ s # v" and ys: "ys = v @ flat after"
    by (rule flat_split)
  have h': "head_ok (before @ p # after)" using h q' by simp
  note n = slice_next_split[OF h' q' p]
  have at: "slice_at q (sl_addr s) = Some s"
    using slice_at_Some[OF head_ok_distinct[OF h]] q by simp
  have idx: "sl_index s = p_index p" using head_ok_index[OF h', of p s] p by simp
  have ne: "\<forall>p\<in>set after. p_slices p \<noteq> []" using head_ok_ne[OF h'] by auto
  show ?thesis
  proof (cases v)
    case Nil
    then show ?thesis using n at idx ys FindPiece_split[OF h'] head_addr_flat[OF ne]
      by (simp add: slice_after_def q')
  qed (use n ys in \<open>simp add: slice_after_def\<close>)
qed

section \<open>Every operation keeps the invariant\<close>

lemma single_ok:
  assumes "ss \<noteq> []" "\<forall>s\<in>set ss. sl_index s = idx" "distinct (map sl_addr ss)"
  shows "head_ok [p\<lparr>p_count := of_nat (length ss), p_slices := ss\<rparr>]"
    "sl_index (hd ss) = idx"
proof -
  show "sl_index (hd ss) = idx" using assms(1,2) by simp
  then show "head_ok [p\<lparr>p_count := of_nat (length ss), p_slices := ss\<rparr>]"
    using assms by (simp add: head_ok_single piece_ok_def)
qed

text \<open>Replacing one piece by another of the same index.\<close>

lemma head_ok_replace:
  assumes "head_ok (before @ p # after)" "head_ok [p']" "p_index p' = p_index p"
    and "sl_addr ` set (p_slices p') \<inter> sl_addr ` set (flat (before @ after)) = {}"
  shows "head_ok (before @ p' # after)"
  using assms by (simp add: head_ok_append head_ok_Cons[of _ after] Int_Un_distrib Int_Un_distrib2 image_Un)
    (simp add: Int_commute)

lemma head_ok_drop:
  "head_ok (before @ p # after) \<Longrightarrow> head_ok (before @ after)"
  by (simp add: head_ok_append head_ok_Cons[of p after] Int_Un_distrib image_Un)

lemma head_ok_piece:
  assumes "head_ok (before @ p # after)"
  shows "head_ok [p]" "p_slices p \<noteq> []" "\<forall>s\<in>set (p_slices p). sl_index s = p_index p"
    "p_count p = of_nat (length (p_slices p))" "distinct (map sl_addr (p_slices p))"
    "sl_addr ` set (p_slices p) \<inter> sl_addr ` set (flat (before @ after)) = {}"
    "p_index p \<notin> p_index ` set (before @ after)"
proof -
  show p: "head_ok [p]" using assms by (simp add: head_ok_append head_ok_Cons[of p after])
  show "p_slices p \<noteq> []" "p_count p = of_nat (length (p_slices p))" "distinct (map sl_addr (p_slices p))"
    "\<forall>s\<in>set (p_slices p). sl_index s = p_index p"
    using p unfolding head_ok_single piece_ok_def by blast+
  show "sl_addr ` set (p_slices p) \<inter> sl_addr ` set (flat (before @ after)) = {}"
    using assms by (simp add: head_ok_append head_ok_Cons[of p after] Int_Un_distrib image_Un)
      (simp add: Int_commute)
  show "p_index p \<notin> p_index ` set (before @ after)"
    using assms by (simp add: head_ok_append head_ok_Cons[of p after] image_Un)
qed

lemma rq_inv_upd:
  assumes "rq_inv a q" and "head_ok ps" and "\<forall>s\<in>set (flat ps). sl_addr s < a'"
    and "rq_send q' = None \<or> (\<exists>s\<in>set (flat ps). rq_send q' = Some (sl_addr s))" and "rq_head q' = ps"
  shows "rq_inv a' q'"
  using assms by (auto simp: rq_inv_def all_slices_def split: option.splits)

text \<open>A cursor that is not moved stays live unless its slice goes away.\<close>

lemma send_live:
  assumes "rq_inv a q"
  shows "rq_send q = None \<or> (\<exists>s\<in>set (all_slices q). rq_send q = Some (sl_addr s))"
  using rq_invD(3)[OF assms] by (cases "rq_send q") auto

lemma Add_ok [rq_inv_intros]:
  assumes inv: "rq_inv a q" and A: "Add mem a q idx off len = (ok, a', q')"
  shows "rq_inv a' q' \<and> a < a'"
proof (cases "mem a")
  case False
  then show ?thesis using A rq_inv_mono[OF inv] by (auto simp: Add_def)
next
  case m: True
  let ?s = "new_slice a idx off len"
  have s: "sl_addr ?s = a" "sl_index ?s = idx" by (simp_all add: new_slice_def)
  have h: "head_ok (rq_head q)" and lt: "\<forall>s\<in>set (all_slices q). sl_addr s < a"
    using rq_invD[OF inv] by auto
  show ?thesis
  proof (cases rule: FindPiece_cases[of idx "rq_head q"])
    case none
    show ?thesis
    proof (cases "mem (a + 1)")
      case False
      then show ?thesis using A m none rq_inv_mono[OF inv] by (auto simp: Add_def Let_def)
    next
      case True
      then have q': "ok" "a' = a + 2" "q' = q\<lparr>rq_head := rq_head q @ [\<lparr>p_count = 1, p_slices = [?s]\<rparr>],
          rq_send := (if rq_send q = None then Some a else rq_send q)\<rparr>"
        using A m none by (auto simp: Add_def Let_def)
      have n: "head_ok [\<lparr>p_count = 1, p_slices = [?s]\<rparr>]"
        by (simp add: head_ok_single piece_ok_def)
      have "head_ok (rq_head q @ [\<lparr>p_count = 1, p_slices = [?s]\<rparr>])"
        using h n none(2) lt by (auto simp: head_ok_append s all_slices_def)
      moreover have "\<forall>s\<in>set (flat (rq_head q @ [\<lparr>p_count = 1, p_slices = [?s]\<rparr>])). sl_addr s < a'"
        using lt by (auto simp: q' s all_slices_def intro: less_SucI)
      ultimately show ?thesis using send_live[OF inv]
        by (intro conjI rq_inv_upd[OF inv]) (auto simp: q' s all_slices_def)
    qed
  next
    case (some before p after)
    let ?p = "p\<lparr>p_count := p_count p + 1, p_slices := p_slices p @ [?s]\<rparr>"
    have q': "ok" "a' = a + 1" "q' = q\<lparr>rq_head := before @ ?p # after,
        rq_send := (if rq_send q = None \<and> after = [] then Some a else rq_send q)\<rparr>"
      using A m some by (auto simp: Add_def Let_def)
    note p = head_ok_piece[OF h[unfolded some(2)]]
    have lt': "\<forall>s\<in>set (p_slices p). sl_addr s < a" "\<forall>s\<in>set (flat (before @ after)). sl_addr s < a"
      using lt some(2) by (auto simp: all_slices_def)
    have "?p = p\<lparr>p_count := of_nat (length (p_slices p @ [?s])), p_slices := p_slices p @ [?s]\<rparr>"
      using p(4) by simp
    then have n: "head_ok [?p]" and i: "p_index ?p = idx"
      using single_ok(1)[of "p_slices p @ [?s]" idx p] single_ok(2)[of "p_slices p @ [?s]" idx] p(3,5) lt' some(3)
      by (auto simp: s)
    have "head_ok (before @ ?p # after)"
      by (rule head_ok_replace[OF h[unfolded some(2)] n])
        (use i some(3) p(6) lt' in \<open>auto simp: s\<close>)
    moreover have "\<forall>s\<in>set (flat (before @ ?p # after)). sl_addr s < a'"
      using lt some(2) by (auto simp: q' s all_slices_def intro: less_SucI)
    ultimately show ?thesis using send_live[OF inv] some(2)
      by (intro conjI rq_inv_upd[OF inv]) (auto simp: q' s all_slices_def)
  qed
qed

lemma rq_upd_swap: "q\<lparr>rq_send := x, rq_head := y\<rparr> = q\<lparr>rq_head := y, rq_send := x\<rparr>"
  by simp

text \<open>Facts that survive when the queue shrinks.\<close>

lemma rq_inv_sub:
  assumes inv: "rq_inv a q" and h: "head_ok ps" and sub: "set (flat ps) \<subseteq> set (all_slices q)"
    and send: "snd' = None \<or> (\<exists>s\<in>set (flat ps). snd' = Some (sl_addr s))"
  shows "rq_inv a (q\<lparr>rq_head := ps, rq_send := snd'\<rparr>)"
  using rq_invD(2)[OF inv] sub by (intro rq_invI h send) blast

lemma rq_send_split:
  assumes inv: "rq_inv a q" and q: "rq_head q = before @ p # after"
  shows "rq_send q = None \<or> (\<exists>s\<in>set (p_slices p). rq_send q = Some (sl_addr s)) \<or>
    (\<exists>s\<in>set (flat (before @ after)). rq_send q = Some (sl_addr s))"
  using send_live[OF inv] by (auto simp: all_slices_def q)

lemma head_addr_live:
  "\<forall>p\<in>set ps. p_slices p \<noteq> [] \<Longrightarrow> head_addr ps = None \<or> (\<exists>s\<in>set (flat ps). head_addr ps = Some (sl_addr s))"
  unfolding head_addr_flat by (cases "flat ps") auto

lemma unlink_ok:
  assumes inv: "rq_inv a q" and q: "rq_head q = before @ p # after"
  shows "rq_inv a (q\<lparr>rq_head := before @ after,
    rq_send := (if send_in q (p_index p) then head_addr after else rq_send q)\<rparr>)"
proof (rule rq_inv_sub[OF inv])
  have h: "head_ok (before @ p # after)" using rq_invD(1)[OF inv] q by simp
  show "head_ok (before @ after)" by (rule head_ok_drop[OF h])
  show "set (flat (before @ after)) \<subseteq> set (all_slices q)" by (auto simp: all_slices_def q)
  have "\<forall>p\<in>set after. p_slices p \<noteq> []" using head_ok_ne[OF h] by auto
  from head_addr_live[OF this] rq_send_split[OF inv q]
  show "(if send_in q (p_index p) then head_addr after else rq_send q) = None \<or>
    (\<exists>s\<in>set (flat (before @ after)). (if send_in q (p_index p) then head_addr after else rq_send q) = Some (sl_addr s))"
    unfolding send_in_split[OF inv q] by auto
qed

lemma Delete_ok [rq_inv_intros]: "rq_inv a q \<Longrightarrow> rq_inv a (snd (Delete q idx))"
proof (cases rule: FindPiece_cases[of idx "rq_head q"])
  case (some before p after)
  assume "rq_inv a q"
  from unlink_ok[OF this some(2)] show ?thesis using some by (simp add: Delete_def cong: if_cong)
qed (simp add: Delete_def)

lemma Empty_ok [rq_inv_intros]: "rq_inv a q \<Longrightarrow> rq_inv a (Empty_q q)"
  by (simp add: Empty_q_def rq_inv_def head_ok_def all_slices_def)

text \<open>A slice leaves its piece.\<close>

lemma take_out_ok:
  assumes inv: "rq_inv a q" and q: "rq_head q = before @ p # after" and p: "p_slices p = u @ s # v"
  shows "rq_inv a (q\<lparr>rq_head := before @ (if u @ v = [] then [] else
        [p\<lparr>p_count := p_count p - 1, p_slices := u @ v\<rparr>]) @ after,
      rq_send := (if rq_send q = Some (sl_addr s) then
        (case slices_addr v of None \<Rightarrow> head_addr after | Some b \<Rightarrow> Some b) else rq_send q)\<rparr>)"
    (is "rq_inv a (q\<lparr>rq_head := ?ps, rq_send := ?send\<rparr>)")
proof (rule rq_inv_sub[OF inv])
  have h: "head_ok (before @ p # after)" using rq_invD(1)[OF inv] q by simp
  note p' = head_ok_piece[OF h]
  have "head_ok (before @ p\<lparr>p_count := p_count p - 1, p_slices := u @ v\<rparr> # after)" if ne: "u @ v \<noteq> []"
  proof -
    have "p_count p - 1 = of_nat (length (u @ v))" using p'(4) p by simp
    moreover have d: "\<forall>s\<in>set (u @ v). sl_index s = p_index p" "distinct (map sl_addr (u @ v))"
      using p'(3,5) p by auto
    moreover note single_ok(1)[OF ne d, of p] single_ok(2)[OF ne d]
    ultimately show ?thesis
      using head_ok_replace[OF h, of "p\<lparr>p_count := p_count p - 1, p_slices := u @ v\<rparr>"] p'(6) p by auto
  qed
  then show "head_ok ?ps" using head_ok_drop[OF h] by (cases "u @ v = []") auto
  have fl: "flat ?ps = flat before @ u @ v @ flat after" by simp
  show "set (flat ?ps) \<subseteq> set (all_slices q)" unfolding fl by (auto simp: all_slices_def q p)
  have ne: "\<forall>p\<in>set after. p_slices p \<noteq> []" using head_ok_ne[OF h] by auto
  have "?send = None \<or> (\<exists>s\<in>set (flat before @ u @ v @ flat after). ?send = Some (sl_addr s))"
    using head_addr_live[OF ne] rq_send_split[OF inv q] by (cases v) (auto simp: p)
  then show "?send = None \<or> (\<exists>s\<in>set (flat ?ps). ?send = Some (sl_addr s))" unfolding fl .
qed

lemma Remove_ok [rq_inv_intros]: "rq_inv a q \<Longrightarrow> rq_inv a (snd (Remove q idx off len))"
proof (cases rule: FindPiece_cases[of idx "rq_head q"])
  case (some before p after)
  assume inv: "rq_inv a q"
  show ?thesis
  proof (cases rule: find_in_piece_cases[of idx off len "p_slices p"])
    case (some u s v)
    from take_out_ok[OF inv \<open>rq_head q = before @ p # after\<close> some(2)]
    show ?thesis using some(1) \<open>FindPiece idx (rq_head q) = (before, p # after)\<close>
      by (simp add: Remove_def Let_def cong: if_cong option.case_cong)
  qed (simp add: Remove_def some(1) inv)
qed (simp add: Remove_def)

lemma Pop_ok [rq_inv_intros]: "rq_inv a q \<Longrightarrow> rq_inv a (snd (Pop q))"
proof (cases "rq_head q")
  case (Cons p after)
  assume inv: "rq_inv a q"
  show ?thesis
  proof (cases "p_slices p")
    case (Cons s v)
    from take_out_ok[OF inv, of "[]" p after "[]" s v] show ?thesis
      using Cons \<open>rq_head q = p # after\<close>
      by (simp add: Pop_def rq_upd_swap cong: if_cong option.case_cong split: if_splits)
  qed (simp add: Pop_def Cons inv)
qed (simp add: Pop_def)

text \<open>Updates that leave addresses and indices alone.\<close>

definition same_keys :: "piece \<Rightarrow> piece \<Rightarrow> bool" where
  "same_keys p p' \<longleftrightarrow> p_count p' = p_count p \<and>
     map sl_addr (p_slices p') = map sl_addr (p_slices p) \<and>
     map sl_index (p_slices p') = map sl_index (p_slices p)"

lemma piece_ok_alt:
  "piece_ok p \<longleftrightarrow> (let is = map sl_index (p_slices p) in
     is \<noteq> [] \<and> (\<forall>i\<in>set is. i = hd is) \<and> p_count p = of_nat (length is))"
  unfolding piece_ok_def Let_def by (cases "p_slices p") simp_all

lemma same_keysD:
  assumes "same_keys p p'"
  shows "p_slices p = [] \<longleftrightarrow> p_slices p' = []" "piece_ok p \<longleftrightarrow> piece_ok p'"
    "p_slices p \<noteq> [] \<Longrightarrow> p_index p' = p_index p"
    "sl_addr ` set (p_slices p') = sl_addr ` set (p_slices p)"
proof -
  have i: "map sl_index (p_slices p') = map sl_index (p_slices p)" and c: "p_count p' = p_count p"
    and a: "map sl_addr (p_slices p') = map sl_addr (p_slices p)"
    using assms by (simp_all add: same_keys_def)
  from i show e: "p_slices p = [] \<longleftrightarrow> p_slices p' = []" by (metis map_is_Nil_conv)
  show "piece_ok p \<longleftrightarrow> piece_ok p'" unfolding piece_ok_alt i c ..
  show "p_slices p \<noteq> [] \<Longrightarrow> p_index p' = p_index p" using i e by (metis hd_map)
  show "sl_addr ` set (p_slices p') = sl_addr ` set (p_slices p)" using a by (metis set_map)
qed

lemma same_keys_flat:
  "list_all2 same_keys ps ps' \<Longrightarrow> map sl_addr (flat ps') = map sl_addr (flat ps)"
  by (induction rule: list_all2_induct) (simp_all add: same_keys_def)

lemma same_keys_head_ok:
  assumes "list_all2 same_keys ps ps'" "head_ok ps"
  shows "head_ok ps'"
proof -
  have "(\<forall>p\<in>set ps. piece_ok p) \<Longrightarrow> (\<forall>p\<in>set ps'. piece_ok p) \<and> map p_index ps' = map p_index ps"
    using assms(1) by (induction rule: list_all2_induct) (auto simp: same_keysD piece_ok_ne)
  then show ?thesis using assms(2) same_keys_flat[OF assms(1)] by (simp add: head_ok_def)
qed

lemma rq_inv_same_keys:
  assumes inv: "rq_inv a q" and l: "list_all2 same_keys (rq_head q) (rq_head q')"
    and s: "rq_send q' = None \<or> (\<exists>s\<in>set (all_slices q). rq_send q' = Some (sl_addr s))"
  shows "rq_inv a q'"
proof -
  have i: "sl_addr ` set (all_slices q') = sl_addr ` set (all_slices q)"
    using same_keys_flat[OF l] unfolding all_slices_def by (metis set_map)
  have "\<forall>x\<in>sl_addr ` set (all_slices q). x < a" using rq_invD(2)[OF inv] by auto
  then have "\<forall>s\<in>set (all_slices q'). sl_addr s < a" unfolding i[symmetric] by auto
  moreover have "rq_send q' = Some c \<Longrightarrow> c \<in> sl_addr ` set (all_slices q')" for c
    using s unfolding i by auto
  ultimately show ?thesis
    using same_keys_head_ok[OF l rq_invD(1)[OF inv]] by (auto simp: rq_inv_def split: option.splits)
qed

lemma unsend_leading_map [simp]:
  "map sl_addr (unsend_leading ss) = map sl_addr ss"
  "map sl_index (unsend_leading ss) = map sl_index ss"
  "map sl_offset (unsend_leading ss) = map sl_offset ss"
  "map sl_length (unsend_leading ss) = map sl_length ss"
  "length (unsend_leading ss) = length ss"
  by (induction ss) auto

lemma upd_slice_same_keys:
  assumes "\<And>s. sl_addr (f s) = sl_addr s" "\<And>s. sl_index (f s) = sl_index s"
  shows "list_all2 same_keys (rq_head q) (rq_head (upd_slice c f q))"
  by (auto simp: upd_slice_def list_all2_conv_all_nth same_keys_def assms)

lemma all_slices_upd:
  "all_slices (upd_slice c f q) = map (\<lambda>s. if sl_addr s = c then f s else s) (all_slices q)"
  by (simp add: all_slices_def upd_slice_def map_concat comp_def)

lemma upd_slice_sel [simp]: "rq_send (upd_slice c f q) = rq_send q" "m_peek (upd_slice c f q) = m_peek q"
  by (simp_all add: upd_slice_def)

lemma slice_after_live:
  assumes "head_ok (rq_head q)" "s \<in> set (all_slices q)"
  shows "slice_after q (sl_addr s) = None \<or> (\<exists>t\<in>set (all_slices q). slice_after q (sl_addr s) = Some (sl_addr t))"
proof -
  obtain xs ys where s: "all_slices q = xs @ s # ys" using assms(2) by (meson split_list)
  show ?thesis unfolding slice_after_flat[OF assms(1) s] by (cases ys) (auto simp: s)
qed

lemma Sent_slice_ok [rq_inv_intros]:
  assumes inv: "rq_inv a q"
  shows "rq_inv a (Sent_slice q timestamp c)"
proof (rule rq_inv_same_keys[OF inv])
  show "list_all2 same_keys (rq_head q) (rq_head (Sent_slice q timestamp c))"
    using upd_slice_same_keys[of "\<lambda>s. s\<lparr>sl_reqtime := timestamp, sl_sent := True\<rparr>" q c]
    by (simp add: Sent_slice_def Let_def)
  show "rq_send (Sent_slice q timestamp c) = None \<or>
    (\<exists>s\<in>set (all_slices q). rq_send (Sent_slice q timestamp c) = Some (sl_addr s))"
  proof (cases "rq_send q = Some c")
    case True
    then obtain s where "s \<in> set (all_slices q)" "c = sl_addr s" using rq_invD(3)[OF inv] by blast
    then show ?thesis using slice_after_live[OF rq_invD(1)[OF inv], of s] True
      by (simp add: Sent_slice_def Let_def)
  qed (use send_live[OF inv] in \<open>simp add: Sent_slice_def Let_def\<close>)
qed

section \<open>What is left to send\<close>

definition todo :: "rqueue \<Rightarrow> slice list" where
  "todo q = (case rq_send q of None \<Rightarrow> [] | Some c \<Rightarrow> dropWhile (\<lambda>s. sl_addr s \<noteq> c) (all_slices q))"

lemma todo_split:
  assumes "rq_inv a q"
  obtains xs where "all_slices q = xs @ todo q" "rq_send q = slices_addr (todo q)"
proof (cases "rq_send q")
  case None
  then show thesis using that[of "all_slices q"] by (simp add: todo_def)
next
  case (Some c)
  then obtain s where "s \<in> set (all_slices q)" "sl_addr s = c" using rq_invD(3)[OF assms] by blast
  then have "todo q \<noteq> []" using Some by (auto simp: todo_def dropWhile_eq_Nil_conv)
  then have "slices_addr (todo q) = Some c"
    using hd_dropWhile[of "\<lambda>s. sl_addr s \<noteq> c" "all_slices q"] Some
    by (cases "todo q") (auto simp: todo_def)
  then show thesis using that[of "takeWhile (\<lambda>s. sl_addr s \<noteq> c) (all_slices q)"] Some
    by (simp add: todo_def)
qed

lemma todo_unique:
  assumes "distinct (map sl_addr (all_slices q))" "all_slices q = xs @ ys" "rq_send q = slices_addr ys"
  shows "todo q = ys"
proof (cases ys)
  case (Cons y zs)
  then have "\<forall>x\<in>set xs. sl_addr x \<noteq> sl_addr y" using assms(1,2) by (auto simp: notin_image_iff)
  then show ?thesis using assms Cons by (simp add: todo_def dropWhile_append)
qed (use assms in \<open>simp add: todo_def\<close>)

lemma skip_sent:
  assumes h: "head_ok (rq_head q)" and q: "all_slices q = xs @ ys"
  shows "while_option
     (\<lambda>c. case c of None \<Rightarrow> False | Some a \<Rightarrow> (case slice_at q a of None \<Rightarrow> False | Some s \<Rightarrow> sl_sent s))
     (\<lambda>c. case c of None \<Rightarrow> None | Some a \<Rightarrow> slice_after q a) (slices_addr ys) =
   Some (slices_addr (dropWhile sl_sent ys))" (is "while_option ?b ?c _ = _")
  using q
proof (induction ys arbitrary: xs)
  case Nil
  show ?case by (subst while_option_unfold) simp
next
  case (Cons y ys)
  have "slice_at q (sl_addr y) = Some y"
    using slice_at_Some[OF head_ok_distinct[OF h]] Cons.prems by simp
  then show ?case using Cons.IH[of "xs @ [y]"] Cons.prems slice_after_flat[OF h Cons.prems]
    by (subst while_option_unfold) simp
qed

text \<open>\<^verbatim>\<open>FixSend\<close> ends, with the cursor at the first unsent slice from where it stood.\<close>

lemma FixSend_eq:
  assumes inv: "rq_inv a q"
  shows "FixSend q = Some (q\<lparr>rq_send :=
    slices_addr (dropWhile sl_sent (if rq_send q = None then all_slices q else todo q))\<rparr>)"
proof -
  note h = rq_invD(1)[OF inv]
  have first: "head_addr (rq_head q) = slices_addr (all_slices q)"
    using head_addr_flat[of "rq_head q"] head_ok_ne[OF h] by (auto simp: all_slices_def)
  obtain xs where xs: "all_slices q = xs @ todo q" "rq_send q = slices_addr (todo q)"
    by (rule todo_split[OF inv])
  show ?thesis
  proof (cases "all_slices q")
    case Nil
    then have "rq_send q = None" using xs by simp
    then show ?thesis using Nil first by (simp add: FixSend_def)
  next
    case (Cons f fs)
    then have fa: "head_addr (rq_head q) = Some (sl_addr f)" using first by simp
    show ?thesis
    proof (cases "todo q")
      case Nil
      then show ?thesis using skip_sent[OF h, of "[]" "all_slices q"] xs(2) fa first
        by (simp add: FixSend_def)
    next
      case (Cons s ss)
      then have at: "slice_at q (sl_addr s) = Some s"
        using slice_at_Some[OF head_ok_distinct[OF h], of s] xs(1) by simp
      have "s \<in> set (all_slices q)" using xs(1) Cons by simp
      then obtain p where "p \<in> set (rq_head q)" "s \<in> set (p_slices p)" by (auto simp: all_slices_def)
      then have "HasPiece q (sl_index s)" using head_ok_index[OF h, of p s] by (simp add: HasPiece_iff)
      then show ?thesis using skip_sent[OF h xs(1)] xs(2) Cons at fa by (simp add: FixSend_def)
    qed
  qed
qed

lemma FixSend_ok [rq_inv_intros]:
  assumes inv: "rq_inv a q" and f: "FixSend q = Some q'"
  shows "rq_inv a q'"
proof -
  let ?ys = "if rq_send q = None then all_slices q else todo q"
  obtain xs where xs: "all_slices q = xs @ todo q" by (rule todo_split[OF inv])
  have sub: "set (dropWhile sl_sent ?ys) \<subseteq> set (all_slices q)"
  proof -
    have "set (dropWhile sl_sent ?ys) \<subseteq> set ?ys" by (meson set_dropWhileD subsetI)
    also have "set ?ys \<subseteq> set (all_slices q)" using xs by auto
    finally show ?thesis .
  qed
  have l: "slices_addr (dropWhile sl_sent ?ys) = None \<or>
      (\<exists>s\<in>set (all_slices q). slices_addr (dropWhile sl_sent ?ys) = Some (sl_addr s))"
  proof (cases "dropWhile sl_sent ?ys")
    case (Cons s ss)
    then have "s \<in> set (all_slices q)" using sub by simp
    then show ?thesis using Cons by auto
  qed simp
  have q': "q' = q\<lparr>rq_send := slices_addr (dropWhile sl_sent ?ys)\<rparr>" using f FixSend_eq[OF inv] by simp
  show ?thesis unfolding q'
    by (rule rq_inv_upd[OF inv rq_invD(1)[OF inv]])
      (use rq_invD(2)[OF inv] l in \<open>simp_all add: all_slices_def\<close>)
qed

lemma Sent_ok [rq_inv_intros]: "rq_inv a q \<Longrightarrow> Sent q timestamp = Some q' \<Longrightarrow> rq_inv a q'"
  using FixSend_ok Sent_slice_ok by (auto simp: Sent_def split: option.splits)

lemma Sent_req_ok [rq_inv_intros]: "rq_inv a q \<Longrightarrow> rq_inv a (Sent_req q timestamp idx off len)"
  using Sent_slice_ok by (auto simp: Sent_req_def split: option.splits)

section \<open>Moving pieces between queues\<close>

text \<open>Two queues that share no slice.\<close>

definition disj_q :: "rqueue \<Rightarrow> rqueue \<Rightarrow> bool" where
  "disj_q q d \<longleftrightarrow> sl_addr ` set (all_slices q) \<inter> sl_addr ` set (all_slices d) = {}"

lemma Append_ok [rq_inv_intros]:
  assumes inv: "rq_inv a d" and p: "head_ok [p]" and lt: "\<forall>s\<in>set (p_slices p). sl_addr s < a"
    and dj: "sl_addr ` set (p_slices p) \<inter> sl_addr ` set (all_slices d) = {}"
  shows "rq_inv a (snd (Append d p))"
proof (cases rule: FindPiece_cases[of "p_index p" "rq_head d"])
  case none
  let ?p = "p\<lparr>p_slices := unsend_leading (p_slices p)\<rparr>"
  have sk: "list_all2 same_keys [p] [?p]" by (simp add: same_keys_def)
  have p': "head_ok [?p]" by (rule same_keys_head_ok[OF sk p])
  have ne: "p_slices p \<noteq> []" using head_ok_ne[OF p] by simp
  have k: "p_index ?p = p_index p" "sl_addr ` set (p_slices ?p) = sl_addr ` set (p_slices p)"
    using same_keysD(3,4)[of p ?p] sk ne by simp_all
  have "head_ok (rq_head d @ [?p])"
  proof -
    have "p_index ` set (rq_head d) \<inter> p_index ` set [?p] = {}" using none(2) k(1) by auto
    moreover have "sl_addr ` set (flat (rq_head d)) \<inter> sl_addr ` set (flat [?p]) = {}"
      using dj k(2) by (simp add: all_slices_def Int_commute)
    ultimately show ?thesis using rq_invD(1)[OF inv] p' by (simp only: head_ok_append)
  qed
  moreover have "\<forall>x\<in>sl_addr ` set (p_slices ?p). x < a" using lt unfolding k by simp
  then have "\<forall>s\<in>set (flat (rq_head d @ [?p])). sl_addr s < a"
    using rq_invD(2)[OF inv] by (auto simp: all_slices_def)
  moreover have "slices_addr (p_slices p) \<in> Some ` sl_addr ` set (p_slices ?p)"
    using ne unfolding k by (cases "p_slices p") simp_all
  moreover have "snd (Append d p) = d\<lparr>rq_head := rq_head d @ [?p],
      rq_send := (if rq_send d = None then slices_addr (p_slices p) else rq_send d)\<rparr>"
    using none(1) by (simp add: Append_def)
  ultimately show ?thesis using send_live[OF inv]
    by (simp only:) (rule rq_invI, auto simp: all_slices_def)
qed (simp add: Append_def inv)

lemma all_slices_Append:
  assumes "\<not> HasPiece d (p_index p)"
  shows "fst (Append d p)" "all_slices (snd (Append d p)) = all_slices d @ unsend_leading (p_slices p)"
  using assms by (cases rule: FindPiece_cases[of "p_index p" "rq_head d"];
    force simp: Append_def all_slices_def HasPiece_iff)+

lemma Append_has: "HasPiece d (p_index p) \<Longrightarrow> Append d p = (False, d)"
  by (cases rule: FindPiece_cases[of "p_index p" "rq_head d"]) (auto simp: Append_def HasPiece_iff)

lemma addrs_unsend: "sl_addr ` set (unsend_leading ss) = sl_addr ` set ss"
  by (metis set_map unsend_leading_map(1))

lemma addrs_Append: "sl_addr ` set (all_slices (snd (Append d p))) \<subseteq>
    sl_addr ` set (all_slices d) \<union> sl_addr ` set (p_slices p)"
  by (cases "HasPiece d (p_index p)") (simp_all add: Append_has all_slices_Append image_Un addrs_unsend)

text \<open>Unlinking a piece and appending it to the other queue.\<close>

lemma move_ok:
  assumes inv: "rq_inv a q" "rq_inv a d" and dj: "disj_q q d" and q: "rq_head q = before @ p # after"
    and q': "q' = q\<lparr>rq_head := before @ after,
      rq_send := (if send_in q (p_index p) then head_addr after else rq_send q)\<rparr>"
  shows "rq_inv a q' \<and> rq_inv a (snd (Append d p)) \<and> disj_q q' (snd (Append d p)) \<and> disj_q q' d"
proof (intro conjI)
  have h: "head_ok (before @ p # after)" using rq_invD(1)[OF inv(1)] q by simp
  show "rq_inv a q'" unfolding q' by (rule unlink_ok[OF inv(1) q])
  show "rq_inv a (snd (Append d p))"
    by (rule Append_ok[OF inv(2) head_ok_piece(1)[OF h]])
      (use rq_invD(2)[OF inv(1)] dj in \<open>auto simp: all_slices_def q disj_q_def\<close>)
  have s: "set (all_slices q') = set (flat (before @ after))" by (simp add: all_slices_def q')
  then show d: "disj_q q' d" using dj by (simp add: disj_q_def all_slices_def q image_Un Int_Un_distrib2)
  show "disj_q q' (snd (Append d p))"
    using head_ok_piece(6)[OF h] addrs_Append[of d p] d unfolding disj_q_def s by blast
qed

lemma Transfer_piece_ok:
  assumes inv: "rq_inv a q" "rq_inv a d" and dj: "disj_q q d"
    and t: "Transfer_piece g ss pend q d idx = (ok, q', d')"
  shows "rq_inv a q' \<and> rq_inv a d' \<and> disj_q q' d'"
proof (cases rule: FindPiece_cases[of idx "rq_head q"])
  case (some before p after)
  from move_ok[OF inv dj some(2) refl] some t inv(2) show ?thesis
    by (auto simp: Transfer_piece_def Let_def rq_upd_swap split: prod.splits if_splits)
qed (use assms in \<open>simp add: Transfer_piece_def\<close>)

lemma Transfer_loop_ok:
  "rq_inv a q \<Longrightarrow> rq_inv a d \<Longrightarrow> disj_q q d \<Longrightarrow> Transfer_loop g ss pend r q d = (ok, q', d') \<Longrightarrow>
   rq_inv a q' \<and> rq_inv a d' \<and> disj_q q' d' \<and> rq_head q' = []"
proof (induction g ss pend r q d rule: Transfer_loop.induct)
  case (1 g ss pend r q d)
  show ?case
  proof (cases "rq_head q")
    case (Cons p ps)
    obtain ok1 q1 d1 where t: "Transfer_piece g ss pend q d (p_index p) = (ok1, q1, d1)"
      by (metis prod_cases3)
    then show ?thesis
      using "1.IH"[OF Cons t[symmetric] refl] Transfer_piece_ok[OF "1.prems"(1-3) t] "1.prems"(4) Cons
      by (simp add: Let_def)
  qed (use "1.prems" in simp)
qed

lemma Transfer_ok [rq_inv_intros]:
  assumes "rq_inv a q" "rq_inv a d" "disj_q q d" "Transfer g ss pend q d = (ok, q', d')"
  shows "rq_inv a q' \<and> rq_inv a d' \<and> disj_q q' d' \<and> rq_head q' = []"
proof -
  obtain r q1 d1 where t: "Transfer_loop g ss pend True q d = (r, q1, d1)" by (metis prod_cases3)
  from Transfer_loop_ok[OF assms(1-3) t] assms(4) t show ?thesis
    by (auto simp: Transfer_def rq_inv_def disj_q_def all_slices_def)
qed

lemma Reassign_loop_ok:
  "rq_inv a q \<Longrightarrow> rq_inv a d \<Longrightarrow> disj_q q d \<Longrightarrow> rq_head q = before @ rest \<Longrightarrow>
   Reassign_loop n bf before rest q d idx = (idx', q', d') \<Longrightarrow> rq_inv a q' \<and> rq_inv a d' \<and> disj_q q' d'"
proof (induction n bf before rest q d idx rule: Reassign_loop.induct)
  case (2 n bf before p after q d idx)
  show ?case
  proof (cases "IsSet n bf (p_index p) \<and> \<not> HasPiece d (p_index p)")
    case True
    then have "fst (Append d p)" using all_slices_Append by blast
    then show ?thesis using move_ok[OF "2.prems"(1,2,3,4) refl] True "2.prems"(5)
      by (auto simp: Let_def rq_upd_swap split: prod.splits)
  next
    case False
    then show ?thesis using "2.IH"(2)[OF False] "2.prems" by (simp only: Reassign_loop.simps if_False append.assoc append.simps)
  qed
qed simp

lemma Reassign_ok [rq_inv_intros]:
  "rq_inv a q \<Longrightarrow> rq_inv a d \<Longrightarrow> disj_q q d \<Longrightarrow> Reassign g q d bf = (idx, q', d') \<Longrightarrow>
   rq_inv a q' \<and> rq_inv a d' \<and> disj_q q' d'"
  unfolding Reassign_def by (rule Reassign_loop_ok[where before = "[]"]) simp_all

lemma rq_inv_send:
  "rq_inv a q \<Longrightarrow> c = None \<or> (\<exists>s\<in>set (all_slices q). c = Some (sl_addr s)) \<Longrightarrow> rq_inv a (q\<lparr>rq_send := c\<rparr>)"
  by (auto simp: rq_inv_def all_slices_def split: option.splits)

lemma Requeue_ok [rq_inv_intros]:
  assumes inv: "rq_inv a q" and r: "Requeue mem a q idx off len = (r, a', q')"
  shows "rq_inv a' q' \<and> a < a'"
proof -
  obtain ok q1 where A: "Add mem a q idx off len = (ok, a', q1)" and q': "q' = q1\<lparr>rq_send := rq_send q\<rparr>"
    using r by (auto simp: Requeue_def Let_def split: prod.splits)
  note ok = Add_ok[OF inv A]
  have "set (all_slices q) \<subseteq> set (all_slices q1)"
    using A by (cases rule: FindPiece_cases[of idx "rq_head q"])
      (auto simp: Add_def Let_def all_slices_def split: if_splits)
  then have "rq_send q = None \<or> (\<exists>s\<in>set (flat (rq_head q1)). rq_send q = Some (sl_addr s))"
    using send_live[OF inv] by (auto simp: all_slices_def)
  then show ?thesis using ok rq_inv_send unfolding q' by (simp add: all_slices_def)
qed

text \<open>Permuting the slices of a piece.\<close>

lemma permute_ok:
  assumes inv: "rq_inv a q" and q: "rq_head q = before @ p # after"
    and m: "mset (map sl_addr ss) = mset (map sl_addr (p_slices p))" "\<forall>s\<in>set ss. sl_index s = p_index p"
    and snd': "snd' = rq_send q \<or> snd' \<in> Some ` sl_addr ` set ss"
  shows "rq_inv a (q\<lparr>rq_head := before @ p\<lparr>p_slices := ss\<rparr> # after, rq_send := snd'\<rparr>)"
proof (rule rq_invI)
  let ?p = "p\<lparr>p_slices := ss\<rparr>"
  have h: "head_ok (before @ p # after)" using rq_invD(1)[OF inv] q by simp
  note p = head_ok_piece[OF h]
  have l: "length ss = length (p_slices p)" using mset_eq_length[OF m(1)] by simp
  then have ne: "ss \<noteq> []" using p(2) by auto
  have d: "distinct (map sl_addr ss)" using mset_eq_imp_distinct_iff[OF m(1)] p(5) by blast
  have i: "sl_addr ` set ss = sl_addr ` set (p_slices p)" using mset_eq_setD[OF m(1)] by simp
  have "?p = p\<lparr>p_count := of_nat (length ss), p_slices := ss\<rparr>" using l p(4) by simp
  then have h': "head_ok [?p]" "p_index ?p = p_index p" using single_ok(1)[OF ne m(2) d, of p] single_ok(2)[OF ne m(2) d] by simp_all
  show "head_ok (before @ ?p # after)"
    by (rule head_ok_replace[OF h h']) (use p(6) i in simp)
  have "\<forall>x\<in>sl_addr ` set (p_slices p). x < a" "\<forall>s\<in>set (flat (before @ after)). sl_addr s < a"
    using rq_invD(2)[OF inv] by (auto simp: all_slices_def q)
  then show "\<forall>s\<in>set (flat (before @ ?p # after)). sl_addr s < a"
    unfolding i[symmetric] by auto
  have "(\<exists>s\<in>set (p_slices p). c = Some (sl_addr s)) \<longleftrightarrow> (\<exists>s\<in>set ss. c = Some (sl_addr s))" for c
    using i by (metis (no_types, lifting) image_iff)
  then show "snd' = None \<or> (\<exists>s\<in>set (flat (before @ ?p # after)). snd' = Some (sl_addr s))"
    using snd' rq_send_split[OF inv q] by auto
qed

lemma MoveLast_ok [rq_inv_intros]:
  assumes inv: "rq_inv a q"
  shows "rq_inv a (MoveLast q idx off len)"
proof (cases rule: FindPiece_cases[of idx "rq_head q"])
  case (some before p after)
  show ?thesis
  proof (cases rule: find_in_piece_cases[of idx off len "p_slices p"])
    case s: (some u s v)
    show ?thesis
    proof (cases v)
      case (Cons n w)
      have h: "head_ok (before @ p # after)" using rq_invD(1)[OF inv] some(2) by simp
      have "MoveLast q idx off len = q\<lparr>rq_head := before @ p\<lparr>p_slices := u @ n # w @ [s\<lparr>sl_sent := False\<rparr>]\<rparr> # after,
          rq_send := (if rq_send q = Some (sl_addr s) then Some (sl_addr n) else rq_send q)\<rparr>"
        using some(1) s(1) Cons by (simp add: MoveLast_def)
      moreover have "rq_inv a \<dots>"
        by (rule permute_ok[OF inv some(2)])
          (use s(2) Cons head_ok_piece(3)[OF h] in auto)
      ultimately show ?thesis by simp
    qed (simp add: MoveLast_def some(1) s(1) inv)
  qed (simp add: MoveLast_def some(1) inv)
qed (simp add: MoveLast_def inv)

lemma Copy_loop_ok:
  "rq_inv a d \<Longrightarrow> Copy_loop mem a ss d idx = (r, a', d') \<Longrightarrow> rq_inv a' d' \<and> a \<le> a'"
proof (induction mem a ss d idx rule: Copy_loop.induct)
  case (2 mem a s ss d idx)
  obtain ok a1 d1 where A: "Add mem a d (sl_index s) (sl_offset s) (sl_length s) = (ok, a1, d1)"
    by (metis prod_cases3)
  note A' = Add_ok[OF "2.prems"(1) A]
  show ?case
  proof (cases ok)
    case True
    then show ?thesis using "2.IH"[OF A[symmetric] refl refl True] A A' "2.prems"(2) by fastforce
  next
    case False
    then show ?thesis using A A' "2.prems"(2) Delete_ok by fastforce
  qed
qed simp

lemma Copy_ok [rq_inv_intros]:
  "rq_inv a d \<Longrightarrow> Copy mem a q d idx = (r, a', d') \<Longrightarrow> rq_inv a' d' \<and> a \<le> a'"
  by (auto simp: Copy_def split: if_splits list.splits dest: Copy_loop_ok)

section \<open>The shuffle\<close>

definition shuf_ok :: "slice list \<times> nat \<times> nat \<Rightarrow> bool" where
  "shuf_ok st \<longleftrightarrow> (case st of (l, k, e) \<Rightarrow> k < length l \<and> e + 1 = length l)"

text \<open>\<^verbatim>\<open>end\<close> stays at the last slice, so no insertion loses one.\<close>

lemma shuffle_insert_ok:
  assumes "shuf_ok st"
  shows "shuf_ok (shuffle_insert s b1 b2 st)"
    "mset (fst (shuffle_insert s b1 b2 st)) = add_mset s (mset (fst st))"
proof -
  obtain l k e where st: "st = (l, k, e)" by (cases st)
  have "k < length l" and e: "Suc e = length l" using assms by (simp_all add: shuf_ok_def st)
  then show "shuf_ok (shuffle_insert s b1 b2 st)"
    by (auto simp: shuf_ok_def st shuffle_insert_def)
  have "mset (take j l) + mset (drop j l) = mset l" for j
    by (metis append_take_drop_id mset_append)
  then show "mset (fst (shuffle_insert s b1 b2 st)) = add_mset s (mset (fst st))"
    using e by (auto simp: st shuffle_insert_def)
qed

lemma shuffle_slices_ok:
  "shuf_ok st \<Longrightarrow> shuffle_slices rnd i ss st = (i', st') \<Longrightarrow>
   shuf_ok st' \<and> mset (fst st') = mset (fst st) + mset ss"
proof (induction rnd i ss st rule: shuffle_slices.induct)
  case (2 rnd i s ss st)
  show ?case
  proof (cases "rnd i")
    case True
    then show ?thesis using "2.IH"(1)[OF True shuffle_insert_ok(1)[OF "2.prems"(1)]] "2.prems"(2)
        shuffle_insert_ok(2)[OF "2.prems"(1)] by simp
  next
    case False
    then show ?thesis using "2.IH"(2)[OF False shuffle_insert_ok(1)[OF "2.prems"(1)]] "2.prems"(2)
        shuffle_insert_ok(2)[OF "2.prems"(1)] by simp
  qed
qed simp

lemma shuffle_passes_ok:
  "l \<noteq> [] \<Longrightarrow> n = 0 \<longrightarrow> e + 1 = length l \<Longrightarrow> shuffle_passes rnd n i l e = (l', e') \<Longrightarrow>
   mset l' = mset l \<and> e' + 1 = length l'"
proof (induction rnd n i l e rule: shuffle_passes.induct)
  case (2 rnd n i l e)
  obtain i1 l1 k1 e1 where s: "shuffle_slices rnd i (tl l) ([hd l], 0, 0) = (i1, l1, k1, e1)"
    by (metis prod_cases4)
  have ok: "shuf_ok (l1, k1, e1)" "mset l1 = mset l"
  proof -
    have "shuf_ok ([hd l], 0, 0)" by (simp add: shuf_ok_def)
    note r = shuffle_slices_ok[OF this s]
    then show "shuf_ok (l1, k1, e1)" by blast
    have "mset l = add_mset (hd l) (mset (tl l))" using "2.prems"(1) by (cases l) simp_all
    then show "mset l1 = mset l" using r by simp
  qed
  then have "l1 \<noteq> []" "e1 + 1 = length l1" by (auto simp: shuf_ok_def)
  then show ?case using "2.IH"[OF s[symmetric] refl refl refl] "2.prems"(3) ok(2)
    by (simp only: shuffle_passes.simps s Let_def prod.case) simp
qed simp

lemma of_nat_length_len:
  assumes "piece_ok p" "length (p_slices p) < 2147483648"
  shows "sint (p_count p) = int (length (p_slices p))"
proof -
  have "p_count p = of_nat (length (p_slices p))"
    using assms(1) unfolding piece_ok_def by simp
  then show ?thesis using assms(2)
    by (simp add: signed_of_nat signed_take_bit_int_eq_self)
qed

lemma Shuffle_eq:
  assumes inv: "rq_inv a q" and q: "rq_head q = before @ p # after" and idx: "p_index p = idx"
    and len: "length (p_slices p) < 2147483648" and send: "rq_send q \<noteq> None"
  shows "\<exists>ss snd'. Shuffle rnd3 rnd q idx =
      Some (q\<lparr>rq_head := before @ p\<lparr>p_slices := ss\<rparr> # after, rq_send := snd'\<rparr>) \<and>
    mset ss = mset (p_slices p) \<and>
    snd' = (if send_in q idx then slices_addr ss else rq_send q) \<and>
    (1 < length (p_slices p) \<longrightarrow> distinct (map sl_offset (p_slices p)) \<longrightarrow> hd ss \<noteq> hd (p_slices p))"
  (is "\<exists>ss snd'. _ = Some (?q ss snd') \<and> _ \<and> _ \<and> _")
proof -
  let ?n = "length (p_slices p)"
  have h: "head_ok (before @ p # after)" using rq_invD(1)[OF inv] q by simp
  note p = head_ok_piece[OF h]
  have f: "FindPiece idx (rq_head q) = (before, p # after)" using FindPiece_split[OF h] q idx by simp
  have c: "sint (p_count p) = int ?n"
    using of_nat_length_len[OF _ len] p(1) by (simp add: head_ok_single)
  obtain b where b: "rq_send q = Some b" using send by blast
  show ?thesis
  proof (cases "?n = 1")
    case True
    obtain s where s: "p_slices p = [s]" using True by (cases "p_slices p") auto
    have "Shuffle rnd3 rnd q idx = Some q" using f c True by (simp add: Shuffle_def)
    moreover have "(if send_in q idx then slices_addr (p_slices p) else rq_send q) = rq_send q"
      using send_in_split[OF inv q] idx s by auto
    moreover have "q = ?q (p_slices p) (rq_send q)" using q by simp
    ultimately show ?thesis using True by (intro exI[of _ "p_slices p"] exI[of _ "rq_send q"]) simp
  next
    case False
    define half :: int where "half = int ?n div 2"
    define k where "k = (if int rnd3 + 2 > half then half else int rnd3 + 2)"
    obtain l e where sp: "shuffle_passes rnd (nat k) 0 (p_slices p) 0 = (l, e)" by (cases "shuffle_passes rnd (nat k) 0 (p_slices p) 0")
    have n2: "2 \<le> ?n" using False p(2) by (cases "p_slices p") (auto simp: Suc_le_eq)
    then have "0 < k" by (simp add: k_def half_def pos_imp_zdiv_pos_iff)
    then have "0 < nat k" by simp
    with shuffle_passes_ok[OF p(2) _ sp] have l: "mset l = mset (p_slices p)" "e + 1 = length l" by simp_all
    have ll: "length l = ?n" using mset_eq_length[OF l(1)] .
    have tk: "take (e + 1) l = l" using l(2) by simp
    define ss where "ss = (if sl_offset (hd l) = sl_offset (hd (p_slices p)) then tl (take (e + 1) l) @ [hd l] else l)"
    note ss = ss_def[unfolded tk]
    have ms: "mset ss = mset (p_slices p)" using l(1) ll n2 by (cases l) (auto simp: ss)
    have ne: "ss \<noteq> []" using ms p(2) by auto
    define q1 where "q1 = q\<lparr>rq_head := before @ p\<lparr>p_slices := ss\<rparr> # after\<rparr>"
    have "rq_inv a (q\<lparr>rq_head := before @ p\<lparr>p_slices := ss\<rparr> # after, rq_send := rq_send q\<rparr>)"
      by (rule permute_ok[OF inv q]) (use ms p(3) mset_eq_setD[OF ms] in \<open>simp_all add: ms\<close>)
    then have q1: "rq_inv a q1" by (simp add: q1_def)
    have set1: "set (all_slices q1) = set (all_slices q)"
      using mset_eq_setD[OF ms] by (simp add: q1_def all_slices_def q)
    have "map_option sl_index (slice_at q1 b) = Some (sl_index (hd ss)) \<longleftrightarrow> send_in q idx"
    proof -
      have "sl_index (hd ss) = idx" using ne p(3) mset_eq_setD[OF ms] idx by (metis hd_in_set)
      then have "map_option sl_index (slice_at q1 b) = Some (sl_index (hd ss)) \<longleftrightarrow> send_in q1 idx"
        by (auto simp: send_in_def q1_def b split: option.splits)
      then show ?thesis by (simp add: send_in_iff[OF q1] send_in_iff[OF inv] set1) (simp add: q1_def)
    qed
    moreover have "Shuffle rnd3 rnd q idx = (if map_option sl_index (slice_at q1 b) = Some (sl_index (hd ss))
        then Some (q1\<lparr>rq_send := slices_addr ss\<rparr>) else Some q1)"
      using f c False sp b \<open>0 < k\<close> unfolding q1_def ss_def k_def half_def
      by (simp add: Shuffle_def Let_def split del: if_split)
    ultimately have sh: "Shuffle rnd3 rnd q idx = Some (?q ss (if send_in q idx then slices_addr ss else rq_send q))"
      by (simp add: q1_def)
    have "hd ss \<noteq> hd (p_slices p)" if d: "distinct (map sl_offset (p_slices p))"
    proof (cases "sl_offset (hd l) = sl_offset (hd (p_slices p))")
      case True
      obtain x xs where x: "l = x # xs" using ll n2 by (cases l) auto
      then have "xs \<noteq> []" using ll n2 by auto
      have "distinct (map sl_offset l)"
        using d mset_eq_imp_distinct_iff[of "map sl_offset l" "map sl_offset (p_slices p)"] l(1) by simp
      then have "sl_offset (hd xs) \<noteq> sl_offset x" using x \<open>xs \<noteq> []\<close> by (cases xs) auto
      then show ?thesis using True x \<open>xs \<noteq> []\<close> by (auto simp: ss)
    qed (auto simp: ss)
    then show ?thesis using sh ms by blast
  qed
qed

lemma Shuffle_ok [rq_inv_intros]:
  assumes inv: "rq_inv a q" and len: "\<forall>p\<in>set (rq_head q). length (p_slices p) < 2147483648"
    and send: "rq_send q \<noteq> None" and s: "Shuffle rnd3 rnd q idx = Some q'"
  shows "rq_inv a q'"
proof (cases rule: FindPiece_cases[of idx "rq_head q"])
  case none
  then show ?thesis using s inv by (simp add: Shuffle_def)
next
  case (some before p after)
  have h: "head_ok (before @ p # after)" using rq_invD(1)[OF inv] some(2) by simp
  note p = head_ok_piece[OF h]
  have l: "length (p_slices p) < 2147483648" using len some(2) by simp
  from Shuffle_eq[OF inv some(2,3) l send, of rnd3 rnd] s obtain ss snd' where
    q': "q' = q\<lparr>rq_head := before @ p\<lparr>p_slices := ss\<rparr> # after, rq_send := snd'\<rparr>"
    and m: "mset ss = mset (p_slices p)" and snd': "snd' = (if send_in q idx then slices_addr ss else rq_send q)"
    by auto
  have ne: "ss \<noteq> []" using m p(2) by auto
  show ?thesis unfolding q'
  proof (rule permute_ok[OF inv some(2)])
    show "mset (map sl_addr ss) = mset (map sl_addr (p_slices p))" using m by simp
    show "\<forall>s\<in>set ss. sl_index s = p_index p" unfolding mset_eq_setD[OF m] by (rule p(3))
    show "snd' = rq_send q \<or> snd' \<in> Some ` sl_addr ` set ss" using snd' ne by (cases ss) auto
  qed
qed

section \<open>Adding a whole piece\<close>

lemma AddPiece_loop_ok:
  "0 < ss \<Longrightarrow> rq_inv a q \<Longrightarrow>
   \<exists>r a' q'. AddPiece_loop mem ss idx a q off remain = Some (r, a', q') \<and> rq_inv a' q' \<and> a \<le> a'"
proof (induction "unat remain" arbitrary: a q off remain rule: less_induct)
  case less
  show ?case
  proof (cases "remain = 0")
    case True
    then show ?thesis using less.prems by (subst AddPiece_loop.simps) simp
  next
    case False
    let ?len = "if remain < ss then remain else ss"
    obtain ok a1 q1 where A: "Add mem a q idx off ?len = (ok, a1, q1)" by (metis prod_cases3)
    note ok1 = Add_ok[OF less.prems(2) A]
    have "?len \<le> remain" "0 < ?len" using False less.prems(1) by (auto simp: word_gt_0 not_less)
    then have "unat (remain - ?len) < unat remain"
      using u32_diff[of ?len remain] by (simp add: u32_less_iff u32_le_iff)
    from less.hyps[OF this less.prems(1), of a1 q1 "off + ?len"] ok1 A False show ?thesis
      by (subst AddPiece_loop.simps) (auto simp: Let_def intro: le_trans less_imp_le)
  qed
qed

lemma AddPiece_ok [rq_inv_intros]:
  "0 < ss \<Longrightarrow> rq_inv a q \<Longrightarrow> AddPiece g ss mem a q idx = Some (r, a', q') \<Longrightarrow> rq_inv a' q' \<and> a \<le> a'"
  using AddPiece_loop_ok[of ss a q mem idx 0 "GetPieceLength g idx"] by (auto simp: AddPiece_def)

lemma Peek_ok [rq_inv_intros]:
  "rq_inv a q \<Longrightarrow> rq_inv a (snd (Peek q))" "rq_inv a q \<Longrightarrow> rq_inv a (snd (PeekNext q))"
  "rq_inv a q \<Longrightarrow> rq_inv a (snd (PeekPiece q idx))" "rq_inv a q \<Longrightarrow> rq_inv a (snd (PeekNextPiece q))"
  by (auto simp: Peek_def PeekNext_def PeekPiece_def PeekNextPiece_def rq_inv_def all_slices_def Let_def
      split: option.splits list.splits)

section \<open>The queue as an ordered list of groups\<close>

text \<open>
  The abstract queue: one group per piece, in queue order, each with the offsets and lengths
  requested.
\<close>

type_synonym groups = "(u32 \<times> (u32 \<times> u32) list) list"

fun g_add :: "u32 \<Rightarrow> u32 \<times> u32 \<Rightarrow> groups \<Rightarrow> groups" where
  "g_add i x [] = [(i, [x])]"
| "g_add i x ((j, xs) # gs) = (if i = j then (j, xs @ [x]) # gs else (j, xs) # g_add i x gs)"

fun g_replace :: "u32 \<Rightarrow> (u32 \<times> u32) list \<Rightarrow> groups \<Rightarrow> groups" where
  "g_replace i ys [] = []"
| "g_replace i ys ((j, xs) # gs) =
     (if i = j then (if ys = [] then gs else (j, ys) # gs) else (j, xs) # g_replace i ys gs)"

definition g_slices :: "groups \<Rightarrow> u32 \<Rightarrow> (u32 \<times> u32) list" where
  "g_slices gs i = (case map_of gs i of None \<Rightarrow> [] | Some xs \<Rightarrow> xs)"

definition g_remove :: "u32 \<Rightarrow> u32 \<times> u32 \<Rightarrow> groups \<Rightarrow> groups" where
  "g_remove i x gs = g_replace i (remove1 x (g_slices gs i)) gs"

definition g_move_last :: "u32 \<Rightarrow> u32 \<times> u32 \<Rightarrow> groups \<Rightarrow> groups" where
  "g_move_last i x gs = (let xs = g_slices gs i in
     if x \<in> set xs then g_replace i (remove1 x xs @ [x]) gs else gs)"

definition g_delete :: "u32 \<Rightarrow> groups \<Rightarrow> groups" where
  "g_delete i gs = filter (\<lambda>(j, _). j \<noteq> i) gs"

definition abs_slice :: "slice \<Rightarrow> u32 \<times> u32" where
  "abs_slice s = (sl_offset s, sl_length s)"

definition abs_piece :: "piece \<Rightarrow> u32 \<times> (u32 \<times> u32) list" where
  "abs_piece p = (p_index p, map abs_slice (p_slices p))"

definition abs_q :: "rqueue \<Rightarrow> groups" where
  "abs_q q = map abs_piece (rq_head q)"

lemma g_skip:
  "\<forall>p\<in>set before. p_index p \<noteq> i \<Longrightarrow> g_add i x (map abs_piece before @ gs) = map abs_piece before @ g_add i x gs"
  "\<forall>p\<in>set before. p_index p \<noteq> i \<Longrightarrow> g_replace i ys (map abs_piece before @ gs) = map abs_piece before @ g_replace i ys gs"
  "\<forall>p\<in>set before. p_index p \<noteq> i \<Longrightarrow> g_slices (map abs_piece before @ gs) i = g_slices gs i"
  by (induction before) (auto simp: abs_piece_def g_slices_def)

lemma g_slices_add: "g_slices (g_add i x gs) j = (if j = i then g_slices gs i @ [x] else g_slices gs j)"
  by (induction i x gs rule: g_add.induct) (auto simp: g_slices_def)

lemma abs_split:
  assumes "head_ok (before @ p # after)"
  shows "g_slices (map abs_piece (before @ p # after)) (p_index p) = map abs_slice (p_slices p)"
    "g_replace (p_index p) ys (map abs_piece (before @ p # after)) =
       map abs_piece before @ (if ys = [] then [] else [(p_index p, ys)]) @ map abs_piece after"
    "g_add (p_index p) x (map abs_piece (before @ p # after)) =
       map abs_piece before @ (p_index p, map abs_slice (p_slices p) @ [x]) # map abs_piece after"
    "g_delete (p_index p) (map abs_piece (before @ p # after)) = map abs_piece (before @ after)"
proof -
  have b: "\<forall>r\<in>set before. p_index r \<noteq> p_index p" and a: "\<forall>r\<in>set after. p_index r \<noteq> p_index p"
    using head_ok_piece(7)[OF assms] by (auto simp: notin_image_iff)
  have s: "abs_piece p = (p_index p, map abs_slice (p_slices p))" by (simp add: abs_piece_def)
  show "g_slices (map abs_piece (before @ p # after)) (p_index p) = map abs_slice (p_slices p)"
    using g_skip(3)[OF b] by (simp add: s) (simp add: g_slices_def)
  show "g_replace (p_index p) ys (map abs_piece (before @ p # after)) =
       map abs_piece before @ (if ys = [] then [] else [(p_index p, ys)]) @ map abs_piece after"
    using g_skip(2)[OF b] by (simp add: s)
  show "g_add (p_index p) x (map abs_piece (before @ p # after)) =
       map abs_piece before @ (p_index p, map abs_slice (p_slices p) @ [x]) # map abs_piece after"
    using g_skip(1)[OF b] by (simp add: s)
  have "g_delete (p_index p) (map abs_piece l) = map abs_piece l" if "\<forall>r\<in>set l. p_index r \<noteq> p_index p" for l
    using that by (induction l) (auto simp: g_delete_def abs_piece_def)
  note this[OF b] this[OF a]
  then show "g_delete (p_index p) (map abs_piece (before @ p # after)) = map abs_piece (before @ after)"
    by (simp add: g_delete_def s)
qed

lemma abs_none:
  assumes "\<forall>p\<in>set ps. p_index p \<noteq> i"
  shows "g_slices (map abs_piece ps) i = []" "g_replace i ys (map abs_piece ps) = map abs_piece ps"
    "g_add i x (map abs_piece ps) = map abs_piece ps @ [(i, [x])]" "g_delete i (map abs_piece ps) = map abs_piece ps"
  using g_skip(1)[OF assms, of x "[]"] g_skip(2)[OF assms, of ys "[]"] g_skip(3)[OF assms, of "[]"] assms
  by (auto simp: g_slices_def g_delete_def abs_piece_def filter_id_conv)

lemma is_request_abs:
  "sl_index s = idx \<Longrightarrow> is_request idx off len s \<longleftrightarrow> abs_slice s = (off, len)"
  by (auto simp: is_request_def abs_slice_def)

lemma remove1_split: "\<forall>y\<in>set u. f y \<noteq> x \<Longrightarrow> f s = x \<Longrightarrow> remove1 x (map f (u @ s # v)) = map f (u @ v)"
  by (induction u) auto

lemma Add_abs:
  assumes inv: "rq_inv a q" and A: "Add mem a q idx off len = (ok, a', q')"
  shows "abs_q q' = (if ok then g_add idx (off, len) (abs_q q) else abs_q q)"
proof (cases rule: FindPiece_cases[of idx "rq_head q"])
  case none
  then show ?thesis using A abs_none(3)[OF none(2)]
    by (auto simp: Add_def Let_def abs_q_def abs_piece_def new_slice_def abs_slice_def split: if_splits)
next
  case (some before p after)
  have h: "head_ok (before @ p # after)" using rq_invD(1)[OF inv] some(2) by simp
  note p = head_ok_piece[OF h]
  show ?thesis
  proof (cases "mem a")
    case True
    then show ?thesis using A some(1,3) abs_split(3)[OF h] p(2)
      by (auto simp: Add_def Let_def abs_q_def some(2)) (auto simp: abs_piece_def new_slice_def abs_slice_def)
  qed (use A in \<open>simp add: Add_def\<close>)
qed

lemma Add_all_mem:
  assumes "\<And>n. mem n"
  obtains a' q' where "Add mem a q idx off len = (True, a', q')"
  using assms by (cases rule: FindPiece_cases[of idx "rq_head q"]) (auto simp: Add_def Let_def)

lemma Remove_abs:
  assumes inv: "rq_inv a q"
  shows "abs_q (snd (Remove q idx off len)) = g_remove idx (off, len) (abs_q q) \<and>
    (fst (Remove q idx off len) \<longleftrightarrow> (off, len) \<in> set (g_slices (abs_q q) idx))"
proof (cases rule: FindPiece_cases[of idx "rq_head q"])
  case none
  then show ?thesis by (simp add: Remove_def abs_q_def g_remove_def abs_none)
next
  case (some before p after)
  have h: "head_ok (before @ p # after)" using rq_invD(1)[OF inv] some(2) by simp
  note p = head_ok_piece[OF h]
  note ab = abs_split[OF h]
  have ne: "map abs_slice (p_slices p) \<noteq> []" using p(2) by simp
  have g: "g_slices (abs_q q) idx = map abs_slice (p_slices p)"
    using ab(1) some(2,3) by (simp add: abs_q_def)
  have r: "g_remove idx (off, len) (abs_q q) = map abs_piece before @
      (let ys = remove1 (off, len) (map abs_slice (p_slices p)) in if ys = [] then [] else [(idx, ys)]) @
      map abs_piece after"
    using ab(2) some(2,3) by (simp only: g_remove_def g Let_def) (simp add: abs_q_def)
  have req: "is_request idx off len s \<longleftrightarrow> abs_slice s = (off, len)" if "s \<in> set (p_slices p)" for s
    using p(3) that some(3) by (intro is_request_abs) blast
  show ?thesis
  proof (cases rule: find_in_piece_cases[of idx off len "p_slices p"])
    case n: none
    then have "(off, len) \<notin> abs_slice ` set (p_slices p)" using req by (auto simp: notin_image_iff)
    then show ?thesis using n some(1,2,3) r g ne
      by (simp add: Remove_def remove1_idem Let_def) (simp add: abs_q_def abs_piece_def)
  next
    case s: (some u s v)
    have "\<forall>y\<in>set u. abs_slice y \<noteq> (off, len)" "abs_slice s = (off, len)"
      using s(2,3,4) req by auto
    note rm = remove1_split[OF this, of v]
    have i: "sl_index (hd (u @ v)) = idx" if "u @ v \<noteq> []"
      using single_ok(2)[OF that _ , of "p_index p"] p(3,5) s(2) some(3) by auto
    have "Remove q idx off len = (True, q\<lparr>rq_head := before @ (if u @ v = [] then [] else
        [p\<lparr>p_count := p_count p - 1, p_slices := u @ v\<rparr>]) @ after,
      rq_send := (if rq_send q = Some (sl_addr s) then
        (case slices_addr v of None \<Rightarrow> head_addr after | Some b \<Rightarrow> Some b) else rq_send q)\<rparr>)"
      using some(1) s(1) by (simp add: Remove_def Let_def)
    then have "fst (Remove q idx off len)"
      and "abs_q (snd (Remove q idx off len)) = map abs_piece before @
        (if u @ v = [] then [] else [(idx, map abs_slice (u @ v))]) @ map abs_piece after"
      using i by (auto simp: abs_q_def abs_piece_def)
    moreover have "(off, len) \<in> set (map abs_slice (p_slices p))"
      using \<open>abs_slice s = (off, len)\<close> s(2) by force
    ultimately show ?thesis unfolding g r using rm s(2) by (simp add: Let_def)
  qed
qed

lemma Delete_abs:
  assumes inv: "rq_inv a q"
  shows "abs_q (snd (Delete q idx)) = g_delete idx (abs_q q)"
proof (cases rule: FindPiece_cases[of idx "rq_head q"])
  case none
  then show ?thesis by (simp add: Delete_def abs_q_def abs_none)
next
  case (some before p after)
  have h: "head_ok (before @ p # after)" using rq_invD(1)[OF inv] some(2) by simp
  show ?thesis using some(1) abs_split(4)[OF h] unfolding some(3)
    by (simp add: Delete_def abs_q_def some(2))
qed

lemma MoveLast_abs:
  assumes inv: "rq_inv a q"
  shows "abs_q (MoveLast q idx off len) = g_move_last idx (off, len) (abs_q q)"
proof (cases rule: FindPiece_cases[of idx "rq_head q"])
  case none
  then show ?thesis by (simp add: MoveLast_def abs_q_def g_move_last_def abs_none)
next
  case (some before p after)
  have h: "head_ok (before @ p # after)" using rq_invD(1)[OF inv] some(2) by simp
  note p = head_ok_piece[OF h]
  have g: "g_slices (abs_q q) idx = map abs_slice (p_slices p)"
    using abs_split(1)[OF h] some(2,3) by (simp add: abs_q_def)
  have rep: "g_replace idx ys (abs_q q) = map abs_piece before @
      (if ys = [] then [] else [(idx, ys)]) @ map abs_piece after" for ys
    using abs_split(2)[OF h] some(2,3) by (simp add: abs_q_def)
  have req: "is_request idx off len s \<longleftrightarrow> abs_slice s = (off, len)" if "s \<in> set (p_slices p)" for s
    using p(3) that some(3) by (intro is_request_abs) blast
  have same: "abs_q q = map abs_piece before @ (idx, map abs_slice (p_slices p)) # map abs_piece after"
    using some(2,3) by (simp add: abs_q_def abs_piece_def)
  show ?thesis
  proof (cases rule: find_in_piece_cases[of idx off len "p_slices p"])
    case n: none
    then have "(off, len) \<notin> abs_slice ` set (p_slices p)" using req by (auto simp: notin_image_iff)
    then show ?thesis using n some(1) g by (simp add: MoveLast_def g_move_last_def Let_def)
  next
    case s: (some u s v)
    have x: "\<forall>y\<in>set u. abs_slice y \<noteq> (off, len)" "abs_slice s = (off, len)"
      using s(2,3,4) req by auto
    note rm = remove1_split[OF x, of v]
    have m: "(off, len) \<in> set (map abs_slice (p_slices p))" using x(2) s(2) by force
    have R: "g_move_last idx (off, len) (abs_q q) =
        map abs_piece before @ (idx, map abs_slice (u @ v) @ [(off, len)]) # map abs_piece after"
      using m rm rep by (simp add: g_move_last_def Let_def g s(2))
    show ?thesis
    proof (cases v)
      case Nil
      then have "abs_q (MoveLast q idx off len) = abs_q q" using some(1) s(1) by (simp add: MoveLast_def)
      also note same
      finally show ?thesis unfolding R using Nil s(2) x(2) by simp
    next
      case (Cons n w)
      have "\<forall>t\<in>set (u @ v). sl_index t = idx" using p(3) s(2) some(3) by auto
      then have "sl_index (hd (u @ n # w @ [s\<lparr>sl_sent := False\<rparr>])) = idx" using Cons by (cases u) auto
      then show ?thesis unfolding R using some(1) s(1) Cons x(2)
        by (simp add: MoveLast_def abs_q_def abs_piece_def) (simp add: abs_slice_def)
    qed
  qed
qed

lemma Pop_abs:
  assumes inv: "rq_inv a q"
  shows "case abs_q q of
      [] \<Rightarrow> fst (Pop q) = None \<and> snd (Pop q) = q
    | (i, xs) # gs \<Rightarrow> (\<exists>s. fst (Pop q) = Some s \<and> sl_index s = i \<and> abs_slice s = hd xs) \<and>
        abs_q (snd (Pop q)) = (if tl xs = [] then gs else (i, tl xs) # gs)"
proof (cases "rq_head q")
  case Nil
  then show ?thesis by (simp add: abs_q_def Pop_def)
next
  case (Cons p after)
  have h: "head_ok ([] @ p # after)" using rq_invD(1)[OF inv] Cons by simp
  note p = head_ok_piece[OF h]
  obtain s v where s: "p_slices p = s # v" using p(2) by (cases "p_slices p") auto
  have "v \<noteq> [] \<Longrightarrow> sl_index (hd v) = p_index p" using p(3) s by auto
  then show ?thesis using Cons s by (auto simp: abs_q_def Pop_def abs_piece_def)
qed

lemma HasPiece_abs: "HasPiece q idx \<longleftrightarrow> idx \<in> fst ` set (abs_q q)"
  by (auto simp: HasPiece_iff abs_q_def abs_piece_def image_image)

lemma HasSlice_abs:
  assumes inv: "rq_inv a q"
  shows "HasSlice q idx off len \<longleftrightarrow> (off, len) \<in> set (g_slices (abs_q q) idx)"
    "Qlen q idx = of_nat (length (g_slices (abs_q q) idx))"
proof -
  have "(HasSlice q idx off len \<longleftrightarrow> (off, len) \<in> set (g_slices (abs_q q) idx)) \<and>
    Qlen q idx = of_nat (length (g_slices (abs_q q) idx))"
  proof (cases rule: FindPiece_cases[of idx "rq_head q"])
    case none
    then show ?thesis by (simp add: HasSlice_def FindSlice_def Qlen_def abs_q_def abs_none)
  next
    case (some before p after)
    have h: "head_ok (before @ p # after)" using rq_invD(1)[OF inv] some(2) by simp
    note p = head_ok_piece[OF h]
    have g: "g_slices (abs_q q) idx = map abs_slice (p_slices p)"
      using abs_split(1)[OF h] some(2,3) by (simp add: abs_q_def)
    have req: "is_request idx off len s \<longleftrightarrow> abs_slice s = (off, len)" if "s \<in> set (p_slices p)" for s
      using p(3) that some(3) by (intro is_request_abs) blast
    have "HasSlice q idx off len \<longleftrightarrow> (\<exists>s\<in>set (p_slices p). is_request idx off len s)"
      using some(1) by (cases rule: find_in_piece_cases[of idx off len "p_slices p"])
        (auto simp: HasSlice_def FindSlice_def)
    also have "\<dots> \<longleftrightarrow> (off, len) \<in> set (g_slices (abs_q q) idx)" using req by (force simp: g)
    finally show ?thesis using p(4) some(1) g by (simp add: Qlen_def)
  qed
  then show "HasSlice q idx off len \<longleftrightarrow> (off, len) \<in> set (g_slices (abs_q q) idx)"
    "Qlen q idx = of_nat (length (g_slices (abs_q q) idx))" by blast+
qed

section \<open>The cursors of the queue\<close>

lemma all_slices_cursors [simp]:
  "all_slices (q\<lparr>m_peek := c\<rparr>) = all_slices q" "all_slices (q\<lparr>rq_send := c\<rparr>) = all_slices q"
  by (simp_all add: all_slices_def)

lemma rq_inv_peek [simp]: "rq_inv a (q\<lparr>m_peek := c\<rparr>) = rq_inv a q"
  unfolding rq_inv_def all_slices_def by (cases "rq_send q") simp_all

text \<open>A pass of the request loop: look at the next slice to send, then mark it sent.\<close>

definition send_step :: "int \<Rightarrow> rqueue \<Rightarrow> slice option \<times> rqueue" where
  "send_step timestamp q =
     (case PeekSend q of None \<Rightarrow> (None, q) | Some s \<Rightarrow> (Some s, the (Sent q timestamp)))"

lemma Sent_slice_todo:
  assumes inv: "rq_inv a q" and t: "todo q = s # ys"
  shows "PeekSend q = Some s" "Sent q ts = Some (Sent_slice q ts (sl_addr s))"
    "todo (Sent_slice q ts (sl_addr s)) = ys"
    "all_slices q = xs @ s # ys \<Longrightarrow> all_slices (Sent_slice q ts (sl_addr s)) =
       xs @ s\<lparr>sl_reqtime := ts, sl_sent := True\<rparr> # ys"
proof -
  let ?f = "\<lambda>s. s\<lparr>sl_reqtime := ts, sl_sent := True\<rparr>"
  obtain zs where z: "all_slices q = zs @ s # ys" and snd': "rq_send q = Some (sl_addr s)"
    using todo_split[OF inv] t by (metis slices_addr_Cons)
  note h = rq_invD(1)[OF inv]
  note d = head_ok_distinct[OF h]
  show "PeekSend q = Some s" using slice_at_Some[OF d, of s] z by (simp add: PeekSend_def snd')
  show "Sent q ts = Some (Sent_slice q ts (sl_addr s))" by (simp add: Sent_def snd')
  have al: "all_slices (Sent_slice q ts (sl_addr s)) = xs @ ?f s # ys" if "all_slices q = xs @ s # ys" for xs
  proof -
    have "\<forall>t\<in>set (xs @ ys). sl_addr t \<noteq> sl_addr s" using d that by (auto simp: notin_image_iff)
    then have "map (\<lambda>t. if sl_addr t = sl_addr s then ?f t else t) xs = xs"
      "map (\<lambda>t. if sl_addr t = sl_addr s then ?f t else t) ys = ys" by (simp_all add: map_idI)
    moreover have "all_slices (Sent_slice q ts (sl_addr s)) = all_slices (upd_slice (sl_addr s) ?f q)"
      by (simp add: Sent_slice_def Let_def)
    ultimately show ?thesis by (simp add: all_slices_upd that)
  qed
  then show "all_slices q = xs @ s # ys \<Longrightarrow> all_slices (Sent_slice q ts (sl_addr s)) = xs @ ?f s # ys" .
  have "rq_send (Sent_slice q ts (sl_addr s)) = slices_addr ys"
    using slice_after_flat[OF h z] by (simp add: Sent_slice_def snd')
  moreover have "all_slices (Sent_slice q ts (sl_addr s)) = (zs @ [?f s]) @ ys" using al[OF z] by simp
  ultimately show "todo (Sent_slice q ts (sl_addr s)) = ys"
    using todo_unique head_ok_distinct[OF rq_invD(1)[OF Sent_slice_ok[OF inv]]] by metis
qed

lemma todo_Nil: "rq_inv a q \<Longrightarrow> todo q = [] \<Longrightarrow> PeekSend q = None"
  by (rule todo_split) (auto simp: PeekSend_def)

interpretation send_cursor: queue_cursor "rq_inv a" todo "send_step ts" for a ts
proof
  fix q s ys
  assume inv: "rq_inv a q" and t: "todo q = s # ys"
  show "fst (send_step ts q) = Some s \<and> rq_inv a (snd (send_step ts q)) \<and> todo (snd (send_step ts q)) = ys"
    using Sent_slice_todo(1-3)[OF inv t] Sent_slice_ok[OF inv] by (simp add: send_step_def)
qed (simp_all add: send_step_def todo_Nil)

definition peek_ok :: "nat \<Rightarrow> rqueue \<Rightarrow> bool" where
  "peek_ok a q \<longleftrightarrow> rq_inv a q \<and> (\<forall>c. m_peek q = Some c \<longrightarrow> c \<in> sl_addr ` set (all_slices q))"

definition peek_rest :: "rqueue \<Rightarrow> slice list" where
  "peek_rest q = (case m_peek q of None \<Rightarrow> all_slices q
     | Some c \<Rightarrow> tl (dropWhile (\<lambda>s. sl_addr s \<noteq> c) (all_slices q)))"

lemma peek_rest_split:
  assumes "peek_ok a q"
  obtains xs where "all_slices q = xs @ peek_rest q"
    "(case m_peek q of None \<Rightarrow> head_addr (rq_head q) | Some c \<Rightarrow> slice_after q c) = slices_addr (peek_rest q)"
proof (cases "m_peek q")
  case None
  have inv: "rq_inv a q" using assms by (simp add: peek_ok_def)
  show thesis using that[of "[]"] None head_addr_flat[of "rq_head q"] head_ok_ne[OF rq_invD(1)[OF inv]]
    by (auto simp: peek_rest_def all_slices_def)
next
  case (Some c)
  have inv: "rq_inv a q" using assms by (simp add: peek_ok_def)
  obtain s where "s \<in> set (all_slices q)" "sl_addr s = c" using assms Some by (auto simp: peek_ok_def)
  then obtain us ys where s: "all_slices q = us @ s # ys" by (meson split_list)
  have "\<forall>u\<in>set us. sl_addr u \<noteq> c"
    using head_ok_distinct[OF rq_invD(1)[OF inv]] s \<open>sl_addr s = c\<close> by (auto simp: notin_image_iff)
  then have "peek_rest q = ys" using Some s \<open>sl_addr s = c\<close> by (simp add: peek_rest_def)
  then show thesis using that[of "us @ [s]"] s slice_after_flat[OF rq_invD(1)[OF inv] s] Some \<open>sl_addr s = c\<close>
    by simp
qed

interpretation peek_cursor: cursor "peek_ok a" peek_rest PeekNext for a
proof
  fix q assume ok: "peek_ok a q" and r: "peek_rest q = []"
  then show "fst (PeekNext q) = None" by (rule_tac peek_rest_split[OF ok]) (simp add: PeekNext_def)
next
  fix q s ys assume ok: "peek_ok a q" and r: "peek_rest q = s # ys"
  obtain xs where al: "all_slices q = xs @ s # ys"
    and n: "(case m_peek q of None \<Rightarrow> head_addr (rq_head q) | Some c \<Rightarrow> slice_after q c) = Some (sl_addr s)"
    using peek_rest_split[OF ok] r by (metis slices_addr_Cons)
  have d: "distinct (map sl_addr (all_slices q))"
    using ok head_ok_distinct rq_invD(1) by (auto simp: peek_ok_def)
  have at: "slice_at q (sl_addr s) = Some s" using slice_at_Some[OF d] al by simp
  have e: "PeekNext q = (Some s, q\<lparr>m_peek := Some (sl_addr s)\<rparr>)" by (simp add: PeekNext_def n at)
  have "\<forall>x\<in>set xs. sl_addr x \<noteq> sl_addr s" using d al by (auto simp: notin_image_iff)
  then have "peek_rest (q\<lparr>m_peek := Some (sl_addr s)\<rparr>) = ys"
    by (simp add: peek_rest_def al)
  moreover have "peek_ok a (q\<lparr>m_peek := Some (sl_addr s)\<rparr>)"
    using ok al by (simp add: peek_ok_def)
  ultimately show "fst (PeekNext q) = Some s \<and> peek_ok a (snd (PeekNext q)) \<and> peek_rest (snd (PeekNext q)) = ys"
    by (simp add: e)
qed

lemma Pop_slices:
  assumes inv: "rq_inv a q"
  shows "fst (Pop q) = (case all_slices q of [] \<Rightarrow> None | s # _ \<Rightarrow> Some s) \<and> all_slices (snd (Pop q)) = tl (all_slices q)"
proof (cases "rq_head q")
  case (Cons p ps)
  then obtain s v where "p_slices p = s # v"
    using head_ok_ne[OF rq_invD(1)[OF inv], of p] by (cases "p_slices p") auto
  then show ?thesis using Cons by (simp add: Pop_def all_slices_def)
qed (simp add: Pop_def all_slices_def)

interpretation pop_cursor: queue_cursor "rq_inv a" all_slices Pop for a
  by unfold_locales (simp_all add: Pop_slices Pop_ok)

section \<open>Properties\<close>

text \<open>
  C16: The operations of the request queue keep its invariant: pieces stay non-empty and hold their
  count of slices, no piece occurs twice, addresses stay distinct, and the send cursor never
  dangles.  This covers adding, removing, deleting, popping, requeueing, moving, marking as sent,
  repairing the cursor, shuffling, copying, adding a whole piece, iterating, and the two-queue
  operations transfer and reassign, which also keep the queues disjoint.
\<close>

theorem request_queue_invariant:
  assumes inv: "rq_inv a q" and inv2: "rq_inv a d" "disj_q q d" and ss: "0 < ss"
    and small: "\<forall>p\<in>set (rq_head q). length (p_slices p) < 2147483648"
  shows "(\<forall>ok a' q'. Add mem a q idx off len = (ok, a', q') \<longrightarrow> rq_inv a' q') \<and>
    rq_inv a (snd (Remove q idx off len)) \<and> rq_inv a (snd (Delete q idx)) \<and>
    rq_inv a (snd (Pop q)) \<and> rq_inv a (Empty_q q) \<and> rq_inv a (MoveLast q idx off len) \<and>
    rq_inv a (Sent_req q ts idx off len) \<and> rq_inv a (snd (PeekNext q)) \<and>
    (\<exists>q'. FixSend q = Some q' \<and> rq_inv a q') \<and> (\<exists>q'. Sent q ts = Some q' \<and> rq_inv a q') \<and>
    (\<forall>r a' q'. Requeue mem a q idx off len = (r, a', q') \<longrightarrow> rq_inv a' q') \<and>
    (\<forall>r a' d'. Copy mem a q d idx = (r, a', d') \<longrightarrow> rq_inv a' d') \<and>
    (\<exists>r a' q'. AddPiece g ss mem a q idx = Some (r, a', q') \<and> rq_inv a' q') \<and>
    (rq_send q \<noteq> None \<longrightarrow> (\<exists>q'. Shuffle rnd3 rnd q idx = Some q' \<and> rq_inv a q')) \<and>
    (\<forall>ok q' d'. Transfer_piece g ss pend q d idx = (ok, q', d') \<longrightarrow>
       rq_inv a q' \<and> rq_inv a d' \<and> disj_q q' d') \<and>
    (\<forall>ok q' d'. Transfer g ss pend q d = (ok, q', d') \<longrightarrow>
       rq_inv a q' \<and> rq_inv a d' \<and> disj_q q' d' \<and> rq_head q' = []) \<and>
    (\<forall>i q' d'. Reassign g q d bf = (i, q', d') \<longrightarrow> rq_inv a q' \<and> rq_inv a d' \<and> disj_q q' d')"
proof -
  obtain qf where qf: "FixSend q = Some qf" using FixSend_eq[OF inv] by blast
  then obtain qs where qs: "Sent q ts = Some qs"
    by (cases "rq_send q"; cases "rq_send qf") (auto simp: Sent_def)
  have ap: "\<exists>r a' q'. AddPiece g ss mem a q idx = Some (r, a', q') \<and> rq_inv a' q'"
    using AddPiece_loop_ok[OF ss inv] unfolding AddPiece_def by blast
  have sh: "\<exists>q'. Shuffle rnd3 rnd q idx = Some q' \<and> rq_inv a q'" if "rq_send q \<noteq> None"
  proof -
    have "\<exists>q'. Shuffle rnd3 rnd q idx = Some q'"
    proof (cases rule: FindPiece_cases[of idx "rq_head q"])
      case (some before p after)
      then show ?thesis using Shuffle_eq[OF inv some(2,3) _ that] small by fastforce
    qed (simp add: Shuffle_def)
    then show ?thesis using Shuffle_ok[OF inv small that] by blast
  qed
  show ?thesis
    using Add_ok[OF inv] Requeue_ok[OF inv] Copy_ok[OF inv2(1)] Transfer_piece_ok[OF inv inv2]
      Transfer_ok[OF inv inv2] Reassign_ok[OF inv inv2] qf qs FixSend_ok[OF inv qf] Sent_ok[OF inv qs] ap sh
    by (simp add: Remove_ok Delete_ok Pop_ok Empty_ok MoveLast_ok Sent_req_ok Peek_ok inv)
qed

text \<open>An example queue: two slices of piece 3, one of piece 7, the first one sent.\<close>

definition ex_q :: rqueue where
  "ex_q = \<lparr>rq_head =
     [\<lparr>p_count = 2, p_slices = [(new_slice 1 3 0 16384)\<lparr>sl_sent := True\<rparr>, new_slice 2 3 16384 16384]\<rparr>,
      \<lparr>p_count = 1, p_slices = [new_slice 3 7 0 1000]\<rparr>], m_peek = None, rq_send = Some 2\<rparr>"

lemma ex_q_ok: "rq_inv 4 ex_q" "disj_q ex_q rq_new" "rq_inv 4 rq_new"
  by (auto simp: ex_q_def rq_inv_def head_ok_def piece_ok_def all_slices_def new_slice_def disj_q_def rq_new_def)

theorem request_queue_invariant_witness:
  "rq_inv 4 (snd (Remove ex_q 3 16384 16384)) \<and>
   (\<exists>q'. Shuffle 5 (\<lambda>i. even i) ex_q 3 = Some q' \<and> rq_inv 4 q')"
  using request_queue_invariant[OF ex_q_ok(1,3,2), of 16384 "\<lambda>_. True" 3 16384 16384 0 ex_geo 5 "\<lambda>i. even i" False "\<lparr>bf_b = None, bf_nset = 4\<rparr>"]
  by (simp add: ex_q_def)

text \<open>
  C15: The queue implements an ordered list of groups, one per piece: \<^verbatim>\<open>Add\<close> appends to the
  group of its piece or opens a new last group, \<^verbatim>\<open>Remove\<close> takes the first matching request out
  and drops an empty group and says whether there was one, \<^verbatim>\<open>Delete\<close> drops a group,
  \<^verbatim>\<open>MoveLast\<close> moves a request to the end of its group, \<^verbatim>\<open>Pop\<close> takes the first request, and
  the queries read the groups.
\<close>

theorem request_queue_refines_groups:
  assumes inv: "rq_inv a q"
  shows "(\<forall>ok a' q'. Add mem a q idx off len = (ok, a', q') \<longrightarrow>
      abs_q q' = (if ok then g_add idx (off, len) (abs_q q) else abs_q q)) \<and>
    ((\<forall>n. mem n) \<longrightarrow> fst (Add mem a q idx off len)) \<and>
    abs_q (snd (Remove q idx off len)) = g_remove idx (off, len) (abs_q q) \<and>
    fst (Remove q idx off len) = ((off, len) \<in> set (g_slices (abs_q q) idx)) \<and>
    abs_q (snd (Delete q idx)) = g_delete idx (abs_q q) \<and>
    abs_q (MoveLast q idx off len) = g_move_last idx (off, len) (abs_q q) \<and>
    (case abs_q q of
       [] \<Rightarrow> fst (Pop q) = None
     | (i, xs) # gs \<Rightarrow> map_option (\<lambda>s. (sl_index s, sl_offset s, sl_length s)) (fst (Pop q)) = Some (i, hd xs) \<and>
         abs_q (snd (Pop q)) = (if tl xs = [] then gs else (i, tl xs) # gs)) \<and>
    HasPiece q idx = (idx \<in> fst ` set (abs_q q)) \<and>
    HasSlice q idx off len = ((off, len) \<in> set (g_slices (abs_q q) idx)) \<and>
    Qlen q idx = of_nat (length (g_slices (abs_q q) idx))"
proof -
  have "(\<forall>n. mem n) \<Longrightarrow> fst (Add mem a q idx off len)"
    using Add_all_mem[of mem a q idx off len] by fastforce
  moreover have "case abs_q q of
       [] \<Rightarrow> fst (Pop q) = None
     | (i, xs) # gs \<Rightarrow> map_option (\<lambda>s. (sl_index s, sl_offset s, sl_length s)) (fst (Pop q)) = Some (i, hd xs) \<and>
         abs_q (snd (Pop q)) = (if tl xs = [] then gs else (i, tl xs) # gs)"
    using Pop_abs[OF inv] by (auto simp: abs_slice_def split: list.splits)
  ultimately show ?thesis
    using Add_abs[OF inv] Remove_abs[OF inv] Delete_abs[OF inv] MoveLast_abs[OF inv] HasSlice_abs[OF inv]
    by (simp add: HasPiece_abs)
qed

theorem request_queue_refines_groups_witness:
  "abs_q (snd (Remove ex_q 3 0 16384)) = [(3, [(16384, 16384)]), (7, [(0, 1000)])] \<and>
   fst (Add (\<lambda>_. True) 4 ex_q 3 0 16384)"
  using request_queue_refines_groups[OF ex_q_ok(1), of "\<lambda>_. True" 3 0 16384]
  by (simp add: ex_q_def abs_q_def abs_piece_def abs_slice_def new_slice_def g_remove_def g_slices_def)

lemma GetPieceLength_tiles:
  assumes ss: "0 < ss"
  shows "unat (NSlices g ss idx) = (unat (GetPieceLength g idx) + unat ss - 1) div unat ss"
proof -
  let ?L = "unat (GetPieceLength g idx)" and ?s = "unat ss"
  have s: "0 < ?s" using ss by (simp add: u32_less_iff)
  define q r where "q = ?L div ?s" and "r = ?L mod ?s"
  have L: "?L = ?s * q + r" and r: "r < ?s" using s by (simp_all add: q_def r_def)
  have m: "GetPieceLength g idx mod ss = 0 \<longleftrightarrow> r = 0" by (simp add: u32_zero_iff u32_mod r_def)
  show ?thesis
  proof (cases "r = 0")
    case True
    have "(?s * q + r + ?s - 1) div ?s = q" using s True by (intro div_nat_eqI) simp_all
    then have "(?L + ?s - 1) div ?s = q" using L by simp
    then show ?thesis using m True by (simp add: NSlices_def Let_def u32_div q_def)
  next
    case False
    have "1 * q \<le> ?s * q" using s by (intro mult_le_mono) (simp_all del: mult_le_cancel2)
    then have "q + 1 < 4294967296" using L False unat_u32_lt[of "GetPieceLength g idx"] by linarith
    then have "unat (GetPieceLength g idx div ss + 1) = q + 1" by (simp add: unat_word_ariths u32_div q_def)
    moreover have "(?s * q + r + ?s - 1) div ?s = q + 1" using s False r by (intro div_nat_eqI) simp_all
    then have "(?L + ?s - 1) div ?s = q + 1" using L by simp
    ultimately show ?thesis using m False by (simp add: NSlices_def Let_def)
  qed
qed

text \<open>The slices of a piece of \<open>L\<close> bytes, from byte \<open>o\<close> on.\<close>

lemma less_tiles: "0 < s \<Longrightarrow> k < (L + s - 1) div s \<Longrightarrow> k * s < (L :: nat)"
proof -
  assume s: "0 < s" and "k < (L + s - 1) div s"
  then have "Suc k * s \<le> (L + s - 1) div s * s" by (intro mult_le_mono1) simp
  also have "\<dots> \<le> L + s - 1" by simp
  finally show ?thesis using s by simp
qed

definition tiles :: "nat \<Rightarrow> nat \<Rightarrow> (nat \<times> nat) list" where
  "tiles s L = map (\<lambda>i. (i * s, min s (L - i * s))) [0..<(L + s - 1) div s]"

lemma tiles_step:
  assumes "0 < s" "0 < L"
  shows "tiles s L = (0, min s L) # map (\<lambda>(x, y). (min s L + x, y)) (tiles s (L - min s L))"
proof (cases "L \<le> s")
  case True
  then have "(L + s - 1) div s = 1" using assms by (intro div_nat_eqI) simp_all
  moreover have "(s - Suc 0) div s = 0" using assms by simp
  ultimately show ?thesis using True by (simp add: tiles_def)
next
  case False
  have "L + s - 1 = (L - s + s - 1) + s" using False assms by simp
  then have "(L + s - 1) div s = Suc ((L - s + s - 1) div s)" using assms by (metis Suc_eq_plus1 div_add_self2 less_numeral_extra(3))
  moreover have "map f [0..<Suc n] = f 0 # map (\<lambda>i. f (Suc i)) [0..<n]" for f :: "nat \<Rightarrow> nat \<times> nat" and n
    by (simp add: upt_conv_Cons map_Suc_upt[symmetric] comp_def del: upt_Suc)
  ultimately have "tiles s L = (0 * s, min s (L - 0 * s)) #
      map (\<lambda>i. (Suc i * s, min s (L - Suc i * s))) [0..<(L - s + s - 1) div s]"
    by (simp only: tiles_def)
  then show ?thesis using False by (simp add: tiles_def comp_def)
qed

fun tiles_from :: "nat \<Rightarrow> u32 \<Rightarrow> u32 \<Rightarrow> u32 \<Rightarrow> (u32 \<times> u32) list" where
  "tiles_from 0 ss off remain = []"
| "tiles_from (Suc n) ss off remain =
     (if remain = 0 then []
      else let len = (if remain < ss then remain else ss) in (off, len) # tiles_from n ss (off + len) (remain - len))"

lemma AddPiece_loop_abs:
  assumes ss: "0 < ss" and mem: "\<And>n. mem n"
  shows "rq_inv a q \<Longrightarrow> unat remain \<le> n \<Longrightarrow> \<exists>a' q'. AddPiece_loop mem ss idx a q off remain = Some (0, a', q') \<and>
    rq_inv a' q' \<and> (\<forall>j. g_slices (abs_q q') j = g_slices (abs_q q) j @ (if j = idx then tiles_from n ss off remain else []))"
proof (induction n arbitrary: a q off remain)
  case 0
  then show ?case by (subst AddPiece_loop.simps) (simp add: u32_zero_iff)
next
  case (Suc n)
  show ?case
  proof (cases "remain = 0")
    case True
    then show ?thesis using Suc.prems by (subst AddPiece_loop.simps) simp
  next
    case False
    let ?len = "if remain < ss then remain else ss"
    obtain a1 q1 where A: "Add mem a q idx off ?len = (True, a1, q1)" using Add_all_mem[of mem] mem by blast
    have l: "?len \<le> remain" "0 < ?len" using False ss by (auto simp: word_gt_0 not_less)
    then have "unat (remain - ?len) \<le> n"
      using u32_diff[OF l(1)] Suc.prems(2) by (simp add: u32_less_iff u32_le_iff)
    from Suc.IH[OF _ this, of a1 q1 "off + ?len"] Add_ok[OF Suc.prems(1) A] obtain a' q' where
      r: "AddPiece_loop mem ss idx a1 q1 (off + ?len) (remain - ?len) = Some (0, a', q')" "rq_inv a' q'"
      "\<forall>j. g_slices (abs_q q') j = g_slices (abs_q q1) j @ (if j = idx then tiles_from n ss (off + ?len) (remain - ?len) else [])"
      by blast
    have "g_slices (abs_q q1) j = g_slices (abs_q q) j @ (if j = idx then [(off, ?len)] else [])" for j
      using Add_abs[OF Suc.prems(1) A] by (simp add: g_slices_add)
    then show ?thesis using A r False by (subst AddPiece_loop.simps) (simp add: Let_def)
  qed
qed

lemma tiles_from_eq:
  assumes ss: "0 < ss"
  shows "unat remain \<le> n \<Longrightarrow> unat off + unat remain < 4294967296 \<Longrightarrow>
    map (\<lambda>(x, y). (unat x, unat y)) (tiles_from n ss off remain) =
    map (\<lambda>(x, y). (unat off + x, y)) (tiles (unat ss) (unat remain))"
proof (induction n arbitrary: off remain)
  case 0
  have "(unat ss - Suc 0) div unat ss = 0" using ss by (simp add: u32_less_iff)
  then show ?case using 0 by (simp add: tiles_def)
next
  case (Suc n)
  let ?s = "unat ss"
  have s: "0 < ?s" using ss by (simp add: u32_less_iff)
  show ?case
  proof (cases "remain = 0")
    case True
    have "(?s - Suc 0) div ?s = 0" using s by simp
    then show ?thesis using True by (simp add: tiles_def)
  next
    case False
    define len where "len = (if remain < ss then remain else ss)"
    have l: "len \<le> remain" "0 < len" using False ss by (auto simp: len_def word_gt_0 not_less)
    have lu: "unat len = min ?s (unat remain)" by (simp add: len_def u32_less_iff)
    have d: "unat (remain - len) = unat remain - unat len" by (rule u32_diff[OF l(1)])
    have o: "unat (off + len) = unat off + unat len"
      using Suc.prems(2) l(1) by (intro u32_add) (simp add: u32_le_iff)
    have r0: "0 < unat remain" using False by (simp add: u32_zero_iff)
    have "map (\<lambda>(x, y). (unat x, unat y)) (tiles_from n ss (off + len) (remain - len)) =
        map (\<lambda>(x, y). (unat (off + len) + x, y)) (tiles ?s (unat (remain - len)))"
      by (rule Suc.IH) (use Suc.prems d o lu l s r0 in auto)
    moreover have "tiles ?s (unat remain) = (0, unat len) # map (\<lambda>(x, y). (unat len + x, y)) (tiles ?s (unat (remain - len)))"
      unfolding d lu by (rule tiles_step[OF s r0])
    moreover have "tiles_from (Suc n) ss off remain = (off, len) # tiles_from n ss (off + len) (remain - len)"
      using False by (simp add: Let_def len_def)
    ultimately show ?thesis by (simp add: o comp_def case_prod_unfold add.assoc)
  qed
qed

text \<open>
  C31: When memory suffices \<^verbatim>\<open>AddPiece\<close> returns, and the requests it queues tile the piece: the
  \<open>i\<close>-th one starts at \<open>i\<close> slice sizes and is a slice size long or what is left, there are
  \<^verbatim>\<open>NSlices\<close> of them, their lengths add up to the piece length, other pieces keep their requests,
  and a peer that checks them accepts each one.
\<close>

theorem add_piece_tiles:
  assumes inv: "rq_inv a q" and mem: "\<And>n. mem n" and ok: "geo_ok g" and i: "idx < g_npieces g"
    and ss: "0 < ss" "ss \<le> MAX_SLICE_SIZE" and new: "\<not> HasPiece q idx"
  shows "\<exists>a' q'. AddPiece g ss mem a q idx = Some (0, a', q') \<and>
    (\<forall>j. j \<noteq> idx \<longrightarrow> g_slices (abs_q q') j = g_slices (abs_q q) j) \<and>
    Qlen q' idx = NSlices g ss idx \<and>
    map (\<lambda>(x, y). (unat x, unat y)) (g_slices (abs_q q') idx) =
      map (\<lambda>i. (i * unat ss, min (unat ss) (unat (GetPieceLength g idx) - i * unat ss))) [0..<unat (NSlices g ss idx)] \<and>
    sum_list (map (unat \<circ> snd) (g_slices (abs_q q') idx)) = unat (GetPieceLength g idx) \<and>
    (\<forall>(off, len)\<in>set (g_slices (abs_q q') idx). IsValidRequest g idx off len)"
proof -
  let ?L = "unat (GetPieceLength g idx)" and ?s = "unat ss"
  have s: "0 < ?s" using ss by (simp add: u32_less_iff)
  have "\<exists>a' q'. AddPiece_loop mem ss idx a q 0 (GetPieceLength g idx) = Some (0, a', q') \<and> rq_inv a' q' \<and>
      (\<forall>j. g_slices (abs_q q') j = g_slices (abs_q q) j @
        (if j = idx then tiles_from ?L ss 0 (GetPieceLength g idx) else []))"
    by (rule AddPiece_loop_abs[OF ss(1) mem inv le_refl])
  then obtain a' q' where q': "AddPiece g ss mem a q idx = Some (0, a', q')" "rq_inv a' q'"
    and g: "\<And>j. g_slices (abs_q q') j = g_slices (abs_q q) j @ (if j = idx then tiles_from ?L ss 0 (GetPieceLength g idx) else [])"
    by (auto simp: AddPiece_def)
  let ?xs = "g_slices (abs_q q') idx"
  have "g_slices (abs_q q) idx = []"
    using new by (auto simp: HasPiece_abs g_slices_def map_of_eq_None_iff[THEN iffD2])
  then have t: "map (\<lambda>(x, y). (unat x, unat y)) ?xs = tiles ?s ?L"
    using tiles_from_eq[OF ss(1), of "GetPieceLength g idx" ?L 0] g[of idx] by simp
  have tl: "tiles ?s ?L = map (\<lambda>i. (i * ?s, min ?s (?L - i * ?s))) [0..<unat (NSlices g ss idx)]"
    unfolding tiles_def GetPieceLength_tiles[OF ss(1)] ..
  have "length ?xs = unat (NSlices g ss idx)" using arg_cong[OF t, of length] tl by simp
  then have ql: "Qlen q' idx = NSlices g ss idx" using HasSlice_abs(2)[OF q'(2)] by simp
  have "map (unat \<circ> snd) ?xs = map snd (map (\<lambda>(x, y). (unat x, unat y)) ?xs)" by auto
  then have "map (unat \<circ> snd) ?xs = map (\<lambda>i. min ?s (?L - i * ?s)) [0..<unat (NSlices g ss idx)]"
    unfolding t tl by (simp add: comp_def)
  then have sum: "sum_list (map (unat \<circ> snd) ?xs) = ?L"
    using total_of_tile[OF s GetPieceLength_tiles[OF ss(1)]]
    by (simp add: sum_list_distinct_conv_sum_set atLeast0LessThan)
  have v: "IsValidRequest g idx off len" if m: "(off, len) \<in> set ?xs" for off len
  proof -
    have "(unat off, unat len) \<in> set (map (\<lambda>(x, y). (unat x, unat y)) ?xs)" using m by force
    then obtain k where k: "k < unat (NSlices g ss idx)" "unat off = k * ?s" "unat len = min ?s (?L - k * ?s)"
      unfolding t tl by auto
    have "k * ?s < ?L" using less_tiles[OF s, of k ?L] k(1) GetPieceLength_tiles[OF ss(1)] by simp
    then have "0 < unat len" "unat off + unat len \<le> ?L" "unat len \<le> ?s" using k s by auto
    moreover from this have "unat (off + len) = unat off + unat len"
      using unat_u32_lt[of "GetPieceLength g idx"] by (intro u32_add) linarith
    ultimately show ?thesis using i ss(2) by (simp add: IsValidRequest_def u32_less_iff u32_le_iff)
  qed
  show ?thesis using q'(1) g ql t tl sum v by (intro exI[of _ a'] exI[of _ q']) auto
qed

theorem add_piece_tiles_witness:
  "\<exists>a' q'. AddPiece ex_geo 16384 (\<lambda>_. True) 4 ex_q 1 = Some (0, a', q') \<and> Qlen q' 1 = 2"
proof -
  have "geo_ok ex_geo" "1 < g_npieces ex_geo" "\<not> HasPiece ex_q 1" "NSlices ex_geo 16384 1 = 2"
    "(0 :: u32) < 16384 \<and> 16384 \<le> MAX_SLICE_SIZE" by code_simp+
  then show ?thesis using add_piece_tiles[OF ex_q_ok(1), of "\<lambda>_. True" ex_geo 1 16384] by auto
qed

text \<open>
  Taking slices from the send cursor and marking each as sent runs through the slices from the
  cursor to the end of the queue, in order and each once; the slices taken are exactly those that
  become sent, with the time given, and the rest of the queue is unchanged.
\<close>

theorem send_cursor_in_order:
  assumes inv: "rq_inv a q" and al: "all_slices q = xs @ todo q"
  shows "fst (drain (send_step ts) n q) = take n (todo q) \<and>
    (let q' = snd (drain (send_step ts) n q)
     in rq_inv a q' \<and> todo q' = drop n (todo q) \<and>
        all_slices q' = xs @ map (\<lambda>s. s\<lparr>sl_reqtime := ts, sl_sent := True\<rparr>) (take n (todo q)) @ drop n (todo q))"
proof -
  have "all_slices (snd (drain (send_step ts) n q)) =
      xs @ map (\<lambda>s. s\<lparr>sl_reqtime := ts, sl_sent := True\<rparr>) (take n (todo q)) @ drop n (todo q)"
    using inv al
  proof (induction n arbitrary: q xs)
    case (Suc n)
    show ?case
    proof (cases "todo q")
      case Nil
      then show ?thesis using Suc.prems todo_Nil[OF Suc.prems(1) Nil] by (simp add: send_step_def)
    next
      case (Cons s ys)
      note st = Sent_slice_todo[OF Suc.prems(1) Cons]
      let ?q = "Sent_slice q ts (sl_addr s)"
      have al: "all_slices ?q = (xs @ [s\<lparr>sl_reqtime := ts, sl_sent := True\<rparr>]) @ todo ?q"
        using st(3,4) Suc.prems(2) Cons by simp
      have "send_step ts q = (Some s, ?q)" using st(1,2) by (simp add: send_step_def)
      then show ?thesis using Suc.IH[OF Sent_slice_ok[OF Suc.prems(1)] al] st(3) Cons
        by (cases "drain (send_step ts) n ?q") simp
    qed
  qed simp
  then show ?thesis using send_cursor.drain_out[OF inv] send_cursor.drain_state[OF inv] by (simp add: Let_def)
qed

theorem send_cursor_in_order_witness:
  "map sl_addr (fst (drain (send_step 9) 2 ex_q)) = [2, 3] \<and> rq_send (snd (drain (send_step 9) 2 ex_q)) = None"
proof -
  have "all_slices ex_q = [(new_slice 1 3 0 16384)\<lparr>sl_sent := True\<rparr>] @ todo ex_q" and
    t: "todo ex_q = [new_slice 2 3 16384 16384, new_slice 3 7 0 1000]"
    by (simp_all add: ex_q_def todo_def all_slices_def new_slice_def)
  from send_cursor_in_order[OF ex_q_ok(1) this(1), of 9 2] t show ?thesis
    by (auto simp: Let_def new_slice_def todo_def dropWhile_eq_Nil_conv rq_inv_def split: option.splits)
qed

text \<open>
  \<^verbatim>\<open>FixSend\<close> always returns and leaves the cursor at the first slice that is not marked
  sent, searching from the cursor, or from the head when the cursor is null; the queue's slices
  do not change.
\<close>

theorem fix_send_first_unsent:
  assumes inv: "rq_inv a q"
  shows "\<exists>q'. FixSend q = Some q' \<and> rq_head q' = rq_head q \<and>
    todo q' = dropWhile sl_sent (if rq_send q = None then all_slices q else todo q)"
proof -
  let ?ys = "if rq_send q = None then all_slices q else todo q"
  let ?q = "q\<lparr>rq_send := slices_addr (dropWhile sl_sent ?ys)\<rparr>"
  obtain xs where xs: "all_slices q = xs @ todo q" by (rule todo_split[OF inv])
  then have "\<exists>xs. all_slices q = xs @ ?ys" by auto
  then obtain zs where "all_slices ?q = (zs @ takeWhile sl_sent ?ys) @ dropWhile sl_sent ?ys" by auto
  from todo_unique[OF _ this] have "todo ?q = dropWhile sl_sent ?ys"
    using head_ok_distinct[OF rq_invD(1)[OF inv]] by simp
  then show ?thesis using FixSend_eq[OF inv] by auto
qed

theorem fix_send_first_unsent_witness:
  "\<exists>q'. FixSend (ex_q\<lparr>rq_send := None\<rparr>) = Some q' \<and> map sl_addr (todo q') = [2, 3]"
proof -
  have "rq_inv 4 (ex_q\<lparr>rq_send := None\<rparr>)" by (rule rq_inv_send[OF ex_q_ok(1)]) simp
  from fix_send_first_unsent[OF this] show ?thesis
    by (auto simp: ex_q_def all_slices_def new_slice_def)
qed

text \<open>The unlinked head piece and the rest, as groups.\<close>

lemma g_slices_Cons: "g_slices ((i, xs) # gs) j = (if j = i then xs else g_slices gs j)"
  by (simp add: g_slices_def)

lemma g_slices_append:
  "i \<notin> fst ` set gs \<Longrightarrow> g_slices (gs @ [(i, xs)]) j = (if j = i then xs else g_slices gs j)"
  by (induction gs) (auto simp: g_slices_def)

lemma abs_unsend [simp]: "map abs_slice (unsend_leading ss) = map abs_slice ss"
  by (induction ss) (auto simp: abs_slice_def)

lemma abs_Append:
  assumes "\<not> HasPiece d (p_index p)" "p_slices p \<noteq> []"
  shows "abs_q (snd (Append d p)) = abs_q d @ [abs_piece p]" "Append d p = (True, snd (Append d p))"
proof -
  have i: "sl_index (hd (unsend_leading (p_slices p))) = p_index p"
    using assms(2) by (cases "p_slices p") auto
  then show "abs_q (snd (Append d p)) = abs_q d @ [abs_piece p]"
    using assms(1) i by (cases rule: FindPiece_cases[of "p_index p" "rq_head d"])
      (auto simp: Append_def abs_q_def abs_piece_def HasPiece_iff)
  show "Append d p = (True, snd (Append d p))" using all_slices_Append(1)[OF assms(1)] by (metis prod.collapse)
qed

definition moved :: "geometry \<Rightarrow> u32 \<Rightarrow> bool \<Rightarrow> rqueue \<Rightarrow> rqueue \<Rightarrow> u32 \<Rightarrow> bool" where
  "moved g ss pend q d j \<longleftrightarrow> \<not> HasPiece d j \<and> \<not> (pend \<and> NSlices g ss j \<le> Qlen q j)"

lemma Transfer_loop_abs:
  "rq_inv a q \<Longrightarrow> rq_inv a d \<Longrightarrow> disj_q q d \<Longrightarrow> Transfer_loop g ss pend r q d = (ok, q', d') \<Longrightarrow>
   (\<forall>j. g_slices (abs_q d') j =
     (if HasPiece q j \<and> moved g ss pend q d j then g_slices (abs_q q) j else g_slices (abs_q d) j)) \<and>
   (ok \<longleftrightarrow> r \<and> (\<forall>j. HasPiece q j \<longrightarrow> moved g ss pend q d j))"
proof (induction g ss pend r q d rule: Transfer_loop.induct)
  case (1 g ss pend r q d)
  show ?case
  proof (cases "rq_head q")
    case Nil
    then show ?thesis using "1.prems"(4) by (auto simp: HasPiece_iff)
  next
    case (Cons p ps)
    let ?i = "p_index p"
    obtain ok1 q1 d1 where t: "Transfer_piece g ss pend q d ?i = (ok1, q1, d1)" by (metis prod_cases3)
    have h: "head_ok ([] @ p # ps)" using rq_invD(1)[OF "1.prems"(1)] Cons by simp
    note p = head_ok_piece[OF h]
    have f: "FindPiece ?i (rq_head q) = ([], p # ps)" using FindPiece_split[OF h] Cons by simp
    have q1: "rq_head q1 = ps" and d1: "(if pend \<and> NSlices g ss ?i \<le> p_count p then (False, d) else Append d p) = (ok1, d1)"
      using t f by (auto simp: Transfer_piece_def Let_def split: if_splits prod.splits)
    have aq: "abs_q q = (?i, map abs_slice (p_slices p)) # abs_q q1"
      using q1 Cons by (simp add: abs_q_def abs_piece_def)
    have ql: "Qlen q ?i = p_count p" using f by (simp add: Qlen_def)
    have qj: "Qlen q1 j = Qlen q j" if "j \<noteq> ?i" for j using that q1 Cons by (simp add: Qlen_def FindPiece_def)
    have hp: "HasPiece q j \<longleftrightarrow> j = ?i \<or> HasPiece q1 j" for j using q1 Cons by (auto simp: HasPiece_iff)
    have n1: "\<not> HasPiece q1 ?i" using p(7) q1 by (auto simp: HasPiece_iff)
    have okm: "ok1 \<longleftrightarrow> moved g ss pend q d ?i"
      using d1 abs_Append(2)[OF _ p(2), of d] Append_has[of d p] ql
      by (cases "HasPiece d ?i") (auto simp: moved_def split: if_splits)
    have ad: "abs_q d1 = (if ok1 then abs_q d @ [abs_piece p] else abs_q d)"
      using d1 abs_Append[OF _ p(2), of d] Append_has[of d p] by (cases "HasPiece d ?i") (auto split: if_splits)
    have hd1: "HasPiece d1 j \<longleftrightarrow> HasPiece d j \<or> j = ?i \<and> ok1" for j
      by (auto simp: HasPiece_abs ad abs_piece_def)
    have gd: "g_slices (abs_q d1) j = (if j = ?i \<and> ok1 then map abs_slice (p_slices p) else g_slices (abs_q d) j)" for j
      using okm g_slices_append[of ?i "abs_q d" _ j] by (auto simp: ad moved_def HasPiece_abs abs_piece_def)
    have gq: "g_slices (abs_q q) j = (if j = ?i then map abs_slice (p_slices p) else g_slices (abs_q q1) j)" for j
      by (simp add: aq g_slices_Cons)
    have mv: "moved g ss pend q1 d1 j \<longleftrightarrow> moved g ss pend q d j" if "HasPiece q1 j" for j
    proof -
      have "j \<noteq> ?i" using that n1 by blast
      then show ?thesis using qj hd1 by (simp add: moved_def)
    qed
    have L: "Transfer_loop g ss pend (if ok1 then r else False) q1 d1 = (ok, q', d')"
      using "1.prems"(4) Cons t by simp
    from "1.IH"[OF Cons t[symmetric] refl] Transfer_piece_ok[OF "1.prems"(1-3) t] L
    have G: "\<And>j. g_slices (abs_q d') j =
        (if HasPiece q1 j \<and> moved g ss pend q1 d1 j then g_slices (abs_q q1) j else g_slices (abs_q d1) j)"
      and O: "ok \<longleftrightarrow> (if ok1 then r else False) \<and> (\<forall>j. HasPiece q1 j \<longrightarrow> moved g ss pend q1 d1 j)"
      by blast+
    have "g_slices (abs_q d') j =
      (if HasPiece q j \<and> moved g ss pend q d j then g_slices (abs_q q) j else g_slices (abs_q d) j)" for j
      using G[of j] mv[of j] gd[of j] gq[of j] hp[of j] n1 okm by (cases "j = ?i"; cases "HasPiece q1 j") simp_all
    moreover have "ok \<longleftrightarrow> r \<and> (\<forall>j. HasPiece q j \<longrightarrow> moved g ss pend q d j)"
      using O mv hp okm by auto
    ultimately show ?thesis by blast
  qed
qed

text \<open>
  C30: \<^verbatim>\<open>Transfer\<close> empties the source queue.  The destination ends up with exactly the pieces it
  had and those of the source it did not have, each with all its requests in order; for the pending
  queue a piece that is queued completely is dropped instead.  The result says whether every piece
  was moved.
\<close>

theorem transfer_conserves_requests:
  assumes inv: "rq_inv a q" "rq_inv a d" "disj_q q d"
    and t: "Transfer g ss pend q d = (ok, q', d')"
  shows "rq_head q' = [] \<and> rq_send q' = None \<and>
    (\<forall>j. g_slices (abs_q d') j =
      (if HasPiece d j then g_slices (abs_q d) j
       else if pend \<and> NSlices g ss j \<le> Qlen q j then [] else g_slices (abs_q q) j)) \<and>
    (ok \<longleftrightarrow> (\<forall>j. HasPiece q j \<longrightarrow> \<not> HasPiece d j \<and> \<not> (pend \<and> NSlices g ss j \<le> Qlen q j)))"
proof -
  obtain r q1 where L: "Transfer_loop g ss pend True q d = (r, q1, d')" and q': "q' = q1\<lparr>rq_send := None\<rparr>" "r = ok"
    using t by (auto simp: Transfer_def split: prod.splits)
  have e: "g_slices (abs_q x) j = []" if "\<not> HasPiece x j" for x j
    using that by (auto simp: HasPiece_abs g_slices_def map_of_eq_None_iff[THEN iffD2])
  note A = Transfer_loop_abs[OF inv L]
  have "g_slices (abs_q d') j =
      (if HasPiece d j then g_slices (abs_q d) j
       else if pend \<and> NSlices g ss j \<le> Qlen q j then [] else g_slices (abs_q q) j)" for j
    using A e[of d j] e[of q j] by (simp add: moved_def)
  then show ?thesis using A Transfer_loop_ok[OF inv L] q' by (simp add: moved_def)
qed

theorem transfer_conserves_requests_witness:
  "\<exists>ok q' d'. Transfer ex_geo 16384 True ex_q rq_new = (ok, q', d') \<and>
     rq_head q' = [] \<and> g_slices (abs_q d') 7 = [(0, 1000)] \<and> g_slices (abs_q d') 3 = []"
proof -
  obtain ok q' d' where t: "Transfer ex_geo 16384 True ex_q rq_new = (ok, q', d')" by (metis prod_cases3)
  have e: "\<not> HasPiece rq_new 7" "\<not> HasPiece rq_new 3" "\<not> NSlices ex_geo 16384 7 \<le> Qlen ex_q 7"
    "NSlices ex_geo 16384 3 \<le> Qlen ex_q 3" "g_slices (abs_q ex_q) 7 = [(0, 1000)]" by code_simp+
  note T = transfer_conserves_requests[OF ex_q_ok(1,3,2) t]
  then have "rq_head q' = [] \<and> g_slices (abs_q d') 7 = [(0, 1000)] \<and> g_slices (abs_q d') 3 = []"
    using e by (simp only: if_True if_False simp_thms)
  then show ?thesis using t by blast
qed

text \<open>
  \<^verbatim>\<open>Shuffle\<close> only reorders: the slices of the piece are the same ones, with their offsets,
  lengths, times and flags, and the other pieces are untouched.  When the offsets differ and there
  is more than one slice, the first slice is another one than before, and a send cursor inside the
  piece moves to the new first slice.
\<close>

theorem shuffle_permutes:
  assumes inv: "rq_inv a q" and q: "rq_head q = before @ p # after" and idx: "p_index p = idx"
    and len: "1 < length (p_slices p)" "length (p_slices p) < 2147483648"
    and off: "distinct (map sl_offset (p_slices p))" and send: "rq_send q \<noteq> None"
  shows "\<exists>q' ss. Shuffle rnd3 rnd q idx = Some q' \<and>
    rq_head q' = before @ p\<lparr>p_slices := ss\<rparr> # after \<and> mset ss = mset (p_slices p) \<and>
    hd ss \<noteq> hd (p_slices p) \<and>
    rq_send q' = (if \<exists>s\<in>set (p_slices p). rq_send q = Some (sl_addr s) then Some (sl_addr (hd ss)) else rq_send q)"
proof -
  obtain ss snd' where s: "Shuffle rnd3 rnd q idx =
      Some (q\<lparr>rq_head := before @ p\<lparr>p_slices := ss\<rparr> # after, rq_send := snd'\<rparr>)"
    and m: "mset ss = mset (p_slices p)" and snd': "snd' = (if send_in q idx then slices_addr ss else rq_send q)"
    and h: "hd ss \<noteq> hd (p_slices p)"
    using Shuffle_eq[OF inv q idx len(2) send] len(1) off by blast
  have "ss \<noteq> []" using m len(1) by auto
  then have "slices_addr ss = Some (sl_addr (hd ss))" by (cases ss) auto
  then show ?thesis using s m h snd' send_in_split[OF inv q] idx by auto
qed

theorem shuffle_permutes_witness:
  "\<exists>q' ss. Shuffle 5 odd ex_q 3 = Some q' \<and> map sl_addr (p_slices (hd (rq_head q'))) = map sl_addr ss \<and>
     mset ss = mset (p_slices (hd (rq_head ex_q)))"
proof -
  have "rq_head ex_q = [] @ hd (rq_head ex_q) # tl (rq_head ex_q)" "p_index (hd (rq_head ex_q)) = 3"
    "1 < length (p_slices (hd (rq_head ex_q)))" "length (p_slices (hd (rq_head ex_q))) < 2147483648"
    "distinct (map sl_offset (p_slices (hd (rq_head ex_q))))" "rq_send ex_q \<noteq> None"
    by (simp_all add: ex_q_def new_slice_def)
  from shuffle_permutes[OF ex_q_ok(1) this] show ?thesis by (metis append_Nil list.sel(1) piece.select_convs(2) piece.surjective piece.update_convs(2))
qed

text \<open>
  \<^verbatim>\<open>Peek\<close> followed by \<^verbatim>\<open>PeekNext\<close> visits every queued slice once and in order, and
  \<^verbatim>\<open>Pop\<close> takes out the same sequence; neither depends on the send cursor.
\<close>

theorem iteration_visits_all:
  assumes inv: "rq_inv a q"
  shows "fst (drain PeekNext n (q\<lparr>m_peek := None\<rparr>)) = take n (all_slices q) \<and>
    fst (Peek q) = (case all_slices q of [] \<Rightarrow> None | s # _ \<Rightarrow> Some s) \<and>
    fst (drain Pop n q) = take n (all_slices q) \<and>
    all_slices (snd (drain Pop n q)) = drop n (all_slices q) \<and> rq_inv a (snd (drain Pop n q))"
proof -
  let ?q = "q\<lparr>m_peek := None\<rparr>"
  have ok: "peek_ok a ?q" and r: "peek_rest ?q = all_slices q"
    using inv by (simp_all add: peek_ok_def peek_rest_def)
  have "fst (Peek q) = (case all_slices q of [] \<Rightarrow> None | s # _ \<Rightarrow> Some s)"
    using peek_cursor.take1_Nil[OF ok] peek_cursor.take1_Cons[OF ok] r
    by (cases "all_slices q") (simp_all add: Peek_def)
  then show ?thesis
    using peek_cursor.drain_out[OF ok, of n] pop_cursor.drain_out[OF inv, of n] pop_cursor.drain_state[OF inv, of n] r
    by simp
qed

theorem iteration_visits_all_witness:
  "map sl_addr (fst (drain PeekNext 5 (ex_q\<lparr>m_peek := None\<rparr>))) = [1, 2, 3] \<and>
   map sl_addr (fst (drain Pop 2 ex_q)) = [1, 2]"
  using iteration_visits_all[OF ex_q_ok(1), of 5] iteration_visits_all[OF ex_q_ok(1), of 2]
  by (simp add: ex_q_def all_slices_def new_slice_def)

text \<open>
  C38: A request \<^verbatim>\<open>IsValidRequest\<close> accepts lies inside its piece, and so inside the files, unless
  its offset is within \<^verbatim>\<open>MAX_SLICE_SIZE\<close> of the end of the 32-bit range, where \<^verbatim>\<open>off + len\<close>
  wraps around.
\<close>

theorem valid_request_in_piece:
  assumes ok: "geo_ok g" and v: "IsValidRequest g idx off len" and off: "unat off + 131072 < 4294967296"
  shows "0 < unat len \<and> unat off + unat len \<le> unat (GetPieceLength g idx) \<and>
    unat idx * unat (g_piece_length g) + unat off + unat len \<le> unat (g_total g)"
proof -
  have i: "idx < g_npieces g" and l: "0 < len" "len \<le> MAX_SLICE_SIZE" and s: "off + len \<le> GetPieceLength g idx"
    using v by (auto simp: IsValidRequest_def)
  have "unat len \<le> 131072" using l(2) by (simp add: u32_le_iff MAX_SLICE_SIZE_def)
  then have "unat (off + len) = unat off + unat len" using off by (intro u32_add) simp
  then have p: "unat off + unat len \<le> unat (GetPieceLength g idx)" using s by (simp add: u32_le_iff)
  moreover have "0 < unat len" using l(1) by (simp add: u32_less_iff)
  ultimately show ?thesis using GetPieceLength_nat[OF ok i] GetPieceLength_pos[OF ok i] by linarith
qed

theorem valid_request_in_piece_witness:
  "IsValidRequest ex_geo 1 16384 16384 \<and> (16384 :: nat) + 16384 \<le> unat (GetPieceLength ex_geo 1)"
proof -
  have "geo_ok ex_geo" "IsValidRequest ex_geo 1 16384 16384" by code_simp+
  from valid_request_in_piece[OF this] this show ?thesis by simp
qed

text \<open>The wrap-around: a request near the end of the 32-bit range is accepted for a small piece.\<close>

lemma valid_request_wraps:
  "IsValidRequest ex_geo 1 4294967295 2 \<and> GetPieceLength ex_geo 1 = 32768"
  by code_simp

end
