(* ===== verification/Bufio.thy ===== *)
theory Bufio
  imports Prelude
begin

text \<open>
  Buffered socket I/O, \<^verbatim>\<open>BufIo\<close> of \<^verbatim>\<open>src/bufio.cpp\<close>.

  The kernel is the list of outcomes of the coming \<^verbatim>\<open>write\<close> or \<^verbatim>\<open>read\<close> calls, with the bytes
  written so far; a list that has run out blocks.  \<open>mem\<close> says which allocation sizes succeed.
  \<open>m_buf\<close> is the whole array of \<^verbatim>\<open>m_size\<close> bytes, of which the first \<^verbatim>\<open>m_len\<close> are data; a closed
  buffer has an empty array.
\<close>

datatype send_event = Sent_bytes nat | Send_blocks | Send_intr | Send_fails
datatype recv_event = Got bytes | Recv_blocks | Recv_intr | Recv_fails | Recv_closed

record bufio =
  m_buf :: bytes
  m_len :: nat
  m_size :: nat
  m_max :: nat
  m_valid :: bool
  m_socket_remote_closed :: bool

type_synonym osock = "send_event list \<times> bytes"
type_synonym isock = "recv_event list"

abbreviation BUFIO_DEF_SIZ :: nat where "BUFIO_DEF_SIZ \<equiv> 256"
abbreviation BUFIO_INC_SIZ :: nat where "BUFIO_INC_SIZ \<equiv> 256"

definition BufIo :: "(nat \<Rightarrow> bool) \<Rightarrow> bufio" where
  "BufIo mem = \<lparr>m_buf = (if mem BUFIO_DEF_SIZ then replicate BUFIO_DEF_SIZ 0 else []), m_len = 0,
     m_size = (if mem BUFIO_DEF_SIZ then BUFIO_DEF_SIZ else 0), m_max = BUFIO_DEF_SIZ + 4 * BUFIO_INC_SIZ,
     m_valid = True, m_socket_remote_closed = False\<rparr>"

definition buf_Reset :: "bufio \<Rightarrow> bufio" where
  "buf_Reset b = b\<lparr>m_len := 0, m_socket_remote_closed := False, m_valid := True\<rparr>"

definition buf_Close :: "bufio \<Rightarrow> bufio" where
  "buf_Close b = b\<lparr>m_buf := [], m_len := 0, m_size := 0\<rparr>"

definition LeftSize :: "bufio \<Rightarrow> nat" where
  "LeftSize b = m_size b - m_len b"

definition SetSize :: "(nat \<Rightarrow> bool) \<Rightarrow> nat \<Rightarrow> bufio \<Rightarrow> int \<times> bufio" where
  "SetSize mem len b =
     (if m_max b < len \<and> m_size b < len then (-1, b)
      else let len = (if len < m_len b then m_len b else len)
      in if len = m_size b then (0, b)
      else if \<not> mem len then (-1, b)
      else (0, b\<lparr>m_buf := memcpy_to (replicate len 0) 0 (m_buf b) (m_len b), m_size := len\<rparr>))"

definition MaxSize :: "(nat \<Rightarrow> bool) \<Rightarrow> nat \<Rightarrow> bufio \<Rightarrow> bufio" where
  "MaxSize mem len b =
     (let b = b\<lparr>m_max := len\<rparr> in if m_max b < m_size b then snd (SetSize mem (m_max b) b) else b)"

definition realloc_buffer :: "(nat \<Rightarrow> bool) \<Rightarrow> bufio \<Rightarrow> int \<times> bufio" where
  "realloc_buffer mem b = SetSize mem (m_size b + BUFIO_INC_SIZ) b"

text \<open>The \<^verbatim>\<open>while\<close> loops of \<^verbatim>\<open>_SEND\<close> and \<^verbatim>\<open>_RECV\<close>, with \<open>t\<close> the bytes transferred.\<close>

fun SEND_loop :: "send_event list \<Rightarrow> bytes \<Rightarrow> bytes \<Rightarrow> nat \<Rightarrow> int \<times> osock" where
  "SEND_loop evs out buf t =
     (if buf = [] then (int t, (evs, out))
      else case evs of
        [] \<Rightarrow> (int t, ([], out))
      | Sent_bytes r # evs \<Rightarrow>
          (let r = min r (length buf)
           in if r = 0 then (int t, (evs, out))
              else SEND_loop evs (out @ take r buf) (drop r buf) (t + r))
      | Send_blocks # evs \<Rightarrow> (int t, (evs, out))
      | Send_intr # evs \<Rightarrow> SEND_loop evs out buf t
      | Send_fails # evs \<Rightarrow> (-1, (evs, out)))"

definition SEND_buf :: "osock \<Rightarrow> bytes \<Rightarrow> int \<times> osock" where
  "SEND_buf sk buf = (let (evs, out) = sk in SEND_loop evs out buf 0)"

text \<open>
  \<^verbatim>\<open>_RECV\<close> delivers \<^verbatim>\<open>r\<close>, whether the remote end closed, the bytes and the remaining events;
  more bytes than asked for stay in the kernel.
\<close>

fun RECV_loop :: "recv_event list \<Rightarrow> nat \<Rightarrow> bytes \<Rightarrow> int \<times> bool \<times> bytes \<times> isock" where
  "RECV_loop evs len got =
     (if len = 0 then (int (length got), False, got, evs)
      else case evs of
        [] \<Rightarrow> (int (length got), False, got, [])
      | Got bs # evs \<Rightarrow>
          (if bs = [] then (int (length got), True, got, evs)
           else if len < length bs then (int (length got + len), False, got @ take len bs, Got (drop len bs) # evs)
           else RECV_loop evs (len - length bs) (got @ bs))
      | Recv_blocks # evs \<Rightarrow> (int (length got), False, got, evs)
      | Recv_intr # evs \<Rightarrow> RECV_loop evs len got
      | Recv_fails # evs \<Rightarrow> (-1, False, got, evs)
      | Recv_closed # evs \<Rightarrow> (int (length got), True, got, evs))"

declare SEND_loop.simps [simp del] RECV_loop.simps [simp del]

definition FlushOut :: "osock \<Rightarrow> bufio \<Rightarrow> int \<times> osock \<times> bufio" where
  "FlushOut sk b =
     (if m_len b = 0 then (0, sk, b)
      else let (r, sk) = SEND_buf sk (take (m_len b) (m_buf b))
      in if r < 0 then (r, sk, b\<lparr>m_valid := False\<rparr>)
         else if 0 < r then
           (let n = m_len b - nat r
            in (int n, sk, b\<lparr>m_len := n, m_buf := memcpy_to (m_buf b) 0 (drop (nat r) (m_buf b)) n\<rparr>))
         else (int (m_len b), sk, b))"

text \<open>\<open>grow\<close> is the loop \<^verbatim>\<open>while( LeftSize() < len )\<close>; its result says whether it succeeded.\<close>

function grow :: "(nat \<Rightarrow> bool) \<Rightarrow> nat \<Rightarrow> bufio \<Rightarrow> bool \<times> bufio" where
  "grow mem len b =
     (if len \<le> LeftSize b then (True, b)
      else let (r, b') = realloc_buffer mem b
      in if r < 0 then (False, b'\<lparr>m_valid := False\<rparr>) else grow mem len b')"
  by pat_completeness auto
termination
  by (relation "measure (\<lambda>(_, _, b). m_max b - m_size b)")
    (auto simp: realloc_buffer_def SetSize_def Let_def split: if_splits)

declare grow.simps [simp del]

text \<open>The part \<^verbatim>\<open>Put\<close> and \<^verbatim>\<open>PutFlush\<close> have in common.\<close>

definition put_data :: "(nat \<Rightarrow> bool) \<Rightarrow> osock \<Rightarrow> bytes \<Rightarrow> bufio \<Rightarrow> int \<times> osock \<times> bufio" where
  "put_data mem sk buf b =
     (if \<not> m_valid b then (-1, sk, b)
      else let (r, sk, b) =
        (if LeftSize b < length buf then
           (let (r, sk, b) = (if m_len b \<noteq> 0 then FlushOut sk b else (0, sk, b))
            in if r < 0 then (-1 :: int, sk, b)
               else let (ok, b) = grow mem (length buf) b in (if ok then 0 else -1, sk, b))
         else (0, sk, b))
      in if r < 0 then (-1, sk, b)
         else (0, sk, b\<lparr>m_buf := memcpy_to (m_buf b) (m_len b) buf (length buf), m_len := m_len b + length buf\<rparr>))"

definition Put :: "(nat \<Rightarrow> bool) \<Rightarrow> osock \<Rightarrow> bytes \<Rightarrow> bufio \<Rightarrow> int \<times> osock \<times> bufio" where
  "Put mem sk buf b = put_data mem sk buf b"

definition PutFlush :: "(nat \<Rightarrow> bool) \<Rightarrow> osock \<Rightarrow> bytes \<Rightarrow> bufio \<Rightarrow> int \<times> osock \<times> bufio" where
  "PutFlush mem sk buf b =
     (let (r, sk, b) = put_data mem sk buf b in if r < 0 then (r, sk, b) else FlushOut sk b)"

definition FeedIn :: "(nat \<Rightarrow> bool) \<Rightarrow> isock \<Rightarrow> nat \<Rightarrow> bufio \<Rightarrow> int \<times> isock \<times> bufio" where
  "FeedIn mem sk limit b =
     (if \<not> m_valid b then (-1, sk, b)
      else let (r, b) = (if LeftSize b = 0 then realloc_buffer mem b else (0, b))
      in if r < 0 then (-1, sk, b\<lparr>m_valid := False\<rparr>)
      else let limit = (if limit = 0 \<or> LeftSize b < limit then LeftSize b else limit);
               (r, closed, got, sk) = RECV_loop sk limit [];
               b = b\<lparr>m_socket_remote_closed := m_socket_remote_closed b \<or> closed,
                     m_buf := memcpy_to (m_buf b) (m_len b) got (length got)\<rparr>
      in if r < 0 then (-1, sk, b\<lparr>m_valid := False\<rparr>)
         else let b = b\<lparr>m_len := m_len b + nat r\<rparr>
         in if m_socket_remote_closed b then (-1, sk, b) else (int (m_len b), sk, b))"

definition PickUp :: "nat \<Rightarrow> bufio \<Rightarrow> int \<times> bufio" where
  "PickUp len b =
     (if m_len b < len then (-1, b)
      else (0, b\<lparr>m_len := m_len b - len, m_buf := memcpy_to (m_buf b) 0 (drop len (m_buf b)) (m_len b - len)\<rparr>))"

section \<open>The buffer as a byte queue\<close>

definition buf_inv :: "bufio \<Rightarrow> bool" where
  "buf_inv b \<longleftrightarrow> length (m_buf b) = m_size b \<and> m_len b \<le> m_size b"

definition data :: "bufio \<Rightarrow> bytes" where
  "data b = take (m_len b) (m_buf b)"

lemma length_data [simp]: "buf_inv b \<Longrightarrow> length (data b) = m_len b"
  by (simp add: buf_inv_def data_def)

lemma data_append:
  assumes "buf_inv b" "length bs \<le> LeftSize b"
  shows "take (m_len b + length bs) (memcpy_to (m_buf b) (m_len b) bs (length bs)) = data b @ bs"
    "length (memcpy_to (m_buf b) (m_len b) bs (length bs)) = m_size b"
  using assms by (auto simp: data_def buf_inv_def LeftSize_def memcpy_to_def)

lemma data_shift:
  assumes "buf_inv b" "n \<le> m_len b"
  shows "take (m_len b - n) (memcpy_to (m_buf b) 0 (drop n (m_buf b)) (m_len b - n)) = drop n (data b)"
    "length (memcpy_to (m_buf b) 0 (drop n (m_buf b)) (m_len b - n)) = m_size b"
  using assms by (auto simp: data_def buf_inv_def memcpy_to_def drop_take min_def)

lemma SetSize_ok:
  assumes "buf_inv b" "SetSize mem len b = (r, b')"
  shows "buf_inv b' \<and> data b' = data b \<and> m_len b' = m_len b \<and> m_valid b' = m_valid b \<and> m_max b' = m_max b \<and>
    m_socket_remote_closed b' = m_socket_remote_closed b \<and>
    (r < 0 \<longrightarrow> b' = b) \<and> (0 \<le> r \<longrightarrow> m_size b' = max len (m_len b))"
  using assms by (auto simp: SetSize_def buf_inv_def data_def memcpy_to_def Let_def split: if_splits)

lemma SEND_loop_sent:
  assumes "SEND_loop evs out buf t = (r, evs', out')"
  shows "\<exists>n \<le> length buf. out' = out @ take n buf \<and> (0 \<le> r \<longrightarrow> r = int (t + n))"
  using assms
proof (induction evs out buf t rule: SEND_loop.induct)
  case (1 evs out buf t)
  show ?case
  proof (cases "buf = []")
    case True
    then show ?thesis using "1.prems" by (subst (asm) SEND_loop.simps) simp
  next
    case False
    show ?thesis
    proof (cases evs)
      case Nil
      then show ?thesis using "1.prems" False by (subst (asm) SEND_loop.simps) auto
    next
      case (Cons e evs2)
      show ?thesis
      proof (cases e)
        case (Sent_bytes k)
        show ?thesis
        proof (cases "min k (length buf) = 0")
          case True
          then show ?thesis using "1.prems" False Cons Sent_bytes by (subst (asm) SEND_loop.simps) auto
        next
          case F: False
          have "SEND_loop evs2 (out @ take (min k (length buf)) buf) (drop (min k (length buf)) buf) (t + min k (length buf)) = (r, evs', out')"
            using "1.prems" False Cons Sent_bytes F by (subst (asm) SEND_loop.simps) (simp add: Let_def)
          from "1.IH"(1)[OF False Cons Sent_bytes refl F this] obtain n where
            "n \<le> length (drop (min k (length buf)) buf)"
            "out' = (out @ take (min k (length buf)) buf) @ take n (drop (min k (length buf)) buf)"
            "0 \<le> r \<longrightarrow> r = int (t + min k (length buf) + n)" by blast
          then show ?thesis
            by (intro exI[of _ "min k (length buf) + n"]) (auto simp: take_add)
        qed
      next
        case Send_intr
        have "SEND_loop evs2 out buf t = (r, evs', out')"
          using "1.prems" False Cons Send_intr by (subst (asm) SEND_loop.simps) simp
        from "1.IH"(2)[OF False Cons Send_intr this] show ?thesis .
      qed (use "1.prems" False Cons in \<open>subst (asm) SEND_loop.simps, auto\<close>)+
    qed
  qed
qed

lemma FlushOut_ok:
  assumes inv: "buf_inv b" and f: "FlushOut (evs, out) b = (r, (evs', out'), b')"
  shows "buf_inv b' \<and> m_max b' = m_max b \<and> m_size b' = m_size b \<and>
    (0 \<le> r \<longrightarrow> out' @ data b' = out @ data b \<and> r = int (m_len b') \<and> m_valid b' = m_valid b) \<and>
    (r < 0 \<longrightarrow> \<not> m_valid b' \<and> data b' = data b \<and> (\<exists>n. out' = out @ take n (data b)))"
proof (cases "m_len b = 0")
  case True
  then show ?thesis using f inv by (auto simp: FlushOut_def data_def)
next
  case False
  obtain r1 evs1 out1 where S: "SEND_loop evs out (data b) 0 = (r1, (evs1, out1))" by (metis prod_cases3)
  from SEND_loop_sent[OF S] inv obtain n where n: "n \<le> m_len b" "out1 = out @ take n (data b)" "0 \<le> r1 \<longrightarrow> r1 = int n"
    by auto
  note sh = data_shift[OF inv n(1)]
  show ?thesis
  proof (cases "r1 < 0")
    case True
    then have "b' = b\<lparr>m_valid := False\<rparr>" "r = r1" "out' = out1"
      using f S False by (auto simp: FlushOut_def SEND_buf_def data_def)
    then show ?thesis using inv True n(2) by (auto simp: buf_inv_def data_def)
  next
    case pos: False
    then have r1: "r1 = int n" using n(3) by simp
    show ?thesis
    proof (cases "n = 0")
      case True
      then have "b' = b" "r = int (m_len b)" "out' = out"
        using f S False r1 n(2) by (auto simp: FlushOut_def SEND_buf_def data_def)
      then show ?thesis using inv by simp
    next
      case nz: False
      then have b': "b' = b\<lparr>m_len := m_len b - n, m_buf := memcpy_to (m_buf b) 0 (drop n (m_buf b)) (m_len b - n)\<rparr>"
        and r: "r = int (m_len b - n)" and out': "out' = out1"
        using f S False r1 by (auto simp: FlushOut_def SEND_buf_def data_def Let_def)
      have d: "data b' = drop n (data b)" using sh(1) by (simp add: b' data_def)
      have "buf_inv b'" using sh(2) inv by (auto simp: b' buf_inv_def)
      moreover have "out' @ data b' = out @ data b" unfolding d out' n(2) by simp
      moreover have "r = int (m_len b')" "m_valid b' = m_valid b" "m_max b' = m_max b" "m_size b' = m_size b" "0 \<le> r"
        unfolding b' r by simp_all
      ultimately show ?thesis by simp
    qed
  qed
qed

lemma grow_ok:
  "buf_inv b \<Longrightarrow> grow mem len b = (ok, b') \<Longrightarrow>
   buf_inv b' \<and> data b' = data b \<and> m_len b' = m_len b \<and> m_max b' = m_max b \<and>
   (ok \<longrightarrow> len \<le> LeftSize b' \<and> m_valid b' = m_valid b) \<and> (\<not> ok \<longrightarrow> \<not> m_valid b')"
proof (induction mem len b rule: grow.induct)
  case (1 mem len b)
  show ?case
  proof (cases "len \<le> LeftSize b")
    case True
    then show ?thesis using "1.prems" by (subst (asm) grow.simps) auto
  next
    case False
    obtain r b1 where R: "realloc_buffer mem b = (r, b1)" by force
    note S = SetSize_ok[OF "1.prems"(1) R[unfolded realloc_buffer_def]]
    show ?thesis
    proof (cases "r < 0")
      case True
      then show ?thesis using "1.prems" False R S by (subst (asm) grow.simps) (auto simp: buf_inv_def data_def)
    next
      case pos: False
      have "grow mem len b1 = (ok, b')" using "1.prems"(2) False R pos by (subst (asm) grow.simps) simp
      from "1.IH"[OF False R[symmetric] refl pos _ this] S show ?thesis by simp
    qed
  qed
qed

lemma put_data_ok:
  assumes inv: "buf_inv b" and p: "put_data mem (evs, out) buf b = (r, (evs', out'), b')"
  shows "buf_inv b' \<and> (r = 0 \<or> r = -1) \<and>
    (r = 0 \<longrightarrow> m_valid b' \<and> out' @ data b' = out @ data b @ buf) \<and>
    (r \<noteq> 0 \<longrightarrow> \<not> m_valid b' \<and> (\<exists>n. out' = out @ take n (data b)))"
proof (cases "m_valid b")
  case False
  then show ?thesis using p inv by (auto simp: put_data_def intro: exI[of _ 0])
next
  case v: True
  let ?add = "\<lambda>b. b\<lparr>m_buf := memcpy_to (m_buf b) (m_len b) buf (length buf), m_len := m_len b + length buf\<rparr>"
  have add: "buf_inv (?add c) \<and> data (?add c) = data c @ buf" if "buf_inv c" "length buf \<le> LeftSize c" for c
    using data_append[OF that] that by (auto simp: buf_inv_def data_def LeftSize_def)
  show ?thesis
  proof (cases "LeftSize b < length buf")
    case False
    then have "b' = ?add b" "r = 0" "out' = out" using p v by (auto simp: put_data_def)
    then show ?thesis using add[OF inv] False v by simp
  next
    case full: True
    obtain r1 evs1 out1 b1 where F: "(if m_len b \<noteq> 0 then FlushOut (evs, out) b else (0, (evs, out), b)) = (r1, (evs1, out1), b1)"
      by (metis prod_cases4 surj_pair)
    have b1: "buf_inv b1" "0 \<le> r1 \<Longrightarrow> out1 @ data b1 = out @ data b \<and> m_valid b1"
      "r1 < 0 \<Longrightarrow> \<not> m_valid b1" "\<exists>n. out1 = out @ take n (data b)"
    proof -
      have "buf_inv b1 \<and> (0 \<le> r1 \<longrightarrow> out1 @ data b1 = out @ data b \<and> m_valid b1) \<and> (r1 < 0 \<longrightarrow> \<not> m_valid b1) \<and>
        (\<exists>n. out1 = out @ take n (data b))"
      proof (cases "m_len b = 0")
        case True
        then show ?thesis using F inv v by (auto simp: data_def)
      next
        case False
        then have F': "FlushOut (evs, out) b = (r1, (evs1, out1), b1)" using F by simp
        note f = FlushOut_ok[OF inv F']
        obtain ra n where "SEND_loop evs out (data b) 0 = (ra, (evs1, out1))"
        proof -
          obtain ra e o1 where S: "SEND_loop evs out (data b) 0 = (ra, (e, o1))" by (metis prod_cases3)
          then have "(e, o1) = (evs1, out1)" using F' False
            by (auto simp: FlushOut_def SEND_buf_def data_def Let_def split: if_splits)
          then show thesis using S that by simp
        qed
        from SEND_loop_sent[OF this] have "\<exists>n. out1 = out @ take n (data b)" by blast
        then show ?thesis using f v by auto
      qed
      then show "buf_inv b1" "0 \<le> r1 \<Longrightarrow> out1 @ data b1 = out @ data b \<and> m_valid b1"
        "r1 < 0 \<Longrightarrow> \<not> m_valid b1" "\<exists>n. out1 = out @ take n (data b)" by blast+
    qed
    show ?thesis
    proof (cases "r1 < 0")
      case True
      then have "b' = b1" "r = -1" "out' = out1" using p v full F by (auto simp: put_data_def)
      then show ?thesis using b1 True by simp
    next
      case pos: False
      obtain ok b2 where G: "grow mem (length buf) b1 = (ok, b2)" by force
      note g = grow_ok[OF b1(1) G]
      show ?thesis
      proof (cases ok)
        case True
        then have "b' = ?add b2" "r = 0" "out' = out1" using p v full F pos G by (auto simp: put_data_def)
        moreover have "out1 @ data b1 = out @ data b" "m_valid b1" using b1(2) pos by auto
        moreover note add[of b2] g True
        ultimately show ?thesis by (simp flip: append_assoc)
      next
        case False
        then have "b' = b2" "r = -1" "out' = out1" using p v full F pos G by (auto simp: put_data_def)
        then show ?thesis using g False b1(4) by simp
      qed
    qed
  qed
qed

text \<open>The bytes the kernel still has to deliver.\<close>

fun pending :: "recv_event list \<Rightarrow> bytes" where
  "pending [] = []"
| "pending (Got bs # evs) = bs @ pending evs"
| "pending (_ # evs) = pending evs"

lemma RECV_loop_got:
  "RECV_loop evs len got = (r, closed, got', evs') \<Longrightarrow>
   got' @ pending evs' = got @ pending evs \<and> length got' \<le> length got + len \<and> (0 \<le> r \<longrightarrow> r = int (length got'))"
proof (induction evs len got rule: RECV_loop.induct)
  case (1 evs len got)
  show ?case
  proof (cases "len = 0")
    case True
    then show ?thesis using "1.prems" by (subst (asm) RECV_loop.simps) auto
  next
    case False
    show ?thesis
    proof (cases evs)
      case Nil
      then show ?thesis using "1.prems" False by (subst (asm) RECV_loop.simps) auto
    next
      case (Cons e evs2)
      show ?thesis
      proof (cases e)
        case (Got bs)
        consider "bs = []" | "bs \<noteq> []" "len < length bs" | "bs \<noteq> []" "\<not> len < length bs" by blast
        then show ?thesis
        proof cases
          case 3
          have "RECV_loop evs2 (len - length bs) (got @ bs) = (r, closed, got', evs')"
            using "1.prems" False Cons Got 3 by (subst (asm) RECV_loop.simps) simp
          from "1.IH"(1)[OF False Cons Got 3 this] 3 show ?thesis by (simp add: Cons Got)
        qed (use "1.prems" False Cons Got in \<open>subst (asm) RECV_loop.simps, force\<close>)+
      next
        case Recv_intr
        have "RECV_loop evs2 len got = (r, closed, got', evs')"
          using "1.prems" False Cons Recv_intr by (subst (asm) RECV_loop.simps) simp
        from "1.IH"(2)[OF False Cons Recv_intr this] show ?thesis by (simp add: Cons Recv_intr)
      qed (use "1.prems" False Cons in \<open>subst (asm) RECV_loop.simps, auto\<close>)+
    qed
  qed
qed

lemma FeedIn_ok:
  assumes inv: "buf_inv b" and f: "FeedIn mem sk limit b = (r, sk', b')"
  shows "buf_inv b' \<and> (m_valid b' \<longrightarrow> data b' @ pending sk' = data b @ pending sk) \<and>
    (0 \<le> r \<longrightarrow> r = int (m_len b') \<and> m_valid b') \<and> (\<not> m_valid b' \<longrightarrow> r = -1) \<and>
    (\<exists>got. data b' = data b @ got)"
proof (cases "m_valid b")
  case False
  then show ?thesis using f inv by (auto simp: FeedIn_def)
next
  case v: True
  obtain r0 b0 where R: "(if LeftSize b = 0 then realloc_buffer mem b else (0, b)) = (r0, b0)" by force
  have b0: "buf_inv b0" "data b0 = data b" "m_valid b0"
    using SetSize_ok[OF inv, of mem "m_size b + BUFIO_INC_SIZ" r0 b0] R inv v
    by (auto simp: realloc_buffer_def split: if_splits)
  show ?thesis
  proof (cases "r0 < 0")
    case True
    then have "b' = b0\<lparr>m_valid := False\<rparr>" "r = -1" using f v R by (auto simp: FeedIn_def)
    then show ?thesis using b0 by (auto simp: buf_inv_def data_def)
  next
    case r0: False
    let ?lim = "if limit = 0 \<or> LeftSize b0 < limit then LeftSize b0 else limit"
    obtain r1 closed got sk1 where L: "RECV_loop sk ?lim [] = (r1, closed, got, sk1)" by (metis prod_cases4)
    note g = RECV_loop_got[OF L]
    have lg: "length got \<le> LeftSize b0" using g by (auto split: if_splits)
    let ?b = "b0\<lparr>m_socket_remote_closed := m_socket_remote_closed b0 \<or> closed,
      m_buf := memcpy_to (m_buf b0) (m_len b0) got (length got)\<rparr>"
    note a = data_append[OF b0(1) lg]
    have keep: "take (m_len b0) (memcpy_to (m_buf b0) (m_len b0) got (length got)) = data b0"
      using b0(1) by (simp add: memcpy_to_def data_def buf_inv_def)
    show ?thesis
    proof (cases "r1 < 0")
      case True
      then have "b' = ?b\<lparr>m_valid := False\<rparr>" "r = -1" using f v R r0 L by (auto simp: FeedIn_def Let_def)
      then show ?thesis using a b0 keep by (auto simp: buf_inv_def data_def)
    next
      case False
      then have r1: "r1 = int (length got)" using g by simp
      then have b': "b' = ?b\<lparr>m_len := m_len b0 + length got\<rparr>" "sk' = sk1" "r = -1 \<or> r = int (m_len b0 + length got)"
        using f v R r0 L False by (auto simp: FeedIn_def Let_def split: if_splits)
      then have d: "data b' = data b @ got" "buf_inv b'" "m_valid b'"
        using a b0 lg by (auto simp: buf_inv_def data_def LeftSize_def)
      then have "data b' @ pending sk' = data b @ pending sk" using g b'(2) by simp
      then show ?thesis using d b'(1,3) by auto
    qed
  qed
qed

lemma PickUp_ok:
  assumes inv: "buf_inv b"
  shows "buf_inv (snd (PickUp n b)) \<and> m_valid (snd (PickUp n b)) = m_valid b \<and>
    (n \<le> m_len b \<longrightarrow> fst (PickUp n b) = 0 \<and> data (snd (PickUp n b)) = drop n (data b)) \<and>
    (m_len b < n \<longrightarrow> PickUp n b = (-1, b))"
proof (cases "n \<le> m_len b")
  case True
  then show ?thesis using data_shift[OF inv True] inv by (auto simp: PickUp_def data_def buf_inv_def)
qed (use inv in \<open>simp add: PickUp_def\<close>)

section \<open>Writing to the buffer as a byte sink\<close>

text \<open>What a writer relies on: a \<open>put\<close> that succeeds appends its bytes to the log.\<close>

locale byte_sink =
  fixes ok :: "'s \<Rightarrow> bool" and log :: "'s \<Rightarrow> bytes" and put :: "bytes \<Rightarrow> 's \<Rightarrow> int \<times> 's"
  assumes put_ok: "ok s \<Longrightarrow> ok (snd (put bs s))"
    and put_log: "ok s \<Longrightarrow> 0 \<le> fst (put bs s) \<Longrightarrow> log (snd (put bs s)) = log s @ bs"
begin

lemma put_two:
  assumes "ok s" "put xs s = (r, s')" "0 \<le> r" "put ys s' = (r', s'')" "0 \<le> r'"
  shows "ok s'' \<and> log s'' = log s @ xs @ ys"
  using put_ok[of s xs] put_log[of s xs] put_ok[of s' ys] put_log[of s' ys] assms by auto

end

text \<open>A sink with a second way to put that also flushes.\<close>

locale flush_sink = byte_sink +
  fixes putflush :: "bytes \<Rightarrow> 's \<Rightarrow> int \<times> 's"
  assumes flush_ok: "ok s \<Longrightarrow> ok (snd (putflush bs s))"
    and flush_log: "ok s \<Longrightarrow> 0 \<le> fst (putflush bs s) \<Longrightarrow> log (snd (putflush bs s)) = log s @ bs"
begin

lemma put_flush:
  assumes "ok s" "put xs s = (r, s')" "0 \<le> r" "putflush ys s' = (r', s'')" "0 \<le> r'"
  shows "ok s'' \<and> log s'' = log s @ xs @ ys"
  using put_ok[of s xs] put_log[of s xs] flush_ok[of s' ys] flush_log[of s' ys] assms by auto

end

text \<open>The log of an output buffer: the bytes sent, then the bytes waiting.\<close>

definition out_log :: "osock \<times> bufio \<Rightarrow> bytes" where
  "out_log s = snd (fst s) @ data (snd s)"

definition out_ok :: "osock \<times> bufio \<Rightarrow> bool" where
  "out_ok s \<longleftrightarrow> buf_inv (snd s)"

definition sink_put :: "(nat \<Rightarrow> bool) \<Rightarrow> bytes \<Rightarrow> osock \<times> bufio \<Rightarrow> int \<times> osock \<times> bufio" where
  "sink_put mem bs s = Put mem (fst s) bs (snd s)"

definition sink_putflush :: "(nat \<Rightarrow> bool) \<Rightarrow> bytes \<Rightarrow> osock \<times> bufio \<Rightarrow> int \<times> osock \<times> bufio" where
  "sink_putflush mem bs s = PutFlush mem (fst s) bs (snd s)"

lemma PutFlush_ok:
  assumes inv: "buf_inv b" and p: "PutFlush mem (evs, out) buf b = (r, (evs', out'), b')"
  shows "buf_inv b' \<and> (if 0 \<le> r then out' @ data b' = out @ data b @ buf \<and> r = int (m_len b')
       else \<not> m_valid b' \<and> (\<exists>n. out' = take n (out @ data b @ buf)))"
proof -
  obtain r1 evs1 out1 b1 where P: "put_data mem (evs, out) buf b = (r1, (evs1, out1), b1)"
    by (metis prod_cases4 surj_pair)
  note q = put_data_ok[OF inv P]
  show ?thesis
  proof (cases "r1 = 0")
    case True
    then have F: "FlushOut (evs1, out1) b1 = (r, (evs', out'), b')" using p P by (simp add: PutFlush_def)
    have l: "out1 @ data b1 = out @ data b @ buf" and i: "buf_inv b1" using q True by auto
    note f = FlushOut_ok[OF i F]
    have "\<exists>n. out' = take n (out1 @ data b1)" if "out' = out1 @ take m (data b1)" for m
      using that by (intro exI[of _ "length out1 + m"]) simp
    then show ?thesis using f l by auto
  next
    case False
    then have "r = r1" "out' = out1" "b' = b1" using p P q by (auto simp: PutFlush_def)
    moreover have "\<exists>n. out1 = take n (out @ data b @ buf)" if "out1 = out @ take m (data b)" for m
    proof (intro exI[of _ "length out + min m (length (data b))"])
      have "take m (data b) = take (min m (length (data b))) (data b)"
        by (cases "m \<le> length (data b)") (simp_all add: min_def)
      then show "out1 = take (length out + min m (length (data b))) (out @ data b @ buf)" using that by simp
    qed
    ultimately show ?thesis using q False by auto
  qed
qed

interpretation buf_sink: flush_sink out_ok out_log "sink_put mem" "sink_putflush mem" for mem
proof
  fix s :: "osock \<times> bufio" and bs
  assume ok: "out_ok s"
  obtain evs out b where s: "s = ((evs, out), b)" by (metis surj_pair)
  obtain r evs' out' b' where p: "put_data mem (evs, out) bs b = (r, (evs', out'), b')" by (metis prod_cases4 surj_pair)
  note P = put_data_ok[OF _ p]
  show "out_ok (snd (sink_put mem bs s))"
    using P ok by (auto simp: out_ok_def sink_put_def Put_def p s)
  show "0 \<le> fst (sink_put mem bs s) \<Longrightarrow> out_log (snd (sink_put mem bs s)) = out_log s @ bs"
    using P ok by (auto simp: out_ok_def out_log_def sink_put_def Put_def p s)
  obtain r2 evs2 out2 b2 where q: "PutFlush mem (evs, out) bs b = (r2, (evs2, out2), b2)" by (metis prod_cases4 surj_pair)
  note Q = PutFlush_ok[OF _ q]
  show "out_ok (snd (sink_putflush mem bs s))"
    using Q ok by (auto simp: out_ok_def sink_putflush_def q s)
  show "0 \<le> fst (sink_putflush mem bs s) \<Longrightarrow> out_log (snd (sink_putflush mem bs s)) = out_log s @ bs"
    using Q ok by (auto simp: out_ok_def out_log_def sink_putflush_def q s)
qed

text \<open>
  C25: Output is neither lost, duplicated nor reordered: the bytes written to the socket followed by
  those in the buffer are the log of everything put.  A \<^verbatim>\<open>Put\<close> or \<^verbatim>\<open>PutFlush\<close> that does not fail
  appends its bytes, a \<^verbatim>\<open>FlushOut\<close> changes nothing of the log and returns the number of bytes
  left, and after any failure what went out is a prefix of what should have, and the buffer refuses
  further use.  Partial writes, interrupts and blocking are all covered.
\<close>

theorem output_conserved:
  assumes inv: "buf_inv b"
  shows "(\<forall>r sk' b'. Put mem (evs, out) buf b = (r, sk', b') \<longrightarrow> buf_inv b' \<and>
      (if r = 0 then snd sk' @ data b' = out @ data b @ buf
       else r = -1 \<and> \<not> m_valid b' \<and> (\<exists>n. snd sk' = out @ take n (data b)))) \<and>
    (\<forall>r sk' b'. PutFlush mem (evs, out) buf b = (r, sk', b') \<longrightarrow> buf_inv b' \<and>
      (if 0 \<le> r then snd sk' @ data b' = out @ data b @ buf \<and> r = int (m_len b')
       else \<not> m_valid b' \<and> (\<exists>n. snd sk' = take n (out @ data b @ buf)))) \<and>
    (\<forall>r sk' b'. FlushOut (evs, out) b = (r, sk', b') \<longrightarrow> buf_inv b' \<and>
      (if 0 \<le> r then snd sk' @ data b' = out @ data b \<and> r = int (m_len b')
       else \<not> m_valid b' \<and> (\<exists>n. snd sk' = out @ take n (data b))))"
proof (intro conjI allI impI)
  fix r :: int and sk' :: osock and b' :: bufio
  obtain evs' out' where sk': "sk' = (evs', out')" by force
  { assume "Put mem (evs, out) buf b = (r, sk', b')"
    then have "put_data mem (evs, out) buf b = (r, (evs', out'), b')" by (simp add: Put_def sk')
    from put_data_ok[OF inv this] show "buf_inv b'"
      "if r = 0 then snd sk' @ data b' = out @ data b @ buf
       else r = -1 \<and> \<not> m_valid b' \<and> (\<exists>n. snd sk' = out @ take n (data b))" by (auto simp: sk') }
  { assume "FlushOut (evs, out) b = (r, sk', b')"
    then have F: "FlushOut (evs, out) b = (r, (evs', out'), b')" by (simp add: sk')
    from FlushOut_ok[OF inv F] show "buf_inv b'"
      "if 0 \<le> r then snd sk' @ data b' = out @ data b \<and> r = int (m_len b')
       else \<not> m_valid b' \<and> (\<exists>n. snd sk' = out @ take n (data b))" by (auto simp: sk') }
  { assume "PutFlush mem (evs, out) buf b = (r, sk', b')"
    then have "PutFlush mem (evs, out) buf b = (r, (evs', out'), b')" by (simp add: sk')
    from PutFlush_ok[OF inv this] show "buf_inv b'"
      "if 0 \<le> r then snd sk' @ data b' = out @ data b @ buf \<and> r = int (m_len b')
       else \<not> m_valid b' \<and> (\<exists>n. snd sk' = take n (out @ data b @ buf))" by (simp_all add: sk' del: take_append) }
qed

text \<open>
  A buffer with two bytes waiting and room for two more; the socket takes one byte, is interrupted,
  then takes the rest.
\<close>

definition ex_buf :: bufio where
  "ex_buf = \<lparr>m_buf = [1, 2, 0, 0], m_len = 2, m_size = 4, m_max = 8, m_valid = True, m_socket_remote_closed = False\<rparr>"

theorem output_conserved_witness:
  "\<exists>r sk' b'. PutFlush (\<lambda>_. True) ([Sent_bytes 1, Send_intr, Sent_bytes 9], [7]) [3] ex_buf = (r, sk', b') \<and>
     0 \<le> r \<and> snd sk' @ data b' = [7, 1, 2, 3]"
proof -
  let ?e = "[Sent_bytes 1, Send_intr, Sent_bytes 9]"
  have "buf_inv ex_buf" by (simp add: buf_inv_def ex_buf_def)
  note O = output_conserved[OF this, of "\<lambda>_. True" ?e "[7]" "[3]"]
  obtain r sk' b' where p: "PutFlush (\<lambda>_. True) (?e, [7]) [3] ex_buf = (r, sk', b')" by (metis prod_cases3)
  have "if 0 \<le> r then snd sk' @ data b' = [7] @ data ex_buf @ [3] \<and> r = int (m_len b')
       else \<not> m_valid b' \<and> (\<exists>n. snd sk' = take n ([7] @ data ex_buf @ [3]))"
    using O[THEN conjunct2, THEN conjunct1] p by blast
  moreover have "0 \<le> fst (PutFlush (\<lambda>_. True) (?e, [7]) [3] ex_buf)" by code_simp
  moreover have "data ex_buf = [1, 2]" by (simp add: data_def ex_buf_def)
  ultimately show ?thesis using p by simp
qed

text \<open>
  C33: Input is neither lost, duplicated nor reordered: the buffered bytes followed by those the
  kernel still holds stay the same whenever the buffer stays valid, also when the remote end has
  closed, and \<^verbatim>\<open>PickUp\<close> takes exactly the bytes asked for from the front, or nothing when there are
  not enough.
\<close>

theorem input_conserved:
  assumes inv: "buf_inv b"
  shows "(\<forall>r sk' b'. FeedIn mem sk limit b = (r, sk', b') \<longrightarrow> buf_inv b' \<and>
      (m_valid b' \<longrightarrow> data b' @ pending sk' = data b @ pending sk) \<and>
      (\<exists>got. data b' = data b @ got) \<and> (0 \<le> r \<longrightarrow> r = int (m_len b'))) \<and>
    (n \<le> m_len b \<longrightarrow> fst (PickUp n b) = 0 \<and> data (snd (PickUp n b)) = drop n (data b)) \<and>
    (m_len b < n \<longrightarrow> PickUp n b = (-1, b)) \<and> buf_inv (snd (PickUp n b))"
  using FeedIn_ok[OF inv] PickUp_ok[OF inv, of n] by blast

theorem input_conserved_witness:
  "\<exists>r sk' b'. FeedIn (\<lambda>_. True) [Got [5], Recv_intr, Got [6, 7]] 0 ex_buf = (r, sk', b') \<and>
     m_valid b' \<and> data b' @ pending sk' = [1, 2, 5, 6, 7]"
proof -
  let ?e = "[Got [5], Recv_intr, Got [6, 7]]"
  have "buf_inv ex_buf" by (simp add: buf_inv_def ex_buf_def)
  note I = input_conserved[OF this, of "\<lambda>_. True" ?e 0 0]
  obtain r sk' b' where p: "FeedIn (\<lambda>_. True) ?e 0 ex_buf = (r, sk', b')" by (metis prod_cases3)
  moreover have "m_valid (snd (snd (FeedIn (\<lambda>_. True) ?e 0 ex_buf)))" by code_simp
  moreover have "data ex_buf = [1, 2]" by (simp add: data_def ex_buf_def)
  ultimately show ?thesis using I by simp
qed

end
