(* ===== verification/Btstream.thy ===== *)
theory Btstream
  imports Bufio
begin

text \<open>
  The peer wire protocol, \<^verbatim>\<open>btStream\<close> of \<^verbatim>\<open>src/btstream.cpp\<close>: integers in network order, the
  messages sent, and the framing of the messages received.

  A stream holds its two buffers and the kernel's view of its socket.  The build has \<^verbatim>\<open>ntohl\<close> and
  \<^verbatim>\<open>htonl\<close>.  Sizes of type \<^verbatim>\<open>size_t\<close> that are subtracted are \<^typ>\<open>64 word\<close>.
\<close>

abbreviation BT_MSG_CHOKE :: u8 where "BT_MSG_CHOKE \<equiv> 0"
abbreviation BT_MSG_UNCHOKE :: u8 where "BT_MSG_UNCHOKE \<equiv> 1"
abbreviation BT_MSG_INTERESTED :: u8 where "BT_MSG_INTERESTED \<equiv> 2"
abbreviation BT_MSG_NOT_INTERESTED :: u8 where "BT_MSG_NOT_INTERESTED \<equiv> 3"
abbreviation BT_MSG_HAVE :: u8 where "BT_MSG_HAVE \<equiv> 4"
abbreviation BT_MSG_BITFIELD :: u8 where "BT_MSG_BITFIELD \<equiv> 5"
abbreviation BT_MSG_REQUEST :: u8 where "BT_MSG_REQUEST \<equiv> 6"
abbreviation BT_MSG_PIECE :: u8 where "BT_MSG_PIECE \<equiv> 7"
abbreviation BT_MSG_CANCEL :: u8 where "BT_MSG_CANCEL \<equiv> 8"

abbreviation BT_LEN_PRE :: nat where "BT_LEN_PRE \<equiv> 4"
abbreviation BT_MSGLEN_HAVE :: u32 where "BT_MSGLEN_HAVE \<equiv> 5"
abbreviation BT_MSGLEN_REQUEST :: u32 where "BT_MSGLEN_REQUEST \<equiv> 13"
abbreviation BT_MSGLEN_PIECE :: u32 where "BT_MSGLEN_PIECE \<equiv> 9"
abbreviation BT_MSGLEN_CANCEL :: u32 where "BT_MSGLEN_CANCEL \<equiv> 13"

definition get_bt_int :: "bytes \<Rightarrow> u32" where
  "get_bt_int from = fold (\<lambda>b t. push_bit 8 t OR ucast b) (take 4 from) 0"

definition put_bt_int :: "u32 \<Rightarrow> bytes" where
  "put_bt_int from = map (\<lambda>x. ucast (drop_bit x from AND 0xff)) [24, 16, 8, 0]"

record btstream =
  in_buffer :: bufio
  out_buffer :: bufio
  sk_in :: isock
  sk_out :: osock
  st_sock :: int
  st_sock_was :: int
  m_oldbytes :: u64
  m_msglen :: u32

definition btStream :: "(nat \<Rightarrow> bool) \<Rightarrow> isock \<Rightarrow> osock \<Rightarrow> btstream" where
  "btStream mem ski sko =
     (let b = MaxSize mem (131072 + BUFIO_DEF_SIZ + BUFIO_INC_SIZ) (BufIo mem)
      in \<lparr>in_buffer = b, out_buffer = b, sk_in = ski, sk_out = sko, st_sock = -1, st_sock_was = -1, m_oldbytes = 0, m_msglen = 0\<rparr>)"

text \<open>\<^verbatim>\<open>INVALID_SOCKET\<close> is -1.\<close>

definition st_Close :: "btstream \<Rightarrow> btstream" where
  "st_Close s =
     (if st_sock s \<noteq> -1 then s\<lparr>st_sock_was := st_sock s, st_sock := -1\<rparr> else s)
       \<lparr>in_buffer := buf_Close (in_buffer s), out_buffer := buf_Close (out_buffer s)\<rparr>"

definition GetSocket :: "btstream \<Rightarrow> int" where
  "GetSocket s = (if st_sock s = -1 then st_sock_was s else st_sock s)"

section \<open>Sending\<close>

definition out_put :: "(nat \<Rightarrow> bool) \<Rightarrow> bytes \<Rightarrow> btstream \<Rightarrow> int \<times> btstream" where
  "out_put mem bs s =
     (let (r, sk, b) = Put mem (sk_out s) bs (out_buffer s) in (r, s\<lparr>sk_out := sk, out_buffer := b\<rparr>))"

definition out_putflush :: "(nat \<Rightarrow> bool) \<Rightarrow> bytes \<Rightarrow> btstream \<Rightarrow> int \<times> btstream" where
  "out_putflush mem bs s =
     (let (r, sk, b) = PutFlush mem (sk_out s) bs (out_buffer s) in (r, s\<lparr>sk_out := sk, out_buffer := b\<rparr>))"

definition st_Flush :: "btstream \<Rightarrow> int \<times> btstream" where
  "st_Flush s = (let (r, sk, b) = FlushOut (sk_out s) (out_buffer s) in (r, s\<lparr>sk_out := sk, out_buffer := b\<rparr>))"

definition Send_State :: "(nat \<Rightarrow> bool) \<Rightarrow> u8 \<Rightarrow> btstream \<Rightarrow> int \<times> btstream" where
  "Send_State mem state s = out_put mem (put_bt_int 1 @ [state]) s"

definition Send_Have :: "(nat \<Rightarrow> bool) \<Rightarrow> u32 \<Rightarrow> btstream \<Rightarrow> int \<times> btstream" where
  "Send_Have mem idx s = out_put mem (put_bt_int BT_MSGLEN_HAVE @ [BT_MSG_HAVE] @ put_bt_int idx) s"

definition msglen_of :: "bufio \<Rightarrow> u32" where
  "msglen_of b = (if BT_LEN_PRE \<le> m_len b then get_bt_int (m_buf b) else 0)"

definition Send_Bitfield :: "(nat \<Rightarrow> bool) \<Rightarrow> bytes \<Rightarrow> btstream \<Rightarrow> int \<times> btstream" where
  "Send_Bitfield mem bit_buf s =
     (let s = s\<lparr>m_msglen := msglen_of (in_buffer s)\<rparr>
      in if bit_buf = [] then (0, s)
         else let (r, s) = out_put mem (put_bt_int (1 + of_nat (length bit_buf)) @ [BT_MSG_BITFIELD]) s
         in if r < 0 then (r, s) else out_put mem bit_buf s)"

definition Send_Request :: "(nat \<Rightarrow> bool) \<Rightarrow> u32 \<Rightarrow> u32 \<Rightarrow> u32 \<Rightarrow> btstream \<Rightarrow> int \<times> btstream" where
  "Send_Request mem idx off len s =
     out_put mem (put_bt_int BT_MSGLEN_REQUEST @ [BT_MSG_REQUEST] @ put_bt_int idx @ put_bt_int off @ put_bt_int len) s"

definition Send_Cancel :: "(nat \<Rightarrow> bool) \<Rightarrow> u32 \<Rightarrow> u32 \<Rightarrow> u32 \<Rightarrow> btstream \<Rightarrow> int \<times> btstream" where
  "Send_Cancel mem idx off len s =
     out_put mem (put_bt_int BT_MSGLEN_CANCEL @ [BT_MSG_CANCEL] @ put_bt_int idx @ put_bt_int off @ put_bt_int len) s"

definition Send_Piece :: "(nat \<Rightarrow> bool) \<Rightarrow> u32 \<Rightarrow> u32 \<Rightarrow> bytes \<Rightarrow> btstream \<Rightarrow> int \<times> btstream" where
  "Send_Piece mem idx off piece_buf s =
     (let (r, s) = out_put mem (put_bt_int (BT_MSGLEN_PIECE + of_nat (length piece_buf)) @ [BT_MSG_PIECE] @
                                put_bt_int idx @ put_bt_int off) s
      in if r < 0 then (r, s) else out_putflush mem piece_buf s)"

text \<open>
  \<^verbatim>\<open>Send_Keepalive\<close> puts four bytes from the address of an empty string literal: its terminator
  and \<open>after\<close>, the three bytes the linker placed behind it.
\<close>

definition Send_Keepalive :: "(nat \<Rightarrow> bool) \<Rightarrow> bytes \<Rightarrow> btstream \<Rightarrow> int \<times> btstream" where
  "Send_Keepalive mem after s = out_put mem (0 # take 3 after) s"

definition Send_Buffer :: "(nat \<Rightarrow> bool) \<Rightarrow> bytes \<Rightarrow> btstream \<Rightarrow> int \<times> btstream" where
  "Send_Buffer mem buf s = out_putflush mem buf s"

section \<open>Receiving\<close>

definition HaveMessage :: "btstream \<Rightarrow> int" where
  "HaveMessage s =
     (if BT_LEN_PRE \<le> m_len (in_buffer s) then
        (if m_msglen s > 131072 + 4 + BT_MSGLEN_PIECE then -1
         else if unat (m_msglen s + 4) \<le> m_len (in_buffer s) then 1 else 0)
      else 0)"

text \<open>
  \<^verbatim>\<open>Feed(limit, rate)\<close> also yields the number of bytes it adds to the rate, if it does; the byte
  at \<^verbatim>\<open>BT_LEN_PRE\<close> is only read when the buffer holds it.
\<close>

definition Feed :: "(nat \<Rightarrow> bool) \<Rightarrow> nat \<Rightarrow> btstream \<Rightarrow> int \<times> u32 option \<times> btstream" where
  "Feed mem limit s =
     (let calc_msglen = m_len (in_buffer s) < BT_LEN_PRE;
          (retval, sk, b) = FeedIn mem (sk_in s) limit (in_buffer s);
          s = s\<lparr>sk_in := sk, in_buffer := b, m_msglen := (if calc_msglen then msglen_of b else m_msglen s)\<rparr>
      in if m_msglen s > BT_MSGLEN_PIECE \<and> m_len b > BT_LEN_PRE + unat BT_MSGLEN_PIECE \<and>
            m_buf b ! BT_LEN_PRE = BT_MSG_PIECE then
           (if unat (m_msglen s + 4) \<le> m_len b then
              (retval, Some (ucast (ucast (m_msglen s - BT_MSGLEN_PIECE) - m_oldbytes s)), s\<lparr>m_oldbytes := 0\<rparr>)
            else
              (let nbytes = of_nat (m_len b) - 4 - ucast BT_MSGLEN_PIECE
               in (retval, Some (ucast (nbytes - m_oldbytes s)), s\<lparr>m_oldbytes := nbytes\<rparr>)))
         else (retval, None, s))"

definition PickMessage :: "btstream \<Rightarrow> int \<times> btstream" where
  "PickMessage s =
     (let (r, b) = PickUp (unat (m_msglen s + 4)) (in_buffer s)
      in (r, s\<lparr>in_buffer := b, m_msglen := msglen_of b\<rparr>))"

definition PeekMessage :: "btstream \<Rightarrow> u8 option" where
  "PeekMessage s =
     (if m_msglen s > 0 \<and> m_len (in_buffer s) > BT_LEN_PRE then Some (m_buf (in_buffer s) ! BT_LEN_PRE) else None)"

definition PeekMessage_is :: "u8 \<Rightarrow> btstream \<Rightarrow> bool" where
  "PeekMessage_is m s \<longleftrightarrow>
     m_msglen s > 0 \<and> m_len (in_buffer s) > BT_LEN_PRE \<and> m = m_buf (in_buffer s) ! BT_LEN_PRE"

text \<open>
  \<^verbatim>\<open>PeekNextMessage\<close> subtracts in \<^verbatim>\<open>size_t\<close>, so it looks behind the buffer when the message
  before is not complete; such a read is the result \<^term>\<open>None\<close>.
\<close>

definition PeekNextMessage :: "u8 \<Rightarrow> btstream \<Rightarrow> bool option" where
  "PeekNextMessage m s =
     (let base = BT_LEN_PRE + unat (m_msglen s); b = in_buffer s
      in if (4 :: u64) < of_nat (m_len b) - of_nat base then
           (if base + BT_LEN_PRE < m_size b then
              Some (m = m_buf b ! (base + BT_LEN_PRE) \<and> get_bt_int (drop base (m_buf b)) \<noteq> 0)
            else None)
         else Some False)"

section \<open>Integers in network order\<close>

lemma get_put_int [simp]: "get_bt_int (put_bt_int x @ rest) = x"
proof -
  have "get_bt_int (put_bt_int x @ rest) =
    push_bit 8 (push_bit 8 (push_bit 8 (ucast (ucast (drop_bit 24 x AND 0xff :: u32) :: u8) :: u32) OR
      ucast (ucast (drop_bit 16 x AND 0xff :: u32) :: u8)) OR ucast (ucast (drop_bit 8 x AND 0xff :: u32) :: u8)) OR
      ucast (ucast (drop_bit 0 x AND 0xff :: u32) :: u8)"
    by (simp add: get_bt_int_def put_bt_int_def)
  also have "\<dots> = x"
  proof (rule bit_word_eqI)
    fix n assume "n < LENGTH(32)"
    then have n: "n < 32" by simp
    have m: "(0xff :: u32) = mask 8" by (simp add: mask_eq_exp_minus_1)
    show "bit (push_bit 8 (push_bit 8 (push_bit 8 (ucast (ucast (drop_bit 24 x AND 0xff :: u32) :: u8) :: u32) OR
      ucast (ucast (drop_bit 16 x AND 0xff :: u32) :: u8)) OR ucast (ucast (drop_bit 8 x AND 0xff :: u32) :: u8)) OR
      ucast (ucast (drop_bit 0 x AND 0xff :: u32) :: u8)) n = bit x n"
      unfolding m using n
      by (cases "n < 8"; cases "n < 16"; cases "n < 24") (auto simp: bit_simps)
  qed
  finally show ?thesis .
qed

lemma length_put_bt_int [simp]: "length (put_bt_int x) = 4"
  by (simp add: put_bt_int_def)

lemma get_bt_int_take: "4 \<le> n \<Longrightarrow> get_bt_int (take n bs) = get_bt_int bs"
  by (simp add: get_bt_int_def)

lemma get_bt_int_cong: "take 4 xs = take 4 ys \<Longrightarrow> get_bt_int xs = get_bt_int ys"
  by (simp add: get_bt_int_def)

section \<open>Messages sent\<close>

definition st_log :: "btstream \<Rightarrow> bytes" where
  "st_log s = snd (sk_out s) @ data (out_buffer s)"

definition st_out_ok :: "btstream \<Rightarrow> bool" where
  "st_out_ok s \<longleftrightarrow> buf_inv (out_buffer s)"

interpretation st_sink: flush_sink st_out_ok st_log "out_put mem" "out_putflush mem" for mem
proof
  fix s bs
  assume ok: "st_out_ok s"
  define t where "t = (sk_out s, out_buffer s)"
  have t: "out_ok t" "out_log t = st_log s"
    using ok by (simp_all add: t_def out_ok_def st_out_ok_def out_log_def st_log_def)
  have p: "fst (out_put mem bs s) = fst (sink_put mem bs t)"
    "st_out_ok (snd (out_put mem bs s)) = out_ok (snd (sink_put mem bs t))"
    "st_log (snd (out_put mem bs s)) = out_log (snd (sink_put mem bs t))"
    by (simp_all add: out_put_def sink_put_def t_def st_out_ok_def out_ok_def st_log_def out_log_def split: prod.splits)
  have q: "fst (out_putflush mem bs s) = fst (sink_putflush mem bs t)"
    "st_out_ok (snd (out_putflush mem bs s)) = out_ok (snd (sink_putflush mem bs t))"
    "st_log (snd (out_putflush mem bs s)) = out_log (snd (sink_putflush mem bs t))"
    by (simp_all add: out_putflush_def sink_putflush_def t_def st_out_ok_def out_ok_def st_log_def out_log_def split: prod.splits)
  show "st_out_ok (snd (out_put mem bs s))" using buf_sink.put_ok[OF t(1)] p by simp
  show "0 \<le> fst (out_put mem bs s) \<Longrightarrow> st_log (snd (out_put mem bs s)) = st_log s @ bs"
    using buf_sink.put_log[OF t(1)] p t(2) by simp
  show "st_out_ok (snd (out_putflush mem bs s))" using buf_sink.flush_ok[OF t(1)] q by simp
  show "0 \<le> fst (out_putflush mem bs s) \<Longrightarrow> st_log (snd (out_putflush mem bs s)) = st_log s @ bs"
    using buf_sink.flush_log[OF t(1)] q t(2) by simp
qed

text \<open>A frame: the length prefix and the message.\<close>

definition frame :: "bytes \<Rightarrow> bytes" where
  "frame p = put_bt_int (of_nat (length p)) @ p"

text \<open>The fields \<^verbatim>\<open>MsgDeliver\<close> reads from a frame.\<close>

definition fr_index :: "bytes \<Rightarrow> u32" where "fr_index f = get_bt_int (drop 5 f)"
definition fr_offset :: "bytes \<Rightarrow> u32" where "fr_offset f = get_bt_int (drop 9 f)"
definition fr_length :: "bytes \<Rightarrow> u32" where "fr_length f = get_bt_int (drop 13 f)"

text \<open>\<open>sends f s m\<close>: when the call does not fail the log grows by the frame of \<open>m\<close>.\<close>

definition sends :: "(btstream \<Rightarrow> int \<times> btstream) \<Rightarrow> btstream \<Rightarrow> bytes \<Rightarrow> bool" where
  "sends f s m \<longleftrightarrow> st_out_ok (snd (f s)) \<and> (0 \<le> fst (f s) \<longrightarrow> st_log (snd (f s)) = st_log s @ frame m)"

lemma sends_put:
  assumes "st_out_ok s" "bs = frame m"
  shows "sends (out_put mem bs) s m"
  using st_sink.put_ok[OF assms(1)] st_sink.put_log[OF assms(1)] assms(2) by (simp add: sends_def)

lemma sends_Piece:
  assumes ok: "st_out_ok s"
  shows "sends (Send_Piece mem idx off b) s (BT_MSG_PIECE # put_bt_int idx @ put_bt_int off @ b)"
proof -
  let ?h = "put_bt_int (BT_MSGLEN_PIECE + of_nat (length b)) @ [BT_MSG_PIECE] @ put_bt_int idx @ put_bt_int off"
  obtain r s1 where p: "out_put mem ?h s = (r, s1)" by force
  obtain r2 s2 where q: "out_putflush mem b s1 = (r2, s2)" by force
  have "frame (BT_MSG_PIECE # put_bt_int idx @ put_bt_int off @ b) = ?h @ b"
    by (simp add: frame_def)
  moreover have "st_out_ok s1" using st_sink.put_ok[OF ok, of mem ?h] p by simp
  moreover from this have "st_out_ok s2" using st_sink.flush_ok[of s1 mem b] q by simp
  ultimately show ?thesis using st_sink.put_flush[OF ok p _ q] p q
    by (auto simp: sends_def Send_Piece_def simp flip: append_assoc)
qed

lemma sends_Bitfield:
  assumes ok: "st_out_ok s" and ne: "b \<noteq> []"
  shows "sends (Send_Bitfield mem b) s (BT_MSG_BITFIELD # b)"
proof -
  let ?h = "put_bt_int (1 + of_nat (length b)) @ [BT_MSG_BITFIELD]"
  let ?s = "s\<lparr>m_msglen := msglen_of (in_buffer s)\<rparr>"
  have ok': "st_out_ok ?s" "st_log ?s = st_log s" using ok by (simp_all add: st_out_ok_def st_log_def)
  obtain r s1 where p: "out_put mem ?h ?s = (r, s1)" by force
  obtain r2 s2 where q: "out_put mem b s1 = (r2, s2)" by force
  have "frame (BT_MSG_BITFIELD # b) = ?h @ b" by (simp add: frame_def)
  moreover have "st_out_ok s1" using st_sink.put_ok[OF ok'(1), of mem ?h] p by simp
  moreover from this have "st_out_ok s2" using st_sink.put_ok[of s1 mem b] q by simp
  ultimately show ?thesis using st_sink.put_two[OF ok'(1) p _ q] p q ne ok'(2)
    by (auto simp: sends_def Send_Bitfield_def Let_def simp flip: append_assoc)
qed

text \<open>
  C34: Every message the client sends is one well-formed frame appended to the stream of bytes sent:
  the length prefix is right, and the receiver's reads of message id, index, offset and length
  deliver what was sent.
\<close>

theorem messages_framed:
  assumes ok: "st_out_ok s"
  shows "sends (Send_State mem st) s [st] \<and>
    sends (Send_Have mem idx) s (BT_MSG_HAVE # put_bt_int idx) \<and>
    fr_index (frame (BT_MSG_HAVE # put_bt_int idx)) = idx \<and>
    (b \<noteq> [] \<longrightarrow> sends (Send_Bitfield mem b) s (BT_MSG_BITFIELD # b)) \<and>
    (\<forall>m \<in> {(Send_Request mem idx off len, BT_MSG_REQUEST), (Send_Cancel mem idx off len, BT_MSG_CANCEL)}.
       \<exists>p. sends (fst m) s p \<and> hd p = snd m \<and> length p = 13 \<and> fr_index (frame p) = idx \<and>
         fr_offset (frame p) = off \<and> fr_length (frame p) = len) \<and>
    (\<exists>p. sends (Send_Piece mem idx off b) s p \<and> hd p = BT_MSG_PIECE \<and> fr_index (frame p) = idx \<and>
         fr_offset (frame p) = off \<and> drop 13 (frame p) = b)"
proof -
  have fields: "fr_index (frame (k # put_bt_int idx @ x)) = idx"
    "fr_offset (frame (k # put_bt_int idx @ put_bt_int off @ x)) = off"
    "fr_length (frame (k # put_bt_int idx @ put_bt_int off @ put_bt_int len @ x)) = len"
    "drop 13 (frame (k # put_bt_int idx @ put_bt_int off @ x)) = x" for k x
    by (simp_all add: fr_index_def fr_offset_def fr_length_def frame_def)
  have st: "sends (Send_State mem st) s [st]" unfolding Send_State_def
    by (rule sends_put[OF ok]) (simp add: frame_def)
  have hv: "sends (Send_Have mem idx) s (BT_MSG_HAVE # put_bt_int idx)" unfolding Send_Have_def
    by (rule sends_put[OF ok]) (simp add: frame_def)
  have rq: "sends (Send_Request mem idx off len) s (BT_MSG_REQUEST # put_bt_int idx @ put_bt_int off @ put_bt_int len)"
    unfolding Send_Request_def by (rule sends_put[OF ok]) (simp add: frame_def)
  have cn: "sends (Send_Cancel mem idx off len) s (BT_MSG_CANCEL # put_bt_int idx @ put_bt_int off @ put_bt_int len)"
    unfolding Send_Cancel_def by (rule sends_put[OF ok]) (simp add: frame_def)
  have "\<exists>p. sends (Send_Request mem idx off len) s p \<and> hd p = BT_MSG_REQUEST \<and> length p = 13 \<and> fr_index (frame p) = idx \<and>
         fr_offset (frame p) = off \<and> fr_length (frame p) = len"
    using rq fields[of _ "[]"] fields(1)[of _ "put_bt_int off @ put_bt_int len"] fields(2)[of _ "put_bt_int len"]
    by (intro exI[of _ "BT_MSG_REQUEST # put_bt_int idx @ put_bt_int off @ put_bt_int len"]) simp
  moreover have "\<exists>p. sends (Send_Cancel mem idx off len) s p \<and> hd p = BT_MSG_CANCEL \<and> length p = 13 \<and> fr_index (frame p) = idx \<and>
         fr_offset (frame p) = off \<and> fr_length (frame p) = len"
    using cn fields[of _ "[]"] fields(1)[of _ "put_bt_int off @ put_bt_int len"] fields(2)[of _ "put_bt_int len"]
    by (intro exI[of _ "BT_MSG_CANCEL # put_bt_int idx @ put_bt_int off @ put_bt_int len"]) simp
  moreover have "\<exists>p. sends (Send_Piece mem idx off b) s p \<and> hd p = BT_MSG_PIECE \<and> fr_index (frame p) = idx \<and>
         fr_offset (frame p) = off \<and> drop 13 (frame p) = b"
    using sends_Piece[OF ok, of mem idx off b] fields(2,4) fields(1)[of _ "put_bt_int off @ b"]
    by (intro exI[of _ "BT_MSG_PIECE # put_bt_int idx @ put_bt_int off @ b"]) simp
  ultimately show ?thesis using st hv fields(1)[of _ "[]"] sends_Bitfield[OF ok, of b mem] by simp
qed

definition ex_stream :: btstream where
  "ex_stream = \<lparr>in_buffer = ex_buf\<lparr>m_len := 0\<rparr>, out_buffer = ex_buf\<lparr>m_len := 0\<rparr>, sk_in = [], sk_out = ([], []),
     st_sock = 7, st_sock_was = -1, m_oldbytes = 0, m_msglen = 0\<rparr>"

theorem messages_framed_witness:
  "sends (Send_Have (\<lambda>_. True) 258) ex_stream [4, 0, 0, 1, 2] \<and> st_out_ok ex_stream"
proof -
  have "st_out_ok ex_stream" by (simp add: st_out_ok_def ex_stream_def buf_inv_def ex_buf_def)
  moreover have "put_bt_int 258 = [0, 0, 1, 2]" by code_simp
  ultimately show ?thesis using messages_framed[of ex_stream "\<lambda>_. True" 0 258 "[]"] by simp
qed

section \<open>Messages received\<close>

text \<open>The complete messages at the front of the received bytes; an overlong one stops the stream.\<close>

function frames :: "bytes \<Rightarrow> bytes list" where
  "frames b =
     (if length b < 4 then []
      else let n = unat (get_bt_int b)
      in if 131085 < n \<or> length b < n + 4 then [] else take n (drop 4 b) # frames (drop (n + 4) b))"
  by pat_completeness auto
termination by (relation "measure length") auto

declare frames.simps [simp del]

definition stream_inv :: "btstream \<Rightarrow> bool" where
  "stream_inv s \<longleftrightarrow> buf_inv (in_buffer s) \<and> m_msglen s = msglen_of (in_buffer s)"

text \<open>Taking a message out, as the receive loop does: test, read, pick.\<close>

definition take_message :: "btstream \<Rightarrow> bytes option \<times> btstream" where
  "take_message s =
     (if HaveMessage s = 1 then
        (Some (take (unat (m_msglen s)) (drop BT_LEN_PRE (m_buf (in_buffer s)))), snd (PickMessage s))
      else (None, s))"

lemma msglen_data: "buf_inv b \<Longrightarrow> msglen_of b = (if 4 \<le> length (data b) then get_bt_int (data b) else 0)"
  by (simp add: msglen_of_def) (simp add: data_def get_bt_int_take)

lemma PickMessage_inv:
  assumes "stream_inv s"
  shows "stream_inv (snd (PickMessage s))" "data (in_buffer (snd (PickMessage s))) =
    (if unat (m_msglen s + 4) \<le> m_len (in_buffer s) then drop (unat (m_msglen s + 4)) (data (in_buffer s)) else data (in_buffer s))"
  using PickUp_ok[of "in_buffer s" "unat (m_msglen s + 4)"] assms
  by (auto simp: stream_inv_def PickMessage_def split: prod.splits)

lemma frames_Cons:
  assumes "frames b = p # ps"
  shows "4 \<le> length b" "unat (get_bt_int b) \<le> 131085" "unat (get_bt_int b) + 4 \<le> length b"
    "p = take (unat (get_bt_int b)) (drop 4 b)" "ps = frames (drop (unat (get_bt_int b) + 4) b)"
  using assms by (subst (asm) frames.simps, simp add: Let_def split: if_splits)+

lemma HaveMessage_iff:
  assumes inv: "stream_inv s"
  shows "HaveMessage s = 1 \<longleftrightarrow> frames (data (in_buffer s)) \<noteq> []"
proof -
  let ?b = "in_buffer s"
  have b: "buf_inv ?b" and m: "m_msglen s = msglen_of ?b" using inv by (simp_all add: stream_inv_def)
  show ?thesis
  proof (cases "4 \<le> m_len ?b")
    case True
    then have m': "m_msglen s = get_bt_int (data ?b)" using m msglen_data[OF b] b by simp
    have gt: "m_msglen s > 131072 + 4 + BT_MSGLEN_PIECE \<longleftrightarrow> 131085 < unat (m_msglen s)"
      by (simp add: u32_less_iff)
    have pl: "unat (m_msglen s) \<le> 131085 \<Longrightarrow> unat (m_msglen s + 4) = unat (m_msglen s) + 4"
      by (subst u32_add) simp_all
    show ?thesis using True b gt pl by (subst frames.simps) (auto simp: HaveMessage_def m' Let_def)
  next
    case False
    then show ?thesis using b by (subst frames.simps) (simp add: HaveMessage_def)
  qed
qed

interpretation message_cursor: cursor stream_inv "\<lambda>s. frames (data (in_buffer s))" take_message
proof
  fix s assume "stream_inv s" "frames (data (in_buffer s)) = []"
  then show "fst (take_message s) = None" using HaveMessage_iff by (simp add: take_message_def)
next
  fix s p ps
  assume inv: "stream_inv s" and f: "frames (data (in_buffer s)) = p # ps"
  let ?b = "in_buffer s"
  have b: "buf_inv ?b" and m: "m_msglen s = msglen_of ?b" using inv by (simp_all add: stream_inv_def)
  have h: "HaveMessage s = 1" using HaveMessage_iff[OF inv] f by simp
  note F = frames_Cons[OF f]
  have m': "m_msglen s = get_bt_int (data ?b)" using m msglen_data[OF b] F(1) by simp
  have n: "unat (m_msglen s + 4) = unat (m_msglen s) + 4"
    using F(2) by (subst u32_add) (simp_all add: m')
  have le: "unat (m_msglen s) + 4 \<le> m_len ?b" using F(3) b m' by simp
  have "take (unat (m_msglen s)) (drop 4 (m_buf ?b)) = p"
    using le F(4) by (simp add: m' data_def take_drop min_absorb1)
  then show "fst (take_message s) = Some p \<and> stream_inv (snd (take_message s)) \<and>
      frames (data (in_buffer (snd (take_message s)))) = ps"
    using h PickMessage_inv[OF inv] n le F(5) by (simp add: take_message_def m')
qed

lemma frames_append:
  assumes "length p \<le> 131085"
  shows "frames (frame p @ rest) = p # frames rest"
proof -
  have u: "unat (of_nat (length p) :: u32) = length p" using assms by (intro unat_of_nat_u32) simp
  have "drop (length p + 4) (put_bt_int (of_nat (length p)) @ p @ rest) = rest" by simp
  then show ?thesis using assms by (subst frames.simps) (simp add: frame_def u)
qed

lemma frames_partial: "length b < 4 \<or> length b < unat (get_bt_int b) + 4 \<Longrightarrow> frames b = []"
  by (subst frames.simps) (auto simp: Let_def)

lemma frames_all:
  "\<forall>p\<in>set ps. length p \<le> 131085 \<Longrightarrow> frames (concat (map frame ps) @ b) = ps @ frames b"
  by (induction ps) (simp_all add: frames_append)

lemma Feed_inv:
  assumes inv: "stream_inv s" and f: "Feed mem limit s = (r, c, s')"
  shows "stream_inv s' \<and> (m_valid (in_buffer s') \<longrightarrow>
    data (in_buffer s') @ pending (sk_in s') = data (in_buffer s) @ pending (sk_in s))"
proof -
  obtain r0 sk b where F: "FeedIn mem (sk_in s) limit (in_buffer s) = (r0, sk, b)" by (metis prod_cases3)
  have b: "buf_inv (in_buffer s)" and m: "m_msglen s = msglen_of (in_buffer s)" using inv by (simp_all add: stream_inv_def)
  note f' = FeedIn_ok[OF b F]
  have s': "in_buffer s' = b" "sk_in s' = sk"
    "m_msglen s' = (if m_len (in_buffer s) < 4 then msglen_of b else m_msglen s)"
    using f F by (auto simp: Feed_def Let_def split: if_splits)
  obtain got where g: "data b = data (in_buffer s) @ got" using f' by blast
  have "m_msglen s' = msglen_of b"
  proof (cases "m_len (in_buffer s) < 4")
    case False
    then have "4 \<le> length (data (in_buffer s))" using b by simp
    then have "get_bt_int (data b) = get_bt_int (data (in_buffer s))"
      unfolding g by (intro get_bt_int_cong) simp
    then show ?thesis using False m s'(3) msglen_data[OF b] msglen_data[of b] f' b g by simp
  qed (simp add: s')
  then show ?thesis using f' s' by (simp add: stream_inv_def)
qed



end
