(* ===== verification/Rate.thy ===== *)
theory Rate
  imports Prelude Complex_Main
begin

text \<open>
  Transfer statistics, \<^verbatim>\<open>Rate\<close> of \<^verbatim>\<open>src/rate.cpp\<close>: byte counters, the timer, and a history of
  samples from which the current rate is measured.

  Every peer has a rate for each direction, and its \<^verbatim>\<open>m_selfrate\<close> points to the client's own rate
  of that direction; an operation that follows this pointer takes and returns the other rate, a
  rate without one is called with \<^term>\<open>None\<close>.  Times in seconds are integers (\<^verbatim>\<open>time_t\<close>), the
  \<^verbatim>\<open>double\<close> values are exact rationals: rounding is not modelled, and where the code divides by a
  difference of time stamps that can be 0 the comparison is written as C++ evaluates it with an
  infinity.  The system calls that read the clock are arguments (\<open>now\<close> is the global of that name),
  as is \<open>mem\<close>, which says whether the \<open>n\<close>-th allocation of a call succeeds.
\<close>

section \<open>State\<close>

record sample =
  sm_timestamp :: rat
  sm_bytes :: u32

record rate =
  r_last_timestamp :: int
  r_total_timeused :: int
  r_count_bytes :: u64
  r_last_realtime :: rat
  r_recent_realtime :: rat
  r_prev_realtime :: rat
  r_last_size :: u32
  r_recent_size :: u32
  r_prev_size :: u32
  r_late :: rat
  r_nominal :: u32
  r_nom_time :: int
  lastrate_value :: u32
  lastrate_lasttime :: int
  lastrate_recent :: rat
  r_ontime :: bool
  r_update_nominal :: bool
  r_history :: "sample list"

abbreviation RATE_INTERVAL :: int where "RATE_INTERVAL \<equiv> 20"
abbreviation DEFAULT_SLICE_SIZE :: u32 where "DEFAULT_SLICE_SIZE \<equiv> 16384"

text \<open>Conversions: \<^verbatim>\<open>(time_t)x\<close> and \<^verbatim>\<open>(dt_rate_t)x\<close> truncate towards zero.\<close>

definition trunc :: "rat \<Rightarrow> int" where
  "trunc x = (if 0 \<le> x then \<lfloor>x\<rfloor> else \<lceil>x\<rceil>)"

definition u32_of_rat :: "rat \<Rightarrow> u32" where
  "u32_of_rat x = of_int (trunc x)"

definition rat_of_word :: "'a::len word \<Rightarrow> rat" where
  "rat_of_word w = of_int (uint w)"

definition Rate :: rate where
  "Rate = \<lparr>r_last_timestamp = 0, r_total_timeused = 0, r_count_bytes = 0, r_last_realtime = 0,
     r_recent_realtime = 0, r_prev_realtime = 0, r_last_size = 0, r_recent_size = 0, r_prev_size = 0,
     r_late = 0, r_nominal = DEFAULT_SLICE_SIZE div 8, r_nom_time = 0, lastrate_value = 0,
     lastrate_lasttime = 0, lastrate_recent = 0, r_ontime = False, r_update_nominal = False,
     r_history = []\<rparr>"

section \<open>Counters and the timer\<close>

definition ClearHistory :: "rate \<Rightarrow> rate" where
  "ClearHistory r = r\<lparr>r_history := []\<rparr>"

definition Reset :: "rate \<Rightarrow> rate" where
  "Reset r =
     (ClearHistory (r\<lparr>r_last_timestamp := 0, r_total_timeused := 0\<rparr>))\<lparr>r_last_realtime := 0, r_last_size := 0\<rparr>"

definition StartTimer :: "int \<Rightarrow> rate \<Rightarrow> rate" where
  "StartTimer now r = (if r_last_timestamp r = 0 then r\<lparr>r_last_timestamp := now\<rparr> else r)"

definition CountAdd :: "u32 \<Rightarrow> rate \<Rightarrow> rate option \<Rightarrow> rate \<times> rate option" where
  "CountAdd nbytes r self =
     (r\<lparr>r_count_bytes := r_count_bytes r + ucast nbytes\<rparr>,
      map_option (\<lambda>s. s\<lparr>r_count_bytes := r_count_bytes s + ucast nbytes\<rparr>) self)"

definition UnCount :: "u32 \<Rightarrow> rate \<Rightarrow> rate option \<Rightarrow> rate \<times> rate option" where
  "UnCount nbytes r self =
     (r\<lparr>r_count_bytes := r_count_bytes r - ucast nbytes\<rparr>,
      map_option (\<lambda>s. s\<lparr>r_count_bytes := r_count_bytes s - ucast nbytes\<rparr>) self)"

definition CopyRate :: "int \<Rightarrow> rate \<Rightarrow> rate \<Rightarrow> rate" where
  "CopyRate now ra r = r\<lparr>r_last_timestamp := now, r_count_bytes := r_count_bytes ra\<rparr>"

definition TimeUsed :: "int \<Rightarrow> rate \<Rightarrow> int \<times> rate" where
  "TimeUsed now r =
     (let r = (if now < r_last_timestamp r then r\<lparr>r_last_timestamp := now\<rparr> else r)
      in (now - r_last_timestamp r, r))"

definition NominalRate :: "int \<Rightarrow> rate \<Rightarrow> u32 \<times> rate" where
  "NominalRate now r =
     (let r = (if r_history r = [] \<and> r_last_timestamp r \<noteq> 0 then
                 (let (t, r) = TimeUsed now r
                  in if 10 < t \<and> (r_nom_time r = 0 \<or> r_nom_time r + 10 \<le> now)
                     then r\<lparr>r_nominal := r_nominal r div 10, r_nom_time := now\<rparr> else r)
               else r)
      in (r_nominal r, r))"

text \<open>\<open>precise\<close> is the result of \<^verbatim>\<open>PreciseTime()\<close>.\<close>

definition CurrentRate :: "rat \<Rightarrow> rate \<Rightarrow> u32" where
  "CurrentRate precise r =
     (if r_last_timestamp r = 0 \<or> r_history r = [] then 0
      else let timeused = precise - r_last_realtime r
           in if timeused \<le> 0 then 0 else u32_of_rat (rat_of_word (r_last_size r) / timeused))"

definition RateMeasure_to :: "int \<Rightarrow> rate \<Rightarrow> rate \<Rightarrow> u32 \<times> rate" where
  "RateMeasure_to now ra_to r =
     (let (timeused, r) = TimeUsed now r;
          tmp = sint (ucast (r_count_bytes ra_to - r_count_bytes r) :: u32)
      in (if 0 < tmp then of_int (tmp div (if timeused \<noteq> 0 then timeused else 1)) else 0, r))"

section \<open>The history\<close>

text \<open>
  \<^verbatim>\<open>Cleanup\<close> drops the samples older than \<^verbatim>\<open>RATE_INTERVAL\<close>.  Before the last old one goes, the
  seconds between it and the next sample get an empty sample each (\<open>fill_holes\<close> puts them in, in
  front of that sample), and its bytes are spread over the new samples.
\<close>

function fill_holes :: "(nat \<Rightarrow> bool) \<Rightarrow> nat \<Rightarrow> rat \<Rightarrow> sample list \<Rightarrow> nat \<Rightarrow> nat \<times> sample list \<times> nat" where
  "fill_holes mem n pt rest nzero =
     (case rest of
        [] \<Rightarrow> (n, rest, nzero)
      | q # _ \<Rightarrow>
         (if trunc pt + 1 < trunc (sm_timestamp q) then
            (if mem n then
               fill_holes mem (n + 1) pt (\<lparr>sm_timestamp = of_int (trunc (sm_timestamp q) - 1), sm_bytes = 0\<rparr> # rest) (nzero + 1)
             else (n + 1, rest, nzero))
          else (n, rest, nzero)))"
  by pat_completeness auto

lemma trunc_of_int [simp]: "trunc (of_int i) = i" "trunc (of_int i - 1) = i - 1"
  "trunc (of_int i - 19) = i - 19"
proof -
  show t: "trunc (of_int i) = i" for i by (simp add: trunc_def)
  from t[of "i - 1"] show "trunc (of_int i - 1) = i - 1" by simp
  from t[of "i - 19"] show "trunc (of_int i - 19) = i - 19" by simp
qed

termination fill_holes
  by (relation "measure (\<lambda>(mem, n, pt, rest, nzero). case rest of [] \<Rightarrow> 0 | q # _ \<Rightarrow> nat (trunc (sm_timestamp q) - trunc pt))")
    auto

declare fill_holes.simps [simp del]

text \<open>\<open>spread k b\<close> adds \<open>b\<close> to the first \<open>k\<close> samples.\<close>

fun spread :: "nat \<Rightarrow> u32 \<Rightarrow> sample list \<Rightarrow> sample list" where
  "spread 0 b qs = qs"
| "spread (Suc k) b [] = []"
| "spread (Suc k) b (q # qs) = q\<lparr>sm_bytes := sm_bytes q + b\<rparr> # spread k b qs"

definition Cleanup_step :: "(nat \<Rightarrow> bool) \<Rightarrow> int \<Rightarrow> nat \<Rightarrow> sample \<Rightarrow> sample list \<Rightarrow> nat \<times> sample list" where
  "Cleanup_step mem now n p rest =
     (if rest = [] \<and> \<not> mem n then
        (n + 1, [p\<lparr>sm_bytes := of_int (uint (sm_bytes p * 20) div (now - trunc (sm_timestamp p))),
                   sm_timestamp := of_int (now - RATE_INTERVAL + 1)\<rparr>])
      else
        (let (n, rest, nzero) =
           (if rest = [] then (n + 1, [\<lparr>sm_timestamp = of_int now - 1, sm_bytes = 0\<rparr>], 1) else (n, rest, 0));
             q = hd rest
         in if now - trunc (sm_timestamp q) < RATE_INTERVAL then
              (let reftime = (if 0 < nzero then now else trunc (sm_timestamp q));
                   (n, rest, nzero) = fill_holes mem n (sm_timestamp p) rest nzero;
                   bytes = u32_of_rat (rat_of_word (sm_bytes p) / (of_int reftime - sm_timestamp p))
               in (n, if 0 < nzero then spread nzero bytes rest else rest))
            else (n, rest)))"

function Cleanup_loop :: "(nat \<Rightarrow> bool) \<Rightarrow> int \<Rightarrow> nat \<Rightarrow> sample list \<Rightarrow> sample list" where
  "Cleanup_loop mem now n ps =
     (case ps of
        [] \<Rightarrow> []
      | p # rest \<Rightarrow>
         (if RATE_INTERVAL \<le> now - trunc (sm_timestamp p) then
            (let (n, ps) = Cleanup_step mem now n p rest in Cleanup_loop mem now n ps)
          else ps))"
  by pat_completeness auto

text \<open>
  The loop ends: \<open>gaps\<close> counts the samples and the seconds missing between neighbours (for the last
  one, the seconds up to now), and filling a gap never adds more samples than are missing.
\<close>

fun gaps :: "int \<Rightarrow> sample list \<Rightarrow> nat" where
  "gaps now [] = 0"
| "gaps now [p] = 1 + nat (now - trunc (sm_timestamp p))"
| "gaps now (p # q # ps) = 1 + nat (trunc (sm_timestamp q) - trunc (sm_timestamp p) - 1) + gaps now (q # ps)"

lemma gaps_fill_holes:
  "fill_holes mem n pt rest k = (n', rest', k') \<Longrightarrow> rest \<noteq> [] \<Longrightarrow>
   rest' \<noteq> [] \<and> k \<le> k' \<and> gaps now rest' \<le> gaps now rest + nat (trunc (sm_timestamp (hd rest)) - trunc pt - 1)"
proof (induction mem n pt rest k arbitrary: n' rest' k' rule: fill_holes.induct)
  case (1 mem n pt rest k)
  obtain q qs where r: "rest = q # qs" using "1.prems"(2) by (cases rest) auto
  show ?case
  proof (cases "trunc pt + 1 < trunc (sm_timestamp q) \<and> mem n")
    case True
    let ?q = "\<lparr>sm_timestamp = of_int (trunc (sm_timestamp q) - 1), sm_bytes = 0\<rparr>"
    have "fill_holes mem (n + 1) pt (?q # rest) (k + 1) = (n', rest', k')"
      using "1.prems"(1) True by (subst (asm) fill_holes.simps) (simp add: r)
    from "1.IH"[OF r, OF _ _ this] True show ?thesis by (auto simp: r)
  next
    case False
    have "fill_holes mem n pt rest k = (if trunc pt + 1 < trunc (sm_timestamp q) then (n + 1, rest, k) else (n, rest, k))"
      using False by (subst fill_holes.simps) (auto simp: r)
    then show ?thesis using "1.prems" by (auto split: if_splits)
  qed
qed

lemma gaps_spread [simp]: "gaps now (spread k b ps) = gaps now ps"
proof (induction k b ps rule: spread.induct)
  case (3 k b q qs)
  then show ?case by (cases k; cases qs) auto
qed auto

lemma gaps_Cleanup_step:
  assumes old: "RATE_INTERVAL \<le> now - trunc (sm_timestamp p)" and s: "Cleanup_step mem now n p rest = (n', ps')"
  shows "gaps now ps' < gaps now (p # rest)"
proof (cases "rest = [] \<and> \<not> mem n")
  case True
  then show ?thesis using s old by (auto simp: Cleanup_step_def)
next
  case False
  define q where "q = \<lparr>sm_timestamp = of_int now - 1, sm_bytes = 0\<rparr>"
  define r where "r = (if rest = [] then [q] else rest)"
  define k :: nat where "k = (if rest = [] then 1 else 0)"
  define m where "m = (if rest = [] then n + 1 else n)"
  have g: "gaps now r + nat (trunc (sm_timestamp (hd r)) - trunc (sm_timestamp p) - 1) < gaps now (p # rest)" "r \<noteq> []"
    using old by (cases rest; auto simp: r_def q_def)+
  obtain n2 r2 k2 where f: "fill_holes mem m (sm_timestamp p) r k = (n2, r2, k2)" by (metis prod_cases3)
  have "gaps now ps' = gaps now r2 \<or> gaps now ps' = gaps now r"
    using s False f unfolding Cleanup_step_def
    by (auto simp: r_def k_def m_def q_def Let_def split: if_splits)
  then show ?thesis using gaps_fill_holes[OF f g(2), of now] g(1) by linarith
qed

termination Cleanup_loop
  by (relation "measure (\<lambda>(mem, now, n, ps). gaps now ps)") (auto simp del: gaps.simps intro: gaps_Cleanup_step split: prod.split)

declare Cleanup_loop.simps [simp del]

definition Cleanup :: "(nat \<Rightarrow> bool) \<Rightarrow> int \<Rightarrow> rate \<Rightarrow> rate" where
  "Cleanup mem now r = r\<lparr>r_history := Cleanup_loop mem now 0 (r_history r)\<rparr>"


section \<open>Measuring\<close>

definition total_bytes :: "sample list \<Rightarrow> u32" where
  "total_bytes ps = sum_list (map sm_bytes ps)"

text \<open>
  \<^verbatim>\<open>RateMeasure\<close>.  The conversion of a quotient with divisor 0 to an integer is undefined in C++; it
  is 0 here, as on x86-64.
\<close>

definition RateMeasure :: "(nat \<Rightarrow> bool) \<Rightarrow> int \<Rightarrow> rate \<Rightarrow> u32 \<times> rate" where
  "RateMeasure mem now r =
     (if r_history r \<noteq> [] \<and> now = lastrate_lasttime r \<and> r_recent_realtime r = lastrate_recent r then
        (lastrate_value r, if r_update_nominal r then r\<lparr>r_nominal := lastrate_value r\<rparr> else r)
      else let r = r\<lparr>lastrate_lasttime := now\<rparr>
      in if r_last_timestamp r = 0 \<or> r_history r = [] then (0, r\<lparr>lastrate_value := 0\<rparr>)
      else
        (let r = Cleanup mem now r;
             countbytes = total_bytes (r_history r);
             timeused = of_int (now - trunc (sm_timestamp (hd (r_history r))));
             (timeused, r) =
               (if timeused = 0 then (1, r)
                else if timeused < 0 then (timeused, ClearHistory r)
                else (timeused, r\<lparr>r_update_nominal := True\<rparr>));
             r = (if now < trunc (r_recent_realtime r) then
                    (if r_history r \<noteq> [] then
                       r\<lparr>r_recent_realtime := of_int now, r_prev_realtime := of_int (now - 1), r_recent_size := 0, r_prev_size := 0\<rparr>
                     else r\<lparr>r_recent_realtime := 0, r_prev_realtime := 0, r_recent_size := 0, r_prev_size := 0\<rparr>)
                  else r)
         in if r_history r = [] then (0, r\<lparr>lastrate_value := 0\<rparr>)
         else
           (let recent = trunc (r_recent_realtime r);
                between = r_recent_realtime r - r_prev_realtime r;
                (countbytes, timeused) =
                  (if now = recent then
                     (countbytes - r_recent_size r, r_recent_realtime r - sm_timestamp (hd (r_history r)))
                   else if r_recent_realtime r \<noteq> 0 \<and> now - recent < RATE_INTERVAL \<and> between \<noteq> 0 \<and>
                           of_int (uint (r_recent_size r) div (now - recent)) > rat_of_word (r_prev_size r) / between then
                     (countbytes - r_recent_size r +
                        u32_of_rat (rat_of_word (r_prev_size r) / between * of_int (now - recent)), timeused)
                   else (countbytes, timeused));
                value = u32_of_rat (rat_of_word countbytes / timeused);
                r = r\<lparr>lastrate_value := value, lastrate_recent := r_recent_realtime r\<rparr>
            in (value, if r_update_nominal r then r\<lparr>r_nominal := value\<rparr> else r))))"

definition StopTimer :: "(nat \<Rightarrow> bool) \<Rightarrow> int \<Rightarrow> rate \<Rightarrow> rate" where
  "StopTimer mem now r =
     (let r = (if r_last_timestamp r \<noteq> 0 then
                 (let r = r\<lparr>r_total_timeused := r_total_timeused r + (now - r_last_timestamp r)\<rparr>;
                      r = (case r_history r of
                             [] \<Rightarrow> r
                           | [s] \<Rightarrow> r\<lparr>r_nominal := u32_of_rat (rat_of_word (sm_bytes s) / (sm_timestamp s - of_int (r_last_timestamp r)))\<rparr>
                           | _ \<Rightarrow> snd (RateMeasure mem now r))
                  in ClearHistory (r\<lparr>r_last_timestamp := 0\<rparr>))
               else r)
      in r\<lparr>r_update_nominal := False\<rparr>)"

section \<open>Adding a transfer\<close>

text \<open>\<^verbatim>\<open>size / seconds > limit\<close> in floating point: with no time passed the quotient is infinite.\<close>

definition exceeds :: "u32 \<Rightarrow> rat \<Rightarrow> u32 \<Rightarrow> bool" where
  "exceeds sz seconds bwlimit \<longleftrightarrow>
     (if seconds = 0 then 0 < sz else rat_of_word sz / seconds > rat_of_word bwlimit)"

text \<open>
  \<open>add_sample\<close> is the part of \<^verbatim>\<open>RateAdd\<close> that records the sample; it also says whether it was added to
  others.  \<open>ok\<close> says whether its allocation succeeds.
\<close>

definition add_sample :: "(nat \<Rightarrow> bool) \<Rightarrow> bool \<Rightarrow> int \<Rightarrow> u32 \<Rightarrow> rat \<Rightarrow> rate \<Rightarrow> bool \<times> rate" where
  "add_sample mem ok now nbytes timestamp r =
     (let r = (if r_history r \<noteq> [] \<and> timestamp < sm_timestamp (last (r_history r)) then ClearHistory r else Cleanup mem now r);
          r = (if timestamp \<le> r_last_realtime r then r\<lparr>r_ontime := False, r_last_size := 0, r_last_realtime := 0\<rparr> else r);
          h = r_history r
      in if h \<noteq> [] \<and> trunc timestamp = trunc (sm_timestamp (last h)) then
           (False, r\<lparr>r_history := butlast h @ [(last h)\<lparr>sm_bytes := sm_bytes (last h) + nbytes\<rparr>]\<rparr>)
         else if ok then (h \<noteq> [], r\<lparr>r_history := h @ [\<lparr>sm_timestamp = timestamp, sm_bytes = nbytes\<rparr>]\<rparr>)
         else (False, r))"

definition adjust_late :: "u32 \<Rightarrow> rat \<Rightarrow> rate \<Rightarrow> rate" where
  "adjust_late bwlimit timestamp r =
     (let late = timestamp - (r_last_realtime r + rat_of_word (r_last_size r) / rat_of_word bwlimit);
          late = (if late < 0 then late / 2 else if r_late r \<noteq> 0 \<and> late > r_late r then r_late r / 2 else late)
      in r\<lparr>r_late := r_late r + late, r_ontime := False\<rparr>)"

definition record_last :: "u32 \<Rightarrow> u32 \<Rightarrow> rat \<Rightarrow> rate \<Rightarrow> rate option \<Rightarrow> rate" where
  "record_last nbytes bwlimit timestamp r self =
     (let over = bwlimit \<noteq> 0 \<and> r_last_realtime r \<noteq> 0 \<and>
            (case self of
               Some s \<Rightarrow> exceeds (r_last_size s) (timestamp - r_last_realtime s) bwlimit
             | None \<Rightarrow> exceeds (r_last_size r) (timestamp - r_last_realtime r) bwlimit);
          r = (if over then r\<lparr>r_last_size := r_last_size r + nbytes\<rparr>
               else r\<lparr>r_last_realtime := timestamp, r_last_size := nbytes\<rparr>)
      in if nbytes > 256 then
           r\<lparr>r_prev_realtime := r_recent_realtime r, r_prev_size := r_recent_size r,
             r_recent_realtime := timestamp, r_recent_size := nbytes\<rparr>
         else r\<lparr>r_recent_size := r_recent_size r + nbytes\<rparr>)"

definition RateAdd_one :: "(nat \<Rightarrow> bool) \<Rightarrow> bool \<Rightarrow> int \<Rightarrow> u32 \<Rightarrow> u32 \<Rightarrow> rat \<Rightarrow> rate \<Rightarrow> rate option \<Rightarrow> rate" where
  "RateAdd_one mem ok now nbytes bwlimit timestamp r self =
     (let (update_nominal, r) = add_sample mem ok now nbytes timestamp r;
          r = (if self = None \<and> r_ontime r then adjust_late bwlimit timestamp r else r);
          r = record_last nbytes bwlimit timestamp r self
      in if self \<noteq> None \<and> update_nominal then snd (RateMeasure mem now (r\<lparr>r_update_nominal := True\<rparr>)) else r)"

definition RateAdd :: "(nat \<Rightarrow> bool) \<Rightarrow> bool \<Rightarrow> int \<Rightarrow> u32 \<Rightarrow> u32 \<Rightarrow> rat \<Rightarrow> rate \<Rightarrow> rate option \<Rightarrow> rate \<times> rate option" where
  "RateAdd mem ok now nbytes bwlimit timestamp r self =
     (RateAdd_one mem ok now nbytes bwlimit timestamp r self,
      map_option (\<lambda>s. RateAdd_one mem ok now nbytes bwlimit timestamp s None) self)"


section \<open>The history stays in its window\<close>

definition hist_ok :: "sample list \<Rightarrow> bool" where
  "hist_ok h \<longleftrightarrow> sorted_wrt (<) (map (\<lambda>s. trunc (sm_timestamp s)) h)"

definition recorded :: "sample list \<Rightarrow> nat" where
  "recorded h = sum_list (map (\<lambda>s. unat (sm_bytes s)) h)"

lemma hist_ok_simps [simp]:
  "hist_ok []" "hist_ok (p # ps) \<longleftrightarrow> (\<forall>q\<in>set ps. trunc (sm_timestamp p) < trunc (sm_timestamp q)) \<and> hist_ok ps"
  "hist_ok (xs @ ys) \<longleftrightarrow> hist_ok xs \<and> hist_ok ys \<and>
     (\<forall>p\<in>set xs. \<forall>q\<in>set ys. trunc (sm_timestamp p) < trunc (sm_timestamp q))"
  by (auto simp: hist_ok_def sorted_wrt_append)

lemma recorded_simps [simp]:
  "recorded [] = 0" "recorded (p # ps) = unat (sm_bytes p) + recorded ps" "recorded (xs @ ys) = recorded xs + recorded ys"
  by (simp_all add: recorded_def)

lemma trunc_less: "x < of_int (trunc x) + 1"
proof (cases "0 \<le> x")
  case False
  have "x < of_int \<lceil>x\<rceil> + 1" using le_of_int_ceiling[of x] by linarith
  then show ?thesis using False by (simp add: trunc_def)
qed (use floor_correct[of x] in \<open>simp add: trunc_def\<close>)

lemma trunc_mono: "x \<le> y \<Longrightarrow> trunc x \<le> trunc y"
proof -
  assume xy: "x \<le> y"
  consider "0 \<le> x" | "x < 0" "0 \<le> y" | "y < 0" by linarith
  then show ?thesis
  proof cases
    case 2
    then have "\<lceil>x\<rceil> \<le> 0" "0 \<le> \<lfloor>y\<rfloor>" by (simp_all add: ceiling_le_iff)
    then have "\<lceil>x\<rceil> \<le> \<lfloor>y\<rfloor>" by linarith
    then show ?thesis using 2 by (simp add: trunc_def)
  qed (use xy in \<open>auto simp: trunc_def floor_mono ceiling_mono\<close>)
qed

lemma unat_add_le: "unat (x + y :: 'a::len word) \<le> unat x + unat y"
  by (simp add: unat_word_ariths(1))

lemma fill_holes_shape:
  "fill_holes mem n pt rest k = (n', rest', k') \<Longrightarrow> hist_ok rest \<Longrightarrow>
   (\<forall>q\<in>set rest. trunc pt < trunc (sm_timestamp q)) \<Longrightarrow>
   hist_ok rest' \<and> (\<forall>q\<in>set rest'. trunc pt < trunc (sm_timestamp q)) \<and> recorded rest' = recorded rest \<and>
   (rest \<noteq> [] \<longrightarrow> rest' \<noteq> [] \<and> int k' \<le> int k + trunc (sm_timestamp (hd rest)) - trunc pt - 1)"
proof (induction mem n pt rest k arbitrary: n' rest' k' rule: fill_holes.induct)
  case (1 mem n pt rest k)
  show ?case
  proof (cases "rest \<noteq> [] \<and> trunc pt + 1 < trunc (sm_timestamp (hd rest)) \<and> mem n")
    case True
    then obtain q qs where r: "rest = q # qs" by (cases rest) auto
    let ?q = "\<lparr>sm_timestamp = of_int (trunc (sm_timestamp q) - 1), sm_bytes = 0\<rparr>"
    have "fill_holes mem (n + 1) pt (?q # rest) (k + 1) = (n', rest', k')"
      using "1.prems"(1) True by (subst (asm) fill_holes.simps) (simp add: r)
    note IH = "1.IH"[OF r, OF _ _ this]
    have "\<forall>x\<in>set qs. trunc (sm_timestamp q) - 1 < trunc (sm_timestamp x)" using "1.prems"(2) r by fastforce
    with IH True "1.prems"(2,3) show ?thesis by (simp add: r)
  next
    case False
    have "rest' = rest \<and> k' = k"
      using "1.prems"(1) False by (subst (asm) fill_holes.simps) (auto split: list.splits if_splits)
    then show ?thesis using "1.prems" by (cases rest) auto
  qed
qed

lemma spread_times: "map sm_timestamp (spread k b ps) = map sm_timestamp ps"
  by (induction k b ps rule: spread.induct) auto

lemma hist_ok_spread [simp]: "hist_ok (spread k b ps) = hist_ok ps"
proof -
  have "map (trunc \<circ> sm_timestamp) (spread k b ps) = map (trunc \<circ> sm_timestamp) ps"
    by (simp add: spread_times flip: map_map)
  then show ?thesis by (simp add: hist_ok_def comp_def)
qed

lemma recorded_spread: "recorded (spread k b ps) \<le> recorded ps + k * unat b"
proof (induction k b ps rule: spread.induct)
  case (3 k b q qs)
  then show ?case using unat_add_le[of "sm_bytes q" b] by simp
qed auto

lemma uint_of_int_u32: "0 \<le> i \<Longrightarrow> i < 4294967296 \<Longrightarrow> uint (of_int i :: u32) = i"
  by (simp add: uint_word_of_int)

lemma unat_u32_of_rat: "0 \<le> x \<Longrightarrow> \<lfloor>x\<rfloor> < 4294967296 \<Longrightarrow> int (unat (u32_of_rat x)) = \<lfloor>x\<rfloor>"
  by (simp add: u32_of_rat_def trunc_def uint_of_int_u32 flip: uint_nat)

text \<open>Spreading never gives out more bytes than the sample held.\<close>

lemma share_le:
  assumes k: "of_nat k \<le> d" "1 \<le> k"
  shows "k * unat (u32_of_rat (rat_of_word b / d)) \<le> unat (b :: u32)"
proof -
  define n where "n = unat b"
  let ?x = "of_nat n / d"
  have d: "1 \<le> d" using k by (metis le_trans of_nat_1 of_nat_le_iff order_trans)
  have b: "rat_of_word b = of_nat n" unfolding n_def by (simp only: rat_of_word_def uint_nat of_int_of_nat_eq)
  have x: "0 \<le> ?x" "?x \<le> of_nat n" using d by (simp_all add: divide_le_eq mult_le_cancel_left1)
  have "n < 4294967296" using unsigned_less[of b] by (simp add: n_def)
  then have "?x < 4294967296" using x(2) by (metis of_nat_less_iff of_nat_numeral le_less_trans)
  then have "\<lfloor>?x\<rfloor> < 4294967296" by (simp add: floor_less_iff)
  then have "int (unat (u32_of_rat ?x)) = \<lfloor>?x\<rfloor>" by (rule unat_u32_of_rat[OF x(1)])
  then have "(of_nat (unat (u32_of_rat ?x)) :: rat) \<le> ?x" by (metis of_int_floor_le of_int_of_nat_eq)
  then have "of_nat k * of_nat (unat (u32_of_rat ?x)) \<le> of_nat k * ?x" by (intro mult_left_mono) auto
  also have "\<dots> \<le> d * ?x" using k x by (intro mult_right_mono) auto
  also have "\<dots> = of_nat n" using d by simp
  finally have "k * unat (u32_of_rat ?x) \<le> n" by (metis of_nat_le_iff of_nat_mult)
  then show ?thesis by (simp only: b n_def)
qed

lemma Cleanup_step_ok:
  assumes old: "RATE_INTERVAL \<le> now - trunc (sm_timestamp p)" and s: "Cleanup_step mem now n p rest = (n', ps')"
    and h: "hist_ok (p # rest)"
  shows "hist_ok ps' \<and> ps' \<noteq> [] \<and> recorded ps' \<le> recorded (p # rest)"
proof (cases "rest = [] \<and> \<not> mem n")
  case True
  let ?d = "now - trunc (sm_timestamp p)" and ?b = "uint (sm_bytes p * 20)"
  have ge: "0 \<le> ?b div ?d" using old by (simp add: pos_imp_zdiv_nonneg_iff)
  have le: "?b div ?d \<le> uint (sm_bytes p)"
  proof -
    have "?b \<le> uint (sm_bytes p) * 20" by (simp add: uint_word_ariths(3) zmod_le_nonneg_dividend)
    also have "\<dots> \<le> uint (sm_bytes p) * ?d" using old by (intro mult_left_mono) auto
    finally have "?b div ?d \<le> uint (sm_bytes p) * ?d div ?d" using old by (intro zdiv_mono1) auto
    then show ?thesis using old by simp
  qed
  then have "?b div ?d < 4294967296" using uint_lt2p[of "sm_bytes p"] by simp
  then have "uint (of_int (?b div ?d) :: u32) = ?b div ?d" using ge by (intro uint_of_int_u32)
  then have "unat (of_int (?b div ?d) :: u32) \<le> unat (sm_bytes p)" using le by (metis uint_nat of_nat_le_iff)
  then show ?thesis using s True by (auto simp: Cleanup_step_def)
next
  case False
  define q where "q = \<lparr>sm_timestamp = of_int now - 1, sm_bytes = 0 :: u32\<rparr>"
  define r where "r = (if rest = [] then [q] else rest)"
  define k :: nat where "k = (if rest = [] then 1 else 0)"
  define m where "m = (if rest = [] then n + 1 else n)"
  have r: "hist_ok r" "r \<noteq> []" "\<forall>x\<in>set r. trunc (sm_timestamp p) < trunc (sm_timestamp x)" "recorded r \<le> recorded rest"
    using old h by (auto simp: r_def q_def)
  obtain n2 r2 k2 where f: "fill_holes mem m (sm_timestamp p) r k = (n2, r2, k2)" by (metis prod_cases3)
  note F = fill_holes_shape[OF f r(1,3)]
  define reft where "reft = (if rest = [] then now else trunc (sm_timestamp (hd r)))"
  let ?b = "u32_of_rat (rat_of_word (sm_bytes p) / (of_int reft - sm_timestamp p))"
  have ps: "ps' = (if now - trunc (sm_timestamp (hd r)) < RATE_INTERVAL
      then (if 0 < k2 then spread k2 ?b r2 else r2) else r)"
    using s False f unfolding Cleanup_step_def
    by (auto simp: r_def k_def m_def q_def reft_def Let_def split: if_splits)
  have "int k2 \<le> reft - trunc (sm_timestamp p) - 1"
    using F r(2) by (auto simp: reft_def k_def r_def q_def split: if_splits)
  moreover have "of_int reft - sm_timestamp p > of_int (reft - trunc (sm_timestamp p) - 1)"
    using trunc_less[of "sm_timestamp p"] by simp
  ultimately have "of_nat k2 \<le> of_int reft - sm_timestamp p"
    by (metis less_le_trans less_imp_le of_int_le_iff of_int_of_nat_eq order_trans)
  then have "0 < k2 \<Longrightarrow> k2 * unat ?b \<le> unat (sm_bytes p)" by (intro share_le) auto
  then have "0 < k2 \<Longrightarrow> recorded (spread k2 ?b r2) \<le> recorded (p # rest)"
    using recorded_spread[of k2 ?b r2] F r(4) by simp
  moreover have "spread k2 ?b r2 \<noteq> []" using F r(2) spread_times[of k2 ?b r2] by (metis Nil_is_map_conv)
  ultimately show ?thesis using ps F r by auto
qed

lemma Cleanup_loop_ok:
  "hist_ok ps \<Longrightarrow> hist_ok (Cleanup_loop mem now n ps) \<and> (ps \<noteq> [] \<longrightarrow> Cleanup_loop mem now n ps \<noteq> []) \<and>
   recorded (Cleanup_loop mem now n ps) \<le> recorded ps \<and>
   (\<forall>s\<in>set (Cleanup_loop mem now n ps). now - trunc (sm_timestamp s) < RATE_INTERVAL)"
proof (induction mem now n ps rule: Cleanup_loop.induct)
  case (1 mem now n ps)
  show ?case
  proof (cases ps)
    case Nil
    then show ?thesis by (simp add: Cleanup_loop.simps)
  next
    case (Cons p rest)
    show ?thesis
    proof (cases "RATE_INTERVAL \<le> now - trunc (sm_timestamp p)")
      case True
      obtain n' ps' where st: "Cleanup_step mem now n p rest = (n', ps')" by fastforce
      note S = Cleanup_step_ok[OF True st]
      have "Cleanup_loop mem now n ps = Cleanup_loop mem now n' ps'"
        using Cons True st by (subst Cleanup_loop.simps) simp
      then show ?thesis using "1.IH"[OF Cons True st[symmetric] refl] S "1.prems" Cons by auto
    next
      case False
      then have "Cleanup_loop mem now n ps = ps" using Cons by (subst Cleanup_loop.simps) simp
      then show ?thesis using "1.prems" Cons False by fastforce
    qed
  qed
qed

abbreviation upto :: "int \<Rightarrow> sample list \<Rightarrow> bool" where
  "upto T h \<equiv> \<forall>s\<in>set h. trunc (sm_timestamp s) \<le> T"

lemma fill_holes_upto:
  "fill_holes mem n pt rest k = (n', rest', k') \<Longrightarrow> upto T rest \<Longrightarrow> upto T rest'"
proof (induction mem n pt rest k arbitrary: n' rest' k' rule: fill_holes.induct)
  case (1 mem n pt rest k)
  show ?case
  proof (cases rest)
    case Nil
    then show ?thesis using "1.prems" by (simp add: fill_holes.simps)
  next
    case (Cons q qs)
    show ?thesis
    proof (cases "trunc pt + 1 < trunc (sm_timestamp q) \<and> mem n")
      case True
      then have "fill_holes mem (n + 1) pt (\<lparr>sm_timestamp = of_int (trunc (sm_timestamp q) - 1), sm_bytes = 0\<rparr> # rest) (k + 1)
          = (n', rest', k')"
        using "1.prems"(1) Cons by (subst (asm) fill_holes.simps) simp
      then show ?thesis using "1.IH"[OF Cons] True "1.prems"(2) Cons by force
    next
      case False
      then have "rest' = rest"
        using "1.prems"(1) Cons by (subst (asm) fill_holes.simps) (auto split: if_splits)
      then show ?thesis using "1.prems"(2) by simp
    qed
  qed
qed

lemma spread_upto: "upto T (spread k b ps) \<longleftrightarrow> upto T ps"
proof -
  have "upto T xs \<longleftrightarrow> (\<forall>t\<in>set (map sm_timestamp xs). trunc t \<le> T)" for xs by auto
  then show ?thesis by (simp only: spread_times)
qed

lemma Cleanup_step_upto:
  assumes s: "Cleanup_step mem now n p rest = (n', ps')" and u: "upto T rest" "now - 1 \<le> T"
  shows "upto T ps'"
proof (cases "rest = [] \<and> \<not> mem n")
  case True
  then show ?thesis using s u by (auto simp: Cleanup_step_def)
next
  case False
  define r where "r = (if rest = [] then [\<lparr>sm_timestamp = of_int now - 1, sm_bytes = 0\<rparr>] else rest)"
  have r: "upto T r" using u by (simp add: r_def)
  have "ps' = r \<or> (\<exists>m k n2 r2 k2 b. fill_holes mem m (sm_timestamp p) r k = (n2, r2, k2) \<and> (ps' = r2 \<or> ps' = spread k2 b r2))"
    using s False unfolding Cleanup_step_def r_def
    by (auto simp: Let_def split: if_splits prod.splits) metis+
  then show ?thesis using fill_holes_upto[OF _ r] r spread_upto by metis
qed

lemma Cleanup_loop_upto:
  "upto T ps \<Longrightarrow> now - 1 \<le> T \<Longrightarrow> upto T (Cleanup_loop mem now n ps)"
proof (induction mem now n ps rule: Cleanup_loop.induct)
  case (1 mem now n ps)
  show ?case
  proof (cases ps)
    case Nil
    then show ?thesis by (simp add: Cleanup_loop.simps)
  next
    case (Cons p rest)
    obtain n' ps' where st: "Cleanup_step mem now n p rest = (n', ps')" by fastforce
    show ?thesis
      using "1.IH"[OF Cons _ st[symmetric] refl] Cleanup_step_upto[OF st, of T] "1.prems" Cons st
      by (subst Cleanup_loop.simps) auto
  qed
qed

lemma RateMeasure_history:
  "r_history (snd (RateMeasure mem now r)) \<in> {r_history r, [], Cleanup_loop mem now 0 (r_history r)}"
  by (auto simp: RateMeasure_def Let_def ClearHistory_def Cleanup_def split: prod.splits)

lemma adjust_record_history [simp]:
  "r_history (adjust_late bw ts r) = r_history r" "r_history (record_last nb bw ts r self) = r_history r"
  by (simp_all add: adjust_late_def record_last_def Let_def)

definition in_window :: "int \<Rightarrow> sample list \<Rightarrow> bool" where
  "in_window now h \<longleftrightarrow> (\<forall>s\<in>set h. now - trunc (sm_timestamp s) < RATE_INTERVAL)"

lemma hist_ok_upto_last: "hist_ok h \<Longrightarrow> h \<noteq> [] \<Longrightarrow> trunc (sm_timestamp (last h)) \<le> T \<Longrightarrow> upto T h"
  by (induction h rule: rev_induct) fastforce+

lemma add_sample_ok:
  assumes h: "hist_ok (r_history r)" and t: "now \<le> trunc timestamp"
    and a: "add_sample mem ok now nbytes timestamp r = (u, r')"
  shows "hist_ok (r_history r') \<and> in_window now (r_history r') \<and>
    recorded (r_history r') \<le> recorded (r_history r) + unat nbytes"
proof -
  define h1 where "h1 = (if r_history r \<noteq> [] \<and> timestamp < sm_timestamp (last (r_history r)) then []
    else Cleanup_loop mem now 0 (r_history r))"
  have C: "upto (trunc timestamp) (Cleanup_loop mem now 0 (r_history r))"
    if l: "r_history r = [] \<or> sm_timestamp (last (r_history r)) \<le> timestamp"
  proof -
    have "upto (trunc timestamp) (r_history r)" using l hist_ok_upto_last[OF h _ trunc_mono] by (cases "r_history r = []") simp_all
    then show ?thesis using t by (intro Cleanup_loop_upto) auto
  qed
  then have u: "upto (trunc timestamp) h1" by (simp add: h1_def not_less)
  have h1: "hist_ok h1" "in_window now h1" "recorded h1 \<le> recorded (r_history r)"
    using Cleanup_loop_ok[OF h, of mem now 0] by (auto simp: h1_def in_window_def)
  have r': "r_history r' =
     (if h1 \<noteq> [] \<and> trunc timestamp = trunc (sm_timestamp (last h1)) then
        butlast h1 @ [(last h1)\<lparr>sm_bytes := sm_bytes (last h1) + nbytes\<rparr>]
      else if ok then h1 @ [\<lparr>sm_timestamp = timestamp, sm_bytes = nbytes\<rparr>] else h1)"
    using a by (auto simp: add_sample_def h1_def Let_def ClearHistory_def Cleanup_def split: if_splits)
  show ?thesis
  proof (cases "h1 \<noteq> [] \<and> trunc timestamp = trunc (sm_timestamp (last h1))")
    case True
    define b l where "b = butlast h1" and "l = last h1"
    have e: "h1 = b @ [l]" using True by (simp add: b_def l_def)
    then show ?thesis using h1 r' True unat_add_le[of "sm_bytes l" nbytes] by (auto simp: in_window_def)
  next
    case False
    have "trunc (sm_timestamp s) < trunc timestamp" if "s \<in> set h1" for s
    proof (rule ccontr)
      assume "\<not> ?thesis"
      then have eq: "trunc (sm_timestamp s) = trunc timestamp" using u that by fastforce
      have "trunc (sm_timestamp s) \<le> trunc (sm_timestamp (last h1))"
        using h1(1) that by (induction h1 rule: rev_induct) fastforce+
      moreover have "trunc (sm_timestamp (last h1)) \<le> trunc timestamp" using u that by (metis last_in_set empty_iff list.set(1))
      ultimately show False using eq False that by auto
    qed
    then show ?thesis using h1 r' False t by (auto simp: in_window_def)
  qed
qed

text \<open>
  C39: The history of a rate keeps at most one sample per second, in order, and after a transfer is
  added only samples of the last 20 seconds; dropping old samples, spreading them over the seconds
  without data, and measuring the rate never invent bytes; the loops end.
\<close>

theorem rate_history_window:
  assumes h: "hist_ok (r_history r)" and t: "now \<le> trunc timestamp"
  shows "(let r' = RateAdd_one mem ok now nbytes bwlimit timestamp r self
      in hist_ok (r_history r') \<and> in_window now (r_history r') \<and>
         recorded (r_history r') \<le> recorded (r_history r) + unat nbytes) \<and>
    (let r' = snd (RateMeasure mem now r)
      in hist_ok (r_history r') \<and> recorded (r_history r') \<le> recorded (r_history r)) \<and>
    hist_ok (r_history (Cleanup mem now r)) \<and> in_window now (r_history (Cleanup mem now r)) \<and>
    r_history (StopTimer mem now r) = (if r_last_timestamp r = 0 then r_history r else [])"
proof -
  have M: "hist_ok (r_history (snd (RateMeasure mem now x))) \<and>
      recorded (r_history (snd (RateMeasure mem now x))) \<le> recorded (r_history x) \<and>
      (in_window now (r_history x) \<longrightarrow> in_window now (r_history (snd (RateMeasure mem now x))))"
    if "hist_ok (r_history x)" for x
    using RateMeasure_history[of mem now x] Cleanup_loop_ok[OF that, of mem now 0] that
    by (auto simp: in_window_def)
  obtain u r1 where a: "add_sample mem ok now nbytes timestamp r = (u, r1)" by fastforce
  note A = add_sample_ok[OF h t a]
  define r2 where "r2 = record_last nbytes bwlimit timestamp
    (if self = None \<and> r_ontime r1 then adjust_late bwlimit timestamp r1 else r1) self"
  have r2: "r_history r2 = r_history r1" "r_history (r2\<lparr>r_update_nominal := True\<rparr>) = r_history r1"
    by (simp_all add: r2_def)
  have "RateAdd_one mem ok now nbytes bwlimit timestamp r self =
      (if self \<noteq> None \<and> u then snd (RateMeasure mem now (r2\<lparr>r_update_nominal := True\<rparr>)) else r2)"
    by (simp add: RateAdd_one_def a r2_def Let_def)
  then show ?thesis
    using A M[of "r2\<lparr>r_update_nominal := True\<rparr>"] M[OF h] r2 Cleanup_loop_ok[OF h, of mem now 0]
    by (auto simp: Let_def Cleanup_def in_window_def StopTimer_def ClearHistory_def split: list.splits)
qed

definition ex_rate :: rate where
  "ex_rate = Rate\<lparr>r_last_timestamp := 100, r_history :=
     [\<lparr>sm_timestamp = 101, sm_bytes = 500\<rparr>, \<lparr>sm_timestamp = 120 + 1/2, sm_bytes = 300\<rparr>]\<rparr>"

theorem rate_history_window_witness:
  "recorded (r_history (RateAdd_one (\<lambda>_. True) True 125 1000 0 (125 + 1/4) ex_rate None)) \<le> 1800 \<and>
   in_window 125 (r_history (RateAdd_one (\<lambda>_. True) True 125 1000 0 (125 + 1/4) ex_rate None))"
proof -
  have "hist_ok (r_history ex_rate)" "(125 :: int) \<le> trunc (125 + 1/4)" "recorded (r_history ex_rate) = 800" by code_simp+
  from rate_history_window[OF this(1,2), of "\<lambda>_. True" True 1000 0 None] this(3) show ?thesis
    by (simp add: Let_def)
qed

end
