(* ===== verification/Files.thy ===== *)
theory Files
  imports Bitfield
begin

text \<open>
  The files of the torrent, \<^verbatim>\<open>btFiles\<close> of \<^verbatim>\<open>src/btfiles.cpp\<close>: the list of files from \<^verbatim>\<open>m_btfhead\<close> along
  \<^verbatim>\<open>bf_next\<close>, with the staging files (pieces of a file that is still shorter than their offset) behind
  the file they belong to.  \<^verbatim>\<open>bf_nextreal\<close> is the next file that is no staging file.
\<close>

text \<open>
  \<^verbatim>\<open>BTFILE\<close>.  \<open>bf_id\<close> is its address and \<open>bf_data\<close> what the file on disk holds: the paths of two nodes are
  taken to be different.  The name of a staging file consists of the directory it is in and its offset;
  \<open>bf_dir\<close> is the offset the directory is named after, if there is a directory.
\<close>

record btfile =
  bf_id :: nat
  bf_length :: u64
  bf_offset :: u64
  bf_size :: u64
  bf_last_timestamp :: int
  bf_opened :: bool
  bf_readonly :: bool
  bf_staging :: bool
  bf_dir :: "u64 option"
  bf_data :: bytes

definition bf_nextreal :: "btfile list \<Rightarrow> btfile list" where
  "bf_nextreal fs = dropWhile bf_staging (tl fs)"

section \<open>Choosing a piece that closes a gap between staged data\<close>

text \<open>
  The loop over the pieces of a gap: indices are 32 bits wide, offsets 64.  The result has the pieces
  of \<^verbatim>\<open>choices\<close> added, and says whether there were any.
\<close>

partial_function (option) mark_gap ::
  "u32 \<Rightarrow> u32 \<Rightarrow> bitfield \<Rightarrow> u64 \<Rightarrow> u32 \<Rightarrow> bitfield \<Rightarrow> bool \<Rightarrow> (bitfield \<times> bool) option" where
  "mark_gap n plen choices limit idx acc found =
     (if ucast idx * ucast plen < limit then
        (if IsSet n choices idx then mark_gap n plen choices limit (idx + 1) (Set n idx acc) True
         else mark_gap n plen choices limit (idx + 1) acc found)
      else Some (acc, found))"

declare mark_gap.simps [code]

text \<open>The gaps behind the first one of a file, until one has a piece to choose.\<close>

fun later_gaps :: "u32 \<Rightarrow> u32 \<Rightarrow> bitfield \<Rightarrow> btfile list \<Rightarrow> bitfield \<Rightarrow> bitfield option" where
  "later_gaps n plen choices (f # g # fs) acc =
     (if bf_staging g then
        (case mark_gap n plen choices (bf_offset g) (ucast ((bf_offset f + bf_size f) div ucast plen)) acc False of
           None \<Rightarrow> None
         | Some (acc, found) \<Rightarrow> if found then Some acc else later_gaps n plen choices (g # fs) acc)
      else Some acc)"
| "later_gaps n plen choices fs acc = Some acc"

text \<open>
  The loop over the real files, with \<^verbatim>\<open>needs\<close> and \<^verbatim>\<open>needsnext\<close>; \<open>Inl\<close> is a piece that is returned at once.
\<close>

function gap_loop ::
  "u32 \<Rightarrow> u32 \<Rightarrow> bitfield \<Rightarrow> bitfield \<Rightarrow> u32 \<Rightarrow> btfile list \<Rightarrow> bitfield \<Rightarrow> bitfield \<Rightarrow> (u32 + bitfield \<times> bitfield) option" where
  "gap_loop n plen choices available preference fs needs needsnext =
     (case fs of
        f # g # rest \<Rightarrow>
          (if \<not> bf_staging g then gap_loop n plen choices available preference (bf_nextreal fs) needs needsnext
           else
             (let idx = ucast ((bf_offset f + bf_size f) div ucast plen)
              in if IsSet n available idx \<and> bf_offset g \<le> bf_offset f + bf_size f + ucast plen then Some (Inl idx)
                 else if IsSet n choices preference \<and> bf_offset f \<le> ucast preference * ucast plen \<and>
                         ucast preference * ucast plen < bf_offset g then Some (Inl preference)
                 else
                   (case mark_gap n plen choices (bf_offset g) idx needs False of
                      None \<Rightarrow> None
                    | Some (needs, _) \<Rightarrow>
                       (if IsEmpty needs then
                          (case later_gaps n plen choices (g # rest) needsnext of
                             None \<Rightarrow> None
                           | Some needsnext \<Rightarrow> gap_loop n plen choices available preference (bf_nextreal fs) needs needsnext)
                        else gap_loop n plen choices available preference (bf_nextreal fs) needs needsnext))))
      | _ \<Rightarrow> Some (Inr (needs, needsnext)))"
  by pat_completeness auto
termination
  by (relation "measure (\<lambda>(_, _, _, _, _, fs, _, _). length fs)")
    (auto simp: bf_nextreal_def intro: le_less_trans[OF length_dropWhile_le])

declare gap_loop.simps [simp del]

text \<open>\<open>r\<close> is the value of \<^verbatim>\<open>random()\<close> should it be called.\<close>

definition ChoosePiece :: "u32 \<Rightarrow> u32 \<Rightarrow> btfile list \<Rightarrow> nat \<Rightarrow> bitfield \<Rightarrow> bitfield \<Rightarrow> u32 \<Rightarrow> u32 option" where
  "ChoosePiece n plen fs r choices available preference =
     (case gap_loop n plen choices available preference fs (bf_new n) (bf_new n) of
        None \<Rightarrow> None
      | Some (Inl idx) \<Rightarrow> Some idx
      | Some (Inr (needs, needsnext)) \<Rightarrow>
         (if IsEmpty needs then
            (if IsEmpty needsnext \<or> IsSet n needsnext preference then Some preference else Random n r needsnext)
          else Random n r needs))"

end
