(* ===== verification/Disk.thy ===== *)
theory Disk
  imports Files
begin

text \<open>
  Disk access of \<^verbatim>\<open>btFiles\<close> (\<^verbatim>\<open>src/btfiles.cpp\<close>): opening and closing, reading and writing through the list of
  files, and the merging of staged data.

  The operating system is the parameter \<open>osenv\<close>: \<open>os k\<close> is what the \<open>k\<close>-th system call of its kind
  reports, \<open>bs_calls\<close> counts the calls.  Pointers to nodes are their addresses \<open>bf_id\<close>; the list holds the
  nodes along \<^verbatim>\<open>bf_next\<close>, and a node that is no longer in it makes the result \<open>None\<close>, as do a null pointer that
  is followed and a recursion of \<^verbatim>\<open>_btf_open\<close> that does not end (its depth is bounded by \<open>fuel\<close>).
  Names longer than \<^verbatim>\<open>MAXPATHLEN\<close> are an answer of the operating system.  \<^verbatim>\<open>len > (size_t)len\<close> is false where
  \<^verbatim>\<open>size_t\<close> has at least 32 bits.
\<close>

datatype open_result = Opened | TooManyFiles | NoSpace | OpenError

record osenv =
  os_open :: "nat \<Rightarrow> open_result"
  os_path :: "nat \<Rightarrow> bool"
  os_mkdir :: "nat \<Rightarrow> bool"
  os_seek :: "nat \<Rightarrow> bool"
  os_read :: "nat \<Rightarrow> bool"
  os_write :: "nat \<Rightarrow> nat option"
  os_memory :: "nat \<Rightarrow> bool"
  os_stale :: u8

record btfiles =
  m_btfhead :: "btfile list"
  m_total_files_length :: u64
  m_total_opened :: u32
  m_stagedir :: "u64 option"
  m_stagecount :: int
  m_write_failed :: bool
  m_write_tried :: int
  m_automanage :: bool
  m_need_merge :: bool
  bs_next_id :: nat
  bs_calls :: nat
  g_disk_access :: bool

abbreviation MAX_OPEN_FILES :: u32 where "MAX_OPEN_FILES \<equiv> 20"
abbreviation OPT_IO_SIZE :: u64 where "OPT_IO_SIZE \<equiv> 262144"
abbreviation MAX_STAGEFILE_SIZE :: u64 where "MAX_STAGEFILE_SIZE \<equiv> 2097152"
abbreviation MAX_STAGEDIR_FILES :: int where "MAX_STAGEDIR_FILES \<equiv> 200"
abbreviation WRITE_RETRY_INTERVAL :: int where "WRITE_RETRY_INTERVAL \<equiv> 300"

section \<open>The list of nodes\<close>

definition node :: "nat \<Rightarrow> btfiles \<Rightarrow> btfile option" where
  "node i st = find (\<lambda>f. bf_id f = i) (m_btfhead st)"

definition upd_node :: "nat \<Rightarrow> (btfile \<Rightarrow> btfile) \<Rightarrow> btfiles \<Rightarrow> btfiles" where
  "upd_node i g st = st\<lparr>m_btfhead := map (\<lambda>f. if bf_id f = i then g f else f) (m_btfhead st)\<rparr>"

text \<open>The nodes behind a node, \<^verbatim>\<open>bf_next\<close> and \<^verbatim>\<open>bf_nextreal\<close>.\<close>

definition behind :: "nat \<Rightarrow> btfiles \<Rightarrow> btfile list" where
  "behind i st = tl (dropWhile (\<lambda>f. bf_id f \<noteq> i) (m_btfhead st))"

definition next_file :: "nat \<Rightarrow> btfiles \<Rightarrow> btfile option" where
  "next_file i st = (case behind i st of [] \<Rightarrow> None | g # _ \<Rightarrow> Some g)"

fun insert_after :: "nat \<Rightarrow> btfile \<Rightarrow> btfile list \<Rightarrow> btfile list" where
  "insert_after i g [] = []"
| "insert_after i g (f # fs) = (if bf_id f = i then f # g # fs else f # insert_after i g fs)"

fun remove_after :: "nat \<Rightarrow> btfile list \<Rightarrow> btfile list" where
  "remove_after i [] = []"
| "remove_after i (f # fs) = (if bf_id f = i then f # tl fs else f # remove_after i fs)"

text \<open>\<^verbatim>\<open>DiskAccess()\<close> marks that the disk was used, which every system call here leads to.\<close>

definition DiskAccess :: "btfiles \<Rightarrow> btfiles" where
  "DiskAccess st = st\<lparr>g_disk_access := True\<rparr>"

definition calls :: "btfiles \<Rightarrow> btfiles" where
  "calls st = DiskAccess (st\<lparr>bs_calls := bs_calls st + 1\<rparr>)"

section \<open>Opening and closing\<close>

definition btf_close :: "nat \<Rightarrow> btfiles \<Rightarrow> btfiles" where
  "btf_close i st =
     (case node i st of
        None \<Rightarrow> st
      | Some f \<Rightarrow>
         (if bf_opened f then
            (upd_node i (\<lambda>f. f\<lparr>bf_opened := False\<rparr>) st)\<lparr>m_total_opened := m_total_opened st - 1\<rparr>
          else st))"

fun oldest_open :: "btfile list \<Rightarrow> btfile option \<Rightarrow> btfile option" where
  "oldest_open [] c = c"
| "oldest_open (f # fs) c =
     (if \<not> bf_opened f then oldest_open fs c
      else if (case c of None \<Rightarrow> True | Some g \<Rightarrow> bf_last_timestamp f < bf_last_timestamp g)
      then oldest_open fs (Some f) else oldest_open fs c)"

definition btf_close_oldest :: "btfiles \<Rightarrow> bool \<times> btfiles" where
  "btf_close_oldest st =
     (case oldest_open (m_btfhead st) None of None \<Rightarrow> (False, st) | Some f \<Rightarrow> (True, btf_close (bf_id f) st))"

text \<open>The bytes a file holds after a write at a position, behind its end if need be.\<close>

definition write_at :: "bytes \<Rightarrow> nat \<Rightarrow> bytes \<Rightarrow> bytes" where
  "write_at data pos chunk = take pos (data @ replicate (pos - length data) 0) @ chunk @ drop (pos + length chunk) data"

section \<open>Merging\<close>

text \<open>
  The copying loop of \<^verbatim>\<open>MergeStaging\<close>: \<open>sdata\<close> is what remains to be read of the source; behind the end of the
  file the buffer keeps what it held (\<open>os_stale\<close>).  The first result is
  whether the loop was left in order.
\<close>

partial_function (option) merge_copy :: "osenv \<Rightarrow> int \<Rightarrow> nat \<Rightarrow> bytes \<Rightarrow> u64 \<Rightarrow> u64 \<Rightarrow> u64 \<Rightarrow> btfiles \<Rightarrow> (bool \<times> btfiles) option" where
  "merge_copy os now d sdata nio pos remain st =
     (case node d st of
        None \<Rightarrow> None
      | Some dst \<Rightarrow>
         (if remain \<noteq> 0 \<and> bf_size dst < bf_length dst then
            (let nio = (if remain < nio then remain else nio); k = bs_calls st; st = calls st
             in if \<not> os_read os k then Some (False, st)
                else
                  (let chunk = take (unat nio) sdata @ replicate (unat nio - length sdata) (os_stale os)
                   in case os_write os k of
                        Some w \<Rightarrow>
                          Some (False, (upd_node d (\<lambda>f. f\<lparr>bf_data := write_at (bf_data f) (unat pos) (take w chunk)\<rparr>) st)
                            \<lparr>m_write_failed := True, m_write_tried := now\<rparr>)
                      | None \<Rightarrow>
                          merge_copy os now d (drop (unat nio) sdata) nio (pos + nio) (remain - nio)
                            ((upd_node d (\<lambda>f. f\<lparr>bf_data := write_at (bf_data f) (unat pos) chunk,
                                bf_size := (if bf_size f < pos + nio then pos + nio else bf_size f)\<rparr>) st)
                              \<lparr>m_write_failed := False\<rparr>)))
          else Some (True, st)))"

declare merge_copy.simps [code]

text \<open>The source file is deleted and unlinked.\<close>

definition merge_delete :: "nat \<Rightarrow> nat \<Rightarrow> btfiles \<Rightarrow> btfiles option" where
  "merge_delete d s st =
     (let st = DiskAccess (btf_close s st)
      in case (node s st, next_file d st) of
           (Some src, Some nx) \<Rightarrow>
             (if bf_id nx \<noteq> s then None
              else
                (let st = st\<lparr>m_btfhead := remove_after d (m_btfhead st)\<rparr>
                 in Some (if 0 < m_stagecount st \<and> (m_stagedir st = None \<or> m_stagedir st = bf_dir src) then
                            (let st = st\<lparr>m_stagecount := m_stagecount st - 1\<rparr>
                             in if m_stagecount st = 0 then st\<lparr>m_stagedir := None\<rparr> else st)
                          else st)))
         | _ \<Rightarrow> None)"

text \<open>\<open>opn\<close> is \<^verbatim>\<open>_btf_open\<close>; the result is whether \<^verbatim>\<open>MergeStaging\<close> returns 0.\<close>

definition MergeStaging_with :: "(nat \<Rightarrow> bool \<Rightarrow> btfiles \<Rightarrow> (bool \<times> btfiles) option) \<Rightarrow> osenv \<Rightarrow> int \<Rightarrow> nat \<Rightarrow> btfiles \<Rightarrow>
    (bool \<times> btfiles) option" where
  "MergeStaging_with opn os now d st =
     (case (node d st, next_file d st) of
        (Some dst, Some src) \<Rightarrow>
          (let s = bf_id src
           in if bf_offset src + bf_size src \<le> bf_offset dst + bf_size dst then map_option (Pair True) (merge_delete d s st)
              else
                (case (if bf_opened src then Some (True, st) else opn s False st) of
                   None \<Rightarrow> None
                 | Some (False, st) \<Rightarrow> Some (False, st)
                 | Some (True, st) \<Rightarrow>
                    (case (node d st, node s st) of
                       (Some dst, Some src) \<Rightarrow>
                         (let pos = bf_offset dst + bf_size dst - bf_offset src; remain = bf_size src - pos;
                              k = bs_calls st; st = calls st
                          in if \<not> os_seek os k then Some (False, st)
                             else
                               (let st = upd_node s (\<lambda>f. f\<lparr>bf_last_timestamp := now + 1\<rparr>) st
                                in case (if \<not> bf_opened dst \<or> bf_readonly dst then opn d True st else Some (True, st)) of
                                     None \<Rightarrow> None
                                   | Some (False, st) \<Rightarrow> Some (False, st)
                                   | Some (True, st) \<Rightarrow>
                                      (case (node d st, node s st) of
                                         (Some dst, Some src) \<Rightarrow>
                                           (let k = bs_calls st; st = calls st
                                            in if \<not> os_seek os k then Some (False, st)
                                               else
                                                 (case merge_copy os now d (drop (unat pos) (bf_data src)) OPT_IO_SIZE (bf_size dst) remain st of
                                                    None \<Rightarrow> None
                                                  | Some (False, st) \<Rightarrow> Some (False, st)
                                                  | Some (True, st) \<Rightarrow>
                                                     (case node d st of
                                                        None \<Rightarrow> None
                                                      | Some dst \<Rightarrow>
                                                         (let st = (if bf_size dst = bf_length dst then btf_close d st else st)
                                                          in map_option (Pair True) (merge_delete d s st)))))
                                       | _ \<Rightarrow> None)))
                     | _ \<Rightarrow> None)))
      | _ \<Rightarrow> None)"

text \<open>
  \<^verbatim>\<open>FindAndMerge\<close> from the node \<open>cur\<close> on.  With \<^verbatim>\<open>dostaging\<close> the loop visits the staging files as well.
\<close>

definition mergeable :: "btfile \<Rightarrow> btfile option \<Rightarrow> bool" where
  "mergeable f nx \<longleftrightarrow> \<not> bf_staging f \<and>
     (case nx of None \<Rightarrow> False | Some g \<Rightarrow>
        bf_staging g \<and> bf_size f < bf_length f \<and> bf_offset g \<le> bf_offset f + bf_size f)"

partial_function (option) merge_loop ::
  "(nat \<Rightarrow> bool \<Rightarrow> btfiles \<Rightarrow> (bool \<times> btfiles) option) \<Rightarrow> osenv \<Rightarrow> int \<Rightarrow> bool \<Rightarrow> bool \<Rightarrow> nat option \<Rightarrow> bool \<Rightarrow> btfiles \<Rightarrow>
     (bool \<times> btfiles) option" where
  "merge_loop opn os now findall dostaging cur merged st =
     (case cur of
        None \<Rightarrow> Some (merged, st\<lparr>m_need_merge := False\<rparr>)
      | Some i \<Rightarrow>
         (case node i st of
            None \<Rightarrow> None
          | Some f \<Rightarrow>
             (if mergeable f (next_file i st) then
                (case MergeStaging_with opn os now i st of
                   None \<Rightarrow> None
                 | Some (ok, st) \<Rightarrow>
                    (if \<not> ok then Some (merged, st)
                     else if \<not> findall then Some (True, st) else merge_loop opn os now findall dostaging (Some i) True st))
              else
                merge_loop opn os now findall dostaging
                  (map_option bf_id (if dostaging then next_file i st else find (\<lambda>g. \<not> bf_staging g) (behind i st))) merged st)))"

declare merge_loop.simps [code]

definition FindAndMerge_with :: "(nat \<Rightarrow> bool \<Rightarrow> btfiles \<Rightarrow> (bool \<times> btfiles) option) \<Rightarrow> osenv \<Rightarrow> int \<Rightarrow> bool \<Rightarrow> bool \<Rightarrow>
    btfiles \<Rightarrow> (bool \<times> btfiles) option" where
  "FindAndMerge_with opn os now findall dostaging st =
     merge_loop opn os now findall dostaging (case m_btfhead st of [] \<Rightarrow> None | f # _ \<Rightarrow> Some (bf_id f)) False st"

section \<open>Opening\<close>

text \<open>A second attempt to open follows when files were closed or merged; the mode was chosen before.\<close>

definition fopen :: "nat \<Rightarrow> bool \<Rightarrow> bool \<Rightarrow> btfiles \<Rightarrow> btfiles option" where
  "fopen i iotype trunc st =
     (case node i st of
        None \<Rightarrow> None
      | Some _ \<Rightarrow>
         Some ((upd_node i (\<lambda>f. f\<lparr>bf_opened := True, bf_readonly := \<not> iotype, bf_data := (if trunc then [] else bf_data f)\<rparr>) st)
           \<lparr>m_total_opened := m_total_opened st + 1\<rparr>))"

fun btf_open :: "nat \<Rightarrow> osenv \<Rightarrow> int \<Rightarrow> nat \<Rightarrow> bool \<Rightarrow> btfiles \<Rightarrow> (bool \<times> btfiles) option" where
  "btf_open 0 os now i iotype st = None"
| "btf_open (Suc fuel) os now i iotype st =
     (case node i st of
        None \<Rightarrow> None
      | Some f \<Rightarrow>
         (let trunc = (iotype \<and> bf_size f = 0)
          in if bf_opened f \<and> \<not> (bf_readonly f \<and> iotype) then Some (True, st)
             else
               (let st = (if bf_opened f then btf_close i st else st);
                    (ok, st) = (if m_automanage st \<and> MAX_OPEN_FILES \<le> m_total_opened st then btf_close_oldest st else (True, st))
                in if \<not> ok then Some (False, st)
                   else
                     (let k = bs_calls st; st = calls st
                      in if iotype \<and> \<not> os_path os k then Some (False, st)
                         else
                           (let st = upd_node i (\<lambda>f. f\<lparr>bf_last_timestamp := now + 1\<rparr>) st
                            in case os_open os k of
                                 Opened \<Rightarrow> map_option (Pair True) (fopen i iotype trunc st)
                               | OpenError \<Rightarrow> Some (False, st)
                               | TooManyFiles \<Rightarrow>
                                   (let st = snd (btf_close_oldest st); k = bs_calls st; st = calls st
                                    in if os_open os k = Opened then map_option (Pair True) (fopen i iotype trunc st)
                                       else Some (False, st))
                               | NoSpace \<Rightarrow>
                                   (case FindAndMerge_with (btf_open fuel os now) os now False False st of
                                      None \<Rightarrow> None
                                    | Some (merged, st) \<Rightarrow>
                                       (case (if merged then Some (merged, st)
                                              else FindAndMerge_with (btf_open fuel os now) os now False True st) of
                                          None \<Rightarrow> None
                                        | Some (_, st) \<Rightarrow>
                                           (let k = bs_calls st; st = calls st
                                            in if os_open os k = Opened then map_option (Pair True) (fopen i iotype trunc st)
                                               else Some (False, st)))))))))"

definition MergeStaging :: "nat \<Rightarrow> osenv \<Rightarrow> int \<Rightarrow> nat \<Rightarrow> btfiles \<Rightarrow> (bool \<times> btfiles) option" where
  "MergeStaging fuel os now d st = MergeStaging_with (btf_open fuel os now) os now d st"

definition FindAndMerge :: "nat \<Rightarrow> osenv \<Rightarrow> int \<Rightarrow> bool \<Rightarrow> bool \<Rightarrow> btfiles \<Rightarrow> (bool \<times> btfiles) option" where
  "FindAndMerge fuel os now findall dostaging st = FindAndMerge_with (btf_open fuel os now) os now findall dostaging st"

definition MergeNext_f :: "nat \<Rightarrow> osenv \<Rightarrow> int \<Rightarrow> btfiles \<Rightarrow> (bool \<times> btfiles) option" where
  "MergeNext_f fuel os now st = FindAndMerge fuel os now False False st"

definition MergeAll :: "nat \<Rightarrow> osenv \<Rightarrow> int \<Rightarrow> btfiles \<Rightarrow> (bool \<times> btfiles) option" where
  "MergeAll fuel os now st = FindAndMerge fuel os now True False st"

definition NeedMerge :: "int \<Rightarrow> btfiles \<Rightarrow> bool" where
  "NeedMerge now st \<longleftrightarrow> m_need_merge st \<and> \<not> (m_write_failed st \<and> now < m_write_tried st + WRITE_RETRY_INTERVAL)"

section \<open>Reading and writing\<close>

text \<open>
  The first file to read or write: its address and that of the node before it in the search (\<^verbatim>\<open>pbfref\<close>).
\<close>

function io_find :: "bool \<Rightarrow> u64 \<Rightarrow> nat option \<Rightarrow> btfile list \<Rightarrow> nat option \<times> nat option" where
  "io_find iotype off ref [] = (None, ref)"
| "io_find iotype off ref (f # fs) =
     (if bf_offset f \<le> off \<and>
         (off < bf_offset f + bf_size f \<or>
          iotype \<and> off = bf_offset f + bf_size f \<and> (\<not> bf_staging f \<or> bf_size f < MAX_STAGEFILE_SIZE))
      then (Some (bf_id f), ref)
      else if off < bf_offset f then (None, ref)
      else io_find iotype off (Some (bf_id f))
             (if \<not> bf_staging f \<and> bf_offset f + bf_length f \<le> off then dropWhile bf_staging fs else fs))"
  by pat_completeness auto
termination
  by (relation "measure (\<lambda>(_, _, _, fs). length fs)") (auto intro: le_less_trans[OF length_dropWhile_le])

text \<open>
  A new staging file behind the node \<open>ref\<close>; \<open>Inl\<close> is the state when there is no memory for it.
\<close>

definition new_stage :: "osenv \<Rightarrow> u64 \<Rightarrow> nat \<Rightarrow> btfiles \<Rightarrow> btfiles + nat \<times> btfiles" where
  "new_stage os off ref st =
     (let st = (if MAX_STAGEDIR_FILES \<le> m_stagecount st \<or> m_stagedir st = None then
                  (let k = bs_calls st; st = calls st
                   in if os_mkdir os k then st\<lparr>m_stagedir := Some off, m_stagecount := 0\<rparr> else st)
                else st);
          i = bs_next_id st
      in if \<not> os_memory os i then Inl st
         else
           (let f = \<lparr>bf_id = i, bf_length = 0, bf_offset = off, bf_size = 0, bf_last_timestamp = 0, bf_opened = False,
                     bf_readonly = False, bf_staging = True, bf_dir = m_stagedir st, bf_data = []\<rparr>
            in Inr (i, st\<lparr>m_btfhead := insert_after ref f (m_btfhead st), m_stagecount := m_stagecount st + 1,
                         bs_next_id := i + 1\<rparr>)))"

text \<open>
  One round of the loop: \<open>buf\<close> is what is left of the buffer from \<^verbatim>\<open>rbuf\<close> or \<^verbatim>\<open>wbuf\<close> on, \<open>rd\<close> what was read before
  it.  \<open>Inl\<close> ends the loop with the result and the contents of the buffer that was read.
\<close>

record iostate =
  io_pbf :: "nat option"
  io_ref :: "nat option"
  io_off :: u64
  io_len :: u32
  io_buf :: bytes
  io_rd :: bytes

definition io_target :: "osenv \<Rightarrow> bool \<Rightarrow> iostate \<Rightarrow> btfiles \<Rightarrow> (btfiles + nat \<times> btfiles) option" where
  "io_target os iotype io st =
     (case io_pbf io of
        Some i \<Rightarrow>
          (case node i st of
             None \<Rightarrow> None
           | Some f \<Rightarrow>
              (if iotype \<and> bf_staging f \<and> MAX_STAGEFILE_SIZE \<le> bf_size f \<and> io_off io = bf_offset f + bf_size f
               then Some (new_stage os (io_off io) i st) else Some (Inr (i, st))))
      | None \<Rightarrow>
          (if iotype then (case io_ref io of None \<Rightarrow> None | Some r \<Rightarrow> Some (new_stage os (io_off io) r st))
           else Some (Inl st)))"

definition io_read_file :: "osenv \<Rightarrow> btfile \<Rightarrow> u64 \<Rightarrow> iostate \<Rightarrow> btfiles \<Rightarrow> (bool \<times> bytes \<times> u64) \<times> btfiles" where
  "io_read_file os f pos io st =
     (let nio = (if ucast (io_len io) \<le> bf_size f - pos then ucast (io_len io) else bf_size f - pos);
          k = bs_calls st; st = calls st; got = take (unat nio) (drop (unat pos) (bf_data f))
      in if nio \<noteq> 0 \<and> \<not> os_read os k then ((False, [], nio), st)
         else ((True, got @ drop (length got) (take (unat nio) (io_buf io)), nio), st))"

definition io_write_file :: "osenv \<Rightarrow> int \<Rightarrow> btfile \<Rightarrow> u64 \<Rightarrow> iostate \<Rightarrow> btfiles \<Rightarrow> (bool \<times> u64) \<times> btfiles" where
  "io_write_file os now f pos io st =
     (let i = bf_id f;
          nio = (if bf_staging f then
                   (case next_file i st of
                      None \<Rightarrow> ucast (io_len io)
                    | Some g \<Rightarrow>
                       (if ucast (io_len io) \<le> bf_offset g - bf_offset f - pos then ucast (io_len io)
                        else bf_offset g - bf_offset f - pos))
                 else (if ucast (io_len io) \<le> bf_length f - pos then ucast (io_len io) else bf_length f - pos));
          k = bs_calls st; st = calls st; chunk = take (unat nio) (io_buf io);
          w = (if nio = 0 then None else os_write os k)
      in case w of
           Some w \<Rightarrow>
             ((False, nio), (upd_node i (\<lambda>f. f\<lparr>bf_data := write_at (bf_data f) (unat pos) (take w chunk)\<rparr>) st)
                \<lparr>m_write_failed := True, m_write_tried := now\<rparr>)
         | None \<Rightarrow>
             (let st = (if nio = 0 then st
                        else (upd_node i (\<lambda>f. f\<lparr>bf_data := write_at (bf_data f) (unat pos) chunk\<rparr>) st)\<lparr>m_write_failed := False\<rparr>);
                  size = (if bf_size f < pos + nio then pos + nio else bf_size f);
                  st = upd_node i (\<lambda>f. f\<lparr>bf_size := size\<rparr>) st;
                  st = (if \<not> bf_staging f \<and> size < bf_length f \<and>
                           (case next_file i st of None \<Rightarrow> False | Some g \<Rightarrow> bf_staging g \<and> bf_offset g \<le> bf_offset f + size)
                        then st\<lparr>m_need_merge := True\<rparr> else st)
              in ((True, nio), if size = 0 then btf_close i st else st)))"

definition io_next :: "nat \<Rightarrow> bytes \<Rightarrow> u64 \<Rightarrow> iostate \<Rightarrow> btfiles \<Rightarrow> ((bool \<times> bytes) + iostate) option" where
  "io_next i got nio io st =
     (let len = io_len io - ucast nio; rd = io_rd io @ got; buf = drop (unat nio) (io_buf io)
      in if len = 0 then Some (Inl (True, rd @ buf))
         else
           (case next_file i st of
              None \<Rightarrow> None
            | Some g \<Rightarrow>
               Some (Inr \<lparr>io_pbf = (if io_off io + nio < bf_offset g then None else Some (bf_id g)), io_ref = Some i,
                         io_off = io_off io + nio, io_len = len, io_buf = buf, io_rd = rd\<rparr>)))"

definition io_round :: "nat \<Rightarrow> osenv \<Rightarrow> int \<Rightarrow> bool \<Rightarrow> iostate \<Rightarrow> btfiles \<Rightarrow> (((bool \<times> bytes) + iostate) \<times> btfiles) option" where
  "io_round fuel os now iotype io st =
     (let stop = Inl (False, io_rd io @ io_buf io)
      in case io_target os iotype io st of
           None \<Rightarrow> None
         | Some (Inl st) \<Rightarrow> Some (stop, st)
         | Some (Inr (i, st)) \<Rightarrow>
            (case node i st of
               None \<Rightarrow> None
             | Some f \<Rightarrow>
                (case (if \<not> bf_opened f \<or> iotype \<and> bf_readonly f then btf_open fuel os now i iotype st else Some (True, st)) of
                   None \<Rightarrow> None
                 | Some (False, st) \<Rightarrow> Some (stop, DiskAccess st)
                 | Some (True, st) \<Rightarrow>
                    (let pos = io_off io - bf_offset f; st = upd_node i (\<lambda>f. f\<lparr>bf_last_timestamp := now\<rparr>) st;
                         k = bs_calls st; st = calls st
                     in case node i st of
                          None \<Rightarrow> None
                        | Some f \<Rightarrow>
                           (if \<not> os_seek os k then Some (stop, st)
                            else if iotype then
                              (case io_write_file os now f pos io st of
                                 ((False, nio), st) \<Rightarrow> Some (stop, st)
                               | ((True, nio), st) \<Rightarrow> map_option (\<lambda>x. (x, st)) (io_next i [] nio io st))
                            else
                              (case io_read_file os f pos io st of
                                 ((False, got, nio), st) \<Rightarrow> Some (stop, st)
                               | ((True, got, nio), st) \<Rightarrow> map_option (\<lambda>x. (x, st)) (io_next i got nio io st)))))))"

partial_function (option) io_loop :: "nat \<Rightarrow> osenv \<Rightarrow> int \<Rightarrow> bool \<Rightarrow> iostate \<Rightarrow> btfiles \<Rightarrow> ((bool \<times> bytes) \<times> btfiles) option" where
  "io_loop fuel os now iotype io st =
     (if io_len io = 0 then Some ((True, io_rd io @ io_buf io), st)
      else
        (case io_round fuel os now iotype io st of
           None \<Rightarrow> None
         | Some (r, st) \<Rightarrow> (case r of Inl r \<Rightarrow> Some (r, st) | Inr io \<Rightarrow> io_loop fuel os now iotype io st)))"

declare io_loop.simps [code]

text \<open>
  \<^verbatim>\<open>IO\<close>: \<open>buf\<close> is the buffer to write (\<open>iotype\<close>) or the one that is read into; the result is whether it returns 0
  and, for a read, the buffer afterwards.
\<close>

definition btf_IO :: "nat \<Rightarrow> osenv \<Rightarrow> int \<Rightarrow> bool \<Rightarrow> bytes \<Rightarrow> u64 \<Rightarrow> u32 \<Rightarrow> btfiles \<Rightarrow> ((bool \<times> bytes) \<times> btfiles) option" where
  "btf_IO fuel os now iotype buf off len st =
     (if m_total_files_length st < off + ucast len then Some ((False, buf), st)
      else
        (let (pbf, ref) = io_find iotype off None (m_btfhead st)
         in io_loop fuel os now iotype
              \<lparr>io_pbf = pbf, io_ref = ref, io_off = off, io_len = len, io_buf = buf, io_rd = []\<rparr> st))"

end
