(* ===== verification/Store.thy ===== *)
theory Store
  imports Disk
begin

text \<open>
  The stored contents of the torrent: the files and the cache of \<^verbatim>\<open>btContent\<close> (\<^verbatim>\<open>src/btcontent.cpp\<close>) in memory.

  A \<^verbatim>\<open>BTCACHE *\<close> is a number; \<open>st_node\<close> maps it to the object, or to \<open>None\<close> once it is deleted.  The two linked lists
  an entry is in are lists of such numbers: \<open>m_cache idx\<close> holds the entries of a piece along \<^verbatim>\<open>bc_next\<close>, \<open>m_age\<close> all
  entries along \<^verbatim>\<open>age_next\<close> from \<^verbatim>\<open>m_cache_oldest\<close> to \<^verbatim>\<open>m_cache_newest\<close>.
\<close>

record btcache =
  bc_off :: u64
  bc_len :: u32
  bc_f_flush :: bool
  bc_buf :: bytes

record store =
  st_files :: btfiles
  st_node :: "nat \<Rightarrow> btcache option"
  m_cache :: "nat \<Rightarrow> nat list"
  m_age :: "nat list"
  st_next :: nat
  m_cache_size :: u32
  m_cache_used :: u32
  m_cache_hit :: u32
  m_cache_miss :: u32
  m_cache_pre :: u32
  m_cache_eval_time :: int
  m_flushq :: "u32 list"
  m_flush_tried :: int
  cfg_cache_size :: u32
  global_piece_buffer :: bytes

abbreviation DEFAULT_SLICE_SIZE :: u32 where "DEFAULT_SLICE_SIZE \<equiv> 16384"

abbreviation cache_limit :: "store \<Rightarrow> u32" where
  "cache_limit s \<equiv> cfg_cache_size s * 1048576"

abbreviation m_cache_oldest :: "store \<Rightarrow> nat option" where
  "m_cache_oldest s \<equiv> (case m_age s of [] \<Rightarrow> None | i # _ \<Rightarrow> Some i)"

definition m_cache_newest :: "store \<Rightarrow> nat option" where
  "m_cache_newest s = (if m_age s = [] then None else Some (List.last (m_age s)))"

text \<open>The number after another one in a list, \<^verbatim>\<open>bc_next\<close> or \<^verbatim>\<open>age_next\<close>.\<close>

definition next_in :: "nat \<Rightarrow> nat list \<Rightarrow> nat option" where
  "next_in i is = (case tl (dropWhile (\<lambda>j. j \<noteq> i) is) of [] \<Rightarrow> None | j # _ \<Rightarrow> Some j)"

definition first_of :: "nat list \<Rightarrow> nat option" where
  "first_of is = (case is of [] \<Rightarrow> None | i # _ \<Rightarrow> Some i)"

definition upd_cached :: "nat \<Rightarrow> (btcache \<Rightarrow> btcache) \<Rightarrow> store \<Rightarrow> store" where
  "upd_cached i f s = s\<lparr>st_node := (st_node s)(i := map_option f (st_node s i))\<rparr>"

text \<open>The entry becomes the newest one.\<close>

definition to_newest :: "nat \<Rightarrow> store \<Rightarrow> store" where
  "to_newest i s = (if m_cache_newest s = Some i then s else s\<lparr>m_age := remove1 i (m_age s) @ [i]\<rparr>)"

text \<open>An entry is unlinked from both lists and deleted.\<close>

definition expire_entry :: "nat \<Rightarrow> nat \<Rightarrow> btcache \<Rightarrow> store \<Rightarrow> store" where
  "expire_entry idx i p s =
     s\<lparr>m_age := remove1 i (m_age s), m_cache := (m_cache s)(idx := remove1 i (m_cache s idx)),
       m_cache_used := m_cache_used s - bc_len p, st_node := (st_node s)(i := None)\<rparr>"

text \<open>A new entry goes to the end of the age list and, by its offset, into the list of its piece.\<close>

fun insert_point :: "store \<Rightarrow> u64 \<Rightarrow> nat \<Rightarrow> nat list \<Rightarrow> nat list" where
  "insert_point s off i [] = [i]"
| "insert_point s off i (j # js) =
     (case st_node s j of
        None \<Rightarrow> i # j # js
      | Some p \<Rightarrow> if bc_off p < off then j # insert_point s off i js else i # j # js)"

definition add_entry :: "nat \<Rightarrow> btcache \<Rightarrow> store \<Rightarrow> store" where
  "add_entry idx p s =
     (let i = st_next s
      in s\<lparr>st_node := (st_node s)(i := Some p), m_cache_used := m_cache_used s + bc_len p, m_age := m_age s @ [i],
           m_cache := (m_cache s)(idx := insert_point s (bc_off p) i (m_cache s idx)), st_next := i + 1\<rparr>)"

definition max_datalen :: "u64 \<Rightarrow> u64 \<Rightarrow> u64" where "max_datalen a b = (if b < a then a else b)"
definition min_datalen :: "u64 \<Rightarrow> u64 \<Rightarrow> u64" where "min_datalen a b = (if b < a then b else a)"

text \<open>Does the entry overlap the range?  The macro subtracts 1 from the end of both.\<close>

definition CACHE_FIT :: "btcache \<Rightarrow> u64 \<Rightarrow> u32 \<Rightarrow> bool" where
  "CACHE_FIT p off len \<longleftrightarrow>
     max_datalen (bc_off p) off \<le> min_datalen (bc_off p + ucast (bc_len p) - 1) (off + ucast len - 1)"

text \<open>The number of slices a transfer counts for.\<close>

definition slices_of :: "u32 \<Rightarrow> u32" where
  "slices_of len = len div DEFAULT_SLICE_SIZE + (if len mod DEFAULT_SLICE_SIZE \<noteq> 0 then 1 else 0)"

text \<open>\<^verbatim>\<open>Uncache\<close> deletes all entries of a piece, written or not.\<close>

fun uncache_loop :: "nat list \<Rightarrow> store \<Rightarrow> store" where
  "uncache_loop [] s = s"
| "uncache_loop (i # is) s =
     (case st_node s i of
        None \<Rightarrow> s
      | Some p \<Rightarrow> uncache_loop is (s\<lparr>m_age := remove1 i (m_age s), m_cache_used := m_cache_used s - bc_len p,
                                     st_node := (st_node s)(i := None)\<rparr>))"

definition Uncache :: "nat \<Rightarrow> store \<Rightarrow> store" where
  "Uncache idx s = (let s = uncache_loop (m_cache s idx) s in s\<lparr>m_cache := (m_cache s)(idx := [])\<rparr>)"

text \<open>\<^verbatim>\<open>CloseAllFiles\<close> closes the files of the torrent, not the staging files.\<close>

definition CloseAllFiles :: "store \<Rightarrow> store" where
  "CloseAllFiles s = s\<lparr>st_files := fold (\<lambda>f d. btf_close (bf_id f) d) (filter (\<lambda>f. \<not> bf_staging f) (m_btfhead (st_files s))) (st_files s)\<rparr>"

end
