(* ===== verification/Iplist.thy ===== *)
theory Iplist
  imports Prelude
begin

text \<open>
  The queue of addresses to connect to, \<^verbatim>\<open>IpList\<close> of \<^verbatim>\<open>src/iplist.cpp\<close>.

  The list is a list of \<^verbatim>\<open>struct sockaddr_in\<close> values, each given by its bytes, which is what
  \<^verbatim>\<open>memcmp\<close> and \<^verbatim>\<open>memcpy\<close> see; \<open>ipl_count\<close> is the separate counter \<^verbatim>\<open>IsEmpty\<close> reads.
\<close>

record iplist =
  ipl_head :: "bytes list"
  ipl_count :: u32

definition ipl_new :: iplist where
  "ipl_new = \<lparr>ipl_head = [], ipl_count = 0\<rparr>"

definition ipl_Empty :: "iplist \<Rightarrow> iplist" where
  "ipl_Empty l = l\<lparr>ipl_head := [], ipl_count := 0\<rparr>"

text \<open>\<open>mem\<close> says whether \<^verbatim>\<open>new\<close> succeeds.\<close>

definition ipl_Add :: "bool \<Rightarrow> bytes \<Rightarrow> iplist \<Rightarrow> int \<times> iplist" where
  "ipl_Add mem psin l =
     (if psin \<in> set (ipl_head l) then (-1, l)
      else if \<not> mem then (-1, l)
      else (0, l\<lparr>ipl_count := ipl_count l + 1, ipl_head := psin # ipl_head l\<rparr>))"

definition ipl_Pop :: "iplist \<Rightarrow> bytes option \<times> iplist" where
  "ipl_Pop l =
     (case ipl_head l of
        [] \<Rightarrow> (None, l)
      | a # as \<Rightarrow> (Some a, l\<lparr>ipl_head := as, ipl_count := ipl_count l - 1\<rparr>))"

definition ipl_IsEmpty :: "iplist \<Rightarrow> int" where
  "ipl_IsEmpty l = (if ipl_count l \<noteq> 0 then 0 else 1)"

definition ipl_inv :: "iplist \<Rightarrow> bool" where
  "ipl_inv l \<longleftrightarrow> distinct (ipl_head l) \<and> ipl_count l = of_nat (length (ipl_head l)) \<and> length (ipl_head l) < 4294967295"

lemma ipl_Pop_ok: "ipl_inv l \<Longrightarrow> ipl_inv (snd (ipl_Pop l))"
  by (auto simp: ipl_inv_def ipl_Pop_def split: list.splits)

interpretation ipqueue: queue_cursor ipl_inv ipl_head ipl_Pop
  by unfold_locales (auto simp: ipl_Pop_ok, auto simp: ipl_Pop_def)

lemma ipl_IsEmpty_iff: "ipl_inv l \<Longrightarrow> ipl_IsEmpty l = 1 \<longleftrightarrow> ipl_head l = []"
  by (auto simp: ipl_IsEmpty_def ipl_inv_def u32_zero_iff unat_of_nat_u32)

text \<open>
  The address queue holds no address twice: adding one that is there is refused and changes
  nothing, adding a new one puts it in front, popping delivers the queued addresses one by one,
  each once, and the counter \<^verbatim>\<open>IsEmpty\<close> reads is right.
\<close>

theorem ipqueue_correct:
  assumes inv: "ipl_inv l" and room: "length (ipl_head l) + 1 < 4294967295"
  shows "(psin \<in> set (ipl_head l) \<longrightarrow> ipl_Add True psin l = (-1, l)) \<and>
    (psin \<notin> set (ipl_head l) \<longrightarrow> fst (ipl_Add True psin l) = 0 \<and>
       ipl_head (snd (ipl_Add True psin l)) = psin # ipl_head l) \<and>
    ipl_inv (snd (ipl_Add mem psin l)) \<and>
    fst (drain ipl_Pop n l) = take n (ipl_head l) \<and> ipl_inv (snd (drain ipl_Pop n l)) \<and>
    ipl_head (snd (drain ipl_Pop n l)) = drop n (ipl_head l) \<and>
    (ipl_IsEmpty l = 1 \<longleftrightarrow> ipl_head l = [])"
proof -
  have "ipl_inv (snd (ipl_Add mem psin l))" using inv room by (simp add: ipl_inv_def ipl_Add_def)
  then show ?thesis using ipqueue.drain_out[OF inv, of n] ipqueue.drain_state[OF inv, of n] ipl_IsEmpty_iff[OF inv]
    by (simp add: ipl_Add_def)
qed

theorem ipqueue_correct_witness:
  "fst (drain ipl_Pop 5 \<lparr>ipl_head = [[2], [1]], ipl_count = 2\<rparr>) = [[2], [1]]"
  using ipqueue_correct[of "\<lparr>ipl_head = [[2], [1]], ipl_count = 2\<rparr>" "[3]" True 5]
  by (simp add: ipl_inv_def)

end
