(* ===== verification/Net.thy ===== *)
theory Net
  imports Bufio Iplist
begin

text \<open>
  The network side of the client: what the operating system does with sockets and names, the configuration that
  concerns it, and the state of the tracker client (\<^verbatim>\<open>btTracker\<close>, \<^verbatim>\<open>MultiTracker\<close> of \<^verbatim>\<open>src/tracker.h\<close>) and of the
  peer list's timers (\<^verbatim>\<open>src/peerlist.h\<close>).

  The operating system is a parameter, \<open>netenv\<close>; its answers depend on the number \<open>w_tick\<close> of the call.  A socket is its
  descriptor, -1 is \<^verbatim>\<open>INVALID_SOCKET\<close>, and \<open>n_script\<close> is what will arrive on a new one and how it will take data.
  An internet address is the number its bytes denote in network order.
\<close>

abbreviation INVALID_SOCKET :: int where "INVALID_SOCKET \<equiv> -1"
abbreviation PEER_ID_LEN :: nat where "PEER_ID_LEN \<equiv> 20"

record netenv =
  cfg_max_peers :: u32
  cfg_min_peers :: u32
  cfg_public_ip :: "bytes option"
  cfg_listen_ip :: u32
  cfg_listen_port :: u16
  cfg_user_agent :: bytes
  n_socket :: "nat \<Rightarrow> int"
  n_nonblock :: "nat \<Rightarrow> bool"
  n_bind :: "nat \<Rightarrow> bool"
  n_connect :: "nat \<Rightarrow> int"
  n_so_error :: "nat \<Rightarrow> int"
  n_script :: "nat \<Rightarrow> isock \<times> osock"
  n_accept :: "nat \<Rightarrow> (int \<times> bool \<times> bytes) option"
  n_inet_addr :: "bytes \<Rightarrow> u32 option"
  n_inet_ntoa :: "u32 \<Rightarrow> bytes"
  n_gethostbyname :: "bytes \<Rightarrow> u32 option"
  n_new :: "nat \<Rightarrow> bool"

abbreviation ECONNREFUSED :: int where "ECONNREFUSED \<equiv> 111"

section \<open>Addresses\<close>

text \<open>\<^verbatim>\<open>struct sockaddr_in\<close>: the address and the port; \<open>sin_of\<close> reads its bytes.\<close>

definition be_nat :: "bytes \<Rightarrow> nat" where
  "be_nat bs = foldl (\<lambda>n b. n * 256 + unat b) 0 bs"

definition sin_of :: "bytes \<Rightarrow> u32 \<times> u16" where
  "sin_of bs = (of_nat (be_nat (take 4 (drop 4 bs))), of_nat (be_nat (take 2 (drop 2 bs))))"

definition be_bytes :: "nat \<Rightarrow> nat \<Rightarrow> bytes" where
  "be_bytes k n = map (\<lambda>j. of_nat (n div 256 ^ (k - 1 - j))) [0..<k]"

definition sin_bytes :: "u32 \<times> u16 \<Rightarrow> bytes" where
  "sin_bytes a = [2, 0] @ be_bytes 2 (unat (snd a)) @ be_bytes 4 (unat (fst a)) @ replicate 8 0"

text \<open>Methods of \<^verbatim>\<open>btBasic\<close>; \<open>me\<close> is its \<^verbatim>\<open>m_sin\<close>.\<close>

definition SetIp :: "u32 \<times> u16 \<Rightarrow> u32 \<times> u16 \<Rightarrow> u32 \<times> u16" where
  "SetIp addr me = (fst addr, snd me)"

definition IpEquiv :: "u32 \<times> u16 \<Rightarrow> u32 \<times> u16 \<Rightarrow> bool" where
  "IpEquiv addr me \<longleftrightarrow> fst me = fst addr \<and> snd me = snd addr"

section \<open>Trackers\<close>

datatype dt_trackerstatus = DT_TRACKER_FREE | DT_TRACKER_CONNECTING | DT_TRACKER_READY | DT_TRACKER_FINISHED
datatype dt_result = DT_NORMAL | DT_SUCCESS | DT_FAILURE

record tracker_spec =
  sp_url :: bytes
  sp_host :: bytes
  sp_request :: bytes
  sp_port :: nat

record bttracker =
  t_spec :: "tracker_spec option"
  t_redirect :: "tracker_spec option"
  t_key :: bytes
  t_trackerid :: bytes
  t_status :: dt_trackerstatus
  t_result :: dt_result
  t_f_started :: bool
  t_f_completed :: bool
  t_f_stop :: bool
  t_f_restart :: bool
  t_f_boguspeercnt :: bool
  t_interval :: int
  t_default_interval :: int
  t_last_timestamp :: int
  t_refuse_click :: u32
  t_ok_click :: u32
  t_peers_count :: u32
  t_seeds_count :: u32
  t_prevpeers :: u32
  t_report_time :: int
  t_report_dl :: u64
  t_report_ul :: u64
  t_sock :: int
  t_sk_in :: isock
  t_sk_out :: osock
  t_request_buffer :: bufio
  t_response_buffer :: bufio

text \<open>
  A \<^verbatim>\<open>btTracker *\<close> is a number, \<open>mt_obj\<close> maps it to the object; \<open>mt_tiers\<close> are the tiers, each the list of its
  trackers.
\<close>

record multitracker =
  mt_obj :: "nat \<Rightarrow> bttracker"
  mt_tiers :: "nat list list"
  mt_tracker :: "nat option"
  mt_primary_url :: bytes
  mt_totaldl :: u64
  mt_nset :: int
  mt_result :: dt_result
  mt_report_time :: int
  mt_report_dl :: u64
  mt_report_ul :: u64
  mt_stop :: bool

definition tracker_Adjust :: "bttracker \<Rightarrow> bttracker" where
  "tracker_Adjust t =
     (if t_f_boguspeercnt t \<and> t_peers_count t \<noteq> 0 then t\<lparr>t_peers_count := t_peers_count t - 1\<rparr> else t)"

definition mt_Adjust :: "multitracker \<Rightarrow> multitracker" where
  "mt_Adjust m =
     (case mt_tracker m of
        None \<Rightarrow> m
      | Some k \<Rightarrow> m\<lparr>mt_obj := (mt_obj m)(k := tracker_Adjust (mt_obj m k))\<rparr>)"

definition mt_GetInterval :: "multitracker \<Rightarrow> int" where
  "mt_GetInterval m = (case mt_tracker m of None \<Rightarrow> 15 | Some k \<Rightarrow> t_default_interval (mt_obj m k))"

section \<open>The timers of the peer list\<close>

record sched =
  sc_listen_sock :: int
  sc_unchoke_check :: int
  sc_keepalive_check :: int
  sc_interval_time :: int
  sc_opt_interval :: int
  sc_missed :: u32
  sc_up_opt :: u32
  sc_prev_limit_up :: u32
  sc_readycnt :: u32
  sc_nset :: int
  sc_ul_limited :: bool
  sc_f_limitd :: bool
  sc_f_limitu :: bool

section \<open>Small instances\<close>

definition ex_net :: netenv where
  "ex_net = \<lparr>cfg_max_peers = 100, cfg_min_peers = 1, cfg_public_ip = None, cfg_listen_ip = 0, cfg_listen_port = 2706,
     cfg_user_agent = [0x64], n_socket = (\<lambda>k. 9), n_nonblock = (\<lambda>_. True), n_bind = (\<lambda>_. True), n_connect = (\<lambda>_. 0),
     n_so_error = (\<lambda>_. 0), n_script = (\<lambda>_. ([], ([], []))), n_accept = (\<lambda>_. None), n_inet_addr = (\<lambda>_. None),
     n_inet_ntoa = (\<lambda>_. [0x30]), n_gethostbyname = (\<lambda>_. Some 0x08080808), n_new = (\<lambda>_. True)\<rparr>"

definition ex_buf0 :: bufio where
  "ex_buf0 = \<lparr>m_buf = [], m_len = 0, m_size = 0, m_max = 2048, m_valid = True, m_socket_remote_closed = False\<rparr>"

definition ex_tracker :: bttracker where
  "ex_tracker = \<lparr>t_spec = Some \<lparr>sp_url = [0x75], sp_host = [0x68], sp_request = [0x2F], sp_port = 80\<rparr>, t_redirect = None,
     t_key = replicate 8 0x41, t_trackerid = [], t_status = DT_TRACKER_FREE, t_result = DT_NORMAL, t_f_started = False,
     t_f_completed = False, t_f_stop = False, t_f_restart = False, t_f_boguspeercnt = False, t_interval = 15,
     t_default_interval = 1800, t_last_timestamp = 0, t_refuse_click = 0, t_ok_click = 0, t_peers_count = 0,
     t_seeds_count = 0, t_prevpeers = 0, t_report_time = 0, t_report_dl = 0, t_report_ul = 0, t_sock = INVALID_SOCKET,
     t_sk_in = [], t_sk_out = ([], []), t_request_buffer = ex_buf0, t_response_buffer = ex_buf0\<rparr>"

definition ex_multitracker :: multitracker where
  "ex_multitracker = \<lparr>mt_obj = (\<lambda>_. ex_tracker), mt_tiers = [[0]], mt_tracker = None, mt_primary_url = [0x75], mt_totaldl = 0,
     mt_nset = 0, mt_result = DT_NORMAL, mt_report_time = 0, mt_report_dl = 0, mt_report_ul = 0, mt_stop = False\<rparr>"

definition ex_sched :: sched where
  "ex_sched = \<lparr>sc_listen_sock = 3, sc_unchoke_check = 100, sc_keepalive_check = 100, sc_interval_time = 100,
     sc_opt_interval = 30, sc_missed = 0, sc_up_opt = 0, sc_prev_limit_up = 0, sc_readycnt = 0, sc_nset = 0,
     sc_ul_limited = False, sc_f_limitd = False, sc_f_limitu = False\<rparr>"

end
