(* ===== verification/World.thy ===== *)
theory World
  imports Request_Queue Btstream Rate Store Net
begin

text \<open>
  The global state of the client and the accessors its components use.

  The objects of the program refer to each other through the globals \<^verbatim>\<open>WORLD\<close> (the peer list),
  \<^verbatim>\<open>BTCONTENT\<close>, \<^verbatim>\<open>PENDING\<close> and \<^verbatim>\<open>Self\<close>, so their methods are functions of one record \<open>world\<close> that
  holds all of them, with \<^verbatim>\<open>TRACKER\<close> and \<^verbatim>\<open>IPQUEUE\<close>; a \<^verbatim>\<open>btPeer *\<close> is a number and \<open>w_peers\<close> maps it to the object.  \<open>env\<close> holds what does
  not change while the methods run: the configuration (\<^verbatim>\<open>cfg_*\<close>), which allocations succeed, the values
  \<^verbatim>\<open>random()\<close> and \<^verbatim>\<open>RandBits\<close> deliver (by the number \<open>w_rnd\<close> of the use), and the value an uninitialised
  variable happens to have; \<open>e_os\<close> is the operating system behind the files, \<open>e_time\<close> and \<open>e_precise\<close> are the clock by
  the number \<open>w_tick\<close> of the reading.  A copy of a \<^verbatim>\<open>Bitfield\<close> is the same value.
  Debug output is left out, and so are the rate measurements made for it with \<^verbatim>\<open>cfg_verbose\<close>.
\<close>

datatype dt_peerstatus = DT_PEER_CONNECTING | DT_PEER_HANDSHAKE | DT_PEER_SUCCESS | DT_PEER_FAILED

abbreviation HAVEQ_SIZE :: nat where "HAVEQ_SIZE \<equiv> 5"

text \<open>\<^verbatim>\<open>btPeer\<close> with its base class \<^verbatim>\<open>btBasic\<close>.\<close>

record btpeer =
  pr_sin :: "u32 \<times> u16"
  pr_dl :: rate
  pr_ul :: rate
  pr_last_timestamp :: int
  pr_unchoke_timestamp :: int
  pr_status :: dt_peerstatus
  pr_f_keepalive :: bool
  pr_bad_health :: bool
  pr_standby :: bool
  pr_want_again :: bool
  pr_connect :: bool
  pr_retried :: bool
  pr_connect_seed :: bool
  pr_requested :: bool
  pr_prefetch_completion :: nat
  pr_deferred_dl :: bool
  pr_deferred_ul :: bool
  remote_choked :: bool
  remote_interested :: bool
  local_choked :: bool
  local_interested :: bool
  pr_cached_idx :: u32
  pr_err_count :: int
  pr_req_send :: u32
  pr_req_out :: u32
  pr_latency :: int
  pr_prev_dlrate :: u32
  pr_latency_timestamp :: int
  pr_health_time :: int
  pr_receive_time :: int
  pr_next_send_time :: int
  pr_lastmsg :: int
  pr_choketime :: int
  pr_prefetch_time :: int
  pr_cancel_time :: int
  pr_last_req_piece :: u32
  pr_haveq :: "u32 list"
  pr_id :: bytes
  pr_bitfield :: bitfield
  pr_stream :: btstream
  pr_request_q :: rqueue
  pr_respond_q :: rqueue
  pr_readycnt :: u32

text \<open>
  \<^verbatim>\<open>btContent\<close>: the piece sets, the file filters that remain, the state of checking, seeding and
  flushing, the store of the data, the hash table of the metainfo and counters.  \<open>c_current\<close> is the position of \<^verbatim>\<open>m_current_filter\<close> in the list.
\<close>

record content =
  c_geo :: geometry
  c_BF :: bitfield
  c_BChecked :: bitfield
  c_BMultPeer :: bitfield
  c_BMasterFilter :: bitfield
  c_filters :: "bitfield list"
  c_current :: "nat option"
  c_check_piece :: u32
  c_seed_timestamp :: int
  c_left_bytes :: u64
  c_flush_failed :: bool
  c_store :: store
  c_nfiles :: u32
  c_hash_table :: bytes
  c_hash_failures :: u32
  c_dup_blocks :: u32
  c_unwanted_blocks :: u32
  c_shake_buffer :: bytes

abbreviation c_files :: "content \<Rightarrow> btfile list" where "c_files c \<equiv> m_btfhead (st_files (c_store c))"

record env =
  cfg_req_slice_size :: u32
  cfg_max_bandwidth_up :: u32
  cfg_max_bandwidth_down :: u32
  cfg_file_to_download :: bool
  e_mem :: "nat \<Rightarrow> bool"
  e_buf_mem :: "nat \<Rightarrow> bool"
  e_sample_mem :: "nat \<Rightarrow> bool"
  e_rand :: "nat \<Rightarrow> nat"
  e_bits3 :: "nat \<Rightarrow> nat"
  e_bits :: "nat \<Rightarrow> nat \<Rightarrow> bool"
  e_junk :: u32
  e_os :: osenv
  e_open_depth :: nat
  e_cache_mem :: "nat \<Rightarrow> bool"
  e_time :: "nat \<Rightarrow> int"
  e_precise :: "nat \<Rightarrow> rat"
  e_net :: netenv

record world =
  w_peers :: "nat \<Rightarrow> btpeer"
  w_head :: "nat list"
  w_dead :: "nat list"
  w_next_dl :: "nat list"
  w_next_ul :: "nat list"
  w_peers_count :: u32
  w_seeds_count :: u32
  w_conn_count :: u32
  w_downloads :: u32
  w_max_unchoke :: u32
  w_defer_count :: u32
  w_upload_count :: u32
  w_dup_req_pieces :: u32
  w_opt_timestamp :: int
  w_f_pause :: bool
  w_endgame :: bool
  w_content :: content
  w_pending :: rqueue
  w_self_dl :: rate
  w_self_ul :: rate
  w_self_sin :: "u32 \<times> u16"
  w_now :: int
  w_slices :: nat
  w_rnd :: nat
  w_tick :: nat
  w_unchoke_interval :: int
  w_tracker :: multitracker
  w_sched :: sched
  w_ipq :: iplist

section \<open>Peers of a world\<close>

abbreviation peer :: "world \<Rightarrow> nat \<Rightarrow> btpeer" where
  "peer w i \<equiv> w_peers w i"

definition upd_peer :: "nat \<Rightarrow> (btpeer \<Rightarrow> btpeer) \<Rightarrow> world \<Rightarrow> world" where
  "upd_peer i f w = w\<lparr>w_peers := (w_peers w)(i := f (w_peers w i))\<rparr>"

definition upd_content :: "(content \<Rightarrow> content) \<Rightarrow> world \<Rightarrow> world" where
  "upd_content f w = w\<lparr>w_content := f (w_content w)\<rparr>"

text \<open>A method of the stream of a peer.\<close>

definition on_stream :: "nat \<Rightarrow> (btstream \<Rightarrow> int \<times> btstream) \<Rightarrow> world \<Rightarrow> int \<times> world" where
  "on_stream i f w =
     (let (r, s) = f (pr_stream (peer w i)) in (r, upd_peer i (\<lambda>p. p\<lparr>pr_stream := s\<rparr>) w))"

abbreviation is_success :: "world \<Rightarrow> nat \<Rightarrow> bool" where
  "is_success w i \<equiv> pr_status (peer w i) = DT_PEER_SUCCESS"

abbreviation is_failed :: "world \<Rightarrow> nat \<Rightarrow> bool" where
  "is_failed w i \<equiv> pr_status (peer w i) = DT_PEER_FAILED"

section \<open>Rates of a peer\<close>

definition RateDL :: "env \<Rightarrow> nat \<Rightarrow> world \<Rightarrow> u32 \<times> world" where
  "RateDL e i w =
     (let (v, r) = RateMeasure (e_sample_mem e) (w_now w) (pr_dl (peer w i))
      in (v, upd_peer i (\<lambda>p. p\<lparr>pr_dl := r\<rparr>) w))"

definition NominalDL :: "nat \<Rightarrow> world \<Rightarrow> u32 \<times> world" where
  "NominalDL i w =
     (let (v, r) = NominalRate (w_now w) (pr_dl (peer w i)) in (v, upd_peer i (\<lambda>p. p\<lparr>pr_dl := r\<rparr>) w))"

definition StartDLTimer :: "nat \<Rightarrow> world \<Rightarrow> world" where
  "StartDLTimer i w = upd_peer i (\<lambda>p. p\<lparr>pr_dl := StartTimer (w_now w) (pr_dl p)\<rparr>) w"

definition StartULTimer :: "nat \<Rightarrow> world \<Rightarrow> world" where
  "StartULTimer i w = upd_peer i (\<lambda>p. p\<lparr>pr_ul := StartTimer (w_now w) (pr_ul p)\<rparr>) w"

definition StopDLTimer :: "env \<Rightarrow> nat \<Rightarrow> world \<Rightarrow> world" where
  "StopDLTimer e i w = upd_peer i (\<lambda>p. p\<lparr>pr_dl := StopTimer (e_sample_mem e) (w_now w) (pr_dl p)\<rparr>) w"

definition StopULTimer :: "env \<Rightarrow> nat \<Rightarrow> world \<Rightarrow> world" where
  "StopULTimer e i w = upd_peer i (\<lambda>p. p\<lparr>pr_ul := StopTimer (e_sample_mem e) (w_now w) (pr_ul p)\<rparr>) w"

definition ResetDLTimer :: "nat \<Rightarrow> world \<Rightarrow> world" where
  "ResetDLTimer i w = upd_peer i (\<lambda>p. p\<lparr>pr_dl := Reset (pr_dl p)\<rparr>) w"

definition DataRecd :: "u32 \<Rightarrow> nat \<Rightarrow> world \<Rightarrow> world" where
  "DataRecd nby i w =
     (let (r, s) = CountAdd nby (pr_dl (peer w i)) (Some (w_self_dl w))
      in (upd_peer i (\<lambda>p. p\<lparr>pr_dl := r\<rparr>) w)\<lparr>w_self_dl := the s\<rparr>)"

definition DataUnRec :: "u32 \<Rightarrow> nat \<Rightarrow> world \<Rightarrow> world" where
  "DataUnRec nby i w =
     (let (r, s) = UnCount nby (pr_dl (peer w i)) (Some (w_self_dl w))
      in (upd_peer i (\<lambda>p. p\<lparr>pr_dl := r\<rparr>) w)\<lparr>w_self_dl := the s\<rparr>)"

definition SetDLRate :: "env \<Rightarrow> rate \<Rightarrow> nat \<Rightarrow> world \<Rightarrow> world" where
  "SetDLRate e ra i w = StopDLTimer e i (upd_peer i (\<lambda>p. p\<lparr>pr_dl := CopyRate (w_now w) ra (pr_dl p)\<rparr>) w)"

definition SetULRate :: "env \<Rightarrow> rate \<Rightarrow> nat \<Rightarrow> world \<Rightarrow> world" where
  "SetULRate e ra i w = StopULTimer e i (upd_peer i (\<lambda>p. p\<lparr>pr_ul := CopyRate (w_now w) ra (pr_ul p)\<rparr>) w)"

section \<open>Rotation queues\<close>

text \<open>
  The linked lists of the rotation queues are lists of peers.
\<close>

definition bw_wait :: "nat \<Rightarrow> nat list \<Rightarrow> nat list" where
  "bw_wait i q = (if i \<in> set q then q else q @ [i])"

definition bw_drop :: "nat \<Rightarrow> nat list \<Rightarrow> nat list" where
  "bw_drop i q = remove1 i q"

text \<open>\<^verbatim>\<open>BWReQueue\<close> loses a peer that is not the last one of the queue.\<close>

definition bw_requeue :: "nat \<Rightarrow> nat list \<Rightarrow> nat list" where
  "bw_requeue i q = (if tl (dropWhile (\<lambda>j. j \<noteq> i) q) = [] then q else remove1 i q)"

definition WaitDL :: "nat \<Rightarrow> world \<Rightarrow> world" where
  "WaitDL i w = w\<lparr>w_next_dl := bw_wait i (w_next_dl w)\<rparr>"

definition WaitUL :: "nat \<Rightarrow> world \<Rightarrow> world" where
  "WaitUL i w = w\<lparr>w_next_ul := bw_wait i (w_next_ul w)\<rparr>"

definition DontWaitDL :: "nat \<Rightarrow> world \<Rightarrow> world" where
  "DontWaitDL i w = w\<lparr>w_next_dl := bw_drop i (w_next_dl w)\<rparr>"

definition DontWaitUL :: "nat \<Rightarrow> world \<Rightarrow> world" where
  "DontWaitUL i w = w\<lparr>w_next_ul := bw_drop i (w_next_ul w)\<rparr>"

definition ReQueueUL :: "nat \<Rightarrow> world \<Rightarrow> world" where
  "ReQueueUL i w = w\<lparr>w_next_ul := bw_requeue i (w_next_ul w)\<rparr>"

definition IsNextDL :: "nat \<Rightarrow> world \<Rightarrow> bool" where
  "IsNextDL i w \<longleftrightarrow> (case w_next_dl w of [] \<Rightarrow> True | j # _ \<Rightarrow> i = j)"

definition IsNextUL :: "nat \<Rightarrow> world \<Rightarrow> bool" where
  "IsNextUL i w \<longleftrightarrow> (case w_next_ul w of [] \<Rightarrow> True | j # _ \<Rightarrow> i = j)"

section \<open>Content\<close>

abbreviation npieces :: "world \<Rightarrow> u32" where
  "npieces w \<equiv> g_npieces (c_geo (w_content w))"

abbreviation piece_length :: "world \<Rightarrow> u32" where
  "piece_length w \<equiv> g_piece_length (c_geo (w_content w))"

definition IsFull_c :: "world \<Rightarrow> bool" where
  "IsFull_c w \<longleftrightarrow> IsFull (npieces w) (c_BF (w_content w))"

definition Seeding :: "env \<Rightarrow> world \<Rightarrow> bool" where
  "Seeding e w \<longleftrightarrow> IsFull_c w \<or> c_flush_failed (w_content w) \<or>
     cfg_file_to_download e \<and> c_current (w_content w) = None"

definition GetFilter :: "content \<Rightarrow> bitfield option" where
  "GetFilter c = (case c_current c of None \<Rightarrow> None | Some k \<Rightarrow> Some (c_filters c ! k))"

text \<open>\<^verbatim>\<open>GetNextFilter\<close> with a filter of the list, given by its position, and with the null pointer.\<close>

definition GetNextFilter :: "nat option \<Rightarrow> content \<Rightarrow> nat option" where
  "GetNextFilter k c =
     (let j = (case k of None \<Rightarrow> 0 | Some k \<Rightarrow> k + 1) in if j < length (c_filters c) then Some j else None)"

text \<open>\<^verbatim>\<open>Or\<close>, \<^verbatim>\<open>Except\<close> with a pointer that may be null.\<close>

definition Or_opt :: "u32 \<Rightarrow> bitfield \<Rightarrow> bitfield option \<Rightarrow> bitfield" where
  "Or_opt n bf other = (case other of None \<Rightarrow> bf | Some b \<Rightarrow> Or_bf n bf b)"

definition Except_opt :: "u32 \<Rightarrow> bitfield \<Rightarrow> bitfield option \<Rightarrow> bitfield" where
  "Except_opt n bf other = (case other of None \<Rightarrow> bf | Some b \<Rightarrow> Except n bf b)"

text \<open>
  \<^verbatim>\<open>CheckFilter\<close>: the loop advances to the first filter, from the current one, that leaves something to
  get; when there is none all filters go.
\<close>

fun advance_filter :: "u32 \<Rightarrow> bitfield \<Rightarrow> nat \<Rightarrow> bitfield list \<Rightarrow> nat option" where
  "advance_filter n have k [] = None"
| "advance_filter n have k (f # fs) =
     (if IsFull n (Or_bf n have f) then advance_filter n have (k + 1) fs else Some k)"

definition CheckFilter :: "content \<Rightarrow> content" where
  "CheckFilter c =
     (if c_filters c = [] then c
      else
        (let start = (case c_current c of None \<Rightarrow> 0 | Some k \<Rightarrow> k);
             c = c\<lparr>c_current := advance_filter (g_npieces (c_geo c)) (c_BF c) start (drop start (c_filters c))\<rparr>;
             c = (if c_current c = None then c\<lparr>c_filters := []\<rparr> else c)
         in if c_seed_timestamp c \<noteq> 0 \<and> c_current c \<noteq> None then c\<lparr>c_seed_timestamp := 0\<rparr> else c))"

definition GetNeedBytes :: "content \<Rightarrow> u64" where
  "GetNeedBytes c =
     (if IsEmpty (c_BMasterFilter c) then c_left_bytes c
      else
        (let n = g_npieces (c_geo c);
             tmp = Except n (Invert n (c_BF c)) (c_BMasterFilter c)
         in ucast (g_piece_length (c_geo c)) * ucast (Count tmp) -
            ucast (if IsSet n tmp (n - 1) then g_piece_length (c_geo c) - GetPieceLength (c_geo c) (n - 1) else 0)))"

section \<open>Updating a peer\<close>

lemma upd_peer_peer [simp]: "w_peers (upd_peer i f w) j = (if j = i then f (w_peers w i) else w_peers w j)"
  by (simp add: upd_peer_def)

lemma upd_peer_sel [simp]:
  "w_head (upd_peer i f w) = w_head w" "w_dead (upd_peer i f w) = w_dead w"
  "w_next_dl (upd_peer i f w) = w_next_dl w" "w_next_ul (upd_peer i f w) = w_next_ul w"
  "w_content (upd_peer i f w) = w_content w" "w_pending (upd_peer i f w) = w_pending w"
  "w_now (upd_peer i f w) = w_now w" "w_slices (upd_peer i f w) = w_slices w"
  "w_dup_req_pieces (upd_peer i f w) = w_dup_req_pieces w" "w_f_pause (upd_peer i f w) = w_f_pause w"
  "w_endgame (upd_peer i f w) = w_endgame w" "w_peers_count (upd_peer i f w) = w_peers_count w"
  "w_conn_count (upd_peer i f w) = w_conn_count w" "w_seeds_count (upd_peer i f w) = w_seeds_count w"
  "w_downloads (upd_peer i f w) = w_downloads w" "w_max_unchoke (upd_peer i f w) = w_max_unchoke w"
  by (simp_all add: upd_peer_def)

lemma Seeding_upd_peer [simp]: "Seeding e (upd_peer i f w) = Seeding e w"
  by (simp add: Seeding_def IsFull_c_def)

lemma IsFull_c_upd_peer [simp]: "IsFull_c (upd_peer i f w) = IsFull_c w"
  by (simp add: IsFull_c_def)

lemma on_streamE:
  assumes "on_stream i f w = (r, w')"
  obtains s where "f (pr_stream (peer w i)) = (r, s)" "w' = upd_peer i (\<lambda>p. p\<lparr>pr_stream := s\<rparr>) w"
  using assms by (auto simp: on_stream_def split: prod.splits)

section \<open>A small world for the closed instances\<close>

text \<open>A torrent of four pieces; the client has piece 0, peers 1 and 2 are connected.\<close>

definition ex_out :: bufio where
  "ex_out = \<lparr>m_buf = replicate 24 0, m_len = 0, m_size = 24, m_max = 1024, m_valid = True, m_socket_remote_closed = False\<rparr>"

definition ex_peer :: btpeer where
  "ex_peer = \<lparr>pr_sin = (0x0A000001, 6881), pr_dl = Rate, pr_ul = Rate, pr_last_timestamp = 100,
     pr_unchoke_timestamp = 0, pr_status = DT_PEER_SUCCESS, pr_f_keepalive = False, pr_bad_health = False,
     pr_standby = False, pr_want_again = True, pr_connect = True, pr_retried = False, pr_connect_seed = False,
     pr_requested = False, pr_prefetch_completion = 0, pr_deferred_dl = False, pr_deferred_ul = False,
     remote_choked = False, remote_interested = True, local_choked = True, local_interested = True,
     pr_cached_idx = 4, pr_err_count = 0, pr_req_send = 5, pr_req_out = 0, pr_latency = 0, pr_prev_dlrate = 0,
     pr_latency_timestamp = 0, pr_health_time = 100, pr_receive_time = 100, pr_next_send_time = 100, pr_lastmsg = 1,
     pr_choketime = 100, pr_prefetch_time = 0, pr_cancel_time = 0, pr_last_req_piece = 4,
     pr_haveq = replicate HAVEQ_SIZE 4, pr_id = [], pr_bitfield = Set 4 3 (Set 4 1 (bf_new 4)),
     pr_stream = ex_stream\<lparr>out_buffer := ex_out\<rparr>, pr_request_q = rq_new, pr_respond_q = rq_new, pr_readycnt = 0\<rparr>"

definition ex_os0 :: osenv where
  "ex_os0 = \<lparr>os_open = (\<lambda>_. Opened), os_path = (\<lambda>_. True), os_mkdir = (\<lambda>_. True), os_seek = (\<lambda>_. True),
     os_read = (\<lambda>_. True), os_write = (\<lambda>_. None), os_memory = (\<lambda>_. True), os_stale = 0\<rparr>"

definition ex_store :: store where
  "ex_store = \<lparr>st_files = \<lparr>m_btfhead = [], m_total_files_length = 100000, m_total_opened = 0, m_stagedir = None,
       m_stagecount = 0, m_write_failed = False, m_write_tried = 0, m_automanage = True, m_need_merge = False,
       bs_next_id = 1, bs_calls = 0, g_disk_access = False\<rparr>,
     st_node = (\<lambda>_. None), m_cache = (\<lambda>_. []), m_age = [], st_next = 0, m_cache_size = 65536, m_cache_used = 0,
     m_cache_hit = 0, m_cache_miss = 0, m_cache_pre = 0, m_cache_eval_time = 0, m_flushq = [], m_flush_tried = 0,
     cfg_cache_size = 1, global_piece_buffer = []\<rparr>"

definition ex_content :: content where
  "ex_content = \<lparr>c_geo = ex_geo, c_BF = Set 4 0 (bf_new 4), c_BChecked = SetAll 4 (bf_new 4), c_BMultPeer = bf_new 4,
     c_BMasterFilter = bf_new 4, c_filters = [], c_current = None, c_check_piece = 4, c_seed_timestamp = 0,
     c_left_bytes = 67232, c_flush_failed = False,
     c_store = ex_store\<lparr>st_files := (st_files ex_store)\<lparr>m_btfhead := [\<lparr>bf_id = 0, bf_length = 100000, bf_offset = 0, bf_size = 0, bf_last_timestamp = 0, bf_opened = False,
       bf_readonly = False, bf_staging = False, bf_dir = None, bf_data = []\<rparr>]\<rparr>\<rparr>, c_nfiles = 1,
     c_hash_table = [], c_hash_failures = 0, c_dup_blocks = 0, c_unwanted_blocks = 0, c_shake_buffer = []\<rparr>"

definition ex_env :: env where
  "ex_env = \<lparr>cfg_req_slice_size = 16384, cfg_max_bandwidth_up = 0, cfg_max_bandwidth_down = 0,
     cfg_file_to_download = False, e_mem = (\<lambda>_. True), e_buf_mem = (\<lambda>_. True), e_sample_mem = (\<lambda>_. True),
     e_rand = (\<lambda>k. k * 7 + 3), e_bits3 = (\<lambda>k. k mod 8), e_bits = (\<lambda>k j. even (j + k)), e_junk = 0xDEADBEEF, e_os = ex_os0,
     e_open_depth = 1, e_cache_mem = (\<lambda>_. True), e_time = (\<lambda>k. 120), e_precise = (\<lambda>k. 120), e_net = ex_net\<rparr>"

definition ex_world :: world where
  "ex_world = \<lparr>w_peers = (\<lambda>_. ex_peer), w_head = [1, 2], w_dead = [], w_next_dl = [], w_next_ul = [],
     w_peers_count = 2, w_seeds_count = 0, w_conn_count = 0, w_downloads = 2, w_max_unchoke = 3,
     w_defer_count = 0, w_upload_count = 0, w_dup_req_pieces = 0, w_opt_timestamp = 0, w_f_pause = False,
     w_endgame = False, w_content = ex_content, w_pending = rq_new, w_self_dl = Rate, w_self_ul = Rate,
     w_self_sin = (0x7F000001, 6881), w_now = 120, w_slices = 0, w_rnd = 0, w_tick = 0,
     w_unchoke_interval = 10, w_tracker = ex_multitracker, w_sched = ex_sched, w_ipq = ipl_new\<rparr>"

end
