(* ===== verification/Peer.thy ===== *)
theory Peer
  imports World
begin

text \<open>
  \<^verbatim>\<open>btPeer\<close> (\<^verbatim>\<open>src/peer.cpp\<close>): the state of one connection and the operations that concern its own
  queues, messages and timers; what they need of the other peers (\<open>RecalcDupReqs\<close>, \<open>UnStandby\<close>) is
  here as well.  Results below 0 are errors, upon which the caller closes the connection.
\<close>

section \<open>Creation and interest\<close>

text \<open>\<^verbatim>\<open>m_lastmsg\<close>, \<^verbatim>\<open>m_state.reserved\<close> and the deferral flags are not initialised: they are taken from \<open>raw\<close>.\<close>

definition btPeer :: "world \<Rightarrow> btstream \<Rightarrow> btpeer \<Rightarrow> btpeer" where
  "btPeer w st raw =
     (let now = w_now w; n = npieces w
      in raw\<lparr>pr_dl := Rate, pr_ul := Rate, pr_f_keepalive := False, pr_status := DT_PEER_CONNECTING,
        pr_unchoke_timestamp := 0, pr_last_timestamp := now, pr_next_send_time := now,
        remote_choked := True, local_choked := True, remote_interested := False, local_interested := False,
        pr_err_count := 0, pr_cached_idx := n, pr_last_req_piece := n, pr_standby := False,
        pr_req_send := 5, pr_req_out := 0, pr_latency := 0, pr_prev_dlrate := 0,
        pr_health_time := now, pr_receive_time := now, pr_choketime := now,
        pr_cancel_time := 0, pr_latency_timestamp := 0, pr_bad_health := False,
        pr_want_again := False, pr_connect := False, pr_retried := False, pr_connect_seed := False,
        pr_prefetch_time := 0, pr_requested := False, pr_prefetch_completion := 0, pr_readycnt := 0,
        pr_haveq := replicate HAVEQ_SIZE n, pr_bitfield := bf_new n, pr_stream := st,
        pr_request_q := rq_new, pr_respond_q := rq_new\<rparr>)"

definition CopyStats :: "env \<Rightarrow> btpeer \<Rightarrow> nat \<Rightarrow> world \<Rightarrow> world" where
  "CopyStats e old i w =
     upd_peer i (\<lambda>p. p\<lparr>pr_unchoke_timestamp := pr_unchoke_timestamp old, pr_retried := pr_retried old\<rparr>)
       (SetULRate e (pr_ul old) i (SetDLRate e (pr_dl old) i w))"

definition Need_Local_Data :: "nat \<Rightarrow> world \<Rightarrow> bool" where
  "Need_Local_Data i w =
     (let n = npieces w; bf = pr_bitfield (peer w i)
      in if IsFull n bf then False
         else if IsFull_c w then True
         else \<not> IsEmpty (Except n (c_BF (w_content w)) bf))"

definition Need_Remote_Data :: "env \<Rightarrow> nat \<Rightarrow> world \<Rightarrow> bool" where
  "Need_Remote_Data e i w =
     (let n = npieces w; c = w_content w; p = peer w i; bf = pr_bitfield p; q = pr_request_q p
      in if Seeding e w \<or> IsEmpty bf then False
         else if \<not> IsEmpty_q q \<and> \<not> IsSet n (c_BF c) (GetRequestIdx (c_geo c) q) then True
         else if IsFull n bf \<and> c_check_piece c \<ge> n then True
         else \<not> IsEmpty (And_bf n (Except n (Except n bf (c_BF c)) (c_BMasterFilter c)) (c_BChecked c)))"

section \<open>Errors of the peer\<close>

definition PeerError :: "int \<Rightarrow> nat \<Rightarrow> world \<Rightarrow> int \<times> world" where
  "PeerError weight i w =
     (let p = peer w i;
          cnt = (let c = pr_err_count p + weight in if c < 0 then 0 else c);
          w = upd_peer i (\<lambda>p. p\<lparr>pr_err_count := cnt\<rparr>) w
      in if 16 \<le> cnt then (-1, upd_peer i (\<lambda>p. p\<lparr>pr_want_again := False\<rparr>) w) else (0, w))"

section \<open>Outstanding requests\<close>

definition ReqQueueLength :: "env \<Rightarrow> world \<Rightarrow> u32" where
  "ReqQueueLength e w = (piece_length w div cfg_req_slice_size e) * 2 - 1"

definition MaxReqQueueLength :: "world \<Rightarrow> u32" where
  "MaxReqQueueLength w = (piece_length w div 1024) * 2 - 1"

text \<open>The test for an underflow of \<^verbatim>\<open>m_req_out\<close>.\<close>

definition fix_req_out :: "nat \<Rightarrow> world \<Rightarrow> world" where
  "fix_req_out i w =
     (if pr_req_out (peer w i) > MaxReqQueueLength w then upd_peer i (\<lambda>p. p\<lparr>pr_req_out := 0\<rparr>) w else w)"

text \<open>One \<^verbatim>\<open>CANCEL\<close> and its bookkeeping: what the three cancel functions have in common.\<close>

definition cancel_one :: "env \<Rightarrow> nat \<Rightarrow> u32 \<Rightarrow> slice \<Rightarrow> world \<Rightarrow> int \<times> world" where
  "cancel_one e i idx s w =
     (let (r, w) = on_stream i (Send_Cancel (e_buf_mem e) idx (sl_offset s) (sl_length s)) w
      in if r < 0 then (-1, w)
         else (0, upd_peer i (\<lambda>p. p\<lparr>pr_cancel_time := w_now w\<rparr>)
                    (fix_req_out i (upd_peer i (\<lambda>p. p\<lparr>pr_req_out := pr_req_out p - 1\<rparr>) w))))"

text \<open>
  The loop of \<^verbatim>\<open>CancelPiece\<close> over the slices of the piece.  \<open>idx\<close> is the local variable of that name:
  \<^verbatim>\<open>PeekPiece\<close> leaves it as it is, so it is not initialised before the second slice.
\<close>

fun cancel_piece_loop :: "env \<Rightarrow> nat \<Rightarrow> u32 \<Rightarrow> slice list \<Rightarrow> world \<Rightarrow> int \<times> world" where
  "cancel_piece_loop e i idx [] w = (0, w)"
| "cancel_piece_loop e i idx (s # ss) w =
     (let next = (case ss of [] \<Rightarrow> idx | t # _ \<Rightarrow> sl_index t)
      in if sl_sent s then
           (let (r, w) = cancel_one e i idx s w
            in if r < 0 then (-1, w) else cancel_piece_loop e i next ss w)
         else cancel_piece_loop e i next ss w)"

definition stop_if_idle :: "env \<Rightarrow> nat \<Rightarrow> world \<Rightarrow> world" where
  "stop_if_idle e i w =
     (if IsEmpty_q (pr_request_q (peer w i))
      then upd_peer i (\<lambda>p. p\<lparr>pr_standby := False\<rparr>) (StopDLTimer e i w) else w)"

definition CancelPiece :: "env \<Rightarrow> u32 \<Rightarrow> nat \<Rightarrow> world \<Rightarrow> int \<times> world" where
  "CancelPiece e piece i w =
     (case snd (FindPiece piece (rq_head (pr_request_q (peer w i)))) of
        [] \<Rightarrow> (0, w)
      | p # _ \<Rightarrow>
         (let (r, w) = cancel_piece_loop e i (e_junk e) (p_slices p) w
          in if r < 0 then (-1, w)
             else
               (let w = upd_peer i (\<lambda>p. p\<lparr>pr_request_q := snd (Delete (pr_request_q p) piece)\<rparr>) w;
                    w = stop_if_idle e i w
                in (1, if pr_req_out (peer w i) = 0 then DontWaitDL i w else w))))"

text \<open>\<^verbatim>\<open>CancelRequest\<close> stops at the first slice that was not sent.\<close>

fun cancel_all_loop :: "env \<Rightarrow> nat \<Rightarrow> slice list \<Rightarrow> world \<Rightarrow> int \<times> world" where
  "cancel_all_loop e i [] w = (0, w)"
| "cancel_all_loop e i (s # ss) w =
     (if sl_sent s then
        (let (r, w) = cancel_one e i (sl_index s) s w in if r < 0 then (-1, w) else cancel_all_loop e i ss w)
      else (0, w))"

definition CancelRequest :: "env \<Rightarrow> nat \<Rightarrow> world \<Rightarrow> int \<times> world" where
  "CancelRequest e i w =
     (let (r, w) = cancel_all_loop e i (all_slices (pr_request_q (peer w i))) w
      in if r < 0 then (-1, w)
         else (0, if pr_req_out (peer w i) = 0 then DontWaitDL i w else w))"

definition CancelSliceRequest :: "env \<Rightarrow> u32 \<Rightarrow> u32 \<Rightarrow> u32 \<Rightarrow> nat \<Rightarrow> world \<Rightarrow> int \<times> world" where
  "CancelSliceRequest e idx off len i w =
     (case FindSlice (pr_request_q (peer w i)) idx off len of
        None \<Rightarrow> (0, w)
      | Some s \<Rightarrow>
         (let (r, w) =
            (if sl_sent s then
               (let (r, w) = cancel_one e i idx s w
                in (r, if 0 \<le> r \<and> pr_req_out (peer w i) = 0 then DontWaitDL i w else w))
             else (0, w))
          in if r < 0 then (-1, w)
             else (1, stop_if_idle e i
                        (upd_peer i (\<lambda>p. p\<lparr>pr_request_q := snd (Remove (pr_request_q p) idx off len)\<rparr>) w))))"

text \<open>\<^verbatim>\<open>RequestSlice\<close> asks again for a slice that could not be saved.\<close>

definition RequestSlice :: "env \<Rightarrow> u32 \<Rightarrow> u32 \<Rightarrow> u32 \<Rightarrow> nat \<Rightarrow> world \<Rightarrow> int \<times> world" where
  "RequestSlice e idx off len i w =
     (let (r, a, q) = Requeue (e_mem e) (w_slices w) (pr_request_q (peer w i)) idx off len;
          w = (upd_peer i (\<lambda>p. p\<lparr>pr_request_q := q\<rparr>) w)\<lparr>w_slices := a\<rparr>
      in if r < 0 then (-1, w)
         else if r \<noteq> 0 then
           (let (r, w) = on_stream i (Send_Request (e_buf_mem e) idx off len) w
            in if r < 0 then (-1, w)
               else (0, upd_peer i (\<lambda>p. p\<lparr>pr_request_q := Sent_req (pr_request_q p) 0 idx off len,
                                         pr_req_out := pr_req_out p + 1, pr_receive_time := w_now w\<rparr>) w))
         else (0, w))"

section \<open>Giving requests back\<close>

text \<open>
  \<^verbatim>\<open>PeerList::RecalcDupReqs\<close> counts the pieces that are in more than one request queue, or in one and in
  the pending queue.
\<close>

definition dup_step :: "u32 \<Rightarrow> rqueue \<Rightarrow> u32 \<Rightarrow> bitfield \<times> bitfield \<Rightarrow> bitfield \<times> bitfield" where
  "dup_step n pend idx st =
     (let (rqbf, dupbf) = st
      in if IsSet n rqbf idx then (rqbf, Set n idx dupbf)
         else (Set n idx rqbf, if HasPiece pend idx then Set n idx dupbf else dupbf))"

definition RecalcDupReqs :: "world \<Rightarrow> world" where
  "RecalcDupReqs w =
     (let n = npieces w;
          idxs = concat (map (\<lambda>i. if is_success w i then map p_index (rq_head (pr_request_q (peer w i))) else []) (w_head w));
          (rqbf, dupbf) = fold (dup_step n (w_pending w)) idxs (bf_new n, bf_new n)
      in w\<lparr>w_dup_req_pieces := Count dupbf\<rparr>)"

definition UnStandby :: "world \<Rightarrow> world" where
  "UnStandby w = fold (\<lambda>i w. if is_success w i then upd_peer i (\<lambda>p. p\<lparr>pr_standby := False\<rparr>) w else w) (w_head w) w"

definition PutPending :: "env \<Rightarrow> nat \<Rightarrow> world \<Rightarrow> world" where
  "PutPending e i w =
     (let w = (if IsEmpty_q (pr_request_q (peer w i)) then w
               else
                 (let (ok, q, d) = Transfer (c_geo (w_content w)) (cfg_req_slice_size e) True
                                     (pr_request_q (peer w i)) (w_pending w);
                      w = (upd_peer i (\<lambda>p. p\<lparr>pr_request_q := q\<rparr>) w)\<lparr>w_pending := d\<rparr>
                  in UnStandby (if ok then w else RecalcDupReqs w)))
      in upd_peer i (\<lambda>p. p\<lparr>pr_req_out := 0\<rparr>) w)"

definition CloseConnection :: "env \<Rightarrow> nat \<Rightarrow> world \<Rightarrow> world" where
  "CloseConnection e i w =
     (let w = (if is_failed w i then w
               else PutPending e i
                 (upd_peer i (\<lambda>p. p\<lparr>pr_stream := st_Close (pr_stream p)\<rparr>)
                   (StopULTimer e i (StopDLTimer e i (upd_peer i (\<lambda>p. p\<lparr>pr_status := DT_PEER_FAILED\<rparr>) w)))))
      in DontWaitDL i (DontWaitUL i w))"

section \<open>The local state: choking and interest\<close>

definition set_choke :: "env \<Rightarrow> nat \<Rightarrow> world \<Rightarrow> bool \<times> world" where
  "set_choke e i w =
     (let w = upd_peer i (\<lambda>p. p\<lparr>pr_unchoke_timestamp := w_now w, local_choked := True\<rparr>) w;
          w = DontWaitUL i w;
          w = upd_peer i (\<lambda>p. p\<lparr>pr_respond_q := if IsEmpty_q (pr_respond_q p) then pr_respond_q p else Empty_q (pr_respond_q p)\<rparr>) w;
          w = StopULTimer e i w
      in if \<not> pr_requested (peer w i) \<and> IsFull_c w then (False, w)
         else (True, upd_peer i (\<lambda>p. p\<lparr>pr_requested := False\<rparr>) w))"

definition send_state :: "env \<Rightarrow> u8 \<Rightarrow> nat \<Rightarrow> world \<Rightarrow> int \<times> world" where
  "send_state e s i w = (let (r, w) = on_stream i (Send_State (e_buf_mem e) s) w in (if r < 0 then -1 else 0, w))"

definition SetLocal :: "env \<Rightarrow> u8 \<Rightarrow> nat \<Rightarrow> world \<Rightarrow> int \<times> world" where
  "SetLocal e s i w =
     (if s = BT_MSG_CHOKE then
        (if local_choked (peer w i) then (0, w)
         else (let (ok, w) = set_choke e i w in if \<not> ok then (-1, w) else send_state e s i w))
      else if s = BT_MSG_UNCHOKE then
        (let w = (if IsEmpty_q (pr_respond_q (peer w i)) then w else StartULTimer i w)
         in if \<not> local_choked (peer w i) then (0, w)
            else send_state e s i
                   (upd_peer i (\<lambda>p. p\<lparr>pr_unchoke_timestamp := w_now w, local_choked := False, pr_next_send_time := w_now w\<rparr>) w))
      else if s = BT_MSG_INTERESTED then
        (if Seeding e w then (0, w)
         else (let w = upd_peer i (\<lambda>p. p\<lparr>pr_standby := False\<rparr>) w
               in if local_interested (peer w i) then (0, w)
                  else send_state e s i (upd_peer i (\<lambda>p. p\<lparr>local_interested := True\<rparr>) w)))
      else if s = BT_MSG_NOT_INTERESTED then
        (if \<not> local_interested (peer w i) then (0, w)
         else
           (let w = upd_peer i (\<lambda>p. p\<lparr>local_interested := False\<rparr>) w
            in if IsEmpty_q (pr_request_q (peer w i)) then send_state e s i w
               else
                 (let (r, w) = CancelRequest e i w
                  in if r < 0 then (-1, w)
                     else send_state e s i (upd_peer i (\<lambda>p. p\<lparr>pr_request_q := Empty_q (pr_request_q p)\<rparr>) w))))
      else (-1, w))"

section \<open>Announcing pieces\<close>

text \<open>The queue of announcements: an entry that is not a piece index is free.\<close>

fun send_haves_loop :: "env \<Rightarrow> nat \<Rightarrow> nat \<Rightarrow> world \<Rightarrow> int \<times> world" where
  "send_haves_loop e i 0 w = (0, w)"
| "send_haves_loop e i (Suc k) w =
     (let j = HAVEQ_SIZE - Suc k
      in if pr_haveq (peer w i) ! j < npieces w then
           (let (r, w) = on_stream i (Send_Have (e_buf_mem e) (pr_haveq (peer w i) ! j)) w
            in if r < 0 then (-1, w)
               else send_haves_loop e i k (upd_peer i (\<lambda>p. p\<lparr>pr_haveq := (pr_haveq p)[j := npieces w]\<rparr>) w))
         else (0, w))"

definition SendHaves :: "env \<Rightarrow> nat \<Rightarrow> world \<Rightarrow> int \<times> world" where
  "SendHaves e i w = send_haves_loop e i HAVEQ_SIZE w"

definition QueueHave :: "env \<Rightarrow> u32 \<Rightarrow> nat \<Rightarrow> world \<Rightarrow> int \<times> world" where
  "QueueHave e idx i w =
     (if pr_haveq (peer w i) ! (HAVEQ_SIZE - 1) < npieces w then
        (let (r, w) = SendHaves e i w
         in if r < 0 then (-1, w)
            else (let (r, w) = on_stream i (Send_Have (e_buf_mem e) idx) w in (if r < 0 then -1 else 0, w)))
      else
        (let j = length (takeWhile (\<lambda>x. x < npieces w) (pr_haveq (peer w i)))
         in (0, upd_peer i (\<lambda>p. p\<lparr>pr_haveq := (pr_haveq p)[j := idx]\<rparr>) w)))"

section \<open>Health and readiness\<close>

text \<open>\<open>lit\<close> is what follows the empty literal in memory, see \<^const>\<open>Send_Keepalive\<close>.\<close>

definition AreYouOK :: "env \<Rightarrow> bytes \<Rightarrow> nat \<Rightarrow> world \<Rightarrow> int \<times> world" where
  "AreYouOK e lit i w =
     (let (r, w) = on_stream i (Send_Keepalive (e_buf_mem e) lit) (upd_peer i (\<lambda>p. p\<lparr>pr_f_keepalive := True\<rparr>) w)
      in (if r < 0 then -1 else 0, w))"

definition HealthCheck :: "env \<Rightarrow> bytes \<Rightarrow> nat \<Rightarrow> world \<Rightarrow> int \<times> world" where
  "HealthCheck e lit i w =
     (let now = w_now w; p = peer w i
      in if IsFull_c w then
           (if pr_health_time p \<le> now - 300 then
              (let w = upd_peer i (\<lambda>p. p\<lparr>pr_health_time := now\<rparr>) w
               in if \<not> remote_interested p then
                    (if pr_bad_health p then (-1, w) else (0, upd_peer i (\<lambda>p. p\<lparr>pr_bad_health := True\<rparr>) w))
                  else (0, upd_peer i (\<lambda>p. p\<lparr>pr_bad_health := False\<rparr>) w))
            else (0, w))
         else if pr_health_time p \<le> now - 60 then
           (let w = upd_peer i (\<lambda>p. p\<lparr>pr_health_time := now\<rparr>) w
            in if \<not> remote_choked p \<and> pr_req_out p \<noteq> 0 then
                 (let allowance = (if pr_latency p = 0 then 150 else if pr_latency p < 60 then 60 else pr_latency p)
                  in if pr_receive_time p < now - 2 * allowance then
                       (if pr_bad_health p then (-1, w)
                        else let (r, w) = PeerError 2 i w
                        in if r < 0 then (-1, w)
                        else let (r, w) = CancelRequest e i (upd_peer i (\<lambda>p. p\<lparr>pr_bad_health := True\<rparr>) w)
                        in (if r < 0 then -1 else 0, PutPending e i w))
                     else if pr_receive_time p < now - allowance then (0, snd (AreYouOK e lit i w))
                     else (0, upd_peer i (\<lambda>p. p\<lparr>pr_bad_health := False\<rparr>) w))
               else (0, upd_peer i (\<lambda>p. p\<lparr>pr_bad_health := False\<rparr>) w))
         else (0, w))"

definition IsEmpty_p :: "nat \<Rightarrow> world \<Rightarrow> bool" where
  "IsEmpty_p i w \<longleftrightarrow> IsEmpty (pr_bitfield (peer w i)) \<and> r_count_bytes (pr_ul (peer w i)) < ucast (piece_length w * 2)"

definition NeedPrefetch :: "nat \<Rightarrow> world \<Rightarrow> bool" where
  "NeedPrefetch i w \<longleftrightarrow> is_success w i \<and>
     (\<not> local_choked (peer w i) \<or>
      (\<not> IsFull_c w \<and> \<not> remote_choked (peer w i) \<and> pr_prefetch_completion (peer w i) < 2 \<and>
       LastSlice (pr_request_q (peer w i))))"

definition CheckSendStatus :: "nat \<Rightarrow> world \<Rightarrow> world" where
  "CheckSendStatus i w =
     (if pr_deferred_ul (peer w i) then upd_peer i (\<lambda>p. p\<lparr>pr_deferred_ul := False\<rparr>) (ReQueueUL i w) else w)"

definition NeedRead :: "bool \<Rightarrow> nat \<Rightarrow> world \<Rightarrow> bool" where
  "NeedRead limited i w \<longleftrightarrow>
     \<not> (is_success w i \<and> PeekMessage_is BT_MSG_PIECE (pr_stream (peer w i)) \<and> (\<not> IsNextDL i w \<or> limited))"

definition CouldRespondSlice :: "nat \<Rightarrow> world \<Rightarrow> bool" where
  "CouldRespondSlice i w =
     (let p = peer w i; ob = out_buffer (pr_stream p);
          need = unat (4 + BT_MSGLEN_PIECE + GetRequestLen (pr_respond_q p))
      in \<not> local_choked p \<and> (need \<le> LeftSize ob \<or> m_len ob + LeftSize ob < need))"

text \<open>
  The test shared by \<^verbatim>\<open>NeedWrite\<close> and \<^verbatim>\<open>RequestCheck\<close>: fewer than two requests are out, or what is out
  will have arrived in a second.  \<^verbatim>\<open>RateDL()\<close> is called twice, the second time in the same second.
\<close>

definition time_to_request :: "env \<Rightarrow> nat \<Rightarrow> world \<Rightarrow> bool \<times> world" where
  "time_to_request e i w =
     (if pr_req_out (peer w i) < 2 then (True, w)
      else let (rate, w) = RateDL e i w
      in if rate = 0 then (True, w)
      else let (rate, w) = RateDL e i w; p = peer w i
      in (rat_of_word ((pr_req_out p + 1) * GetRequestLen (pr_request_q p)) / rat_of_word rate - of_int (pr_latency p) \<le> 1, w))"

definition NeedWrite :: "env \<Rightarrow> bool \<Rightarrow> nat \<Rightarrow> world \<Rightarrow> bool \<times> world" where
  "NeedWrite e limited i w =
     (let p = peer w i
      in if m_len (out_buffer (pr_stream p)) \<noteq> 0 then (True, w)
         else if pr_status p = DT_PEER_CONNECTING then (True, w)
         else if w_f_pause w then (False, w)
         else if \<not> local_choked p \<and> \<not> IsEmpty_q (pr_respond_q p) \<and> \<not> limited then (True, w)
         else if \<not> remote_choked p \<and> local_interested p \<and> IsEmpty_q (pr_request_q p) \<and> \<not> pr_standby p then (True, w)
         else if rq_send (pr_request_q p) \<noteq> None \<and> pr_req_out p < pr_req_send p then time_to_request e i w
         else (False, w))"

section \<open>Announcements are conserved\<close>

text \<open>The announcements that wait, and the frames they become.\<close>

definition waiting_haves :: "nat \<Rightarrow> world \<Rightarrow> u32 list" where
  "waiting_haves i w = takeWhile (\<lambda>x. x < npieces w) (pr_haveq (peer w i))"

definition have_frames :: "u32 list \<Rightarrow> bytes" where
  "have_frames idxs = concat (map (\<lambda>x. frame (BT_MSG_HAVE # put_bt_int x)) idxs)"

text \<open>The free entries are the last ones.\<close>

definition free_haves :: "u32 \<Rightarrow> u32 list \<Rightarrow> bool" where
  "free_haves n xs \<longleftrightarrow> filter (\<lambda>x. x < n) xs = []"

lemma free_haves_simps [simp]:
  "free_haves n []" "free_haves n (x # xs) \<longleftrightarrow> \<not> x < n \<and> free_haves n xs"
  "free_haves n (xs @ ys) \<longleftrightarrow> free_haves n xs \<and> free_haves n ys"
  by (auto simp: free_haves_def)

definition haveq_ok :: "nat \<Rightarrow> world \<Rightarrow> bool" where
  "haveq_ok i w \<longleftrightarrow> length (pr_haveq (peer w i)) = HAVEQ_SIZE \<and>
     free_haves (npieces w) (dropWhile (\<lambda>x. x < npieces w) (pr_haveq (peer w i)))"

lemma have_frames_simps [simp]:
  "have_frames [] = []" "have_frames (x # xs) = frame (BT_MSG_HAVE # put_bt_int x) @ have_frames xs"
  "have_frames (xs @ ys) = have_frames xs @ have_frames ys"
  by (simp_all add: have_frames_def)

lemma Send_Have_ok:
  assumes "st_out_ok (pr_stream (peer w i))" "on_stream i (Send_Have mem idx) w = (r, w')"
  shows "st_out_ok (pr_stream (peer w' i))"
    "0 \<le> r \<Longrightarrow> st_log (pr_stream (peer w' i)) = st_log (pr_stream (peer w i)) @ have_frames [idx]"
    "pr_haveq (peer w' i) = pr_haveq (peer w i)" "w_content w' = w_content w"
  using assms(2) st_sink.put_ok[OF assms(1), of mem "put_bt_int 5 @ [4] @ put_bt_int idx"]
    st_sink.put_log[OF assms(1), of mem "put_bt_int 5 @ [4] @ put_bt_int idx"]
  by (auto elim!: on_streamE simp: Send_Have_def frame_def)

text \<open>The state of the loop with \<open>k\<close> entries left: those before are free.\<close>

definition half_sent :: "nat \<Rightarrow> nat \<Rightarrow> world \<Rightarrow> bool" where
  "half_sent i k w \<longleftrightarrow> length (pr_haveq (peer w i)) = HAVEQ_SIZE \<and> k \<le> HAVEQ_SIZE \<and>
     st_out_ok (pr_stream (peer w i)) \<and>
     free_haves (npieces w) (dropWhile (\<lambda>x. x < npieces w) (drop (HAVEQ_SIZE - k) (pr_haveq (peer w i)))) \<and>
     free_haves (npieces w) (take (HAVEQ_SIZE - k) (pr_haveq (peer w i)))"

lemma half_sent_0: "half_sent i 0 w \<longleftrightarrow> length (pr_haveq (peer w i)) = HAVEQ_SIZE \<and>
    st_out_ok (pr_stream (peer w i)) \<and> free_haves (npieces w) (pr_haveq (peer w i))"
  by (auto simp: half_sent_def)

lemma send_haves_loop_ok:
  assumes "half_sent i k w" "send_haves_loop e i k w = (r, w')"
  shows "st_out_ok (pr_stream (peer w' i)) \<and> w_content w' = w_content w \<and>
    (0 \<le> r \<longrightarrow> half_sent i 0 w' \<and>
      st_log (pr_stream (peer w' i)) = st_log (pr_stream (peer w i)) @
        have_frames (takeWhile (\<lambda>x. x < npieces w) (drop (HAVEQ_SIZE - k) (pr_haveq (peer w i)))))"
  using assms
proof (induction k arbitrary: w)
  case 0
  from 0(2) have "r = 0" "w' = w" by simp_all
  moreover have "st_out_ok (pr_stream (peer w i))" "drop HAVEQ_SIZE (pr_haveq (peer w i)) = []"
    using 0(1) by (simp_all add: half_sent_def)
  ultimately show ?case using 0(1) by simp
next
  case (Suc k)
  let ?q = "pr_haveq (peer w i)"
  define j where "j = HAVEQ_SIZE - Suc k"
  have hs: "length ?q = HAVEQ_SIZE" "Suc k \<le> HAVEQ_SIZE" "st_out_ok (pr_stream (peer w i))"
    "free_haves (npieces w) (dropWhile (\<lambda>x. x < npieces w) (drop j ?q))"
    "free_haves (npieces w) (take j ?q)"
    using Suc.prems(1) unfolding half_sent_def j_def by blast+
  have j: "j < length ?q" "HAVEQ_SIZE - k = Suc j" using hs(1,2) unfolding j_def by linarith+
  have d: "drop j ?q = ?q ! j # drop (Suc j) ?q" using j(1) by (simp add: Cons_nth_drop_Suc)
  have step: "send_haves_loop e i (Suc k) w =
    (if ?q ! j < npieces w then
       (let (r, w1) = on_stream i (Send_Have (e_buf_mem e) (?q ! j)) w
        in if r < 0 then (-1, w1)
           else send_haves_loop e i k (upd_peer i (\<lambda>p. p\<lparr>pr_haveq := (pr_haveq p)[j := npieces w1]\<rparr>) w1))
     else (0, w))"
    unfolding send_haves_loop.simps Let_def j_def by (rule refl)
  show ?case
  proof (cases "?q ! j < npieces w")
    case False
    have tw: "takeWhile (\<lambda>x. x < npieces w) (drop j ?q) = []" "dropWhile (\<lambda>x. x < npieces w) (drop j ?q) = drop j ?q"
      using False by (simp_all add: d)
    have "free_haves (npieces w) (take j ?q @ drop j ?q)"
      using hs(4,5) unfolding tw free_haves_simps by blast
    then have "half_sent i 0 w" using hs(1,3) unfolding append_take_drop_id half_sent_0 by blast
    moreover have "(r, w') = (0, w)" using Suc.prems(2) False unfolding step by simp
    ultimately show ?thesis using hs(1,3) tw unfolding j_def[symmetric] by simp
  next
    case True
    obtain r1 w1 where S: "on_stream i (Send_Have (e_buf_mem e) (?q ! j)) w = (r1, w1)" by force
    note H = Send_Have_ok[OF hs(3) S]
    define w2 where "w2 = upd_peer i (\<lambda>p. p\<lparr>pr_haveq := (pr_haveq p)[j := npieces w1]\<rparr>) w1"
    have q2: "pr_haveq (peer w2 i) = ?q[j := npieces w]" "w_content w2 = w_content w"
      "pr_stream (peer w2 i) = pr_stream (peer w1 i)"
      using H by (simp_all add: w2_def)
    have dr: "drop (HAVEQ_SIZE - k) (?q[j := npieces w]) = drop (Suc j) ?q" using j(2) by simp
    have tk: "take (HAVEQ_SIZE - k) (?q[j := npieces w]) = take j ?q @ [npieces w]"
      using j by (simp add: take_Suc_conv_app_nth)
    have "dropWhile (\<lambda>x. x < npieces w) (drop j ?q) = dropWhile (\<lambda>x. x < npieces w) (drop (Suc j) ?q)"
      using True by (simp add: d)
    with hs(4) have "free_haves (npieces w) (dropWhile (\<lambda>x. x < npieces w) (drop (Suc j) ?q))" by simp
    moreover have "free_haves (npieces w) (take j ?q @ [npieces w])" using hs(5) by auto
    ultimately have "half_sent i k w2" using hs(1,2) H(1) unfolding half_sent_def q2 dr tk by simp
    note IH = Suc.IH[OF this, unfolded q2 dr]
    show ?thesis
    proof (cases "r1 < 0")
      case neg: True
      then have "r = -1" "w' = w1" using Suc.prems(2) True S unfolding step by simp_all
      then show ?thesis using H by simp
    next
      case False
      then have "send_haves_loop e i k w2 = (r, w')" using Suc.prems(2) True S unfolding step w2_def by simp
      from IH[OF this] False H(2,4) True show ?thesis unfolding j_def[symmetric] d by simp
    qed
  qed
qed

lemma free_haves_empty: "free_haves n xs \<Longrightarrow> takeWhile (\<lambda>x. x < n) xs = [] \<and> dropWhile (\<lambda>x. x < n) xs = xs"
  by (cases xs) auto

lemma haveq_split:
  assumes "haveq_ok i w"
  obtains ys where "pr_haveq (peer w i) = waiting_haves i w @ ys" "free_haves (npieces w) ys"
    "length (waiting_haves i w) + length ys = HAVEQ_SIZE"
  using assms that[of "dropWhile (\<lambda>x. x < npieces w) (pr_haveq (peer w i))"]
  by (metis haveq_ok_def waiting_haves_def length_append takeWhile_dropWhile_id)

lemma haveq_full:
  assumes "haveq_ok i w" "pr_haveq (peer w i) ! (HAVEQ_SIZE - 1) < npieces w"
  shows "takeWhile (\<lambda>x. x < npieces w) (pr_haveq (peer w i)) = pr_haveq (peer w i)"
proof -
  obtain ys where ys: "pr_haveq (peer w i) = waiting_haves i w @ ys" "free_haves (npieces w) ys"
    "length (waiting_haves i w) + length ys = HAVEQ_SIZE" by (rule haveq_split[OF assms(1)])
  show ?thesis
  proof (cases ys rule: rev_cases)
    case Nil
    then show ?thesis using ys(1) by (simp add: waiting_haves_def)
  next
    case (snoc zs z)
    then have "pr_haveq (peer w i) ! (HAVEQ_SIZE - 1) = z"
      using ys(1,3) by (metis One_nat_def append.assoc append_butlast_last_id butlast_snoc diff_Suc_1 last_conv_nth last_snoc length_append snoc_eq_iff_butlast)
    then show ?thesis using assms(2) ys(2) snoc by simp
  qed
qed

lemma queue_one:
  assumes "haveq_ok i w" "idx < npieces w" "\<not> pr_haveq (peer w i) ! (HAVEQ_SIZE - 1) < npieces w"
  shows "haveq_ok i (upd_peer i (\<lambda>p. p\<lparr>pr_haveq := (pr_haveq p)[length (waiting_haves i w) := idx]\<rparr>) w) \<and>
    waiting_haves i (upd_peer i (\<lambda>p. p\<lparr>pr_haveq := (pr_haveq p)[length (waiting_haves i w) := idx]\<rparr>) w) =
      waiting_haves i w @ [idx]"
proof -
  obtain ys where ys: "pr_haveq (peer w i) = waiting_haves i w @ ys" "free_haves (npieces w) ys"
    "length (waiting_haves i w) + length ys = HAVEQ_SIZE" by (rule haveq_split[OF assms(1)])
  have all: "\<And>x. x \<in> set (waiting_haves i w) \<Longrightarrow> x < npieces w" by (auto simp: waiting_haves_def dest: set_takeWhileD)
  have ne: "ys \<noteq> []"
  proof
    assume "ys = []"
    then have "pr_haveq (peer w i) ! (HAVEQ_SIZE - 1) \<in> set (waiting_haves i w)" using ys(1,3) by simp
    then show False using all assms(3) by blast
  qed
  then obtain z zs where z: "ys = z # zs" by (cases ys) auto
  have upd: "(pr_haveq (peer w i))[length (waiting_haves i w) := idx] = waiting_haves i w @ idx # zs"
    by (simp add: ys(1) z)
  have tw: "takeWhile (\<lambda>x. x < npieces w) (waiting_haves i w @ idx # zs) = waiting_haves i w @ [idx]"
    "dropWhile (\<lambda>x. x < npieces w) (waiting_haves i w @ idx # zs) = zs"
    using all assms(2) ys(2) free_haves_empty[of "npieces w" zs] z by (auto simp: takeWhile_append2 dropWhile_append2)
  show ?thesis using ys(2,3) z tw
    by (simp add: haveq_ok_def waiting_haves_def[of i "upd_peer _ _ _"] upd)
qed

text \<open>
  C27: What the client announces to a peer is neither lost, duplicated nor reordered: the bytes sent
  followed by the frames of the announcements that wait grow by exactly the frame of a new one, also
  when a full queue is written out first; \<open>SendHaves\<close> empties the queue.
\<close>

theorem announcements_conserved:
  assumes q: "haveq_ok i w" and st: "st_out_ok (pr_stream (peer w i))" and idx: "idx < npieces w"
  shows "(let (r, w') = QueueHave e idx i w
      in st_out_ok (pr_stream (peer w' i)) \<and>
         (0 \<le> r \<longrightarrow> haveq_ok i w' \<and>
           st_log (pr_stream (peer w' i)) @ have_frames (waiting_haves i w') =
             st_log (pr_stream (peer w i)) @ have_frames (waiting_haves i w @ [idx]))) \<and>
    (let (r, w') = SendHaves e i w
      in st_out_ok (pr_stream (peer w' i)) \<and>
         (0 \<le> r \<longrightarrow> haveq_ok i w' \<and> waiting_haves i w' = [] \<and>
           st_log (pr_stream (peer w' i)) = st_log (pr_stream (peer w i)) @ have_frames (waiting_haves i w)))"
proof -
  have hs: "half_sent i HAVEQ_SIZE w" using q st by (simp add: half_sent_def haveq_ok_def)
  obtain r1 w1 where S: "SendHaves e i w = (r1, w1)" by force
  note L = send_haves_loop_ok[OF hs S[unfolded SendHaves_def]]
  have empty: "haveq_ok i w1 \<and> waiting_haves i w1 = []" if "0 \<le> r1"
    using L that by (auto simp: half_sent_0 haveq_ok_def waiting_haves_def free_haves_empty)
  show ?thesis
  proof (cases "pr_haveq (peer w i) ! (HAVEQ_SIZE - 1) < npieces w")
    case True
    then have f: "waiting_haves i w = pr_haveq (peer w i)"
      using q haveq_full[of i w] by (simp add: waiting_haves_def)
    obtain r2 w2 where S2: "on_stream i (Send_Have (e_buf_mem e) idx) w1 = (r2, w2)" by force
    have st1: "st_out_ok (pr_stream (peer w1 i))" using L by simp
    note H = Send_Have_ok[OF st1 S2]
    have Q: "QueueHave e idx i w = (if r1 < 0 then (-1, w1) else (if r2 < 0 then -1 else 0, w2))"
      using True by (simp add: QueueHave_def S S2)
    have "haveq_ok i w2 \<and> waiting_haves i w2 = []" if "0 \<le> r1"
      using empty[OF that] H(3,4) by (simp add: haveq_ok_def waiting_haves_def)
    then show ?thesis using Q S L H empty f by (simp add: waiting_haves_def)
  next
    case False
    define j where "j = length (waiting_haves i w)"
    define w2 where "w2 = upd_peer i (\<lambda>p. p\<lparr>pr_haveq := (pr_haveq p)[j := idx]\<rparr>) w"
    have Q: "QueueHave e idx i w = (0, w2)" using False by (simp add: QueueHave_def w2_def j_def waiting_haves_def)
    have "haveq_ok i w2 \<and> waiting_haves i w2 = waiting_haves i w @ [idx]"
      using queue_one[OF q idx False] by (simp add: w2_def j_def)
    then show ?thesis using Q S L empty st by (simp add: waiting_haves_def w2_def)
  qed
qed

theorem announcements_conserved_witness:
  "st_log (pr_stream (peer (snd (QueueHave ex_env 0 1 ex_world)) 1)) @
     have_frames (waiting_haves 1 (snd (QueueHave ex_env 0 1 ex_world))) = have_frames [0] \<and>
   waiting_haves 1 (snd (QueueHave ex_env 0 1 ex_world)) = [0]"
proof -
  have ok: "haveq_ok 1 ex_world" "st_out_ok (pr_stream (peer ex_world 1))" "0 < npieces ex_world"
    by code_simp+
  have "fst (QueueHave ex_env 0 1 ex_world) = 0" "st_log (pr_stream (peer ex_world 1)) = []"
    "waiting_haves 1 ex_world = []" "waiting_haves 1 (snd (QueueHave ex_env 0 1 ex_world)) = [0]" by code_simp+
  with announcements_conserved[OF ok, of ex_env] show ?thesis by (simp add: case_prod_beta)
qed

end
