(* ===== verification/Peerlist.thy ===== *)
theory Peerlist
  imports Peer
begin

text \<open>
  \<^verbatim>\<open>PeerList\<close> (\<^verbatim>\<open>src/peerlist.cpp\<close>): the operations over all peers.  \<open>w_head\<close> is the list from \<^verbatim>\<open>m_head\<close>;
  a loop over it is a \<^const>\<open>fold\<close> when it visits every peer.
\<close>

section \<open>Who has what\<close>

definition WhoHas :: "u32 \<Rightarrow> world \<Rightarrow> nat option" where
  "WhoHas idx w = find (\<lambda>i. HasPiece (pr_request_q (peer w i)) idx) (w_head w)"

definition HasSlice_w :: "u32 \<Rightarrow> u32 \<Rightarrow> u32 \<Rightarrow> world \<Rightarrow> bool" where
  "HasSlice_w idx off len w \<longleftrightarrow> (\<exists>i\<in>set (w_head w). HasSlice (pr_request_q (peer w i)) idx off len)"

definition CheckBitfield :: "bitfield \<Rightarrow> world \<Rightarrow> bitfield" where
  "CheckBitfield bf w =
     (let n = npieces w
      in fold (\<lambda>i bf. if \<not> is_success w i \<or> IsEmpty_q (pr_request_q (peer w i)) then bf
                      else Except n bf (QueuedPieces n (pr_request_q (peer w i)) (bf_new n))) (w_head w) bf)"

definition Pieces_I_Can_Get :: "world \<Rightarrow> bitfield" where
  "Pieces_I_Can_Get w =
     (let n = npieces w
      in if w_seeds_count w > 0 \<or> IsFull_c w then SetAll n (bf_new n)
         else fold (\<lambda>i bf. if IsFull n bf then bf
                           else if is_success w i then Or_bf n bf (pr_bitfield (peer w i)) else bf)
                (w_head w) (c_BF (w_content w)))"

text \<open>The state of \<^verbatim>\<open>FindValuedPieces\<close>: \<^verbatim>\<open>bf_all_have, bf_int_have, bf_others_have, bf_only_he_has\<close>.\<close>

definition valued_step ::
  "env \<Rightarrow> world \<Rightarrow> nat \<Rightarrow> bool \<Rightarrow> nat \<Rightarrow> bitfield \<times> bitfield \<times> bitfield \<times> bitfield \<Rightarrow> bitfield \<times> bitfield \<times> bitfield \<times> bitfield" where
  "valued_step e w proposer initial i st =
     (let n = npieces w; (all_have, int_have, others_have, only_he_has) = st; pb = pr_bitfield (peer w i)
      in if \<not> is_success w i \<or> i = proposer then st
         else
           (let int_have = (if Need_Remote_Data e i w then And_bf n int_have pb else int_have);
                all_have = And_bf n all_have pb
            in if \<not> initial \<and> \<not> IsFull n pb then (all_have, int_have, others_have, Except n only_he_has pb)
               else (all_have, int_have, Or_bf n others_have pb, only_he_has)))"

definition FindValuedPieces :: "env \<Rightarrow> bitfield \<Rightarrow> nat \<Rightarrow> bool \<Rightarrow> world \<Rightarrow> bitfield" where
  "FindValuedPieces e bf proposer initial w =
     (let n = npieces w;
          (all_have, int_have, others_have, only_he_has) =
            fold (valued_step e w proposer initial) (w_head w) (bf, bf, bf_new n, bf);
          all_have = (if \<not> IsFull n int_have then int_have else all_have);
          bf = And_bf n bf (Invert n all_have);
          tmp = And_bf n bf (if initial then others_have else only_he_has)
      in if \<not> IsEmpty tmp then tmp else bf)"

section \<open>Endgame\<close>

text \<open>Is the number of pieces left to get smaller than that of the connected peers?\<close>

definition few_left :: "bitfield \<Rightarrow> world \<Rightarrow> bool" where
  "few_left bf w \<longleftrightarrow> Count bf > 0 \<and> Count bf < w_peers_count w - w_conn_count w"

definition Endgame :: "world \<Rightarrow> bool \<times> world" where
  "Endgame w =
     (let n = npieces w; c = w_content w;
          endgame = few_left (Except_opt n (Invert n (c_BF c)) (GetFilter c)) w \<or>
                    few_left (Except n (Except_opt n (Pieces_I_Can_Get w) (GetFilter c)) (c_BF c)) w;
          w = (if endgame \<and> \<not> w_endgame w then UnStandby w
               else if \<not> endgame \<and> w_endgame w then RecalcDupReqs w else w)
      in (endgame, w\<lparr>w_endgame := endgame\<rparr>))"

section \<open>Choosing a peer whose requests to take over or to duplicate\<close>

text \<open>
  \<^verbatim>\<open>Who_Can_Abandon\<close>: the slowest peer (by nominal rate) that is slower than two thirds of the proposer
  and has a request for a piece the proposer could get.  \<open>best\<close> is the local \<^verbatim>\<open>peer\<close>.
\<close>

fun abandon_loop :: "nat \<Rightarrow> nat list \<Rightarrow> nat option \<Rightarrow> world \<Rightarrow> nat option \<times> world" where
  "abandon_loop proposer [] best w = (best, w)"
| "abandon_loop proposer (i # is) best w =
     (if \<not> is_success w i \<or> i = proposer \<or> IsEmpty_q (pr_request_q (peer w i)) then abandon_loop proposer is best w
      else
        (let (ri, w) = NominalDL i w;
             (slower, w) =
               (case best of
                  Some b \<Rightarrow> (let (rb, w) = NominalDL b w in (ri < rb, w))
                | None \<Rightarrow> (let (rp, w) = NominalDL proposer w in (3 * unat ri < 2 * unat rp, w)))
         in abandon_loop proposer is
              (if slower \<and> FindCommonRequest (c_geo (w_content w)) (pr_request_q (peer w i))
                             (pr_bitfield (peer w proposer)) (pr_request_q (peer w proposer)) < npieces w
               then Some i else best) w))"

definition Who_Can_Abandon :: "nat \<Rightarrow> world \<Rightarrow> nat option \<times> world" where
  "Who_Can_Abandon proposer w = abandon_loop proposer (w_head w) None w"

text \<open>
  \<^verbatim>\<open>What_Can_Duplicate\<close> measures the queues of the pieces to duplicate in a table of \<^verbatim>\<open>slots\<close> entries
  \<open>(idx, qlen, count)\<close>, open addressing from \<^verbatim>\<open>piece % slots\<close>; an entry whose index is not a piece is
  free.  \<open>probe\<close> is the search loop: it gives up when \<^verbatim>\<open>pass\<close> reaches 2.
\<close>

type_synonym qdata = "u32 \<times> u32 \<times> u32"

function probe :: "u32 \<Rightarrow> u32 \<Rightarrow> qdata list \<Rightarrow> nat \<Rightarrow> nat \<Rightarrow> nat option" where
  "probe n piece tab i pass =
     (if 2 \<le> pass then None
      else if fst (tab ! i) < n \<and> fst (tab ! i) \<noteq> piece then
        (if i + 1 \<ge> length tab then probe n piece tab 0 (pass + 1) else probe n piece tab (i + 1) pass)
      else Some i)"
  by pat_completeness auto
termination
  by (relation "measures [\<lambda>(n, piece, tab, i, pass). 2 - pass, \<lambda>(n, piece, tab, i, pass). length tab - i]") auto

declare probe.simps [simp del]

definition measure_piece :: "u32 \<Rightarrow> u32 \<Rightarrow> u32 \<Rightarrow> qdata list \<Rightarrow> qdata list" where
  "measure_piece n piece qsize tab =
     (case probe n piece tab (unat piece mod length tab) 0 of
        None \<Rightarrow> tab
      | Some i \<Rightarrow>
          (let (idx, qlen, cnt) = tab ! i;
               (idx, qlen) = (if idx = n then (piece, qsize) else (idx, qlen))
           in tab[i := (idx, qlen, cnt + 1)]))"

definition measure_queue :: "u32 \<Rightarrow> bitfield \<Rightarrow> rqueue \<Rightarrow> rqueue \<Rightarrow> qdata list \<Rightarrow> qdata list" where
  "measure_queue n bf own q tab =
     fold (\<lambda>p tab. if \<not> IsSet n bf (p_index p) \<or> HasPiece own (p_index p) then tab
                    else measure_piece n (p_index p) (Qlen q (p_index p)) tab) (rq_head q) tab"

text \<open>
  The selection: the longest remaining work per requester in endgame mode, the shortest in
  initial-piece mode, but more than one slice.
\<close>

fun best_slot :: "u32 \<Rightarrow> bool \<Rightarrow> nat \<Rightarrow> qdata list \<Rightarrow> rat \<Rightarrow> nat option \<Rightarrow> nat option" where
  "best_slot n endgame i [] best mark = mark"
| "best_slot n endgame i ((idx, qlen, cnt) # ds) best mark =
     (if idx = n then best_slot n endgame (i + 1) ds best mark
      else
        (let work = rat_of_word qlen / rat_of_word cnt
         in if 1 < work \<and> (if endgame then best < work else work < best)
            then best_slot n endgame (i + 1) ds work (Some i)
            else best_slot n endgame (i + 1) ds best mark))"

definition What_Can_Duplicate :: "env \<Rightarrow> bitfield \<Rightarrow> nat \<Rightarrow> u32 \<Rightarrow> world \<Rightarrow> u32 \<times> world" where
  "What_Can_Duplicate e bf proposer idx w =
     (let n = npieces w; c = w_content w; endgame = idx < n;
          slots = (if endgame then n - Count (c_BF c) else w_downloads w * 2);
          slots = (if slots < w_dup_req_pieces w + 2 then w_dup_req_pieces w + 2 else slots);
          bf = FindValuedPieces e bf proposer (\<not> endgame) w
      in if IsEmpty bf \<and> \<not> endgame then (n, w)
         else
           (let bf = (if IsEmpty bf then pr_bitfield (peer w proposer) else bf);
                own = pr_request_q (peer w proposer);
                tab = fold (\<lambda>i tab.
                    if \<not> is_success w i \<or> i = proposer then tab
                    else measure_queue n bf own (pr_request_q (peer w i)) tab)
                  (w_head w) (replicate (unat slots) (n, 0, 0));
                best = (if endgame then 0 else rat_of_word (piece_length w div cfg_req_slice_size e + 2))
            in case best_slot n endgame 0 tab best None of
                 None \<Rightarrow> (n, w)
               | Some m \<Rightarrow>
                   (fst (tab ! m),
                    if snd (snd (tab ! m)) = 1 then w\<lparr>w_dup_req_pieces := w_dup_req_pieces w + 1\<rparr> else w)))"

section \<open>Reordering and cancelling requests\<close>

text \<open>
  \<^verbatim>\<open>CompareRequest\<close>: every peer whose first request for the piece is the proposer's first one makes the
  proposer move that one last.  The loop of peers always runs to its end, so the test \<^verbatim>\<open>p && ...\<close> of the
  outer loop fails and its body runs once.
\<close>

definition compare_step :: "nat \<Rightarrow> u32 \<Rightarrow> nat \<Rightarrow> (u32 \<times> u32) \<times> world \<Rightarrow> (u32 \<times> u32) \<times> world" where
  "compare_step proposer idx i st =
     (let ((off, len), w) = st
      in if \<not> is_success w i \<or> IsEmpty_q (pr_request_q (peer w i)) \<or> proposer = i then st
         else
           (case fst (PeekPiece (pr_request_q (peer w i)) idx) of
              None \<Rightarrow> st
            | Some s \<Rightarrow>
               (if off = sl_offset s \<and> len = sl_length s then
                  (let w = upd_peer proposer (\<lambda>p. p\<lparr>pr_request_q := MoveLast (pr_request_q p) idx off len\<rparr>) w
                   in case fst (PeekPiece (pr_request_q (peer w proposer)) idx) of
                        None \<Rightarrow> ((off, len), w)
                      | Some t \<Rightarrow> ((sl_offset t, sl_length t), w))
                else st)))"

definition CompareRequest :: "nat \<Rightarrow> u32 \<Rightarrow> world \<Rightarrow> world" where
  "CompareRequest proposer idx w =
     (case fst (PeekPiece (pr_request_q (peer w proposer)) idx) of
        None \<Rightarrow> w
      | Some s \<Rightarrow>
         (if Qlen (pr_request_q (peer w proposer)) idx = 1 then w
          else snd (fold (compare_step proposer idx) (w_head w) ((sl_offset s, sl_length s), w))))"

text \<open>\<^verbatim>\<open>CancelSlice\<close> and \<^verbatim>\<open>CancelPiece\<close> say whether any peer had the request.\<close>

definition cancel_step :: "env \<Rightarrow> (nat \<Rightarrow> world \<Rightarrow> int \<times> world) \<Rightarrow> nat \<Rightarrow> int \<times> world \<Rightarrow> int \<times> world" where
  "cancel_step e f i st =
     (let (r, w) = st
      in if \<not> is_success w i then st
         else
           (let (t, w) = f i w
            in if t = 0 then (r, w) else (1, if t < 0 then CloseConnection e i w else w)))"

definition CancelSlice_w :: "env \<Rightarrow> u32 \<Rightarrow> u32 \<Rightarrow> u32 \<Rightarrow> world \<Rightarrow> int \<times> world" where
  "CancelSlice_w e idx off len w = fold (cancel_step e (CancelSliceRequest e idx off len)) (w_head w) (0, w)"

definition CancelPiece_w :: "env \<Rightarrow> u32 \<Rightarrow> world \<Rightarrow> int \<times> world" where
  "CancelPiece_w e idx w = fold (cancel_step e (CancelPiece e idx)) (w_head w) (0, w)"

text \<open>
  \<^verbatim>\<open>CancelOneRequest\<close>.  The state of the search is \<^verbatim>\<open>peer, max, dupcount\<close>.
\<close>

definition one_request_step :: "bool \<Rightarrow> u32 \<Rightarrow> nat \<Rightarrow> (nat option \<times> u32 \<times> u32) \<times> world \<Rightarrow> (nat option \<times> u32 \<times> u32) \<times> world" where
  "one_request_step in_pending idx i st =
     (let ((best, mx, dup), w) = st
      in if \<not> is_success w i \<or> \<not> HasPiece (pr_request_q (peer w i)) idx then st
         else
           (let cnt = CountSlicesBeforePiece (pr_request_q (peer w i)) idx
            in case best of
                 None \<Rightarrow> ((Some i, cnt, dup + 1), w)
               | Some b \<Rightarrow>
                   (if cnt > mx then ((Some i, cnt, dup + 1), w)
                    else if \<not> in_pending \<and> cnt = mx then
                      (let (ri, w) = NominalDL i w; (rb, w) = NominalDL b w
                       in (if ri < rb then (Some i, cnt, dup + 1) else (best, mx, dup + 1), w))
                    else ((best, mx, dup + 1), w))))"

definition CancelOneRequest :: "env \<Rightarrow> u32 \<Rightarrow> world \<Rightarrow> world" where
  "CancelOneRequest e idx w =
     (let in_pending = HasPiece (w_pending w) idx;
          ((best, mx, dup), w) = fold (one_request_step in_pending idx) (w_head w) ((None, 0, if in_pending then 1 else 0), w)
      in case best of
           None \<Rightarrow> w
         | Some b \<Rightarrow>
            (if Qlen (pr_request_q (peer w b)) idx < dup then
               (let w = (if in_pending then w\<lparr>w_pending := snd (Delete (w_pending w) idx)\<rparr>
                         else
                           (let (r, w) = CancelPiece e idx b w in if r < 0 then CloseConnection e b w else w))
                in if dup = 2 then w\<lparr>w_dup_req_pieces := w_dup_req_pieces w - 1\<rparr> else w)
             else w))"

section \<open>Telling the peers\<close>

text \<open>
  The variable \<^verbatim>\<open>r\<close> of \<^verbatim>\<open>Tell_World_I_Have\<close> is set once, before the loop: where a message is sent at once
  without seeding, a failure for an earlier peer is still in it.
\<close>

definition tell_one :: "env \<Rightarrow> bool \<Rightarrow> u32 \<Rightarrow> nat \<Rightarrow> int \<times> world \<Rightarrow> int \<times> world" where
  "tell_one e f_seed idx i st =
     (let (r, w) = st
      in if \<not> is_success w i then st
      else
        (let p = peer w i; n = npieces w;
             (r, w) =
               (if f_seed \<or> Count (c_BF (w_content w)) = 1 \<or>
                   (\<not> remote_interested p \<and> \<not> IsSet n (pr_bitfield p) idx) then
                  (let (r, w) = (if f_seed then SendHaves e i w else (r, w))
                   in if 0 \<le> r then on_stream i (Send_Have (e_buf_mem e) idx) w else (r, w))
                else QueueHave e idx i w)
         in (r, if r < 0 then CloseConnection e i w
                else if f_seed then
                  (let (t, w) = SetLocal e BT_MSG_NOT_INTERESTED i w in if t < 0 then CloseConnection e i w else w)
                else w)))"

definition Tell_World_I_Have :: "env \<Rightarrow> u32 \<Rightarrow> world \<Rightarrow> world" where
  "Tell_World_I_Have e idx w = snd (fold (tell_one e (Seeding e w) idx) (w_head w) (0, w))"

definition set_or_close :: "env \<Rightarrow> u8 \<Rightarrow> nat \<Rightarrow> world \<Rightarrow> world" where
  "set_or_close e s i w = (let (r, w) = SetLocal e s i w in if r < 0 then CloseConnection e i w else w)"

definition CheckInterest :: "env \<Rightarrow> world \<Rightarrow> world" where
  "CheckInterest e w =
     fold (\<lambda>i w. if local_interested (peer w i) then upd_peer i (\<lambda>p. p\<lparr>pr_standby := False\<rparr>) w
                 else if Need_Remote_Data e i w then set_or_close e BT_MSG_INTERESTED i w
                 else set_or_close e BT_MSG_NOT_INTERESTED i w) (w_head w) w"

definition StopDownload :: "env \<Rightarrow> world \<Rightarrow> world" where
  "StopDownload e w =
     fold (\<lambda>i w. let (r, w) = SetLocal e BT_MSG_NOT_INTERESTED i w
                 in if r < 0 then CloseConnection e i w else PutPending e i w) (w_head w) w"

definition Pause :: "env \<Rightarrow> world \<Rightarrow> world" where
  "Pause e w =
     (let w = StopDownload e (w\<lparr>w_f_pause := True\<rparr>)
      in fold (\<lambda>i w. if \<not> local_choked (peer w i) then set_or_close e BT_MSG_CHOKE i w else w) (w_head w) w)"

definition Resume :: "env \<Rightarrow> world \<Rightarrow> world" where
  "Resume e w = CheckInterest e (w\<lparr>w_f_pause := False\<rparr>)"

text \<open>\<^verbatim>\<open>GetSeedTime() - now >= 300\<close> is the test as it is written, with its operands swapped.\<close>

definition CloseAllConnectionToSeed :: "env \<Rightarrow> world \<Rightarrow> world" where
  "CloseAllConnectionToSeed e w =
     fold (\<lambda>i w. let p = peer w i
                 in if IsFull (npieces w) (pr_bitfield p) \<or>
                       (is_success w i \<and> \<not> remote_interested p \<and>
                        300 \<le> c_seed_timestamp (w_content w) - w_now w \<and> \<not> pr_connect_seed p)
                    then CloseConnection e i (upd_peer i (\<lambda>p. p\<lparr>pr_want_again := False\<rparr>) w)
                    else upd_peer i (\<lambda>p. p\<lparr>pr_stream := (pr_stream p)
                           \<lparr>in_buffer := snd (SetSize (e_buf_mem e) 256 (in_buffer (pr_stream p)))\<rparr>\<rparr>) w) (w_head w) w"

section \<open>Unchoking\<close>

definition GetUnchoked :: "world \<Rightarrow> u32" where
  "GetUnchoked w =
     fold (\<lambda>i cnt. if cnt > w_max_unchoke w then cnt
                   else if is_success w i \<and> \<not> local_choked (peer w i) then cnt + 1 else cnt) (w_head w) 0"

definition UnchokeIfFree :: "env \<Rightarrow> nat \<Rightarrow> world \<Rightarrow> world" where
  "UnchokeIfFree e i w =
     (if w_f_pause w then w
      else if w_max_unchoke w < of_nat (length (filter (\<lambda>j. is_success w j \<and> \<not> local_choked (peer w j) \<and>
                                                       remote_interested (peer w j)) (w_head w)))
      then w else set_or_close e BT_MSG_UNCHOKE i w)"

definition BandwidthLimited :: "rat \<Rightarrow> int \<Rightarrow> rat \<Rightarrow> u32 \<Rightarrow> u32 \<Rightarrow> rat \<Rightarrow> bool" where
  "BandwidthLimited precise now lasttime lastsize limit grace =
     (if limit = 0 then False
      else
        (let nexttime = lasttime + rat_of_word lastsize / rat_of_word limit - grace
         in if nexttime \<ge> of_int (now + 1) then True
            else if nexttime \<le> of_int now then False
            else \<not> nexttime \<le> precise))"

end
