(* ===== verification/Request_Flow.thy ===== *)
theory Request_Flow
  imports Peerlist
begin

text \<open>
  The flow of requests of \<^verbatim>\<open>btPeer\<close>: \<open>SendRequest\<close> sends what the queue holds, \<open>RequestPiece\<close> decides which
  piece to ask for next, \<open>RequestCheck\<close> drives both (\<^verbatim>\<open>src/peer.cpp\<close>).  \<^verbatim>\<open>RequestPiece\<close> ends with a call of
  \<^verbatim>\<open>SendRequest\<close> and \<^verbatim>\<open>SendRequest\<close> with one of \<^verbatim>\<open>RequestPiece\<close>, so the decision is a function of its own
  whose verdict says whether to send.  \<^const>\<open>None\<close> is where the code does not return or crashes; that it
  returns is a theorem.
\<close>

datatype verdict = Return int | Send_more

section \<open>Deciding on a piece\<close>

text \<open>
  The loops over the file filters, from the current one: the first filter that leaves something to
  get decides, or the last one.  \<open>post\<close> is what is taken out of the need besides.
\<close>

fun need_loop :: "(bitfield \<Rightarrow> bitfield) \<Rightarrow> u32 \<Rightarrow> bitfield \<Rightarrow> bitfield list \<Rightarrow> bitfield" where
  "need_loop post n base [] = post base"
| "need_loop post n base (f # fs) =
     (let bf = post (Except n base f) in if fs \<noteq> [] \<and> IsEmpty bf then need_loop post n base fs else bf)"

definition filters_left :: "content \<Rightarrow> bitfield list" where
  "filters_left c = (case c_current c of None \<Rightarrow> [] | Some k \<Rightarrow> drop k (c_filters c))"

definition UnSet_last :: "bool \<Rightarrow> nat \<Rightarrow> world \<Rightarrow> bitfield \<Rightarrow> bitfield" where
  "UnSet_last exclude i w bf = (if exclude then UnSet (npieces w) (pr_last_req_piece (peer w i)) bf else bf)"

definition mult_peer :: "u32 \<Rightarrow> world \<Rightarrow> world" where
  "mult_peer idx w = upd_content (\<lambda>c. c\<lparr>c_BMultPeer := Set (npieces w) idx (c_BMultPeer c)\<rparr>) w"

text \<open>Copying the requests of another peer.\<close>

definition copy_requests :: "env \<Rightarrow> u32 \<Rightarrow> nat \<Rightarrow> nat \<Rightarrow> world \<Rightarrow> int \<times> world" where
  "copy_requests e idx j i w =
     (let (r, a, q) = Copy (e_mem e) (w_slices w) (pr_request_q (peer w j)) (pr_request_q (peer w i)) idx
      in (r, (upd_peer i (\<lambda>p. p\<lparr>pr_request_q := q\<rparr>) w)\<lparr>w_slices := a\<rparr>))"

definition try_dup :: "env \<Rightarrow> bitfield \<Rightarrow> u32 \<Rightarrow> nat \<Rightarrow> world \<Rightarrow> (verdict option \<times> world) option" where
  "try_dup e bf flag i w =
     (let (idx, w) = What_Can_Duplicate e bf i flag w
      in if npieces w \<le> idx then Some (None, w)
         else
           (case WhoHas idx w of
              None \<Rightarrow> Some (None, w)
            | Some j \<Rightarrow>
               (let (r, w) = copy_requests e idx j i w
                in if r < 0 then Some (Some (Return (-1)), w)
                   else
                     (case Shuffle (e_bits3 e (w_rnd w)) (e_bits e (w_rnd w)) (pr_request_q (peer w i)) idx of
                        None \<Rightarrow> None
                      | Some q \<Rightarrow>
                         (let w = (upd_peer i (\<lambda>p. p\<lparr>pr_request_q := q\<rparr>) w)\<lparr>w_rnd := w_rnd w + 1\<rparr>
                          in Some (Some Send_more, mult_peer idx (CompareRequest i idx w)))))))"

text \<open>Taking over a request of the slowest peer.\<close>

definition try_abandon :: "env \<Rightarrow> bool \<Rightarrow> nat \<Rightarrow> world \<Rightarrow> verdict \<times> world" where
  "try_abandon e endgame i w =
     (let (best, w) = (if IsEmpty_q (pr_request_q (peer w i)) then Who_Can_Abandon i w else (None, w))
      in case best of
           Some j \<Rightarrow>
             (let idx = FindLastCommonRequest (c_geo (w_content w)) (pr_request_q (peer w j)) (pr_bitfield (peer w i));
                  (r, w) = copy_requests e idx j i w
              in if r < 0 then (Return (-1), w)
                 else
                   (let w = mult_peer idx (CompareRequest i idx w);
                        w = (if endgame then upd_peer j (\<lambda>p. p\<lparr>pr_standby := False\<rparr>) w else w);
                        (r, w) = CancelPiece e idx j w
                    in (Send_more, if r < 0 then CloseConnection e j w else w)))
         | None \<Rightarrow>
             (Return 0,
              if npieces w \<le> c_check_piece (w_content w)
              then upd_peer i (\<lambda>p. p\<lparr>pr_standby := True, pr_last_req_piece := npieces w\<rparr>) w else w))"

text \<open>Asking for a piece nobody was asked for.\<close>

definition request_new :: "env \<Rightarrow> bitfield \<Rightarrow> nat \<Rightarrow> world \<Rightarrow> (verdict \<times> world) option" where
  "request_new e unrequested i w =
     (let n = npieces w; c = w_content w;
          cand = FindValuedPieces e unrequested i (IsEmpty (c_BF c)) w;
          cand = (if IsEmpty cand then unrequested else cand);
          cached = pr_cached_idx (peer w i);
          idx = (if cached < c_check_piece c \<and> IsSet n cand cached then cached else n)
      in case (if Count (c_BF c) < c_nfiles c then Some n
               else ChoosePiece n (piece_length w) (c_files c) (e_rand e (w_rnd w)) cand unrequested idx) of
           None \<Rightarrow> None
         | Some idx \<Rightarrow>
            (case (if n \<le> idx then Random n (e_rand e (w_rnd w + 1)) cand else Some idx) of
               None \<Rightarrow> None
             | Some idx \<Rightarrow>
                (case AddPiece (c_geo c) (cfg_req_slice_size e) (e_mem e) (w_slices w) (pr_request_q (peer w i)) idx of
                   None \<Rightarrow> None
                 | Some (r, a, q) \<Rightarrow>
                    Some (if r < 0 then Return (-1) else Send_more,
                          (upd_peer i (\<lambda>p. p\<lparr>pr_request_q := q\<rparr>) w)\<lparr>w_slices := a, w_rnd := w_rnd w + 2\<rparr>))))"

text \<open>Nothing to get from this peer by way of a new request.\<close>

definition request_nothing :: "env \<Rightarrow> nat \<Rightarrow> world \<Rightarrow> verdict \<times> world" where
  "request_nothing e i w =
     (let p = peer w i; n = npieces w
      in if \<not> Need_Remote_Data e i w then (let (r, w) = SetLocal e BT_MSG_NOT_INTERESTED i w in (Return r, w))
         else if pr_last_req_piece p < n \<and> \<not> IsSet n (c_BF (w_content w)) (pr_last_req_piece p) then
           (Return 0, upd_peer i (\<lambda>p. p\<lparr>pr_last_req_piece := n\<rparr>) w)
         else (Return 0, upd_peer i (\<lambda>p. p\<lparr>pr_standby := True, pr_last_req_piece := n\<rparr>) w))"

definition request_other :: "env \<Rightarrow> bool \<Rightarrow> nat \<Rightarrow> world \<Rightarrow> (verdict \<times> world) option" where
  "request_other e exclude i w =
     (let n = npieces w; c = w_content w;
          need = need_loop (\<lambda>bf. And_bf n (UnSet_last exclude i w bf) (c_BChecked c)) n
                   (Except n (pr_bitfield (peer w i)) (c_BF c)) (filters_left c)
      in if IsEmpty need then Some (request_nothing e i w)
         else
           (let unrequested = CheckBitfield need w
            in if IsEmpty unrequested then
                 (let (endgame, w) = Endgame w
                  in case (if endgame \<and> pr_latency (peer w i) < 60 then try_dup e need 0 i w else Some (None, w)) of
                       None \<Rightarrow> None
                     | Some (Some v, w) \<Rightarrow> Some (v, w)
                     | Some (None, w) \<Rightarrow> Some (try_abandon e endgame i w))
               else request_new e unrequested i w))"

definition request_choice :: "env \<Rightarrow> nat \<Rightarrow> world \<Rightarrow> (verdict \<times> world) option" where
  "request_choice e i w =
     (let n = npieces w; c = w_content w; p = peer w i;
          qsize = Qsize (pr_request_q p);
          psize = piece_length w div cfg_req_slice_size e
      in if ReqQueueLength e w - qsize < psize \<or> psize \<le> qsize then
           Some (Return 0, upd_peer i (\<lambda>p. p\<lparr>pr_req_send := pr_req_out p\<rparr>) w)
         else
           (let need = Except n (Except n (pr_bitfield p) (c_BF c)) (c_BMasterFilter c);
                exclude = pr_last_req_piece p < n \<and> Count need > 1;
                need = UnSet_last exclude i w need;
                (idx, pend, q) = Reassign (c_geo c) (w_pending w) (pr_request_q p) need;
                w = (upd_peer i (\<lambda>p. p\<lparr>pr_request_q := q\<rparr>) w)\<lparr>w_pending := pend\<rparr>
            in if idx < n then
                 Some (Send_more,
                   mult_peer idx (if IsSet n (c_BMultPeer c) idx then CompareRequest i idx w else w))
               else
                 (case (if IsEmpty (c_BF c) \<and> pr_latency p < 60 then
                          try_dup e (need_loop (UnSet_last exclude i w) n (Except n (pr_bitfield p) (c_BF c)) (filters_left c)) n i w
                        else Some (None, w)) of
                    None \<Rightarrow> None
                  | Some (Some v, w) \<Rightarrow> Some (v, w)
                  | Some (None, w) \<Rightarrow> request_other e exclude i w)))"

section \<open>Sending\<close>

text \<open>Has the time come to stamp the request with the current time?\<close>

definition stamp_now :: "env \<Rightarrow> u32 \<Rightarrow> nat \<Rightarrow> world \<Rightarrow> bool \<times> world" where
  "stamp_now e len i w =
     (let (rate, w) = RateDL e i w
      in if rate = 0 then (True, w)
      else let (rate, w) = RateDL e i w; p = peer w i
      in (rat_of_word ((pr_req_out p + 1) * len) / rat_of_word rate - of_int (pr_latency p) \<le> 0, w))"

text \<open>At most \<open>k\<close> more requests of this batch.\<close>

fun send_loop :: "env \<Rightarrow> nat \<Rightarrow> bool \<Rightarrow> nat \<Rightarrow> world \<Rightarrow> (int \<times> world) option" where
  "send_loop e 0 first i w = Some (0, w)"
| "send_loop e (Suc k) first i w =
     (if \<not> pr_req_out (peer w i) < pr_req_send (peer w i) then Some (0, w)
      else
        (case PeekSend (pr_request_q (peer w i)) of
           None \<Rightarrow> Some (0, w)
         | Some s \<Rightarrow>
            (let (r, w) = on_stream i (Send_Request (e_buf_mem e) (sl_index s) (sl_offset s) (sl_length s)) w
             in if r < 0 then Some (-1, w)
                else
                  (let w = upd_peer i (\<lambda>p. p\<lparr>pr_last_req_piece := sl_index s\<rparr>) w;
                       (stamp, w) = (if first then stamp_now e (sl_length s) i w else (False, w))
                   in case Sent (pr_request_q (peer w i)) (if stamp then w_now w else 0) of
                        None \<Rightarrow> None
                      | Some q \<Rightarrow>
                         send_loop e k (first \<and> \<not> stamp) i
                           (upd_peer i (\<lambda>p. p\<lparr>pr_request_q := q, pr_req_out := pr_req_out p + 1\<rparr>) w)))))"

definition send_batch :: "env \<Rightarrow> nat \<Rightarrow> world \<Rightarrow> (int \<times> world) option" where
  "send_batch e i w =
     (let w = fix_req_out i w; p = peer w i
      in if pr_req_out p < pr_req_send p \<and> PeekSend (pr_request_q p) \<noteq> None then
           (case send_loop e 5 True i w of
              None \<Rightarrow> None
            | Some (r, w) \<Rightarrow> Some (r, if r < 0 then w else upd_peer i (\<lambda>p. p\<lparr>pr_receive_time := w_now w\<rparr>) w))
         else Some (0, w))"

partial_function (option) SendRequest :: "env \<Rightarrow> nat \<Rightarrow> world \<Rightarrow> (int \<times> world) option" where
  "SendRequest e i w =
     (case send_batch e i w of
        None \<Rightarrow> None
      | Some (r, w) \<Rightarrow>
         (if r < 0 then Some (-1, w)
          else if pr_req_out (peer w i) < pr_req_send (peer w i) \<and> \<not> pr_standby (peer w i) then
            (case request_choice e i w of
               None \<Rightarrow> None
             | Some (Return r, w) \<Rightarrow> Some (r, w)
             | Some (Send_more, w) \<Rightarrow> SendRequest e i w)
          else Some (0, w)))"

declare SendRequest.simps [code]

definition RequestPiece :: "env \<Rightarrow> nat \<Rightarrow> world \<Rightarrow> (int \<times> world) option" where
  "RequestPiece e i w =
     (case request_choice e i w of
        None \<Rightarrow> None
      | Some (Return r, w) \<Rightarrow> Some (r, w)
      | Some (Send_more, w) \<Rightarrow> SendRequest e i w)"

text \<open>The test whether to send is the one of \<^const>\<open>NeedWrite\<close>.\<close>

definition request_part :: "env \<Rightarrow> nat \<Rightarrow> world \<Rightarrow> (int \<times> world) option" where
  "request_part e i w =
     (if remote_choked (peer w i) then Some (0, w)
      else
        (let w = fix_req_out i w
         in if IsEmpty_q (pr_request_q (peer w i)) then RequestPiece e i w
            else if pr_req_out (peer w i) < pr_req_send (peer w i) then
              (let (t, w) = time_to_request e i w in if t then SendRequest e i w else Some (0, w))
            else Some (0, w)))"

definition RequestCheck :: "env \<Rightarrow> nat \<Rightarrow> world \<Rightarrow> (int \<times> world) option" where
  "RequestCheck e i w =
     (let timer = (\<lambda>w. if IsEmpty_q (pr_request_q (peer w i)) then StopDLTimer e i w else StartDLTimer i w)
      in if Seeding e w \<or> w_f_pause w then Some (SetLocal e BT_MSG_NOT_INTERESTED i w)
         else if Need_Remote_Data e i w then
           (let (r, w) = (if local_interested (peer w i) then (0, w) else SetLocal e BT_MSG_INTERESTED i w)
            in if r < 0 then Some (-1, w)
               else
                 (case request_part e i w of
                    None \<Rightarrow> None
                  | Some (r, w) \<Rightarrow> Some (if r < 0 then (-1, w) else (0, timer w))))
         else
           (let (r, w) = (if local_interested (peer w i) then SetLocal e BT_MSG_NOT_INTERESTED i w else (0, w))
            in Some (if r < 0 then (-1, w) else (0, timer w))))"

end
