(* ===== verification/Sha1.thy ===== *)
theory Sha1
  imports Prelude
begin

text \<open>
  The SHA-1 implementation of \<^verbatim>\<open>src/sha1.c\<close> (with \<^verbatim>\<open>USE_STANDALONE_SHA1\<close>, \<^verbatim>\<open>SHA1HANDSOFF\<close>, little endian) and
  its equivalence with the algorithm of FIPS PUB 180-1, for a message that arrives in any chunks.
\<close>

section \<open>The block transformation\<close>

definition rol :: "u32 \<Rightarrow> nat \<Rightarrow> u32" where
  "rol value bits = push_bit bits value OR drop_bit (32 - bits) value"

text \<open>The union of 64 characters and 16 integers, on a little endian machine.\<close>

definition le32 :: "bytes \<Rightarrow> u32" where
  "le32 b = ucast (b ! 0) OR push_bit 8 (ucast (b ! 1)) OR push_bit 16 (ucast (b ! 2)) OR push_bit 24 (ucast (b ! 3))"

definition CHAR64LONG16 :: "bytes \<Rightarrow> u32 list" where
  "CHAR64LONG16 buffer = map (\<lambda>i. le32 (take 4 (drop (4 * i) buffer))) [0..<16]"

definition blk0 :: "nat \<Rightarrow> u32 list \<Rightarrow> u32 \<times> u32 list" where
  "blk0 i l =
     (let v = (rol (l ! i) 24 AND 0xFF00FF00) OR (rol (l ! i) 8 AND 0x00FF00FF) in (v, l[i := v]))"

definition blk :: "nat \<Rightarrow> u32 list \<Rightarrow> u32 \<times> u32 list" where
  "blk i l =
     (let v = rol (l ! ((i + 13) mod 16) XOR l ! ((i + 8) mod 16) XOR l ! ((i + 2) mod 16) XOR l ! (i mod 16)) 1
      in (v, l[i mod 16 := v]))"

text \<open>
  The macros \<^verbatim>\<open>R0\<close> to \<^verbatim>\<open>R4\<close>.  The code rotates the names of the five variables from one call to the next,
  the model rotates the values: the tuple is (\<^verbatim>\<open>v\<close>, \<^verbatim>\<open>w\<close>, \<^verbatim>\<open>x\<close>, \<^verbatim>\<open>y\<close>, \<^verbatim>\<open>z\<close>) of the call.
\<close>

type_synonym regs = "u32 \<times> u32 \<times> u32 \<times> u32 \<times> u32"

definition R_with :: "(u32 \<Rightarrow> u32 \<Rightarrow> u32 \<Rightarrow> u32) \<Rightarrow> u32 \<Rightarrow> (nat \<Rightarrow> u32 list \<Rightarrow> u32 \<times> u32 list) \<Rightarrow> nat \<Rightarrow>
    regs \<times> u32 list \<Rightarrow> regs \<times> u32 list" where
  "R_with f k get i st =
     (let ((v, w, x, y, z), l) = st; (b, l) = get i l
      in ((z + (f w x y + b + k + rol v 5), v, rol w 30, x, y), l))"

definition R0 :: "nat \<Rightarrow> regs \<times> u32 list \<Rightarrow> regs \<times> u32 list" where
  "R0 = R_with (\<lambda>w x y. (w AND (x XOR y)) XOR y) 0x5A827999 blk0"

definition R1 :: "nat \<Rightarrow> regs \<times> u32 list \<Rightarrow> regs \<times> u32 list" where
  "R1 = R_with (\<lambda>w x y. (w AND (x XOR y)) XOR y) 0x5A827999 blk"

definition R2 :: "nat \<Rightarrow> regs \<times> u32 list \<Rightarrow> regs \<times> u32 list" where
  "R2 = R_with (\<lambda>w x y. w XOR x XOR y) 0x6ED9EBA1 blk"

definition R3 :: "nat \<Rightarrow> regs \<times> u32 list \<Rightarrow> regs \<times> u32 list" where
  "R3 = R_with (\<lambda>w x y. ((w OR x) AND y) OR (w AND x)) 0x8F1BBCDC blk"

definition R4 :: "nat \<Rightarrow> regs \<times> u32 list \<Rightarrow> regs \<times> u32 list" where
  "R4 = R_with (\<lambda>w x y. w XOR x XOR y) 0xCA62C1D6 blk"

definition add_regs :: "regs \<Rightarrow> regs \<Rightarrow> regs" where
  "add_regs s t =
     (let (a, b, c, d, e) = s; (a', b', c', d', e') = t in (a + a', b + b', c + c', d + d', e + e'))"

definition SHA1Transform :: "regs \<Rightarrow> bytes \<Rightarrow> regs" where
  "SHA1Transform state buffer =
     add_regs state
       (fst (fold R4 [60..<80] (fold R3 [40..<60] (fold R2 [20..<40] (fold R1 [16..<20]
              (fold R0 [0..<16] (state, CHAR64LONG16 buffer)))))))"

section \<open>The context\<close>

record SHA1_CTX =
  ctx_state :: regs
  ctx_count0 :: u32
  ctx_count1 :: u32
  ctx_buffer :: bytes

definition SHA1Init :: "SHA1_CTX \<Rightarrow> SHA1_CTX" where
  "SHA1Init c = c\<lparr>ctx_state := (0x67452301, 0xEFCDAB89, 0x98BADCFE, 0x10325476, 0xC3D2E1F0), ctx_count0 := 0, ctx_count1 := 0\<rparr>"

text \<open>The loop over the blocks inside the data: its counter is 32 bits wide and may wrap.\<close>

partial_function (option) blocks_loop :: "regs \<Rightarrow> bytes \<Rightarrow> u32 \<Rightarrow> u32 \<Rightarrow> (u32 \<times> regs) option" where
  "blocks_loop state data len i =
     (if i + 63 < len then blocks_loop (SHA1Transform state (take 64 (drop (unat i) data))) data len (i + 64)
      else Some (i, state))"

declare blocks_loop.simps [code]

definition SHA1Update :: "SHA1_CTX \<Rightarrow> bytes \<Rightarrow> u32 \<Rightarrow> SHA1_CTX option" where
  "SHA1Update c data len =
     (let j = drop_bit 3 (ctx_count0 c) AND 63;
          c0 = ctx_count0 c + push_bit 3 len;
          c1 = (if c0 < push_bit 3 len then ctx_count1 c + 1 else ctx_count1 c) + drop_bit 29 len;
          c = c\<lparr>ctx_count0 := c0, ctx_count1 := c1\<rparr>
      in if 63 < j + len then
           (let i = 64 - j;
                buffer = memcpy_to (ctx_buffer c) (unat j) data (unat i)
            in case blocks_loop (SHA1Transform (ctx_state c) buffer) data len i of
                 None \<Rightarrow> None
               | Some (i, state) \<Rightarrow>
                  Some (c\<lparr>ctx_state := state, ctx_buffer := memcpy_to buffer 0 (drop (unat i) data) (unat (len - i))\<rparr>))
         else Some (c\<lparr>ctx_buffer := memcpy_to (ctx_buffer c) (unat j) data (unat len)\<rparr>))"

definition regs_list :: "regs \<Rightarrow> u32 list" where
  "regs_list s = (let (a, b, c, d, e) = s in [a, b, c, d, e])"

definition be_byte :: "u32 \<Rightarrow> nat \<Rightarrow> u8" where
  "be_byte x i = ucast (drop_bit ((3 - i mod 4) * 8) x AND 255)"

partial_function (option) pad_loop :: "SHA1_CTX \<Rightarrow> SHA1_CTX option" where
  "pad_loop c =
     (if ctx_count0 c AND 504 \<noteq> 448 then (case SHA1Update c [0] 1 of None \<Rightarrow> None | Some c \<Rightarrow> pad_loop c)
      else Some c)"

declare pad_loop.simps [code]

text \<open>The digest and the context, which is wiped.\<close>

definition SHA1Final :: "SHA1_CTX \<Rightarrow> (bytes \<times> SHA1_CTX) option" where
  "SHA1Final c =
     (let finalcount = map (\<lambda>i. be_byte (if 4 \<le> i then ctx_count0 c else ctx_count1 c) i) [0..<8]
      in case SHA1Update c [0x80] 1 of
           None \<Rightarrow> None
         | Some c \<Rightarrow>
            (case pad_loop c of
               None \<Rightarrow> None
             | Some c \<Rightarrow>
                (case SHA1Update c finalcount 8 of
                   None \<Rightarrow> None
                 | Some c \<Rightarrow>
                    Some (map (\<lambda>i. be_byte (regs_list (ctx_state c) ! (i div 4)) i) [0..<20],
                          \<lparr>ctx_state = SHA1Transform (0, 0, 0, 0, 0) (replicate 64 0), ctx_count0 = 0, ctx_count1 = 0,
                           ctx_buffer = replicate 64 0\<rparr>))))"

text \<open>\<open>raw\<close> is the context on the stack before it is initialised; the length becomes 32 bits wide.\<close>

definition Sha1 :: "SHA1_CTX \<Rightarrow> bytes \<Rightarrow> nat \<Rightarrow> bytes option" where
  "Sha1 raw data len =
     (case SHA1Update (SHA1Init raw) data (of_nat len) of
        None \<Rightarrow> None
      | Some c \<Rightarrow> map_option fst (SHA1Final c))"

section \<open>The standard\<close>

text \<open>FIPS PUB 180-1, with its rotation \<open>word_rotl\<close>, functions, constants, schedule and padding.\<close>

definition be32 :: "bytes \<Rightarrow> u32" where
  "be32 b = push_bit 24 (ucast (b ! 0)) OR push_bit 16 (ucast (b ! 1)) OR push_bit 8 (ucast (b ! 2)) OR ucast (b ! 3)"

definition fips_f :: "nat \<Rightarrow> u32 \<Rightarrow> u32 \<Rightarrow> u32 \<Rightarrow> u32" where
  "fips_f t b c d =
     (if t < 20 then (b AND c) OR (NOT b AND d)
      else if t < 40 then b XOR c XOR d
      else if t < 60 then (b AND c) OR (b AND d) OR (c AND d)
      else b XOR c XOR d)"

definition fips_K :: "nat \<Rightarrow> u32" where
  "fips_K t = (if t < 20 then 0x5A827999 else if t < 40 then 0x6ED9EBA1 else if t < 60 then 0x8F1BBCDC else 0xCA62C1D6)"

fun fips_W :: "bytes \<Rightarrow> nat \<Rightarrow> u32" where
  "fips_W b t =
     (if t < 16 then be32 (take 4 (drop (4 * t) b))
      else word_rotl 1 (fips_W b (t - 3) XOR fips_W b (t - 8) XOR fips_W b (t - 14) XOR fips_W b (t - 16)))"

declare fips_W.simps [simp del]

definition fips_step :: "bytes \<Rightarrow> nat \<Rightarrow> regs \<Rightarrow> regs" where
  "fips_step M t s =
     (let (a, b, c, d, e) = s
      in (word_rotl 5 a + fips_f t b c d + e + fips_W M t + fips_K t, a, word_rotl 30 b, c, d))"

definition fips_block :: "regs \<Rightarrow> bytes \<Rightarrow> regs" where
  "fips_block H M = add_regs H (fold (fips_step M) [0..<80] H)"

definition be64_bytes :: "nat \<Rightarrow> bytes" where
  "be64_bytes n = map (\<lambda>i. of_nat (n div 256 ^ (7 - i))) [0..<8]"

definition fips_pad :: "bytes \<Rightarrow> bytes" where
  "fips_pad m = m @ [0x80] @ replicate ((119 - length m mod 64) mod 64) 0 @ be64_bytes (8 * length m)"

definition fips_run :: "bytes \<Rightarrow> nat \<Rightarrow> regs" where
  "fips_run m k =
     fold (\<lambda>k H. fips_block H (take 64 (drop (64 * k) m))) [0..<k] (0x67452301, 0xEFCDAB89, 0x98BADCFE, 0x10325476, 0xC3D2E1F0)"

definition be32_bytes :: "u32 \<Rightarrow> bytes" where
  "be32_bytes x = map (\<lambda>i. ucast (drop_bit (24 - 8 * i) x)) [0..<4]"

definition fips_sha1 :: "bytes \<Rightarrow> bytes" where
  "fips_sha1 m = concat (map be32_bytes (regs_list (fips_run (fips_pad m) (length (fips_pad m) div 64))))"

section \<open>Words\<close>

lemma rol_rotl: "0 < n \<Longrightarrow> n < 32 \<Longrightarrow> rol x n = word_rotl n x"
proof (rule bit_word_eqI)
  fix k assume n: "0 < n" "n < 32" "k < LENGTH(32)"
  then have k: "k < 32" by simp
  have R: "bit (word_rotl n x) k = bit x ((k + (32 - n mod 32)) mod 32)" using k by (simp add: bit_word_rotl_iff)
  show "bit (rol x n) k = bit (word_rotl n x) k"
  proof (cases "n \<le> k")
    case True
    have "(k + (32 - n mod 32)) mod 32 = k - n" using True k n(2) by (simp add: le_mod_geq)
    then show ?thesis using True k n R by (auto simp: rol_def bit_simps dest: bit_imp_le_length)
  next
    case False
    have e: "(k + (32 - n mod 32)) mod 32 = 32 - n + k" using False n(2) by simp
    have "bit (rol x n) k = bit x (32 - n + k)" using False by (simp only: rol_def bit_or_iff bit_push_bit_iff bit_drop_bit_eq comp_apply) simp
    then show ?thesis using R e by simp
  qed
qed

lemma u8_high: "8 \<le> k \<Longrightarrow> \<not> bit (x :: u8) k"
  using bit_imp_le_length[of x k] by auto

lemma swap_be32: "(rol (le32 b) 24 AND 0xFF00FF00) OR (rol (le32 b) 8 AND 0x00FF00FF) = be32 b"
proof (rule bit_word_eqI)
  fix k assume "k < LENGTH(32)"
  then have "k < 32" by simp
  from less32[OF this]
  show "bit ((rol (le32 b) 24 AND 0xFF00FF00) OR (rol (le32 b) 8 AND 0x00FF00FF)) k = bit (be32 b) k"
    unfolding rol_def le32_def be32_def by (elim insertE emptyE) (simp_all add: bit_simps bit_numeral_rec u8_high)
qed

lemma choose_bits: "(w AND (x XOR y)) XOR y = (w AND x) OR (NOT w AND (y :: u32))"
  by (rule bit_word_eqI) (auto simp: bit_simps)

lemma majority_bits: "((w OR x) AND y) OR (w AND x) = (w AND x) OR (w AND y) OR (x AND (y :: u32))"
  by (rule bit_word_eqI) (auto simp: bit_simps)

section \<open>The rounds compute the schedule\<close>

text \<open>Before round \<open>t\<close> the array holds the last 16 words of the schedule, or at first the words of the block.\<close>

definition window :: "bytes \<Rightarrow> nat \<Rightarrow> u32 list \<Rightarrow> bool" where
  "window b t l \<longleftrightarrow> length l = 16 \<and>
     (\<forall>s. s < t \<and> t \<le> s + 16 \<longrightarrow> l ! (s mod 16) = fips_W b s) \<and>
     (\<forall>i. t \<le> i \<and> i < 16 \<longrightarrow> l ! i = le32 (take 4 (drop (4 * i) b)))"

lemma window_0: "window b 0 (CHAR64LONG16 b)"
  by (simp add: window_def CHAR64LONG16_def)

lemma window_next:
  assumes w: "window b t l" and v: "v = fips_W b t"
  shows "window b (Suc t) (l[t mod 16 := v])"
proof -
  have "l[t mod 16 := v] ! (s mod 16) = fips_W b s" if s: "s < Suc t" "Suc t \<le> s + 16" for s
  proof (cases "s = t")
    case False
    have "s mod 16 \<noteq> t mod 16"
    proof
      assume "s mod 16 = t mod 16"
      moreover have "s < t" "t - s < 16" using s False by simp_all
      ultimately have "(t - s) mod 16 = 0" using mod_eq_dvd_iff_nat[of s t 16] by (simp add: mod_eq_0_iff_dvd)
      then show False using \<open>s < t\<close> \<open>t - s < 16\<close> by simp
    qed
    then show ?thesis using w s False by (simp add: window_def)
  qed (use w v in \<open>simp add: window_def\<close>)
  moreover have "l[t mod 16 := v] ! i = le32 (take 4 (drop (4 * i) b))" if "Suc t \<le> i" "i < 16" for i
    using w that by (simp add: window_def)
  ultimately show ?thesis using w by (simp add: window_def)
qed

lemma blk0_W: "window b t l \<Longrightarrow> t < 16 \<Longrightarrow> blk0 t l = (fips_W b t, l[t mod 16 := fips_W b t])"
  by (simp add: blk0_def window_def fips_W.simps[of b t] swap_be32 Let_def)

lemma blk_W:
  assumes w: "window b t l" and t: "16 \<le> t"
  shows "blk t l = (fips_W b t, l[t mod 16 := fips_W b t])"
proof -
  have "l ! ((t + (16 - k)) mod 16) = fips_W b (t - k)" if "0 < k" "k \<le> 16" for k
  proof -
    have "(t + (16 - k)) mod 16 = (t - k) mod 16" using that t by (metis Nat.add_diff_assoc2 add_diff_assoc mod_add_self2 le_trans diff_add_assoc)
    then show ?thesis using w that t by (simp add: window_def)
  qed
  from this[of 3] this[of 8] this[of 14] this[of 16] t show ?thesis
    by (simp add: blk_def fips_W.simps[of b t] rol_rotl Let_def)
qed

text \<open>A round of the code is a step of the standard.\<close>

lemma R_step:
  assumes w: "window b t l" and g: "get t l = (fips_W b t, l[t mod 16 := fips_W b t])"
    and f: "\<And>w x y. f w x y = fips_f t w x y" and k: "k = fips_K t"
  shows "R_with f k get t (s, l) = (fips_step b t s, l[t mod 16 := fips_W b t])"
  by (cases s) (simp add: R_with_def fips_step_def g f k rol_rotl ac_simps)

lemma R_fold:
  assumes "window b m l" "\<And>t l s. m \<le> t \<Longrightarrow> t < n \<Longrightarrow> window b t l \<Longrightarrow> R t (s, l) = (fips_step b t s, l[t mod 16 := fips_W b t])"
    and "m \<le> n"
  shows "\<exists>l'. fold R [m..<n] (s, l) = (fold (fips_step b) [m..<n] s, l') \<and> window b n l'"
  using assms
proof (induction "n - m" arbitrary: m s l)
  case (Suc k)
  then have m: "m < n" by simp
  have r: "R m (s, l) = (fips_step b m s, l[m mod 16 := fips_W b m])" using Suc.prems(2)[of m l s] m Suc.prems(1) by simp
  have "\<exists>l'. fold R [Suc m..<n] (fips_step b m s, l[m mod 16 := fips_W b m]) =
      (fold (fips_step b) [Suc m..<n] (fips_step b m s), l') \<and> window b n l'"
    by (rule Suc.hyps(1)) (use Suc.hyps(2) Suc.prems(2) m window_next[OF Suc.prems(1) refl] in \<open>simp_all\<close>)
  then show ?case using r m by (simp add: upt_conv_Cons)
qed simp

lemma transform_fips: "SHA1Transform H b = fips_block H b"
proof -
  have r0: "\<exists>l'. fold R0 [0..<16] (s, l) = (fold (fips_step b) [0..<16] s, l') \<and> window b 16 l'" if "window b 0 l" for s l
    by (rule R_fold[OF that]) (simp_all add: R0_def R_step blk0_W choose_bits fips_f_def fips_K_def)
  have r1: "\<exists>l'. fold R1 [16..<20] (s, l) = (fold (fips_step b) [16..<20] s, l') \<and> window b 20 l'" if "window b 16 l" for s l
    by (rule R_fold[OF that]) (simp_all add: R1_def R_step blk_W choose_bits fips_f_def fips_K_def)
  have r2: "\<exists>l'. fold R2 [20..<40] (s, l) = (fold (fips_step b) [20..<40] s, l') \<and> window b 40 l'" if "window b 20 l" for s l
    by (rule R_fold[OF that]) (simp_all add: R2_def R_step blk_W fips_f_def fips_K_def)
  have r3: "\<exists>l'. fold R3 [40..<60] (s, l) = (fold (fips_step b) [40..<60] s, l') \<and> window b 60 l'" if "window b 40 l" for s l
    by (rule R_fold[OF that]) (simp_all add: R3_def R_step blk_W majority_bits fips_f_def fips_K_def)
  have r4: "\<exists>l'. fold R4 [60..<80] (s, l) = (fold (fips_step b) [60..<80] s, l') \<and> window b 80 l'" if "window b 60 l" for s l
    by (rule R_fold[OF that]) (simp_all add: R4_def R_step blk_W fips_f_def fips_K_def)
  obtain l1 where 1: "fold R0 [0..<16] (H, CHAR64LONG16 b) = (fold (fips_step b) [0..<16] H, l1)" "window b 16 l1"
    using r0[OF window_0] by blast
  obtain l2 where 2: "fold R1 [16..<20] (fold (fips_step b) [0..<16] H, l1) = (fold (fips_step b) [16..<20] (fold (fips_step b) [0..<16] H), l2)" "window b 20 l2"
    using r1[OF 1(2)] by blast
  obtain l3 where 3: "fold R2 [20..<40] (fold (fips_step b) [16..<20] (fold (fips_step b) [0..<16] H), l2) =
      (fold (fips_step b) [20..<40] (fold (fips_step b) [16..<20] (fold (fips_step b) [0..<16] H)), l3)" "window b 40 l3"
    using r2[OF 2(2)] by blast
  obtain l4 where 4: "fold R3 [40..<60] (fold (fips_step b) [20..<40] (fold (fips_step b) [16..<20] (fold (fips_step b) [0..<16] H)), l3) =
      (fold (fips_step b) [40..<60] (fold (fips_step b) [20..<40] (fold (fips_step b) [16..<20] (fold (fips_step b) [0..<16] H))), l4)" "window b 60 l4"
    using r3[OF 3(2)] by blast
  have "[0..<80::nat] = [0..<16] @ [16..<20] @ [20..<40] @ [40..<60] @ [60..<80]"
    using upt_add_eq_append[of 0 16 64] by simp
  moreover obtain l5 where "fold R4 [60..<80] (fold (fips_step b) [40..<60] (fold (fips_step b) [20..<40] (fold (fips_step b) [16..<20] (fold (fips_step b) [0..<16] H))), l4) =
      (fold (fips_step b) [60..<80] (fold (fips_step b) [40..<60] (fold (fips_step b) [20..<40] (fold (fips_step b) [16..<20] (fold (fips_step b) [0..<16] H)))), l5)"
    using r4[OF 4(2)] by blast
  ultimately show ?thesis unfolding SHA1Transform_def fips_block_def 1(1) 2(1) 3(1) 4(1)
    by (simp only: fold_append comp_apply fst_conv)
qed

section \<open>Chunks of a message\<close>

lemma fips_run_append: "64 * k \<le> length m \<Longrightarrow> fips_run (m @ d) k = fips_run m k"
  unfolding fips_run_def by (rule fold_cong) (auto simp: take_append)

lemma fips_run_Suc: "fips_run m (Suc k) = fips_block (fips_run m k) (take 64 (drop (64 * k) m))"
  by (simp add: fips_run_def)

text \<open>The context has taken in the message \<open>m\<close>.\<close>

definition absorbed :: "bytes \<Rightarrow> SHA1_CTX \<Rightarrow> bool" where
  "absorbed m c \<longleftrightarrow> ctx_state c = fips_run m (length m div 64) \<and> length (ctx_buffer c) = 64 \<and>
     take (length m mod 64) (ctx_buffer c) = drop (64 * (length m div 64)) m \<and>
     unat (ctx_count0 c) = 8 * length m mod 4294967296 \<and>
     unat (ctx_count1 c) = 8 * length m div 4294967296 mod 4294967296"

lemma absorbed_Init:
  "length (ctx_buffer c) = 64 \<Longrightarrow> absorbed [] (SHA1Init c)"
  by (simp add: absorbed_def SHA1Init_def fips_run_def)

lemma blocks_loop_run:
  assumes "length data < 4294967232" "64 * k = p + unat i" "p + length data \<le> length m" "p \<le> length m"
    "drop p m = data" "unat i \<le> length data"
  shows "\<exists>i' k'. blocks_loop (fips_run m k) data (of_nat (length data)) i = Some (i', fips_run m k') \<and>
    64 * k' = p + unat i' \<and> unat i' \<le> length data \<and> length data < unat i' + 64"
  using assms
proof (induction "length data - unat i" arbitrary: i k rule: less_induct)
  case less
  have n: "unat (of_nat (length data) :: u32) = length data" using less.prems(1) by (intro unat_of_nat_u32) simp
  have i63: "unat (i + 63) = unat i + 63" using less.prems(1,6) by (simp add: u32_add_wrap)
  show ?case
  proof (cases "i + 63 < of_nat (length data)")
    case False
    then have "length data < unat i + 64" using n i63 by (simp add: u32_less_iff)
    then show ?thesis using False less.prems by (subst blocks_loop.simps) auto
  next
    case True
    then have lt: "unat i + 64 \<le> length data" using n i63 by (simp add: u32_less_iff)
    have i64: "unat (i + 64) = unat i + 64" using lt less.prems(1) by (simp add: u32_add_wrap)
    have "take 64 (drop (unat i) data) = take 64 (drop (64 * k) m)"
      using less.prems(2,5) by (simp add: drop_drop add.commute flip: less.prems(5))
    then have S: "SHA1Transform (fips_run m k) (take 64 (drop (unat i) data)) = fips_run m (Suc k)"
      by (simp add: transform_fips fips_run_Suc)
    have "\<exists>i' k'. blocks_loop (fips_run m (Suc k)) data (of_nat (length data)) (i + 64) = Some (i', fips_run m k') \<and>
      64 * k' = p + unat i' \<and> unat i' \<le> length data \<and> length data < unat i' + 64"
      by (rule less.hyps) (use less.prems i64 lt in simp_all)
    then show ?thesis using True S by (subst blocks_loop.simps) simp
  qed
qed

text \<open>The bit counter is a 64-bit number in two halves.\<close>

lemma count_step:
  fixes c0 c1 len :: u32 and n d :: nat
  assumes c: "unat c0 = 8 * n mod 4294967296" "unat c1 = 8 * n div 4294967296 mod 4294967296" and l: "unat len = d"
  shows "unat (c0 + push_bit 3 len) = 8 * (n + d) mod 4294967296"
    "unat ((if c0 + push_bit 3 len < push_bit 3 len then c1 + 1 else c1) + drop_bit 29 len) = 8 * (n + d) div 4294967296 mod 4294967296"
proof -
  let ?B = "4294967296 :: nat"
  have p: "unat (push_bit 3 len) = 8 * d mod ?B"
    by (simp add: push_bit_eq_mult unat_word_ariths l mult.commute)
  have q: "unat (drop_bit 29 len) = 8 * d div ?B"
  proof -
    have "unat (drop_bit 29 len) = d div 2 ^ 29" by (simp add: drop_bit_eq_div u32_div l)
    also have "\<dots> = 8 * d div ?B" using div_mult_mult1[of 8 d "2 ^ 29"] by simp
    finally show ?thesis .
  qed
  show s: "unat (c0 + push_bit 3 len) = 8 * (n + d) mod ?B"
    by (simp add: u32_add_wrap c p mod_simps distrib_left)
  have carry: "(c0 + push_bit 3 len < push_bit 3 len) \<longleftrightarrow> ?B \<le> 8 * n mod ?B + 8 * d mod ?B"
  proof -
    define x y where "x = 8 * n mod ?B" and "y = 8 * d mod ?B"
    have b: "x < ?B" "y < ?B" by (simp_all add: x_def y_def)
    have "unat (c0 + push_bit 3 len) = (x + y) mod ?B" by (simp add: u32_add_wrap c p x_def y_def)
    also have "\<dots> = (if ?B \<le> x + y then x + y - ?B else x + y)" using b by (simp add: le_mod_geq)
    finally have "unat (c0 + push_bit 3 len) = (if ?B \<le> x + y then x + y - ?B else x + y)" .
    moreover have "unat (push_bit 3 len) = y" using p by (simp only: y_def)
    ultimately have "(c0 + push_bit 3 len < push_bit 3 len) \<longleftrightarrow> ?B \<le> x + y"
      using b unfolding u32_less_iff by (cases "?B \<le> x + y") auto
    then show ?thesis by (simp only: x_def y_def)
  qed
  have D: "8 * (n + d) div ?B = 8 * n div ?B + 8 * d div ?B + (if ?B \<le> 8 * n mod ?B + 8 * d mod ?B then 1 else 0)"
  proof -
    define x y where "x = 8 * n mod ?B" and "y = 8 * d mod ?B"
    have b: "x < ?B" "y < ?B" by (simp_all add: x_def y_def)
    have "(x + y) div ?B = (if ?B \<le> x + y then 1 else 0)"
      using b by (cases "?B \<le> x + y") (auto intro: div_nat_eqI)
    moreover have "8 * (n + d) div ?B = 8 * n div ?B + 8 * d div ?B + (x + y) div ?B"
      unfolding x_def y_def distrib_left by (rule div_add1_eq)
    ultimately show ?thesis by (simp only: x_def y_def)
  qed
  show "unat ((if c0 + push_bit 3 len < push_bit 3 len then c1 + 1 else c1) + drop_bit 29 len) = 8 * (n + d) div ?B mod ?B"
    unfolding D carry by (simp add: u32_add_wrap c q mod_simps)
qed

lemma mod64_bits: "(x :: u32) AND 63 = x mod 64" "unat (x AND 504) = 8 * (unat x div 8 mod 64)"
proof -
  show "x AND 63 = x mod 64" using take_bit_eq_mask[of 6 x] by (simp add: take_bit_eq_mod mask_eq_exp_minus_1)
  have "x AND 504 = push_bit 3 (take_bit 6 (drop_bit 3 x))"
  proof (rule bit_word_eqI)
    fix k assume "k < LENGTH(32)"
    then have "k < 32" by simp
    from less32[OF this] show "bit (x AND 504) k = bit (push_bit 3 (take_bit 6 (drop_bit 3 x))) k"
      by (elim insertE emptyE) (simp_all add: bit_simps bit_numeral_rec)
  qed
  moreover have "unat (push_bit 3 (take_bit 6 (drop_bit 3 x))) = 8 * (unat x div 8 mod 64)"
    using mod_mod_cancel[of 64 4294967296 "unat x div 8"]
    by (simp add: push_bit_eq_mult take_bit_eq_mod drop_bit_eq_div unat_word_ariths u32_div u32_mod)
  ultimately show "unat (x AND 504) = 8 * (unat x div 8 mod 64)" by simp
qed

lemma fill_of_count:
  assumes "unat (c0 :: u32) = 8 * n mod 4294967296"
  shows "unat (drop_bit 3 c0 AND 63) = n mod 64" "c0 AND 504 \<noteq> 448 \<longleftrightarrow> n mod 64 \<noteq> 56"
proof -
  have d: "8 * n mod 4294967296 div 8 mod 64 = n mod 64"
  proof -
    have "8 * n mod (8 * 536870912) = 8 * (n mod 536870912)" by (rule mult_mod_right[symmetric])
    then have "8 * n mod 4294967296 div 8 = n mod 536870912" by simp
    moreover have "n mod 536870912 mod 64 = n mod 64" by (rule mod_mod_cancel) simp
    ultimately show ?thesis by simp
  qed
  then show "unat (drop_bit 3 c0 AND 63) = n mod 64"
    by (simp add: mod64_bits u32_mod drop_bit_eq_div u32_div assms)
  have "c0 AND 504 = 448 \<longleftrightarrow> unat (c0 AND 504) = 448" by (simp add: u32_eq_iff)
  then show "c0 AND 504 \<noteq> 448 \<longleftrightarrow> n mod 64 \<noteq> 56" using d by (simp add: mod64_bits assms)
qed

lemma fill_up: "n = 64 * q + r \<Longrightarrow> r < 64 \<Longrightarrow> i = 64 - r \<Longrightarrow> 64 * Suc q = n + (i :: nat)"
  by simp

lemma SHA1Update_absorbs:
  assumes a: "absorbed m c" and l: "length data < 4294967168"
  shows "\<exists>c'. SHA1Update c data (of_nat (length data)) = Some c' \<and> absorbed (m @ data) c'"
proof -
  let ?n = "length m" and ?d = "length data" and ?len = "of_nat (length data) :: u32"
  let ?j = "drop_bit 3 (ctx_count0 c) AND 63"
  note A = a[unfolded absorbed_def]
  have d: "unat ?len = ?d" using l by (intro unat_of_nat_u32) simp
  have j: "unat ?j = ?n mod 64" using A fill_of_count(1) by blast
  have jl: "unat (?j + ?len) = ?n mod 64 + ?d" using j d l by (subst u32_add) auto
  note C = count_step[OF conjunct1[OF conjunct2[OF conjunct2[OF conjunct2[OF A]]]] conjunct2[OF conjunct2[OF conjunct2[OF conjunct2[OF A]]]] d]
  have nm: "?n = 64 * (?n div 64) + ?n mod 64" by simp
  have rm: "?n mod 64 < 64" by simp
  have buf: "length (ctx_buffer c) = 64" "take (?n mod 64) (ctx_buffer c) = drop (64 * (?n div 64)) m" using A by simp_all
  show ?thesis
  proof (cases "63 < ?j + ?len")
    case False
    then have lt: "?n mod 64 + ?d < 64" using jl by (simp add: u32_less_iff)
    have "?n + ?d = 64 * (?n div 64) + (?n mod 64 + ?d)" using nm by linarith
    then have q: "(?n + ?d) div 64 = ?n div 64" "(?n + ?d) mod 64 = ?n mod 64 + ?d"
      using lt by (simp_all only: div_mult_self4 mod_mult_self4 div_less mod_less)
    have b: "take (?n mod 64 + ?d) (memcpy_to (ctx_buffer c) (?n mod 64) data ?d) = drop (64 * (?n div 64)) (m @ data)"
      using take_memcpy_to[of "?n mod 64" "ctx_buffer c" ?d data] buf by simp
    have "length (memcpy_to (ctx_buffer c) (?n mod 64) data ?d) = 64" using buf lt by simp
    then show ?thesis using False b C A by (simp add: SHA1Update_def Let_def absorbed_def j d q fips_run_append)
  next
    case True
    then have ge: "64 \<le> ?n mod 64 + ?d" using jl by (simp add: u32_less_iff)
    define i where "i = (64 :: u32) - ?j"
    have i: "unat i = 64 - ?n mod 64" unfolding i_def using u32_diff[of ?j 64] j by (simp add: u32_le_iff)
    define buffer where "buffer = memcpy_to (ctx_buffer c) (?n mod 64) data (unat i)"
    have lb: "length buffer = 64" unfolding buffer_def using i ge buf by simp
    have "buffer = drop (64 * (?n div 64)) m @ take (unat i) data"
      using take_memcpy_to[of "?n mod 64" "ctx_buffer c" "unat i" data] buf ge i lb by (simp add: buffer_def)
    also have "\<dots> = take 64 (drop (64 * (?n div 64)) (m @ data))" using i by (simp add: minus_mod_eq_mult_div[symmetric])
    finally have "SHA1Transform (ctx_state c) buffer = fips_run (m @ data) (Suc (?n div 64))"
      using A by (simp add: transform_fips fips_run_Suc fips_run_append)
    moreover have "\<exists>i' k'. blocks_loop (fips_run (m @ data) (Suc (?n div 64))) data ?len i = Some (i', fips_run (m @ data) k') \<and>
      64 * k' = ?n + unat i' \<and> unat i' \<le> ?d \<and> ?d < unat i' + 64"
    proof (rule blocks_loop_run)
      show "64 * Suc (?n div 64) = ?n + unat i" by (rule fill_up[OF nm rm i])
    qed (use l i ge in auto)
    ultimately obtain i' k' where L: "blocks_loop (SHA1Transform (ctx_state c) buffer) data ?len i = Some (i', fips_run (m @ data) k')"
      "64 * k' = ?n + unat i'" "unat i' \<le> ?d" "?d < unat i' + 64" by auto
    have "?n + ?d = 64 * k' + (?d - unat i')" "?d - unat i' < 64" using L(2-4) by linarith+
    then have k: "(?n + ?d) div 64 = k'" "(?n + ?d) mod 64 = ?d - unat i'" by simp_all
    have u: "unat (?len - i') = ?d - unat i'" using L(3) d u32_diff[of i' ?len] by (simp add: u32_le_iff)
    have r: "take (?d - unat i') (memcpy_to buffer 0 (drop (unat i') data) (?d - unat i')) = drop (64 * k') (m @ data)"
      using L(2,3) take_memcpy_to[of 0 buffer "?d - unat i'" "drop (unat i') data"] by simp
    have "length (memcpy_to buffer 0 (drop (unat i') data) (?d - unat i')) = 64" using lb L(3,4) by simp
    moreover have "SHA1Update c data ?len = Some (c\<lparr>ctx_count0 := ctx_count0 c + push_bit 3 ?len,
        ctx_count1 := (if ctx_count0 c + push_bit 3 ?len < push_bit 3 ?len then ctx_count1 c + 1 else ctx_count1 c) + drop_bit 29 ?len,
        ctx_state := fips_run (m @ data) k', ctx_buffer := memcpy_to buffer 0 (drop (unat i') data) (?d - unat i')\<rparr>)" (is "_ = Some ?c")
      unfolding SHA1Update_def Let_def if_P[OF True] i_def[symmetric] using L(1) unfolding buffer_def
      by (simp add: j u)
    moreover have "ctx_state ?c = fips_run (m @ data) k'" "ctx_count0 ?c = ctx_count0 c + push_bit 3 ?len"
      "ctx_buffer ?c = memcpy_to buffer 0 (drop (unat i') data) (?d - unat i')"
      "ctx_count1 ?c = (if ctx_count0 c + push_bit 3 ?len < push_bit 3 ?len then ctx_count1 c + 1 else ctx_count1 c) + drop_bit 29 ?len"
      by simp_all
    ultimately show ?thesis using r C k unfolding absorbed_def length_append by metis
  qed
qed

section \<open>Padding and the digest\<close>

lemma pad_loop_absorbs:
  "absorbed m c \<Longrightarrow> \<exists>c'. pad_loop c = Some c' \<and> absorbed (m @ replicate ((120 - length m mod 64) mod 64) 0) c'"
proof (induction "(120 - length m mod 64) mod 64" arbitrary: m c)
  case 0
  have lt: "length m mod 64 < 64" by simp
  have "length m mod 64 = 56"
  proof (cases "length m mod 64 \<le> 56")
    case True
    then show ?thesis using 0(1) by (cases "length m mod 64 = 56") (simp_all add: le_mod_geq)
  qed (use 0(1) lt in simp)
  moreover from this have "ctx_count0 c AND 504 = 448" using fill_of_count(2)[of "ctx_count0 c" "length m"] 0(2) by (simp add: absorbed_def)
  ultimately show ?case using 0(2) by (subst pad_loop.simps) simp
next
  case (Suc k)
  have lt: "length m mod 64 < 64" by simp
  have ne: "length m mod 64 \<noteq> 56" using Suc(2) by auto
  then have go: "ctx_count0 c AND 504 \<noteq> 448" using fill_of_count(2)[of "ctx_count0 c" "length m"] Suc(3) by (simp add: absorbed_def)
  from SHA1Update_absorbs[OF Suc(3), of "[0]"] obtain c1 where c1: "SHA1Update c [0] 1 = Some c1" "absorbed (m @ [0]) c1" by auto
  have s: "(length m + 1) mod 64 = (if length m mod 64 = 63 then 0 else length m mod 64 + 1)"
    by (simp add: mod_Suc)
  have k: "k = (120 - length (m @ [0::u8]) mod 64) mod 64"
  proof (cases "length m mod 64 < 56")
    case True
    then have "Suc k = 56 - length m mod 64" using Suc(2) by (simp add: le_mod_geq)
    then show ?thesis using True s by (simp add: le_mod_geq)
  next
    case False
    then have "Suc k = 120 - length m mod 64" using Suc(2) ne lt by simp
    then show ?thesis using False s lt ne by auto
  qed
  from Suc(1)[OF k c1(2)] k[symmetric] Suc(2)[symmetric] c1(1) go show ?case
    by (subst pad_loop.simps) (simp add: replicate_app_Cons_same)
qed

lemma be_byte_nat: "be_byte x i = of_nat (unat x div 256 ^ (3 - i mod 4))"
proof -
  let ?k = "3 - i mod 4"
  have "?k \<in> {0, 1, 2, 3}" by auto
  moreover have "drop_bit (8 * ?k) x AND 255 = take_bit 8 (drop_bit (8 * ?k) x)"
    using take_bit_eq_mask[of 8 "drop_bit (8 * ?k) x"] by (simp add: mask_eq_exp_minus_1)
  then have "be_byte x i = ucast (drop_bit (8 * ?k) x)"
    by (simp add: be_byte_def mult.commute) (rule bit_word_eqI, auto simp: bit_simps)
  moreover have "ucast (y :: u32) = (of_nat (unat y) :: u8)" for y by (simp add: of_nat_unat)
  moreover have "unat (drop_bit (8 * j) x) = unat x div 256 ^ j" if "j \<in> {0, 1, 2, 3}" for j
    using that by (auto simp: drop_bit_eq_div u32_div)
  ultimately show ?thesis by metis
qed

lemma u8_of_nat_eq: "m mod 256 = n mod 256 \<Longrightarrow> (of_nat m :: u8) = of_nat n"
  by (simp add: word_unat_eq_iff unat_of_nat take_bit_eq_mod)

lemma finalcount_be64:
  assumes "unat c0 = n mod 4294967296" "unat c1 = n div 4294967296 mod 4294967296"
  shows "map (\<lambda>i. be_byte (if 4 \<le> i then c0 else c1) i) [0..<8] = be64_bytes n"
proof -
  have lo: "(of_nat (j mod 4294967296 div 256 ^ k) :: u8) = of_nat (j div 256 ^ k)" if k: "k \<in> {0, 1, 2, 3}" for j k
  proof (rule u8_of_nat_eq)
    have B: "4294967296 = (256 :: nat) ^ k * 256 ^ (4 - k)" and d: "(256 :: nat) dvd 256 ^ (4 - k)" using k by auto
    have "j mod 4294967296 = 256 ^ k * (j div 256 ^ k mod 256 ^ (4 - k)) + j mod 256 ^ k" unfolding B by (rule mod_mult2_eq)
    then have "j mod 4294967296 div 256 ^ k = j div 256 ^ k mod 256 ^ (4 - k)" by simp
    then show "j mod 4294967296 div 256 ^ k mod 256 = j div 256 ^ k mod 256" by (simp only: mod_mod_cancel[OF d])
  qed
  have hi: "(of_nat (n div 4294967296 mod 4294967296 div 256 ^ k) :: u8) = of_nat (n div (4294967296 * 256 ^ k))" if "k \<in> {0, 1, 2, 3}" for k
    unfolding div_mult2_eq by (rule lo[OF that])
  have up: "[0..<8] = [0, 1, 2, 3, 4, 5, 6, 7 :: nat]" by code_simp
  show ?thesis unfolding be64_bytes_def up
    using lo[of 0 n] lo[of 1 n] lo[of 2 n] lo[of 3 n] hi[of 0] hi[of 1] hi[of 2] hi[of 3]
    by (simp add: be_byte_nat assms)
qed

lemma digest_bytes:
  "map (\<lambda>i. be_byte (regs_list s ! (i div 4)) i) [0..<20] = concat (map be32_bytes (regs_list s))"
proof -
  have b: "be32_bytes x = map (be_byte x) [0..<4]" for x
  proof -
    have "be_byte x i = ucast (drop_bit (24 - 8 * i) x)" if "i < 4" for i
    proof -
      have "drop_bit (24 - 8 * i) x AND 255 = take_bit 8 (drop_bit (24 - 8 * i) x)"
        using take_bit_eq_mask[of 8 "drop_bit (24 - 8 * i) x"] by (simp add: mask_eq_exp_minus_1)
      moreover have "(3 - i mod 4) * 8 = 24 - 8 * i" using that by simp
      ultimately have "be_byte x i = ucast (take_bit 8 (drop_bit (24 - 8 * i) x))" by (simp add: be_byte_def)
      also have "\<dots> = ucast (drop_bit (24 - 8 * i) x)" by (rule bit_word_eqI) (auto simp: bit_simps)
      finally show ?thesis .
    qed
    then show ?thesis by (simp add: be32_bytes_def)
  qed
  have m: "be_byte x i = be_byte x (i mod 4)" for x i by (simp add: be_byte_def)
  obtain a b' c d e where s: "s = (a, b', c, d, e)" by (metis prod_cases5)
  have up: "[0..<20] = [0, 1, 2, 3, 4, 5, 6, 7, 8, 9, 10, 11, 12, 13, 14, 15, 16, 17, 18, 19 :: nat]" "[0..<4] = [0, 1, 2, 3 :: nat]"
    by code_simp+
  show ?thesis unfolding b s regs_list_def up
    by (simp add: m[of _ 4] m[of _ 5] m[of _ 6] m[of _ 7] m[of _ 8] m[of _ 9] m[of _ 10] m[of _ 11]
        m[of _ 12] m[of _ 13] m[of _ 14] m[of _ 15] m[of _ 16] m[of _ 17] m[of _ 18] m[of _ 19])
qed

lemma SHA1Final_fips:
  assumes "absorbed m c"
  shows "map_option fst (SHA1Final c) = Some (fips_sha1 m)"
proof -
  let ?n = "length m"
  have fc: "map (\<lambda>i. be_byte (if 4 \<le> i then ctx_count0 c else ctx_count1 c) i) [0..<8] = be64_bytes (8 * ?n)"
    by (rule finalcount_be64) (use assms in \<open>simp_all add: absorbed_def\<close>)
  from SHA1Update_absorbs[OF assms, of "[0x80]"] obtain c1 where c1: "SHA1Update c [0x80] 1 = Some c1" "absorbed (m @ [0x80]) c1" by auto
  let ?z = "replicate ((120 - length (m @ [0x80::u8]) mod 64) mod 64) 0"
  from pad_loop_absorbs[OF c1(2)] obtain c2 where c2: "pad_loop c1 = Some c2" "absorbed ((m @ [0x80]) @ ?z) c2" by blast
  have l8: "length (be64_bytes (8 * ?n)) = 8" by (simp add: be64_bytes_def)
  from SHA1Update_absorbs[OF c2(2), of "be64_bytes (8 * ?n)"] l8 obtain c3 where
    c3: "SHA1Update c2 (be64_bytes (8 * ?n)) 8 = Some c3" "absorbed (((m @ [0x80]) @ ?z) @ be64_bytes (8 * ?n)) c3" by auto
  have "(120 - (?n + 1) mod 64) mod 64 = (119 - ?n mod 64) mod 64"
  proof (cases "?n mod 64 = 63")
    case True
    then have "(?n + 1) mod 64 = 0" by (simp add: mod_Suc)
    then show ?thesis using True by simp
  next
    case False
    then have "(?n + 1) mod 64 = ?n mod 64 + 1" by (simp add: mod_Suc)
    then show ?thesis by simp
  qed
  then have "((m @ [0x80]) @ ?z) @ be64_bytes (8 * ?n) = fips_pad m" by (simp add: fips_pad_def)
  then have "ctx_state c3 = fips_run (fips_pad m) (length (fips_pad m) div 64)" using c3(2) by (simp add: absorbed_def)
  then show ?thesis using c1(1) c2(1) c3(1) fc digest_bytes[of "ctx_state c3"]
    by (simp add: SHA1Final_def Let_def fips_sha1_def)
qed

text \<open>A message that arrives in chunks.\<close>

fun update_all :: "SHA1_CTX \<Rightarrow> bytes list \<Rightarrow> SHA1_CTX option" where
  "update_all c [] = Some c"
| "update_all c (d # ds) = (case SHA1Update c d (of_nat (length d)) of None \<Rightarrow> None | Some c \<Rightarrow> update_all c ds)"

lemma update_all_absorbs:
  "absorbed m c \<Longrightarrow> \<forall>d\<in>set ds. length d < 4294967168 \<Longrightarrow> \<exists>c'. update_all c ds = Some c' \<and> absorbed (m @ concat ds) c'"
proof (induction ds arbitrary: m c)
  case (Cons d ds)
  from SHA1Update_absorbs[OF Cons.prems(1), of d] Cons.prems(2) obtain c1 where
    "SHA1Update c d (of_nat (length d)) = Some c1" "absorbed (m @ d) c1" by auto
  with Cons.IH[of "m @ d" c1] Cons.prems(2) show ?case by simp
qed simp

lemma Sha1_fips:
  assumes "length (ctx_buffer raw) = 64" and "length data < 4294967168"
  shows "Sha1 raw data (length data) = Some (fips_sha1 data)"
proof -
  from SHA1Update_absorbs[OF absorbed_Init[OF assms(1)] assms(2)] obtain c where
    c: "SHA1Update (SHA1Init raw) data (of_nat (length data)) = Some c" "absorbed data c" by auto
  show ?thesis using c(1) SHA1Final_fips[OF c(2)] by (simp add: Sha1_def)
qed

section \<open>Properties\<close>

text \<open>
  C20: The implementation computes the SHA-1 of the standard: for a message that arrives in any chunks, \<open>SHA1Init\<close>,
  \<open>SHA1Update\<close> and \<open>SHA1Final\<close> deliver the digest of FIPS PUB 180-1, whatever was in the context before.
  A chunk is shorter than \<open>2\<^sup>3\<^sup>2 - 128\<close> bytes: beyond that the 32-bit loop counter wraps.
\<close>

theorem sha1_is_fips:
  assumes "length (ctx_buffer raw) = 64" and "\<forall>d\<in>set (data # chunks). length d < 4294967168"
  shows "(case update_all (SHA1Init raw) (data # chunks) of None \<Rightarrow> None | Some c \<Rightarrow> map_option fst (SHA1Final c)) =
      Some (fips_sha1 (concat (data # chunks))) \<and>
    Sha1 raw data (length data) = Some (fips_sha1 data)"
proof -
  note i = absorbed_Init[OF assms(1)]
  from update_all_absorbs[OF i assms(2)] obtain c where
    c: "update_all (SHA1Init raw) (data # chunks) = Some c" "absorbed (concat (data # chunks)) c" by auto
  show ?thesis using c(1) SHA1Final_fips[OF c(2)] Sha1_fips[OF assms(1), of data] assms(2) by (simp del: update_all.simps)
qed

text \<open>A context that holds anything.\<close>

definition ex_ctx :: SHA1_CTX where
  "ex_ctx = \<lparr>ctx_state = (1, 2, 3, 4, 5), ctx_count0 = 6, ctx_count1 = 7, ctx_buffer = replicate 64 9\<rparr>"

theorem sha1_is_fips_witness:
  "Sha1 ex_ctx [0x61, 0x62, 0x63] 3 = Some (fips_sha1 [0x61, 0x62, 0x63])"
proof -
  have "length [0x61, 0x62, 0x63 :: u8] = 3" by simp
  moreover have "length (ctx_buffer ex_ctx) = 64" "\<forall>d\<in>set [[0x61, 0x62, 0x63 :: u8]]. length d < 4294967168"
    by (simp_all add: ex_ctx_def)
  ultimately show ?thesis using sha1_is_fips[of ex_ctx "[0x61, 0x62, 0x63]" "[]"] by metis
qed

end
