(* ===== verification/Cache.thy ===== *)
theory Cache
  imports Peerlist Sha1
begin

text \<open>
  The cache of \<^verbatim>\<open>btContent\<close> between the peers and the files (\<^verbatim>\<open>src/btcontent.cpp\<close>): slices are read and written
  through it, entries are written to disk and deleted when space is needed or a piece is complete.

  A result \<open>None\<close> means that the program uses a deleted object or follows a null pointer (here, or in the files
  below), or that a loop does not end.  The functions call each other: \<^verbatim>\<open>FlushEntry\<close>, when a write succeeds after one
  that had failed, calls \<^verbatim>\<open>CacheConfigure\<close>, which calls \<^verbatim>\<open>CacheClean\<close>, which calls \<^verbatim>\<open>FlushPiece\<close> and so
  \<^verbatim>\<open>FlushEntry\<close> again; the parameter \<open>depth\<close> bounds the nesting.  The configuration value \<^verbatim>\<open>cfg_cache_size\<close> changes
  and is part of the state; \<^verbatim>\<open>double\<close> values are exact, and one that does not fit an integer type wraps around.
\<close>

abbreviation store_of :: "world \<Rightarrow> store" where "store_of w \<equiv> c_store (w_content w)"
abbreviation flush_failed :: "world \<Rightarrow> bool" where "flush_failed w \<equiv> c_flush_failed (w_content w)"

abbreviation FLUSH_RETRY_INTERVAL :: int where "FLUSH_RETRY_INTERVAL \<equiv> 300"

definition upd_store :: "(store \<Rightarrow> store) \<Rightarrow> world \<Rightarrow> world" where
  "upd_store f w = upd_content (\<lambda>c. c\<lparr>c_store := f (c_store c)\<rparr>) w"

definition set_flush_failed :: "bool \<Rightarrow> world \<Rightarrow> world" where
  "set_flush_failed b w = upd_content (\<lambda>c. c\<lparr>c_flush_failed := b\<rparr>) w"

text \<open>The piece an offset lies in.\<close>

definition piece_of :: "world \<Rightarrow> u64 \<Rightarrow> nat" where
  "piece_of w off = unat (ucast (off div ucast (piece_length w)) :: u32)"

definition NeedMerge_c :: "world \<Rightarrow> bool" where
  "NeedMerge_c w = NeedMerge (w_now w) (st_files (store_of w))"

section \<open>Files\<close>

text \<open>\<^verbatim>\<open>WriteFail\<close>; its messages are left out.\<close>

definition WriteFail :: "env \<Rightarrow> world \<Rightarrow> world" where
  "WriteFail e w =
     (let w = upd_store (\<lambda>s. s\<lparr>m_flush_tried := w_now w\<rparr>) w;
          w = (if \<not> flush_failed w
               then upd_store (\<lambda>s. s\<lparr>m_cache_size := m_cache_size s + cfg_req_slice_size e * w_downloads w * 2\<rparr>) w else w)
      in StopDownload e (set_flush_failed True w))"

text \<open>The result says whether the transfer succeeded; \<open>buf\<close> is the buffer before it, and the second result after it.\<close>

definition FileIO :: "env \<Rightarrow> bool \<Rightarrow> bytes \<Rightarrow> u64 \<Rightarrow> u32 \<Rightarrow> world \<Rightarrow> ((bool \<times> bytes) \<times> world) option" where
  "FileIO e iotype buf off len w =
     (case btf_IO (e_open_depth e) (e_os e) (w_now w) iotype buf off len (st_files (store_of w)) of
        None \<Rightarrow> None
      | Some ((ok, buf), d) \<Rightarrow>
         (let w = upd_store (\<lambda>s. s\<lparr>st_files := d\<rparr>) w
          in Some ((ok, buf), if \<not> ok \<and> iotype then WriteFail e w else w)))"

section \<open>The size of the cache\<close>

definition RateUL :: "env \<Rightarrow> nat \<Rightarrow> world \<Rightarrow> u32 \<times> world" where
  "RateUL e i w =
     (let (v, r) = RateMeasure (e_sample_mem e) (w_now w) (pr_ul (peer w i))
      in (v, upd_peer i (\<lambda>p. p\<lparr>pr_ul := r\<rparr>) w))"

definition Self_RateUL :: "env \<Rightarrow> world \<Rightarrow> u32 \<times> world" where
  "Self_RateUL e w =
     (let (v, r) = RateMeasure (e_sample_mem e) (w_now w) (w_self_ul w) in (v, w\<lparr>w_self_ul := r\<rparr>))"

definition Self_RateDL :: "env \<Rightarrow> world \<Rightarrow> u32 \<times> world" where
  "Self_RateDL e w =
     (let (v, r) = RateMeasure (e_sample_mem e) (w_now w) (w_self_dl w) in (v, w\<lparr>w_self_dl := r\<rparr>))"

text \<open>The loop of \<^verbatim>\<open>GetSlowestUp\<close> with its locals \<open>(slowest, zero, unchoked)\<close>.\<close>

fun slowest_loop :: "env \<Rightarrow> u32 \<Rightarrow> nat list \<Rightarrow> (u32 \<times> bool \<times> u32) \<Rightarrow> world \<Rightarrow> (u32 \<times> bool \<times> u32) \<times> world" where
  "slowest_loop e minimum [] st w = (st, w)"
| "slowest_loop e minimum (i # is) (slowest, zero, unchoked) w =
     (if is_success w i \<and> \<not> local_choked (peer w i) then
        (let (rate, w) = RateUL e i w
         in if rate = 0 then slowest_loop e minimum is (slowest, True, unchoked + 1) w
            else if minimum \<le> rate \<and> (rate < slowest \<or> slowest = 0)
            then slowest_loop e minimum is (rate, zero, unchoked + 1) w
            else slowest_loop e minimum is (slowest, zero, unchoked + 1) w)
      else slowest_loop e minimum is (slowest, zero, unchoked) w)"

definition GetSlowestUp :: "env \<Rightarrow> u32 \<Rightarrow> world \<Rightarrow> u32 \<times> world" where
  "GetSlowestUp e minimum w =
     (let ((slowest, zero, unchoked), w) = slowest_loop e minimum (w_head w) (0, False, 0) w;
          (rate, w) = Self_RateUL e w;
          slowest = (if rate < slowest then rate else slowest)
      in if slowest \<noteq> 0 then (if zero then (if minimum \<noteq> 0 then minimum else (slowest + 1) div 2, w) else (slowest, w))
         else
           (let unchoked = (if unchoked = 0 then 1 else unchoked)
            in if zero then
                 (if minimum \<noteq> 0 then (minimum, w)
                  else (let (rate, w) = Self_RateUL e w in (if rate \<noteq> 0 then rate div unchoked else 1, w)))
               else (0, w)))"

definition to_u32 :: "rat \<Rightarrow> u32" where
  "to_u32 x = word_of_int \<lfloor>x\<rfloor>"

text \<open>
  \<^verbatim>\<open>CacheEval\<close>: what uploading needs.  \<open>mb\<close> is the configured size in bytes as a \<^verbatim>\<open>double\<close>; the divisions by it are
  as they are written, \<open>x / cfg * 1024 * 1024\<close> in one case.  The local \<^verbatim>\<open>upmax\<close> is not used.
\<close>

definition cache_upadd :: "env \<Rightarrow> u32 \<Rightarrow> u32 \<Rightarrow> u32 \<Rightarrow> world \<Rightarrow> u32 \<times> world" where
  "cache_upadd e rateup ratedn unchoked w =
     (let cfg = rat_of_word (cfg_cache_size (store_of w)); mb = cfg * 1024 * 1024; dss = rat_of_word DEFAULT_SLICE_SIZE;
          up = rat_of_word rateup; dn = rat_of_word ratedn; plen = piece_length w
      in if IsFull_c w then
           (if rateup \<noteq> 0 \<and> unchoked \<noteq> 0 then
              (let (slowest, w) = GetSlowestUp e (to_u32 (1 + dss / (mb / up))) w
               in (if slowest \<noteq> 0 then DEFAULT_SLICE_SIZE * (rateup div slowest + unchoked - 1)
                   else DEFAULT_SLICE_SIZE * unchoked, w))
            else (0, w))
         else if ratedn < rateup then
           (let (slowest, w) = GetSlowestUp e (to_u32 (1 + rat_of_word (cfg_req_slice_size e) * (dn / cfg * 1024 * 1024) +
                                                 dss * (up / cfg * 1024 * 1024))) w
            in (if slowest \<noteq> 0 then to_u32 (dss / rat_of_word slowest * rat_of_word (ratedn + rateup + 1))
                else plen * unchoked, w))
         else if rateup \<noteq> 0 then
           (let (slowest, w) = GetSlowestUp e (to_u32 (1 + dn * (rat_of_word plen / mb))) w
            in (if slowest \<noteq> 0 then plen * (ratedn div slowest + 2)
                else word_of_int (uint ratedn * w_unchoke_interval w + uint (DEFAULT_SLICE_SIZE * unchoked)), w))
         else (0, w))"

fun unflushed_bytes :: "store \<Rightarrow> nat list \<Rightarrow> u32" where
  "unflushed_bytes s [] = 0"
| "unflushed_bytes s (i # is) =
     (case st_node s i of
        None \<Rightarrow> unflushed_bytes s is
      | Some p \<Rightarrow> (if bc_f_flush p then bc_len p else 0) + unflushed_bytes s is)"

definition CacheEval :: "env \<Rightarrow> world \<Rightarrow> world" where
  "CacheEval e w =
     (let (rateup, w) = Self_RateUL e w; (ratedn, w) = Self_RateDL e w; unchoked = GetUnchoked w;
          interval = (if ratedn \<noteq> 0 then
                        (let t = uint (piece_length w div ratedn)
                         in if w_unchoke_interval w < t then w_unchoke_interval w else if t = 0 then 1 else t)
                      else w_unchoke_interval w);
          s = store_of w;
          unflushed = (if IsFull_c w then 0
                       else if Count (c_BF (w_content w)) < 2 then m_cache_used s else unflushed_bytes s (m_age s));
          dlnext = (if IsFull_c w then 0
                    else if ratedn \<noteq> 0 then word_of_int (uint ratedn * interval + uint (piece_length w)) else 0);
          upmin = DEFAULT_SLICE_SIZE * unchoked;
          (upadd, w) = cache_upadd e rateup ratedn unchoked w;
          upadd = (if upadd < upmin then upmin else upadd);
          sum = unflushed + dlnext + upadd + cfg_req_slice_size e;
          sum = (if cache_limit s < sum then cache_limit s else sum)
      in upd_store (\<lambda>s. s\<lparr>m_cache_size := (if \<not> flush_failed w \<or> m_cache_size s < sum then sum else m_cache_size s),
                          m_cache_eval_time := w_now w + interval\<rparr>) w)"

section \<open>Flushing\<close>

text \<open>\<open>conf\<close> is \<^verbatim>\<open>CacheConfigure\<close>.\<close>

definition FlushEntry_with :: "(world \<Rightarrow> world option) \<Rightarrow> env \<Rightarrow> nat \<Rightarrow> world \<Rightarrow> world option" where
  "FlushEntry_with conf e i w =
     (if flush_failed w \<and> w_now w < m_flush_tried (store_of w) + FLUSH_RETRY_INTERVAL then Some w
      else
        (case st_node (store_of w) i of
           None \<Rightarrow> None
         | Some p \<Rightarrow>
            (if \<not> bc_f_flush p then Some w
             else
               (case FileIO e True (bc_buf p) (bc_off p) (bc_len p) w of
                  None \<Rightarrow> None
                | Some ((ok, _), w) \<Rightarrow>
                   (if \<not> ok then Some w
                    else
                      (let w = upd_store (upd_cached i (\<lambda>p. p\<lparr>bc_f_flush := False\<rparr>)) w
                       in if flush_failed w
                          then map_option (CheckInterest e) (conf (set_flush_failed False w))
                          else Some w))))))"

text \<open>
  The loop of \<^verbatim>\<open>FlushPiece\<close> from the entry \<open>cur\<close> on.  The step to the next entry reads the object again, which
  must still be there.
\<close>

partial_function (option) flush_loop ::
  "(nat \<Rightarrow> world \<Rightarrow> world option) \<Rightarrow> nat \<Rightarrow> bool \<Rightarrow> nat option \<Rightarrow> bool \<Rightarrow> world \<Rightarrow> (bool \<times> world) option" where
  "flush_loop entry idx done cur ret w =
     (case cur of
        None \<Rightarrow> Some (ret, w)
      | Some i \<Rightarrow>
         (case st_node (store_of w) i of
            None \<Rightarrow> None
          | Some p \<Rightarrow>
             (let aged = (done \<and> m_cache_newest (store_of w) \<noteq> Some i);
                  w = (if aged then upd_store (to_newest i) w else w)
              in case (if bc_f_flush p then entry i w else Some w) of
                   None \<Rightarrow> None
                 | Some w \<Rightarrow>
                    (if st_node (store_of w) i = None then None
                     else flush_loop entry idx done (next_in i (m_cache (store_of w) idx)) (ret \<or> aged) w))))"

declare flush_loop.simps [code]

text \<open>\<^verbatim>\<open>FlushPiece\<close>; \<^verbatim>\<open>pBF\<close> does not change while it runs.\<close>

definition FlushPiece_with :: "(world \<Rightarrow> world option) \<Rightarrow> env \<Rightarrow> nat \<Rightarrow> world \<Rightarrow> (bool \<times> world) option" where
  "FlushPiece_with conf e idx w =
     flush_loop (FlushEntry_with conf e) idx (IsSet (npieces w) (c_BF (w_content w)) (of_nat idx))
       (first_of (m_cache (store_of w) idx)) False w"

fun flush_all :: "(nat \<Rightarrow> world \<Rightarrow> (bool \<times> world) option) \<Rightarrow> nat list \<Rightarrow> world \<Rightarrow> world option" where
  "flush_all piece [] w = Some w"
| "flush_all piece (idx # is) w =
     (case (if m_cache (store_of w) idx \<noteq> [] then piece idx w else Some (False, w)) of
        None \<Rightarrow> None
      | Some (_, w) \<Rightarrow> if flush_failed w then Some w else flush_all piece is w)"

definition FlushCache_with :: "(nat \<Rightarrow> world \<Rightarrow> (bool \<times> world) option) \<Rightarrow> env \<Rightarrow> world \<Rightarrow> world option" where
  "FlushCache_with piece e w =
     (case flush_all piece [0..<unat (npieces w)] w of
        None \<Rightarrow> None
      | Some w \<Rightarrow>
         Some (if \<not> NeedMerge_c w \<and> m_flushq (store_of w) = [] \<and> Seeding e w then upd_store CloseAllFiles w else w))"

section \<open>Making space\<close>

text \<open>
  The loop of \<^verbatim>\<open>CacheClean\<close>; \<open>idx\<close> is the piece to spare, except while flushing.
\<close>

partial_function (option) clean_loop ::
  "(nat \<Rightarrow> world \<Rightarrow> (bool \<times> world) option) \<Rightarrow> u32 \<Rightarrow> nat \<Rightarrow> bool \<Rightarrow> nat option \<Rightarrow> world \<Rightarrow> world option" where
  "clean_loop piece need idx f_flush cur w =
     (case cur of
        None \<Rightarrow> Some w
      | Some i \<Rightarrow>
         (if \<not> m_cache_size (store_of w) < m_cache_used (store_of w) + need then Some w
          else
            (case st_node (store_of w) i of
               None \<Rightarrow> None
             | Some p \<Rightarrow>
                (let pnext = next_in i (m_age (store_of w)); k = piece_of w (bc_off p)
                 in case (if f_flush \<and> bc_f_flush p \<and> \<not> flush_failed w then piece k w else Some (False, w)) of
                      None \<Rightarrow> None
                    | Some (aged, w) \<Rightarrow>
                       (if aged then clean_loop piece need idx f_flush (m_cache_oldest (store_of w)) w
                        else
                          (case st_node (store_of w) i of
                             None \<Rightarrow> None
                           | Some p \<Rightarrow>
                              clean_loop piece need idx f_flush pnext
                                (if bc_f_flush p \<or> \<not> f_flush \<and> idx = k then w
                                 else upd_store (expire_entry k i p) w)))))))"

declare clean_loop.simps [code]

text \<open>When the loop did not free enough, the cache may grow up to its configured size.\<close>

definition cache_grow :: "u32 \<Rightarrow> world \<Rightarrow> world" where
  "cache_grow need w =
     upd_store (\<lambda>s. if m_cache_size s < cache_limit s
                    then s\<lparr>m_cache_size := (if cache_limit s < m_cache_used s + need then cache_limit s else m_cache_used s + need)\<rparr>
                    else s) w"

definition cache_short :: "u32 \<Rightarrow> world \<Rightarrow> bool" where
  "cache_short need w \<longleftrightarrow> m_cache_size (store_of w) < m_cache_used (store_of w) + need"

definition CacheClean_with :: "(nat \<Rightarrow> world \<Rightarrow> (bool \<times> world) option) \<Rightarrow> env \<Rightarrow> u32 \<Rightarrow> nat \<Rightarrow> world \<Rightarrow> world option" where
  "CacheClean_with piece e need idx w =
     (case (if flush_failed w \<and> m_flush_tried (store_of w) + FLUSH_RETRY_INTERVAL \<le> w_now w \<and> need \<noteq> 0
            then FlushCache_with piece e w else Some w) of
        None \<Rightarrow> None
      | Some w \<Rightarrow>
         (case clean_loop piece need idx False (m_cache_oldest (store_of w)) w of
            None \<Rightarrow> None
          | Some w \<Rightarrow>
             (if \<not> cache_short need w then Some w
              else
                (let w = cache_grow need w
                 in if cache_short need w \<and> m_cache_used (store_of w) \<noteq> 0
                    then map_option (\<lambda>w. if cache_short need w then cache_grow need w else w)
                           (clean_loop piece need idx True (m_cache_oldest (store_of w)) w)
                    else Some w))))"

text \<open>
  \<^verbatim>\<open>CacheConfigure\<close>.  An assignment to \<^verbatim>\<open>cfg_cache_size\<close> that changes it calls \<^verbatim>\<open>CacheConfigure\<close> again, which then
  finds either the same value to assign or a value it keeps.
\<close>

definition CacheConfigure_step :: "(world \<Rightarrow> world option) \<Rightarrow> (world \<Rightarrow> world option) \<Rightarrow> env \<Rightarrow> world \<Rightarrow> world option" where
  "CacheConfigure_step again clean e w =
     (let len = m_total_files_length (st_files (store_of w)); cfg = cfg_cache_size (store_of w)
      in if len = 0 then Some w
         else
           (case (if cfg \<noteq> 0 then
                    (if len div 1024 div 1024 < ucast cfg then
                       (let cfg' = ucast ((len + 1048575) div 1024 div 1024)
                        in if cfg' = cfg then Some w else again (upd_store (\<lambda>s. s\<lparr>cfg_cache_size := cfg'\<rparr>) w))
                     else Some (CacheEval e w))
                  else Some (upd_store (\<lambda>s. s\<lparr>m_cache_size := 0\<rparr>) w)) of
              None \<Rightarrow> None
            | Some w \<Rightarrow>
               (if m_cache_size (store_of w) < m_cache_used (store_of w) \<and> \<not> flush_failed w then clean w else Some w)))"

definition CacheConfigure_with :: "(world \<Rightarrow> world option) \<Rightarrow> env \<Rightarrow> world \<Rightarrow> world option" where
  "CacheConfigure_with clean e w =
     CacheConfigure_step (CacheConfigure_step (\<lambda>w. None) clean e) clean e w"

fun CacheClean_at :: "nat \<Rightarrow> env \<Rightarrow> u32 \<Rightarrow> nat \<Rightarrow> world \<Rightarrow> world option" where
  "CacheClean_at 0 e need idx w = None"
| "CacheClean_at (Suc depth) e need idx w =
     CacheClean_with (FlushPiece_with (CacheConfigure_with (\<lambda>w. CacheClean_at depth e 0 (unat (npieces w)) w) e) e) e need idx w"

text \<open>
  Two levels are enough: the nested \<^verbatim>\<open>CacheClean\<close> runs with \<^verbatim>\<open>m_flush_failed\<close> cleared, and a write that fails in it
  makes \<^verbatim>\<open>FlushEntry\<close> return early from then on, so it does not get to \<^verbatim>\<open>CacheConfigure\<close> (\<open>Cache_Flow.FlushEntry_keeps\<close>
  holds whatever \<open>conf\<close> is).
\<close>

definition CacheClean :: "env \<Rightarrow> u32 \<Rightarrow> nat \<Rightarrow> world \<Rightarrow> world option" where
  "CacheClean e need idx w = CacheClean_at 2 e need idx w"

definition CacheConfigure :: "env \<Rightarrow> world \<Rightarrow> world option" where
  "CacheConfigure e w = CacheConfigure_with (\<lambda>w. CacheClean e 0 (unat (npieces w)) w) e w"

definition FlushEntry :: "env \<Rightarrow> nat \<Rightarrow> world \<Rightarrow> world option" where
  "FlushEntry e i w = FlushEntry_with (CacheConfigure e) e i w"

definition FlushPiece :: "env \<Rightarrow> nat \<Rightarrow> world \<Rightarrow> (bool \<times> world) option" where
  "FlushPiece e idx w = FlushPiece_with (CacheConfigure e) e idx w"

definition FlushCache :: "env \<Rightarrow> world \<Rightarrow> world option" where
  "FlushCache e w = FlushCache_with (FlushPiece e) e w"

definition NeedFlush :: "env \<Rightarrow> world \<Rightarrow> bool" where
  "NeedFlush e w =
     (let s = store_of w
      in if flush_failed w then m_flush_tried s + FLUSH_RETRY_INTERVAL \<le> w_now w
         else m_flushq s \<noteq> [] \<or>
              (case m_cache_oldest s of
                 None \<Rightarrow> False
               | Some i \<Rightarrow>
                   (case st_node s i of None \<Rightarrow> False | Some p \<Rightarrow> bc_f_flush p) \<and>
                   cache_limit s - cfg_req_slice_size e + 1 \<le> m_cache_used s))"

definition FlushQueue :: "env \<Rightarrow> world \<Rightarrow> world option" where
  "FlushQueue e w =
     (case (case m_flushq (store_of w) of
              idx # _ \<Rightarrow>
                map_option (\<lambda>(_, w). if \<not> flush_failed w then upd_store (\<lambda>s. s\<lparr>m_flushq := tl (m_flushq s)\<rparr>) w else w)
                  (FlushPiece e (unat idx) w)
            | [] \<Rightarrow>
                (case m_cache_oldest (store_of w) of
                   None \<Rightarrow> None
                 | Some i \<Rightarrow>
                    (case st_node (store_of w) i of
                       None \<Rightarrow> None
                     | Some p \<Rightarrow> map_option snd (FlushPiece e (piece_of w (bc_off p)) w)))) of
        None \<Rightarrow> None
      | Some w \<Rightarrow>
         (if m_flushq (store_of w) = [] \<and> Seeding e w then
            (let w = CacheEval e (if \<not> NeedMerge_c w then upd_store CloseAllFiles w else w)
             in if m_cache_size (store_of w) < m_cache_used (store_of w) then CacheClean e 0 (unat (npieces w)) w else Some w)
          else Some w))"

definition MergeNext_c :: "env \<Rightarrow> world \<Rightarrow> world option" where
  "MergeNext_c e w =
     (if flush_failed w then Some w
      else
        (case MergeNext_f (e_open_depth e) (e_os e) (w_now w) (st_files (store_of w)) of
           None \<Rightarrow> None
         | Some (_, d) \<Rightarrow>
            (let w = upd_store (\<lambda>s. s\<lparr>st_files := d\<rparr>) w
             in Some (if \<not> NeedMerge_c w \<and> m_flushq (store_of w) = [] \<and> Seeding e w then upd_store CloseAllFiles w else w))))"

text \<open>\<^verbatim>\<open>CachePrep\<close> deletes entries of other pieces, written or not.\<close>

partial_function (option) prep_loop :: "env \<Rightarrow> u32 \<Rightarrow> nat \<Rightarrow> nat option \<Rightarrow> world \<Rightarrow> world option" where
  "prep_loop e need idx cur w =
     (case cur of
        None \<Rightarrow> Some w
      | Some i \<Rightarrow>
         (if \<not> m_cache_size (store_of w) < m_cache_used (store_of w) + need then Some w
          else
            (case st_node (store_of w) i of
               None \<Rightarrow> None
             | Some p \<Rightarrow>
                (let pnext = next_in i (m_age (store_of w)); k = piece_of w (bc_off p)
                 in if k = idx then prep_loop e need idx pnext w
                    else
                      (case (if bc_f_flush p \<and> \<not> flush_failed w then FlushPiece e k w else Some (False, w)) of
                         None \<Rightarrow> None
                       | Some (aged, w) \<Rightarrow>
                          (if aged then prep_loop e need idx (m_cache_oldest (store_of w)) w
                           else
                             (case st_node (store_of w) i of
                                None \<Rightarrow> None
                              | Some p \<Rightarrow> prep_loop e need idx pnext (upd_store (expire_entry k i p) w))))))))"

declare prep_loop.simps [code]

fun chain_bytes :: "store \<Rightarrow> nat list \<Rightarrow> u32" where
  "chain_bytes s [] = 0"
| "chain_bytes s (i # is) = (case st_node s i of None \<Rightarrow> 0 | Some p \<Rightarrow> bc_len p) + chain_bytes s is"

definition CachePrep :: "env \<Rightarrow> nat \<Rightarrow> world \<Rightarrow> (bool \<times> world) option" where
  "CachePrep e idx w =
     (let need = GetPieceLength (c_geo (w_content w)) (of_nat idx); s = store_of w
      in if m_cache_size s < m_cache_used s + need then
           (let need = need - chain_bytes s (m_cache s idx)
            in if need = 0 then Some (False, w)
               else map_option (Pair True) (prep_loop e need idx (m_cache_oldest s) w))
         else Some (True, w))"

section \<open>Reading and writing slices\<close>

text \<open>
  \<^verbatim>\<open>CacheIO\<close> with the method 1 (\<open>wr\<close>) to write and 0 to read; \<open>io\<close> is the buffer, \<open>None\<close> for the null pointer of a
  prefetch.  The result is whether it returns 0, and the buffer afterwards.
\<close>

definition CacheIO :: "env \<Rightarrow> bytes option \<Rightarrow> u64 \<Rightarrow> u32 \<Rightarrow> bool \<Rightarrow> world \<Rightarrow> ((bool \<times> bytes) \<times> world) option" where
  "CacheIO e io off len wr w =
     (let idx = piece_of w off; buf = (case io of None \<Rightarrow> [] | Some b \<Rightarrow> b)
      in if cfg_cache_size (store_of w) * 1024 * 768 \<le> len then
           (if io = None then Some ((True, []), w) else FileIO e wr buf off len w)
         else
           (case (if m_cache_size (store_of w) < m_cache_used (store_of w) + len
                  then CacheClean e len (if \<not> wr \<and> \<not> IsSet (npieces w) (c_BF (w_content w)) (of_nat idx) then idx else unat (npieces w)) w
                  else Some w) of
              None \<Rightarrow> None
            | Some w \<Rightarrow>
               (case (if \<not> wr \<and> io \<noteq> None then FileIO e False buf off len w else Some ((True, buf), w)) of
                  None \<Rightarrow> None
                | Some ((ok, buf), w) \<Rightarrow>
                   (if \<not> ok then Some ((False, buf), w)
                    else if \<not> e_cache_mem e (st_next (store_of w)) then
                      (if wr then FileIO e True buf off len w else Some ((True, buf), w))
                    else
                      (case (if io = None then FileIO e False (replicate (unat len) (ucast (e_junk e))) off len w
                             else Some ((True, take (unat len) buf), w)) of
                         None \<Rightarrow> None
                       | Some ((ok, dat), w) \<Rightarrow>
                          (if \<not> ok then Some ((False, buf), w)
                           else Some ((True, buf),
                                  upd_store (add_entry idx \<lparr>bc_off = off, bc_len = len, bc_f_flush = wr, bc_buf = dat\<rparr>) w)))))))"

text \<open>The entries from the first one on that is not in front of the range.\<close>

fun skip_unfit :: "store \<Rightarrow> u64 \<Rightarrow> u32 \<Rightarrow> nat list \<Rightarrow> nat list" where
  "skip_unfit s off len [] = []"
| "skip_unfit s off len (i # is) =
     (case st_node s i of
        None \<Rightarrow> i # is
      | Some p \<Rightarrow> if bc_off p < off + ucast len \<and> \<not> CACHE_FIT p off len then skip_unfit s off len is else i # is)"

text \<open>The part of an entry that belongs to the range, for an entry that begins at or before it.\<close>

definition hit_len :: "btcache \<Rightarrow> u64 \<Rightarrow> u32 \<Rightarrow> u32" where
  "hit_len p off len =
     (let n = (if bc_off p < off then ucast (bc_off p + ucast (bc_len p) - off) else bc_len p) in if len < n then len else n)"

text \<open>
  The loop of \<^verbatim>\<open>ReadSlice\<close>: \<open>ps\<close> are the entries from \<^verbatim>\<open>p\<close> on, \<open>buf\<close> is the buffer from \<^verbatim>\<open>buf\<close> on and \<open>rd\<close> what was
  read before it.  \<open>Inl\<close> is an early return of -1.
\<close>

record slicestate =
  sl_off :: u64
  sl_len :: u32
  sl_buf :: "bytes option"
  sl_rd :: bytes

definition advance :: "u32 \<Rightarrow> slicestate \<Rightarrow> slicestate" where
  "advance n sl = sl\<lparr>sl_off := sl_off sl + ucast n, sl_len := sl_len sl - n, sl_buf := map_option (drop (unat n)) (sl_buf sl)\<rparr>"

definition count_miss :: "bool \<Rightarrow> u32 \<Rightarrow> store \<Rightarrow> store" where
  "count_miss buffer len s =
     (if buffer then s\<lparr>m_cache_miss := m_cache_miss s + slices_of len\<rparr> else s\<lparr>m_cache_pre := m_cache_pre s + slices_of len\<rparr>)"

partial_function (option) read_loop :: "env \<Rightarrow> nat \<Rightarrow> nat list \<Rightarrow> slicestate \<Rightarrow> world \<Rightarrow> ((bytes + slicestate) \<times> world) option" where
  "read_loop e idx ps sl w =
     (let off = sl_off sl; len = sl_len sl; ps = (if len = 0 then [] else skip_unfit (store_of w) off len ps)
      in case ps of
           [] \<Rightarrow> Some (Inr sl, w)
         | i # is \<Rightarrow>
            (case st_node (store_of w) i of
               None \<Rightarrow> None
             | Some p \<Rightarrow>
                (if \<not> CACHE_FIT p off len then Some (Inr sl, w)
                 else if off < bc_off p then
                   (let len2 = ucast (bc_off p - off)
                    in case CacheIO e (sl_buf sl) off len2 False w of
                         None \<Rightarrow> None
                       | Some (r, w) \<Rightarrow>
                          (let out = snd r; sl = sl\<lparr>sl_buf := map_option (\<lambda>_. out) (sl_buf sl)\<rparr>
                           in if \<not> fst r then Some (Inl (sl_rd sl @ out), w)
                              else
                                (let w = upd_store (count_miss (sl_buf sl \<noteq> None) len2) w
                                 in read_loop e idx (m_cache (store_of w) idx)
                                      (advance len2 (sl\<lparr>sl_rd := sl_rd sl @ take (unat len2) out\<rparr>)) w)))
                 else
                   (let len2 = hit_len p off len
                    in if sl_buf sl = None then read_loop e idx is (advance len2 sl) (upd_store (to_newest i) w)
                       else read_loop e idx is
                              (advance len2 (sl\<lparr>sl_rd := sl_rd sl @ take (unat len2) (drop (unat (off - bc_off p)) (bc_buf p))\<rparr>))
                              (upd_store (\<lambda>s. s\<lparr>m_cache_hit := m_cache_hit s + slices_of len2\<rparr>) w)))))"

declare read_loop.simps [code]

definition ReadSlice :: "env \<Rightarrow> bytes option \<Rightarrow> u32 \<Rightarrow> u32 \<Rightarrow> u32 \<Rightarrow> world \<Rightarrow> ((bool \<times> bytes) \<times> world) option" where
  "ReadSlice e buf idx off len w =
     (let offset = ucast idx * ucast (piece_length w) + ucast off
      in if m_cache_size (store_of w) = 0 then
           (case buf of None \<Rightarrow> Some ((True, []), w) | Some b \<Rightarrow> FileIO e False b offset len w)
         else
           (case read_loop e (unat idx) (m_cache (store_of w) (unat idx))
                   \<lparr>sl_off = offset, sl_len = len, sl_buf = buf, sl_rd = []\<rparr> w of
              None \<Rightarrow> None
            | Some (Inl out, w) \<Rightarrow> Some ((False, out), w)
            | Some (Inr sl, w) \<Rightarrow>
               (if sl_len sl = 0 then Some ((True, sl_rd sl @ (case sl_buf sl of None \<Rightarrow> [] | Some b \<Rightarrow> b)), w)
                else
                  map_option (\<lambda>((ok, out), w). ((ok, sl_rd sl @ out), w))
                    (CacheIO e (sl_buf sl) (sl_off sl) (sl_len sl) False
                       (upd_store (count_miss (sl_buf sl \<noteq> None) (sl_len sl)) w)))))"

definition copy_into :: "btcache \<Rightarrow> nat \<Rightarrow> bytes \<Rightarrow> btcache" where
  "copy_into p pos dat = p\<lparr>bc_buf := memcpy_to (bc_buf p) pos dat (length dat), bc_f_flush := True\<rparr>"

partial_function (option) write_loop :: "env \<Rightarrow> nat \<Rightarrow> nat list \<Rightarrow> bytes \<Rightarrow> u64 \<Rightarrow> u32 \<Rightarrow> world \<Rightarrow> (bool \<times> bytes \<times> u64 \<times> u32 \<times> world) option" where
  "write_loop e idx ps buf off len w =
     (let ps = (if len = 0 then [] else skip_unfit (store_of w) off len ps)
      in case ps of
           [] \<Rightarrow> Some (True, buf, off, len, w)
         | i # is \<Rightarrow>
            (case st_node (store_of w) i of
               None \<Rightarrow> None
             | Some p \<Rightarrow>
                (if \<not> CACHE_FIT p off len then Some (True, buf, off, len, w)
                 else if off < bc_off p then
                   (let len2 = ucast (bc_off p - off)
                    in case CacheIO e (Some buf) off len2 True w of
                         None \<Rightarrow> None
                       | Some (r, w) \<Rightarrow>
                          (if \<not> fst r then Some (False, buf, off, len, w)
                           else write_loop e idx (m_cache (store_of w) idx) (drop (unat len2) buf) (off + ucast len2) (len - len2) w))
                 else
                   (let len2 = hit_len p off len
                    in write_loop e idx is (drop (unat len2) buf) (off + ucast len2) (len - len2)
                         (upd_store (\<lambda>s. to_newest i (upd_cached i (\<lambda>p. copy_into p (unat (off - bc_off p)) (take (unat len2) buf)) s)) w)))))"

declare write_loop.simps [code]

definition WriteSlice :: "env \<Rightarrow> bytes \<Rightarrow> u32 \<Rightarrow> u32 \<Rightarrow> u32 \<Rightarrow> world \<Rightarrow> (bool \<times> world) option" where
  "WriteSlice e buf idx off len w =
     (let offset = ucast idx * ucast (piece_length w) + ucast off
      in case (if m_cache_size (store_of w) = 0 then map_option (\<lambda>((ok, _), w). (ok, w)) (FileIO e True buf offset len w)
               else Some (False, w)) of
           None \<Rightarrow> None
         | Some (saved, w) \<Rightarrow>
            (if saved then Some (True, w)
             else
               (case write_loop e (unat idx) (m_cache (store_of w) (unat idx)) buf offset len w of
                  None \<Rightarrow> None
                | Some (ok, buf, off, len, w) \<Rightarrow>
                   (if \<not> ok then Some (False, w)
                    else if len = 0 then Some (True, w)
                    else map_option (\<lambda>((ok, _), w). (ok, w)) (CacheIO e (Some buf) off len True w)))))"

section \<open>Checking pieces\<close>

text \<open>The context \<^verbatim>\<open>Sha1\<close> starts from is a local variable that is not initialised; \<open>sha1_is_fips\<close> shows it does not matter.\<close>

definition sha_context :: SHA1_CTX where
  "sha_context = \<lparr>ctx_state = (0, 0, 0, 0, 0), ctx_count0 = 0, ctx_count1 = 0, ctx_buffer = replicate 64 0\<rparr>"

text \<open>
  \<^verbatim>\<open>GetHashValue\<close>: the digest, or \<open>None\<close> for -1.  \<^verbatim>\<open>Sha1\<close> is given a pointer and a length, here the bytes they
  denote.
\<close>

definition GetHashValue :: "env \<Rightarrow> u32 \<Rightarrow> world \<Rightarrow> (bytes option \<times> world) option" where
  "GetHashValue e idx w =
     (let w = (if length (global_piece_buffer (store_of w)) < unat (piece_length w)
               then upd_store (\<lambda>s. s\<lparr>global_piece_buffer := replicate (unat (piece_length w)) (ucast (e_junk e))\<rparr>) w else w);
          len = GetPieceLength (c_geo (w_content w)) idx
      in case ReadSlice e (Some (global_piece_buffer (store_of w))) idx 0 len w of
           None \<Rightarrow> None
         | Some ((ok, buf), w) \<Rightarrow>
            (let w = upd_store (\<lambda>s. s\<lparr>global_piece_buffer := buf\<rparr>) w
             in if \<not> ok then Some (None, w) else map_option (\<lambda>md. (Some md, w)) (Sha1 sha_context (take (unat len) buf) (unat len))))"

definition hash_entry :: "u32 \<Rightarrow> world \<Rightarrow> bytes" where
  "hash_entry idx w = take 20 (drop (unat idx * 20) (c_hash_table (w_content w)))"

definition CountHashFailure :: "world \<Rightarrow> world" where
  "CountHashFailure w = upd_content (\<lambda>c. c\<lparr>c_hash_failures := c_hash_failures c + 1\<rparr>) w"

definition CountUnwantedBlock :: "world \<Rightarrow> world" where
  "CountUnwantedBlock w = upd_content (\<lambda>c. c\<lparr>c_unwanted_blocks := c_unwanted_blocks c + 1\<rparr>) w"

definition CountDL :: "u32 \<Rightarrow> world \<Rightarrow> world" where
  "CountDL n w = w\<lparr>w_tracker := (w_tracker w)\<lparr>mt_totaldl := mt_totaldl (w_tracker w) + ucast n\<rparr>\<rparr>"

definition CountDupBlock :: "u32 \<Rightarrow> world \<Rightarrow> world" where
  "CountDupBlock len w = CountDL len (upd_content (\<lambda>c. c\<lparr>c_dup_blocks := c_dup_blocks c + 1\<rparr>) w)"

definition set_have :: "u32 \<Rightarrow> world \<Rightarrow> world" where
  "set_have idx w = upd_content (\<lambda>c. c\<lparr>c_BF := Set (npieces w) idx (c_BF c)\<rparr>) w"

definition left_minus :: "u32 \<Rightarrow> world \<Rightarrow> world" where
  "left_minus idx w = upd_content (\<lambda>c. c\<lparr>c_left_bytes := c_left_bytes c - ucast (GetPieceLength (c_geo c) idx)\<rparr>) w"

definition APieceComplete :: "env \<Rightarrow> u32 \<Rightarrow> world \<Rightarrow> (int \<times> world) option" where
  "APieceComplete e idx w =
     (if IsSet (npieces w) (c_BF (w_content w)) idx then Some (1, w)
      else
        (case GetHashValue e idx w of
           None \<Rightarrow> None
         | Some (None, w) \<Rightarrow> Some (-1, upd_store (Uncache (unat idx)) w)
         | Some (Some md, w) \<Rightarrow>
            (if md \<noteq> hash_entry idx w then Some (0, CountHashFailure (upd_store (Uncache (unat idx)) w))
             else
               (let w = CountDL (GetPieceLength (c_geo (w_content w)) idx) (left_minus idx (set_have idx w))
                in if cfg_cache_size (store_of w) = 0 then Some (1, w)
                   else if \<not> e_cache_mem e (st_next (store_of w)) then map_option (\<lambda>(_, w). (1, w)) (FlushPiece e (unat idx) w)
                   else Some (1, upd_store (\<lambda>s. s\<lparr>m_flushq := m_flushq s @ [idx]\<rparr>) w)))))"

text \<open>The loop of \<^verbatim>\<open>CheckNextPiece\<close> over pieces that are checked.\<close>

function skip_checked :: "u32 \<Rightarrow> bitfield \<Rightarrow> u32 \<Rightarrow> u32" where
  "skip_checked n bf idx = (if idx < n \<and> IsSet n bf idx then skip_checked n bf (idx + 1) else idx)"
  by pat_completeness auto
termination skip_checked
proof (relation "measure (\<lambda>(n, bf, idx). unat n - unat idx)", simp)
  fix n idx :: u32 and bf
  assume "idx < n \<and> IsSet n bf idx"
  then have "unat idx < unat n" by (simp add: word_less_nat_alt)
  moreover from this have "unat (idx + 1) = unat idx + 1" using u32_add[of idx 1] unat_u32_lt[of n] by simp
  ultimately have "unat idx < unat n" "unat (idx + 1) = unat idx + 1" .
  then show "((n, bf, idx + 1), n, bf, idx) \<in> measure (\<lambda>(n, bf, idx). unat n - unat idx)" by simp
qed

declare skip_checked.simps [simp del]

definition CheckNextPiece :: "env \<Rightarrow> world \<Rightarrow> (int \<times> world) option" where
  "CheckNextPiece e w =
     (let n = npieces w; c = w_content w; start = c_check_piece c
      in if n \<le> start then Some (0, w)
         else
           (let idx = skip_checked n (c_BChecked c) start; checkint = IsSet n (c_BChecked c) start;
                w = (if checkint then upd_content (\<lambda>c. c\<lparr>c_check_piece := idx\<rparr>) w else w);
                saved = m_cache_size (store_of w)
            in case (if idx < n then
                       (case GetHashValue e idx (upd_store (\<lambda>s. s\<lparr>m_cache_size := 0\<rparr>) w) of
                          None \<Rightarrow> None
                        | Some (md, w) \<Rightarrow>
                           (let w = upd_store (\<lambda>s. s\<lparr>m_cache_size := saved\<rparr>) w
                            in if md = None then Some (-1, False, w)
                               else
                                 (let w = upd_content (\<lambda>c. c\<lparr>c_BChecked := Set n idx (c_BChecked c)\<rparr>) w;
                                      good = (md = Some (hash_entry idx w));
                                      w = (if good then upd_content CheckFilter (Tell_World_I_Have e idx (set_have idx (left_minus idx w))) else w)
                                  in Some (0, checkint \<or> \<not> good, upd_content (\<lambda>c. c\<lparr>c_check_piece := idx + 1\<rparr>) w))))
                     else Some (0, checkint, w)) of
                 None \<Rightarrow> None
               | Some (r, checkint, w) \<Rightarrow>
                  (if r < 0 then Some (r, w)
                   else
                     (let w = (if checkint then CheckInterest e w else w)
                      in Some (0, if npieces w \<le> c_check_piece (w_content w) \<and> IsFull_c w then CloseAllConnectionToSeed e w else w)))))"

end
