(* ===== verification/Deliver.thy ===== *)
theory Deliver
  imports Request_Flow Cache
begin

text \<open>
  The messages of a peer (\<^verbatim>\<open>src/peer.cpp\<close>): the hand-shake, the dispatch of a message that has arrived, the delivery of
  a slice of data with all that follows from it, and the answer to a request.  A message is read from the buffer of
  the stream.

  A result \<open>None\<close> has the meaning it has in \<^verbatim>\<open>Cache\<close>.  \<open>lit\<close> is what follows the empty literal in memory, see
  \<^const>\<open>Send_Keepalive\<close>.  Data is a value here: that \<^verbatim>\<open>WriteSlice\<close> may close the connection its data is still in the
  buffer of is not represented.
\<close>

abbreviation in_buf :: "nat \<Rightarrow> world \<Rightarrow> bufio" where
  "in_buf i w \<equiv> in_buffer (pr_stream (peer w i))"

section \<open>Time\<close>

definition UpdateTime :: "env \<Rightarrow> world \<Rightarrow> world" where
  "UpdateTime e w =
     (let t = e_time e (w_tick w)
      in w\<lparr>w_now := (if t = w_now w - 1 then w_now w else t), w_tick := w_tick w + 1\<rparr>)"

definition CheckTime :: "env \<Rightarrow> world \<Rightarrow> world" where
  "CheckTime e w = (if g_disk_access (st_files (store_of w)) then UpdateTime e w else w)"

definition no_disk_access :: "world \<Rightarrow> world" where
  "no_disk_access w = upd_store (\<lambda>s. s\<lparr>st_files := (st_files s)\<lparr>g_disk_access := False\<rparr>\<rparr>) w"

definition PreciseTime :: "env \<Rightarrow> world \<Rightarrow> rat \<times> world" where
  "PreciseTime e w = (e_precise e (w_tick w), w\<lparr>w_tick := w_tick w + 1\<rparr>)"

section \<open>A complete piece\<close>

definition ReportComplete :: "env \<Rightarrow> u32 \<Rightarrow> u32 \<Rightarrow> nat \<Rightarrow> world \<Rightarrow> (int \<times> world) option" where
  "ReportComplete e idx len i w =
     (case APieceComplete e idx w of
        None \<Rightarrow> None
      | Some (r, w) \<Rightarrow>
         (let n = npieces w;
              w = (if 0 < r then
                     (let w = upd_content CheckFilter (Tell_World_I_Have e idx (snd (PeerError (-1) i w)))
                      in if IsFull_c w then CloseAllConnectionToSeed e w else w)
                   else if r = 0 \<and> \<not> IsSet n (c_BMultPeer (w_content w)) idx then
                     (let w = DataUnRec (GetPieceLength (c_geo (w_content w)) idx - len) i w;
                          (r, w) = PeerError 4 i w
                      in if r < 0 then CloseConnection e i w
                         else upd_peer i (\<lambda>p. p\<lparr>pr_bitfield := UnSet n idx (pr_bitfield p)\<rparr>) (ResetDLTimer i w))
                   else w);
              w = upd_peer i (\<lambda>p. p\<lparr>pr_prefetch_completion := 0\<rparr>) w;
              w = (if w_dup_req_pieces w \<noteq> 0 \<and> IsSet n (c_BMultPeer (w_content w)) idx then snd (CancelPiece_w e idx w) else w);
              w = w\<lparr>w_pending := snd (Delete (w_pending w) idx)\<rparr>
          in Some (r, upd_content (\<lambda>c. c\<lparr>c_BMultPeer := UnSet n idx (c_BMultPeer c)\<rparr>) w)))"

section \<open>A slice of data\<close>

text \<open>Has the peer been asked for the slice, or was the request cancelled so recently that the data is welcome?\<close>

definition grace :: "nat \<Rightarrow> world \<Rightarrow> int" where
  "grace i w = (if pr_latency (peer w i) \<noteq> 0 then pr_latency (peer w i) * 2 else 60)"

definition late_cancel :: "nat \<Rightarrow> world \<Rightarrow> bool" where
  "late_cancel i w \<longleftrightarrow> grace i w < pr_last_timestamp (peer w i) - pr_cancel_time (peer w i)"

definition slice_requested :: "u32 \<Rightarrow> u32 \<Rightarrow> u32 \<Rightarrow> nat \<Rightarrow> world \<Rightarrow> bool" where
  "slice_requested idx off len i w \<longleftrightarrow> IsSent (pr_request_q (peer w i)) idx off len"

definition slice_accepted :: "u32 \<Rightarrow> u32 \<Rightarrow> u32 \<Rightarrow> nat \<Rightarrow> world \<Rightarrow> bool" where
  "slice_accepted idx off len i w \<longleftrightarrow> \<not> slice_requested idx off len i w \<and>
     IsSet (npieces w) (c_BMultPeer (w_content w)) idx \<and> \<not> late_cancel i w \<and>
     (HasSlice_w idx off len w \<or> HasSlice (w_pending w) idx off len)"

text \<open>
  The branch that saves a slice: an early return of -1, or \<^verbatim>\<open>f_success\<close> and \<^verbatim>\<open>dup\<close>.
\<close>

definition save_slice :: "env \<Rightarrow> bool \<Rightarrow> bool \<Rightarrow> bytes \<Rightarrow> u32 \<Rightarrow> u32 \<Rightarrow> u32 \<Rightarrow> nat \<Rightarrow> world \<Rightarrow> ((bool \<times> bool) option \<times> world) option" where
  "save_slice e requested dup dat idx off len i w =
     (case (if IsSet (npieces w) (c_BF (w_content w)) idx then Some (True, w) else WriteSlice e dat idx off len w) of
        None \<Rightarrow> None
      | Some (ok, w) \<Rightarrow>
         (if \<not> ok then
            (if requested \<and> \<not> flush_failed w then
               (let w = upd_peer i (\<lambda>p. p\<lparr>pr_request_q := snd (Remove (pr_request_q p) idx off len), pr_req_out := pr_req_out p - 1\<rparr>) w;
                    (r, w) = RequestSlice e idx off len i w
                in if r < 0 then Some (None, CheckTime e (DataRecd len i w)) else Some (Some (False, dup), CheckTime e w))
             else Some (Some (False, dup), CheckTime e w))
          else
            (let w = upd_peer i (\<lambda>p. p\<lparr>pr_request_q := snd (Remove (pr_request_q p) idx off len),
                                     pr_req_out := (if requested then pr_req_out p - 1 else pr_req_out p)\<rparr>) w;
                 (dup, w) = (if dup \<or> w_dup_req_pieces w \<noteq> 0 \<and> IsSet (npieces w) (c_BMultPeer (w_content w)) idx
                             then (let (r, w) = CancelSlice_w e idx off len w in (r \<noteq> 0, w)) else (dup, w));
                 (dup, w) = (if w_dup_req_pieces w \<noteq> 0 \<or> flush_failed w
                             then (let (r, q) = Remove (w_pending w) idx off len in (dup \<or> r, w\<lparr>w_pending := q\<rparr>)) else (dup, w))
             in Some (Some (True, dup), CheckTime e w))))"

text \<open>How many requests should be out: the latency over the time one slice takes.\<close>

definition tune_requests :: "env \<Rightarrow> int \<Rightarrow> u32 \<Rightarrow> nat \<Rightarrow> world \<Rightarrow> world" where
  "tune_requests e t len i w =
     (let last = pr_last_timestamp (peer w i);
          w = (if t \<noteq> 0 then upd_peer i (\<lambda>p. p\<lparr>pr_latency := (if last \<le> t then 1 else last - t), pr_latency_timestamp := last\<rparr>) w else w);
          (rate, w) = RateDL e i w; p = peer w i
      in if len div 20 < rate \<and> pr_latency_timestamp p \<noteq> 0 then
           (let send = u32_of_rat (of_int (pr_latency p) / (rat_of_word len / rat_of_word rate) + 1);
                send = (if send < 2 then 2 else send);
                force = (\<not> rate < pr_prev_dlrate p \<and> 30 \<le> last - pr_latency_timestamp p \<and> pr_req_out p = send - 1);
                send = (if rate < pr_prev_dlrate p then send + 1 else if force then send - 1 else send)
            in upd_peer i (\<lambda>p. p\<lparr>pr_req_send := send, pr_prev_dlrate := rate,
                                pr_latency_timestamp := (if force then last else pr_latency_timestamp p)\<rparr>) w)
         else if pr_req_send p < 5 then upd_peer i (\<lambda>p. p\<lparr>pr_req_send := 5\<rparr>) w else w)"

text \<open>Is the piece complete?\<close>

definition piece_ended :: "bool \<Rightarrow> bool \<Rightarrow> u32 \<Rightarrow> nat \<Rightarrow> world \<Rightarrow> bool" where
  "piece_ended requested accepted idx i w \<longleftrightarrow> \<not> IsSet (npieces w) (c_BF (w_content w)) idx \<and>
     (requested \<and> (IsEmpty_q (pr_request_q (peer w i)) \<or> \<not> HasPiece (pr_request_q (peer w i)) idx) \<or>
      accepted \<and> WhoHas idx w = None \<and> \<not> HasPiece (w_pending w) idx) \<and>
     \<not> (flush_failed w \<and> HasPiece (w_pending w) idx)"

text \<open>What follows when the slice was dealt with: \<open>success\<close>, \<open>counted\<close>, \<open>dup\<close> are the flags of the code.\<close>

definition after_slice :: "env \<Rightarrow> bool \<Rightarrow> bool \<Rightarrow> int \<Rightarrow> bool \<Rightarrow> bool \<Rightarrow> bool \<Rightarrow> u32 \<Rightarrow> u32 \<Rightarrow> nat \<Rightarrow> world \<Rightarrow> (int \<times> world) option" where
  "after_slice e requested accepted t success counted dup idx len i w =
     (let w = (if requested then tune_requests e t len i w else w)
      in case (if success \<and> piece_ended requested accepted idx i w then ReportComplete e idx len i w else Some (-2, w)) of
           None \<Rightarrow> None
         | Some (fin, w) \<Rightarrow>
            (let w = (if counted \<and> fin \<noteq> 0 then DataRecd len i w else w);
                 w = (if (fin = 0 \<or> fin = -2) \<and> dup then CancelOneRequest e idx w else w);
                 w = (if IsEmpty_q (pr_request_q (peer w i)) then
                        (let w = StopDLTimer e i w in if requested then upd_peer i (\<lambda>p. p\<lparr>pr_standby := False\<rparr>) w else w)
                      else w);
                 w = CheckTime e w
             in if is_failed w i then Some (-1, w)
                else if pr_standby (peer w i) \<or> \<not> requested then Some (0, w)
                else RequestCheck e i w))"

definition want_again :: "nat \<Rightarrow> world \<Rightarrow> world" where
  "want_again i w = upd_peer i (\<lambda>p. p\<lparr>pr_want_again := True\<rparr>) w"

definition PieceDeliver :: "env \<Rightarrow> u32 \<Rightarrow> nat \<Rightarrow> world \<Rightarrow> (int \<times> world) option" where
  "PieceDeliver e mlen i w =
     (let msgbuf = m_buf (in_buf i w); idx = fr_index msgbuf; off = fr_offset msgbuf; len = mlen - BT_MSGLEN_PIECE;
          requested = slice_requested idx off len i w; accepted = slice_accepted idx off len i w;
          t = GetReqTime (pr_request_q (peer w i)) idx off len;
          w = no_disk_access (w\<lparr>w_self_dl := StartTimer (w_now w) (w_self_dl w)\<rparr>)
      in if requested \<or> accepted then
           (case save_slice e requested accepted (take (unat len) (drop 13 msgbuf)) idx off len i w of
              None \<Rightarrow> None
            | Some (None, w) \<Rightarrow> Some (-1, w)
            | Some (Some (success, dup), w) \<Rightarrow>
                after_slice e requested accepted t success True dup idx len i (want_again i w))
         else if late_cancel i w then
           (let (r, w) = PeerError 1 i (CountUnwantedBlock w)
            in if r < 0 then Some (-1, w)
               else after_slice e requested accepted t False False False idx len i (ResetDLTimer i w))
         else after_slice e requested accepted t False True False idx len i (want_again i (CountDupBlock len w)))"

section \<open>Messages\<close>

text \<open>The handlers of \<^verbatim>\<open>MsgDeliver\<close>, one for each kind of message; \<open>m\<close> is the buffer, at the length prefix.\<close>

definition on_choke :: "env \<Rightarrow> nat \<Rightarrow> world \<Rightarrow> int \<times> world" where
  "on_choke e i w =
     (let p = peer w i;
          (r, w) = (if pr_lastmsg p = 1 \<and> pr_last_timestamp p \<le> pr_choketime p + 1 then PeerError 2 i w else (0, w))
      in if r < 0 then (-1, w)
         else
           (let w = upd_peer i (\<lambda>p. p\<lparr>pr_choketime := pr_last_timestamp p, remote_choked := True\<rparr>) w;
                w = DontWaitDL i (StopDLTimer e i w); q = pr_request_q (peer w i);
                w = (if \<not> IsEmpty_q q then
                       PutPending e i (upd_content (\<lambda>c. c\<lparr>c_BMultPeer := Set (npieces w) (GetRequestIdx (c_geo c) q) (c_BMultPeer c)\<rparr>) w)
                     else w)
            in (0, upd_peer i (\<lambda>p. p\<lparr>pr_cancel_time := w_now w\<rparr>) w)))"

definition on_unchoke :: "env \<Rightarrow> nat \<Rightarrow> world \<Rightarrow> (int \<times> world) option" where
  "on_unchoke e i w =
     (let p = peer w i;
          (r, w) = (if pr_lastmsg p = 0 \<and> pr_last_timestamp p \<le> pr_choketime p + 1 then PeerError 2 i w
                    else (0, upd_peer i (\<lambda>p. p\<lparr>pr_last_req_piece := npieces w\<rparr>) w))
      in if r < 0 then Some (-1, w)
         else
           (let w = upd_peer i (\<lambda>p. p\<lparr>pr_choketime := pr_last_timestamp p, remote_choked := False, pr_standby := False\<rparr>) w
            in case PeekNextMessage BT_MSG_CHOKE (pr_stream (peer w i)) of
                 None \<Rightarrow> None
               | Some choke_next \<Rightarrow>
                  (if choke_next then Some (0, w)
                   else RequestCheck e i (upd_peer i (\<lambda>p. p\<lparr>pr_prefetch_completion := 0\<rparr>) w))))"

definition on_interested :: "env \<Rightarrow> nat \<Rightarrow> world \<Rightarrow> int \<times> world" where
  "on_interested e i w =
     (let w = upd_peer i (\<lambda>p. p\<lparr>remote_interested := True\<rparr>) w
      in (0, if Need_Local_Data i w then UnchokeIfFree e i w else w))"

definition on_not_interested :: "nat \<Rightarrow> world \<Rightarrow> int \<times> world" where
  "on_not_interested i w =
     (let w = upd_peer i (\<lambda>p. p\<lparr>remote_interested := False, pr_respond_q := Empty_q (pr_respond_q p)\<rparr>) w
      in (if IsFull_c w \<and> 300 \<le> c_seed_timestamp (w_content w) - w_now w then -2 else 0, w))"

text \<open>The output buffer of a peer is given another size; a failure is not looked at.\<close>

definition resize_out :: "env \<Rightarrow> nat \<Rightarrow> nat \<Rightarrow> world \<Rightarrow> int \<times> world" where
  "resize_out e len i w =
     on_stream i (\<lambda>s. let (r, b) = SetSize (e_buf_mem e) len (out_buffer s) in (r, s\<lparr>out_buffer := b\<rparr>)) w"

definition on_have :: "env \<Rightarrow> bytes \<Rightarrow> nat \<Rightarrow> world \<Rightarrow> (int \<times> world) option" where
  "on_have e m i w =
     (let idx = fr_index m; n = npieces w
      in if n \<le> idx \<or> IsSet n (pr_bitfield (peer w i)) idx then Some (-1, w)
         else
           (let w = upd_peer i (\<lambda>p. p\<lparr>pr_bitfield := Set n idx (pr_bitfield p)\<rparr>) w
            in if IsFull n (pr_bitfield (peer w i)) \<and> IsFull_c w then Some (-2, w)
               else
                 (let w = (if IsFull n (pr_bitfield (peer w i)) then snd (resize_out e BUFIO_DEF_SIZ i w) else w); c = w_content w;
                      w = (if \<not> IsSet n (c_BF c) idx \<and> \<not> IsSet n (c_BMasterFilter c) idx then
                             upd_peer i (\<lambda>p. p\<lparr>pr_cached_idx :=
                                 (if n \<le> pr_cached_idx p \<or> pr_standby p \<or>
                                     (case GetFilter c of None \<Rightarrow> True | Some f \<Rightarrow> \<not> IsSet n f idx) then idx else pr_cached_idx p),
                               pr_standby := False\<rparr>) w
                           else w)
                  in if pr_standby (peer w i) then Some (0, w) else RequestCheck e i w)))"

text \<open>
  \<^verbatim>\<open>respond_q.Add\<close> fails only for want of memory.  The expression for the size of the buffer is
  \<^verbatim>\<open>BUFIO_DEF_SIZ + (len < DEFAULT_SLICE_SIZE) ? DEFAULT_SLICE_SIZE : len\<close>, whose condition is the sum.
\<close>

definition add_respond :: "env \<Rightarrow> u32 \<Rightarrow> u32 \<Rightarrow> u32 \<Rightarrow> nat \<Rightarrow> world \<Rightarrow> int \<times> world" where
  "add_respond e idx off len i w =
     (let (ok, a, q) = Add (e_mem e) (w_slices w) (pr_respond_q (peer w i)) idx off len
      in (if ok then 0 else -1, (upd_peer i (\<lambda>p. p\<lparr>pr_respond_q := q\<rparr>) w)\<lparr>w_slices := a\<rparr>))"

definition on_request :: "env \<Rightarrow> bytes \<Rightarrow> nat \<Rightarrow> world \<Rightarrow> int \<times> world" where
  "on_request e m i w =
     (let idx = fr_index m; off = fr_offset m; len = fr_length m; c = w_content w; p = peer w i; now = w_now w
      in if \<not> remote_interested p \<or> \<not> IsSet (npieces w) (c_BF c) idx \<or> \<not> IsValidRequest (c_geo c) idx off len then (-1, w)
         else if local_choked p then
           (if grace i w < pr_last_timestamp p - pr_unchoke_timestamp p then
              (let (r, w) = PeerError 1 i w
               in if r < 0 then (-1, w)
                  else (let (r, w) = on_stream i (Send_State (e_buf_mem e) BT_MSG_CHOKE) w
                        in if r < 0 then (-1, w)
                           else (0, upd_peer i (\<lambda>p. p\<lparr>pr_unchoke_timestamp := pr_last_timestamp p\<rparr>) w)))
            else (0, w))
         else if pr_requested p then add_respond e idx off len i w
         else
           (let (r, w) = resize_out e (if BUFIO_DEF_SIZ + (if len < DEFAULT_SLICE_SIZE then 1 else 0) \<noteq> 0 then unat DEFAULT_SLICE_SIZE
                                       else unat len) i (upd_peer i (\<lambda>p. p\<lparr>pr_requested := True\<rparr>) w)
            in if r < 0 then (-1, w)
               else add_respond e idx off len i
                      (if (pr_receive_time p = 0 \<or> Seeding e w) \<and> pr_unchoke_timestamp p < now
                       then upd_peer i (\<lambda>p. p\<lparr>pr_latency := now - pr_unchoke_timestamp p\<rparr>) w else w)))"

definition on_bitfield :: "env \<Rightarrow> bytes \<Rightarrow> nat \<Rightarrow> world \<Rightarrow> (int \<times> world) option" where
  "on_bitfield e m i w =
     (let n = npieces w
      in if m_msglen (pr_stream (peer w i)) - 1 \<noteq> bf_nbytes n \<or> \<not> IsEmpty (pr_bitfield (peer w i)) then Some (-1, w)
         else
           (let w = upd_peer i (\<lambda>p. p\<lparr>pr_bitfield := SetReferBuffer n (take (unat (bf_nbytes n)) (drop 5 m)) (pr_bitfield p)\<rparr>) w
            in if IsFull n (pr_bitfield (peer w i)) then
                 (if IsFull_c w then Some (-2, w)
                  else RequestCheck e i (want_again i (snd (resize_out e BUFIO_DEF_SIZ i w))))
               else RequestCheck e i w))"

definition on_cancel :: "bytes \<Rightarrow> nat \<Rightarrow> world \<Rightarrow> int \<times> world" where
  "on_cancel m i w =
     (let idx = fr_index m; off = fr_offset m; len = fr_length m; p = peer w i;
          (found, q) = Remove (pr_respond_q p) idx off len;
          w = upd_peer i (\<lambda>p. p\<lparr>pr_respond_q := q\<rparr>) w
      in if \<not> found then
           (if local_choked p \<and> grace i w < pr_last_timestamp p - pr_unchoke_timestamp p then PeerError 1 i w else (0, w))
         else (0, if IsEmpty_q q then DontWaitUL i w else w))"

text \<open>The length a message must have, for the kinds with a fixed length.\<close>

definition fixed_length :: "u8 \<Rightarrow> u32 option" where
  "fixed_length msg =
     (if msg \<in> {BT_MSG_CHOKE, BT_MSG_UNCHOKE, BT_MSG_INTERESTED, BT_MSG_NOT_INTERESTED} then Some 1
      else if msg = BT_MSG_HAVE then Some BT_MSGLEN_HAVE
      else if msg = BT_MSG_REQUEST then Some BT_MSGLEN_REQUEST
      else if msg = BT_MSG_CANCEL then Some BT_MSGLEN_CANCEL else None)"

definition dispatch :: "env \<Rightarrow> u8 \<Rightarrow> bytes \<Rightarrow> u32 \<Rightarrow> nat \<Rightarrow> world \<Rightarrow> (int \<times> world) option" where
  "dispatch e msg m msglen i w =
     (if (case fixed_length msg of None \<Rightarrow> False | Some l \<Rightarrow> msglen \<noteq> l) then Some (-1, w)
      else if msg = BT_MSG_CHOKE then Some (on_choke e i w)
      else if msg = BT_MSG_UNCHOKE then on_unchoke e i w
      else if msg = BT_MSG_INTERESTED then Some (on_interested e i w)
      else if msg = BT_MSG_NOT_INTERESTED then Some (on_not_interested i w)
      else if msg = BT_MSG_HAVE then on_have e m i w
      else if msg = BT_MSG_REQUEST then Some (on_request e m i w)
      else if msg = BT_MSG_PIECE then
        (if msglen \<le> BT_MSGLEN_PIECE then Some (-1, w)
         else PieceDeliver e msglen i (upd_peer i (\<lambda>p. p\<lparr>pr_receive_time := pr_last_timestamp p\<rparr>) w))
      else if msg = BT_MSG_BITFIELD then on_bitfield e m i w
      else if msg = BT_MSG_CANCEL then Some (on_cancel m i w)
      else Some (0, w))"

text \<open>\<^verbatim>\<open>m_lastmsg\<close> becomes the number of the message, as a signed \<^verbatim>\<open>char\<close>; the handlers may return early.\<close>

definition MsgDeliver :: "env \<Rightarrow> bytes \<Rightarrow> nat \<Rightarrow> world \<Rightarrow> (int \<times> world) option" where
  "MsgDeliver e lit i w =
     (let m = m_buf (in_buf i w); msglen = m_msglen (pr_stream (peer w i));
          w = upd_peer i (\<lambda>p. p\<lparr>pr_last_timestamp := w_now w\<rparr>) w
      in if msglen = 0 then
           (let (r, w) = (if \<not> pr_f_keepalive (peer w i) then on_stream i (Send_Keepalive (e_buf_mem e) lit) w else (0, w))
            in if r < 0 then Some (-1, w) else Some (0, upd_peer i (\<lambda>p. p\<lparr>pr_f_keepalive := False\<rparr>) w))
         else
           (let msg = m ! BT_LEN_PRE
            in case dispatch e msg m msglen i w of
                 None \<Rightarrow> None
               | Some (r, w) \<Rightarrow> Some (r, if 0 \<le> r then upd_peer i (\<lambda>p. p\<lparr>pr_lastmsg := sint msg\<rparr>) w else w)))"

end
