(* ===== verification/Serve.thy ===== *)
theory Serve
  imports Deliver
begin

text \<open>
  What a peer does when its socket is ready (\<^verbatim>\<open>src/peer.cpp\<close>): \<^verbatim>\<open>HandShake\<close>, \<^verbatim>\<open>RecvModule\<close> and \<^verbatim>\<open>SendModule\<close>, with
  \<^verbatim>\<open>RespondSlice\<close>, which answers a request, and \<^verbatim>\<open>Prefetch\<close>, which reads ahead while the client is idle.

  A result \<open>None\<close> has the meaning it has in \<^verbatim>\<open>Cache\<close>.  Floating-point numbers are rationals.
\<close>

section \<open>Bandwidth\<close>

definition BandwidthLimitUp :: "env \<Rightarrow> rat \<Rightarrow> world \<Rightarrow> bool \<times> world" where
  "BandwidthLimitUp e gr w =
     (let (precise, w) = PreciseTime e w; s = w_self_ul w
      in (BandwidthLimited precise (w_now w) (r_last_realtime s) (r_last_size s) (cfg_max_bandwidth_up e) gr, w))"

definition BandwidthLimitDown :: "env \<Rightarrow> rat \<Rightarrow> world \<Rightarrow> bool \<times> world" where
  "BandwidthLimitDown e gr w =
     (let (precise, w) = PreciseTime e w; s = w_self_dl w
      in (BandwidthLimited precise (w_now w) (r_last_realtime s) (r_last_size s) (cfg_max_bandwidth_down e) gr, w))"

definition set_ontime_ul :: "bool \<Rightarrow> world \<Rightarrow> world" where
  "set_ontime_ul b w = w\<lparr>w_self_ul := (w_self_ul w)\<lparr>r_ontime := b\<rparr>\<rparr>"

definition set_ontime_dl :: "bool \<Rightarrow> world \<Rightarrow> world" where
  "set_ontime_dl b w = w\<lparr>w_self_dl := (w_self_dl w)\<lparr>r_ontime := b\<rparr>\<rparr>"

definition SelfRateUL :: "env \<Rightarrow> world \<Rightarrow> u32 \<times> world" where
  "SelfRateUL e w = (let (v, r) = RateMeasure (e_sample_mem e) (w_now w) (w_self_ul w) in (v, w\<lparr>w_self_ul := r\<rparr>))"

definition SelfRateDL :: "env \<Rightarrow> world \<Rightarrow> u32 \<times> world" where
  "SelfRateDL e w = (let (v, r) = RateMeasure (e_sample_mem e) (w_now w) (w_self_dl w) in (v, w\<lparr>w_self_dl := r\<rparr>))"

definition CurrentUL :: "env \<Rightarrow> nat \<Rightarrow> world \<Rightarrow> u32 \<times> world" where
  "CurrentUL e i w = (let (precise, w) = PreciseTime e w in (CurrentRate precise (pr_ul (peer w i)), w))"

definition DataSent :: "env \<Rightarrow> u32 \<Rightarrow> rat \<Rightarrow> nat \<Rightarrow> world \<Rightarrow> world" where
  "DataSent e nby timestamp i w =
     (let (r, s) = CountAdd nby (pr_ul (peer w i)) (Some (w_self_ul w));
          (r, s) = RateAdd (e_sample_mem e) (e_sample_mem e 0) (w_now w) nby (cfg_max_bandwidth_up e) timestamp r s
      in (upd_peer i (\<lambda>p. p\<lparr>pr_ul := r\<rparr>) w)\<lparr>w_self_ul := the s\<rparr>)"

section \<open>Answering a request\<close>

text \<open>
  When another slice can be sent to the peer.  A quotient of two \<^verbatim>\<open>unsigned\<close> values is rounded down; \<open>unchoked\<close>
  is not 0 when the peer is unchoked.
\<close>

definition guess_delay :: "env \<Rightarrow> u32 \<Rightarrow> u32 \<Rightarrow> u32 \<Rightarrow> int" where
  "guess_delay e len rate unchoked =
     (let up = cfg_max_bandwidth_up e
      in if up < unchoked \<or> up \<le> rate then
           (if rate < unchoked \<or> rate < unchoked * len div 3600 then 0
            else trunc (rat_of_word len / (rat_of_word rate / rat_of_word unchoked)))
         else trunc (rat_of_word len /
                (if up div unchoked < up - rate then rat_of_word (up - rate) else rat_of_word up / rat_of_word unchoked)))"

definition set_next_send :: "env \<Rightarrow> u32 \<Rightarrow> nat \<Rightarrow> world \<Rightarrow> world" where
  "set_next_send e len i w =
     (let up = cfg_max_bandwidth_up e; (current, w) = CurrentUL e i w
      in if current = 0 then
           (let (rate, w) = SelfRateUL e w
            in upd_peer i (\<lambda>p. p\<lparr>pr_next_send_time := w_now w + guess_delay e len rate (GetUnchoked w)\<rparr>) w)
         else upd_peer i (\<lambda>p. p\<lparr>pr_next_send_time :=
                w_now w + uint (len div (if current < up \<or> up = 0 then current else up))\<rparr>) w)"

definition ensure_buffer :: "env \<Rightarrow> u32 \<Rightarrow> world \<Rightarrow> world" where
  "ensure_buffer e len w =
     (if length (global_piece_buffer (store_of w)) < unat len
      then upd_store (\<lambda>s. s\<lparr>global_piece_buffer := replicate (unat len) (ucast (e_junk e))\<rparr>) w else w)"

text \<open>What follows \<^verbatim>\<open>ReadSlice\<close>.\<close>

definition respond_late :: "env \<Rightarrow> world \<Rightarrow> world" where
  "respond_late e w =
     (let w = CheckTime e w in if g_disk_access (st_files (store_of w)) then set_ontime_ul False w else w)"

definition respond_send :: "env \<Rightarrow> u32 \<Rightarrow> u32 \<Rightarrow> u32 \<Rightarrow> nat \<Rightarrow> world \<Rightarrow> int \<times> world" where
  "respond_send e idx off len i w =
     (let w = upd_peer i (\<lambda>p. p\<lparr>pr_prefetch_time := 0\<rparr>) (set_next_send e len i w);
          (rightnow, w) = PreciseTime e w;
          (r, w) = on_stream i (Send_Piece (e_buf_mem e) idx off (take (unat len) (global_piece_buffer (store_of w)))) w
      in if r < 0 then (-1, w)
         else
           (let w = DataSent e len rightnow i (w\<lparr>w_upload_count := w_upload_count w + 1\<rparr>)
            in (0, if \<not> pr_want_again (peer w i) \<and> Seeding e w then want_again i w else w)))"

definition RespondSlice :: "env \<Rightarrow> nat \<Rightarrow> world \<Rightarrow> (int \<times> world) option" where
  "RespondSlice e i w =
     (case Pop (pr_respond_q (peer w i)) of
        (None, _) \<Rightarrow> Some (-1, w)
      | (Some s, q) \<Rightarrow>
         (let idx = sl_index s; off = sl_offset s; len = sl_length s;
              w = no_disk_access (ensure_buffer e len (upd_peer i (\<lambda>p. p\<lparr>pr_respond_q := q\<rparr>) w))
          in case ReadSlice e (Some (global_piece_buffer (store_of w))) idx off len w of
               None \<Rightarrow> None
             | Some ((ok, buf), w) \<Rightarrow>
                (let w = respond_late e (upd_store (\<lambda>s. s\<lparr>global_piece_buffer := buf\<rparr>) w)
                 in Some (if \<not> ok then (-1, w) else respond_send e idx off len i w))))"

section \<open>Receiving\<close>

text \<open>\<^verbatim>\<open>stream.Feed(limit, &rate_dl)\<close>.\<close>

definition feed_rate :: "env \<Rightarrow> nat \<Rightarrow> nat \<Rightarrow> world \<Rightarrow> int \<times> world" where
  "feed_rate e limit i w =
     (let (rightnow, w) = PreciseTime e w; (r, change, s) = Feed (e_buf_mem e) limit (pr_stream (peer w i));
          w = upd_peer i (\<lambda>p. p\<lparr>pr_stream := s\<rparr>) w
      in case change of
           None \<Rightarrow> (r, w)
         | Some n \<Rightarrow>
            (let (ra, sf) = RateAdd (e_sample_mem e) (e_sample_mem e 0) (w_now w) n (cfg_max_bandwidth_down e) rightnow
                              (pr_dl (peer w i)) (Some (w_self_dl w))
             in (r, (upd_peer i (\<lambda>p. p\<lparr>pr_dl := ra\<rparr>) w)\<lparr>w_self_dl := the sf\<rparr>)))"

definition recv_feed :: "env \<Rightarrow> nat \<Rightarrow> world \<Rightarrow> int \<times> world" where
  "recv_feed e i w =
     (if PeekMessage_is BT_MSG_PIECE (pr_stream (peer w i)) then
        (if IsNextDL i w then
           (let (limited, w) = BandwidthLimitDown e (r_late (w_self_dl w)) w
            in if limited then (0, WaitDL i w)
               else (let (r, w) = feed_rate e 0 i (DontWaitDL i w) in (r, set_ontime_dl False w)))
         else (0, WaitDL i w))
      else if HaveMessage (pr_stream (peer w i)) = 0 then feed_rate e BUFIO_DEF_SIZ i w
      else (0, w))"

partial_function (option) recv_loop :: "env \<Rightarrow> bytes \<Rightarrow> nat \<Rightarrow> world \<Rightarrow> (int \<times> world) option" where
  "recv_loop e lit i w =
     (let h = HaveMessage (pr_stream (peer w i))
      in if 0 < h then
           (case MsgDeliver e lit i w of
              None \<Rightarrow> None
            | Some (r, w) \<Rightarrow>
               (let w = (if r = -2 then upd_peer i (\<lambda>p. p\<lparr>pr_want_again := False\<rparr>) w else w)
                in if r < 0 then Some (-1, w)
                   else
                     (let (r, w) = on_stream i PickMessage w
                      in if r < 0 then Some (-1, w) else recv_loop e lit i w)))
         else Some (if h < 0 then -1 else 0, w))"

declare recv_loop.simps [code]

definition RecvModule :: "env \<Rightarrow> bytes \<Rightarrow> nat \<Rightarrow> world \<Rightarrow> (int \<times> world) option" where
  "RecvModule e lit i w = (let (r, w) = recv_feed e i w in if r < 0 then Some (-1, w) else recv_loop e lit i w)"

section \<open>Sending\<close>

definition has_haves :: "nat \<Rightarrow> world \<Rightarrow> bool" where
  "has_haves i w \<longleftrightarrow> pr_haveq (peer w i) ! 0 < npieces w"

abbreviation out_count :: "nat \<Rightarrow> world \<Rightarrow> nat" where
  "out_count i w \<equiv> m_len (out_buffer (pr_stream (peer w i)))"

text \<open>
  The part of \<^verbatim>\<open>SendModule\<close> that answers a request when its turn has come; the flag is \<^verbatim>\<open>f_flushed\<close>, \<open>Inl\<close> the
  early return of -1.
\<close>

definition send_turn :: "env \<Rightarrow> bool \<Rightarrow> nat \<Rightarrow> world \<Rightarrow> ((unit + bool) \<times> world) option" where
  "send_turn e flushed i w =
     (let (limited, w) = BandwidthLimitUp e (r_late (w_self_ul w)) w;
          over = (\<lambda>(r, w). (r, upd_peer i (\<lambda>p. p\<lparr>pr_deferred_ul := False\<rparr>) w))
      in if IsNextUL i w then
           (if limited then Some (over (Inr flushed, WaitUL i w))
            else
              (let w = StartULTimer i (DontWaitUL i w);
                   w = w\<lparr>w_self_ul := StartTimer (w_now w) (w_self_ul w)\<rparr>;
                   (r, w) = (if has_haves i w then SendHaves e i w else (0, w))
               in if r < 0 then Some (Inl (), w)
                  else
                    (case RespondSlice e i w of
                       None \<Rightarrow> None
                     | Some (r, w) \<Rightarrow>
                        (if r < 0 then Some (Inl (), w) else Some (over (Inr True, set_ontime_ul False w))))))
         else
           (let w = (if limited then w
                     else (upd_peer (hd (w_next_ul w)) (\<lambda>p. p\<lparr>pr_deferred_ul := True\<rparr>) w)\<lparr>w_defer_count := w_defer_count w + 1\<rparr>)
            in Some (over (Inr flushed, WaitUL i w))))"

definition SendModule :: "env \<Rightarrow> nat \<Rightarrow> world \<Rightarrow> (int \<times> world) option" where
  "SendModule e i w =
     (case (if remote_choked (peer w i) then Some (0, w) else RequestCheck e i w) of
        None \<Rightarrow> None
      | Some (r, w) \<Rightarrow>
         (if r < 0 then Some (-1, w)
          else
            (let (r, w) = (if out_count i w \<noteq> 0 \<and> has_haves i w then SendHaves e i w else (0, w))
             in if r < 0 then Some (-1, w)
                else
                  (let full = out_count i w \<noteq> 0 \<and> \<not> IsEmpty_q (pr_respond_q (peer w i)) \<and> \<not> CouldRespondSlice i w;
                       (r, w) = (if full then on_stream i st_Flush w else (0, w))
                   in if r < 0 then Some (-1, w)
                      else
                        (case (if \<not> IsEmpty_q (pr_respond_q (peer w i)) \<and> CouldRespondSlice i w then send_turn e full i w
                               else Some (Inr full, if (case w_next_ul w of [] \<Rightarrow> False | j # _ \<Rightarrow> j = i) then DontWaitUL i w else w)) of
                           None \<Rightarrow> None
                         | Some (Inl _, w) \<Rightarrow> Some (-1, w)
                         | Some (Inr flushed, w) \<Rightarrow>
                            (if flushed then Some (0, w)
                             else (let (r, w) = on_stream i st_Flush w in Some (if r < 0 then -1 else 0, w))))))))"

section \<open>The hand-shake\<close>

definition Send_ShakeInfo :: "env \<Rightarrow> nat \<Rightarrow> world \<Rightarrow> int \<times> world" where
  "Send_ShakeInfo e i w =
     (let (r, w) = on_stream i (Send_Buffer (e_buf_mem e) (take 68 (c_shake_buffer (w_content w)))) w
      in (if r < 0 then -1 else 0, w))"

text \<open>A peer that sends back the client's own hand-shake is the client itself.\<close>

definition shake_self :: "env \<Rightarrow> nat \<Rightarrow> world \<Rightarrow> world" where
  "shake_self e i w =
     (let w = (if pr_connect (peer w i) \<and> cfg_public_ip (e_net e) = None
               then w\<lparr>w_self_sin := SetIp (pr_sin (peer w i)) (w_self_sin w)\<rparr> else w)
      in w\<lparr>w_tracker := mt_Adjust (w_tracker w)\<rparr>)"

text \<open>Sends the bit field; only the failure of the first allocation is looked at.\<close>

definition shake_bitfield :: "env \<Rightarrow> nat \<Rightarrow> world \<Rightarrow> int \<times> world" where
  "shake_bitfield e i w =
     (let n = npieces w; bf = c_BF (w_content w)
      in if IsEmpty bf then (0, snd (on_stream i (Send_Bitfield (e_buf_mem e) []) w))
         else
           (let mem = n_new (e_net e) (w_tick w); w = w\<lparr>w_tick := w_tick w + 1\<rparr>
            in if \<not> mem then (-1, w)
               else on_stream i (Send_Bitfield (e_buf_mem e) (WriteToBuffer n bf (replicate (unat (bf_nbytes n)) (ucast (e_junk e))))) w))"

definition shake_done :: "env \<Rightarrow> bytes \<Rightarrow> nat \<Rightarrow> world \<Rightarrow> (int \<times> world) option" where
  "shake_done e lit i w =
     (let w = upd_peer i (\<lambda>p. p\<lparr>pr_status := DT_PEER_SUCCESS, pr_retried := False\<rparr>) w;
          w = (if Seeding e w then
                 upd_peer i (\<lambda>p. p\<lparr>pr_unchoke_timestamp := (if pr_unchoke_timestamp p = 0 then w_now w else pr_unchoke_timestamp p),
                                  pr_connect_seed := True\<rparr>) w else w);
          h = HaveMessage (pr_stream (peer w i))
      in if 0 < h then RecvModule e lit i w else Some (if h < 0 then -1 else 0, w))"

definition HandShake :: "env \<Rightarrow> bytes \<Rightarrow> nat \<Rightarrow> world \<Rightarrow> (int \<times> world) option" where
  "HandShake e lit i w =
     (let (r, w) = on_stream i (\<lambda>s. let (r, sk, b) = FeedIn (e_buf_mem e) (sk_in s) (LeftSize (in_buffer s)) (in_buffer s)
                                    in (r, s\<lparr>sk_in := sk, in_buffer := b\<rparr>)) w
      in if r < 0 then Some (-1, w)
         else
           (let shake = c_shake_buffer (w_content w); m = m_buf (in_buf i w); n = m_len (in_buf i w)
            in if n < 68 then
                 (let k = (if n < 48 then n else 48) in Some (if n \<noteq> 0 \<and> take k m \<noteq> take k shake then -1 else 0, w))
               else if take 68 m = take 68 shake then Some (-1, shake_self e i w)
               else if take 20 m \<noteq> take 20 shake \<or> take 20 (drop 28 m) \<noteq> take 20 (drop 28 shake) then Some (-1, w)
               else
                 (let w = upd_peer i (\<lambda>p. p\<lparr>pr_id := take PEER_ID_LEN (drop 48 m)\<rparr>) w;
                      (r, w) = on_stream i (\<lambda>s. let (r, b) = PickUp 68 (in_buffer s) in (r, s\<lparr>in_buffer := b\<rparr>)) w
                  in if r < 0 then Some (-1, w)
                     else (let (r, w) = shake_bitfield e i w in if r < 0 then Some (-1, w) else shake_done e lit i w))))"

section \<open>Reading ahead\<close>

definition peek_request :: "nat \<Rightarrow> world \<Rightarrow> slice option \<times> world" where
  "peek_request i w = (let (s, q) = Peek (pr_request_q (peer w i)) in (s, upd_peer i (\<lambda>p. p\<lparr>pr_request_q := q\<rparr>) w))"

definition peek_respond :: "nat \<Rightarrow> world \<Rightarrow> slice option \<times> world" where
  "peek_respond i w = (let (s, q) = Peek (pr_respond_q (peer w i)) in (s, upd_peer i (\<lambda>p. p\<lparr>pr_respond_q := q\<rparr>) w))"

text \<open>Should the rest of the piece be read, to be checked when its last slice arrives?\<close>

definition wants_completion :: "env \<Rightarrow> nat \<Rightarrow> world \<Rightarrow> slice option \<times> world" where
  "wants_completion e i w =
     (let p = peer w i
      in if IsFull_c w \<or> remote_choked p \<or> \<not> pr_prefetch_completion p < 2 \<or> \<not> LastSlice (pr_request_q p) then (None, w)
         else
           (let (rate, w) = RateDL e i w
            in if rate = 0 then (None, w)
               else
                 (case peek_request i w of
                    (None, w) \<Rightarrow> (None, w)
                  | (Some s, w) \<Rightarrow>
                     (let (rate, w) = RateDL e i w; due = pr_last_timestamp (peer w i) + uint (sl_length s div rate)
                      in if \<not> due < w_now w + w_unchoke_interval w then (None, w)
                         else
                           (let (sr, w) = SelfRateDL e w
                            in if sr = 0 then (None, w)
                               else
                                 (let (rate, w) = RateDL e i w;
                                      due = pr_last_timestamp (peer w i) + uint (sl_length s div rate); (sr, w) = SelfRateDL e w;
                                      room = cfg_cache_size (store_of w) * 1024 * 1024 - GetPieceLength (c_geo (w_content w)) (sl_index s)
                                  in (if due < w_now w + uint (room div sr) then Some s else None, w)))))))"

definition prefetch_completion :: "env \<Rightarrow> slice \<Rightarrow> nat \<Rightarrow> world \<Rightarrow> (int \<times> world) option" where
  "prefetch_completion e s i w =
     (let idx = sl_index s; off = sl_offset s; len = sl_length s;
          plen = GetPieceLength (c_geo (w_content w)) idx; mark = (\<lambda>k. upd_peer i (\<lambda>p. p\<lparr>pr_prefetch_completion := k\<rparr>));
          code = (\<lambda>ok. if ok then 0 else -1)
      in case CachePrep e (unat idx) w of
           None \<Rightarrow> None
         | Some (prep, w) \<Rightarrow>
            (if \<not> prep then Some (0, mark 2 w)
             else if g_disk_access (st_files (store_of w)) then Some (0, w)
             else if pr_prefetch_completion (peer w i) \<noteq> 0 \<or> off = 0 then
               (if off + len < plen then
                  map_option (\<lambda>(_, w). (0, mark 2 w)) (ReadSlice e None idx (off + len) (plen - off - len) w)
                else Some (0, mark 2 w))
             else
               map_option (\<lambda>((ok, _), w). (code ok, mark (if off + len < plen then 1 else 2) w)) (ReadSlice e None idx 0 off w)))"

text \<open>Would what is read still be in the cache when it is sent, and has what was read before expired?\<close>

definition fits_cache :: "env \<Rightarrow> int \<Rightarrow> world \<Rightarrow> bool \<times> world" where
  "fits_cache e predict w =
     (let (dl, w) = SelfRateDL e w
      in if dl = 0 then (True, w)
         else (let (dl, w) = SelfRateDL e w in (predict \<le> w_now w + uint (cfg_cache_size (store_of w) * 1024 * 1024 div dl), w)))"

definition may_expire :: "env \<Rightarrow> nat \<Rightarrow> world \<Rightarrow> bool \<times> world" where
  "may_expire e i w =
     (if pr_prefetch_time (peer w i) = 0 then (True, w)
      else
        (let (dl, w) = SelfRateDL e w; (idle, w) = (if dl = 0 then (let (ul, w) = SelfRateUL e w in (ul = 0, w)) else (False, w))
         in if idle then (True, w)
            else (let (dl, w) = SelfRateDL e w; (ul, w) = SelfRateUL e w
                  in (uint (m_cache_size (store_of w) div (dl + ul)) < w_now w - pr_prefetch_time (peer w i), w))))"

text \<open>
  Reading ahead what the peer asked for.  The second component says whether \<^verbatim>\<open>CheckTime\<close> is reached: the return in
  the middle skips it.
\<close>

definition prefetch_respond :: "env \<Rightarrow> int \<Rightarrow> nat \<Rightarrow> world \<Rightarrow> (int \<times> bool \<times> world) option" where
  "prefetch_respond e deadline i w =
     (if local_choked (peer w i) then Some (0, True, w)
      else
        (case peek_respond i w of
           (None, w) \<Rightarrow> Some (0, True, w)
         | (Some s, w) \<Rightarrow>
            (let ul = w_self_ul w; up = cfg_max_bandwidth_up e;
                 chance = (if 0 < up then trunc (r_last_realtime ul + rat_of_word (r_last_size ul) / rat_of_word up) else w_now w)
             in if w_next_ul w \<noteq> [] \<and> \<not> IsNextUL i w then Some (0, False, w)
                else
                  (let w = (if w_next_ul w \<noteq> [] then upd_peer i (\<lambda>p. p\<lparr>pr_next_send_time := chance\<rparr>) w else w);
                       nst = pr_next_send_time (peer w i); predict = (if nst < chance then chance else nst);
                       (fits, w) = (if predict < deadline then fits_cache e predict w else (False, w));
                       (expired, w) = (if fits then may_expire e i w else (False, w))
                   in if expired then
                        map_option (\<lambda>((ok, _), w). (if ok then 0 else -1, True, upd_peer i (\<lambda>p. p\<lparr>pr_prefetch_time := w_now w\<rparr>) w))
                          (ReadSlice e None (sl_index s) (sl_offset s) (sl_length s) w)
                      else Some (0, True, w)))))"

definition Prefetch :: "env \<Rightarrow> int \<Rightarrow> nat \<Rightarrow> world \<Rightarrow> (int \<times> world) option" where
  "Prefetch e deadline i w =
     (case wants_completion e i (no_disk_access w) of
        (Some s, w) \<Rightarrow> map_option (\<lambda>(r, w). (r, CheckTime e w)) (prefetch_completion e s i w)
      | (None, w) \<Rightarrow> map_option (\<lambda>(r, check, w). (r, if check then CheckTime e w else w)) (prefetch_respond e deadline i w))"

end
