(* ===== verification/World_Ok.thy ===== *)
theory World_Ok
  imports Peerlist
begin

text \<open>
  The invariant of the whole client and its preservation by the operations on peers: every piece set
  and every request queue is well formed, no slice is in two queues, every output buffer is
  consistent, the rotation queues hold no peer twice, and a closed connection holds no requests and
  waits in no queue.
\<close>

section \<open>Addresses of a queue\<close>

definition addrs :: "rqueue \<Rightarrow> nat set" where
  "addrs q = sl_addr ` set (all_slices q)"

definition piece_addrs :: "piece \<Rightarrow> nat set" where
  "piece_addrs p = sl_addr ` set (p_slices p)"

lemma addrs_alt: "addrs q = (\<Union>p\<in>set (rq_head q). piece_addrs p)"
  by (auto simp: addrs_def all_slices_def piece_addrs_def)

lemma piece_addrs_simps [simp]:
  "piece_addrs \<lparr>p_count = c, p_slices = ss\<rparr> = sl_addr ` set ss"
  "piece_addrs (p\<lparr>p_count := c, p_slices := ss\<rparr>) = sl_addr ` set ss"
  "piece_addrs (p\<lparr>p_slices := ss\<rparr>) = sl_addr ` set ss"
  by (simp_all add: piece_addrs_def)

lemma addrs_new [simp]: "addrs rq_new = {}"
  by (simp add: addrs_def all_slices_def rq_new_def)

lemma addrs_Empty [simp]: "addrs (Empty_q q) = {}"
  by (simp add: addrs_def all_slices_def Empty_q_def)

lemma addrs_empty: "rq_head q = [] \<Longrightarrow> addrs q = {}"
  by (simp add: addrs_def all_slices_def)

lemma disj_q_addrs: "disj_q q d \<longleftrightarrow> addrs q \<inter> addrs d = {}"
  by (simp add: disj_q_def addrs_def)

lemma addrs_bound: "rq_inv a q \<Longrightarrow> x \<in> addrs q \<Longrightarrow> x < a"
  by (auto simp: addrs_def dest: rq_invD(2))

lemma addrs_Delete: "addrs (snd (Delete q idx)) \<subseteq> addrs q"
  by (cases rule: FindPiece_cases[of idx "rq_head q"]) (auto simp: Delete_def addrs_alt)

lemma addrs_Remove: "addrs (snd (Remove q idx off len)) \<subseteq> addrs q"
proof (cases rule: FindPiece_cases[of idx "rq_head q"])
  case (some before p after)
  then show ?thesis
    by (cases rule: find_in_piece_cases[of idx off len "p_slices p"])
      (auto simp: Remove_def addrs_alt Let_def piece_addrs_def)
qed (simp add: Remove_def)

lemma addrs_MoveLast: "addrs (MoveLast q idx off len) \<subseteq> addrs q"
proof (cases rule: FindPiece_cases[of idx "rq_head q"])
  case (some before p after)
  note P = this
  show ?thesis
  proof (cases rule: find_in_piece_cases[of idx off len "p_slices p"])
    case (some u s v)
    then show ?thesis using P
      by (cases v) (auto simp: MoveLast_def addrs_alt piece_addrs_def)
  qed (use P in \<open>simp add: MoveLast_def\<close>)
qed (simp add: MoveLast_def)

lemma addrs_upd_slice [simp]: "addrs (upd_slice c (\<lambda>s. s\<lparr>sl_reqtime := t, sl_sent := True\<rparr>) q) = addrs q"
proof -
  have "map sl_addr (all_slices (upd_slice c (\<lambda>s. s\<lparr>sl_reqtime := t, sl_sent := True\<rparr>) q)) = map sl_addr (all_slices q)"
    by (simp add: all_slices_upd)
  then show ?thesis unfolding addrs_def by (metis set_map)
qed

lemma addrs_send [simp]: "addrs (q\<lparr>rq_send := x\<rparr>) = addrs q"
  by (simp add: addrs_def all_slices_def)

lemma addrs_Sent_slice [simp]: "addrs (Sent_slice q t c) = addrs q"
  by (simp add: Sent_slice_def Let_def)

lemma addrs_Sent_req [simp]: "addrs (Sent_req q t idx off len) = addrs q"
  by (simp add: Sent_req_def split: option.split)

lemma addrs_Add: "Add mem a q idx off len = (ok, a', q') \<Longrightarrow> addrs q' \<subseteq> addrs q \<union> {a..<a'}"
proof (cases rule: FindPiece_cases[of idx "rq_head q"])
  case none
  assume "Add mem a q idx off len = (ok, a', q')"
  then have "q' = q \<or> (rq_head q' = rq_head q @ [\<lparr>p_count = 1, p_slices = [new_slice a idx off len]\<rparr>] \<and> a < a')"
    using none by (auto simp: Add_def Let_def split: if_splits)
  then show ?thesis by (auto simp: addrs_alt new_slice_def)
next
  case (some before p after)
  assume "Add mem a q idx off len = (ok, a', q')"
  then have "q' = q \<or> (rq_head q' = before @ p\<lparr>p_count := p_count p + 1, p_slices := p_slices p @ [new_slice a idx off len]\<rparr> # after \<and> a < a')"
    using some by (auto simp: Add_def Let_def split: if_splits)
  moreover have "addrs q' \<subseteq> insert a (addrs q)"
    if "rq_head q' = before @ p\<lparr>p_count := p_count p + 1, p_slices := p_slices p @ [new_slice a idx off len]\<rparr> # after"
    unfolding addrs_alt that some(2) by (simp add: new_slice_def piece_addrs_def)
  ultimately show ?thesis by fastforce
qed

lemma addrs_Requeue: "Requeue mem a q idx off len = (r, a', q') \<Longrightarrow> addrs q' \<subseteq> addrs q \<union> {a..<a'}"
  by (auto simp: Requeue_def Let_def split: prod.splits dest!: addrs_Add)

lemma addrs_Transfer_piece:
  "Transfer_piece g ss pend q d idx = (ok, q', d') \<Longrightarrow> addrs q' \<union> addrs d' \<subseteq> addrs q \<union> addrs d"
proof (cases rule: FindPiece_cases[of idx "rq_head q"])
  case (some before p after)
  assume t: "Transfer_piece g ss pend q d idx = (ok, q', d')"
  have "addrs (snd (Append d p)) \<subseteq> sl_addr ` set (p_slices p) \<union> addrs d"
    using addrs_Append[of d p] by (auto simp: addrs_def)
  moreover have "sl_addr ` set (p_slices p) \<subseteq> addrs q"
    using some(2) by (auto simp: addrs_alt piece_addrs_def)
  moreover have "addrs q' \<subseteq> addrs q" "d' = d \<or> d' = snd (Append d p)"
    using t some by (auto simp: Transfer_piece_def Let_def addrs_alt split: if_splits prod.splits)
  ultimately show ?thesis by blast
qed (simp add: Transfer_piece_def)

lemma addrs_Transfer_loop:
  "Transfer_loop g ss pend r q d = (ok, q', d') \<Longrightarrow> addrs q' \<union> addrs d' \<subseteq> addrs q \<union> addrs d"
proof (induction g ss pend r q d rule: Transfer_loop.induct)
  case (1 g ss pend r q d)
  show ?case
  proof (cases "rq_head q")
    case Nil
    then show ?thesis using "1.prems" by (subst (asm) Transfer_loop.simps) simp
  next
    case (Cons p ps)
    obtain ok1 q1 d1 where P: "Transfer_piece g ss pend q d (p_index p) = (ok1, q1, d1)" by (metis prod_cases3)
    have "Transfer_loop g ss pend (if ok1 then r else False) q1 d1 = (ok, q', d')"
      using "1.prems" Cons P by (subst (asm) Transfer_loop.simps) simp
    from "1.IH"[OF Cons P[symmetric] refl refl this] addrs_Transfer_piece[OF P] show ?thesis by blast
  qed
qed

lemma addrs_Transfer: "Transfer g ss pend q d = (ok, q', d') \<Longrightarrow> addrs q' \<union> addrs d' \<subseteq> addrs q \<union> addrs d"
  by (auto simp: Transfer_def simp del: Transfer_loop.simps split: prod.splits dest!: addrs_Transfer_loop)


section \<open>The invariant\<close>

text \<open>\<open>x\<close> exempts a peer whose connection is being closed.\<close>

definition peer_ok :: "bool \<Rightarrow> u32 \<Rightarrow> nat \<Rightarrow> btpeer \<Rightarrow> bool" where
  "peer_ok x n a p \<longleftrightarrow> bf_inv n (pr_bitfield p) \<and> st_out_ok (pr_stream p) \<and> length (pr_haveq p) = HAVEQ_SIZE \<and>
     rq_inv a (pr_request_q p) \<and> rq_inv a (pr_respond_q p) \<and>
     (\<not> x \<longrightarrow> pr_status p = DT_PEER_FAILED \<longrightarrow> IsEmpty_q (pr_request_q p))"

text \<open>No staging file lies behind the end of the last piece.\<close>

definition files_ok :: "geometry \<Rightarrow> btfile list \<Rightarrow> bool" where
  "files_ok g fs \<longleftrightarrow> list_all (\<lambda>f. bf_staging f \<longrightarrow> unat (bf_offset f) \<le> unat (g_npieces g) * unat (g_piece_length g)) fs"

definition content_ok :: "content \<Rightarrow> bool" where
  "content_ok c \<longleftrightarrow> (let n = g_npieces (c_geo c) in geo_ok (c_geo c) \<and> files_ok (c_geo c) (c_files c) \<and> 0 < n \<and> bf_inv n (c_BF c) \<and> bf_inv n (c_BChecked c) \<and>
     bf_inv n (c_BMultPeer c) \<and> bf_inv n (c_BMasterFilter c) \<and> list_all (bf_inv n) (c_filters c) \<and>
     (case c_current c of None \<Rightarrow> True | Some k \<Rightarrow> k < length (c_filters c)))"

definition queues_disjoint :: "(nat \<Rightarrow> btpeer) \<Rightarrow> rqueue \<Rightarrow> bool" where
  "queues_disjoint ps pend \<longleftrightarrow>
     (\<forall>i j. i \<noteq> j \<longrightarrow> disj_q (pr_request_q (ps i)) (pr_request_q (ps j))) \<and> (\<forall>i. disj_q (pr_request_q (ps i)) pend)"

definition no_failed :: "nat set \<Rightarrow> world \<Rightarrow> nat list \<Rightarrow> bool" where
  "no_failed F w q \<longleftrightarrow> distinct q \<and> (\<forall>i. i \<notin> F \<longrightarrow> is_failed w i \<longrightarrow> i \<notin> set q)"

definition world_okx :: "nat set \<Rightarrow> world \<Rightarrow> bool" where
  "world_okx F w \<longleftrightarrow> content_ok (w_content w) \<and> (\<forall>i. peer_ok (i \<in> F) (npieces w) (w_slices w) (peer w i)) \<and>
     rq_inv (w_slices w) (w_pending w) \<and> queues_disjoint (w_peers w) (w_pending w) \<and>
     no_failed F w (w_next_dl w) \<and> no_failed F w (w_next_ul w)"

abbreviation world_ok :: "world \<Rightarrow> bool" where
  "world_ok w \<equiv> world_okx {} w"

text \<open>The fields of a peer the invariant is about.\<close>

definition core :: "btpeer \<Rightarrow> _" where
  "core p = (pr_bitfield p, pr_stream p, pr_haveq p, pr_request_q p, pr_respond_q p, pr_status p)"

lemma peer_ok_core: "core p' = core p \<Longrightarrow> peer_ok x n a p' = peer_ok x n a p"
  by (simp add: peer_ok_def core_def)

lemma peer_ok_mono: "peer_ok x n a p \<Longrightarrow> a \<le> a' \<Longrightarrow> peer_ok x n a' p"
  by (auto simp: peer_ok_def intro: rq_inv_mono)

lemma queues_disjoint_addrs:
  "queues_disjoint ps pend \<longleftrightarrow>
     (\<forall>i j. i \<noteq> j \<longrightarrow> addrs (pr_request_q (ps i)) \<inter> addrs (pr_request_q (ps j)) = {}) \<and>
     (\<forall>i. addrs (pr_request_q (ps i)) \<inter> addrs pend = {})"
  by (simp add: queues_disjoint_def disj_q_addrs)

text \<open>
  One peer and the pending queue change: what is in the two queues was in one of them before or is new.
\<close>

lemma queues_disjoint_upd:
  assumes q: "queues_disjoint ps pend" and inv: "\<And>j. rq_inv a (pr_request_q (ps j))"
    and sub: "addrs (pr_request_q p) \<union> addrs pend' \<subseteq> addrs (pr_request_q (ps i)) \<union> addrs pend \<union> {a..}"
    and dj: "addrs (pr_request_q p) \<inter> addrs pend' = {}"
  shows "queues_disjoint (ps(i := p)) pend'"
proof -
  have old: "addrs (pr_request_q (ps j)) \<inter> (addrs (pr_request_q p) \<union> addrs pend') = {}" if "j \<noteq> i" for j
  proof -
    have "addrs (pr_request_q (ps j)) \<inter> {a..} = {}" using addrs_bound[OF inv[of j]] by fastforce
    moreover have "addrs (pr_request_q (ps j)) \<inter> addrs (pr_request_q (ps i)) = {}"
      "addrs (pr_request_q (ps j)) \<inter> addrs pend = {}"
      using q that by (simp_all add: queues_disjoint_addrs)
    ultimately show ?thesis using sub by blast
  qed
  show ?thesis
    unfolding queues_disjoint_addrs
  proof (intro conjI allI impI)
    fix j k :: nat assume "j \<noteq> k"
    moreover have "addrs (pr_request_q (ps j)) \<inter> addrs (pr_request_q (ps k)) = {}" if "j \<noteq> k"
      using q that by (simp add: queues_disjoint_addrs)
    ultimately show "addrs (pr_request_q ((ps(i := p)) j)) \<inter> addrs (pr_request_q ((ps(i := p)) k)) = {}"
      using old[of j] old[of k] by (auto simp del: Int_iff)
  next
    fix j show "addrs (pr_request_q ((ps(i := p)) j)) \<inter> addrs pend' = {}"
      using old[of j] dj by (cases "j = i") auto
  qed
qed

lemma world_ok_upd_core:
  assumes "core (f (peer w i)) = core (peer w i)"
  shows "world_okx F (upd_peer i f w) \<longleftrightarrow> world_okx F w"
proof -
  have c: "core (peer (upd_peer i f w) j) = core (peer w j)" for j using assms by simp
  then have "pr_request_q (peer (upd_peer i f w) j) = pr_request_q (peer w j)" "pr_status (peer (upd_peer i f w) j) = pr_status (peer w j)" for j
    by (metis core_def prod.inject)+
  then show ?thesis using peer_ok_core[OF c]
    by (simp only: world_okx_def upd_peer_sel queues_disjoint_def no_failed_def)
qed

text \<open>A peer changes within the rules: its queue only shrinks or gets new slices.\<close>

lemma world_ok_upd:
  assumes ok: "world_okx F w" and p: "peer_ok (i \<in> F) (npieces w) a (f (peer w i))" and a: "w_slices w \<le> a"
    and sub: "addrs (pr_request_q (f (peer w i))) \<subseteq> addrs (pr_request_q (peer w i)) \<union> {w_slices w..}"
    and st: "pr_status (f (peer w i)) = pr_status (peer w i)"
  shows "world_okx F ((upd_peer i f w)\<lparr>w_slices := a\<rparr>)"
proof -
  let ?w = "(upd_peer i f w)\<lparr>w_slices := a\<rparr>"
  have P: "\<And>j. peer_ok (j \<in> F) (npieces w) (w_slices w) (peer w j)" "rq_inv (w_slices w) (w_pending w)"
    "queues_disjoint (w_peers w) (w_pending w)" "content_ok (w_content w)"
    "no_failed F w (w_next_dl w)" "no_failed F w (w_next_ul w)"
    using ok by (simp_all add: world_okx_def)
  have inv: "rq_inv (w_slices w) (pr_request_q (peer w j))" for j using P(1) by (simp add: peer_ok_def)
  have dj: "addrs (pr_request_q (peer w i)) \<inter> addrs (w_pending w) = {}"
    using P(3) by (simp add: queues_disjoint_addrs)
  have "addrs (w_pending w) \<inter> {w_slices w..} = {}" using addrs_bound[OF P(2)] by fastforce
  then have "addrs (pr_request_q (f (peer w i))) \<inter> addrs (w_pending w) = {}" using sub dj by blast
  then have "queues_disjoint ((w_peers w)(i := f (peer w i))) (w_pending w)"
    using sub by (intro queues_disjoint_upd[OF P(3) inv]) auto
  moreover have "peer_ok (j \<in> F) (npieces w) a (peer ?w j)" for j
    using p peer_ok_mono[OF P(1) a] by simp
  moreover have "pr_status (peer ?w j) = pr_status (peer w j)" for j using st by simp
  then have "no_failed F ?w (w_next_dl w)" "no_failed F ?w (w_next_ul w)"
    using P(5,6) unfolding no_failed_def by simp_all
  ultimately show ?thesis using P(4) rq_inv_mono[OF P(2) a]
    by (simp add: world_okx_def) (simp add: upd_peer_def)
qed

lemma world_ok_upd_same:
  assumes ok: "world_okx F w" and p: "peer_ok (i \<in> F) (npieces w) (w_slices w) (f (peer w i))"
    and sub: "addrs (pr_request_q (f (peer w i))) \<subseteq> addrs (pr_request_q (peer w i))"
    and st: "pr_status (f (peer w i)) = pr_status (peer w i)"
  shows "world_okx F (upd_peer i f w)"
proof -
  have "(upd_peer i f w)\<lparr>w_slices := w_slices w\<rparr> = upd_peer i f w" by (simp add: upd_peer_def)
  with world_ok_upd[where f = f and i = i and a = "w_slices w", OF ok p order_refl _ st] sub show ?thesis by auto
qed

section \<open>Preservation\<close>

named_theorems world_ok_intros \<open>operations that keep the invariant of the world\<close>

lemma world_okD:
  assumes "world_okx F w"
  shows "peer_ok (i \<in> F) (npieces w) (w_slices w) (peer w i)" "rq_inv (w_slices w) (w_pending w)"
    "bf_inv (npieces w) (pr_bitfield (peer w i))" "rq_inv (w_slices w) (pr_request_q (peer w i))"
    "rq_inv (w_slices w) (pr_respond_q (peer w i))" "st_out_ok (pr_stream (peer w i))"
    "length (pr_haveq (peer w i)) = HAVEQ_SIZE" "disj_q (pr_request_q (peer w i)) (w_pending w)"
    "i \<notin> F \<Longrightarrow> is_failed w i \<Longrightarrow> IsEmpty_q (pr_request_q (peer w i))" "content_ok (w_content w)"
  using assms by (simp_all add: world_okx_def peer_ok_def queues_disjoint_def)

text \<open>Updates of fields of a peer, and of the world, that the invariant does not mention.\<close>

lemma world_ok_field [world_ok_intros]:
  "world_okx F w \<Longrightarrow> core (f (peer w i)) = core (peer w i) \<Longrightarrow> world_okx F (upd_peer i f w)"
  by (simp add: world_ok_upd_core)

lemma core_simps [simp]:
  "core (p\<lparr>pr_dl := r1\<rparr>) = core p" "core (p\<lparr>pr_ul := r1\<rparr>) = core p"
  "core (p\<lparr>pr_standby := b\<rparr>) = core p" "core (p\<lparr>pr_req_out := u\<rparr>) = core p"
  "core (p\<lparr>pr_cancel_time := t\<rparr>) = core p" "core (p\<lparr>pr_err_count := t\<rparr>) = core p"
  "core (p\<lparr>pr_want_again := b\<rparr>) = core p" "core (p\<lparr>pr_requested := b\<rparr>) = core p"
  "core (p\<lparr>local_interested := b\<rparr>) = core p" "core (p\<lparr>local_choked := b\<rparr>) = core p"
  "core (p\<lparr>pr_unchoke_timestamp := t\<rparr>) = core p" "core (p\<lparr>pr_next_send_time := t\<rparr>) = core p"
  "core (p\<lparr>pr_f_keepalive := b\<rparr>) = core p" "core (p\<lparr>pr_health_time := t\<rparr>) = core p"
  "core (p\<lparr>pr_bad_health := b\<rparr>) = core p" "core (p\<lparr>pr_deferred_ul := b\<rparr>) = core p"
  "core (p\<lparr>pr_receive_time := t\<rparr>) = core p" "core (p\<lparr>pr_retried := b\<rparr>) = core p"
  by (simp_all add: core_def)

lemma world_ok_fields [simp]:
  "world_okx F (w\<lparr>w_dup_req_pieces := d\<rparr>) = world_okx F w" "world_okx F (w\<lparr>w_endgame := b\<rparr>) = world_okx F w"
  "world_okx F (w\<lparr>w_f_pause := b\<rparr>) = world_okx F w" "world_okx F (w\<lparr>w_self_dl := r1\<rparr>) = world_okx F w"
  "world_okx F (w\<lparr>w_rnd := k\<rparr>) = world_okx F w"
  by (simp_all add: world_okx_def no_failed_def)

lemma world_ok_DontWait [world_ok_intros]:
  "world_okx F w \<Longrightarrow> world_okx F (DontWaitDL i w)" "world_okx F w \<Longrightarrow> world_okx F (DontWaitUL i w)"
  by (auto simp: world_okx_def DontWaitDL_def DontWaitUL_def bw_drop_def no_failed_def dest: notin_set_remove1)

lemma world_ok_ReQueueUL [world_ok_intros]: "world_okx F w \<Longrightarrow> world_okx F (ReQueueUL i w)"
  by (auto simp: world_okx_def ReQueueUL_def bw_requeue_def no_failed_def dest: notin_set_remove1)

lemma world_ok_Wait [world_ok_intros]:
  "world_okx F w \<Longrightarrow> \<not> is_failed w i \<Longrightarrow> world_okx F (WaitDL i w)" "world_okx F w \<Longrightarrow> \<not> is_failed w i \<Longrightarrow> world_okx F (WaitUL i w)"
  by (auto simp: world_okx_def WaitDL_def WaitUL_def bw_wait_def no_failed_def)

lemma world_ok_timers [world_ok_intros]:
  "world_okx F w \<Longrightarrow> world_okx F (StopDLTimer e i w)" "world_okx F w \<Longrightarrow> world_okx F (StopULTimer e i w)"
  "world_okx F w \<Longrightarrow> world_okx F (StartDLTimer i w)" "world_okx F w \<Longrightarrow> world_okx F (StartULTimer i w)"
  "world_okx F w \<Longrightarrow> world_okx F (snd (NominalDL i w))" "world_okx F w \<Longrightarrow> world_okx F (snd (RateDL e i w))"
  by (simp_all add: StopDLTimer_def StopULTimer_def StartDLTimer_def StartULTimer_def NominalDL_def RateDL_def
      case_prod_beta Let_def world_ok_upd_core)

lemma world_ok_stream [world_ok_intros]:
  assumes "world_okx F w" "st_out_ok (snd (f (pr_stream (peer w i))))"
  shows "world_okx F (snd (on_stream i f w))"
  unfolding on_stream_def case_prod_beta Let_def snd_conv
  by (rule world_ok_upd_same[OF assms(1)]) (use world_okD(1)[OF assms(1), of i] assms(2) in \<open>simp_all add: peer_ok_def\<close>)

lemma st_out_ok_sends [world_ok_intros]:
  assumes "st_out_ok s"
  shows "st_out_ok (snd (Send_State mem st s))" "st_out_ok (snd (Send_Have mem idx s))"
    "st_out_ok (snd (Send_Cancel mem idx off len s))" "st_out_ok (snd (Send_Request mem idx off len s))"
    "st_out_ok (snd (Send_Keepalive mem lit s))"
  using st_sink.put_ok[OF assms]
  by (simp_all add: Send_State_def Send_Have_def Send_Cancel_def Send_Request_def Send_Keepalive_def)

lemma world_ok_requests:
  assumes ok: "world_okx F w" and inv: "rq_inv (w_slices w) (g (pr_request_q (peer w i)))"
    and sub: "addrs (g (pr_request_q (peer w i))) \<subseteq> addrs (pr_request_q (peer w i))"
    and e: "IsEmpty_q (pr_request_q (peer w i)) \<Longrightarrow> IsEmpty_q (g (pr_request_q (peer w i)))"
  shows "world_okx F (upd_peer i (\<lambda>p. p\<lparr>pr_request_q := g (pr_request_q p)\<rparr>) w)"
proof (rule world_ok_upd_same[OF ok])
  show "peer_ok (i \<in> F) (npieces w) (w_slices w) ((\<lambda>p. p\<lparr>pr_request_q := g (pr_request_q p)\<rparr>) (peer w i))"
    using world_okD(1)[OF ok, of i] inv e unfolding peer_ok_def by simp
qed (use sub in simp_all)

lemma Empty_keeps:
  "IsEmpty_q q \<Longrightarrow> IsEmpty_q (snd (Delete q idx))" "IsEmpty_q q \<Longrightarrow> IsEmpty_q (snd (Remove q idx off len))"
  "IsEmpty_q q \<Longrightarrow> IsEmpty_q (MoveLast q idx off len)" "IsEmpty_q (Empty_q q)"
  by (simp_all add: IsEmpty_q_def Delete_def Remove_def MoveLast_def FindPiece_def Empty_q_def)

lemma world_ok_shrink [world_ok_intros]:
  assumes "world_okx F w"
  shows "world_okx F (upd_peer i (\<lambda>p. p\<lparr>pr_request_q := snd (Delete (pr_request_q p) idx)\<rparr>) w)"
    "world_okx F (upd_peer i (\<lambda>p. p\<lparr>pr_request_q := snd (Remove (pr_request_q p) idx off len)\<rparr>) w)"
    "world_okx F (upd_peer i (\<lambda>p. p\<lparr>pr_request_q := MoveLast (pr_request_q p) idx off len\<rparr>) w)"
    "world_okx F (upd_peer i (\<lambda>p. p\<lparr>pr_request_q := Empty_q (pr_request_q p)\<rparr>) w)"
  using world_ok_requests[OF assms, of "\<lambda>q. snd (Delete q idx)" i] world_ok_requests[OF assms, of "\<lambda>q. snd (Remove q idx off len)" i]
    world_ok_requests[OF assms, of "\<lambda>q. MoveLast q idx off len" i] world_ok_requests[OF assms, of Empty_q i]
    world_okD(4)[OF assms, of i]
  by (simp_all add: Delete_ok Remove_ok MoveLast_ok Empty_ok Empty_keeps addrs_Delete addrs_Remove addrs_MoveLast)

section \<open>Operations on one peer\<close>

lemma world_ok_send [world_ok_intros]:
  assumes "world_okx F w"
  shows "world_okx F (snd (on_stream i (Send_State mem st) w))" "world_okx F (snd (on_stream i (Send_Have mem idx) w))"
    "world_okx F (snd (on_stream i (Send_Cancel mem idx off len) w))" "world_okx F (snd (on_stream i (Send_Request mem idx off len) w))"
    "world_okx F (snd (on_stream i (Send_Keepalive mem lit) w))"
  using world_okD(6)[OF assms] by (simp_all add: world_ok_stream[OF assms] st_out_ok_sends)

lemma world_ok_fix_req_out [world_ok_intros]: "world_okx F w \<Longrightarrow> world_okx F (fix_req_out i w)"
  by (simp add: fix_req_out_def world_ok_upd_core)

lemma world_ok_cancel_one [world_ok_intros]: "world_okx F w \<Longrightarrow> world_okx F (snd (cancel_one e i idx s w))"
  by (auto simp: cancel_one_def Let_def case_prod_beta intro!: world_ok_intros)

lemma world_ok_cancel_piece_loop [world_ok_intros]:
  "world_okx F w \<Longrightarrow> world_okx F (snd (cancel_piece_loop e i idx ss w))"
  by (induction ss arbitrary: idx w) (auto simp: Let_def case_prod_beta world_ok_cancel_one)

lemma world_ok_cancel_all_loop [world_ok_intros]:
  "world_okx F w \<Longrightarrow> world_okx F (snd (cancel_all_loop e i ss w))"
  by (induction ss arbitrary: w) (auto simp: Let_def case_prod_beta world_ok_cancel_one)

lemma world_ok_stop_if_idle [world_ok_intros]: "world_okx F w \<Longrightarrow> world_okx F (stop_if_idle e i w)"
  by (simp add: stop_if_idle_def world_ok_intros)

lemma world_ok_CancelPiece [world_ok_intros]: "world_okx F w \<Longrightarrow> world_okx F (snd (CancelPiece e piece i w))"
  by (auto simp: CancelPiece_def Let_def case_prod_beta intro!: world_ok_intros split: list.split)

lemma world_ok_CancelRequest [world_ok_intros]: "world_okx F w \<Longrightarrow> world_okx F (snd (CancelRequest e i w))"
  by (auto simp: CancelRequest_def Let_def case_prod_beta intro!: world_ok_intros)

lemma world_ok_CancelSliceRequest [world_ok_intros]:
  "world_okx F w \<Longrightarrow> world_okx F (snd (CancelSliceRequest e idx off len i w))"
  by (auto simp: CancelSliceRequest_def Let_def case_prod_beta intro!: world_ok_intros split: option.split)

lemma world_ok_PeerError [world_ok_intros]: "world_okx F w \<Longrightarrow> world_okx F (snd (PeerError k i w))"
  by (auto simp: PeerError_def Let_def intro!: world_ok_intros)

lemma world_ok_fold [world_ok_intros]:
  assumes "\<And>i w. world_okx F w \<Longrightarrow> world_okx F (f i w)" "world_okx F w"
  shows "world_okx F (fold f is w)"
  using assms(2) by (induction "is" arbitrary: w) (simp_all add: assms(1))

lemma world_ok_fold_snd:
  assumes "\<And>i r w. world_okx F w \<Longrightarrow> world_okx F (snd (f i (r, w)))" "world_okx F (snd st)"
  shows "world_okx F (snd (fold f is st))"
  using assms(2)
proof (induction "is" arbitrary: st)
  case (Cons i "is")
  have "world_okx F (snd (f i st))" using assms(1)[OF Cons.prems, of i "fst st"] by simp
  from Cons.IH[OF this] show ?case by simp
qed simp

lemma world_ok_UnStandby [world_ok_intros]: "world_okx F w \<Longrightarrow> world_okx F (UnStandby w)"
  by (auto simp: UnStandby_def intro!: world_ok_intros)

lemma world_ok_RecalcDupReqs [world_ok_intros]: "world_okx F w \<Longrightarrow> world_okx F (RecalcDupReqs w)"
  by (simp add: RecalcDupReqs_def Let_def case_prod_beta)

text \<open>Requests move to the pending queue.\<close>

lemma world_ok_transfer:
  assumes ok: "world_okx F w"
    and T: "Transfer g ss pend (pr_request_q (peer w i)) (w_pending w) = (r, q, d)"
  shows "world_okx F ((upd_peer i (\<lambda>p. p\<lparr>pr_request_q := q\<rparr>) w)\<lparr>w_pending := d\<rparr>)"
proof -
  let ?w = "(upd_peer i (\<lambda>p. p\<lparr>pr_request_q := q\<rparr>) w)\<lparr>w_pending := d\<rparr>"
  note W = ok[unfolded world_okx_def]
  note T' = Transfer_ok[OF world_okD(4)[OF ok] world_okD(2)[OF ok] world_okD(8)[OF ok] T]
  have "queues_disjoint ((w_peers w)(i := (peer w i)\<lparr>pr_request_q := q\<rparr>)) d"
    using T' addrs_Transfer[OF T] addrs_empty[of q]
    by (intro queues_disjoint_upd[OF _ world_okD(4)[OF ok]]) (use W in auto)
  moreover have "peer_ok (j \<in> F) (npieces w) (w_slices w) (peer ?w j)" for j
    using world_okD(1)[OF ok, of j] T' by (auto simp: peer_ok_def IsEmpty_q_def)
  moreover have "pr_status (peer ?w j) = pr_status (peer w j)" for j by simp
  then have "no_failed F ?w (w_next_dl w)" "no_failed F ?w (w_next_ul w)" using W unfolding no_failed_def by simp_all
  ultimately show ?thesis using W T' by (simp add: world_okx_def) (simp add: upd_peer_def)
qed

lemma world_ok_PutPending [world_ok_intros]: "world_okx F w \<Longrightarrow> world_okx F (PutPending e i w)"
  by (auto simp: PutPending_def Let_def world_ok_upd_core split: prod.split intro!: world_ok_intros dest: world_ok_transfer)

section \<open>Closing a connection\<close>

lemma world_okx_insert: "world_okx F w \<Longrightarrow> world_okx (insert i F) w"
  by (auto simp: world_okx_def peer_ok_def no_failed_def)

lemma world_ok_set_failed:
  assumes "world_okx F w"
  shows "world_okx (insert i F) (upd_peer i (\<lambda>p. p\<lparr>pr_status := DT_PEER_FAILED\<rparr>) w)"
  using world_okx_insert[OF assms, of i] unfolding world_okx_def
  by (auto simp: peer_ok_def no_failed_def queues_disjoint_def)

lemma world_ok_closed:
  assumes ok: "world_okx (insert i F) w" and e: "IsEmpty_q (pr_request_q (peer w i))"
  shows "world_okx F (DontWaitDL i (DontWaitUL i w))"
proof -
  have "peer_ok (j \<in> F) (npieces w) (w_slices w) (peer w j)" for j
    using world_okD(1)[OF ok, of j] e by (cases "j = i") (auto simp: peer_ok_def)
  then show ?thesis using ok
    by (auto simp: world_okx_def no_failed_def DontWaitDL_def DontWaitUL_def bw_drop_def)
qed

lemma st_out_ok_Close [simp]: "st_out_ok (st_Close s)"
  by (simp add: st_out_ok_def st_Close_def buf_Close_def buf_inv_def)

lemma world_ok_close_stream [world_ok_intros]:
  assumes "world_okx F w"
  shows "world_okx F (upd_peer i (\<lambda>p. p\<lparr>pr_stream := st_Close (pr_stream p)\<rparr>) w)"
  by (rule world_ok_upd_same[OF assms]) (use world_okD(1)[OF assms, of i] in \<open>simp_all add: peer_ok_def\<close>)

lemma UnStandby_requests [simp]: "pr_request_q (peer (UnStandby w) i) = pr_request_q (peer w i)"
proof -
  have "pr_request_q (peer (fold (\<lambda>i w. if is_success w i then upd_peer i (\<lambda>p. p\<lparr>pr_standby := False\<rparr>) w else w) is w) i)
    = pr_request_q (peer w i)" for "is"
    by (induction "is" arbitrary: w) simp_all
  then show ?thesis by (simp add: UnStandby_def)
qed

lemma RecalcDupReqs_peers [simp]: "w_peers (RecalcDupReqs w) = w_peers w"
  by (simp add: RecalcDupReqs_def Let_def case_prod_beta)

lemma PutPending_empty: 
  assumes "world_okx F w"
  shows "IsEmpty_q (pr_request_q (peer (PutPending e i w) i))"
proof (cases "IsEmpty_q (pr_request_q (peer w i))")
  case False
  obtain r q d where T: "Transfer (c_geo (w_content w)) (cfg_req_slice_size e) True
      (pr_request_q (peer w i)) (w_pending w) = (r, q, d)" by (metis prod_cases3)
  have "rq_head q = []"
    using Transfer_ok[OF world_okD(4)[OF assms] world_okD(2)[OF assms] world_okD(8)[OF assms] T] by simp
  then show ?thesis using False T by (simp add: PutPending_def Let_def IsEmpty_q_def)
qed (simp add: PutPending_def)

lemma world_ok_CloseConnection [world_ok_intros]:
  assumes ok: "world_okx F w"
  shows "world_okx F (CloseConnection e i w)"
proof (cases "is_failed w i")
  case True
  then show ?thesis using ok by (simp add: CloseConnection_def world_ok_DontWait)
next
  case False
  define v where "v = upd_peer i (\<lambda>p. p\<lparr>pr_stream := st_Close (pr_stream p)\<rparr>)
    (StopULTimer e i (StopDLTimer e i (upd_peer i (\<lambda>p. p\<lparr>pr_status := DT_PEER_FAILED\<rparr>) w)))"
  have "world_okx (insert i F) v" unfolding v_def
    by (intro world_ok_close_stream world_ok_timers world_ok_set_failed ok)
  then show ?thesis using False world_ok_closed[OF world_ok_PutPending PutPending_empty]
    by (simp add: CloseConnection_def v_def)
qed

section \<open>State messages, announcements, health\<close>

lemma world_ok_respond [world_ok_intros]:
  assumes "world_okx F w"
  shows "world_okx F (upd_peer i (\<lambda>p. p\<lparr>pr_respond_q := if IsEmpty_q (pr_respond_q p) then pr_respond_q p else Empty_q (pr_respond_q p)\<rparr>) w)"
  by (rule world_ok_upd_same[OF assms]) (use world_okD(1)[OF assms, of i] in \<open>auto simp: peer_ok_def Empty_ok\<close>)

lemma world_ok_set_choke [world_ok_intros]: "world_okx F w \<Longrightarrow> world_okx F (snd (set_choke e i w))"
  by (auto simp: set_choke_def Let_def intro!: world_ok_intros)

lemma world_ok_send_state [world_ok_intros]: "world_okx F w \<Longrightarrow> world_okx F (snd (send_state e s i w))"
  by (auto simp: send_state_def case_prod_beta intro!: world_ok_intros)

lemma world_ok_SetLocal [world_ok_intros]: "world_okx F w \<Longrightarrow> world_okx F (snd (SetLocal e s i w))"
  by (auto simp: SetLocal_def Let_def case_prod_beta intro!: world_ok_intros)

lemma world_ok_haveq [world_ok_intros]:
  assumes "world_okx F w"
  shows "world_okx F (upd_peer i (\<lambda>p. p\<lparr>pr_haveq := (pr_haveq p)[j := x]\<rparr>) w)"
  by (rule world_ok_upd_same[OF assms]) (use world_okD(1)[OF assms, of i] in \<open>simp_all add: peer_ok_def\<close>)

lemma world_ok_send_haves_loop [world_ok_intros]: "world_okx F w \<Longrightarrow> world_okx F (snd (send_haves_loop e i k w))"
proof (induction k arbitrary: w)
  case (Suc k)
  then show ?case unfolding send_haves_loop.simps Let_def case_prod_beta
    by (auto intro!: Suc.IH world_ok_haveq world_ok_send)
qed simp

lemma world_ok_SendHaves [world_ok_intros]: "world_okx F w \<Longrightarrow> world_okx F (snd (SendHaves e i w))"
  by (simp only: SendHaves_def world_ok_send_haves_loop)

lemma world_ok_QueueHave [world_ok_intros]: "world_okx F w \<Longrightarrow> world_okx F (snd (QueueHave e idx i w))"
  by (auto simp: QueueHave_def Let_def case_prod_beta intro!: world_ok_intros)

lemma world_ok_AreYouOK [world_ok_intros]: "world_okx F w \<Longrightarrow> world_okx F (snd (AreYouOK e lit i w))"
  by (auto simp: AreYouOK_def Let_def case_prod_beta intro!: world_ok_intros)

lemma world_ok_HealthCheck [world_ok_intros]: "world_okx F w \<Longrightarrow> world_okx F (snd (HealthCheck e lit i w))"
  unfolding HealthCheck_def
  by (simp add: Let_def case_prod_beta world_ok_upd_core) (auto intro!: world_ok_intros)

lemma world_ok_CheckSendStatus [world_ok_intros]: "world_okx F w \<Longrightarrow> world_okx F (CheckSendStatus i w)"
  by (auto simp: CheckSendStatus_def intro!: world_ok_intros)

lemma world_ok_RequestSlice [world_ok_intros]:
  assumes ok: "world_okx F w" and s: "is_success w i"
  shows "world_okx F (snd (RequestSlice e idx off len i w))"
proof -
  obtain r a q where R: "Requeue (e_mem e) (w_slices w) (pr_request_q (peer w i)) idx off len = (r, a, q)"
    by (metis prod_cases3)
  let ?v = "(upd_peer i (\<lambda>p. p\<lparr>pr_request_q := q\<rparr>) w)\<lparr>w_slices := a\<rparr>"
  have "rq_inv a q" "w_slices w < a" using Requeue_ok[OF world_okD(4)[OF ok] R] by simp_all
  then have v: "world_okx F ?v"
    using addrs_Requeue[OF R] s world_okD(1)[OF ok, of i] rq_inv_mono[OF world_okD(5)[OF ok, of i]]
    by (intro world_ok_upd[OF ok]) (auto simp: peer_ok_def)
  have sent: "world_okx F (upd_peer i (\<lambda>p. p\<lparr>pr_request_q := Sent_req (pr_request_q p) 0 idx off len,
       pr_req_out := k, pr_receive_time := t\<rparr>) u)" if u: "world_okx F u" "is_success u i" for u t and k :: u32
    by (rule world_ok_upd_same[OF u(1)])
      (use world_okD(1)[OF u(1), of i] u(2) in \<open>simp_all add: peer_ok_def Sent_req_ok\<close>)
  have st: "is_success (snd (on_stream i f ?v)) i" for f using s by (simp add: on_stream_def case_prod_beta)
  have W: "world_okx F (snd (on_stream i (Send_Request mem idx off len) ?v))" for mem
    by (rule world_ok_send(4)[OF v])
  have "world_okx F (upd_peer i (\<lambda>p. p\<lparr>pr_request_q := Sent_req (pr_request_q p) 0 idx off len,
       pr_req_out := pr_req_out p + 1, pr_receive_time := t\<rparr>) u)" if u: "world_okx F u" "is_success u i" for u t
    using sent[OF u, where k = "pr_req_out (peer u i) + 1" and t = t] by (simp add: upd_peer_def)
  then show ?thesis using v W st by (simp add: RequestSlice_def R case_prod_beta Let_def)
qed

section \<open>Operations over all peers\<close>

lemma world_ok_abandon_loop [world_ok_intros]: "world_okx F w \<Longrightarrow> world_okx F (snd (abandon_loop proposer is best w))"
proof (induction "is" arbitrary: best w)
  case (Cons i "is")
  then show ?case
    by (auto simp: Let_def case_prod_beta split: option.split intro!: Cons.IH world_ok_timers)
qed simp

lemma world_ok_Who_Can_Abandon [world_ok_intros]: "world_okx F w \<Longrightarrow> world_okx F (snd (Who_Can_Abandon i w))"
  by (simp add: Who_Can_Abandon_def world_ok_abandon_loop)

lemma world_ok_What_Can_Duplicate [world_ok_intros]:
  "world_okx F w \<Longrightarrow> world_okx F (snd (What_Can_Duplicate e bf i idx w))"
  by (simp add: What_Can_Duplicate_def Let_def split: option.split)

lemma world_ok_Endgame [world_ok_intros]: "world_okx F w \<Longrightarrow> world_okx F (snd (Endgame w))"
  by (simp add: Endgame_def Let_def world_ok_UnStandby world_ok_RecalcDupReqs)

lemma world_ok_CompareRequest [world_ok_intros]: "world_okx F w \<Longrightarrow> world_okx F (CompareRequest proposer idx w)"
proof -
  have "world_okx F v \<Longrightarrow> world_okx F (snd (compare_step proposer idx i (ol, v)))" for i ol v
    by (cases ol) (auto simp: compare_step_def Let_def split: option.split intro!: world_ok_shrink)
  note fold = world_ok_fold_snd[of F "compare_step proposer idx", OF this]
  show "world_okx F w \<Longrightarrow> ?thesis"
    by (auto simp: CompareRequest_def split: option.split intro!: fold)
qed

lemma world_ok_cancel_fold:
  assumes "\<And>i w. world_okx F w \<Longrightarrow> world_okx F (snd (f i w))" "world_okx F w"
  shows "world_okx F (snd (fold (cancel_step e f) is (r, w)))"
proof -
  have "world_okx F v \<Longrightarrow> world_okx F (snd (cancel_step e f i (r, v)))" for i r v
    using assms(1) by (auto simp: cancel_step_def Let_def case_prod_beta intro!: world_ok_CloseConnection)
  from world_ok_fold_snd[of F "cancel_step e f", OF this] assms(2) show ?thesis by simp
qed

lemma world_ok_cancels [world_ok_intros]:
  "world_okx F w \<Longrightarrow> world_okx F (snd (CancelSlice_w e idx off len w))"
  "world_okx F w \<Longrightarrow> world_okx F (snd (CancelPiece_w e idx w))"
  by (auto simp: CancelSlice_w_def CancelPiece_w_def intro!: world_ok_cancel_fold world_ok_CancelSliceRequest world_ok_CancelPiece)

lemma world_ok_pending_Delete [world_ok_intros]:
  assumes "world_okx F w"
  shows "world_okx F (w\<lparr>w_pending := snd (Delete (w_pending w) idx)\<rparr>)"
  using assms addrs_Delete[of "w_pending w" idx]
  by (auto simp: world_okx_def no_failed_def Delete_ok queues_disjoint_addrs) blast

lemma world_ok_CancelOneRequest [world_ok_intros]:
  assumes ok: "world_okx F w"
  shows "world_okx F (CancelOneRequest e idx w)"
proof -
  let ?p = "HasPiece (w_pending w) idx"
  have "world_okx F v \<Longrightarrow> world_okx F (snd (one_request_step ?p idx i (st, v)))" for i st v
    by (cases st) (auto simp: one_request_step_def Let_def case_prod_beta split: option.split intro!: world_ok_timers)
  note fold = world_ok_fold_snd[of F "one_request_step ?p idx", OF this]
  obtain best mx dup v where f: "fold (one_request_step ?p idx) (w_head w) ((None, 0, if ?p then 1 else 0), w) = ((best, mx, dup), v)"
    by (metis prod_cases3 surj_pair)
  have "world_okx F v" using fold[of "((None, 0, if ?p then 1 else 0), w)" "w_head w"] ok f by simp
  then show ?thesis unfolding CancelOneRequest_def Let_def f prod.case
    by (auto simp: case_prod_beta split: option.split
        intro!: world_ok_pending_Delete world_ok_CloseConnection world_ok_CancelPiece)
qed

lemma world_ok_Tell [world_ok_intros]:
  assumes ok: "world_okx F w"
  shows "world_okx F (Tell_World_I_Have e idx w)"
proof -
  have "world_okx F v \<Longrightarrow> world_okx F (snd (tell_one e seed idx i (r, v)))" for i r v seed
    by (auto simp: tell_one_def Let_def case_prod_beta intro!: world_ok_CloseConnection world_ok_SetLocal world_ok_send world_ok_SendHaves world_ok_QueueHave)
  from world_ok_fold_snd[of F "tell_one e (Seeding e w) idx", OF this] ok show ?thesis
    by (simp add: Tell_World_I_Have_def)
qed

lemma world_ok_set_or_close [world_ok_intros]: "world_okx F w \<Longrightarrow> world_okx F (set_or_close e s i w)"
  by (auto simp: set_or_close_def Let_def case_prod_beta intro!: world_ok_CloseConnection world_ok_SetLocal)

lemma world_ok_CheckInterest [world_ok_intros]: "world_okx F w \<Longrightarrow> world_okx F (CheckInterest e w)"
  by (auto simp: CheckInterest_def world_ok_upd_core intro!: world_ok_fold world_ok_set_or_close)

lemma world_ok_StopDownload [world_ok_intros]: "world_okx F w \<Longrightarrow> world_okx F (StopDownload e w)"
  by (auto simp: StopDownload_def case_prod_beta Let_def
      intro!: world_ok_fold world_ok_CloseConnection world_ok_SetLocal world_ok_PutPending)

lemma world_ok_Pause [world_ok_intros]: "world_okx F w \<Longrightarrow> world_okx F (Pause e w)"
  by (auto simp: Pause_def Let_def intro!: world_ok_fold world_ok_set_or_close world_ok_StopDownload)

lemma world_ok_Resume [world_ok_intros]: "world_okx F w \<Longrightarrow> world_okx F (Resume e w)"
  by (auto simp: Resume_def intro!: world_ok_CheckInterest)

lemma world_ok_in_buffer:
  assumes "world_okx F w"
  shows "world_okx F (upd_peer i (\<lambda>p. p\<lparr>pr_stream := (pr_stream p)\<lparr>in_buffer := b p\<rparr>\<rparr>) w)"
  by (rule world_ok_upd_same[OF assms])
    (use world_okD(1)[OF assms, of i] in \<open>simp_all add: peer_ok_def st_out_ok_def\<close>)

lemma world_ok_CloseAll [world_ok_intros]: "world_okx F w \<Longrightarrow> world_okx F (CloseAllConnectionToSeed e w)"
  by (auto simp: CloseAllConnectionToSeed_def Let_def world_ok_upd_core
      intro!: world_ok_fold world_ok_CloseConnection world_ok_in_buffer)

lemma world_ok_UnchokeIfFree [world_ok_intros]: "world_okx F w \<Longrightarrow> world_okx F (UnchokeIfFree e i w)"
  by (simp add: UnchokeIfFree_def world_ok_set_or_close)

section \<open>Properties\<close>

lemma StopTimer_status [simp]: "pr_status (peer (StopDLTimer e i w) j) = pr_status (peer w j)"
  "pr_status (peer (StopULTimer e i w) j) = pr_status (peer w j)"
  by (simp_all add: StopDLTimer_def StopULTimer_def)

lemma UnStandby_status [simp]: "pr_status (peer (UnStandby w) i) = pr_status (peer w i)"
proof -
  have "pr_status (peer (fold (\<lambda>i w. if is_success w i then upd_peer i (\<lambda>p. p\<lparr>pr_standby := False\<rparr>) w else w) is w) i)
    = pr_status (peer w i)" for "is"
    by (induction "is" arbitrary: w) simp_all
  then show ?thesis by (simp add: UnStandby_def)
qed

lemma PutPending_status [simp]: "pr_status (peer (PutPending e i w) j) = pr_status (peer w j)"
  by (simp add: PutPending_def Let_def case_prod_beta)

lemma DontWait_peers [simp]: "w_peers (DontWaitDL i w) = w_peers w" "w_peers (DontWaitUL i w) = w_peers w"
  by (simp_all add: DontWaitDL_def DontWaitUL_def)

lemma CloseConnection_failed: "is_failed (CloseConnection e i w) i"
  by (simp add: CloseConnection_def)


text \<open>The steps the main loop and the message handlers take on the peers.\<close>

datatype client_step =
  Step_CancelPiece u32 nat | Step_CancelRequest nat | Step_CancelSlice u32 u32 u32 | Step_CancelPieces u32
| Step_CancelOne u32 | Step_RequestSlice u32 u32 u32 nat | Step_PutPending nat | Step_Close nat
| Step_SetLocal u8 nat | Step_SendHaves nat | Step_QueueHave u32 nat | Step_Health bytes nat
| Step_Tell u32 | Step_Abandon nat | Step_Duplicate bitfield nat u32 | Step_Compare nat u32
| Step_Endgame | Step_CheckInterest | Step_Pause | Step_Resume | Step_CloseSeeds | Step_Unchoke nat

fun peer_step :: "env \<Rightarrow> client_step \<Rightarrow> world \<Rightarrow> world" where
  "peer_step e (Step_CancelPiece idx i) w = snd (CancelPiece e idx i w)"
| "peer_step e (Step_CancelRequest i) w = snd (CancelRequest e i w)"
| "peer_step e (Step_CancelSlice idx off len) w = snd (CancelSlice_w e idx off len w)"
| "peer_step e (Step_CancelPieces idx) w = snd (CancelPiece_w e idx w)"
| "peer_step e (Step_CancelOne idx) w = CancelOneRequest e idx w"
| "peer_step e (Step_RequestSlice idx off len i) w = (if is_success w i then snd (RequestSlice e idx off len i w) else w)"
| "peer_step e (Step_PutPending i) w = PutPending e i w"
| "peer_step e (Step_Close i) w = CloseConnection e i w"
| "peer_step e (Step_SetLocal s i) w = snd (SetLocal e s i w)"
| "peer_step e (Step_SendHaves i) w = snd (SendHaves e i w)"
| "peer_step e (Step_QueueHave idx i) w = snd (QueueHave e idx i w)"
| "peer_step e (Step_Health lit i) w = snd (HealthCheck e lit i w)"
| "peer_step e (Step_Tell idx) w = Tell_World_I_Have e idx w"
| "peer_step e (Step_Abandon i) w = snd (Who_Can_Abandon i w)"
| "peer_step e (Step_Duplicate bf i idx) w = snd (What_Can_Duplicate e bf i idx w)"
| "peer_step e (Step_Compare i idx) w = CompareRequest i idx w"
| "peer_step e Step_Endgame w = snd (Endgame w)"
| "peer_step e Step_CheckInterest w = CheckInterest e w"
| "peer_step e Step_Pause w = Pause e w"
| "peer_step e Step_Resume w = Resume e w"
| "peer_step e Step_CloseSeeds w = CloseAllConnectionToSeed e w"
| "peer_step e (Step_Unchoke i) w = UnchokeIfFree e i w"

lemma world_ok_peer_step: "world_okx F w \<Longrightarrow> world_okx F (peer_step e s w)"
  by (cases s) (simp_all add: world_ok_intros)

lemma world_ok_steps: "world_okx F w \<Longrightarrow> world_okx F (fold (peer_step e) ss w)"
  by (induction ss arbitrary: w) (simp_all add: world_ok_peer_step)


text \<open>Peer 1 has a request out for piece 1, and one for piece 2 in its queue.\<close>

definition ex_requests :: rqueue where
  "ex_requests = \<lparr>rq_head =
     [\<lparr>p_count = 1, p_slices = [\<lparr>sl_addr = 0, sl_index = 1, sl_offset = 0, sl_length = 16384, sl_reqtime = 110, sl_sent = True\<rparr>]\<rparr>,
      \<lparr>p_count = 1, p_slices = [\<lparr>sl_addr = 2, sl_index = 2, sl_offset = 16384, sl_length = 16384, sl_reqtime = 0, sl_sent = False\<rparr>]\<rparr>],
     m_peek = None, rq_send = Some 2\<rparr>"

definition ex_busy :: world where
  "ex_busy = (upd_peer 1 (\<lambda>p. p\<lparr>pr_request_q := ex_requests, pr_req_out := 1\<rparr>) ex_world)\<lparr>w_slices := 4\<rparr>"

lemma ex_fields_ok: "bf_inv 4 (Set 4 3 (Set 4 1 (bf_new 4)))" "bf_inv 4 (Set 4 0 (bf_new 4))"
  "bf_inv 4 (SetAll 4 (bf_new 4))" "bf_inv 4 (bf_new 4)"
  by (simp_all add: Set_ok new_ok SetAll_ok)

lemma ex_geo_ok: "geo_ok \<lparr>g_npieces = 4, g_piece_length = 32768, g_total = 100000\<rparr>"
  by code_simp

lemma ex_stream_ok: "st_out_ok (ex_stream\<lparr>out_buffer := ex_out\<rparr>)"
  by code_simp

lemma ex_queues_ok: "rq_inv 0 rq_new" "rq_inv 4 rq_new" "rq_inv 4 ex_requests" "rq_head rq_new = []" "rq_head ex_requests \<noteq> []"
  by (simp_all add: rq_inv_def rq_new_def head_ok_def all_slices_def ex_requests_def piece_ok_def)

lemma ex_world_ok: "world_ok ex_world"
proof -
  have "peer_ok False 4 0 ex_peer" 
    using ex_fields_ok(1) ex_stream_ok ex_queues_ok by (simp add: peer_ok_def ex_peer_def)
  moreover have "content_ok ex_content"
    using ex_fields_ok ex_geo_ok by (simp add: content_ok_def ex_content_def ex_geo_def files_ok_def)
  ultimately show ?thesis using ex_queues_ok
    by (simp add: world_okx_def ex_world_def queues_disjoint_addrs no_failed_def ex_content_def ex_geo_def)
      (simp add: ex_peer_def)
qed

lemma ex_busy_ok: "world_ok ex_busy"
  unfolding ex_busy_def
proof (rule world_ok_upd[OF ex_world_ok])
  have "peer_ok False 4 4 (ex_peer\<lparr>pr_request_q := ex_requests, pr_req_out := 1\<rparr>)"
    using ex_fields_ok(1) ex_stream_ok ex_queues_ok by (simp add: peer_ok_def ex_peer_def)
  then show "peer_ok (1 \<in> {}) (npieces ex_world) 4 ((\<lambda>p. p\<lparr>pr_request_q := ex_requests, pr_req_out := 1\<rparr>) (peer ex_world 1))"
    by (simp add: ex_world_def ex_content_def ex_geo_def)
qed (simp_all add: ex_world_def)


end
