(* ===== verification/Disk_Ok.thy ===== *)
theory Disk_Ok
  imports Disk
begin

text \<open>
  What the files hold, as one space of bytes: \<open>byte_at st x\<close> is the byte a reader finds at offset \<open>x\<close> of the
  torrent.  Writing changes exactly the bytes written, reading delivers them, and merging changes none.
\<close>

section \<open>The layout\<close>

text \<open>What matters of a node: its place, and as many bytes of the file as \<^verbatim>\<open>bf_size\<close> says.\<close>

record extent =
  x_id :: nat
  x_off :: nat
  x_len :: nat
  x_stg :: bool
  x_bytes :: bytes

definition extent_of :: "btfile \<Rightarrow> extent" where
  "extent_of f = \<lparr>x_id = bf_id f, x_off = unat (bf_offset f), x_len = unat (bf_length f), x_stg = bf_staging f,
     x_bytes = take (unat (bf_size f)) (bf_data f)\<rparr>"

abbreviation x_end :: "extent \<Rightarrow> nat" where
  "x_end f \<equiv> x_off f + length (x_bytes f)"

definition layout :: "btfiles \<Rightarrow> extent list" where
  "layout st = map extent_of (m_btfhead st)"

text \<open>
  The real files follow each other without gaps; the staging files of one lie behind it in the list, inside
  its range, in order and disjoint.  The state is where the next staging file may begin and where the file
  ends.
\<close>

fun chain :: "nat \<times> nat \<Rightarrow> extent list \<Rightarrow> (nat \<times> nat) option" where
  "chain p [] = Some p"
| "chain (lo, e) (f # fs) =
     (if x_stg f then (if lo \<le> x_off f \<and> x_end f \<le> e then chain (x_end f, e) fs else None)
      else if x_off f = e \<and> length (x_bytes f) \<le> x_len f then chain (x_off f, x_off f + x_len f) fs else None)"

definition layout_ok :: "nat \<Rightarrow> extent list \<Rightarrow> bool" where
  "layout_ok t fs \<longleftrightarrow> fs \<noteq> [] \<and> \<not> x_stg (hd fs) \<and> map_option snd (chain (0, 0) fs) = Some t \<and> distinct (map x_id fs)"

definition sizes_ok :: "btfile list \<Rightarrow> bool" where
  "sizes_ok fs \<longleftrightarrow> (\<forall>f\<in>set fs. unat (bf_size f) \<le> length (bf_data f))"

definition disk_ok :: "btfiles \<Rightarrow> bool" where
  "disk_ok st \<longleftrightarrow> layout_ok (unat (m_total_files_length st)) (layout st) \<and> sizes_ok (m_btfhead st) \<and>
     (\<forall>f\<in>set (m_btfhead st). bf_id f < bs_next_id st)"

fun byte_in :: "extent list \<Rightarrow> nat \<Rightarrow> u8 option" where
  "byte_in [] x = None"
| "byte_in (f # fs) x = (if x_off f \<le> x \<and> x < x_end f then Some (x_bytes f ! (x - x_off f)) else byte_in fs x)"

definition byte_at :: "btfiles \<Rightarrow> nat \<Rightarrow> u8 option" where
  "byte_at st x = byte_in (layout st) x"

lemma chain_append: "chain p (xs @ ys) = Option.bind (chain p xs) (\<lambda>p. chain p ys)"
  by (induction p xs rule: chain.induct) auto

lemma chain_bounds:
  "chain (lo, e) fs = Some (lo', e') \<Longrightarrow> lo \<le> e \<Longrightarrow>
     lo' \<le> e' \<and> e \<le> e' \<and> (\<forall>g\<in>set fs. lo \<le> x_off g \<and> x_end g \<le> e')"
proof (induction fs arbitrary: lo e)
  case (Cons f fs)
  show ?case
  proof (cases "x_stg f")
    case True
    then have c: "lo \<le> x_off f" "x_end f \<le> e" "chain (x_end f, e) fs = Some (lo', e')"
      using Cons.prems(1) by (auto split: if_splits)
    from Cons.IH[OF c(3,2)] show ?thesis using c Cons.prems(2) by fastforce
  next
    case False
    then have c: "x_off f = e" "length (x_bytes f) \<le> x_len f" "chain (x_off f, x_off f + x_len f) fs = Some (lo', e')"
      using Cons.prems(1) by (auto split: if_splits)
    from Cons.IH[OF c(3)] show ?thesis using c Cons.prems(2) by fastforce
  qed
qed simp

lemma byte_in_append:
  "byte_in (xs @ ys) x = (case byte_in xs x of None \<Rightarrow> byte_in ys x | Some b \<Rightarrow> Some b)"
  by (induction xs) auto

lemma byte_in_ended: "\<forall>g\<in>set fs. x_end g \<le> x \<Longrightarrow> byte_in fs x = None"
  by (induction fs) auto

lemma byte_in_before: "\<forall>g\<in>set fs. x < x_off g \<Longrightarrow> byte_in fs x = None"
  by (induction fs) auto

section \<open>Concrete nodes\<close>

lemma layout_split:
  assumes "layout st = pre @ f # post"
  obtains cpre c cpost where "m_btfhead st = cpre @ c # cpost" "map extent_of cpre = pre" "extent_of c = f"
    "map extent_of cpost = post"
  using assms unfolding layout_def by (auto simp: map_eq_append_conv map_eq_Cons_conv)

lemma layout_ids: "map x_id (layout st) = map bf_id (m_btfhead st)"
  by (simp add: layout_def extent_of_def)

lemma node_at:
  assumes "m_btfhead st = cpre @ c # cpost" and "distinct (map bf_id (m_btfhead st))"
  shows "node (bf_id c) st = Some c" and "behind (bf_id c) st = cpost"
    and "m_btfhead (upd_node (bf_id c) g st) = cpre @ g c # cpost"
proof -
  have n: "\<forall>x\<in>set cpre. bf_id x \<noteq> bf_id c" "\<forall>x\<in>set cpost. bf_id x \<noteq> bf_id c" using assms by (auto simp: notin_image_iff)
  have "find (\<lambda>f. bf_id f = bf_id c) cpre = None" using n(1) by (induction cpre) auto
  then show "node (bf_id c) st = Some c" by (simp add: node_def assms(1) find_append)
  have "dropWhile (\<lambda>f. bf_id f \<noteq> bf_id c) (cpre @ c # cpost) = c # cpost"
    using n(1) by (subst dropWhile_append2) auto
  then show "behind (bf_id c) st = cpost" by (simp add: behind_def assms(1))
  have "map (\<lambda>f. if bf_id f = bf_id c then g f else f) xs = xs" if "\<forall>x\<in>set xs. bf_id x \<noteq> bf_id c" for xs
    using that by (induction xs) auto
  then show "m_btfhead (upd_node (bf_id c) g st) = cpre @ g c # cpost"
    using n by (simp add: upd_node_def assms(1))
qed

lemma insert_after_at:
  assumes "\<forall>x\<in>set cpre. bf_id x \<noteq> bf_id c"
  shows "insert_after (bf_id c) g (cpre @ c # cpost) = cpre @ c # g # cpost"
  using assms by (induction cpre) auto

lemma remove_after_at:
  assumes "\<forall>x\<in>set cpre. bf_id x \<noteq> bf_id c"
  shows "remove_after (bf_id c) (cpre @ c # cpost) = cpre @ c # tl cpost"
  using assms by (induction cpre) auto

section \<open>What changes no byte\<close>

text \<open>Opening, closing and time stamps leave the layout alone.\<close>

definition keeps :: "btfiles \<Rightarrow> btfiles \<Rightarrow> bool" where
  "keeps st st' \<longleftrightarrow> layout st' = layout st \<and> m_total_files_length st' = m_total_files_length st \<and>
     bs_next_id st' = bs_next_id st \<and> (sizes_ok (m_btfhead st) \<longrightarrow> sizes_ok (m_btfhead st'))"

named_theorems keeps_intros

lemma keeps_refl [simp, keeps_intros]: "keeps st st"
  by (simp add: keeps_def)

lemma keeps_trans: "keeps a b \<Longrightarrow> keeps b c \<Longrightarrow> keeps a c"
  by (simp add: keeps_def)

lemma keeps_disk_ok: "keeps st st' \<Longrightarrow> disk_ok st \<Longrightarrow> disk_ok st'"
proof -
  assume k: "keeps st st'" and d: "disk_ok st"
  have "set (map bf_id (m_btfhead st')) = set (map bf_id (m_btfhead st))"
    using k by (metis keeps_def layout_ids)
  then have "(\<forall>f\<in>set (m_btfhead st'). bf_id f < bs_next_id st') \<longleftrightarrow> (\<forall>f\<in>set (m_btfhead st). bf_id f < bs_next_id st)"
    using k unfolding keeps_def set_map by (metis (no_types, lifting) imageE imageI)
  then show "disk_ok st'" using k d by (simp add: disk_ok_def keeps_def)
qed

lemma keeps_bytes: "keeps st st' \<Longrightarrow> byte_at st' = byte_at st"
  by (auto simp: keeps_def byte_at_def)

lemma keeps_calls [simp]: "keeps st (calls st)"
  by (simp add: keeps_def calls_def DiskAccess_def layout_def)

lemma keeps_access [simp]: "keeps st (DiskAccess st)"
  by (simp add: keeps_def DiskAccess_def layout_def)

lemma keeps_upd:
  assumes "\<And>f. f \<in> set (m_btfhead st) \<Longrightarrow> bf_id f = i \<Longrightarrow> extent_of (g f) = extent_of f \<and>
    (unat (bf_size f) \<le> length (bf_data f) \<longrightarrow> unat (bf_size (g f)) \<le> length (bf_data (g f)))"
  shows "keeps st (upd_node i g st)"
proof -
  have "layout (upd_node i g st) = layout st" using assms by (auto simp: layout_def upd_node_def)
  moreover have "sizes_ok (m_btfhead st) \<longrightarrow> sizes_ok (m_btfhead (upd_node i g st))"
    using assms by (auto simp: sizes_ok_def upd_node_def)
  ultimately show ?thesis by (simp add: keeps_def upd_node_def)
qed

lemma keeps_more [simp]:
  "keeps st (st\<lparr>m_total_opened := a\<rparr>)" "keeps st (st\<lparr>m_need_merge := b\<rparr>)" "keeps st (st\<lparr>m_write_failed := b\<rparr>)"
  "keeps st (st\<lparr>m_stagedir := d\<rparr>)" "keeps st (st\<lparr>m_stagedir := d, m_stagecount := c\<rparr>)"
  "keeps st (st\<lparr>m_write_failed := b, m_write_tried := t\<rparr>)"
  by (simp_all add: keeps_def layout_def)

lemma keeps_stamp [simp]:
  "keeps st (upd_node i (\<lambda>f. f\<lparr>bf_last_timestamp := t\<rparr>) st)" "keeps st (upd_node i (\<lambda>f. f\<lparr>bf_opened := b\<rparr>) st)"
  by (rule keeps_upd, simp add: extent_of_def)+

lemma keeps_close [simp]: "keeps st (btf_close i st)"
proof (cases "node i st")
  case (Some f)
  have "keeps st ((upd_node i (\<lambda>f. f\<lparr>bf_opened := False\<rparr>) st)\<lparr>m_total_opened := m_total_opened st - 1\<rparr>)"
    by (rule keeps_trans[OF keeps_stamp(2) keeps_more(1)])
  then show ?thesis unfolding btf_close_def Some option.case by (cases "bf_opened f") simp_all
qed (simp add: btf_close_def)

lemma keeps_close_oldest [simp]: "keeps st (snd (btf_close_oldest st))"
  by (simp add: btf_close_oldest_def split: option.splits)

lemma node_sel: "node i st = Some f \<Longrightarrow> f \<in> set (m_btfhead st) \<and> bf_id f = i"
  unfolding node_def by (auto simp: find_Some_iff)

lemma node_layout: "node i st = None \<longleftrightarrow> i \<notin> x_id ` set (layout st)"
proof -
  have "x_id ` set (layout st) = bf_id ` set (m_btfhead st)" using arg_cong[where f = set, OF layout_ids[of st]] by simp
  then show ?thesis by (auto simp: node_def find_None_iff)
qed

lemma keeps_node: "keeps st st' \<Longrightarrow> node i st' = None \<longleftrightarrow> node i st = None"
  by (simp add: node_layout keeps_def)

lemma keeps_fopen:
  assumes "fopen i iotype trunc st = Some st'"
    and "\<And>f. f \<in> set (m_btfhead st) \<Longrightarrow> bf_id f = i \<Longrightarrow> trunc \<Longrightarrow> bf_size f = 0"
  shows "keeps st st'"
proof -
  let ?g = "\<lambda>f. f\<lparr>bf_opened := True, bf_readonly := \<not> iotype, bf_data := (if trunc then [] else bf_data f)\<rparr>"
  have "keeps st (upd_node i ?g st)"
    by (rule keeps_upd) (use assms(2) in \<open>auto simp: extent_of_def\<close>)
  moreover have "st' = (upd_node i ?g st)\<lparr>m_total_opened := m_total_opened st + 1\<rparr>"
    using assms(1) by (auto simp: fopen_def split: option.splits)
  ultimately show ?thesis by (simp only: keeps_trans[OF _ keeps_more(1)])
qed

text \<open>The size of a node is part of the layout.\<close>

lemma keeps_size:
  assumes "keeps st st'" and "sizes_ok (m_btfhead st)" and "f' \<in> set (m_btfhead st')"
  obtains f where "f \<in> set (m_btfhead st)" "bf_id f = bf_id f'" "bf_size f = bf_size f'"
proof -
  have s: "sizes_ok (m_btfhead st')" using assms(1,2) by (simp add: keeps_def)
  have "extent_of f' \<in> extent_of ` set (m_btfhead st)"
    using assms(1,3) unfolding keeps_def layout_def by (metis image_eqI set_map)
  then obtain f where f: "f \<in> set (m_btfhead st)" "extent_of f' = extent_of f" by auto
  then have "bf_id f = bf_id f'" by (simp add: extent_of_def)
  moreover have "unat (bf_size f) = unat (bf_size f')"
    using f s assms(2,3) unfolding sizes_ok_def extent_of_def by (auto dest!: arg_cong[where f = length])
  ultimately show ?thesis using that f(1) by (simp add: word_unat_eq_iff)
qed

lemma extent_sel [simp]:
  "x_id (extent_of f) = bf_id f" "x_off (extent_of f) = unat (bf_offset f)" "x_len (extent_of f) = unat (bf_length f)"
  "x_stg (extent_of f) = bf_staging f"
  by (simp_all add: extent_of_def)

section \<open>Opening a file\<close>

lemma node_extent: "map_option extent_of (node i st) = find (\<lambda>x. x_id x = i) (layout st)"
proof -
  have "map_option extent_of (find (\<lambda>f. bf_id f = i) fs) = find (\<lambda>x. x_id x = i) (map extent_of fs)" for fs
    by (induction fs) (auto simp: extent_of_def)
  then show ?thesis by (simp add: node_def layout_def)
qed

lemma keeps_node_extent:
  assumes "keeps st st'" and "node i st = Some f"
  obtains f' where "node i st' = Some f'" "extent_of f' = extent_of f"
proof -
  have "map_option extent_of (node i st') = Some (extent_of f)"
    using node_extent[of i st] node_extent[of i st'] assms by (simp add: keeps_def)
  then show ?thesis using that by (cases "node i st'") auto
qed

lemma node_unique:
  assumes "distinct (map bf_id (m_btfhead st))" and "f \<in> set (m_btfhead st)"
  shows "node (bf_id f) st = Some f"
  using assms node_at(1) by (metis in_set_conv_decomp)

lemma disk_ok_distinct: "disk_ok st \<Longrightarrow> distinct (map bf_id (m_btfhead st))"
  using layout_ids[of st] by (simp add: disk_ok_def layout_ok_def)

lemma disk_ok_sizes: "disk_ok st \<Longrightarrow> sizes_ok (m_btfhead st)"
  by (simp add: disk_ok_def)

lemma extent_size:
  assumes "sizes_ok fs" and "f \<in> set fs"
  shows "length (x_bytes (extent_of f)) = unat (bf_size f)"
  using assms by (simp add: sizes_ok_def extent_of_def)

lemma btf_open_keeps:
  assumes "\<forall>k. os_open os k \<noteq> NoSpace" and "node i st \<noteq> None" and "disk_ok st" and "fuel \<noteq> 0"
  shows "\<exists>b st'. btf_open fuel os now i iotype st = Some (b, st') \<and> keeps st st'"
proof -
  obtain n where fuel: "fuel = Suc n" using assms(4) not0_implies_Suc by blast
  obtain f where f: "node i st = Some f" using assms(2) by blast
  define trunc where "trunc \<longleftrightarrow> iotype \<and> bf_size f = 0"
  have fo: "\<exists>st'. fopen i iotype trunc s = Some st' \<and> keeps st st'" if k: "keeps st s" for s
  proof -
    obtain f' where f': "node i s = Some f'" "extent_of f' = extent_of f" using keeps_node_extent[OF k f] .
    then obtain s' where s': "fopen i iotype trunc s = Some s'" by (auto simp: fopen_def)
    have d: "disk_ok s" using keeps_disk_ok[OF k assms(3)] .
    have "bf_size g = 0" if g: "g \<in> set (m_btfhead s)" "bf_id g = i" "trunc" for g
    proof -
      have "g = f'" using node_unique[OF disk_ok_distinct[OF d] g(1)] g(2) f'(1) by simp
      then have "unat (bf_size g) = unat (bf_size f)"
        using extent_size[OF disk_ok_sizes[OF d] g(1)] extent_size[OF disk_ok_sizes[OF assms(3)], of f] node_sel[OF f] f'(2)
        by simp
      then show ?thesis using g(3) by (simp add: trunc_def word_unat_eq_iff)
    qed
    from keeps_fopen[OF s' this] s' keeps_trans[OF k] show ?thesis by blast
  qed
  define s1 where "s1 = (if bf_opened f then btf_close i st else st)"
  define r where "r = (if m_automanage s1 \<and> MAX_OPEN_FILES \<le> m_total_opened s1 then btf_close_oldest s1 else (True, s1))"
  define s3 where "s3 = upd_node i (\<lambda>f. f\<lparr>bf_last_timestamp := now + 1\<rparr>) (calls (snd r))"
  define s4 where "s4 = calls (snd (btf_close_oldest s3))"
  have k1: "keeps st s1" by (simp add: s1_def)
  have k2: "keeps st (snd r)" using k1 keeps_trans[OF k1 keeps_close_oldest] by (simp add: r_def)
  have k2': "keeps st (calls (snd r))" by (rule keeps_trans[OF k2 keeps_calls])
  have k3: "keeps st s3" unfolding s3_def by (rule keeps_trans[OF k2' keeps_stamp(1)])
  have k4: "keeps st s4" unfolding s4_def
    by (rule keeps_trans[OF k3 keeps_trans[OF keeps_close_oldest keeps_calls]])
  let ?k = "bs_calls (snd r)" and ?k4 = "bs_calls (snd (btf_close_oldest s3))"
  obtain a b where a: "fopen i iotype trunc s3 = Some a" "keeps st a" and b: "fopen i iotype trunc s4 = Some b" "keeps st b"
    using fo[OF k3] fo[OF k4] by blast
  note U = fuel btf_open.simps f option.case Let_def s1_def[symmetric] r_def[symmetric] case_prod_beta s3_def[symmetric]
    s4_def[symmetric] trunc_def[symmetric]
  show ?thesis
  proof (cases "bf_opened f \<and> \<not> (bf_readonly f \<and> iotype)")
    case True
    show ?thesis unfolding U if_P[OF True] by (rule exI[of _ True], rule exI[of _ st]) simp
  next
    case F1: False
    show ?thesis
    proof (cases "fst r")
      case False
      then show ?thesis unfolding U if_not_P[OF F1] using k2 by (intro exI[of _ False] exI[of _ "snd r"]) simp
    next
      case r: True
      then have r': "\<not> \<not> fst r" by simp
      show ?thesis
      proof (cases "iotype \<and> \<not> os_path os ?k")
        case True
        show ?thesis unfolding U if_not_P[OF F1] if_not_P[OF r'] if_P[OF True] using k2' by blast
      next
        case F2: False
        show ?thesis unfolding U if_not_P[OF F1] if_not_P[OF r'] if_not_P[OF F2]
          using a b k3 k4 assms(1) by (cases "os_open os ?k") auto
      qed
    qed
  qed
qed

section \<open>Offsets do not wrap\<close>

lemma chain_len: "chain p fs = Some (lo', t) \<Longrightarrow> fst p \<le> snd p \<Longrightarrow> f \<in> set fs \<Longrightarrow> \<not> x_stg f \<Longrightarrow> x_off f + x_len f \<le> t"
proof (induction p fs rule: chain.induct)
  case (2 lo e g gs)
  show ?case
  proof (cases "x_stg g")
    case True
    then have c: "chain (x_end g, e) gs = Some (lo', t)" "x_end g \<le> e" using 2(3) by (auto split: if_splits)
    moreover have "f \<in> set gs" using 2(5,6) True by auto
    ultimately show ?thesis using 2(1)[OF True] 2(3,6) True by (auto split: if_splits)
  next
    case False
    then have c: "x_off g = e" "length (x_bytes g) \<le> x_len g" "chain (x_off g, x_off g + x_len g) gs = Some (lo', t)"
      using 2(3) by (auto split: if_splits)
    then have "x_off g + x_len g \<le> t" using chain_bounds[of "x_off g" "x_off g + x_len g" gs lo' t] by simp
    then show ?thesis using 2(2)[OF False] c 2(5,6) by auto
  qed
qed simp

lemma u64_add: "unat (x :: u64) + unat y < 18446744073709551616 \<Longrightarrow> unat (x + y) = unat x + unat y"
  by (simp add: unat_word_ariths)

text \<open>The numbers of a concrete node of a list whose extents form a chain.\<close>

lemma extent_words:
  assumes "chain (lo, e) (map extent_of fs) = Some (lo', t)" and "lo \<le> e" and "t < 18446744073709551616"
    and "sizes_ok fs" and "f \<in> set fs"
  shows "unat (bf_offset f) = x_off (extent_of f)" and "unat (bf_size f) = length (x_bytes (extent_of f))"
    and "unat (bf_offset f + bf_size f) = x_end (extent_of f)" and "x_end (extent_of f) \<le> t"
    and "\<not> bf_staging f \<Longrightarrow> unat (bf_offset f + bf_length f) = x_off (extent_of f) + x_len (extent_of f)"
proof -
  have m: "extent_of f \<in> set (map extent_of fs)" using assms(5) by simp
  show o: "unat (bf_offset f) = x_off (extent_of f)" by (simp add: extent_of_def)
  show s: "unat (bf_size f) = length (x_bytes (extent_of f))" using extent_size[OF assms(4,5)] by simp
  show e: "x_end (extent_of f) \<le> t" using chain_bounds[OF assms(1,2)] m by blast
  then show "unat (bf_offset f + bf_size f) = x_end (extent_of f)" using o s assms(3) u64_add[of "bf_offset f" "bf_size f"] by linarith
  assume "\<not> bf_staging f"
  then have "x_off (extent_of f) + x_len (extent_of f) \<le> t" using chain_len[OF assms(1) _ m] assms(2) by simp
  then show "unat (bf_offset f + bf_length f) = x_off (extent_of f) + x_len (extent_of f)"
    using assms(3) u64_add[of "bf_offset f" "bf_length f"] by simp
qed

section \<open>Finding the first file\<close>

text \<open>Where the search ends: at the first node that holds the offset, or between two nodes.\<close>

definition hits :: "bool \<Rightarrow> nat \<Rightarrow> extent list \<Rightarrow> nat \<Rightarrow> bool" where
  "hits iotype off fs i \<longleftrightarrow>
     (\<exists>pre f post. fs = pre @ f # post \<and> x_id f = i \<and> x_off f \<le> off \<and> off \<le> x_end f \<and> (\<not> iotype \<longrightarrow> off < x_end f) \<and>
        (\<forall>g\<in>set pre. x_end g \<le> off))"

definition misses :: "nat \<Rightarrow> extent list \<Rightarrow> nat option \<Rightarrow> nat option \<Rightarrow> bool" where
  "misses off fs ref0 ref \<longleftrightarrow>
     (\<exists>pre post. fs = pre @ post \<and> (\<forall>g\<in>set pre. x_end g \<le> off) \<and> (post = [] \<or> off < x_off (hd post)) \<and>
        ref = (if pre = [] then ref0 else Some (x_id (last pre))))"

lemma hits_Cons: "hits iotype off fs i \<Longrightarrow> x_end f \<le> off \<Longrightarrow> hits iotype off (f # fs) i"
  unfolding hits_def by (metis append_Cons set_ConsD)

lemma hits_append: "hits iotype off fs i \<Longrightarrow> \<forall>f\<in>set pre. x_end f \<le> off \<Longrightarrow> hits iotype off (pre @ fs) i"
  by (induction pre) (auto intro: hits_Cons)

lemma misses_Cons: "misses off fs (Some (x_id f)) ref \<Longrightarrow> x_end f \<le> off \<Longrightarrow> misses off (f # fs) ref0 ref"
proof -
  assume m: "misses off fs (Some (x_id f)) ref" and e: "x_end f \<le> off"
  then obtain pre post where p: "fs = pre @ post" "\<forall>g\<in>set pre. x_end g \<le> off" "post = [] \<or> off < x_off (hd post)"
    "ref = (if pre = [] then Some (x_id f) else Some (x_id (last pre)))" unfolding misses_def by blast
  show ?thesis unfolding misses_def by (rule exI[of _ "f # pre"], rule exI[of _ post]) (use p e in auto)
qed

lemma drop_staging:
  assumes "chain (lo, e) fs = Some (lo', t)" and "lo \<le> e"
  shows "\<exists>lo1. lo1 \<le> e \<and> chain (lo1, e) (dropWhile x_stg fs) = Some (lo', t)"
    and "\<forall>g\<in>set (takeWhile x_stg fs). x_end g \<le> e"
  using assms
proof (induction fs arbitrary: lo)
  case (Cons f fs)
  {
    case 1
    show ?case
    proof (cases "x_stg f")
      case True
      then have "chain (x_end f, e) fs = Some (lo', t)" "x_end f \<le> e" using 1(1) by (auto split: if_splits)
      then show ?thesis using Cons.IH(1) True by simp
    next
      case False
      then show ?thesis using 1 by auto
    qed
  next
    case 2
    show ?case
    proof (cases "x_stg f")
      case True
      then have "chain (x_end f, e) fs = Some (lo', t)" "x_end f \<le> e" using 2(1) by (auto split: if_splits)
      then show ?thesis using Cons.IH(2) True by simp
    qed simp
  }
qed auto

lemma dropWhile_extent: "dropWhile x_stg (map extent_of fs) = map extent_of (dropWhile bf_staging fs)"
  by (induction fs) (auto simp: extent_of_def)

lemma io_find_spec:
  assumes "chain (lo, e) (map extent_of fs) = Some (lo', t)" and "lo \<le> e" and "t < 18446744073709551616"
    and "sizes_ok fs" and "unat off < t"
  shows "case io_find iotype off ref fs of (Some i, _) \<Rightarrow> hits iotype (unat off) (map extent_of fs) i
    | (None, r) \<Rightarrow> misses (unat off) (map extent_of fs) ref r"
  using assms
proof (induction iotype off ref fs arbitrary: lo e rule: io_find.induct)
  case (1 iotype off ref)
  then show ?case by (auto simp: misses_def)
next
  case (2 iotype off ref f fs)
  note W = extent_words[OF 2(2-5), of f, simplified]
  let ?x = "extent_of f" and ?o = "unat off"
  have s: "sizes_ok fs" using 2(5) by (simp add: sizes_ok_def)
  show ?case
  proof (cases "bf_offset f \<le> off \<and> (off < bf_offset f + bf_size f \<or>
      iotype \<and> off = bf_offset f + bf_size f \<and> (\<not> bf_staging f \<or> bf_size f < MAX_STAGEFILE_SIZE))")
    case True
    then have "x_off ?x \<le> ?o" "?o \<le> x_end ?x" "\<not> iotype \<longrightarrow> ?o < x_end ?x"
      using W(1,3) by (auto simp: word_le_nat_alt word_less_nat_alt)
    then have "hits iotype ?o (map extent_of (f # fs)) (bf_id f)"
      unfolding hits_def by (intro exI[of _ "[]"] exI[of _ ?x] exI[of _ "map extent_of fs"]) (simp add: extent_of_def)
    then show ?thesis using True by simp
  next
    case F: False
    show ?thesis
    proof (cases "off < bf_offset f")
      case True
      then have "misses ?o (map extent_of (f # fs)) ref ref"
        unfolding misses_def by (intro exI[of _ "[]"] exI[of _ "map extent_of (f # fs)"]) (use W(1) True in \<open>simp add: word_less_nat_alt\<close>)
      then show ?thesis unfolding io_find.simps(2) if_not_P[OF F] if_P[OF True] by (simp del: list.map)
    next
      case ge: False
      have o: "x_off ?x \<le> ?o" using ge by (simp add: word_less_nat_alt)
      have "\<not> off < bf_offset f + bf_size f" using F ge by (simp add: word_less_nat_alt word_le_nat_alt)
      then have en: "x_end ?x \<le> ?o" using W(3) by (simp add: word_less_nat_alt)
      show ?thesis
      proof (cases "\<not> bf_staging f \<and> bf_offset f + bf_length f \<le> off")
        case skip: True
        then have c: "chain (x_off ?x, x_off ?x + x_len ?x) (map extent_of fs) = Some (lo', t)" using 2(2) by (auto split: if_splits)
        have E: "x_off ?x + x_len ?x \<le> ?o" using W(5) skip by (simp add: word_le_nat_alt)
        obtain lo1 where lo1: "lo1 \<le> x_off ?x + x_len ?x"
          "chain (lo1, x_off ?x + x_len ?x) (map extent_of (dropWhile bf_staging fs)) = Some (lo', t)"
          using drop_staging(1)[OF c] by (auto simp: dropWhile_extent)
        have sd: "sizes_ok (dropWhile bf_staging fs)" using s by (auto simp: sizes_ok_def dest: set_dropWhileD)
        have sk: "\<forall>g\<in>set (takeWhile x_stg (map extent_of fs)). x_end g \<le> ?o" using drop_staging(2)[OF c] E by fastforce
        have fs: "map extent_of fs = takeWhile x_stg (map extent_of fs) @ map extent_of (dropWhile bf_staging fs)"
          by (simp flip: dropWhile_extent)
        have IH: "case io_find iotype off (Some (bf_id f)) (dropWhile bf_staging fs) of
            (Some i, _) \<Rightarrow> hits iotype ?o (map extent_of (dropWhile bf_staging fs)) i
          | (None, r) \<Rightarrow> misses ?o (map extent_of (dropWhile bf_staging fs)) (Some (bf_id f)) r"
          by (rule 2(1)[OF F ge, unfolded if_P[OF skip], OF lo1(2,1) 2(4) sd 2(6)])
        show ?thesis
        proof (cases "io_find iotype off (Some (bf_id f)) (dropWhile bf_staging fs)")
          case (Pair p r)
          show ?thesis
          proof (cases p)
            case (Some i)
            then have "hits iotype ?o (map extent_of (dropWhile bf_staging fs)) i" using IH Pair by simp
            from hits_append[OF this sk] have "hits iotype ?o (map extent_of fs) i" by (simp only: fs[symmetric])
            then show ?thesis unfolding io_find.simps(2) if_not_P[OF F] if_not_P[OF ge] if_P[OF skip] Pair Some
              using hits_Cons[OF _ en] by simp
          next
            case None
            then obtain pre post where p: "map extent_of (dropWhile bf_staging fs) = pre @ post" "\<forall>g\<in>set pre. x_end g \<le> ?o"
              "post = [] \<or> ?o < x_off (hd post)" "r = (if pre = [] then Some (bf_id f) else Some (x_id (last pre)))"
              using IH Pair unfolding misses_def by auto
            have "pre \<noteq> []"
            proof
              assume "pre = []"
              show False
              proof (cases "dropWhile bf_staging fs")
                case Nil
                show False using lo1(2)[unfolded Nil] E 2(6) by simp
              next
                case (Cons g gs)
                then have "\<not> bf_staging g" by (metis hd_dropWhile list.discI list.sel(1))
                then have "x_off (extent_of g) = x_off ?x + x_len ?x" using lo1(2) Cons by (auto split: if_splits)
                moreover have "post = extent_of g # map extent_of gs" using p(1) \<open>pre = []\<close> Cons by simp
                ultimately show False using p(3) E by simp
              qed
            qed
            then have "misses ?o (map extent_of (f # fs)) ref r"
              unfolding misses_def
              by (intro exI[of _ "?x # takeWhile x_stg (map extent_of fs) @ pre"] exI[of _ post])
                (use p sk en fs in auto)
            then show ?thesis unfolding io_find.simps(2) if_not_P[OF F] if_not_P[OF ge] if_P[OF skip] Pair None by simp
          qed
        qed
      next
        case stay: False
        obtain lo1 e1 where c: "chain (lo1, e1) (map extent_of fs) = Some (lo', t)" "lo1 \<le> e1"
          using 2(2,3) by (cases "bf_staging f") (auto split: if_splits)
        have IH: "case io_find iotype off (Some (bf_id f)) fs of (Some i, _) \<Rightarrow> hits iotype ?o (map extent_of fs) i
          | (None, r) \<Rightarrow> misses ?o (map extent_of fs) (Some (bf_id f)) r"
          by (rule 2(1)[OF F ge, unfolded if_not_P[OF stay], OF c 2(4) s 2(6)])
        show ?thesis
        proof (cases "io_find iotype off (Some (bf_id f)) fs")
          case (Pair p r)
          show ?thesis
          proof (cases p)
            case (Some i)
            show ?thesis unfolding io_find.simps(2) if_not_P[OF F] if_not_P[OF ge] if_not_P[OF stay] Pair Some
              using IH hits_Cons[OF _ en] Pair Some by simp
          next
            case None
            show ?thesis unfolding io_find.simps(2) if_not_P[OF F] if_not_P[OF ge] if_not_P[OF stay] Pair None
              using IH misses_Cons[of ?o "map extent_of fs" ?x r ref] en Pair None by simp
          qed
        qed
      qed
    qed
  qed
qed

section \<open>Changing one extent\<close>

lemma chain_split:
  assumes "chain p (pre @ f # post) = Some q"
  obtains p1 where "chain p pre = Some p1" "chain p1 (f # post) = Some q"
  using assms by (auto simp: chain_append bind_eq_Some_conv)

lemma chain_lower: "chain (lo, e) fs = Some q \<Longrightarrow> lo' \<le> lo \<Longrightarrow> fs \<noteq> [] \<Longrightarrow> chain (lo', e) fs = Some q"
  by (cases fs) (auto split: if_splits)

lemma chain_raise:
  assumes "chain (lo, e) fs = Some q" and "fs \<noteq> []" and "lo' \<le> x_off (hd fs)"
  shows "chain (lo', e) fs = Some q"
  using assms by (cases fs) (auto split: if_splits)

text \<open>The end of the current file bounds the place of the next node.\<close>

lemma chain_hd: "chain (lo, e) (f # fs) = Some q \<Longrightarrow> lo \<le> e \<Longrightarrow> x_off f \<le> e"
  by (auto split: if_splits)

lemma layout_okE:
  assumes "layout_ok t fs"
  obtains lo where "chain (0, 0) fs = Some (lo, t)" "fs \<noteq> []" "\<not> x_stg (hd fs)" "distinct (map x_id fs)"
  using assms by (auto simp: layout_ok_def)

definition next_bound :: "nat \<Rightarrow> extent \<Rightarrow> extent list \<Rightarrow> nat" where
  "next_bound t f post = (if \<not> x_stg f then x_off f + x_len f else case post of [] \<Rightarrow> t | g # _ \<Rightarrow> x_off g)"

lemma layout_grow:
  assumes "layout_ok t (pre @ f # post)" and "length (x_bytes f) \<le> length b" and "x_off f + length b \<le> next_bound t f post"
  shows "layout_ok t (pre @ f\<lparr>x_bytes := b\<rparr> # post)"
proof -
  obtain lo where c: "chain (0, 0) (pre @ f # post) = Some (lo, t)" and d: "distinct (map x_id (pre @ f # post))"
    and h: "\<not> x_stg (hd (pre @ f # post))" using layout_okE[OF assms(1)] .
  obtain lo1 e1 where p: "chain (0, 0) pre = Some (lo1, e1)" "chain (lo1, e1) (f # post) = Some (lo, t)"
    using chain_split[OF c] by (metis surj_pair)
  have le: "lo1 \<le> e1" using chain_bounds[OF p(1)] by simp
  let ?f = "f\<lparr>x_bytes := b\<rparr>"
  have "\<exists>lo2. chain (lo1, e1) (?f # post) = Some (lo2, t)"
  proof (cases "x_stg f")
    case True
    then have q: "lo1 \<le> x_off f" "x_end f \<le> e1" "chain (x_end f, e1) post = Some (lo, t)" using p(2) by (auto split: if_splits)
    show ?thesis
    proof (cases post)
      case Nil
      then have "e1 = t" using q(3) by simp
      then show ?thesis using True q assms(3) Nil by (simp add: next_bound_def)
    next
      case (Cons g gs)
      have b: "x_off f + length b \<le> x_off g" using assms(3) True Cons by (simp add: next_bound_def)
      then have "chain (x_off f + length b, e1) post = Some (lo, t)" using chain_raise[OF q(3)] Cons by simp
      moreover have "x_off g \<le> e1" using chain_hd[of "x_end f" e1 g gs] q(2,3) Cons by simp
      ultimately show ?thesis using True q b by simp
    qed
  next
    case False
    then show ?thesis using p(2) assms(3) by (auto simp: next_bound_def split: if_splits)
  qed
  then have "map_option snd (chain (0, 0) (pre @ ?f # post)) = Some t" using p(1) by (auto simp: chain_append)
  moreover have "\<not> x_stg (hd (pre @ ?f # post))" using h by (cases pre) auto
  ultimately show ?thesis using d by (simp add: layout_ok_def)
qed

lemma layout_insert:
  assumes "layout_ok t (pre @ r # post)" and "x_end r \<le> off" and "off \<le> t" and "post \<noteq> [] \<Longrightarrow> off \<le> x_off (hd post)"
    and "i \<notin> x_id ` set (pre @ r # post)"
  shows "layout_ok t (pre @ r # \<lparr>x_id = i, x_off = off, x_len = 0, x_stg = True, x_bytes = []\<rparr> # post)"
proof -
  let ?g = "\<lparr>x_id = i, x_off = off, x_len = 0, x_stg = True, x_bytes = []\<rparr>"
  obtain lo where c: "chain (0, 0) (pre @ r # post) = Some (lo, t)" and d: "distinct (map x_id (pre @ r # post))"
    and h: "\<not> x_stg (hd (pre @ r # post))" using layout_okE[OF assms(1)] .
  obtain lo0 e0 where p: "chain (0, 0) pre = Some (lo0, e0)" "chain (lo0, e0) (r # post) = Some (lo, t)"
    using chain_split[OF c] by (metis surj_pair)
  have le: "lo0 \<le> e0" using chain_bounds[OF p(1)] by simp
  obtain lo1 e1 where q: "chain (lo0, e0) [r] = Some (lo1, e1)" "chain (lo1, e1) post = Some (lo, t)" "lo1 \<le> off" "lo1 \<le> e1"
    using p(2) assms(2) by (cases "x_stg r") (auto split: if_splits)
  have "\<exists>lo2. chain (lo1, e1) (?g # post) = Some (lo2, t)"
  proof (cases post)
    case Nil
    then show ?thesis using q assms(3) by simp
  next
    case (Cons h hs)
    then have "off \<le> x_off h" "x_off h \<le> e1" using assms(4) chain_hd[of lo1 e1 h hs] q(2,4) by auto
    moreover have "chain (off, e1) post = Some (lo, t)" using chain_raise[OF q(2)] Cons assms(4) by simp
    ultimately show ?thesis using q(3) by simp
  qed
  then have "map_option snd (chain (0, 0) (pre @ [r] @ ?g # post)) = Some t"
    using p(1) q(1) by (auto simp: chain_append simp del: append.simps chain.simps(2))
  moreover have "\<not> x_stg (hd (pre @ r # ?g # post))" using h by (cases pre) auto
  ultimately show ?thesis using d assms(5) by (auto simp: layout_ok_def)
qed

lemma byte_in_insert: "x_bytes g = [] \<Longrightarrow> byte_in (pre @ r # g # post) x = byte_in (pre @ r # post) x"
  by (auto simp: byte_in_append split: option.split)

definition overwrite :: "bytes \<Rightarrow> nat \<Rightarrow> bytes \<Rightarrow> bytes" where
  "overwrite old pos chunk = take pos old @ chunk @ drop (pos + length chunk) old"

lemma byte_in_overwrite:
  assumes "\<forall>g\<in>set pre. x_end g \<le> off" and "x_off f \<le> off" and "off \<le> x_end f"
  shows "byte_in (pre @ f\<lparr>x_bytes := overwrite (x_bytes f) (off - x_off f) chunk\<rparr> # post) x =
    (if off \<le> x \<and> x < off + length chunk then Some (chunk ! (x - off)) else byte_in (pre @ f # post) x)"
proof -
  let ?pos = "off - x_off f" and ?b = "overwrite (x_bytes f) (off - x_off f) chunk"
  have len: "length ?b = max (length (x_bytes f)) (?pos + length chunk)" using assms(2,3) by (simp add: overwrite_def)
  have pre: "byte_in pre x = None" if "off \<le> x" using that assms(1) by (intro byte_in_ended) auto
  consider "x < off" | "off \<le> x" "x < off + length chunk" | "off + length chunk \<le> x" by linarith
  then show ?thesis
  proof cases
    case 1
    have "x < x_off f + length ?b \<and> x_off f \<le> x \<longleftrightarrow> x_off f \<le> x" using 1 len assms(2,3) by auto
    moreover have "?b ! (x - x_off f) = x_bytes f ! (x - x_off f)" if "x_off f \<le> x"
    proof -
      have "x - x_off f < off - x_off f" using that 1 by linarith
      then show ?thesis using assms(3) by (simp add: overwrite_def nth_append)
    qed
    ultimately show ?thesis using 1 assms(3) by (auto simp: byte_in_append split: option.splits)
  next
    case 2
    have i: "x - x_off f = ?pos + (x - off)" "x - off < length chunk" "length (take ?pos (x_bytes f)) = ?pos"
      using 2 assms(2,3) by auto
    then have "?b ! (x - x_off f) = chunk ! (x - off)" unfolding overwrite_def i(1) by (simp add: nth_append)
    then show ?thesis using 2 pre len assms(2) by (auto simp: byte_in_append)
  next
    case 3
    have "?b ! (x - x_off f) = x_bytes f ! (x - x_off f)" if "x < x_end f"
      using that 3 assms(2,3) by (auto simp: overwrite_def nth_append)
    moreover have "x < x_off f + length ?b \<longleftrightarrow> x < x_end f" using 3 len assms(2) by auto
    ultimately show ?thesis using 3 pre assms(2) by (auto simp: byte_in_append)
  qed
qed

lemma extent_write:
  assumes "unat (bf_size f) \<le> length (bf_data f)" and "pos \<le> unat (bf_size f)" and "unat s = max (unat (bf_size f)) (pos + length chunk)"
  shows "extent_of (f\<lparr>bf_data := write_at (bf_data f) pos chunk, bf_size := s\<rparr>) =
      (extent_of f)\<lparr>x_bytes := overwrite (x_bytes (extent_of f)) pos chunk\<rparr>"
    and "unat s \<le> length (write_at (bf_data f) pos chunk)"
proof -
  have "take (unat s) (take pos (bf_data f) @ chunk @ drop (pos + length chunk) (bf_data f)) =
      take pos (bf_data f) @ chunk @ drop (pos + length chunk) (take (unat (bf_size f)) (bf_data f))"
    using assms by (simp add: take_drop max_def min_absorb2) linarith
  then show "extent_of (f\<lparr>bf_data := write_at (bf_data f) pos chunk, bf_size := s\<rparr>) =
      (extent_of f)\<lparr>x_bytes := overwrite (x_bytes (extent_of f)) pos chunk\<rparr>"
    using assms(1,2) by (simp add: extent_of_def overwrite_def write_at_def min_absorb1)
  show "unat s \<le> length (write_at (bf_data f) pos chunk)" using assms by (simp add: write_at_def)
qed

lemma extent_write_part:
  assumes "unat (bf_size f) \<le> length (bf_data f)" and "pos \<le> unat (bf_size f)"
  shows "extent_of (f\<lparr>bf_data := write_at (bf_data f) pos chunk\<rparr>) =
      (extent_of f)\<lparr>x_bytes := overwrite (x_bytes (extent_of f)) pos (take (unat (bf_size f) - pos) chunk)\<rparr>"
    and "unat (bf_size f) \<le> length (write_at (bf_data f) pos chunk)"
proof -
  have "take (unat (bf_size f)) (take pos (bf_data f) @ chunk @ drop (pos + length chunk) (bf_data f)) =
      take pos (bf_data f) @ take (unat (bf_size f) - pos) chunk @
        drop (pos + min (length chunk) (unat (bf_size f) - pos)) (take (unat (bf_size f)) (bf_data f))"
    using assms by (auto simp: take_drop min_def not_le)
  then show "extent_of (f\<lparr>bf_data := write_at (bf_data f) pos chunk\<rparr>) =
      (extent_of f)\<lparr>x_bytes := overwrite (x_bytes (extent_of f)) pos (take (unat (bf_size f) - pos) chunk)\<rparr>"
    using assms by (simp add: extent_of_def overwrite_def write_at_def min_absorb1)
  show "unat (bf_size f) \<le> length (write_at (bf_data f) pos chunk)" using assms by (simp add: write_at_def)
qed

section \<open>The place of the loop\<close>

text \<open>
  A write that passes the end of a real file takes the next node for the next file, so there must be no
  staging file left in between.
\<close>

fun crossfree :: "nat \<Rightarrow> nat \<Rightarrow> extent list \<Rightarrow> bool" where
  "crossfree off lim (f # g # fs) \<longleftrightarrow>
     (\<not> x_stg f \<and> x_stg g \<and> off \<le> x_off f + x_len f \<longrightarrow> lim \<le> x_off f + x_len f) \<and> crossfree off lim (g # fs)"
| "crossfree off lim fs \<longleftrightarrow> True"

lemma crossfree_append: "crossfree off lim (xs @ ys) \<Longrightarrow> crossfree off lim ys"
proof (induction xs)
  case (Cons x xs)
  then show ?case by (cases "xs @ ys") auto
qed simp

lemma crossfree_stg: "x_stg g \<Longrightarrow> crossfree off lim fs \<Longrightarrow> crossfree off lim (g # fs)"
  by (cases fs) auto

text \<open>\<open>at_node\<close>: the loop is at a node whose range begins at most at the offset and reaches at least to it.\<close>

definition at_node :: "nat \<Rightarrow> extent list \<Rightarrow> extent \<Rightarrow> extent list \<Rightarrow> bool" where
  "at_node off pre f post \<longleftrightarrow> x_off f \<le> off \<and> off \<le> x_end f \<and> (\<forall>g\<in>set pre. x_end g \<le> off)"

definition write_pos :: "nat \<Rightarrow> nat \<Rightarrow> nat \<Rightarrow> nat \<Rightarrow> iostate \<Rightarrow> extent list \<Rightarrow> bool" where
  "write_pos off0 off lim m io fs \<longleftrightarrow>
     (case io_pbf io of
        Some i \<Rightarrow> \<exists>pre f post. fs = pre @ f # post \<and> x_id f = i \<and> at_node off pre f post \<and> crossfree off0 lim (f # post) \<and>
                     length post < m
      | None \<Rightarrow> \<exists>pre r post. fs = pre @ r # post \<and> io_ref io = Some (x_id r) \<and> (\<forall>g\<in>set pre. x_end g \<le> off) \<and> x_end r \<le> off \<and>
                     (post \<noteq> [] \<longrightarrow> off \<le> x_off (hd post)) \<and> crossfree off0 lim post \<and> length post < m)"

lemma new_stage_spec:
  assumes "disk_ok st" and "layout st = pre @ r # post" and "\<forall>g\<in>set pre. x_end g \<le> unat off" and "x_end r \<le> unat off"
    and "unat off \<le> unat (m_total_files_length st)" and "post \<noteq> [] \<Longrightarrow> unat off \<le> x_off (hd post)"
  shows "(case new_stage os off (x_id r) st of Inl st' \<Rightarrow> keeps st st'
    | Inr (i, st') \<Rightarrow> (\<exists>f. layout st' = (pre @ [r]) @ f # post \<and> x_id f = i \<and> x_stg f \<and> at_node (unat off) (pre @ [r]) f post) \<and>
        disk_ok st' \<and> byte_at st' = byte_at st \<and> m_total_files_length st' = m_total_files_length st)"
proof -
  define st1 where "st1 = (if MAX_STAGEDIR_FILES \<le> m_stagecount st \<or> m_stagedir st = None then
                  (if os_mkdir os (bs_calls st) then (calls st)\<lparr>m_stagedir := Some off, m_stagecount := 0\<rparr> else calls st)
                else st)"
  have k: "keeps st st1" unfolding st1_def using keeps_trans[OF keeps_calls keeps_more(5)] by simp
  have d1: "disk_ok st1" by (rule keeps_disk_ok[OF k assms(1)])
  have l1: "layout st1 = pre @ r # post" using k assms(2) by (simp add: keeps_def)
  obtain cpre c cpost where c: "m_btfhead st1 = cpre @ c # cpost" "map extent_of cpre = pre" "extent_of c = r" "map extent_of cpost = post"
    using layout_split[OF l1] by metis
  let ?i = "bs_next_id st1"
  let ?f = "\<lparr>bf_id = ?i, bf_length = 0, bf_offset = off, bf_size = 0, bf_last_timestamp = 0, bf_opened = False,
      bf_readonly = False, bf_staging = True, bf_dir = m_stagedir st1, bf_data = []\<rparr>"
  let ?st = "st1\<lparr>m_btfhead := insert_after (x_id r) ?f (m_btfhead st1), m_stagecount := m_stagecount st1 + 1, bs_next_id := ?i + 1\<rparr>"
  have N: "new_stage os off (x_id r) st = (if \<not> os_memory os ?i then Inl st1 else Inr (?i, ?st))"
    by (simp add: new_stage_def Let_def st1_def)
  have dist: "distinct (map bf_id (m_btfhead st1))" by (rule disk_ok_distinct[OF d1])
  have "\<forall>x\<in>set cpre. bf_id x \<noteq> bf_id c" using dist c(1) by (auto simp: notin_image_iff)
  then have ins: "insert_after (x_id r) ?f (m_btfhead st1) = cpre @ c # ?f # cpost"
    using insert_after_at[of cpre c ?f cpost] c by auto
  let ?g = "\<lparr>x_id = ?i, x_off = unat off, x_len = 0, x_stg = True, x_bytes = []\<rparr>"
  have g: "extent_of ?f = ?g" by (simp add: extent_of_def)
  have lay: "layout ?st = pre @ r # ?g # post" using ins c g by (simp add: layout_def)
  have fresh: "?i \<notin> x_id ` set (layout st1)"
  proof -
    have "x_id ` set (layout st1) = bf_id ` set (m_btfhead st1)" using arg_cong[where f = set, OF layout_ids[of st1]] by simp
    then show ?thesis using d1 by (auto simp: disk_ok_def)
  qed
  have tot: "m_total_files_length st1 = m_total_files_length st" using k by (simp add: keeps_def)
  have "layout_ok (unat (m_total_files_length st)) (pre @ r # ?g # post)"
    using d1 l1 tot assms(4-6) fresh by (intro layout_insert) (simp_all add: disk_ok_def)
  moreover have "sizes_ok (m_btfhead ?st)" using d1 ins c(1) by (auto simp: disk_ok_def sizes_ok_def)
  moreover have "\<forall>f\<in>set (m_btfhead ?st). bf_id f < bs_next_id ?st" using d1 ins c(1) by (auto simp: disk_ok_def less_Suc_eq)
  ultimately have d: "disk_ok ?st" using lay tot by (simp add: disk_ok_def)
  have byt: "byte_at ?st = byte_at st" using lay assms(2) by (auto simp: byte_at_def byte_in_insert)
  have "at_node (unat off) (pre @ [r]) ?g post" using assms(3,4) by (auto simp: at_node_def)
  then show ?thesis using N k lay d byt tot by auto
qed

lemma new_stage_goal:
  assumes "case x of Inl st' \<Rightarrow> keeps st st'
    | Inr (i, st') \<Rightarrow> (\<exists>f. layout st' = (pre @ [r]) @ f # post \<and> x_id f = i \<and> x_stg f \<and> at_node off (pre @ [r]) f post) \<and> R st'"
    and "crossfree off0 lim post" and "length post < m"
  shows "case x of Inl st' \<Rightarrow> keeps st st'
    | Inr (i, st') \<Rightarrow> (\<exists>pre f post. layout st' = pre @ f # post \<and> x_id f = i \<and> at_node off pre f post \<and>
        crossfree off0 lim (f # post) \<and> length post < m) \<and> R st'"
proof (cases x)
  case (Inr y)
  then obtain i st' f where y: "y = (i, st')" and f: "layout st' = (pre @ [r]) @ f # post" "x_id f = i" "x_stg f"
    "at_node off (pre @ [r]) f post" "R st'" using assms(1) by (cases y) auto
  have "crossfree off0 lim (f # post)" by (rule crossfree_stg[OF f(3) assms(2)])
  then have "\<exists>pre f post. layout st' = pre @ f # post \<and> x_id f = i \<and> at_node off pre f post \<and>
      crossfree off0 lim (f # post) \<and> length post < m" using f(1,2,4) assms(3) by blast
  then show ?thesis using f(5) Inr y by simp
qed (use assms(1) in simp)

lemma io_target_write:
  assumes "disk_ok st" and "write_pos off0 (unat (io_off io)) lim m io (layout st)"
    and "unat (io_off io) \<le> unat (m_total_files_length st)"
  shows "\<exists>x. io_target os True io st = Some x \<and>
    (case x of Inl st' \<Rightarrow> keeps st st'
     | Inr (i, st') \<Rightarrow> (\<exists>pre f post. layout st' = pre @ f # post \<and> x_id f = i \<and> at_node (unat (io_off io)) pre f post \<and>
           crossfree off0 lim (f # post) \<and> length post < m) \<and>
        disk_ok st' \<and> byte_at st' = byte_at st \<and> m_total_files_length st' = m_total_files_length st)"
proof (cases "io_pbf io")
  case None
  then obtain pre r post where p: "layout st = pre @ r # post" "io_ref io = Some (x_id r)" "\<forall>g\<in>set pre. x_end g \<le> unat (io_off io)"
    "x_end r \<le> unat (io_off io)" "post \<noteq> [] \<longrightarrow> unat (io_off io) \<le> x_off (hd post)" "crossfree off0 lim post" "length post < m"
    using assms(2) unfolding write_pos_def by auto
  have "io_target os True io st = Some (new_stage os (io_off io) (x_id r) st)" using None p(2) by (simp add: io_target_def)
  moreover note new_stage_goal[OF new_stage_spec[OF assms(1) p(1,3,4) assms(3), of os] p(6,7)] p(5)
  ultimately show ?thesis by blast
next
  case (Some i)
  then obtain pre f post where p: "layout st = pre @ f # post" "x_id f = i" "at_node (unat (io_off io)) pre f post"
    "crossfree off0 lim (f # post)" "length post < m" using assms(2) unfolding write_pos_def by auto
  obtain cpre c cpost where c: "m_btfhead st = cpre @ c # cpost" "map extent_of cpre = pre" "extent_of c = f" "map extent_of cpost = post"
    using layout_split[OF p(1)] by metis
  have n: "node i st = Some c" using node_at(1)[OF c(1) disk_ok_distinct[OF assms(1)]] c(3) p(2) by auto
  show ?thesis
  proof (cases "bf_staging c \<and> MAX_STAGEFILE_SIZE \<le> bf_size c \<and> io_off io = bf_offset c + bf_size c")
    case False
    then have "io_target os True io st = Some (Inr (i, st))" unfolding io_target_def Some n option.case by (simp only: simp_thms if_False)
    then show ?thesis using p assms(1) by auto
  next
    case True
    then have T: "io_target os True io st = Some (new_stage os (io_off io) i st)" using Some n by (simp add: io_target_def)
    obtain lo where ch: "chain (0, 0) (layout st) = Some (lo, unat (m_total_files_length st))"
      using assms(1) layout_okE unfolding disk_ok_def by metis
    have e: "x_end f \<le> unat (io_off io)"
      using extent_words(3)[OF ch[unfolded layout_def] _ _ disk_ok_sizes[OF assms(1)], of c] c(1,3) True by simp
    have "post \<noteq> [] \<Longrightarrow> unat (io_off io) \<le> x_off (hd post)"
    proof -
      assume "post \<noteq> []"
      then obtain g gs where post: "post = g # gs" by (cases post) auto
      obtain lo1 e1 where "chain (lo1, e1) (f # g # gs) = Some (lo, unat (m_total_files_length st))"
        using ch p(1) post chain_split by (metis surj_pair)
      then have "x_end f \<le> x_off g" using True c(3) by (auto split: if_splits)
      then show ?thesis using p(3) post by (simp add: at_node_def)
    qed
    note ns = new_stage_spec[OF assms(1) p(1) _ e assms(3) this, of os]
    have "crossfree off0 lim post" using p(4) crossfree_append[of off0 lim "[f]" post] by simp
    moreover have "\<forall>g\<in>set pre. x_end g \<le> unat (io_off io)" using p(3) by (simp add: at_node_def)
    ultimately show ?thesis using new_stage_goal[OF ns _ p(5)] p(2) T by blast
  qed
qed

section \<open>Writing one file\<close>

lemma u64_sub: "(y :: u64) \<le> x \<Longrightarrow> unat (x - y) = unat x - unat y"
  by (simp add: unat_sub)

lemma unat_ucast_len: "unat (ucast (l :: u32) :: u64) = unat l"
  using unat_u32_lt[of l] by (simp add: unsigned_ucast_eq take_bit_nat_eq_self[of _ 64] less_trans[of _ 4294967296])

lemma disk_ok_put:
  assumes "disk_ok st" and "m_btfhead st = cpre @ c # cpost" and "m_btfhead st' = cpre @ c' # cpost"
    and "bf_id c' = bf_id c" and "m_total_files_length st' = m_total_files_length st" and "bs_next_id st' = bs_next_id st"
    and "extent_of c' = (extent_of c)\<lparr>x_bytes := b\<rparr>" and "unat (bf_size c') \<le> length (bf_data c')"
    and "length (x_bytes (extent_of c)) \<le> length b"
    and "x_off (extent_of c) + length b \<le> next_bound (unat (m_total_files_length st)) (extent_of c) (map extent_of cpost)"
  shows "disk_ok st'" and "layout st' = map extent_of cpre @ (extent_of c)\<lparr>x_bytes := b\<rparr> # map extent_of cpost"
proof -
  show l: "layout st' = map extent_of cpre @ (extent_of c)\<lparr>x_bytes := b\<rparr> # map extent_of cpost"
    using assms(3,7) by (simp add: layout_def)
  have "layout_ok (unat (m_total_files_length st)) (map extent_of cpre @ extent_of c # map extent_of cpost)"
    using assms(1,2) by (simp add: disk_ok_def layout_def)
  from layout_grow[OF this assms(9,10)] l assms(5) have "layout_ok (unat (m_total_files_length st')) (layout st')" by simp
  moreover have "sizes_ok (m_btfhead st')" using assms(1-3,8) by (auto simp: disk_ok_def sizes_ok_def)
  moreover have "\<forall>f\<in>set (m_btfhead st'). bf_id f < bs_next_id st'" using assms(1-4,6) by (auto simp: disk_ok_def)
  ultimately show "disk_ok st'" by (simp add: disk_ok_def)
qed

lemma next_bound_ge:
  assumes "layout_ok t (pre @ f # post)" shows "x_end f \<le> next_bound t f post"
proof -
  obtain lo where c: "chain (0, 0) (pre @ f # post) = Some (lo, t)" using layout_okE[OF assms] .
  obtain lo1 e1 where q: "chain (0, 0) pre = Some (lo1, e1)" "chain (lo1, e1) (f # post) = Some (lo, t)"
    using c chain_split by (metis surj_pair)
  then have "lo1 \<le> e1" using chain_bounds[OF q(1)] by simp
  then show ?thesis using q(2) by (cases post) (auto simp: next_bound_def split: if_splits)
qed

lemma io_write_file_spec:
  assumes "disk_ok st" and "m_btfhead st = cpre @ c # cpost"
    and "at_node (unat (io_off io)) (map extent_of cpre) (extent_of c) (map extent_of cpost)"
    and "unat (io_off io) + unat (io_len io) \<le> unat (m_total_files_length st)" and "unat (io_len io) \<le> length (io_buf io)"
  defines "n \<equiv> min (unat (io_len io)) (next_bound (unat (m_total_files_length st)) (extent_of c) (map extent_of cpost) - unat (io_off io))"
  shows "\<exists>ok nio st' m. io_write_file os now c (io_off io - bf_offset c) io st = ((ok, nio), st') \<and> unat nio = n \<and> m \<le> n \<and>
    (ok \<longrightarrow> m = n) \<and> disk_ok st' \<and> m_total_files_length st' = m_total_files_length st \<and>
    layout st' = map extent_of cpre @ (extent_of c)\<lparr>x_bytes := overwrite (x_bytes (extent_of c))
      (unat (io_off io) - x_off (extent_of c)) (take m (io_buf io))\<rparr> # map extent_of cpost"
proof -
  let ?i = "bf_id c" and ?f = "extent_of c" and ?off = "unat (io_off io)" and ?len = "unat (io_len io)"
    and ?t = "unat (m_total_files_length st)" and ?post = "map extent_of cpost"
  have lok: "layout_ok ?t (map extent_of cpre @ ?f # ?post)" using assms(1,2) by (simp add: disk_ok_def layout_def)
  have nb: "x_end ?f \<le> next_bound ?t ?f ?post" by (rule next_bound_ge[OF lok])
  have sz: "unat (bf_size c) \<le> length (bf_data c)" using assms(1,2) by (simp add: disk_ok_def sizes_ok_def)
  have xb: "length (x_bytes ?f) = unat (bf_size c)" using sz by (simp add: extent_of_def)
  have at: "unat (bf_offset c) \<le> ?off" "?off \<le> unat (bf_offset c) + unat (bf_size c)" using assms(3) xb by (simp_all add: at_node_def)
  define pos where "pos = io_off io - bf_offset c"
  have pos: "unat pos = ?off - unat (bf_offset c)" unfolding pos_def using at(1) by (simp add: u64_sub word_le_nat_alt)
  have dist: "distinct (map bf_id (m_btfhead st))" by (rule disk_ok_distinct[OF assms(1)])
  have nx: "next_file ?i st = (case cpost of [] \<Rightarrow> None | g # _ \<Rightarrow> Some g)"
    using node_at(2)[OF assms(2) dist] by (simp add: next_file_def)
  define nio where "nio = (if bf_staging c then
                   (case next_file ?i st of
                      None \<Rightarrow> ucast (io_len io)
                    | Some g \<Rightarrow>
                       (if ucast (io_len io) \<le> bf_offset g - bf_offset c - pos then ucast (io_len io)
                        else bf_offset g - bf_offset c - pos))
                 else (if ucast (io_len io) \<le> bf_length c - pos then ucast (io_len io) else bf_length c - pos))"
  have mins: "unat (if ucast (io_len io) \<le> v then ucast (io_len io) else v) = min ?len (unat v)" for v :: u64
    by (simp add: word_le_nat_alt unat_ucast_len)
  have nio: "unat nio = n"
  proof (cases "bf_staging c")
    case False
    have "pos \<le> bf_length c" using nb False at xb pos by (simp add: next_bound_def word_le_nat_alt)
    then have "unat (bf_length c - pos) = unat (bf_offset c) + unat (bf_length c) - ?off" using pos at(1) by (simp add: u64_sub)
    then show ?thesis using False mins by (simp add: nio_def n_def next_bound_def)
  next
    case True
    show ?thesis
    proof (cases cpost)
      case Nil
      then show ?thesis using True nx assms(4) by (simp add: nio_def n_def next_bound_def unat_ucast_len)
    next
      case (Cons g gs)
      have "?off \<le> unat (bf_offset g)" using nb True Cons at xb by (simp add: next_bound_def)
      then have "unat (bf_offset g - io_off io) = unat (bf_offset g) - ?off" by (simp add: u64_sub word_le_nat_alt)
      moreover have "bf_offset g - bf_offset c - pos = bf_offset g - io_off io" by (simp add: pos_def)
      ultimately have "unat (bf_offset g - bf_offset c - pos) = unat (bf_offset g) - ?off" by (simp only:)
      then show ?thesis using True nx Cons mins by (simp add: nio_def n_def next_bound_def)
    qed
  qed
  have nlen: "n \<le> length (io_buf io)" using assms(5) by (simp add: n_def)
  have room: "?off + n \<le> next_bound ?t ?f ?post" using nb at xb by (simp add: n_def)
  let ?k = "bs_calls st" and ?chunk = "take (unat nio) (io_buf io)"
  define w where "w = (if nio = 0 then None else os_write os ?k)"
  have up: "m_btfhead (upd_node ?i g s) = cpre @ g x # cpost"
    if "m_btfhead s = cpre @ x # cpost" "bf_id x = ?i" for g x s
    using node_at(3)[of s cpre x cpost g] that dist assms(2) by simp
  show ?thesis
  proof (cases w)
    case (Some v)
    define st' where "st' = (upd_node ?i (\<lambda>f. f\<lparr>bf_data := write_at (bf_data f) (unat pos) (take v ?chunk)\<rparr>) (calls st))
      \<lparr>m_write_failed := True, m_write_tried := now\<rparr>"
    have E: "io_write_file os now c pos io st = ((False, nio), st')"
      using Some unfolding io_write_file_def Let_def nio_def[symmetric] w_def[symmetric] st'_def by simp
    let ?c = "c\<lparr>bf_data := write_at (bf_data c) (unat pos) (take v ?chunk)\<rparr>"
    let ?m = "min (unat (bf_size c) - unat pos) (min v n)"
    have h: "m_btfhead st' = cpre @ ?c # cpost" using up[of "calls st" c] assms(2) by (simp add: st'_def calls_def DiskAccess_def)
    have p: "unat pos \<le> unat (bf_size c)" using pos at by simp
    have x: "extent_of ?c = ?f\<lparr>x_bytes := overwrite (x_bytes ?f) (unat pos) (take ?m (io_buf io))\<rparr>"
      using extent_write_part(1)[OF sz p, of "take v ?chunk"] nio by (simp add: take_take)
    have "length (overwrite (x_bytes ?f) (unat pos) (take ?m (io_buf io))) = unat (bf_size c)"
      using xb p nlen by (simp add: overwrite_def)
    then have "disk_ok st'" "layout st' = map extent_of cpre @ ?f\<lparr>x_bytes := overwrite (x_bytes ?f) (unat pos) (take ?m (io_buf io))\<rparr> # ?post"
      using disk_ok_put[OF assms(1,2) h _ _ _ x] extent_write_part(2)[OF sz p] nb xb by (simp_all add: st'_def upd_node_def calls_def DiskAccess_def)
    then show ?thesis unfolding pos_def[symmetric] E using nio pos
      by (intro exI[of _ False] exI[of _ nio] exI[of _ st'] exI[of _ ?m]) (simp add: st'_def upd_node_def calls_def DiskAccess_def)
  next
    case None
    define size where "size = (if bf_size c < pos + nio then pos + nio else bf_size c)"
    define s1 where "s1 = (if nio = 0 then calls st
      else (upd_node ?i (\<lambda>f. f\<lparr>bf_data := write_at (bf_data f) (unat pos) ?chunk\<rparr>) (calls st))\<lparr>m_write_failed := False\<rparr>)"
    define s2 where "s2 = upd_node ?i (\<lambda>f. f\<lparr>bf_size := size\<rparr>) s1"
    define s3 where "s3 = (if \<not> bf_staging c \<and> size < bf_length c \<and>
                           (case next_file ?i s2 of None \<Rightarrow> False | Some g \<Rightarrow> bf_staging g \<and> bf_offset g \<le> bf_offset c + size)
                        then s2\<lparr>m_need_merge := True\<rparr> else s2)"
    define st' where "st' = (if size = 0 then btf_close ?i s3 else s3)"
    have E: "io_write_file os now c pos io st = ((True, nio), st')"
      using None unfolding io_write_file_def Let_def nio_def[symmetric] w_def[symmetric] size_def[symmetric]
        s1_def[symmetric] s2_def[symmetric] s3_def[symmetric] st'_def[symmetric] by simp
    have p: "unat pos \<le> unat (bf_size c)" using pos at by simp
    have "next_bound ?t ?f ?post \<le> ?t \<or> True" by simp
    have small: "unat pos + unat nio < 18446744073709551616"
    proof -
      have "?off + n \<le> ?t" using assms(4) by (simp add: n_def)
      then show ?thesis using pos nio unat_u64_lt[of "m_total_files_length st"] by linarith
    qed
    have usz: "unat size = max (unat (bf_size c)) (unat pos + n)"
      using u64_add[OF small] nio by (auto simp: size_def word_less_nat_alt max_def)
    have lchunk: "length ?chunk = n" using nio nlen by simp
    let ?c = "c\<lparr>bf_data := write_at (bf_data c) (unat pos) ?chunk, bf_size := size\<rparr>"
    have w0: "write_at (bf_data c) (unat pos) ?chunk = bf_data c" if "nio = 0"
      using that p sz by (simp add: write_at_def)
    have "m_btfhead s1 = cpre @ c\<lparr>bf_data := write_at (bf_data c) (unat pos) ?chunk\<rparr> # cpost"
      using up[of "calls st" c] assms(2) w0 by (auto simp: s1_def calls_def DiskAccess_def)
    from up[OF this] have h: "m_btfhead s2 = cpre @ ?c # cpost" by (simp add: s2_def)
    have x: "extent_of ?c = ?f\<lparr>x_bytes := overwrite (x_bytes ?f) (unat pos) (take n (io_buf io))\<rparr>"
      using extent_write(1)[OF sz p, of size ?chunk] usz lchunk nio by simp
    have lo: "length (overwrite (x_bytes ?f) (unat pos) (take n (io_buf io))) = unat size"
      using xb p nlen usz by (simp add: overwrite_def)
    have tt: "m_total_files_length s2 = m_total_files_length st" "bs_next_id s2 = bs_next_id st"
      by (simp_all add: s2_def s1_def upd_node_def calls_def DiskAccess_def)
    have rm: "x_off ?f + unat size \<le> next_bound ?t ?f ?post" using usz room nb xb pos at by auto
    have "disk_ok s2" "layout s2 = map extent_of cpre @ ?f\<lparr>x_bytes := overwrite (x_bytes ?f) (unat pos) (take n (io_buf io))\<rparr> # ?post"
      using disk_ok_put[OF assms(1,2) h _ tt x] extent_write(2)[OF sz p, of size ?chunk] usz lchunk lo rm xb by simp_all
    moreover have "keeps s2 s3" by (simp add: s3_def)
    then have "keeps s2 st'" using keeps_trans[of s2 s3 st'] by (simp add: st'_def)
    ultimately have "disk_ok st'" "layout st' = map extent_of cpre @ ?f\<lparr>x_bytes := overwrite (x_bytes ?f) (unat pos) (take n (io_buf io))\<rparr> # ?post"
      "m_total_files_length st' = m_total_files_length st"
      using keeps_disk_ok[of s2 st'] tt by (auto simp: keeps_def)
    then show ?thesis unfolding pos_def[symmetric] E using nio pos
      by (intro exI[of _ True] exI[of _ nio] exI[of _ st'] exI[of _ n]) simp
  qed
qed

section \<open>One round of a write\<close>

lemma node_of_layout:
  assumes "disk_ok st" and "layout st = pre @ f # post"
  obtains cpre c cpost where "m_btfhead st = cpre @ c # cpost" "map extent_of cpre = pre" "extent_of c = f"
    "map extent_of cpost = post" "node (x_id f) st = Some c" "next_file (x_id f) st = (case cpost of [] \<Rightarrow> None | g # _ \<Rightarrow> Some g)"
proof -
  obtain cpre c cpost where c: "m_btfhead st = cpre @ c # cpost" "map extent_of cpre = pre" "extent_of c = f" "map extent_of cpost = post"
    using layout_split[OF assms(2)] by metis
  have i: "x_id f = bf_id c" using c(3) by auto
  note n = node_at(1,2)[OF c(1) disk_ok_distinct[OF assms(1)]]
  show ?thesis by (rule that[OF c]) (simp_all add: i n next_file_def)
qed

text \<open>Up to the transfer, a round only opens the file and moves its position.\<close>

lemma io_round_open:
  assumes "disk_ok st" and "layout st = pre @ f # post" and "\<forall>k. os_open os k \<noteq> NoSpace" and "fuel \<noteq> 0"
    and "io_target os iotype io st0 = Some (Inr (x_id f, st))"
  shows "(\<exists>st'. io_round fuel os now iotype io st0 = Some (Inl (False, io_rd io @ io_buf io), st') \<and> keeps st st') \<or>
    (\<exists>st' c cpre cpost. keeps st st' \<and> m_btfhead st' = cpre @ c # cpost \<and> map extent_of cpre = pre \<and> extent_of c = f \<and>
       map extent_of cpost = post \<and>
       io_round fuel os now iotype io st0 =
         (if iotype then
            (case io_write_file os now c (io_off io - bf_offset c) io st' of
               ((False, nio), st) \<Rightarrow> Some (Inl (False, io_rd io @ io_buf io), st)
             | ((True, nio), st) \<Rightarrow> map_option (\<lambda>x. (x, st)) (io_next (bf_id c) [] nio io st))
          else
            (case io_read_file os c (io_off io - bf_offset c) io st' of
               ((False, got, nio), st) \<Rightarrow> Some (Inl (False, io_rd io @ io_buf io), st)
             | ((True, got, nio), st) \<Rightarrow> map_option (\<lambda>x. (x, st)) (io_next (bf_id c) got nio io st))))"
proof -
  let ?i = "x_id f"
  obtain c0 where c0: "node ?i st = Some c0" "extent_of c0 = f" using node_of_layout[OF assms(1,2)] by metis
  obtain b st2 where o: "(if \<not> bf_opened c0 \<or> iotype \<and> bf_readonly c0 then btf_open fuel os now ?i iotype st else Some (True, st)) = Some (b, st2)"
    "keeps st st2"
  proof (cases "\<not> bf_opened c0 \<or> iotype \<and> bf_readonly c0")
    case True
    then show ?thesis using btf_open_keeps[OF assms(3) _ assms(1,4), of ?i now iotype] c0(1) that by auto
  next
    case False
    show ?thesis by (rule that[OF if_not_P[OF False] keeps_refl])
  qed
  define st3 where "st3 = calls (upd_node ?i (\<lambda>f. f\<lparr>bf_last_timestamp := now\<rparr>) st2)"
  have k3: "keeps st st3" unfolding st3_def
    by (rule keeps_trans[OF o(2) keeps_trans[OF keeps_stamp(1) keeps_calls]])
  have d3: "disk_ok st3" by (rule keeps_disk_ok[OF k3 assms(1)])
  have l3: "layout st3 = pre @ f # post" using k3 assms(2) by (simp add: keeps_def)
  obtain cpre c cpost where c: "m_btfhead st3 = cpre @ c # cpost" "map extent_of cpre = pre" "extent_of c = f"
    "map extent_of cpost = post" "node ?i st3 = Some c" using node_of_layout[OF d3 l3] by metis
  have id: "bf_id c = ?i" using c(3) by auto
  have off: "bf_offset c0 = bf_offset c" using c(3) c0(2) by (metis extent_sel(2) word_unat_eq_iff)
  let ?k = "bs_calls (upd_node ?i (\<lambda>f. f\<lparr>bf_last_timestamp := now\<rparr>) st2)"
  have R: "io_round fuel os now iotype io st0 =
     (if b then
        (if \<not> os_seek os ?k then Some (Inl (False, io_rd io @ io_buf io), st3)
         else if iotype then
            (case io_write_file os now c (io_off io - bf_offset c) io st3 of
               ((False, nio), st) \<Rightarrow> Some (Inl (False, io_rd io @ io_buf io), st)
             | ((True, nio), st) \<Rightarrow> map_option (\<lambda>x. (x, st)) (io_next (bf_id c) [] nio io st))
          else
            (case io_read_file os c (io_off io - bf_offset c) io st3 of
               ((False, got, nio), st) \<Rightarrow> Some (Inl (False, io_rd io @ io_buf io), st)
             | ((True, got, nio), st) \<Rightarrow> map_option (\<lambda>x. (x, st)) (io_next (bf_id c) got nio io st)))
      else Some (Inl (False, io_rd io @ io_buf io), DiskAccess st2))"
    unfolding io_round_def assms(5) option.case sum.case prod.case c0(1) o(1) Let_def st3_def[symmetric] c(5) off id
    by (cases b) simp_all
  show ?thesis
  proof (cases "b \<and> os_seek os ?k")
    case True
    then show ?thesis unfolding R using k3 c(1-4) by (intro disjI2 exI[of _ st3] exI[of _ c] exI[of _ cpre] exI[of _ cpost]) simp
  next
    case False
    then show ?thesis unfolding R using k3 keeps_trans[OF o(2) keeps_access] by auto
  qed
qed

lemma unat_sub_nio:
  assumes "unat nio \<le> unat len" shows "unat (len - ucast (nio :: u64) :: u32) = unat len - unat nio"
proof -
  have "unat nio < 4294967296" using assms unat_u32_lt[of len] by (rule le_less_trans)
  then have "unat (ucast nio :: u32) = unat nio" by (simp add: unsigned_ucast_eq take_bit_nat_eq_self_iff)
  then show ?thesis using assms by (simp add: unat_sub word_le_nat_alt)
qed

text \<open>
  \<open>full\<close>: every file is preallocated, and nothing is staged.  A write then changes bytes in place.
\<close>

definition full :: "extent list \<Rightarrow> bool" where
  "full fs \<longleftrightarrow> (\<forall>f\<in>set fs. \<not> x_stg f \<and> length (x_bytes f) = x_len f)"

lemma io_target_full:
  assumes "full (layout st)" and "layout st = pre @ f # post" and "io_pbf io = Some (x_id f)" and "io_target os True io st = Some x"
  shows "x = Inr (x_id f, st)"
proof -
  obtain c where c: "node (x_id f) st = Some c"
    using assms(2) node_layout[of "x_id f" st] by (cases "node (x_id f) st") auto
  then have "extent_of c \<in> set (layout st)" using node_sel[OF c] by (auto simp: layout_def)
  then have "\<not> bf_staging c" using assms(1) by (auto simp: full_def extent_of_def)
  then show ?thesis using assms(3,4) c by (simp add: io_target_def)
qed

lemma full_overwrite:
  assumes "full (pre @ f # post)" and "pos + length chunk \<le> x_len f"
  shows "full (pre @ f\<lparr>x_bytes := overwrite (x_bytes f) pos chunk\<rparr> # post)"
  using assms by (auto simp: full_def overwrite_def)

lemma io_round_write:
  assumes "disk_ok st" and "\<forall>k. os_open os k \<noteq> NoSpace" and "fuel \<noteq> 0"
    and "write_pos off0 (unat (io_off io)) lim m io (layout st)" and "io_len io \<noteq> 0"
    and "lim = unat (io_off io) + unat (io_len io)" and "lim \<le> unat (m_total_files_length st)"
    and "unat (io_len io) \<le> length (io_buf io)" and "off0 \<le> unat (io_off io)"
  shows "\<exists>r st' n. io_round fuel os now True io st = Some (r, st') \<and> disk_ok st' \<and>
    m_total_files_length st' = m_total_files_length st \<and> n \<le> unat (io_len io) \<and>
    (\<forall>x. byte_at st' x = (if unat (io_off io) \<le> x \<and> x < unat (io_off io) + n then Some (io_buf io ! (x - unat (io_off io))) else byte_at st x)) \<and>
    (case r of Inl (ok, _) \<Rightarrow> ok \<longrightarrow> n = unat (io_len io)
     | Inr io' \<Rightarrow> n < unat (io_len io) \<and> unat (io_off io') = unat (io_off io) + n \<and> unat (io_len io') = unat (io_len io) - n \<and>
         io_buf io' = drop n (io_buf io) \<and> (\<exists>m'<m. write_pos off0 (unat (io_off io')) lim m' io' (layout st'))) \<and>
    (full (layout st) \<and> io_pbf io \<noteq> None \<longrightarrow> full (layout st') \<and> (case r of Inl _ \<Rightarrow> True | Inr io' \<Rightarrow> io_pbf io' \<noteq> None))"
proof -
  let ?off = "unat (io_off io)" and ?len = "unat (io_len io)" and ?stop = "Inl (False, io_rd io @ io_buf io)"
  have "?off \<le> unat (m_total_files_length st)" using assms(6,7) by simp
  from io_target_write[OF assms(1,4) this] obtain x where x: "io_target os True io st = Some x"
    "case x of Inl st' \<Rightarrow> keeps st st'
     | Inr (i, st') \<Rightarrow> (\<exists>pre f post. layout st' = pre @ f # post \<and> x_id f = i \<and> at_node ?off pre f post \<and>
           crossfree off0 lim (f # post) \<and> length post < m) \<and>
        disk_ok st' \<and> byte_at st' = byte_at st \<and> m_total_files_length st' = m_total_files_length st" by blast
  have stop: ?thesis if "io_round fuel os now True io st = Some (?stop, st')" "disk_ok st'" "byte_at st' = byte_at st"
    "m_total_files_length st' = m_total_files_length st" "full (layout st) \<and> io_pbf io \<noteq> None \<longrightarrow> full (layout st')" for st'
    by (rule exI[of _ ?stop], rule exI[of _ st'], rule exI[of _ 0]) (use that in auto)
  show ?thesis
  proof (cases x)
    case (Inl st')
    then have k: "keeps st st'" using x(2) by simp
    have "io_round fuel os now True io st = Some (?stop, st')" using x(1) Inl by (simp add: io_round_def)
    from stop[OF this keeps_disk_ok[OF k assms(1)] keeps_bytes[OF k]] k show ?thesis by (simp add: keeps_def)
  next
    case (Inr y)
    then obtain i st1 pre f post where y: "y = (i, st1)" and l: "layout st1 = pre @ f # post" "x_id f = i" "at_node ?off pre f post"
      "crossfree off0 lim (f # post)" "length post < m" and d1: "disk_ok st1" and b1: "byte_at st1 = byte_at st"
      and t1: "m_total_files_length st1 = m_total_files_length st" using x(2) by (cases y) auto
    have T: "io_target os True io st = Some (Inr (x_id f, st1))" using x(1) Inr y l(2) by simp
    have F: "st1 = st \<and> i = x_id f" if full: "full (layout st)" and pbf: "io_pbf io \<noteq> None"
    proof -
      obtain k where k: "io_pbf io = Some k" using pbf by blast
      then obtain pre' f' post' where l': "layout st = pre' @ f' # post'" "x_id f' = k" using assms(4) by (auto simp: write_pos_def)
      with io_target_full[OF full l'(1) _ x(1)] k Inr y l(2) show ?thesis by simp
    qed
    show ?thesis
    proof (cases "\<exists>st'. io_round fuel os now True io st = Some (?stop, st') \<and> keeps st1 st'")
      case True
      then obtain st' where r: "io_round fuel os now True io st = Some (?stop, st')" and k: "keeps st1 st'" by blast
      from stop[OF r keeps_disk_ok[OF k d1]] k keeps_bytes[OF k] b1 t1 F show ?thesis by (auto simp: keeps_def)
    next
      case False
      then obtain st3 c cpre cpost where k: "keeps st1 st3" and c: "m_btfhead st3 = cpre @ c # cpost" "map extent_of cpre = pre"
        "extent_of c = f" "map extent_of cpost = post"
        and R: "io_round fuel os now True io st =
            (case io_write_file os now c (io_off io - bf_offset c) io st3 of
               ((False, nio), st) \<Rightarrow> Some (?stop, st)
             | ((True, nio), st) \<Rightarrow> map_option (\<lambda>x. (x, st)) (io_next (bf_id c) [] nio io st))"
        using io_round_open[OF d1 l(1) assms(2,3) T, of now] by auto
      have d3: "disk_ok st3" by (rule keeps_disk_ok[OF k d1])
      have t3: "m_total_files_length st3 = m_total_files_length st" using k t1 by (simp add: keeps_def)
      let ?t = "unat (m_total_files_length st)"
      define n where "n = min ?len (next_bound ?t f post - ?off)"
      obtain ok nio st4 q where W: "io_write_file os now c (io_off io - bf_offset c) io st3 = ((ok, nio), st4)" "unat nio = n" "q \<le> n"
        "ok \<longrightarrow> q = n" "disk_ok st4" "m_total_files_length st4 = m_total_files_length st"
        and l4: "layout st4 = pre @ f\<lparr>x_bytes := overwrite (x_bytes f) (?off - x_off f) (take q (io_buf io))\<rparr> # post"
        using io_write_file_spec[OF d3 c(1), of io os now] l(3) c(2-4) t3 assms(6-8) unfolding n_def by auto
      have n: "n \<le> ?len" by (simp add: n_def)
      have F4: "full (layout st4)" if full: "full (layout st)" and pbf: "io_pbf io \<noteq> None"
      proof -
        have fl: "full (pre @ f # post)" using F[OF full pbf] full l(1) by simp
        then have "\<not> x_stg f" "x_len f = length (x_bytes f)" by (simp_all add: full_def)
        then have "?off - x_off f + length (take q (io_buf io)) \<le> x_len f"
          using l(3) W(3) assms(8) by (auto simp: n_def next_bound_def at_node_def)
        with full_overwrite[OF fl this] show ?thesis using l4 by simp
      qed
      have lq: "length (take q (io_buf io)) = q" using W(3) n assms(8) by simp
      have by4: "byte_at st4 x = (if ?off \<le> x \<and> x < ?off + q then Some (io_buf io ! (x - ?off)) else byte_at st x)" for x
      proof -
        have "byte_at st x = byte_in (pre @ f # post) x" using b1 l(1) by (metis byte_at_def)
        then show ?thesis unfolding byte_at_def l4
          using byte_in_overwrite[of pre ?off f "take q (io_buf io)" post x] l(3) lq by (auto simp: at_node_def)
      qed
      show ?thesis
      proof (cases ok)
        case False
        then have "io_round fuel os now True io st = Some (?stop, st4)" using R W(1) by simp
        then show ?thesis using W by4 n F4 by (intro exI[of _ ?stop] exI[of _ st4] exI[of _ q]) simp
      next
        case True
        then have qn: "q = n" and R4: "io_round fuel os now True io st = map_option (\<lambda>x. (x, st4)) (io_next (bf_id c) [] nio io st4)"
          using R W(1,4) by simp_all
        have len': "unat (io_len io - ucast nio) = ?len - n" using unat_sub_nio[of nio "io_len io"] W(2) n by simp
        show ?thesis
        proof (cases "n = ?len")
          case all: True
          then have "io_len io - ucast nio = 0" using len' by (simp add: unat_eq_zero)
          then have "io_next (bf_id c) [] nio io st4 = Some (Inl (True, io_rd io @ drop (unat nio) (io_buf io)))"
            by (simp add: io_next_def Let_def)
          then show ?thesis using R4 W(5,6) by4 qn all F4
            by (intro exI[of _ "Inl (True, io_rd io @ drop (unat nio) (io_buf io))"] exI[of _ st4] exI[of _ n]) simp
        next
          case part: False
          let ?f = "f\<lparr>x_bytes := overwrite (x_bytes f) (?off - x_off f) (take q (io_buf io))\<rparr>"
          have lt: "n < ?len" using n part by simp
          then have nb: "n = next_bound ?t f post - ?off" by (simp add: n_def min_def split: if_splits)
          obtain dpre cc dpost where D: "m_btfhead st4 = dpre @ cc # dpost" "map extent_of dpost = post"
            "next_file (x_id ?f) st4 = (case dpost of [] \<Rightarrow> None | g # _ \<Rightarrow> Some g)"
            using node_of_layout[OF W(5) l4] by metis
          have lok: "layout_ok ?t (pre @ f # post)" using d1 l(1) t1 by (simp add: disk_ok_def)
          obtain lo lo1 e1 where ch: "chain (0, 0) pre = Some (lo1, e1)" "chain (lo1, e1) (f # post) = Some (lo, ?t)"
            using layout_okE[OF lok] chain_split by (metis surj_pair)
          have atf: "x_off f \<le> ?off" "?off \<le> x_end f" using l(3) by (simp_all add: at_node_def)
          have nbo: "?off \<le> next_bound ?t f post" using next_bound_ge[OF lok] atf by simp
          have pn: "post \<noteq> []"
          proof
            assume "post = []"
            then have "next_bound ?t f post = ?t" using ch by (auto simp: next_bound_def split: if_splits)
            then show False using nb lt assms(6,7) by simp
          qed
          then obtain g gs where g: "post = g # gs" by (cases post) auto
          have og: "x_off g = ?off + n"
          proof (cases "x_stg f")
            case True
            then show ?thesis using nb nbo g by (simp add: next_bound_def)
          next
            case real: False
            then have nn: "?off + n = x_off f + x_len f" using nb nbo by (simp add: next_bound_def)
            have "\<not> x_stg g"
            proof
              assume "x_stg g"
              then have "lim \<le> x_off f + x_len f" using l(4) g real nn assms(9) by simp
              then show False using nn lt assms(6) by simp
            qed
            then show ?thesis using ch(2) g real nn by (auto split: if_splits)
          qed
          obtain gg dgs where gg: "dpost = gg # dgs" "extent_of gg = g" using D(2) g by auto
          have nx: "next_file (bf_id c) st4 = Some gg" using D(3) gg(1) c(3) by auto
          have "io_off io + nio = bf_offset gg"
          proof -
            have "unat (io_off io) + unat nio < 18446744073709551616"
              using W(2) n assms(6,7) unat_u64_lt[of "m_total_files_length st"] by linarith
            then have "unat (io_off io + nio) = ?off + n" using u64_add W(2) by simp
            then show ?thesis using og gg(2) by (metis extent_sel(2) word_unat_eq_iff)
          qed
          moreover have "io_len io - ucast nio \<noteq> 0" using len' lt by auto
          ultimately have N: "io_next (bf_id c) [] nio io st4 = Some (Inr \<lparr>io_pbf = Some (bf_id gg), io_ref = Some (bf_id c),
              io_off = io_off io + nio, io_len = io_len io - ucast nio, io_buf = drop (unat nio) (io_buf io), io_rd = io_rd io\<rparr>)"
            using nx by (simp add: io_next_def Let_def)
          let ?io = "\<lparr>io_pbf = Some (bf_id gg), io_ref = Some (bf_id c),
              io_off = io_off io + nio, io_len = io_len io - ucast nio, io_buf = drop (unat nio) (io_buf io), io_rd = io_rd io\<rparr>"
          have uo: "unat (io_off io + nio) = ?off + n" using \<open>io_off io + nio = bf_offset gg\<close> og gg(2) by auto
          have fe: "x_end ?f \<le> ?off + n"
          proof -
            have "x_end f \<le> ?off + n" using next_bound_ge[OF lok] nb nbo by simp
            then show ?thesis using atf lq qn by (simp add: overwrite_def)
          qed
          have "write_pos off0 (?off + n) lim (length post) ?io (layout st4)"
            unfolding write_pos_def iostate.simps option.case
            by (rule exI[of _ "pre @ [?f]"], rule exI[of _ g], rule exI[of _ gs])
              (use l4 g gg(2) og fe l(3,4) in \<open>auto simp: at_node_def\<close>)
          then show ?thesis using R4 N W(2,5,6) by4 qn n lt uo len' l(5) F4
            by (intro exI[of _ "Inr ?io"] exI[of _ st4] exI[of _ n]) auto
        qed
      qed
    qed
  qed
qed

section \<open>The whole write\<close>

lemma io_loop_write:
  assumes "disk_ok st" and "\<forall>k. os_open os k \<noteq> NoSpace" and "fuel \<noteq> 0"
    and "io_len io \<noteq> 0 \<longrightarrow> write_pos off0 (unat (io_off io)) lim m io (layout st)"
    and "lim = unat (io_off io) + unat (io_len io)" and "lim \<le> unat (m_total_files_length st)"
    and "unat (io_len io) \<le> length (io_buf io)" and "off0 \<le> unat (io_off io)"
  shows "\<exists>ok rd st' n. io_loop fuel os now True io st = Some ((ok, rd), st') \<and> disk_ok st' \<and>
    m_total_files_length st' = m_total_files_length st \<and> n \<le> unat (io_len io) \<and> (ok \<longrightarrow> n = unat (io_len io)) \<and>
    (\<forall>x. byte_at st' x = (if unat (io_off io) \<le> x \<and> x < unat (io_off io) + n then Some (io_buf io ! (x - unat (io_off io))) else byte_at st x)) \<and>
    (full (layout st) \<and> (io_len io = 0 \<or> io_pbf io \<noteq> None) \<longrightarrow> full (layout st'))"
  using assms
proof (induction m arbitrary: io st rule: less_induct)
  case (less m)
  let ?off = "unat (io_off io)" and ?len = "unat (io_len io)"
  show ?case
  proof (cases "io_len io = 0")
    case True
    then have "io_loop fuel os now True io st = Some ((True, io_rd io @ io_buf io), st)" by (subst io_loop.simps) simp
    then show ?thesis using less.prems(1) True by (intro exI[of _ True] exI[of _ "io_rd io @ io_buf io"] exI[of _ st] exI[of _ 0]) auto
  next
    case False
    from io_round_write[OF less.prems(1-3) _ False less.prems(5-8)] less.prems(4) False obtain r st1 n where
      R: "io_round fuel os now True io st = Some (r, st1)" "disk_ok st1" "m_total_files_length st1 = m_total_files_length st" "n \<le> ?len"
      "\<And>x. byte_at st1 x = (if ?off \<le> x \<and> x < ?off + n then Some (io_buf io ! (x - ?off)) else byte_at st x)"
      and C: "case r of Inl (ok, _) \<Rightarrow> ok \<longrightarrow> n = ?len
     | Inr io' \<Rightarrow> n < ?len \<and> unat (io_off io') = ?off + n \<and> unat (io_len io') = ?len - n \<and>
         io_buf io' = drop n (io_buf io) \<and> (\<exists>m'<m. write_pos off0 (unat (io_off io')) lim m' io' (layout st1))"
      and F: "full (layout st) \<and> io_pbf io \<noteq> None \<longrightarrow> full (layout st1) \<and> (case r of Inl _ \<Rightarrow> True | Inr io' \<Rightarrow> io_pbf io' \<noteq> None)"
      by blast
    show ?thesis
    proof (cases r)
      case (Inl p)
      then obtain ok rd where p: "r = Inl (ok, rd)" by (cases p) auto
      then have "io_loop fuel os now True io st = Some ((ok, rd), st1)" using R(1) False by (subst io_loop.simps) simp
      then show ?thesis using R p C F False by (intro exI[of _ ok] exI[of _ rd] exI[of _ st1] exI[of _ n]) simp
    next
      case (Inr io')
      then obtain m' where C': "n < ?len" "unat (io_off io') = ?off + n" "unat (io_len io') = ?len - n"
         "io_buf io' = drop n (io_buf io)" "m' < m" "write_pos off0 (unat (io_off io')) lim m' io' (layout st1)" using C by auto
      have L: "io_loop fuel os now True io st = io_loop fuel os now True io' st1" using R(1) False Inr by (subst io_loop.simps) simp
      have "io_len io' \<noteq> 0 \<longrightarrow> write_pos off0 (unat (io_off io')) lim m' io' (layout st1)"
        "lim = unat (io_off io') + unat (io_len io')" "lim \<le> unat (m_total_files_length st1)"
        "unat (io_len io') \<le> length (io_buf io')" "off0 \<le> unat (io_off io')"
        using C'(1-4,6) R(3) less.prems(5-8) by simp_all
      from less.IH[OF C'(5) R(2) less.prems(2,3) this] obtain ok rd st2 k where
        I: "io_loop fuel os now True io' st1 = Some ((ok, rd), st2)" "disk_ok st2" "m_total_files_length st2 = m_total_files_length st1"
        "k \<le> unat (io_len io')" "ok \<longrightarrow> k = unat (io_len io')"
        "\<And>x. byte_at st2 x = (if unat (io_off io') \<le> x \<and> x < unat (io_off io') + k then Some (io_buf io' ! (x - unat (io_off io'))) else byte_at st1 x)"
        "full (layout st1) \<and> (io_len io' = 0 \<or> io_pbf io' \<noteq> None) \<longrightarrow> full (layout st2)"
        by blast
      have F2: "full (layout st) \<and> (io_len io = 0 \<or> io_pbf io \<noteq> None) \<longrightarrow> full (layout st2)" using F I(7) Inr False by auto
      have "byte_at st2 x = (if ?off \<le> x \<and> x < ?off + (n + k) then Some (io_buf io ! (x - ?off)) else byte_at st x)" for x
        using I(4) I(6)[of x] R(5)[of x] C'(2-4) less.prems(7) by (auto simp: nth_drop)
      then show ?thesis using L I(1-5) R(3) C' F2 by (intro exI[of _ ok] exI[of _ rd] exI[of _ st2] exI[of _ "n + k"]) auto
    qed
  qed
qed

lemma crossfree_later: "crossfree off lim (pre @ f # post) \<Longrightarrow> crossfree off lim (f # post)"
  by (rule crossfree_append)

lemma io_find_write_pos:
  assumes "disk_ok st" and "unat off < unat (m_total_files_length st)" and "crossfree (unat off) lim (layout st)"
    and "io_find True off None (m_btfhead st) = (p, r)"
  shows "write_pos (unat off) (unat off) lim (length (layout st)) \<lparr>io_pbf = p, io_ref = r, io_off = off, io_len = len, io_buf = buf, io_rd = rd\<rparr> (layout st)"
proof -
  obtain lo where c: "chain (0, 0) (layout st) = Some (lo, unat (m_total_files_length st))" "layout st \<noteq> []" "\<not> x_stg (hd (layout st))"
    using assms(1) layout_okE unfolding disk_ok_def by metis
  note S = io_find_spec[OF c(1)[unfolded layout_def] _ _ disk_ok_sizes[OF assms(1)] assms(2), where iotype = True and ref = None, folded layout_def, simplified]
  show ?thesis
  proof (cases p)
    case (Some i)
    then have "hits True (unat off) (layout st) i" using S assms(4) by simp
    then obtain pre f post where f: "layout st = pre @ f # post" "x_id f = i" "x_off f \<le> unat off" "unat off \<le> x_end f"
      "\<forall>g\<in>set pre. x_end g \<le> unat off" unfolding hits_def by blast
    then show ?thesis using crossfree_later[of "unat off" lim pre f post] assms(3) Some unfolding write_pos_def at_node_def
      by (simp, intro exI[of _ pre] exI[of _ f] exI[of _ post]) auto
  next
    case None
    then have "misses (unat off) (layout st) None r" using S assms(4) by simp
    then obtain pre post where f: "layout st = pre @ post" "\<forall>g\<in>set pre. x_end g \<le> unat off" "post = [] \<or> unat off < x_off (hd post)"
      "r = (if pre = [] then None else Some (x_id (last pre)))" unfolding misses_def by blast
    have "pre \<noteq> []"
    proof
      assume "pre = []"
      then have "unat off < x_off (hd (layout st))" using f(1,3) c(2) by auto
      moreover have "x_off (hd (layout st)) = 0" using c by (cases "layout st") (auto split: if_splits)
      ultimately show False by simp
    qed
    then obtain pre' q where q: "pre = pre' @ [q]" by (metis rev_exhaust)
    have "crossfree (unat off) lim post" using f(1) assms(3) crossfree_append by metis
    then show ?thesis using None f q unfolding write_pos_def
      by (simp, intro exI[of _ pre'] exI[of _ q] exI[of _ post]) auto
  qed
qed

text \<open>In a preallocated layout every offset lies in a file.\<close>

lemma chain_full_end:
  "full fs \<Longrightarrow> chain (lo, e) fs = Some (lo', t) \<Longrightarrow> e \<le> off \<Longrightarrow> \<forall>g\<in>set fs. x_end g \<le> off \<Longrightarrow> t \<le> off"
proof (induction fs arbitrary: lo e)
  case (Cons f fs)
  then show ?case using Cons.IH[of "x_off f" "x_off f + x_len f"] by (auto simp: full_def split: if_splits)
qed simp

lemma chain_full_bytes:
  "full fs \<Longrightarrow> chain (lo, e) fs = Some (lo', t) \<Longrightarrow> e \<le> x \<Longrightarrow> x < t \<Longrightarrow> byte_in fs x \<noteq> None"
proof (induction fs arbitrary: lo e)
  case (Cons f fs)
  then show ?case using Cons.IH[of "x_off f" "x_off f + x_len f"] by (auto simp: full_def split: if_splits)
qed simp

lemma full_no_miss:
  assumes "disk_ok st" and "full (layout st)" and "off < unat (m_total_files_length st)"
  shows "\<not> misses off (layout st) None r"
proof
  assume "misses off (layout st) None r"
  then obtain pre post where p: "layout st = pre @ post" "\<forall>g\<in>set pre. x_end g \<le> off" "post = [] \<or> off < x_off (hd post)"
    unfolding misses_def by blast
  obtain lo where "chain (0, 0) (pre @ post) = Some (lo, unat (m_total_files_length st))"
    using assms(1) p(1) layout_okE unfolding disk_ok_def by metis
  then obtain y where y: "chain (0, 0) pre = Some y" "chain y post = Some (lo, unat (m_total_files_length st))"
    by (auto simp: chain_append bind_eq_Some_conv)
  obtain lo1 e1 where "y = (lo1, e1)" by (cases y)
  with y have c: "chain (0, 0) pre = Some (lo1, e1)" "chain (lo1, e1) post = Some (lo, unat (m_total_files_length st))" by simp_all
  have e: "e1 \<le> off" using chain_full_end[OF _ c(1) _ p(2)] assms(2) p(1) by (simp add: full_def)
  show False
  proof (cases post)
    case Nil
    then show False using c(2) e assms(3) by simp
  next
    case (Cons g gs)
    then have "x_off g = e1" using c(2) assms(2) p(1) by (auto simp: full_def split: if_splits)
    then show False using p(3) Cons e by simp
  qed
qed

lemma full_bytes:
  assumes "disk_ok st" and "full (layout st)" and "x < unat (m_total_files_length st)"
  shows "byte_at st x \<noteq> None"
proof -
  obtain lo where "chain (0, 0) (layout st) = Some (lo, unat (m_total_files_length st))"
    using assms(1) layout_okE unfolding disk_ok_def by metis
  from chain_full_bytes[OF assms(2) this _ assms(3)] show ?thesis by (simp add: byte_at_def)
qed

lemma full_find:
  assumes "disk_ok st" and "full (layout st)" and "unat off < unat (m_total_files_length st)"
    and "io_find iotype off None (m_btfhead st) = (p, r)"
  shows "p \<noteq> None"
proof
  assume "p = None"
  obtain lo where c: "chain (0, 0) (layout st) = Some (lo, unat (m_total_files_length st))"
    using assms(1) layout_okE unfolding disk_ok_def by metis
  note S = io_find_spec[OF c[unfolded layout_def] _ _ disk_ok_sizes[OF assms(1)] assms(3), where iotype = iotype and ref = None, folded layout_def, simplified]
  from S assms(4) \<open>p = None\<close> full_no_miss[OF assms(1-3), of r] show False by simp
qed

lemma full_Cons: "full (f # fs) \<longleftrightarrow> \<not> x_stg f \<and> length (x_bytes f) = x_len f \<and> full fs"
  by (auto simp: full_def)

lemma full_crossfree: "full fs \<Longrightarrow> crossfree off lim fs"
proof (induction fs)
  case (Cons f fs)
  then show ?case by (cases fs) (simp_all add: full_Cons)
qed simp

lemma btf_IO_write:
  assumes "disk_ok st" and "\<forall>k. os_open os k \<noteq> NoSpace" and "fuel \<noteq> 0" and "unat len \<le> length buf"
    and "unat off + unat len < 18446744073709551616" and "crossfree (unat off) (unat off + unat len) (layout st)"
  shows "\<exists>ok out st' n. btf_IO fuel os now True buf off len st = Some ((ok, out), st') \<and> disk_ok st' \<and>
    m_total_files_length st' = m_total_files_length st \<and> (full (layout st) \<longrightarrow> full (layout st')) \<and>
    n \<le> unat len \<and> (ok \<longrightarrow> n = unat len) \<and>
    byte_at st' = (\<lambda>x. if unat off \<le> x \<and> x < unat off + n then Some (buf ! (x - unat off)) else byte_at st x)"
proof -
  have s: "unat (off + ucast len) = unat off + unat len" using assms(5) u64_add[of off "ucast len"] by (simp add: unat_ucast_len)
  show ?thesis
  proof (cases "m_total_files_length st < off + ucast len")
    case True
    then have "btf_IO fuel os now True buf off len st = Some ((False, buf), st)" by (simp add: btf_IO_def)
    then show ?thesis using assms(1) by (intro exI[of _ False] exI[of _ buf] exI[of _ st] exI[of _ 0]) (auto simp: fun_eq_iff)
  next
    case False
    then have t: "unat off + unat len \<le> unat (m_total_files_length st)" using s by (simp add: word_less_nat_alt)
    obtain p r where pr: "io_find True off None (m_btfhead st) = (p, r)" by (metis surj_pair)
    let ?io = "\<lparr>io_pbf = p, io_ref = r, io_off = off, io_len = len, io_buf = buf, io_rd = []\<rparr>"
    have I: "btf_IO fuel os now True buf off len st = io_loop fuel os now True ?io st" using False pr by (simp add: btf_IO_def)
    have P: "io_len ?io \<noteq> 0 \<longrightarrow> write_pos (unat off) (unat (io_off ?io)) (unat off + unat len) (length (layout st)) ?io (layout st)"
    proof
      assume "io_len ?io \<noteq> 0"
      then have "0 < unat len" by (simp add: unat_gt_0)
      then have "unat off < unat (m_total_files_length st)" using t by linarith
      from io_find_write_pos[OF assms(1) this assms(6) pr]
      show "write_pos (unat off) (unat (io_off ?io)) (unat off + unat len) (length (layout st)) ?io (layout st)" by simp
    qed
    have Q: "full (layout st) \<Longrightarrow> io_len ?io = 0 \<or> io_pbf ?io \<noteq> None"
    proof (simp, rule disjCI)
      assume f: "full (layout st)" and "\<nexists>y. p = Some y"
      then have "p = None" by simp
      then have "\<not> unat off < unat (m_total_files_length st)" using full_find[OF assms(1) f _ pr] by auto
      then have "unat len = 0" using t by linarith
      then show "len = 0" by (simp add: unat_eq_zero)
    qed
    have "unat off + unat len = unat (io_off ?io) + unat (io_len ?io)" "unat (io_len ?io) \<le> length (io_buf ?io)" "unat off \<le> unat (io_off ?io)"
      using assms(4) by simp_all
    from io_loop_write[OF assms(1-3) P this(1) t this(2,3), unfolded iostate.simps]
    obtain ok rd st' n where L: "io_loop fuel os now True ?io st = Some ((ok, rd), st')" "disk_ok st'" "n \<le> unat len" "ok \<longrightarrow> n = unat len"
      "\<forall>x. byte_at st' x = (if unat off \<le> x \<and> x < unat off + n then Some (buf ! (x - unat off)) else byte_at st x)"
      "m_total_files_length st' = m_total_files_length st" "full (layout st) \<longrightarrow> full (layout st')"
      using Q unfolding iostate.simps by blast
    have "byte_at st' = (\<lambda>x. if unat off \<le> x \<and> x < unat off + n then Some (buf ! (x - unat off)) else byte_at st x)"
      using L(5) by (intro ext) (rule spec)
    then show ?thesis unfolding I using L(1-4,6,7) by blast
  qed
qed


section \<open>Reading\<close>

text \<open>
  Reading goes on with the next node of the list where a file ends, so the first staging file behind a file
  must reach at least as far as what is written of the file.
\<close>

fun unstale :: "extent list \<Rightarrow> bool" where
  "unstale (f # g # fs) \<longleftrightarrow> (\<not> x_stg f \<and> x_stg g \<longrightarrow> x_end f \<le> x_end g) \<and> unstale (g # fs)"
| "unstale fs \<longleftrightarrow> True"

lemma full_unstale: "full fs \<Longrightarrow> unstale fs"
proof (induction fs)
  case (Cons f fs)
  then show ?case by (cases fs) (simp_all add: full_Cons)
qed simp

lemma unstale_append: "unstale (xs @ ys) \<Longrightarrow> unstale ys"
proof (induction xs)
  case (Cons x xs)
  then show ?case by (cases "xs @ ys") auto
qed simp

definition read_pos :: "nat \<Rightarrow> nat \<Rightarrow> iostate \<Rightarrow> extent list \<Rightarrow> bool" where
  "read_pos off m io fs \<longleftrightarrow>
     (case io_pbf io of Some i \<Rightarrow> \<exists>pre f post. fs = pre @ f # post \<and> x_id f = i \<and> at_node off pre f post \<and> length post < m | None \<Rightarrow> True)"

definition bytes_at :: "btfiles \<Rightarrow> nat \<Rightarrow> nat \<Rightarrow> u8 option list" where
  "bytes_at st off n = map (byte_at st) [off..<off + n]"

lemma bytes_at_append: "bytes_at st off (m + n) = bytes_at st off m @ bytes_at st (off + m) n"
proof -
  have "[off..<off + (m + n)] = [off..<off + m] @ [off + m..<off + m + n]"
    using upt_add_eq_append[of off "off + m" n] by (simp add: add.assoc)
  then show ?thesis by (simp add: bytes_at_def)
qed

lemma read_bytes:
  assumes "layout st = pre @ f # post" and "at_node off pre f post" and "off + n \<le> x_end f"
  shows "bytes_at st off n = map Some (take n (drop (off - x_off f) (x_bytes f)))"
proof (rule nth_equalityI)
  fix j assume "j < length (bytes_at st off n)"
  then have j: "j < n" by (simp add: bytes_at_def)
  have p: "byte_in pre (off + j) = None" using assms(2) by (intro byte_in_ended) (auto simp: at_node_def)
  have o: "x_off f \<le> off" using assms(2) by (simp add: at_node_def)
  have "bytes_at st off n ! j = byte_at st (off + j)" using j by (simp add: bytes_at_def)
  also have "\<dots> = Some (x_bytes f ! (off + j - x_off f))" using p o j assms(1,3) by (auto simp: byte_at_def byte_in_append)
  also have "off + j - x_off f = off - x_off f + j" using o by simp
  also have "Some (x_bytes f ! (off - x_off f + j)) = map Some (take n (drop (off - x_off f) (x_bytes f))) ! j"
    using j o assms(3) by simp
  finally show "bytes_at st off n ! j = map Some (take n (drop (off - x_off f) (x_bytes f))) ! j" .
qed (use assms in \<open>auto simp: bytes_at_def at_node_def\<close>)

lemma io_read_file_spec:
  assumes "disk_ok st" and "m_btfhead st = cpre @ c # cpost"
    and "at_node (unat (io_off io)) (map extent_of cpre) (extent_of c) (map extent_of cpost)"
    and "unat (io_len io) \<le> length (io_buf io)"
  defines "n \<equiv> min (unat (io_len io)) (x_end (extent_of c) - unat (io_off io))"
  shows "\<exists>ok got nio. io_read_file os c (io_off io - bf_offset c) io st = ((ok, got, nio), calls st) \<and> unat nio = n \<and>
    (ok \<longrightarrow> map Some got = bytes_at st (unat (io_off io)) n)"
proof -
  let ?f = "extent_of c" and ?off = "unat (io_off io)" and ?len = "unat (io_len io)"
  have sz: "unat (bf_size c) \<le> length (bf_data c)" using assms(1,2) by (simp add: disk_ok_def sizes_ok_def)
  have xb: "length (x_bytes ?f) = unat (bf_size c)" using sz by (simp add: extent_of_def)
  have at: "unat (bf_offset c) \<le> ?off" "?off \<le> unat (bf_offset c) + unat (bf_size c)" using assms(3) xb by (simp_all add: at_node_def)
  define pos where "pos = io_off io - bf_offset c"
  have pos: "unat pos = ?off - unat (bf_offset c)" unfolding pos_def using at(1) by (simp add: u64_sub word_le_nat_alt)
  have "pos \<le> bf_size c" using pos at by (simp add: word_le_nat_alt)
  then have d: "unat (bf_size c - pos) = unat (bf_offset c) + unat (bf_size c) - ?off" using pos at by (simp add: u64_sub)
  define nio where "nio = (if ucast (io_len io) \<le> bf_size c - pos then ucast (io_len io) else bf_size c - pos)"
  have nio: "unat nio = n" using d xb by (simp add: nio_def n_def word_le_nat_alt unat_ucast_len)
  have "n \<le> unat (bf_size c) - unat pos" using pos at xb by (auto simp: n_def)
  then have "take n (drop (unat pos) (bf_data c)) = take n (drop (unat pos) (x_bytes ?f))"
    by (simp add: extent_of_def drop_take take_take min_absorb1)
  moreover have "length (take n (drop (unat pos) (bf_data c))) = n" using \<open>n \<le> _\<close> sz by simp
  moreover have "bytes_at st ?off n = map Some (take n (drop (?off - x_off ?f) (x_bytes ?f)))"
    using assms(2,3) xb at by (intro read_bytes) (auto simp: layout_def n_def)
  moreover have "n \<le> length (io_buf io)" using assms(4) by (simp add: n_def)
  ultimately show ?thesis unfolding io_read_file_def pos_def[symmetric] nio_def[symmetric] Let_def using nio pos by auto
qed

lemma io_round_read:
  assumes "disk_ok st" and "\<forall>k. os_open os k \<noteq> NoSpace" and "fuel \<noteq> 0" and "unstale (layout st)"
    and "read_pos (unat (io_off io)) m io (layout st)" and "io_len io \<noteq> 0" and "unat (io_len io) \<le> length (io_buf io)"
    and "None \<notin> set (bytes_at st (unat (io_off io)) (unat (io_len io)))"
    and "unat (io_off io) + unat (io_len io) \<le> unat (m_total_files_length st)"
  shows "\<exists>r st'. io_round fuel os now False io st = Some (r, st') \<and> keeps st st' \<and>
    (case r of Inl (ok, out) \<Rightarrow> ok \<longrightarrow> (\<exists>got. map Some got = bytes_at st (unat (io_off io)) (unat (io_len io)) \<and>
         out = io_rd io @ got @ drop (unat (io_len io)) (io_buf io))
     | Inr io' \<Rightarrow> \<exists>n got m'. n < unat (io_len io) \<and> unat (io_off io') = unat (io_off io) + n \<and> unat (io_len io') = unat (io_len io) - n \<and>
         io_buf io' = drop n (io_buf io) \<and> io_rd io' = io_rd io @ got \<and> map Some got = bytes_at st (unat (io_off io)) n \<and>
         m' < m \<and> read_pos (unat (io_off io')) m' io' (layout st))"
proof -
  let ?off = "unat (io_off io)" and ?len = "unat (io_len io)" and ?stop = "Inl (False, io_rd io @ io_buf io)"
  show ?thesis
  proof (cases "io_pbf io")
    case None
    then have "io_round fuel os now False io st = Some (?stop, st)" by (simp add: io_round_def io_target_def)
    then show ?thesis by (intro exI[of _ ?stop] exI[of _ st]) simp
  next
    case (Some i)
    then obtain pre f post where l: "layout st = pre @ f # post" "x_id f = i" "at_node ?off pre f post" "length post < m"
      using assms(5) by (auto simp: read_pos_def)
    obtain c0 where "node (x_id f) st = Some c0" using node_of_layout[OF assms(1) l(1)] by metis
    then have T: "io_target os False io st = Some (Inr (x_id f, st))" using Some l(2) by (simp add: io_target_def)
    show ?thesis
    proof (cases "\<exists>st'. io_round fuel os now False io st = Some (?stop, st') \<and> keeps st st'")
      case True
      then obtain st' where "io_round fuel os now False io st = Some (?stop, st')" "keeps st st'" by blast
      then show ?thesis by (intro exI[of _ ?stop] exI[of _ st']) simp
    next
      case False
      then obtain st3 c cpre cpost where k: "keeps st st3" and c: "m_btfhead st3 = cpre @ c # cpost" "map extent_of cpre = pre"
        "extent_of c = f" "map extent_of cpost = post"
        and R: "io_round fuel os now False io st =
            (case io_read_file os c (io_off io - bf_offset c) io st3 of
               ((False, got, nio), st) \<Rightarrow> Some (?stop, st)
             | ((True, got, nio), st) \<Rightarrow> map_option (\<lambda>x. (x, st)) (io_next (bf_id c) got nio io st))"
        using io_round_open[OF assms(1) l(1) assms(2,3) T, of now] by auto
      have d3: "disk_ok st3" by (rule keeps_disk_ok[OF k assms(1)])
      have b3: "bytes_at st3 = bytes_at st" using keeps_bytes[OF k] by (simp add: bytes_at_def fun_eq_iff)
      define n where "n = min ?len (x_end f - ?off)"
      obtain ok got nio where W: "io_read_file os c (io_off io - bf_offset c) io st3 = ((ok, got, nio), calls st3)" "unat nio = n"
        "ok \<longrightarrow> map Some got = bytes_at st ?off n"
        using io_read_file_spec[OF d3 c(1), of io os] l(3) c(2-4) assms(7) b3 unfolding n_def by auto
      have k4: "keeps st (calls st3)" by (rule keeps_trans[OF k keeps_calls])
      have l4: "layout (calls st3) = pre @ f # post" using k4 l(1) by (simp add: keeps_def)
      have n: "n \<le> ?len" by (simp add: n_def)
      show ?thesis
      proof (cases ok)
        case False
        then have "io_round fuel os now False io st = Some (?stop, calls st3)" using R W(1) by simp
        then show ?thesis using k4 by (intro exI[of _ ?stop] exI[of _ "calls st3"]) simp
      next
        case True
        then have got: "map Some got = bytes_at st ?off n"
          and R4: "io_round fuel os now False io st = map_option (\<lambda>x. (x, calls st3)) (io_next (bf_id c) got nio io (calls st3))"
          using R W(1,3) by simp_all
        have len': "unat (io_len io - ucast nio) = ?len - n" using unat_sub_nio[of nio "io_len io"] W(2) n by simp
        show ?thesis
        proof (cases "n = ?len")
          case all: True
          then have "io_len io - ucast nio = 0" using len' by (simp add: unat_eq_zero)
          then have "io_next (bf_id c) got nio io (calls st3) = Some (Inl (True, io_rd io @ got @ drop (unat nio) (io_buf io)))"
            by (simp add: io_next_def Let_def)
          then show ?thesis using R4 k4 got all W(2)
            by (intro exI[of _ "Inl (True, io_rd io @ got @ drop (unat nio) (io_buf io))"] exI[of _ "calls st3"]) auto
        next
          case part: False
          have lt: "n < ?len" using n part by simp
          have atf: "x_off f \<le> ?off" "?off \<le> x_end f" "\<forall>g\<in>set pre. x_end g \<le> ?off" using l(3) by (simp_all add: at_node_def)
          have e: "?off + n = x_end f" using lt atf by (simp add: n_def min_def split: if_splits)
          have present: "byte_at st (x_end f) \<noteq> None"
          proof -
            have "byte_at st (x_end f) \<in> set (bytes_at st ?off ?len)"
              unfolding bytes_at_def using e lt by (metis imageI set_map atLeastLessThan_iff le_add1 nat_add_left_cancel_less set_upt)
            then show ?thesis using assms(8) by metis
          qed
          have ended: "\<forall>g\<in>set (pre @ [f]). x_end g \<le> x_end f" using atf by fastforce
          have pn: "post \<noteq> []"
          proof
            assume "post = []"
            then have "byte_at st (x_end f) = None" unfolding byte_at_def l(1) using byte_in_ended[OF ended] by simp
            then show False using present by simp
          qed
          then obtain g gs where g: "post = g # gs" by (cases post) auto
          obtain dpre cc dpost where D: "m_btfhead (calls st3) = dpre @ cc # dpost" "map extent_of dpost = post"
            "next_file (x_id f) (calls st3) = (case dpost of [] \<Rightarrow> None | g # _ \<Rightarrow> Some g)"
            using node_of_layout[OF keeps_disk_ok[OF k4 assms(1)] l4] by metis
          obtain gg dgs where gg: "dpost = gg # dgs" "extent_of gg = g" using D(2) g by auto
          have nx: "next_file (bf_id c) (calls st3) = Some gg" using D(3) gg(1) c(3) by auto
          have uo: "unat (io_off io + nio) = ?off + n"
          proof -
            have "?off + n < 18446744073709551616"
              using n assms(9) unat_u64_lt[of "m_total_files_length st"] by linarith
            then show ?thesis using u64_add[of "io_off io" nio] W(2) by simp
          qed
          have nz: "io_len io - ucast nio \<noteq> 0" using len' lt by auto
          let ?io = "\<lparr>io_pbf = (if io_off io + nio < bf_offset gg then None else Some (bf_id gg)), io_ref = Some (bf_id c),
              io_off = io_off io + nio, io_len = io_len io - ucast nio, io_buf = drop (unat nio) (io_buf io), io_rd = io_rd io @ got\<rparr>"
          have N: "io_next (bf_id c) got nio io (calls st3) = Some (Inr ?io)"
            using nx nz by (simp add: io_next_def Let_def)
          have "read_pos (?off + n) (length post) ?io (layout st)"
          proof (cases "io_off io + nio < bf_offset gg")
            case True
            then show ?thesis by (simp add: read_pos_def)
          next
            case False
            then have ge: "x_off g \<le> x_end f" using uo e gg(2) by (auto simp: word_less_nat_alt)
            have lok: "layout_ok (unat (m_total_files_length st)) (pre @ f # post)" using assms(1) l(1) by (simp add: disk_ok_def)
            have "x_end f \<le> x_end g"
            proof (cases "\<not> x_stg f \<and> x_stg g")
              case True
              then show ?thesis using unstale_append[of pre "f # g # gs"] assms(4) l(1) g by simp
            next
              case False
              obtain lo lo1 e1 where ch: "chain (lo1, e1) (f # g # gs) = Some (lo, unat (m_total_files_length st))"
                using layout_okE[OF lok] chain_split g by (metis surj_pair)
              have "x_end f \<le> x_off g"
                using ch False next_bound_ge[OF lok] g by (auto simp: next_bound_def split: if_splits)
              then show ?thesis by simp
            qed
            then have "at_node (?off + n) (pre @ [f]) g gs" using ge ended e by (simp add: at_node_def)
            then show ?thesis using False l(1) g gg(2) unfolding read_pos_def iostate.simps if_not_P[OF False] option.case
              by (intro exI[of _ "pre @ [f]"] exI[of _ g] exI[of _ gs]) auto
          qed
          then have C: "\<exists>na gota m'. na < ?len \<and> unat (io_off ?io) = ?off + na \<and> unat (io_len ?io) = ?len - na \<and>
              io_buf ?io = drop na (io_buf io) \<and> io_rd ?io = io_rd io @ gota \<and> map Some gota = bytes_at st ?off na \<and>
              m' < m \<and> read_pos (unat (io_off ?io)) m' ?io (layout st)"
            using lt uo len' W(2) got l(4) by (intro exI[of _ n] exI[of _ got] exI[of _ "length post"]) simp
          show ?thesis using R4 N k4 C by (intro exI[of _ "Inr ?io"] exI[of _ "calls st3"]) simp
        qed
      qed
    qed
  qed
qed

lemma io_loop_read:
  assumes "disk_ok st" and "\<forall>k. os_open os k \<noteq> NoSpace" and "fuel \<noteq> 0" and "unstale (layout st)"
    and "io_len io \<noteq> 0 \<longrightarrow> read_pos (unat (io_off io)) m io (layout st)" and "unat (io_len io) \<le> length (io_buf io)"
    and "None \<notin> set (bytes_at st (unat (io_off io)) (unat (io_len io)))"
    and "unat (io_off io) + unat (io_len io) \<le> unat (m_total_files_length st)"
  shows "\<exists>ok out st'. io_loop fuel os now False io st = Some ((ok, out), st') \<and> keeps st st' \<and>
    (ok \<longrightarrow> (\<exists>got. map Some got = bytes_at st (unat (io_off io)) (unat (io_len io)) \<and>
         out = io_rd io @ got @ drop (unat (io_len io)) (io_buf io)))"
  using assms
proof (induction m arbitrary: io st rule: less_induct)
  case (less m)
  let ?off = "unat (io_off io)" and ?len = "unat (io_len io)"
  show ?case
  proof (cases "io_len io = 0")
    case True
    then have "io_loop fuel os now False io st = Some ((True, io_rd io @ io_buf io), st)" by (subst io_loop.simps) simp
    then show ?thesis using True by (intro exI[of _ True] exI[of _ "io_rd io @ io_buf io"] exI[of _ st]) (auto simp: bytes_at_def)
  next
    case False
    from io_round_read[OF less.prems(1-4) _ False less.prems(6-8)] less.prems(5) False obtain r st1 where
      R: "io_round fuel os now False io st = Some (r, st1)" "keeps st st1"
      and C: "case r of Inl (ok, out) \<Rightarrow> ok \<longrightarrow> (\<exists>got. map Some got = bytes_at st ?off ?len \<and> out = io_rd io @ got @ drop ?len (io_buf io))
     | Inr io' \<Rightarrow> \<exists>n got m'. n < ?len \<and> unat (io_off io') = ?off + n \<and> unat (io_len io') = ?len - n \<and>
         io_buf io' = drop n (io_buf io) \<and> io_rd io' = io_rd io @ got \<and> map Some got = bytes_at st ?off n \<and>
         m' < m \<and> read_pos (unat (io_off io')) m' io' (layout st)"
      by blast
    show ?thesis
    proof (cases r)
      case (Inl p)
      then obtain ok out where p: "r = Inl (ok, out)" by (cases p) auto
      then have "io_loop fuel os now False io st = Some ((ok, out), st1)" using R(1) False by (subst io_loop.simps) simp
      then show ?thesis using R(2) C p by (intro exI[of _ ok] exI[of _ out] exI[of _ st1]) simp
    next
      case (Inr io')
      then obtain n got m' where C': "n < ?len" "unat (io_off io') = ?off + n" "unat (io_len io') = ?len - n"
         "io_buf io' = drop n (io_buf io)" "io_rd io' = io_rd io @ got" "map Some got = bytes_at st ?off n"
         "m' < m" "read_pos (unat (io_off io')) m' io' (layout st)" using C by auto
      have L: "io_loop fuel os now False io st = io_loop fuel os now False io' st1" using R(1) False Inr by (subst io_loop.simps) simp
      have l1: "layout st1 = layout st" "m_total_files_length st1 = m_total_files_length st" using R(2) by (simp_all add: keeps_def)
      have b1: "bytes_at st1 = bytes_at st" using keeps_bytes[OF R(2)] by (simp add: bytes_at_def fun_eq_iff)
      have sp: "bytes_at st ?off ?len = bytes_at st ?off n @ bytes_at st (?off + n) (?len - n)"
        using bytes_at_append[of st ?off n "?len - n"] C'(1) by simp
      have "io_len io' \<noteq> 0 \<longrightarrow> read_pos (unat (io_off io')) m' io' (layout st1)" "unat (io_len io') \<le> length (io_buf io')"
        "None \<notin> set (bytes_at st1 (unat (io_off io')) (unat (io_len io')))"
        "unat (io_off io') + unat (io_len io') \<le> unat (m_total_files_length st1)"
        using C' l1 b1 sp less.prems(6-8) by simp_all
      from less.IH[OF C'(7) keeps_disk_ok[OF R(2) less.prems(1)] less.prems(2,3) less.prems(4)[folded l1(1)] this] obtain ok out st2 where
        I: "io_loop fuel os now False io' st1 = Some ((ok, out), st2)" "keeps st1 st2"
        "ok \<longrightarrow> (\<exists>got. map Some got = bytes_at st1 (unat (io_off io')) (unat (io_len io')) \<and>
          out = io_rd io' @ got @ drop (unat (io_len io')) (io_buf io'))"
        by blast
      have "ok \<longrightarrow> (\<exists>got. map Some got = bytes_at st ?off ?len \<and> out = io_rd io @ got @ drop ?len (io_buf io))"
      proof
        assume ok
        then obtain got2 where g: "map Some got2 = bytes_at st (?off + n) (?len - n)" "out = io_rd io' @ got2 @ drop (?len - n) (io_buf io')"
          using I(3) b1 C'(2,3) by auto
        have "map Some (got @ got2) = bytes_at st ?off ?len" using sp C'(6) g(1) by simp
        moreover have "out = io_rd io @ (got @ got2) @ drop ?len (io_buf io)" using g(2) C'(1,4,5) by simp
        ultimately show "\<exists>got. map Some got = bytes_at st ?off ?len \<and> out = io_rd io @ got @ drop ?len (io_buf io)" by blast
      qed
      then show ?thesis using L I(1) keeps_trans[OF R(2) I(2)] by auto
    qed
  qed
qed

lemma io_find_read_pos:
  assumes "disk_ok st" and "unat off < unat (m_total_files_length st)" and "io_find False off None (m_btfhead st) = (p, r)"
  shows "read_pos (unat off) (length (layout st)) \<lparr>io_pbf = p, io_ref = r, io_off = off, io_len = len, io_buf = buf, io_rd = rd\<rparr> (layout st)"
proof (cases p)
  case (Some i)
  obtain lo where c: "chain (0, 0) (layout st) = Some (lo, unat (m_total_files_length st))"
    using assms(1) layout_okE unfolding disk_ok_def by metis
  note S = io_find_spec[OF c(1)[unfolded layout_def] _ _ disk_ok_sizes[OF assms(1)] assms(2), where iotype = False and ref = None, folded layout_def, simplified]
  then have "hits False (unat off) (layout st) i" using Some assms(3) by simp
  then obtain pre f post where f: "layout st = pre @ f # post" "x_id f = i" "x_off f \<le> unat off" "unat off \<le> x_end f"
      "\<forall>g\<in>set pre. x_end g \<le> unat off" unfolding hits_def by blast
  then show ?thesis using Some unfolding read_pos_def at_node_def
    by (simp, intro exI[of _ pre] exI[of _ f] exI[of _ post]) auto
qed (simp add: read_pos_def)

lemma btf_IO_read:
  assumes "disk_ok st" and "\<forall>k. os_open os k \<noteq> NoSpace" and "fuel \<noteq> 0" and "unstale (layout st)"
    and "unat len \<le> length buf" and "None \<notin> set (bytes_at st (unat off) (unat len))"
    and "unat off + unat len \<le> unat (m_total_files_length st)"
  shows "\<exists>ok out st'. btf_IO fuel os now False buf off len st = Some ((ok, out), st') \<and> keeps st st' \<and>
    (ok \<longrightarrow> map Some (take (unat len) out) = bytes_at st (unat off) (unat len) \<and> drop (unat len) out = drop (unat len) buf)"
proof -
  have "unat off + unat len < 18446744073709551616" using assms(7) unat_u64_lt[of "m_total_files_length st"] by linarith
  then have s: "unat (off + ucast len) = unat off + unat len" using u64_add[of off "ucast len"] by (simp add: unat_ucast_len)
  have F: "\<not> m_total_files_length st < off + ucast len" using s assms(7) by (simp add: word_less_nat_alt)
  obtain p r where pr: "io_find False off None (m_btfhead st) = (p, r)" by (metis surj_pair)
  let ?io = "\<lparr>io_pbf = p, io_ref = r, io_off = off, io_len = len, io_buf = buf, io_rd = []\<rparr>"
  have I: "btf_IO fuel os now False buf off len st = io_loop fuel os now False ?io st" using F pr by (simp add: btf_IO_def)
  have P: "io_len ?io \<noteq> 0 \<longrightarrow> read_pos (unat (io_off ?io)) (length (layout st)) ?io (layout st)"
  proof
    assume "io_len ?io \<noteq> 0"
    then have "0 < unat len" by (simp add: unat_gt_0)
    then have "unat off < unat (m_total_files_length st)" using assms(7) by linarith
    from io_find_read_pos[OF assms(1) this pr] show "read_pos (unat (io_off ?io)) (length (layout st)) ?io (layout st)" by simp
  qed
  have "unat (io_len ?io) \<le> length (io_buf ?io)" "None \<notin> set (bytes_at st (unat (io_off ?io)) (unat (io_len ?io)))"
    "unat (io_off ?io) + unat (io_len ?io) \<le> unat (m_total_files_length st)" using assms(5-7) by simp_all
  from io_loop_read[OF assms(1-4) P this, unfolded iostate.simps] obtain ok out st' where
    L: "io_loop fuel os now False ?io st = Some ((ok, out), st')" "keeps st st'"
    "ok \<longrightarrow> (\<exists>got. map Some got = bytes_at st (unat off) (unat len) \<and> out = [] @ got @ drop (unat len) buf)" by blast
  have "ok \<longrightarrow> map Some (take (unat len) out) = bytes_at st (unat off) (unat len) \<and> drop (unat len) out = drop (unat len) buf"
  proof
    assume ok
    then obtain got where g: "map Some got = bytes_at st (unat off) (unat len)" "out = got @ drop (unat len) buf" using L(3) by auto
    have "length got = unat len" using arg_cong[where f = length, OF g(1)] by (simp add: bytes_at_def)
    then show "map Some (take (unat len) out) = bytes_at st (unat off) (unat len) \<and> drop (unat len) out = drop (unat len) buf"
      using g by simp
  qed
  then show ?thesis unfolding I using L(1,2) by blast
qed


section \<open>Merging changes no byte\<close>

lemma chain_pre_ends:
  assumes "layout_ok t (pre @ f # post)" and "\<not> x_stg f"
  shows "\<forall>h\<in>set pre. x_end h \<le> x_off f"
proof -
  obtain lo where c: "chain (0, 0) (pre @ f # post) = Some (lo, t)" using layout_okE[OF assms(1)] .
  obtain lo1 e1 where q: "chain (0, 0) pre = Some (lo1, e1)" "chain (lo1, e1) (f # post) = Some (lo, t)"
    using c chain_split by (metis surj_pair)
  have "x_off f = e1" using q(2) assms(2) by (auto split: if_splits)
  then show ?thesis using chain_bounds[OF q(1)] by auto
qed

lemma staging_inside:
  assumes "layout_ok t (pre @ f # g # post)" and "\<not> x_stg f" and "x_stg g"
  shows "x_off f \<le> x_off g" and "x_end g \<le> x_off f + x_len f" and "layout_ok t (pre @ f # post)"
proof -
  obtain lo where c: "chain (0, 0) (pre @ f # g # post) = Some (lo, t)" and d: "distinct (map x_id (pre @ f # g # post))"
    and h: "\<not> x_stg (hd (pre @ f # g # post))" using layout_okE[OF assms(1)] .
  obtain lo1 e1 where q: "chain (0, 0) pre = Some (lo1, e1)" "chain (lo1, e1) (f # g # post) = Some (lo, t)"
    using c chain_split by (metis surj_pair)
  then have g: "x_off f \<le> x_off g" "x_end g \<le> x_off f + x_len f" "x_off f = e1" "length (x_bytes f) \<le> x_len f"
    "chain (x_end g, x_off f + x_len f) post = Some (lo, t)" using assms(2,3) by (auto split: if_splits)
  show "x_off f \<le> x_off g" "x_end g \<le> x_off f + x_len f" using g by simp_all
  have "\<exists>lo2. chain (x_off f, x_off f + x_len f) post = Some (lo2, t)"
  proof (cases post)
    case Nil
    then show ?thesis using g(5) by simp
  next
    case (Cons a as)
    then show ?thesis using chain_lower[OF g(5), of "x_off f"] g(1) by simp
  qed
  then have "map_option snd (chain (0, 0) (pre @ f # post)) = Some t"
    using q(1) g(3,4) assms(2) by (auto simp: chain_append)
  moreover have "\<not> x_stg (hd (pre @ f # post))" using h by (cases pre) auto
  ultimately show "layout_ok t (pre @ f # post)" using d by (auto simp: layout_ok_def)
qed

lemma layout_ends:
  assumes "layout_ok t fs" and "f \<in> set fs" shows "x_end f \<le> t"
proof -
  obtain lo where "chain (0, 0) fs = Some (lo, t)" using layout_okE[OF assms(1)] .
  from chain_bounds[OF this] assms(2) show ?thesis by simp
qed

lemma overwrite_end: "overwrite old (length old) chunk = old @ chunk"
  by (simp add: overwrite_def)

lemma byte_in_copy:
  assumes "layout_ok t (pre @ f # g # post)" and "\<not> x_stg f" and "x_stg g" and "x_off g \<le> x_end f"
    and "chunk = take n (drop (x_end f - x_off g) (x_bytes g))"
  shows "byte_in (pre @ f\<lparr>x_bytes := x_bytes f @ chunk\<rparr> # g # post) x = byte_in (pre @ f # g # post) x"
proof -
  have ends: "\<forall>h\<in>set pre. x_end h \<le> x_end f" using chain_pre_ends[OF assms(1,2)] by fastforce
  have old: "byte_in (pre @ f # g # post) x = Some (chunk ! (x - x_end f))" if x: "x_end f \<le> x" "x < x_end f + length chunk"
  proof -
    have "byte_in pre x = None" using ends x(1) by (intro byte_in_ended) auto
    moreover have "x < x_end g" using x assms(4,5) by simp
    moreover have "x_bytes g ! (x - x_off g) = chunk ! (x - x_end f)" using x assms(4,5) by simp
    ultimately show ?thesis using x assms(4) by (simp add: byte_in_append)
  qed
  have "byte_in (pre @ f\<lparr>x_bytes := overwrite (x_bytes f) (x_end f - x_off f) chunk\<rparr> # (g # post)) x =
    (if x_end f \<le> x \<and> x < x_end f + length chunk then Some (chunk ! (x - x_end f)) else byte_in (pre @ f # g # post) x)"
    by (rule byte_in_overwrite[OF ends]) simp_all
  then show ?thesis using old by (simp add: overwrite_end)
qed

lemma merge_copy_spec:
  assumes "disk_ok st" and "layout st = pre @ f # g # post" and "\<not> x_stg f" and "x_stg g"
    and "x_off g \<le> x_end f" and "x_end f \<le> x_end g" and "unat remain = x_end g - x_end f" and "unat pos = length (x_bytes f)"
    and "take (unat remain) sdata = drop (x_end f - x_off g) (x_bytes g)" and "unat remain \<le> length sdata" and "nio \<noteq> 0"
  shows "\<exists>ok st' b. merge_copy os now (x_id f) sdata nio pos remain st = Some (ok, st') \<and> disk_ok st' \<and>
    layout st' = pre @ f\<lparr>x_bytes := b\<rparr> # g # post \<and> byte_at st' = byte_at st \<and>
    m_total_files_length st' = m_total_files_length st \<and> (ok \<longrightarrow> x_end g \<le> x_off f + length b)"
  using assms
proof (induction "unat remain" arbitrary: st f sdata nio pos remain rule: less_induct)
  case less
  obtain cpre c cpost where c: "m_btfhead st = cpre @ c # cpost" "map extent_of cpre = pre" "extent_of c = f" "map extent_of cpost = g # post"
    "node (x_id f) st = Some c" using node_of_layout[OF less.prems(1,2)] by metis
  have id: "x_id f = bf_id c" using c(3) by auto
  have sz: "unat (bf_size c) \<le> length (bf_data c)" using less.prems(1) c(1) by (simp add: disk_ok_def sizes_ok_def)
  have xb: "length (x_bytes f) = unat (bf_size c)" using sz c(3) by (auto simp: extent_of_def)
  have lok: "layout_ok (unat (m_total_files_length st)) (pre @ f # g # post)" using less.prems(1,2) by (simp add: disk_ok_def)
  note ins = staging_inside[OF lok less.prems(3,4)]
  have dist: "distinct (map bf_id (m_btfhead st))" by (rule disk_ok_distinct[OF less.prems(1)])
  show ?case
  proof (cases "remain \<noteq> 0 \<and> bf_size c < bf_length c")
    case False
    then have M: "merge_copy os now (x_id f) sdata nio pos remain st = Some (True, st)" by (subst merge_copy.simps) (simp only: c(5) option.case False if_False)
    have "x_end g \<le> x_end f"
    proof (cases "remain = 0")
      case True
      then show ?thesis using less.prems(6,7) by simp
    next
      case r: False
      then have "unat (bf_length c) \<le> unat (bf_size c)" using False by (simp add: word_less_nat_alt)
      then have "x_len f \<le> length (x_bytes f)" using xb c(3) by auto
      then show ?thesis using ins(2) by simp
    qed
    then show ?thesis using M less.prems(1,2) by (intro exI[of _ True] exI[of _ st] exI[of _ "x_bytes f"]) simp
  next
    case True
    define n where "n = (if remain < nio then remain else nio)"
    have n: "n \<noteq> 0" "unat n \<le> unat remain" using True less.prems(11) by (auto simp: n_def word_less_nat_alt not_less)
    define chunk where "chunk = take (unat n) sdata @ replicate (unat n - length sdata) (os_stale os)"
    have ch: "chunk = take (unat n) (drop (x_end f - x_off g) (x_bytes g))"
      using n less.prems(9,10) by (simp add: chunk_def flip: less.prems(9))
    have lch: "length chunk = unat n" using n less.prems(10) by (simp add: chunk_def)
    have k0: "keeps st (calls st)" by simp
    show ?thesis
    proof (cases "os_read os (bs_calls st)")
      case False
      then have M: "merge_copy os now (x_id f) sdata nio pos remain st = Some (False, calls st)"
        using False by (subst merge_copy.simps) (simp only: c(5) option.case True if_True if_False simp_thms Let_def not_True_eq_False not_False_eq_True if_True)
      show ?thesis using M keeps_disk_ok[OF k0 less.prems(1)] keeps_bytes[OF k0] k0 less.prems(2)
        by (intro exI[of _ False] exI[of _ "calls st"] exI[of _ "x_bytes f"]) (simp add: keeps_def)
    next
      case rd: True
      show ?thesis
      proof (cases "os_write os (bs_calls st)")
        case (Some w)
        define st' where "st' = (upd_node (x_id f) (\<lambda>f. f\<lparr>bf_data := write_at (bf_data f) (unat pos) (take w chunk)\<rparr>) (calls st))
                            \<lparr>m_write_failed := True, m_write_tried := now\<rparr>"
        have M: "merge_copy os now (x_id f) sdata nio pos remain st = Some (False, st')"
          using rd Some by (subst merge_copy.simps) (simp only: c(5) option.case True if_True if_False simp_thms Let_def n_def[symmetric] chunk_def[symmetric] st'_def not_True_eq_False if_False)
        have "keeps (calls st) (upd_node (x_id f) (\<lambda>f. f\<lparr>bf_data := write_at (bf_data f) (unat pos) (take w chunk)\<rparr>) (calls st))"
        proof (rule keeps_upd)
          fix h assume h: "h \<in> set (m_btfhead (calls st))" "bf_id h = x_id f"
          then have "h = c" using node_unique[OF dist, of h] c(5) by (simp add: calls_def DiskAccess_def)
          then show "extent_of (h\<lparr>bf_data := write_at (bf_data h) (unat pos) (take w chunk)\<rparr>) = extent_of h \<and>
            (unat (bf_size h) \<le> length (bf_data h) \<longrightarrow>
             unat (bf_size (h\<lparr>bf_data := write_at (bf_data h) (unat pos) (take w chunk)\<rparr>)) \<le>
             length (bf_data (h\<lparr>bf_data := write_at (bf_data h) (unat pos) (take w chunk)\<rparr>)))"
            using extent_write_part[OF sz, of "unat pos" "take w chunk"] less.prems(8) xb c(3) by (auto simp: overwrite_def)
        qed
        then have k: "keeps st st'" unfolding st'_def using keeps_trans[OF k0] keeps_trans keeps_more(6) by blast
        show ?thesis using M keeps_disk_ok[OF k less.prems(1)] keeps_bytes[OF k] k less.prems(2)
          by (intro exI[of _ False] exI[of _ st'] exI[of _ "x_bytes f"]) (simp add: keeps_def)
      next
        case None
        let ?g = "\<lambda>f. f\<lparr>bf_data := write_at (bf_data f) (unat pos) chunk, bf_size := (if bf_size f < pos + n then pos + n else bf_size f)\<rparr>"
        define st1 where "st1 = (upd_node (x_id f) ?g (calls st))\<lparr>m_write_failed := False\<rparr>"
        have M: "merge_copy os now (x_id f) sdata nio pos remain st = merge_copy os now (x_id f) (drop (unat n) sdata) n (pos + n) (remain - n) st1"
          using rd None by (subst merge_copy.simps) (simp only: c(5) option.case True if_True if_False simp_thms Let_def n_def[symmetric] chunk_def[symmetric] st1_def not_True_eq_False if_False)
        have en: "x_end f + unat n \<le> x_end g" using n(2) less.prems(6,7) by simp
        have "x_end g \<le> unat (m_total_files_length st)"
          using layout_ends[OF lok] by simp
        then have small: "unat pos + unat n < 18446744073709551616"
          using en less.prems(8) unat_u64_lt[of "m_total_files_length st"] by linarith
        have up: "unat (pos + n) = length (x_bytes f) + unat n" using u64_add[OF small] less.prems(8) by simp
        have us: "unat (if bf_size c < pos + n then pos + n else bf_size c) = max (unat (bf_size c)) (unat pos + length chunk)"
          using up xb lch less.prems(8) by (auto simp: word_less_nat_alt max_def)
        have h: "m_btfhead st1 = cpre @ ?g c # cpost"
          using node_at(3)[of "calls st" cpre c cpost ?g] c(1) dist id by (simp add: st1_def calls_def DiskAccess_def)
        have pp: "unat pos \<le> unat (bf_size c)" using less.prems(8) xb by simp
        have x: "extent_of (?g c) = f\<lparr>x_bytes := x_bytes f @ chunk\<rparr>"
          using extent_write(1)[OF sz pp us] c(3) less.prems(8) xb overwrite_end[of "x_bytes f" chunk] by simp
        have s2: "unat (bf_size (?g c)) \<le> length (bf_data (?g c))" using extent_write(2)[OF sz pp us] by simp
        have tt: "m_total_files_length st1 = m_total_files_length st" "bs_next_id st1 = bs_next_id st" by (simp_all add: st1_def upd_node_def calls_def DiskAccess_def)
        have rm: "x_off (extent_of c) + length (x_bytes f @ chunk) \<le> next_bound (unat (m_total_files_length st)) (extent_of c) (map extent_of cpost)"
          using en ins(2) c(3) less.prems(3) lch by (auto simp: next_bound_def)
        note P = disk_ok_put[OF less.prems(1) c(1) h _ tt _ s2 _ rm, unfolded c(2-4)]
        have d1: "disk_ok st1" and l1: "layout st1 = pre @ f\<lparr>x_bytes := x_bytes f @ chunk\<rparr> # g # post" using P x c(3) by auto
        have b1: "byte_at st1 = byte_at st"
          using byte_in_copy[OF lok less.prems(3,4,5) ch] l1 less.prems(2) by (auto simp: byte_at_def)
        let ?f = "f\<lparr>x_bytes := x_bytes f @ chunk\<rparr>"
        have ur: "unat (remain - n) = unat remain - unat n" using n(2) by (simp add: u64_sub word_le_nat_alt)
        have lt: "unat (remain - n) < unat remain" using ur n by (metis diff_less le_zero_eq neq0_conv unat_gt_0)
        have "x_off g \<le> x_end ?f" "x_end ?f \<le> x_end g" "unat (remain - n) = x_end g - x_end ?f" "unat (pos + n) = length (x_bytes ?f)"
          using less.prems(5,7) en ur up lch by simp_all
        moreover have "take (unat (remain - n)) (drop (unat n) sdata) = drop (x_end ?f - x_off g) (x_bytes g)"
        proof -
          have "take (unat (remain - n)) (drop (unat n) sdata) = drop (unat n) (take (unat remain) sdata)"
            using ur by (simp add: drop_take)
          then show ?thesis using less.prems(5,9) lch by (simp add: ac_simps)
        qed
        moreover have "unat (remain - n) \<le> length (drop (unat n) sdata)" using ur less.prems(10) by simp
        moreover have "\<not> x_stg ?f" using less.prems(3) by simp
        ultimately obtain ok st' b where I: "merge_copy os now (x_id ?f) (drop (unat n) sdata) n (pos + n) (remain - n) st1 = Some (ok, st')"
          "disk_ok st'" "layout st' = pre @ ?f\<lparr>x_bytes := b\<rparr> # g # post" "byte_at st' = byte_at st1"
          "m_total_files_length st' = m_total_files_length st1" "ok \<longrightarrow> x_end g \<le> x_off ?f + length b"
          using less.hyps[OF lt d1 l1 _ less.prems(4) _ _ _ _ _ _ n(1)] by blast
        then show ?thesis using M b1 tt by (intro exI[of _ ok] exI[of _ st'] exI[of _ b]) simp
      qed
    qed
  qed
qed

lemma byte_in_remove:
  assumes "layout_ok t (pre @ f # g # post)" and "\<not> x_stg f" and "x_stg g" and "x_end g \<le> x_end f"
  shows "byte_in (pre @ f # post) x = byte_in (pre @ f # g # post) x"
  using staging_inside(1)[OF assms(1-3)] assms(4) by (auto simp: byte_in_append split: option.split)

lemma merge_delete_spec:
  assumes "disk_ok st" and "layout st = pre @ f # g # post" and "\<not> x_stg f" and "x_stg g" and "x_end g \<le> x_end f"
  shows "\<exists>st'. merge_delete (x_id f) (x_id g) st = Some st' \<and> disk_ok st' \<and> layout st' = pre @ f # post \<and> byte_at st' = byte_at st \<and>
    m_total_files_length st' = m_total_files_length st"
proof -
  define st1 where "st1 = DiskAccess (btf_close (x_id g) st)"
  have k: "keeps st st1" using keeps_trans[OF keeps_close keeps_access] by (simp add: st1_def)
  have d1: "disk_ok st1" by (rule keeps_disk_ok[OF k assms(1)])
  have l1: "layout st1 = pre @ f # g # post" using k assms(2) by (simp add: keeps_def)
  obtain cpre c cpost where c: "m_btfhead st1 = cpre @ c # cpost" "map extent_of cpre = pre" "extent_of c = f" "map extent_of cpost = g # post"
    "next_file (x_id f) st1 = (case cpost of [] \<Rightarrow> None | g # _ \<Rightarrow> Some g)" using node_of_layout[OF d1 l1] by metis
  obtain h hs where h: "cpost = h # hs" "extent_of h = g" "map extent_of hs = post" using c(4) by auto
  have "layout st1 = (pre @ [f]) @ g # post" using l1 by simp
  then obtain src where src: "node (x_id g) st1 = Some src" using node_of_layout[OF d1] by metis
  have ids: "bf_id h = x_id g" "bf_id c = x_id f" using h(2) c(3) by auto
  define st2 where "st2 = st1\<lparr>m_btfhead := remove_after (x_id f) (m_btfhead st1)\<rparr>"
  define st3 where "st3 = (if 0 < m_stagecount st2 \<and> (m_stagedir st2 = None \<or> m_stagedir st2 = bf_dir src) then
                            (let st = st2\<lparr>m_stagecount := m_stagecount st2 - 1\<rparr>
                             in if m_stagecount st = 0 then st\<lparr>m_stagedir := None\<rparr> else st)
                          else st2)"
  have M: "merge_delete (x_id f) (x_id g) st = Some st3"
    unfolding merge_delete_def st1_def[symmetric] Let_def[of st1] src c(5) h(1) list.case option.case prod.case Let_def[of "st1\<lparr>m_btfhead := _\<rparr>"]
      st2_def[symmetric] st3_def using ids by simp
  have "\<forall>x\<in>set cpre. bf_id x \<noteq> bf_id c" using disk_ok_distinct[OF d1] c(1) by (auto simp: notin_image_iff)
  then have h2: "m_btfhead st2 = cpre @ c # hs" using remove_after_at[of cpre c cpost] c(1) h(1) ids by (simp add: st2_def)
  have st3: "m_btfhead st3 = m_btfhead st2" "m_total_files_length st3 = m_total_files_length st" "bs_next_id st3 = bs_next_id st1"
    using k by (simp_all add: st3_def Let_def st2_def keeps_def)
  have l3: "layout st3 = pre @ f # post" using st3(1) h2 c(2,3) h(3) by (simp add: layout_def)
  have lok: "layout_ok (unat (m_total_files_length st)) (pre @ f # g # post)" using assms(1,2) by (simp add: disk_ok_def)
  have "disk_ok st3"
    using staging_inside(3)[OF lok assms(3,4)] l3 st3 d1 c(1) h(1) h2 by (auto simp: disk_ok_def sizes_ok_def)
  then show ?thesis using M l3 st3(2) byte_in_remove[OF lok assms(3-5)] assms(2) by (auto simp: byte_at_def)
qed

lemma next_mem: "next_file i st = Some g \<Longrightarrow> g \<in> set (m_btfhead st)"
proof -
  assume "next_file i st = Some g"
  then have "g \<in> set (tl (dropWhile (\<lambda>f. bf_id f \<noteq> i) (m_btfhead st)))"
    by (auto simp: next_file_def behind_def split: list.splits)
  then have "g \<in> set (dropWhile (\<lambda>f. bf_id f \<noteq> i) (m_btfhead st))" by (metis list.sel(2) list.set_sel(2))
  then show "g \<in> set (m_btfhead st)" by (rule set_dropWhileD)
qed

lemma MergeStaging_spec:
  assumes "disk_ok st" and "\<forall>k. os_open os k \<noteq> NoSpace" and "fuel \<noteq> 0" and "layout st = pre @ f # g # post"
    and "\<not> x_stg f" and "x_stg g" and "x_off g \<le> x_end f"
  shows "\<exists>ok st' b. MergeStaging fuel os now (x_id f) st = Some (ok, st') \<and> disk_ok st' \<and> byte_at st' = byte_at st \<and>
    m_total_files_length st' = m_total_files_length st \<and>
    layout st' = (if ok then pre @ f\<lparr>x_bytes := b\<rparr> # post else pre @ f\<lparr>x_bytes := b\<rparr> # g # post)"
proof -
  let ?opn = "btf_open fuel os now" and ?d = "x_id f" and ?s = "x_id g"
  have lok: "layout_ok (unat (m_total_files_length st)) (pre @ f # g # post)" using assms(1,4) by (simp add: disk_ok_def)
  obtain c0 hs0 where c0: "node ?d st = Some c0" "extent_of c0 = f"
    "next_file ?d st = (case hs0 of [] \<Rightarrow> None | g # _ \<Rightarrow> Some g)" "map extent_of hs0 = g # post"
    using node_of_layout[OF assms(1,4)] by metis
  obtain h0 where h0: "next_file ?d st = Some h0" "extent_of h0 = g" "bf_id h0 = ?s" using c0(3,4) by auto
  have lg: "layout s = (pre @ [f]) @ g # post" if "keeps st s" for s using that assms(4) by (simp add: keeps_def)
  have dk: "disk_ok s" if "keeps st s" for s by (rule keeps_disk_ok[OF that assms(1)])
  have stop: ?thesis if "MergeStaging fuel os now ?d st = Some (False, s)" "keeps st s" for s
    using that dk[OF that(2)] keeps_bytes[OF that(2)] assms(4)
    by (intro exI[of _ False] exI[of _ s] exI[of _ "x_bytes f"]) (simp add: keeps_def)
  have nd: "node ?d s \<noteq> None" "node ?s s \<noteq> None" if "keeps st s" for s
  proof -
    obtain h where "node ?s st = Some h" using node_of_layout[OF assms(1) lg[OF keeps_refl]] by metis
    then show "node ?d s \<noteq> None" "node ?s s \<noteq> None" using keeps_node[OF that] c0(1) by simp_all
  qed
  have words: "x_off (extent_of c) = unat (bf_offset c)" "unat (bf_offset c + bf_size c) = x_end (extent_of c)"
    "length (x_bytes (extent_of c)) = unat (bf_size c)" if k: "keeps st s" and m: "c \<in> set (m_btfhead s)" for s c
  proof -
    obtain lo where ch: "chain (0, 0) (map extent_of (m_btfhead s)) = Some (lo, unat (m_total_files_length s))"
      using dk[OF k] layout_okE unfolding disk_ok_def layout_def by metis
    note W = extent_words[OF ch _ _ disk_ok_sizes[OF dk[OF k]] m]
    show "x_off (extent_of c) = unat (bf_offset c)" "unat (bf_offset c + bf_size c) = x_end (extent_of c)"
      "length (x_bytes (extent_of c)) = unat (bf_size c)" using W(2,3) by simp_all
  qed
  show ?thesis
  proof (cases "bf_offset h0 + bf_size h0 \<le> bf_offset c0 + bf_size c0")
    case True
    have "h0 \<in> set (m_btfhead st)" "c0 \<in> set (m_btfhead st)" using node_sel[OF c0(1)] next_mem[OF h0(1)] by simp_all
    then have "x_end g \<le> x_end f" using True words(2)[OF keeps_refl] h0(2) c0(2) by (auto simp: word_le_nat_alt)
    from merge_delete_spec[OF assms(1,4-6) this] obtain st' where st': "merge_delete ?d ?s st = Some st'" "disk_ok st'"
      "layout st' = pre @ f # post" "byte_at st' = byte_at st" "m_total_files_length st' = m_total_files_length st" by blast
    have "MergeStaging fuel os now ?d st = Some (True, st')"
      using True st'(1) by (simp add: MergeStaging_def MergeStaging_with_def c0(1) h0)
    then show ?thesis using st' by (intro exI[of _ True] exI[of _ st'] exI[of _ "x_bytes f"]) simp
  next
    case False
    have mem: "h0 \<in> set (m_btfhead st)" "c0 \<in> set (m_btfhead st)"
      using node_sel[OF c0(1)] next_mem[OF h0(1)] by simp_all
    have lt: "x_end f < x_end g" using False words(2)[OF keeps_refl] mem h0(2) c0(2) by (auto simp: word_le_nat_alt)
    obtain b1 s1 where o1: "(if bf_opened h0 then Some (True, st) else ?opn ?s False st) = Some (b1, s1)" and k1: "keeps st s1"
    proof (cases "bf_opened h0")
      case True
      then show ?thesis using that[of True st] by simp
    next
      case False
      then show ?thesis using that btf_open_keeps[OF assms(2) nd(2)[OF keeps_refl] assms(1,3), of now False] by auto
    qed
    obtain c1 where c1: "node ?d s1 = Some c1" "extent_of c1 = f" using keeps_node_extent[OF k1 c0(1)] c0(2) by metis
    obtain h where h: "node ?s st = Some h" "extent_of h = g" using node_of_layout[OF assms(1) lg[OF keeps_refl]] by metis
    obtain h1 where h1: "node ?s s1 = Some h1" "extent_of h1 = g" using keeps_node_extent[OF k1 h(1)] h(2) by metis
    define pos where "pos = bf_offset c1 + bf_size c1 - bf_offset h1"
    define remain where "remain = bf_size h1 - pos"
    define s3 where "s3 = upd_node ?s (\<lambda>f. f\<lparr>bf_last_timestamp := now + 1\<rparr>) (calls s1)"
    have k2: "keeps st (calls s1)" by (rule keeps_trans[OF k1 keeps_calls])
    have k3: "keeps st s3" unfolding s3_def by (rule keeps_trans[OF k2 keeps_stamp(1)])
    obtain b2 s4 where o2: "(if \<not> bf_opened c1 \<or> bf_readonly c1 then ?opn ?d True s3 else Some (True, s3)) = Some (b2, s4)" and k34: "keeps s3 s4"
    proof (cases "\<not> bf_opened c1 \<or> bf_readonly c1")
      case True
      then show ?thesis using that btf_open_keeps[OF assms(2) nd(1)[OF k3] dk[OF k3] assms(3), of now True] by auto
    next
      case False
      then show ?thesis using that[of True s3] by simp
    qed
    have k4: "keeps st s4" by (rule keeps_trans[OF k3 k34])
    obtain c4 where c4: "node ?d s4 = Some c4" "extent_of c4 = f" using keeps_node_extent[OF k4 c0(1)] c0(2) by metis
    obtain h4 where h4: "node ?s s4 = Some h4" "extent_of h4 = g" using keeps_node_extent[OF k4 h(1)] h(2) by metis
    have k5: "keeps st (calls s4)" by (rule keeps_trans[OF k4 keeps_calls])
    have hm: "h1 \<in> set (m_btfhead s1)" "c1 \<in> set (m_btfhead s1)" "h4 \<in> set (m_btfhead s4)" "c4 \<in> set (m_btfhead s4)"
      using node_sel[OF h1(1)] node_sel[OF c1(1)] node_sel[OF h4(1)] node_sel[OF c4(1)] by simp_all
    have pos: "unat pos = x_end f - x_off g"
      using words(1,2)[OF k1 hm(2)] words(1)[OF k1 hm(1)] c1(2) h1(2) assms(7) by (simp add: pos_def u64_sub word_le_nat_alt)
    have sh: "unat (bf_size h1) = length (x_bytes g)" using words(3)[OF k1 hm(1)] h1(2) by simp
    have remain: "unat remain = x_end g - x_end f"
      using pos sh lt assms(7) by (simp add: remain_def u64_sub word_le_nat_alt)
    have sh4: "unat (bf_size h4) = length (x_bytes g)" "unat (bf_size h4) \<le> length (bf_data h4)"
      using words(3)[OF k4 hm(3)] h4(2) disk_ok_sizes[OF dk[OF k4]] hm(3) by (simp_all add: sizes_ok_def)
    have sd: "take (unat remain) (drop (unat pos) (bf_data h4)) = drop (x_end f - x_off g) (x_bytes g)"
      "unat remain \<le> length (drop (unat pos) (bf_data h4))"
    proof -
      have "x_bytes (extent_of h4) = take (unat (bf_size h4)) (bf_data h4)" by (simp add: extent_of_def)
      then have "x_bytes g = take (length (x_bytes g)) (bf_data h4)" using h4(2) sh4(1) by simp
      then have "drop (x_end f - x_off g) (x_bytes g) = take (length (x_bytes g) - (x_end f - x_off g)) (drop (x_end f - x_off g) (bf_data h4))"
        by (metis drop_take)
      then show "take (unat remain) (drop (unat pos) (bf_data h4)) = drop (x_end f - x_off g) (x_bytes g)"
        using pos remain assms(7) by (simp add: add.commute)
      show "unat remain \<le> length (drop (unat pos) (bf_data h4))" using pos remain sh4 assms(7) by simp
    qed
    have l5: "layout (calls s4) = pre @ f # g # post" using k5 assms(4) by (simp add: keeps_def)
    have sc: "unat (bf_size c4) = length (x_bytes f)" using words(3)[OF k4 hm(4)] c4(2) by simp
    obtain ok s6 b where C: "merge_copy os now ?d (drop (unat pos) (bf_data h4)) OPT_IO_SIZE (bf_size c4) remain (calls s4) = Some (ok, s6)"
      "disk_ok s6" "layout s6 = pre @ f\<lparr>x_bytes := b\<rparr> # g # post" "byte_at s6 = byte_at (calls s4)"
      "m_total_files_length s6 = m_total_files_length (calls s4)" "ok \<longrightarrow> x_end g \<le> x_off f + length b"
      using merge_copy_spec[OF dk[OF k5] l5 assms(5-7) less_imp_le[OF lt] remain sc sd, of OPT_IO_SIZE os now] by auto
    have b5: "byte_at (calls s4) = byte_at st" "m_total_files_length (calls s4) = m_total_files_length st"
      using keeps_bytes[OF k5] k5 by (simp_all add: keeps_def)
    have M: "MergeStaging fuel os now ?d st =
        (if \<not> b1 then Some (False, s1)
         else if \<not> os_seek os (bs_calls s1) then Some (False, calls s1)
         else if \<not> b2 then Some (False, s4)
         else if \<not> os_seek os (bs_calls s4) then Some (False, calls s4)
         else if \<not> ok then Some (False, s6)
         else (case node ?d s6 of
                 None \<Rightarrow> None
               | Some dst \<Rightarrow> map_option (Pair True) (merge_delete ?d ?s (if bf_size dst = bf_length dst then btf_close ?d s6 else s6))))"
      unfolding MergeStaging_def MergeStaging_with_def c0(1) h0(1) option.case prod.case Let_def h0(3) if_not_P[OF False] o1 c1(1) h1(1)
        pos_def[symmetric] remain_def[symmetric] s3_def[symmetric] o2 c4(1) h4(1) C(1)
      by (cases b1; cases b2; cases ok; cases "os_seek os (bs_calls s1)"; cases "os_seek os (bs_calls s4)") simp_all
    show ?thesis
    proof (cases "b1 \<and> os_seek os (bs_calls s1) \<and> b2 \<and> os_seek os (bs_calls s4)")
      case False
      have "\<exists>s. MergeStaging fuel os now ?d st = Some (False, s) \<and> keeps st s" using False M k1 k2 k4 k5 by auto
      then show ?thesis using stop by blast
    next
      case True
      show ?thesis
      proof (cases ok)
        case False
        then have "MergeStaging fuel os now ?d st = Some (False, s6)" using M True by simp
        then show ?thesis using C b5 by (intro exI[of _ False] exI[of _ s6] exI[of _ b]) simp
      next
        case ok: True
        let ?f = "f\<lparr>x_bytes := b\<rparr>"
        obtain dst where dst: "node ?d s6 = Some dst" using node_of_layout[OF C(2,3)] by auto
        define s7 where "s7 = (if bf_size dst = bf_length dst then btf_close ?d s6 else s6)"
        have k7: "keeps s6 s7" by (simp add: s7_def)
        have l7: "layout s7 = pre @ ?f # g # post" using k7 C(3) by (simp add: keeps_def)
        have e: "x_end g \<le> x_end ?f" using C(6) ok by simp
        from merge_delete_spec[OF keeps_disk_ok[OF k7 C(2)] l7 _ assms(6) e] assms(5) obtain s8 where
          s8: "merge_delete ?d ?s s7 = Some s8" "disk_ok s8" "layout s8 = pre @ ?f # post" "byte_at s8 = byte_at s7"
          "m_total_files_length s8 = m_total_files_length s7" by auto
        have "MergeStaging fuel os now ?d st = Some (True, s8)" using M True ok dst s8(1) by (simp add: s7_def)
        moreover have "byte_at s8 = byte_at st" "m_total_files_length s8 = m_total_files_length st"
          using s8(4,5) keeps_bytes[OF k7] k7 C(4,5) b5 by (simp_all add: keeps_def)
        ultimately show ?thesis using s8(2,3) by (intro exI[of _ True] exI[of _ s8] exI[of _ b]) simp
      qed
    qed
  qed
qed

text \<open>The loop over the files.\<close>

lemma node_suffix:
  assumes "disk_ok st" and "layout st = pre @ f # post"
  shows "map_option extent_of (next_file (x_id f) st) = (case post of [] \<Rightarrow> None | g # _ \<Rightarrow> Some g)"
    and "map_option extent_of (find (\<lambda>g. \<not> bf_staging g) (behind (x_id f) st)) = find (\<lambda>g. \<not> x_stg g) post"
proof -
  obtain cpre c cpost where c: "m_btfhead st = cpre @ c # cpost" "extent_of c = f" "map extent_of cpost = post"
    "next_file (x_id f) st = (case cpost of [] \<Rightarrow> None | g # _ \<Rightarrow> Some g)" using node_of_layout[OF assms] by metis
  show "map_option extent_of (next_file (x_id f) st) = (case post of [] \<Rightarrow> None | g # _ \<Rightarrow> Some g)"
    using c(3,4) by (cases cpost) auto
  have "behind (x_id f) st = cpost" using node_at(2)[OF c(1) disk_ok_distinct[OF assms(1)]] c(2) by auto
  moreover have "map_option extent_of (find (\<lambda>g. \<not> bf_staging g) cs) = find (\<lambda>g. \<not> x_stg g) (map extent_of cs)" for cs
    by (induction cs) auto
  ultimately show "map_option extent_of (find (\<lambda>g. \<not> bf_staging g) (behind (x_id f) st)) = find (\<lambda>g. \<not> x_stg g) post"
    using c(3) by simp
qed

lemma find_split: "find P xs = Some x \<Longrightarrow> \<exists>ys zs. xs = ys @ x # zs"
  by (metis find_Some_iff id_take_nth_drop)

lemma merge_loop_spec:
  assumes "disk_ok st" and "\<forall>k. os_open os k \<noteq> NoSpace" and "fuel \<noteq> 0"
    and "case cur of None \<Rightarrow> True | Some i \<Rightarrow> \<exists>pre f post. layout st = pre @ f # post \<and> x_id f = i \<and> length post < m"
  shows "\<exists>r st'. merge_loop (btf_open fuel os now) os now findall dostaging cur merged st = Some (r, st') \<and> disk_ok st' \<and>
    byte_at st' = byte_at st \<and> m_total_files_length st' = m_total_files_length st"
  using assms
proof (induction m arbitrary: cur merged st rule: less_induct)
  case (less m)
  show ?case
  proof (cases cur)
    case None
    have k: "keeps st (st\<lparr>m_need_merge := False\<rparr>)" by simp
    have "merge_loop (btf_open fuel os now) os now findall dostaging cur merged st = Some (merged, st\<lparr>m_need_merge := False\<rparr>)"
      by (subst merge_loop.simps) (simp add: None)
    then show ?thesis using keeps_disk_ok[OF k less.prems(1)] keeps_bytes[OF k] by simp
  next
    case (Some i)
    then obtain pre f post where l: "layout st = pre @ f # post" "x_id f = i" "length post < m" using less.prems(4) by auto
    obtain c where c: "node i st = Some c" "extent_of c = f" using node_of_layout[OF less.prems(1) l(1)] l(2) by metis
    note nx = node_suffix[OF less.prems(1) l(1), unfolded l(2)]
    show ?thesis
    proof (cases "mergeable c (next_file i st)")
      case True
      then obtain h where h: "next_file i st = Some h" "bf_staging h" "\<not> bf_staging c" "bf_offset h \<le> bf_offset c + bf_size c"
        by (auto simp: mergeable_def split: option.splits)
      then obtain gs where g: "post = extent_of h # gs" using nx(1) by (cases post) auto
      have lok: "layout_ok (unat (m_total_files_length st)) (pre @ f # post)" using less.prems(1) l(1) by (simp add: disk_ok_def)
      obtain lo where ch: "chain (0, 0) (map extent_of (m_btfhead st)) = Some (lo, unat (m_total_files_length st))"
        using less.prems(1) layout_okE unfolding disk_ok_def layout_def by metis
      have "unat (bf_offset c + bf_size c) = x_end f"
        using extent_words(3)[OF ch _ _ disk_ok_sizes[OF less.prems(1)], of c] node_sel[OF c(1)] unfolding c(2) by simp
      then have o: "x_off (extent_of h) \<le> x_end f" using h(4) by (simp add: word_le_nat_alt)
      have stg: "\<not> x_stg f" "x_stg (extent_of h)" using h(2,3) c(2) by auto
      obtain ok st1 b where M: "MergeStaging fuel os now i st = Some (ok, st1)" "disk_ok st1" "byte_at st1 = byte_at st"
        "m_total_files_length st1 = m_total_files_length st"
        "layout st1 = (if ok then pre @ f\<lparr>x_bytes := b\<rparr> # gs else pre @ f\<lparr>x_bytes := b\<rparr> # extent_of h # gs)"
        using MergeStaging_spec[OF less.prems(1-3) _ stg o, of pre gs now] l(1,2) g by auto
      have E: "merge_loop (btf_open fuel os now) os now findall dostaging cur merged st =
          (if \<not> ok then Some (merged, st1)
           else if \<not> findall then Some (True, st1) else merge_loop (btf_open fuel os now) os now findall dostaging (Some i) True st1)"
        using M(1) by (subst merge_loop.simps) (simp add: Some c(1) True MergeStaging_def)
      show ?thesis
      proof (cases "ok \<and> findall")
        case False
        then show ?thesis using E M by auto
      next
        case True
        have "\<exists>pre f post. layout st1 = pre @ f # post \<and> x_id f = i \<and> length post < length (extent_of h # gs)"
          using M(5) True l(2) by (intro exI[of _ pre] exI[of _ "f\<lparr>x_bytes := b\<rparr>"] exI[of _ gs]) simp
        then have "\<exists>r st'. merge_loop (btf_open fuel os now) os now findall dostaging (Some i) True st1 = Some (r, st') \<and> disk_ok st' \<and>
            byte_at st' = byte_at st1 \<and> m_total_files_length st' = m_total_files_length st1"
          using less.IH[of "length post" st1 "Some i"] l(3) g M(2) less.prems(2,3) by simp
        then show ?thesis using E M(3,4) True by auto
      qed
    next
      case False
      define nxt where "nxt = map_option bf_id (if dostaging then next_file i st else find (\<lambda>g. \<not> bf_staging g) (behind i st))"
      have E: "merge_loop (btf_open fuel os now) os now findall dostaging cur merged st =
          merge_loop (btf_open fuel os now) os now findall dostaging nxt merged st"
        by (subst merge_loop.simps) (simp add: Some c(1) False nxt_def)
      have "nxt = map_option x_id (if dostaging then (case post of [] \<Rightarrow> None | g # _ \<Rightarrow> Some g) else find (\<lambda>g. \<not> x_stg g) post)"
        unfolding nx[symmetric] nxt_def by (simp add: option.map_comp comp_def)
      then have "nxt = None \<or> (\<exists>ys g zs. post = ys @ g # zs \<and> nxt = Some (x_id g))"
        using find_split[of "\<lambda>g. \<not> x_stg g" post]
        by (cases dostaging; cases post; cases "find (\<lambda>g. \<not> x_stg g) post") (auto simp del: find.simps, (metis append_Nil)+)
      then have P: "case nxt of None \<Rightarrow> True | Some i \<Rightarrow> \<exists>pre f post'. layout st = pre @ f # post' \<and> x_id f = i \<and> length post' < length post"
      proof
        assume "\<exists>ys g zs. post = ys @ g # zs \<and> nxt = Some (x_id g)"
        then obtain ys g zs where y: "post = ys @ g # zs" "nxt = Some (x_id g)" by blast
        then show ?thesis using l(1) by (simp, intro exI[of _ "pre @ f # ys"] exI[of _ g] exI[of _ zs]) simp
      qed simp
      from less.IH[OF l(3) less.prems(1-3) P] show ?thesis unfolding E .
    qed
  qed
qed


section \<open>Closed instances\<close>

text \<open>An operating system that refuses nothing; a torrent of two files of 6 and 4 bytes with staged data.\<close>

definition ex_os :: osenv where
  "ex_os = \<lparr>os_open = (\<lambda>_. Opened), os_path = (\<lambda>_. True), os_mkdir = (\<lambda>_. True), os_seek = (\<lambda>_. True),
     os_read = (\<lambda>_. True), os_write = (\<lambda>_. None), os_memory = (\<lambda>_. True), os_stale = 0\<rparr>"

definition ex_file :: "nat \<Rightarrow> u64 \<Rightarrow> u64 \<Rightarrow> bool \<Rightarrow> bytes \<Rightarrow> btfile" where
  "ex_file i off len stg data = \<lparr>bf_id = i, bf_length = len, bf_offset = off, bf_size = of_nat (length data), bf_last_timestamp = 0,
     bf_opened = False, bf_readonly = False, bf_staging = stg, bf_dir = (if stg then Some off else None), bf_data = data\<rparr>"

definition ex_disk :: "btfile list \<Rightarrow> btfiles" where
  "ex_disk fs = \<lparr>m_btfhead = fs, m_total_files_length = 10, m_total_opened = 0, m_stagedir = Some 3, m_stagecount = 1,
     m_write_failed = False, m_write_tried = 0, m_automanage = True, m_need_merge = False, bs_next_id = 9, bs_calls = 0, g_disk_access = False\<rparr>"

definition ex_gap :: btfiles where
  "ex_gap = ex_disk [ex_file 0 0 6 False [1, 2], ex_file 1 6 4 False []]"

definition ex_staged :: btfiles where
  "ex_staged = ex_disk [ex_file 0 0 6 False [1, 2, 3], ex_file 2 3 0 True [4, 5, 6], ex_file 1 6 4 False [7, 8]]"




section \<open>What happens without the conditions\<close>

text \<open>
  A write that runs past a file with two staged ranges behind it puts the rest into the first staging file:
  \<^verbatim>\<open>IO\<close> returns 0, and the data cannot be read.
\<close>

lemma write_past_staged:
  "(let st = ex_disk [ex_file 0 0 6 False [1, 2], ex_file 2 3 0 True [4], ex_file 3 5 0 True [6], ex_file 1 6 4 False []]
    in disk_ok st \<and>
       (case btf_IO 1 ex_os 0 True [3, 4, 5, 6, 7, 8] 2 6 st of None \<Rightarrow> False | Some ((ok, _), st) \<Rightarrow>
          ok \<and> \<not> disk_ok st \<and> map_option (fst o fst) (btf_IO 1 ex_os 0 False [0, 0] 6 2 st) = Some False))"
  by code_simp

text \<open>A read across the end of a file that has grown over a whole staging file returns 0 and leaves bytes of the buffer unset.\<close>

lemma read_past_covered:
  "(let st = ex_disk [ex_file 0 0 6 False [1, 2, 3, 4, 5], ex_file 2 2 0 True [3], ex_file 3 3 0 True [4, 5, 6], ex_file 1 6 4 False []]
    in disk_ok st \<and> byte_at st 5 = Some 6 \<and>
       map_option fst (btf_IO 1 ex_os 0 False [99, 99] 4 2 st) = Some (True, [5, 99]))"
  by code_simp

text \<open>A read that goes on behind the data of the last file follows the null pointer \<^verbatim>\<open>bf_next\<close>.\<close>

lemma read_behind_last:
  "(let st = ex_disk [ex_file 0 0 10 False [1, 2, 3]] in disk_ok st \<and> btf_IO 1 ex_os 0 False [0, 0, 0, 0] 1 4 st = None)"
  by code_simp

end
