(* ===== verification/Cache_Ok.thy ===== *)
theory Cache_Ok
  imports Cache World_Ok Disk_Ok
begin

text \<open>
  The cache is transparent: \<open>content_at\<close> is the byte a reader finds at an offset of the torrent, in the cache or on
  disk.  Reading delivers it, writing changes it, and expiring, flushing and the failure of either leave it alone.
\<close>

section \<open>Operations on peers leave the contents alone\<close>

lemma upd_store_sel [simp]:
  "store_of (upd_store f w) = f (store_of w)" "w_now (upd_store f w) = w_now w"
  "c_geo (w_content (upd_store f w)) = c_geo (w_content w)" "c_BF (w_content (upd_store f w)) = c_BF (w_content w)"
  "flush_failed (upd_store f w) = flush_failed w" "w_peers (upd_store f w) = w_peers w" "w_head (upd_store f w) = w_head w"
  "w_downloads (upd_store f w) = w_downloads w" "c_hash_table (w_content (upd_store f w)) = c_hash_table (w_content w)"
  by (simp_all add: upd_store_def upd_content_def)

definition same :: "world \<Rightarrow> world \<Rightarrow> bool" where
  "same w w' \<longleftrightarrow> w_content w' = w_content w \<and> w_now w' = w_now w"

named_theorems same_intros

lemma same_refl [simp, same_intros]: "same w w"
  by (simp add: same_def)

lemma same_trans: "same a b \<Longrightarrow> same b c \<Longrightarrow> same a c"
  by (simp add: same_def)

lemma same_upd [same_intros]: "same v w \<Longrightarrow> same v (upd_peer i f w)"
  by (simp add: same_def)

lemma same_fields [same_intros]:
  "same v w \<Longrightarrow> same v (w\<lparr>w_pending := q\<rparr>)" "same v w \<Longrightarrow> same v (w\<lparr>w_dup_req_pieces := d\<rparr>)"
  "same v w \<Longrightarrow> same v (w\<lparr>w_self_ul := r\<rparr>)" "same v w \<Longrightarrow> same v (w\<lparr>w_self_dl := r\<rparr>)"
  by (simp_all add: same_def)

lemma same_DontWait [same_intros]: "same v w \<Longrightarrow> same v (DontWaitDL i w)" "same v w \<Longrightarrow> same v (DontWaitUL i w)"
  by (simp_all add: same_def DontWaitDL_def DontWaitUL_def)

lemma same_timers [same_intros]:
  "same v w \<Longrightarrow> same v (StopDLTimer e i w)" "same v w \<Longrightarrow> same v (StopULTimer e i w)" "same v w \<Longrightarrow> same v (StartULTimer i w)"
  by (simp_all add: StopDLTimer_def StopULTimer_def StartULTimer_def same_upd)

lemma same_stream [same_intros]: "same v w \<Longrightarrow> same v (snd (on_stream i f w))"
  by (simp add: on_stream_def case_prod_beta same_upd)

lemma same_fold: "same v w \<Longrightarrow> (\<And>i u. same v u \<Longrightarrow> same v (f i u)) \<Longrightarrow> same v (fold f is w)"
  by (induction "is" arbitrary: w) simp_all

lemma same_PutPending [same_intros]: "same v w \<Longrightarrow> same v (PutPending e i w)"
proof -
  assume v: "same v w"
  have "same v (UnStandby u)" if "same v u" for u
    using that by (auto simp: UnStandby_def intro!: same_fold same_intros)
  moreover have "same v (RecalcDupReqs u)" if "same v u" for u
    using that by (simp add: RecalcDupReqs_def Let_def case_prod_beta same_intros)
  ultimately show ?thesis using v by (simp add: PutPending_def Let_def case_prod_beta same_intros)
qed

lemma same_CloseConnection [same_intros]: "same v w \<Longrightarrow> same v (CloseConnection e i w)"
  by (simp add: CloseConnection_def Let_def same_intros)

lemma same_cancel_one [same_intros]: "same v w \<Longrightarrow> same v (snd (cancel_one e i idx s w))"
  by (simp add: cancel_one_def Let_def case_prod_beta fix_req_out_def same_intros)

lemma same_CancelRequest [same_intros]: "same v w \<Longrightarrow> same v (snd (CancelRequest e i w))"
proof -
  have "same v u \<Longrightarrow> same v (snd (cancel_all_loop e i ss u))" for ss u
    by (induction ss arbitrary: u) (auto simp: Let_def case_prod_beta intro!: same_intros)
  then show "same v w \<Longrightarrow> ?thesis" by (simp add: CancelRequest_def Let_def case_prod_beta same_intros)
qed

lemma same_SetLocal [same_intros]: "same v w \<Longrightarrow> same v (snd (SetLocal e s i w))"
  by (simp add: SetLocal_def set_choke_def send_state_def Let_def case_prod_beta same_intros)

lemma same_set_or_close [same_intros]: "same v w \<Longrightarrow> same v (set_or_close e s i w)"
  by (simp add: set_or_close_def Let_def case_prod_beta same_intros)

lemma same_StopDownload: "same w (StopDownload e w)"
  by (auto simp: StopDownload_def Let_def case_prod_beta intro!: same_fold same_intros)

lemma same_CheckInterest: "same w (CheckInterest e w)"
  by (auto simp: CheckInterest_def intro!: same_fold same_intros)

lemma StopDownload_content [simp]: "w_content (StopDownload e w) = w_content w" "w_now (StopDownload e w) = w_now w"
  using same_StopDownload[of w e] by (simp_all add: same_def)

lemma CheckInterest_content [simp]: "w_content (CheckInterest e w) = w_content w" "w_now (CheckInterest e w) = w_now w"
  using same_CheckInterest[of w e] by (simp_all add: same_def)

section \<open>The invariant of the cache\<close>

text \<open>An entry lies inside one piece; the entries of a piece are in order and disjoint; every entry is in both lists.\<close>

definition covers :: "btcache \<Rightarrow> nat \<Rightarrow> bool" where
  "covers p x \<longleftrightarrow> unat (bc_off p) \<le> x \<and> x < unat (bc_off p) + unat (bc_len p)"

definition piece_nr :: "nat \<Rightarrow> btcache \<Rightarrow> nat" where
  "piece_nr plen p = unat (bc_off p) div plen"

definition entry_ok :: "nat \<Rightarrow> nat \<Rightarrow> btcache \<Rightarrow> bool" where
  "entry_ok plen t p \<longleftrightarrow> 0 < unat (bc_len p) \<and> length (bc_buf p) = unat (bc_len p) \<and>
     unat (bc_off p) mod plen + unat (bc_len p) \<le> plen \<and> unat (bc_off p) + unat (bc_len p) \<le> t"

definition before :: "btcache \<Rightarrow> btcache \<Rightarrow> bool" where
  "before p q \<longleftrightarrow> unat (bc_off p) + unat (bc_len p) \<le> unat (bc_off q)"

definition ordered :: "store \<Rightarrow> nat list \<Rightarrow> bool" where
  "ordered s is \<longleftrightarrow> sorted_wrt before (map (\<lambda>i. the (st_node s i)) is)"

definition cache_ok :: "nat \<Rightarrow> nat \<Rightarrow> store \<Rightarrow> bool" where
  "cache_ok plen t s \<longleftrightarrow>
     distinct (m_age s) \<and> (\<forall>i. i \<in> set (m_age s) \<longleftrightarrow> st_node s i \<noteq> None) \<and> (\<forall>i\<in>set (m_age s). i < st_next s) \<and>
     (\<forall>idx. distinct (m_cache s idx) \<and> ordered s (m_cache s idx) \<and>
        (\<forall>i. i \<in> set (m_cache s idx) \<longleftrightarrow> (\<exists>p. st_node s i = Some p \<and> piece_nr plen p = idx))) \<and>
     (\<forall>i p. st_node s i = Some p \<longrightarrow> entry_ok plen t p) \<and>
     m_cache_used s = sum_list (map (\<lambda>i. bc_len (the (st_node s i))) (m_age s))"

definition cached :: "store \<Rightarrow> nat \<Rightarrow> u8 option" where
  "cached s x =
     (case find (\<lambda>i. case st_node s i of None \<Rightarrow> False | Some p \<Rightarrow> covers p x) (m_age s) of
        None \<Rightarrow> None
      | Some i \<Rightarrow> (case st_node s i of None \<Rightarrow> None | Some p \<Rightarrow> Some (bc_buf p ! (x - unat (bc_off p)))))"

definition content_at :: "store \<Rightarrow> nat \<Rightarrow> u8 option" where
  "content_at s x = (case cached s x of None \<Rightarrow> byte_at (st_files s) x | Some b \<Rightarrow> Some b)"

lemma cache_okD:
  assumes "cache_ok plen t s"
  shows "distinct (m_age s)" "i \<in> set (m_age s) \<longleftrightarrow> st_node s i \<noteq> None" "st_node s i = Some p \<Longrightarrow> i < st_next s"
    "distinct (m_cache s idx)" "ordered s (m_cache s idx)"
    "i \<in> set (m_cache s idx) \<longleftrightarrow> (\<exists>p. st_node s i = Some p \<and> piece_nr plen p = idx)"
    "st_node s i = Some p \<Longrightarrow> entry_ok plen t p"
    "m_cache_used s = sum_list (map (\<lambda>i. bc_len (the (st_node s i))) (m_age s))"
  using assms by (auto simp: cache_ok_def)

text \<open>An offset of an entry lies in the piece of the entry.\<close>

lemma covers_piece: "entry_ok plen t p \<Longrightarrow> covers p x \<Longrightarrow> x div plen = piece_nr plen p"
proof -
  assume e: "entry_ok plen t p" and c: "covers p x"
  obtain k where k: "x = unat (bc_off p) + k" "k < unat (bc_len p)" using c by (auto simp: covers_def dest: le_Suc_ex)
  have "unat (bc_off p) mod plen + k < plen" using e k(2) by (simp add: entry_ok_def)
  moreover have "x = plen * (unat (bc_off p) div plen) + (unat (bc_off p) mod plen + k)" using k(1) by simp
  ultimately show ?thesis unfolding piece_nr_def by (metis div_mult_self4 div_less add.right_neutral add.commute less_nat_zero_code gr_zeroI mult.commute)
qed

lemma ordered_disjoint:
  assumes "ordered s is" and "i \<in> set is" and "j \<in> set is" and "st_node s i = Some p" and "st_node s j = Some q"
    and "covers p x" and "covers q x"
  shows "i = j"
proof (rule ccontr)
  assume n: "i \<noteq> j"
  obtain k l where kl: "k < length is" "is ! k = i" "l < length is" "is ! l = j" using assms(2,3) by (auto simp: in_set_conv_nth)
  have "before (the (st_node s (is ! k))) (the (st_node s (is ! l)))" if "k < l" "l < length is" for k l
    using assms(1) that unfolding ordered_def sorted_wrt_map by (simp add: sorted_wrt_iff_nth_less)
  then have "k < l \<Longrightarrow> before p q" "l < k \<Longrightarrow> before q p" using kl assms(4,5) by force+
  then show False using n kl assms(6,7) by (cases k l rule: linorder_cases) (auto simp: before_def covers_def)
qed

lemma one_entry:
  assumes "cache_ok plen t s" and "st_node s i = Some p" and "st_node s j = Some q" and "covers p x" and "covers q x"
  shows "i = j"
proof -
  note e = cache_okD(7)[OF assms(1)]
  have "piece_nr plen p = piece_nr plen q" using covers_piece[OF e[OF assms(2)] assms(4)] covers_piece[OF e[OF assms(3)] assms(5)] by simp
  then have "i \<in> set (m_cache s (piece_nr plen p))" "j \<in> set (m_cache s (piece_nr plen p))"
    using cache_okD(6)[OF assms(1)] assms(2,3) by auto
  from ordered_disjoint[OF cache_okD(5)[OF assms(1)] this assms(2-5)] show ?thesis .
qed

lemma cached_Some:
  assumes "cache_ok plen t s"
  shows "cached s x = Some b \<longleftrightarrow> (\<exists>i p. st_node s i = Some p \<and> covers p x \<and> b = bc_buf p ! (x - unat (bc_off p)))"
proof
  assume "cached s x = Some b"
  then show "\<exists>i p. st_node s i = Some p \<and> covers p x \<and> b = bc_buf p ! (x - unat (bc_off p))"
    by (auto simp: cached_def find_Some_iff split: option.splits)
next
  assume "\<exists>i p. st_node s i = Some p \<and> covers p x \<and> b = bc_buf p ! (x - unat (bc_off p))"
  then obtain i p where p: "st_node s i = Some p" "covers p x" "b = bc_buf p ! (x - unat (bc_off p))" by blast
  let ?P = "\<lambda>i. case st_node s i of None \<Rightarrow> False | Some p \<Rightarrow> covers p x"
  have "i \<in> set (m_age s)" using cache_okD(2)[OF assms] p(1) by simp
  then have "find ?P (m_age s) \<noteq> None" using p by (auto simp: find_None_iff)
  then obtain j where j: "find ?P (m_age s) = Some j" by blast
  then have "?P j" by (auto simp: find_Some_iff)
  then obtain q where q: "st_node s j = Some q" "covers q x" by (auto split: option.splits)
  from one_entry[OF assms p(1) q(1) p(2) q(2)] show "cached s x = Some b" using j p by (simp add: cached_def)
qed

lemma cached_None:
  assumes "cache_ok plen t s"
  shows "cached s x = None \<longleftrightarrow> (\<forall>i p. st_node s i = Some p \<longrightarrow> \<not> covers p x)"
  using cached_Some[OF assms, of x] by (metis option.exhaust option.distinct(1))

text \<open>Two stores with the same entries show the same bytes.\<close>

lemma cached_cong:
  assumes "cache_ok plen t s" and "cache_ok plen t s'"
    and "\<And>i. map_option (\<lambda>p. (bc_off p, bc_len p, bc_buf p)) (st_node s' i) = map_option (\<lambda>p. (bc_off p, bc_len p, bc_buf p)) (st_node s i)"
  shows "cached s' = cached s"
proof
  fix x
  have "(\<exists>i p. st_node s' i = Some p \<and> covers p x \<and> b = bc_buf p ! (x - unat (bc_off p))) \<longleftrightarrow>
    (\<exists>i p. st_node s i = Some p \<and> covers p x \<and> b = bc_buf p ! (x - unat (bc_off p)))" for b
  proof -
    have "(\<exists>p. st_node s' i = Some p \<and> covers p x \<and> b = bc_buf p ! (x - unat (bc_off p))) \<longleftrightarrow>
      (\<exists>p. st_node s i = Some p \<and> covers p x \<and> b = bc_buf p ! (x - unat (bc_off p)))" for i
      using assms(3)[of i] by (cases "st_node s i"; cases "st_node s' i") (auto simp: covers_def)
    then show ?thesis by blast
  qed
  then have "cached s' x = Some b \<longleftrightarrow> cached s x = Some b" for b using cached_Some[OF assms(1)] cached_Some[OF assms(2)] by simp
  then show "cached s' x = cached s x" by (metis option.exhaust)
qed

section \<open>Steps on the lists and entries\<close>

text \<open>The place of an entry.\<close>

abbreviation place :: "btcache option \<Rightarrow> (u64 \<times> u32) option" where
  "place p \<equiv> map_option (\<lambda>p. (bc_off p, bc_len p)) p"

lemma placeE:
  assumes "place q' = place q" and "q = Some p"
  obtains p' where "q' = Some p'" "bc_off p' = bc_off p" "bc_len p' = bc_len p"
  using assms by (cases q') auto

lemma ordered_cong:
  assumes "\<And>i. i \<in> set is \<Longrightarrow> place (st_node s' i) = place (st_node s i)" and "\<And>i. i \<in> set is \<Longrightarrow> st_node s i \<noteq> None" and "ordered s is"
  shows "ordered s' is"
  using assms
proof (induction "is")
  case (Cons i "is")
  have v: "\<exists>p p'. st_node s j = Some p \<and> st_node s' j = Some p' \<and> bc_off p' = bc_off p \<and> bc_len p' = bc_len p" if "j \<in> set (i # is)" for j
    using Cons.prems(2)[OF that] placeE[OF Cons.prems(1)[OF that]] by blast
  have "ordered s' is" using Cons by (simp add: ordered_def)
  moreover have "before (the (st_node s' i)) (the (st_node s' j))" if "j \<in> set is" for j
    using Cons.prems(3) that v[of i] v[of j] by (auto simp: ordered_def before_def)
  ultimately show ?case by (simp add: ordered_def)
qed (simp add: ordered_def)

lemma cache_ok_cong:
  assumes ok: "cache_ok plen t s" and f: "m_age s' = m_age s" "m_cache s' = m_cache s" "st_next s' = st_next s" "m_cache_used s' = m_cache_used s"
    and v: "\<And>j. place (st_node s' j) = place (st_node s j)" and b: "\<And>j p. st_node s' j = Some p \<Longrightarrow> length (bc_buf p) = unat (bc_len p)"
  shows "cache_ok plen t s'"
proof -
  have n: "st_node s' j = None \<longleftrightarrow> st_node s j = None" for j using v[of j] by (cases "st_node s j"; cases "st_node s' j") simp_all
  have "ordered s' (m_cache s idx)" for idx
    by (rule ordered_cong[OF v _ cache_okD(5)[OF ok]]) (use cache_okD(6)[OF ok] in auto)
  moreover have "(\<exists>p. st_node s' j = Some p \<and> piece_nr plen p = idx) \<longleftrightarrow> (\<exists>p. st_node s j = Some p \<and> piece_nr plen p = idx)" for j idx
    using v[of j] by (cases "st_node s j"; cases "st_node s' j") (auto simp: piece_nr_def)
  moreover have "entry_ok plen t p" if p: "st_node s' j = Some p" for j p
  proof -
    obtain q where q: "st_node s j = Some q" "bc_off q = bc_off p" "bc_len q = bc_len p" using placeE[OF v[symmetric] p] by blast
    from cache_okD(7)[OF ok q(1)] show ?thesis using b[OF p] q(2,3) by (simp add: entry_ok_def)
  qed
  moreover have "bc_len (the (st_node s' j)) = bc_len (the (st_node s j))" if j: "j \<in> set (m_age s)" for j
  proof -
    obtain p where p: "st_node s j = Some p" using j cache_okD(2)[OF ok, of j] by blast
    from placeE[OF v p] obtain p' where "st_node s' j = Some p'" "bc_len p' = bc_len p" by blast
    then show ?thesis using p by simp
  qed
  then have "sum_list (map (\<lambda>j. bc_len (the (st_node s' j))) (m_age s)) = sum_list (map (\<lambda>j. bc_len (the (st_node s j))) (m_age s))"
    by (simp cong: map_cong)
  ultimately show ?thesis using ok unfolding cache_ok_def f n by simp
qed

lemma cached_at: "cache_ok plen t s \<Longrightarrow> st_node s i = Some p \<Longrightarrow> covers p x \<Longrightarrow> cached s x = Some (bc_buf p ! (x - unat (bc_off p)))"
  by (subst cached_Some) auto

text \<open>An offset that the changed entry does not cover.\<close>

lemma cached_other:
  assumes ok: "cache_ok plen t s" "cache_ok plen t s'" and n: "\<And>j. j \<noteq> i \<Longrightarrow> st_node s' j = st_node s j"
    and x: "\<And>p. st_node s i = Some p \<Longrightarrow> \<not> covers p x" "\<And>p. st_node s' i = Some p \<Longrightarrow> \<not> covers p x"
  shows "cached s' x = cached s x"
proof (cases "cached s x")
  case None
  then have a: "st_node s j = Some p \<Longrightarrow> \<not> covers p x" for j p using cached_None[OF ok(1)] by blast
  have "\<not> covers p x" if p: "st_node s' j = Some p" for j p using a[of j p] x(2) n[of j] p by (cases "j = i") auto
  then show ?thesis using None cached_None[OF ok(2)] by auto
next
  case (Some b)
  then obtain j p where p: "st_node s j = Some p" "covers p x" "b = bc_buf p ! (x - unat (bc_off p))" using cached_Some[OF ok(1)] by blast
  then have "j \<noteq> i" using x(1) by blast
  then have "st_node s' j = Some p" using n p(1) by simp
  from cached_at[OF ok(2) this p(2)] show ?thesis using Some p(3) by simp
qed

lemma remove_append_perm: "i \<in> set xs \<Longrightarrow> mset (remove1 i xs @ [i]) = mset xs"
  by simp

lemma to_newest_ok:
  assumes ok: "cache_ok plen t s" and i: "st_node s i \<noteq> None"
  shows "cache_ok plen t (to_newest i s)" "cached (to_newest i s) = cached s" "mset (m_age (to_newest i s)) = mset (m_age s)"
    "st_node (to_newest i s) = st_node s" "m_cache (to_newest i s) = m_cache s" "st_files (to_newest i s) = st_files s"
    "m_cache_used (to_newest i s) = m_cache_used s" "m_cache_size (to_newest i s) = m_cache_size s"
    "cfg_cache_size (to_newest i s) = cfg_cache_size s" "st_next (to_newest i s) = st_next s" "m_flush_tried (to_newest i s) = m_flush_tried s"
    "m_flushq (to_newest i s) = m_flushq s"
proof -
  have m: "i \<in> set (m_age s)" using cache_okD(2)[OF ok] i by simp
  show p: "mset (m_age (to_newest i s)) = mset (m_age s)" using m by (simp add: to_newest_def)
  show f: "st_node (to_newest i s) = st_node s" "m_cache (to_newest i s) = m_cache s" "st_files (to_newest i s) = st_files s"
    "m_cache_used (to_newest i s) = m_cache_used s" "m_cache_size (to_newest i s) = m_cache_size s"
    "cfg_cache_size (to_newest i s) = cfg_cache_size s" "st_next (to_newest i s) = st_next s" "m_flush_tried (to_newest i s) = m_flush_tried s"
    "m_flushq (to_newest i s) = m_flushq s"
    by (simp_all add: to_newest_def)
  have "sum_list (map g (m_age (to_newest i s))) = sum_list (map g (m_age s))" for g :: "nat \<Rightarrow> u32"
    using p by (metis mset_map sum_mset_sum_list)
  moreover have "set (m_age (to_newest i s)) = set (m_age s)" "distinct (m_age (to_newest i s)) = distinct (m_age s)"
    using p mset_eq_setD mset_eq_imp_distinct_iff by blast+
  ultimately show ok': "cache_ok plen t (to_newest i s)" using ok by (simp add: cache_ok_def f ordered_def)
  show "cached (to_newest i s) = cached s" by (rule cached_cong[OF ok ok']) (simp add: f)
qed

lemma set_flush_ok:
  assumes ok: "cache_ok plen t s" and s'_def: "s' = upd_cached i (\<lambda>p. p\<lparr>bc_f_flush := b\<rparr>) s"
  shows "cache_ok plen t s'" "cached s' = cached s"
proof -
  have v: "map_option (\<lambda>p. (bc_off p, bc_len p, bc_buf p)) (st_node s' j) = map_option (\<lambda>p. (bc_off p, bc_len p, bc_buf p)) (st_node s j)" for j
    by (cases "st_node s j") (auto simp: s'_def upd_cached_def)
  have "place (st_node s' j) = place (st_node s j)" for j by (cases "st_node s j") (auto simp: s'_def upd_cached_def)
  moreover have "st_node s' j = Some p \<Longrightarrow> length (bc_buf p) = unat (bc_len p)" for j p
    using cache_okD(7)[OF ok, of j] by (auto simp: s'_def upd_cached_def entry_ok_def split: if_splits)
  ultimately show ok': "cache_ok plen t s'" by (intro cache_ok_cong[OF ok]) (simp_all add: s'_def upd_cached_def)
  show "cached s' = cached s" by (rule cached_cong[OF ok ok' v])
qed

text \<open>Bytes are copied into an entry.\<close>

lemma copy_into_ok:
  assumes ok: "cache_ok plen t s" and i: "st_node s i = Some p" and pos: "pos + length dat \<le> unat (bc_len p)"
    and s'_def: "s' = upd_cached i (\<lambda>p. copy_into p pos dat) s"
  shows "cache_ok plen t s'"
    "cached s' = (\<lambda>x. if unat (bc_off p) + pos \<le> x \<and> x < unat (bc_off p) + pos + length dat
       then Some (dat ! (x - unat (bc_off p) - pos)) else cached s x)"
proof -
  let ?q = "copy_into p pos dat"
  have l: "length (bc_buf p) = unat (bc_len p)" using cache_okD(7)[OF ok i] by (simp add: entry_ok_def)
  have n: "st_node s' = (st_node s)(i := Some ?q)" using i by (simp add: s'_def upd_cached_def)
  have q: "bc_off ?q = bc_off p" "bc_len ?q = bc_len p" by (simp_all add: copy_into_def)
  have "place (st_node s' j) = place (st_node s j)" for j using n i q by simp
  moreover have "st_node s' j = Some r \<Longrightarrow> length (bc_buf r) = unat (bc_len r)" for j r
    using cache_okD(7)[OF ok, of j r] n l pos q by (auto simp: entry_ok_def copy_into_def split: if_splits)
  ultimately show ok': "cache_ok plen t s'" by (intro cache_ok_cong[OF ok]) (simp_all add: s'_def upd_cached_def)
  show "cached s' = (\<lambda>x. if unat (bc_off p) + pos \<le> x \<and> x < unat (bc_off p) + pos + length dat
       then Some (dat ! (x - unat (bc_off p) - pos)) else cached s x)" (is "_ = ?f")
  proof
    fix x
    have c: "covers ?q x \<longleftrightarrow> covers p x" by (simp add: covers_def q)
    have buf: "bc_buf ?q = take pos (bc_buf p) @ dat @ drop (pos + length dat) (bc_buf p)" by (simp add: copy_into_def memcpy_to_def)
    have b: "bc_buf ?q ! k = (if pos \<le> k \<and> k < pos + length dat then dat ! (k - pos) else bc_buf p ! k)" if "k < unat (bc_len p)" for k
      using that pos l by (auto simp: buf nth_append)
    show "cached s' x = ?f x"
    proof (cases "covers p x")
      case True
      have "cached s' x = Some (bc_buf ?q ! (x - unat (bc_off p)))" using cached_at[OF ok', of i ?q x] n c True q(1) by simp
      moreover have "cached s x = Some (bc_buf p ! (x - unat (bc_off p)))" using cached_at[OF ok i True] .
      moreover have "x - unat (bc_off p) < unat (bc_len p)" "unat (bc_off p) \<le> x" using True by (auto simp: covers_def)
      ultimately show ?thesis using b[of "x - unat (bc_off p)"] by auto
    next
      case False
      have "cached s' x = cached s x"
        by (rule cached_other[OF ok ok', of i]) (use n i c False in auto)
      moreover have "\<not> (unat (bc_off p) + pos \<le> x \<and> x < unat (bc_off p) + pos + length dat)" using False pos by (auto simp: covers_def)
      ultimately show ?thesis by (simp only: if_False simp_thms)
    qed
  qed
qed

lemma sum_list_remove1: "i \<in> set xs \<Longrightarrow> sum_list (map f (remove1 i xs)) = sum_list (map f xs) - (f i :: u32)"
proof -
  assume "i \<in> set xs"
  then have "sum_list (map f xs) = f i + sum_list (map f (remove1 i xs))" by (rule sum_list_map_remove1)
  then show ?thesis by simp
qed

lemma sorted_wrt_map_remove1: "sorted_wrt R (map f xs) \<Longrightarrow> sorted_wrt R (map f (remove1 i xs))"
proof (induction xs)
  case (Cons x xs)
  then show ?case using set_remove1_subset[of i xs] by auto
qed simp

lemma expire_ok:
  assumes ok: "cache_ok plen t s" and i: "st_node s i = Some p" and idx: "idx = piece_nr plen p"
    and s'_def: "s' = expire_entry idx i p s"
  shows "cache_ok plen t s'" "cached s' = (\<lambda>x. if covers p x then None else cached s x)"
proof -
  have f: "m_age s' = remove1 i (m_age s)" "st_next s' = st_next s" "m_cache_used s' = m_cache_used s - bc_len p"
    "st_node s' = (st_node s)(i := None)" "m_cache s' = (m_cache s)(idx := remove1 i (m_cache s idx))"
    by (simp_all add: s'_def expire_entry_def)
  have m: "i \<in> set (m_age s)" using cache_okD(2)[OF ok] i by simp
  have sa: "set (remove1 i (m_age s)) = set (m_age s) - {i}" using cache_okD(1)[OF ok] by simp
  have e: "map (\<lambda>j. bc_len (the (st_node s' j))) (remove1 i (m_age s)) = map (\<lambda>j. bc_len (the (st_node s j))) (remove1 i (m_age s))"
    using sa f(4) by auto
  have used: "m_cache_used s' = sum_list (map (\<lambda>j. bc_len (the (st_node s' j))) (m_age s'))"
    using sum_list_remove1[OF m, of "\<lambda>j. bc_len (the (st_node s j))"] i cache_okD(8)[OF ok] unfolding f(1,3) e by simp
  have sc: "set (m_cache s' k) = set (m_cache s k) - {i}" for k
    using cache_okD(4)[OF ok, of k] cache_okD(6)[OF ok, of i k] i idx f(5) by auto
  have "ordered s (m_cache s' k)" for k
    using cache_okD(5)[OF ok, of k] f(5) sorted_wrt_map_remove1 unfolding ordered_def by auto
  then have "ordered s' (m_cache s' k)" for k
    by (rule ordered_cong[rotated 2]) (use sc[of k] f(4) cache_okD(6)[OF ok] in auto)
  moreover have "j \<in> set (m_cache s' k) \<longleftrightarrow> (\<exists>p. st_node s' j = Some p \<and> piece_nr plen p = k)" for j k
    using sc[of k] cache_okD(6)[OF ok, of j k] f(4) by auto
  moreover have "distinct (m_cache s' k)" for k using cache_okD(4)[OF ok, of k] f(5) distinct_remove1 by auto
  moreover have "j \<in> set (m_age s') \<longleftrightarrow> st_node s' j \<noteq> None" for j using sa f(1,4) cache_okD(2)[OF ok, of j] by simp
  moreover have "distinct (m_age s')" using cache_okD(1)[OF ok] f(1) by simp
  moreover have "\<forall>j\<in>set (m_age s'). j < st_next s'" using ok sa f(1,2) by (simp add: cache_ok_def)
  moreover have "st_node s' j = Some q \<Longrightarrow> entry_ok plen t q" for j q using cache_okD(7)[OF ok] f(4) by (auto split: if_splits)
  ultimately show ok': "cache_ok plen t s'" using used unfolding cache_ok_def by blast
  show "cached s' = (\<lambda>x. if covers p x then None else cached s x)"
  proof
    fix x
    show "cached s' x = (if covers p x then None else cached s x)"
    proof (cases "covers p x")
      case True
      have "\<not> covers q x" if "st_node s' j = Some q" for j q
        using one_entry[OF ok i, of j q x] that True f(4) by (auto split: if_splits)
      then show ?thesis using cached_None[OF ok'] True by auto
    next
      case False
      have "cached s' x = cached s x" by (rule cached_other[OF ok ok', of i]) (use f(4) i False in auto)
      then show ?thesis using False by simp
    qed
  qed
qed

lemma insert_point_set: "set (insert_point s off i js) = insert i (set js)"
  by (induction s off i js rule: insert_point.induct) (auto split: option.split)

lemma insert_point_mset: "distinct js \<Longrightarrow> i \<notin> set js \<Longrightarrow> distinct (insert_point s off i js)"
  by (induction js) (auto simp: insert_point_set split: option.split)

text \<open>The new entry finds its place among the ones it does not overlap.\<close>

lemma insert_point_ordered:
  assumes "ordered s' js" and "i \<notin> set js" and "st_node s' i = Some p"
    and "\<And>j. j \<in> set js \<Longrightarrow> st_node s j = st_node s' j"
    and "\<And>j. j \<in> set js \<Longrightarrow> \<exists>q. st_node s' j = Some q \<and> 0 < unat (bc_len q) \<and> (before q p \<or> before p q)"
    and "0 < unat (bc_len p)"
  shows "ordered s' (insert_point s (bc_off p) i js)"
  using assms
proof (induction js)
  case (Cons j js)
  obtain q where q: "st_node s' j = Some q" "0 < unat (bc_len q)" "before q p \<or> before p q" using Cons.prems(5)[of j] by auto
  have qs: "st_node s j = Some q" using Cons.prems(4)[of j] q(1) by simp
  have o: "ordered s' js" using Cons.prems(1) by (simp add: ordered_def)
  have after: "before q (the (st_node s' k))" if "k \<in> set js" for k using Cons.prems(1) that q(1) by (auto simp: ordered_def)
  show ?case
  proof (cases "bc_off q < bc_off p")
    case True
    then have "before q p" using q(3) by (auto simp: before_def word_less_nat_alt)
    moreover have "ordered s' (insert_point s (bc_off p) i js)" using Cons o by simp
    ultimately show ?thesis using True qs q(1) after Cons.prems(3) by (auto simp: ordered_def insert_point_set)
  next
    case False
    then have "before p q" using q(2,3) by (auto simp: before_def word_less_nat_alt)
    moreover have "before p (the (st_node s' k))" if "k \<in> set js" for k
      using after[OF that] \<open>before p q\<close> q(2) by (simp add: before_def)
    ultimately show ?thesis using False qs q(1) Cons.prems(1,3) by (auto simp: ordered_def)
  qed
qed (simp add: ordered_def)

lemma add_entry_ok:
  assumes ok: "cache_ok plen t s" and p: "entry_ok plen t p" and idx: "idx = piece_nr plen p"
    and free: "\<And>x. covers p x \<Longrightarrow> cached s x = None" and s'_def: "s' = add_entry idx p s"
  shows "cache_ok plen t s'"
    "cached s' = (\<lambda>x. if covers p x then Some (bc_buf p ! (x - unat (bc_off p))) else cached s x)"
proof -
  let ?i = "st_next s"
  have new: "st_node s ?i = None" using cache_okD(3)[OF ok] by (metis less_irrefl option.exhaust)
  have f: "st_node s' = (st_node s)(?i := Some p)" "m_cache_used s' = m_cache_used s + bc_len p" "m_age s' = m_age s @ [?i]"
    "m_cache s' = (m_cache s)(idx := insert_point s (bc_off p) ?i (m_cache s idx))" "st_next s' = ?i + 1"
    by (simp_all add: s'_def add_entry_def Let_def)
  have na: "?i \<notin> set (m_age s)" "\<And>k. ?i \<notin> set (m_cache s k)" using new cache_okD(2,6)[OF ok] by auto
  have "(\<Sum>j\<leftarrow>m_age s. bc_len (the (st_node s' j))) = (\<Sum>j\<leftarrow>m_age s. bc_len (the (st_node s j)))"
    using na(1) f(1) by (intro arg_cong[where f = sum_list] map_cong) auto
  then have used: "m_cache_used s' = (\<Sum>j\<leftarrow>m_age s'. bc_len (the (st_node s' j)))"
    using cache_okD(8)[OF ok] f(1) by (simp add: f(2,3))
  have old: "ordered s' (m_cache s k)" for k
    by (rule ordered_cong[OF _ _ cache_okD(5)[OF ok]]) (use na(2)[of k] f(1) cache_okD(6)[OF ok] in auto)
  have apart: "before q p \<or> before p q" if q: "st_node s j = Some q" for j q
  proof (rule ccontr)
    assume "\<not> (before q p \<or> before p q)"
    then have "max (unat (bc_off p)) (unat (bc_off q)) < unat (bc_off p) + unat (bc_len p)"
      "max (unat (bc_off p)) (unat (bc_off q)) < unat (bc_off q) + unat (bc_len q)"
      using p cache_okD(7)[OF ok q] by (auto simp: before_def entry_ok_def)
    then have "covers p (max (unat (bc_off p)) (unat (bc_off q)))" "covers q (max (unat (bc_off p)) (unat (bc_off q)))"
      by (auto simp: covers_def)
    then show False using free cached_at[OF ok q] by force
  qed
  have "ordered s' (m_cache s' k)" for k
  proof (cases "k = idx")
    case True
    have "ordered s' (insert_point s (bc_off p) ?i (m_cache s idx))"
    proof (rule insert_point_ordered[OF old na(2)])
      fix j assume j: "j \<in> set (m_cache s idx)"
      then have "j \<noteq> ?i" using na(2) by auto
      then show "st_node s j = st_node s' j" using f(1) by simp
      obtain q where q: "st_node s j = Some q" using j cache_okD(6)[OF ok] by blast
      then show "\<exists>q. st_node s' j = Some q \<and> 0 < unat (bc_len q) \<and> (before q p \<or> before p q)"
        using apart[OF q] cache_okD(7)[OF ok q] f(1) \<open>j \<noteq> ?i\<close> by (auto simp: entry_ok_def)
    qed (use f(1) p in \<open>auto simp: entry_ok_def\<close>)
    then show ?thesis using True f(4) by simp
  next
    case False
    then show ?thesis using old f(4) by simp
  qed
  moreover have "distinct (m_cache s' k)" for k using insert_point_mset[OF cache_okD(4)[OF ok] na(2)] cache_okD(4)[OF ok] f(4) by auto
  moreover have "j \<in> set (m_cache s' k) \<longleftrightarrow> (\<exists>p. st_node s' j = Some p \<and> piece_nr plen p = k)" for j k
    using f(1,4) cache_okD(6)[OF ok, of j k] idx new by (auto simp: insert_point_set)
  moreover have "distinct (m_age s')" using cache_okD(1)[OF ok] na(1) f(3) by simp
  moreover have "j \<in> set (m_age s') \<longleftrightarrow> st_node s' j \<noteq> None" for j using f(1,3) cache_okD(2)[OF ok, of j] by auto
  moreover have "\<forall>j\<in>set (m_age s'). j < st_next s'" using ok f(3,5) by (auto simp: cache_ok_def)
  moreover have "st_node s' j = Some q \<Longrightarrow> entry_ok plen t q" for j q using cache_okD(7)[OF ok] p f(1) by (auto split: if_splits)
  ultimately show ok': "cache_ok plen t s'" using used unfolding cache_ok_def by blast
  show "cached s' = (\<lambda>x. if covers p x then Some (bc_buf p ! (x - unat (bc_off p))) else cached s x)" (is "_ = ?f")
  proof
    fix x
    show "cached s' x = ?f x"
    proof (cases "covers p x")
      case True
      then show ?thesis using cached_at[OF ok', of ?i p x] f(1) by simp
    next
      case False
      have "cached s' x = cached s x" by (rule cached_other[OF ok ok', of ?i]) (use f(1) new False in auto)
      then show ?thesis using False by simp
    qed
  qed
qed

section \<open>The state the cache works in\<close>

text \<open>
  \<open>good\<close>: the world and the cache are well formed, the files are preallocated and cover the torrent, an entry that
  need not be written agrees with the disk, and after a write failure the retry is not due.
\<close>

abbreviation plen_of :: "world \<Rightarrow> nat" where "plen_of w \<equiv> unat (piece_length w)"
abbreviation files_of :: "world \<Rightarrow> btfiles" where "files_of w \<equiv> st_files (store_of w)"
abbreviation total_len :: "world \<Rightarrow> nat" where "total_len w \<equiv> unat (g_total (c_geo (w_content w)))"

definition flat :: "nat \<Rightarrow> btfiles \<Rightarrow> bool" where
  "flat t d \<longleftrightarrow> disk_ok d \<and> full (layout d) \<and> unat (m_total_files_length d) = t"

definition calm :: "world \<Rightarrow> bool" where
  "calm w \<longleftrightarrow> (flush_failed w \<longrightarrow> w_now w < m_flush_tried (store_of w) + FLUSH_RETRY_INTERVAL)"

definition clean_ok :: "store \<Rightarrow> bool" where
  "clean_ok s \<longleftrightarrow> (\<forall>i p x. st_node s i = Some p \<longrightarrow> \<not> bc_f_flush p \<longrightarrow> covers p x \<longrightarrow>
     byte_at (st_files s) x = Some (bc_buf p ! (x - unat (bc_off p))))"

definition good :: "nat set \<Rightarrow> world \<Rightarrow> bool" where
  "good F w \<longleftrightarrow> world_okx F w \<and> cache_ok (plen_of w) (total_len w) (store_of w) \<and> flat (total_len w) (files_of w) \<and>
     clean_ok (store_of w) \<and> calm w"

definition os_fine :: "env \<Rightarrow> bool" where
  "os_fine e \<longleftrightarrow> (\<forall>k. os_open (e_os e) k \<noteq> NoSpace) \<and> e_open_depth e \<noteq> 0"

text \<open>Nothing but the store and the failure flag of the contents changes, and time does not pass.\<close>

definition framed :: "world \<Rightarrow> world \<Rightarrow> bool" where
  "framed w w' \<longleftrightarrow> (\<exists>s b. w_content w' = (w_content w)\<lparr>c_store := s, c_flush_failed := b\<rparr>) \<and> w_now w' = w_now w \<and>
     cfg_cache_size (store_of w') = cfg_cache_size (store_of w) \<and> m_flushq (store_of w') = m_flushq (store_of w)"

lemma framed_refl [simp]: "framed w w"
proof -
  have "w_content w = (w_content w)\<lparr>c_store := c_store (w_content w), c_flush_failed := c_flush_failed (w_content w)\<rparr>" by simp
  then show ?thesis unfolding framed_def by metis
qed

lemma framed_sel:
  assumes "framed w w'"
  shows "c_geo (w_content w') = c_geo (w_content w)" "c_BF (w_content w') = c_BF (w_content w)" "w_now w' = w_now w"
    "c_hash_table (w_content w') = c_hash_table (w_content w)" "cfg_cache_size (store_of w') = cfg_cache_size (store_of w)"
    "m_flushq (store_of w') = m_flushq (store_of w)"
  using assms by (auto simp: framed_def)

lemma framed_trans:
  assumes "framed a b" and "framed b c" shows "framed a c"
proof -
  obtain s f s' f' where "w_content b = (w_content a)\<lparr>c_store := s, c_flush_failed := f\<rparr>"
    "w_content c = (w_content b)\<lparr>c_store := s', c_flush_failed := f'\<rparr>" using assms unfolding framed_def by blast
  then have "w_content c = (w_content a)\<lparr>c_store := s', c_flush_failed := f'\<rparr>" by simp
  then show ?thesis using assms unfolding framed_def by (intro conjI exI) (assumption, simp_all)
qed

lemma framed_store: "cfg_cache_size (f (store_of w)) = cfg_cache_size (store_of w) \<Longrightarrow> m_flushq (f (store_of w)) = m_flushq (store_of w) \<Longrightarrow> framed w (upd_store f w)"
proof -
  assume c: "cfg_cache_size (f (store_of w)) = cfg_cache_size (store_of w)" "m_flushq (f (store_of w)) = m_flushq (store_of w)"
  have "w_content (upd_store f w) = (w_content w)\<lparr>c_store := f (store_of w), c_flush_failed := c_flush_failed (w_content w)\<rparr>"
    by (simp add: upd_store_def upd_content_def)
  then show ?thesis using c unfolding framed_def by (intro conjI exI) (assumption, simp_all)
qed

text \<open>\<open>kept\<close>: the bytes of the torrent stay as they are; \<open>shrunk\<close>: nothing more is in the cache.\<close>

definition kept :: "nat set \<Rightarrow> world \<Rightarrow> world \<Rightarrow> bool" where
  "kept F w w' \<longleftrightarrow> good F w' \<and> framed w w' \<and> content_at (store_of w') = content_at (store_of w)"

definition shrunk :: "world \<Rightarrow> world \<Rightarrow> bool" where
  "shrunk w w' \<longleftrightarrow> (\<forall>x. cached (store_of w) x = None \<longrightarrow> cached (store_of w') x = None)"

lemma kept_refl: "good F w \<Longrightarrow> kept F w w" by (simp add: kept_def)
lemma shrunk_refl [simp]: "shrunk w w" by (simp add: shrunk_def)
lemma kept_trans: "kept F a b \<Longrightarrow> kept F b c \<Longrightarrow> kept F a c" unfolding kept_def using framed_trans by auto
lemma shrunk_trans: "shrunk a b \<Longrightarrow> shrunk b c \<Longrightarrow> shrunk a c" by (simp add: shrunk_def)
lemma kept_good: "kept F a b \<Longrightarrow> good F b" by (simp add: kept_def)

lemma flat_files_ok: "full (layout d) \<Longrightarrow> files_ok g (m_btfhead d)"
  by (auto simp: files_ok_def full_def layout_def extent_of_def list_all_iff)

lemma world_ok_store:
  assumes "world_okx F w" and "full (layout (st_files (f (store_of w))))" shows "world_okx F (upd_store f w)"
  using assms(1) flat_files_ok[OF assms(2)]
  by (simp add: world_okx_def content_ok_def no_failed_def Let_def upd_store_def upd_content_def cong: option.case_cong)

lemma world_ok_flush_failed: "world_okx F w \<Longrightarrow> world_okx F (set_flush_failed b w)"
  by (simp add: world_okx_def content_ok_def no_failed_def Let_def set_flush_failed_def upd_content_def cong: option.case_cong)

text \<open>What the invariant of the cache is about.\<close>

definition lists :: "store \<Rightarrow> _" where
  "lists s = (st_node s, m_cache s, m_age s, st_next s, m_cache_used s)"

lemma lists_ok: "lists s' = lists s \<Longrightarrow> cache_ok plen t s' = cache_ok plen t s \<and> cached s' = cached s"
  by (intro conjI ext) (simp_all add: lists_def cache_ok_def ordered_def cached_def cong: option.case_cong)

section \<open>File access\<close>

lemma set_flush_failed_sel [simp]:
  "store_of (set_flush_failed b w) = store_of w" "flush_failed (set_flush_failed b w) = b" "w_now (set_flush_failed b w) = w_now w"
  "c_geo (w_content (set_flush_failed b w)) = c_geo (w_content w)" "c_BF (w_content (set_flush_failed b w)) = c_BF (w_content w)"
  by (simp_all add: set_flush_failed_def upd_content_def)

lemma WriteFail_ok:
  assumes "world_okx F w" and "full (layout (files_of w))"
  shows "world_okx F (WriteFail e w)" "framed w (WriteFail e w)" "flush_failed (WriteFail e w)" "calm (WriteFail e w)"
    "lists (store_of (WriteFail e w)) = lists (store_of w)" "files_of (WriteFail e w) = files_of w"
proof -
  let ?w1 = "upd_store (\<lambda>s. s\<lparr>m_flush_tried := w_now w\<rparr>) w"
  define w2 where "w2 = (if \<not> flush_failed ?w1
     then upd_store (\<lambda>s. s\<lparr>m_cache_size := m_cache_size s + cfg_req_slice_size e * w_downloads ?w1 * 2\<rparr>) ?w1 else ?w1)"
  have W: "WriteFail e w = StopDownload e (set_flush_failed True w2)" by (simp add: WriteFail_def w2_def Let_def)
  have "world_okx F ?w1" using assms by (intro world_ok_store) simp_all
  then have "world_okx F w2" using assms(2) unfolding w2_def by (auto intro!: world_ok_store)
  then show "world_okx F (WriteFail e w)" unfolding W by (intro world_ok_StopDownload world_ok_flush_failed)
  have s: "store_of w2 = (store_of w)\<lparr>m_flush_tried := w_now w, m_cache_size := m_cache_size (store_of w2)\<rparr>" and n: "w_now w2 = w_now w"
    by (simp_all add: w2_def)
  have "framed w ?w1" by (rule framed_store) simp_all
  moreover have "framed ?w1 w2" unfolding w2_def by (cases "flush_failed ?w1") (simp, simp add: framed_store)
  ultimately have "framed w w2" by (rule framed_trans)
  moreover have "framed w2 (WriteFail e w)"
  proof -
    have "w_content (WriteFail e w) = (w_content w2)\<lparr>c_store := c_store (w_content w2), c_flush_failed := True\<rparr>"
      by (simp add: W set_flush_failed_def upd_content_def)
    then show ?thesis unfolding framed_def by (intro conjI exI) (assumption, simp_all add: W)
  qed
  ultimately show "framed w (WriteFail e w)" by (rule framed_trans)
  have S: "store_of (WriteFail e w) = store_of w2" by (simp add: W)
  show "flush_failed (WriteFail e w)" by (simp add: W)
  have "m_flush_tried (store_of (WriteFail e w)) = w_now w" unfolding S by (subst s) simp
  moreover have "w_now (WriteFail e w) = w_now w" using n by (simp add: W)
  ultimately show "calm (WriteFail e w)" by (simp add: calm_def)
  show "lists (store_of (WriteFail e w)) = lists (store_of w)" unfolding S by (subst s) (simp add: lists_def)
  show "files_of (WriteFail e w) = files_of w" unfolding S by (subst s) simp
qed

lemma FileIO_write:
  assumes g: "good F w" and os: "os_fine e" and len: "unat len \<le> length buf" and rng: "unat off + unat len \<le> total_len w"
  shows "\<exists>ok out w' n. FileIO e True buf off len w = Some ((ok, out), w') \<and> n \<le> unat len \<and> (ok \<longrightarrow> n = unat len) \<and>
    world_okx F w' \<and> framed w w' \<and> calm w' \<and> lists (store_of w') = lists (store_of w) \<and> flat (total_len w) (files_of w') \<and>
    (ok \<longrightarrow> flush_failed w' = flush_failed w) \<and> (\<not> ok \<longrightarrow> flush_failed w') \<and>
    byte_at (files_of w') = (\<lambda>x. if unat off \<le> x \<and> x < unat off + n then Some (buf ! (x - unat off)) else byte_at (files_of w) x)"
proof -
  have fl: "disk_ok (files_of w)" "full (layout (files_of w))" "unat (m_total_files_length (files_of w)) = total_len w"
    using g by (simp_all add: good_def flat_def)
  have "unat off + unat len < 18446744073709551616" using rng unat_u64_lt[of "g_total (c_geo (w_content w))"] by linarith
  from btf_IO_write[OF fl(1) _ _ len this full_crossfree[OF fl(2)], of "e_os e" "e_open_depth e" "w_now w"] os
  obtain ok out d n where B: "btf_IO (e_open_depth e) (e_os e) (w_now w) True buf off len (files_of w) = Some ((ok, out), d)"
    "disk_ok d" "m_total_files_length d = m_total_files_length (files_of w)" "full (layout d)" "n \<le> unat len" "ok \<longrightarrow> n = unat len"
    "byte_at d = (\<lambda>x. if unat off \<le> x \<and> x < unat off + n then Some (buf ! (x - unat off)) else byte_at (files_of w) x)"
    using fl(2) unfolding os_fine_def by blast
  let ?w1 = "upd_store (\<lambda>s. s\<lparr>st_files := d\<rparr>) w"
  have w1: "world_okx F ?w1" using g B(4) by (intro world_ok_store) (simp_all add: good_def)
  have f1: "framed w ?w1" by (rule framed_store) simp_all
  have fl1: "flat (total_len w) d" using B(2-4) fl(3) by (simp add: flat_def)
  show ?thesis
  proof (cases ok)
    case True
    then have "FileIO e True buf off len w = Some ((ok, out), ?w1)" using B(1) by (simp add: FileIO_def)
    moreover have "calm ?w1" using g by (simp add: good_def calm_def)
    ultimately show ?thesis using True B(5-7) w1 f1 fl1 by (intro exI[of _ ok] exI[of _ out] exI[of _ ?w1] exI[of _ n]) (simp add: lists_def)
  next
    case False
    then have "FileIO e True buf off len w = Some ((ok, out), WriteFail e ?w1)" using B(1) by (simp add: FileIO_def)
    moreover have "full (layout (files_of ?w1))" using B(4) by simp
    note W = WriteFail_ok[OF w1 this, of e]
    moreover have "lists (store_of ?w1) = lists (store_of w)" by (simp add: lists_def)
    ultimately show ?thesis using False B(5-7) fl1 framed_trans[OF f1 W(2)]
      by (intro exI[of _ ok] exI[of _ out] exI[of _ "WriteFail e ?w1"] exI[of _ n]) simp
  qed
qed

lemma FileIO_read:
  assumes g: "good F w" and os: "os_fine e" and len: "unat len \<le> length buf" and rng: "unat off + unat len \<le> total_len w"
  shows "\<exists>ok out w'. FileIO e False buf off len w = Some ((ok, out), w') \<and> kept F w w' \<and> lists (store_of w') = lists (store_of w) \<and>
    flush_failed w' = flush_failed w \<and> byte_at (files_of w') = byte_at (files_of w) \<and>
    (ok \<longrightarrow> map Some (take (unat len) out) = map (byte_at (files_of w)) [unat off..<unat off + unat len] \<and> drop (unat len) out = drop (unat len) buf)"
proof -
  have fl: "disk_ok (files_of w)" "full (layout (files_of w))" "unat (m_total_files_length (files_of w)) = total_len w"
    using g by (simp_all add: good_def flat_def)
  have "unstale (layout (files_of w))" using full_unstale[OF fl(2)] .
  moreover have "byte_at (files_of w) x \<noteq> None" if "x < unat off + unat len" for x
    by (rule full_bytes[OF fl(1,2)]) (use that rng fl(3) in linarith)
  then have "None \<notin> set (bytes_at (files_of w) (unat off) (unat len))" by (fastforce simp: bytes_at_def)
  ultimately obtain ok out d where B: "btf_IO (e_open_depth e) (e_os e) (w_now w) False buf off len (files_of w) = Some ((ok, out), d)"
    "keeps (files_of w) d" "ok \<longrightarrow> map Some (take (unat len) out) = bytes_at (files_of w) (unat off) (unat len) \<and> drop (unat len) out = drop (unat len) buf"
    using btf_IO_read[OF fl(1) _ _ _ len, of "e_os e" "e_open_depth e" off "w_now w"] os rng fl(3) unfolding os_fine_def by force
  let ?w1 = "upd_store (\<lambda>s. s\<lparr>st_files := d\<rparr>) w"
  have bt: "byte_at d = byte_at (files_of w)" by (rule keeps_bytes[OF B(2)])
  have l: "lists (store_of ?w1) = lists (store_of w)" by (simp add: lists_def)
  have ly: "layout d = layout (files_of w)" using B(2) by (simp add: keeps_def)
  have "world_okx F ?w1" using g fl(2) ly by (intro world_ok_store) (simp_all add: good_def)
  moreover have "flat (total_len w) d" using keeps_disk_ok[OF B(2) fl(1)] fl B(2) by (simp add: flat_def keeps_def)
  moreover have "clean_ok (store_of ?w1)" using g by (simp add: good_def clean_ok_def bt)
  moreover have "calm ?w1" using g by (simp add: good_def calm_def)
  ultimately have "good F ?w1" using g lists_ok[OF l] by (simp add: good_def)
  moreover have "content_at (store_of ?w1) = content_at (store_of w)" using lists_ok[OF l] by (intro ext) (simp add: content_at_def bt cong: option.case_cong)
  moreover have "framed w ?w1" by (rule framed_store) simp_all
  ultimately have "kept F w ?w1" by (simp add: kept_def)
  moreover have "FileIO e False buf off len w = Some ((ok, out), ?w1)" using B(1) by (simp add: FileIO_def)
  ultimately show ?thesis using B(3) l bt by (intro exI[of _ ok] exI[of _ out] exI[of _ ?w1]) (simp add: bytes_at_def)
qed

end
