(* ===== verification/Cache_Flow.thy ===== *)
theory Cache_Flow
  imports Cache_Ok
begin

text \<open>
  Flushing, making space and the reading and writing of slices: each operation returns, keeps the state of the
  cache and the files well formed, and acts on the bytes of the torrent as it should.
\<close>

lemma content_cong: "cached s' = cached s \<Longrightarrow> byte_at (st_files s') = byte_at (st_files s) \<Longrightarrow> content_at s' = content_at s"
  by (intro ext) (simp add: content_at_def cong: option.case_cong)

section \<open>Flushing\<close>

definition dirty :: "store \<Rightarrow> nat \<Rightarrow> bool" where
  "dirty s i \<longleftrightarrow> (case st_node s i of None \<Rightarrow> False | Some p \<Rightarrow> bc_f_flush p)"

text \<open>Entries were written, and perhaps became newer.\<close>

definition flushed :: "store \<Rightarrow> store \<Rightarrow> bool" where
  "flushed s s' \<longleftrightarrow> m_cache s' = m_cache s \<and> m_cache_used s' = m_cache_used s \<and> st_next s' = st_next s \<and>
     mset (m_age s') = mset (m_age s) \<and>
     (\<forall>j. \<exists>b. st_node s' j = map_option (\<lambda>p. p\<lparr>bc_f_flush := b\<rparr>) (st_node s j) \<and> (b \<longrightarrow> dirty s j))"

lemma flushed_refl [simp]: "flushed s s"
proof -
  have "\<exists>b. st_node s j = map_option (\<lambda>p. p\<lparr>bc_f_flush := b\<rparr>) (st_node s j) \<and> (b \<longrightarrow> dirty s j)" for j
    by (rule exI[of _ "dirty s j"]) (auto simp: dirty_def split: option.splits)
  then show ?thesis by (simp add: flushed_def)
qed

lemma flushedD: "flushed s s' \<Longrightarrow> \<exists>b. st_node s' j = map_option (\<lambda>p. p\<lparr>bc_f_flush := b\<rparr>) (st_node s j) \<and> (b \<longrightarrow> dirty s j)"
  by (simp add: flushed_def)

lemma flushed_dirty: "flushed s s' \<Longrightarrow> dirty s' j \<Longrightarrow> dirty s j"
proof -
  assume f: "flushed s s'" and d: "dirty s' j"
  then obtain b where b: "st_node s' j = map_option (\<lambda>p. p\<lparr>bc_f_flush := b\<rparr>) (st_node s j)" "b \<longrightarrow> dirty s j"
    unfolding flushed_def by blast
  with d show "dirty s j" by (auto simp: dirty_def split: option.splits)
qed

lemma flushed_trans: assumes "flushed a b" "flushed b c" shows "flushed a c"
proof -
  have "\<exists>x. st_node c j = map_option (\<lambda>p. p\<lparr>bc_f_flush := x\<rparr>) (st_node a j) \<and> (x \<longrightarrow> dirty a j)" for j
  proof -
    obtain x y where x: "st_node b j = map_option (\<lambda>p. p\<lparr>bc_f_flush := x\<rparr>) (st_node a j)"
      and y: "st_node c j = map_option (\<lambda>p. p\<lparr>bc_f_flush := y\<rparr>) (st_node b j)" "y \<longrightarrow> dirty b j"
      using assms unfolding flushed_def by blast
    have "st_node c j = map_option (\<lambda>p. p\<lparr>bc_f_flush := y\<rparr>) (st_node a j)" using x y(1) by (cases "st_node a j") simp_all
    moreover have "y \<longrightarrow> dirty a j" using y(2) flushed_dirty[OF assms(1)] by blast
    ultimately show ?thesis by blast
  qed
  then show ?thesis using assms by (simp add: flushed_def)
qed

lemma flushed_node: "flushed s s' \<Longrightarrow> st_node s j = Some p \<Longrightarrow> \<exists>b. st_node s' j = Some (p\<lparr>bc_f_flush := b\<rparr>)"
  using flushedD[of s s' j] by (metis option.map(2))

lemma flushed_none: "flushed s s' \<Longrightarrow> st_node s' j = None \<longleftrightarrow> st_node s j = None"
  using flushedD[of s s' j] by (cases "st_node s j") auto

lemma flushed_lists: "lists s' = lists s \<Longrightarrow> flushed s s'"
  using flushedD[OF flushed_refl, of s] unfolding flushed_def lists_def by simp

text \<open>Bytes on disk change only below an entry that is still to be written.\<close>

lemma disk_below_dirty:
  assumes ok: "cache_ok pl t s" and l: "lists s' = lists s" and c: "clean_ok s" and i: "st_node s i = Some p" "bc_f_flush p"
    and d: "\<And>x. \<not> covers p x \<Longrightarrow> byte_at (st_files s') x = byte_at (st_files s) x"
  shows "clean_ok s'" "content_at s' = content_at s"
proof -
  have n: "st_node s' = st_node s" using l by (simp add: lists_def)
  show "clean_ok s'"
    unfolding clean_ok_def n
  proof (intro allI impI)
    fix j q x assume q: "st_node s j = Some q" "\<not> bc_f_flush q" "covers q x"
    then have "\<not> covers p x" using one_entry[OF ok i(1) q(1)] i by auto
    then show "byte_at (st_files s') x = Some (bc_buf q ! (x - unat (bc_off q)))" using d c q by (simp add: clean_ok_def)
  qed
  show "content_at s' = content_at s"
  proof
    fix x
    have ce: "cached s' x = cached s x" using lists_ok[OF l] by simp
    show "content_at s' x = content_at s x"
    proof (cases "covers p x")
      case True
      then show ?thesis using cached_at[OF ok i(1)] ce by (simp add: content_at_def)
    next
      case False
      then show ?thesis using d ce by (simp add: content_at_def cong: option.case_cong)
    qed
  qed
qed

lemma FlushEntry_keeps:
  assumes g: "good F w" and os: "os_fine e" and i: "st_node (store_of w) i = Some p"
  shows "\<exists>w'. FlushEntry_with conf e i w = Some w' \<and> kept F w w' \<and> flushed (store_of w) (store_of w') \<and>
    m_age (store_of w') = m_age (store_of w) \<and> cached (store_of w') = cached (store_of w) \<and>
    (flush_failed w' \<or> \<not> dirty (store_of w') i) \<and> (flush_failed w \<longrightarrow> flush_failed w')"
proof (cases "flush_failed w \<and> w_now w < m_flush_tried (store_of w) + FLUSH_RETRY_INTERVAL")
  case True
  then show ?thesis using kept_refl[OF g] by (simp add: FlushEntry_with_def)
next
  case nd: False
  then have nf: "\<not> flush_failed w" using g by (auto simp: good_def calm_def)
  show ?thesis
  proof (cases "bc_f_flush p")
    case False
    then show ?thesis using kept_refl[OF g] nf i by (simp add: FlushEntry_with_def dirty_def)
  next
    case True
    have ok: "cache_ok (plen_of w) (total_len w) (store_of w)" and cl: "clean_ok (store_of w)" using g by (simp_all add: good_def)
    have e: "entry_ok (plen_of w) (total_len w) p" by (rule cache_okD(7)[OF ok i])
    then have "unat (bc_len p) \<le> length (bc_buf p)" "unat (bc_off p) + unat (bc_len p) \<le> total_len w" by (simp_all add: entry_ok_def)
    from FileIO_write[OF g os this] obtain r out w1 n where W: "FileIO e True (bc_buf p) (bc_off p) (bc_len p) w = Some ((r, out), w1)"
      "n \<le> unat (bc_len p)" "r \<longrightarrow> n = unat (bc_len p)" "world_okx F w1" "framed w w1" "calm w1" "lists (store_of w1) = lists (store_of w)"
      "flat (total_len w) (files_of w1)" "r \<longrightarrow> flush_failed w1 = flush_failed w" "\<not> r \<longrightarrow> flush_failed w1"
      "byte_at (files_of w1) = (\<lambda>x. if unat (bc_off p) \<le> x \<and> x < unat (bc_off p) + n then Some (bc_buf p ! (x - unat (bc_off p))) else byte_at (files_of w) x)"
      by blast
    note fs = framed_sel[OF W(5)]
    have out: "byte_at (files_of w1) x = byte_at (files_of w) x" if "\<not> covers p x" for x
      using that W(2) by (auto simp: W(11) covers_def)
    note D = disk_below_dirty[OF ok W(7) cl i True out]
    have ok1: "cache_ok (plen_of w1) (total_len w1) (store_of w1)" using ok lists_ok[OF W(7)] fs(1) by simp
    have c1: "cached (store_of w1) = cached (store_of w)" using lists_ok[OF W(7)] by simp
    have g1: "good F w1" using W(4,6,8) ok1 D(1) fs(1) by (simp add: good_def)
    have f1: "flushed (store_of w) (store_of w1)" "m_age (store_of w1) = m_age (store_of w)"
      using W(7) flushed_lists[OF W(7)] by (simp_all add: lists_def)
    show ?thesis
    proof (cases r)
      case False
      then have "FlushEntry_with conf e i w = Some w1" using nf i True W(1) by (simp add: FlushEntry_with_def)
      moreover have "kept F w w1" using g1 W(5) D(2) by (simp add: kept_def)
      ultimately show ?thesis using f1 c1 W(10) False by simp
    next
      case r: True
      let ?w2 = "upd_store (upd_cached i (\<lambda>p. p\<lparr>bc_f_flush := False\<rparr>)) w1"
      let ?s2 = "upd_cached i (\<lambda>p. p\<lparr>bc_f_flush := False\<rparr>) (store_of w1)"
      have "\<not> flush_failed ?w2" using r W(9) nf by simp
      then have E: "FlushEntry_with conf e i w = Some ?w2" using nf i True W(1) r by (simp add: FlushEntry_with_def)
      note S = set_flush_ok[OF ok1, of ?s2 i False, OF refl]
      have n1: "st_node (store_of w1) = st_node (store_of w)" using W(7) by (simp add: lists_def)
      have n2: "st_node ?s2 = (st_node (store_of w))(i := Some (p\<lparr>bc_f_flush := False\<rparr>))" using n1 i by (simp add: upd_cached_def)
      have fi: "st_files ?s2 = files_of w1" by (simp add: upd_cached_def)
      have "clean_ok ?s2"
        unfolding clean_ok_def n2 fi
      proof (intro allI impI)
        fix j q x assume q: "((st_node (store_of w))(i := Some (p\<lparr>bc_f_flush := False\<rparr>))) j = Some q" "\<not> bc_f_flush q" "covers q x"
        show "byte_at (files_of w1) x = Some (bc_buf q ! (x - unat (bc_off q)))"
        proof (cases "j = i")
          case True
          then have "q = p\<lparr>bc_f_flush := False\<rparr>" using q(1) by simp
          then show ?thesis using q(3) W(3,11) r by (auto simp: covers_def)
        next
          case False
          then show ?thesis using q D(1) n1 by (simp add: clean_ok_def)
        qed
      qed
      moreover have "world_okx F ?w2" using W(4,8) by (intro world_ok_store) (simp_all add: flat_def upd_cached_def)
      moreover have "calm ?w2" using W(6) by (simp add: calm_def upd_cached_def)
      ultimately have "good F ?w2" using S(1) W(8) fs(1) by (simp add: good_def upd_cached_def)
      moreover have "framed w ?w2" by (rule framed_trans[OF W(5)], rule framed_store) (simp_all add: upd_cached_def)
      moreover have "content_at ?s2 = content_at (store_of w)"
        using content_cong[OF S(2)] fi D(2) by simp
      ultimately have "kept F w ?w2" by (simp add: kept_def)
      moreover have "\<exists>b. st_node ?s2 j = map_option (\<lambda>p. p\<lparr>bc_f_flush := b\<rparr>) (st_node (store_of w1) j) \<and> (b \<longrightarrow> dirty (store_of w1) j)" for j
      proof (cases "j = i")
        case True
        then show ?thesis by (intro exI[of _ False]) (simp add: upd_cached_def)
      next
        case False
        then have "st_node ?s2 j = st_node (store_of w1) j" by (simp add: upd_cached_def)
        then show ?thesis using flushedD[OF flushed_refl, of "store_of w1" j] by simp
      qed
      then have "flushed (store_of w1) ?s2" by (simp add: flushed_def upd_cached_def)
      then have "flushed (store_of w) ?s2" using flushed_trans[OF f1(1)] by blast
      moreover have "\<not> dirty ?s2 i" by (simp add: dirty_def n2)
      moreover have "m_age ?s2 = m_age (store_of w)" using f1(2) by (simp add: upd_cached_def)
      ultimately show ?thesis using E S(2) c1 nf by simp
    qed
  qed
qed

lemma next_in_split: "distinct (pre @ i # rest) \<Longrightarrow> next_in i (pre @ i # rest) = first_of rest"
proof -
  assume d: "distinct (pre @ i # rest)"
  have "dropWhile (\<lambda>j. j \<noteq> i) (pre @ i # rest) = i # rest" using d by (subst dropWhile_append2) auto
  then show ?thesis by (simp add: next_in_def first_of_def)
qed

lemma flush_loop_step:
  assumes "st_node (store_of w) i = Some p" and "aged = (done \<and> m_cache_newest (store_of w) \<noteq> Some i)"
    and "w1 = (if aged then upd_store (to_newest i) w else w)"
    and "(if bc_f_flush p then entry i w1 else Some w1) = Some w2" and "st_node (store_of w2) i \<noteq> None"
  shows "flush_loop entry idx done (Some i) ret w = flush_loop entry idx done (next_in i (m_cache (store_of w2) idx)) (ret \<or> aged) w2"
  by (subst flush_loop.simps)
    (simp only: option.case assms(1) Let_def assms(2)[symmetric] assms(3)[symmetric] assms(4) assms(5) if_False)

lemma flushed_to_newest: "cache_ok pl t s \<Longrightarrow> st_node s i \<noteq> None \<Longrightarrow> flushed s (to_newest i s)"
proof -
  assume a: "cache_ok pl t s" "st_node s i \<noteq> None"
  note N = to_newest_ok[OF a]
  show ?thesis using N(3-5,7,10) flushedD[OF flushed_refl, of s] by (simp add: flushed_def)
qed

lemma to_newest_keeps:
  assumes g: "good F w" and i: "st_node (store_of w) i \<noteq> None"
  shows "kept F w (upd_store (to_newest i) w)" "flushed (store_of w) (store_of (upd_store (to_newest i) w))"
    "cached (store_of (upd_store (to_newest i) w)) = cached (store_of w)"
proof -
  have ok: "cache_ok (plen_of w) (total_len w) (store_of w)" using g by (simp add: good_def)
  note N = to_newest_ok[OF ok i]
  have "world_okx F (upd_store (to_newest i) w)" using g N(6) by (intro world_ok_store) (simp_all add: good_def flat_def)
  then have "good F (upd_store (to_newest i) w)" using g N by (simp add: good_def clean_ok_def calm_def)
  moreover have "framed w (upd_store (to_newest i) w)" by (rule framed_store) (simp_all add: N)
  moreover have "content_at (to_newest i (store_of w)) = content_at (store_of w)" by (rule content_cong) (simp_all add: N)
  ultimately show "kept F w (upd_store (to_newest i) w)" by (simp add: kept_def)
  show "flushed (store_of w) (store_of (upd_store (to_newest i) w))" using flushed_to_newest[OF ok i] by simp
  show "cached (store_of (upd_store (to_newest i) w)) = cached (store_of w)" using N(2) by simp
qed

lemma flush_loop_keeps:
  assumes g: "good F w" and os: "os_fine e" and ch: "m_cache (store_of w) idx = pre @ rest"
  shows "\<exists>ret' w'. flush_loop (FlushEntry_with conf e) idx done (first_of rest) ret w = Some (ret', w') \<and> kept F w w' \<and>
    flushed (store_of w) (store_of w') \<and> cached (store_of w') = cached (store_of w) \<and>
    (\<not> ret' \<longrightarrow> \<not> ret \<and> m_age (store_of w') = m_age (store_of w)) \<and> (flush_failed w \<longrightarrow> flush_failed w') \<and>
    (flush_failed w' \<or> (\<forall>j\<in>set rest. \<not> dirty (store_of w') j))"
  using assms
proof (induction rest arbitrary: w pre ret)
  case Nil
  then have "flush_loop (FlushEntry_with conf e) idx done (first_of []) ret w = Some (ret, w)"
    by (subst flush_loop.simps) (simp add: first_of_def)
  then show ?case using kept_refl[OF Nil.prems(1)] by simp
next
  case (Cons i rest)
  have ok: "cache_ok (plen_of w) (total_len w) (store_of w)" using Cons.prems(1) by (simp add: good_def)
  have "i \<in> set (m_cache (store_of w) idx)" using Cons.prems(3) by simp
  then obtain p where p: "st_node (store_of w) i = Some p" using cache_okD(6)[OF ok] by blast
  define aged where "aged = (done \<and> m_cache_newest (store_of w) \<noteq> Some i)"
  define w1 where "w1 = (if aged then upd_store (to_newest i) w else w)"
  have K1: "kept F w w1" "flushed (store_of w) (store_of w1)" "cached (store_of w1) = cached (store_of w)"
    using to_newest_keeps[OF Cons.prems(1), of i] p kept_refl[OF Cons.prems(1)] by (auto simp: w1_def)
  have A1: "\<not> aged \<Longrightarrow> m_age (store_of w1) = m_age (store_of w)" by (simp add: w1_def)
  have p1: "st_node (store_of w1) i = Some p" using to_newest_ok(4)[OF ok] p by (simp add: w1_def)
  have "\<exists>w2. (if bc_f_flush p then FlushEntry_with conf e i w1 else Some w1) = Some w2 \<and> kept F w1 w2 \<and>
    flushed (store_of w1) (store_of w2) \<and> m_age (store_of w2) = m_age (store_of w1) \<and> cached (store_of w2) = cached (store_of w1) \<and>
    (flush_failed w2 \<or> \<not> dirty (store_of w2) i) \<and> (flush_failed w1 \<longrightarrow> flush_failed w2)"
  proof (cases "bc_f_flush p")
    case True
    then show ?thesis using FlushEntry_keeps[OF kept_good[OF K1(1)] os p1, of conf] by simp
  next
    case False
    then show ?thesis using kept_refl[OF kept_good[OF K1(1)]] p1 by (simp add: dirty_def)
  qed
  then obtain w2 where W2: "(if bc_f_flush p then FlushEntry_with conf e i w1 else Some w1) = Some w2" "kept F w1 w2"
    "flushed (store_of w1) (store_of w2)" "m_age (store_of w2) = m_age (store_of w1)" "cached (store_of w2) = cached (store_of w1)"
    "flush_failed w2 \<or> \<not> dirty (store_of w2) i" "flush_failed w1 \<longrightarrow> flush_failed w2" by blast
  have n2: "st_node (store_of w2) i \<noteq> None" using flushed_none[OF W2(3)] p1 by simp
  have c2: "m_cache (store_of w2) = m_cache (store_of w)" using K1(2) W2(3) by (simp add: flushed_def)
  have d: "distinct (pre @ i # rest)" using cache_okD(4)[OF ok, of idx] Cons.prems(3) by simp
  have nx: "next_in i (m_cache (store_of w2) idx) = first_of rest" using next_in_split[OF d] Cons.prems(3) c2 by simp
  have L: "flush_loop (FlushEntry_with conf e) idx done (first_of (i # rest)) ret w =
      flush_loop (FlushEntry_with conf e) idx done (first_of rest) (ret \<or> aged) w2"
    using flush_loop_step[where entry = "FlushEntry_with conf e" and idx = idx and ret = ret, OF p aged_def w1_def W2(1) n2] nx by (simp add: first_of_def)
  have "m_cache (store_of w2) idx = (pre @ [i]) @ rest" using c2 Cons.prems(3) by simp
  from Cons.IH[OF kept_good[OF W2(2)] os this, of "ret \<or> aged"] obtain ret' w' where
    I: "flush_loop (FlushEntry_with conf e) idx done (first_of rest) (ret \<or> aged) w2 = Some (ret', w')" "kept F w2 w'"
    "flushed (store_of w2) (store_of w')" "cached (store_of w') = cached (store_of w2)"
    "\<not> ret' \<longrightarrow> \<not> (ret \<or> aged) \<and> m_age (store_of w') = m_age (store_of w2)" "flush_failed w2 \<longrightarrow> flush_failed w'" "flush_failed w' \<or> (\<forall>j\<in>set rest. \<not> dirty (store_of w') j)" by blast
  have "kept F w w'" using kept_trans[OF kept_trans[OF K1(1) W2(2)] I(2)] .
  moreover have "flushed (store_of w) (store_of w')" using flushed_trans[OF flushed_trans[OF K1(2) W2(3)] I(3)] .
  moreover have "cached (store_of w') = cached (store_of w)" using K1(3) W2(5) I(4) by simp
  moreover have "\<not> ret' \<longrightarrow> \<not> ret \<and> m_age (store_of w') = m_age (store_of w)" using I(5) W2(4) A1 by auto
  moreover have "flush_failed w1 = flush_failed w" by (simp add: w1_def)
  then have "flush_failed w \<longrightarrow> flush_failed w'" using W2(7) I(6) by blast
  moreover have "flush_failed w' \<or> (\<forall>j\<in>set (i # rest). \<not> dirty (store_of w') j)"
    using W2(6) I(6,7) flushed_dirty[OF I(3)] by auto
  ultimately show ?case unfolding L using I(1) by blast
qed

section \<open>Making space\<close>

lemma good_geo: "good F w \<Longrightarrow> geo_ok (c_geo (w_content w))"
  by (simp add: good_def world_okx_def content_ok_def Let_def)

lemma good_cache: "good F w \<Longrightarrow> cache_ok (plen_of w) (total_len w) (store_of w)"
  by (simp add: good_def)

lemma piece_of_nr:
  assumes g: "good F w" and off: "unat off < total_len w"
  shows "piece_of w off = unat off div plen_of w" "piece_of w off < unat (npieces w)"
proof -
  have p: "0 < plen_of w" using good_geo[OF g] by (simp add: geo_ok_def u32_less_iff)
  have "unat off + plen_of w \<le> total_len w + plen_of w - 1" using off by simp
  then have "(unat off + plen_of w) div plen_of w \<le> unat (npieces w)"
    unfolding geo_npieces[OF good_geo[OF g]] by (rule div_le_mono)
  then have lt: "unat off div plen_of w < unat (npieces w)" using p by simp
  then have "unat off div plen_of w < 4294967296" using unat_u32_lt[of "npieces w"] by (rule less_trans)
  moreover have "unat (off div ucast (piece_length w)) = unat off div plen_of w" by (simp add: u64_div)
  ultimately show "piece_of w off = unat off div plen_of w"
    by (simp add: piece_of_def unsigned_ucast_eq take_bit_nat_eq_self_iff)
  then show "piece_of w off < unat (npieces w)" using lt by simp
qed

lemma entry_piece:
  assumes g: "good F w" and i: "st_node (store_of w) i = Some p"
  shows "piece_of w (bc_off p) = piece_nr (plen_of w) p"
proof -
  have "entry_ok (plen_of w) (total_len w) p" using cache_okD(7)[OF good_cache[OF g] i] .
  then have "unat (bc_off p) < total_len w" by (simp add: entry_ok_def)
  from piece_of_nr(1)[OF g this] show ?thesis by (simp add: piece_nr_def)
qed

text \<open>A step on the store that leaves the bytes alone.\<close>

lemma kept_store:
  assumes g: "good F w" and ok: "cache_ok (plen_of w) (total_len w) (f (store_of w))" and fi: "st_files (f (store_of w)) = files_of w"
    and cl: "clean_ok (f (store_of w))" and c: "content_at (f (store_of w)) = content_at (store_of w)"
    and f: "cfg_cache_size (f (store_of w)) = cfg_cache_size (store_of w)" "m_flushq (f (store_of w)) = m_flushq (store_of w)"
    "m_flush_tried (f (store_of w)) = m_flush_tried (store_of w)"
  shows "kept F w (upd_store f w)"
proof -
  have "world_okx F (upd_store f w)" using g fi by (intro world_ok_store) (simp_all add: good_def flat_def)
  then have "good F (upd_store f w)" using g ok cl fi f(3) by (simp add: good_def calm_def)
  moreover have "framed w (upd_store f w)" by (rule framed_store[where f = f]) (simp_all add: f)
  ultimately show ?thesis using c by (simp add: kept_def)
qed

lemma expire_keeps:
  assumes g: "good F w" and i: "st_node (store_of w) i = Some p" and n: "\<not> bc_f_flush p" and k: "k = piece_of w (bc_off p)"
  shows "kept F w (upd_store (expire_entry k i p) w)" "shrunk w (upd_store (expire_entry k i p) w)"
proof -
  note ok = good_cache[OF g]
  have "k = piece_nr (plen_of w) p" using k entry_piece[OF g i] by simp
  note E = expire_ok[OF ok i this refl]
  have sel: "st_files (expire_entry k i p s) = st_files s" "st_node (expire_entry k i p s) = (st_node s)(i := None)"
    "cfg_cache_size (expire_entry k i p s) = cfg_cache_size s" "m_flushq (expire_entry k i p s) = m_flushq s"
    "m_flush_tried (expire_entry k i p s) = m_flush_tried s" for s
    by (simp_all add: expire_entry_def)
  have cl: "clean_ok (store_of w)" using g by (simp add: good_def)
  then have cl': "clean_ok (expire_entry k i p (store_of w))" unfolding clean_ok_def sel by (auto split: if_splits)
  have c: "content_at (expire_entry k i p (store_of w)) = content_at (store_of w)"
  proof
    fix x
    show "content_at (expire_entry k i p (store_of w)) x = content_at (store_of w) x"
    proof (cases "covers p x")
      case True
      then have "content_at (expire_entry k i p (store_of w)) x = byte_at (files_of w) x" by (simp add: content_at_def E(2) sel)
      also have "\<dots> = content_at (store_of w) x" using cl i n True cached_at[OF ok i True] by (simp add: clean_ok_def content_at_def)
      finally show ?thesis .
    next
      case False
      then show ?thesis by (simp add: content_at_def E(2) sel cong: option.case_cong)
    qed
  qed
  show "kept F w (upd_store (expire_entry k i p) w)" by (rule kept_store[where f = "expire_entry k i p", OF g E(1) _ cl' c]) (simp_all add: sel)
  show "shrunk w (upd_store (expire_entry k i p) w)" by (simp add: shrunk_def E(2))
qed

definition dirt :: "world \<Rightarrow> nat" where
  "dirt w = (if flush_failed w then 0 else Suc (length (filter (dirty (store_of w)) (m_age (store_of w)))))"

lemma filter_mset_length: "mset xs = mset ys \<Longrightarrow> length (filter P xs) = length (filter P ys)"
  by (metis mset_filter size_mset)

lemma dirt_less:
  assumes "flushed (store_of w) (store_of w')" and "\<not> flush_failed w" and "dirty (store_of w) i"
    and "i \<in> set (m_age (store_of w))" and "flush_failed w' \<or> \<not> dirty (store_of w') i"
  shows "dirt w' < dirt w"
proof (cases "flush_failed w'")
  case False
  let ?s = "store_of w" and ?s' = "store_of w'"
  have "length (filter (dirty ?s') (m_age ?s')) = length (filter (dirty ?s') (m_age ?s))"
    using assms(1) by (intro filter_mset_length) (simp add: flushed_def)
  also have "\<dots> < length (filter (dirty ?s) (m_age ?s))"
  proof -
    have "length (filter (dirty ?s') xs) \<le> length (filter (dirty ?s) xs)" for xs
      using flushed_dirty[OF assms(1)] by (induction xs) auto
    moreover have "i \<in> set xs \<Longrightarrow> length (filter (dirty ?s') xs) < length (filter (dirty ?s) xs)" for xs
    proof (induction xs)
      case (Cons x xs)
      then show ?case using flushed_dirty[OF assms(1), of x] assms(3,5) False calculation[of xs] by (cases "x = i") auto
    qed simp
    ultimately show ?thesis using assms(4) by blast
  qed
  finally show ?thesis using False assms(2) by (simp add: dirt_def)
qed (use assms(2) in \<open>simp add: dirt_def\<close>)

lemma FlushPiece_keeps:
  assumes g: "good F w" and os: "os_fine e"
  shows "\<exists>ret w'. FlushPiece_with conf e idx w = Some (ret, w') \<and> kept F w w' \<and> flushed (store_of w) (store_of w') \<and>
    cached (store_of w') = cached (store_of w) \<and> (\<not> ret \<longrightarrow> m_age (store_of w') = m_age (store_of w)) \<and>
    (flush_failed w \<longrightarrow> flush_failed w') \<and> (flush_failed w' \<or> (\<forall>j\<in>set (m_cache (store_of w) idx). \<not> dirty (store_of w') j))"
  using flush_loop_keeps[OF g os, of idx "[]" "m_cache (store_of w) idx" conf] unfolding FlushPiece_with_def by fastforce

lemma clean_loop_step:
  assumes "m_cache_size (store_of w) < m_cache_used (store_of w) + need" and "st_node (store_of w) i = Some p"
    and "(if f \<and> bc_f_flush p \<and> \<not> flush_failed w then piece (piece_of w (bc_off p)) w else Some (False, w)) = Some (aged, w1)"
  shows clean_loop_again: "aged \<Longrightarrow> clean_loop piece need idx f (Some i) w = clean_loop piece need idx f (m_cache_oldest (store_of w1)) w1"
    and clean_loop_on: "\<not> aged \<Longrightarrow> st_node (store_of w1) i = Some q \<Longrightarrow>
      w2 = (if bc_f_flush q \<or> \<not> f \<and> idx = piece_of w (bc_off p) then w1 else upd_store (expire_entry (piece_of w (bc_off p)) i q) w1) \<Longrightarrow>
      clean_loop piece need idx f (Some i) w = clean_loop piece need idx f (next_in i (m_age (store_of w))) w2"
proof -
  have *: "clean_loop piece need idx f (Some i) w =
    (if aged then clean_loop piece need idx f (m_cache_oldest (store_of w1)) w1
     else (case st_node (store_of w1) i of None \<Rightarrow> None
       | Some q \<Rightarrow> clean_loop piece need idx f (next_in i (m_age (store_of w)))
           (if bc_f_flush q \<or> \<not> f \<and> idx = piece_of w (bc_off p) then w1 else upd_store (expire_entry (piece_of w (bc_off p)) i q) w1)))"
    by (subst clean_loop.simps) (simp only: option.case Let_def assms not_not if_True if_False simp_thms prod.case)
  then show "aged \<Longrightarrow> clean_loop piece need idx f (Some i) w = clean_loop piece need idx f (m_cache_oldest (store_of w1)) w1" by simp
  assume "\<not> aged" "st_node (store_of w1) i = Some q"
    "w2 = (if bc_f_flush q \<or> \<not> f \<and> idx = piece_of w (bc_off p) then w1 else upd_store (expire_entry (piece_of w (bc_off p)) i q) w1)"
  with * show "clean_loop piece need idx f (Some i) w = clean_loop piece need idx f (next_in i (m_age (store_of w))) w2" by simp
qed

lemma clean_loop_end:
  "\<not> m_cache_size (store_of w) < m_cache_used (store_of w) + need \<or> cur = None \<Longrightarrow> clean_loop piece need idx f cur w = Some w"
  by (cases cur; subst clean_loop.simps) (simp_all only: option.case simp_thms if_True option.distinct)

lemma oldest_first: "m_cache_oldest s = first_of (m_age s)"
  by (simp add: first_of_def)

lemma dirt_expire: "st_node (store_of w) i = Some q \<Longrightarrow> dirt (upd_store (expire_entry k i q) w) \<le> dirt w"
proof -
  let ?s' = "expire_entry k i q (store_of w)"
  have d: "dirty ?s' j \<Longrightarrow> dirty (store_of w) j" for j by (auto simp: dirty_def expire_entry_def split: if_splits)
  have "length (filter (dirty ?s') xs) \<le> length (filter (dirty (store_of w)) xs)" for xs using d by (induction xs) auto
  moreover have "length (filter P (remove1 i xs)) \<le> length (filter P xs)" for P and xs :: "nat list" by (induction xs) auto
  ultimately have "length (filter (dirty ?s') (remove1 i (m_age (store_of w)))) \<le> length (filter (dirty (store_of w)) (m_age (store_of w)))"
    by (meson le_trans)
  then show ?thesis by (simp add: dirt_def expire_entry_def)
qed

lemma framed_piece_of: "framed w w' \<Longrightarrow> piece_of w' off = piece_of w off"
  by (simp add: piece_of_def framed_sel(1))

lemma shrunk_cached: "cached (store_of w') = cached (store_of w) \<Longrightarrow> shrunk w w'"
  by (simp add: shrunk_def)

lemma clean_loop_keeps:
  assumes "good F w" and os: "os_fine e" and "m_age (store_of w) = pre @ rest"
  shows "\<exists>w'. clean_loop (FlushPiece_with conf e) need idx f (first_of rest) w = Some w' \<and> kept F w w' \<and> shrunk w w'"
  using assms(1,3)
proof (induction "dirt w" arbitrary: w pre rest rule: less_induct)
  case outer: less
  have "good F v \<Longrightarrow> m_age (store_of v) = pre @ rest \<Longrightarrow> dirt v \<le> dirt w \<Longrightarrow>
    \<exists>w'. clean_loop (FlushPiece_with conf e) need idx f (first_of rest) v = Some w' \<and> kept F v w' \<and> shrunk v w'" for v pre
  proof (induction rest arbitrary: v pre)
    case Nil
    have "clean_loop (FlushPiece_with conf e) need idx f (first_of []) v = Some v" by (rule clean_loop_end) (simp add: first_of_def)
    then show ?case using kept_refl[OF Nil(1)] by auto
  next
    case (Cons i rest)
    note ok = good_cache[OF Cons.prems(1)]
    have m: "i \<in> set (m_age (store_of v))" using Cons.prems(2) by simp
    then obtain p where p: "st_node (store_of v) i = Some p" using cache_okD(2)[OF ok] by blast
    show ?case
    proof (cases "m_cache_size (store_of v) < m_cache_used (store_of v) + need")
      case False
      then have "clean_loop (FlushPiece_with conf e) need idx f (first_of (i # rest)) v = Some v" by (intro clean_loop_end) simp
      then show ?thesis using kept_refl[OF Cons.prems(1)] by auto
    next
      case short: True
      let ?k = "piece_of v (bc_off p)"
      have nx: "next_in i (m_age (store_of v)) = first_of rest"
        using next_in_split[of pre i rest] cache_okD(1)[OF ok] Cons.prems(2) by simp
      obtain aged w1 where w1: "(if f \<and> bc_f_flush p \<and> \<not> flush_failed v then FlushPiece_with conf e ?k v else Some (False, v)) = Some (aged, w1)"
        and K1: "kept F v w1" "flushed (store_of v) (store_of w1)" "cached (store_of w1) = cached (store_of v)"
          "\<not> aged \<Longrightarrow> m_age (store_of w1) = m_age (store_of v)"
        and D1: "aged \<Longrightarrow> dirt w1 < dirt v" "dirt w1 \<le> dirt v"
      proof (cases "f \<and> bc_f_flush p \<and> \<not> flush_failed v")
        case True
        obtain ret w1 where R: "FlushPiece_with conf e ?k v = Some (ret, w1)" "kept F v w1" "flushed (store_of v) (store_of w1)"
          "cached (store_of w1) = cached (store_of v)" "\<not> ret \<longrightarrow> m_age (store_of w1) = m_age (store_of v)"
          "flush_failed w1 \<or> (\<forall>j\<in>set (m_cache (store_of v) ?k). \<not> dirty (store_of w1) j)"
          using FlushPiece_keeps[OF Cons.prems(1) os, of conf ?k] by blast
        have "i \<in> set (m_cache (store_of v) ?k)" using cache_okD(6)[OF ok] p entry_piece[OF Cons.prems(1) p] by simp
        then have "dirt w1 < dirt v"
          using dirt_less[OF R(3), of i] R(6) True m p by (auto simp: dirty_def)
        then show ?thesis using that R True by simp
      next
        case False
        then show ?thesis using that[of False v] kept_refl[OF Cons.prems(1)] by auto
      qed
      have g1: "good F w1" by (rule kept_good[OF K1(1)])
      show ?thesis
      proof (cases aged)
        case True
        have "dirt w1 < dirt w" using D1(1) True Cons.prems(3) by simp
        from outer(1)[OF this g1, of "[]"] obtain w' where
          "clean_loop (FlushPiece_with conf e) need idx f (first_of (m_age (store_of w1))) w1 = Some w'" "kept F w1 w'" "shrunk w1 w'" by auto
        moreover have "clean_loop (FlushPiece_with conf e) need idx f (first_of (i # rest)) v =
          clean_loop (FlushPiece_with conf e) need idx f (first_of (m_age (store_of w1))) w1"
          using clean_loop_step(1)[where w = v and piece = "FlushPiece_with conf e", OF short p w1 True, of idx] by (simp add: first_of_def)
        ultimately show ?thesis using kept_trans[OF K1(1)] shrunk_trans[OF shrunk_cached[OF K1(3)]] by auto
      next
        case False
        obtain b where q: "st_node (store_of w1) i = Some (p\<lparr>bc_f_flush := b\<rparr>)" using flushed_node[OF K1(2) p] by blast
        let ?q = "p\<lparr>bc_f_flush := b\<rparr>"
        define w2 where "w2 = (if bc_f_flush ?q \<or> \<not> f \<and> idx = ?k then w1 else upd_store (expire_entry ?k i ?q) w1)"
        have fr: "framed v w1" using K1(1) by (simp add: kept_def)
        have k1: "?k = piece_of w1 (bc_off ?q)" using framed_piece_of[OF fr] by simp
        have K2: "kept F w1 w2" "shrunk w1 w2"
          using expire_keeps[OF g1 q _ k1] kept_refl[OF g1] by (auto simp: w2_def)
        have a2: "\<exists>pre'. m_age (store_of w2) = pre' @ rest"
        proof (cases "bc_f_flush ?q \<or> \<not> f \<and> idx = ?k")
          case True
          then show ?thesis using K1(4) False Cons.prems(2) by (intro exI[of _ "pre @ [i]"]) (simp add: w2_def)
        next
          case e: False
          have "i \<notin> set pre" using cache_okD(1)[OF ok] Cons.prems(2) by simp
          then show ?thesis using K1(4) False Cons.prems(2) e by (intro exI[of _ pre]) (simp add: w2_def expire_entry_def remove1_append)
        qed
        then obtain pre' where "m_age (store_of w2) = pre' @ rest" ..
        moreover have "dirt w2 \<le> dirt w" using dirt_expire[OF q, of ?k] D1(2) Cons.prems(3) by (auto simp: w2_def)
        ultimately obtain w' where "clean_loop (FlushPiece_with conf e) need idx f (first_of rest) w2 = Some w'" "kept F w2 w'" "shrunk w2 w'"
          using Cons.IH[OF kept_good[OF K2(1)]] by blast
        moreover have "clean_loop (FlushPiece_with conf e) need idx f (first_of (i # rest)) v =
          clean_loop (FlushPiece_with conf e) need idx f (first_of rest) w2"
          using clean_loop_step(2)[where w = v and piece = "FlushPiece_with conf e", OF short p w1 False q w2_def] nx by (simp add: first_of_def)
        ultimately show ?thesis
          using kept_trans[OF kept_trans[OF K1(1) K2(1)]] shrunk_trans[OF shrunk_trans[OF shrunk_cached[OF K1(3)] K2(2)]] by auto
      qed
    qed
  qed
  then show ?case using outer.prems by blast
qed

lemma cache_grow_keeps: "good F w \<Longrightarrow> kept F w (cache_grow need w)" "shrunk w (cache_grow need w)"
proof -
  define f where "f = (\<lambda>s. if m_cache_size s < cache_limit s
    then s\<lparr>m_cache_size := (if cache_limit s < m_cache_used s + need then cache_limit s else m_cache_used s + need)\<rparr> else s)"
  have G: "cache_grow need w = upd_store f w" by (simp add: cache_grow_def f_def)
  have l: "lists (f s) = lists s" and sel: "st_files (f s) = st_files s" "st_node (f s) = st_node s" "cfg_cache_size (f s) = cfg_cache_size s"
    "m_flushq (f s) = m_flushq s" "m_flush_tried (f s) = m_flush_tried s" for s by (simp_all add: f_def lists_def)
  show "shrunk w (cache_grow need w)" unfolding G shrunk_def upd_store_sel using lists_ok[OF l] by simp
  assume g: "good F w"
  show "kept F w (cache_grow need w)" unfolding G
  proof (rule kept_store[where f = f, OF g])
    show "cache_ok (plen_of w) (total_len w) (f (store_of w))" using lists_ok[OF l] good_cache[OF g] by simp
    show "clean_ok (f (store_of w))" using g by (simp add: good_def clean_ok_def sel)
    show "content_at (f (store_of w)) = content_at (store_of w)" by (rule content_cong) (use lists_ok[OF l] in \<open>simp_all add: sel\<close>)
  qed (simp_all add: sel)
qed

lemma CacheClean_with_keeps:
  assumes g: "good F w" and os: "os_fine e"
  shows "\<exists>w'. CacheClean_with (FlushPiece_with conf e) e need idx w = Some w' \<and> kept F w w' \<and> shrunk w w'"
proof -
  have nr: "\<not> (flush_failed w \<and> m_flush_tried (store_of w) + FLUSH_RETRY_INTERVAL \<le> w_now w \<and> need \<noteq> 0)"
    using g by (auto simp: good_def calm_def)
  obtain w1 where w1: "clean_loop (FlushPiece_with conf e) need idx False (m_cache_oldest (store_of w)) w = Some w1" "kept F w w1" "shrunk w w1"
    using clean_loop_keeps[OF g os, of "[]" "m_age (store_of w)" conf need idx False] unfolding oldest_first by auto
  let ?w2 = "cache_grow need w1"
  have k2: "kept F w ?w2" "shrunk w ?w2"
    using kept_trans[OF w1(2) cache_grow_keeps(1)[OF kept_good[OF w1(2)]]] shrunk_trans[OF w1(3) cache_grow_keeps(2)] by auto
  obtain w3 where w3: "clean_loop (FlushPiece_with conf e) need idx True (m_cache_oldest (store_of ?w2)) ?w2 = Some w3" "kept F ?w2 w3" "shrunk ?w2 w3"
    using clean_loop_keeps[OF kept_good[OF k2(1)] os, of "[]" "m_age (store_of ?w2)" conf need idx True] unfolding oldest_first by auto
  have k3: "kept F w w3" "shrunk w w3" using kept_trans[OF k2(1) w3(2)] shrunk_trans[OF k2(2) w3(3)] by auto
  have k4: "kept F w (cache_grow need w3)" "shrunk w (cache_grow need w3)"
    using kept_trans[OF k3(1) cache_grow_keeps(1)[OF kept_good[OF k3(1)]]] shrunk_trans[OF k3(2) cache_grow_keeps(2)] by auto
  define u where "u = (if \<not> cache_short need w1 then w1
     else if cache_short need ?w2 \<and> m_cache_used (store_of ?w2) \<noteq> 0 then if cache_short need w3 then cache_grow need w3 else w3
     else ?w2)"
  have "CacheClean_with (FlushPiece_with conf e) e need idx w = Some u"
    by (simp only: CacheClean_with_def if_not_P[OF nr] option.case w1(1) Let_def w3(1) option.map u_def if_distrib[of Some])
  moreover have "kept F w u \<and> shrunk w u" unfolding u_def using w1(2,3) k2 k3 k4 by (simp split: if_split)
  ultimately show ?thesis by blast
qed

lemma CacheClean_keeps:
  assumes "good F w" and "os_fine e"
  shows "\<exists>w'. CacheClean e need idx w = Some w' \<and> kept F w w' \<and> shrunk w w'"
proof -
  have two: "2 = Suc (1::nat)" by simp
  show ?thesis unfolding CacheClean_def two CacheClean_at.simps(2) by (rule CacheClean_with_keeps[OF assms])
qed

section \<open>Putting data into the cache\<close>

text \<open>\<open>overlay a n dat f\<close>: the bytes \<open>f\<close> with the first \<open>n\<close> bytes of \<open>dat\<close> at \<open>a\<close>.\<close>

definition overlay :: "nat \<Rightarrow> nat \<Rightarrow> bytes \<Rightarrow> (nat \<Rightarrow> u8 option) \<Rightarrow> nat \<Rightarrow> u8 option" where
  "overlay a n dat f = (\<lambda>x. if a \<le> x \<and> x < a + n then Some (dat ! (x - a)) else f x)"

lemma overlay_0 [simp]: "overlay a 0 dat f = f"
  by (rule ext) (auto simp: overlay_def)

lemma overlay_take: "n \<le> m \<Longrightarrow> overlay a n (take m dat) f = overlay a n dat f"
  by (rule ext) (auto simp: overlay_def)

lemma overlay_next: "n \<le> length dat \<Longrightarrow> overlay (a + n) m (drop n dat) (overlay a n dat f) = overlay a (n + m) dat f"
proof (rule ext)
  fix x assume "n \<le> length dat"
  then show "overlay (a + n) m (drop n dat) (overlay a n dat f) x = overlay a (n + m) dat f x"
    by (cases "x < a + n") (simp_all add: overlay_def)
qed

lemma overlay_again: "overlay a m dat (overlay a n dat f) = overlay a (max n m) dat f"
  by (rule ext) (auto simp: overlay_def)

definition uncached :: "store \<Rightarrow> nat \<Rightarrow> nat \<Rightarrow> bool" where
  "uncached s a n \<longleftrightarrow> (\<forall>x. a \<le> x \<longrightarrow> x < a + n \<longrightarrow> cached s x = None)"

lemma uncached_shrunk: "shrunk w w' \<Longrightarrow> uncached (store_of w) a n \<Longrightarrow> uncached (store_of w') a n"
  by (simp add: shrunk_def uncached_def)

lemma uncached_content: "uncached s a n \<Longrightarrow> map (content_at s) [a..<a + n] = map (byte_at (st_files s)) [a..<a + n]"
  by (simp add: uncached_def content_at_def)

lemma FileIO_over:
  assumes g: "good F w" and os: "os_fine e" and len: "unat len \<le> length buf" and rng: "unat off + unat len \<le> total_len w"
    and un: "uncached (store_of w) (unat off) (unat len)"
  shows "\<exists>ok out w' n. FileIO e True buf off len w = Some ((ok, out), w') \<and> n \<le> unat len \<and> (ok \<longrightarrow> n = unat len) \<and>
    good F w' \<and> framed w w' \<and> lists (store_of w') = lists (store_of w) \<and>
    content_at (store_of w') = overlay (unat off) n buf (content_at (store_of w))"
proof -
  obtain ok out w' n where W: "FileIO e True buf off len w = Some ((ok, out), w')" "n \<le> unat len" "ok \<longrightarrow> n = unat len"
    "world_okx F w'" "framed w w'" "calm w'" "lists (store_of w') = lists (store_of w)" "flat (total_len w) (files_of w')"
    "byte_at (files_of w') = (\<lambda>x. if unat off \<le> x \<and> x < unat off + n then Some (buf ! (x - unat off)) else byte_at (files_of w) x)"
    using FileIO_write[OF g os len rng] by blast
  note fs = framed_sel[OF W(5)]
  have ok1: "cache_ok (plen_of w') (total_len w') (store_of w')" using good_cache[OF g] lists_ok[OF W(7)] fs(1) by simp
  have n: "st_node (store_of w') = st_node (store_of w)" using W(7) by (simp add: lists_def)
  have ce: "cached (store_of w') = cached (store_of w)" using lists_ok[OF W(7)] by simp
  have "clean_ok (store_of w')"
    unfolding clean_ok_def n
  proof (intro allI impI)
    fix j q x assume q: "st_node (store_of w) j = Some q" "\<not> bc_f_flush q" "covers q x"
    then have "cached (store_of w) x \<noteq> None" using cached_at[OF good_cache[OF g]] by simp
    then have "\<not> (unat off \<le> x \<and> x < unat off + n)" using un W(2) by (auto simp: uncached_def)
    then show "byte_at (files_of w') x = Some (bc_buf q ! (x - unat (bc_off q)))" using g q by (auto simp: W(9) good_def clean_ok_def)
  qed
  then have "good F w'" using W(4,6,8) ok1 fs(1) by (simp add: good_def)
  moreover have "content_at (store_of w') = overlay (unat off) n buf (content_at (store_of w))"
  proof
    fix x
    show "content_at (store_of w') x = overlay (unat off) n buf (content_at (store_of w)) x"
      using un W(2) by (cases "cached (store_of w) x") (auto simp: content_at_def ce W(9) overlay_def uncached_def)
  qed
  ultimately show ?thesis using W by blast
qed

text \<open>A range inside one piece that no entry covers.\<close>

definition gap :: "world \<Rightarrow> u64 \<Rightarrow> u32 \<Rightarrow> bool" where
  "gap w off len \<longleftrightarrow> 0 < unat len \<and> unat off mod plen_of w + unat len \<le> plen_of w \<and> unat off + unat len \<le> total_len w \<and>
     uncached (store_of w) (unat off) (unat len)"

lemma gap_kept: "framed w w' \<Longrightarrow> shrunk w w' \<Longrightarrow> gap w off len \<Longrightarrow> gap w' off len"
  using uncached_shrunk by (simp add: gap_def framed_sel(1))

lemma add_entry_keeps:
  assumes g: "good F w" and ga: "gap w off len" and dat: "length dat = unat len" and k: "k = piece_of w off"
    and cl: "\<not> wr \<Longrightarrow> map Some dat = map (byte_at (files_of w)) [unat off..<unat off + unat len]"
    and w': "w' = upd_store (add_entry k \<lparr>bc_off = off, bc_len = len, bc_f_flush = wr, bc_buf = dat\<rparr>) w"
  shows "good F w'" "framed w w'" "content_at (store_of w') = overlay (unat off) (unat len) dat (content_at (store_of w))"
proof -
  let ?p = "\<lparr>bc_off = off, bc_len = len, bc_f_flush = wr, bc_buf = dat\<rparr>"
  let ?s = "store_of w" and ?s' = "add_entry k ?p (store_of w)"
  have p: "entry_ok (plen_of w) (total_len w) ?p" using ga dat by (simp add: entry_ok_def gap_def)
  have kn: "k = piece_nr (plen_of w) ?p" using piece_of_nr(1)[OF g, of off] ga k by (simp add: piece_nr_def gap_def)
  have un: "cached ?s x = None" if "covers ?p x" for x using that ga by (simp add: covers_def gap_def uncached_def)
  have A1: "cache_ok (plen_of w) (total_len w) ?s'" by (rule add_entry_ok(1)[OF good_cache[OF g] p kn _ refl], rule un)
  have A2: "cached ?s' = (\<lambda>x. if covers ?p x then Some (bc_buf ?p ! (x - unat (bc_off ?p))) else cached ?s x)"
    by (rule add_entry_ok(2)[OF good_cache[OF g] p kn _ refl], rule un)
  have sel: "st_files ?s' = files_of w" "cfg_cache_size ?s' = cfg_cache_size ?s" "m_flushq ?s' = m_flushq ?s"
    "m_flush_tried ?s' = m_flush_tried ?s" "st_node ?s' = (st_node ?s)(st_next ?s := Some ?p)"
    by (simp_all add: add_entry_def Let_def)
  have by_at: "byte_at (files_of w) x = Some (dat ! (x - unat off))" if "\<not> wr" "covers ?p x" for x
  proof -
    have x: "x - unat off < unat len" "unat off + (x - unat off) = x" using that(2) by (auto simp: covers_def)
    have "map Some dat ! (x - unat off) = map (byte_at (files_of w)) [unat off..<unat off + unat len] ! (x - unat off)"
      using cl[OF that(1)] by simp
    then show ?thesis using x dat by simp
  qed
  have "clean_ok ?s'"
    unfolding clean_ok_def sel
  proof (intro allI impI)
    fix j q x assume q: "((st_node ?s)(st_next ?s := Some ?p)) j = Some q" "\<not> bc_f_flush q" "covers q x"
    show "byte_at (files_of w) x = Some (bc_buf q ! (x - unat (bc_off q)))"
    proof (cases "j = st_next ?s")
      case True
      then have "q = ?p" using q(1) by simp
      then show ?thesis using q(2,3) by_at by simp
    next
      case False
      then show ?thesis using q g by (simp add: good_def clean_ok_def)
    qed
  qed
  moreover have "world_okx F w'" unfolding w' using g by (intro world_ok_store) (simp_all add: good_def flat_def sel)
  ultimately show "good F w'" using g A1 by (simp add: w' good_def sel calm_def)
  show "framed w w'" unfolding w' by (rule framed_store) (simp_all add: sel)
  show "content_at (store_of w') = overlay (unat off) (unat len) dat (content_at ?s)"
  proof
    fix x
    have "cached ?s' x = (if covers ?p x then Some (dat ! (x - unat off)) else cached ?s x)"
      unfolding A2 by simp
    moreover have "covers ?p x \<longleftrightarrow> unat off \<le> x \<and> x < unat off + unat len" by (simp add: covers_def)
    ultimately show "content_at (store_of w') x = overlay (unat off) (unat len) dat (content_at ?s) x"
      by (simp only: w' upd_store_sel content_at_def sel overlay_def) simp
  qed
qed

text \<open>Data that agrees with the contents changes nothing.\<close>

lemma overlay_same: "length dat = n \<Longrightarrow> map Some dat = map f [a..<a + n] \<Longrightarrow> overlay a n dat f = f"
proof
  fix x assume d: "length dat = n" "map Some dat = map f [a..<a + n]"
  show "overlay a n dat f x = f x"
  proof (cases "a \<le> x \<and> x < a + n")
    case True
    have "map Some dat ! (x - a) = map f [a..<a + n] ! (x - a)" using d(2) by simp
    then show ?thesis using True d(1) by (auto simp: overlay_def)
  qed (auto simp: overlay_def)
qed

lemma CacheClean_cond:
  assumes "good F w" and "os_fine e" and "gap w off len"
  shows "\<exists>w'. (if b then CacheClean e len k w else Some w) = Some w' \<and> kept F w w' \<and> gap w' off len"
proof -
  obtain w' where "CacheClean e len k w = Some w'" "kept F w w'" "shrunk w w'" using CacheClean_keeps[OF assms(1,2)] by blast
  then show ?thesis using kept_refl[OF assms(1)] assms(3) gap_kept[of w w'] by (auto simp: kept_def)
qed
end
