(* ===== verification/Slices.thy ===== *)
theory Slices
  imports Cache_Flow
begin

text \<open>
  The reading and writing of slices through the cache: what \<^verbatim>\<open>CacheIO\<close>, \<^verbatim>\<open>ReadSlice\<close> and \<^verbatim>\<open>WriteSlice\<close> do to the
  bytes of the torrent, and what makes \<^verbatim>\<open>APieceComplete\<close> accept a piece.
\<close>

section \<open>One gap of the cache\<close>

lemma CacheIO_small:
  assumes "\<not> cfg_cache_size (store_of w) * 1024 * 768 \<le> len" and "buf = (case io of None \<Rightarrow> [] | Some b \<Rightarrow> b)"
    and "(if m_cache_size (store_of w) < m_cache_used (store_of w) + len
          then CacheClean e len (if \<not> wr \<and> \<not> IsSet (npieces w) (c_BF (w_content w)) (of_nat (piece_of w off)) then piece_of w off else unat (npieces w)) w
          else Some w) = Some w1"
  shows "CacheIO e io off len wr w =
    (case (if \<not> wr \<and> io \<noteq> None then FileIO e False buf off len w1 else Some ((True, buf), w1)) of
       None \<Rightarrow> None
     | Some ((ok, buf), v) \<Rightarrow>
        (if \<not> ok then Some ((False, buf), v)
         else if \<not> e_cache_mem e (st_next (store_of v)) then
           (if wr then FileIO e True buf off len v else Some ((True, buf), v))
         else
           (case (if io = None then FileIO e False (replicate (unat len) (ucast (e_junk e))) off len v
                  else Some ((True, take (unat len) buf), v)) of
              None \<Rightarrow> None
            | Some ((ok, dat), v) \<Rightarrow>
               (if \<not> ok then Some ((False, buf), v)
                else Some ((True, buf),
                       upd_store (add_entry (piece_of w off) \<lparr>bc_off = off, bc_len = len, bc_f_flush = wr, bc_buf = dat\<rparr>) v)))))"
  by (simp only: CacheIO_def Let_def assms(1) if_False assms(2)[symmetric] assms(3) option.case)

lemma CacheIO_read:
  assumes g: "good F w" and os: "os_fine e" and ga: "gap w off len" and io: "\<And>b. io = Some b \<Longrightarrow> unat len \<le> length b"
  shows "\<exists>ok out w'. CacheIO e io off len False w = Some ((ok, out), w') \<and> kept F w w' \<and>
    (ok \<longrightarrow> (case io of None \<Rightarrow> out = [] | Some b \<Rightarrow>
       map Some (take (unat len) out) = map (content_at (store_of w)) [unat off..<unat off + unat len] \<and> drop (unat len) out = drop (unat len) b))"
proof -
  have rng: "unat off + unat len \<le> total_len v" if "gap v off len" for v using that by (simp add: gap_def)
  have un: "map (content_at (store_of v)) [unat off..<unat off + unat len] = map (byte_at (files_of v)) [unat off..<unat off + unat len]"
    if "gap v off len" for v by (rule uncached_content) (use that in \<open>simp add: gap_def\<close>)
  show ?thesis
  proof (cases "cfg_cache_size (store_of w) * 1024 * 768 \<le> len")
    case big: True
    show ?thesis
    proof (cases io)
      case None
      then show ?thesis using big kept_refl[OF g] by (auto simp: CacheIO_def)
    next
      case (Some b)
      obtain ok out w' where "FileIO e False b off len w = Some ((ok, out), w')" "kept F w w'"
        "ok \<longrightarrow> map Some (take (unat len) out) = map (byte_at (files_of w)) [unat off..<unat off + unat len] \<and> drop (unat len) out = drop (unat len) b"
        using FileIO_read[OF g os io[OF Some] rng[OF ga]] by blast
      then show ?thesis using big Some un[OF ga] by (simp add: CacheIO_def)
    qed
  next
    case small: False
    define spare where "spare = (if \<not> False \<and> \<not> IsSet (npieces w) (c_BF (w_content w)) (of_nat (piece_of w off)) then piece_of w off else unat (npieces w))"
    obtain w1 where w1: "(if m_cache_size (store_of w) < m_cache_used (store_of w) + len then CacheClean e len spare w else Some w) = Some w1"
      "kept F w w1" "gap w1 off len" using CacheClean_cond[OF g os ga] by blast
    note g1 = kept_good[OF w1(2)]
    have c1: "content_at (store_of w1) = content_at (store_of w)" and fr1: "framed w w1" using w1(2) by (simp_all add: kept_def)
    let ?n = "[unat off..<unat off + unat len]"
    let ?k = "piece_of w off"
    define data where "data = (case io of None \<Rightarrow> replicate (unat len) (ucast (e_junk e)) | Some b \<Rightarrow> b)"
    have dl: "unat len \<le> length data" using io by (auto simp: data_def split: option.split)
    obtain ok out w2 where w2: "FileIO e False data off len w1 = Some ((ok, out), w2)" "kept F w1 w2" "lists (store_of w2) = lists (store_of w1)"
      "byte_at (files_of w2) = byte_at (files_of w1)"
      "ok \<longrightarrow> map Some (take (unat len) out) = map (byte_at (files_of w1)) ?n \<and> drop (unat len) out = drop (unat len) data"
      using FileIO_read[OF g1 os dl rng[OF w1(3)]] by blast
    note g2 = kept_good[OF w2(2)]
    have fr2: "framed w1 w2" and c2: "content_at (store_of w2) = content_at (store_of w1)" using w2(2) by (simp_all add: kept_def)
    have ga2: "gap w2 off len"
      by (rule gap_kept[OF fr2 _ w1(3)]) (use lists_ok[OF w2(3)] in \<open>simp add: shrunk_def\<close>)
    have k2: "kept F w w2" by (rule kept_trans[OF w1(2) w2(2)])
    have bytes: "map Some (take (unat len) out) = map (content_at (store_of w)) ?n" if ok
      using w2(5) that un[OF w1(3)] c1 by simp
    have add: "kept F w (upd_store (add_entry ?k \<lparr>bc_off = off, bc_len = len, bc_f_flush = False, bc_buf = take (unat len) out\<rparr>) w2)" if ok
    proof -
      have "map Some (take (unat len) out) = map (byte_at (files_of w2)) ?n" using w2(4,5) that by simp
      moreover from this have l: "length (take (unat len) out) = unat len" by (metis length_map length_upt add_diff_cancel_left')
      moreover have "?k = piece_of w2 off" using framed_piece_of[OF framed_trans[OF fr1 fr2]] by simp
      ultimately have A: "good F w3 \<and> framed w2 w3 \<and> content_at (store_of w3) = overlay (unat off) (unat len) (take (unat len) out) (content_at (store_of w2))"
        if "w3 = upd_store (add_entry ?k \<lparr>bc_off = off, bc_len = len, bc_f_flush = False, bc_buf = take (unat len) out\<rparr>) w2" for w3
        using add_entry_keeps[OF g2 ga2 l _ _ that] by blast
      have "overlay (unat off) (unat len) (take (unat len) out) (content_at (store_of w2)) = content_at (store_of w2)"
        by (rule overlay_same[OF l]) (use bytes[OF that] c1 c2 in simp)
      then show ?thesis using A[OF refl] c1 c2 framed_trans[OF framed_trans[OF fr1 fr2]] by (simp add: kept_def)
    qed
    show ?thesis
    proof (cases io)
      case None
      then have d: "data = replicate (unat len) (ucast (e_junk e))" by (simp add: data_def)
      have C: "CacheIO e io off len False w =
        (if \<not> e_cache_mem e (st_next (store_of w1)) then Some ((True, []), w1)
         else if \<not> ok then Some ((False, []), w2)
         else Some ((True, []), upd_store (add_entry ?k \<lparr>bc_off = off, bc_len = len, bc_f_flush = False, bc_buf = out\<rparr>) w2))"
        unfolding CacheIO_small[OF small refl w1(1)[unfolded spare_def]] using w2(1) None d by simp
      have "take (unat len) out = out" if ok using w2(5) that d by simp
      then show ?thesis using C w1(2) k2 add None by (cases ok) auto
    next
      case (Some b)
      then have d: "data = b" by (simp add: data_def)
      have C: "CacheIO e io off len False w =
        (if \<not> ok then Some ((False, out), w2)
         else if \<not> e_cache_mem e (st_next (store_of w2)) then Some ((True, out), w2)
         else Some ((True, out), upd_store (add_entry ?k \<lparr>bc_off = off, bc_len = len, bc_f_flush = False, bc_buf = take (unat len) out\<rparr>) w2))"
        unfolding CacheIO_small[OF small refl w1(1)[unfolded spare_def]] using w2(1) Some d by simp
      then show ?thesis using k2 add bytes w2(5) Some d by (cases ok) auto
    qed
  qed
qed

lemma CacheIO_write:
  assumes g: "good F w" and os: "os_fine e" and ga: "gap w off len" and b: "unat len \<le> length b"
  shows "\<exists>ok out w' n. CacheIO e (Some b) off len True w = Some ((ok, out), w') \<and> n \<le> unat len \<and> (ok \<longrightarrow> n = unat len) \<and>
    good F w' \<and> framed w w' \<and> content_at (store_of w') = overlay (unat off) n b (content_at (store_of w))"
proof -
  have direct: "\<exists>ok out w' n. FileIO e True b off len v = Some ((ok, out), w') \<and> n \<le> unat len \<and> (ok \<longrightarrow> n = unat len) \<and>
    good F w' \<and> framed v w' \<and> content_at (store_of w') = overlay (unat off) n b (content_at (store_of v))"
    if "good F v" "gap v off len" for v
    using FileIO_over[OF that(1) os b] that(2) unfolding gap_def by blast
  show ?thesis
  proof (cases "cfg_cache_size (store_of w) * 1024 * 768 \<le> len")
    case True
    then show ?thesis using direct[OF g ga] by (simp add: CacheIO_def)
  next
    case small: False
    define spare where "spare = (if \<not> True \<and> \<not> IsSet (npieces w) (c_BF (w_content w)) (of_nat (piece_of w off)) then piece_of w off else unat (npieces w))"
    obtain w1 where w1: "(if m_cache_size (store_of w) < m_cache_used (store_of w) + len then CacheClean e len spare w else Some w) = Some w1"
      "kept F w w1" "gap w1 off len" using CacheClean_cond[OF g os ga] by blast
    note g1 = kept_good[OF w1(2)]
    have fr: "framed w w1" and c: "content_at (store_of w1) = content_at (store_of w)" using w1(2) by (simp_all add: kept_def)
    show ?thesis
    proof (cases "e_cache_mem e (st_next (store_of w1))")
      case False
      have "CacheIO e (Some b) off len True w = FileIO e True b off len w1"
        unfolding CacheIO_small[OF small refl w1(1)[unfolded spare_def]] using False by simp
      then show ?thesis using direct[OF g1 w1(3)] c framed_trans[OF fr] by metis
    next
      case True
      let ?w2 = "upd_store (add_entry (piece_of w off) \<lparr>bc_off = off, bc_len = len, bc_f_flush = True, bc_buf = take (unat len) b\<rparr>) w1"
      have "CacheIO e (Some b) off len True w = Some ((True, b), ?w2)"
        unfolding CacheIO_small[OF small refl w1(1)[unfolded spare_def]] using True by simp
      moreover have "good F ?w2" "framed w1 ?w2"
        "content_at (store_of ?w2) = overlay (unat off) (unat len) (take (unat len) b) (content_at (store_of w1))"
        using add_entry_keeps[OF g1 w1(3) _ _ _ refl, of "take (unat len) b" "piece_of w off" True] b framed_piece_of[OF fr] by simp_all
      ultimately show ?thesis using framed_trans[OF fr] c
        by (intro exI[of _ True] exI[of _ b] exI[of _ ?w2] exI[of _ "unat len"]) (simp add: overlay_take)
    qed
  qed
qed
section \<open>Along the entries of a piece\<close>

text \<open>All entries of the list end at or before an offset.\<close>

definition passed :: "store \<Rightarrow> nat list \<Rightarrow> nat \<Rightarrow> bool" where
  "passed s is a \<longleftrightarrow> (\<forall>i\<in>set is. \<forall>p. st_node s i = Some p \<longrightarrow> unat (bc_off p) + unat (bc_len p) \<le> a)"

lemma passed_simps [simp]:
  "passed s [] a" "passed s (is @ js) a \<longleftrightarrow> passed s is a \<and> passed s js a"
  "passed s (i # is) a \<longleftrightarrow> (\<forall>p. st_node s i = Some p \<longrightarrow> unat (bc_off p) + unat (bc_len p) \<le> a) \<and> passed s is a"
  by (auto simp: passed_def)

lemma passed_mono: "passed s is a \<Longrightarrow> a \<le> b \<Longrightarrow> passed s is b"
  by (meson le_trans passed_def)

lemma fit_iff:
  assumes e: "entry_ok pl t p" and len: "0 < unat len" and rng: "unat off + unat len \<le> t" and t: "t < 18446744073709551616"
  shows "CACHE_FIT p off len \<longleftrightarrow> unat (bc_off p) < unat off + unat len \<and> unat off < unat (bc_off p) + unat (bc_len p)"
    "bc_off p < off + ucast len \<longleftrightarrow> unat (bc_off p) < unat off + unat len"
proof -
  have u: "unat (ucast x :: u64) = unat x" for x :: u32 by (rule unat_ucast_len)
  have e': "0 < unat (bc_len p)" "unat (bc_off p) + unat (bc_len p) < 18446744073709551616" using e t by (simp_all add: entry_ok_def)
  have add: "unat (off + ucast len) = unat off + unat len" "unat (bc_off p + ucast (bc_len p)) = unat (bc_off p) + unat (bc_len p)"
    using rng t e'(2) by (simp_all add: u64_add u)
  have m: "unat (x - 1 :: u64) = unat x - 1" if "0 < unat x" for x
    using that by (simp add: unat_sub word_le_nat_alt)
  have ends: "unat (off + ucast len - 1) = unat off + unat len - 1" "unat (bc_off p + ucast (bc_len p) - 1) = unat (bc_off p) + unat (bc_len p) - 1"
    using m add len e'(1) by simp_all
  show "CACHE_FIT p off len \<longleftrightarrow> unat (bc_off p) < unat off + unat len \<and> unat off < unat (bc_off p) + unat (bc_len p)"
    using ends len e'(1) by (auto simp: CACHE_FIT_def max_datalen_def min_datalen_def word_le_nat_alt word_less_nat_alt)
  show "bc_off p < off + ucast len \<longleftrightarrow> unat (bc_off p) < unat off + unat len" by (simp add: word_less_nat_alt add)
qed

lemma skip_unfit_split:
  assumes ok: "cache_ok pl t s" and len: "0 < unat len" and rng: "unat off + unat len \<le> t" and t: "t < 18446744073709551616"
    and sub: "set is \<subseteq> set (m_cache s idx)"
  shows "\<exists>sk. is = sk @ skip_unfit s off len is \<and> passed s sk (unat off) \<and>
    (\<forall>i js. skip_unfit s off len is = i # js \<longrightarrow> (\<exists>p. st_node s i = Some p \<and> (CACHE_FIT p off len \<or> unat off + unat len \<le> unat (bc_off p))))"
  using sub
proof (induction "is")
  case (Cons i "is")
  obtain p where p: "st_node s i = Some p" using Cons.prems cache_okD(6)[OF ok] by auto
  note f = fit_iff[OF cache_okD(7)[OF ok p] len rng t]
  show ?case
  proof (cases "bc_off p < off + ucast len \<and> \<not> CACHE_FIT p off len")
    case True
    then have "unat (bc_off p) + unat (bc_len p) \<le> unat off" using f by auto
    moreover obtain sk where "is = sk @ skip_unfit s off len is" "passed s sk (unat off)"
      "\<forall>i js. skip_unfit s off len is = i # js \<longrightarrow> (\<exists>p. st_node s i = Some p \<and> (CACHE_FIT p off len \<or> unat off + unat len \<le> unat (bc_off p)))"
      using Cons by auto
    ultimately show ?thesis using True p by (intro exI[of _ "i # sk"]) simp
  next
    case False
    then show ?thesis using p f by (intro exI[of _ "[]"]) auto
  qed
qed simp

text \<open>Between two neighbours of the list nothing is cached.\<close>

lemma between_uncached:
  assumes ok: "cache_ok pl t s" and ch: "m_cache s idx = pre @ ps" and pre: "passed s pre a"
    and ps: "\<And>i js p. ps = i # js \<Longrightarrow> st_node s i = Some p \<Longrightarrow> a + n \<le> unat (bc_off p)"
    and pc: "\<And>x. a \<le> x \<Longrightarrow> x < a + n \<Longrightarrow> x div pl = idx"
  shows "uncached s a n"
  unfolding uncached_def
proof (intro allI impI)
  fix x assume x: "a \<le> x" "x < a + n"
  show "cached s x = None"
    unfolding cached_None[OF ok]
  proof (intro allI impI notI)
    fix j q assume q: "st_node s j = Some q" and c: "covers q x"
    have "piece_nr pl q = idx" using covers_piece[OF cache_okD(7)[OF ok q] c] pc[OF x] by simp
    then have "j \<in> set (pre @ ps)" using cache_okD(6)[OF ok, of j idx] q ch by auto
    then show False
    proof (cases "j \<in> set pre")
      case True
      then show False using pre q c x by (auto simp: passed_def covers_def)
    next
      case False
      then have "j \<in> set ps" using \<open>j \<in> set (pre @ ps)\<close> by simp
      then obtain i js where i: "ps = i # js" by (cases ps) auto
      then obtain p where p: "st_node s i = Some p" using cache_okD(6)[OF ok, of i idx] ch by auto
      have "a + n \<le> unat (bc_off q)"
      proof (cases "j = i")
        case True
        then show ?thesis using ps[OF i p] p q by simp
      next
        case False
        then have "j \<in> set js" using \<open>j \<in> set ps\<close> i by simp
        then have "before p q" using cache_okD(5)[OF ok, of idx] ch i p q
          by (force simp: ordered_def sorted_wrt_append)
        then show ?thesis using ps[OF i p] by (simp add: before_def)
      qed
      then show False using c x by (simp add: covers_def)
    qed
  qed
qed

lemma in_piece:
  fixes a :: nat
  assumes "a mod pl + n \<le> pl" and "a \<le> x" and "x < a + n"
  shows "x div pl = a div pl" and "x mod pl = a mod pl + (x - a)"
proof -
  have "x = pl * (a div pl) + (a mod pl + (x - a))" using assms(2) mult_div_mod_eq[of pl a] by linarith
  moreover have "a mod pl + (x - a) < pl" using assms by linarith
  ultimately show "x div pl = a div pl" "x mod pl = a mod pl + (x - a)"
    by (metis div_mult_self4 div_less add_0_right not_less_zero gr_zeroI, metis mod_mult_self4 mod_less)
qed
section \<open>Reading a slice\<close>

lemma kept_lists:
  assumes g: "good F w" and l: "lists (f (store_of w)) = lists (store_of w)" and fi: "st_files (f (store_of w)) = files_of w"
    and f: "cfg_cache_size (f (store_of w)) = cfg_cache_size (store_of w)" "m_flushq (f (store_of w)) = m_flushq (store_of w)"
    "m_flush_tried (f (store_of w)) = m_flush_tried (store_of w)"
  shows "kept F w (upd_store f w)"
proof (rule kept_store[where f = f, OF g _ fi _ _ f])
  show "cache_ok (plen_of w) (total_len w) (f (store_of w))" using lists_ok[OF l] good_cache[OF g] by simp
  show "clean_ok (f (store_of w))" using g l by (simp add: good_def clean_ok_def fi lists_def)
  show "content_at (f (store_of w)) = content_at (store_of w)" by (rule content_cong) (use lists_ok[OF l] in \<open>simp_all add: fi\<close>)
qed

text \<open>\<open>moved w sl n sl'\<close>: the state \<open>sl'\<close> is \<open>sl\<close> after \<open>n\<close> more bytes of the torrent were read.\<close>

definition moved :: "world \<Rightarrow> slicestate \<Rightarrow> nat \<Rightarrow> slicestate \<Rightarrow> bool" where
  "moved w sl n sl' \<longleftrightarrow> n \<le> unat (sl_len sl) \<and> unat (sl_off sl') = unat (sl_off sl) + n \<and> unat (sl_len sl') = unat (sl_len sl) - n \<and>
     (case sl_buf sl of
        None \<Rightarrow> sl_buf sl' = None \<and> sl_rd sl' = sl_rd sl
      | Some b \<Rightarrow> sl_buf sl' = Some (drop n b) \<and>
          (\<exists>bs. sl_rd sl' = sl_rd sl @ bs \<and> map Some bs = map (content_at (store_of w)) [unat (sl_off sl)..<unat (sl_off sl) + n]))"

lemma moved_refl: "moved w sl 0 sl"
  by (simp add: moved_def split: option.split)

lemma moved_trans:
  assumes a: "moved w sl m sl1" and b: "moved w1 sl1 n sl2" and c: "content_at (store_of w1) = content_at (store_of w)"
  shows "moved w sl (m + n) sl2"
proof (cases "sl_buf sl")
  case None
  then show ?thesis using a b by (auto simp: moved_def)
next
  case (Some bf)
  obtain bs where bs: "sl_rd sl1 = sl_rd sl @ bs" "map Some bs = map (content_at (store_of w)) [unat (sl_off sl)..<unat (sl_off sl) + m]"
    and s1: "sl_buf sl1 = Some (drop m bf)" using a Some by (auto simp: moved_def)
  obtain cs where cs: "sl_rd sl2 = sl_rd sl1 @ cs" "map Some cs = map (content_at (store_of w)) [unat (sl_off sl1)..<unat (sl_off sl1) + n]"
    and s2: "sl_buf sl2 = Some (drop n (drop m bf))" using b s1 c by (auto simp: moved_def)
  have off: "unat (sl_off sl1) = unat (sl_off sl) + m" using a by (simp add: moved_def)
  have "map Some (bs @ cs) = map (content_at (store_of w)) ([unat (sl_off sl)..<unat (sl_off sl) + m] @ [unat (sl_off sl) + m..<unat (sl_off sl) + m + n])"
    unfolding map_append bs(2) cs(2) off ..
  also have "[unat (sl_off sl)..<unat (sl_off sl) + m] @ [unat (sl_off sl) + m..<unat (sl_off sl) + m + n] = [unat (sl_off sl)..<unat (sl_off sl) + (m + n)]"
    using upt_add_eq_append[of "unat (sl_off sl)" "unat (sl_off sl) + m" n] by (simp add: add.assoc)
  finally have "\<exists>ds. sl_rd sl2 = sl_rd sl @ ds \<and> map Some ds = map (content_at (store_of w)) [unat (sl_off sl)..<unat (sl_off sl) + (m + n)]"
    using bs(1) cs(1) by (intro exI[of _ "bs @ cs"]) simp
  moreover have "m + n \<le> unat (sl_len sl)" using a b by (auto simp: moved_def)
  ultimately show ?thesis using a b Some s2 by (simp add: moved_def add.commute)
qed

lemma moved_advance:
  assumes n: "unat n \<le> unat (sl_len sl)" and o: "unat (sl_off sl) + unat (sl_len sl) < 18446744073709551616"
    and b: "case sl_buf sl of None \<Rightarrow> bf = None \<and> rd = sl_rd sl
      | Some b \<Rightarrow> bf \<noteq> None \<and> drop (unat n) (the bf) = drop (unat n) b \<and> (\<exists>bs. rd = sl_rd sl @ bs \<and> map Some bs = map (content_at (store_of w)) [unat (sl_off sl)..<unat (sl_off sl) + unat n])"
  shows "moved w sl (unat n) (advance n (sl\<lparr>sl_buf := bf, sl_rd := rd\<rparr>))"
proof -
  have "unat (ucast n :: u64) = unat n" by (rule unat_ucast_len)
  then have "unat (sl_off sl + ucast n) = unat (sl_off sl) + unat n" using n o by (simp add: u64_add)
  moreover have "unat (sl_len sl - n) = unat (sl_len sl) - unat n" using n by (simp add: unat_sub word_le_nat_alt)
  ultimately show ?thesis using n b by (auto simp: moved_def advance_def split: option.splits)
qed

text \<open>The three ways the loop goes on.\<close>

lemma read_loop_end:
  assumes "sl_len sl = 0 \<or> skip_unfit (store_of w) (sl_off sl) (sl_len sl) ps = [] \<or>
    (\<exists>i js p. skip_unfit (store_of w) (sl_off sl) (sl_len sl) ps = i # js \<and> st_node (store_of w) i = Some p \<and> \<not> CACHE_FIT p (sl_off sl) (sl_len sl))"
  shows "read_loop e idx ps sl w = Some (Inr sl, w)"
  using assms by (subst read_loop.simps) (auto simp: Let_def)

lemma read_loop_gap:
  assumes "sl_len sl \<noteq> 0" and "skip_unfit (store_of w) (sl_off sl) (sl_len sl) ps = i # js" and "st_node (store_of w) i = Some p"
    and "CACHE_FIT p (sl_off sl) (sl_len sl)" and "sl_off sl < bc_off p" and "len2 = ucast (bc_off p - sl_off sl)"
    and "CacheIO e (sl_buf sl) (sl_off sl) len2 False w = Some ((ok, out), w1)"
  shows "read_loop e idx ps sl w =
    (if \<not> ok then Some (Inl (sl_rd sl @ out), w1)
     else read_loop e idx (m_cache (store_of w1) idx)
            (advance len2 (sl\<lparr>sl_buf := map_option (\<lambda>_. out) (sl_buf sl), sl_rd := sl_rd sl @ take (unat len2) out\<rparr>))
            (upd_store (count_miss (sl_buf sl \<noteq> None) len2) w1))"
  by (subst read_loop.simps)
    (simp add: Let_def assms(1-5) assms(6)[symmetric] assms(7) count_miss_def cong: if_cong)

lemma read_loop_hit:
  assumes "sl_len sl \<noteq> 0" and "skip_unfit (store_of w) (sl_off sl) (sl_len sl) ps = i # js" and "st_node (store_of w) i = Some p"
    and "CACHE_FIT p (sl_off sl) (sl_len sl)" and "\<not> sl_off sl < bc_off p" and "len2 = hit_len p (sl_off sl) (sl_len sl)"
  shows "read_loop e idx ps sl w =
    (if sl_buf sl = None then read_loop e idx js (advance len2 sl) (upd_store (to_newest i) w)
     else read_loop e idx js
            (advance len2 (sl\<lparr>sl_rd := sl_rd sl @ take (unat len2) (drop (unat (sl_off sl - bc_off p)) (bc_buf p))\<rparr>))
            (upd_store (\<lambda>s. s\<lparr>m_cache_hit := m_cache_hit s + slices_of len2\<rparr>) w))"
  by (subst read_loop.simps) (simp add: Let_def assms(1-5) assms(6)[symmetric])
definition inside :: "world \<Rightarrow> nat \<Rightarrow> nat \<Rightarrow> nat \<Rightarrow> bool" where
  "inside w idx a n \<longleftrightarrow> a div plen_of w = idx \<and> a mod plen_of w + n \<le> plen_of w \<and> a + n \<le> total_len w"

lemma inside_step: "inside w idx a n \<Longrightarrow> m < n \<Longrightarrow> inside w idx (a + m) (n - m)"
proof -
  assume a: "inside w idx a n" and m: "m < n"
  have "a mod plen_of w + n \<le> plen_of w" using a by (simp add: inside_def)
  from in_piece[OF this, of "a + m"] show ?thesis using a m by (simp add: inside_def)
qed

lemma inside_framed: "framed w w' \<Longrightarrow> inside w' idx a n = inside w idx a n"
  by (simp add: inside_def framed_sel(1))

lemma inside_gap:
  assumes i: "inside w (unat off div plen_of w) (unat off) n" and m: "0 < unat len" "unat len \<le> n"
    and u: "uncached (store_of w) (unat off) (unat len)"
  shows "gap w off len"
  using assms by (simp add: inside_def gap_def)

lemma inside_between:
  assumes g: "good F w" and i: "inside w idx a n" and ch: "m_cache (store_of w) idx = pre @ ps" and pre: "passed (store_of w) pre a"
    and m: "m \<le> n" and ps: "\<And>i js p. ps = i # js \<Longrightarrow> st_node (store_of w) i = Some p \<Longrightarrow> a + m \<le> unat (bc_off p)"
  shows "uncached (store_of w) a m"
proof (rule between_uncached[OF good_cache[OF g] ch pre ps])
  fix x assume x: "a \<le> x" "x < a + m"
  have "a mod plen_of w + m \<le> plen_of w" using i m by (simp add: inside_def)
  from in_piece(1)[OF this x] show "x div plen_of w = idx" using i by (simp add: inside_def)
qed

lemma hit_len_nat:
  assumes e: "entry_ok pl t p" and f: "unat (bc_off p) \<le> unat off" "unat off < unat (bc_off p) + unat (bc_len p)" and t: "t < 18446744073709551616"
  shows "unat (hit_len p off len) = min (unat len) (unat (bc_off p) + unat (bc_len p) - unat off)"
proof -
  have u: "unat (ucast x :: u64) = unat x" for x :: u32 by (rule unat_ucast_len)
  have "unat (bc_off p) + unat (bc_len p) < 18446744073709551616" using e t by (simp add: entry_ok_def)
  then have "unat (bc_off p + ucast (bc_len p) - off) = unat (bc_off p) + unat (bc_len p) - unat off"
    using f(2) by (simp add: u64_add u unat_sub word_le_nat_alt)
  moreover have "unat (bc_off p) + unat (bc_len p) - unat off < 4294967296" using f(1) unat_u32_lt[of "bc_len p"] by linarith
  ultimately have "unat (ucast (bc_off p + ucast (bc_len p) - off) :: u32) = unat (bc_off p) + unat (bc_len p) - unat off"
    by (simp add: unsigned_ucast_eq take_bit_nat_eq_self_iff)
  then have "unat (if bc_off p < off then ucast (bc_off p + ucast (bc_len p) - off) else bc_len p :: u32) = unat (bc_off p) + unat (bc_len p) - unat off"
    using f(1) by (auto simp: word_less_nat_alt)
  then show ?thesis unfolding hit_len_def Let_def by (auto simp: word_less_nat_alt)
qed

text \<open>Where the loops stand: the rest of the list, the entry they are at, and what they do there.\<close>

lemma at_entry:
  assumes g: "good F w" and ch: "m_cache (store_of w) idx = pre @ ps" and pre: "passed (store_of w) pre (unat off)"
    and ins: "inside w idx (unat off) (unat len)" and len: "0 < unat len"
  obtains (ends) "skip_unfit (store_of w) off len ps = [] \<or>
      (\<exists>i js p. skip_unfit (store_of w) off len ps = i # js \<and> st_node (store_of w) i = Some p \<and> \<not> CACHE_FIT p off len)" "gap w off len"
  | (before) i js p where "skip_unfit (store_of w) off len ps = i # js" "st_node (store_of w) i = Some p" "CACHE_FIT p off len" "off < bc_off p"
      "gap w off (ucast (bc_off p - off))" "0 < unat (ucast (bc_off p - off) :: u32)" "unat (ucast (bc_off p - off) :: u32) < unat len"
  | (at) i js p sk n where "skip_unfit (store_of w) off len ps = i # js" "st_node (store_of w) i = Some p" "CACHE_FIT p off len" "\<not> off < bc_off p"
      "n = unat (hit_len p off len)" "0 < n" "n \<le> unat len" "unat (bc_off p) \<le> unat off" "unat off + n \<le> unat (bc_off p) + unat (bc_len p)"
      "m_cache (store_of w) idx = (pre @ sk @ [i]) @ js" "n < unat len \<longrightarrow> passed (store_of w) (pre @ sk @ [i]) (unat off + n)"
proof -
  note ok = good_cache[OF g]
  have t: "total_len w < 18446744073709551616" by (rule unat_u64_lt)
  have rng: "unat off + unat len \<le> total_len w" using ins by (simp add: inside_def)
  have "set ps \<subseteq> set (m_cache (store_of w) idx)" using ch by simp
  from skip_unfit_split[OF ok len rng t this] obtain sk where sk: "ps = sk @ skip_unfit (store_of w) off len ps" "passed (store_of w) sk (unat off)"
    and hd: "\<And>i js. skip_unfit (store_of w) off len ps = i # js \<Longrightarrow> \<exists>p. st_node (store_of w) i = Some p \<and> (CACHE_FIT p off len \<or> unat off + unat len \<le> unat (bc_off p))"
    by blast
  let ?rest = "skip_unfit (store_of w) off len ps"
  have ch': "m_cache (store_of w) idx = (pre @ sk) @ ?rest" using ch sk(1) by simp
  have pre': "passed (store_of w) (pre @ sk) (unat off)" using pre sk(2) by simp
  have idx: "inside w (unat off div plen_of w) (unat off) (unat len)" using ins by (simp add: inside_def)
  show thesis
  proof (cases "?rest")
    case Nil
    have "uncached (store_of w) (unat off) (unat len)" by (rule inside_between[OF g ins ch' pre' le_refl]) (simp add: Nil)
    then show ?thesis using ends Nil inside_gap[OF idx len le_refl] by simp
  next
    case (Cons i js)
    obtain p where p: "st_node (store_of w) i = Some p" "CACHE_FIT p off len \<or> unat off + unat len \<le> unat (bc_off p)" using hd[OF Cons] by blast
    note e = cache_okD(7)[OF ok p(1)]
    note fit = fit_iff(1)[OF e len rng t]
    show ?thesis
    proof (cases "CACHE_FIT p off len")
      case False
      have "uncached (store_of w) (unat off) (unat len)"
        by (rule inside_between[OF g ins ch' pre' le_refl]) (use p False Cons in auto)
      then show ?thesis using ends Cons p(1) False inside_gap[OF idx len le_refl] by blast
    next
      case True
      then have f: "unat (bc_off p) < unat off + unat len" "unat off < unat (bc_off p) + unat (bc_len p)" using fit by simp_all
      show ?thesis
      proof (cases "off < bc_off p")
        case less: True
        then have "unat (bc_off p - off) = unat (bc_off p) - unat off" by (simp add: unat_sub word_le_nat_alt word_less_nat_alt)
        moreover have "unat (bc_off p) - unat off < 4294967296" using f(1) unat_u32_lt[of len] by linarith
        ultimately have n: "unat (ucast (bc_off p - off) :: u32) = unat (bc_off p) - unat off"
          by (simp add: unsigned_ucast_eq take_bit_nat_eq_self_iff)
        have l: "0 < unat (bc_off p) - unat off" "unat (bc_off p) - unat off < unat len" using less f(1) by (auto simp: word_less_nat_alt)
        have "uncached (store_of w) (unat off) (unat (bc_off p) - unat off)"
          by (rule inside_between[OF g ins ch' pre']) (use p Cons l in auto)
        then have "gap w off (ucast (bc_off p - off))" using inside_gap[OF idx] n l by simp
        then show ?thesis using before Cons p(1) True less n l by simp
      next
        case False
        then have le: "unat (bc_off p) \<le> unat off" by (simp add: word_less_nat_alt)
        have n: "unat (hit_len p off len) = min (unat len) (unat (bc_off p) + unat (bc_len p) - unat off)"
          by (rule hit_len_nat[OF e le f(2) t])
        have "m_cache (store_of w) idx = (pre @ sk @ [i]) @ js" using ch' Cons by simp
        moreover have "unat (hit_len p off len) < unat len \<longrightarrow> passed (store_of w) (pre @ sk @ [i]) (unat off + unat (hit_len p off len))"
          using pre' p(1) f(2) n passed_mono[of "store_of w" _ "unat off" "unat off + unat (hit_len p off len)"] by auto
        ultimately show ?thesis using at[OF Cons p(1) True False refl] n len f(2) le by simp
      qed
    qed
  qed
qed
lemma entry_bytes:
  assumes g: "good F w" and p: "st_node (store_of w) i = Some p" and r: "unat (bc_off p) \<le> a" "a + n \<le> unat (bc_off p) + unat (bc_len p)"
  shows "map Some (take n (drop (a - unat (bc_off p)) (bc_buf p))) = map (content_at (store_of w)) [a..<a + n]" (is "map Some ?xs = _")
proof (rule nth_equalityI)
  have l: "length (bc_buf p) = unat (bc_len p)" using cache_okD(7)[OF good_cache[OF g] p] by (simp add: entry_ok_def)
  have lx: "length ?xs = n" using l r by simp
  then show "length (map Some ?xs) = length (map (content_at (store_of w)) [a..<a + n])" by simp
  fix k assume "k < length (map Some ?xs)"
  then have k: "k < n" using lx by simp
  have "covers p (a + k)" using r k by (simp add: covers_def)
  from cached_at[OF good_cache[OF g] p this]
  have c: "content_at (store_of w) (a + k) = Some (bc_buf p ! (a + k - unat (bc_off p)))" by (simp add: content_at_def)
  have "a - unat (bc_off p) \<le> length (bc_buf p)" using r l by linarith
  then have "?xs ! k = bc_buf p ! (a - unat (bc_off p) + k)" using k by simp
  also have "a - unat (bc_off p) + k = a + k - unat (bc_off p)" using r(1) by linarith
  finally have x: "?xs ! k = bc_buf p ! (a + k - unat (bc_off p))" .
  have "map Some ?xs ! k = Some (?xs ! k)" by (rule nth_map) (simp only: lx k)
  moreover have "map (content_at (store_of w)) [a..<a + n] ! k = content_at (store_of w) (a + k)" using k by simp
  ultimately show "map Some ?xs ! k = map (content_at (store_of w)) [a..<a + n] ! k" by (simp only: c x)
qed

definition read_to :: "nat set \<Rightarrow> world \<Rightarrow> slicestate \<Rightarrow> (bytes + slicestate) \<times> world \<Rightarrow> bool" where
  "read_to F w sl r \<longleftrightarrow> kept F w (snd r) \<and>
     (case fst r of Inl _ \<Rightarrow> True
      | Inr sl' \<Rightarrow> (\<exists>n. moved w sl n sl') \<and> (sl_len sl' \<noteq> 0 \<longrightarrow> gap (snd r) (sl_off sl') (sl_len sl')))"

lemma read_to_trans: "kept F w w1 \<Longrightarrow> moved w sl m sl1 \<Longrightarrow> read_to F w1 sl1 r \<Longrightarrow> read_to F w sl r"
proof -
  assume k: "kept F w w1" and m: "moved w sl m sl1" and r: "read_to F w1 sl1 r"
  have "kept F w (snd r)" using kept_trans[OF k] r by (simp add: read_to_def)
  moreover have "moved w sl (m + n) sl'" if "moved w1 sl1 n sl'" for n sl' by (rule moved_trans[OF m that]) (use k in \<open>simp add: kept_def\<close>)
  ultimately show ?thesis using r by (auto simp: read_to_def split: sum.splits)
qed

lemma read_loop_spec:
  assumes "good F w" and os: "os_fine e" and "m_cache (store_of w) idx = pre @ ps"
    and "sl_len sl \<noteq> 0 \<Longrightarrow> passed (store_of w) pre (unat (sl_off sl)) \<and> inside w idx (unat (sl_off sl)) (unat (sl_len sl))"
    and "\<And>b. sl_buf sl = Some b \<Longrightarrow> unat (sl_len sl) \<le> length b"
  shows "\<exists>r. read_loop e idx ps sl w = Some r \<and> read_to F w sl r"
  using assms(1,3-5)
proof (induction "unat (sl_len sl)" arbitrary: w pre ps sl rule: less_induct)
  case less
  note g = less.prems(1)
  show ?case
  proof (cases "sl_len sl = 0")
    case True
    then have "read_loop e idx ps sl w = Some (Inr sl, w)" by (intro read_loop_end) simp
    then show ?thesis using kept_refl[OF g] moved_refl True by (auto simp: read_to_def)
  next
    case len: False
    then have pos: "0 < unat (sl_len sl)" by (simp add: unat_gt_0)
    have pre: "passed (store_of w) pre (unat (sl_off sl))" and ins: "inside w idx (unat (sl_off sl)) (unat (sl_len sl))"
      using less.prems(3)[OF len] by simp_all
    have tot: "unat (sl_off sl) + unat (sl_len sl) < 18446744073709551616"
    proof (rule le_less_trans)
      show "unat (sl_off sl) + unat (sl_len sl) \<le> total_len w" using ins by (simp add: inside_def)
    qed (rule unat_u64_lt)
    show ?thesis
    proof (rule at_entry[OF g less.prems(2) pre ins pos])
      assume "skip_unfit (store_of w) (sl_off sl) (sl_len sl) ps = [] \<or>
        (\<exists>i js p. skip_unfit (store_of w) (sl_off sl) (sl_len sl) ps = i # js \<and> st_node (store_of w) i = Some p \<and> \<not> CACHE_FIT p (sl_off sl) (sl_len sl))"
        and ga: "gap w (sl_off sl) (sl_len sl)"
      then have "read_loop e idx ps sl w = Some (Inr sl, w)" by (intro read_loop_end) blast
      then show ?thesis using kept_refl[OF g] moved_refl ga by (auto simp: read_to_def)
    next
      fix i js and p :: btcache
      let ?l2 = "ucast (bc_off p - sl_off sl) :: u32"
      assume E: "skip_unfit (store_of w) (sl_off sl) (sl_len sl) ps = i # js" "st_node (store_of w) i = Some p"
        "CACHE_FIT p (sl_off sl) (sl_len sl)" "sl_off sl < bc_off p" and ga: "gap w (sl_off sl) ?l2"
        and l2: "0 < unat ?l2" "unat ?l2 < unat (sl_len sl)"
      have "unat ?l2 \<le> length b" if "sl_buf sl = Some b" for b using less.prems(4)[OF that] l2(2) by simp
      from CacheIO_read[OF g os ga this] obtain ok out w1 where C: "CacheIO e (sl_buf sl) (sl_off sl) ?l2 False w = Some ((ok, out), w1)" "kept F w w1"
        "ok \<longrightarrow> (case sl_buf sl of None \<Rightarrow> out = [] | Some b \<Rightarrow>
          map Some (take (unat ?l2) out) = map (content_at (store_of w)) [unat (sl_off sl)..<unat (sl_off sl) + unat ?l2] \<and> drop (unat ?l2) out = drop (unat ?l2) b)"
        by blast
      note L = read_loop_gap[OF len E refl C(1)]
      show ?thesis
      proof (cases ok)
        case False
        then show ?thesis using L C(2) by (simp add: read_to_def)
      next
        case True
        let ?w2 = "upd_store (count_miss (sl_buf sl \<noteq> None) ?l2) w1"
        let ?sl = "advance ?l2 (sl\<lparr>sl_buf := map_option (\<lambda>_. out) (sl_buf sl), sl_rd := sl_rd sl @ take (unat ?l2) out\<rparr>)"
        have k12: "kept F w1 ?w2" by (rule kept_lists[where f = "count_miss (sl_buf sl \<noteq> None) ?l2", OF kept_good[OF C(2)]]) (simp_all add: lists_def count_miss_def)
        have k2: "kept F w ?w2" by (rule kept_trans[OF C(2) k12])
        have mv: "moved w sl (unat ?l2) ?sl"
          by (rule moved_advance) (use l2 tot C(3) True in \<open>auto split: option.splits\<close>)
        then have ml: "unat (sl_len ?sl) = unat (sl_len sl) - unat ?l2" "unat (sl_off ?sl) = unat (sl_off sl) + unat ?l2" by (simp_all add: moved_def)
        have fr: "framed w ?w2" using k2 by (simp add: kept_def)
        have "\<exists>r. read_loop e idx (m_cache (store_of w1) idx) ?sl ?w2 = Some r \<and> read_to F ?w2 ?sl r"
        proof (rule less.hyps[of ?sl ?w2 "[]"])
          show "unat (sl_len ?sl) < unat (sl_len sl)" using ml(1) l2 by simp
          show "good F ?w2" by (rule kept_good[OF k2])
          show "m_cache (store_of ?w2) idx = [] @ m_cache (store_of w1) idx" by (simp add: count_miss_def)
          show "passed (store_of ?w2) [] (unat (sl_off ?sl)) \<and> inside ?w2 idx (unat (sl_off ?sl)) (unat (sl_len ?sl))"
            using inside_step[OF ins l2(2)] inside_framed[OF fr] ml by simp
          show "unat (sl_len ?sl) \<le> length b" if "sl_buf ?sl = Some b" for b
            using that mv less.prems(4) ml(1) by (auto simp: moved_def split: option.splits)
        qed
        then show ?thesis using L True read_to_trans[OF k2 mv] by auto
      qed
    next
      fix i js sk n and p :: btcache
      let ?l2 = "hit_len p (sl_off sl) (sl_len sl)"
      assume E: "skip_unfit (store_of w) (sl_off sl) (sl_len sl) ps = i # js" "st_node (store_of w) i = Some p"
        "CACHE_FIT p (sl_off sl) (sl_len sl)" "\<not> sl_off sl < bc_off p" and n: "n = unat ?l2" "0 < n" "n \<le> unat (sl_len sl)"
        and r: "unat (bc_off p) \<le> unat (sl_off sl)" "unat (sl_off sl) + n \<le> unat (bc_off p) + unat (bc_len p)"
        and ch: "m_cache (store_of w) idx = (pre @ sk @ [i]) @ js" "n < unat (sl_len sl) \<longrightarrow> passed (store_of w) (pre @ sk @ [i]) (unat (sl_off sl) + n)"
      define w2 where "w2 = (if sl_buf sl = None then upd_store (to_newest i) w else upd_store (\<lambda>s. s\<lparr>m_cache_hit := m_cache_hit s + slices_of ?l2\<rparr>) w)"
      define sl2 where "sl2 = advance ?l2 (sl\<lparr>sl_buf := sl_buf sl,
        sl_rd := (if sl_buf sl = None then sl_rd sl else sl_rd sl @ take (unat ?l2) (drop (unat (sl_off sl - bc_off p)) (bc_buf p)))\<rparr>)"
      have sub: "unat (sl_off sl - bc_off p) = unat (sl_off sl) - unat (bc_off p)" using r(1) by (simp add: unat_sub word_le_nat_alt)
      have L: "read_loop e idx ps sl w = read_loop e idx js sl2 w2"
        using read_loop_hit[OF len E refl] by (cases "sl_buf sl") (simp_all add: w2_def sl2_def advance_def)
      have sn: "st_node (store_of w) i \<noteq> None" using E(2) by simp
      note N = to_newest_ok[OF good_cache[OF g] sn]
      have "kept F w (upd_store (\<lambda>s. s\<lparr>m_cache_hit := m_cache_hit s + slices_of ?l2\<rparr>) w)"
        by (rule kept_lists[where f = "\<lambda>s. s\<lparr>m_cache_hit := m_cache_hit s + slices_of ?l2\<rparr>", OF g]) (simp_all add: lists_def)
      then have k2: "kept F w w2" using to_newest_keeps(1)[OF g sn] by (simp add: w2_def)
      have s2: "m_cache (store_of w2) = m_cache (store_of w)" "st_node (store_of w2) = st_node (store_of w)" by (simp_all add: w2_def N)
      have mv: "moved w sl (unat ?l2) sl2"
        unfolding sl2_def
        by (rule moved_advance) (use n tot entry_bytes[OF g E(2) r] sub in \<open>auto split: option.splits\<close>)
      then have ml: "unat (sl_len sl2) = unat (sl_len sl) - n" "unat (sl_off sl2) = unat (sl_off sl) + n" using n by (simp_all add: moved_def)
      have fr: "framed w w2" using k2 by (simp add: kept_def)
      have "\<exists>r. read_loop e idx js sl2 w2 = Some r \<and> read_to F w2 sl2 r"
      proof (rule less.hyps[of sl2 w2 "pre @ sk @ [i]"])
        show "unat (sl_len sl2) < unat (sl_len sl)" using ml(1) n by simp
        show "good F w2" by (rule kept_good[OF k2])
        show "m_cache (store_of w2) idx = (pre @ sk @ [i]) @ js" using ch(1) s2 by simp
        show "passed (store_of w2) (pre @ sk @ [i]) (unat (sl_off sl2)) \<and> inside w2 idx (unat (sl_off sl2)) (unat (sl_len sl2))" if "sl_len sl2 \<noteq> 0"
        proof -
          have lt: "n < unat (sl_len sl)" using that ml(1) by (simp add: unat_gt_0[symmetric])
          then show ?thesis using ch(2) s2(2) inside_step[OF ins lt] inside_framed[OF fr] ml by (simp add: passed_def)
        qed
        show "unat (sl_len sl2) \<le> length b" if "sl_buf sl2 = Some b" for b
          using that mv less.prems(4) ml(1) n by (auto simp: moved_def split: option.splits)
      qed
      then show ?thesis using L read_to_trans[OF k2 mv] by auto
    qed
  qed
qed
section \<open>Writing a slice\<close>

text \<open>New data in an entry.\<close>

lemma write_hit_keeps:
  assumes g: "good F w" and p: "st_node (store_of w) i = Some p" and r: "unat (bc_off p) \<le> a" "a + length dat \<le> unat (bc_off p) + unat (bc_len p)"
    and w': "w' = upd_store (\<lambda>s. to_newest i (upd_cached i (\<lambda>p. copy_into p (a - unat (bc_off p)) dat) s)) w"
  shows "good F w'" "framed w w'" "content_at (store_of w') = overlay a (length dat) dat (content_at (store_of w))"
    "m_cache (store_of w') = m_cache (store_of w)" "\<And>is b. passed (store_of w') is b = passed (store_of w) is b"
proof -
  let ?q = "copy_into p (a - unat (bc_off p)) dat" and ?s = "store_of w"
  let ?s1 = "upd_cached i (\<lambda>p. copy_into p (a - unat (bc_off p)) dat) ?s"
  have s1: "?s1 = upd_cached i (\<lambda>q. copy_into q (a - unat (bc_off p)) dat) ?s" using p by (simp add: upd_cached_def)
  have "a - unat (bc_off p) + length dat \<le> unat (bc_len p)" using r by linarith
  note C = copy_into_ok[OF good_cache[OF g] p this s1]
  have n1: "st_node ?s1 = (st_node ?s)(i := Some ?q)" using p by (simp add: upd_cached_def)
  then have "st_node ?s1 i \<noteq> None" by simp
  note N = to_newest_ok[OF C(1) this]
  have sel: "st_files ?s1 = files_of w" "cfg_cache_size ?s1 = cfg_cache_size ?s" "m_flushq ?s1 = m_flushq ?s"
    "m_flush_tried ?s1 = m_flush_tried ?s" "m_cache ?s1 = m_cache ?s" by (simp_all add: upd_cached_def)
  have st: "store_of w' = to_newest i ?s1" by (simp add: w')
  have q: "bc_off ?q = bc_off p" "bc_len ?q = bc_len p" "bc_f_flush ?q" by (simp_all add: copy_into_def)
  have cl: "clean_ok (store_of w')"
    unfolding clean_ok_def st N sel n1
  proof (intro allI impI)
    fix j r x assume r: "((st_node ?s)(i := Some ?q)) j = Some r" "\<not> bc_f_flush r" "covers r x"
    then have "j \<noteq> i" using q(3) by auto
    then show "byte_at (files_of w) x = Some (bc_buf r ! (x - unat (bc_off r)))" using r g by (simp add: good_def clean_ok_def)
  qed
  have "world_okx F w'" unfolding w' using g by (intro world_ok_store) (simp_all add: good_def flat_def N sel)
  then show "good F w'" using g cl N(1) by (simp add: good_def st N(6,11) sel calm_def) (simp add: w')
  show "framed w w'" unfolding w' by (rule framed_store) (simp_all add: N sel)
  show "content_at (store_of w') = overlay a (length dat) dat (content_at ?s)"
  proof
    fix x
    have "cached (store_of w') x = (if a \<le> x \<and> x < a + length dat then Some (dat ! (x - a)) else cached ?s x)"
      using r(1) by (simp add: st N(2) C(2))
    then show "content_at (store_of w') x = overlay a (length dat) dat (content_at ?s) x"
      by (simp add: content_at_def overlay_def st N(6) sel cong: option.case_cong)
  qed
  show "m_cache (store_of w') = m_cache ?s" by (simp add: st N(5) sel)
  show "passed (store_of w') is b = passed ?s is b" for "is" b
    using p q by (auto simp: passed_def st N(4) n1)
qed

lemma write_loop_end:
  assumes "len = 0 \<or> skip_unfit (store_of w) off len ps = [] \<or>
    (\<exists>i js p. skip_unfit (store_of w) off len ps = i # js \<and> st_node (store_of w) i = Some p \<and> \<not> CACHE_FIT p off len)"
  shows "write_loop e idx ps buf off len w = Some (True, buf, off, len, w)"
  using assms by (subst write_loop.simps) (auto simp: Let_def)

lemma write_loop_gap:
  assumes "len \<noteq> 0" and "skip_unfit (store_of w) off len ps = i # js" and "st_node (store_of w) i = Some p"
    and "CACHE_FIT p off len" and "off < bc_off p" and "len2 = ucast (bc_off p - off)"
    and "CacheIO e (Some buf) off len2 True w = Some ((ok, out), w1)"
  shows "write_loop e idx ps buf off len w =
    (if \<not> ok then Some (False, buf, off, len, w1)
     else write_loop e idx (m_cache (store_of w1) idx) (drop (unat len2) buf) (off + ucast len2) (len - len2) w1)"
  by (subst write_loop.simps) (simp add: Let_def assms(1-5) assms(6)[symmetric] assms(7))

lemma write_loop_hit:
  assumes "len \<noteq> 0" and "skip_unfit (store_of w) off len ps = i # js" and "st_node (store_of w) i = Some p"
    and "CACHE_FIT p off len" and "\<not> off < bc_off p" and "len2 = hit_len p off len"
  shows "write_loop e idx ps buf off len w =
    write_loop e idx js (drop (unat len2) buf) (off + ucast len2) (len - len2)
      (upd_store (\<lambda>s. to_newest i (upd_cached i (\<lambda>p. copy_into p (unat (off - bc_off p)) (take (unat len2) buf)) s)) w)"
  by (subst write_loop.simps) (simp add: Let_def assms(1-5) assms(6)[symmetric])

definition written_to :: "nat set \<Rightarrow> world \<Rightarrow> bytes \<Rightarrow> u64 \<Rightarrow> u32 \<Rightarrow> bool \<times> bytes \<times> u64 \<times> u32 \<times> world \<Rightarrow> bool" where
  "written_to F w buf off len r \<longleftrightarrow>
     (case r of (ok, buf', off', len', w') \<Rightarrow>
        \<exists>n \<le> unat len. good F w' \<and> framed w w' \<and> content_at (store_of w') = overlay (unat off) n buf (content_at (store_of w)) \<and>
          (ok \<longrightarrow> buf' = drop n buf \<and> unat off' = unat off + n \<and> unat len' = unat len - n \<and> (len' \<noteq> 0 \<longrightarrow> gap w' off' len')))"

lemma written_to_trans:
  assumes fr: "framed w w1" and c: "content_at (store_of w1) = overlay (unat off) (unat m) buf (content_at (store_of w))"
    and m: "unat m \<le> unat len" "unat len \<le> length buf" and o: "unat off + unat len < 18446744073709551616"
    and r: "written_to F w1 (drop (unat m) buf) (off + ucast m) (len - m) r"
  shows "written_to F w buf off len r"
proof -
  obtain ok buf' off' len' w' where re: "r = (ok, buf', off', len', w')" by (cases r)
  have u: "unat (off + ucast m) = unat off + unat m" "unat (len - m) = unat len - unat m"
    using m o by (simp_all add: u64_add unat_ucast_len unat_sub word_le_nat_alt)
  obtain n where n: "n \<le> unat len - unat m" "good F w'" "framed w1 w'"
    "content_at (store_of w') = overlay (unat off + unat m) n (drop (unat m) buf) (content_at (store_of w1))"
    "ok \<longrightarrow> buf' = drop n (drop (unat m) buf) \<and> unat off' = unat off + unat m + n \<and> unat len' = unat len - unat m - n \<and> (len' \<noteq> 0 \<longrightarrow> gap w' off' len')"
    using r unfolding written_to_def re u prod.case by blast
  have "content_at (store_of w') = overlay (unat off) (unat m + n) buf (content_at (store_of w))"
    unfolding n(4) c by (rule overlay_next) (use m in linarith)
  then show ?thesis
    using n m framed_trans[OF fr n(3)] unfolding written_to_def re prod.case by (intro exI[of _ "unat m + n"]) (simp add: add.commute)
qed

lemma write_loop_spec:
  assumes "good F w" and os: "os_fine e" and "m_cache (store_of w) idx = pre @ ps"
    and "len \<noteq> 0 \<Longrightarrow> passed (store_of w) pre (unat off) \<and> inside w idx (unat off) (unat len)" and "unat len \<le> length buf"
  shows "\<exists>r. write_loop e idx ps buf off len w = Some r \<and> written_to F w buf off len r"
  using assms(1,3-5)
proof (induction "unat len" arbitrary: w pre ps buf off len rule: less_induct)
  case less
  note g = less.prems(1)
  have stop: "written_to F w buf off len (True, buf, off, len, w)" if "len \<noteq> 0 \<longrightarrow> gap w off len"
    using g that by (simp add: written_to_def exI[of _ 0])
  show ?case
  proof (cases "len = 0")
    case True
    then have "write_loop e idx ps buf off len w = Some (True, buf, off, len, w)" by (intro write_loop_end) simp
    then show ?thesis using stop True by blast
  next
    case len: False
    then have pos: "0 < unat len" by (simp add: unat_gt_0)
    have pre: "passed (store_of w) pre (unat off)" and ins: "inside w idx (unat off) (unat len)" using less.prems(3)[OF len] by simp_all
    have tot: "unat off + unat len < 18446744073709551616"
    proof (rule le_less_trans)
      show "unat off + unat len \<le> total_len w" using ins by (simp add: inside_def)
    qed (rule unat_u64_lt)
    have next_ok: "\<exists>r. write_loop e idx ps' (drop (unat m) buf) (off + ucast m) (len - m) w1 = Some r \<and> written_to F w buf off len r"
      if m: "0 < unat m" "unat m \<le> unat len" and w1: "good F w1" "framed w w1"
        "content_at (store_of w1) = overlay (unat off) (unat m) buf (content_at (store_of w))"
        and ch: "m_cache (store_of w1) idx = pre' @ ps'" and pa: "unat m < unat len \<Longrightarrow> passed (store_of w1) pre' (unat off + unat m)"
      for m :: u32 and w1 pre' ps'
    proof -
      have u: "unat (off + ucast m) = unat off + unat m" "unat (len - m) = unat len - unat m"
        using m tot by (simp_all add: u64_add unat_ucast_len unat_sub word_le_nat_alt)
      have "\<exists>r. write_loop e idx ps' (drop (unat m) buf) (off + ucast m) (len - m) w1 = Some r \<and>
        written_to F w1 (drop (unat m) buf) (off + ucast m) (len - m) r"
      proof (rule less.hyps[OF _ w1(1) ch])
        show "unat (len - m) < unat len" using u m by simp
        show "passed (store_of w1) pre' (unat (off + ucast m)) \<and> inside w1 idx (unat (off + ucast m)) (unat (len - m))" if "len - m \<noteq> 0"
        proof -
          have "0 < unat (len - m)" using that unat_gt_0[of "len - m"] by blast
          then have "unat m < unat len" using u by simp
          then show ?thesis using pa inside_step[OF ins, of "unat m"] inside_framed[OF w1(2)] u by simp
        qed
        show "unat (len - m) \<le> length (drop (unat m) buf)" using u less.prems(4) by simp
      qed
      then show ?thesis using written_to_trans[OF w1(2,3) m(2) less.prems(4) tot] by blast
    qed
    show ?thesis
    proof (rule at_entry[OF g less.prems(2) pre ins pos])
      assume "skip_unfit (store_of w) off len ps = [] \<or>
        (\<exists>i js p. skip_unfit (store_of w) off len ps = i # js \<and> st_node (store_of w) i = Some p \<and> \<not> CACHE_FIT p off len)" and ga: "gap w off len"
      then have "write_loop e idx ps buf off len w = Some (True, buf, off, len, w)" by (intro write_loop_end) blast
      then show ?thesis using stop ga by blast
    next
      fix i js and p :: btcache
      let ?l2 = "ucast (bc_off p - off) :: u32"
      assume E: "skip_unfit (store_of w) off len ps = i # js" "st_node (store_of w) i = Some p" "CACHE_FIT p off len" "off < bc_off p"
        and ga: "gap w off ?l2" and l2: "0 < unat ?l2" "unat ?l2 < unat len"
      have "unat ?l2 \<le> length buf" using less.prems(4) l2 by simp
      from CacheIO_write[OF g os ga this] obtain ok out w1 n where C: "CacheIO e (Some buf) off ?l2 True w = Some ((ok, out), w1)"
        "n \<le> unat ?l2" "ok \<longrightarrow> n = unat ?l2" "good F w1" "framed w w1" "content_at (store_of w1) = overlay (unat off) n buf (content_at (store_of w))"
        by blast
      note L = write_loop_gap[OF len E refl C(1)]
      show ?thesis
      proof (cases ok)
        case False
        have "n \<le> unat len" using C(2) l2 by simp
        then show ?thesis using L False C by (auto simp: written_to_def)
      next
        case True
        then show ?thesis using L next_ok[OF l2(1) less_imp_le[OF l2(2)] C(4,5), of "[]" "m_cache (store_of w1) idx"] C(3,6) by simp
      qed
    next
      fix i js sk n and p :: btcache
      let ?l2 = "hit_len p off len"
      assume E: "skip_unfit (store_of w) off len ps = i # js" "st_node (store_of w) i = Some p" "CACHE_FIT p off len" "\<not> off < bc_off p"
        and n: "n = unat ?l2" "0 < n" "n \<le> unat len" and r: "unat (bc_off p) \<le> unat off" "unat off + n \<le> unat (bc_off p) + unat (bc_len p)"
        and ch: "m_cache (store_of w) idx = (pre @ sk @ [i]) @ js" "n < unat len \<longrightarrow> passed (store_of w) (pre @ sk @ [i]) (unat off + n)"
      define w1 where "w1 = upd_store (\<lambda>s. to_newest i (upd_cached i (\<lambda>p. copy_into p (unat (off - bc_off p)) (take (unat ?l2) buf)) s)) w"
      have l: "length (take (unat ?l2) buf) = n" using n less.prems(4) by simp
      have sub: "unat (off - bc_off p) = unat off - unat (bc_off p)" using r(1) by (simp add: unat_sub word_le_nat_alt)
      have "w1 = upd_store (\<lambda>s. to_newest i (upd_cached i (\<lambda>p. copy_into p (unat off - unat (bc_off p)) (take (unat ?l2) buf)) s)) w"
        unfolding w1_def upd_store_def upd_content_def using E(2) sub by (simp add: upd_cached_def)
      note W = write_hit_keeps[OF g E(2) r(1) _ this, unfolded l, OF r(2)]
      have c: "content_at (store_of w1) = overlay (unat off) (unat ?l2) buf (content_at (store_of w))"
        using W(3) n(1) by (simp add: overlay_take)
      have pa: "passed (store_of w1) (pre @ sk @ [i]) (unat off + unat ?l2)" if "unat ?l2 < unat len"
        unfolding W(5) using ch(2) n(1) that by blast
      have ch1: "m_cache (store_of w1) idx = (pre @ sk @ [i]) @ js" using ch(1) W(4) by simp
      show ?thesis
        unfolding write_loop_hit[OF len E refl] w1_def[symmetric]
        by (rule next_ok[OF _ _ W(1,2) c ch1]) (use n pa in auto)
    qed
  qed
qed
section \<open>Slices\<close>

text \<open>A slice of a piece, and what the cache must be when it is switched off.\<close>

definition slice_in :: "world \<Rightarrow> u32 \<Rightarrow> u32 \<Rightarrow> u32 \<Rightarrow> bool" where
  "slice_in w idx off len \<longleftrightarrow> idx < npieces w \<and> unat off + unat len \<le> unat (GetPieceLength (c_geo (w_content w)) idx)"

definition usable :: "store \<Rightarrow> bool" where
  "usable s \<longleftrightarrow> (m_cache_size s = 0 \<longrightarrow> m_age s = [])"

abbreviation start_of :: "world \<Rightarrow> u32 \<Rightarrow> u32 \<Rightarrow> nat" where
  "start_of w idx off \<equiv> unat idx * plen_of w + unat off"

lemma slice_inside:
  assumes g: "good F w" and sl: "slice_in w idx off len"
  shows "unat (ucast idx * ucast (piece_length w) + ucast off :: u64) = start_of w idx off"
    "start_of w idx off + unat len \<le> total_len w" "unat len \<noteq> 0 \<Longrightarrow> inside w (unat idx) (start_of w idx off) (unat len)"
proof -
  note len = GetPieceLength_nat[OF good_geo[OF g], of idx]
  have i: "idx < npieces w" and le: "unat off + unat len \<le> min (plen_of w) (total_len w - unat idx * plen_of w)"
    using sl len by (simp_all add: slice_in_def)
  have pos: "0 < min (plen_of w) (total_len w - unat idx * plen_of w)"
    using GetPieceLength_pos[OF good_geo[OF g] i] len i by simp
  show tot: "start_of w idx off + unat len \<le> total_len w" using le pos by linarith
  then have "start_of w idx off < 18446744073709551616" using unat_u64_lt[of "g_total (c_geo (w_content w))"] by linarith
  then show "unat (ucast idx * ucast (piece_length w) + ucast off :: u64) = start_of w idx off"
    by (simp add: unat_word_ariths unat_ucast_len)
  assume "unat len \<noteq> 0"
  then have "unat off < plen_of w" using le by linarith
  then have "start_of w idx off div plen_of w = unat idx" "start_of w idx off mod plen_of w = unat off" by simp_all
  then show "inside w (unat idx) (start_of w idx off) (unat len)" using le tot by (simp add: inside_def)
qed

lemma empty_cache: "good F w \<Longrightarrow> m_age (store_of w) = [] \<Longrightarrow> cached (store_of w) x = None \<and> m_cache (store_of w) k = []"
proof -
  assume g: "good F w" and a: "m_age (store_of w) = []"
  note ok = good_cache[OF g]
  have n: "st_node (store_of w) i = None" for i using cache_okD(2)[OF ok, of i] a by simp
  have "i \<notin> set (m_cache (store_of w) k)" for i using cache_okD(6)[OF ok, of i k] n by simp
  then have "m_cache (store_of w) k = []" by (metis list.set_intros(1) neq_Nil_conv)
  then show ?thesis using cached_None[OF ok, of x] n by simp
qed

lemma ReadSlice_spec:
  assumes g: "good F w" and os: "os_fine e" and sl: "slice_in w idx off len" and us: "usable (store_of w)"
    and b: "\<And>b. buf = Some b \<Longrightarrow> unat len \<le> length b"
  shows "\<exists>ok out w'. ReadSlice e buf idx off len w = Some ((ok, out), w') \<and> kept F w w' \<and>
    (ok \<longrightarrow> (case buf of None \<Rightarrow> True | Some b \<Rightarrow>
       map Some (take (unat len) out) = map (content_at (store_of w)) [start_of w idx off..<start_of w idx off + unat len] \<and>
       drop (unat len) out = drop (unat len) b))"
proof -
  define pos :: u64 where "pos = ucast idx * ucast (piece_length w) + ucast off"
  note I = slice_inside[OF g sl, folded pos_def]
  show ?thesis
  proof (cases "m_cache_size (store_of w) = 0")
    case off: True
    show ?thesis
    proof (cases buf)
      case None
      then show ?thesis using off kept_refl[OF g] by (auto simp: ReadSlice_def)
    next
      case (Some bf)
      have c: "content_at (store_of w) = byte_at (files_of w)"
        using empty_cache[OF g] us off by (intro ext) (simp add: usable_def content_at_def)
      have "unat pos + unat len \<le> total_len w" using I(1,2) by simp
      from FileIO_read[OF g os b[OF Some] this] show ?thesis
        using off Some I(1) unfolding ReadSlice_def pos_def[symmetric] c by (auto simp: Let_def) 
    qed
  next
    case on: False
    let ?sl = "\<lparr>sl_off = pos, sl_len = len, sl_buf = buf, sl_rd = []\<rparr>"
    obtain r where R: "read_loop e (unat idx) (m_cache (store_of w) (unat idx)) ?sl w = Some r" "read_to F w ?sl r"
      using read_loop_spec[OF g os, of "unat idx" "[]" "m_cache (store_of w) (unat idx)" ?sl] b I by (auto simp: unat_eq_zero)
    obtain x w1 where r: "r = (x, w1)" by (cases r)
    have k1: "kept F w w1" using R(2) r by (simp add: read_to_def)
    show ?thesis
    proof (cases x)
      case (Inl out)
      then have "ReadSlice e buf idx off len w = Some ((False, out), w1)"
        using on R(1) r by (simp add: ReadSlice_def pos_def[symmetric])
      then show ?thesis using k1 by blast
    next
      case (Inr sl')
      obtain n where mv: "moved w ?sl n sl'" and ga: "sl_len sl' \<noteq> 0 \<longrightarrow> gap w1 (sl_off sl') (sl_len sl')"
        using R(2) r Inr by (auto simp: read_to_def)
      show ?thesis
      proof (cases "sl_len sl' = 0")
        case True
        then have "n = unat len" using mv by (simp add: moved_def)
        moreover have "ReadSlice e buf idx off len w =
          Some ((True, sl_rd sl' @ (case sl_buf sl' of None \<Rightarrow> [] | Some b \<Rightarrow> b)), w1)"
          using on R(1) r Inr True by (simp add: ReadSlice_def pos_def[symmetric])
        moreover have "length bs = unat len" if "map Some bs = map (content_at (store_of w)) [unat pos..<unat pos + unat len]" for bs :: bytes
          using that by (metis length_map length_upt add_diff_cancel_left')
        ultimately show ?thesis using k1 mv I(1) by (auto simp: moved_def split: option.splits)
      next
        case False
        define w2 where "w2 = upd_store (count_miss (sl_buf sl' \<noteq> None) (sl_len sl')) w1"
        have k12: "kept F w1 w2" unfolding w2_def
          by (rule kept_lists[where f = "count_miss (sl_buf sl' \<noteq> None) (sl_len sl')", OF kept_good[OF k1]]) (simp_all add: lists_def count_miss_def)
        have k2: "kept F w w2" by (rule kept_trans[OF k1 k12])
        have l12: "lists (store_of w2) = lists (store_of w1)" by (simp add: w2_def lists_def count_miss_def)
        have ga2: "gap w2 (sl_off sl') (sl_len sl')"
          by (rule gap_kept[of w1]) (use k12 ga False lists_ok[OF l12] in \<open>simp_all add: kept_def shrunk_def\<close>)
        have sb: "unat (sl_len sl') \<le> length bb" if "sl_buf sl' = Some bb" for bb
          using that mv b by (auto simp: moved_def split: option.splits)
        obtain ok out w3 where C: "CacheIO e (sl_buf sl') (sl_off sl') (sl_len sl') False w2 = Some ((ok, out), w3)" "kept F w2 w3"
          "ok \<longrightarrow> (case sl_buf sl' of None \<Rightarrow> out = [] | Some b \<Rightarrow>
            map Some (take (unat (sl_len sl')) out) = map (content_at (store_of w2)) [unat (sl_off sl')..<unat (sl_off sl') + unat (sl_len sl')] \<and>
            drop (unat (sl_len sl')) out = drop (unat (sl_len sl')) b)"
          using CacheIO_read[OF kept_good[OF k2] os ga2 sb] by blast
        have c2: "content_at (store_of w2) = content_at (store_of w)" using k2 by (simp add: kept_def)
        have "ReadSlice e buf idx off len w = Some ((ok, sl_rd sl' @ out), w3)"
          using on R(1) r Inr False C(1) by (simp add: ReadSlice_def pos_def[symmetric] w2_def)
        moreover have "case buf of None \<Rightarrow> True | Some b \<Rightarrow>
          map Some (take (unat len) (sl_rd sl' @ out)) = map (content_at (store_of w)) [unat pos..<unat pos + unat len] \<and>
          drop (unat len) (sl_rd sl' @ out) = drop (unat len) b" if ok
        proof (cases buf)
          case (Some bf)
          have m: "sl_buf sl' = Some (drop n bf)" "n \<le> unat len" "unat (sl_off sl') = unat pos + n" "unat (sl_len sl') = unat len - n"
            "map Some (sl_rd sl') = map (content_at (store_of w)) [unat pos..<unat pos + n]"
            using mv Some by (auto simp: moved_def)
          then have l: "length (sl_rd sl') = n" by (metis length_map length_upt add_diff_cancel_left')
          have o: "map Some (take (unat len - n) out) = map (content_at (store_of w)) [unat pos + n..<unat pos + unat len]"
            "drop (unat len - n) out = drop (unat len) bf" using C(3) that m c2 by simp_all
          have "[unat pos..<unat pos + unat len] = [unat pos..<unat pos + n] @ [unat pos + n..<unat pos + unat len]"
            using m(2) upt_add_eq_append[of "unat pos" "unat pos + n" "unat len - n"] by simp
          then show ?thesis using Some l m(2,5) o by simp
        qed simp
        ultimately show ?thesis using kept_trans[OF k2 C(2)] unfolding I(1)[symmetric]
          by (intro exI[of _ ok] exI[of _ "sl_rd sl' @ out"] exI[of _ w3] conjI impI)
      qed
    qed
  qed
qed
lemma WriteSlice_spec:
  assumes g: "good F w" and os: "os_fine e" and sl: "slice_in w idx off len" and us: "usable (store_of w)" and b: "unat len \<le> length buf"
  shows "\<exists>ok w' n. WriteSlice e buf idx off len w = Some (ok, w') \<and> n \<le> unat len \<and> (ok \<longrightarrow> n = unat len) \<and> good F w' \<and> framed w w' \<and>
    content_at (store_of w') = overlay (start_of w idx off) n buf (content_at (store_of w))"
proof -
  define pos :: u64 where "pos = ucast idx * ucast (piece_length w) + ucast off"
  note I = slice_inside[OF g sl, folded pos_def]
  have rng: "unat pos + unat len \<le> total_len w" using I(1,2) by simp
  obtain saved w1 n1 where W1: "(if m_cache_size (store_of w) = 0 then map_option (\<lambda>((ok, _), w). (ok, w)) (FileIO e True buf pos len w)
      else Some (False, w)) = Some (saved, w1)" "n1 \<le> unat len" "saved \<longrightarrow> n1 = unat len" "good F w1" "framed w w1"
    "lists (store_of w1) = lists (store_of w)" "content_at (store_of w1) = overlay (unat pos) n1 buf (content_at (store_of w))"
  proof (cases "m_cache_size (store_of w) = 0")
    case True
    have "uncached (store_of w) (unat pos) (unat len)" using empty_cache[OF g] us True by (simp add: usable_def uncached_def)
    from FileIO_over[OF g os b rng this] show ?thesis using that True by auto
  next
    case False
    then show ?thesis using that[of False w 0] g by simp
  qed
  show ?thesis
  proof (cases saved)
    case True
    then have "WriteSlice e buf idx off len w = Some (True, w1)" using W1(1) by (simp add: WriteSlice_def pos_def[symmetric] Let_def)
    then show ?thesis using W1 True I(1) by auto
  next
    case False
    have "\<exists>r. write_loop e (unat idx) (m_cache (store_of w1) (unat idx)) buf pos len w1 = Some r \<and> written_to F w1 buf pos len r"
      by (rule write_loop_spec[OF W1(4) os, of "unat idx" "[]"]) (use I b inside_framed[OF W1(5)] in \<open>auto simp: unat_eq_zero\<close>)
    then obtain ok buf' pos' len' w2 where L: "write_loop e (unat idx) (m_cache (store_of w1) (unat idx)) buf pos len w1 = Some (ok, buf', pos', len', w2)"
      "written_to F w1 buf pos len (ok, buf', pos', len', w2)" by (metis prod_cases5)
    obtain n2 where n2: "n2 \<le> unat len" "good F w2" "framed w1 w2" "content_at (store_of w2) = overlay (unat pos) n2 buf (content_at (store_of w1))"
      "ok \<longrightarrow> buf' = drop n2 buf \<and> unat pos' = unat pos + n2 \<and> unat len' = unat len - n2 \<and> (len' \<noteq> 0 \<longrightarrow> gap w2 pos' len')"
      using L(2) unfolding written_to_def prod.case by blast
    have c2: "content_at (store_of w2) = overlay (unat pos) (max n1 n2) buf (content_at (store_of w))"
      unfolding n2(4) W1(7) by (rule overlay_again)
    have S: "WriteSlice e buf idx off len w =
      (if \<not> ok then Some (False, w2) else if len' = 0 then Some (True, w2)
       else map_option (\<lambda>((ok, _), w). (ok, w)) (CacheIO e (Some buf') pos' len' True w2))"
      unfolding WriteSlice_def pos_def[symmetric] Let_def W1(1) using False L(1) by simp
    have fr2: "framed w w2" by (rule framed_trans[OF W1(5) n2(3)])
    show ?thesis
    proof (cases "\<not> ok \<or> len' = 0")
      case True
      then have "WriteSlice e buf idx off len w = Some (ok, w2)" "ok \<longrightarrow> max n1 n2 = unat len" using S n2 W1(2) by auto
      then show ?thesis using c2 n2 W1(2) fr2 I(1) by (intro exI[of _ ok] exI[of _ w2] exI[of _ "max n1 n2"]) simp
    next
      case go: False
      then have p: "buf' = drop n2 buf" "unat pos' = unat pos + n2" "unat len' = unat len - n2" "gap w2 pos' len'" using n2(5) by auto
      have "unat len' \<le> length buf'" using p b by simp
      from CacheIO_write[OF n2(2) os p(4) this] obtain ok3 out w3 n3 where C: "CacheIO e (Some buf') pos' len' True w2 = Some ((ok3, out), w3)"
        "n3 \<le> unat len'" "ok3 \<longrightarrow> n3 = unat len'" "good F w3" "framed w2 w3" "content_at (store_of w3) = overlay (unat pos') n3 buf' (content_at (store_of w2))"
        by blast
      have "content_at (store_of w3) = overlay (unat pos) (n2 + n3) buf (content_at (store_of w1))"
        unfolding C(6) n2(4) p(1,2) by (rule overlay_next) (use n2(1) b in linarith)
      then have "content_at (store_of w3) = overlay (unat pos) (max n1 (n2 + n3)) buf (content_at (store_of w))"
        unfolding W1(7) overlay_again .
      moreover have "WriteSlice e buf idx off len w = Some (ok3, w3)" using S go C(1) by simp
      moreover have "n2 + n3 \<le> unat len" using C(2) p(3) n2(1) by linarith
      moreover have "ok3 \<longrightarrow> max n1 (n2 + n3) = unat len" using C(3) p(3) n2(1) W1(2) by auto
      ultimately show ?thesis using W1(2) C(4) framed_trans[OF fr2 C(5)] I(1)
        by (intro exI[of _ ok3] exI[of _ w3] exI[of _ "max n1 (n2 + n3)"]) simp
    qed
  qed
qed

text \<open>
  C3: Reading a slice is transparent: whatever the operating system reports, \<^verbatim>\<open>ReadSlice\<close> returns, and no byte of the
  torrent changes, although entries are flushed, deleted and added on the way.  When it returns 0 the buffer holds the
  bytes of the slice, the unwritten ones from the cache and the others from disk.  The files are preallocated, the
  system has room for directory entries, and after a write failure the retry is not due (then \<^verbatim>\<open>CacheConfigure\<close> would
  run in the middle).
\<close>

theorem slice_read:
  assumes "good {} w" and "os_fine e" and "slice_in w idx off len" and "usable (store_of w)" and "unat len \<le> length buf"
  shows "\<exists>ok out w'. ReadSlice e (Some buf) idx off len w = Some ((ok, out), w') \<and> good {} w' \<and>
    content_at (store_of w') = content_at (store_of w) \<and>
    (ok \<longrightarrow> map Some (take (unat len) out) = map (content_at (store_of w)) [start_of w idx off..<start_of w idx off + unat len])"
  using ReadSlice_spec[OF assms(1-4), of "Some buf"] assms(5) by (auto simp: kept_def)

text \<open>
  C2: Writing a slice replaces the bytes of the slice and no others, in the cache or on disk: \<^verbatim>\<open>WriteSlice\<close> returns, a
  prefix of the data is in place, and all of it when the result is 0.  Entries that overlap the slice are updated,
  the gaps between them become new entries.
\<close>

theorem slice_written:
  assumes "good {} w" and "os_fine e" and "slice_in w idx off len" and "usable (store_of w)" and "unat len \<le> length buf"
  shows "\<exists>ok w' n. WriteSlice e buf idx off len w = Some (ok, w') \<and> good {} w' \<and> n \<le> unat len \<and> (ok \<longrightarrow> n = unat len) \<and>
    content_at (store_of w') = (\<lambda>x. if start_of w idx off \<le> x \<and> x < start_of w idx off + n
      then Some (buf ! (x - start_of w idx off)) else content_at (store_of w) x)"
  using WriteSlice_spec[OF assms] unfolding overlay_def by blast

section \<open>Closed instances\<close>

text \<open>Ten bytes in four pieces; bytes 3 and 4 are in the cache and not yet on disk.\<close>

definition ex_cached :: world where
  "ex_cached = ex_world\<lparr>w_content := ex_content\<lparr>c_geo := \<lparr>g_npieces = 4, g_piece_length = 3, g_total = 10\<rparr>,
     c_store := ex_store\<lparr>st_files := ex_disk [ex_file 0 0 6 False [1, 2, 3, 4, 5, 6], ex_file 1 6 4 False [7, 8, 9, 10]],
       st_node := (\<lambda>i. if i = 0 then Some \<lparr>bc_off = 3, bc_len = 2, bc_f_flush = True, bc_buf = [50, 51]\<rparr> else None),
       m_cache := (\<lambda>k. if k = 1 then [0] else []), m_age := [0], st_next := 1, m_cache_used := 2\<rparr>\<rparr>\<rparr>"

lemma ex_cached_sel [simp]:
  "npieces ex_cached = 4" "plen_of ex_cached = 3" "total_len ex_cached = 10" "w_now ex_cached = 120"
  "m_age (store_of ex_cached) = [0]" "m_cache_size (store_of ex_cached) = 65536"
  by (simp_all add: ex_cached_def ex_world_def ex_content_def ex_store_def)

lemma ex_cached_good: "good {} ex_cached"
proof -
  have n: "st_node (store_of ex_cached) i = (if i = 0 then Some \<lparr>bc_off = 3, bc_len = 2, bc_f_flush = True, bc_buf = [50, 51]\<rparr> else None)"
    "m_cache (store_of ex_cached) k = (if k = 1 then [0] else [])" "st_next (store_of ex_cached) = 1" "m_cache_used (store_of ex_cached) = 2"
    "files_of ex_cached = ex_disk [ex_file 0 0 6 False [1, 2, 3, 4, 5, 6], ex_file 1 6 4 False [7, 8, 9, 10]]"
    "flush_failed ex_cached = False" for i k
    by (simp_all add: ex_cached_def ex_world_def ex_content_def)
  have "world_ok ex_cached"
  proof -
    have "geo_ok \<lparr>g_npieces = 4, g_piece_length = 3, g_total = 10\<rparr>" by code_simp
    then have "content_ok (w_content ex_cached)"
      using ex_world_ok by (simp add: ex_cached_def ex_world_def ex_content_def content_ok_def world_okx_def ex_geo_def files_ok_def ex_disk_def ex_file_def)
    then show ?thesis using ex_world_ok by (simp add: world_okx_def ex_cached_def ex_world_def ex_content_def ex_geo_def no_failed_def)
  qed
  moreover have "cache_ok 3 10 (store_of ex_cached)"
    by (auto simp: cache_ok_def n ordered_def entry_ok_def piece_nr_def split: if_splits)
  moreover have "flat 10 (files_of ex_cached)" unfolding n flat_def by (intro conjI; code_simp)
  moreover have "clean_ok (store_of ex_cached)" by (simp add: clean_ok_def n)
  ultimately show ?thesis by (simp add: good_def calm_def n)
qed

lemma ex_env_fine: "os_fine ex_env"
  by (simp add: os_fine_def ex_env_def ex_os0_def)

theorem slice_read_witness:
  "(case ReadSlice ex_env (Some [0, 0, 0]) 1 0 3 ex_cached of None \<Rightarrow> False
    | Some ((ok, out), w') \<Rightarrow> ok \<and> out = [50, 51, 6] \<and> content_at (store_of w') = content_at (store_of ex_cached))"
proof -
  have "slice_in ex_cached 1 0 3" "usable (store_of ex_cached)" by code_simp+
  from slice_read[OF ex_cached_good ex_env_fine this, of "[0, 0, 0]"] obtain ok out w' where
    R: "ReadSlice ex_env (Some [0, 0, 0]) 1 0 3 ex_cached = Some ((ok, out), w')" "content_at (store_of w') = content_at (store_of ex_cached)" by auto
  have "(case ReadSlice ex_env (Some [0, 0, 0]) 1 0 3 ex_cached of None \<Rightarrow> False | Some ((ok, out), w') \<Rightarrow> ok \<and> out = [50, 51, 6])" by code_simp
  with R show ?thesis by simp
qed

theorem slice_written_witness:
  "(case WriteSlice ex_env [60, 61] 1 1 2 ex_cached of None \<Rightarrow> False
    | Some (ok, w') \<Rightarrow> ok \<and> good {} w' \<and> map (content_at (store_of w')) [2..<7] = [Some 3, Some 50, Some 60, Some 61, Some 7])"
proof -
  have "slice_in ex_cached 1 1 2" "usable (store_of ex_cached)" by code_simp+
  from slice_written[OF ex_cached_good ex_env_fine this, of "[60, 61]"] obtain ok w' where
    R: "WriteSlice ex_env [60, 61] 1 1 2 ex_cached = Some (ok, w')" "good {} w'" by auto
  have "(case WriteSlice ex_env [60, 61] 1 1 2 ex_cached of None \<Rightarrow> False
    | Some (ok, w') \<Rightarrow> ok \<and> map (content_at (store_of w')) [2..<7] = [Some 3, Some 50, Some 60, Some 61, Some 7])" by code_simp
  with R show ?thesis by simp
qed
end
