(* ===== verification/Verify.thy ===== *)
theory Verify
  imports Slices
begin

text \<open>
  Deleting the entries of a piece, and the check of a complete piece: \<^verbatim>\<open>APieceComplete\<close> takes a piece for complete
  exactly when the digest of its bytes is the one of the metainfo.
\<close>

section \<open>Uncache\<close>

text \<open>The loop, seen together with the list that is still to be deleted.\<close>

lemma uncache_loop_ok:
  assumes "t = s\<lparr>m_cache := (m_cache s)(idx := is)\<rparr>" and "cache_ok plen l t"
    and "s' = (uncache_loop is s)\<lparr>m_cache := (m_cache (uncache_loop is s))(idx := [])\<rparr>"
  shows "cache_ok plen l s' \<and> (\<forall>x. x div plen \<noteq> idx \<longrightarrow> cached s' x = cached t x) \<and> st_files s' = st_files s \<and>
    (\<forall>i p. st_node s' i = Some p \<longrightarrow> st_node s i = Some p) \<and> m_flush_tried s' = m_flush_tried s"
  using assms
proof (induction "is" arbitrary: s t s')
  case Nil
  then have "s' = t" by simp
  then show ?case using Nil by simp
next
  case (Cons i "is")
  note ok = Cons.prems(2)
  have ch: "m_cache t idx = i # is" using Cons.prems(1) by simp
  then have "i \<in> set (m_cache t idx)" by simp
  then obtain p where p: "st_node t i = Some p" "piece_nr plen p = idx" using cache_okD(6)[OF ok] by blast
  define s1 where "s1 = s\<lparr>m_age := remove1 i (m_age s), m_cache_used := m_cache_used s - bc_len p, st_node := (st_node s)(i := None)\<rparr>"
  have ps: "st_node s i = Some p" using p(1) Cons.prems(1) by simp
  have t1: "expire_entry idx i p t = s1\<lparr>m_cache := (m_cache s1)(idx := is)\<rparr>"
  proof -
    have f: "(\<lambda>k. if k = idx then i # is else m_cache s k)(idx := is) = (m_cache s)(idx := is)" by auto
    show ?thesis by (simp add: expire_entry_def s1_def Cons.prems(1) fun_upd_def f[unfolded fun_upd_def] cong: if_cong)
  qed
  have E: "cache_ok plen l (expire_entry idx i p t)" "cached (expire_entry idx i p t) = (\<lambda>x. if covers p x then None else cached t x)"
    by (rule expire_ok[OF ok p(1) p(2)[symmetric] refl])+
  have "s' = (uncache_loop is s1)\<lparr>m_cache := (m_cache (uncache_loop is s1))(idx := [])\<rparr>"
    unfolding Cons.prems(3) s1_def by (simp only: uncache_loop.simps ps option.case)
  from Cons.IH[OF t1 E(1) this] have IH: "cache_ok plen l s'" "\<forall>x. x div plen \<noteq> idx \<longrightarrow> cached s' x = cached (expire_entry idx i p t) x"
    "st_files s' = st_files s1" "\<forall>i p. st_node s' i = Some p \<longrightarrow> st_node s1 i = Some p" "m_flush_tried s' = m_flush_tried s1" by auto
  have "\<not> covers p x" if "x div plen \<noteq> idx" for x using covers_piece[OF cache_okD(7)[OF ok p(1)], of x] p(2) that by auto
  then have "\<forall>x. x div plen \<noteq> idx \<longrightarrow> cached s' x = cached t x" using IH(2) E(2) by simp
  moreover have "st_node s j = Some q" if "st_node s' j = Some q" for j q
    using IH(4)[rule_format, OF that] by (simp add: s1_def split: if_splits)
  ultimately show ?case using IH(1,3,5) by (simp add: s1_def)
qed

lemma Uncache_keeps:
  assumes g: "good F w"
  shows "good F (upd_store (Uncache idx) w)" "m_cache (Uncache idx (store_of w)) idx = []"
    "content_at (Uncache idx (store_of w)) x = (if x div plen_of w = idx then byte_at (files_of w) x else content_at (store_of w) x)"
    "st_files (Uncache idx (store_of w)) = files_of w"
proof -
  let ?s = "store_of w" and ?s' = "Uncache idx (store_of w)"
  have U: "?s' = (uncache_loop (m_cache ?s idx) ?s)\<lparr>m_cache := (m_cache (uncache_loop (m_cache ?s idx) ?s))(idx := [])\<rparr>"
    by (simp add: Uncache_def Let_def)
  have t: "?s = ?s\<lparr>m_cache := (m_cache ?s)(idx := m_cache ?s idx)\<rparr>" by simp
  note L = uncache_loop_ok[OF t good_cache[OF g] U]
  show m: "m_cache ?s' idx = []" unfolding U by simp
  show "st_files ?s' = files_of w" using L by simp
  have "clean_ok ?s" using g by (simp add: good_def)
  then have cl: "clean_ok ?s'" using L unfolding clean_ok_def by metis
  have "world_okx F (upd_store (Uncache idx) w)" using g L by (intro world_ok_store) (simp_all add: good_def flat_def)
  then show "good F (upd_store (Uncache idx) w)" using g L cl by (simp add: good_def calm_def)
  have ok': "cache_ok (plen_of w) (total_len w) ?s'" using L by simp
  have "cached ?s' x = None" if "x div plen_of w = idx"
    unfolding cached_None[OF ok']
  proof (intro allI impI notI)
    fix i p assume p: "st_node ?s' i = Some p" "covers p x"
    then have "piece_nr (plen_of w) p = idx" using covers_piece[OF cache_okD(7)[OF ok' p(1)] p(2)] that by simp
    then have "i \<in> set (m_cache ?s' idx)" using cache_okD(6)[OF ok'] p(1) by blast
    then show False using m by simp
  qed
  then show "content_at ?s' x = (if x div plen_of w = idx then byte_at (files_of w) x else content_at ?s x)"
    using L by (simp add: content_at_def cong: option.case_cong)
qed

section \<open>The check of a piece\<close>

definition piece_bytes :: "u32 \<Rightarrow> world \<Rightarrow> bytes" where
  "piece_bytes idx w = map (\<lambda>x. the (content_at (store_of w) x))
     [unat idx * plen_of w..<unat idx * plen_of w + unat (GetPieceLength (c_geo (w_content w)) idx)]"

text \<open>Changes outside the store that the state of the cache does not depend on.\<close>

lemma good_outside:
  assumes g: "good F w" and w: "world_okx F w'" and s: "store_of w' = store_of w" "c_geo (w_content w') = c_geo (w_content w)"
    "flush_failed w' = flush_failed w" "w_now w' = w_now w"
  shows "good F w'"
  using g w by (simp add: good_def s calm_def)

lemma world_ok_BF: "world_okx F w \<Longrightarrow> bf_inv (npieces w) b \<Longrightarrow> world_okx F (upd_content (\<lambda>c. c\<lparr>c_BF := b\<rparr>) w)"
  by (simp add: world_okx_def content_ok_def no_failed_def Let_def upd_content_def cong: option.case_cong)

lemma GetHashValue_spec:
  assumes g: "good F w" and os: "os_fine e" and us: "usable (store_of w)" and i: "idx < npieces w" and l: "plen_of w < 4294967168"
  shows "\<exists>md w'. GetHashValue e idx w = Some (md, w') \<and> kept F w w' \<and> (md = None \<or> md = Some (fips_sha1 (piece_bytes idx w)))"
proof -
  let ?len = "GetPieceLength (c_geo (w_content w)) idx"
  define w1 where "w1 = (if length (global_piece_buffer (store_of w)) < unat (piece_length w)
    then upd_store (\<lambda>s. s\<lparr>global_piece_buffer := replicate (unat (piece_length w)) (ucast (e_junk e))\<rparr>) w else w)"
  have buf: "kept F v (upd_store (\<lambda>s. s\<lparr>global_piece_buffer := b\<rparr>) v)" if "good F v" for v b
    by (rule kept_lists[where f = "\<lambda>s. s\<lparr>global_piece_buffer := b\<rparr>", OF that]) (simp_all add: lists_def)
  have k1: "kept F w w1" using buf[OF g] kept_refl[OF g] by (simp add: w1_def)
  have s1: "usable (store_of w1)" "plen_of w \<le> length (global_piece_buffer (store_of w1))" using us by (simp_all add: w1_def usable_def)
  have fr: "framed w w1" and c1: "content_at (store_of w1) = content_at (store_of w)" using k1 by (simp_all add: kept_def)
  have len: "unat ?len \<le> plen_of w" using GetPieceLength_nat[OF good_geo[OF g] i] by simp
  have sl: "slice_in w1 idx 0 ?len" using i by (simp add: slice_in_def framed_sel(1)[OF fr])
  obtain ok out w2 where R: "ReadSlice e (Some (global_piece_buffer (store_of w1))) idx 0 ?len w1 = Some ((ok, out), w2)" "kept F w1 w2"
    "ok \<longrightarrow> map Some (take (unat ?len) out) = map (content_at (store_of w)) [start_of w idx 0..<start_of w idx 0 + unat ?len]"
    using ReadSlice_spec[OF kept_good[OF k1] os sl s1(1), of "Some (global_piece_buffer (store_of w1))"] s1(2) len
    by (auto simp: c1 framed_sel(1)[OF fr])
  let ?w3 = "upd_store (\<lambda>s. s\<lparr>global_piece_buffer := out\<rparr>) w2"
  have k3: "kept F w ?w3" by (rule kept_trans[OF kept_trans[OF k1 R(2)] buf[OF kept_good[OF R(2)]]])
  have G: "GetHashValue e idx w =
    (if \<not> ok then Some (None, ?w3) else map_option (\<lambda>md. (Some md, ?w3)) (Sha1 sha_context (take (unat ?len) out) (unat ?len)))"
    using R(1) by (simp add: GetHashValue_def Let_def w1_def[symmetric] framed_sel(1)[OF fr])
  show ?thesis
  proof (cases ok)
    case False
    then show ?thesis using G k3 by simp
  next
    case True
    have "map the (map Some (take (unat ?len) out)) = piece_bytes idx w" using R(3) True by (simp add: piece_bytes_def)
    then have o: "take (unat ?len) out = piece_bytes idx w" by simp
    have "length (piece_bytes idx w) = unat ?len" by (simp add: piece_bytes_def)
    moreover have "unat ?len < 4294967168" using len l by simp
    ultimately have "Sha1 sha_context (piece_bytes idx w) (unat ?len) = Some (fips_sha1 (piece_bytes idx w))"
      using Sha1_fips[of sha_context "piece_bytes idx w"] by (simp add: sha_context_def)
    then show ?thesis using G True k3 o by simp
  qed
qed

text \<open>
  C1: A piece is taken for complete only when its bytes have the digest of the metainfo: \<^verbatim>\<open>APieceComplete\<close> returns;
  unless reading fails (-1) its result is 1 exactly when the SHA-1 of the bytes of the piece, whether they are in the
  cache or on disk, is the entry of the hash table.  The bit of the piece is set exactly in that case, and the bytes of
  the torrent stay.  Otherwise the entries of the piece are dropped, the bytes of other pieces stay, and what is left
  of the piece is what the files hold.
\<close>

theorem piece_verified:
  assumes "good {} w" and "os_fine e" and "usable (store_of w)" and "idx < npieces w" and "plen_of w < 4294967168"
    and "\<not> IsSet (npieces w) (c_BF (w_content w)) idx"
  shows "\<exists>r w'. APieceComplete e idx w = Some (r, w') \<and> good {} w' \<and>
    (r = -1 \<or> r = (if fips_sha1 (piece_bytes idx w) = hash_entry idx w then 1 else 0)) \<and>
    c_BF (w_content w') = (if r = 1 then Set (npieces w) idx (c_BF (w_content w)) else c_BF (w_content w)) \<and>
    content_at (store_of w') =
      (if r = 1 then content_at (store_of w)
       else (\<lambda>x. if x div plen_of w = unat idx then byte_at (files_of w') x else content_at (store_of w) x))"
proof -
  obtain md w1 where H: "GetHashValue e idx w = Some (md, w1)" "kept {} w w1" "md = None \<or> md = Some (fips_sha1 (piece_bytes idx w))"
    using GetHashValue_spec[OF assms(1-5)] by blast
  have g1: "good {} w1" and fr: "framed w w1" and c1: "content_at (store_of w1) = content_at (store_of w)" using H(2) by (simp_all add: kept_def)
  note fs = framed_sel[OF fr]
  have he: "hash_entry idx w1 = hash_entry idx w" by (simp add: hash_entry_def fs(4))
  note U = Uncache_keeps[OF g1, of "unat idx"]
  let ?wu = "upd_store (Uncache (unat idx)) w1"
  have uc: "content_at (store_of v) = (\<lambda>x. if x div plen_of w = unat idx then byte_at (files_of v) x else content_at (store_of w) x)"
    if "store_of v = store_of ?wu" for v
    unfolding that by (rule ext) (simp add: U(3,4) c1 fs(1))
  show ?thesis
  proof (cases md)
    case None
    then have "APieceComplete e idx w = Some (-1, ?wu)" using assms(6) H(1) by (simp add: APieceComplete_def)
    then show ?thesis using U(1) uc[OF refl] fs(2) by simp
  next
    case (Some h)
    then have h: "h = fips_sha1 (piece_bytes idx w)" using H(3) by simp
    show ?thesis
    proof (cases "h = hash_entry idx w")
      case False
      let ?wf = "CountHashFailure ?wu"
      have "APieceComplete e idx w = Some (0, ?wf)" using assms(6) H(1) Some False he by (simp add: APieceComplete_def)
      moreover have "good {} ?wf"
        by (rule good_outside[OF U(1)]) (use U(1) in \<open>simp_all add: CountHashFailure_def upd_content_def world_okx_def good_def content_ok_def no_failed_def Let_def cong: option.case_cong\<close>)
      moreover have sf: "store_of ?wf = store_of ?wu" "c_BF (w_content ?wf) = c_BF (w_content w)"
        using fs(2) by (simp_all add: CountHashFailure_def) (simp_all add: upd_content_def)
      ultimately show ?thesis using uc[OF sf(1)] h False by simp
    next
      case True
      define w2 where "w2 = CountDL (GetPieceLength (c_geo (w_content w1)) idx) (left_minus idx (set_have idx w1))"
      have s2: "store_of w2 = store_of w1" "c_geo (w_content w2) = c_geo (w_content w1)" "flush_failed w2 = flush_failed w1" "w_now w2 = w_now w1"
        "c_BF (w_content w2) = Set (npieces w) idx (c_BF (w_content w))"
        by (simp_all add: w2_def CountDL_def left_minus_def set_have_def upd_content_def fs)
      have "bf_inv (npieces w1) (c_BF (w_content w1))" using g1 by (simp add: good_def world_okx_def content_ok_def Let_def)
      then have "bf_inv (npieces w1) (Set (npieces w1) idx (c_BF (w_content w1)))" using Set_ok assms(4) fs(1) by simp
      from world_ok_BF[OF _ this, of "{}"] have "world_okx {} w2" using g1
        by (simp add: w2_def CountDL_def left_minus_def set_have_def good_def world_okx_def upd_content_def content_ok_def no_failed_def Let_def cong: option.case_cong)
      then have g2: "good {} w2" by (rule good_outside[OF g1 _ s2(1-4)])
      have A: "APieceComplete e idx w =
        (if cfg_cache_size (store_of w2) = 0 then Some (1, w2)
         else if \<not> e_cache_mem e (st_next (store_of w2)) then map_option (\<lambda>(_, w). (1, w)) (FlushPiece e (unat idx) w2)
         else Some (1, upd_store (\<lambda>s. s\<lparr>m_flushq := m_flushq s @ [idx]\<rparr>) w2))"
        using assms(6) H(1) Some True he h by (simp add: APieceComplete_def Let_def w2_def)
      obtain ret w3 where F: "FlushPiece e (unat idx) w2 = Some (ret, w3)" "kept {} w2 w3"
        using FlushPiece_keeps[OF g2 assms(2), of "CacheConfigure e" "unat idx"] unfolding FlushPiece_def by blast
      let ?w4 = "upd_store (\<lambda>s. s\<lparr>m_flushq := m_flushq s @ [idx]\<rparr>) w2"
      have l4: "lists (store_of ?w4) = lists (store_of w2)" by (simp add: lists_def)
      have "world_okx {} ?w4" using g2 by (intro world_ok_store) (simp_all add: good_def flat_def)
      then have g4: "good {} ?w4" using g2 lists_ok[OF l4] by (simp add: good_def clean_ok_def calm_def)
      have c4: "content_at (store_of ?w4) = content_at (store_of w2)" by (rule content_cong) (use lists_ok[OF l4] in simp_all)
      have "\<exists>w'. APieceComplete e idx w = Some (1, w') \<and> good {} w' \<and> c_BF (w_content w') = c_BF (w_content w2) \<and> content_at (store_of w') = content_at (store_of w2)"
        using A F g2 g4 c4 framed_sel(2)[of w2 w3] by (auto simp: kept_def)
      then show ?thesis using s2(1,5) c1 True h by auto
    qed
  qed
qed

text \<open>The small torrent with the digest of its second piece in the hash table.\<close>

definition with_hash :: "bytes \<Rightarrow> world \<Rightarrow> world" where
  "with_hash h w = upd_content (\<lambda>c. c\<lparr>c_hash_table := h\<rparr>) w"

lemma with_hash_good: "good {} (with_hash h ex_cached)"
  by (rule good_outside[OF ex_cached_good])
    (use ex_cached_good in \<open>simp_all add: with_hash_def upd_content_def good_def world_okx_def content_ok_def no_failed_def Let_def cong: option.case_cong\<close>)

lemma ex_hash_read: "\<exists>w. GetHashValue ex_env 1 (with_hash h ex_cached) = Some (Some (fips_sha1 [50, 51, 6]), w)"
proof -
  define w1 where "w1 = upd_store (\<lambda>s. s\<lparr>global_piece_buffer := replicate 3 0xEF\<rparr>) (with_hash h ex_cached)"
  have "case ReadSlice ex_env (Some (replicate 3 0xEF)) 1 0 3 w1 of None \<Rightarrow> False | Some ((ok, out), w) \<Rightarrow> ok \<and> out = [50, 51, 6]"
    unfolding w1_def by code_simp
  then obtain w2 where R: "ReadSlice ex_env (Some (replicate 3 0xEF)) 1 0 3 w1 = Some ((True, [50, 51, 6]), w2)" by (auto split: option.splits)
  have c: "w_content (with_hash h ex_cached) = (w_content ex_cached)\<lparr>c_hash_table := h\<rparr>" by (simp add: with_hash_def upd_content_def)
  have b: "global_piece_buffer (store_of ex_cached) = []" "ucast (e_junk ex_env) = (0xEF :: u8)" "GetPieceLength (c_geo (w_content ex_cached)) 1 = 3"
    "piece_length ex_cached = 3" by code_simp+
  have w1: "upd_store (\<lambda>s. s\<lparr>global_piece_buffer := replicate 3 (ucast (e_junk ex_env))\<rparr>) (with_hash h ex_cached) = w1"
    "global_piece_buffer (store_of w1) = replicate 3 0xEF"
    "c_geo (w_content w1) = c_geo (w_content ex_cached)" by (simp_all add: w1_def b c)
  have "Sha1 sha_context [50, 51, 6] (length [50, 51, 6 :: u8]) = Some (fips_sha1 [50, 51, 6])"
    by (rule Sha1_fips) (simp_all add: sha_context_def)
  moreover have "length [50, 51, 6 :: u8] = 3" by simp
  ultimately have "Sha1 sha_context [50, 51, 6] 3 = Some (fips_sha1 [50, 51, 6])" by (simp only:)
  then show ?thesis by (simp add: GetHashValue_def c b(1,3,4) Let_def w1 R)
qed

lemma fips_length: "length (fips_sha1 m) = 20"
  by (simp add: fips_sha1_def be32_bytes_def regs_list_def split: prod.split)

theorem piece_verified_witness:
  "(let h = replicate 20 0 @ fips_sha1 [50, 51, 6] in
    case APieceComplete ex_env 1 (with_hash h ex_cached) of None \<Rightarrow> False
    | Some (r, w') \<Rightarrow> r = 1 \<and> c_BF (w_content w') = Set 4 1 (c_BF (w_content ex_cached)))"
proof -
  define h where "h = replicate 20 0 @ fips_sha1 [50, 51, 6]"
  let ?w = "with_hash h ex_cached"
  have s: "store_of ?w = store_of ex_cached" "c_geo (w_content ?w) = c_geo (w_content ex_cached)" "c_BF (w_content ?w) = c_BF (w_content ex_cached)"
    "c_hash_table (w_content ?w) = h" by (simp_all add: with_hash_def upd_content_def)
  have n: "\<not> IsSet 4 (c_BF (w_content ex_cached)) 1" "usable (store_of ex_cached)" by code_simp+
  have "piece_bytes 1 ex_cached = [50, 51, 6]" by code_simp
  then have p: "piece_bytes 1 ?w = [50, 51, 6]" by (simp add: piece_bytes_def s)
  have he: "hash_entry 1 ?w = fips_sha1 [50, 51, 6]" 
  proof -
    have "hash_entry 1 ?w = take 20 (drop 20 h)" by (simp add: hash_entry_def s(4))
    then show ?thesis by (simp add: h_def fips_length)
  qed
  obtain r w' where A: "APieceComplete ex_env 1 ?w = Some (r, w')" "r = -1 \<or> r = 1"
    "c_BF (w_content w') = (if r = 1 then Set 4 1 (c_BF (w_content ex_cached)) else c_BF (w_content ex_cached))"
    using piece_verified[OF with_hash_good ex_env_fine, of h 1] n by (auto simp: s p he)
  obtain w2 where "GetHashValue ex_env 1 ?w = Some (Some (fips_sha1 [50, 51, 6]), w2)" using ex_hash_read by blast
  then have "r \<noteq> -1" using A(1) n(1) by (auto simp: APieceComplete_def s Let_def split: if_splits option.splits prod.splits)
  then show ?thesis using A by (simp add: Let_def h_def)
qed

end
