(* ===== verification/Serve_Ok.thy ===== *)
theory Serve_Ok
  imports Serve Verify
begin

text \<open>
  What the handlers of a peer do with the contents of the torrent: a request is answered with the bytes of the torrent,
  data that was not asked for changes nothing, data that was asked for is written to its place.
\<close>

section \<open>Requests are answered with the bytes of the torrent\<close>

lemma no_disk_access_kept:
  assumes g: "good F w" shows "kept F w (no_disk_access w)"
proof -
  define f where "f = (\<lambda>s :: store. s\<lparr>st_files := (st_files s)\<lparr>g_disk_access := False\<rparr>\<rparr>)"
  have l: "lists (f (store_of w)) = lists (store_of w)" by (simp add: f_def lists_def)
  have d: "layout (st_files (f (store_of w))) = layout (files_of w)" "m_btfhead (st_files (f (store_of w))) = m_btfhead (files_of w)"
    by (simp_all add: f_def layout_def)
  then have b: "byte_at (st_files (f (store_of w))) = byte_at (files_of w)" by (intro ext) (simp add: byte_at_def)
  have fl: "flat (total_len w) (st_files (f (store_of w)))"
    using g d(1) unfolding good_def flat_def disk_ok_def by (auto simp: f_def)
  have "world_okx F (upd_store f w)" by (rule world_ok_store[where f = f]) (use g d in \<open>simp_all add: good_def flat_def\<close>)
  moreover have "clean_ok (f (store_of w))" using g b by (simp add: good_def clean_ok_def f_def)
  moreover have "calm (upd_store f w)" using g by (simp add: good_def calm_def f_def)
  ultimately have "good F (upd_store f w)" using g lists_ok[OF l] fl by (simp add: good_def)
  moreover have "framed w (upd_store f w)" by (rule framed_store[where f = f]) (simp_all add: f_def)
  moreover have "content_at (f (store_of w)) = content_at (store_of w)"
    by (rule content_cong) (use lists_ok[OF l] b in simp_all)
  ultimately show ?thesis unfolding no_disk_access_def f_def[symmetric] by (simp add: kept_def)
qed

lemma good_peer:
  assumes g: "good F w" and p: "world_okx F (upd_peer i f w)" shows "kept F w (upd_peer i f w)"
proof -
  have "good F (upd_peer i f w)" by (rule good_outside[OF g p]) simp_all
  moreover have "framed w (upd_peer i f w)" unfolding framed_def using framed_refl[of w, unfolded framed_def] by simp
  ultimately show ?thesis by (simp add: kept_def)
qed

lemma world_ok_respond_q:
  assumes "world_okx F w" and "rq_inv (w_slices w) q" shows "world_okx F (upd_peer i (\<lambda>p. p\<lparr>pr_respond_q := q\<rparr>) w)"
  by (rule world_ok_upd_same[OF assms(1)]) (use world_okD(1)[OF assms(1), of i] assms(2) in \<open>simp_all add: peer_ok_def\<close>)

text \<open>Steps that touch neither the content nor a stream.\<close>

definition aside :: "world \<Rightarrow> world \<Rightarrow> bool" where
  "aside w w' \<longleftrightarrow> w_content w' = w_content w \<and> (\<forall>j. pr_stream (peer w' j) = pr_stream (peer w j))"

lemma aside_refl [simp]: "aside w w" by (simp add: aside_def)
lemma aside_trans: "aside a b \<Longrightarrow> aside b c \<Longrightarrow> aside a c" by (simp add: aside_def)

lemma aside_upd: "aside v w \<Longrightarrow> pr_stream (f (peer w i)) = pr_stream (peer w i) \<Longrightarrow> aside v (upd_peer i f w)"
  by (simp add: aside_def)

lemma aside_CheckTime: "aside v w \<Longrightarrow> aside v (CheckTime e w)"
  by (simp add: aside_def CheckTime_def UpdateTime_def Let_def)

lemma aside_ontime: "aside v w \<Longrightarrow> aside v (set_ontime_ul b w)" "aside v w \<Longrightarrow> aside v (set_ontime_dl b w)"
  by (simp_all add: aside_def set_ontime_ul_def set_ontime_dl_def)

lemma aside_PreciseTime: "aside v w \<Longrightarrow> aside v (snd (PreciseTime e w))"
  by (simp add: aside_def PreciseTime_def)

lemma aside_rates: "aside v w \<Longrightarrow> aside v (snd (SelfRateUL e w))" "aside v w \<Longrightarrow> aside v (snd (CurrentUL e i w))"
  by (simp_all add: aside_def SelfRateUL_def CurrentUL_def PreciseTime_def case_prod_beta Let_def)

lemma aside_next_send: "aside v w \<Longrightarrow> aside v (set_next_send e len i w)"
  by (auto simp: set_next_send_def Let_def case_prod_beta intro!: aside_upd aside_rates)

lemma aside_DataSent: "aside v w \<Longrightarrow> aside v (DataSent e n t i w)"
  by (simp add: DataSent_def aside_def case_prod_beta Let_def)

text \<open>\<open>slice_bytes\<close> are the bytes of a slice, from cache and disk.\<close>

definition slice_bytes :: "u32 \<Rightarrow> u32 \<Rightarrow> u32 \<Rightarrow> world \<Rightarrow> bytes" where
  "slice_bytes idx off len w = map (\<lambda>x. the (content_at (store_of w) x)) [start_of w idx off..<start_of w idx off + unat len]"

definition piece_message :: "u32 \<Rightarrow> u32 \<Rightarrow> bytes \<Rightarrow> bytes" where
  "piece_message idx off dat = frame (BT_MSG_PIECE # put_bt_int idx @ put_bt_int off @ dat)"

lemma ensure_buffer_kept: "good F w \<Longrightarrow> kept F w (ensure_buffer e len w)"
  and buffer_kept: "good F w \<Longrightarrow> kept F w (upd_store (\<lambda>s. s\<lparr>global_piece_buffer := b\<rparr>) w)"
proof -
  have k: "kept F w (upd_store (\<lambda>s. s\<lparr>global_piece_buffer := b\<rparr>) w)" if "good F w" for b
    by (rule kept_lists[where f = "\<lambda>s. s\<lparr>global_piece_buffer := b\<rparr>", OF that]) (simp_all add: lists_def)
  then show "good F w \<Longrightarrow> kept F w (upd_store (\<lambda>s. s\<lparr>global_piece_buffer := b\<rparr>) w)" .
  from k show "good F w \<Longrightarrow> kept F w (ensure_buffer e len w)" by (simp add: ensure_buffer_def kept_refl)
qed

lemma respond_send_spec:
  assumes "st_out_ok (pr_stream (peer w i))" and "respond_send e idx off len i w = (r, w')"
  shows "store_of w' = store_of w"
    and "r = (if fst (Send_Piece (e_buf_mem e) idx off (take (unat len) (global_piece_buffer (store_of w))) (pr_stream (peer w i))) < 0 then -1 else 0)"
    and "r = 0 \<Longrightarrow> st_log (pr_stream (peer w' i)) =
      st_log (pr_stream (peer w i)) @ piece_message idx off (take (unat len) (global_piece_buffer (store_of w)))"
proof -
  let ?w1 = "upd_peer i (\<lambda>p. p\<lparr>pr_prefetch_time := 0\<rparr>) (set_next_send e len i w)"
  define w2 where "w2 = snd (PreciseTime e ?w1)"
  have a2: "aside w w2" unfolding w2_def by (intro aside_PreciseTime aside_upd aside_next_send aside_refl) simp
  let ?dat = "take (unat len) (global_piece_buffer (store_of w))"
  obtain k s3 where S: "Send_Piece (e_buf_mem e) idx off ?dat (pr_stream (peer w2 i)) = (k, s3)" by force
  define w3 where "w3 = upd_peer i (\<lambda>p. p\<lparr>pr_stream := s3\<rparr>) w2"
  have os: "on_stream i (Send_Piece (e_buf_mem e) idx off (take (unat len) (global_piece_buffer (store_of w2)))) w2 = (k, w3)"
    using S a2 by (simp add: on_stream_def w3_def aside_def)
  define w4 where "w4 = DataSent e len (fst (PreciseTime e ?w1)) i (w3\<lparr>w_upload_count := w_upload_count w3 + 1\<rparr>)"
  define w5 where "w5 = (if \<not> pr_want_again (peer w4 i) \<and> Seeding e w4 then want_again i w4 else w4)"
  have "aside w3 (w3\<lparr>w_upload_count := w_upload_count w3 + 1\<rparr>)" by (simp add: aside_def)
  then have "aside w3 w4" unfolding w4_def by (rule aside_DataSent)
  then have a5: "aside w3 w5" by (simp add: w5_def want_again_def aside_upd)
  have "respond_send e idx off len i w = (if k < 0 then (-1, w3) else (0, w5))"
    using os unfolding respond_send_def Let_def case_prod_beta w2_def[symmetric] by (simp add: w4_def w5_def)
  then have R: "r = (if k < 0 then -1 else 0)" "w' = (if k < 0 then w3 else w5)" using assms(2) by (auto split: if_splits)
  show "r = (if fst (Send_Piece (e_buf_mem e) idx off ?dat (pr_stream (peer w i))) < 0 then -1 else 0)"
    using R S a2 by (simp add: aside_def)
  have c: "w_content w3 = w_content w" using a2 by (simp add: w3_def aside_def)
  then show "store_of w' = store_of w" using R a5 by (simp add: aside_def)
  have "sends (Send_Piece (e_buf_mem e) idx off ?dat) (pr_stream (peer w2 i)) (BT_MSG_PIECE # put_bt_int idx @ put_bt_int off @ ?dat)"
    by (rule sends_Piece) (use assms(1) a2 in \<open>simp add: aside_def\<close>)
  then have "0 \<le> k \<Longrightarrow> st_log s3 = st_log (pr_stream (peer w i)) @ piece_message idx off ?dat"
    using S a2 by (simp add: sends_def piece_message_def aside_def)
  moreover have "pr_stream (peer w5 i) = s3" using a5 by (simp add: aside_def w3_def)
  ultimately show "r = 0 \<Longrightarrow> st_log (pr_stream (peer w' i)) = st_log (pr_stream (peer w i)) @ piece_message idx off ?dat"
    using R by (auto split: if_splits)
qed

lemma RespondSlice_spec:
  assumes g: "good F w" and os: "os_fine e" and us: "usable (store_of w)"
    and q: "Pop (pr_respond_q (peer w i)) = (Some s, q)" and sl: "slice_in w (sl_index s) (sl_offset s) (sl_length s)"
  shows "\<exists>r w'. RespondSlice e i w = Some (r, w') \<and> (r = 0 \<or> r = -1) \<and> content_at (store_of w') = content_at (store_of w) \<and>
    (r = 0 \<longrightarrow> (\<exists>sent. st_log (pr_stream (peer w' i)) =
       sent @ piece_message (sl_index s) (sl_offset s) (slice_bytes (sl_index s) (sl_offset s) (sl_length s) w)))"
proof -
  let ?idx = "sl_index s" and ?off = "sl_offset s" and ?len = "sl_length s"
  define w1 where "w1 = upd_peer i (\<lambda>p. p\<lparr>pr_respond_q := q\<rparr>) w"
  define w3 where "w3 = no_disk_access (ensure_buffer e ?len w1)"
  have wo: "world_okx F w" using g by (simp add: good_def)
  have "rq_inv (w_slices w) q" using Pop_ok[OF world_okD(5)[OF wo, of i]] q by simp
  from good_peer[OF g world_ok_respond_q[OF wo this, of i]] have k1: "kept F w w1" by (simp add: w1_def)
  have k2: "kept F w (ensure_buffer e ?len w1)" by (rule kept_trans[OF k1 ensure_buffer_kept[OF kept_good[OF k1]]])
  have k3: "kept F w w3" unfolding w3_def by (rule kept_trans[OF k2 no_disk_access_kept[OF kept_good[OF k2]]])
  have fr: "framed w w3" and c3: "content_at (store_of w3) = content_at (store_of w)" using k3 by (simp_all add: kept_def)
  have u3: "usable (store_of w3)" using us by (simp add: usable_def w3_def no_disk_access_def ensure_buffer_def w1_def)
  have l3: "unat ?len \<le> length (global_piece_buffer (store_of w3))" by (simp add: w3_def no_disk_access_def ensure_buffer_def)
  have s3: "slice_in w3 ?idx ?off ?len" using sl by (simp add: slice_in_def framed_sel(1)[OF fr])
  obtain ok out w4 where R: "ReadSlice e (Some (global_piece_buffer (store_of w3))) ?idx ?off ?len w3 = Some ((ok, out), w4)" "kept F w3 w4"
    "ok \<longrightarrow> map Some (take (unat ?len) out) = map (content_at (store_of w)) [start_of w ?idx ?off..<start_of w ?idx ?off + unat ?len]"
    using ReadSlice_spec[OF kept_good[OF k3] os s3 u3, of "Some (global_piece_buffer (store_of w3))"] l3
    by (auto simp: c3 framed_sel(1)[OF fr])
  define w5 where "w5 = upd_store (\<lambda>s. s\<lparr>global_piece_buffer := out\<rparr>) w4"
  have k5: "kept F w w5" unfolding w5_def by (rule kept_trans[OF kept_trans[OF k3 R(2)] buffer_kept[OF kept_good[OF R(2)]]])
  then have c5: "content_at (store_of w5) = content_at (store_of w)" and so: "st_out_ok (pr_stream (peer w5 i))"
    using world_okD(6)[of F w5 i] by (simp_all add: kept_def good_def)
  define w6 where "w6 = respond_late e w5"
  have a6: "aside w5 w6" by (simp add: w6_def respond_late_def Let_def aside_CheckTime aside_ontime)
  obtain r w7 where S: "respond_send e ?idx ?off ?len i w6 = (r, w7)" by force
  have E: "RespondSlice e i w = Some (if \<not> ok then (-1, w6) else (r, w7))"
    using R(1) S unfolding RespondSlice_def q Let_def prod.case option.case w1_def[symmetric] w3_def[symmetric]
    by (simp add: w5_def w6_def)
  show ?thesis
  proof (cases ok)
    case False
    then show ?thesis using E a6 c5 by (simp add: aside_def)
  next
    case True
    have so6: "st_out_ok (pr_stream (peer w6 i))" using so a6 by (simp add: aside_def)
    note P = respond_send_spec[OF so6 S]
    have "map the (map Some (take (unat ?len) out)) = slice_bytes ?idx ?off ?len w"
      unfolding slice_bytes_def using R(3) True by simp
    then have "take (unat ?len) (global_piece_buffer (store_of w6)) = slice_bytes ?idx ?off ?len w"
      using a6 by (simp add: aside_def w5_def)
    with P(3) have "r = 0 \<Longrightarrow> st_log (pr_stream (peer w7 i)) = st_log (pr_stream (peer w6 i)) @ piece_message ?idx ?off (slice_bytes ?idx ?off ?len w)"
      by simp
    moreover have "content_at (store_of w7) = content_at (store_of w)" using P(1) a6 c5 by (simp add: aside_def)
    ultimately show ?thesis using E True P(2) by (auto split: if_splits)
  qed
qed

section \<open>Data\<close>

lemma CheckTime_sel [simp]:
  "w_content (CheckTime e w) = w_content w" "w_peers (CheckTime e w) = w_peers w"
  by (simp_all add: CheckTime_def UpdateTime_def Let_def)

lemma same_RequestSlice [same_intros]: "same v w \<Longrightarrow> same v (snd (RequestSlice e idx off len i w))"
  by (simp add: RequestSlice_def Let_def case_prod_beta same_def on_stream_def split: prod.splits)

lemma same_CancelSliceRequest [same_intros]: "same v w \<Longrightarrow> same v (snd (CancelSliceRequest e idx off len i w))"
  by (auto simp: CancelSliceRequest_def fix_req_out_def stop_if_idle_def Let_def case_prod_beta intro!: same_intros split: option.splits)

lemma same_cancel_step:
  assumes "\<And>j u. same v u \<Longrightarrow> same v (snd (f j u))" and "same v (snd x)" shows "same v (snd (cancel_step e f i x))"
  using assms by (auto simp: cancel_step_def Let_def case_prod_beta intro!: same_intros split: prod.splits)

lemma same_CancelSlice_w [same_intros]: "same v w \<Longrightarrow> same v (snd (CancelSlice_w e idx off len w))"
proof -
  have "same v (snd x) \<Longrightarrow> same v (snd (fold (cancel_step e (CancelSliceRequest e idx off len)) is x))" for "is" x
    by (induction "is" arbitrary: x) (simp_all add: same_cancel_step same_CancelSliceRequest)
  then show "same v w \<Longrightarrow> ?thesis" by (simp add: CancelSlice_w_def)
qed

text \<open>\<open>undisturbed\<close>: the contents and the set of complete pieces are what they were.\<close>

definition undisturbed :: "world \<Rightarrow> world \<Rightarrow> bool" where
  "undisturbed w w' \<longleftrightarrow> content_at (store_of w') = content_at (store_of w) \<and> c_BF (w_content w') = c_BF (w_content w) \<and>
     c_left_bytes (w_content w') = c_left_bytes (w_content w)"

lemma undisturbed_same: "w_content w' = w_content w \<Longrightarrow> undisturbed w w'"
  by (simp add: undisturbed_def)

lemma undisturbed_trans: "undisturbed a b \<Longrightarrow> undisturbed b c \<Longrightarrow> undisturbed a c"
  by (simp add: undisturbed_def)

lemma undisturbed_access: "undisturbed w (no_disk_access w)"
proof -
  have "byte_at (d\<lparr>g_disk_access := b\<rparr>) = byte_at d" for d b by (intro ext) (simp add: byte_at_def layout_def)
  then have "content_at (s\<lparr>st_files := (st_files s)\<lparr>g_disk_access := False\<rparr>\<rparr>) = content_at s" for s
    by (intro content_cong ext) (simp_all add: cached_def cong: option.case_cong)
  then show ?thesis by (simp add: undisturbed_def no_disk_access_def upd_store_def upd_content_def)
qed

lemma undisturbed_counts: "undisturbed w (CountUnwantedBlock w)" "undisturbed w (CountDupBlock len w)"
  by (simp_all add: undisturbed_def CountUnwantedBlock_def CountDupBlock_def CountDL_def upd_content_def)

lemma after_slice_unwanted:
  "\<exists>r w'. after_slice e False False t False counted False idx len i w = Some (r, w') \<and> w_content w' = w_content w \<and>
     (\<forall>j. pr_request_q (peer w' j) = pr_request_q (peer w j))"
proof -
  define w1 where "w1 = (if counted then DataRecd len i w else w)"
  define w2 where "w2 = (if IsEmpty_q (pr_request_q (peer w1 i)) then StopDLTimer e i w1 else w1)"
  have "w_content w2 = w_content w \<and> (\<forall>j. pr_request_q (peer w2 j) = pr_request_q (peer w j))"
    by (simp add: w2_def w1_def DataRecd_def StopDLTimer_def case_prod_beta Let_def)
  moreover have "after_slice e False False t False counted False idx len i w = Some (if is_failed (CheckTime e w2) i then -1 else 0, CheckTime e w2)"
    by (simp add: after_slice_def Let_def w1_def w2_def)
  ultimately show ?thesis by simp
qed

lemma PeerError_sel [simp]:
  "w_content (snd (PeerError k i w)) = w_content w" "pr_request_q (peer (snd (PeerError k i w)) j) = pr_request_q (peer w j)"
  by (simp_all add: PeerError_def Let_def)

lemma ResetDLTimer_sel [simp]:
  "w_content (ResetDLTimer i w) = w_content w" "pr_request_q (peer (ResetDLTimer i w) j) = pr_request_q (peer w j)"
  by (simp_all add: ResetDLTimer_def)


lemma save_slice_after:
  assumes "save_slice e requested dup dat idx off len i w = x"
  shows "(case (if IsSet (npieces w) (c_BF (w_content w)) idx then Some (True, w) else WriteSlice e dat idx off len w) of
      None \<Rightarrow> x = None
    | Some (ok, v) \<Rightarrow> \<exists>res w'. x = Some (res, w') \<and> w_content w' = w_content v \<and> (ok \<longleftrightarrow> (\<exists>d. res = Some (True, d))))"
proof (cases "if IsSet (npieces w) (c_BF (w_content w)) idx then Some (True, w) else WriteSlice e dat idx off len w")
  case None
  then show ?thesis using assms by (simp add: save_slice_def)
next
  case (Some r)
  obtain ok v where r: "r = (ok, v)" by (cases r)
  show ?thesis
  proof (cases ok)
    case False
    let ?v1 = "upd_peer i (\<lambda>p. p\<lparr>pr_request_q := snd (Remove (pr_request_q p) idx off len), pr_req_out := pr_req_out p - 1\<rparr>) v"
    have c: "w_content (snd (RequestSlice e idx off len i ?v1)) = w_content v"
      using same_RequestSlice[of v ?v1] by (simp add: same_def)
    have "\<exists>res w'. x = Some (res, w') \<and> w_content w' = w_content v \<and> (\<forall>d. res \<noteq> Some (True, d))"
      unfolding assms[symmetric] save_slice_def Some r using False c
      by (simp add: Let_def case_prod_beta DataRecd_def)
    then show ?thesis unfolding Some r option.case prod.case using False by auto
  next
    case True
    let ?v1 = "upd_peer i (\<lambda>p. p\<lparr>pr_request_q := snd (Remove (pr_request_q p) idx off len),
       pr_req_out := (if requested then pr_req_out p - 1 else pr_req_out p)\<rparr>) v"
    obtain d2 v2 where D2: "(if dup \<or> w_dup_req_pieces ?v1 \<noteq> 0 \<and> IsSet (npieces ?v1) (c_BMultPeer (w_content ?v1)) idx
      then (let (r, w) = CancelSlice_w e idx off len ?v1 in (r \<noteq> 0, w)) else (dup, ?v1)) = (d2, v2)" by force
    have c2: "w_content v2 = w_content v"
      using D2 same_CancelSlice_w[of v ?v1 e idx off len] by (auto simp: same_def case_prod_beta split: if_splits)
    obtain d3 v3 where D3: "(if w_dup_req_pieces v2 \<noteq> 0 \<or> flush_failed v2
      then (let (r, q) = Remove (w_pending v2) idx off len in (d2 \<or> r, v2\<lparr>w_pending := q\<rparr>)) else (d2, v2)) = (d3, v3)" by force
    have c3: "w_content v3 = w_content v" using D3 c2 by (auto simp: case_prod_beta split: if_splits)
    have "x = Some (Some (True, d3), CheckTime e v3)"
      unfolding assms[symmetric] save_slice_def Some r using True D2 D3 by (simp add: Let_def)
    with c3 have "\<exists>d w'. x = Some (Some (True, d), w') \<and> w_content w' = w_content v" by simp
    then show ?thesis unfolding Some r option.case prod.case using True by auto
  qed
qed

text \<open>
  C5: Data that was asked for goes to its place: \<open>save_slice\<close> returns, and afterwards the bytes of the slice are those of
  the message (a prefix of them when writing fails) and all other bytes of the torrent are what they were.  A slice of a
  complete piece is not written.
\<close>

theorem delivered_slice_saved:
  assumes "good {} w" and "os_fine e" and "slice_in w idx off len" and "usable (store_of w)" and "unat len \<le> length dat"
  shows "\<exists>res w' n. save_slice e requested dup dat idx off len i w = Some (res, w') \<and> n \<le> unat len \<and>
    (IsSet (npieces w) (c_BF (w_content w)) idx \<longrightarrow> n = 0) \<and>
    (\<not> IsSet (npieces w) (c_BF (w_content w)) idx \<longrightarrow> (\<exists>d. res = Some (True, d)) \<longrightarrow> n = unat len) \<and>
    c_BF (w_content w') = c_BF (w_content w) \<and>
    content_at (store_of w') = (\<lambda>x. if start_of w idx off \<le> x \<and> x < start_of w idx off + n
      then Some (dat ! (x - start_of w idx off)) else content_at (store_of w) x)"
proof -
  note S = save_slice_after[OF refl, where w = w and idx = idx and e = e and dat = dat and off = off and len = len and requested = requested and dup = dup and i = i]
  show ?thesis
  proof (cases "IsSet (npieces w) (c_BF (w_content w)) idx")
    case True
    then obtain d w' where "save_slice e requested dup dat idx off len i w = Some (Some (True, d), w')" "w_content w' = w_content w"
      using S by auto
    moreover have "f = (\<lambda>x. if a \<le> x \<and> x < a + (0 :: nat) then g x else f x)" for f g :: "nat \<Rightarrow> u8 option" and a by (intro ext) auto
    ultimately show ?thesis using True by (intro exI[of _ "Some (True, d)"] exI[of _ w'] exI[of _ 0]) simp
  next
    case False
    obtain ok v n where W: "WriteSlice e dat idx off len w = Some (ok, v)" "n \<le> unat len" "ok \<longrightarrow> n = unat len" "framed w v"
      "content_at (store_of v) = overlay (start_of w idx off) n dat (content_at (store_of w))"
      using WriteSlice_spec[OF assms] by blast
    then obtain res w' where "save_slice e requested dup dat idx off len i w = Some (res, w')" "w_content w' = w_content v"
      "ok \<longleftrightarrow> (\<exists>d. res = Some (True, d))" using S False by auto
    then show ?thesis using W False framed_sel(2)[OF W(4)]
      by (intro exI[of _ res] exI[of _ w'] exI[of _ n]) (simp add: overlay_def)
  qed
qed

text \<open>
  C6: A request is answered with the bytes of the torrent: \<^verbatim>\<open>RespondSlice\<close> returns and changes no byte, and when it
  returns 0 the last thing sent is a well-formed PIECE message with the index and offset of the first request queued and
  exactly the bytes of that slice, from the cache where they are not yet on disk.
\<close>

theorem request_answered:
  assumes "good {} w" and "os_fine e" and "usable (store_of w)" and "fst (Pop (pr_respond_q (peer w i))) = Some s"
    and "slice_in w (sl_index s) (sl_offset s) (sl_length s)"
  shows "\<exists>r w'. RespondSlice e i w = Some (r, w') \<and> (r = 0 \<or> r = -1) \<and> content_at (store_of w') = content_at (store_of w) \<and>
    (r = 0 \<longrightarrow> (\<exists>sent. st_log (pr_stream (peer w' i)) =
       sent @ piece_message (sl_index s) (sl_offset s) (slice_bytes (sl_index s) (sl_offset s) (sl_length s) w)))"
  using RespondSlice_spec[OF assms(1-3) _ assms(5)] assms(4) by (cases "Pop (pr_respond_q (peer w i))") simp

section \<open>Closed instances\<close>

definition ex_asked :: world where
  "ex_asked = (let (_, a, q) = Add (\<lambda>_. True) 0 rq_new 1 0 3
     in (upd_peer 1 (\<lambda>p. p\<lparr>pr_respond_q := q\<rparr>) ex_cached)\<lparr>w_slices := a\<rparr>)"

lemma ex_asked_good: "good {} ex_asked"
proof -
  obtain ok a q where A: "Add (\<lambda>_. True) 0 rq_new 1 0 3 = (ok, a, q)" by (cases "Add (\<lambda>_. True) 0 rq_new 1 0 3") auto
  have wo: "world_okx {} ex_cached" using ex_cached_good by (simp add: good_def)
  have z: "w_slices ex_cached = 0" by (simp add: ex_cached_def ex_world_def)
  have "rq_inv 0 rq_new" by (simp add: rq_new_def rq_inv_def all_slices_def)
  then have "rq_inv a q" using Add_ok[OF _ A] by simp
  then have "world_okx {} ((upd_peer 1 (\<lambda>p. p\<lparr>pr_respond_q := q\<rparr>) ex_cached)\<lparr>w_slices := a\<rparr>)"
    using peer_ok_mono[OF world_okD(1)[OF wo, of 1], of a] z by (intro world_ok_upd[OF wo]) (simp_all add: peer_ok_def)
  then show ?thesis unfolding ex_asked_def A
    by (simp add: good_outside[OF ex_cached_good])
qed

lemma ex_asked_answered: "\<exists>w'. RespondSlice ex_env 1 ex_asked = Some (0, w')"
proof -
  define v where "v = no_disk_access (ensure_buffer ex_env 3 (upd_peer 1 (\<lambda>p. p\<lparr>pr_respond_q := rq_new\<rparr>) ex_asked))"
  have "(case Pop (pr_respond_q (peer ex_asked 1)) of (x, q) \<Rightarrow> x = Some (new_slice 0 1 0 3) \<and> q = rq_new)" by code_simp
  then have q: "Pop (pr_respond_q (peer ex_asked 1)) = (Some (new_slice 0 1 0 3), rq_new)" by (simp split: prod.splits)
  have "(case ReadSlice ex_env (Some (global_piece_buffer (store_of v))) 1 0 3 v of None \<Rightarrow> False
    | Some ((ok, buf), w) \<Rightarrow> ok \<and> 0 \<le> fst (Send_Piece (e_buf_mem ex_env) 1 0 (take (unat (3 :: u32)) buf) (pr_stream (peer w 1))) \<and>
        buf_inv (out_buffer (pr_stream (peer w 1))) \<and> m_valid (out_buffer (pr_stream (peer w 1))))"
    unfolding v_def by code_simp
  then obtain buf w where R: "ReadSlice ex_env (Some (global_piece_buffer (store_of v))) 1 0 3 v = Some ((True, buf), w)"
    "0 \<le> fst (Send_Piece (e_buf_mem ex_env) 1 0 (take (unat (3 :: u32)) buf) (pr_stream (peer w 1)))"
    "buf_inv (out_buffer (pr_stream (peer w 1)))" by (auto split: option.splits)
  define u where "u = respond_late ex_env (upd_store (\<lambda>s. s\<lparr>global_piece_buffer := buf\<rparr>) w)"
  have u: "aside (upd_store (\<lambda>s. s\<lparr>global_piece_buffer := buf\<rparr>) w) u" by (simp add: u_def respond_late_def Let_def aside_CheckTime aside_ontime)
  have so: "st_out_ok (pr_stream (peer u 1))" using u R(3) by (simp add: aside_def st_out_ok_def)
  obtain r w' where S: "respond_send ex_env 1 0 3 1 u = (r, w')" by force
  have "r = 0" using respond_send_spec(2)[OF so S] u R(2) by (simp add: aside_def)
  then show ?thesis using R(1) S unfolding RespondSlice_def q Let_def prod.case option.case
    by (simp add: new_slice_def v_def u_def)
qed

theorem request_answered_witness:
  "(case RespondSlice ex_env 1 ex_asked of None \<Rightarrow> False
    | Some (r, w') \<Rightarrow> r = 0 \<and> (\<exists>sent. st_log (pr_stream (peer w' 1)) = sent @ [0, 0, 0, 12, 7, 0, 0, 0, 1, 0, 0, 0, 0, 50, 51, 6]))"
proof -
  have s: "usable (store_of ex_asked)" "slice_in ex_asked 1 0 3" by code_simp+
  have q: "fst (Pop (pr_respond_q (peer ex_asked 1))) = Some (new_slice 0 1 0 3)" by code_simp
  have m: "piece_message 1 0 (slice_bytes 1 0 3 ex_asked) = [0, 0, 0, 12, 7, 0, 0, 0, 1, 0, 0, 0, 0, 50, 51, 6]" by code_simp
  have f: "sl_index (new_slice 0 1 0 3) = 1" "sl_offset (new_slice 0 1 0 3) = 0" "sl_length (new_slice 0 1 0 3) = 3"
    by (simp_all add: new_slice_def)
  from request_answered[OF ex_asked_good ex_env_fine s(1) q, unfolded f, OF s(2)] ex_asked_answered m show ?thesis by auto
qed

theorem delivered_slice_saved_witness:
  "(case save_slice ex_env True False [60, 61] 1 1 2 1 ex_cached of None \<Rightarrow> False
    | Some (res, w') \<Rightarrow> res = Some (True, False) \<and> map (content_at (store_of w')) [2..<7] = [Some 3, Some 50, Some 60, Some 61, Some 7])"
proof -
  have s: "slice_in ex_cached 1 1 2" "usable (store_of ex_cached)" by code_simp+
  have r: "map_option fst (save_slice ex_env True False [60, 61] 1 1 2 1 ex_cached) = Some (Some (True, False))" by code_simp
  have n: "\<not> IsSet (npieces ex_cached) (c_BF (w_content ex_cached)) 1" by code_simp
  have c: "start_of ex_cached 1 1 = 4" "map (content_at (store_of ex_cached)) [2..<7] = [Some 3, Some 50, Some 51, Some 6, Some 7]" by code_simp+
  from delivered_slice_saved[OF ex_cached_good ex_env_fine s, of "[60, 61]" True False 1] n r obtain w' where
    "save_slice ex_env True False [60, 61] 1 1 2 1 ex_cached = Some (Some (True, False), w')"
    "content_at (store_of w') = (\<lambda>x. if 4 \<le> x \<and> x < 6 then Some ([60, 61] ! (x - 4)) else content_at (store_of ex_cached) x)"
    unfolding c(1) by auto
  moreover have "[2..<7] = [2, 3, 4, 5, 6 :: nat]" by code_simp
  ultimately show ?thesis using c(2) by simp
qed


end
