(* ===== verification/Peer_Props.thy ===== *)
theory Peer_Props
  imports World_Ok
begin

text \<open>
  Properties of the peers: the number of outstanding requests is right, interest and piece selection
  compute the sets they stand for, and errors close connections.
\<close>

section \<open>Counting outstanding requests\<close>

lemma u32_pred: "0 < (x :: u32) \<Longrightarrow> unat (x - 1) = unat x - 1"
  using u32_diff[of 1 x] by (simp add: u32_le_iff u32_less_iff)

lemma u32_pred_le: "0 < (x :: u32) \<Longrightarrow> x \<le> m \<Longrightarrow> x - 1 \<le> m"
  by (simp add: u32_le_iff u32_pred)

definition sent_count :: "slice list \<Rightarrow> nat" where
  "sent_count ss = length (filter sl_sent ss)"

lemma sent_count_simps [simp]:
  "sent_count [] = 0" "sent_count (s # ss) = (if sl_sent s then 1 else 0) + sent_count ss"
  "sent_count (xs @ ys) = sent_count xs + sent_count ys"
  by (simp_all add: sent_count_def)

text \<open>\<^verbatim>\<open>m_req_out\<close> is the number of slices marked as sent, and small enough not to be reset.\<close>

definition counted :: "nat \<Rightarrow> world \<Rightarrow> bool" where
  "counted i w \<longleftrightarrow> unat (pr_req_out (peer w i)) = sent_count (all_slices (pr_request_q (peer w i))) \<and>
     pr_req_out (peer w i) \<le> MaxReqQueueLength w"

lemma on_stream_peer:
  assumes "on_stream i f w = (r, w')"
  shows "pr_req_out (peer w' i) = pr_req_out (peer w i)" "pr_request_q (peer w' i) = pr_request_q (peer w i)"
    "w_content w' = w_content w"
  using assms by (auto elim!: on_streamE)

lemma cancel_one_counts:
  assumes c: "cancel_one e i idx s w = (r, w')" "0 \<le> r"
    and out: "0 < pr_req_out (peer w i)" "pr_req_out (peer w i) \<le> MaxReqQueueLength w"
  shows "pr_req_out (peer w' i) = pr_req_out (peer w i) - 1" "pr_request_q (peer w' i) = pr_request_q (peer w i)"
    "w_content w' = w_content w"
proof -
  obtain r1 w1 where S: "on_stream i (Send_Cancel (e_buf_mem e) idx (sl_offset s) (sl_length s)) w = (r1, w1)" by force
  note O = on_stream_peer[OF S]
  have "pr_req_out (peer w i) - 1 \<le> MaxReqQueueLength w"
    by (rule u32_pred_le[OF out])
  then have "fix_req_out i (upd_peer i (\<lambda>p. p\<lparr>pr_req_out := pr_req_out p - 1\<rparr>) w1) = upd_peer i (\<lambda>p. p\<lparr>pr_req_out := pr_req_out p - 1\<rparr>) w1"
    using O by (simp add: fix_req_out_def MaxReqQueueLength_def not_less)
  then have "w' = upd_peer i (\<lambda>p. p\<lparr>pr_cancel_time := w_now w1\<rparr>) (upd_peer i (\<lambda>p. p\<lparr>pr_req_out := pr_req_out p - 1\<rparr>) w1)"
    using c S by (auto simp: cancel_one_def Let_def split: if_splits)
  then show "pr_req_out (peer w' i) = pr_req_out (peer w i) - 1" "pr_request_q (peer w' i) = pr_request_q (peer w i)"
    "w_content w' = w_content w"
    using O by simp_all
qed

lemma cancel_piece_loop_counts:
  assumes "cancel_piece_loop e i idx ss w = (r, w')" "0 \<le> r" "sent_count ss \<le> unat (pr_req_out (peer w i))"
    "pr_req_out (peer w i) \<le> MaxReqQueueLength w"
  shows "unat (pr_req_out (peer w' i)) = unat (pr_req_out (peer w i)) - sent_count ss \<and>
    pr_request_q (peer w' i) = pr_request_q (peer w i) \<and> w_content w' = w_content w"
  using assms
proof (induction ss arbitrary: idx w)
  case (Cons s ss)
  show ?case
  proof (cases "sl_sent s")
    case False
    then show ?thesis using Cons by (simp add: Let_def)
  next
    case True
    obtain r1 w1 where C: "cancel_one e i idx s w = (r1, w1)" by force
    have r1: "0 \<le> r1" using Cons.prems(1,2) True C by (auto simp: Let_def split: if_splits)
    have pos: "0 < pr_req_out (peer w i)" using Cons.prems(3) True by (simp add: u32_less_iff)
    note C' = cancel_one_counts[OF C r1 pos Cons.prems(4)]
    have u: "unat (pr_req_out (peer w i) - 1) = unat (pr_req_out (peer w i)) - 1"
      by (rule u32_pred[OF pos])
    have "pr_req_out (peer w i) - 1 \<le> MaxReqQueueLength w" by (rule u32_pred_le[OF pos Cons.prems(4)])
    moreover have "cancel_piece_loop e i (case ss of [] \<Rightarrow> idx | t # _ \<Rightarrow> sl_index t) ss w1 = (r, w')"
      using Cons.prems(1,2) True C r1 by (simp add: Let_def)
    ultimately show ?thesis using Cons.IH[of _ w1] C' u Cons.prems(2,3) True
      by (simp add: MaxReqQueueLength_def)
  qed
qed simp

lemma stop_if_idle_counts [simp]:
  "pr_req_out (peer (stop_if_idle e i w) j) = pr_req_out (peer w j)"
  "pr_request_q (peer (stop_if_idle e i w) j) = pr_request_q (peer w j)"
  "w_content (stop_if_idle e i w) = w_content w"
  by (simp_all add: stop_if_idle_def StopDLTimer_def)

lemma DontWait_content [simp]: "w_content (DontWaitDL i w) = w_content w" "w_content (DontWaitUL i w) = w_content w"
  by (simp_all add: DontWaitDL_def DontWaitUL_def)

lemma sent_count_flat: "sent_count (flat (before @ p # after)) = sent_count (flat (before @ after)) + sent_count (p_slices p)"
  by simp

lemma all_slices_send [simp]: "all_slices (q\<lparr>rq_send := x\<rparr>) = all_slices q"
  by (simp add: all_slices_def)

lemma FindSlice_split:
  assumes "FindSlice q idx off len = Some s"
  obtains before p after u v where "FindPiece idx (rq_head q) = (before, p # after)" "rq_head q = before @ p # after"
    "find_in_piece idx off len (p_slices p) = (u, s # v)" "p_slices p = u @ s # v"
proof (cases rule: FindPiece_cases[of idx "rq_head q"])
  case (some before p after)
  note P = this
  show thesis
  proof (cases rule: find_in_piece_cases[of idx off len "p_slices p"])
    case (some u t v)
    then show thesis using that[of before p after u v] P assms by (simp add: FindSlice_def)
  qed (use assms P in \<open>simp add: FindSlice_def\<close>)
qed (use assms in \<open>simp add: FindSlice_def\<close>)

lemma sent_count_Sent_slice:
  assumes inv: "rq_inv a q" and s: "s \<in> set (all_slices q)" "\<not> sl_sent s"
  shows "sent_count (all_slices (Sent_slice q t (sl_addr s))) = sent_count (all_slices q) + 1"
proof -
  have d: "distinct (map sl_addr (all_slices q))" using head_ok_distinct[OF rq_invD(1)[OF inv]] by (simp add: all_slices_def)
  obtain xs ys where sp: "all_slices q = xs @ s # ys" using s(1) by (meson split_list)
  have "sl_addr s \<notin> sl_addr ` set xs" "sl_addr s \<notin> sl_addr ` set ys" using d sp by simp_all
  then have "sl_addr x \<noteq> sl_addr s" if "x \<in> set xs \<union> set ys" for x using that by (metis UnE imageI)
  then have "map (\<lambda>x. if sl_addr x = sl_addr s then f x else x) xs = xs"
    "map (\<lambda>x. if sl_addr x = sl_addr s then f x else x) ys = ys" for f
    by (auto intro: map_idI)
  moreover have "all_slices (Sent_slice q t (sl_addr s)) =
      map (\<lambda>x. if sl_addr x = sl_addr s then x\<lparr>sl_reqtime := t, sl_sent := True\<rparr> else x) (all_slices q)"
    by (simp add: Sent_slice_def Let_def all_slices_send all_slices_upd)
  ultimately show ?thesis using sp s(2) by simp
qed

lemma counted_DontWait [simp]: "counted i (DontWaitDL j w) = counted i w"
  by (simp add: counted_def MaxReqQueueLength_def)

lemma CancelPiece_counts:
  assumes c: "counted i w" and r: "CancelPiece e piece i w = (r, w')" "0 \<le> r"
  shows "counted i w' \<and> (0 < r \<longleftrightarrow> HasPiece (pr_request_q (peer w i)) piece)"
proof (cases rule: FindPiece_cases[of piece "rq_head (pr_request_q (peer w i))"])
  case none
  then show ?thesis using c r by (simp add: CancelPiece_def HasPiece_def)
next
  case (some before p after)
  let ?q = "pr_request_q (peer w i)"
  obtain r1 w1 where L: "cancel_piece_loop e i (e_junk e) (p_slices p) w = (r1, w1)" by force
  have n: "sent_count (all_slices ?q) = sent_count (flat (before @ after)) + sent_count (p_slices p)"
    by (simp add: all_slices_def some(2) sent_count_flat)
  have r1: "0 \<le> r1" using r some L by (auto simp: CancelPiece_def split: if_splits)
  note C = cancel_piece_loop_counts[OF L r1]
  define w2 where "w2 = stop_if_idle e i (upd_peer i (\<lambda>p. p\<lparr>pr_request_q := snd (Delete (pr_request_q p) piece)\<rparr>) w1)"
  have w': "w' = (if pr_req_out (peer w2 i) = 0 then DontWaitDL i w2 else w2)" "r = 1"
    using r some L r1 by (auto simp: CancelPiece_def Let_def w2_def split: if_splits)
  have "all_slices (snd (Delete ?q piece)) = flat (before @ after)"
    using some by (simp add: Delete_def all_slices_def)
  moreover have "pr_req_out (peer w1 i) \<le> pr_req_out (peer w i)" using C c n by (simp add: counted_def u32_le_iff)
  moreover from this c have "pr_req_out (peer w1 i) \<le> MaxReqQueueLength w"
    unfolding counted_def by (meson order_trans)
  ultimately have "counted i w2" using C c n by (simp add: counted_def w2_def MaxReqQueueLength_def)
  then show ?thesis using w' some by (auto simp: HasPiece_def)
qed

lemma CancelSliceRequest_counts:
  assumes c: "counted i w" and r: "CancelSliceRequest e idx off len i w = (r, w')" "0 \<le> r"
  shows "counted i w' \<and> (0 < r \<longleftrightarrow> HasSlice (pr_request_q (peer w i)) idx off len)"
proof (cases "FindSlice (pr_request_q (peer w i)) idx off len")
  case None
  then show ?thesis using c r by (simp add: CancelSliceRequest_def HasSlice_def)
next
  case (Some s)
  let ?q = "pr_request_q (peer w i)"
  obtain before p after u v where fp: "FindPiece idx (rq_head ?q) = (before, p # after)" "rq_head ?q = before @ p # after"
    and fs: "find_in_piece idx off len (p_slices p) = (u, s # v)" "p_slices p = u @ s # v"
    by (rule FindSlice_split[OF Some])
  have n: "sent_count (all_slices ?q) = sent_count (all_slices (snd (Remove ?q idx off len))) + sent_count [s]"
    using fp fs by (simp add: Remove_def all_slices_def Let_def)
  obtain r1 w1 where S: "(if sl_sent s then
         (let (r, w) = cancel_one e i idx s w
          in (r, if 0 \<le> r \<and> pr_req_out (peer w i) = 0 then DontWaitDL i w else w))
       else (0, w)) = (r1, w1)" by force
  have r1: "0 \<le> r1" and w': "w' = stop_if_idle e i (upd_peer i (\<lambda>p. p\<lparr>pr_request_q := snd (Remove (pr_request_q p) idx off len)\<rparr>) w1)" "r = 1"
    using r Some S by (auto simp: CancelSliceRequest_def split: if_splits)
  have "unat (pr_req_out (peer w1 i)) = unat (pr_req_out (peer w i)) - sent_count [s] \<and>
    pr_req_out (peer w1 i) \<le> MaxReqQueueLength w \<and> pr_request_q (peer w1 i) = ?q \<and> w_content w1 = w_content w"
  proof (cases "sl_sent s")
    case True
    obtain r2 w2 where C: "cancel_one e i idx s w = (r2, w2)" by force
    have pos: "0 < pr_req_out (peer w i)" using c n True by (simp add: counted_def u32_less_iff)
    have "pr_req_out (peer w i) \<le> MaxReqQueueLength w" using c by (simp add: counted_def)
    note C' = cancel_one_counts[OF C _ pos this] and le = u32_pred_le[OF pos this]
    show ?thesis using S C C' le True r1 u32_pred[OF pos] by (auto split: if_splits)
  qed (use S c in \<open>auto simp: counted_def\<close>)
  then show ?thesis using w' c n Some by (auto simp: counted_def MaxReqQueueLength_def HasSlice_def)
qed

lemma PutPending_counts: "world_okx F w \<Longrightarrow> counted i (PutPending e i w)"
proof -
  assume "world_okx F w"
  then have "rq_head (pr_request_q (peer (PutPending e i w) i)) = []" using PutPending_empty by (simp add: IsEmpty_q_def)
  moreover have "pr_req_out (peer (PutPending e i w) i) = 0" by (simp add: PutPending_def Let_def)
  ultimately show ?thesis by (simp add: counted_def all_slices_def)
qed

text \<open>\<^verbatim>\<open>CancelRequest\<close> cancels the leading slices that were sent.\<close>

lemma cancel_all_loop_counts:
  assumes "cancel_all_loop e i ss w = (r, w')" "0 \<le> r" "sent_count (takeWhile sl_sent ss) \<le> unat (pr_req_out (peer w i))"
    "pr_req_out (peer w i) \<le> MaxReqQueueLength w"
  shows "unat (pr_req_out (peer w' i)) = unat (pr_req_out (peer w i)) - sent_count (takeWhile sl_sent ss) \<and>
    pr_request_q (peer w' i) = pr_request_q (peer w i) \<and> w_content w' = w_content w"
  using assms
proof (induction ss arbitrary: w)
  case (Cons s ss)
  show ?case
  proof (cases "sl_sent s")
    case False
    then show ?thesis using Cons.prems by simp
  next
    case True
    obtain r1 w1 where C: "cancel_one e i (sl_index s) s w = (r1, w1)" by force
    have r1: "0 \<le> r1" using Cons.prems(1,2) True C by (auto split: if_splits)
    have pos: "0 < pr_req_out (peer w i)" using Cons.prems(3) True by (simp add: u32_less_iff)
    note C' = cancel_one_counts[OF C r1 pos Cons.prems(4)] and u = u32_pred[OF pos]
    have "cancel_all_loop e i ss w1 = (r, w')" using Cons.prems(1,2) True C r1 by simp
    then show ?thesis using Cons.IH[of w1] C' u Cons.prems(2,3) True u32_pred_le[OF pos Cons.prems(4)]
      by (simp add: MaxReqQueueLength_def)
  qed
qed simp

definition sent_first :: "slice list \<Rightarrow> bool" where
  "sent_first ss \<longleftrightarrow> sent_count (dropWhile sl_sent ss) = 0"

lemma CancelRequest_counts:
  assumes c: "counted i w" and f: "sent_first (all_slices (pr_request_q (peer w i)))"
    and r: "CancelRequest e i w = (r, w')" "0 \<le> r"
  shows "pr_req_out (peer w' i) = 0 \<and> w_content w' = w_content w"
proof -
  let ?ss = "all_slices (pr_request_q (peer w i))"
  have n: "sent_count ?ss = sent_count (takeWhile sl_sent ?ss)"
    using f sent_count_simps(3)[of "takeWhile sl_sent ?ss" "dropWhile sl_sent ?ss"] by (simp add: sent_first_def)
  obtain r1 w1 where L: "cancel_all_loop e i ?ss w = (r1, w1)" by force
  have r1: "0 \<le> r1" using r L by (auto simp: CancelRequest_def split: if_splits)
  have "unat (pr_req_out (peer w1 i)) = 0 \<and> w_content w1 = w_content w"
    using cancel_all_loop_counts[OF L r1] c n by (simp add: counted_def)
  then show ?thesis using r L r1 by (auto simp: CancelRequest_def unat_eq_0 split: if_splits)
qed

text \<open>A new request is not sent, and it is the one found.\<close>

lemma sent_count_Add:
  assumes "Add mem a q idx off len = (ok, a', q')"
  shows "sent_count (all_slices q') = sent_count (all_slices q)"
  using assms by (cases rule: FindPiece_cases[of idx "rq_head q"])
    (auto simp: Add_def Let_def all_slices_def new_slice_def split: if_splits)

lemma FindSlice_Add:
  assumes A: "Add mem a q idx off len = (True, a', q')" and new: "\<not> HasSlice q idx off len"
  shows "FindSlice q' idx off len = Some (new_slice a idx off len)"
proof -
  have req: "is_request idx off len (new_slice a idx off len)" by (simp add: is_request_def new_slice_def)
  show ?thesis
  proof (cases rule: FindPiece_cases[of idx "rq_head q"])
    case none
    have idx: "p_index \<lparr>p_count = 1, p_slices = [new_slice a idx off len]\<rparr> = idx" by (simp add: new_slice_def)
    have "rq_head q' = rq_head q @ [\<lparr>p_count = 1, p_slices = [new_slice a idx off len]\<rparr>]"
      using A none by (auto simp: Add_def Let_def split: if_splits)
    then show ?thesis using none(2) idx req
      by (simp add: FindSlice_def FindPiece_def dropWhile_append2 find_in_piece_def)
  next
    case (some before p after)
    let ?p = "p\<lparr>p_count := p_count p + 1, p_slices := p_slices p @ [new_slice a idx off len]\<rparr>"
    have "\<forall>s\<in>set (p_slices p). \<not> is_request idx off len s"
      using new some(1) by (auto simp: HasSlice_def FindSlice_def dropWhile_eq_Nil_conv find_in_piece_def split: list.splits)
    then have f: "find_in_piece idx off len (p_slices ?p) = (p_slices p, [new_slice a idx off len])"
      using req by (simp add: find_in_piece_def takeWhile_append2 dropWhile_append2)
    have "p_index ?p = idx" using some(3) by (cases "p_slices p") (simp_all add: new_slice_def)
    moreover have "rq_head q' = before @ ?p # after" using A some by (auto simp: Add_def Let_def split: if_splits)
    ultimately show ?thesis using some(4) f by (simp add: FindSlice_def FindPiece_def dropWhile_append2)
  qed
qed

lemma FindSlice_in: "FindSlice q idx off len = Some s \<Longrightarrow> s \<in> set (all_slices q)"
  by (erule FindSlice_split) (auto simp: all_slices_def)

lemma RequestSlice_counts:
  assumes ok: "world_okx F w" and c: "counted i w" and out: "pr_req_out (peer w i) < MaxReqQueueLength w"
    and new: "\<not> HasSlice (pr_request_q (peer w i)) idx off len"
    and r: "RequestSlice e idx off len i w = (r, w')" "0 \<le> r"
  shows "counted i w'"
proof -
  let ?q = "pr_request_q (peer w i)"
  obtain r1 a q where R: "Requeue (e_mem e) (w_slices w) ?q idx off len = (r1, a, q)" by (metis prod_cases3)
  define v where "v = (upd_peer i (\<lambda>p. p\<lparr>pr_request_q := q\<rparr>) w)\<lparr>w_slices := a\<rparr>"
  have r1: "0 \<le> r1" using r R by (auto simp: RequestSlice_def Let_def split: if_splits)
  obtain ok1 q1 where A: "Add (e_mem e) (w_slices w) ?q idx off len = (ok1, a, q1)" and q: "q = q1\<lparr>rq_send := rq_send ?q\<rparr>" and ok1
    using R r1 by (auto simp: Requeue_def Let_def split: prod.splits if_splits)
  have n: "sent_count (all_slices q) = sent_count (all_slices ?q)" using sent_count_Add[OF A] q by simp
  have v: "pr_request_q (peer v i) = q" "pr_req_out (peer v i) = pr_req_out (peer w i)" "w_content v = w_content w"
    by (simp_all add: v_def)
  show ?thesis
  proof (cases "r1 = 0")
    case True
    then have "w' = v" using r R by (simp add: RequestSlice_def Let_def v_def)
    then show ?thesis using c v n by (simp add: counted_def MaxReqQueueLength_def)
  next
    case False
    obtain r2 w2 where S: "on_stream i (Send_Request (e_buf_mem e) idx off len) v = (r2, w2)" by force
    note O = on_stream_peer[OF S]
    have w': "w' = upd_peer i (\<lambda>p. p\<lparr>pr_request_q := Sent_req (pr_request_q p) 0 idx off len,
        pr_req_out := pr_req_out p + 1, pr_receive_time := w_now w2\<rparr>) w2"
      using r R False r1 S by (auto simp: RequestSlice_def Let_def v_def split: if_splits)
    have f: "FindSlice q idx off len = Some (new_slice (w_slices w) idx off len)"
      using FindSlice_Add[OF A[unfolded \<open>ok1\<close>[THEN eqTrueI]] new] q by (simp add: FindSlice_def)
    have "rq_inv a q" using Requeue_ok[OF world_okD(4)[OF ok] R] by simp
    then have "sent_count (all_slices (Sent_req q 0 idx off len)) = sent_count (all_slices q) + 1"
      using sent_count_Sent_slice[OF _ FindSlice_in[OF f], of a 0] f by (simp add: Sent_req_def new_slice_def)
    moreover have "unat (pr_req_out (peer w i) + 1) = unat (pr_req_out (peer w i)) + 1"
    proof -
      have "unat (pr_req_out (peer w i)) + unat (1 :: u32) < 4294967296"
        using out unat_u32_lt[of "MaxReqQueueLength w"] unfolding u32_less_iff unat_1 by linarith
      from u32_add[OF this] show ?thesis by simp
    qed
    moreover from this have "pr_req_out (peer w i) + 1 \<le> MaxReqQueueLength w"
      using out by (simp add: u32_le_iff u32_less_iff)
    ultimately show ?thesis using w' O v c n by (simp add: counted_def MaxReqQueueLength_def)
  qed
qed

lemma send_state_counts: "send_state e s i w = (r, w') \<Longrightarrow> counted i w' = counted i w"
  by (auto simp: send_state_def counted_def MaxReqQueueLength_def case_prod_beta on_stream_def)

lemma NotInterested_counts:
  assumes c: "counted i w" and r: "SetLocal e BT_MSG_NOT_INTERESTED i w = (r, w')" "0 \<le> r"
    and f: "sent_first (all_slices (pr_request_q (peer w i)))"
  shows "counted i w'"
proof -
  define w1 where "w1 = upd_peer i (\<lambda>p. p\<lparr>local_interested := False\<rparr>) w"
  have c1: "counted i w1" "pr_request_q (peer w1 i) = pr_request_q (peer w i)"
    using c by (simp_all add: w1_def counted_def MaxReqQueueLength_def)
  obtain r2 w2 where C: "CancelRequest e i w1 = (r2, w2)" by force
  define w3 where "w3 = upd_peer i (\<lambda>p. p\<lparr>pr_request_q := Empty_q (pr_request_q p)\<rparr>) w2"
  have "counted i w3" if "0 \<le> r2"
    using CancelRequest_counts[OF c1(1) _ C that] f c1(2)
    by (simp add: w3_def counted_def all_slices_def Empty_q_def)
  moreover have "w' = w \<or> send_state e BT_MSG_NOT_INTERESTED i w1 = (r, w') \<or>
      (0 \<le> r2 \<and> send_state e BT_MSG_NOT_INTERESTED i w3 = (r, w'))"
    using r C unfolding SetLocal_def by (auto simp: w1_def w3_def Let_def split: if_splits)
  ultimately show ?thesis using c c1(1) send_state_counts by metis
qed

section \<open>Properties\<close>



section \<open>Sets of pieces\<close>

definition connected :: "world \<Rightarrow> nat set" where
  "connected w = {i \<in> set (w_head w). is_success w i}"

definition has :: "world \<Rightarrow> nat \<Rightarrow> nat set" where
  "has w i = bf_set (npieces w) (pr_bitfield (peer w i))"

definition queued :: "world \<Rightarrow> nat \<Rightarrow> nat set" where
  "queued w i = {unat idx |idx. idx < npieces w \<and> HasPiece (pr_request_q (peer w i)) idx}"

abbreviation pieces :: "world \<Rightarrow> nat set" where
  "pieces w \<equiv> {..<unat (npieces w)}"

lemma has_ok: "world_okx F w \<Longrightarrow> bf_inv (npieces w) (pr_bitfield (peer w i))"
  by (rule world_okD(3))

lemma content_okD:
  assumes "world_okx F w"
  shows "0 < npieces w" "bf_inv (npieces w) (c_BF (w_content w))" "bf_inv (npieces w) (c_BChecked (w_content w))"
    "bf_inv (npieces w) (c_BMasterFilter (w_content w))"
  using world_okD(10)[OF assms] by (simp_all add: content_ok_def Let_def)

lemma Set_any:
  assumes "bf_inv n bf"
  shows "bf_inv n (Set n idx bf) \<and> bf_set n (Set n idx bf) = bf_set n bf \<union> (if idx < n then {unat idx} else {})"
proof (cases "idx < n")
  case True
  then show ?thesis using Set_ok[OF assms True] by auto
next
  case False
  then have "Set n idx bf = bf" by (simp add: Set_def not_less)
  then show ?thesis using assms False by simp
qed

lemma QueuedPieces_ok:
  assumes "bf_inv n bf"
  shows "bf_inv n (QueuedPieces n q bf) \<and> bf_set n (QueuedPieces n q bf) = {unat idx |idx. idx < n \<and> HasPiece q idx}"
proof -
  have F: "bf_inv n (fold (\<lambda>p. Set n (p_index p)) ps b) \<and>
      bf_set n (fold (\<lambda>p. Set n (p_index p)) ps b) = bf_set n b \<union> {unat idx |idx. idx < n \<and> idx \<in> p_index ` set ps}"
    if "bf_inv n b" for ps b
    using that
  proof (induction ps arbitrary: b)
    case (Cons p ps)
    from Cons.IH[of "Set n (p_index p) b"] Set_any[OF Cons.prems, of "p_index p"] show ?case by auto
  qed simp
  show ?thesis unfolding QueuedPieces_def using F[of "Clear n bf" "rq_head q"] Clear_ok[OF assms]
    by (simp add: HasPiece_iff)
qed

lemma CheckBitfield_ok:
  assumes ok: "world_okx F w" and b: "bf_inv (npieces w) bf"
  shows "bf_inv (npieces w) (CheckBitfield bf w) \<and>
    bf_set (npieces w) (CheckBitfield bf w) = bf_set (npieces w) bf - (\<Union>i\<in>connected w. queued w i)"
proof -
  let ?n = "npieces w"
  let ?f = "\<lambda>i bf. if \<not> is_success w i \<or> IsEmpty_q (pr_request_q (peer w i)) then bf
                      else Except ?n bf (QueuedPieces ?n (pr_request_q (peer w i)) (bf_new ?n))"
  have n: "0 < ?n" by (rule content_okD(1)[OF ok])
  have Q: "bf_inv ?n (QueuedPieces ?n q (bf_new ?n))"
    "bf_set ?n (QueuedPieces ?n q (bf_new ?n)) = {unat idx |idx. idx < ?n \<and> HasPiece q idx}" for q
    using QueuedPieces_ok[OF conjunct1[OF new_ok[OF n]], of q] by simp_all
  have step: "bf_inv ?n (?f i b) \<and> bf_set ?n (?f i b) = bf_set ?n b - (if is_success w i then queued w i else {})"
    if "bf_inv ?n b" for i b
    using Except_ok[OF that Q(1)[of "pr_request_q (peer w i)"]] that Q(2)
    by (auto simp: queued_def IsEmpty_q_def HasPiece_iff)
  have "bf_inv ?n (fold ?f is b) \<and> bf_set ?n (fold ?f is b) = bf_set ?n b - (\<Union>i\<in>{i \<in> set is. is_success w i}. queued w i)"
    if "bf_inv ?n b" for "is" b
    using that
  proof (induction "is" arbitrary: b)
    case (Cons i "is")
    from Cons.IH[of "?f i b"] step[OF Cons.prems, of i] show ?case by auto
  qed simp
  from this[OF b, of "w_head w"] show ?thesis by (simp add: CheckBitfield_def Let_def connected_def)
qed

lemma Pieces_I_Can_Get_ok:
  assumes ok: "world_okx F w"
  shows "bf_inv (npieces w) (Pieces_I_Can_Get w) \<and>
    bf_set (npieces w) (Pieces_I_Can_Get w) =
      (if w_seeds_count w > 0 \<or> IsFull_c w then pieces w
       else bf_set (npieces w) (c_BF (w_content w)) \<union> (\<Union>i\<in>connected w. has w i))"
proof -
  let ?n = "npieces w"
  let ?f = "\<lambda>i bf. if IsFull ?n bf then bf
                           else if is_success w i then Or_bf ?n bf (pr_bitfield (peer w i)) else bf"
  have sub: "has w i \<subseteq> pieces w" for i unfolding has_def by (rule bfs.els_univ[OF has_ok[OF ok]])
  have step: "bf_inv ?n (?f i b) \<and> bf_set ?n (?f i b) = bf_set ?n b \<union> (if is_success w i then has w i else {})"
    if "bf_inv ?n b" for i b
    using Or_ok[OF that has_ok[OF ok, of i]] IsFull_iff[OF that] that sub[of i] by (auto simp: has_def)
  have "bf_inv ?n (fold ?f is b) \<and> bf_set ?n (fold ?f is b) = bf_set ?n b \<union> (\<Union>i\<in>{i \<in> set is. is_success w i}. has w i)"
    if "bf_inv ?n b" for "is" b
    using that
  proof (induction "is" arbitrary: b)
    case (Cons i "is")
    from Cons.IH[of "?f i b"] step[OF Cons.prems, of i] show ?case by auto
  qed simp
  from this[OF content_okD(2)[OF ok], of "w_head w"] SetAll_ok[OF content_okD(1)[OF ok]]
  show ?thesis by (simp add: Pieces_I_Can_Get_def Let_def connected_def)
qed

text \<open>The pieces of \<open>B\<close> some connected peer other than the proposer lacks, and those only the proposer has.\<close>

definition others :: "world \<Rightarrow> nat \<Rightarrow> nat set" where
  "others w proposer = connected w - {proposer}"

lemma FindValuedPieces_ok:
  fixes proposer :: nat and initial :: bool and e :: env
  assumes ok: "world_okx F w" and b: "bf_inv (npieces w) bf"
  defines "B \<equiv> bf_set (npieces w) bf" and "P \<equiv> others w proposer"
  defines "I \<equiv> B \<inter> (\<Inter>i\<in>{i \<in> P. Need_Remote_Data e i w}. has w i)" and "A \<equiv> B \<inter> (\<Inter>i\<in>P. has w i)"
  defines "V \<equiv> B - (if I = pieces w then A else I)"
  defines "W \<equiv> V \<inter> (if initial then (\<Union>i\<in>P. has w i) else B - (\<Union>i\<in>{i \<in> P. has w i \<noteq> pieces w}. has w i))"
  shows "bf_inv (npieces w) (FindValuedPieces e bf proposer initial w) \<and>
    bf_set (npieces w) (FindValuedPieces e bf proposer initial w) = (if W = {} then V else W)"
proof -
  let ?n = "npieces w"
  let ?s = "valued_step e w proposer initial"
  define Q where "Q is = {i \<in> set is. is_success w i \<and> i \<noteq> proposer}" for "is"
  have step: "bf_inv ?n a' \<and> bf_inv ?n t' \<and> bf_inv ?n o' \<and> bf_inv ?n h' \<and>
      bf_set ?n a' = bf_set ?n a \<inter> (\<Inter>j\<in>Q [i]. has w j) \<and>
      bf_set ?n t' = bf_set ?n t \<inter> (\<Inter>j\<in>{j \<in> Q [i]. Need_Remote_Data e j w}. has w j) \<and>
      bf_set ?n o' = bf_set ?n ot \<union> (\<Union>j\<in>{j \<in> Q [i]. initial \<or> has w j = pieces w}. has w j) \<and>
      bf_set ?n h' = bf_set ?n h - (\<Union>j\<in>{j \<in> Q [i]. \<not> initial \<and> has w j \<noteq> pieces w}. has w j)"
    if v: "bf_inv ?n a" "bf_inv ?n t" "bf_inv ?n ot" "bf_inv ?n h" "?s i (a, t, ot, h) = (a', t', o', h')"
    for i a t ot h a' t' o' h'
  proof (cases "is_success w i \<and> i \<noteq> proposer")
    case False
    then have "Q [i] = {}" "(a', t', o', h') = (a, t, ot, h)" using v(5) by (auto simp: Q_def valued_step_def)
    then show ?thesis using v by simp
  next
    case True
    then have q: "{j \<in> Q [i]. R j} = (if R i then {i} else {})" "Q [i] = {i}" for R by (auto simp: Q_def)
    have "a' = And_bf ?n a (pr_bitfield (peer w i))"
      "t' = (if Need_Remote_Data e i w then And_bf ?n t (pr_bitfield (peer w i)) else t)"
      "o' = (if initial \<or> IsFull ?n (pr_bitfield (peer w i)) then Or_bf ?n ot (pr_bitfield (peer w i)) else ot)"
      "h' = (if \<not> initial \<and> \<not> IsFull ?n (pr_bitfield (peer w i)) then Except ?n h (pr_bitfield (peer w i)) else h)"
      using v(5) True by (auto simp: valued_step_def Let_def split: if_splits)
    moreover note And_ok[OF v(1) has_ok[OF ok, of i]] And_ok[OF v(2) has_ok[OF ok, of i]]
      Or_ok[OF v(3) has_ok[OF ok, of i]] Except_ok[OF v(4) has_ok[OF ok, of i]] IsFull_iff[OF has_ok[OF ok, of i]]
    ultimately show ?thesis unfolding q(1) unfolding q(2) using v(1-4) by (simp add: has_def)
  qed
  have folds: "bf_inv ?n a' \<and> bf_inv ?n t' \<and> bf_inv ?n o' \<and> bf_inv ?n h' \<and>
      bf_set ?n a' = bf_set ?n a \<inter> (\<Inter>j\<in>Q is. has w j) \<and>
      bf_set ?n t' = bf_set ?n t \<inter> (\<Inter>j\<in>{j \<in> Q is. Need_Remote_Data e j w}. has w j) \<and>
      bf_set ?n o' = bf_set ?n ot \<union> (\<Union>j\<in>{j \<in> Q is. initial \<or> has w j = pieces w}. has w j) \<and>
      bf_set ?n h' = bf_set ?n h - (\<Union>j\<in>{j \<in> Q is. \<not> initial \<and> has w j \<noteq> pieces w}. has w j)"
    if "bf_inv ?n a" "bf_inv ?n t" "bf_inv ?n ot" "bf_inv ?n h" "fold ?s is (a, t, ot, h) = (a', t', o', h')"
    for "is" a t ot h a' t' o' h'
    using that
  proof (induction "is" arbitrary: a t ot h)
    case Nil
    then show ?case by (simp add: Q_def)
  next
    case (Cons i "is")
    obtain a1 t1 o1 h1 where s: "?s i (a, t, ot, h) = (a1, t1, o1, h1)" by (metis prod_cases4)
    have q: "Q (i # is) = Q [i] \<union> Q is" "{j \<in> Q (i # is). R j} = {j \<in> Q [i]. R j} \<union> {j \<in> Q is. R j}" for R by (auto simp: Q_def)
    note S = step[OF Cons.prems(1-4) s]
    have "bf_inv ?n a1" "bf_inv ?n t1" "bf_inv ?n o1" "bf_inv ?n h1" using S by simp_all
    from Cons.IH[OF this] Cons.prems(5) s S show ?case unfolding q(2) unfolding q(1)
      by (simp add: Int_assoc Un_assoc Diff_eq INT_Un image_Un Inter_Un_distrib)
  qed
  have P: "P = Q (w_head w)" by (auto simp: P_def others_def connected_def Q_def)
  have n: "bf_inv ?n (bf_new ?n)" "bf_set ?n (bf_new ?n) = {}" using new_ok[OF content_okD(1)[OF ok]] by simp_all
  obtain a t ot h where f: "fold ?s (w_head w) (bf, bf, bf_new ?n, bf) = (a, t, ot, h)" by (metis prod_cases4)
  note R = folds[OF b b n(1) b f, folded P B_def, unfolded n(2)]
  have A: "bf_set ?n a = A" and I: "bf_set ?n t = I" using R by (simp_all add: A_def I_def)
  define x where "x = (if \<not> IsFull ?n t then t else a)"
  have x: "bf_inv ?n x" "bf_set ?n x = (if I = pieces w then A else I)"
    using R IsFull_iff[of ?n t] A I by (auto simp: x_def)
  define v where "v = And_bf ?n bf (Invert ?n x)"
  have v: "bf_inv ?n v" "bf_set ?n v = V"
    using And_ok[OF b, of "Invert ?n x"] Invert_ok[OF x(1)] x(2) bfs.els_univ[OF b]
    by (auto simp: v_def V_def B_def)
  define u where "u = And_bf ?n v (if initial then ot else h)"
  have u: "bf_inv ?n u" "bf_set ?n u = W"
    using And_ok[OF v(1), of "if initial then ot else h"] R v(2) by (auto simp: u_def W_def)
  have "FindValuedPieces e bf proposer initial w = (if \<not> IsEmpty u then u else v)"
    by (simp add: FindValuedPieces_def f Let_def u_def v_def x_def)
  then show ?thesis using u v IsEmpty_iff[OF u(1)] by simp
qed

lemma Need_Local_Data_iff:
  assumes "world_okx F w"
  shows "Need_Local_Data i w \<longleftrightarrow> bf_set (npieces w) (c_BF (w_content w)) - has w i \<noteq> {}"
proof -
  let ?n = "npieces w" and ?b = "c_BF (w_content w)"
  note C = content_okD[OF assms] and h = has_ok[OF assms, of i]
  note E = Except_ok[OF C(2) h]
  have "bf_set ?n ?b \<subseteq> pieces w" "has w i \<subseteq> pieces w"
    unfolding has_def by (rule bfs.els_univ, rule C(2), rule bfs.els_univ, rule h)
  then show ?thesis using IsFull_iff[OF h] IsFull_iff[OF C(2)] IsEmpty_iff[OF conjunct1[OF E]] E
    by (auto simp: Need_Local_Data_def Let_def IsFull_c_def has_def)
qed

definition wanted :: "world \<Rightarrow> nat set" where
  "wanted w = (bf_set (npieces w) (c_BChecked (w_content w)) - bf_set (npieces w) (c_BF (w_content w))) -
     bf_set (npieces w) (c_BMasterFilter (w_content w))"

text \<open>The first piece requested is one the client does not have; the second test is a shortcut.\<close>

lemma Need_Remote_Data_iff:
  assumes "world_okx F w"
  shows "Need_Remote_Data e i w \<longleftrightarrow> \<not> Seeding e w \<and> has w i \<noteq> {} \<and>
    (has w i \<inter> wanted w \<noteq> {} \<or>
     (\<not> IsEmpty_q (pr_request_q (peer w i)) \<and>
      unat (GetRequestIdx (c_geo (w_content w)) (pr_request_q (peer w i))) \<notin> bf_set (npieces w) (c_BF (w_content w))) \<or>
     (has w i = pieces w \<and> npieces w \<le> c_check_piece (w_content w)))"
proof -
  let ?n = "npieces w" and ?c = "w_content w" and ?p = "peer w i"
  note C = content_okD[OF assms] and h = has_ok[OF assms, of i]
  note E1 = Except_ok[OF h C(2)]
  note E2 = Except_ok[OF conjunct1[OF E1] C(4)]
  note E3 = And_ok[OF conjunct1[OF E2] C(3)]
  have "IsEmpty (And_bf ?n (Except ?n (Except ?n (pr_bitfield ?p) (c_BF ?c)) (c_BMasterFilter ?c)) (c_BChecked ?c)) \<longleftrightarrow>
      has w i \<inter> wanted w = {}"
    using IsEmpty_iff[OF conjunct1[OF E3]] E1 E2 E3 by (auto simp: has_def wanted_def)
  then show ?thesis using IsFull_iff[OF h] IsEmpty_iff[OF h] IsSet_iff[OF C(2)]
    by (auto simp: Need_Remote_Data_def Let_def has_def)
qed



section \<open>A failed announcement\<close>

text \<open>What \<^verbatim>\<open>Tell_World_I_Have\<close> looks at in a peer.\<close>

definition tell_view :: "world \<Rightarrow> nat \<Rightarrow> btstream \<times> dt_peerstatus \<times> bool \<times> bitfield" where
  "tell_view w i = (let p = peer w i in (pr_stream p, pr_status p, remote_interested p, pr_bitfield p))"

lemma tell_view_standby [simp]: "tell_view (upd_peer i (\<lambda>p. p\<lparr>pr_standby := b\<rparr>) w) j = tell_view w j"
  by (simp add: tell_view_def Let_def)

lemma tell_view_UnStandby [simp]: "tell_view (UnStandby w) j = tell_view w j"
proof -
  have "tell_view (fold (\<lambda>i w. if is_success w i then upd_peer i (\<lambda>p. p\<lparr>pr_standby := False\<rparr>) w else w) is w) j
    = tell_view w j" for "is"
    by (induction "is" arbitrary: w) simp_all
  then show ?thesis by (simp add: UnStandby_def)
qed

lemma UnStandby_content [simp]: "w_content (UnStandby w) = w_content w"
proof -
  have "w_content (fold (\<lambda>i w. if is_success w i then upd_peer i (\<lambda>p. p\<lparr>pr_standby := False\<rparr>) w else w) is w) = w_content w" for "is"
    by (induction "is" arbitrary: w) simp_all
  then show ?thesis by (simp add: UnStandby_def)
qed

lemma tell_view_other [simp]:
  "j \<noteq> i \<Longrightarrow> tell_view (upd_peer i f w) j = tell_view w j" "tell_view (w\<lparr>w_pending := d\<rparr>) j = tell_view w j"
  "tell_view (RecalcDupReqs w) j = tell_view w j" "tell_view (DontWaitDL i w) j = tell_view w j"
  "tell_view (DontWaitUL i w) j = tell_view w j"
  by (simp_all add: tell_view_def)

lemma CloseConnection_view: "j \<noteq> i \<Longrightarrow> tell_view (CloseConnection e i w) j = tell_view w j"
  by (simp add: CloseConnection_def PutPending_def StopDLTimer_def StopULTimer_def Let_def case_prod_beta)

lemma CloseConnection_content [simp]: "w_content (CloseConnection e i w) = w_content w"
  by (simp add: CloseConnection_def PutPending_def StopDLTimer_def StopULTimer_def RecalcDupReqs_def Let_def case_prod_beta)

text \<open>The peers to which the announcement goes at once although the client does not seed.\<close>

definition at_once :: "u32 \<Rightarrow> world \<Rightarrow> nat \<Rightarrow> bool" where
  "at_once idx w i \<longleftrightarrow> Count (c_BF (w_content w)) = 1 \<or>
     (\<not> remote_interested (peer w i) \<and> \<not> IsSet (npieces w) (pr_bitfield (peer w i)) idx)"

definition have_sent :: "env \<Rightarrow> u32 \<Rightarrow> world \<Rightarrow> nat \<Rightarrow> bool" where
  "have_sent e idx w i \<longleftrightarrow> 0 \<le> fst (Send_Have (e_buf_mem e) idx (pr_stream (peer w i)))"

lemma tell_view_cong:
  assumes "tell_view v j = tell_view w j" "w_content v = w_content w"
  shows "is_success v j = is_success w j" "is_failed v j = is_failed w j" "at_once idx v j = at_once idx w j"
    "have_sent e idx v j = have_sent e idx w j" "pr_stream (peer v j) = pr_stream (peer w j)"
  using assms by (simp_all add: tell_view_def Let_def at_once_def have_sent_def)

lemma tell_one_at_once:
  assumes "is_success w i" "at_once idx w i"
  shows "tell_one e False idx i (r, w) =
    (if r < 0 then (r, CloseConnection e i w)
     else (let (r, w) = on_stream i (Send_Have (e_buf_mem e) idx) w in (r, if r < 0 then CloseConnection e i w else w)))"
  using assms by (auto simp: tell_one_def at_once_def Let_def case_prod_beta)

lemma tell_rest_closed:
  assumes "r < 0" "distinct is" "\<And>j. j \<in> set is \<Longrightarrow> is_success w j \<Longrightarrow> at_once idx w j"
  shows "(j \<in> set is \<and> is_success w j \<longrightarrow> is_failed (snd (fold (tell_one e False idx) is (r, w))) j) \<and>
    (j \<notin> set is \<longrightarrow> tell_view (snd (fold (tell_one e False idx) is (r, w))) j = tell_view w j)"
  using assms(2,3)
proof (induction "is" arbitrary: w)
  case (Cons i "is")
  show ?case
  proof (cases "is_success w i")
    case False
    then have "tell_one e False idx i (r, w) = (r, w)" by (simp add: tell_one_def)
    then show ?thesis using Cons.IH[of w] Cons.prems False by auto
  next
    case True
    define v where "v = CloseConnection e i w"
    have t: "tell_one e False idx i (r, w) = (r, v)"
      using tell_one_at_once[OF True Cons.prems(2)[OF _ True]] assms(1) by (simp add: v_def)
    have v: "tell_view v k = tell_view w k" if "k \<noteq> i" for k using CloseConnection_view[OF that] by (simp add: v_def)
    have c: "w_content v = w_content w" by (simp add: v_def)
    have IH: "(j \<in> set is \<and> is_success v j \<longrightarrow> is_failed (snd (fold (tell_one e False idx) is (r, v))) j) \<and>
      (j \<notin> set is \<longrightarrow> tell_view (snd (fold (tell_one e False idx) is (r, v))) j = tell_view v j)"
    proof (rule Cons.IH)
      show "distinct is" using Cons.prems(1) by simp
      show "at_once idx v k" if k: "k \<in> set is" "is_success v k" for k
      proof -
        have "k \<noteq> i" using k(1) Cons.prems(1) by auto
        from tell_view_cong[OF v[OF this] c] k Cons.prems(2)[of k] show ?thesis by simp
      qed
    qed
    have failed: "is_failed u i" if "tell_view u i = tell_view v i" for u
      using that CloseConnection_failed[of e i w] by (simp add: tell_view_def Let_def v_def)
    show ?thesis
    proof (cases "j = i")
      case True
      then show ?thesis using IH failed Cons.prems(1) t by simp
    next
      case False
      from tell_view_cong(1)[OF v[OF False] c] IH v[OF False] False t show ?thesis by simp
    qed
  qed
qed simp

lemma tell_all_sent:
  assumes "0 \<le> r" "distinct is" "\<And>j. j \<in> set is \<Longrightarrow> is_success w j \<Longrightarrow> at_once idx w j \<and> have_sent e idx w j"
    "fold (tell_one e False idx) is (r, w) = (r', w')"
  shows "0 \<le> r' \<and> w_content w' = w_content w \<and>
    tell_view w' j = (if j \<in> set is \<and> is_success w j
      then (snd (Send_Have (e_buf_mem e) idx (pr_stream (peer w j))), snd (tell_view w j)) else tell_view w j)"
  using assms
proof (induction "is" arbitrary: r w)
  case (Cons i "is")
  show ?case
  proof (cases "is_success w i")
    case False
    then have "tell_one e False idx i (r, w) = (r, w)" by (simp add: tell_one_def)
    then have "fold (tell_one e False idx) is (r, w) = (r', w')" using Cons.prems(4) by simp
    from Cons.IH[OF Cons.prems(1) _ _ this] Cons.prems False show ?thesis by auto
  next
    case True
    obtain r1 w1 where S: "on_stream i (Send_Have (e_buf_mem e) idx) w = (r1, w1)" by force
    have i: "at_once idx w i" "have_sent e idx w i" using Cons.prems(3) True by simp_all
    obtain s where s: "Send_Have (e_buf_mem e) idx (pr_stream (peer w i)) = (r1, s)"
      "w1 = upd_peer i (\<lambda>p. p\<lparr>pr_stream := s\<rparr>) w" using S by (rule on_streamE)
    have r1: "0 \<le> r1" using i(2) s(1) by (simp add: have_sent_def)
    have t: "tell_one e False idx i (r, w) = (r1, w1)"
      using tell_one_at_once[OF True i(1)] Cons.prems(1) r1 S by simp
    have v: "tell_view w1 k = (if k = i then (s, snd (tell_view w i)) else tell_view w k)" for k
      using s(2) by (simp add: tell_view_def Let_def)
    have c: "w_content w1 = w_content w" by (simp add: s(2))
    have f: "fold (tell_one e False idx) is (r1, w1) = (r', w')" using Cons.prems(4) t by simp
    have "at_once idx w1 k \<and> have_sent e idx w1 k" if k: "k \<in> set is" "is_success w1 k" for k
    proof -
      have "k \<noteq> i" using k(1) Cons.prems(2) by auto
      with v[of k] have "tell_view w1 k = tell_view w k" by simp
      from tell_view_cong[OF this c] k Cons.prems(3)[of k] show ?thesis by simp
    qed
    note IH = Cons.IH[OF r1 _ this f]
    show ?thesis
    proof (cases "j = i")
      case True
      then show ?thesis using IH Cons.prems(2) v[of i] c s \<open>is_success w i\<close> by simp
    next
      case False
      then have vj: "tell_view w1 j = tell_view w j" using v[of j] by simp
      from tell_view_cong[OF vj c] IH Cons.prems(2) vj c False show ?thesis by simp
    qed
  qed
qed simp


definition ex_deaf :: world where
  "ex_deaf = upd_peer 1 (\<lambda>p. p\<lparr>remote_interested := False, pr_stream := ex_stream\<lparr>out_buffer := ex_out\<lparr>m_valid := False\<rparr>\<rparr>\<rparr>)
     (upd_peer 2 (\<lambda>p. p\<lparr>remote_interested := False\<rparr>) ex_world)"


end
