(* ===== verification/Flow_Ok.thy ===== *)
theory Flow_Ok
  imports Request_Flow Peer_Props
begin

text \<open>
  The flow of requests returns, keeps the data of the client well formed, and asks a peer only for
  pieces it has and the client does not have.
\<close>

section \<open>The number of slices in a queue\<close>

definition nslices :: "rqueue \<Rightarrow> nat" where
  "nslices q = length (all_slices q)"

text \<open>No piece has so many slices that their number is negative as an \<^verbatim>\<open>int\<close>.\<close>

definition short :: "rqueue \<Rightarrow> bool" where
  "short q \<longleftrightarrow> list_all (\<lambda>p. length (p_slices p) < 2147483648) (rq_head q)"

lemma Qsize_nslices:
  assumes "rq_inv a q"
  shows "Qsize q = of_nat (nslices q)"
proof -
  have "fold (\<lambda>p total. total + p_count p) ps t = t + of_nat (length (flat ps))"
    if "\<forall>p\<in>set ps. p_count p = of_nat (length (p_slices p))" for ps t
    using that by (induction ps arbitrary: t) simp_all
  moreover have "\<forall>p\<in>set (rq_head q). p_count p = of_nat (length (p_slices p))"
    using rq_invD(1)[OF assms] unfolding head_ok_def piece_ok_def by blast
  ultimately show ?thesis by (simp add: Qsize_def nslices_def all_slices_def)
qed

lemma short_Delete: "short q \<Longrightarrow> short (snd (Delete q idx))"
  by (cases rule: FindPiece_cases[of idx "rq_head q"]) (auto simp: Delete_def short_def)

lemma short_MoveLast: "short q \<Longrightarrow> short (MoveLast q idx off len)"
proof (cases rule: FindPiece_cases[of idx "rq_head q"])
  case (some before p after)
  note P = this
  assume "short q"
  then show ?thesis
  proof (cases rule: find_in_piece_cases[of idx off len "p_slices p"])
    case (some u s v)
    then show ?thesis using P \<open>short q\<close> by (cases v) (auto simp: MoveLast_def short_def)
  qed (use P in \<open>simp add: MoveLast_def\<close>)
qed (simp add: MoveLast_def)

lemma nslices_MoveLast [simp]: "nslices (MoveLast q idx off len) = nslices q"
proof (cases rule: FindPiece_cases[of idx "rq_head q"])
  case (some before p after)
  note P = this
  show ?thesis
  proof (cases rule: find_in_piece_cases[of idx off len "p_slices p"])
    case (some u s v)
    then show ?thesis using P by (cases v) (auto simp: MoveLast_def nslices_def all_slices_def)
  qed (use P in \<open>simp add: MoveLast_def\<close>)
qed (simp add: MoveLast_def)

lemma unsend_length [simp]: "length (unsend_leading ss) = length ss"
  by (induction ss rule: unsend_leading.induct) simp_all

lemma short_Append: "short d \<Longrightarrow> length (p_slices p) < 2147483648 \<Longrightarrow> short (snd (Append d p))"
  by (cases rule: FindPiece_cases[of "p_index p" "rq_head d"]) (auto simp: Append_def short_def)

lemma short_Transfer_piece:
  assumes "short q" "short d" "Transfer_piece g ss pend q d idx = (ok, q', d')"
  shows "short q' \<and> short d'"
proof (cases rule: FindPiece_cases[of idx "rq_head q"])
  case (some before p after)
  have p: "length (p_slices p) < 2147483648" using assms(1) some(2) by (simp add: short_def)
  have "short q'" "d' = d \<or> d' = snd (Append d p)"
    using assms(1,3) some by (auto simp: Transfer_piece_def Let_def short_def split: if_splits prod.splits)
  then show ?thesis using short_Append[OF assms(2) p] assms(2) by auto
qed (use assms in \<open>simp add: Transfer_piece_def\<close>)

lemma short_Transfer_loop:
  "Transfer_loop g ss pend r q d = (ok, q', d') \<Longrightarrow> short q \<Longrightarrow> short d \<Longrightarrow> short q' \<and> short d'"
proof (induction g ss pend r q d rule: Transfer_loop.induct)
  case (1 g ss pend r q d)
  show ?case
  proof (cases "rq_head q")
    case Nil
    then show ?thesis using "1.prems" by (subst (asm) Transfer_loop.simps) simp
  next
    case (Cons p ps)
    obtain ok1 q1 d1 where P: "Transfer_piece g ss pend q d (p_index p) = (ok1, q1, d1)" by (metis prod_cases3)
    have "Transfer_loop g ss pend (if ok1 then r else False) q1 d1 = (ok, q', d')"
      using "1.prems" Cons P by (subst (asm) Transfer_loop.simps) simp
    from "1.IH"[OF Cons P[symmetric] refl refl this] short_Transfer_piece[OF "1.prems"(2,3) P] show ?thesis by blast
  qed
qed

lemma short_Transfer:
  assumes "Transfer g ss pend q d = (ok, q', d')" "short q" "short d"
  shows "short q' \<and> short d'"
proof -
  obtain ok1 q1 where L: "Transfer_loop g ss pend True q d = (ok1, q1, d')" and q': "q' = q1\<lparr>rq_send := None\<rparr>"
    using assms(1) by (auto simp: Transfer_def simp del: Transfer_loop.simps split: prod.splits)
  from short_Transfer_loop[OF L assms(2,3)] show ?thesis by (simp add: q' short_def)
qed

lemma short_Sent_slice: "short q \<Longrightarrow> short (Sent_slice q t c)"
  by (auto simp: short_def Sent_slice_def upd_slice_def Let_def list_all_iff)

lemma nslices_Sent_slice [simp]: "nslices (Sent_slice q t c) = nslices q"
  by (simp add: nslices_def Sent_slice_def Let_def all_slices_upd)

lemma Sent_some:
  assumes inv: "rq_inv a q"
  obtains q' where "Sent q t = Some q'" "rq_inv a q'" "addrs q' = addrs q" "nslices q' = nslices q" "short q \<Longrightarrow> short q'"
    "p_index ` set (rq_head q') = p_index ` set (rq_head q)" "IsEmpty_q q' = IsEmpty_q q"
proof -
  have idx: "p_index ` set (rq_head (Sent_slice q t c)) = p_index ` set (rq_head q)" if "rq_inv a q" for q c
  proof -
    have "p_slices p \<noteq> []" if "p \<in> set (rq_head q)" for p
      using head_ok_ne[OF rq_invD(1)[OF \<open>rq_inv a q\<close>]] that by blast
    then have "p_index (p\<lparr>p_slices := map (\<lambda>s. if sl_addr s = c then s\<lparr>sl_reqtime := t, sl_sent := True\<rparr> else s) (p_slices p)\<rparr>) = p_index p"
      if "p \<in> set (rq_head q)" for p
      using that by (cases "p_slices p") auto
    then show ?thesis by (simp add: Sent_slice_def Let_def upd_slice_def image_image cong: image_cong)
  qed
  have e: "IsEmpty_q (Sent_slice q t c) = IsEmpty_q q" for q c
    by (simp add: IsEmpty_q_def Sent_slice_def Let_def upd_slice_def)
  show thesis
  proof (cases "rq_send q")
    case (Some c)
    then show ?thesis
      using that[of "Sent_slice q t c"] Sent_slice_ok[OF inv] idx[OF inv] e short_Sent_slice by (simp add: Sent_def)
  next
    case None
    obtain q1 where F: "FixSend q = Some q1" "q1 = q\<lparr>rq_send := rq_send q1\<rparr>"
      using FixSend_eq[OF inv] by simp
    note q1 = FixSend_ok[OF inv F(1)]
    have h: "rq_head q1 = rq_head q" by (subst F(2)) simp
    then have k: "addrs q1 = addrs q" "nslices q1 = nslices q" "short q \<Longrightarrow> short q1" "IsEmpty_q q1 = IsEmpty_q q"
      by (simp_all add: addrs_def nslices_def all_slices_def short_def IsEmpty_q_def)
    show ?thesis
    proof (cases "rq_send q1")
      case None
      then show ?thesis using that[of q1] q1 F h k \<open>rq_send q = None\<close> by (simp add: Sent_def)
    next
      case (Some c)
      then show ?thesis
        using that[of "Sent_slice q1 t c"] Sent_slice_ok[OF q1] idx[OF q1] e short_Sent_slice F h k \<open>rq_send q = None\<close>
        by (simp add: Sent_def)
    qed
  qed
qed

section \<open>A piece added at the end of a queue\<close>

text \<open>\<open>k\<close> slices of the piece \<open>idx\<close> have been added behind the pieces \<open>ps\<close>.\<close>

definition extended :: "u32 \<Rightarrow> piece list \<Rightarrow> nat \<Rightarrow> rqueue \<Rightarrow> bool" where
  "extended idx ps k q \<longleftrightarrow> idx \<notin> p_index ` set ps \<and>
     (if k = 0 then rq_head q = ps
      else rq_send q \<noteq> None \<and> (\<exists>p. rq_head q = ps @ [p] \<and> p_index p = idx \<and> length (p_slices p) = k))"

lemma FindPiece_new:
  "idx \<notin> p_index ` set ps \<Longrightarrow> FindPiece idx ps = (ps, [])"
  "idx \<notin> p_index ` set ps \<Longrightarrow> p_index p = idx \<Longrightarrow> FindPiece idx (ps @ p # rest) = (ps, p # rest)"
  by (induction ps) (auto simp: FindPiece_def)

lemma IsSet_bound: "IsSet n bf idx \<Longrightarrow> idx < n"
  by (auto simp: IsSet_def IsSet_int_def not_le[symmetric] split: if_splits)

lemma extended_Add:
  assumes "extended idx ps k q" "Add mem a q idx off len = (True, a', q')"
  shows "extended idx ps (Suc k) q'"
proof (cases "k = 0")
  case True
  then have q: "rq_head q = ps" "idx \<notin> p_index ` set ps" using assms(1) by (simp_all add: extended_def)
  then have "FindPiece idx (rq_head q) = (ps, [])" by (simp add: FindPiece_new)
  then show ?thesis using assms(2) q True
    by (auto simp: Add_def Let_def extended_def new_slice_def split: if_splits)
next
  case False
  then obtain p where q: "rq_head q = ps @ [p]" "p_index p = idx" "length (p_slices p) = k" "idx \<notin> p_index ` set ps" "rq_send q \<noteq> None"
    using assms(1) by (auto simp: extended_def)
  then have f: "FindPiece idx (rq_head q) = (ps, [p])" by (simp add: FindPiece_new)
  have "p_slices p \<noteq> []" using q(3) False by auto
  then show ?thesis using assms(2) q f
    by (auto simp: Add_def Let_def extended_def new_slice_def split: if_splits)
qed

lemma extended_Copy_loop:
  assumes "Copy_loop mem a ss q idx = (r, a', q')" "0 \<le> r" "extended idx ps k q" "\<forall>s\<in>set ss. sl_index s = idx"
  shows "extended idx ps (k + length ss) q'"
  using assms
proof (induction ss arbitrary: a q k)
  case (Cons s ss)
  obtain ok a1 q1 where A: "Add mem a q (sl_index s) (sl_offset s) (sl_length s) = (ok, a1, q1)" by (metis prod_cases3)
  have ok: ok using Cons.prems(1,2) A by (auto simp: Let_def split: if_splits)
  have "extended idx ps (Suc k) q1" using extended_Add[OF Cons.prems(3)] A ok Cons.prems(4) by auto
  from Cons.IH[OF _ Cons.prems(2) this] Cons.prems(1,4) A ok show ?case by (simp add: Let_def)
qed simp

lemma extended_0: "extended idx (rq_head q) 0 q \<longleftrightarrow> \<not> HasPiece q idx"
  by (simp add: extended_def HasPiece_iff)

lemma Copy_extends:
  assumes "Copy mem a q d idx = (r, a', d')" "0 \<le> r" "\<not> HasPiece d idx" "HasPiece q idx" "rq_inv b q"
  obtains p where "p \<in> set (rq_head q)" "p_index p = idx" "extended idx (rq_head d) (length (p_slices p)) d'" "p_slices p \<noteq> []"
proof -
  obtain before p after where P: "rq_head q = before @ p # after" "p_index p = idx" "FindPiece idx (rq_head q) = (before, p # after)"
    using assms(4) by (cases rule: FindPiece_cases[of idx "rq_head q"]) (auto simp: HasPiece_def)
  have h: "head_ok (before @ p # after)" using rq_invD(1)[OF assms(5)] P(1) by simp
  have "Copy_loop mem a (p_slices p) d idx = (r, a', d')" using assms(1,3) P(3) by (simp add: Copy_def)
  from extended_Copy_loop[OF this assms(2), of "rq_head d" 0] assms(3) head_ok_piece[OF h] P that[of p]
  show thesis by (simp add: extended_0)
qed

lemma extended_AddPiece_loop:
  "AddPiece_loop mem ss idx a q off remain = Some (r, a', q') \<Longrightarrow> 0 \<le> r \<Longrightarrow> 0 < ss \<Longrightarrow> extended idx ps k q \<Longrightarrow>
   \<exists>j. extended idx ps (k + j) q' \<and> j \<le> unat remain div unat ss + 1 \<and> (0 < remain \<longrightarrow> 0 < j)"
proof (induction "unat remain" arbitrary: a q off remain k rule: less_induct)
  case less
  show ?case
  proof (cases "remain = 0")
    case True
    then show ?thesis using less.prems by (subst (asm) AddPiece_loop.simps) (auto intro: exI[of _ 0])
  next
    case False
    let ?len = "if remain < ss then remain else ss"
    obtain ok a1 q1 where A: "Add mem a q idx off ?len = (ok, a1, q1)" by (metis prod_cases3)
    have L: "ok" "AddPiece_loop mem ss idx a1 q1 (off + ?len) (remain - ?len) = Some (r, a', q')"
      using less.prems(1,2) A False by (subst (asm) (1) AddPiece_loop.simps, auto simp: Let_def split: if_splits)+
    have l: "?len \<le> remain" "0 < ?len" using False less.prems(3) by (auto simp: word_gt_0 not_less)
    have d: "unat (remain - ?len) = unat remain - unat ?len" using u32_diff[of ?len remain] l(1) by (simp add: u32_le_iff)
    have lt: "unat (remain - ?len) < unat remain" using d l by (simp add: u32_less_iff u32_le_iff)
    have e: "extended idx ps (Suc k) q1" using extended_Add[OF less.prems(4), of mem a off ?len a1 q1] A L(1) by simp
    from less.hyps[OF lt L(2) less.prems(2,3) e] obtain j where
      j: "extended idx ps (Suc k + j) q'" "j \<le> unat (remain - ?len) div unat ss + 1" "0 < remain - ?len \<longrightarrow> 0 < j" by blast
    show ?thesis
    proof (cases "remain < ss")
      case True
      then have "remain - ?len = 0" by simp
      then have "q' = q1" using L(2) by (subst (asm) AddPiece_loop.simps) simp
      then show ?thesis using e by (intro exI[of _ 1]) simp
    next
      case False
      then have s: "unat ss \<le> unat remain" "0 < unat ss" using less.prems(3) by (simp_all add: u32_less_iff)
      then have "unat (remain - ?len) div unat ss + 1 = unat remain div unat ss"
        using False d by (simp add: le_div_geq)
      then show ?thesis using j by (intro exI[of _ "Suc j"]) simp
    qed
  qed
qed

lemma Append_extends:
  assumes "\<not> HasPiece d (p_index p)" "p_slices p \<noteq> []" "Append d p = (ok, d')"
  shows "ok" "extended (p_index p) (rq_head d) (length (p_slices p)) d'"
proof -
  have f: "FindPiece (p_index p) (rq_head d) = (rq_head d, [])"
    using assms(1) by (simp add: HasPiece_iff FindPiece_new)
  obtain s ss where s: "p_slices p = s # ss" using assms(2) by (cases "p_slices p") auto
  have u: "unsend_leading (s # ss) \<noteq> []" "sl_index (hd (unsend_leading (s # ss))) = sl_index s" by simp_all
  show "ok" "extended (p_index p) (rq_head d) (length (p_slices p)) d'"
    using assms(1,3) f s u by (auto simp: Append_def extended_def HasPiece_iff)
qed

text \<open>Moving a piece that is asked for back from the pending queue.\<close>

lemma Reassign_loop_extends:
  assumes "Reassign_loop n bf before rest q d n = (idx, q', d')" "rq_head q = before @ rest" "\<forall>p\<in>set rest. p_slices p \<noteq> []"
  shows "if idx < n then (\<exists>p\<in>set rest. p_index p = idx \<and> IsSet n bf idx \<and> extended idx (rq_head d) (length (p_slices p)) d' \<and>
      p_slices p \<noteq> []) \<and> set (rq_head q') \<subseteq> set (rq_head q)
    else q' = q \<and> d' = d"
  using assms
proof (induction rest arbitrary: before)
  case (Cons p rest)
  show ?case
  proof (cases "IsSet n bf (p_index p) \<and> \<not> HasPiece d (p_index p)")
    case True
    obtain ok d1 where A: "Append d p = (ok, d1)" by force
    note E = Append_extends[OF conjunct2[OF True] _ A]
    have "p_index p < n" using True IsSet_bound by blast
    then show ?thesis using Cons.prems True E A by (auto simp: Let_def)
  next
    case False
    have "Reassign_loop n bf (before @ [p]) rest q d n = (idx, q', d')" using Cons.prems(1) False by simp
    from Cons.IH[OF this] Cons.prems(2,3) show ?thesis by auto
  qed
qed simp

lemma Reassign_extends:
  assumes "Reassign g q d bf = (idx, q', d')" "rq_inv a q"
  shows "if idx < g_npieces g then (\<exists>p\<in>set (rq_head q). p_index p = idx \<and> IsSet (g_npieces g) bf idx \<and>
      extended idx (rq_head d) (length (p_slices p)) d' \<and> p_slices p \<noteq> []) \<and> set (rq_head q') \<subseteq> set (rq_head q)
    else q' = q \<and> d' = d"
  using Reassign_loop_extends[of "g_npieces g" bf "[]" "rq_head q" q d] assms head_ok_ne[OF rq_invD(1)[OF assms(2)]]
  by (simp add: Reassign_def)

lemma Shuffle_keeps:
  assumes inv: "rq_inv a q" and s: "short q" and send: "rq_send q \<noteq> None"
  obtains q' where "Shuffle rnd3 rnd q idx = Some q'" "rq_inv a q'" "nslices q' = nslices q" "short q'"
    "p_index ` set (rq_head q') = p_index ` set (rq_head q)" "addrs q' = addrs q" "IsEmpty_q q' = IsEmpty_q q"
proof (cases rule: FindPiece_cases[of idx "rq_head q"])
  case none
  then have "Shuffle rnd3 rnd q idx = Some q" by (simp add: Shuffle_def)
  then show ?thesis using that inv s by blast
next
  case (some before p after)
  have len: "\<forall>p\<in>set (rq_head q). length (p_slices p) < 2147483648" using s by (simp add: short_def list_all_iff)
  have l: "length (p_slices p) < 2147483648" using len some(2) by simp
  from Shuffle_eq[OF inv some(2,3) l send, of rnd3 rnd] obtain ss snd' where
    S: "Shuffle rnd3 rnd q idx = Some (q\<lparr>rq_head := before @ p\<lparr>p_slices := ss\<rparr> # after, rq_send := snd'\<rparr>)"
    and m: "mset ss = mset (p_slices p)" by blast
  let ?q = "q\<lparr>rq_head := before @ p\<lparr>p_slices := ss\<rparr> # after, rq_send := snd'\<rparr>"
  have h: "head_ok (before @ p # after)" using rq_invD(1)[OF inv] some(2) by simp
  note p = head_ok_piece[OF h]
  have ne: "ss \<noteq> []" using m p(2) by auto
  have i: "p_index (p\<lparr>p_slices := ss\<rparr>) = p_index p"
    using p(3) ne hd_in_set[OF ne] mset_eq_setD[OF m] by simp
  have "length ss = length (p_slices p)" using mset_eq_length[OF m] .
  then have "nslices ?q = nslices q" "short ?q" using some(2) s by (simp_all add: nslices_def all_slices_def short_def)
  moreover have "p_index ` set (rq_head ?q) = p_index ` set (rq_head q)" using some(2) i by simp
  moreover have "addrs ?q = addrs q" using mset_eq_setD[OF m] some(2) by (simp add: addrs_alt piece_addrs_def)
  moreover have "IsEmpty_q ?q = IsEmpty_q q" using some(2) by (simp add: IsEmpty_q_def)
  ultimately show ?thesis using that[OF S Shuffle_ok[OF inv len send S]] by blast
qed

section \<open>Choosing a piece returns\<close>

lemma mark_gap_ok:
  assumes "bf_inv n choices" "bf_inv n acc" "unat limit \<le> unat n * unat plen"
  shows "\<exists>acc' found'. mark_gap n plen choices limit idx acc found = Some (acc', found') \<and> bf_inv n acc' \<and>
    bf_set n acc' \<subseteq> bf_set n acc \<union> bf_set n choices"
  using assms(2)
proof (induction "unat n - unat idx" arbitrary: idx acc found rule: less_induct)
  case less
  let ?go = "ucast idx * ucast plen < limit"
  show ?case
  proof (cases ?go)
    case False
    then show ?thesis using less.prems by (subst mark_gap.simps) simp
  next
    case True
    have u: "unat (ucast idx * ucast plen :: u64) = unat idx * unat plen"
    proof -
      have "unat idx * unat plen < 2 ^ 64"
        using mult_strict_mono'[of "unat idx" "2 ^ 32" "unat plen" "2 ^ 32"] unat_u32_lt[of idx] unat_u32_lt[of plen] by simp
      then show ?thesis by (simp add: unat_word_ariths unsigned_ucast_eq take_bit_nat_eq_self)
    qed
    have "unat idx * unat plen < unat limit" using True u by (simp add: word_less_nat_alt)
    then have "unat idx * unat plen < unat n * unat plen" using assms(3) by (rule less_le_trans)
    then have lt: "unat idx < unat n" by simp
    then have "Suc (unat idx) < 4294967296" using unat_u32_lt[of n] by linarith
    then have "unat (idx + 1) = unat idx + 1" by (simp add: unat_word_ariths)
    then have m: "unat n - unat (idx + 1) < unat n - unat idx" using lt by simp
    show ?thesis
    proof (cases "IsSet n choices idx")
      case set: True
      have idx: "idx < n" "unat idx \<in> bf_set n choices" using lt set IsSet_iff[OF assms(1)] by (simp_all add: u32_less_iff)
      note S = Set_ok[OF less.prems idx(1)]
      from less.hyps[OF m, of "Set n idx acc" True] S obtain acc' found' where
        "mark_gap n plen choices limit (idx + 1) (Set n idx acc) True = Some (acc', found')" "bf_inv n acc'"
        "bf_set n acc' \<subseteq> bf_set n (Set n idx acc) \<union> bf_set n choices" by blast
      then show ?thesis using True set S idx(2) by (subst mark_gap.simps) auto
    next
      case False
      from less.hyps[OF m less.prems, of found] True False show ?thesis by (subst mark_gap.simps) simp
    qed
  qed
qed

definition file_fits :: "u32 \<Rightarrow> u32 \<Rightarrow> btfile list \<Rightarrow> bool" where
  "file_fits n plen fs \<longleftrightarrow> list_all (\<lambda>f. bf_staging f \<longrightarrow> unat (bf_offset f) \<le> unat n * unat plen) fs"

lemma file_fits_simps [simp]:
  "file_fits n plen []"
  "file_fits n plen (f # fs) \<longleftrightarrow> (bf_staging f \<longrightarrow> unat (bf_offset f) \<le> unat n * unat plen) \<and> file_fits n plen fs"
  by (simp_all add: file_fits_def)

lemma file_fits_next: "file_fits n plen fs \<Longrightarrow> file_fits n plen (bf_nextreal fs)"
  by (auto simp: file_fits_def bf_nextreal_def list_all_iff dest: set_dropWhileD list.set_sel(2)[rotated])
    (metis list.sel(2) list.set_sel(2) set_dropWhileD)

lemma later_gaps_ok:
  assumes ch: "bf_inv n choices"
  shows "file_fits n plen fs \<Longrightarrow> bf_inv n acc \<Longrightarrow> \<exists>acc'. later_gaps n plen choices fs acc = Some acc' \<and> bf_inv n acc' \<and>
    bf_set n acc' \<subseteq> bf_set n acc \<union> bf_set n choices"
proof (induction fs arbitrary: acc rule: induct_list012)
  case (3 f g fs)
  show ?case
  proof (cases "bf_staging g")
    case True
    let ?idx = "ucast ((bf_offset f + bf_size f) div ucast plen)"
    have "unat (bf_offset g) \<le> unat n * unat plen" using "3.prems"(1) True by simp
    from mark_gap_ok[OF ch "3.prems"(2) this, of ?idx False]
    obtain acc1 found where M: "mark_gap n plen choices (bf_offset g) ?idx acc False = Some (acc1, found)"
      "bf_inv n acc1" "bf_set n acc1 \<subseteq> bf_set n acc \<union> bf_set n choices" by blast
    have "file_fits n plen (g # fs)" using "3.prems"(1) by simp
    from "3.IH"(2)[OF this M(2)] obtain acc2 where "later_gaps n plen choices (g # fs) acc1 = Some acc2" "bf_inv n acc2"
      "bf_set n acc2 \<subseteq> bf_set n acc1 \<union> bf_set n choices" by blast
    then show ?thesis using True M by auto
  qed (use "3.prems" in simp)
qed simp_all

text \<open>What the loop over the files may return.\<close>

definition gap_result :: "u32 \<Rightarrow> bitfield \<Rightarrow> bitfield \<Rightarrow> u32 \<Rightarrow> u32 + bitfield \<times> bitfield \<Rightarrow> bool" where
  "gap_result n choices available preference r \<longleftrightarrow>
     (case r of
        Inl idx \<Rightarrow> idx < n \<and> unat idx \<in> bf_set n available \<union> bf_set n choices
      | Inr (needs, next) \<Rightarrow> bf_inv n needs \<and> bf_inv n next \<and> bf_set n needs \<union> bf_set n next \<subseteq> bf_set n choices)"

lemma gap_loop_ok:
  assumes ch: "bf_inv n choices" and av: "bf_inv n available"
  shows "file_fits n plen fs \<Longrightarrow> bf_inv n needs \<Longrightarrow> bf_inv n next \<Longrightarrow>
    bf_set n needs \<union> bf_set n next \<subseteq> bf_set n choices \<Longrightarrow>
    \<exists>r. gap_loop n plen choices available preference fs needs next = Some r \<and> gap_result n choices available preference r"
proof (induction "length fs" arbitrary: fs needs "next" rule: less_induct)
  case less
  show ?case
  proof (cases "\<exists>f g rest. fs = f # g # rest")
    case False
    then show ?thesis using less.prems
      by (subst gap_loop.simps) (auto simp: gap_result_def split: list.split)
  next
    case True
    then obtain f g rest where fs: "fs = f # g # rest" by blast
    have fit: "file_fits n plen (bf_nextreal fs)" "file_fits n plen (g # rest)"
      using file_fits_next[OF less.prems(1)] less.prems(1) fs by simp_all
    have len: "length (bf_nextreal fs) < length fs"
      using fs by (simp add: bf_nextreal_def less_Suc_eq_le le_SucI length_dropWhile_le)
    note IH = less.hyps[OF len fit(1)]
    let ?idx = "ucast ((bf_offset f + bf_size f) div ucast plen) :: u32"
    show ?thesis
    proof (cases "bf_staging g")
      case False
      then show ?thesis using IH[OF less.prems(2-4)] unfolding fs by (subst gap_loop.simps) simp
    next
      case st: True
      then have "unat (bf_offset g) \<le> unat n * unat plen" using less.prems(1) fs by simp
      from mark_gap_ok[OF ch less.prems(2) this, of ?idx False]
      obtain acc1 found where M: "mark_gap n plen choices (bf_offset g) ?idx needs False = Some (acc1, found)"
        "bf_inv n acc1" "bf_set n acc1 \<subseteq> bf_set n needs \<union> bf_set n choices" by blast
      from later_gaps_ok[OF ch fit(2) less.prems(3)] obtain next1 where L: "later_gaps n plen choices (g # rest) next = Some next1"
        "bf_inv n next1" "bf_set n next1 \<subseteq> bf_set n next \<union> bf_set n choices" by blast
      have R: "\<exists>r. gap_loop n plen choices available preference (bf_nextreal fs) acc1 x = Some r \<and>
          gap_result n choices available preference r" if "x = next \<or> x = next1" for x
        using IH[OF M(2), of x] that L M(3) less.prems by blast
      have I: "IsSet n available ?idx \<Longrightarrow> gap_result n choices available preference (Inl ?idx)"
        "IsSet n choices preference \<Longrightarrow> gap_result n choices available preference (Inl preference)"
        using IsSet_bound[of n available ?idx] IsSet_bound[of n choices preference] IsSet_iff[OF ch] IsSet_iff[OF av]
        by (simp_all add: gap_result_def)
      from I R[of "next"] R[of next1] st M(1) L(1) show ?thesis unfolding fs by (subst gap_loop.simps) (simp add: Let_def)
    qed
  qed
qed

lemma ChoosePiece_ok:
  assumes ch: "bf_inv n choices" and av: "bf_inv n available" and f: "file_fits n plen fs"
  obtains idx where "ChoosePiece n plen fs r choices available preference = Some idx"
    "idx = preference \<or> idx < n \<and> unat idx \<in> bf_set n available \<union> bf_set n choices"
proof -
  have z: "bf_inv n (bf_new n)" "bf_set n (bf_new n) = {}" using new_ok[OF bf_inv_pos[OF ch]] by simp_all
  from gap_loop_ok[OF ch av f z(1) z(1), of preference] z(2) obtain res where
    G: "gap_loop n plen choices available preference fs (bf_new n) (bf_new n) = Some res"
    "gap_result n choices available preference res" by auto
  show thesis
  proof (cases res)
    case (Inl idx)
    then show ?thesis using G that[of idx] by (simp add: ChoosePiece_def gap_result_def)
  next
    case (Inr nn)
    obtain needs "next" where nn: "nn = (needs, next)" by force
    have g: "bf_inv n needs" "bf_inv n next" "bf_set n needs \<union> bf_set n next \<subseteq> bf_set n choices"
      using G(2) Inr nn by (simp_all add: gap_result_def)
    have R: "\<exists>idx. Random n r b = Some idx \<and> idx < n \<and> unat idx \<in> bf_set n available \<union> bf_set n choices"
      if b: "bf_inv n b" "\<not> IsEmpty b" "bf_set n b \<subseteq> bf_set n choices" for b
    proof -
      have "bf_set n b \<noteq> {}" using b(2) IsEmpty_iff[OF b(1)] by simp
      from Random_ok[OF b(1) this, of r] obtain idx where "Random n r b = Some idx" "unat idx \<in> bf_set n b" by blast
      then show ?thesis using b(3) bf_set_subset[OF b(1)] by (auto simp: u32_less_iff)
    qed
    have C: "ChoosePiece n plen fs r choices available preference =
      (if IsEmpty needs then (if IsEmpty next \<or> IsSet n next preference then Some preference else Random n r next)
       else Random n r needs)" using G(1) Inr nn by (simp add: ChoosePiece_def)
    from R[of needs] R[of "next"] g that[unfolded C] show ?thesis
      by (cases "IsEmpty needs"; cases "IsEmpty next \<or> IsSet n next preference") auto
  qed
qed

end
