(* ===== verification/Flow_Progress.thy ===== *)
theory Flow_Progress
  imports Flow_Ok
begin

text \<open>
  The flow of requests returns: the calls of \<^verbatim>\<open>SendRequest\<close> and \<^verbatim>\<open>RequestPiece\<close> end, whatever the state of the
  other peers, and a peer is asked only for pieces it can deliver.
\<close>

section \<open>What the flow of requests leaves alone\<close>

text \<open>The queues, the status and the pieces of the peers, and what is fixed about the content.\<close>

definition view :: "world \<Rightarrow> _" where
  "view w = ((\<lambda>j. (pr_request_q (peer w j), pr_status (peer w j), pr_bitfield (peer w j))), w_pending w, w_head w,
     c_geo (w_content w), c_BF (w_content w))"

lemma view_eqD:
  assumes "view w' = view w"
  shows "pr_request_q (peer w' j) = pr_request_q (peer w j)" "pr_status (peer w' j) = pr_status (peer w j)"
    "pr_bitfield (peer w' j) = pr_bitfield (peer w j)" "w_pending w' = w_pending w" "w_head w' = w_head w"
    "c_geo (w_content w') = c_geo (w_content w)" "c_BF (w_content w') = c_BF (w_content w)"
  using assms fun_cong[of "\<lambda>j. (pr_request_q (peer w' j), pr_status (peer w' j), pr_bitfield (peer w' j))"
      "\<lambda>j. (pr_request_q (peer w j), pr_status (peer w j), pr_bitfield (peer w j))" j]
  by (simp_all add: view_def)

lemma view_upd [simp]:
  "pr_request_q (f (peer w i)) = pr_request_q (peer w i) \<Longrightarrow> pr_status (f (peer w i)) = pr_status (peer w i) \<Longrightarrow>
   pr_bitfield (f (peer w i)) = pr_bitfield (peer w i) \<Longrightarrow> view (upd_peer i f w) = view w"
  by (simp add: view_def fun_eq_iff)

lemma view_fields [simp]:
  "view (w\<lparr>w_dup_req_pieces := d\<rparr>) = view w" "view (w\<lparr>w_endgame := b\<rparr>) = view w" "view (w\<lparr>w_rnd := k\<rparr>) = view w"
  "view (w\<lparr>w_slices := k\<rparr>) = view w" "view (mult_peer idx w) = view w" "view (DontWaitDL i w) = view w"
  "view (DontWaitUL i w) = view w" "view (RecalcDupReqs w) = view w"
  by (simp_all add: view_def mult_peer_def upd_content_def DontWaitDL_def DontWaitUL_def RecalcDupReqs_def Let_def case_prod_beta)

lemma view_fold:
  assumes "\<And>i w. view (f i w) = view w"
  shows "view (fold f is w) = view w"
  using assms by (induction "is" arbitrary: w) simp_all

lemma view_ops [simp]:
  "view (snd (on_stream i f w)) = view w" "view (fix_req_out i w) = view w" "view (snd (RateDL e i w)) = view w"
  "view (snd (NominalDL i w)) = view w" "view (UnStandby w) = view w" "view (StopDLTimer e i w) = view w"
  "view (StopULTimer e i w) = view w" "view (StartDLTimer i w) = view w"
  by (simp_all add: on_stream_def case_prod_beta fix_req_out_def RateDL_def NominalDL_def UnStandby_def view_fold
      StopDLTimer_def StopULTimer_def StartDLTimer_def)

lemma view_Endgame [simp]: "view (snd (Endgame w)) = view w"
  by (simp add: Endgame_def Let_def)

lemma view_stamp_now [simp]: "view (snd (stamp_now e len i w)) = view w"
  by (simp add: stamp_now_def Let_def case_prod_beta)

lemma view_abandon_loop: "view (snd (abandon_loop proposer is best w)) = view w"
proof (induction "is" arbitrary: best w)
  case (Cons i "is")
  show ?case by (simp add: Let_def case_prod_beta Cons.IH split: option.split)
qed simp

lemma view_Who_Can_Abandon [simp]: "view (snd (Who_Can_Abandon i w)) = view w"
  by (simp add: Who_Can_Abandon_def view_abandon_loop)

lemma view_What_Can_Duplicate [simp]: "view (snd (What_Can_Duplicate e bf i idx w)) = view w"
  by (simp add: What_Can_Duplicate_def Let_def split: option.split)

lemma view_cancel_one [simp]: "view (snd (cancel_one e i idx s w)) = view w"
  by (simp add: cancel_one_def Let_def case_prod_beta)

lemma view_cancel_piece_loop [simp]: "view (snd (cancel_piece_loop e i idx ss w)) = view w"
  by (induction ss arbitrary: idx w) (simp_all add: Let_def case_prod_beta)

section \<open>One step of the flow\<close>

definition qidx :: "world \<Rightarrow> nat \<Rightarrow> u32 set" where
  "qidx w j = p_index ` set (rq_head (pr_request_q (peer w j)))"

abbreviation own_slices :: "nat \<Rightarrow> world \<Rightarrow> nat" where
  "own_slices i w \<equiv> nslices (pr_request_q (peer w i))"

definition all_short :: "world \<Rightarrow> bool" where
  "all_short w \<longleftrightarrow> short (w_pending w) \<and> (\<forall>j. short (pr_request_q (peer w j)))"

text \<open>The pieces peer \<open>i\<close> may be asked for: it has them, and the client does not or still asks another peer for them.\<close>

definition askable :: "nat \<Rightarrow> world \<Rightarrow> u32 set" where
  "askable i w = {idx. idx < npieces w \<and> unat idx \<in> has w i \<and>
     (unat idx \<notin> bf_set (npieces w) (c_BF (w_content w)) \<or> (\<exists>j. j \<noteq> i \<and> idx \<in> qidx w j))}"

definition ready :: "nat \<Rightarrow> world \<Rightarrow> bool" where
  "ready i w \<longleftrightarrow> world_ok w \<and> all_short w \<and> i \<in> connected w"

text \<open>\<open>w'\<close> comes later: other peers lost at most requests.\<close>

definition later :: "nat \<Rightarrow> world \<Rightarrow> world \<Rightarrow> bool" where
  "later i w w' \<longleftrightarrow> ready i w' \<and> w_head w' = w_head w \<and> c_geo (w_content w') = c_geo (w_content w) \<and>
     c_BF (w_content w') = c_BF (w_content w) \<and> pr_bitfield (peer w' i) = pr_bitfield (peer w i) \<and>
     (\<forall>j. j \<noteq> i \<longrightarrow> qidx w' j \<subseteq> qidx w j)"

definition calm :: "nat \<Rightarrow> world \<Rightarrow> world \<Rightarrow> bool" where
  "calm i w w' \<longleftrightarrow> later i w w' \<and> own_slices i w' = own_slices i w \<and> qidx w' i = qidx w i"

definition grown :: "nat \<Rightarrow> world \<Rightarrow> world \<Rightarrow> bool" where
  "grown i w w' \<longleftrightarrow> later i w w' \<and> own_slices i w < own_slices i w' \<and> own_slices i w' < own_slices i w + 2147483648 \<and>
     qidx w' i \<subseteq> qidx w i \<union> askable i w"

lemma later_refl: "ready i w \<Longrightarrow> later i w w"
  by (simp add: later_def)

lemma later_trans: "later i w w' \<Longrightarrow> later i w' w'' \<Longrightarrow> later i w w''"
  by (fastforce simp: later_def)

lemma askable_later: "later i w w' \<Longrightarrow> askable i w' \<subseteq> askable i w"
  by (fastforce simp: askable_def later_def has_def)

lemma calm_refl: "ready i w \<Longrightarrow> calm i w w"
  by (simp add: calm_def later_refl)

lemma calm_trans: "calm i w w' \<Longrightarrow> calm i w' w'' \<Longrightarrow> calm i w w''"
  by (auto simp: calm_def intro: later_trans)

lemma calm_grown: "calm i w w' \<Longrightarrow> grown i w' w'' \<Longrightarrow> grown i w w''"
  using askable_later[of i w w'] by (auto simp: calm_def grown_def intro: later_trans)

lemma grown_calm: "grown i w w' \<Longrightarrow> calm i w' w'' \<Longrightarrow> grown i w w''"
  by (auto simp: calm_def grown_def intro: later_trans)

lemma calm_ready: "calm i w w' \<Longrightarrow> ready i w'"
  by (simp add: calm_def later_def)

lemma grown_ready: "grown i w w' \<Longrightarrow> ready i w'"
  by (simp add: grown_def later_def)

lemma view_all_short: "view w' = view w \<Longrightarrow> all_short w' = all_short w"
  using view_eqD[of w' w] by (simp add: all_short_def)

lemma view_calm:
  assumes "ready i w" "view w' = view w" "world_ok w'"
  shows "calm i w w'"
  using assms(1,3) view_eqD[OF assms(2)] view_all_short[OF assms(2)]
  by (simp add: calm_def later_def ready_def connected_def qidx_def)

text \<open>The own queue is replaced.\<close>

lemma own_step:
  assumes r: "ready i w" and ok: "world_ok w'" and v: "view w' = view (upd_peer i (\<lambda>p. p\<lparr>pr_request_q := q\<rparr>) w)" and s: "short q"
  shows "later i w w'" "own_slices i w' = nslices q" "qidx w' i = p_index ` set (rq_head q)"
proof -
  note V = view_eqD[OF v]
  have "pr_request_q (peer w' i) = q" by (simp add: V)
  then show "own_slices i w' = nslices q" "qidx w' i = p_index ` set (rq_head q)" by (simp_all add: qidx_def)
  have "pr_status (peer w' i) = pr_status (peer w i)" "pr_bitfield (peer w' i) = pr_bitfield (peer w i)" by (simp_all add: V)
  then show "later i w w'" using r ok s V
    by (auto simp: later_def ready_def connected_def all_short_def qidx_def)
qed

lemma own_calm:
  assumes "ready i w" "world_ok w'" "view w' = view (upd_peer i (\<lambda>p. p\<lparr>pr_request_q := q\<rparr>) w)" "short q"
    "nslices q = own_slices i w" "p_index ` set (rq_head q) = qidx w i"
  shows "calm i w w'"
  using own_step[OF assms(1-4)] assms(5,6) by (simp add: calm_def)

text \<open>Another peer loses requests.\<close>

lemma other_calm:
  assumes r: "ready i w" and ok: "world_ok w'" and j: "j \<noteq> i"
    and peers: "\<And>k. k \<noteq> j \<Longrightarrow> pr_request_q (peer w' k) = pr_request_q (peer w k) \<and> pr_status (peer w' k) = pr_status (peer w k) \<and>
      pr_bitfield (peer w' k) = pr_bitfield (peer w k)"
    and same: "w_head w' = w_head w" "c_geo (w_content w') = c_geo (w_content w)" "c_BF (w_content w') = c_BF (w_content w)"
    and q: "qidx w' j \<subseteq> qidx w j" "short (pr_request_q (peer w' j))" "short (w_pending w')"
  shows "calm i w w'"
proof -
  have "qidx w' k \<subseteq> qidx w k" if "k \<noteq> i" for k using q(1) peers[of k] by (cases "k = j") (simp_all add: qidx_def)
  moreover have "all_short w'" using r q(2,3) peers by (auto simp: all_short_def ready_def) metis
  ultimately show ?thesis using r ok same peers[of i] j
    by (simp add: calm_def later_def ready_def connected_def qidx_def)
qed

lemma qidx_Delete: "p_index ` set (rq_head (snd (Delete q idx))) \<subseteq> p_index ` set (rq_head q)"
  by (cases rule: FindPiece_cases[of idx "rq_head q"]) (auto simp: Delete_def)

lemma ready_ok: "ready i w \<Longrightarrow> world_ok w" and ready_short: "ready i w \<Longrightarrow> short (pr_request_q (peer w j))"
  and ready_pending: "ready i w \<Longrightarrow> short (w_pending w)"
  by (simp_all add: ready_def all_short_def)

lemma CancelPiece_calm:
  assumes r: "ready i w" and j: "j \<noteq> i"
  shows "calm i w (snd (CancelPiece e idx j w))"
proof (cases rule: FindPiece_cases[of idx "rq_head (pr_request_q (peer w j))"])
  case none
  then show ?thesis using calm_refl[OF r] by (simp add: CancelPiece_def)
next
  case (some before p after)
  obtain k w1 where L: "cancel_piece_loop e j (e_junk e) (p_slices p) w = (k, w1)" by force
  have ok1: "world_ok w1" using world_ok_cancel_piece_loop[OF ready_ok[OF r], of e j "e_junk e" "p_slices p"] L by simp
  have v1: "view w1 = view w" using view_cancel_piece_loop[of e j "e_junk e" "p_slices p" w] L by simp
  have c1: "calm i w w1" by (rule view_calm[OF r v1 ok1])
  define w2 where "w2 = upd_peer j (\<lambda>p. p\<lparr>pr_request_q := snd (Delete (pr_request_q p) idx)\<rparr>) w1"
  have c2: "calm i w1 w2"
  proof (rule other_calm[OF calm_ready[OF c1] _ j])
    show "world_ok w2" unfolding w2_def by (rule world_ok_shrink(1)[OF ok1])
    show "qidx w2 j \<subseteq> qidx w1 j" using qidx_Delete[of "pr_request_q (peer w1 j)" idx] by (simp add: qidx_def w2_def)
    show "short (pr_request_q (peer w2 j))" using short_Delete[OF ready_short[OF calm_ready[OF c1]]] by (simp add: w2_def)
    show "short (w_pending w2)" using ready_pending[OF calm_ready[OF c1]] by (simp add: w2_def)
  qed (simp_all add: w2_def)
  let ?w3 = "stop_if_idle e j w2"
  let ?w4 = "if pr_req_out (peer ?w3 j) = 0 then DontWaitDL j ?w3 else ?w3"
  have "world_ok ?w3" by (rule world_ok_stop_if_idle[OF ready_ok[OF calm_ready[OF c2]]])
  then have ok4: "world_ok ?w4" using world_ok_DontWait(1) by simp
  have "view ?w4 = view w2" by (simp add: stop_if_idle_def)
  from calm_trans[OF calm_trans[OF c1 c2] view_calm[OF calm_ready[OF c2] this ok4]] have c4: "calm i w ?w4" .
  have "snd (CancelPiece e idx j w) = (if k < 0 then w1 else ?w4)"
    using some L by (simp add: CancelPiece_def Let_def w2_def)
  then show ?thesis using c1 c4 by simp
qed

lemma PutPending_other:
  assumes "k \<noteq> j"
  shows "pr_request_q (peer (PutPending e j w) k) = pr_request_q (peer w k)" "pr_bitfield (peer (PutPending e j w) k) = pr_bitfield (peer w k)"
  using assms view_eqD[OF view_ops(5)] view_eqD[OF view_fields(8)]
  by (simp_all add: PutPending_def Let_def case_prod_beta)

lemma PutPending_same:
  "w_head (PutPending e j w) = w_head w" "w_content (PutPending e j w) = w_content w"
  using view_eqD(5)[OF view_ops(5)] view_eqD(5)[OF view_fields(8)] RecalcDupReqs_def
  by (simp_all add: PutPending_def Let_def case_prod_beta RecalcDupReqs_def)

lemma short_empty: "IsEmpty_q q \<Longrightarrow> short q"
  by (simp add: short_def IsEmpty_q_def)

lemma PutPending_short:
  assumes "short (pr_request_q (peer w j))" "short (w_pending w)"
  shows "short (w_pending (PutPending e j w))"
proof -
  obtain ok q d where T: "Transfer (c_geo (w_content w)) (cfg_req_slice_size e) True (pr_request_q (peer w j)) (w_pending w) = (ok, q, d)"
    by (metis prod_cases3)
  from short_Transfer[OF T assms] assms T show ?thesis
    using view_eqD(4)[OF view_ops(5)] view_eqD(4)[OF view_fields(8)] by (simp add: PutPending_def Let_def)
qed

lemma CloseConnection_calm:
  assumes r: "ready i w" and j: "j \<noteq> i"
  shows "calm i w (CloseConnection e j w)"
proof (cases "is_failed w j")
  case True
  then show ?thesis using view_calm[OF r, of "DontWaitDL j (DontWaitUL j w)"] world_ok_DontWait ready_ok[OF r]
    by (simp add: CloseConnection_def)
next
  case False
  define v where "v = upd_peer j (\<lambda>p. p\<lparr>pr_stream := st_Close (pr_stream p)\<rparr>)
    (StopULTimer e j (StopDLTimer e j (upd_peer j (\<lambda>p. p\<lparr>pr_status := DT_PEER_FAILED\<rparr>) w)))"
  have C: "CloseConnection e j w = DontWaitDL j (DontWaitUL j (PutPending e j v))" using False by (simp add: CloseConnection_def v_def)
  have ok: "world_ok (CloseConnection e j w)" by (rule world_ok_CloseConnection[OF ready_ok[OF r]])
  have v: "pr_request_q (peer v k) = pr_request_q (peer w k)" "pr_bitfield (peer v k) = pr_bitfield (peer w k)"
    "k \<noteq> j \<Longrightarrow> pr_status (peer v k) = pr_status (peer w k)" "w_pending v = w_pending w" "w_head v = w_head w" "w_content v = w_content w" for k
    by (simp_all add: v_def StopULTimer_def StopDLTimer_def)
  have e: "IsEmpty_q (pr_request_q (peer (CloseConnection e j w) j))"
    using world_okD(9)[OF ok _ CloseConnection_failed] by simp
  show ?thesis
  proof (rule other_calm[OF r ok j])
    show "qidx (CloseConnection e j w) j \<subseteq> qidx w j" using e by (simp add: qidx_def IsEmpty_q_def)
    show "short (pr_request_q (peer (CloseConnection e j w) j))" by (rule short_empty[OF e])
    show "short (w_pending (CloseConnection e j w))"
      using PutPending_short[of v j e] ready_short[OF r, of j] ready_pending[OF r] v view_eqD(4)[OF view_fields(6)] view_eqD(4)[OF view_fields(7)]
      by (simp add: C)
    show "w_head (CloseConnection e j w) = w_head w"
      using view_eqD(5)[OF view_fields(6)] view_eqD(5)[OF view_fields(7)] by (simp add: C PutPending_same v)
  qed (simp_all add: C v PutPending_other PutPending_same)
qed

lemma MoveLast_idx: 
  assumes "rq_inv a q"
  shows "p_index ` set (rq_head (MoveLast q idx off len)) = p_index ` set (rq_head q)"
proof (cases rule: FindPiece_cases[of idx "rq_head q"])
  case (some before p after)
  note P = this
  have h: "head_ok (before @ p # after)" using rq_invD(1)[OF assms] some(2) by simp
  note p = head_ok_piece[OF h]
  show ?thesis
  proof (cases rule: find_in_piece_cases[of idx off len "p_slices p"])
    case (some u s v)
    have "sl_index x = p_index p" if "x \<in> set (u @ s # v)" for x using p(3) that unfolding some(2) by blast
    then have "p_index (p\<lparr>p_slices := u @ v @ [s\<lparr>sl_sent := False\<rparr>]\<rparr>) = p_index p" if "v \<noteq> []"
      using that by (cases u; cases v) auto
    then show ?thesis using P some by (cases v) (auto simp: MoveLast_def)
  qed (use P in \<open>simp add: MoveLast_def\<close>)
qed (simp add: MoveLast_def)

lemma view_own: "pr_request_q (f (peer w i)) = q \<Longrightarrow> pr_status (f (peer w i)) = pr_status (peer w i) \<Longrightarrow>
   pr_bitfield (f (peer w i)) = pr_bitfield (peer w i) \<Longrightarrow> view (upd_peer i f w) = view (upd_peer i (\<lambda>p. p\<lparr>pr_request_q := q\<rparr>) w)"
  by (simp add: view_def fun_eq_iff)

lemma MoveLast_calm:
  assumes "ready i w"
  shows "calm i w (upd_peer i (\<lambda>p. p\<lparr>pr_request_q := MoveLast (pr_request_q p) idx off len\<rparr>) w)"
  by (rule own_calm[OF assms world_ok_shrink(3)[OF ready_ok[OF assms]] view_own[OF _ _ _, where q = "MoveLast (pr_request_q (peer w i)) idx off len"]])
    (simp_all add: short_MoveLast ready_short[OF assms] MoveLast_idx[OF world_okD(4)[OF ready_ok[OF assms]]] qidx_def)

lemma compare_step_calm:
  assumes "ready i w"
  shows "calm i w (snd (compare_step i idx j (ol, w)))"
  using calm_refl[OF assms] MoveLast_calm[OF assms]
  by (cases ol) (auto simp: compare_step_def Let_def split: option.split)

lemma CompareRequest_calm:
  assumes "ready i w"
  shows "calm i w (CompareRequest i idx w)"
proof -
  have "calm i w (snd (fold (compare_step i idx) js (ol, v)))" if "calm i w v" for js ol v
    using that
  proof (induction js arbitrary: ol v)
    case (Cons j js)
    obtain ol' v' where S: "compare_step i idx j (ol, v) = (ol', v')" by (metis surj_pair)
    have "calm i w v'" using calm_trans[OF Cons.prems compare_step_calm[OF calm_ready[OF Cons.prems], of idx j ol]] S by simp
    from Cons.IH[OF this] show ?case by (simp add: S)
  qed simp
  from this[OF calm_refl[OF assms]] calm_refl[OF assms] show ?thesis
    by (simp add: CompareRequest_def split: option.split)
qed

lemma mult_peer_ok: "world_okx F w \<Longrightarrow> world_okx F (mult_peer idx w)"
  using Set_any[of "npieces w" "c_BMultPeer (w_content w)" idx]
  by (simp add: world_okx_def mult_peer_def upd_content_def content_ok_def Let_def no_failed_def split: option.splits)

lemma mult_peer_calm: "ready i w \<Longrightarrow> calm i w (mult_peer idx w)"
  by (rule view_calm) (simp_all add: mult_peer_ok ready_ok)

section \<open>Sending what is queued\<close>

lemma sent_step:
  assumes r: "ready i w"
  obtains q where "Sent (pr_request_q (peer w i)) t = Some q"
    "calm i w (upd_peer i (\<lambda>p. p\<lparr>pr_request_q := q, pr_req_out := pr_req_out p + 1\<rparr>) w)"
proof -
  note W = world_okD(1,4)[OF ready_ok[OF r], of i]
  obtain q where S: "Sent (pr_request_q (peer w i)) t = Some q" "rq_inv (w_slices w) q" "addrs q = addrs (pr_request_q (peer w i))"
    "nslices q = own_slices i w" "short q" "p_index ` set (rq_head q) = qidx w i" "IsEmpty_q q = IsEmpty_q (pr_request_q (peer w i))"
    by (rule Sent_some[OF W(2), of t]) (use ready_short[OF r, of i] in \<open>auto simp: qidx_def\<close>)
  let ?f = "\<lambda>p. p\<lparr>pr_request_q := q, pr_req_out := pr_req_out p + 1\<rparr>"
  have "world_ok (upd_peer i ?f w)"
    by (rule world_ok_upd_same[OF ready_ok[OF r]]) (use S W in \<open>simp_all add: peer_ok_def\<close>)
  moreover have "view (upd_peer i ?f w) = view (upd_peer i (\<lambda>p. p\<lparr>pr_request_q := q\<rparr>) w)" by (rule view_own) simp_all
  ultimately show thesis using own_calm[OF r _ _ S(5,4,6)] S(1) that by blast
qed

lemma stamp_now_calm:
  assumes "ready i w"
  shows "calm i w (snd (stamp_now e len i w))"
  by (rule view_calm[OF assms view_stamp_now])
    (simp add: stamp_now_def Let_def case_prod_beta world_ok_timers ready_ok[OF assms])

lemma send_loop_calm:
  "ready i w \<Longrightarrow> \<exists>r w'. send_loop e k first i w = Some (r, w') \<and> calm i w w'"
proof (induction k arbitrary: first w)
  case (Suc k)
  show ?case
  proof (cases "pr_req_out (peer w i) < pr_req_send (peer w i)")
    case True
    show ?thesis
    proof (cases "PeekSend (pr_request_q (peer w i))")
      case (Some s)
      obtain r1 w1 where R: "on_stream i (Send_Request (e_buf_mem e) (sl_index s) (sl_offset s) (sl_length s)) w = (r1, w1)" by force
      have "world_ok w1" using world_ok_send(4)[OF ready_ok[OF Suc.prems], of i "e_buf_mem e" "sl_index s" "sl_offset s" "sl_length s"] R by simp
      then have c1: "calm i w w1"
        using view_calm[OF Suc.prems, of w1] view_ops(1)[of i "Send_Request (e_buf_mem e) (sl_index s) (sl_offset s) (sl_length s)" w] R by simp
      define w2 where "w2 = upd_peer i (\<lambda>p. p\<lparr>pr_last_req_piece := sl_index s\<rparr>) w1"
      have "core ((\<lambda>p. p\<lparr>pr_last_req_piece := sl_index s\<rparr>) (peer w1 i)) = core (peer w1 i)" by (simp add: core_def)
      then have "world_ok w2" unfolding w2_def using world_ok_field[OF ready_ok[OF calm_ready[OF c1]]] by blast
      then have c2: "calm i w1 w2" using view_calm[OF calm_ready[OF c1]] by (simp add: w2_def)
      obtain stamp w3 where T: "(if first then stamp_now e (sl_length s) i w2 else (False, w2)) = (stamp, w3)" by force
      have c3: "calm i w2 w3"
        using stamp_now_calm[OF calm_ready[OF c2], of e "sl_length s"] calm_refl[OF calm_ready[OF c2]] T by (auto split: if_splits)
      define w4 where "w4 = (\<lambda>q. upd_peer i (\<lambda>p. p\<lparr>pr_request_q := q, pr_req_out := pr_req_out p + 1\<rparr>) w3)"
      from sent_step[OF calm_ready[OF c3], of "if stamp then w_now w3 else 0"] obtain q where
        q: "Sent (pr_request_q (peer w3 i)) (if stamp then w_now w3 else 0) = Some q" "calm i w3 (w4 q)"
        unfolding w4_def by blast
      note c = calm_trans[OF calm_trans[OF calm_trans[OF c1 c2] c3] q(2)]
      have "send_loop e (Suc k) first i w = (if r1 < 0 then Some (-1, w1) else send_loop e k (first \<and> \<not> stamp) i (w4 q))"
        using True Some q(1) by (simp add: R w2_def[symmetric] T w4_def)
      then show ?thesis using Suc.IH[OF calm_ready[OF c], of "first \<and> \<not> stamp"] c1 calm_trans[OF c] by (cases "r1 < 0") auto
    qed (use True calm_refl[OF Suc.prems] in simp)
  qed (use calm_refl[OF Suc.prems] in simp)
qed (simp add: calm_refl)

lemma fix_req_out_calm: "ready i w \<Longrightarrow> calm i w (fix_req_out i w)"
  by (rule view_calm) (simp_all add: world_ok_fix_req_out ready_ok)

lemma send_batch_calm:
  assumes "ready i w"
  shows "\<exists>r w'. send_batch e i w = Some (r, w') \<and> calm i w w'"
proof -
  note c0 = fix_req_out_calm[OF assms]
  from send_loop_calm[OF calm_ready[OF c0], of e 5 True] obtain r w1 where
    L: "send_loop e 5 True i (fix_req_out i w) = Some (r, w1)" "calm i (fix_req_out i w) w1" by blast
  let ?w2 = "upd_peer i (\<lambda>p. p\<lparr>pr_receive_time := w_now w1\<rparr>) w1"
  have "calm i w1 ?w2"
    by (rule view_calm[OF calm_ready[OF L(2)]]) (simp_all add: world_ok_upd_core ready_ok[OF calm_ready[OF L(2)]])
  then show ?thesis using L calm_trans[OF c0] calm_trans[OF L(2)] c0 by (auto simp: send_batch_def Let_def)
qed

section \<open>New requests\<close>

lemma extended_more:
  assumes "extended idx (rq_head d) k q" "0 < k"
  shows "nslices q = nslices d + k" "p_index ` set (rq_head q) = insert idx (p_index ` set (rq_head d))" "rq_send q \<noteq> None"
    "short d \<Longrightarrow> k < 2147483648 \<Longrightarrow> short q"
  using assms by (auto simp: extended_def nslices_def all_slices_def short_def)

lemma own_grown:
  assumes r: "ready i w" and ok: "world_ok w'" and v: "view w' = view (upd_peer i (\<lambda>p. p\<lparr>pr_request_q := q\<rparr>) w)"
    and x: "extended idx (rq_head (pr_request_q (peer w i))) k q" "0 < k" "k < 2147483648" and a: "idx \<in> askable i w"
  shows "grown i w w'"
proof -
  note E = extended_more[OF x(1,2)]
  have "short q" by (rule E(4)[OF ready_short[OF r] x(3)])
  from own_step[OF r ok v this] E x(2,3) a show ?thesis by (auto simp: grown_def qidx_def)
qed

text \<open>What holds whether or not memory runs out.\<close>

definition queue_grows :: "u32 \<Rightarrow> nat \<Rightarrow> rqueue \<Rightarrow> nat \<Rightarrow> rqueue \<Rightarrow> bool" where
  "queue_grows idx a q a' q' \<longleftrightarrow> rq_inv a' q' \<and> a \<le> a' \<and> addrs q' \<subseteq> addrs q \<union> {a..} \<and>
     p_index ` set (rq_head q') \<subseteq> insert idx (p_index ` set (rq_head q))"

lemma queue_grows_trans: "queue_grows idx a q a1 q1 \<Longrightarrow> queue_grows idx a1 q1 a2 q2 \<Longrightarrow> queue_grows idx a q a2 q2"
proof -
  assume "queue_grows idx a q a1 q1" "queue_grows idx a1 q1 a2 q2"
  then have g: "rq_inv a2 q2" "a \<le> a1" "a1 \<le> a2" "addrs q1 \<subseteq> addrs q \<union> {a..}" "addrs q2 \<subseteq> addrs q1 \<union> {a1..}"
    "p_index ` set (rq_head q1) \<subseteq> insert idx (p_index ` set (rq_head q))"
    "p_index ` set (rq_head q2) \<subseteq> insert idx (p_index ` set (rq_head q1))"
    by (simp_all add: queue_grows_def)
  have "{a1..} \<subseteq> addrs q \<union> {a..}" using g(2) by auto
  then have "addrs q2 \<subseteq> addrs q \<union> {a..}" by (intro subset_trans[OF g(5)] Un_least g(4))
  moreover have "p_index ` set (rq_head q2) \<subseteq> insert idx (p_index ` set (rq_head q))"
    by (rule subset_trans[OF g(7)]) (use g(6) in simp)
  ultimately show ?thesis using g(1-3) by (simp add: queue_grows_def)
qed

lemma queue_grows_refl: "rq_inv a q \<Longrightarrow> queue_grows idx a q a q"
  by (auto simp: queue_grows_def)

lemma Add_grows:
  assumes "rq_inv a q" "Add mem a q idx off len = (ok, a', q')"
  shows "queue_grows idx a q a' q'"
proof -
  have "p_index ` set (rq_head q') \<subseteq> insert idx (p_index ` set (rq_head q))"
  proof (cases rule: FindPiece_cases[of idx "rq_head q"])
    case none
    then show ?thesis using assms(2) by (auto simp: Add_def Let_def new_slice_def split: if_splits)
  next
    case (some before p after)
    have h: "head_ok (before @ p # after)" using rq_invD(1)[OF assms(1)] some(2) by simp
    have "rq_head q' = rq_head q \<or> rq_head q' = before @ p\<lparr>p_count := p_count p + 1, p_slices := p_slices p @ [new_slice a idx off len]\<rparr> # after"
      using some assms(2) by (auto simp: Add_def Let_def split: if_splits)
    moreover have "p_index (p\<lparr>p_count := p_count p + 1, p_slices := p_slices p @ [new_slice a idx off len]\<rparr>) = p_index p"
      using head_ok_piece(2)[OF h] by simp
    ultimately show ?thesis using some(2) by (elim disjE) (simp_all add: image_Un subset_insertI)
  qed
  then show ?thesis using Add_ok[OF assms] addrs_Add[OF assms(2)] by (auto simp: queue_grows_def)
qed

lemma Copy_loop_grows:
  "rq_inv a d \<Longrightarrow> Copy_loop mem a ss d idx = (r, a', d') \<Longrightarrow> \<forall>s\<in>set ss. sl_index s = idx \<Longrightarrow> queue_grows idx a d a' d'"
proof (induction ss arbitrary: a d)
  case (Cons s ss)
  obtain ok a1 d1 where A: "Add mem a d (sl_index s) (sl_offset s) (sl_length s) = (ok, a1, d1)" by (metis prod_cases3)
  have g: "queue_grows idx a d a1 d1" using Add_grows[OF Cons.prems(1) A] Cons.prems(3) by simp
  then have i: "rq_inv a1 d1" by (simp add: queue_grows_def)
  show ?case
  proof (cases ok)
    case True
    then have "Copy_loop mem a1 ss d1 idx = (r, a', d')" using Cons.prems(2) A by simp
    from queue_grows_trans[OF g Cons.IH[OF i this]] Cons.prems(3) show ?thesis by simp
  next
    case False
    then have "a' = a1" "d' = snd (Delete d1 idx)" using Cons.prems(2) A by simp_all
    moreover have "queue_grows idx a1 d1 a1 (snd (Delete d1 idx))"
      using Delete_ok[OF i] addrs_Delete[of d1 idx] qidx_Delete[of d1 idx] by (auto simp: queue_grows_def)
    ultimately show ?thesis using queue_grows_trans[OF g] by simp
  qed
qed (simp add: queue_grows_refl)

lemma Copy_grows:
  assumes "rq_inv a d" "rq_inv b q" "Copy mem a q d idx = (r, a', d')"
  shows "queue_grows idx a d a' d'"
proof (cases rule: FindPiece_cases[of idx "rq_head q"])
  case none
  then show ?thesis using assms(3) queue_grows_refl[OF assms(1)] by (simp add: Copy_def split: if_splits)
next
  case (some before p after)
  have h: "head_ok (before @ p # after)" using rq_invD(1)[OF assms(2)] some(2) by simp
  show ?thesis
  proof (cases "HasPiece d idx")
    case False
    then have "Copy_loop mem a (p_slices p) d idx = (r, a', d')" using some(1) assms(3) by (simp add: Copy_def)
    from Copy_loop_grows[OF assms(1) this] head_ok_piece(3)[OF h] some(3) show ?thesis by blast
  qed (use assms(3) queue_grows_refl[OF assms(1)] in \<open>simp add: Copy_def\<close>)
qed

lemma AddPiece_loop_grows:
  "rq_inv a q \<Longrightarrow> 0 < ss \<Longrightarrow> \<exists>r a' q'. AddPiece_loop mem ss idx a q off remain = Some (r, a', q') \<and> queue_grows idx a q a' q'"
proof (induction "unat remain" arbitrary: a q off remain rule: less_induct)
  case less
  show ?case
  proof (cases "remain = 0")
    case True
    then show ?thesis using less.prems by (subst AddPiece_loop.simps) (simp add: queue_grows_refl)
  next
    case False
    let ?len = "if remain < ss then remain else ss"
    obtain ok a1 q1 where A: "Add mem a q idx off ?len = (ok, a1, q1)" by (metis prod_cases3)
    note g = Add_grows[OF less.prems(1) A]
    have l: "?len \<le> remain" "0 < ?len" using False less.prems(2) by (auto simp: word_gt_0 not_less)
    then have "unat (remain - ?len) < unat remain"
      using u32_diff[of ?len remain] by (simp add: u32_less_iff u32_le_iff)
    from less.hyps[OF this _ less.prems(2), of a1 q1 "off + ?len"] g obtain r a2 q2 where
      L: "AddPiece_loop mem ss idx a1 q1 (off + ?len) (remain - ?len) = Some (r, a2, q2)" "queue_grows idx a1 q1 a2 q2"
      by (auto simp: queue_grows_def)
    have "AddPiece_loop mem ss idx a q off remain = (if ok then Some (r, a2, q2) else Some (-1, a1, q1))"
      using A L(1) False by (subst AddPiece_loop.simps) (simp add: Let_def)
    then show ?thesis using g queue_grows_trans[OF g L(2)] by (cases ok) auto
  qed
qed

lemma grows_world_ok:
  assumes r: "ready i w" and g: "queue_grows idx (w_slices w) (pr_request_q (peer w i)) a q"
  shows "world_ok ((upd_peer i (\<lambda>p. p\<lparr>pr_request_q := q\<rparr>) w)\<lparr>w_slices := a\<rparr>)"
proof (rule world_ok_upd[OF ready_ok[OF r]])
  have "is_success w i" using r by (simp add: ready_def connected_def)
  then show "peer_ok (i \<in> {}) (npieces w) a ((\<lambda>p. p\<lparr>pr_request_q := q\<rparr>) (peer w i))"
    using world_okD(1)[OF ready_ok[OF r], of i] g rq_inv_mono by (auto simp: peer_ok_def queue_grows_def)
qed (use g in \<open>auto simp: queue_grows_def\<close>)

text \<open>The result of a step that gives up: the data are in order and no piece was asked for that may not be.\<close>

definition settled :: "nat \<Rightarrow> world \<Rightarrow> world \<Rightarrow> bool" where
  "settled i w w' \<longleftrightarrow> world_ok w' \<and> qidx w' i \<subseteq> qidx w i \<union> askable i w"

lemma calm_settled: "calm i w w' \<Longrightarrow> settled i w w'"
  by (auto simp: calm_def settled_def later_def ready_def)

lemma later_settled: "calm i w w' \<or> grown i w w' \<Longrightarrow> settled i w' w'' \<Longrightarrow> settled i w w''"
  using askable_later[of i w w'] by (auto simp: calm_def grown_def settled_def)

lemma grows_settled:
  assumes r: "ready i w" and g: "queue_grows idx (w_slices w) (pr_request_q (peer w i)) a q" and a: "idx \<in> askable i w"
    and v: "view w' = view (upd_peer i (\<lambda>p. p\<lparr>pr_request_q := q\<rparr>) w)" "world_ok w'"
  shows "settled i w w'"
  using g a v(2) view_eqD(1)[OF v(1), of i] by (auto simp: settled_def qidx_def queue_grows_def)

lemma copy_requests_step:
  assumes r: "ready i w" and idx: "idx \<in> askable i w" "HasPiece (pr_request_q (peer w j)) idx" "\<not> HasPiece (pr_request_q (peer w i)) idx"
    and c: "copy_requests e idx j i w = (res, w')"
  shows "settled i w w'" "0 \<le> res \<Longrightarrow> grown i w w' \<and> rq_send (pr_request_q (peer w' i)) \<noteq> None"
proof -
  note Q = world_okD(4)[OF ready_ok[OF r]]
  obtain a q where C: "Copy (e_mem e) (w_slices w) (pr_request_q (peer w j)) (pr_request_q (peer w i)) idx = (res, a, q)"
    and w': "w' = (upd_peer i (\<lambda>p. p\<lparr>pr_request_q := q\<rparr>) w)\<lparr>w_slices := a\<rparr>"
    using c by (auto simp: copy_requests_def split: prod.splits)
  note g = Copy_grows[OF Q[of i] Q[of j] C]
  have ok: "world_ok w'" unfolding w' by (rule grows_world_ok[OF r g])
  have v: "view w' = view (upd_peer i (\<lambda>p. p\<lparr>pr_request_q := q\<rparr>) w)" by (simp add: w')
  show "settled i w w'" by (rule grows_settled[OF r g idx(1) v ok])
  assume "0 \<le> res"
  from Copy_extends[OF C this idx(3,2) Q[of j]] obtain p where
    p: "p \<in> set (rq_head (pr_request_q (peer w j)))" "extended idx (rq_head (pr_request_q (peer w i))) (length (p_slices p)) q"
      "p_slices p \<noteq> []" by blast
  have "length (p_slices p) < 2147483648" using p(1) ready_short[OF r, of j] by (simp add: short_def list_all_iff)
  from own_grown[OF r ok v p(2) _ this idx(1)] extended_more(3)[OF p(2)] p(3) view_eqD(1)[OF v, of i]
  show "grown i w w' \<and> rq_send (pr_request_q (peer w' i)) \<noteq> None" by simp
qed

section \<open>What may be asked for\<close>

definition need_ok :: "nat \<Rightarrow> world \<Rightarrow> bitfield \<Rightarrow> bool" where
  "need_ok i w b \<longleftrightarrow> bf_inv (npieces w) b \<and> bf_set (npieces w) b \<subseteq> has w i - bf_set (npieces w) (c_BF (w_content w))"

lemma need_ok_askable:
  assumes "need_ok i w b" "unat idx \<in> bf_set (npieces w) b"
  shows "idx \<in> askable i w"
  using assms bf_set_subset[of "npieces w" b] by (auto simp: need_ok_def askable_def u32_less_iff)

lemma need_ok_Except: "need_ok i w b \<Longrightarrow> bf_inv (npieces w) f \<Longrightarrow> need_ok i w (Except (npieces w) b f)"
  using Except_ok[of "npieces w" b f] by (auto simp: need_ok_def)

lemma need_ok_And: "need_ok i w b \<Longrightarrow> bf_inv (npieces w) f \<Longrightarrow> need_ok i w (And_bf (npieces w) b f)"
  using And_ok[of "npieces w" b f] by (auto simp: need_ok_def)

lemma need_ok_UnSet_last: "need_ok i w b \<Longrightarrow> need_ok i w (UnSet_last x i w b)"
  using UnSet_ok[of "npieces w" b "pr_last_req_piece (peer w i)"]
  by (cases "pr_last_req_piece (peer w i) < npieces w")
    (auto simp: need_ok_def UnSet_last_def UnSet_def not_less)

lemma need_ok_loop:
  assumes "\<And>b. need_ok i w b \<Longrightarrow> need_ok i w (post b)"
  shows "need_ok i w b \<Longrightarrow> list_all (bf_inv (npieces w)) fs \<Longrightarrow> need_ok i w (need_loop post (npieces w) b fs)"
  by (induction fs) (auto simp: Let_def assms need_ok_Except)

lemma need_ok_base:
  assumes "world_ok w"
  shows "need_ok i w (Except (npieces w) (pr_bitfield (peer w i)) (c_BF (w_content w)))"
  using Except_ok[OF has_ok[OF assms, of i] content_okD(2)[OF assms]] by (simp add: need_ok_def has_def)

lemma filters_left_ok: "world_ok w \<Longrightarrow> list_all (bf_inv (npieces w)) (filters_left (w_content w))"
  using world_okD(10)[of "{}" w]
  by (auto simp: content_ok_def Let_def filters_left_def list_all_iff split: option.splits dest: in_set_dropD)

lemma need_ok_view: "view w' = view w \<Longrightarrow> need_ok i w' b = need_ok i w b"
  using view_eqD[of w' w] by (simp add: need_ok_def has_def)

section \<open>A piece to duplicate\<close>

definition slot_ok :: "bitfield \<Rightarrow> nat \<Rightarrow> world \<Rightarrow> qdata \<Rightarrow> bool" where
  "slot_ok bf i w d \<longleftrightarrow> fst d = npieces w \<or>
     (IsSet (npieces w) bf (fst d) \<and> \<not> HasPiece (pr_request_q (peer w i)) (fst d) \<and>
      (\<exists>j. j \<noteq> i \<and> j \<in> set (w_head w) \<and> fst d \<in> qidx w j))"

lemma list_all_upd: "list_all P xs \<Longrightarrow> (k < length xs \<Longrightarrow> P x) \<Longrightarrow> list_all P (xs[k := x])"
  by (cases "k < length xs") (auto simp: list_all_length nth_list_update)

lemma measure_piece_ok:
  assumes "list_all (slot_ok bf i w) tab" "slot_ok bf i w (p, q, c)"
  shows "list_all (slot_ok bf i w) (measure_piece (npieces w) p q tab)"
proof (cases "probe (npieces w) p tab (unat p mod length tab) 0")
  case (Some k)
  obtain idx qlen cnt where t: "tab ! k = (idx, qlen, cnt)" by (metis prod_cases3)
  let ?d = "(if idx = npieces w then (p, q) else (idx, qlen))"
  have "slot_ok bf i w (fst ?d, snd ?d, cnt + 1)" if "k < length tab"
    using assms(2) list_all_length[THEN iffD1, OF assms(1), rule_format, OF that] t by (auto simp: slot_ok_def)
  then have "list_all (slot_ok bf i w) (tab[k := (fst ?d, snd ?d, cnt + 1)])" by (rule list_all_upd[OF assms(1)])
  then show ?thesis using Some t by (auto simp: measure_piece_def Let_def)
qed (use assms in \<open>simp add: measure_piece_def\<close>)

lemma measure_queue_ok:
  assumes "list_all (slot_ok bf i w) tab" "j \<noteq> i" "j \<in> set (w_head w)"
  shows "list_all (slot_ok bf i w) (measure_queue (npieces w) bf (pr_request_q (peer w i)) (pr_request_q (peer w j)) tab)"
proof -
  let ?f = "\<lambda>p tab. if \<not> IsSet (npieces w) bf (p_index p) \<or> HasPiece (pr_request_q (peer w i)) (p_index p) then tab
    else measure_piece (npieces w) (p_index p) (Qlen (pr_request_q (peer w j)) (p_index p)) tab"
  have "list_all (slot_ok bf i w) (fold ?f ps tab)" if "list_all (slot_ok bf i w) tab" "set ps \<subseteq> set (rq_head (pr_request_q (peer w j)))" for ps tab
    using that
  proof (induction ps arbitrary: tab)
    case (Cons p ps)
    have "list_all (slot_ok bf i w) (?f p tab)"
    proof (cases "\<not> IsSet (npieces w) bf (p_index p) \<or> HasPiece (pr_request_q (peer w i)) (p_index p)")
      case False
      have "p_index p \<in> qidx w j" using Cons.prems(2) by (simp add: qidx_def)
      then have "slot_ok bf i w (p_index p, x)" for x using False assms(2,3) by (auto simp: slot_ok_def)
      then show ?thesis using False measure_piece_ok[OF Cons.prems(1)] by simp
    qed (use Cons.prems in simp)
    from Cons.IH[OF this] Cons.prems(2) show ?case by simp
  qed simp
  from this[OF assms(1) subset_refl] show ?thesis by (simp add: measure_queue_def)
qed

lemma best_slot_ok:
  "best_slot n eg k ds best mark = Some m \<Longrightarrow> mark = Some m \<or> k \<le> m \<and> m < k + length ds \<and> fst (ds ! (m - k)) \<noteq> n"
proof (induction n eg k ds best mark rule: best_slot.induct)
  case (2 n eg k idx qlen cnt ds best mark)
  have shift: "((idx, qlen, cnt) # ds) ! (m - k) = ds ! (m - (k + 1))" if "k + 1 \<le> m"
  proof -
    have "m - k = Suc (m - (k + 1))" using that by linarith
    then show ?thesis by simp
  qed
  have ext: ?case if "mark' = Some m \<or> k + 1 \<le> m \<and> m < k + 1 + length ds \<and> fst (ds ! (m - (k + 1))) \<noteq> n"
    "mark' = mark \<or> mark' = Some k \<and> idx \<noteq> n" for mark'
    using that shift by auto
  show ?case
  proof (cases "idx = n")
    case True
    then show ?thesis using "2.IH"(1)[OF True] "2.prems" ext[of mark] by simp
  next
    case False
    let ?work = "rat_of_word qlen / rat_of_word cnt"
    let ?c = "1 < ?work \<and> (if eg then best < ?work else ?work < best)"
    show ?thesis
    proof (cases ?c)
      case True
      have "best_slot n eg (k + 1) ds ?work (Some k) = Some m"
        using "2.prems" unfolding best_slot.simps Let_def if_not_P[OF False] if_P[OF True] .
      from "2.IH"(2)[OF False refl True this] ext[of "Some k"] False show ?thesis by simp
    next
      case c: False
      have "best_slot n eg (k + 1) ds best mark = Some m"
        using "2.prems" unfolding best_slot.simps Let_def if_not_P[OF False] if_not_P[OF c] .
      from "2.IH"(3)[OF False refl c this] ext[of mark] show ?thesis by simp
    qed
  qed
qed simp

lemma What_Can_Duplicate_idx:
  assumes r: "ready i w" and b: "need_ok i w bf" and d: "What_Can_Duplicate e bf i flag w = (idx, w')" "idx < npieces w"
  shows "idx \<in> askable i w" "\<not> HasPiece (pr_request_q (peer w i)) idx" "\<exists>j. j \<noteq> i \<and> j \<in> set (w_head w) \<and> idx \<in> qidx w j"
proof -
  let ?n = "npieces w"
  define init where "init \<longleftrightarrow> \<not> flag < ?n"
  define v where "v = FindValuedPieces e bf i init w"
  define bf' where "bf' = (if IsEmpty v then pr_bitfield (peer w i) else v)"
  define slots where "slots = (let s = (if flag < ?n then ?n - Count (c_BF (w_content w)) else w_downloads w * 2) in
      if s < w_dup_req_pieces w + 2 then w_dup_req_pieces w + 2 else s)"
  define tab where "tab = fold (\<lambda>j tab. if \<not> is_success w j \<or> j = i then tab
      else measure_queue ?n bf' (pr_request_q (peer w i)) (pr_request_q (peer w j)) tab) (w_head w) (replicate (unat slots) (?n, 0, 0))"
  have bi: "bf_inv ?n bf" using b by (simp add: need_ok_def)
  have V: "bf_inv ?n v \<and> bf_set ?n v \<subseteq> bf_set ?n bf"
    using FindValuedPieces_ok[OF ready_ok[OF r] bi, of e i init] unfolding v_def by (auto split: if_splits)
  then have B: "bf_inv ?n bf'" "bf_set ?n bf' \<subseteq> has w i"
    using b has_ok[OF ready_ok[OF r], of i] by (auto simp: bf'_def need_ok_def has_def)
  have T0: "list_all (slot_ok bf' i w) (replicate k (?n, 0, 0))" for k by (simp add: list_all_iff slot_ok_def)
  have "list_all (slot_ok bf' i w) (fold (\<lambda>j tab. if \<not> is_success w j \<or> j = i then tab
      else measure_queue ?n bf' (pr_request_q (peer w i)) (pr_request_q (peer w j)) tab) js t)"
    if "list_all (slot_ok bf' i w) t" "set js \<subseteq> set (w_head w)" for js t
    using that by (induction js arbitrary: t) (simp_all add: measure_queue_ok)
  then have T: "list_all (slot_ok bf' i w) tab" unfolding tab_def using T0 by blast
  have D: "What_Can_Duplicate e bf i flag w =
    (if IsEmpty v \<and> init then (?n, w)
     else case best_slot ?n (flag < ?n) 0 tab (if flag < ?n then 0 else rat_of_word (piece_length w div cfg_req_slice_size e + 2)) None of
            None \<Rightarrow> (?n, w)
          | Some m \<Rightarrow> (fst (tab ! m), if snd (snd (tab ! m)) = 1 then w\<lparr>w_dup_req_pieces := w_dup_req_pieces w + 1\<rparr> else w))"
    unfolding What_Can_Duplicate_def Let_def init_def[symmetric] v_def[symmetric] bf'_def[symmetric] tab_def slots_def by simp
  obtain m where m: "best_slot ?n (flag < ?n) 0 tab (if flag < ?n then 0 else rat_of_word (piece_length w div cfg_req_slice_size e + 2)) None = Some m"
    "idx = fst (tab ! m)" using d D by (auto split: if_splits option.splits)
  have "m < length tab" "idx \<noteq> ?n" using best_slot_ok[OF m(1)] m(2) by simp_all
  then have "slot_ok bf' i w (tab ! m)" using T by (simp add: list_all_length)
  then have S: "IsSet ?n bf' idx" "\<not> HasPiece (pr_request_q (peer w i)) idx" "\<exists>j. j \<noteq> i \<and> j \<in> set (w_head w) \<and> idx \<in> qidx w j"
    using \<open>idx \<noteq> ?n\<close> m(2) by (auto simp: slot_ok_def)
  show "\<not> HasPiece (pr_request_q (peer w i)) idx" "\<exists>j. j \<noteq> i \<and> j \<in> set (w_head w) \<and> idx \<in> qidx w j" by (fact S(2,3))+
  show "idx \<in> askable i w" using S IsSet_iff[OF B(1)] B(2) d(2) by (auto simp: askable_def)
qed

section \<open>The decisions\<close>

definition verdict_ok :: "nat \<Rightarrow> world \<Rightarrow> verdict \<Rightarrow> world \<Rightarrow> bool" where
  "verdict_ok i w v w' \<longleftrightarrow> (case v of Return r \<Rightarrow> settled i w w' | Send_more \<Rightarrow> grown i w w')"

lemma verdict_ok_simps [simp]:
  "verdict_ok i w (Return r) w' = settled i w w'" "verdict_ok i w Send_more w' = grown i w w'"
  by (simp_all add: verdict_ok_def)

lemma verdict_ok_calm: "calm i w w' \<Longrightarrow> verdict_ok i w' v w'' \<Longrightarrow> verdict_ok i w v w''"
  by (cases v) (auto intro: later_settled calm_grown)

lemma Shuffle_calm:
  assumes r: "ready i w" and s: "rq_send (pr_request_q (peer w i)) \<noteq> None"
  obtains q where "Shuffle rnd3 rnd (pr_request_q (peer w i)) idx = Some q"
    "calm i w ((upd_peer i (\<lambda>p. p\<lparr>pr_request_q := q\<rparr>) w)\<lparr>w_rnd := k\<rparr>)"
proof -
  note W = world_okD(1,4)[OF ready_ok[OF r], of i]
  obtain q where S: "Shuffle rnd3 rnd (pr_request_q (peer w i)) idx = Some q" "rq_inv (w_slices w) q" "nslices q = own_slices i w"
    "short q" "p_index ` set (rq_head q) = qidx w i" "addrs q = addrs (pr_request_q (peer w i))" "IsEmpty_q q = IsEmpty_q (pr_request_q (peer w i))"
    by (rule Shuffle_keeps[OF W(2) ready_short[OF r] s, of rnd3 rnd idx]) (auto simp: qidx_def)
  have "world_ok (upd_peer i (\<lambda>p. p\<lparr>pr_request_q := q\<rparr>) w)"
    by (rule world_ok_upd_same[OF ready_ok[OF r]]) (use S W in \<open>simp_all add: peer_ok_def\<close>)
  then have "world_ok ((upd_peer i (\<lambda>p. p\<lparr>pr_request_q := q\<rparr>) w)\<lparr>w_rnd := k\<rparr>)" by simp
  from own_calm[OF r this _ S(4,3,5)] S(1) that show thesis by simp
qed

lemma dup_calm:
  assumes r: "ready i w" and d: "What_Can_Duplicate e bf i flag w = (idx, w')"
  shows "calm i w w'"
  using view_calm[OF r, of w'] view_What_Can_Duplicate[of e bf i flag w] world_ok_What_Can_Duplicate[OF ready_ok[OF r], of e bf i flag] d
  by simp

lemma askable_view: "view w' = view w \<Longrightarrow> askable i w' = askable i w"
  using view_eqD[of w' w] by (simp add: askable_def has_def qidx_def)

lemma try_dup_ok:
  assumes r: "ready i w" and b: "need_ok i w bf"
  shows "\<exists>v w'. try_dup e bf flag i w = Some (v, w') \<and>
    (case v of None \<Rightarrow> calm i w w' | Some v \<Rightarrow> verdict_ok i w v w')"
proof -
  obtain idx w1 where d: "What_Can_Duplicate e bf i flag w = (idx, w1)" by force
  note c1 = dup_calm[OF r d]
  have v1: "view w1 = view w" using view_What_Can_Duplicate[of e bf i flag w] d by simp
  have n1: "npieces w1 = npieces w" using view_eqD(6)[OF v1] by simp
  show ?thesis
  proof (cases "npieces w1 \<le> idx \<or> WhoHas idx w1 = None")
    case True
    then show ?thesis using c1 d by (auto simp: try_dup_def)
  next
    case False
    then obtain j where j: "WhoHas idx w1 = Some j" "idx < npieces w" using n1 by (auto simp: not_le)
    note D = What_Can_Duplicate_idx[OF r b d j(2)]
    have hj: "HasPiece (pr_request_q (peer w1 j)) idx" using j(1) by (auto simp: WhoHas_def find_Some_iff)
    have a1: "idx \<in> askable i w1" using D(1) askable_view[OF v1] by simp
    have ni: "\<not> HasPiece (pr_request_q (peer w1 i)) idx" using D(2) view_eqD(1)[OF v1] by simp
    obtain res w2 where C: "copy_requests e idx j i w1 = (res, w2)" by force
    note S = copy_requests_step[OF calm_ready[OF c1] a1 hj ni C]
    show ?thesis
    proof (cases "res < 0")
      case True
      have "settled i w w2" by (rule later_settled[OF disjI1[OF c1] S(1)])
      then show ?thesis using False d C True j(1) by (auto simp: try_dup_def)
    next
      case pos: False
      have S2: "grown i w1 w2" "rq_send (pr_request_q (peer w2 i)) \<noteq> None" using S(2) pos by simp_all
      from Shuffle_calm[OF grown_ready[OF S2(1)] S2(2), of "e_bits3 e (w_rnd w2)" "e_bits e (w_rnd w2)" idx "w_rnd w2 + 1"] obtain q where
        q: "Shuffle (e_bits3 e (w_rnd w2)) (e_bits e (w_rnd w2)) (pr_request_q (peer w2 i)) idx = Some q"
          "calm i w2 ((upd_peer i (\<lambda>p. p\<lparr>pr_request_q := q\<rparr>) w2)\<lparr>w_rnd := w_rnd w2 + 1\<rparr>)" by blast
      let ?w3 = "(upd_peer i (\<lambda>p. p\<lparr>pr_request_q := q\<rparr>) w2)\<lparr>w_rnd := w_rnd w2 + 1\<rparr>"
      have c3: "calm i ?w3 (CompareRequest i idx ?w3)" by (rule CompareRequest_calm[OF calm_ready[OF q(2)]])
      note c4 = calm_trans[OF q(2) calm_trans[OF c3 mult_peer_calm[OF calm_ready[OF c3]]]]
      have "grown i w (mult_peer idx (CompareRequest i idx ?w3))" by (rule calm_grown[OF c1 grown_calm[OF S2(1) c4]])
      then show ?thesis using False d C pos j(1) q(1) by (auto simp: try_dup_def Let_def)
    qed
  qed
qed

text \<open>The peer whose requests are taken over has one for a piece of the proposer.\<close>

lemma FindCommon_has:
  assumes "FindCommonRequest g q b own < g_npieces g"
  obtains p where "p \<in> set (rq_head q)" "IsSet (g_npieces g) b (p_index p)"
  using assms by (auto simp: FindCommonRequest_def find_Some_iff split: option.splits intro: nth_mem)

lemma FindLastCommon_has:
  assumes "p \<in> set (rq_head q)" "IsSet (g_npieces g) b (p_index p)"
  shows "HasPiece q (FindLastCommonRequest g q b) \<and> IsSet (g_npieces g) b (FindLastCommonRequest g q b)"
proof -
  let ?f = "\<lambda>p idx. if IsSet (g_npieces g) b (p_index p) then p_index p else idx"
  have "fold ?f ps d \<in> p_index ` set ps \<and> IsSet (g_npieces g) b (fold ?f ps d)"
    if "\<exists>p\<in>set ps. IsSet (g_npieces g) b (p_index p)" for ps d
    using that by (induction ps rule: rev_induct) auto
  from this[of "rq_head q" "g_npieces g"] assms show ?thesis by (auto simp: FindLastCommonRequest_def HasPiece_iff)
qed

definition slower_ok :: "nat \<Rightarrow> world \<Rightarrow> nat \<Rightarrow> bool" where
  "slower_ok i w j \<longleftrightarrow> j \<noteq> i \<and> (\<exists>p\<in>set (rq_head (pr_request_q (peer w j))). IsSet (npieces w) (pr_bitfield (peer w i)) (p_index p))"

lemma abandon_loop_ok:
  "(\<And>b. best = Some b \<Longrightarrow> slower_ok i w b) \<Longrightarrow> view v = view w \<Longrightarrow> fst (abandon_loop i js best v) = Some b \<Longrightarrow> slower_ok i w b"
proof (induction js arbitrary: best v)
  case (Cons j js)
  show ?case
  proof (cases "\<not> is_success v j \<or> j = i \<or> IsEmpty_q (pr_request_q (peer v j))")
    case True
    have "fst (abandon_loop i js best v) = Some b" using Cons.prems(3) unfolding abandon_loop.simps if_P[OF True] .
    from Cons.IH[OF Cons.prems(1,2) this] show ?thesis by blast
  next
    case False
    obtain ri v1 where R: "NominalDL j v = (ri, v1)" by force
    obtain slower v2 where S: "(case best of Some b \<Rightarrow> (let (rb, w) = NominalDL b v1 in (ri < rb, w))
        | None \<Rightarrow> (let (rp, w) = NominalDL i v1 in (3 * unat ri < 2 * unat rp, w))) = (slower, v2)" by force
    have v1: "view v1 = view v" using view_ops(4)[of j v] R by simp
    have "v2 = snd (NominalDL i v1) \<or> (\<exists>b. v2 = snd (NominalDL b v1))"
      using S by (cases best) (auto simp: Let_def case_prod_beta)
    then have v2: "view v2 = view w" using v1 view_ops(4) Cons.prems(2) by auto
    let ?c = "slower \<and> FindCommonRequest (c_geo (w_content v2)) (pr_request_q (peer v2 j)) (pr_bitfield (peer v2 i)) (pr_request_q (peer v2 i)) < npieces v2"
    have L: "abandon_loop i (j # js) best v = abandon_loop i js (if ?c then Some j else best) v2"
      using R S unfolding abandon_loop.simps if_not_P[OF False] by (simp only: Let_def prod.case)
    have "slower_ok i w b" if "(if ?c then Some j else best) = Some b" for b
    proof (cases ?c)
      case True
      from FindCommon_has[OF conjunct2[OF True]] obtain p where p: "p \<in> set (rq_head (pr_request_q (peer v2 j)))"
        "IsSet (npieces v2) (pr_bitfield (peer v2 i)) (p_index p)" by blast
      have "b = j" using that True by simp
      then show ?thesis using False p view_eqD[OF v2] by (auto simp: slower_ok_def)
    next
      case False
      show ?thesis using that Cons.prems(1) unfolding if_not_P[OF False] by blast
    qed
    from Cons.IH[OF this v2] Cons.prems(3) L show ?thesis by simp
  qed
qed simp

lemma try_abandon_ok:
  assumes r: "ready i w"
  shows "case try_abandon e eg i w of (v, w') \<Rightarrow> verdict_ok i w v w'"
proof -
  obtain best w1 where A: "(if IsEmpty_q (pr_request_q (peer w i)) then Who_Can_Abandon i w else (None, w)) = (best, w1)" by force
  have "view (snd (if IsEmpty_q (pr_request_q (peer w i)) then Who_Can_Abandon i w else (None, w))) = view w"
    "world_ok (snd (if IsEmpty_q (pr_request_q (peer w i)) then Who_Can_Abandon i w else (None, w)))"
    using world_ok_Who_Can_Abandon[OF ready_ok[OF r], of i] ready_ok[OF r] by simp_all
  then have v1: "view w1 = view w" "world_ok w1" unfolding A by simp_all
  note c1 = view_calm[OF r v1]
  show ?thesis
  proof (cases best)
    case None
    let ?f = "\<lambda>p. p\<lparr>pr_standby := True, pr_last_req_piece := npieces w1\<rparr>"
    have "world_ok (upd_peer i ?f w1)" using world_ok_field[OF v1(2), of ?f i] by (simp add: core_def)
    from calm_trans[OF c1 view_calm[OF calm_ready[OF c1] _ this]] have "calm i w (upd_peer i ?f w1)" by simp
    then show ?thesis using A None calm_settled c1 by (simp add: try_abandon_def)
  next
    case (Some j)
    then have "fst (abandon_loop i (w_head w) None w) = Some j" and e: "IsEmpty_q (pr_request_q (peer w i))"
      using A by (auto simp: Who_Can_Abandon_def split: if_splits)
    then have "slower_ok i w j" using abandon_loop_ok[of None i w w "w_head w" j] by simp
    then obtain p where j: "j \<noteq> i" "p \<in> set (rq_head (pr_request_q (peer w1 j)))" "IsSet (npieces w1) (pr_bitfield (peer w1 i)) (p_index p)"
      using view_eqD[OF v1(1)] by (auto simp: slower_ok_def)
    define idx where "idx = FindLastCommonRequest (c_geo (w_content w1)) (pr_request_q (peer w1 j)) (pr_bitfield (peer w1 i))"
    have h: "HasPiece (pr_request_q (peer w1 j)) idx" "IsSet (npieces w1) (pr_bitfield (peer w1 i)) idx"
      using FindLastCommon_has[OF j(2,3)] by (simp_all add: idx_def)
    have a: "idx \<in> askable i w1"
      using h j(1) IsSet_iff[OF has_ok[OF v1(2)]] IsSet_bound[OF h(2)] by (auto simp: askable_def has_def qidx_def HasPiece_iff)
    have ni: "\<not> HasPiece (pr_request_q (peer w1 i)) idx" using e view_eqD(1)[OF v1(1)] by (simp add: HasPiece_iff IsEmpty_q_def)
    obtain res w2 where C: "copy_requests e idx j i w1 = (res, w2)" by force
    note S = copy_requests_step[OF calm_ready[OF c1] a h(1) ni C]
    define w3 where "w3 = mult_peer idx (CompareRequest i idx w2)"
    define w4 where "w4 = (if eg then upd_peer j (\<lambda>p. p\<lparr>pr_standby := False\<rparr>) w3 else w3)"
    obtain res5 w5 where P: "CancelPiece e idx j w4 = (res5, w5)" by force
    have T: "try_abandon e eg i w = (if res < 0 then (Return (-1), w2)
        else (Send_more, if res5 < 0 then CloseConnection e j w5 else w5))"
      using A Some C P unfolding try_abandon_def idx_def w3_def w4_def by (simp add: Let_def)
    show ?thesis
    proof (cases "res < 0")
      case True
      then show ?thesis using T later_settled[OF disjI1[OF c1] S(1)] by simp
    next
      case False
      then have g: "grown i w w2" using S(2) calm_grown[OF c1] by simp
      note c = CompareRequest_calm[OF grown_ready[OF g], of idx]
      have g3: "grown i w w3" unfolding w3_def by (rule grown_calm[OF g calm_trans[OF c mult_peer_calm[OF calm_ready[OF c]]]])
      have "calm i w3 w4" unfolding w4_def
        using view_calm[OF grown_ready[OF g3]] calm_refl[OF grown_ready[OF g3]] ready_ok[OF grown_ready[OF g3]] by (simp add: world_ok_upd_core)
      then have g4: "grown i w w4" by (rule grown_calm[OF g3])
      have g5: "grown i w w5" using grown_calm[OF g4 CancelPiece_calm[OF grown_ready[OF g4] j(1), of e idx]] P by simp
      then have "grown i w (CloseConnection e j w5)" using grown_calm[OF g5 CloseConnection_calm[OF grown_ready[OF g5] j(1)]] by simp
      then show ?thesis using T False g5 by simp
    qed
  qed
qed

lemma AddPiece_step:
  assumes r: "ready i w" and ss: "4 \<le> cfg_req_slice_size e" and a: "idx \<in> askable i w" "\<not> HasPiece (pr_request_q (peer w i)) idx"
  obtains res b q where
    "AddPiece (c_geo (w_content w)) (cfg_req_slice_size e) (e_mem e) (w_slices w) (pr_request_q (peer w i)) idx = Some (res, b, q)"
    "verdict_ok i w (if res < 0 then Return (-1) else Send_more)
       ((upd_peer i (\<lambda>p. p\<lparr>pr_request_q := q\<rparr>) w)\<lparr>w_slices := b, w_rnd := k\<rparr>)"
proof -
  let ?g = "c_geo (w_content w)" and ?ss = "cfg_req_slice_size e"
  have s4: "4 \<le> unat ?ss" using ss by (simp add: u32_le_iff)
  then have s0: "0 < ?ss" by (simp add: u32_less_iff)
  obtain res b q where A: "AddPiece ?g ?ss (e_mem e) (w_slices w) (pr_request_q (peer w i)) idx = Some (res, b, q)"
    and g: "queue_grows idx (w_slices w) (pr_request_q (peer w i)) b q"
    using AddPiece_loop_grows[OF world_okD(4)[OF ready_ok[OF r], of i] s0, of "e_mem e" idx 0 "GetPieceLength ?g idx"]
    by (auto simp: AddPiece_def)
  let ?w = "(upd_peer i (\<lambda>p. p\<lparr>pr_request_q := q\<rparr>) w)\<lparr>w_slices := b, w_rnd := k\<rparr>"
  have ok: "world_ok ?w" using grows_world_ok[OF r g] by simp
  have v: "view ?w = view (upd_peer i (\<lambda>p. p\<lparr>pr_request_q := q\<rparr>) w)" by simp
  have "grown i w ?w" if "0 \<le> res"
  proof -
    have go: "geo_ok ?g" using world_okD(10)[OF ready_ok[OF r]] by (simp add: content_ok_def Let_def)
    have "idx < npieces w" using a(1) by (simp add: askable_def)
    then have len: "0 < GetPieceLength ?g idx" using GetPieceLength_pos[OF go] by (simp add: u32_less_iff)
    from extended_AddPiece_loop[OF A[unfolded AddPiece_def] that s0, of "rq_head (pr_request_q (peer w i))" 0] a(2) obtain j where
      j: "extended idx (rq_head (pr_request_q (peer w i))) j q" "j \<le> unat (GetPieceLength ?g idx) div unat ?ss + 1" "0 < j"
      using len by (auto simp: extended_0)
    have "unat (GetPieceLength ?g idx) div unat ?ss \<le> unat (GetPieceLength ?g idx) div 4" using s4 by (simp add: div_le_mono2)
    then have "j < 2147483648" using j(2) unat_u32_lt[of "GetPieceLength ?g idx"] by linarith
    from own_grown[OF r ok v j(1,3) this a(1)] show ?thesis .
  qed
  then have "verdict_ok i w (if res < 0 then Return (-1) else Send_more) ?w" using grows_settled[OF r g a(1) v ok] by simp
  then show thesis using A that by blast
qed

text \<open>Pieces nobody has been asked for.\<close>

definition unasked_ok :: "nat \<Rightarrow> world \<Rightarrow> bitfield \<Rightarrow> bool" where
  "unasked_ok i w b \<longleftrightarrow> need_ok i w b \<and> bf_set (npieces w) b \<inter> queued w i = {}"

lemma CheckBitfield_unasked:
  assumes "ready i w" "need_ok i w b"
  shows "unasked_ok i w (CheckBitfield b w)"
proof -
  have "i \<in> connected w" using assms(1) by (simp add: ready_def)
  then show ?thesis using CheckBitfield_ok[OF ready_ok[OF assms(1)], of b] assms(2) by (auto simp: unasked_ok_def need_ok_def)
qed

lemma unasked_idx:
  assumes "unasked_ok i w b" "unat idx \<in> bf_set (npieces w) b"
  shows "idx \<in> askable i w" "\<not> HasPiece (pr_request_q (peer w i)) idx"
proof -
  show a: "idx \<in> askable i w" using assms need_ok_askable by (auto simp: unasked_ok_def)
  then have "idx < npieces w" by (simp add: askable_def)
  then show "\<not> HasPiece (pr_request_q (peer w i)) idx" using assms by (auto simp: unasked_ok_def queued_def)
qed

lemma request_new_ok:
  assumes r: "ready i w" and ss: "4 \<le> cfg_req_slice_size e" and b: "unasked_ok i w b" "\<not> IsEmpty b"
  shows "\<exists>v w'. request_new e b i w = Some (v, w') \<and> verdict_ok i w v w'"
proof -
  let ?n = "npieces w" and ?c = "w_content w"
  define v where "v = FindValuedPieces e b i (IsEmpty (c_BF ?c)) w"
  define cand where "cand = (if IsEmpty v then b else v)"
  have bi: "bf_inv ?n b" using b by (simp add: unasked_ok_def need_ok_def)
  have "bf_inv ?n v \<and> bf_set ?n v \<subseteq> bf_set ?n b"
    using FindValuedPieces_ok[OF ready_ok[OF r] bi, of e i "IsEmpty (c_BF ?c)"] unfolding v_def by (auto split: if_splits)
  then have c: "bf_inv ?n cand" "bf_set ?n cand \<subseteq> bf_set ?n b" "\<not> IsEmpty cand"
    using b(2) bi by (auto simp: cand_def)
  then have ne: "bf_set ?n cand \<noteq> {}" using IsEmpty_iff by blast
  define pref where "pref = (let cached = pr_cached_idx (peer w i) in
      if cached < c_check_piece ?c \<and> IsSet ?n cand cached then cached else ?n)"
  have pref: "pref = ?n \<or> unat pref \<in> bf_set ?n cand" using IsSet_iff[OF c(1)] by (auto simp: pref_def Let_def)
  have fit: "file_fits ?n (piece_length w) (c_files ?c)"
    using world_okD(10)[OF ready_ok[OF r]] by (simp add: content_ok_def Let_def files_ok_def file_fits_def)
  obtain idx1 where i1: "(if Count (c_BF ?c) < c_nfiles ?c then Some ?n
      else ChoosePiece ?n (piece_length w) (c_files ?c) (e_rand e (w_rnd w)) cand b pref) = Some idx1"
    "?n \<le> idx1 \<or> unat idx1 \<in> bf_set ?n b"
  proof (cases "Count (c_BF ?c) < c_nfiles ?c")
    case False
    from ChoosePiece_ok[OF c(1) bi fit, of "e_rand e (w_rnd w)" pref] obtain idx1 where
      "ChoosePiece ?n (piece_length w) (c_files ?c) (e_rand e (w_rnd w)) cand b pref = Some idx1"
      "idx1 = pref \<or> unat idx1 \<in> bf_set ?n b \<union> bf_set ?n cand" by blast
    then show thesis using that[of idx1] False pref c(2) by auto
  qed (use that in simp)
  obtain idx where idx: "(if ?n \<le> idx1 then Random ?n (e_rand e (w_rnd w + 1)) cand else Some idx1) = Some idx"
    "unat idx \<in> bf_set ?n b"
    using i1(2) Random_ok[OF c(1) ne, of "e_rand e (w_rnd w + 1)"] c(2) that by (cases "?n \<le> idx1") auto
  from AddPiece_step[OF r ss unasked_idx[OF b(1) idx(2)], of "w_rnd w + 2"] obtain res a q where
    A: "AddPiece (c_geo ?c) (cfg_req_slice_size e) (e_mem e) (w_slices w) (pr_request_q (peer w i)) idx = Some (res, a, q)"
    "verdict_ok i w (if res < 0 then Return (-1) else Send_more)
       ((upd_peer i (\<lambda>p. p\<lparr>pr_request_q := q\<rparr>) w)\<lparr>w_slices := a, w_rnd := w_rnd w + 2\<rparr>)" by blast
  have "request_new e b i w = Some (if res < 0 then Return (-1) else Send_more,
      (upd_peer i (\<lambda>p. p\<lparr>pr_request_q := q\<rparr>) w)\<lparr>w_slices := a, w_rnd := w_rnd w + 2\<rparr>)"
    unfolding request_new_def Let_def v_def[symmetric] cand_def[symmetric] pref_def[unfolded Let_def, symmetric] i1(1) option.case idx(1) A(1) prod.case
    by (rule refl)
  then show ?thesis using A(2) by blast
qed

lemma SetLocal_settled:
  assumes "ready i w"
  shows "settled i w (snd (SetLocal e BT_MSG_NOT_INTERESTED i w))"
proof -
  have c: "view (snd (cancel_all_loop e i ss w)) = view w" for ss w
    by (induction ss arbitrary: w) (simp_all add: Let_def case_prod_beta)
  have q: "qidx v j = p_index ` set (rq_head (fst (fst (view v) j)))" for v j by (simp add: view_def qidx_def)
  have "view (snd (CancelRequest e i v)) = view v" for v
    by (simp add: CancelRequest_def Let_def case_prod_beta c)
  then have "qidx (snd (SetLocal e BT_MSG_NOT_INTERESTED i w)) i \<subseteq> qidx w i"
    by (simp add: SetLocal_def send_state_def Let_def case_prod_beta q) (simp add: view_def Empty_q_def)
  then show ?thesis using world_ok_SetLocal[OF ready_ok[OF assms]] by (auto simp: settled_def)
qed

lemma request_nothing_ok:
  assumes r: "ready i w"
  shows "case request_nothing e i w of (v, w') \<Rightarrow> verdict_ok i w v w'"
proof -
  have "settled i w (upd_peer i f w)" if "core (f (peer w i)) = core (peer w i)" for f
  proof -
    have "view (upd_peer i f w) = view w" using that by (simp add: core_def)
    moreover have "world_ok (upd_peer i f w)" using ready_ok[OF r] world_ok_upd_core[where f = f and w = w and i = i, OF that] by simp
    ultimately show ?thesis by (intro calm_settled[OF view_calm[OF r]])
  qed
  note u = this[of "\<lambda>p. p\<lparr>pr_last_req_piece := npieces w\<rparr>"] this[of "\<lambda>p. p\<lparr>pr_standby := True, pr_last_req_piece := npieces w\<rparr>"]
  have "settled i w (upd_peer i (\<lambda>p. p\<lparr>pr_last_req_piece := npieces w\<rparr>) w)"
    "settled i w (upd_peer i (\<lambda>p. p\<lparr>pr_standby := True, pr_last_req_piece := npieces w\<rparr>) w)"
    by (rule u; simp add: core_def)+
  then show ?thesis using SetLocal_settled[OF r, of e] by (simp add: request_nothing_def Let_def case_prod_beta)
qed

lemma addrs_Reassign_loop:
  "Reassign_loop n bf before rest q d idx0 = (idx, q', d') \<Longrightarrow> rq_head q = before @ rest \<Longrightarrow>
   addrs q' \<union> addrs d' \<subseteq> addrs q \<union> addrs d"
proof (induction rest arbitrary: before q d idx0)
  case (Cons p rest)
  show ?case
  proof (cases "IsSet n bf (p_index p) \<and> \<not> HasPiece d (p_index p)")
    case True
    obtain ok d1 where A: "Append d p = (ok, d1)" by force
    let ?q = "q\<lparr>rq_send := (if send_in q (p_index p) then head_addr rest else rq_send q), rq_head := before @ rest\<rparr>"
    have s: "addrs ?q \<union> addrs d1 \<subseteq> addrs q \<union> addrs d"
      using addrs_Append[of d p] A Cons.prems(2) by (auto simp: addrs_alt piece_addrs_def addrs_def all_slices_def)
    show ?thesis
    proof (cases ok)
      case True
      then have "q' = ?q" "d' = d1"
        using \<open>IsSet n bf (p_index p) \<and> \<not> HasPiece d (p_index p)\<close> Cons.prems(1) A by (auto simp: Let_def)
      then show ?thesis using s by simp
    next
      case False
      have "Reassign_loop n bf before rest ?q d1 (p_index p) = (idx, q', d')"
        using \<open>IsSet n bf (p_index p) \<and> \<not> HasPiece d (p_index p)\<close> Cons.prems(1) A False by (simp add: Let_def)
      then have "addrs q' \<union> addrs d' \<subseteq> addrs ?q \<union> addrs d1" by (rule Cons.IH) simp
      then show ?thesis using s by (rule subset_trans)
    qed
  next
    case False
    have "Reassign_loop n bf (before @ [p]) rest q d idx0 = (idx, q', d')"
      using Cons.prems(1) unfolding Reassign_loop.simps if_not_P[OF False] .
    from Cons.IH[OF this] Cons.prems(2) show ?thesis by simp
  qed
qed simp

lemma addrs_Reassign: "Reassign g q d bf = (idx, q', d') \<Longrightarrow> addrs q' \<union> addrs d' \<subseteq> addrs q \<union> addrs d"
  by (auto simp: Reassign_def dest!: addrs_Reassign_loop)

lemma need_ok_other:
  assumes "ready i w"
  shows "need_ok i w (need_loop (\<lambda>bf. And_bf (npieces w) (UnSet_last x i w bf) (c_BChecked (w_content w))) (npieces w)
    (Except (npieces w) (pr_bitfield (peer w i)) (c_BF (w_content w))) (filters_left (w_content w)))"
  by (intro need_ok_loop need_ok_And need_ok_UnSet_last need_ok_base filters_left_ok content_okD(3)[OF ready_ok[OF assms]] ready_ok[OF assms])

lemma request_other_ok:
  assumes r: "ready i w" and ss: "4 \<le> cfg_req_slice_size e"
  shows "\<exists>v w'. request_other e x i w = Some (v, w') \<and> verdict_ok i w v w'"
proof -
  let ?n = "npieces w"
  define need where "need = need_loop (\<lambda>bf. And_bf ?n (UnSet_last x i w bf) (c_BChecked (w_content w))) ?n
    (Except ?n (pr_bitfield (peer w i)) (c_BF (w_content w))) (filters_left (w_content w))"
  have need: "need_ok i w need" unfolding need_def by (rule need_ok_other[OF r])
  define unrequested where "unrequested = CheckBitfield need w"
  have un: "unasked_ok i w unrequested" unfolding unrequested_def by (rule CheckBitfield_unasked[OF r need])
  obtain eg w1 where E: "Endgame w = (eg, w1)" by force
  have v1: "view w1 = view w" and ok1: "world_ok w1"
    using view_Endgame[of w] world_ok_Endgame[OF ready_ok[OF r]] unfolding E by simp_all
  note c1 = view_calm[OF r v1 ok1]
  have O: "request_other e x i w =
    (if IsEmpty need then Some (request_nothing e i w)
     else if IsEmpty unrequested then
       (case (if eg \<and> pr_latency (peer w1 i) < 60 then try_dup e need 0 i w1 else Some (None, w1)) of
          None \<Rightarrow> None
        | Some (Some v, w) \<Rightarrow> Some (v, w)
        | Some (None, w) \<Rightarrow> Some (try_abandon e eg i w))
     else request_new e unrequested i w)"
    unfolding request_other_def Let_def need_def[symmetric] unrequested_def[symmetric] E prod.case by (rule refl)
  show ?thesis
  proof (cases "IsEmpty need")
    case True
    then show ?thesis using O request_nothing_ok[OF r, of e] by (cases "request_nothing e i w") simp
  next
    case ne: False
    show ?thesis
    proof (cases "IsEmpty unrequested")
      case True
      have "need_ok i w1 need" using need need_ok_view[OF v1] by simp
      from try_dup_ok[OF calm_ready[OF c1] this, of e 0] calm_refl[OF calm_ready[OF c1]] obtain v w2 where
        D: "(if eg \<and> pr_latency (peer w1 i) < 60 then try_dup e need 0 i w1 else Some (None, w1)) = Some (v, w2)"
          "case v of None \<Rightarrow> calm i w1 w2 | Some v \<Rightarrow> verdict_ok i w1 v w2" by (cases "eg \<and> pr_latency (peer w1 i) < 60") auto
      show ?thesis
      proof (cases v)
        case None
        then have c2: "calm i w w2" using D(2) calm_trans[OF c1] by simp
        obtain v3 w3 where T: "try_abandon e eg i w2 = (v3, w3)" by force
        from try_abandon_ok[OF calm_ready[OF c2], of e eg] verdict_ok_calm[OF c2] T show ?thesis
          using O ne True D(1) None by simp
      next
        case (Some v3)
        then show ?thesis using O ne True D verdict_ok_calm[OF c1] by simp
      qed
    next
      case False
      then show ?thesis using O ne request_new_ok[OF r ss un False] by simp
    qed
  qed
qed

lemma Reassign_grown:
  assumes r: "ready i w" and need: "need_ok i w need" and R: "Reassign (c_geo (w_content w)) (w_pending w) (pr_request_q (peer w i)) need = (idx, pend, q)"
  defines "w1 \<equiv> (upd_peer i (\<lambda>p. p\<lparr>pr_request_q := q\<rparr>) w)\<lparr>w_pending := pend\<rparr>"
  shows "if idx < npieces w then grown i w w1 else w1 = w"
proof -
  note W = world_okD[OF ready_ok[OF r]]
  note X = Reassign_extends[OF R W(2)]
  have id: "w1 = w" if "pend = w_pending w" "q = pr_request_q (peer w i)"
    using that by (simp add: w1_def upd_peer_def)
  show ?thesis
  proof (cases "idx < npieces w")
    case False
    then show ?thesis using X id by simp
  next
    case True
    then obtain p where p: "p \<in> set (rq_head (w_pending w))" "IsSet (npieces w) need idx"
      "extended idx (rq_head (pr_request_q (peer w i))) (length (p_slices p)) q" "p_slices p \<noteq> []"
      and sub: "set (rq_head pend) \<subseteq> set (rq_head (w_pending w))" using X by auto
    have k: "0 < length (p_slices p)" "length (p_slices p) < 2147483648"
      using p(1,4) ready_pending[OF r] by (simp_all add: short_def list_all_iff)
    note E = extended_more[OF p(3) k(1)]
    have sh: "short q" by (rule E(4)[OF ready_short[OF r] k(2)])
    have sp: "short pend" using sub ready_pending[OF r] by (auto simp: short_def list_all_iff)
    have ask: "idx \<in> askable i w" using need_ok_askable[OF need] p(2) IsSet_iff need by (auto simp: need_ok_def)
    have inv: "rq_inv (w_slices w) pend" "rq_inv (w_slices w) q" "disj_q pend q"
      using Reassign_ok[OF W(2) W(4)[of i] _ R] W(8)[of i] by (auto simp: disj_q_addrs)
    have ad: "addrs q \<union> addrs pend \<subseteq> addrs (pr_request_q (peer w i)) \<union> addrs (w_pending w)"
      using addrs_Reassign[OF R] by blast
    have ok: "world_ok w1"
    proof -
      have S: "is_success w i" using r by (simp add: ready_def connected_def)
      have "queues_disjoint ((w_peers w)(i := (peer w i)\<lparr>pr_request_q := q\<rparr>)) pend"
      proof (rule queues_disjoint_upd)
        show "queues_disjoint (w_peers w) (w_pending w)" using ready_ok[OF r] by (simp add: world_okx_def)
        show "\<And>j. rq_inv (w_slices w) (pr_request_q (peer w j))" by (rule W(4))
        show "addrs (pr_request_q ((peer w i)\<lparr>pr_request_q := q\<rparr>)) \<union> addrs pend
          \<subseteq> addrs (pr_request_q (peer w i)) \<union> addrs (w_pending w) \<union> {w_slices w..}" using ad by auto
        show "addrs (pr_request_q ((peer w i)\<lparr>pr_request_q := q\<rparr>)) \<inter> addrs pend = {}"
          using inv(3) by (auto simp: disj_q_addrs)
      qed
      moreover have "peer_ok False (npieces w) (w_slices w) (peer w1 j)" for j
        using W(1)[of j] inv(2) S by (auto simp: peer_ok_def w1_def)
      moreover have "pr_status (peer w1 j) = pr_status (peer w j)" for j by (simp add: w1_def)
      then have "no_failed {} w1 (w_next_dl w)" "no_failed {} w1 (w_next_ul w)"
        using ready_ok[OF r] unfolding no_failed_def world_okx_def by simp_all
      ultimately show ?thesis using W(10) inv(1) by (simp add: world_okx_def w1_def) (simp add: upd_peer_def)
    qed
    have "ready i w1" using ok r sh sp by (auto simp: ready_def w1_def connected_def all_short_def)
    then have "later i w w1" by (auto simp: later_def w1_def qidx_def)
    moreover have "own_slices i w1 = own_slices i w + length (p_slices p)" "qidx w1 i = insert idx (qidx w i)"
      using E by (simp_all add: w1_def qidx_def)
    ultimately have "grown i w w1" using k ask by (simp add: grown_def)
    then show ?thesis using True by simp
  qed
qed

lemma settled_view:
  assumes "settled i w w'" "view w'' = view w'" "world_ok w''"
  shows "settled i w w''"
  using assms view_eqD[OF assms(2)] by (simp add: settled_def qidx_def)

lemma request_choice_ok:
  assumes r: "ready i w" and ss: "4 \<le> cfg_req_slice_size e" and n: "own_slices i w < 4294967296"
  shows "\<exists>v w'. request_choice e i w = Some (v, w') \<and> verdict_ok i w v w' \<and>
    (v = Send_more \<longrightarrow> own_slices i w < unat (piece_length w div cfg_req_slice_size e) \<and> own_slices i w' < 4294967296)"
proof -
  let ?n = "npieces w" and ?c = "w_content w"
  let ?psize = "piece_length w div cfg_req_slice_size e" and ?q = "Qsize (pr_request_q (peer w i))"
  have q: "unat ?q = own_slices i w"
    using Qsize_nslices[OF world_okD(4)[OF ready_ok[OF r], of i]] n by (simp add: unat_of_nat_u32)
  show ?thesis
  proof (cases "ReqQueueLength e w - ?q < ?psize \<or> ?psize \<le> ?q")
    case True
    let ?f = "\<lambda>p. p\<lparr>pr_req_send := pr_req_out p\<rparr>"
    have "world_ok (upd_peer i ?f w)" using ready_ok[OF r] by (simp add: world_ok_upd_core core_def)
    then have "settled i w (upd_peer i ?f w)" by (intro calm_settled[OF view_calm[OF r]]) simp_all
    then show ?thesis using True by (simp add: request_choice_def Let_def)
  next
    case go: False
    have s4: "4 \<le> unat (cfg_req_slice_size e)" using ss by (simp add: u32_le_iff)
    have "unat ?psize \<le> unat (piece_length w) div 4" using s4 by (simp add: unat_div_distrib div_le_mono2)
    moreover have "unat (piece_length w) div 4 < 1073741824" using unat_u32_lt[of "piece_length w"] by linarith
    ultimately have "unat ?psize < 1073741824" by (rule le_less_trans)
    moreover have "own_slices i w < unat ?psize" using go q by (simp add: u32_le_iff)
    ultimately have small: "own_slices i w < unat ?psize" "unat ?psize < 1073741824" by simp_all
    have lim: "own_slices i w' < 4294967296" if "grown i w w'" for w' using that small by (simp add: grown_def)
    define need where "need = Except ?n (Except ?n (pr_bitfield (peer w i)) (c_BF ?c)) (c_BMasterFilter ?c)"
    define x where "x \<longleftrightarrow> pr_last_req_piece (peer w i) < ?n \<and> Count need > 1"
    define need1 where "need1 = UnSet_last x i w need"
    have n1: "need_ok i w need1" unfolding need1_def need_def
      by (intro need_ok_UnSet_last need_ok_Except need_ok_base content_okD(4)[OF ready_ok[OF r]] ready_ok[OF r])
    obtain idx pend qq where R: "Reassign (c_geo ?c) (w_pending w) (pr_request_q (peer w i)) need1 = (idx, pend, qq)" by (metis prod_cases3)
    define w1 where "w1 = (upd_peer i (\<lambda>p. p\<lparr>pr_request_q := qq\<rparr>) w)\<lparr>w_pending := pend\<rparr>"
    note G = Reassign_grown[OF r n1 R, folded w1_def]
    define dup where "dup = (if IsEmpty (c_BF ?c) \<and> pr_latency (peer w i) < 60 then
        try_dup e (need_loop (UnSet_last x i w) ?n (Except ?n (pr_bitfield (peer w i)) (c_BF ?c)) (filters_left ?c)) ?n i w
      else Some (None, w))"
    have C: "request_choice e i w =
      (if idx < ?n then Some (Send_more, mult_peer idx (if IsSet ?n (c_BMultPeer ?c) idx then CompareRequest i idx w1 else w1))
       else (case dup of None \<Rightarrow> None | Some (Some v, w) \<Rightarrow> Some (v, w) | Some (None, w) \<Rightarrow> request_other e x i w))"
    proof -
      have "w1 = w" if "\<not> idx < ?n" using G that by simp
      moreover have "(upd_peer i (\<lambda>p. p\<lparr>pr_request_q := qq\<rparr>) w)\<lparr>w_pending := pend\<rparr> = w1" by (simp add: w1_def)
      ultimately show ?thesis
        unfolding request_choice_def Let_def if_not_P[OF go] need_def[symmetric] x_def[symmetric] need1_def[symmetric] R prod.case
        by (simp add: dup_def)
    qed
    show ?thesis
    proof (cases "idx < ?n")
      case True
      then have g1: "grown i w w1" using G by simp
      have "grown i w (if IsSet ?n (c_BMultPeer ?c) idx then CompareRequest i idx w1 else w1)"
        using g1 grown_calm[OF g1 CompareRequest_calm[OF grown_ready[OF g1]]] by simp
      note g2 = grown_calm[OF this mult_peer_calm[OF grown_ready[OF this]], of idx]
      then show ?thesis using True C lim[OF g2] small by simp
    next
      case False
      have "need_ok i w (need_loop (UnSet_last x i w) ?n (Except ?n (pr_bitfield (peer w i)) (c_BF ?c)) (filters_left ?c))"
        by (intro need_ok_loop need_ok_UnSet_last need_ok_base filters_left_ok ready_ok[OF r])
      from try_dup_ok[OF r this, of e ?n] calm_refl[OF r] obtain v w2 where
        D: "dup = Some (v, w2)" "case v of None \<Rightarrow> calm i w w2 | Some v \<Rightarrow> verdict_ok i w v w2"
        unfolding dup_def by (cases "IsEmpty (c_BF ?c) \<and> pr_latency (peer w i) < 60") auto
      show ?thesis
      proof (cases v)
        case None
        then have c2: "calm i w w2" using D(2) by simp
        from request_other_ok[OF calm_ready[OF c2] ss, of x] obtain v3 w3 where
          O: "request_other e x i w2 = Some (v3, w3)" "verdict_ok i w v3 w3" using verdict_ok_calm[OF c2] by blast
        then show ?thesis using C False D(1) None small lim by (cases v3) auto
      next
        case (Some v3)
        then show ?thesis using C False D small lim by (cases v3) auto
      qed
    qed
  qed
qed

lemma SendRequest_ok:
  assumes ss: "4 \<le> cfg_req_slice_size e"
  shows "ready i w \<Longrightarrow> own_slices i w < 4294967296 \<Longrightarrow> \<exists>r w'. SendRequest e i w = Some (r, w') \<and> settled i w w'"
proof (induction "unat (piece_length w div cfg_req_slice_size e) - own_slices i w" arbitrary: w rule: less_induct)
  case less
  let ?psize = "unat (piece_length w div cfg_req_slice_size e)"
  from send_batch_calm[OF less.prems(1)] obtain r1 w1 where B: "send_batch e i w = Some (r1, w1)" "calm i w w1" by blast
  have c: "own_slices i w1 = own_slices i w" "c_geo (w_content w1) = c_geo (w_content w)"
    using B(2) by (simp_all add: calm_def later_def)
  from request_choice_ok[OF calm_ready[OF B(2)] ss] less.prems(2) c obtain v w2 where
    C: "request_choice e i w1 = Some (v, w2)" "verdict_ok i w1 v w2"
    "v = Send_more \<longrightarrow> own_slices i w1 < ?psize \<and> own_slices i w2 < 4294967296" by auto
  have E: "SendRequest e i w =
    (if r1 < 0 then Some (-1, w1)
     else if pr_req_out (peer w1 i) < pr_req_send (peer w1 i) \<and> \<not> pr_standby (peer w1 i) then
       (case v of Return r \<Rightarrow> Some (r, w2) | Send_more \<Rightarrow> SendRequest e i w2)
     else Some (0, w1))"
    by (subst SendRequest.simps) (simp add: B(1) C(1) split: verdict.split)
  have s1: "settled i w w1" by (rule calm_settled[OF B(2)])
  show ?case
  proof (cases v)
    case (Return r)
    then have "settled i w w2" using C(2) later_settled[OF disjI1[OF B(2)]] by simp
    then show ?thesis using E Return s1 by auto
  next
    case Send_more
    then have g: "grown i w w2" using C(2) calm_grown[OF B(2)] by simp
    have g2: "own_slices i w < own_slices i w2" "c_geo (w_content w2) = c_geo (w_content w)"
      using g by (simp_all add: grown_def later_def)
    have "unat (piece_length w2 div cfg_req_slice_size e) = ?psize" by (simp add: g2(2))
    then have "unat (piece_length w2 div cfg_req_slice_size e) - own_slices i w2 < ?psize - own_slices i w"
      using g2(1) C(3) Send_more c(1) by linarith
    from less.hyps[OF this grown_ready[OF g]] C(3) Send_more obtain r3 w3 where
      "SendRequest e i w2 = Some (r3, w3)" "settled i w2 w3" by blast
    then show ?thesis using E Send_more s1 later_settled[OF disjI2[OF g]] by auto
  qed
qed

lemma RequestPiece_ok:
  assumes ss: "4 \<le> cfg_req_slice_size e" and r: "ready i w" and n: "own_slices i w < 4294967296"
  shows "\<exists>r w'. RequestPiece e i w = Some (r, w') \<and> settled i w w'"
proof -
  from request_choice_ok[OF r ss n] obtain v w1 where
    C: "request_choice e i w = Some (v, w1)" "verdict_ok i w v w1" "v = Send_more \<longrightarrow> own_slices i w1 < 4294967296" by blast
  show ?thesis
  proof (cases v)
    case Send_more
    then have g: "grown i w w1" using C(2) by simp
    from SendRequest_ok[OF ss grown_ready[OF g]] C(3) Send_more obtain r2 w2 where
      "SendRequest e i w1 = Some (r2, w2)" "settled i w1 w2" by blast
    then show ?thesis using C(1) Send_more later_settled[OF disjI2[OF g]] by (auto simp: RequestPiece_def)
  qed (use C in \<open>simp add: RequestPiece_def\<close>)
qed

lemma request_part_ok:
  assumes ss: "4 \<le> cfg_req_slice_size e" and r: "ready i w" and n: "own_slices i w < 4294967296"
  shows "\<exists>r w'. request_part e i w = Some (r, w') \<and> settled i w w'"
proof -
  note c0 = fix_req_out_calm[OF r]
  let ?w0 = "fix_req_out i w"
  have n0: "own_slices i ?w0 < 4294967296" using c0 n by (simp add: calm_def)
  obtain t w1 where T: "time_to_request e i ?w0 = (t, w1)" by force
  have "view w1 = view ?w0" "world_ok w1"
  proof -
    have "view (snd (time_to_request e i ?w0)) = view ?w0" by (simp add: time_to_request_def Let_def case_prod_beta)
    then show "view w1 = view ?w0" by (simp only: T snd_conv)
    have "world_ok (snd (time_to_request e i ?w0))"
      using ready_ok[OF calm_ready[OF c0]] by (simp add: time_to_request_def Let_def case_prod_beta world_ok_timers)
    then show "world_ok w1" by (simp only: T snd_conv)
  qed
  then have c1: "calm i w w1" using calm_trans[OF c0 view_calm[OF calm_ready[OF c0]]] by blast
  then have n1: "own_slices i w1 < 4294967296" using n by (simp add: calm_def)
  from RequestPiece_ok[OF ss calm_ready[OF c0] n0] obtain r2 w2 where
    P: "RequestPiece e i ?w0 = Some (r2, w2)" "settled i w w2" using later_settled[OF disjI1[OF c0]] by blast
  from SendRequest_ok[OF ss calm_ready[OF c1] n1] obtain r3 w3 where
    S: "SendRequest e i w1 = Some (r3, w3)" "settled i w w3" using later_settled[OF disjI1[OF c1]] by blast
  show ?thesis using P S T calm_settled[OF c0] calm_settled[OF c1] calm_settled[OF calm_refl[OF r]]
    by (simp add: request_part_def Let_def)
qed

lemma RequestCheck_ok:
  assumes ss: "4 \<le> cfg_req_slice_size e" and r: "ready i w" and n: "own_slices i w < 4294967296"
  shows "\<exists>r w'. RequestCheck e i w = Some (r, w') \<and> settled i w w'"
proof -
  define timer where "timer = (\<lambda>w. if IsEmpty_q (pr_request_q (peer w i)) then StopDLTimer e i w else StartDLTimer i w)"
  have tm: "settled i w (timer v)" if "settled i w v" for v
    by (rule settled_view[OF that]) (use that in \<open>simp_all add: timer_def settled_def world_ok_timers\<close>)
  let ?I = "if local_interested (peer w i) then (0, w) else SetLocal e BT_MSG_INTERESTED i w"
  obtain r1 w1 where I: "?I = (r1, w1)" by force
  have "view (snd ?I) = view w" by (simp add: SetLocal_def send_state_def Let_def case_prod_beta)
  moreover have "world_ok (snd ?I)" using world_ok_SetLocal[OF ready_ok[OF r], of e BT_MSG_INTERESTED i] ready_ok[OF r] by simp
  ultimately have "view (snd ?I) = view w" "world_ok (snd ?I)" .
  then have c1: "calm i w w1" using view_calm[OF r] unfolding I by simp
  have n1: "own_slices i w1 < 4294967296" using c1 n by (simp add: calm_def)
  from request_part_ok[OF ss calm_ready[OF c1] n1] obtain r2 w2 where
    P: "request_part e i w1 = Some (r2, w2)" "settled i w w2" using later_settled[OF disjI1[OF c1]] by blast
  obtain r3 w3 where N: "(if local_interested (peer w i) then SetLocal e BT_MSG_NOT_INTERESTED i w else (0, w)) = (r3, w3)" by force
  have "settled i w (snd (if local_interested (peer w i) then SetLocal e BT_MSG_NOT_INTERESTED i w else (0, w)))"
    using SetLocal_settled[OF r, of e] calm_settled[OF calm_refl[OF r]] by simp
  then have s3: "settled i w w3" unfolding N by simp
  have E: "RequestCheck e i w =
    (if Seeding e w \<or> w_f_pause w then Some (SetLocal e BT_MSG_NOT_INTERESTED i w)
     else if Need_Remote_Data e i w then
       (if r1 < 0 then Some (-1, w1) else Some (if r2 < 0 then (-1, w2) else (0, timer w2)))
     else Some (if r3 < 0 then (-1, w3) else (0, timer w3)))"
    unfolding RequestCheck_def Let_def timer_def[symmetric] I N prod.case by (simp add: P(1))
  show ?thesis
    using E SetLocal_settled[OF r, of e] calm_settled[OF c1] P(2) s3 tm
    by (cases "SetLocal e BT_MSG_NOT_INTERESTED i w") simp
qed

section \<open>Properties\<close>

text \<open>
  C18: The flow of requests returns.  Every pass that does not give up adds at least one slice to the queue of the
  peer, and \<^verbatim>\<open>RequestPiece\<close> gives up once the queue holds a piece's worth of slices, so the mutual
  recursion of \<open>SendRequest\<close> and \<open>RequestPiece\<close> ends; no loop inside runs forever, no random choice divides
  by zero and no shuffle follows a null pointer.  The slice size is at least the configured minimum, and no
  queue has so many slices that the 32-bit counts wrap.
\<close>

theorem request_flow_returns:
  assumes ok: "world_ok w" "all_short w" and i: "i \<in> connected w"
    and n: "own_slices i w < 4294967296" and ss: "1024 \<le> cfg_req_slice_size e"
  shows "SendRequest e i w \<noteq> None \<and> RequestPiece e i w \<noteq> None \<and> RequestCheck e i w \<noteq> None"
proof -
  have s4: "4 \<le> cfg_req_slice_size e" using ss by (simp add: u32_le_iff)
  have r: "ready i w" using ok i by (simp add: ready_def)
  from SendRequest_ok[OF s4 r n] RequestPiece_ok[OF s4 r n] RequestCheck_ok[OF s4 r n] show ?thesis by auto
qed

lemma ex_busy_short: "all_short ex_busy" "all_short ex_world"
proof -
  have "short (w_pending ex_busy)" "short (pr_request_q (peer ex_busy j))" for j
    by (simp_all add: short_def ex_busy_def ex_world_def ex_peer_def ex_requests_def rq_new_def)
  then show "all_short ex_busy" by (simp add: all_short_def)
  have "short (w_pending ex_world)" "short (pr_request_q (peer ex_world j))" for j
    by (simp_all add: short_def ex_world_def ex_peer_def rq_new_def)
  then show "all_short ex_world" by (simp add: all_short_def)
qed

theorem request_flow_returns_witness:
  "SendRequest ex_env 1 ex_busy \<noteq> None \<and> own_slices 1 ex_busy = 2"
proof -
  have "1 \<in> connected ex_busy" "own_slices 1 ex_busy = 2" "1024 \<le> cfg_req_slice_size ex_env"
    by (simp_all add: connected_def ex_busy_def ex_world_def ex_peer_def nslices_def all_slices_def ex_requests_def ex_env_def)
  with request_flow_returns[OF ex_busy_ok ex_busy_short(1), of 1 ex_env] show ?thesis by simp
qed

text \<open>
  C17: A peer is asked only for what it can deliver.  After \<open>RequestCheck\<close> every piece in the queue of the peer
  was in it before, or the peer has the piece and the client does not, unless the client is still asking another
  peer for it; the data of the client stay well formed.
\<close>

theorem requests_can_be_served:
  assumes ok: "world_ok w" "all_short w" and i: "i \<in> connected w"
    and n: "own_slices i w < 4294967296" and ss: "1024 \<le> cfg_req_slice_size e"
  shows "\<exists>r w'. RequestCheck e i w = Some (r, w') \<and> world_ok w' \<and>
    {idx. HasPiece (pr_request_q (peer w' i)) idx} \<subseteq>
      {idx. HasPiece (pr_request_q (peer w i)) idx} \<union>
      {idx. unat idx \<in> has w i \<and>
        (unat idx \<notin> bf_set (npieces w) (c_BF (w_content w)) \<or> (\<exists>j. j \<noteq> i \<and> HasPiece (pr_request_q (peer w j)) idx))}"
proof -
  have s4: "4 \<le> cfg_req_slice_size e" using ss by (simp add: u32_le_iff)
  have r: "ready i w" using ok i by (simp add: ready_def)
  have q: "qidx v j = {idx. HasPiece (pr_request_q (peer v j)) idx}" for v j by (auto simp: qidx_def HasPiece_iff)
  from RequestCheck_ok[OF s4 r n] obtain res w' where R: "RequestCheck e i w = Some (res, w')" "settled i w w'" by blast
  then show ?thesis unfolding settled_def askable_def q by blast
qed

theorem requests_can_be_served_witness:
  "(case RequestCheck ex_env 1 ex_world of
      None \<Rightarrow> False
    | Some (r, w) \<Rightarrow> world_ok w \<and> reqs (pr_request_q (peer w 1)) = [(1, 0, 16384), (1, 16384, 16384)])"
proof -
  have e: "1 \<in> connected ex_world" "own_slices 1 ex_world < 4294967296" "1024 \<le> cfg_req_slice_size ex_env"
    by (simp_all add: connected_def ex_world_def ex_peer_def nslices_def all_slices_def rq_new_def ex_env_def)
  from requests_can_be_served[OF ex_world_ok ex_busy_short(2) e] obtain r w where
    R: "RequestCheck ex_env 1 ex_world = Some (r, w)" "world_ok w" by blast
  have "case RequestCheck ex_env 1 ex_world of None \<Rightarrow> False
    | Some (r, w) \<Rightarrow> reqs (pr_request_q (peer w 1)) = [(1, 0, 16384), (1, 16384, 16384)]" by code_simp
  then show ?thesis using R by simp
qed

end
