(* ===== verification/Control.thy ===== *)
theory Control
  imports Serve_Ok Flow_Progress
begin

text \<open>
  Messages that carry no data: whatever they say, the client stays well formed and what it has downloaded is not
  touched.
\<close>

section \<open>The flow of requests leaves the content alone\<close>

definition quiet :: "world \<Rightarrow> world \<Rightarrow> bool" where
  "quiet v w \<longleftrightarrow> (\<exists>b. w_content w = (w_content v)\<lparr>c_BMultPeer := b\<rparr>) \<and> w_now w = w_now v"

named_theorems quiet_intros

lemma quiet_same: "quiet v w \<Longrightarrow> same w w' \<Longrightarrow> quiet v w'"
  by (simp add: quiet_def same_def)

lemma quiet_refl [simp]: "quiet w w"
proof -
  have "w_content w = (w_content w)\<lparr>c_BMultPeer := c_BMultPeer (w_content w)\<rparr>" by simp
  then show ?thesis unfolding quiet_def by blast
qed

lemma quiet_trans: "quiet a b \<Longrightarrow> quiet b c \<Longrightarrow> quiet a c"
  by (auto simp: quiet_def)

lemma quiet_upd [quiet_intros]: "quiet v w \<Longrightarrow> quiet v (upd_peer i f w)"
  by (simp add: quiet_def)

lemma quiet_fields [quiet_intros]:
  "quiet v w \<Longrightarrow> quiet v (w\<lparr>w_pending := q\<rparr>)" "quiet v w \<Longrightarrow> quiet v (w\<lparr>w_dup_req_pieces := d\<rparr>)"
  "quiet v w \<Longrightarrow> quiet v (w\<lparr>w_slices := a\<rparr>)" "quiet v w \<Longrightarrow> quiet v (w\<lparr>w_rnd := k\<rparr>)"
  "quiet v w \<Longrightarrow> quiet v (w\<lparr>w_endgame := g\<rparr>)"
  by (simp_all add: quiet_def)

lemma quiet_stream [quiet_intros]: "quiet v w \<Longrightarrow> quiet v (snd (on_stream i f w))"
  by (simp add: on_stream_def case_prod_beta Let_def quiet_upd)

lemma quiet_ops [quiet_intros]:
  "quiet v w \<Longrightarrow> quiet v (snd (SetLocal e s i w))" "quiet v w \<Longrightarrow> quiet v (CloseConnection e i w)"
  "quiet v w \<Longrightarrow> quiet v (PutPending e i w)" "quiet v w \<Longrightarrow> quiet v (StopDLTimer e i w)"
  "quiet v w \<Longrightarrow> quiet v (DontWaitDL i w)" "quiet v w \<Longrightarrow> quiet v (DontWaitUL i w)" "quiet v w \<Longrightarrow> quiet v (set_or_close e s i w)"
  by (erule quiet_same, simp add: same_intros)+

lemma quiet_StartDL [quiet_intros]: "quiet v w \<Longrightarrow> quiet v (StartDLTimer i w)"
  by (simp add: StartDLTimer_def quiet_upd)

lemma quiet_rates [quiet_intros]:
  "quiet v w \<Longrightarrow> quiet v (snd (RateDL e i w))" "quiet v w \<Longrightarrow> quiet v (snd (NominalDL i w))" "quiet v w \<Longrightarrow> quiet v (fix_req_out i w)"
  by (simp_all add: RateDL_def NominalDL_def fix_req_out_def case_prod_beta Let_def quiet_upd)

lemma quiet_mult_peer [quiet_intros]: "quiet v w \<Longrightarrow> quiet v (mult_peer idx w)"
  by (auto simp: quiet_def mult_peer_def upd_content_def)

lemma quiet_fold: "quiet v w \<Longrightarrow> (\<And>i u. quiet v u \<Longrightarrow> quiet v (f i u)) \<Longrightarrow> quiet v (fold f is w)"
  by (induction "is" arbitrary: w) simp_all

lemma quiet_abandon: "quiet v w \<Longrightarrow> quiet v (snd (abandon_loop p is best w))"
proof (induction "is" arbitrary: best w)
  case (Cons a "is")
  show ?case using Cons.prems by (auto simp: Let_def case_prod_beta split: option.split intro!: Cons.IH quiet_intros)
qed simp

lemma quiet_Who [quiet_intros]: "quiet v w \<Longrightarrow> quiet v (snd (Who_Can_Abandon i w))"
  by (simp add: Who_Can_Abandon_def quiet_abandon)

lemma quiet_What [quiet_intros]: "quiet v w \<Longrightarrow> quiet v (snd (What_Can_Duplicate e bf i idx w))"
  by (auto simp: What_Can_Duplicate_def Let_def split: option.splits intro!: quiet_intros)

lemma quiet_compare: "quiet v (snd x) \<Longrightarrow> quiet v (snd (compare_step p idx i x))"
  by (auto simp: compare_step_def Let_def case_prod_beta split: option.splits prod.splits intro!: quiet_intros)

lemma quiet_Compare [quiet_intros]: "quiet v w \<Longrightarrow> quiet v (CompareRequest i idx w)"
proof -
  have "quiet v (snd x) \<Longrightarrow> quiet v (snd (fold (compare_step i idx) is x))" for "is" x
    by (induction "is" arbitrary: x) (simp_all add: quiet_compare)
  then show "quiet v w \<Longrightarrow> ?thesis" by (auto simp: CompareRequest_def split: option.splits)
qed

lemma quiet_UnStandby [quiet_intros]: "quiet v w \<Longrightarrow> quiet v (UnStandby w)"
  by (auto simp: UnStandby_def intro!: quiet_fold quiet_upd)

lemma quiet_Recalc [quiet_intros]: "quiet v w \<Longrightarrow> quiet v (RecalcDupReqs w)"
  by (simp add: RecalcDupReqs_def Let_def case_prod_beta quiet_fields)

lemma quiet_Endgame [quiet_intros]: "quiet v w \<Longrightarrow> quiet v (snd (Endgame w))"
  by (simp add: Endgame_def Let_def quiet_intros)

lemma quiet_cancel_one [quiet_intros]: "quiet v w \<Longrightarrow> quiet v (snd (cancel_one e i idx s w))"
  by (erule quiet_same) (simp add: same_cancel_one)

lemma quiet_CancelPiece [quiet_intros]: "quiet v w \<Longrightarrow> quiet v (snd (CancelPiece e idx i w))"
proof -
  have "quiet v u \<Longrightarrow> quiet v (snd (cancel_piece_loop e i idx ss u))" for idx ss u
  proof (induction ss arbitrary: idx u)
    case (Cons a ss)
    show ?case using Cons.prems by (auto simp: Let_def case_prod_beta intro!: Cons.IH quiet_intros)
  qed simp
  then show "quiet v w \<Longrightarrow> ?thesis"
    by (auto simp: CancelPiece_def stop_if_idle_def Let_def case_prod_beta intro!: quiet_intros split: list.split)
qed

lemma quiet_copy [quiet_intros]: "quiet v w \<Longrightarrow> quiet v (snd (copy_requests e idx j i w))"
  by (simp add: copy_requests_def case_prod_beta Let_def quiet_intros)

lemma quiet_try_dup: "quiet v w \<Longrightarrow> try_dup e bf flag i w = Some (x, w') \<Longrightarrow> quiet v w'"
  by (auto simp: try_dup_def Let_def case_prod_beta split: option.splits if_splits intro!: quiet_intros)

lemma quiet_try_abandon: "quiet v w \<Longrightarrow> quiet v (snd (try_abandon e g i w))"
  by (auto simp: try_abandon_def Let_def case_prod_beta split: option.splits intro!: quiet_intros)

lemma quiet_request_new: "quiet v w \<Longrightarrow> request_new e un i w = Some (x, w') \<Longrightarrow> quiet v w'"
  by (auto simp: request_new_def Let_def case_prod_beta split: option.splits if_splits intro!: quiet_intros)

lemma quiet_request_nothing: "quiet v w \<Longrightarrow> quiet v (snd (request_nothing e i w))"
  by (auto simp: request_nothing_def Let_def case_prod_beta intro!: quiet_intros)

lemma quiet_request_other: "quiet v w \<Longrightarrow> request_other e x i w = Some (r, w') \<Longrightarrow> quiet v w'"
proof -
  assume v: "quiet v w" and r: "request_other e x i w = Some (r, w')"
  define need where "need = need_loop (\<lambda>bf. And_bf (npieces w) (UnSet_last x i w bf) (c_BChecked (w_content w))) (npieces w)
    (Except (npieces w) (pr_bitfield (peer w i)) (c_BF (w_content w))) (filters_left (w_content w))"
  obtain g w1 where E: "Endgame w = (g, w1)" by force
  have v1: "quiet v w1" using quiet_Endgame[OF v] E by simp
  consider "request_nothing e i w = (r, w')" | "request_new e (CheckBitfield need w) i w = Some (r, w')"
    | "try_dup e need 0 i w1 = Some (Some r, w')"
    | w2 where "(if g \<and> pr_latency (peer w1 i) < 60 then try_dup e need 0 i w1 else Some (None, w1)) = Some (None, w2)" "try_abandon e g i w2 = (r, w')"
    using r unfolding request_other_def Let_def need_def[symmetric] E prod.case
    by (auto split: if_splits option.splits)
  then show "quiet v w'"
  proof cases
    case 1 then show ?thesis using quiet_request_nothing[OF v, of e i] by simp
  next
    case 2 then show ?thesis by (rule quiet_request_new[OF v])
  next
    case 3 then show ?thesis by (rule quiet_try_dup[OF v1])
  next
    case 4
    then have "quiet v w2" using quiet_try_dup[OF v1] v1 by (auto split: if_splits)
    from quiet_try_abandon[OF this, of e g i] show ?thesis using 4 by simp
  qed
qed

lemma quiet_request_choice: "quiet v w \<Longrightarrow> request_choice e i w = Some (r, w') \<Longrightarrow> quiet v w'"
proof -
  assume v: "quiet v w" and r: "request_choice e i w = Some (r, w')"
  define need where "need = Except (npieces w) (Except (npieces w) (pr_bitfield (peer w i)) (c_BF (w_content w))) (c_BMasterFilter (w_content w))"
  define x where "x = (pr_last_req_piece (peer w i) < npieces w \<and> Count need > 1)"
  obtain idx pend q where R: "Reassign (c_geo (w_content w)) (w_pending w) (pr_request_q (peer w i)) (UnSet_last x i w need) = (idx, pend, q)"
    by (cases "Reassign (c_geo (w_content w)) (w_pending w) (pr_request_q (peer w i)) (UnSet_last x i w need)") auto
  define w1 where "w1 = (upd_peer i (\<lambda>p. p\<lparr>pr_request_q := q\<rparr>) w)\<lparr>w_pending := pend\<rparr>"
  have v1: "quiet v w1" using v by (simp add: w1_def quiet_intros)
  define dup where "dup = need_loop (UnSet_last x i w1) (npieces w) (Except (npieces w) (pr_bitfield (peer w i)) (c_BF (w_content w))) (filters_left (w_content w))"
  consider "w' = upd_peer i (\<lambda>p. p\<lparr>pr_req_send := pr_req_out p\<rparr>) w"
    | "w' = mult_peer idx (CompareRequest i idx w1)" | "w' = mult_peer idx w1"
    | "try_dup e dup (npieces w) i w1 = Some (Some r, w')"
    | w2 where "(if IsEmpty (c_BF (w_content w)) \<and> pr_latency (peer w i) < 60 then try_dup e dup (npieces w) i w1 else Some (None, w1)) = Some (None, w2)"
        "request_other e x i w2 = Some (r, w')"
    using r unfolding request_choice_def Let_def need_def[symmetric] x_def[symmetric] R prod.case w1_def[symmetric] dup_def[symmetric]
    by (auto split: if_splits option.splits)
  then show "quiet v w'"
  proof cases
    case 4 then show ?thesis by (rule quiet_try_dup[OF v1])
  next
    case 5
    then have "quiet v w2" using quiet_try_dup[OF v1] v1 by (auto split: if_splits)
    then show ?thesis by (rule quiet_request_other) (rule 5(2))
  qed (use v v1 in \<open>simp_all add: quiet_intros\<close>)
qed

lemma quiet_stamp [quiet_intros]: "quiet v w \<Longrightarrow> quiet v (snd (stamp_now e len i w))"
  by (auto simp: stamp_now_def Let_def case_prod_beta intro!: quiet_intros)

lemma quiet_send_loop: "quiet v w \<Longrightarrow> send_loop e k first i w = Some (r, w') \<Longrightarrow> quiet v w'"
proof (induction k arbitrary: first w)
  case (Suc k)
  show ?case using Suc.prems
    by (auto simp: Let_def case_prod_beta split: if_splits option.splits intro!: quiet_intros elim!: Suc.IH[rotated])
qed simp

lemma quiet_send_batch:
  assumes v: "quiet v w" and B: "send_batch e i w = Some (r, w')" shows "quiet v w'"
proof (cases "pr_req_out (peer (fix_req_out i w) i) < pr_req_send (peer (fix_req_out i w) i) \<and> PeekSend (pr_request_q (peer (fix_req_out i w) i)) \<noteq> None")
  case True
  then obtain k u where L: "send_loop e 5 True i (fix_req_out i w) = Some (k, u)" using B by (auto simp: send_batch_def Let_def split: option.splits)
  have "quiet v u" by (rule quiet_send_loop[OF quiet_rates(3)[OF v] L])
  then show ?thesis using B True L by (auto simp: send_batch_def Let_def intro: quiet_upd)
next
  case False
  then have "w' = fix_req_out i w" using B unfolding send_batch_def Let_def by (simp only: if_False) simp
  then show ?thesis using quiet_rates(3)[OF v] by simp
qed

lemma quiet_SendRequest: "SendRequest e i w = Some x \<Longrightarrow> quiet w (snd x)"
proof (rule SendRequest.raw_induct[where P = "\<lambda>e i w x. quiet w (snd x)"])
  fix f e i w x
  assume IH: "\<And>e i w x. f e i w = Some x \<Longrightarrow> quiet w (snd x)"
    and E: "(case send_batch e i w of None \<Rightarrow> None
      | Some (r, w) \<Rightarrow> if r < 0 then Some (-1, w)
          else if pr_req_out (peer w i) < pr_req_send (peer w i) \<and> \<not> pr_standby (peer w i) then
            (case request_choice e i w of None \<Rightarrow> None | Some (Return r, w) \<Rightarrow> Some (r, w) | Some (Send_more, w) \<Rightarrow> f e i w)
          else Some (0, w)) = Some x"
  obtain r w1 where B: "send_batch e i w = Some (r, w1)" using E by (auto split: option.splits)
  have v1: "quiet w w1" using quiet_send_batch[OF quiet_refl B] .
  show "quiet w (snd x)"
  proof (cases "\<not> r < 0 \<and> pr_req_out (peer w1 i) < pr_req_send (peer w1 i) \<and> \<not> pr_standby (peer w1 i)")
    case True
    then obtain v w2 where C: "request_choice e i w1 = Some (v, w2)" using E B by (auto split: option.splits)
    have "quiet w w2" by (rule quiet_request_choice[OF v1 C])
    then show ?thesis using E B C True IH[of e i w2] quiet_trans by (auto split: verdict.splits)
  qed (use E B v1 in \<open>auto split: if_splits\<close>)
qed

lemma quiet_RequestCheck: "RequestCheck e i w = Some (r, w') \<Longrightarrow> quiet w w'"
proof -
  assume R: "RequestCheck e i w = Some (r, w')"
  have piece: "quiet u u'" if P: "RequestPiece e i u = Some (k, u')" for u k u'
  proof -
    obtain v u1 where C: "request_choice e i u = Some (v, u1)" using P by (auto simp: RequestPiece_def split: option.splits)
    have "quiet u u1" by (rule quiet_request_choice[OF quiet_refl C])
    then show ?thesis using P C quiet_SendRequest[of e i u1 "(k, u')"] quiet_trans[of u u1 u'] by (cases v) (auto simp: RequestPiece_def)
  qed
  have time: "quiet u (snd (time_to_request e i u))" for u
    by (auto simp: time_to_request_def Let_def case_prod_beta intro!: quiet_intros)
  have part: "quiet u u'" if P: "request_part e i u = Some (k, u')" for u k u'
  proof -
    let ?v = "fix_req_out i u"
    obtain t v1 where T: "time_to_request e i ?v = (t, v1)" by force
    have f: "quiet u ?v" "quiet u v1" using quiet_trans[OF _ time[of ?v]] T by (simp_all add: quiet_intros)
    show ?thesis using P f T piece[of ?v k u'] quiet_SendRequest[of e i v1 "(k, u')"] quiet_trans[OF f(1)] quiet_trans[OF f(2)]
      by (auto simp: request_part_def Let_def split: if_splits)
  qed
  have loc: "quiet w (snd (SetLocal e s i w))" for s by (simp add: quiet_intros)
  obtain r1 w1 where I: "(if local_interested (peer w i) then (0, w) else SetLocal e BT_MSG_INTERESTED i w) = (r1, w1)" by force
  obtain r3 w3 where N: "(if local_interested (peer w i) then SetLocal e BT_MSG_NOT_INTERESTED i w else (0, w)) = (r3, w3)" by force
  have v1: "quiet w w1" using I loc[of BT_MSG_INTERESTED] by (auto split: if_splits)
  have v3: "quiet w w3" using N loc[of BT_MSG_NOT_INTERESTED] by (auto split: if_splits)
  define timer where "timer = (\<lambda>w. if IsEmpty_q (pr_request_q (peer w i)) then StopDLTimer e i w else StartDLTimer i w)"
  have tm: "quiet w u \<Longrightarrow> quiet w (timer u)" for u by (simp add: timer_def quiet_intros)
  have E: "RequestCheck e i w =
    (if Seeding e w \<or> w_f_pause w then Some (SetLocal e BT_MSG_NOT_INTERESTED i w)
     else if Need_Remote_Data e i w then
       (if r1 < 0 then Some (-1, w1) else map_option (\<lambda>(k, u). if k < 0 then (-1, u) else (0, timer u)) (request_part e i w1))
     else Some (if r3 < 0 then (-1, w3) else (0, timer w3)))"
    unfolding RequestCheck_def Let_def timer_def[symmetric] I N prod.case by (simp split: option.split)
  have l: "quiet w (snd (SetLocal e BT_MSG_NOT_INTERESTED i w))" by (rule loc)
  consider "SetLocal e BT_MSG_NOT_INTERESTED i w = (r, w')" | "w' = w1" | k u where "request_part e i w1 = Some (k, u)" "w' = u \<or> w' = timer u"
    | "w' = w3 \<or> w' = timer w3"
    using R unfolding E by (auto split: if_splits)
  then show "quiet w w'"
  proof cases
    case 1 then show ?thesis using l by simp
  next
    case 2 then show ?thesis using v1 by simp
  next
    case 3
    then show ?thesis using quiet_trans[OF v1 part[OF 3(1)]] tm by blast
  next
    case 4 then show ?thesis using v3 tm by blast
  qed
qed

section \<open>The handlers\<close>

text \<open>\<open>mild\<close>: the client is well formed, ready to ask the peer, and its content is the same.\<close>

definition mild :: "nat \<Rightarrow> world \<Rightarrow> world \<Rightarrow> bool" where
  "mild i v w \<longleftrightarrow> ready i w \<and> quiet v w \<and> own_slices i w = own_slices i v"

definition safe :: "world \<Rightarrow> world \<Rightarrow> bool" where
  "safe v w \<longleftrightarrow> world_ok w \<and> quiet v w"

lemma mild_refl: "ready i w \<Longrightarrow> mild i w w" by (simp add: mild_def)
lemma mild_safe: "mild i v w \<Longrightarrow> safe v w" by (simp add: mild_def safe_def ready_def)
lemma safe_trans: "quiet u v \<Longrightarrow> safe v w \<Longrightarrow> safe u w" by (auto simp: safe_def intro: quiet_trans)

lemma mild_upd:
  assumes m: "mild i v w" and ok: "world_ok (upd_peer j f w)"
    and f: "pr_request_q (f (peer w j)) = pr_request_q (peer w j)" "pr_status (f (peer w j)) = pr_status (peer w j)"
  shows "mild i v (upd_peer j f w)"
  using m ok f by (auto simp: mild_def ready_def all_short_def connected_def quiet_upd)

lemma mild_core: "mild i v w \<Longrightarrow> core (f (peer w j)) = core (peer w j) \<Longrightarrow> mild i v (upd_peer j f w)"
  using world_ok_field[of "{}" w f j] by (intro mild_upd) (auto simp: mild_def ready_def core_def)

lemma mild_PeerError: "mild i v w \<Longrightarrow> mild i v (snd (PeerError k j w))"
  by (simp add: PeerError_def Let_def mild_core)

lemma safe_core: "safe v w \<Longrightarrow> core (f (peer w j)) = core (peer w j) \<Longrightarrow> safe v (upd_peer j f w)"
  by (simp add: safe_def world_ok_upd_core quiet_upd)

lemma safe_PeerError: "safe v w \<Longrightarrow> safe v (snd (PeerError k j w))"
  by (simp add: PeerError_def Let_def safe_core)

lemma safe_ops:
  "safe v w \<Longrightarrow> safe v (StopDLTimer e i w)" "safe v w \<Longrightarrow> safe v (DontWaitDL i w)" "safe v w \<Longrightarrow> safe v (DontWaitUL i w)"
  "safe v w \<Longrightarrow> safe v (PutPending e i w)" "safe v w \<Longrightarrow> safe v (mult_peer idx w)"
  "safe v w \<Longrightarrow> safe v (snd (on_stream i (Send_State mem s) w))" "safe v w \<Longrightarrow> safe v (snd (on_stream i (Send_Keepalive mem lit) w))"
  by (auto simp: safe_def mult_peer_ok intro!: quiet_intros world_ok_intros intro: world_okD(6))

lemma core_more [simp]:
  "core (p\<lparr>pr_choketime := t\<rparr>) = core p" "core (p\<lparr>remote_choked := b\<rparr>) = core p" "core (p\<lparr>pr_last_req_piece := u\<rparr>) = core p"
  "core (p\<lparr>pr_prefetch_completion := k\<rparr>) = core p" "core (p\<lparr>remote_interested := b\<rparr>) = core p" "core (p\<lparr>pr_latency := t\<rparr>) = core p"
  "core (p\<lparr>pr_cached_idx := u\<rparr>) = core p" "core (p\<lparr>pr_last_timestamp := t\<rparr>) = core p" "core (p\<lparr>pr_lastmsg := t\<rparr>) = core p"
  by (simp_all add: core_def)

lemma check_safe:
  assumes m: "mild i v w" and n: "own_slices i v < 4294967296" and ss: "1024 \<le> cfg_req_slice_size e"
  shows "\<exists>r w'. RequestCheck e i w = Some (r, w') \<and> safe v w'"
proof -
  have "4 \<le> cfg_req_slice_size e" using ss by (simp add: u32_le_iff)
  from RequestCheck_ok[OF this, of i w] m n obtain r w' where R: "RequestCheck e i w = Some (r, w')" "settled i w w'"
    by (auto simp: mild_def)
  then show ?thesis using quiet_RequestCheck[OF R(1)] m by (auto simp: safe_def settled_def mild_def intro: quiet_trans)
qed

lemma resize_out_stream: "st_out_ok s \<Longrightarrow> st_out_ok (snd (let (r, b) = SetSize mem len (out_buffer s) in (r, s\<lparr>out_buffer := b\<rparr>)))"
  using SetSize_ok[of "out_buffer s" mem len] by (cases "SetSize mem len (out_buffer s)") (simp add: st_out_ok_def)

lemma mild_resize: "mild i v w \<Longrightarrow> mild i v (snd (resize_out e len j w))"
  and safe_resize: "safe v w \<Longrightarrow> safe v (snd (resize_out e len j w))"
proof -
  have ok: "world_ok w \<Longrightarrow> world_ok (snd (resize_out e len j w))"
    unfolding resize_out_def by (intro world_ok_stream resize_out_stream world_okD(6))
  show "safe v w \<Longrightarrow> safe v (snd (resize_out e len j w))" using ok by (auto simp: safe_def resize_out_def quiet_stream)
  obtain s where r: "snd (resize_out e len j w) = upd_peer j (\<lambda>p. p\<lparr>pr_stream := s\<rparr>) w"
    by (simp add: resize_out_def on_stream_def case_prod_beta)
  show "mild i v w \<Longrightarrow> mild i v (snd (resize_out e len j w))"
    using ok mild_upd[of i v w j "\<lambda>p. p\<lparr>pr_stream := s\<rparr>"] unfolding r by (simp add: mild_def ready_def)
qed

lemma mild_bitfield:
  assumes m: "mild i v w" and b: "bf_inv (npieces w) b" shows "mild i v (upd_peer j (\<lambda>p. p\<lparr>pr_bitfield := b\<rparr>) w)"
proof (rule mild_upd[OF m])
  have ok: "world_ok w" using m by (simp add: mild_def ready_def)
  show "world_ok (upd_peer j (\<lambda>p. p\<lparr>pr_bitfield := b\<rparr>) w)"
    by (rule world_ok_upd_same[OF ok]) (use world_okD(1)[OF ok, of j] b in \<open>simp_all add: peer_ok_def\<close>)
qed simp_all

lemma on_choke_safe:
  assumes m: "mild i v w" shows "safe v (snd (on_choke e i w))"
proof -
  define k1 where "k1 = (if pr_lastmsg (peer w i) = 1 \<and> pr_last_timestamp (peer w i) \<le> pr_choketime (peer w i) + 1 then PeerError 2 i w else (0, w))"
  have s1: "safe v (snd k1)" using mild_safe[OF m] by (simp add: k1_def safe_PeerError)
  define w2 where "w2 = DontWaitDL i (StopDLTimer e i (upd_peer i (\<lambda>p. p\<lparr>pr_choketime := pr_last_timestamp p, remote_choked := True\<rparr>) (snd k1)))"
  have s2: "safe v w2" unfolding w2_def by (intro safe_ops safe_core s1) simp
  define w3 where "w3 = (if \<not> IsEmpty_q (pr_request_q (peer w2 i)) then
    PutPending e i (mult_peer (GetRequestIdx (c_geo (w_content w2)) (pr_request_q (peer w2 i))) w2) else w2)"
  have s3: "safe v w3" unfolding w3_def using s2 by (simp add: safe_ops)
  have "snd (on_choke e i w) = (if fst k1 < 0 then snd k1 else upd_peer i (\<lambda>p. p\<lparr>pr_cancel_time := w_now w3\<rparr>) w3)"
    unfolding on_choke_def Let_def k1_def[symmetric] case_prod_beta
    by (simp add: w2_def[symmetric] w3_def mult_peer_def upd_content_def)
  then show ?thesis using s1 s3 by (simp add: safe_core)
qed

lemma on_interested_safe: "mild i v w \<Longrightarrow> safe v (snd (on_interested e i w))"
proof -
  assume m: "mild i v w"
  have s: "safe v (upd_peer i (\<lambda>p. p\<lparr>remote_interested := True\<rparr>) w)" by (intro safe_core mild_safe[OF m]) simp
  have "safe v (UnchokeIfFree e i u)" if "safe v u" for u
  proof -
    have "quiet v (UnchokeIfFree e i u)" using that by (simp add: safe_def UnchokeIfFree_def quiet_intros)
    then show ?thesis using that world_ok_UnchokeIfFree by (simp add: safe_def)
  qed
  with s show ?thesis by (simp add: on_interested_def Let_def)
qed

lemma safe_respond:
  assumes s: "safe v w" and q: "rq_inv (w_slices w) q" shows "safe v (upd_peer i (\<lambda>p. p\<lparr>pr_respond_q := q\<rparr>) w)"
  using s q world_ok_respond_q by (simp add: safe_def quiet_upd)

lemma on_not_interested_safe: "mild i v w \<Longrightarrow> safe v (snd (on_not_interested i w))"
proof -
  assume m: "mild i v w"
  have s: "safe v (upd_peer i (\<lambda>p. p\<lparr>remote_interested := False\<rparr>) w)" by (intro safe_core mild_safe[OF m]) simp
  have q: "rq_inv (w_slices w) (Empty_q (pr_respond_q (peer w i)))"
    using world_okD(5)[of "{}" w i] mild_safe[OF m] by (simp add: safe_def Empty_ok)
  have "upd_peer i (\<lambda>p. p\<lparr>remote_interested := False, pr_respond_q := Empty_q (pr_respond_q p)\<rparr>) w =
    upd_peer i (\<lambda>p. p\<lparr>pr_respond_q := Empty_q (pr_respond_q (peer w i))\<rparr>) (upd_peer i (\<lambda>p. p\<lparr>remote_interested := False\<rparr>) w)"
    by (simp add: upd_peer_def)
  then show ?thesis using safe_respond[OF s, of "Empty_q (pr_respond_q (peer w i))" i] q by (simp add: on_not_interested_def Let_def)
qed

lemma add_respond_safe: "safe v w \<Longrightarrow> safe v (snd (add_respond e idx off len i w))"
proof -
  assume s: "safe v w"
  obtain ok a q where A: "Add (e_mem e) (w_slices w) (pr_respond_q (peer w i)) idx off len = (ok, a, q)"
    by (cases "Add (e_mem e) (w_slices w) (pr_respond_q (peer w i)) idx off len") auto
  have wo: "world_ok w" using s by (simp add: safe_def)
  note D = world_okD(1)[OF wo, of i]
  have inv: "rq_inv a q" "w_slices w < a" using Add_ok[OF world_okD(5)[OF wo] A] by simp_all
  have "world_okx {} ((upd_peer i (\<lambda>p. p\<lparr>pr_respond_q := q\<rparr>) w)\<lparr>w_slices := a\<rparr>)"
    using peer_ok_mono[OF D, of a] inv by (intro world_ok_upd[OF wo]) (simp_all add: peer_ok_def)
  then show ?thesis using s by (simp add: add_respond_def A safe_def quiet_intros)
qed

lemma on_request_safe:
  assumes m: "mild i v w" shows "safe v (snd (on_request e msg i w))"
proof -
  have s: "safe v w" by (rule mild_safe[OF m])
  define w1 where "w1 = upd_peer i (\<lambda>p. p\<lparr>pr_requested := True\<rparr>) w"
  have s1: "safe v w1" unfolding w1_def by (intro safe_core s) simp
  let ?idx = "fr_index msg" and ?off = "fr_offset msg" and ?len = "fr_length msg"
  define k where "k = (if BUFIO_DEF_SIZ + (if ?len < DEFAULT_SLICE_SIZE then 1 else 0) \<noteq> 0 then unat DEFAULT_SLICE_SIZE else unat ?len)"
  define p where "p = snd (PeerError 1 i w)"
  define c where "c = snd (on_stream i (Send_State (e_buf_mem e) BT_MSG_CHOKE) p)"
  define c' where "c' = upd_peer i (\<lambda>p. p\<lparr>pr_unchoke_timestamp := pr_last_timestamp p\<rparr>) c"
  define z where "z = snd (resize_out e k i w1)"
  define z' where "z' = upd_peer i (\<lambda>p. p\<lparr>pr_latency := w_now w - pr_unchoke_timestamp p\<rparr>) z"
  have "safe v p" unfolding p_def by (rule safe_PeerError[OF s])
  then have "safe v c" unfolding c_def by (rule safe_ops)
  then have "safe v c'" unfolding c'_def by (rule safe_core) simp
  have z: "safe v z" unfolding z_def by (rule safe_resize[OF s1])
  then have z': "safe v z'" unfolding z'_def by (rule safe_core) simp
  have "snd (on_request e msg i w) \<in> {w, p, c, c', z, snd (add_respond e ?idx ?off ?len i w), snd (add_respond e ?idx ?off ?len i z),
    snd (add_respond e ?idx ?off ?len i z')}"
    unfolding on_request_def Let_def w1_def[symmetric] k_def[symmetric] case_prod_beta p_def[symmetric] c_def[symmetric] z_def[symmetric]
    by (simp add: c'_def z'_def)
  with s \<open>safe v p\<close> \<open>safe v c\<close> \<open>safe v c'\<close> z add_respond_safe[OF s] add_respond_safe[OF z] add_respond_safe[OF z'] show ?thesis
    by auto
qed

lemma on_cancel_safe:
  assumes m: "mild i v w" shows "safe v (snd (on_cancel msg i w))"
proof -
  have s: "safe v w" by (rule mild_safe[OF m])
  obtain f q where R: "Remove (pr_respond_q (peer w i)) (fr_index msg) (fr_offset msg) (fr_length msg) = (f, q)" by force
  have "rq_inv (w_slices w) q"
    using Remove_ok[OF world_okD(5)[of "{}" w i], of "fr_index msg" "fr_offset msg" "fr_length msg"] s R by (simp add: safe_def)
  then have "safe v (upd_peer i (\<lambda>p. p\<lparr>pr_respond_q := q\<rparr>) w)" by (rule safe_respond[OF s])
  then show ?thesis unfolding on_cancel_def Let_def R prod.case by (auto intro!: safe_ops safe_PeerError)
qed

text \<open>A complete message is at the front of the buffer.\<close>

definition message_in :: "btstream \<Rightarrow> bool" where
  "message_in s \<longleftrightarrow> buf_inv (in_buffer s) \<and> BT_LEN_PRE + unat (m_msglen s) \<le> m_len (in_buffer s)"

lemma u64_diff: "a \<le> b \<Longrightarrow> b < 18446744073709551616 \<Longrightarrow> unat (of_nat b - of_nat a :: u64) = b - a"
  by (subst unat_sub) (simp_all add: word_le_nat_alt unat_of_nat take_bit_nat_eq_self)

lemma PeekNext_some: "message_in s \<Longrightarrow> m_len (in_buffer s) < 18446744073709551616 \<Longrightarrow> \<exists>b. PeekNextMessage k s = Some b"
proof -
  assume m: "message_in s" "m_len (in_buffer s) < 18446744073709551616"
  let ?base = "BT_LEN_PRE + unat (m_msglen s)" and ?l = "m_len (in_buffer s)"
  have b: "?base \<le> ?l" "?l \<le> m_size (in_buffer s)" using m by (simp_all add: message_in_def buf_inv_def)
  note d = u64_diff[OF b(1) m(2)]
  have "(4 :: u64) < of_nat ?l - of_nat ?base \<Longrightarrow> ?base + BT_LEN_PRE < m_size (in_buffer s)"
    using b unfolding word_less_nat_alt d by simp
  then show ?thesis unfolding PeekNextMessage_def Let_def by (auto simp del: of_nat_add)
qed

lemma on_unchoke_safe:
  assumes ss: "1024 \<le> cfg_req_slice_size e" and n: "own_slices i v < 4294967296" and m: "mild i v w" and b: "message_in (pr_stream (peer w i))" "m_len (in_buf i w) < 18446744073709551616"
  shows "\<exists>r w'. on_unchoke e i w = Some (r, w') \<and> safe v w'"
proof -
  define k1 where "k1 = (if pr_lastmsg (peer w i) = 0 \<and> pr_last_timestamp (peer w i) \<le> pr_choketime (peer w i) + 1 then PeerError 2 i w
    else (0, upd_peer i (\<lambda>p. p\<lparr>pr_last_req_piece := npieces w\<rparr>) w))"
  have m1: "mild i v (snd k1)" using m by (simp add: k1_def mild_PeerError mild_core)
  have st: "pr_stream (peer (snd k1) i) = pr_stream (peer w i)" by (simp add: k1_def PeerError_def Let_def)
  define w2 where "w2 = upd_peer i (\<lambda>p. p\<lparr>pr_choketime := pr_last_timestamp p, remote_choked := False, pr_standby := False\<rparr>) (snd k1)"
  have m2: "mild i v w2" unfolding w2_def by (intro mild_core m1) simp
  obtain c where c: "PeekNextMessage BT_MSG_CHOKE (pr_stream (peer w2 i)) = Some c"
    using PeekNext_some[OF b, of BT_MSG_CHOKE] st by (auto simp: w2_def)
  have m3: "mild i v (upd_peer i (\<lambda>p. p\<lparr>pr_prefetch_completion := 0\<rparr>) w2)" by (intro mild_core m2) simp
  obtain r w3 where R: "RequestCheck e i (upd_peer i (\<lambda>p. p\<lparr>pr_prefetch_completion := 0\<rparr>) w2) = Some (r, w3)" "safe v w3"
    using check_safe[OF m3 n ss] by blast
  have "on_unchoke e i w = (if fst k1 < 0 then Some (-1, snd k1) else if c then Some (0, w2) else Some (r, w3))"
    unfolding on_unchoke_def Let_def k1_def[symmetric] case_prod_beta by (simp add: w2_def[symmetric] c R(1))
  then show ?thesis using mild_safe[OF m1] mild_safe[OF m2] R(2) by simp
qed

lemma on_have_safe:
  assumes ss: "1024 \<le> cfg_req_slice_size e" and n: "own_slices i v < 4294967296" and m: "mild i v w" shows "\<exists>r w'. on_have e msg i w = Some (r, w') \<and> safe v w'"
proof -
  let ?n = "npieces w" and ?idx = "fr_index msg"
  have ok: "world_ok w" using m by (simp add: mild_def ready_def)
  show ?thesis
  proof (cases "?n \<le> ?idx \<or> IsSet ?n (pr_bitfield (peer w i)) ?idx")
    case True
    then show ?thesis using mild_safe[OF m] by (simp add: on_have_def Let_def)
  next
    case False
    define w1 where "w1 = upd_peer i (\<lambda>p. p\<lparr>pr_bitfield := Set ?n ?idx (pr_bitfield p)\<rparr>) w"
    have "bf_inv ?n (Set ?n ?idx (pr_bitfield (peer w i)))" using Set_ok[OF world_okD(3)[OF ok, of i], of ?idx] False by (simp add: not_le)
    from mild_bitfield[OF m this, of i] have m1: "mild i v w1" by (simp add: w1_def upd_peer_def)
    define w2 where "w2 = (if IsFull ?n (pr_bitfield (peer w1 i)) then snd (resize_out e BUFIO_DEF_SIZ i w1) else w1)"
    have m2: "mild i v w2" using m1 by (simp add: w2_def mild_resize)
    define f where "f = (\<lambda>p :: btpeer. p\<lparr>pr_cached_idx :=
      (if ?n \<le> pr_cached_idx p \<or> pr_standby p \<or> (case GetFilter (w_content w2) of None \<Rightarrow> True | Some f \<Rightarrow> \<not> IsSet ?n f ?idx)
       then ?idx else pr_cached_idx p), pr_standby := False\<rparr>)"
    define w3 where "w3 = (if \<not> IsSet ?n (c_BF (w_content w2)) ?idx \<and> \<not> IsSet ?n (c_BMasterFilter (w_content w2)) ?idx then upd_peer i f w2 else w2)"
    have m3: "mild i v w3" using m2 by (auto simp: w3_def f_def intro!: mild_core)
    obtain r w4 where R: "RequestCheck e i w3 = Some (r, w4)" "safe v w4" using check_safe[OF m3 n ss] by blast
    have "on_have e msg i w = (if IsFull ?n (pr_bitfield (peer w1 i)) \<and> IsFull_c w1 then Some (-2, w1)
      else if pr_standby (peer w3 i) then Some (0, w3) else Some (r, w4))"
      using False R(1) unfolding on_have_def Let_def w1_def[symmetric] w2_def[symmetric] f_def[symmetric] w3_def[symmetric] by simp
    then show ?thesis using mild_safe[OF m1] mild_safe[OF m3] R(2) by simp
  qed
qed

lemma on_bitfield_safe:
  assumes ss: "1024 \<le> cfg_req_slice_size e" and n: "own_slices i v < 4294967296" and m: "mild i v w" and b: "message_in (pr_stream (peer w i))" "0 < m_msglen (pr_stream (peer w i))"
  shows "\<exists>r w'. on_bitfield e (m_buf (in_buf i w)) i w = Some (r, w') \<and> safe v w'"
proof -
  let ?n = "npieces w" and ?l = "m_msglen (pr_stream (peer w i))" and ?msg = "m_buf (in_buf i w)"
  have ok: "world_ok w" using m by (simp add: mild_def ready_def)
  show ?thesis
  proof (cases "?l - 1 \<noteq> bf_nbytes ?n \<or> \<not> IsEmpty (pr_bitfield (peer w i))")
    case True
    then show ?thesis using mild_safe[OF m] by (simp add: on_bitfield_def Let_def)
  next
    case False
    let ?bf = "SetReferBuffer ?n (take (unat (bf_nbytes ?n)) (drop 5 ?msg)) (pr_bitfield (peer w i))"
    define w1 where "w1 = upd_peer i (\<lambda>p. p\<lparr>pr_bitfield := SetReferBuffer ?n (take (unat (bf_nbytes ?n)) (drop 5 ?msg)) (pr_bitfield p)\<rparr>) w"
    have u: "unat (?l - 1) = unat ?l - 1" by (rule unat_minus_one) (use b(2) in auto)
    have "0 < unat ?l" using b(2) by (simp add: word_less_nat_alt)
    then have l: "unat ?l = nbs ?n + 1" using False u nbs_eq[of ?n] by simp
    have "length ?msg = m_size (in_buf i w)" "4 + unat ?l \<le> m_size (in_buf i w)" using b(1) by (simp_all add: message_in_def buf_inv_def)
    then have "length (take (unat (bf_nbytes ?n)) (drop 5 ?msg)) = nbs ?n" using l by (simp add: nbs_eq)
    from SetReferBuffer_ok[OF world_okD(3)[OF ok, of i] this] have "bf_inv ?n ?bf" by simp
    from mild_bitfield[OF m this, of i] have m1: "mild i v w1" by (simp add: w1_def upd_peer_def)
    define w2 where "w2 = want_again i (snd (resize_out e BUFIO_DEF_SIZ i w1))"
    have m2: "mild i v w2" unfolding w2_def want_again_def by (intro mild_core mild_resize m1) simp
    obtain r2 u2 where R2: "RequestCheck e i w2 = Some (r2, u2)" "safe v u2" using check_safe[OF m2 n ss] by blast
    obtain r1 u1 where R1: "RequestCheck e i w1 = Some (r1, u1)" "safe v u1" using check_safe[OF m1 n ss] by blast
    have "on_bitfield e ?msg i w = (if IsFull ?n (pr_bitfield (peer w1 i)) then (if IsFull_c w1 then Some (-2, w1) else Some (r2, u2)) else Some (r1, u1))"
      using False R1(1) R2(1) unfolding on_bitfield_def Let_def w1_def[symmetric] w2_def[symmetric] by simp
    then show ?thesis using mild_safe[OF m1] R1(2) R2(2) by simp
  qed
qed

text \<open>
  C4: Whatever a peer sends, a message that carries no data cannot hurt the client: when a complete message other than PIECE
  is in the buffer, with any contents, \<^verbatim>\<open>MsgDeliver\<close> returns, the client's data stay well formed, and of the content
  only the marks of pieces requested from several peers may change: no byte, no complete piece, no filter.  No queue has so
  many slices that its 32-bit counts wrap.
\<close>

theorem control_message_safe:
  assumes ok: "world_ok w" "all_short w" "i \<in> connected w" and n: "own_slices i w < 4294967296"
    and ss: "1024 \<le> cfg_req_slice_size e"
    and b: "message_in (pr_stream (peer w i))" "m_len (in_buf i w) < 18446744073709551616"
    and np: "m_msglen (pr_stream (peer w i)) = 0 \<or> m_buf (in_buf i w) ! BT_LEN_PRE \<noteq> BT_MSG_PIECE"
  shows "\<exists>r w'. MsgDeliver e lit i w = Some (r, w') \<and> world_ok w' \<and> (\<exists>b. w_content w' = (w_content w)\<lparr>c_BMultPeer := b\<rparr>)"
proof -
  let ?m = "m_buf (in_buf i w)" and ?l = "m_msglen (pr_stream (peer w i))"
  define w1 where "w1 = upd_peer i (\<lambda>p. p\<lparr>pr_last_timestamp := w_now w\<rparr>) w"
  have "mild i w w" using ok by (simp add: mild_refl ready_def)
  then have m1: "mild i w w1" unfolding w1_def by (rule mild_core) simp
  have s1: "safe w w1" by (rule mild_safe[OF m1])
  have st: "pr_stream (peer w1 i) = pr_stream (peer w i)" by (simp add: w1_def)
  have out: "\<exists>r w'. MsgDeliver e lit i w = Some (r, w') \<and> safe w w'"
  proof (cases "?l = 0")
    case True
    define x where "x = (if pr_f_keepalive (peer w1 i) then (0, w1) else on_stream i (Send_Keepalive (e_buf_mem e) lit) w1)"
    have sx: "safe w (snd x)" using s1 by (simp add: x_def safe_ops)
    have D: "MsgDeliver e lit i w = Some (if fst x < 0 then (-1, snd x) else (0, upd_peer i (\<lambda>p. p\<lparr>pr_f_keepalive := False\<rparr>) (snd x)))"
      using True unfolding MsgDeliver_def Let_def w1_def[symmetric] case_prod_beta by (simp add: x_def)
    show ?thesis unfolding D using sx by (simp add: safe_core)
  next
    case False
    let ?k = "?m ! BT_LEN_PRE"
    have l: "0 < ?l" using False by (simp add: word_gt_0)
    have np1: "?k \<noteq> BT_MSG_PIECE" using np False by simp
    have b1: "message_in (pr_stream (peer w1 i))" "m_len (in_buf i w1) < 18446744073709551616" "0 < m_msglen (pr_stream (peer w1 i))"
      "?m = m_buf (in_buf i w1)" using b l st by simp_all
    have "\<exists>r w'. dispatch e ?k ?m ?l i w1 = Some (r, w') \<and> safe w w'"
      using np1 s1 on_unchoke_safe[OF ss n m1 b1(1,2)] on_have_safe[OF ss n m1, of ?m]
        on_bitfield_safe[OF ss n m1 b1(1,3), folded b1(4)] on_choke_safe[OF m1, of e] on_interested_safe[OF m1, of e]
        on_not_interested_safe[OF m1] on_request_safe[OF m1, of e ?m] on_cancel_safe[OF m1, of ?m]
      by (simp add: dispatch_def prod_eq_iff)
    then obtain r w2 where D: "dispatch e ?k ?m ?l i w1 = Some (r, w2)" "safe w w2" by blast
    have "MsgDeliver e lit i w = Some (r, if 0 \<le> r then upd_peer i (\<lambda>p. p\<lparr>pr_lastmsg := sint ?k\<rparr>) w2 else w2)"
      using False D(1) unfolding MsgDeliver_def Let_def w1_def[symmetric] by simp
    then show ?thesis using D(2) by (simp add: safe_core)
  qed
  then show ?thesis by (auto simp: safe_def quiet_def)
qed

text \<open>A HAVE message for piece 2 is in the buffer.\<close>

definition ex_have :: world where
  "ex_have = upd_peer 1 (\<lambda>p. p\<lparr>pr_stream := (pr_stream p)\<lparr>m_msglen := 5, in_buffer :=
     \<lparr>m_buf = [0, 0, 0, 5, 4, 0, 0, 0, 2, 0], m_len = 9, m_size = 10, m_max = 1024, m_valid = True, m_socket_remote_closed = False\<rparr>\<rparr>\<rparr>) ex_world"

theorem control_message_safe_witness:
  "(case MsgDeliver ex_env [] 1 ex_have of None \<Rightarrow> False | Some (r, w') \<Rightarrow> world_ok w' \<and> c_BF (w_content w') = c_BF (w_content ex_have))"
proof -
  have ok: "world_ok ex_world" using ex_world_ok .
  have w: "world_ok ex_have" unfolding ex_have_def
    by (rule world_ok_upd_same[OF ok]) (use world_okD(1)[OF ok, of 1] in \<open>simp_all add: peer_ok_def st_out_ok_def\<close>)
  have "m_msglen (pr_stream (peer ex_have 1)) = 5" and m: "message_in (pr_stream (peer ex_have 1))" "m_len (in_buf 1 ex_have) = 9"
    "m_buf (in_buf 1 ex_have) ! BT_LEN_PRE = BT_MSG_HAVE"
    by (simp_all add: ex_have_def message_in_def buf_inv_def)
  have q: "pr_request_q (peer ex_have j) = rq_new" for j by (simp add: ex_have_def ex_world_def ex_peer_def)
  have "1 \<in> connected ex_have" by (simp add: connected_def ex_have_def ex_world_def ex_peer_def)
  moreover have "w_pending ex_have = rq_new" by (simp add: ex_have_def ex_world_def)
  then have "all_short ex_have" unfolding all_short_def q by (simp add: short_def rq_new_def)
  moreover have "own_slices 1 ex_have < 4294967296" unfolding q by (simp add: nslices_def all_slices_def rq_new_def)
  moreover have "1024 \<le> cfg_req_slice_size ex_env" by (simp add: ex_env_def)
  ultimately obtain r w' b where "MsgDeliver ex_env [] 1 ex_have = Some (r, w')" "world_ok w'"
    "w_content w' = (w_content ex_have)\<lparr>c_BMultPeer := b\<rparr>"
    using control_message_safe[OF w, of 1 ex_env "[]"] m by auto
  then show ?thesis by simp
qed

end
