(* ===== verification/Httpencode.thy ===== *)
theory Httpencode
  imports Bencode
begin

text \<open>
  HTTP helpers of \<^verbatim>\<open>src/httpencode.cpp\<close>: URL encoding, splitting a URL, splitting a response,
  status code and header lookup.

  A NUL-terminated string is the list of its bytes without the terminator.  Memory is assumed to
  suffice.  \<^verbatim>\<open>strnstr\<close> searches up to the first NUL or the given length.
\<close>

section \<open>URL encoding\<close>

definition is_alnum :: "u8 \<Rightarrow> bool" where
  "is_alnum c \<longleftrightarrow> (0x41 \<le> c \<and> c \<le> 0x5a) \<or> (0x61 \<le> c \<and> c \<le> 0x7a) \<or> (0x30 \<le> c \<and> c \<le> 0x39)"

definition HEX_TABLE :: bytes where
  "HEX_TABLE = [48, 49, 50, 51, 52, 53, 54, 55, 56, 57, 65, 66, 67, 68, 69, 70]"

definition url_encode_char :: "u8 \<Rightarrow> bytes" where
  "url_encode_char src = [37, HEX_TABLE ! unat (drop_bit 4 src AND 0x0f), HEX_TABLE ! unat (src AND 0x0f)]"

definition url_plain :: "u8 \<Rightarrow> bool" where
  "url_plain c \<longleftrightarrow> c AND NOT 0x7f = 0 \<and> is_alnum c"

fun urlencode_loop :: "bytes \<Rightarrow> bytes" where
  "urlencode_loop [] = []"
| "urlencode_loop (c # src) =
     (if url_plain c then c # urlencode_loop src else url_encode_char c @ urlencode_loop src)"

text \<open>What is written to \<^verbatim>\<open>dst\<close>, with the terminator.\<close>

definition urlencode :: "bytes \<Rightarrow> nat \<Rightarrow> bytes" where
  "urlencode src len = urlencode_loop (take len src) @ [0]"

section \<open>Splitting a URL\<close>

fun strstr :: "bytes \<Rightarrow> bytes \<Rightarrow> bytes option" where
  "strstr [] pat = (if pat = [] then Some [] else None)"
| "strstr (c # s) pat = (if take (length pat) (c # s) = pat then Some (c # s) else strstr s pat)"

definition is_hostchar :: "u8 \<Rightarrow> bool" where
  "is_hostchar c \<longleftrightarrow> (97 \<le> c \<and> c \<le> 122) \<or> (65 \<le> c \<and> c \<le> 90) \<or> (48 \<le> c \<and> c \<le> 57) \<or> c = 46 \<or> c = 45"

definition is_dec :: "u8 \<Rightarrow> bool" where
  "is_dec c \<longleftrightarrow> 48 \<le> c \<and> c \<le> 57"

fun atoi_acc :: "nat \<Rightarrow> bytes \<Rightarrow> nat" where
  "atoi_acc n [] = n"
| "atoi_acc n (c # cs) = (if is_dec c then atoi_acc (10 * n + (unat c - 48)) cs else n)"

datatype url_error = EINVAL | ENOERR

text \<open>The result is the errno of a failure, or host, port and path.\<close>

definition UrlSplit :: "bytes \<Rightarrow> url_error + (bytes \<times> nat \<times> bytes)" where
  "UrlSplit url =
     (let p = (case strstr url [58, 47, 47] of None \<Rightarrow> url | Some q \<Rightarrow> drop 3 q);
          host = takeWhile is_hostchar p;
          p = dropWhile is_hostchar p;
          rest = (case p of
              c # q \<Rightarrow>
                (if c = 58 then
                   (let r = min 6 (length (takeWhile is_dec q))
                    in if r = 0 then None
                       else if atoi_acc 0 q > 65536 then None
                       else Some (atoi_acc 0 q, drop r q))
                 else Some (80, p))
            | [] \<Rightarrow> Some (80, p))
      in case rest of
           None \<Rightarrow> Inl EINVAL
         | Some (port, p) \<Rightarrow>
             (if p \<noteq> [] \<and> hd p \<noteq> 47 \<and> hd p \<noteq> 63 then Inl ENOERR else Inr (host, port, p)))"

section \<open>Splitting a response\<close>

definition tolower :: "u8 \<Rightarrow> u8" where
  "tolower c = (if 65 \<le> c \<and> c \<le> 90 then c + 32 else c)"

definition strncasecmp_eq :: "bytes \<Rightarrow> bytes \<Rightarrow> nat \<Rightarrow> bool" where
  "strncasecmp_eq a b n \<longleftrightarrow> map tolower (take n a) = map tolower (take n b)"

fun strnstr :: "bytes \<Rightarrow> bytes \<Rightarrow> nat option" where
  "strnstr [] pat = (if pat = [] then Some 0 else None)"
| "strnstr (c # s) pat =
     (if take (length pat) (c # s) = pat then Some 0
      else if c = 0 then None else map_option Suc (strnstr s pat))"

text \<open>The result is the header length and the data, or \<^term>\<open>None\<close> for 0.\<close>

definition HttpSplit :: "bytes \<Rightarrow> (nat \<times> bytes) option" where
  "HttpSplit buf =
     (if length buf < 16 then None
      else if \<not> strncasecmp_eq buf [72, 84, 84, 80, 47] 5 then None
      else case strnstr buf [13, 10, 13, 10] of
        Some p \<Rightarrow> Some (p, drop (p + 4) buf)
      | None \<Rightarrow>
        (case strnstr buf [10, 10] of
           Some p \<Rightarrow> Some (p, drop (p + 2) buf)
         | None \<Rightarrow>
           (case strnstr buf [10, 13, 10, 13] of
              Some p \<Rightarrow> Some (p, drop (p + 4) buf)
            | None \<Rightarrow> None)))"

text \<open>\<^verbatim>\<open>atoi\<close>: white space, an optional sign, digits.\<close>

definition atoi :: "bytes \<Rightarrow> int" where
  "atoi s =
     (let s = dropWhile (\<lambda>c. c = 32 \<or> (9 \<le> c \<and> c \<le> 13)) s
      in case s of
           [] \<Rightarrow> 0
         | c # cs \<Rightarrow>
             (if c = 45 then - int (atoi_acc 0 cs)
              else if c = 43 then int (atoi_acc 0 cs) else int (atoi_acc 0 s)))"

definition HttpGetStatusCode :: "bytes \<Rightarrow> int" where
  "HttpGetStatusCode buf =
     (case dropWhile (\<lambda>c. c \<noteq> 32 \<and> c \<noteq> 13 \<and> c \<noteq> 10) buf of
        [] \<Rightarrow> -1
      | c # q \<Rightarrow>
          (if c \<noteq> 32 then -1
           else (let r = atoi (c # q)
                 in if r < 100 \<or> 600 < r then -1 else r)))"

text \<open>
  \<^verbatim>\<open>HttpGetHeader\<close>.  \<open>buf\<close> runs to the terminating NUL, \<open>remain\<close> is the \<^verbatim>\<open>size_t\<close> counter,
  which wraps around when a line runs past it.  Reading past the NUL is \<open>Overrun\<close>.
\<close>

datatype header_result = NotFound | Found bytes | Overrun

function header_loop :: "bytes \<Rightarrow> u64 \<Rightarrow> bytes \<Rightarrow> header_result" where
  "header_loop b remain h =
     (if remain \<le> of_nat (length h) then NotFound
      else let nl = dropWhile (\<lambda>c. c \<noteq> 10) b;
               line_len = (if nl = [] then remain else of_nat (length b - length nl + 1))
      in if line_len > of_nat (length h) \<and> strncasecmp_eq b h (length h) then
           (let v = drop (length h) b;
                lim = unat (line_len - of_nat (length h));
                value = takeWhile (\<lambda>c. c \<noteq> 13 \<and> c \<noteq> 10) (take lim v)
            in if length value = length v \<and> length v < lim then Overrun else Found value)
         else if nl = [] then NotFound
         else header_loop (tl nl) (remain - line_len) h)"
  by pat_completeness auto
termination
proof (relation "measure (\<lambda>(b, _). length b)", goal_cases)
  case (2 b remain h nl line_len)
  have "length nl \<le> length b" using 2(2) by (simp add: length_dropWhile_le)
  then show ?case using 2(5) by (cases nl) auto
qed simp

definition HttpGetHeader :: "bytes \<Rightarrow> u64 \<Rightarrow> bytes \<Rightarrow> header_result" where
  "HttpGetHeader buf remain header =
     (let h = header @ [58, 32]; nl = dropWhile (\<lambda>c. c \<noteq> 10) buf
      in if nl = [] then NotFound
         else header_loop (tl nl) (remain - of_nat (length buf - length nl + 1)) h)"

declare header_loop.simps [simp del]

section \<open>URL encoding is reversible\<close>

definition hexval :: "u8 \<Rightarrow> nat" where
  "hexval c = (if 65 \<le> c then unat c - 55 else unat c - 48)"

fun url_decode :: "bytes \<Rightarrow> bytes" where
  "url_decode [] = []"
| "url_decode (c # s) =
     (if c = 37 then
        (case s of h # l # r \<Rightarrow> of_nat (16 * hexval h + hexval l) # url_decode r | _ \<Rightarrow> [])
      else c # url_decode s)"

lemma hex_digit:
  assumes "n < 16"
  shows "hexval (HEX_TABLE ! n) = n" "is_alnum (HEX_TABLE ! n)"
proof -
  have "n \<in> set [0..<16]" using assms by simp
  moreover have "\<forall>n\<in>set [0..<16]. hexval (HEX_TABLE ! n) = n \<and> is_alnum (HEX_TABLE ! n)" by code_simp
  ultimately show "hexval (HEX_TABLE ! n) = n" "is_alnum (HEX_TABLE ! n)" by blast+
qed

lemma u8_mod: "unat ((x :: u8) mod y) = unat x mod unat y"
  by (rule unat_mod_distrib)

lemma nibbles:
  "unat (drop_bit 4 (c :: u8) AND 0x0f) = unat c div 16" "unat ((c :: u8) AND 0x0f) = unat c mod 16"
proof -
  have m: "(0x0f :: u8) = mask 4" by (simp add: mask_eq_exp_minus_1)
  have lt: "unat c div 16 < 16" using unat_u8_lt[of c] by (simp add: less_mult_imp_div_less)
  have "unat (take_bit 4 (drop_bit 4 c)) = take_bit 4 (drop_bit 4 (unat c))"
    by (simp only: unsigned_take_bit_eq unsigned_drop_bit_eq) (simp add: take_bit_eq_mod drop_bit_eq_div)
  also have "\<dots> = unat c div 16" using lt by (simp add: take_bit_eq_mod drop_bit_eq_div)
  finally show "unat (drop_bit 4 c AND 0x0f) = unat c div 16"
    unfolding m take_bit_eq_mask[symmetric] .
  show "unat (c AND 0x0f) = unat c mod 16"
    unfolding m take_bit_eq_mask[symmetric] by (simp add: take_bit_eq_mod) (simp add: u8_mod)
qed

lemma url_decode_char: "url_decode (url_encode_char c @ r) = c # url_decode r"
proof -
  have "unat c div 16 < 16" using unat_u8_lt[of c] by (simp add: less_mult_imp_div_less)
  then have h: "hexval (HEX_TABLE ! unat (drop_bit 4 c AND 0x0f)) = unat c div 16"
    "hexval (HEX_TABLE ! unat (c AND 0x0f)) = unat c mod 16"
    unfolding nibbles(1) unfolding nibbles(2) by (simp_all add: hex_digit)
  have "16 * (unat c div 16) + unat c mod 16 = unat c" by simp
  then have "(of_nat (16 * (unat c div 16) + unat c mod 16) :: u8) = of_nat (unat c)" by (rule arg_cong)
  then have "(of_nat (16 * (unat c div 16) + unat c mod 16) :: u8) = c" by (simp only: of_nat_unat ucast_id)
  then show ?thesis by (simp only: url_encode_char_def append.simps url_decode.simps list.case h) simp
qed

lemma url_plain_not_percent: "url_plain c \<Longrightarrow> c \<noteq> 37"
  by (auto simp: url_plain_def is_alnum_def)

lemma url_encode_char_safe: "x \<in> set (url_encode_char c) \<Longrightarrow> is_alnum x \<or> x = 37"
proof -
  have "unat c div 16 < 16" using unat_u8_lt[of c] by (simp add: less_mult_imp_div_less)
  then show "x \<in> set (url_encode_char c) \<Longrightarrow> is_alnum x \<or> x = 37"
    by (auto simp: url_encode_char_def nibbles hex_digit)
qed

text \<open>
  \<^verbatim>\<open>urlencode\<close> writes only letters, digits and percent signs, at most three per byte, followed by
  the terminator, and loses nothing: decoding the percent escapes gives back the bytes encoded, so
  two different info hashes are never sent as the same one.
\<close>

theorem urlencode_reversible:
  "\<exists>s. urlencode src len = s @ [0] \<and> url_decode s = take len src \<and>
     set s \<subseteq> {c. is_alnum c \<or> c = 37} \<and> length s \<le> 3 * len"
proof -
  have "url_decode (urlencode_loop xs) = xs \<and> (\<forall>c\<in>set (urlencode_loop xs). is_alnum c \<or> c = 37) \<and>
      length (urlencode_loop xs) \<le> 3 * length xs" for xs
  proof (induction xs)
    case (Cons c xs)
    then show ?case using url_decode_char url_plain_not_percent url_encode_char_safe[of _ c]
      by (auto simp: url_plain_def) (auto simp: url_encode_char_def)
  qed simp
  from this[of "take len src"] show ?thesis by (auto simp: urlencode_def)
qed

section \<open>Splitting\<close>

lemma strstr_first:
  assumes "pat = p # ps" "p \<notin> set s"
  shows "strstr (s @ pat @ r) pat = Some (pat @ r)"
  using assms by (induction s) auto

lemma dec_not:
  "c = 47 \<or> c = 63 \<or> c = 58 \<Longrightarrow> \<not> is_dec c \<and> \<not> is_hostchar c"
  by (auto simp: is_dec_def is_hostchar_def)

lemma atoi_dec:
  assumes "\<forall>c\<in>set ds. isdigit c" "rest = [] \<or> \<not> is_dec (hd rest)"
  shows "atoi_acc n (ds @ rest) = digits_val n ds"
  using assms
proof (induction ds arbitrary: n)
  case Nil
  then show ?case by (cases rest) auto
qed (auto simp: isdigit_def is_dec_def)

text \<open>
  \<^verbatim>\<open>UrlSplit\<close> takes a URL apart: whatever the scheme, the host name, the port (80 when
  there is none) and the path it returns are the ones the URL was made of.
\<close>

theorem UrlSplit_parts:
  assumes scheme: "58 \<notin> set scheme" and host: "\<forall>c\<in>set host. is_hostchar c"
    and port: "0 < port" "port \<le> 65535" and path: "path = [] \<or> hd path = 47 \<or> hd path = 63"
  shows "UrlSplit (scheme @ [58, 47, 47] @ host @ 58 # dec_nat port @ path) = Inr (host, port, path) \<and>
    UrlSplit (scheme @ [58, 47, 47] @ host @ path) = Inr (host, 80, path)"
proof -
  have ss: "strstr (scheme @ [58, 47, 47] @ x) [58, 47, 47] = Some ([58, 47, 47] @ x)" for x
    by (rule strstr_first) (use scheme in auto)
  have pe: "(case strstr (scheme @ [58, 47, 47] @ x) [58, 47, 47] of
      None \<Rightarrow> scheme @ [58, 47, 47] @ x | Some q \<Rightarrow> drop 3 q) = x" for x
    using ss[of x] by simp
  have h: "takeWhile is_hostchar (host @ x) = host" "dropWhile is_hostchar (host @ x) = x"
    if "x = [] \<or> \<not> is_hostchar (hd x)" for x
    using host that by (cases x; simp add: takeWhile_append2 dropWhile_append2)+
  have hn: "takeWhile is_hostchar host = host" "dropWhile is_hostchar host = []"
    using host by (induction host) auto
  have np: "path = [] \<or> \<not> is_dec (hd path) \<and> \<not> is_hostchar (hd path)" using path dec_not by auto
  have "isdigit = is_dec" by (intro ext) (simp add: isdigit_def is_dec_def)
  then have dg: "\<forall>c\<in>set (dec_nat port). is_dec c" using dec_nat_digits[of port] by simp
  have tw: "takeWhile is_dec (dec_nat port @ path) = dec_nat port"
    using dg np by (cases path) (simp_all add: takeWhile_append2)
  have l: "length (dec_nat port) \<le> 5" using dec_nat_length[of port 4] port by simp
  have l0: "0 < length (dec_nat port)" by simp
  have v: "atoi_acc 0 (dec_nat port @ path) = port"
    using atoi_dec[of "dec_nat port" path 0] dec_nat_digits[of port] np by auto
  have m: "min 6 (length (dec_nat port)) = length (dec_nat port)" using l by simp
  have pp: "path = [] \<or> hd path = 47 \<or> hd path = 63" by (rule path)
  have "UrlSplit (scheme @ [58, 47, 47] @ host @ 58 # dec_nat port @ path) = Inr (host, port, path)"
    unfolding UrlSplit_def pe
    using h[of "58 # dec_nat port @ path"] dec_not[of 58] tw v m l0 port(2) pp
    by (simp add: Let_def del: length_greater_0_conv)
  moreover have "UrlSplit (scheme @ [58, 47, 47] @ host @ path) = Inr (host, 80, path)"
    unfolding UrlSplit_def pe using h[of path] np pp by (cases path) (simp_all add: Let_def hn, auto)
  ultimately show ?thesis by blast
qed

theorem UrlSplit_parts_witness:
  "UrlSplit ([104] @ [58, 47, 47] @ [97, 46, 98] @ 58 # dec_nat 8080 @ [47, 120]) = Inr ([97, 46, 98], 8080, [47, 120])"
  using UrlSplit_parts[of "[104]" "[97, 46, 98]" 8080 "[47, 120]"] by (simp add: is_hostchar_def)

text \<open>The port check lets 65536 through.\<close>

lemma UrlSplit_port_65536: "UrlSplit [97, 58, 54, 53, 53, 51, 54] = Inr ([97], 65536, [])"
  by (simp add: UrlSplit_def is_hostchar_def is_dec_def Let_def)

section \<open>Looking up a header\<close>

definition CRLF :: bytes where "CRLF = [13, 10]"

definition header_line :: "bytes \<times> bytes \<Rightarrow> bytes" where
  "header_line nv = fst nv @ [58, 32] @ snd nv @ CRLF"

definition hdr_ok :: "bytes \<times> bytes \<Rightarrow> bool" where
  "hdr_ok nv \<longleftrightarrow> (\<forall>c\<in>set (fst nv). c \<noteq> 58 \<and> c \<noteq> 10 \<and> c \<noteq> 13) \<and> (\<forall>c\<in>set (snd nv). c \<noteq> 10 \<and> c \<noteq> 13)"

abbreviation same_name :: "bytes \<Rightarrow> bytes \<Rightarrow> bool" where
  "same_name a b \<equiv> map tolower a = map tolower b"

lemma tolower_colon: "tolower c = 58 \<longleftrightarrow> c = 58"
proof
  assume "tolower c = 58"
  moreover have "tolower c \<noteq> 58" if "65 \<le> c" "c \<le> 90"
  proof
    assume "tolower c = 58"
    then have "c + 32 = 58" using that by (simp add: tolower_def)
    then have "c = 58 - 32" by (metis add_diff_cancel_right')
    then show False using that by simp
  qed
  ultimately show "c = 58" by (auto simp: tolower_def split: if_splits)
qed (simp add: tolower_def)

text \<open>A header name followed by the colon is recognised exactly.\<close>

lemma name_match:
  assumes "\<forall>c\<in>set n. c \<noteq> 58" "\<forall>c\<in>set h. c \<noteq> 58"
  shows "strncasecmp_eq (n @ [58, 32] @ r) (h @ [58, 32]) (length h + 2) \<longleftrightarrow> same_name n h"
proof
  assume "same_name n h"
  moreover from this have "length n = length h" by (rule map_eq_imp_length_eq)
  ultimately show "strncasecmp_eq (n @ [58, 32] @ r) (h @ [58, 32]) (length h + 2)"
    by (simp add: strncasecmp_eq_def)
next
  assume a: "strncasecmp_eq (n @ [58, 32] @ r) (h @ [58, 32]) (length h + 2)"
  let ?A = "map tolower n @ 58 # 32 # map tolower r"
  have sm: "map tolower (n @ [58, 32] @ r) = ?A" "map tolower (h @ [58, 32]) = map tolower h @ [58, 32]"
    by (simp_all add: tolower_def)
  have "take (length h + 2) ?A = map tolower (take (length h + 2) (h @ [58, 32]))"
    using a sm(1) unfolding strncasecmp_eq_def by (metis take_map)
  also have "\<dots> = map tolower h @ [58, 32]" using sm(2) by simp
  finally have "?A = map tolower h @ 58 # 32 # drop (length h + 2) ?A"
    by (metis append_Cons append_Nil append_assoc append_take_drop_id)
  then have "takeWhile (\<lambda>c. c \<noteq> 58) ?A = takeWhile (\<lambda>c. c \<noteq> 58) (map tolower h @ 58 # 32 # drop (length h + 2) ?A)"
    by (rule arg_cong)
  moreover have "takeWhile (\<lambda>c. c \<noteq> 58) (map tolower m @ 58 # x) = map tolower m" if "\<forall>c\<in>set m. c \<noteq> 58" for m x
    using that tolower_colon by (subst takeWhile_append2) auto
  ultimately show "same_name n h" using assms by simp
qed

lemma line_split:
  assumes "hdr_ok (n, v)"
  shows "dropWhile (\<lambda>c. c \<noteq> 10) (header_line (n, v) @ rest) = 10 # rest"
    "takeWhile (\<lambda>c. c \<noteq> 13 \<and> c \<noteq> 10) (v @ [13, 10]) = v"
proof -
  have "\<forall>c\<in>set (n @ [58, 32] @ v @ [13]). c \<noteq> 10" using assms by (auto simp: hdr_ok_def)
  then have "dropWhile (\<lambda>c. c \<noteq> 10) ((n @ [58, 32] @ v @ [13]) @ 10 # rest) = 10 # rest"
    by (subst dropWhile_append2) auto
  then show "dropWhile (\<lambda>c. c \<noteq> 10) (header_line (n, v) @ rest) = 10 # rest"
    by (simp add: header_line_def CRLF_def)
  show "takeWhile (\<lambda>c. c \<noteq> 13 \<and> c \<noteq> 10) (v @ [13, 10]) = v"
    using assms by (subst takeWhile_append2) (auto simp: hdr_ok_def)
qed

lemma length_in_concat: "x \<in> set xs \<Longrightarrow> length (f x) \<le> length (concat (map f xs))"
  by (induction xs) auto

lemma header_loop_find:
  assumes "\<forall>nv\<in>set hs. hdr_ok nv" "\<forall>c\<in>set name. c \<noteq> 58" "length name < 62"
    "unat remain = length (concat (map header_line hs))"
  shows "header_loop (concat (map header_line hs)) remain (name @ [58, 32]) =
    (case find (\<lambda>nv. same_name (fst nv) name) hs of None \<Rightarrow> NotFound | Some nv \<Rightarrow> Found (snd nv))"
  using assms
proof (induction hs arbitrary: remain)
  case Nil
  then have "remain = 0" by (simp add: unat_eq_zero)
  then show ?case by (subst header_loop.simps) simp
next
  case (Cons nv hs)
  obtain n v where nv: "nv = (n, v)" by force
  have ok: "hdr_ok (n, v)" "\<forall>c\<in>set n. c \<noteq> 58" using Cons.prems(1) nv by (auto simp: hdr_ok_def)
  let ?h = "name @ [58, 32]" and ?rest = "concat (map header_line hs)"
  let ?line = "header_line (n, v)"
  have b: "concat (map header_line (nv # hs)) = ?line @ ?rest" by (simp add: nv)
  have ul: "unat (of_nat (length ?h) :: u64) = length ?h" using Cons.prems(3) by (intro unat_of_nat_u64) simp
  have hl: "length ?h = length name + 2" by simp
  have len: "length ?line + length ?rest = unat remain" using Cons.prems(4) b by simp
  have uln: "unat (of_nat (length ?line) :: u64) = length ?line"
    using len unat_u64_lt[of remain] by (intro unat_of_nat_u64) linarith
  have line: "length ?line = length n + length v + 4" by (simp add: header_line_def CRLF_def)
  have nl: "dropWhile (\<lambda>c. c \<noteq> 10) (?line @ ?rest) = 10 # ?rest" by (rule line_split(1)[OF ok(1)])
  have ll: "(if 10 # ?rest = [] then x else of_nat (length (?line @ ?rest) - length (10 # ?rest) + 1)) =
      (of_nat (length ?line) :: u64)" for x using line by simp
  have m: "strncasecmp_eq (?line @ ?rest) ?h (length ?h) \<longleftrightarrow> same_name n name"
    using name_match[OF ok(2) Cons.prems(2), of "v @ CRLF @ ?rest"] by (simp add: header_line_def)
  show ?case
  proof (cases "remain \<le> of_nat (length ?h)")
    case True
    then have r: "unat remain \<le> length ?h" using ul by (simp add: word_le_nat_alt del: length_append of_nat_add)
    have "length (fst x) \<noteq> length name" if "x \<in> set (nv # hs)" for x
    proof -
      have "length (header_line x) \<le> unat remain"
        using length_in_concat[OF that, of header_line] Cons.prems(4) by simp
      moreover have "length (header_line x) = length (fst x) + length (snd x) + 4"
        by (simp add: header_line_def CRLF_def)
      ultimately show ?thesis using r by simp
    qed
    then have "\<forall>x\<in>set (nv # hs). \<not> same_name (fst x) name" by (metis length_map)
    then have "find (\<lambda>nv. same_name (fst nv) name) (nv # hs) = None" unfolding find_None_iff by blast
    then show ?thesis using True by (subst header_loop.simps) simp
  next
    case False
    show ?thesis
    proof (cases "same_name n name")
      case True
      have ln: "length n = length name" using True by (rule map_eq_imp_length_eq)
      have gt: "(of_nat (length ?h) :: u64) < of_nat (length ?line)"
        using ul uln line ln hl by (simp only: word_less_nat_alt)
      have lim: "unat (of_nat (length ?line) - of_nat (length ?h) :: u64) = length v + 2"
        using unat_sub[OF less_imp_le[OF gt]] ul uln line ln by simp
      have v: "drop (length ?h) (?line @ ?rest) = v @ [13, 10] @ ?rest"
        using ln by (simp add: header_line_def CRLF_def)
      have "take (length v + 2) (v @ [13, 10] @ ?rest) = v @ [13, 10]" by simp
      then have val: "takeWhile (\<lambda>c. c \<noteq> 13 \<and> c \<noteq> 10) (take (length v + 2) (v @ [13, 10] @ ?rest)) = v"
        using line_split(2)[OF ok(1)] by simp
      have "header_loop (?line @ ?rest) remain ?h = Found v"
        unfolding header_loop.simps[of "?line @ ?rest"] nl Let_def ll if_not_P[OF False] v lim val
        using m True gt by (simp del: length_append of_nat_add) simp
      then show ?thesis using True b nv by simp
    next
      case n: False
      have "of_nat (length ?line) \<le> remain" using len uln by (simp add: word_le_nat_alt)
      then have "unat (remain - of_nat (length ?line)) = length ?rest" using uln len by (simp add: unat_sub)
      then have IH: "header_loop ?rest (remain - of_nat (length ?line)) ?h =
        (case find (\<lambda>nv. same_name (fst nv) name) hs of None \<Rightarrow> NotFound | Some nv \<Rightarrow> Found (snd nv))"
        using Cons.prems by (intro Cons.IH) auto
      have "header_loop (?line @ ?rest) remain ?h = header_loop ?rest (remain - of_nat (length ?line)) ?h"
        unfolding header_loop.simps[of "?line @ ?rest"] nl Let_def ll if_not_P[OF False]
        using m n by (simp del: length_append of_nat_add)
      then show ?thesis using n b nv IH by simp
    qed
  qed
qed

text \<open>
  \<^verbatim>\<open>HttpGetHeader\<close> returns the value of the first header line of that name, compared without
  regard to case, and nothing when there is none; it never reads past the response.
\<close>

theorem HttpGetHeader_finds:
  assumes hs: "\<forall>nv\<in>set hs. hdr_ok nv" and name: "\<forall>c\<in>set name. c \<noteq> 58" "length name < 62"
    and status: "10 \<notin> set status"
    and len: "length (status @ 10 # concat (map header_line hs)) < 18446744073709551616"
  shows "HttpGetHeader (status @ 10 # concat (map header_line hs))
      (of_nat (length (status @ 10 # concat (map header_line hs)))) name =
    (case find (\<lambda>nv. same_name (fst nv) name) hs of None \<Rightarrow> NotFound | Some nv \<Rightarrow> Found (snd nv))"
proof -
  let ?b = "concat (map header_line hs)"
  have d: "dropWhile (\<lambda>c. c \<noteq> 10) (status @ 10 # ?b) = 10 # ?b"
    using status by (subst dropWhile_append2) auto
  have "(of_nat (length (status @ 10 # ?b)) :: u64) - of_nat (length (status @ 10 # ?b) - length (10 # ?b) + 1) = of_nat (length ?b)"
    by simp
  moreover have "unat (of_nat (length ?b) :: u64) = length ?b" using len by (intro unat_of_nat_u64) simp
  ultimately show ?thesis using header_loop_find[OF hs name, of "of_nat (length ?b)"] d
    by (simp add: HttpGetHeader_def Let_def)
qed

theorem HttpGetHeader_finds_witness:
  "HttpGetHeader ([72, 13] @ 10 # concat (map header_line [([65], [49]), ([66], [50])])) 15 [98] = Found [50]"
  using HttpGetHeader_finds[of "[([65], [49]), ([66], [50])]" "[98]" "[72, 13]"]
  by (simp add: hdr_ok_def tolower_def header_line_def CRLF_def)

end
