(* ===== verification/Msglist.thy ===== *)
theory Msglist
  imports Prelude
begin

text \<open>
  The list of recent messages, \<^verbatim>\<open>MessageList\<close> of \<^verbatim>\<open>src/msglist.cpp\<close>.

  A message carries the address the allocator gave it, since \<^verbatim>\<open>m_lastmsg\<close> is a pointer into the
  list.  \<open>now\<close> is the global clock.  Memory is assumed to suffice, and the length variant of
  \<^verbatim>\<open>AddMessage\<close>, which formats with \<^verbatim>\<open>vsnprintf\<close> and calls the other one, is left out.
\<close>

record message =
  msg_addr :: nat
  msg_timestamp :: int
  msg_severity :: int
  msg_text :: bytes

record msglist =
  m_firstmsg :: "message list"
  m_lastmsg :: "nat option"
  m_count :: int

definition ml_new :: msglist where
  "ml_new = \<lparr>m_firstmsg = [], m_lastmsg = None, m_count = 0\<rparr>"

text \<open>\<^verbatim>\<open>GetBrief\<close>: \<open>first\<close> starts to follow once five messages have been counted.\<close>

fun brief_loop :: "message list \<Rightarrow> nat \<Rightarrow> message list \<Rightarrow> message list" where
  "brief_loop [] cnt first = first"
| "brief_loop (p # ps) cnt first = brief_loop ps (cnt + 1) (if cnt + 1 > 5 then tl first else first)"

definition GetBrief :: "msglist \<Rightarrow> message list" where
  "GetBrief ml = brief_loop (m_firstmsg ml) 0 (m_firstmsg ml)"

definition msg_at :: "msglist \<Rightarrow> nat \<Rightarrow> message option" where
  "msg_at ml a = find (\<lambda>m. msg_addr m = a) (m_firstmsg ml)"

definition msg_upd :: "nat \<Rightarrow> (message \<Rightarrow> message) \<Rightarrow> message list \<Rightarrow> message list" where
  "msg_upd a f ms = map (\<lambda>m. if msg_addr m = a then f m else m) ms"

text \<open>A new message is linked in after the one \<^verbatim>\<open>m_lastmsg\<close> points to.\<close>

fun insert_after :: "nat \<Rightarrow> message \<Rightarrow> message list \<Rightarrow> message list" where
  "insert_after a m [] = []"
| "insert_after a m (x # xs) = (if msg_addr x = a then x # m # xs else x # insert_after a m xs)"

definition AddMessage :: "int \<Rightarrow> nat \<Rightarrow> int \<Rightarrow> bytes \<Rightarrow> msglist \<Rightarrow> msglist" where
  "AddMessage now a sev message ml =
     (case m_lastmsg ml of
        Some l \<Rightarrow>
          (case msg_at ml l of
             Some lm \<Rightarrow>
               (if msg_text lm = message then
                  ml\<lparr>m_firstmsg := msg_upd l (\<lambda>m. m\<lparr>msg_timestamp := now,
                       msg_severity := (if 0 < sev \<and> sev < msg_severity m then sev else msg_severity m)\<rparr>) (m_firstmsg ml)\<rparr>
                else
                  (let ml = (if m_count ml > 99 then ml\<lparr>m_firstmsg := tl (m_firstmsg ml), m_count := m_count ml - 1\<rparr> else ml);
                       msg = \<lparr>msg_addr = a, msg_timestamp = now, msg_severity = sev, msg_text = message\<rparr>
                   in ml\<lparr>m_firstmsg := insert_after l msg (m_firstmsg ml), m_lastmsg := Some a, m_count := m_count ml + 1\<rparr>))
           | None \<Rightarrow> ml)
      | None \<Rightarrow>
          (let ml = (if m_count ml > 99 then ml\<lparr>m_firstmsg := tl (m_firstmsg ml), m_count := m_count ml - 1\<rparr> else ml);
               msg = \<lparr>msg_addr = a, msg_timestamp = now, msg_severity = sev, msg_text = message\<rparr>
           in ml\<lparr>m_firstmsg := [msg], m_lastmsg := Some a, m_count := m_count ml + 1\<rparr>))"

definition ml_end :: "msglist \<Rightarrow> msglist" where
  "ml_end ml = (if m_firstmsg ml = [] then ml\<lparr>m_lastmsg := None, m_count := 0\<rparr> else ml)"

fun expire_loop :: "int \<Rightarrow> int \<Rightarrow> message list \<Rightarrow> int \<Rightarrow> message list \<times> int" where
  "expire_loop now hours [] cnt = ([], cnt)"
| "expire_loop now hours (p # ps) cnt =
     (if msg_timestamp p + hours * 3600 < now then expire_loop now hours ps (cnt - 1) else (p # ps, cnt))"

definition Expire :: "int \<Rightarrow> int \<Rightarrow> msglist \<Rightarrow> msglist" where
  "Expire now cfg_msg_expiration ml =
     (if cfg_msg_expiration = 0 then ml
      else let (ms, c) = expire_loop now cfg_msg_expiration (m_firstmsg ml) (m_count ml)
      in ml_end (ml\<lparr>m_firstmsg := ms, m_count := c\<rparr>))"

fun clear_loop :: "nat option \<Rightarrow> message list \<Rightarrow> int \<Rightarrow> message list \<times> int" where
  "clear_loop upto_msg [] cnt = ([], cnt)"
| "clear_loop upto_msg (p # ps) cnt =
     (if upto_msg = Some (msg_addr p) then (ps, cnt - 1) else clear_loop upto_msg ps (cnt - 1))"

definition ml_Clear :: "nat option \<Rightarrow> msglist \<Rightarrow> msglist" where
  "ml_Clear upto_msg ml =
     (let (ms, c) = clear_loop upto_msg (m_firstmsg ml) (m_count ml) in ml_end (ml\<lparr>m_firstmsg := ms, m_count := c\<rparr>))"

section \<open>Invariant\<close>

definition ml_inv :: "nat \<Rightarrow> msglist \<Rightarrow> bool" where
  "ml_inv a ml \<longleftrightarrow> distinct (map msg_addr (m_firstmsg ml)) \<and> (\<forall>m\<in>set (m_firstmsg ml). msg_addr m < a) \<and>
     m_count ml = int (length (m_firstmsg ml)) \<and> length (m_firstmsg ml) \<le> 100 \<and>
     m_lastmsg ml = (if m_firstmsg ml = [] then None else Some (msg_addr (last (m_firstmsg ml))))"

lemma insert_after_last:
  "xs \<noteq> [] \<Longrightarrow> distinct (map msg_addr xs) \<Longrightarrow> insert_after (msg_addr (last xs)) m xs = xs @ [m]"
  by (induction xs) (auto simp: notin_image_iff)

lemma brief_loop_eq: "brief_loop ps cnt first = drop (length ps + cnt - 5 - (cnt - 5)) first"
proof (induction ps cnt first rule: brief_loop.induct)
  case (2 p ps cnt first)
  then show ?case by (cases "cnt + 1 > 5") (auto simp: drop_Suc tl_drop[symmetric] Suc_diff_le)
qed simp

lemma expire_loop_eq:
  "expire_loop now h ms c =
    (let ms' = dropWhile (\<lambda>m. msg_timestamp m + h * 3600 < now) ms in (ms', c - int (length ms - length ms')))"
proof (induction ms arbitrary: c)
  case (Cons m ms)
  have "length (dropWhile (\<lambda>m. msg_timestamp m + h * 3600 < now) ms) \<le> length ms" by (rule length_dropWhile_le)
  then show ?case using Cons by (simp add: Let_def of_nat_diff)
qed simp

lemma suffix_inv:
  assumes "ml_inv a ml" "m_firstmsg ml = xs @ ys"
  shows "ml_inv a (ml_end (ml\<lparr>m_firstmsg := ys, m_count := m_count ml - int (length xs)\<rparr>))"
  using assms by (auto simp: ml_inv_def ml_end_def)

lemma last_at:
  assumes "ml_inv a ml" "m_firstmsg ml = xs @ [l]"
  shows "m_lastmsg ml = Some (msg_addr l)" "msg_at ml (msg_addr l) = Some l"
    "msg_upd (msg_addr l) f (m_firstmsg ml) = xs @ [f l]"
proof -
  have x: "\<forall>x\<in>set xs. msg_addr x \<noteq> msg_addr l" using assms by (auto simp: ml_inv_def notin_image_iff)
  show "m_lastmsg ml = Some (msg_addr l)" using assms by (simp add: ml_inv_def)
  have "find (\<lambda>m. msg_addr m = msg_addr l) xs = None" using x by (auto simp: find_None_iff)
  then show "msg_at ml (msg_addr l) = Some l" by (simp add: msg_at_def assms(2) find_append)
  show "msg_upd (msg_addr l) f (m_firstmsg ml) = xs @ [f l]"
    using x by (simp add: msg_upd_def assms(2) map_idI)
qed

text \<open>
  The message list keeps its invariant (the counter is the length, at most 100 messages, the
  last pointer is right) and its contents: a message equal to the last one only updates it, another
  one is appended after dropping the oldest when 100 are there, \<^verbatim>\<open>Expire\<close> drops the leading expired
  ones, and \<^verbatim>\<open>GetBrief\<close> delivers the last five.
\<close>

theorem message_list_correct:
  assumes inv: "ml_inv a ml"
  shows "ml_inv (a + 1) (AddMessage now a sev t ml) \<and>
    map msg_text (m_firstmsg (AddMessage now a sev t ml)) =
      (let ts = map msg_text (m_firstmsg ml)
       in if ts \<noteq> [] \<and> last ts = t then ts else (if length ts = 100 then tl ts else ts) @ [t]) \<and>
    ml_inv a (Expire now h ml) \<and>
    m_firstmsg (Expire now h ml) =
      (if h = 0 then m_firstmsg ml else dropWhile (\<lambda>m. msg_timestamp m + h * 3600 < now) (m_firstmsg ml)) \<and>
    GetBrief ml = drop (length (m_firstmsg ml) - 5) (m_firstmsg ml)"
proof -
  let ?ms = "m_firstmsg ml" and ?A = "AddMessage now a sev t ml"
  have lt: "\<forall>m\<in>set ?ms. msg_addr m < a" and c: "m_count ml = int (length ?ms)" "length ?ms \<le> 100"
    and d: "distinct (map msg_addr ?ms)" using inv by (auto simp: ml_inv_def)
  let ?m = "\<lparr>msg_addr = a, msg_timestamp = now, msg_severity = sev, msg_text = t\<rparr>"
  have add: "ml_inv (a + 1) ?A \<and> map msg_text (m_firstmsg ?A) =
      (let ts = map msg_text ?ms in if ts \<noteq> [] \<and> last ts = t then ts else (if length ts = 100 then tl ts else ts) @ [t])"
  proof (cases ?ms rule: rev_cases)
    case Nil
    then have "?A = ml\<lparr>m_firstmsg := [?m], m_lastmsg := Some a, m_count := 1\<rparr>"
      using inv by (simp add: AddMessage_def ml_inv_def)
    then show ?thesis using Nil by (simp add: ml_inv_def)
  next
    case (snoc xs l)
    note l = last_at[OF inv snoc]
    show ?thesis
    proof (cases "msg_text l = t")
      case True
      let ?f = "\<lambda>m. m\<lparr>msg_timestamp := now, msg_severity := (if 0 < sev \<and> sev < msg_severity m then sev else msg_severity m)\<rparr>"
      have "?A = ml\<lparr>m_firstmsg := xs @ [?f l]\<rparr>" using l True by (simp add: AddMessage_def)
      then show ?thesis using inv snoc True by (auto simp: ml_inv_def)
    next
      case False
      let ?ys = "if length ?ms = 100 then tl ?ms else ?ms"
      have ne: "?ys \<noteq> []" "last ?ys = l" and dy: "distinct (map msg_addr ?ys)"
        using snoc d by (cases xs; simp)+
      have "?A = ml\<lparr>m_firstmsg := insert_after (msg_addr l) ?m ?ys, m_lastmsg := Some a, m_count := int (length ?ys) + 1\<rparr>"
        using l False c snoc by (auto simp: AddMessage_def Let_def)
      also have "insert_after (msg_addr l) ?m ?ys = ?ys @ [?m]"
        using insert_after_last[OF ne(1) dy, of ?m] ne(2) by simp
      finally have A: "?A = ml\<lparr>m_firstmsg := ?ys @ [?m], m_lastmsg := Some a, m_count := int (length ?ys) + 1\<rparr>" .
      have "set ?ys \<subseteq> set ?ms" by (cases ?ms) auto
      then have "\<forall>m\<in>set ?ys. msg_addr m < a" using lt by blast
      then have "ml_inv (a + 1) ?A" unfolding A ml_inv_def using dy c
        by (auto simp: notin_image_iff intro: less_SucI)
      then show ?thesis using False snoc unfolding A by (auto simp: Let_def map_tl)
    qed
  qed
  let ?ex = "dropWhile (\<lambda>m. msg_timestamp m + h * 3600 < now) ?ms"
  obtain pre where pre: "?ms = pre @ ?ex" by (metis takeWhile_dropWhile_id)
  have "Expire now h ml = (if h = 0 then ml else ml_end (ml\<lparr>m_firstmsg := ?ex, m_count := m_count ml - int (length pre)\<rparr>))"
    using arg_cong[OF pre, of length] by (simp add: Expire_def expire_loop_eq Let_def)
  then have "ml_inv a (Expire now h ml)" "m_firstmsg (Expire now h ml) = (if h = 0 then ?ms else ?ex)"
    using suffix_inv[OF inv pre] inv by (auto simp: ml_end_def)
  then show ?thesis using add by (simp add: GetBrief_def brief_loop_eq)
qed

theorem message_list_correct_witness:
  "map msg_text (m_firstmsg (AddMessage 7 1 2 [66] (AddMessage 5 0 2 [65] ml_new))) = [[65], [66]]"
proof -
  have "ml_inv 0 ml_new" by (simp add: ml_inv_def ml_new_def)
  from message_list_correct[OF this, of 5 2 "[65]" 0]
  have a: "ml_inv 1 (AddMessage 5 0 2 [65] ml_new)" "map msg_text (m_firstmsg (AddMessage 5 0 2 [65] ml_new)) = [[65]]"
    by (simp_all add: ml_new_def)
  from message_list_correct[OF a(1), of 7 2 "[66]" 0] show ?thesis using a(2) by simp
qed

end
