(* ===== verification/Util.thy ===== *)
theory Util
  imports Prelude
begin

text \<open>
  \<^verbatim>\<open>src/util.cpp\<close>: random bits, private addresses, hexadecimal text.  What reads the clock or formats a date
  is not modelled.
\<close>

section \<open>Random bits\<close>

text \<open>The static variables of \<^verbatim>\<open>RandBits\<close>; \<^verbatim>\<open>unsigned long\<close> has 64 bits.\<close>

record randstate =
  rb_remain :: int
  rb_maxbits :: nat
  rb_bits :: u64

definition rand_start :: randstate where
  "rand_start = \<lparr>rb_remain = 0, rb_maxbits = 8, rb_bits = 0\<rparr>"

function grow_maxbits :: "u64 \<Rightarrow> nat \<Rightarrow> nat" where
  "grow_maxbits tmpbits maxbits =
     (if tmpbits = 0 then maxbits else grow_maxbits (drop_bit 1 tmpbits) (maxbits + 1))"
  by pat_completeness auto
termination
proof (relation "measure (\<lambda>(t, m). unat t)", simp)
  fix t :: u64 assume "t \<noteq> 0"
  then have "0 < unat t" by (simp add: unat_gt_0)
  then show "((drop_bit 1 t, m + 1), t, m) \<in> measure (\<lambda>(t, m). unat t)" for m
    by (simp add: drop_bit_eq_div unat_div_distrib)
qed

declare grow_maxbits.simps [simp del]

text \<open>\<open>r\<close> is the value of \<^verbatim>\<open>random()\<close> should it be called; the second result says whether it was.\<close>

definition RandBits :: "u64 \<Rightarrow> nat \<Rightarrow> randstate \<Rightarrow> u64 \<times> randstate" where
  "RandBits r nbits s =
     (let s = (if rb_remain s < int nbits then
                 (let mb = (if r AND NOT (push_bit (rb_maxbits s) 1 - 1) \<noteq> 0
                            then grow_maxbits (drop_bit (rb_maxbits s) r) (rb_maxbits s) else rb_maxbits s)
                  in \<lparr>rb_remain = int mb, rb_maxbits = mb, rb_bits = r\<rparr>)
               else s)
      in (rb_bits s AND (push_bit nbits 1 - 1),
          s\<lparr>rb_bits := drop_bit nbits (rb_bits s), rb_remain := rb_remain s - int nbits\<rparr>))"

section \<open>Private addresses\<close>

text \<open>\<^verbatim>\<open>htonl\<close> on a little endian machine.\<close>

definition htonl :: "u32 \<Rightarrow> u32" where
  "htonl x = push_bit 24 (x AND 0xFF) OR push_bit 8 (x AND 0xFF00) OR (drop_bit 8 x AND 0xFF00) OR (drop_bit 24 x AND 0xFF)"

definition IsPrivateAddress :: "u32 \<Rightarrow> bool" where
  "IsPrivateAddress addr \<longleftrightarrow>
     addr AND htonl 0xff000000 = htonl 0x0a000000 \<or> addr AND htonl 0xfff00000 = htonl 0xac100000 \<or>
     addr AND htonl 0xffff0000 = htonl 0xc0a80000 \<or> addr AND htonl 0xff000000 = htonl 0x7f000000"

section \<open>Hexadecimal text\<close>

definition hexdigit :: bytes where
  "hexdigit = [0x30, 0x31, 0x32, 0x33, 0x34, 0x35, 0x36, 0x37, 0x38, 0x39, 0x61, 0x62, 0x63, 0x64, 0x65, 0x66]"

definition strlen :: "bytes \<Rightarrow> nat" where
  "strlen s = length (takeWhile (\<lambda>c. c \<noteq> 0) s)"

text \<open>The text written to \<^verbatim>\<open>dstbuf\<close>, with its terminator.\<close>

definition hexencode :: "bytes \<Rightarrow> nat \<Rightarrow> bytes" where
  "hexencode data len =
     (let len = (if len = 0 then strlen data else len)
      in concat (map (\<lambda>c. [hexdigit ! unat (drop_bit 4 c), hexdigit ! unat (c AND 0x0f)]) (take len data)) @ [0])"

definition hexvalue :: "u8 \<Rightarrow> u8 option" where
  "hexvalue c =
     (if 0x30 \<le> c \<and> c \<le> 0x39 then Some (c - 0x30) else if 0x61 \<le> c \<and> c \<le> 0x66 then Some (c - 0x61 + 10) else None)"

text \<open>Two characters give a byte; the second one is read even if it lies behind the end.\<close>

fun hexdecode_loop :: "bytes \<Rightarrow> nat \<Rightarrow> bytes" where
  "hexdecode_loop data n =
     (if n = 0 then []
      else ((case hexvalue (data ! 0) of Some v \<Rightarrow> push_bit 4 v | None \<Rightarrow> 0) OR
            (case hexvalue (data ! 1) of Some v \<Rightarrow> v | None \<Rightarrow> 0)) # hexdecode_loop (drop 2 data) (n - 2))"

declare hexdecode_loop.simps [simp del]

definition hexdecode :: "bytes \<Rightarrow> nat \<Rightarrow> bytes" where
  "hexdecode data len = hexdecode_loop data (if len = 0 then strlen data else len) @ [0]"

section \<open>Random bits come from a pool\<close>

text \<open>The bits that remain, in the order in which they are handed out.\<close>

definition pool :: "randstate \<Rightarrow> bool list" where
  "pool s = map (bit (rb_bits s)) [0..<nat (rb_remain s)]"

definition rand_ok :: "randstate \<Rightarrow> bool" where
  "rand_ok s \<longleftrightarrow> 0 \<le> rb_remain s \<and> rb_remain s \<le> int (rb_maxbits s) \<and> 8 \<le> rb_maxbits s \<and> rb_maxbits s \<le> 64"

lemma grow_maxbits_bound:
  "t \<noteq> 0 \<or> m \<le> 64 \<Longrightarrow> (\<forall>k. bit t k \<longrightarrow> k + m < 64) \<Longrightarrow> m \<le> grow_maxbits t m \<and> grow_maxbits t m \<le> 64 \<and>
     (\<forall>k. bit t k \<longrightarrow> k + m < grow_maxbits t m)"
proof (induction t m rule: grow_maxbits.induct)
  case (1 t m)
  show ?case
  proof (cases "t = 0")
    case False
    then obtain k0 where k0: "bit t k0" by (metis bit_eqI bit_0_eq bot_apply bot_bool_def)
    then have m: "m + 1 \<le> 64" using 1(3) by fastforce
    have "\<forall>k. bit (drop_bit 1 t) k \<longrightarrow> k + (m + 1) < 64" using 1(3) by (fastforce simp: bit_simps)
    then have IH: "m + 1 \<le> grow_maxbits (drop_bit 1 t) (m + 1)" "grow_maxbits (drop_bit 1 t) (m + 1) \<le> 64"
      "\<forall>k. bit (drop_bit 1 t) k \<longrightarrow> k + (m + 1) < grow_maxbits (drop_bit 1 t) (m + 1)"
      using 1(1)[OF False] m by blast+
    have "k + m < grow_maxbits (drop_bit 1 t) (m + 1)" if "bit t k" for k
    proof (cases k)
      case (Suc j)
      then show ?thesis using IH(3)[rule_format, of j] that by (simp add: bit_simps)
    qed (use IH(1) in simp)
    then show ?thesis using IH(1,2) False by (subst (1 2 3) grow_maxbits.simps) simp
  qed (use 1(2) in \<open>simp add: grow_maxbits.simps\<close>)
qed

text \<open>The number a list of bits stands for, the lowest first.\<close>

lemma horner_pool:
  assumes "n \<le> m"
  shows "(x :: u64) AND (push_bit n 1 - 1) = horner_sum of_bool 2 (take n (map (bit x) [0..<m]))"
proof -
  have "x AND (push_bit n 1 - 1) = take_bit n x" by (simp add: take_bit_eq_mask mask_eq_exp_minus_1 push_bit_eq_mult)
  also have "\<dots> = horner_sum of_bool 2 (map (bit x) [0..<n])" by (rule horner_sum_bit_eq_take_bit[symmetric])
  also have "map (bit x) [0..<n] = take n (map (bit x) [0..<m])" using assms by (simp add: take_map)
  finally show ?thesis .
qed

lemma zero_bits: "(x :: u64) = 0 \<longleftrightarrow> (\<forall>k. \<not> bit x k)"
proof
  assume "\<forall>k. \<not> bit x k"
  then show "x = 0" by (intro bit_word_eqI) simp
qed simp

lemma pool_fresh:
  fixes r :: u64
  assumes "8 \<le> mb" "mb \<le> 64"
  defines "mb' \<equiv> (if r AND NOT (push_bit mb 1 - 1) \<noteq> 0 then grow_maxbits (drop_bit mb r) mb else mb)"
  shows "mb \<le> mb' \<and> mb' \<le> 64 \<and> (\<forall>k. bit r k \<longrightarrow> k < mb')"
proof -
  have hi: "r AND NOT (push_bit mb 1 - 1) = 0 \<longleftrightarrow> drop_bit mb r = 0"
  proof -
    have "bit (r AND NOT (push_bit mb 1 - 1)) k \<longleftrightarrow> mb \<le> k \<and> bit r k" for k
    proof -
      have "push_bit mb 1 - 1 = (mask mb :: u64)" by (simp add: mask_eq_exp_minus_1 push_bit_eq_mult)
      then show ?thesis using bit_imp_le_length[of r k] by (auto simp: bit_simps)
    qed
    moreover have "(\<exists>k. bit (drop_bit mb r) k) \<longleftrightarrow> (\<exists>k\<ge>mb. bit r k)"
      by (simp add: bit_simps) (metis le_add1 le_add_diff_inverse)
    ultimately show ?thesis unfolding zero_bits by blast
  qed
  have d: "bit (drop_bit mb r) k \<longrightarrow> k + mb < 64" for k
    using bit_imp_le_length[of r "mb + k"] by (auto simp: bit_simps add.commute)
  show ?thesis
  proof (cases "drop_bit mb r = 0")
    case True
    have "k < mb" if "bit r k" for k
    proof (rule ccontr)
      assume "\<not> k < mb"
      then have "bit (drop_bit mb r) (k - mb)" using that by (simp add: bit_simps)
      then show False using True by simp
    qed
    then show ?thesis using True assms(2) hi by (auto simp: mb'_def)
  next
    case False
    from grow_maxbits_bound[of "drop_bit mb r" mb] False d have
      G: "mb \<le> grow_maxbits (drop_bit mb r) mb" "grow_maxbits (drop_bit mb r) mb \<le> 64"
        "\<forall>k. bit (drop_bit mb r) k \<longrightarrow> k + mb < grow_maxbits (drop_bit mb r) mb" by blast+
    have "k < grow_maxbits (drop_bit mb r) mb" if "bit r k" for k
    proof (cases "k < mb")
      case False
      then show ?thesis using G(3)[rule_format, of "k - mb"] that by (simp add: bit_simps)
    qed (use G(1) in simp)
    then show ?thesis using False hi G(1,2) by (simp add: mb'_def)
  qed
qed

text \<open>
  \<^verbatim>\<open>RandBits\<close> hands out the bits of the random numbers one after the other: the result is the number the
  next bits of the pool stand for, which leave it; only when too few are left the pool is replaced by
  the bits of a new random number.
\<close>

theorem rand_bits_pool:
  assumes "rand_ok s" and "n \<le> 8"
  shows "(let (v, s') = RandBits r n s; p = (if n \<le> length (pool s) then pool s else map (bit r) [0..<rb_maxbits s'])
    in rand_ok s' \<and> n \<le> length p \<and> v = horner_sum of_bool 2 (take n p) \<and> unat v < 2 ^ n \<and> pool s' = drop n p)"
proof -
  have step: "v = horner_sum of_bool 2 (take n (map (bit b) [0..<m])) \<and>
      unat (horner_sum of_bool 2 (take n (map (bit b) [0..<m])) :: u64) < 2 ^ n \<and>
      map (bit (drop_bit n b)) [0..<m - n] = drop n (map (bit b) [0..<m])"
    if "v = b AND (push_bit n 1 - 1)" "n \<le> m" for v b :: u64 and m
  proof -
    have "v = take_bit n b" using that(1) by (simp add: take_bit_eq_mask mask_eq_exp_minus_1 push_bit_eq_mult)
    then have "unat v < 2 ^ n" by (simp add: unsigned_take_bit_eq)
    moreover have "map (bit (drop_bit n b)) [0..<m - n] = drop n (map (bit b) [0..<m])"
      by (rule nth_equalityI) (simp_all add: bit_simps)
    moreover have "v = horner_sum of_bool 2 (take n (map (bit b) [0..<m]))" using that(1) horner_pool[OF that(2)] by simp
    ultimately show ?thesis by (metis (no_types))
  qed
  note S = assms(1)[unfolded rand_ok_def]
  have l: "length (pool s) = nat (rb_remain s)" by (simp add: pool_def)
  show ?thesis
  proof (cases "rb_remain s < int n")
    case False
    then have n: "n \<le> nat (rb_remain s)" by linarith
    then have "nat (rb_remain s - int n) = nat (rb_remain s) - n" by linarith
    then show ?thesis using False n l S step[OF refl n, of "rb_bits s"]
      by (simp add: RandBits_def Let_def rand_ok_def pool_def)
  next
    case True
    then have n: "\<not> n \<le> length (pool s)" using l S by linarith
    define mb' where "mb' = (if r AND NOT (push_bit (rb_maxbits s) 1 - 1) \<noteq> 0
        then grow_maxbits (drop_bit (rb_maxbits s) r) (rb_maxbits s) else rb_maxbits s)"
    have F: "rb_maxbits s \<le> mb'" "mb' \<le> 64" using pool_fresh[of "rb_maxbits s" r] S by (simp_all add: mb'_def)
    then have nm: "n \<le> mb'" using S assms(2) by linarith
    have R: "RandBits r n s = (r AND (push_bit n 1 - 1), \<lparr>rb_remain = int mb' - int n, rb_maxbits = mb', rb_bits = drop_bit n r\<rparr>)"
      using True by (simp add: RandBits_def Let_def mb'_def)
    have "nat (int mb' - int n) = mb' - n" by linarith
    then show ?thesis unfolding R using n nm F S step[OF refl nm, of r] by (simp add: rand_ok_def pool_def)
  qed
qed

theorem rand_bits_pool_witness:
  "(let s = snd (RandBits 0x2D5 1 rand_start) in fst (RandBits 0x2D5 3 s) = 2 \<and> rand_ok s)"
proof -
  have ok: "rand_ok rand_start" by (simp add: rand_ok_def rand_start_def)
  have "rand_ok (snd (RandBits 0x2D5 1 rand_start))"
    using rand_bits_pool[OF ok, of 1 "0x2D5"] by (simp add: Let_def case_prod_beta)
  moreover have "fst (RandBits 0x2D5 3 (snd (RandBits 0x2D5 1 rand_start))) = 2" by code_simp
  ultimately show ?thesis by (simp add: Let_def)
qed

section \<open>Private addresses\<close>

lemma unat_less256: "unat (a :: u8) < 256"
  using unsigned_less[of a] by simp

lemma bit_htonl: "bit (htonl x) k \<longleftrightarrow> k < 32 \<and> bit x (8 * (3 - k div 8) + k mod 8)"
proof (cases "k < 32")
  case True
  from less32[OF this] show ?thesis unfolding htonl_def
    by (elim insertE emptyE) (simp_all add: bit_simps bit_numeral_rec, simp_all add: numeral_eq_Suc)
qed (auto dest: bit_imp_le_length)

lemma htonl_and: "htonl x AND htonl y = htonl (x AND y)"
  by (rule bit_word_eqI) (simp add: bit_and_iff bit_htonl)

lemma htonl_inj: "htonl x = htonl y \<longleftrightarrow> x = y"
proof
  assume h: "htonl x = htonl y"
  show "x = y"
  proof (rule bit_word_eqI)
    fix k assume "k < LENGTH(32)"
    then have k: "k < 32" by simp
    let ?j = "8 * (3 - k div 8) + k mod 8"
    have "k div 8 \<le> 3" using k by simp
    then have j: "?j div 8 = 3 - k div 8" "?j mod 8 = k mod 8" "?j < 32" by simp_all
    then have "8 * (3 - ?j div 8) + ?j mod 8 = k" using \<open>k div 8 \<le> 3\<close> by simp
    then show "bit x k = bit y k" using arg_cong[where f = "\<lambda>z. bit z ?j", OF h] j(3) by (simp add: bit_htonl)
  qed
qed simp

text \<open>An address given in dotted form.\<close>

definition ip4 :: "u8 \<Rightarrow> u8 \<Rightarrow> u8 \<Rightarrow> u8 \<Rightarrow> u32" where
  "ip4 a b c d = of_nat (unat a * 16777216 + unat b * 65536 + unat c * 256 + unat d)"

lemma unat_ip4: "unat (ip4 a b c d) = unat a * 16777216 + unat b * 65536 + unat c * 256 + unat d"
proof -
  have "unat a < 256" "unat b < 256" "unat c < 256" "unat d < 256"
    using unat_less256[of a] unat_less256[of b] unat_less256[of c] unat_less256[of d] by simp_all
  then have "unat a * 16777216 + unat b * 65536 + unat c * 256 + unat d < 4294967296" by linarith
  then show ?thesis unfolding ip4_def unat_of_nat by simp
qed

text \<open>Comparing the bits under a network mask compares the quotients.\<close>

lemma masked_eq:
  fixes x m v :: u32
  assumes "m = NOT (mask n)" and "v AND m = v"
  shows "x AND m = v \<longleftrightarrow> unat x div 2 ^ n = unat v div 2 ^ n"
proof -
  have e: "x AND m = v AND m \<longleftrightarrow> drop_bit n x = drop_bit n v"
  proof
    assume h: "x AND m = v AND m"
    show "drop_bit n x = drop_bit n v"
    proof (rule bit_word_eqI)
      fix k assume "k < LENGTH(32)"
      have "bit (x AND m) (n + k) = bit (v AND m) (n + k)" by (simp add: h)
      then show "bit (drop_bit n x) k = bit (drop_bit n v) k"
        using bit_imp_le_length[of x "n + k"] bit_imp_le_length[of v "n + k"] by (auto simp: assms(1) bit_simps)
    qed
  next
    assume h: "drop_bit n x = drop_bit n v"
    show "x AND m = v AND m"
    proof (rule bit_word_eqI)
      fix k
      show "bit (x AND m) k = bit (v AND m) k"
      proof (cases "k < n")
        case False
        then show ?thesis using arg_cong[where f = "\<lambda>z. bit z (k - n)", OF h] by (simp add: assms(1) bit_simps)
      qed (simp add: assms(1) bit_simps)
    qed
  qed
  show ?thesis using e assms(2) by (metis drop_bit_eq_div unat_drop_bit_eq unsigned_word_eqI)
qed

lemma IsPrivateAddress_htonl:
  "IsPrivateAddress (htonl x) \<longleftrightarrow> unat x div 16777216 = 10 \<or> unat x div 1048576 = 2753 \<or> unat x div 65536 = 49320 \<or>
     unat x div 16777216 = 127"
proof -
  have e: "(0xff000000 :: u32) = NOT (mask 24)" "(0xfff00000 :: u32) = NOT (mask 20)" "(0xffff0000 :: u32) = NOT (mask 16)"
    by (simp_all add: mask_eq_exp_minus_1 not_eq_complement)
  have "(0x0a000000 :: u32) AND 0xff000000 = 0x0a000000" "(0xac100000 :: u32) AND 0xfff00000 = 0xac100000"
    "(0xc0a80000 :: u32) AND 0xffff0000 = 0xc0a80000" "(0x7f000000 :: u32) AND 0xff000000 = 0x7f000000" by simp_all
  note M = masked_eq[OF e(1) this(1)] masked_eq[OF e(2) this(2)] masked_eq[OF e(3) this(3)] masked_eq[OF e(1) this(4)]
  show ?thesis by (simp add: IsPrivateAddress_def htonl_and htonl_inj M)
qed

lemma private_blocks:
  "IsPrivateAddress (htonl (ip4 a b c d)) \<longleftrightarrow>
     a = 10 \<or> (a = 172 \<and> 16 \<le> b \<and> b < 32) \<or> (a = 192 \<and> b = 168) \<or> a = 127"
proof -
  have l: "unat a < 256" "unat b < 256" "unat c < 256" "unat d < 256"
    using unat_less256[of a] unat_less256[of b] unat_less256[of c] unat_less256[of d] by simp_all
  define b1 b0 where "b1 = unat b div 16" and "b0 = unat b mod 16"
  have b: "unat b = 16 * b1 + b0" "b0 < 16" "b1 < 16" using l(2) by (simp_all add: b1_def b0_def less_mult_imp_div_less)
  have "(unat a * 16777216 + r) div 16777216 = unat a" if "r < 16777216" for r using that by simp
  from this[of "unat b * 65536 + unat c * 256 + unat d"] l
  have q1: "(unat a * 16777216 + unat b * 65536 + unat c * 256 + unat d) div 16777216 = unat a"
    unfolding add.assoc by linarith
  have "((unat a * 16 + b1) * 1048576 + r) div 1048576 = unat a * 16 + b1" if "r < 1048576" for r using that by simp
  from this[of "b0 * 65536 + unat c * 256 + unat d"] l b
  have q2: "(unat a * 16777216 + unat b * 65536 + unat c * 256 + unat d) div 1048576 = unat a * 16 + b1"
    by (simp add: algebra_simps)
  have "((unat a * 256 + unat b) * 65536 + r) div 65536 = unat a * 256 + unat b" if "r < 65536" for r using that by simp
  from this[of "unat c * 256 + unat d"] l
  have q3: "(unat a * 16777216 + unat b * 65536 + unat c * 256 + unat d) div 65536 = unat a * 256 + unat b"
    by (simp add: algebra_simps)
  note q = q1 q2 q3
  have w: "a = 10 \<longleftrightarrow> unat a = 10" "a = 127 \<longleftrightarrow> unat a = 127" "a = 172 \<longleftrightarrow> unat a = 172" "a = 192 \<longleftrightarrow> unat a = 192"
    "b = 168 \<longleftrightarrow> unat b = 168" "16 \<le> b \<longleftrightarrow> 16 \<le> unat b" "b < 32 \<longleftrightarrow> unat b < 32"
    by (simp_all add: word_unat_eq_iff word_le_nat_alt word_less_nat_alt)
  show ?thesis unfolding IsPrivateAddress_htonl unat_ip4 w unfolding q
  proof -
    have "unat a * 16 + b1 = 2753 \<longleftrightarrow> unat a = 172 \<and> b1 = 1" using b by presburger
    moreover have "b1 = 1 \<longleftrightarrow> 16 \<le> unat b \<and> unat b < 32" using b by linarith
    moreover have "unat a * 256 + unat b = 49320 \<longleftrightarrow> unat a = 192 \<and> unat b = 168" using l(2) by presburger
    ultimately show "(unat a = 10 \<or> unat a * 16 + b1 = 2753 \<or> unat a * 256 + unat b = 49320 \<or> unat a = 127) =
        (unat a = 10 \<or> (unat a = 172 \<and> 16 \<le> unat b \<and> unat b < 32) \<or> (unat a = 192 \<and> unat b = 168) \<or> unat a = 127)"
      by blast
  qed
qed

section \<open>Hexadecimal text is read back\<close>

lemma hexvalue_digit:
  assumes "n < 16"
  shows "hexvalue (hexdigit ! n) = Some (of_nat n)"
proof -
  have "n \<in> {0,1,2,3,4,5,6,7,8,9,10,11,12,13,14,15}" using less16[OF assms] .
  then show ?thesis by (elim insertE emptyE) (simp_all add: hexdigit_def hexvalue_def)
qed

lemma hexdecode_loop_bytes:
  "hexdecode_loop (concat (map (\<lambda>c. [hexdigit ! unat (drop_bit 4 c), hexdigit ! unat (c AND 0x0f)]) cs) @ r) (2 * length cs) = cs"
proof (induction cs)
  case (Cons c cs)
  have h: "unat (drop_bit 4 c) < 16" using unat_less256[of c] by (simp add: unat_drop_bit_eq drop_bit_nat_def less_mult_imp_div_less)
  have "unat (c AND 0x0f) = unat c mod 16"
    using arg_cong[where f = unat, OF take_bit_eq_mask[of 4 c]] unat_mod[of c 16] by (simp add: mask_eq_exp_minus_1 take_bit_eq_mod)
  then have m: "unat (c AND 0x0f) < 16" by simp
  have "c AND 0x0f = take_bit 4 c" by (simp add: take_bit_eq_mask mask_eq_exp_minus_1)
  then have "push_bit 4 (drop_bit 4 c) OR (c AND 0x0f) = c"
    by (intro bit_word_eqI) (auto simp: bit_simps not_le)
  then show ?case using Cons h m by (simp add: hexdecode_loop.simps[of "_ # _"] hexvalue_digit)
qed (simp add: hexdecode_loop.simps)

text \<open>A byte string written by \<^verbatim>\<open>hexencode\<close> and read by \<^verbatim>\<open>hexdecode\<close> is the one that was written.\<close>

lemma hex_roundtrip:
  assumes "0 < n" and "n \<le> length d"
  shows "hexdecode (hexencode d n) (2 * n) = take n d @ [0]"
proof -
  have "length (take n d) = n" using assms by simp
  then show ?thesis using assms(1) hexdecode_loop_bytes[of "take n d" "[0]"] by (simp add: hexdecode_def hexencode_def Let_def)
qed

end
