(* ===== verification/Tracker.thy ===== *)
theory Tracker
  imports World Bencode Httpencode Util
begin

text \<open>
  One tracker, \<^verbatim>\<open>btTracker\<close> of \<^verbatim>\<open>src/tracker.cpp\<close>: the request it announces with, the exchange over a socket that
  does not block, the response, and the states it goes through.

  A method is a function of the number of the tracker and the world; \<^term>\<open>None\<close> is a run the language leaves undefined: a null
  \<^verbatim>\<open>m_spec\<close> is followed, a fixed buffer is overrun, or a response is read behind its end.  The operating system answers
  by \<open>e_net\<close> and the number \<open>w_tick\<close> of the call.  Strings are their bytes without the terminator.  \<^verbatim>\<open>shutdown\<close> is
  not modelled, nor is the lock \<^verbatim>\<open>BuildBaseRequest\<close> puts on the option for the public address.
\<close>

abbreviation tr :: "world \<Rightarrow> nat \<Rightarrow> bttracker" where
  "tr w k \<equiv> mt_obj (w_tracker w) k"

definition upd_t :: "nat \<Rightarrow> (bttracker \<Rightarrow> bttracker) \<Rightarrow> world \<Rightarrow> world" where
  "upd_t k f w = w\<lparr>w_tracker := (w_tracker w)\<lparr>mt_obj := (mt_obj (w_tracker w))(k := f (tr w k))\<rparr>\<rparr>"

text \<open>A call of the operating system.\<close>

definition ask :: "(netenv \<Rightarrow> nat \<Rightarrow> 'a) \<Rightarrow> env \<Rightarrow> world \<Rightarrow> 'a \<times> world" where
  "ask f e w = (f (e_net e) (w_tick w), w\<lparr>w_tick := w_tick w + 1\<rparr>)"

definition ascii :: "string \<Rightarrow> bytes" where
  "ascii s = map of_char s"

text \<open>The string a fixed array of characters holds.\<close>

definition cstr :: "bytes \<Rightarrow> bytes" where
  "cstr s = takeWhile (\<lambda>c. c \<noteq> 0) s"

section \<open>Names and addresses\<close>

definition IPsin :: "env \<Rightarrow> bytes \<Rightarrow> int \<Rightarrow> (u32 \<times> u16) option" where
  "IPsin e h p = map_option (\<lambda>a. (a, of_int p)) (n_inet_addr (e_net e) h)"

definition s2sin :: "env \<Rightarrow> bytes \<Rightarrow> int \<Rightarrow> (u32 \<times> u16) option" where
  "s2sin e h p =
     (case n_inet_addr (e_net e) h of
        Some a \<Rightarrow> Some (a, of_int p)
      | None \<Rightarrow> map_option (\<lambda>a. (a, of_int p)) (n_gethostbyname (e_net e) h))"

section \<open>Creation and reset\<close>

definition btTracker :: "env \<Rightarrow> bytes \<Rightarrow> bttracker \<Rightarrow> bttracker" where
  "btTracker e url junk =
     \<lparr>t_spec = Some \<lparr>sp_url = url, sp_host = [], sp_request = [], sp_port = 80\<rparr>, t_redirect = None, t_key = t_key junk,
      t_trackerid = [], t_status = DT_TRACKER_FREE, t_result = DT_NORMAL, t_f_started = False, t_f_completed = False,
      t_f_stop = False, t_f_restart = False, t_f_boguspeercnt = t_f_boguspeercnt junk, t_interval = 15,
      t_default_interval = 30 * 60, t_last_timestamp = 0, t_refuse_click = 0, t_ok_click = 0, t_peers_count = 0,
      t_seeds_count = 0, t_prevpeers = 0, t_report_time = 0, t_report_dl = 0, t_report_ul = 0, t_sock = INVALID_SOCKET,
      t_sk_in = [], t_sk_out = ([], []), t_request_buffer = MaxSize (e_buf_mem e) 2048 (BufIo (e_buf_mem e)),
      t_response_buffer = MaxSize (e_buf_mem e) (256 * 1024) (BufIo (e_buf_mem e))\<rparr>"

text \<open>\<^verbatim>\<open>Restart\<close> of a tracker, and \<^verbatim>\<open>Reset\<close>, which ends an exchange.\<close>

definition Restart :: "bttracker \<Rightarrow> bttracker" where
  "Restart t =
     (let t = t\<lparr>t_f_stop := False, t_f_restart := False\<rparr>
      in if t_status t = DT_TRACKER_FINISHED
         then t\<lparr>t_status := DT_TRACKER_FREE, t_f_started := False, t_interval := 15, t_result := DT_NORMAL\<rparr> else t)"

definition reset_status :: "bttracker \<Rightarrow> bttracker" where
  "reset_status t =
     (if t_f_stop t then
        (let t = t\<lparr>t_status := (if t_f_restart t \<and> t_f_started t then DT_TRACKER_FREE else DT_TRACKER_FINISHED)\<rparr>
         in if t_status t = DT_TRACKER_FINISHED
            then (let t = t\<lparr>t_f_started := False\<rparr> in if t_f_restart t then Restart t else t) else t)
      else t\<lparr>t_status := DT_TRACKER_FREE\<rparr>)"

definition Reset_t :: "int \<Rightarrow> int \<Rightarrow> bttracker \<Rightarrow> bttracker" where
  "Reset_t now new_interval t =
     (let t = t\<lparr>t_interval := (if new_interval \<noteq> 0 then new_interval else t_default_interval t), t_sock := INVALID_SOCKET,
               t_spec := (case t_redirect t of None \<Rightarrow> t_spec t | Some s \<Rightarrow> Some s), t_redirect := None,
               t_request_buffer := buf_Reset (t_request_buffer t), t_response_buffer := buf_Reset (t_response_buffer t),
               t_last_timestamp := min now (t_last_timestamp t)\<rparr>
      in reset_status t)"

definition Stop_t :: "int \<Rightarrow> bttracker \<Rightarrow> bttracker" where
  "Stop_t now t =
     (let t = Reset_t now 15 (t\<lparr>t_f_stop := False, t_f_restart := False\<rparr>);
          t = t\<lparr>t_f_stop := True\<rparr>;
          t = (if \<not> t_f_started t then t\<lparr>t_status := DT_TRACKER_FINISHED\<rparr> else t)
      in t\<lparr>t_result := DT_NORMAL\<rparr>)"

definition RestartTracker_t :: "int \<Rightarrow> bttracker \<Rightarrow> bttracker" where
  "RestartTracker_t now t =
     (let t = (Stop_t now t)\<lparr>t_f_restart := True\<rparr> in if t_status t = DT_TRACKER_FINISHED then Restart t else t)"

definition Update_t :: "bttracker \<Rightarrow> bttracker" where
  "Update_t t = t\<lparr>t_interval := 15\<rparr>"

definition ClearResult :: "bttracker \<Rightarrow> bttracker" where
  "ClearResult t = t\<lparr>t_result := DT_NORMAL\<rparr>"

definition IsQuitting_t :: "bttracker \<Rightarrow> bool" where
  "IsQuitting_t t \<longleftrightarrow> t_f_stop t \<and> t_status t \<noteq> DT_TRACKER_FINISHED"

definition GetSeedsCount_t :: "bool \<Rightarrow> bttracker \<Rightarrow> u32" where
  "GetSeedsCount_t full t = (if t_seeds_count t \<noteq> 0 then t_seeds_count t else if full then 1 else 0)"

definition GetPeersCount_t :: "bool \<Rightarrow> bttracker \<Rightarrow> u32" where
  "GetPeersCount_t full t =
     (if t_seeds_count t < t_peers_count t then t_peers_count t
      else GetSeedsCount_t full t + (if full then 0 else 1))"

section \<open>The request\<close>

definition GetInfoHash :: "world \<Rightarrow> bytes" where
  "GetInfoHash w = take 20 (drop 28 (c_shake_buffer (w_content w)))"

definition GetPeerId :: "world \<Rightarrow> bytes" where
  "GetPeerId w = take PEER_ID_LEN (drop 48 (c_shake_buffer (w_content w)))"

definition url20 :: "bytes \<Rightarrow> bytes" where
  "url20 bs = butlast (urlencode bs 20)"

definition public_ip :: "env \<Rightarrow> world \<Rightarrow> bytes" where
  "public_ip e w =
     (case cfg_public_ip (e_net e) of
        Some ip \<Rightarrow> ascii ''&ip='' @ ip
      | None \<Rightarrow>
          (if IsPrivateAddress (htonl (fst (w_self_sin w))) then []
           else ascii ''&ip='' @ n_inet_ntoa (e_net e) (fst (w_self_sin w))))"

definition base_request :: "env \<Rightarrow> bytes \<Rightarrow> bytes \<Rightarrow> world \<Rightarrow> bytes" where
  "base_request e path key w =
     ascii ''GET '' @ path @ [if 63 \<in> set path then 38 else 63] @ ascii ''info_hash='' @ url20 (GetInfoHash w) @
     ascii ''&peer_id='' @ url20 (GetPeerId w) @ ascii ''&key='' @ key @
     (if 0 < cfg_listen_port (e_net e) then ascii ''&port='' @ dec_nat (unat (cfg_listen_port (e_net e))) else []) @
     public_ip e w"

text \<open>
  The path is copied, the old text released, the new one built in a buffer of 256 bytes more than the path, and
  copied again; a failure of the last allocation leaves \<^verbatim>\<open>request\<close> dangling.
\<close>

definition BuildBaseRequest :: "env \<Rightarrow> nat \<Rightarrow> world \<Rightarrow> (int \<times> world) option" where
  "BuildBaseRequest e k w =
     (case t_spec (tr w k) of
        None \<Rightarrow> None
      | Some sp \<Rightarrow>
         (let (ok, w) = ask n_new e w
          in if \<not> ok then Some (-1, w)
             else
               (let txt = base_request e (sp_request sp) (t_key (tr w k)) w; (ok, w) = ask n_new e w
                in if length (sp_request sp) + 256 < length txt + 1 then None
                   else if \<not> ok then Some (-1, upd_t k (\<lambda>t. t\<lparr>t_spec := Some (sp\<lparr>sp_request := []\<rparr>)\<rparr>) w)
                   else Some (0, upd_t k (\<lambda>t. t\<lparr>t_spec := Some (sp\<lparr>sp_request := txt\<rparr>)\<rparr>) w))))"

definition key_chars :: bytes where
  "key_chars = ascii ''0123456789ABCDEFGHIJKLMNOPQRSTUVWXYZ''"

definition rand_bits :: "env \<Rightarrow> nat \<Rightarrow> nat \<Rightarrow> nat" where
  "rand_bits e nbits r = horner_sum of_bool 2 (map (e_bits e r) [0..<nbits])"

fun make_key :: "env \<Rightarrow> nat \<Rightarrow> nat \<Rightarrow> bytes" where
  "make_key e r 0 = []"
| "make_key e r (Suc j) = key_chars ! (rand_bits e 6 r mod 36) # make_key e (r + 1) j"

definition Initial_t :: "env \<Rightarrow> nat \<Rightarrow> world \<Rightarrow> (int \<times> world) option" where
  "Initial_t e k w =
     (case t_spec (tr w k) of
        None \<Rightarrow> None
      | Some sp \<Rightarrow>
         (case UrlSplit (sp_url sp) of
            Inl _ \<Rightarrow> Some (-1, w)
          | Inr (host, port, path) \<Rightarrow>
             (let key = make_key e (w_rnd w) 8;
                  w = (upd_t k (\<lambda>t. t\<lparr>t_spec := Some (sp\<lparr>sp_host := host, sp_port := port, sp_request := path\<rparr>), t_key := key\<rparr>) w)
                        \<lparr>w_rnd := w_rnd w + 8\<rparr>
              in case BuildBaseRequest e k w of None \<Rightarrow> None | Some (r, w) \<Rightarrow> Some (if r < 0 then -1 else 0, w))))"

text \<open>The event that is announced, \<^verbatim>\<open>TRACKER.GetTotalDL\<close>, and the text.\<close>

datatype event = Ev_none | Ev_started | Ev_stopped | Ev_completed

definition announce_event :: "bool \<Rightarrow> u64 \<Rightarrow> bttracker \<Rightarrow> event \<times> bttracker" where
  "announce_event full totaldl t =
     (if t_f_stop t then (Ev_stopped, t)
      else if \<not> t_f_started t then (Ev_started, if full then t\<lparr>t_f_completed := True\<rparr> else t)
      else if full \<and> \<not> t_f_completed t then (if 0 < totaldl then Ev_completed else Ev_none, t\<lparr>t_f_completed := True\<rparr>)
      else (Ev_none, t))"

definition event_text :: "event \<Rightarrow> bytes" where
  "event_text ev =
     (case ev of Ev_none \<Rightarrow> [] | Ev_started \<Rightarrow> ascii ''&event=started'' | Ev_stopped \<Rightarrow> ascii ''&event=stopped''
      | Ev_completed \<Rightarrow> ascii ''&event=completed'')"

definition GetTotalDL :: "world \<Rightarrow> u64 \<times> world" where
  "GetTotalDL w =
     (if IsFull_c w then
        (let n = r_count_bytes (w_self_dl w) in (n, w\<lparr>w_tracker := (w_tracker w)\<lparr>mt_totaldl := n\<rparr>\<rparr>))
      else (mt_totaldl (w_tracker w), w))"

definition GetTotalUL :: "world \<Rightarrow> u64" where
  "GetTotalUL w = r_count_bytes (w_self_ul w)"

definition request_text :: "env \<Rightarrow> tracker_spec \<Rightarrow> bytes \<Rightarrow> event \<Rightarrow> u64 \<Rightarrow> u64 \<Rightarrow> u64 \<Rightarrow> bytes" where
  "request_text e sp trackerid ev totalul totaldl leftbytes =
     sp_request sp @ ascii ''&uploaded='' @ dec_nat (unat totalul) @ ascii ''&downloaded='' @ dec_nat (unat totaldl) @
     ascii ''&left='' @ dec_nat (unat leftbytes) @ ascii ''&compact=1&numwant='' @ dec_int (sint (cfg_max_peers (e_net e))) @
     event_text ev @ (if trackerid \<noteq> [] then ascii ''&trackerid='' @ trackerid else []) @ ascii '' HTTP/1.0'' @ CRLF @
     (if IPsin e (sp_host sp) (int (sp_port sp)) = None then ascii ''Host: '' @ sp_host sp @ CRLF else []) @
     ascii ''User-Agent: '' @ cfg_user_agent (e_net e) @ CRLF @ CRLF"

text \<open>\<^verbatim>\<open>SendRequest\<close> writes the text to a buffer of 256 bytes more than the three strings of unknown length.\<close>

definition SendRequest_t :: "env \<Rightarrow> nat \<Rightarrow> world \<Rightarrow> (int \<times> world) option" where
  "SendRequest_t e k w =
     (case t_spec (tr w k) of
        None \<Rightarrow> None
      | Some sp \<Rightarrow>
         (let (ok, w) = ask n_new e w
          in if \<not> ok then Some (-1, w)
             else
               (let (ev, t) = announce_event (IsFull_c w) (r_count_bytes (w_self_dl w)) (tr w k); w = upd_t k (\<lambda>_. t) w;
                    (totaldl, w) = GetTotalDL w; totalul = GetTotalUL w;
                    txt = request_text e sp (t_trackerid t) ev totalul totaldl (c_left_bytes (w_content w))
                in if length (sp_request sp) + length (sp_host sp) + length (cfg_user_agent (e_net e)) + 256 < length txt + 1 then None
                   else
                     (let (r, out, b) = PutFlush (e_buf_mem e) (t_sk_out t) txt (t_request_buffer t);
                          w = upd_t k (\<lambda>t. t\<lparr>t_sk_out := out, t_request_buffer := b\<rparr>) w
                      in if r < 0
                         then Some (-1, if ev = Ev_completed then upd_t k (\<lambda>t. t\<lparr>t_f_completed := False\<rparr>) w else w)
                         else Some (0, upd_t k (\<lambda>t. t\<lparr>t_report_time := w_now w, t_report_dl := totaldl, t_report_ul := totalul\<rparr>) w)))))"

section \<open>Connecting\<close>

definition close_sock :: "nat \<Rightarrow> world \<Rightarrow> world" where
  "close_sock k w = upd_t k (\<lambda>t. t\<lparr>t_sock := INVALID_SOCKET\<rparr>) w"

definition open_sock :: "env \<Rightarrow> nat \<Rightarrow> world \<Rightarrow> int \<times> world" where
  "open_sock e k w =
     (let (script, w') = ask n_script e w; (sk, w') = ask n_socket e w'
      in (sk, upd_t k (\<lambda>t. t\<lparr>t_sock := sk, t_sk_in := fst script, t_sk_out := snd script\<rparr>) w'))"

definition Connect :: "env \<Rightarrow> nat \<Rightarrow> world \<Rightarrow> (int \<times> world) option" where
  "Connect e k w =
     (let w = upd_t k (\<lambda>t. t\<lparr>t_result := DT_NORMAL, t_last_timestamp := w_now w\<rparr>) w
      in case t_spec (tr w k) of
           None \<Rightarrow> None
         | Some sp \<Rightarrow>
            (if s2sin e (sp_host sp) (int (sp_port sp)) = None then Some (-1, w)
             else
               (let (sk, w) = open_sock e k w
                in if sk = INVALID_SOCKET then Some (-1, w)
                   else
                     (let (bound, w) = (if cfg_listen_ip (e_net e) \<noteq> 0 then ask n_bind e w else (True, w))
                      in if \<not> bound then Some (-1, w)
                         else
                           (let (ok, w) = ask n_nonblock e w
                            in if \<not> ok then Some (-1, close_sock k w)
                               else
                                 (let (r, w) = ask n_connect e w
                                  in if r = -1 then Some (-1, close_sock k w)
                                     else if r = -2 then Some (0, upd_t k (\<lambda>t. t\<lparr>t_status := DT_TRACKER_CONNECTING\<rparr>) w)
                                     else
                                       (case SendRequest_t e k w of
                                          None \<Rightarrow> None
                                        | Some (r, w) \<Rightarrow>
                                            Some (if r = 0 then (0, upd_t k (\<lambda>t. t\<lparr>t_status := DT_TRACKER_READY\<rparr>) w)
                                                  else (-1, close_sock k w)))))))))"

section \<open>The response\<close>

definition add_peer :: "env \<Rightarrow> u32 \<times> u16 \<Rightarrow> u32 \<times> world \<Rightarrow> u32 \<times> world" where
  "add_peer e a x =
     (let (cnt, w) = x
      in if IpEquiv a (w_self_sin w) then (cnt, w)
         else (let (ok, w) = ask n_new e w in (cnt + 1, w\<lparr>w_ipq := snd (ipl_Add ok (sin_bytes a) (w_ipq w))\<rparr>)))"

text \<open>The compact list: \<open>i\<close> entries of six bytes, read behind the length prefix.\<close>

fun compact_peers :: "env \<Rightarrow> nat \<Rightarrow> bytes \<Rightarrow> u32 \<times> world \<Rightarrow> (u32 \<times> world) option" where
  "compact_peers e 0 ps x = Some x"
| "compact_peers e (Suc i) ps x =
     (if length ps < 6 then None
      else compact_peers e i (drop 6 ps) (add_peer e (of_nat (be_nat (take 4 ps)), of_nat (be_nat (take 2 (drop 4 ps)))) x))"

definition prefix_value :: "bytes \<Rightarrow> u64" where
  "prefix_value ds = foldl (\<lambda>i c. i * 10 + (scast c - 48)) 0 ds"

text \<open>
  One dictionary of the other form.  \<^verbatim>\<open>i\<close> is the length of the last string found: without a peer id it is that of the address.
  The address is copied to an array of \<^verbatim>\<open>MAXHOSTNAMELEN\<close> bytes and terminated.
\<close>

abbreviation MAXHOSTNAMELEN :: nat where "MAXHOSTNAMELEN \<equiv> 64"

definition dict_peer :: "env \<Rightarrow> bytes \<Rightarrow> u32 \<times> world \<Rightarrow> (u32 \<times> world) option" where
  "dict_peer e d x =
     (let (r, ip) = decode_query_str d (ascii ''ip'')
      in if r = 0 \<or> MAXHOSTNAMELEN < length ip then Some x
         else if length ip = MAXHOSTNAMELEN then None
         else
           (let (r, port) = decode_query_int d (ascii ''port'')
            in if r = 0 then Some x
               else if fst (decode_query_str d (ascii ''peer id'')) = 0 \<and> length ip \<noteq> 20 then Some x
               else case IPsin e (cstr ip) port of None \<Rightarrow> Some x | Some a \<Rightarrow> Some (add_peer e a x)))"

function dict_peers :: "env \<Rightarrow> bytes \<Rightarrow> u32 \<times> world \<Rightarrow> (u32 \<times> world) option" where
  "dict_peers e buf x =
     (if buf = [] \<or> hd buf = c_e then Some x
      else
        (let pos = decode_dict buf None
         in if pos = 0 then Some x
            else case dict_peer e (take pos buf) x of None \<Rightarrow> None | Some x \<Rightarrow> dict_peers e (drop pos buf) x))"
  by pat_completeness auto
termination by (relation "measure (\<lambda>(_, buf, _). length buf)") auto

declare dict_peers.simps [simp del]

text \<open>What \<^verbatim>\<open>ParseResponse\<close> takes from the response before the list of peers.\<close>

definition parse_counts :: "bytes \<Rightarrow> bttracker \<Rightarrow> bttracker" where
  "parse_counts buf t =
     (let t = t\<lparr>t_peers_count := 0, t_seeds_count := 0\<rparr>;
          (r, tid) = decode_query_str buf (ascii ''tracker id'');
          t = (if r \<noteq> 0 then t\<lparr>t_trackerid := cstr (take PEER_ID_LEN tid)\<rparr> else t);
          (r, n) = decode_query_int buf (ascii ''interval'');
          t = (if r \<noteq> 0 then t\<lparr>t_interval := n, t_default_interval := n\<rparr> else t\<lparr>t_interval := t_default_interval t\<rparr>);
          (r, n) = decode_query_int buf (ascii ''complete'');
          t = (if r \<noteq> 0 then t\<lparr>t_seeds_count := of_int n\<rparr> else t);
          (r, n) = decode_query_int buf (ascii ''incomplete'')
      in t\<lparr>t_peers_count := t_seeds_count t + (if r \<noteq> 0 then of_int n else 0)\<rparr>)"

definition parse_peers :: "env \<Rightarrow> bytes \<Rightarrow> nat \<Rightarrow> world \<Rightarrow> (u32 \<times> world) option" where
  "parse_peers e buf pos w =
     (if buf ! pos \<noteq> c_l then
        (let ps = drop pos buf; ds = takeWhile (\<lambda>c. c \<noteq> c_colon) ps
         in if length ds = length ps then None
            else compact_peers e (unat (prefix_value ds) div 6) (drop (length ds + 1) ps) (0, w))
      else dict_peers e (drop (pos + 1) buf) (0, w))"

definition ParseResponse :: "env \<Rightarrow> bytes \<Rightarrow> nat \<Rightarrow> world \<Rightarrow> (dt_result \<times> world) option" where
  "ParseResponse e buf k w =
     (if fst (decode_query_str buf (ascii ''failure reason'')) \<noteq> 0 then Some (DT_FAILURE, w)
      else
        (let w = upd_t k (parse_counts buf) w; pos = fst (decode_query_pos buf (ascii ''peers''))
         in if pos = 0 \<or> length buf - pos < 4 then Some (DT_FAILURE, w)
            else case parse_peers e buf pos w of
                   None \<Rightarrow> None
                 | Some (cnt, w) \<Rightarrow>
                    Some (DT_SUCCESS, upd_t k (\<lambda>t. if t_peers_count t = 0 then t\<lparr>t_peers_count := cnt + 1, t_f_boguspeercnt := True\<rparr>
                                                     else t\<lparr>t_f_boguspeercnt := False\<rparr>) w)))"

text \<open>A redirection: the URL up to the part an announce adds.\<close>

definition cut_at :: "bytes \<Rightarrow> bytes \<Rightarrow> bytes option" where
  "cut_at s pat = map_option (\<lambda>rest. take (length s - length rest) s) (strstr s pat)"

definition redirect_url :: "bytes \<Rightarrow> bytes" where
  "redirect_url url =
     (case cut_at url (ascii ''?info_hash='') of
        Some u \<Rightarrow> u
      | None \<Rightarrow> (case cut_at url (ascii ''&info_hash='') of Some u \<Rightarrow> u | None \<Rightarrow> url))"

definition redirect_codes :: "int set" where
  "redirect_codes = {301, 302, 303, 307}"

text \<open>
  Following it.  When \<^verbatim>\<open>Connect\<close> fails, \<^verbatim>\<open>Reset\<close> has taken \<^verbatim>\<open>m_redirect\<close> back already, or a permanent redirection has
  cleared it: \<^verbatim>\<open>m_spec\<close> becomes the null pointer \<^verbatim>\<open>m_redirect\<close> is then.
\<close>

definition follow_redirect :: "env \<Rightarrow> int \<Rightarrow> bytes \<Rightarrow> nat \<Rightarrow> world \<Rightarrow> (dt_result \<times> world) option" where
  "follow_redirect e code location k w =
     (let (ok, w) = ask n_new e w; url = redirect_url location
      in if \<not> ok then Some (DT_FAILURE, w)
         else case UrlSplit url of
           Inl _ \<Rightarrow> Some (DT_FAILURE, w)
         | Inr (host, port, path) \<Rightarrow>
             (let (ok, w) = ask n_new e w
              in if \<not> ok then Some (DT_FAILURE, w)
                 else
                   (let w = upd_t k (Reset_t (w_now w) 15) w;
                        w = upd_t k (\<lambda>t. t\<lparr>t_redirect := t_spec t,
                              t_spec := Some \<lparr>sp_url = url, sp_host = host, sp_request = path, sp_port = port\<rparr>\<rparr>) w
                    in case BuildBaseRequest e k w of
                         None \<Rightarrow> None
                       | Some (r, w) \<Rightarrow>
                          (if r < 0 then Some (DT_FAILURE, upd_t k (\<lambda>t. t\<lparr>t_spec := t_redirect t, t_redirect := None\<rparr>) w)
                           else
                             (let w = (if code = 301 then upd_t k (\<lambda>t. t\<lparr>t_redirect := None\<rparr>) w else w)
                              in case Connect e k w of
                                   None \<Rightarrow> None
                                 | Some (r, w) \<Rightarrow>
                                     Some (if r < 0
                                           then (DT_FAILURE, upd_t k (\<lambda>t. t\<lparr>t_spec := t_redirect t, t_redirect := None\<rparr>)
                                                               (upd_t k (Reset_t (w_now w) 15) w))
                                           else (DT_NORMAL, w)))))))"

definition answer :: "env \<Rightarrow> bytes \<Rightarrow> nat \<Rightarrow> world \<Rightarrow> (dt_result \<times> world) option" where
  "answer e resp k w =
     (case HttpSplit resp of
        None \<Rightarrow> Some (DT_FAILURE, w)
      | Some (hlen, body) \<Rightarrow>
         (let code = HttpGetStatusCode (take hlen resp)
          in if code = 200 then
               ParseResponse e body k
                 (upd_t k (\<lambda>t. t\<lparr>t_f_started := \<not> t_f_stop t, t_refuse_click := 0, t_ok_click := t_ok_click t + 1\<rparr>) w)
             else if code \<in> redirect_codes then
               (case HttpGetHeader resp (of_nat hlen) (ascii ''Location'') of
                  Overrun \<Rightarrow> None
                | NotFound \<Rightarrow> Some (DT_FAILURE, w)
                | Found url \<Rightarrow> follow_redirect e code url k w)
             else
               Some (DT_FAILURE, upd_t k (\<lambda>t. t\<lparr>t_f_started := False,
                 t_interval := (if 400 \<le> code then max (t_default_interval t) 300 else t_interval t)\<rparr>) w)))"

definition CheckResponse :: "env \<Rightarrow> nat \<Rightarrow> world \<Rightarrow> (dt_result \<times> world) option" where
  "CheckResponse e k w =
     (let (r, sk, b) = FeedIn (e_buf_mem e) (t_sk_in (tr w k)) 0 (t_response_buffer (tr w k));
          w = upd_t k (\<lambda>t. t\<lparr>t_sk_in := sk, t_response_buffer := b, t_last_timestamp := w_now w\<rparr>) w
      in if 0 < r then Some (DT_NORMAL, w)
         else if m_len b = 0 then Some (DT_FAILURE, upd_t k (Reset_t (w_now w) 15) w)
         else answer e (data b) k w)"

section \<open>The main loop\<close>

text \<open>\<^verbatim>\<open>fd_set\<close> is a set of sockets.  \<open>fd_r\<close> and \<open>fd_w\<close> are the sets given, \<open>fd_rnext\<close> and \<open>fd_wnext\<close> those of the next round.\<close>

record fds =
  fd_n :: int
  fd_r :: "int set"
  fd_w :: "int set"
  fd_rnext :: "int set"
  fd_wnext :: "int set"

definition low_on_peers :: "env \<Rightarrow> nat \<Rightarrow> world \<Rightarrow> bool" where
  "low_on_peers e k w \<longleftrightarrow> w_peers_count w < cfg_min_peers (e_net e) \<and> cfg_min_peers (e_net e) \<le> t_prevpeers (tr w k) \<and>
     15 \<le> w_now w - t_last_timestamp (tr w k)"

definition IntervalCheck_t :: "env \<Rightarrow> nat \<Rightarrow> fds \<Rightarrow> world \<Rightarrow> (int \<times> fds \<times> world) option" where
  "IntervalCheck_t e k fs w =
     (let w = (if IsFull_c w \<and> \<not> t_f_completed (tr w k) \<and> 0 < r_count_bytes (w_self_dl w)
               then upd_t k (\<lambda>t. t\<lparr>t_interval := 0\<rparr>) w else w); t = tr w k; sk = t_sock t
      in if t_status t = DT_TRACKER_FREE then
           (let fs = (if sk \<noteq> INVALID_SOCKET then fs\<lparr>fd_r := fd_r fs - {sk}, fd_w := fd_w fs - {sk}\<rparr> else fs)
            in if t_interval t \<le> w_now w - t_last_timestamp t \<or> low_on_peers e k w then
                 (case Connect e k (upd_t k (\<lambda>t. t\<lparr>t_prevpeers := w_peers_count w\<rparr>) w) of
                    None \<Rightarrow> None
                  | Some (r, w) \<Rightarrow>
                     (if r < 0 then Some (-1, fs, upd_t k (\<lambda>t. (Reset_t (w_now w) 15 t)\<lparr>t_result := DT_FAILURE\<rparr>) w)
                      else
                        (let sk = t_sock (tr w k)
                         in Some (sk, fs\<lparr>fd_r := insert sk (fd_r fs),
                              fd_w := (if t_status (tr w k) = DT_TRACKER_CONNECTING then insert sk (fd_w fs) else fd_w fs)\<rparr>, w))))
               else Some (sk, fs, upd_t k (\<lambda>t. t\<lparr>t_last_timestamp := min (w_now w) (t_last_timestamp t)\<rparr>) w))
         else if t_status t = DT_TRACKER_CONNECTING then
           Some (sk, fs\<lparr>fd_r := insert sk (fd_r fs), fd_w := insert sk (fd_w fs)\<rparr>, w)
         else if sk \<noteq> INVALID_SOCKET then
           Some (sk, fs\<lparr>fd_r := insert sk (fd_r fs),
                       fd_w := (if m_len (t_request_buffer t) \<noteq> 0 then insert sk (fd_w fs) else fd_w fs)\<rparr>, w)
         else Some (sk, fs, w))"

text \<open>The failures of \<^verbatim>\<open>SocketReady\<close>; a socket that was ready is counted and taken out of the next sets.\<close>

definition fail_t :: "nat \<Rightarrow> world \<Rightarrow> world" where
  "fail_t k w = upd_t k (\<lambda>t. (Reset_t (w_now w) 15 t)\<lparr>t_result := DT_FAILURE\<rparr>) w"

definition took_r :: "int \<Rightarrow> fds \<Rightarrow> fds" where
  "took_r sk fs = (if sk \<in> fd_r fs then fs\<lparr>fd_n := fd_n fs - 1, fd_rnext := fd_rnext fs - {sk}\<rparr> else fs)"

definition took_w :: "int \<Rightarrow> fds \<Rightarrow> fds" where
  "took_w sk fs = (if sk \<in> fd_w fs then fs\<lparr>fd_n := fd_n fs - 1, fd_wnext := fd_wnext fs - {sk}\<rparr> else fs)"

definition ready_connected :: "env \<Rightarrow> nat \<Rightarrow> fds \<Rightarrow> world \<Rightarrow> (int \<times> fds \<times> world) option" where
  "ready_connected e k fs w =
     (let fs = took_r (t_sock (tr w k)) (took_w (t_sock (tr w k)) fs); (err, w) = ask n_so_error e w
      in if err \<noteq> 0 then
           Some (-1, fs, fail_t k (if err = ECONNREFUSED then upd_t k (\<lambda>t. t\<lparr>t_refuse_click := t_refuse_click t + 1\<rparr>) w else w))
         else case SendRequest_t e k w of
                None \<Rightarrow> None
              | Some (r, w) \<Rightarrow>
                  Some (if r = 0 then (0, fs, upd_t k (\<lambda>t. t\<lparr>t_status := DT_TRACKER_READY\<rparr>) w) else (-1, fs, fail_t k w)))"

definition ready_read :: "env \<Rightarrow> nat \<Rightarrow> world \<Rightarrow> world option" where
  "ready_read e k w =
     (case CheckResponse e k w of
        None \<Rightarrow> None
      | Some (res, w) \<Rightarrow>
         (let w = upd_t k (\<lambda>t. t\<lparr>t_result := res\<rparr>) w
          in Some (if res = DT_SUCCESS then upd_t k (Reset_t (w_now w) 0) w
                   else if res = DT_FAILURE then upd_t k (Reset_t (w_now w) 15) w else w)))"

definition ready_write :: "nat \<Rightarrow> fds \<Rightarrow> world \<Rightarrow> int \<times> fds \<times> world" where
  "ready_write k fs w =
     (let t = tr w k
      in if t_sock t \<in> fd_w fs then
           (let fs = took_w (t_sock t) fs; (r, out, b) = FlushOut (t_sk_out t) (t_request_buffer t);
                w = upd_t k (\<lambda>t. t\<lparr>t_sk_out := out, t_request_buffer := b\<rparr>) w
            in if r < 0 then (-1, fs, fail_t k w) else (0, fs, w))
         else (0, fs, w))"

definition SocketReady_t :: "env \<Rightarrow> nat \<Rightarrow> fds \<Rightarrow> world \<Rightarrow> (int \<times> fds \<times> world) option" where
  "SocketReady_t e k fs w =
     (let t = tr w k; sk = t_sock t
      in if t_status t = DT_TRACKER_FREE \<or> t_status t = DT_TRACKER_FINISHED \<and> t_f_stop t \<and> \<not> t_f_restart t then Some (0, fs, w)
         else if t_status t = DT_TRACKER_CONNECTING \<and> sk \<in> fd_w fs then ready_connected e k fs w
         else if t_status t = DT_TRACKER_CONNECTING \<and> sk \<in> fd_r fs then
           (let (err, w) = ask n_so_error e w in Some (-1, took_w sk (took_r sk fs), fail_t k w))
         else if sk \<noteq> INVALID_SOCKET then
           (if sk \<in> fd_r fs then
              (case ready_read e k w of
                 None \<Rightarrow> None
               | Some w \<Rightarrow>
                  (if t_sock (tr w k) = INVALID_SOCKET
                   then Some (if t_result (tr w k) = DT_FAILURE then -1 else 0, took_w sk (took_r sk fs), w)
                   else Some (ready_write k (took_r sk fs) w)))
            else Some (ready_write k fs w))
         else Some (-1, fs, upd_t k (Reset_t (w_now w) 15) w))"

end
