(* ===== verification/Tracker_Ok.thy ===== *)
theory Tracker_Ok
  imports Tracker
begin

text \<open>
  The states of a tracker: which combinations of status, socket and flags occur, whatever the tracker answers and the
  operating system does; and that a tracker that was told to stop is finished after one exchange.
\<close>

section \<open>Changing a tracker\<close>

lemma upd_t_sel [simp]:
  "tr (upd_t k f w) j = (if j = k then f (tr w k) else tr w j)" "w_now (upd_t k f w) = w_now w"
  "w_content (upd_t k f w) = w_content w" "w_self_dl (upd_t k f w) = w_self_dl w" "w_self_ul (upd_t k f w) = w_self_ul w"
  "w_tick (upd_t k f w) = w_tick w" "w_ipq (upd_t k f w) = w_ipq w" "w_self_sin (upd_t k f w) = w_self_sin w"
  "w_peers_count (upd_t k f w) = w_peers_count w" "w_rnd (upd_t k f w) = w_rnd w"
  by (simp_all add: upd_t_def)

lemma ask_sel [simp]:
  "w_tracker (snd (ask f e w)) = w_tracker w" "w_now (snd (ask f e w)) = w_now w" "w_content (snd (ask f e w)) = w_content w"
  "w_self_dl (snd (ask f e w)) = w_self_dl w" "w_self_ul (snd (ask f e w)) = w_self_ul w" "w_ipq (snd (ask f e w)) = w_ipq w"
  "w_self_sin (snd (ask f e w)) = w_self_sin w" "w_peers_count (snd (ask f e w)) = w_peers_count w"
  by (simp_all add: ask_def)

lemma askE:
  assumes "ask f e w = (a, w')"
  shows "w_tracker w' = w_tracker w \<and> w_now w' = w_now w \<and> w_content w' = w_content w \<and> w_self_dl w' = w_self_dl w"
  using ask_sel[of f e w] assms by simp

section \<open>The states\<close>

definition connected_t :: "bttracker \<Rightarrow> bool" where
  "connected_t t \<longleftrightarrow> t_status t = DT_TRACKER_CONNECTING \<or> t_status t = DT_TRACKER_READY"

definition flags_ok :: "bttracker \<Rightarrow> bool" where
  "flags_ok t \<longleftrightarrow> (t_f_restart t \<longrightarrow> t_f_stop t)"

definition tracker_ok :: "bttracker \<Rightarrow> bool" where
  "tracker_ok t \<longleftrightarrow> flags_ok t \<and> (connected_t t \<longleftrightarrow> t_sock t \<noteq> INVALID_SOCKET) \<and>
     (t_redirect t \<noteq> None \<longrightarrow> connected_t t) \<and>
     (t_status t = DT_TRACKER_FINISHED \<longrightarrow> t_f_stop t \<and> \<not> t_f_restart t \<and> \<not> t_f_started t) \<and>
     (t_f_restart t \<longrightarrow> t_f_started t \<or> connected_t t)"

text \<open>\<^verbatim>\<open>Reset\<close> makes any state a good one.\<close>

lemma Reset_ok: "flags_ok t \<Longrightarrow> tracker_ok (Reset_t n d t)"
  by (auto simp: tracker_ok_def flags_ok_def connected_t_def Reset_t_def reset_status_def Restart_def Let_def)

lemma Reset_ends: "\<not> connected_t (Reset_t n d t)" "t_sock (Reset_t n d t) = INVALID_SOCKET" "t_redirect (Reset_t n d t) = None"
  "t_f_stop t \<Longrightarrow> \<not> t_f_restart t \<Longrightarrow> t_status (Reset_t n d t) = DT_TRACKER_FINISHED \<and> t_f_stop (Reset_t n d t) \<and> \<not> t_f_restart (Reset_t n d t)"
  by (auto simp: connected_t_def Reset_t_def reset_status_def Restart_def Let_def)

lemma result_ok [simp]: "tracker_ok (t\<lparr>t_result := r\<rparr>) = tracker_ok t"
  "tracker_ok (t\<lparr>t_interval := x\<rparr>) = tracker_ok t" "tracker_ok (t\<lparr>t_last_timestamp := x\<rparr>) = tracker_ok t"
  "tracker_ok (t\<lparr>t_prevpeers := y\<rparr>) = tracker_ok t" "tracker_ok (t\<lparr>t_refuse_click := y\<rparr>) = tracker_ok t"
  "tracker_ok (t\<lparr>t_sk_out := out, t_request_buffer := b\<rparr>) = tracker_ok t"
  by (simp_all add: tracker_ok_def flags_ok_def connected_t_def)

lemma Stop_ok: "tracker_ok (Stop_t n t)"
  by (auto simp: Stop_t_def Let_def tracker_ok_def flags_ok_def connected_t_def Reset_t_def reset_status_def Restart_def)

lemma RestartTracker_ok: "tracker_ok (RestartTracker_t n t)"
  by (auto simp: RestartTracker_t_def Stop_t_def Let_def tracker_ok_def flags_ok_def connected_t_def Reset_t_def reset_status_def Restart_def)

lemma Adjust_ok: "tracker_ok t \<Longrightarrow> tracker_ok (tracker_Adjust t)"
  by (auto simp: tracker_Adjust_def tracker_ok_def flags_ok_def connected_t_def)

text \<open>What the operations leave alone: \<open>alike\<close> ties two states that differ only in other fields.\<close>

definition alike :: "bttracker \<Rightarrow> bttracker \<Rightarrow> bool" where
  "alike t t' \<longleftrightarrow> t_status t' = t_status t \<and> t_sock t' = t_sock t \<and> t_redirect t' = t_redirect t \<and> t_f_stop t' = t_f_stop t \<and>
     t_f_restart t' = t_f_restart t \<and> t_f_started t' = t_f_started t \<and> (t_spec t = None \<longleftrightarrow> t_spec t' = None)"

lemma alike_refl [simp]: "alike t t"
  by (simp add: alike_def)

lemma alike_trans [trans]: "alike a b \<Longrightarrow> alike b c \<Longrightarrow> alike a c"
  by (simp add: alike_def)

lemma alike_ok: "alike t t' \<Longrightarrow> tracker_ok t' = tracker_ok t"
  by (simp add: alike_def tracker_ok_def flags_ok_def connected_t_def)

lemma alike_flags: "alike t t' \<Longrightarrow> flags_ok t' = flags_ok t"
  by (simp add: alike_def flags_ok_def)

lemma event_alike: "announce_event full n t = (ev, t') \<Longrightarrow> alike t t' \<and> t_sk_out t' = t_sk_out t \<and> t_trackerid t' = t_trackerid t"
  by (auto simp: announce_event_def alike_def split: if_splits)

lemma SendRequest_same:
  assumes "SendRequest_t e k w = Some (r, w')"
  shows "alike (tr w k) (tr w' k) \<and> w_now w' = w_now w"
proof -
  obtain sp where sp: "t_spec (tr w k) = Some sp" using assms by (auto simp: SendRequest_t_def split: option.splits)
  obtain ok w1 where a: "ask n_new e w = (ok, w1)" by force
  obtain ev t where ev: "announce_event (IsFull_c w1) (r_count_bytes (w_self_dl w1)) (tr w1 k) = (ev, t)" by force
  obtain n w2 where dl: "GetTotalDL (upd_t k (\<lambda>_. t) w1) = (n, w2)" by force
  have w1: "tr w1 k = tr w k" "w_now w1 = w_now w" using askE[OF a] by simp_all
  have w2: "tr w2 k = t" "w_now w2 = w_now w" using dl w1 by (auto simp: GetTotalDL_def Let_def split: if_splits)
  obtain rr out b where pf: "PutFlush (e_buf_mem e) (t_sk_out t) (request_text e sp (t_trackerid t) ev (GetTotalUL w2) n (c_left_bytes (w_content w2)))
      (t_request_buffer t) = (rr, out, b)" by (metis prod_cases3)
  have "(tr w' k = tr w k \<or> alike t (tr w' k)) \<and> w_now w' = w_now w"
    using assms w1 w2 unfolding SendRequest_t_def sp option.case a prod.case ev Let_def dl pf
    by (auto simp: alike_def split: if_splits)
  moreover have "alike (tr w k) t" using event_alike[OF ev] w1 by simp
  ultimately show ?thesis by (auto intro: alike_trans)
qed

text \<open>\<^verbatim>\<open>Connect\<close> from a state without a socket.\<close>

definition idle_t :: "bttracker \<Rightarrow> bool" where
  "idle_t t \<longleftrightarrow> \<not> connected_t t \<and> t_sock t = INVALID_SOCKET"

lemma Connect_state:
  assumes "Connect e k w = Some (r, w')" and "idle_t (tr w k)"
  shows "(r = 0 \<and> connected_t (tr w' k) \<and> t_sock (tr w' k) \<noteq> INVALID_SOCKET \<or> r = -1) \<and> w_now w' = w_now w \<and>
    t_redirect (tr w' k) = t_redirect (tr w k) \<and> t_f_stop (tr w' k) = t_f_stop (tr w k) \<and>
    t_f_restart (tr w' k) = t_f_restart (tr w k) \<and> t_f_started (tr w' k) = t_f_started (tr w k) \<and>
    t_spec (tr w' k) \<noteq> None \<and> t_spec (tr w k) \<noteq> None"
proof -
  define w1 where "w1 = upd_t k (\<lambda>t. t\<lparr>t_result := DT_NORMAL, t_last_timestamp := w_now w\<rparr>) w"
  obtain sp where sp: "t_spec (tr w1 k) = Some sp"
    using assms(1) unfolding Connect_def w1_def[symmetric] Let_def by (cases "t_spec (tr w1 k)") auto
  have s0: "t_spec (tr w k) = Some sp" using sp by (simp add: w1_def)
  have s1: "alike (tr w k) (tr w1 k)" by (simp add: w1_def alike_def)
  obtain sk w2 where o: "open_sock e k w1 = (sk, w2)" by force
  have o2: "alike (tr w k) ((tr w2 k)\<lparr>t_sock := t_sock (tr w k)\<rparr>)" "t_sock (tr w2 k) = sk" "w_now w2 = w_now w1"
    using o by (auto simp: open_sock_def ask_def Let_def alike_def w1_def)
  obtain bound w3 where b: "(if cfg_listen_ip (e_net e) \<noteq> 0 then ask n_bind e w2 else (True, w2)) = (bound, w3)" by force
  have b3: "tr w3 k = tr w2 k \<and> w_now w3 = w_now w2" using b askE[of n_bind e w2 bound w3] by (auto split: if_splits)
  obtain ok w4 where c: "ask n_nonblock e w3 = (ok, w4)" by force
  obtain rc w5 where d: "ask n_connect e w4 = (rc, w5)" by force
  have w5: "tr w4 k = tr w2 k" "w_now w4 = w_now w" "tr w5 k = tr w2 k" "w_now w5 = w_now w"
    using askE[OF c] askE[OF d] b3 o2(3) by (simp_all add: w1_def)
  have s5: "alike (tr w k) ((tr w5 k)\<lparr>t_sock := t_sock (tr w k)\<rparr>)" "t_sock (tr w5 k) = sk" using o2 w5 by simp_all
  have fail: ?thesis if "alike (tr w k) ((tr w' k)\<lparr>t_sock := t_sock (tr w k)\<rparr>)" "r = -1" "w_now w' = w_now w"
    using that s0 by (simp add: alike_def)
  have good: ?thesis if "w' = upd_t k (\<lambda>t. t\<lparr>t_status := s\<rparr>) v" "s = DT_TRACKER_CONNECTING \<or> s = DT_TRACKER_READY" "r = 0"
    "alike (tr w5 k) (tr v k)" "w_now v = w_now w" "sk \<noteq> INVALID_SOCKET" for v s
    using that s5 s0 by (auto simp: alike_def connected_t_def)
  have early: "alike (tr w k) ((tr v k)\<lparr>t_sock := t_sock (tr w k)\<rparr>) \<and> w_now v = w_now w" if "v \<in> {w1, w2, w3, close_sock k w4, close_sock k w5}" for v
  proof -
    have "alike (tr w k) ((tr w1 k)\<lparr>t_sock := t_sock (tr w k)\<rparr>)" "w_now w1 = w_now w"
      "alike (tr w k) ((tr w2 k)\<lparr>t_sock := t_sock (tr w k)\<rparr>)" "w_now w2 = w_now w" using s1 o2 by (simp_all add: alike_def w1_def)
    then show ?thesis using that b3 w5 by (elim insertE) (simp_all add: close_sock_def)
  qed
  show ?thesis
  proof (cases "SendRequest_t e k w5")
    case None
    have "r = -1 \<and> w' \<in> {w1, w2, w3, close_sock k w4, close_sock k w5} \<or>
      r = 0 \<and> sk \<noteq> INVALID_SOCKET \<and> w' = upd_t k (\<lambda>t. t\<lparr>t_status := DT_TRACKER_CONNECTING\<rparr>) w5"
      using assms(1) unfolding Connect_def w1_def[symmetric] Let_def sp option.case o prod.case b c d None
      by (simp split: if_splits)
    then show ?thesis using early[of w'] fail good[OF _ _ _ _ w5(4)] by (metis alike_refl)
  next
    case (Some y)
    obtain x w6 where y: "y = (x, w6)" by force
    have R: "alike (tr w5 k) (tr w6 k)" "w_now w6 = w_now w" using SendRequest_same[OF Some[unfolded y]] w5 by simp_all
    have "r = -1 \<and> w' \<in> {w1, w2, w3, close_sock k w4, close_sock k w5} \<or> r = -1 \<and> w' = close_sock k w6 \<or>
      r = 0 \<and> sk \<noteq> INVALID_SOCKET \<and> (w' = upd_t k (\<lambda>t. t\<lparr>t_status := DT_TRACKER_CONNECTING\<rparr>) w5 \<or>
        w' = upd_t k (\<lambda>t. t\<lparr>t_status := DT_TRACKER_READY\<rparr>) w6)"
      using assms(1) unfolding Connect_def w1_def[symmetric] Let_def sp option.case o prod.case b c d Some y
      by (simp split: if_splits)
    moreover have "alike (tr w k) ((tr (close_sock k w6) k)\<lparr>t_sock := t_sock (tr w k)\<rparr>)" "w_now (close_sock k w6) = w_now w"
      using R s5 by (simp_all add: close_sock_def alike_def)
    ultimately show ?thesis using early[of w'] fail good[OF _ _ _ _ w5(4)] good[OF _ _ _ R] by (metis alike_refl)
  qed
qed

section \<open>The response\<close>

lemma BuildBaseRequest_same:
  assumes "BuildBaseRequest e k w = Some (r, w')"
  shows "alike (tr w k) (tr w' k) \<and> w_now w' = w_now w"
  using assms by (auto simp: BuildBaseRequest_def Let_def ask_def alike_def split: option.splits if_splits)

lemma add_peer_keeps [simp]: "w_tracker (snd (add_peer e a x)) = w_tracker (snd x)" "w_now (snd (add_peer e a x)) = w_now (snd x)"
  by (auto simp: add_peer_def ask_def Let_def split: prod.splits)

lemma compact_peers_keeps:
  "compact_peers e i ps x = Some y \<Longrightarrow> w_tracker (snd y) = w_tracker (snd x) \<and> w_now (snd y) = w_now (snd x)"
  by (induction i arbitrary: ps x) (auto split: if_splits)

lemma dict_peer_keeps:
  "dict_peer e d x = Some y \<Longrightarrow> w_tracker (snd y) = w_tracker (snd x) \<and> w_now (snd y) = w_now (snd x)"
  by (auto simp: dict_peer_def Let_def split: prod.splits if_splits option.splits)

lemma dict_peers_keeps:
  "dict_peers e buf x = Some y \<Longrightarrow> w_tracker (snd y) = w_tracker (snd x) \<and> w_now (snd y) = w_now (snd x)"
proof (induction e buf x rule: dict_peers.induct)
  case (1 e buf x)
  show ?case
  proof (cases "(buf = [] \<or> hd buf = c_e) \<or> decode_dict buf None = 0")
    case True
    then have "y = x" using "1.prems" by (subst (asm) dict_peers.simps) (auto simp: Let_def split: if_splits)
    then show ?thesis by simp
  next
    case False
    then obtain z where z: "dict_peer e (take (decode_dict buf None) buf) x = Some z"
      "dict_peers e (drop (decode_dict buf None) buf) z = Some y"
      using "1.prems" by (subst (asm) dict_peers.simps) (auto simp: Let_def split: option.splits)
    then show ?thesis using "1.IH"[OF _ refl _ z(1) z(2)] False dict_peer_keeps[OF z(1)] by simp
  qed
qed

lemma parse_peers_keeps:
  assumes "parse_peers e buf pos w = Some (n, w')"
  shows "w_tracker w' = w_tracker w \<and> w_now w' = w_now w"
  using assms compact_peers_keeps[of e _ _ "(0, w)" "(n, w')"] dict_peers_keeps[of e _ "(0, w)" "(n, w')"]
  by (auto simp: parse_peers_def Let_def split: if_splits)

lemma parse_counts_same: "alike t (parse_counts buf t)"
  by (auto simp: parse_counts_def alike_def Let_def split: prod.splits)

lemma ParseResponse_same:
  assumes "ParseResponse e buf k w = Some (res, w')"
  shows "alike (tr w k) (tr w' k) \<and> w_now w' = w_now w \<and> res \<noteq> DT_NORMAL"
proof (cases "fst (decode_query_str buf (ascii ''failure reason'')) \<noteq> 0")
  case False
  define w1 where "w1 = upd_t k (parse_counts buf) w"
  have w1: "alike (tr w k) (tr w1 k)" "w_now w1 = w_now w" by (simp_all add: w1_def parse_counts_same)
  show ?thesis
  proof (cases "parse_peers e buf (fst (decode_query_pos buf (ascii ''peers''))) w1")
    case None
    then show ?thesis using assms False w1 unfolding ParseResponse_def Let_def w1_def[symmetric] None by (auto split: if_splits)
  next
    case (Some y)
    then obtain n w2 where y: "y = (n, w2)" by force
    note k2 = parse_peers_keeps[OF Some[unfolded y]]
    define g where "g t = (if t_peers_count t = 0 then t\<lparr>t_peers_count := n + 1, t_f_boguspeercnt := True\<rparr>
      else t\<lparr>t_f_boguspeercnt := False\<rparr>)" for t :: bttracker
    have g: "alike t (g t)" for t :: bttracker by (simp add: g_def alike_def)
    have "(res, w') = (DT_FAILURE, w1) \<or> (res, w') = (DT_SUCCESS, upd_t k g w2)"
      using assms False unfolding ParseResponse_def Let_def w1_def[symmetric] Some y g_def by (simp split: if_splits)
    then show ?thesis using w1 k2 alike_trans[OF _ g] by auto
  qed
qed (use assms in \<open>simp add: ParseResponse_def\<close>)

text \<open>A result other than \<^verbatim>\<open>DT_NORMAL\<close> is followed by \<^verbatim>\<open>Reset\<close>, so only the flags matter then.\<close>

definition quits :: "bttracker \<Rightarrow> bool" where
  "quits t \<longleftrightarrow> t_f_stop t \<and> \<not> t_f_restart t"

definition settled :: "dt_result \<Rightarrow> bttracker \<Rightarrow> bttracker \<Rightarrow> bool" where
  "settled res t t' \<longleftrightarrow> (if res = DT_NORMAL then tracker_ok t' \<and> connected_t t' else flags_ok t') \<and> (quits t \<longrightarrow> quits t')"

lemma Reset_quits: "quits t \<Longrightarrow> quits (Reset_t n d t)"
  using Reset_ends(4)[of t n d] by (simp add: quits_def)

lemma ok_flags: "tracker_ok t \<Longrightarrow> flags_ok t"
  by (simp add: tracker_ok_def)

lemma settled_alike: "alike t t' \<Longrightarrow> tracker_ok t \<Longrightarrow> connected_t t \<Longrightarrow> settled res t t'"
  by (auto simp: settled_def alike_def tracker_ok_def flags_ok_def connected_t_def quits_def)

lemma follow_redirect_settled:
  assumes "follow_redirect e code loc k w = Some (res, w')" and ok: "tracker_ok (tr w k)" "connected_t (tr w k)"
  shows "settled res (tr w k) (tr w' k) \<and> w_now w' = w_now w"
proof -
  obtain a w1 where a: "ask n_new e w = (a, w1)" by force
  have w1: "tr w1 k = tr w k" "w_now w1 = w_now w" using askE[OF a] by simp_all
  have early: ?thesis if "res = DT_FAILURE" "tr w' k = tr w k" "w_now w' = w_now w"
    using that ok by (simp add: settled_def tracker_ok_def)
  show ?thesis
  proof (cases "UrlSplit (redirect_url loc)")
    case (Inl x)
    then show ?thesis using assms(1) w1 early by (auto simp: follow_redirect_def a Let_def split: if_splits)
  next
    case (Inr y)
    then obtain host port path where y: "UrlSplit (redirect_url loc) = Inr (host, port, path)" by (cases y) auto
    obtain b w2 where b: "ask n_new e w1 = (b, w2)" by force
    have w2: "tr w2 k = tr w k" "w_now w2 = w_now w" using askE[OF b] w1 by simp_all
    define w3 where "w3 = upd_t k (Reset_t (w_now w2) 15) w2"
    define w4 where "w4 = upd_t k (\<lambda>t. t\<lparr>t_redirect := t_spec t, t_spec := Some \<lparr>sp_url = redirect_url loc, sp_host = host,
      sp_request = path, sp_port = port\<rparr>\<rparr>) w3"
    have w3: "tracker_ok (tr w3 k)" "\<not> connected_t (tr w3 k)" "t_sock (tr w3 k) = INVALID_SOCKET" "quits (tr w k) \<Longrightarrow> quits (tr w3 k)" "w_now w3 = w_now w"
      using Reset_ok[OF ok_flags[OF ok(1)]] Reset_ends Reset_quits w2 by (simp_all add: w3_def)
    have w4: "t_f_stop (tr w4 k) = t_f_stop (tr w3 k)" "t_f_restart (tr w4 k) = t_f_restart (tr w3 k)" "t_status (tr w4 k) = t_status (tr w3 k)"
      "t_sock (tr w4 k) = INVALID_SOCKET" "w_now w4 = w_now w" using w3 by (simp_all add: w4_def)
    show ?thesis
    proof (cases "BuildBaseRequest e k w4")
      case None
      then show ?thesis using assms(1) early w1 w2 unfolding follow_redirect_def a Let_def prod.case y sum.case b w3_def[symmetric] w4_def[symmetric] None
        by (auto split: if_splits)
    next
      case (Some z)
      then obtain r w5 where z: "BuildBaseRequest e k w4 = Some (r, w5)" by (cases z) auto
      note s5 = BuildBaseRequest_same[OF z]
      define w6 where "w6 = (if code = 301 then upd_t k (\<lambda>t. t\<lparr>t_redirect := None\<rparr>) w5 else w5)"
      have w6: "idle_t (tr w6 k)" "flags_ok (tr w6 k)" "quits (tr w k) \<Longrightarrow> quits (tr w6 k)" "w_now w6 = w_now w"
        using s5 w3 w4 by (auto simp: w6_def idle_t_def alike_def connected_t_def tracker_ok_def flags_ok_def quits_def)
      have undo: ?thesis if "w' = upd_t k (\<lambda>t. t\<lparr>t_spec := t_redirect t, t_redirect := None\<rparr>) v" "res = DT_FAILURE" "flags_ok (tr v k)"
        "quits (tr w k) \<Longrightarrow> quits (tr v k)" "w_now v = w_now w" for v using that by (auto simp: settled_def flags_ok_def quits_def)
      have f5: "flags_ok (tr w5 k)" "quits (tr w k) \<Longrightarrow> quits (tr w5 k)" "w_now w5 = w_now w"
        using s5 w3 w4 by (auto simp: alike_def tracker_ok_def flags_ok_def quits_def)
      show ?thesis
      proof (cases "Connect e k w6")
        case None
        then show ?thesis using assms(1) early w1 w2 undo[OF _ _ f5]
          unfolding follow_redirect_def a Let_def prod.case y sum.case b w3_def[symmetric] w4_def[symmetric] z option.case w6_def[symmetric] None
          by (auto split: if_splits)
      next
        case (Some v)
        then obtain r2 w7 where v: "Connect e k w6 = Some (r2, w7)" by (cases v) auto
        note C = Connect_state[OF v w6(1)]
        have f7: "flags_ok (tr w7 k)" "quits (tr w k) \<Longrightarrow> quits (tr w7 k)" "w_now w7 = w_now w"
          using C w6 by (auto simp: flags_ok_def quits_def)
        have good: ?thesis if "\<not> r2 < 0" "w' = w7" "res = DT_NORMAL"
        proof -
          have "connected_t (tr w7 k)" "t_sock (tr w7 k) \<noteq> INVALID_SOCKET" using C that(1) by auto
          then show ?thesis using f7 that by (auto simp: settled_def tracker_ok_def connected_t_def)
        qed
        have f8: "flags_ok (tr (upd_t k (Reset_t (w_now w7) 15) w7) k)" "quits (tr w k) \<Longrightarrow> quits (tr (upd_t k (Reset_t (w_now w7) 15) w7) k)"
          "w_now (upd_t k (Reset_t (w_now w7) 15) w7) = w_now w"
          using f7 Reset_ok[THEN ok_flags] Reset_quits by simp_all
        have "(res, w') = (DT_FAILURE, w1) \<or> (res, w') = (DT_FAILURE, w2) \<or>
            (res, w') = (DT_FAILURE, upd_t k (\<lambda>t. t\<lparr>t_spec := t_redirect t, t_redirect := None\<rparr>) w5) \<or>
            (res, w') = (DT_FAILURE, upd_t k (\<lambda>t. t\<lparr>t_spec := t_redirect t, t_redirect := None\<rparr>) (upd_t k (Reset_t (w_now w7) 15) w7)) \<or>
            (res, w') = (DT_NORMAL, w7) \<and> \<not> r2 < 0"
          using assms(1)
          unfolding follow_redirect_def a Let_def prod.case y sum.case b w3_def[symmetric] w4_def[symmetric] z option.case w6_def[symmetric] v
          by (simp split: if_splits)
        then show ?thesis
          using early w1 w2 undo[OF _ _ f5] undo[OF _ _ f8] good by (elim disjE conjE) (simp_all only: prod.inject; blast)+
      qed
    qed
  qed
qed

lemma answer_settled:
  assumes "answer e resp k w = Some (res, w')" and ok: "tracker_ok (tr w k)" "connected_t (tr w k)"
  shows "settled res (tr w k) (tr w' k) \<and> w_now w' = w_now w"
proof -
  have fail: "settled DT_FAILURE (tr w k) (tr w k)" using ok by (simp add: settled_def tracker_ok_def)
  show ?thesis
  proof (cases "HttpSplit resp")
    case None
    then show ?thesis using assms(1) fail by (simp add: answer_def)
  next
    case (Some x)
    then obtain hlen body where h: "HttpSplit resp = Some (hlen, body)" by (cases x) auto
    define code where "code = HttpGetStatusCode (take hlen resp)"
    define w1 where "w1 = upd_t k (\<lambda>t. t\<lparr>t_f_started := \<not> t_f_stop t, t_refuse_click := 0, t_ok_click := t_ok_click t + 1\<rparr>) w"
    have w1: "flags_ok (tr w1 k)" "quits (tr w1 k) = quits (tr w k)" "w_now w1 = w_now w"
      using ok by (auto simp: w1_def tracker_ok_def flags_ok_def quits_def)
    note unf = answer_def h option.case prod.case code_def[symmetric] Let_def w1_def[symmetric]
    consider "code = 200" | "code \<noteq> 200" "code \<in> redirect_codes" | "code \<noteq> 200" "code \<notin> redirect_codes" by blast
    then show ?thesis
    proof cases
      case 1
      then have "ParseResponse e body k w1 = Some (res, w')" using assms(1) unfolding unf by simp
      from ParseResponse_same[OF this] w1 show ?thesis by (auto simp: settled_def alike_def flags_ok_def quits_def)
    next
      case 2
      then show ?thesis using assms(1) fail follow_redirect_settled[OF _ ok] unfolding unf by (auto split: header_result.splits)
    next
      case 3
      then have "res = DT_FAILURE \<and> w' = upd_t k (\<lambda>t. t\<lparr>t_f_started := False,
          t_interval := (if 400 \<le> code then max (t_default_interval t) 300 else t_interval t)\<rparr>) w"
        using assms(1) unfolding unf by simp
      then show ?thesis using ok by (auto simp: settled_def tracker_ok_def flags_ok_def quits_def)
    qed
  qed
qed

lemma CheckResponse_settled:
  assumes "CheckResponse e k w = Some (res, w')" and ok: "tracker_ok (tr w k)" "connected_t (tr w k)"
  shows "settled res (tr w k) (tr w' k) \<and> w_now w' = w_now w"
proof -
  obtain r sk b where f: "FeedIn (e_buf_mem e) (t_sk_in (tr w k)) 0 (t_response_buffer (tr w k)) = (r, sk, b)" by (metis prod_cases3)
  define w1 where "w1 = upd_t k (\<lambda>t. t\<lparr>t_sk_in := sk, t_response_buffer := b, t_last_timestamp := w_now w\<rparr>) w"
  have s1: "alike (tr w k) (tr w1 k)" "w_now w1 = w_now w" by (simp_all add: w1_def alike_def)
  then have o1: "tracker_ok (tr w1 k)" "connected_t (tr w1 k)" "quits (tr w1 k) = quits (tr w k)"
    using ok alike_ok[OF s1(1)] by (simp_all add: alike_def connected_t_def quits_def)
  have "(res, w') = (DT_NORMAL, w1) \<or> (res, w') = (DT_FAILURE, upd_t k (Reset_t (w_now w1) 15) w1) \<or>
      answer e (data b) k w1 = Some (res, w')"
    using assms(1) unfolding CheckResponse_def f Let_def prod.case w1_def[symmetric] by (auto split: if_splits)
  moreover have "settled DT_NORMAL (tr w k) (tr w1 k)" by (rule settled_alike[OF s1(1) ok])
  moreover have "settled DT_FAILURE (tr w k) (tr (upd_t k (Reset_t (w_now w1) 15) w1) k)"
    using Reset_ok[OF ok_flags[OF o1(1)], THEN ok_flags] Reset_quits o1 by (simp add: settled_def)
  moreover have "settled res (tr w k) (tr w' k) \<and> w_now w' = w_now w" if "answer e (data b) k w1 = Some (res, w')"
    using answer_settled[OF that o1(1,2)] o1 s1 by (auto simp: settled_def)
  ultimately show ?thesis using s1 by auto
qed

section \<open>The operations\<close>

text \<open>\<open>fine\<close>: a good state is reached, and a tracker that quits goes on quitting and does not become free.\<close>

definition fine :: "bttracker \<Rightarrow> bttracker \<Rightarrow> bool" where
  "fine t t' \<longleftrightarrow> tracker_ok t' \<and>
     (quits t \<longrightarrow> quits t' \<and> (t_status t \<noteq> DT_TRACKER_FREE \<longrightarrow> t_status t' \<noteq> DT_TRACKER_FREE))"

lemma fine_alike: "alike t t' \<Longrightarrow> tracker_ok t \<Longrightarrow> fine t t'"
  by (auto simp: fine_def alike_ok) (auto simp: alike_def quits_def)

lemma fine_Reset: "flags_ok t \<Longrightarrow> (quits t0 \<Longrightarrow> quits t) \<Longrightarrow> fine t0 ((Reset_t n d t)\<lparr>t_result := r\<rparr>)"
  using Reset_ok[of t n d] Reset_ends(4)[of t n d] by (auto simp: fine_def quits_def)

lemma fine_Reset': "flags_ok t \<Longrightarrow> (quits t0 \<Longrightarrow> quits t) \<Longrightarrow> fine t0 (Reset_t n d t)"
  using Reset_ok[of t n d] Reset_ends(4)[of t n d] by (auto simp: fine_def quits_def)

lemma fine_fail: "flags_ok (tr w k) \<Longrightarrow> (quits t0 \<Longrightarrow> quits (tr w k)) \<Longrightarrow> fine t0 (tr (fail_t k w) k)"
  by (simp add: fail_t_def fine_Reset)

lemma ready_read_fine:
  assumes "ready_read e k w = Some w'" and ok: "tracker_ok (tr w k)" "connected_t (tr w k)"
  shows "fine (tr w k) (tr w' k) \<and> w_now w' = w_now w \<and>
    (t_sock (tr w' k) \<noteq> INVALID_SOCKET \<longrightarrow> tracker_ok (tr w' k) \<and> connected_t (tr w' k))"
proof -
  obtain res w1 where c: "CheckResponse e k w = Some (res, w1)" using assms(1) by (auto simp: ready_read_def split: option.splits)
  note S = CheckResponse_settled[OF c ok]
  define w2 where "w2 = upd_t k (\<lambda>t. t\<lparr>t_result := res\<rparr>) w1"
  have w2: "tr w2 k = (tr w1 k)\<lparr>t_result := res\<rparr>" "w_now w2 = w_now w" using S by (simp_all add: w2_def)
  have q: "quits (tr w k) \<Longrightarrow> quits (tr w2 k)" using S w2 by (auto simp: settled_def quits_def)
  have w': "w' = (if res = DT_SUCCESS then upd_t k (Reset_t (w_now w2) 0) w2
      else if res = DT_FAILURE then upd_t k (Reset_t (w_now w2) 15) w2 else w2)"
    using assms(1) unfolding ready_read_def c Let_def option.case prod.case w2_def[symmetric] by simp
  show ?thesis
  proof (cases res)
    case DT_NORMAL
    then have "tracker_ok (tr w2 k)" "connected_t (tr w2 k)" using S w2 by (simp_all add: settled_def connected_t_def)
    then show ?thesis using DT_NORMAL w' w2 q by (auto simp: fine_def connected_t_def)
  next
    case DT_SUCCESS
    then have "flags_ok (tr w2 k)" using S w2 by (simp add: settled_def flags_ok_def)
    then show ?thesis using DT_SUCCESS w' w2 q Reset_ends(2) by (simp add: fine_Reset')
  next
    case DT_FAILURE
    then have "flags_ok (tr w2 k)" using S w2 by (simp add: settled_def flags_ok_def)
    then show ?thesis using DT_FAILURE w' w2 q Reset_ends(2) by (simp add: fine_Reset')
  qed
qed

lemma ready_write_fine:
  assumes "ready_write k fs w = (r, fs', w')" and ok: "tracker_ok (tr w k)"
  shows "fine (tr w k) (tr w' k)"
proof -
  obtain r1 out b where f: "FlushOut (t_sk_out (tr w k)) (t_request_buffer (tr w k)) = (r1, out, b)" by (metis prod_cases3)
  define w1 where "w1 = upd_t k (\<lambda>t. t\<lparr>t_sk_out := out, t_request_buffer := b\<rparr>) w"
  have s: "alike (tr w k) (tr w1 k)" by (simp add: w1_def alike_def)
  have "w' = w \<or> w' = w1 \<or> w' = fail_t k w1"
    using assms(1) unfolding ready_write_def f Let_def prod.case w1_def[symmetric] by (auto split: if_splits)
  moreover have "fine (tr w k) (tr (fail_t k w1) k)"
    using s ok by (intro fine_fail) (auto simp: alike_def tracker_ok_def flags_ok_def quits_def)
  ultimately show ?thesis using fine_alike[OF s ok] fine_alike[OF alike_refl ok] by auto
qed

lemma fine_trans: "fine a b \<Longrightarrow> fine b c \<Longrightarrow> fine a c"
  by (simp add: fine_def)

lemma ready_connected_fine:
  assumes "ready_connected e k fs w = Some (r, fs', w')" and ok: "tracker_ok (tr w k)" "connected_t (tr w k)"
  shows "fine (tr w k) (tr w' k)"
proof -
  obtain err w1 where a: "ask n_so_error e w = (err, w1)" by force
  have w1: "tr w1 k = tr w k" using askE[OF a] by simp
  show ?thesis
  proof (cases "err = 0")
    case False
    then have "w' = fail_t k (if err = ECONNREFUSED then upd_t k (\<lambda>t. t\<lparr>t_refuse_click := t_refuse_click t + 1\<rparr>) w1 else w1)"
      using assms(1) unfolding ready_connected_def a Let_def prod.case by simp
    then show ?thesis using ok w1 by (auto intro!: fine_fail simp: tracker_ok_def flags_ok_def quits_def)
  next
    case True
    then obtain r1 w2 where s: "SendRequest_t e k w1 = Some (r1, w2)"
      using assms(1) unfolding ready_connected_def a Let_def prod.case by (auto split: option.splits)
    have s2: "alike (tr w k) (tr w2 k)" using SendRequest_same[OF s] w1 by simp
    have "w' = upd_t k (\<lambda>t. t\<lparr>t_status := DT_TRACKER_READY\<rparr>) w2 \<or> w' = fail_t k w2"
      using assms(1) True unfolding ready_connected_def a Let_def prod.case s option.case by (auto split: if_splits)
    moreover have "fine (tr w k) (tr (upd_t k (\<lambda>t. t\<lparr>t_status := DT_TRACKER_READY\<rparr>) w2) k)"
      using s2 ok by (auto simp: fine_def alike_def tracker_ok_def flags_ok_def connected_t_def quits_def)
    moreover have "fine (tr w k) (tr (fail_t k w2) k)"
      using s2 ok by (intro fine_fail) (auto simp: alike_def tracker_ok_def flags_ok_def quits_def)
    ultimately show ?thesis by auto
  qed
qed

lemma SocketReady_fine:
  assumes "SocketReady_t e k fs w = Some (r, fs', w')" and ok: "tracker_ok (tr w k)"
  shows "fine (tr w k) (tr w' k)"
proof -
  let ?t = "tr w k"
  consider (none) "w' = w" | (conn) "t_status ?t = DT_TRACKER_CONNECTING" "ready_connected e k fs w = Some (r, fs', w')"
    | (err) "w' = fail_t k (snd (ask n_so_error e w))"
    | (read) w1 where "t_sock ?t \<noteq> INVALID_SOCKET" "ready_read e k w = Some w1" "w' = w1 \<or>
        t_sock (tr w1 k) \<noteq> INVALID_SOCKET \<and> (r, fs', w') = ready_write k (took_r (t_sock ?t) fs) w1"
    | (wr) "(r, fs', w') = ready_write k fs w" | (lost) "w' = upd_t k (Reset_t (w_now w) 15) w"
    using assms(1) unfolding SocketReady_t_def Let_def by (auto split: if_splits option.splits prod.splits)
  then show ?thesis
  proof cases
    case none
    then show ?thesis using fine_alike[OF alike_refl ok] by simp
  next
    case conn
    then show ?thesis using ready_connected_fine[OF conn(2) ok] by (simp add: connected_t_def)
  next
    case err
    then show ?thesis using ok by (auto intro!: fine_fail simp: tracker_ok_def quits_def)
  next
    case read
    have "connected_t ?t" using read(1) ok by (simp add: tracker_ok_def)
    note R = ready_read_fine[OF read(2) ok this]
    show ?thesis using read(3) R ready_write_fine[of k _ w1 r fs' w'] fine_trans by metis
  next
    case wr
    then show ?thesis using ready_write_fine[OF wr[symmetric] ok] by simp
  next
    case lost
    then show ?thesis using fine_Reset'[OF ok_flags[OF ok], of ?t] by simp
  qed
qed

lemma IntervalCheck_cases:
  assumes "IntervalCheck_t e k fs w = Some (r, fs', w')" and ok: "tracker_ok (tr w k)"
  shows "fine (tr w k) (tr w' k) \<and>
    (INVALID_SOCKET \<notin> fd_r fs \<union> fd_w fs \<longrightarrow> INVALID_SOCKET \<notin> fd_r fs' \<union> fd_w fs') \<and>
    (t_interval (tr w k) \<le> w_now w - t_last_timestamp (tr w k) \<longrightarrow> 0 \<le> w_now w - t_last_timestamp (tr w k) \<longrightarrow>
     quits (tr w k) \<longrightarrow> t_status (tr w' k) \<noteq> DT_TRACKER_FREE)"
proof -
  define w1 where "w1 = (if IsFull_c w \<and> \<not> t_f_completed (tr w k) \<and> 0 < r_count_bytes (w_self_dl w)
    then upd_t k (\<lambda>t. t\<lparr>t_interval := 0\<rparr>) w else w)"
  have w1: "alike (tr w k) (tr w1 k)" "w_now w1 = w_now w" "t_last_timestamp (tr w1 k) = t_last_timestamp (tr w k)"
    "t_interval (tr w1 k) = 0 \<or> t_interval (tr w1 k) = t_interval (tr w k)" by (simp_all add: w1_def alike_def)
  have ok1: "tracker_ok (tr w1 k)" using alike_ok[OF w1(1)] ok by simp
  have fine1: "fine (tr w k) t" if "fine (tr w1 k) t" for t by (rule fine_trans[OF fine_alike[OF w1(1) ok] that])
  note unf = IntervalCheck_t_def w1_def[symmetric] Let_def
  show ?thesis
  proof (cases "t_status (tr w1 k) = DT_TRACKER_FREE")
    case free: True
    have sk: "t_sock (tr w1 k) = INVALID_SOCKET" "idle_t (tr w1 k)" using ok1 free by (auto simp: tracker_ok_def connected_t_def idle_t_def)
    show ?thesis
    proof (cases "t_interval (tr w1 k) \<le> w_now w1 - t_last_timestamp (tr w1 k) \<or> low_on_peers e k w1")
      case due: True
      define w2 where "w2 = upd_t k (\<lambda>t. t\<lparr>t_prevpeers := w_peers_count w1\<rparr>) w1"
      have w2: "alike (tr w1 k) (tr w2 k)" "w_now w2 = w_now w1" "idle_t (tr w2 k)" using sk by (simp_all add: w2_def alike_def idle_t_def connected_t_def)
      obtain rc w3 where c: "Connect e k w2 = Some (rc, w3)"
        using assms(1) free sk due unfolding unf w2_def by (auto split: option.splits)
      note C = Connect_state[OF c w2(3)]
      have fl: "flags_ok (tr w3 k)" "quits (tr w k) \<longleftrightarrow> quits (tr w3 k)" "t_redirect (tr w3 k) = None"
        using C w2(1) w1(1) ok1 free by (auto simp: alike_def tracker_ok_def flags_ok_def quits_def connected_t_def)
      show ?thesis
      proof (cases "rc < 0")
        case True
        then have "w' = upd_t k (\<lambda>t. (Reset_t (w_now w3) 15 t)\<lparr>t_result := DT_FAILURE\<rparr>) w3" "fs' = fs"
          using assms(1) free sk due c unfolding unf w2_def by auto
        then show ?thesis using fine_Reset[OF fl(1)] fl Reset_ends(4)[of "tr w3 k"] by (auto simp: quits_def)
      next
        case False
        then have w': "w' = w3" "fs' = fs\<lparr>fd_r := insert (t_sock (tr w3 k)) (fd_r fs),
            fd_w := (if t_status (tr w3 k) = DT_TRACKER_CONNECTING then insert (t_sock (tr w3 k)) (fd_w fs) else fd_w fs)\<rparr>"
          using assms(1) free sk due c unfolding unf w2_def by auto
        have cn: "connected_t (tr w3 k)" "t_sock (tr w3 k) \<noteq> INVALID_SOCKET" using C False by auto
        then have "tracker_ok (tr w3 k)" using fl by (auto simp: tracker_ok_def connected_t_def)
        then show ?thesis using w' cn fl by (auto simp: fine_def connected_t_def)
      qed
    next
      case False
      then have "w' = upd_t k (\<lambda>t. t\<lparr>t_last_timestamp := min (w_now w1) (t_last_timestamp t)\<rparr>) w1" "fs' = fs"
        using assms(1) free sk unfolding unf by auto
      then show ?thesis using False fine1[of "tr w' k"] w1 ok1 by (auto simp: fine_def quits_def alike_def)
    qed
  next
    case False
    then have "w' = w1" "INVALID_SOCKET \<notin> fd_r fs \<union> fd_w fs \<longrightarrow> INVALID_SOCKET \<notin> fd_r fs' \<union> fd_w fs'"
      using assms(1) ok1 unfolding unf by (auto simp: tracker_ok_def connected_t_def split: if_splits)
    then show ?thesis using False fine1[OF fine_alike[OF alike_refl ok1]] by simp
  qed
qed

section \<open>Runs\<close>

text \<open>Everything that is done with a tracker after \<^verbatim>\<open>Initial\<close>; other things that happen leave it alone.\<close>

inductive tracker_step :: "env \<Rightarrow> nat \<Rightarrow> world \<Rightarrow> world \<Rightarrow> bool" for e k where
  interval: "IntervalCheck_t e k fs w = Some (r, fs', w') \<Longrightarrow> tracker_step e k w w'"
| socket: "SocketReady_t e k fs w = Some (r, fs', w') \<Longrightarrow> tracker_step e k w w'"
| stop: "tracker_step e k w (upd_t k (Stop_t (w_now w)) w)"
| restart: "tracker_step e k w (upd_t k (RestartTracker_t (w_now w)) w)"
| update: "tracker_step e k w (upd_t k Update_t w)"
| clear: "tracker_step e k w (upd_t k ClearResult w)"
| adjust: "tracker_step e k w (upd_t k tracker_Adjust w)"
| elsewhere: "tr w' k = tr w k \<Longrightarrow> tracker_step e k w w'"

lemma tracker_step_ok: "tracker_step e k w w' \<Longrightarrow> tracker_ok (tr w k) \<Longrightarrow> tracker_ok (tr w' k)"
proof (induction rule: tracker_step.induct)
  case (interval fs w r fs' w')
  then show ?case using IntervalCheck_cases by (auto simp: fine_def)
next
  case (socket fs w r fs' w')
  then show ?case using SocketReady_fine by (auto simp: fine_def)
qed (simp_all add: Stop_ok RestartTracker_ok Adjust_ok Update_t_def ClearResult_def)

lemma tracker_run_ok: "(tracker_step e k)\<^sup>*\<^sup>* w w' \<Longrightarrow> tracker_ok (tr w k) \<Longrightarrow> tracker_ok (tr w' k)"
  by (induction rule: rtranclp_induct) (auto intro: tracker_step_ok)

lemma btTracker_ok: "tracker_ok (btTracker e url junk)"
  by (simp add: btTracker_def tracker_ok_def flags_ok_def connected_t_def)

text \<open>
  C8: the states of a tracker.  Whatever is done with a new tracker, whatever the trackers answer and the operating system
  does: it has a socket exactly while it is connecting or connected; an original URL is kept aside only then; a finished
  tracker was told to stop, is not to be restarted and does not count as announced; a restart is pending only while an
  announced tracker still has to be told.  \<^verbatim>\<open>IntervalCheck\<close> never puts an invalid socket into the sets for \<^verbatim>\<open>select\<close>.
\<close>

theorem tracker_states:
  assumes "tr w k = btTracker e url junk" and "(tracker_step e k)\<^sup>*\<^sup>* w w'"
  shows "(connected_t (tr w' k) \<longleftrightarrow> t_sock (tr w' k) \<noteq> INVALID_SOCKET) \<and>
    (t_redirect (tr w' k) \<noteq> None \<longrightarrow> connected_t (tr w' k)) \<and>
    (t_status (tr w' k) = DT_TRACKER_FINISHED \<longrightarrow> t_f_stop (tr w' k) \<and> \<not> t_f_restart (tr w' k) \<and> \<not> t_f_started (tr w' k)) \<and>
    (t_f_restart (tr w' k) \<longrightarrow> t_f_stop (tr w' k) \<and> (t_f_started (tr w' k) \<or> connected_t (tr w' k))) \<and>
    (\<forall>fs r fs' w''. IntervalCheck_t e k fs w' = Some (r, fs', w'') \<longrightarrow> INVALID_SOCKET \<notin> fd_r fs \<union> fd_w fs \<longrightarrow>
       INVALID_SOCKET \<notin> fd_r fs' \<union> fd_w fs')"
proof -
  have "tracker_ok (tr w' k)" using tracker_run_ok[OF assms(2)] assms(1) btTracker_ok by simp
  then show ?thesis using IntervalCheck_cases by (auto simp: tracker_ok_def flags_ok_def)
qed

theorem tracker_states_witness:
  "let w = upd_t 0 (Stop_t 120) (upd_t 0 (\<lambda>_. btTracker ex_env [0x75] ex_tracker) ex_world)
   in connected_t (tr w 0) \<longleftrightarrow> t_sock (tr w 0) \<noteq> INVALID_SOCKET"
proof -
  let ?w = "upd_t 0 (\<lambda>_. btTracker ex_env [0x75] ex_tracker) ex_world"
  have "tracker_step ex_env 0 ?w (upd_t 0 (Stop_t (w_now ?w)) ?w)" by (rule tracker_step.stop)
  then have "(tracker_step ex_env 0)\<^sup>*\<^sup>* ?w (upd_t 0 (Stop_t 120) ?w)" by (simp add: ex_world_def)
  from tracker_states[OF _ this] show ?thesis by simp
qed

section \<open>The buffers of the request\<close>

lemma length_ascii [simp]: "length (ascii s) = length s"
  by (simp add: ascii_def)

lemma length_u64: "length (dec_nat (unat (x :: u64))) \<le> 20"
  using dec_nat_length[of "unat x" 19] unat_u64_lt[of x] by (auto intro: order.strict_trans)

lemma length_u16: "length (dec_nat (unat (x :: u16))) \<le> 5"
proof -
  have "unat x < 2 ^ LENGTH(16)" by (rule unsigned_less)
  then show ?thesis using dec_nat_length[of "unat x" 4] by simp
qed

lemma length_s32: "length (dec_int (sint (x :: u32))) \<le> 11"
proof -
  have "- 2147483648 \<le> sint x" "sint x < 2147483648" using sint_range_size[of x] by (simp_all add: word_size)
  then have "nat (sint x) < 10 ^ Suc 9" "nat (- sint x) < 10 ^ Suc 9" by auto
  from dec_nat_length[OF this(1)] dec_nat_length[OF this(2)] show ?thesis by (auto simp: dec_int_def)
qed

lemma length_url20: "length (url20 bs) \<le> 60"
proof -
  have "length (urlencode_loop b) \<le> 3 * length b" for b
    by (induction b rule: urlencode_loop.induct) (auto simp: url_encode_char_def)
  from this[of "take 20 bs"] show ?thesis by (simp add: url20_def urlencode_def)
qed

lemma event_text_length: "length (event_text ev) \<le> 16"
  by (cases ev) (simp_all add: event_text_def)

lemma request_text_fits:
  assumes "length tid \<le> 20"
  shows "length (request_text e sp tid ev ul dl lb) + 1 \<le> length (sp_request sp) + length (sp_host sp) + length (cfg_user_agent (e_net e)) + 256"
  using assms length_u64[of ul] length_u64[of dl] length_u64[of lb] length_s32[of "cfg_max_peers (e_net e)"] event_text_length[of ev]
  by (simp add: request_text_def CRLF_def)

lemma SendRequest_returns:
  assumes sp: "t_spec (tr w k) = Some sp" and "length (t_trackerid (tr w k)) \<le> 20"
  shows "\<exists>r w'. SendRequest_t e k w = Some (r, w') \<and> (r = 0 \<or> r = -1)"
proof -
  obtain ok w1 where a: "ask n_new e w = (ok, w1)" by force
  obtain ev t where ev: "announce_event (IsFull_c w1) (r_count_bytes (w_self_dl w1)) (tr w1 k) = (ev, t)" by force
  obtain n w2 where dl: "GetTotalDL (upd_t k (\<lambda>_. t) w1) = (n, w2)" by force
  have "length (t_trackerid t) \<le> 20" using event_alike[OF ev] askE[OF a] assms(2) by simp
  note F = request_text_fits[OF this, of e sp ev "GetTotalUL w2" n "c_left_bytes (w_content w2)"]
  obtain rr out b where pf: "PutFlush (e_buf_mem e) (t_sk_out t) (request_text e sp (t_trackerid t) ev (GetTotalUL w2) n (c_left_bytes (w_content w2)))
      (t_request_buffer t) = (rr, out, b)" by (metis prod_cases3)
  show ?thesis using F unfolding SendRequest_t_def sp option.case a prod.case ev Let_def dl pf by (auto split: if_splits)
qed

lemma base_request_fits:
  assumes "length key \<le> 8" and "\<forall>ip. cfg_public_ip (e_net e) = Some ip \<longrightarrow> length ip \<le> 83" and "\<And>a. length (n_inet_ntoa (e_net e) a) \<le> 15"
  shows "length (base_request e path key w) + 1 \<le> length path + 256"
proof -
  have "length (public_ip e w) \<le> 87" using assms(2) assms(3)[of "fst (w_self_sin w)"] by (auto simp: public_ip_def split: option.splits)
  then show ?thesis
    using assms(1) length_url20[of "GetInfoHash w"] length_url20[of "GetPeerId w"] length_u16[of "cfg_listen_port (e_net e)"]
    by (simp add: base_request_def)
qed

text \<open>
  C11: the fixed buffers of the requests are large enough.  \<^verbatim>\<open>SendRequest\<close> returns, whatever the lengths of path, host and user
  agent, the event and the numbers, as long as the tracker id has at most 20 bytes; \<^verbatim>\<open>BuildBaseRequest\<close> returns as long
  as the configured public address has at most 83 characters.
\<close>

theorem announce_fits:
  assumes "t_spec (tr w k) = Some sp" and "length (t_trackerid (tr w k)) \<le> 20" and "length (t_key (tr w k)) \<le> 8"
    and "case cfg_public_ip (e_net e) of None \<Rightarrow> True | Some ip \<Rightarrow> length ip \<le> 83" and "\<And>a. length (n_inet_ntoa (e_net e) a) \<le> 15"
  shows "(\<exists>r w'. SendRequest_t e k w = Some (r, w') \<and> (r = 0 \<or> r = -1)) \<and>
    (\<exists>r w'. BuildBaseRequest e k w = Some (r, w') \<and> (r = 0 \<or> r = -1))"
proof -
  have ip: "\<forall>ip. cfg_public_ip (e_net e) = Some ip \<longrightarrow> length ip \<le> 83" using assms(4) by (auto split: option.splits)
  have F: "length (base_request e path (t_key (tr w k)) v) + 1 \<le> length path + 256" for path v
    by (rule base_request_fits[OF assms(3) ip assms(5)])
  obtain ok w1 where a: "ask n_new e w = (ok, w1)" by force
  have "tr w1 k = tr w k" using askE[OF a] by simp
  then have "\<exists>r w'. BuildBaseRequest e k w = Some (r, w') \<and> (r = 0 \<or> r = -1)"
    using F[of "sp_request sp" w1] by (auto simp: BuildBaseRequest_def assms(1) a Let_def split: prod.splits)
  then show ?thesis using SendRequest_returns[OF assms(1,2)] by simp
qed

theorem announce_fits_witness:
  "\<exists>r w'. SendRequest_t ex_env 0 ex_world = Some (r, w') \<and> (r = 0 \<or> r = -1)"
  using announce_fits[of ex_world 0 "\<lparr>sp_url = [0x75], sp_host = [0x68], sp_request = [0x2F], sp_port = 80\<rparr>" ex_env]
  by (simp add: ex_world_def ex_multitracker_def ex_tracker_def ex_env_def ex_net_def)

section \<open>A tracker that is told to stop\<close>

lemma Connect_returns:
  assumes sp: "t_spec (tr w k) = Some sp" and "length (t_trackerid (tr w k)) \<le> 20"
  shows "\<exists>r w'. Connect e k w = Some (r, w')"
proof -
  define w1 where "w1 = upd_t k (\<lambda>t. t\<lparr>t_result := DT_NORMAL, t_last_timestamp := w_now w\<rparr>) w"
  have sp1: "t_spec (tr w1 k) = Some sp" using sp by (simp add: w1_def)
  obtain sk w2 where o: "open_sock e k w1 = (sk, w2)" by force
  obtain bound w3 where b: "(if cfg_listen_ip (e_net e) \<noteq> 0 then ask n_bind e w2 else (True, w2)) = (bound, w3)" by force
  obtain ok w4 where c: "ask n_nonblock e w3 = (ok, w4)" by force
  obtain rc w5 where d: "ask n_connect e w4 = (rc, w5)" by force
  have w2: "t_spec (tr w2 k) = Some sp" "length (t_trackerid (tr w2 k)) \<le> 20"
    using o assms by (auto simp: open_sock_def ask_def Let_def w1_def)
  have "tr w3 k = tr w2 k" using b askE[of n_bind e w2 bound w3] by (auto split: if_splits)
  then have "tr w5 k = tr w2 k" using askE[OF c] askE[OF d] by simp
  then obtain x w6 where s: "SendRequest_t e k w5 = Some (x, w6)" using SendRequest_returns[of w5 k sp e] w2 by auto
  show ?thesis unfolding Connect_def w1_def[symmetric] Let_def sp1 option.case o prod.case b c d s by simp
qed

lemma IntervalCheck_returns:
  assumes "t_spec (tr w k) \<noteq> None" and "length (t_trackerid (tr w k)) \<le> 20"
  shows "\<exists>r fs' w'. IntervalCheck_t e k fs w = Some (r, fs', w')"
proof -
  define w1 where "w1 = (if IsFull_c w \<and> \<not> t_f_completed (tr w k) \<and> 0 < r_count_bytes (w_self_dl w)
    then upd_t k (\<lambda>t. t\<lparr>t_interval := 0\<rparr>) w else w)"
  define w2 where "w2 = upd_t k (\<lambda>t. t\<lparr>t_prevpeers := w_peers_count w1\<rparr>) w1"
  have "t_spec (tr w2 k) = t_spec (tr w k)" "t_trackerid (tr w2 k) = t_trackerid (tr w k)" by (simp_all add: w2_def w1_def)
  then obtain sp where "t_spec (tr w2 k) = Some sp" "length (t_trackerid (tr w2 k)) \<le> 20" using assms by force
  then obtain r w3 where "Connect e k w2 = Some (r, w3)" using Connect_returns by blast
  then show ?thesis unfolding IntervalCheck_t_def w1_def[symmetric] Let_def w2_def[symmetric] by simp
qed

text \<open>The rounds of the main loop and what happens elsewhere.\<close>

inductive exchange_step :: "env \<Rightarrow> nat \<Rightarrow> world \<Rightarrow> world \<Rightarrow> bool" for e k where
  interval: "IntervalCheck_t e k fs w = Some (r, fs', w') \<Longrightarrow> exchange_step e k w w'"
| socket: "SocketReady_t e k fs w = Some (r, fs', w') \<Longrightarrow> exchange_step e k w w'"
| elsewhere: "tr w' k = tr w k \<Longrightarrow> exchange_step e k w w'"

lemma exchange_fine: "exchange_step e k w w' \<Longrightarrow> tracker_ok (tr w k) \<Longrightarrow> fine (tr w k) (tr w' k)"
proof (induction rule: exchange_step.induct)
  case (interval fs w r fs' w')
  then show ?case using IntervalCheck_cases by blast
next
  case (socket fs w r fs' w')
  then show ?case using SocketReady_fine by blast
next
  case (elsewhere w' w)
  then show ?case using fine_alike[OF alike_refl, of "tr w k"] by simp
qed

lemma exchanges_fine: "(exchange_step e k)\<^sup>*\<^sup>* w w' \<Longrightarrow> tracker_ok (tr w k) \<Longrightarrow> fine (tr w k) (tr w' k)"
proof (induction rule: rtranclp_induct)
  case base
  then show ?case by (simp add: fine_alike)
next
  case (step y z)
  then have "fine (tr w k) (tr y k)" by blast
  moreover from this have "fine (tr y k) (tr z k)" using exchange_fine step by (auto simp: fine_def)
  ultimately show ?case by (rule fine_trans)
qed

lemma not_free:
  assumes "tracker_ok t" "t_status t \<noteq> DT_TRACKER_FREE"
  shows "t_status t = DT_TRACKER_FINISHED \<or> connected_t t \<and> t_sock t \<noteq> INVALID_SOCKET"
  using assms by (cases "t_status t") (auto simp: tracker_ok_def connected_t_def)

lemma response_ends:
  assumes "SocketReady_t e k fs w = Some (r, fs', w')" and ok: "tracker_ok (tr w k)" "quits (tr w k)"
    and "t_status (tr w k) = DT_TRACKER_READY" "t_sock (tr w k) \<in> fd_r fs" "CheckResponse e k w = Some (res, v)" "res \<noteq> DT_NORMAL"
  shows "t_status (tr w' k) = DT_TRACKER_FINISHED"
proof -
  have c: "connected_t (tr w k)" using assms(4) by (simp add: connected_t_def)
  then have s: "t_sock (tr w k) \<noteq> INVALID_SOCKET" using ok by (simp add: tracker_ok_def)
  obtain w1 where rr: "ready_read e k w = Some w1" using assms(6) by (simp add: ready_read_def Let_def)
  have "\<not> connected_t (tr w1 k)" "t_sock (tr w1 k) = INVALID_SOCKET"
    using rr assms(6,7) Reset_ends by (cases res; auto simp: ready_read_def Let_def)+
  moreover from this have "w' = w1" using assms(1,4,5) s rr unfolding SocketReady_t_def Let_def by auto
  moreover have "fine (tr w k) (tr w1 k)" using ready_read_fine[OF rr ok(1) c] by simp
  ultimately show ?thesis using ok(2) c by (cases "t_status (tr w' k)") (auto simp: fine_def connected_t_def)
qed

text \<open>
  C9: a tracker that was told to stop comes to an end.  When its interval is over, the next \<^verbatim>\<open>IntervalCheck\<close> returns and makes
  the attempt; from then on, in every round, the tracker is finished or still in that one exchange, with a socket, and never
  waits for another attempt; and when the response has ended, with whatever result, \<^verbatim>\<open>SocketReady\<close> leaves it finished.
\<close>

theorem stopped_tracker_finishes:
  assumes ok: "tracker_ok (tr w k)" "quits (tr w k)" "t_spec (tr w k) \<noteq> None" "length (t_trackerid (tr w k)) \<le> 20"
    and "0 \<le> w_now w - t_last_timestamp (tr w k)" "t_interval (tr w k) \<le> w_now w - t_last_timestamp (tr w k)"
  shows "\<exists>r fs' w1. IntervalCheck_t e k fs w = Some (r, fs', w1) \<and>
    (\<forall>w2. (exchange_step e k)\<^sup>*\<^sup>* w1 w2 \<longrightarrow>
       (t_status (tr w2 k) = DT_TRACKER_FINISHED \<or> connected_t (tr w2 k) \<and> t_sock (tr w2 k) \<noteq> INVALID_SOCKET) \<and>
       (\<forall>fs r fs' w3 res v. SocketReady_t e k fs w2 = Some (r, fs', w3) \<longrightarrow> t_status (tr w2 k) = DT_TRACKER_READY \<longrightarrow>
          t_sock (tr w2 k) \<in> fd_r fs \<longrightarrow> CheckResponse e k w2 = Some (res, v) \<longrightarrow> res \<noteq> DT_NORMAL \<longrightarrow>
          t_status (tr w3 k) = DT_TRACKER_FINISHED))"
proof -
  obtain r fs' w1 where i: "IntervalCheck_t e k fs w = Some (r, fs', w1)" using IntervalCheck_returns[OF ok(3,4)] by blast
  note C = IntervalCheck_cases[OF i ok(1)]
  have w1: "tracker_ok (tr w1 k)" "quits (tr w1 k)" "t_status (tr w1 k) \<noteq> DT_TRACKER_FREE" using C assms by (auto simp: fine_def)
  have "tracker_ok (tr w2 k) \<and> quits (tr w2 k) \<and> t_status (tr w2 k) \<noteq> DT_TRACKER_FREE" if "(exchange_step e k)\<^sup>*\<^sup>* w1 w2" for w2
    using exchanges_fine[OF that w1(1)] w1 by (auto simp: fine_def)
  then show ?thesis using i not_free response_ends by metis
qed

definition ex_stopping :: world where
  "ex_stopping = upd_t 0 (\<lambda>_. ex_tracker\<lparr>t_f_stop := True, t_f_started := True\<rparr>) ex_world"

definition ex_fds :: fds where
  "ex_fds = \<lparr>fd_n = 0, fd_r = {}, fd_w = {}, fd_rnext = {}, fd_wnext = {}\<rparr>"

theorem stopped_tracker_finishes_witness:
  "\<exists>r fs' w1. IntervalCheck_t ex_env 0 ex_fds ex_stopping = Some (r, fs', w1) \<and>
     (t_status (tr w1 0) = DT_TRACKER_FINISHED \<or> connected_t (tr w1 0) \<and> t_sock (tr w1 0) \<noteq> INVALID_SOCKET)"
proof -
  have "tracker_ok (tr ex_stopping 0)" "quits (tr ex_stopping 0)" "t_spec (tr ex_stopping 0) \<noteq> None"
    "length (t_trackerid (tr ex_stopping 0)) \<le> 20" "0 \<le> w_now ex_stopping - t_last_timestamp (tr ex_stopping 0)"
    "t_interval (tr ex_stopping 0) \<le> w_now ex_stopping - t_last_timestamp (tr ex_stopping 0)"
    by (simp_all add: ex_stopping_def ex_tracker_def tracker_ok_def flags_ok_def connected_t_def quits_def ex_world_def)
  from stopped_tracker_finishes[OF this, of ex_env ex_fds] show ?thesis by blast
qed

section \<open>A redirection that cannot be followed\<close>

text \<open>
  When the tracker it is redirected to cannot be reached, a tracker is left without its \<^verbatim>\<open>m_spec\<close>, and the next attempt to
  connect follows a null pointer.
\<close>

lemma redirect_loses_spec:
  assumes "follow_redirect e code loc k w = Some (DT_FAILURE, w')" and mem: "\<And>j. n_new (e_net e) j"
    and "UrlSplit (redirect_url loc) = Inr (host, port, path)"
  shows "t_spec (tr w' k) = None \<and> Connect e k w' = None"
proof -
  obtain w1 where a: "ask n_new e w = (True, w1)" using mem by (simp add: ask_def)
  obtain w2 where b: "ask n_new e w1 = (True, w2)" using mem by (simp add: ask_def)
  define w4 where "w4 = upd_t k (\<lambda>t. t\<lparr>t_redirect := t_spec t, t_spec := Some \<lparr>sp_url = redirect_url loc, sp_host = host,
      sp_request = path, sp_port = port\<rparr>\<rparr>) (upd_t k (Reset_t (w_now w2) 15) w2)"
  note unf = follow_redirect_def a Let_def prod.case assms(3) sum.case b w4_def[symmetric]
  obtain r w5 where z: "BuildBaseRequest e k w4 = Some (r, w5)" using assms(1) unfolding unf by (auto split: option.splits)
  then have r: "r = 0" using mem by (auto simp: BuildBaseRequest_def ask_def Let_def split: option.splits if_splits)
  define w6 where "w6 = (if code = 301 then upd_t k (\<lambda>t. t\<lparr>t_redirect := None\<rparr>) w5 else w5)"
  obtain v w7 where "Connect e k w6 = Some (v, w7)" using assms(1) r unfolding unf z option.case w6_def by (auto split: option.splits)
  then have "w' = upd_t k (\<lambda>t. t\<lparr>t_spec := t_redirect t, t_redirect := None\<rparr>) (upd_t k (Reset_t (w_now w7) 15) w7)"
    using assms(1) r unfolding unf z option.case w6_def[symmetric] by (auto split: if_splits)
  then have "t_spec (tr w' k) = None" using Reset_ends(3) by simp
  then show ?thesis by (simp add: Connect_def Let_def)
qed

end
