(* ===== verification/Multitracker.thy ===== *)
theory Multitracker
  imports Tracker_Ok
begin

text \<open>
  The tiers of trackers, \<^verbatim>\<open>MultiTracker\<close> of \<^verbatim>\<open>src/tracker.cpp\<close>.

  \<open>mt_tiers\<close> lists the tiers, each the numbers of its trackers; the first node of a tier stays first while the trackers in
  the nodes change places.  \<^verbatim>\<open>m_ntiers\<close>, the iterator of \<^verbatim>\<open>GetTier\<close> and \<^verbatim>\<open>GetNext\<close> and the texts for the console are left out.
  \<^term>\<open>None\<close> is, as for one tracker, a run the language leaves undefined.
\<close>

definition upd_mt :: "(multitracker \<Rightarrow> multitracker) \<Rightarrow> world \<Rightarrow> world" where
  "upd_mt f w = w\<lparr>w_tracker := f (w_tracker w)\<rparr>"

abbreviation tiers :: "world \<Rightarrow> nat list list" where
  "tiers w \<equiv> mt_tiers (w_tracker w)"

section \<open>Adding trackers\<close>

text \<open>The number of a new tracker.\<close>

definition fresh_t :: "world \<Rightarrow> nat" where
  "fresh_t w = foldr (\<lambda>k n. max (k + 1) n) (concat (tiers w)) 0"

text \<open>The first node exchanges its tracker with the others' as the random bits say.\<close>

fun shuffle_tier :: "(nat \<Rightarrow> bool) \<Rightarrow> nat \<Rightarrow> nat \<Rightarrow> nat list \<Rightarrow> nat list" where
  "shuffle_tier rb j h [] = [h]"
| "shuffle_tier rb j h (p # ps) =
     (let (h, p) = (if rb j then (p, h) else (h, p)); t = shuffle_tier rb (j + 1) h ps in hd t # p # tl t)"

definition AddOneTracker :: "env \<Rightarrow> bytes \<Rightarrow> bool \<Rightarrow> world \<Rightarrow> int \<times> world" where
  "AddOneTracker e url new_tier w =
     (let (ok, w) = ask n_new e w; k = fresh_t w
      in if \<not> ok then (-1, w)
         else
           (let w' = upd_t k (btTracker e url) w
            in (0, if tiers w = [] then upd_mt (\<lambda>m. m\<lparr>mt_tiers := [[k]], mt_primary_url := url\<rparr>) w'
                   else if new_tier then upd_mt (\<lambda>m. m\<lparr>mt_tiers := tiers w @ [[k]]\<rparr>) w'
                   else
                     (let t = last (tiers w)
                      in (upd_mt (\<lambda>m. m\<lparr>mt_tiers := butlast (tiers w) @ [shuffle_tier (\<lambda>j. e_bits e j 0) (w_rnd w) (hd t) (k # tl t)]\<rparr>) w')
                           \<lparr>w_rnd := w_rnd w + length t\<rparr>))))"

text \<open>A list of URLs: \<^verbatim>\<open>\,\<close> stands for a comma, which \<^verbatim>\<open>0xff\<close> replaces while \<^verbatim>\<open>strtok\<close> splits.\<close>

fun unescape :: "bytes \<Rightarrow> bytes" where
  "unescape (c # d # s) = (if c = 92 \<and> d = 44 then 0xFF # unescape s else c # unescape (d # s))"
| "unescape s = s"

fun split_at :: "u8 \<Rightarrow> bytes \<Rightarrow> bytes list" where
  "split_at c [] = [[]]"
| "split_at c (d # s) = (let r = split_at c s in if d = c then [] # r else (d # hd r) # tl r)"

fun add_urls :: "env \<Rightarrow> bytes list \<Rightarrow> bool \<Rightarrow> world \<Rightarrow> int \<times> world" where
  "add_urls e [] new_tier w = (0, w)"
| "add_urls e (u # us) new_tier w =
     (let (r, w) = AddOneTracker e (map (\<lambda>c. if c = 0xFF then 44 else c) u) new_tier w
      in if r < 0 then (r, w) else add_urls e us False w)"

definition AddTracker :: "env \<Rightarrow> bytes \<Rightarrow> bool \<Rightarrow> world \<Rightarrow> (int \<times> world) option" where
  "AddTracker e url new_tier w =
     (if 44 \<in> set url then
        (let (ok, w) = ask n_new e w; us = filter (\<lambda>u. u \<noteq> []) (split_at 44 (unescape url))
         in if \<not> ok then Some (-1, w) else if us = [] then None else Some (add_urls e us new_tier w))
      else Some (AddOneTracker e url new_tier w))"

section \<open>Start\<close>

text \<open>The client's own address; \<open>hostname\<close> is what \<^verbatim>\<open>gethostname\<close> gives.\<close>

definition own_address :: "env \<Rightarrow> bytes option \<Rightarrow> world \<Rightarrow> world option" where
  "own_address e hostname w =
     (let n = e_net e; set_ip = (\<lambda>a w. w\<lparr>w_self_sin := SetIp (a, 0) (w_self_sin w)\<rparr>)
      in case cfg_public_ip n of
           Some ip \<Rightarrow> map_option (\<lambda>a. set_ip (fst a) w) (s2sin e ip 0)
         | None \<Rightarrow>
            (let w = (if cfg_listen_ip n \<noteq> 0 then set_ip (cfg_listen_ip n) w else w)
             in if cfg_listen_ip n \<noteq> 0 \<and> \<not> IsPrivateAddress (htonl (cfg_listen_ip n)) then Some w
                else Some (case Option.bind hostname (n_gethostbyname n) of
                             None \<Rightarrow> w
                           | Some a \<Rightarrow> (if \<not> IsPrivateAddress (htonl a) \<or> cfg_listen_ip n = 0 then set_ip a w else w))))"

text \<open>A bad tracker is removed, and a tier left empty too; for the first tier that follows the null \<^verbatim>\<open>pt\<close>.\<close>

fun init_tier :: "env \<Rightarrow> nat list \<Rightarrow> world \<Rightarrow> (nat list \<times> world) option" where
  "init_tier e [] w = Some ([], w)"
| "init_tier e (k # ks) w =
     (case Initial_t e k w of
        None \<Rightarrow> None
      | Some (r, w) \<Rightarrow> (case init_tier e ks w of None \<Rightarrow> None | Some (t, w) \<Rightarrow> Some (if r = 0 then k # t else t, w)))"

fun init_tiers :: "env \<Rightarrow> bool \<Rightarrow> nat list list \<Rightarrow> world \<Rightarrow> (nat list list \<times> world) option" where
  "init_tiers e first [] w = Some ([], w)"
| "init_tiers e first (t # ts) w =
     (case init_tier e t w of
        None \<Rightarrow> None
      | Some (t, w) \<Rightarrow>
         (if t = [] \<and> first then None
          else case init_tiers e False ts w of None \<Rightarrow> None | Some (ts, w) \<Rightarrow> Some (if t = [] then ts else t # ts, w)))"

definition Initial_mt :: "env \<Rightarrow> bytes option \<Rightarrow> world \<Rightarrow> (int \<times> world) option" where
  "Initial_mt e hostname w =
     (case own_address e hostname w of
        None \<Rightarrow> None
      | Some w \<Rightarrow>
         (case init_tiers e True (tiers w) w of
            None \<Rightarrow> None
          | Some (ts, w) \<Rightarrow> Some (if ts = [] then -1 else 0, upd_mt (\<lambda>m. m\<lparr>mt_tiers := ts\<rparr>) w)))"

section \<open>Queries and commands to all\<close>

definition each_t :: "(bttracker \<Rightarrow> bttracker) \<Rightarrow> nat list \<Rightarrow> world \<Rightarrow> world" where
  "each_t f ks w = fold (\<lambda>k. upd_t k f) ks w"

definition GetResult_mt :: "world \<Rightarrow> dt_result" where
  "GetResult_mt w =
     (let m = w_tracker w
      in if mt_result m = DT_NORMAL \<and> (\<exists>k \<in> set (concat (tiers w)). t_result (tr w k) = DT_FAILURE) then DT_FAILURE
         else mt_result m)"

fun status_of :: "dt_trackerstatus list \<Rightarrow> dt_trackerstatus \<Rightarrow> dt_trackerstatus" where
  "status_of [] status = status"
| "status_of (s # ss) status =
     (case s of
        DT_TRACKER_READY \<Rightarrow> s
      | DT_TRACKER_CONNECTING \<Rightarrow> status_of ss s
      | DT_TRACKER_FREE \<Rightarrow> status_of ss (if status = DT_TRACKER_FINISHED then s else status)
      | DT_TRACKER_FINISHED \<Rightarrow> status_of ss status)"

definition GetStatus_mt :: "world \<Rightarrow> dt_trackerstatus" where
  "GetStatus_mt w =
     (let all = status_of (map (\<lambda>k. t_status (tr w k)) (concat (tiers w))) DT_TRACKER_FINISHED
      in if mt_stop (w_tracker w) then all
         else case mt_tracker (w_tracker w) of
                None \<Rightarrow> all
              | Some k \<Rightarrow> (if t_result (tr w k) \<noteq> DT_FAILURE then t_status (tr w k) else all))"

definition Update_mt :: "world \<Rightarrow> world" where
  "Update_mt w = each_t Update_t (concat (tiers w)) w"

definition RestartTracker_mt :: "world \<Rightarrow> world" where
  "RestartTracker_mt w =
     each_t (RestartTracker_t (w_now w)) (concat (tiers w)) (upd_mt (\<lambda>m. m\<lparr>mt_tracker := None, mt_result := DT_NORMAL\<rparr>) w)"

definition IsRestarting_mt :: "world \<Rightarrow> bool" where
  "IsRestarting_mt w =
     (case mt_tracker (w_tracker w) of
        Some k \<Rightarrow> t_f_restart (tr w k)
      | None \<Rightarrow> (\<exists>k \<in> set (concat (tiers w)). t_f_restart (tr w k)))"

definition Stop_mt :: "world \<Rightarrow> world" where
  "Stop_mt w = each_t (Stop_t (w_now w)) (concat (tiers w)) (upd_mt (\<lambda>m. m\<lparr>mt_stop := True\<rparr>) w)"

definition GetSeedsCount_mt :: "world \<Rightarrow> u32" where
  "GetSeedsCount_mt w =
     (case mt_tracker (w_tracker w) of Some k \<Rightarrow> GetSeedsCount_t (IsFull_c w) (tr w k) | None \<Rightarrow> if IsFull_c w then 1 else 0)"

definition GetPeersCount_mt :: "world \<Rightarrow> u32" where
  "GetPeersCount_mt w =
     (case mt_tracker (w_tracker w) of Some k \<Rightarrow> GetPeersCount_t (IsFull_c w) (tr w k) | None \<Rightarrow> 1)"

section \<open>The rounds of the main loop\<close>

text \<open>Which trackers of a tier are worked on; \<open>pp\<close> is the tracker of the node before.\<close>

definition works_on :: "nat option \<Rightarrow> nat \<Rightarrow> world \<Rightarrow> bool" where
  "works_on pp k w \<longleftrightarrow> connected_t (tr w k) \<or> mt_tracker (w_tracker w) = Some k \<or> IsQuitting_t (tr w k) \<or>
     mt_tracker (w_tracker w) = None \<and> pp = None \<or>
     (case pp of None \<Rightarrow> False | Some j \<Rightarrow> t_result (tr w k) = DT_NORMAL \<and> t_result (tr w j) = DT_FAILURE)"

definition count_set :: "int \<Rightarrow> fds \<Rightarrow> world \<Rightarrow> world" where
  "count_set sk fs w =
     (if 0 \<le> sk then upd_mt (\<lambda>m. m\<lparr>mt_nset := mt_nset m + (if sk \<in> fd_r fs then 1 else 0) + (if sk \<in> fd_w fs then 1 else 0)\<rparr>) w else w)"

fun interval_tier :: "env \<Rightarrow> nat option \<Rightarrow> nat list \<Rightarrow> bool \<Rightarrow> int \<Rightarrow> fds \<Rightarrow> world \<Rightarrow> (bool \<times> int \<times> fds \<times> world) option" where
  "interval_tier e pp [] ok mx fs w = Some (ok, mx, fs, w)"
| "interval_tier e pp (k # ks) ok mx fs w =
     (if t_result (tr w k) \<noteq> DT_FAILURE \<and> t_status (tr w k) \<noteq> DT_TRACKER_FINISHED \<and> works_on pp k w then
        (case IntervalCheck_t e k fs w of
           None \<Rightarrow> None
         | Some (sk, fs, w) \<Rightarrow>
            (let w = count_set sk fs w
             in interval_tier e (Some k) ks (ok \<or> t_result (tr w k) \<noteq> DT_FAILURE) (max mx sk) fs w))
      else interval_tier e (Some k) ks ok mx fs w)"

definition exhausted :: "nat list \<Rightarrow> world \<Rightarrow> world" where
  "exhausted t w =
     (let w = each_t ClearResult t w
      in if mt_tracker (w_tracker w) = None \<or> mt_tracker (w_tracker w) = Some (hd t)
         then upd_mt (\<lambda>m. m\<lparr>mt_tracker := None, mt_result := DT_FAILURE\<rparr>) w else w)"

fun interval_tiers :: "env \<Rightarrow> nat list list \<Rightarrow> int \<Rightarrow> fds \<Rightarrow> world \<Rightarrow> (int \<times> fds \<times> world) option" where
  "interval_tiers e [] mx fs w = Some (mx, fs, w)"
| "interval_tiers e (t # ts) mx fs w =
     (case interval_tier e None t False mx fs w of
        None \<Rightarrow> None
      | Some (ok, mx, fs, w) \<Rightarrow> interval_tiers e ts mx fs (if ok then w else exhausted t w))"

definition IntervalCheck_mt :: "env \<Rightarrow> fds \<Rightarrow> world \<Rightarrow> (int \<times> fds \<times> world) option" where
  "IntervalCheck_mt e fs w = interval_tiers e (tiers w) (-1) fs w"

text \<open>
  Promotion.  The node \<open>p\<close> is unlinked from \<open>pp\<close> and put behind the first one, then the two exchange their trackers.
\<close>

definition promote :: "nat \<Rightarrow> nat \<Rightarrow> nat list \<Rightarrow> nat list" where
  "promote pp p xs = [xs ! p, xs ! 0] @ tl (take (pp + 1) xs @ drop (p + 1) xs)"

text \<open>Is the tracker taken as the one to use?  \<open>k\<close> is the tracker the node \<open>p\<close> has now.\<close>

definition take_tracker :: "nat \<Rightarrow> world \<Rightarrow> world" where
  "take_tracker k w =
     (let n = GetPeersCount_t (IsFull_c w) (tr w k)
      in if (case mt_tracker (w_tracker w) of
               None \<Rightarrow> True
             | Some j \<Rightarrow> t_result (tr w j) = DT_FAILURE \<or>
                 0 < n \<and> 3 * unat (GetPeersCount_t (IsFull_c w) (tr w j)) \<le> 2 * unat n)
         then upd_mt (\<lambda>m. m\<lparr>mt_tracker := Some k, mt_result := DT_SUCCESS\<rparr>) w else w)"

definition reported :: "nat \<Rightarrow> world \<Rightarrow> world" where
  "reported k w =
     upd_mt (\<lambda>m. m\<lparr>mt_report_time := t_report_time (tr w k), mt_report_dl := t_report_dl (tr w k), mt_report_ul := t_report_ul (tr w k)\<rparr>) w"

text \<open>The result is the tier, where its node \<open>p\<close> is now, the position of the next node, and the world.\<close>

definition succeeded :: "nat \<Rightarrow> nat \<Rightarrow> nat list \<Rightarrow> world \<Rightarrow> nat list \<times> nat \<times> nat \<times> world" where
  "succeeded pp p xs w =
     (let w = reported (xs ! p) w
      in if t_status (tr w (xs ! p)) = DT_TRACKER_FINISHED then (xs, p, p + 1, w)
         else if p = 0 then (xs, 0, 1, take_tracker (xs ! 0) w)
         else (let ys = promote pp p xs in (ys, 1, pp + 2, take_tracker (ys ! 1) (each_t ClearResult (tl ys) w))))"

lemma succeeded_shorter:
  assumes "succeeded pp p xs w = (ys, q, nx, w')" "p < length xs"
  shows "length ys - nx < length xs - p"
proof -
  have "length (promote pp p xs) - (pp + 2) < length xs - p" using assms(2) by (auto simp: promote_def)
  then show ?thesis using assms by (auto simp: succeeded_def Let_def split: if_splits)
qed

function ready_tier :: "env \<Rightarrow> nat \<Rightarrow> nat \<Rightarrow> nat list \<Rightarrow> fds \<Rightarrow> world \<Rightarrow> (nat list \<times> fds \<times> world) option" where
  "ready_tier e pp p xs fs w =
     (if length xs \<le> p \<or> fd_n fs = 0 \<or> mt_nset (w_tracker w) = 0 then Some (xs, fs, w)
      else if t_status (tr w (xs ! p)) = DT_TRACKER_FREE then ready_tier e p (p + 1) xs fs w
      else
        (case SocketReady_t e (xs ! p) fs w of
           None \<Rightarrow> None
         | Some (r, fs', w') \<Rightarrow>
            (case (if r = 0 \<and> t_result (tr w' (xs ! p)) = DT_SUCCESS then succeeded pp p xs w' else (xs, p, p + 1, w')) of
               (ys, q, nx, w') \<Rightarrow>
                 ready_tier e q nx ys fs' (upd_mt (\<lambda>m. m\<lparr>mt_nset := mt_nset m - (fd_n fs - fd_n fs')\<rparr>) w'))))"
  by pat_completeness auto
termination
  by (relation "measure (\<lambda>(_, _, p, xs, _). length xs - p)") (auto split: if_splits dest: succeeded_shorter[OF sym])

declare ready_tier.simps [simp del]

fun ready_tiers :: "env \<Rightarrow> nat list list \<Rightarrow> fds \<Rightarrow> world \<Rightarrow> (nat list list \<times> fds \<times> world) option" where
  "ready_tiers e [] fs w = Some ([], fs, w)"
| "ready_tiers e (t # ts) fs w =
     (if fd_n fs = 0 \<or> mt_nset (w_tracker w) = 0 then Some (t # ts, fs, w)
      else
        (case ready_tier e 0 0 t fs w of
           None \<Rightarrow> None
         | Some (t, fs, w) \<Rightarrow> (case ready_tiers e ts fs w of None \<Rightarrow> None | Some (ts, fs, w) \<Rightarrow> Some (t # ts, fs, w))))"

definition SocketReady_mt :: "env \<Rightarrow> fds \<Rightarrow> world \<Rightarrow> (fds \<times> world) option" where
  "SocketReady_mt e fs w =
     (case ready_tiers e (tiers w) fs w of
        None \<Rightarrow> None
      | Some (ts, fs, w) \<Rightarrow> Some (fs, upd_mt (\<lambda>m. m\<lparr>mt_tiers := ts\<rparr>) w))"

section \<open>Tiers keep their trackers\<close>

lemma promote_permutes:
  assumes "0 < p" "p < length xs"
  shows "mset (promote (p - 1) p xs) = mset xs" "hd (promote (p - 1) p xs) = xs ! p"
proof -
  obtain x ys where xs: "xs = x # ys" using assms by (cases xs) auto
  obtain q where q: "p = Suc q" using assms(1) by (cases p) auto
  have "mset ys = mset (take q ys) + {#ys ! q#} + mset (drop (Suc q) ys)"
    using assms id_take_nth_drop[of q ys] by (simp add: xs q) (metis add_mset_add_single mset.simps(2) mset_append union_mset_add_mset_left union_mset_add_mset_right)
  then show "mset (promote (p - 1) p xs) = mset xs" by (simp add: promote_def xs q)
  show "hd (promote (p - 1) p xs) = xs ! p" by (simp add: promote_def)
qed

text \<open>With a stale \<open>pp\<close> trackers are lost: a second success in the same pass, at the last of four nodes.\<close>

lemma promote_loses: "promote 1 3 [10, 11, 12, 13] = [13, 10, 11]"
  by (simp add: promote_def)

lemma promote_sub:
  assumes "p < length xs" "0 < p" "pp < p" "distinct xs"
  shows "distinct (promote pp p xs)" "set (promote pp p xs) \<subseteq> set xs"
proof -
  obtain x ys where xs: "xs = x # ys" using assms by (cases xs) auto
  obtain q where q: "p = Suc q" using assms(2) by (cases p) auto
  have P: "promote pp p xs = ys ! q # x # take pp ys @ drop (Suc q) ys" using assms by (simp add: promote_def xs q)
  have "ys = take q ys @ ys ! q # drop (Suc q) ys" using assms by (intro id_take_nth_drop) (simp add: xs q)
  then have D: "distinct (take q ys @ ys ! q # drop (Suc q) ys)" using assms(4) by (simp add: xs)
  have T: "take pp ys = take pp (take q ys)" using assms(3) by (simp add: q min_def)
  then have "set (take pp ys) \<subseteq> set (take q ys)" by (metis set_take_subset)
  moreover have "distinct (take pp ys)" using assms(4) by (simp add: xs)
  ultimately show "distinct (promote pp p xs)" using D assms unfolding P by (auto simp: xs q dest: in_set_takeD in_set_dropD)
  show "set (promote pp p xs) \<subseteq> set xs" using assms unfolding P by (auto simp: xs q dest: in_set_takeD in_set_dropD)
qed

text \<open>A tier after a pass: what \<^verbatim>\<open>SocketReady\<close> may do with it.\<close>

definition tier_kept :: "nat list \<Rightarrow> nat list \<Rightarrow> bool" where
  "tier_kept xs ys \<longleftrightarrow> distinct ys \<and> set ys \<subseteq> set xs \<and> (xs \<noteq> [] \<longrightarrow> ys \<noteq> [])"

lemma tier_kept_trans: "tier_kept a b \<Longrightarrow> tier_kept b c \<Longrightarrow> tier_kept a c"
  by (auto simp: tier_kept_def)

lemma succeeded_kept:
  assumes "succeeded pp p xs w = (ys, q, nx, w')" "p < length xs" "pp < p \<or> p = 0" "distinct xs"
  shows "tier_kept xs ys \<and> q < nx"
proof -
  have "promote pp p xs \<noteq> []" by (simp add: promote_def)
  then show ?thesis using assms promote_sub[OF assms(2) _ _ assms(4), of pp]
    by (auto simp: succeeded_def Let_def tier_kept_def split: if_splits)
qed

lemma ready_tier_kept:
  "ready_tier e pp p xs fs w = Some (ys, fs', w') \<Longrightarrow> pp < p \<or> p = 0 \<Longrightarrow> distinct xs \<Longrightarrow> tier_kept xs ys"
proof (induction e pp p xs fs w rule: ready_tier.induct)
  case (1 e pp p xs fs w)
  show ?case
  proof (cases "length xs \<le> p \<or> fd_n fs = 0 \<or> mt_nset (w_tracker w) = 0")
    case True
    then show ?thesis using "1.prems" by (subst (asm) ready_tier.simps) (simp add: tier_kept_def)
  next
    case False
    show ?thesis
    proof (cases "t_status (tr w (xs ! p)) = DT_TRACKER_FREE")
      case True
      then have "ready_tier e p (p + 1) xs fs w = Some (ys, fs', w')" using "1.prems"(1) False by (subst (asm) ready_tier.simps) simp
      then show ?thesis using "1.IH"(1)[OF False True] "1.prems" by simp
    next
      case busy: False
      obtain r fs1 w1 where S: "SocketReady_t e (xs ! p) fs w = Some (r, fs1, w1)"
        using "1.prems"(1) False busy by (subst (asm) ready_tier.simps) (auto split: option.splits)
      obtain zs q nx w2 where z: "(if r = 0 \<and> t_result (tr w1 (xs ! p)) = DT_SUCCESS then succeeded pp p xs w1 else (xs, p, p + 1, w1)) = (zs, q, nx, w2)"
        by (metis prod_cases4)
      have R: "ready_tier e q nx zs fs1 (upd_mt (\<lambda>m. m\<lparr>mt_nset := mt_nset m - (fd_n fs - fd_n fs1)\<rparr>) w2) = Some (ys, fs', w')"
        using "1.prems"(1) False busy S z by (subst (asm) ready_tier.simps) simp
      have k: "tier_kept xs zs \<and> q < nx"
        using z succeeded_kept[of pp p xs w1 zs q nx w2] "1.prems"(2,3) False by (auto simp: tier_kept_def split: if_splits)
      have "tier_kept zs ys"
        by (rule "1.IH"(2)[OF False busy S refl refl z[symmetric] refl refl R]) (use k in \<open>auto simp: tier_kept_def\<close>)
      then show ?thesis using k tier_kept_trans by blast
    qed
  qed
qed

lemma ready_tiers_kept:
  assumes "ready_tiers e ts fs w = Some (us, fs', w')" "\<forall>t\<in>set ts. distinct t"
  shows "list_all2 tier_kept ts us"
  using assms
proof (induction ts arbitrary: us fs w fs' w')
  case (Cons t ts)
  have K: "list_all2 tier_kept (t # ts) (t # ts)" using Cons.prems(2) by (auto simp: list_all2_same tier_kept_def)
  show ?case
  proof (cases "fd_n fs = 0 \<or> mt_nset (w_tracker w) = 0")
    case True
    then show ?thesis using Cons.prems(1) K by auto
  next
    case False
    then obtain t' fs1 w1 us' where "ready_tier e 0 0 t fs w = Some (t', fs1, w1)" "ready_tiers e ts fs1 w1 = Some (us', fs', w')" "us = t' # us'"
      using Cons.prems(1) by (auto split: option.splits)
    then show ?thesis using Cons.IH[of fs1 w1 us' fs' w'] Cons.prems(2) ready_tier_kept[of e 0 0 t fs w t' fs1 w1] by simp
  qed
qed simp

lemma kept_tiers:
  assumes "list_all2 tier_kept ts us"
  shows "set (concat us) \<subseteq> set (concat ts) \<and> length us = length ts \<and> ([] \<notin> set ts \<longrightarrow> [] \<notin> set us) \<and> (distinct (concat ts) \<longrightarrow> distinct (concat us))"
  using assms by (induction rule: list_all2_induct) (auto simp: tier_kept_def)



text \<open>After a promotion the tracker taken is the former head of the tier, not the one that succeeded.\<close>

lemma promotion_takes_head:
  assumes "0 < p" "t_status (tr w (xs ! p)) \<noteq> DT_TRACKER_FINISHED" "mt_tracker (w_tracker w) = None"
  shows "mt_tracker (w_tracker (snd (snd (snd (succeeded (p - 1) p xs w))))) = Some (xs ! 0)"
proof -
  have e: "mt_tracker (w_tracker (each_t f ks v)) = mt_tracker (w_tracker v)" for f ks v
    by (induction ks arbitrary: v) (simp_all add: each_t_def upd_t_def)
  have r: "tr (reported k w) j = tr w j" "mt_tracker (w_tracker (reported k w)) = mt_tracker (w_tracker w)" for k j
    by (simp_all add: reported_def upd_mt_def)
  show ?thesis using assms by (simp add: succeeded_def Let_def r take_tracker_def e) (simp add: upd_mt_def promote_def)
qed

end
