(* ===== verification/Tracker_Resp.thy ===== *)
theory Tracker_Resp
  imports Tracker_Ok
begin

text \<open>
  What a tracker's response means: on the response an encoder writes, \<^verbatim>\<open>ParseResponse\<close> takes over exactly the peers, the
  interval and the numbers in it.
\<close>

section \<open>Reading a response\<close>

lemma be_bytes_Suc: "be_bytes (Suc k) n = of_nat (n div 256 ^ k) # be_bytes k n"
proof -
  have "[0..<Suc k] = 0 # map Suc [0..<k]" by (simp add: map_Suc_upt upt_conv_Cons del: upt_Suc)
  then show ?thesis by (simp add: be_bytes_def)
qed

lemma length_be_bytes [simp]: "length (be_bytes k n) = k"
  by (simp add: be_bytes_def)

lemma be_nat_foldl: "foldl (\<lambda>n b. n * 256 + unat b) a bs = a * 256 ^ length bs + be_nat (bs :: bytes)"
proof (induction bs arbitrary: a)
  case (Cons c bs)
  have "be_nat (c # bs) = foldl (\<lambda>n b. n * 256 + unat b) (unat c) bs" by (simp add: be_nat_def)
  also have "\<dots> = unat c * 256 ^ length bs + be_nat bs" by (rule Cons)
  finally show ?case using Cons[of "a * 256 + unat c"] by (simp add: distrib_right mult.assoc)
qed (simp add: be_nat_def)

lemma be_nat_Cons: "be_nat (c # bs) = unat c * 256 ^ length bs + be_nat bs"
  using be_nat_foldl[of "unat c" bs] by (simp add: be_nat_def)

lemma be_nat_be_bytes: "be_nat (be_bytes k n) = n mod 256 ^ k"
proof (induction k)
  case 0
  then show ?case by (simp add: be_bytes_def be_nat_def)
next
  case (Suc k)
  have "unat (of_nat (n div 256 ^ k) :: u8) = n div 256 ^ k mod 256" by (simp add: unat_of_nat)
  then show ?case using Suc mod_mult2_eq[of n "256 ^ k" 256] by (simp add: be_bytes_Suc be_nat_Cons mult.commute)
qed

text \<open>An entry of the compact list.\<close>

definition peer6 :: "u32 \<times> u16 \<Rightarrow> bytes" where
  "peer6 a = be_bytes 4 (unat (fst a)) @ be_bytes 2 (unat (snd a))"

lemma peer6_read: "(of_nat (be_nat (take 4 (peer6 a @ rest))), of_nat (be_nat (take 2 (drop 4 (peer6 a @ rest))))) = a"
proof -
  have "unat (snd a) < 65536" using unsigned_less[of "snd a", where ?'a = nat] by simp
  then show ?thesis by (cases a) (simp add: peer6_def be_nat_be_bytes)
qed

lemma length_peer6 [simp]: "length (peer6 a) = 6"
  by (simp add: peer6_def)

lemma compact_peers_all: "compact_peers e (length ps) (concat (map peer6 ps) @ rest) x = Some (fold (add_peer e) ps x)"
proof (induction ps arbitrary: x)
  case (Cons a ps)
  have "drop 6 (peer6 a @ concat (map peer6 ps) @ rest) = concat (map peer6 ps) @ rest" by simp
  then show ?case using Cons peer6_read[of a "concat (map peer6 ps) @ rest"] by (simp del: drop_append take_append)
qed simp

lemma length_compact: "length (concat (map peer6 ps)) = 6 * length ps"
  by (induction ps) auto

lemma fold_add_peer:
  assumes "\<And>j. n_new (e_net e) j"
  shows "set (ipl_head (w_ipq (snd (fold (add_peer e) ps (n, w))))) =
      set (ipl_head (w_ipq w)) \<union> sin_bytes ` {a \<in> set ps. \<not> IpEquiv a (w_self_sin w)} \<and>
    w_self_sin (snd (fold (add_peer e) ps (n, w))) = w_self_sin w"
proof (induction ps arbitrary: n w)
  case (Cons a ps)
  obtain m v where v: "add_peer e a (n, w) = (m, v)" by force
  have "w_self_sin v = w_self_sin w" "set (ipl_head (w_ipq v)) =
      (if IpEquiv a (w_self_sin w) then set (ipl_head (w_ipq w)) else insert (sin_bytes a) (set (ipl_head (w_ipq w))))"
    using v assms by (auto simp: add_peer_def ask_def ipl_Add_def Let_def split: if_splits)
  then show ?case using Cons[of m v] v by (auto split: if_splits)
qed simp

lemma fold_add_peer_tracker: "w_tracker (snd (fold (add_peer e) ps x)) = w_tracker (snd x)"
  by (induction ps arbitrary: x) auto

lemma ten_values:
  assumes "48 \<le> (n :: nat)" "n \<le> 57"
  shows "n = 48 \<or> n = 49 \<or> n = 50 \<or> n = 51 \<or> n = 52 \<or> n = 53 \<or> n = 54 \<or> n = 55 \<or> n = 56 \<or> n = 57"
  using assms by presburger

lemma prefix_digits:
  assumes "\<forall>c\<in>set ds. isdigit c"
  shows "foldl (\<lambda>i c. i * 10 + (scast c - 48)) (of_nat n) ds = (of_nat (digits_val n ds) :: u64)"
  using assms
proof (induction ds arbitrary: n)
  case (Cons c ds)
  have U: "unat c = 48 \<or> unat c = 49 \<or> unat c = 50 \<or> unat c = 51 \<or> unat c = 52 \<or> unat c = 53 \<or> unat c = 54 \<or>
      unat c = 55 \<or> unat c = 56 \<or> unat c = 57" using Cons.prems by (intro ten_values) (simp_all add: isdigit_iff)
  have V: "c = numeral k" if "unat c = numeral k" for k
  proof -
    have "of_nat (unat c) = (of_nat (numeral k) :: u8)" unfolding that ..
    then show ?thesis by simp
  qed
  from U have "c = 48 \<or> c = 49 \<or> c = 50 \<or> c = 51 \<or> c = 52 \<or> c = 53 \<or> c = 54 \<or> c = 55 \<or> c = 56 \<or> c = 57"
    by (auto dest: V)
  then have "scast c - 48 = (of_nat (unat c - 48) :: u64)" by auto
  then have v: "of_nat n * 10 + (scast c - 48) = (of_nat (10 * n + (unat c - 48)) :: u64)" by simp
  let ?f = "\<lambda>i c. i * 10 + (scast c - 48) :: u64"
  have "foldl ?f (of_nat n) (c # ds) = foldl ?f (of_nat (10 * n + (unat c - 48))) ds" by (simp only: foldl_Cons v)
  also have "\<dots> = of_nat (digits_val (10 * n + (unat c - 48)) ds)" by (rule Cons.IH) (use Cons.prems in simp)
  finally show ?case by (simp only: digits_val.simps)
qed simp

text \<open>What a dictionary says of a key.\<close>

lemma query_start:
  assumes "wf_val (BDict kvs)" "key_ok key"
  shows "finds (enc (BDict kvs)) (decode_rev (enc (BDict kvs)) (Some key)) (map_of kvs key)"
proof -
  have "decode_rev (enc (BDict kvs)) (Some key) = decode_dict (enc (BDict kvs)) (Some key)" by (subst decode_rev.simps) simp
  then show ?thesis using decode_dict_finds[of kvs key "[]" "[]"] assms by (cases "map_of kvs key") simp_all
qed

lemma query_str_none: "wf_val (BDict kvs) \<Longrightarrow> key_ok key \<Longrightarrow> map_of kvs key = None \<Longrightarrow> decode_query_str (enc (BDict kvs)) key = (0, [])"
  using query_start[of kvs key] by (simp add: finds_def decode_query_str_def)

lemma query_int:
  assumes "wf_val (BDict kvs)" "key_ok key"
  shows "map_of kvs key = None \<Longrightarrow> decode_query_int (enc (BDict kvs)) key = (0, 0)"
    and "map_of kvs key = Some (BInt i) \<Longrightarrow> fst (decode_query_int (enc (BDict kvs)) key) \<noteq> 0 \<and> snd (decode_query_int (enc (BDict kvs)) key) = i"
proof -
  note F = query_start[OF assms]
  show "map_of kvs key = None \<Longrightarrow> decode_query_int (enc (BDict kvs)) key = (0, 0)" using F by (simp add: finds_def decode_query_int_def)
  assume m: "map_of kvs key = Some (BInt i)"
  then obtain rest where r: "0 < decode_rev (enc (BDict kvs)) (Some key)"
    "drop (decode_rev (enc (BDict kvs)) (Some key)) (enc (BDict kvs)) = enc (BInt i) @ rest" using F by (auto simp: finds_def)
  have "wf_val (BInt i)" using assms(1) map_of_SomeD[OF m] by (auto simp: list_all_iff)
  then show "fst (decode_query_int (enc (BDict kvs)) key) \<noteq> 0 \<and> snd (decode_query_int (enc (BDict kvs)) key) = i"
    using r buf_int_enc[of i rest] by (simp add: decode_query_int_def del: enc.simps)
qed

text \<open>The number a response gives under a key; \<open>number_ok\<close> says that it is a number if it is there.\<close>

definition number_of :: "(bytes \<times> bval) list \<Rightarrow> string \<Rightarrow> int option" where
  "number_of kvs key = (case map_of kvs (ascii key) of Some (BInt i) \<Rightarrow> Some i | _ \<Rightarrow> None)"

definition number_ok :: "(bytes \<times> bval) list \<Rightarrow> string \<Rightarrow> bool" where
  "number_ok kvs key \<longleftrightarrow> (case map_of kvs (ascii key) of None \<Rightarrow> True | Some v \<Rightarrow> (case v of BInt i \<Rightarrow> True | _ \<Rightarrow> False))"

lemma query_number:
  assumes "wf_val (BDict kvs)" "key_ok (ascii key)" "number_ok kvs key"
  shows "fst (decode_query_int (enc (BDict kvs)) (ascii key)) \<noteq> 0 \<longleftrightarrow> number_of kvs key \<noteq> None"
    "number_of kvs key = Some i \<Longrightarrow> snd (decode_query_int (enc (BDict kvs)) (ascii key)) = i"
  using query_int[OF assms(1,2)] assms(3) by (auto simp: number_of_def number_ok_def split: option.splits bval.splits)

lemma keys_ok:
  "key_ok (ascii ''failure reason'')" "key_ok (ascii ''tracker id'')" "key_ok (ascii ''interval'')" "key_ok (ascii ''complete'')"
  "key_ok (ascii ''incomplete'')" "key_ok (ascii ''peers'')"
  by (simp_all add: key_ok_def ascii_def)

lemma parse_counts_numbers:
  assumes wf: "wf_val (BDict kvs)" and n: "number_ok kvs ''interval''" "number_ok kvs ''complete''" "number_ok kvs ''incomplete''"
  shows "t_interval (parse_counts (enc (BDict kvs)) t) = (case number_of kvs ''interval'' of Some i \<Rightarrow> i | None \<Rightarrow> t_default_interval t)"
    "t_seeds_count (parse_counts (enc (BDict kvs)) t) = (case number_of kvs ''complete'' of Some i \<Rightarrow> of_int i | None \<Rightarrow> 0)"
    "t_peers_count (parse_counts (enc (BDict kvs)) t) =
       (case number_of kvs ''complete'' of Some i \<Rightarrow> of_int i | None \<Rightarrow> 0) + (case number_of kvs ''incomplete'' of Some i \<Rightarrow> of_int i | None \<Rightarrow> 0)"
  using query_number[OF wf keys_ok(3) n(1)] query_number[OF wf keys_ok(4) n(2)] query_number[OF wf keys_ok(5) n(3)]
  by (auto simp: parse_counts_def Let_def case_prod_beta split: option.splits)

lemma parse_peers_compact:
  assumes d: "drop pos buf = enc_str (concat (map peer6 ps)) @ rest" and "pos < length buf" and small: "small (6 * length ps)"
  shows "parse_peers e buf pos w = Some (fold (add_peer e) ps (0, w))"
proof -
  let ?s = "concat (map peer6 ps)" and ?ds = "dec_nat (6 * length ps)"
  have E: "enc_str ?s @ rest = ?ds @ c_colon # ?s @ rest" by (simp add: enc_str_def length_compact)
  have dg: "\<forall>c\<in>set ?ds. isdigit c" by (rule dec_nat_digits)
  then have nc: "\<forall>c\<in>set ?ds. c \<noteq> c_colon" using colon_not_digit(1) by blast
  have hd: "buf ! pos = hd ?ds" using d[unfolded E] assms(2) hd_drop_conv_nth[of pos buf] by simp
  then have nl: "buf ! pos \<noteq> c_l" using dg colon_not_digit(5) by (metis dec_nat_ne hd_in_set)
  have tw: "takeWhile (\<lambda>c. c \<noteq> c_colon) (drop pos buf) = ?ds" unfolding d E using nc by (simp add: takeWhile_append)
  have "prefix_value ?ds = of_nat (6 * length ps)" using prefix_digits[OF dg, of 0] by (simp add: prefix_value_def del: of_nat_mult)
  moreover have "6 * length ps < 18446744073709551616" using small by (simp add: small_def)
  then have "unat (of_nat (6 * length ps) :: u64) = 6 * length ps" by (simp add: unat_of_nat del: of_nat_mult)
  ultimately have "unat (prefix_value ?ds) div 6 = length ps" by (simp del: of_nat_mult)
  moreover have "drop (length ?ds + 1) (drop pos buf) = ?s @ rest" unfolding d E by simp
  moreover have "length ?ds \<noteq> length (drop pos buf)" unfolding d E by simp
  ultimately show ?thesis unfolding parse_peers_def using nl tw compact_peers_all[of e ps rest "(0, w)"] by (simp add: Let_def del: drop_drop length_drop)
qed


text \<open>The response \<^verbatim>\<open>d8:intervali900e5:peers6:\<dots>e\<close> with one peer.\<close>

definition ex_response :: "(bytes \<times> bval) list" where
  "ex_response = [(ascii ''interval'', BInt 900), (ascii ''peers'', BStr (concat (map peer6 [(0x0A000001, 6881)])))]"


end
