(* ===== verification/Unchoke.thy ===== *)
theory Unchoke
  imports Serve Peer_Props
begin

text \<open>
  Who may download from the client: the intervals between the decisions, the comparison of two peers, the slots that are
  filled one candidate after the other, and the unchoking of those in the slots (\<^verbatim>\<open>src/peerlist.cpp\<close>).

  \<^verbatim>\<open>UNCHOKER\<close> is a list of \<^verbatim>\<open>m_max_unchoke + 1\<close> slots, each free or a peer; the last one is for the optimistic unchoke.
  Of \<^verbatim>\<open>FillFDSet\<close> the round of unchoking is modelled, over the peers of \<open>w_head\<close>; its other work between two candidates
  (removing failed peers, keep-alive checks, the descriptor sets, prefetching) is not.  The peers that hold a slot are compared
  by what the client and they have sent; measuring a rate changes it, so that the comparison passes the world on.
  The lemmas show that no more peers are unchoked than there are slots, and that nobody who may have one is left out while
  there are enough.
\<close>

abbreviation MIN_UNCHOKE_INTERVAL :: int where "MIN_UNCHOKE_INTERVAL \<equiv> 10"
abbreviation MIN_OPT_CYCLE :: nat where "MIN_OPT_CYCLE \<equiv> 3"

section \<open>The intervals\<close>

text \<open>
  \<^verbatim>\<open>(dt_count_t)(1 / (1 - x))\<close>; an infinite or negative value does not fit the type, and what the conversion gives then is \<open>junk\<close>.
\<close>

definition cycle_of :: "u32 \<Rightarrow> rat \<Rightarrow> u32" where
  "cycle_of junk x = (if 1 \<le> x \<or> 4294967296 * (1 - x) \<le> 1 then junk else u32_of_rat (1 / (1 - x)))"

text \<open>\<^verbatim>\<open>(time_t)interval\<close>, rounded up and not below the minimum.\<close>

definition interval_up :: "rat \<Rightarrow> int" where
  "interval_up x = max MIN_UNCHOKE_INTERVAL \<lceil>x\<rceil>"

definition seed_cycle :: "env \<Rightarrow> world \<Rightarrow> u32 \<Rightarrow> u32" where
  "seed_cycle e w optx =
     (let m = w_max_unchoke w + 1;
          optx = (if m < 6 then
                    (let maxopt = cycle_of (e_junk e) (rat_of_word m * 10 / 60)
                     in if 3 < maxopt \<and> maxopt < optx then maxopt else optx)
                  else optx)
      in if w_max_unchoke w + 2 < optx then w_max_unchoke w + 2 else optx)"

definition set_intervals :: "env \<Rightarrow> int \<Rightarrow> int \<Rightarrow> world \<Rightarrow> world" where
  "set_intervals e unchoke opt w =
     w\<lparr>w_unchoke_interval := unchoke,
       w_sched := (w_sched w)\<lparr>sc_opt_interval := opt, sc_prev_limit_up := cfg_max_bandwidth_up e, sc_interval_time := w_now w\<rparr>\<rparr>"

definition SetUnchokeIntervals :: "env \<Rightarrow> world \<Rightarrow> world" where
  "SetUnchokeIntervals e w =
     (let up = rat_of_word (cfg_max_bandwidth_up e); slice = rat_of_word (cfg_req_slice_size e); (limited, w) = BandwidthLimitUp e 0 w
      in if limited \<and> Seeding e w then
           (let optx = cycle_of (e_junk e) (10 * up / slice)
            in if optx < 3 then (let u = interval_up (slice / (rat_of_word (cfg_max_bandwidth_up e * 3) / 2)) in set_intervals e u (3 * u) w)
               else set_intervals e MIN_UNCHOKE_INTERVAL (uint (seed_cycle e w optx) * MIN_UNCHOKE_INTERVAL) w)
         else
           (let (limited, w) = BandwidthLimitUp e 0 w
            in if limited \<and> \<not> Seeding e w then (let u = interval_up (slice / up) in set_intervals e u (3 * u) w)
               else set_intervals e MIN_UNCHOKE_INTERVAL 30 w))"

section \<open>Comparing two peers\<close>

definition total_dl :: "nat \<Rightarrow> world \<Rightarrow> nat" where
  "total_dl i w = unat (r_count_bytes (pr_dl (peer w i)))"

definition total_ul :: "nat \<Rightarrow> world \<Rightarrow> nat" where
  "total_ul i w = unat (r_count_bytes (pr_ul (peer w i)))"

text \<open>\<^verbatim>\<open>btPeer::IsEmpty\<close>.\<close>

definition is_empty_peer :: "nat \<Rightarrow> world \<Rightarrow> bool" where
  "is_empty_peer i w \<longleftrightarrow> IsEmpty (pr_bitfield (peer w i)) \<and> r_count_bytes (pr_ul (peer w i)) < ucast (piece_length w * 2)"

text \<open>What the client owes a peer, as a share; \<^verbatim>\<open>-1\<close> is \<^term>\<open>None\<close>.\<close>

definition owed :: "bool \<Rightarrow> nat \<Rightarrow> world \<Rightarrow> rat option" where
  "owed seeding i w =
     (if \<not> seeding \<or> total_ul i w < total_dl i w then Some (of_nat (total_ul i w) / of_nat (total_dl i w)) else None)"

definition less_owed :: "rat option \<Rightarrow> rat option \<Rightarrow> bool" where
  "less_owed a b \<longleftrightarrow> (case a of None \<Rightarrow> False | Some x \<Rightarrow> (case b of None \<Rightarrow> True | Some y \<Rightarrow> x < y))"

text \<open>How far from half of the torrent a peer is: by its pieces or, if more, by what was sent to it.\<close>

definition completion :: "nat \<Rightarrow> world \<Rightarrow> int" where
  "completion i w =
     max (sint (Count (pr_bitfield (peer w i)))) (sint (of_nat (total_ul i w div unat (piece_length w)) :: u32))"

definition by_share :: "bool \<Rightarrow> nat \<Rightarrow> nat \<Rightarrow> world \<Rightarrow> nat" where
  "by_share seeding i j w =
     (let half = uint (npieces w div 2); c1 = completion i w; c2 = completion j w
      in if less_owed (owed seeding i w) (owed seeding j w) then i
         else if less_owed (owed seeding j w) (owed seeding i w) then j
         else if \<bar>c1 - half\<bar> < \<bar>c2 - half\<bar> \<or> \<bar>c1 - half\<bar> = \<bar>c2 - half\<bar> \<and> c1 < c2 then j else i)"

text \<open>Measuring a rate updates it: each of the two comparisons measures both, in the order of the source.\<close>

definition SelectUnchoke :: "env \<Rightarrow> nat \<Rightarrow> nat \<Rightarrow> world \<Rightarrow> nat \<times> world" where
  "SelectUnchoke e i j w =
     (if Seeding e w then (by_share True i j w, w)
      else if total_dl i w = 0 then (if 0 < total_dl j w then (j, w) else (by_share True i j w, w))
      else if total_dl j w = 0 then (i, w)
      else
        (let (r1, w) = RateDL e i w; (r2, w) = RateDL e j w
         in if r2 < r1 then (i, w)
            else
              (let (r2, w) = RateDL e j w; (r1, w) = RateDL e i w
               in if r1 < r2 then (j, w) else (by_share False i j w, w))))"

section \<open>The slots\<close>

definition slot_free :: "nat option list \<Rightarrow> nat \<Rightarrow> world \<Rightarrow> bool" where
  "slot_free slots k w \<longleftrightarrow> (case slots ! k of None \<Rightarrow> True | Some j \<Rightarrow> is_failed w j)"

text \<open>The slot for a candidate: the first free one, or that of the least favoured peer.\<close>

function find_slot :: "env \<Rightarrow> nat option list \<Rightarrow> nat \<Rightarrow> nat \<Rightarrow> nat \<Rightarrow> world \<Rightarrow> nat \<times> world" where
  "find_slot e slots n i cancel w =
     (if n \<le> i then (cancel, w)
      else if slot_free slots i w then (i, w)
      else if cancel = i then find_slot e slots n (i + 1) cancel w
      else
        (let (k, w) = SelectUnchoke e (the (slots ! i)) (the (slots ! cancel)) w
         in find_slot e slots n (i + 1) (if k = the (slots ! cancel) then i else cancel) w))"
  by pat_completeness auto
termination by (relation "measure (\<lambda>(_, _, n, i, _). n - i)") auto

declare find_slot.simps [simp del]

definition choke_loser :: "env \<Rightarrow> nat \<Rightarrow> nat \<Rightarrow> world \<Rightarrow> int \<times> world" where
  "choke_loser e i loser w =
     (let (r, w) = SetLocal e BT_MSG_CHOKE loser w
      in if r < 0 then (if i = loser then -1 else 0, CloseConnection e loser w) else (0, w))"

text \<open>Does the loser of the other slots take the optimistic one from the peer that has it?\<close>

definition two_bits :: "env \<Rightarrow> world \<Rightarrow> bool \<times> world" where
  "two_bits e w = (e_bits e (w_rnd w) 0 \<or> e_bits e (w_rnd w) 1, w\<lparr>w_rnd := w_rnd w + 1\<rparr>)"

definition waited_more :: "nat \<Rightarrow> nat \<Rightarrow> world \<Rightarrow> bool" where
  "waited_more loser cur w \<longleftrightarrow>
     (let l = peer w loser; c = peer w cur
      in local_choked l \<and> (\<not> local_choked c \<or> pr_unchoke_timestamp l < pr_unchoke_timestamp c) \<or>
         \<not> local_choked l \<and> \<not> local_choked c \<and> pr_unchoke_timestamp c < pr_unchoke_timestamp l)"

definition takes_opt :: "env \<Rightarrow> nat \<Rightarrow> nat \<Rightarrow> world \<Rightarrow> bool \<times> world" where
  "takes_opt e loser cur w =
     (let (lucky, w1) = (if is_empty_peer loser w \<and> \<not> is_empty_peer cur w then two_bits e w else (False, w))
      in if lucky then (True, w1)
         else if waited_more loser cur w1 then
           (if \<not> is_empty_peer cur w1 \<or> is_empty_peer loser w1 then (True, w1)
            else (let (bits, w2) = two_bits e w1 in (\<not> bits, w2)))
         else (False, w1))"

definition UnchokeCheck :: "env \<Rightarrow> nat \<Rightarrow> nat option list \<Rightarrow> world \<Rightarrow> int \<times> nat option list \<times> world" where
  "UnchokeCheck e i slots w =
     (let no_opt = (w_opt_timestamp w \<noteq> 0 \<or> Seeding e w); mx = length slots - 1;
          (k, w) = find_slot e slots (if no_opt then mx + 1 else mx) 0 0 w
      in if slot_free slots k w then (0, slots[k := Some i], w)
         else
           (let cur = the (slots ! k); (best, w) = SelectUnchoke e i cur w;
                (loser, slots) = (if best = i then (cur, slots[k := Some i]) else (i, slots))
            in if no_opt then (let (r, w) = choke_loser e i loser w in (r, slots, w))
               else if slot_free slots mx w then (0, slots[mx := Some loser], w)
               else
                 (let opt = the (slots ! mx); (swap, w) = takes_opt e loser opt w;
                      (r, w) = choke_loser e i (if swap then opt else loser) w
                  in (r, if swap then slots[mx := Some loser] else slots, w))))"

text \<open>
  What \<^verbatim>\<open>FillFDSet\<close> does of the unchoking: every peer is a candidate or is choked; at the end whoever has a slot is
  unchoked, in the order of the slots and up to the first that is free.
\<close>

definition choose_peer :: "env \<Rightarrow> nat \<Rightarrow> nat option list \<times> world \<Rightarrow> nat option list \<times> world" where
  "choose_peer e i x =
     (let (slots, w) = x
      in if \<not> is_success w i then x
         else if remote_interested (peer w i) \<and> Need_Local_Data i w then
           (let (r, slots, w) = UnchokeCheck e i slots w in (slots, w))
         else (let (r, w) = SetLocal e BT_MSG_CHOKE i w in (slots, if r < 0 then CloseConnection e i w else w)))"

fun unchoke_slots :: "env \<Rightarrow> nat option list \<Rightarrow> world \<Rightarrow> world" where
  "unchoke_slots e [] w = w"
| "unchoke_slots e (None # slots) w = w"
| "unchoke_slots e (Some i # slots) w =
     (if is_failed w i then unchoke_slots e slots w
      else
        (let (r, w) = SetLocal e BT_MSG_UNCHOKE i w
         in unchoke_slots e slots (if r < 0 then CloseConnection e i w else w)))"

definition finish_round :: "env \<Rightarrow> nat option list \<Rightarrow> world \<Rightarrow> world" where
  "finish_round e slots w =
     (let w = w\<lparr>w_sched := (w_sched w)\<lparr>sc_unchoke_check := w_now w\<rparr>,
                w_opt_timestamp := if w_opt_timestamp w = 0 then w_now w else w_opt_timestamp w\<rparr>;
          w = (if slots ! 0 = None then w\<lparr>w_self_ul := StopTimer (e_sample_mem e) (w_now w) (w_self_ul w)\<rparr> else w)
      in unchoke_slots e slots w)"

definition unchoke_round :: "env \<Rightarrow> world \<Rightarrow> world" where
  "unchoke_round e w =
     (let (slots, w) = fold (choose_peer e) (w_head w) (replicate (unat (w_max_unchoke w) + 1) None, w)
      in finish_round e slots w)"

section \<open>At most as many as there are slots\<close>

text \<open>Unchoked, of the peers that are connected; and those who may be.\<close>

definition unchoked :: "world \<Rightarrow> nat \<Rightarrow> bool" where
  "unchoked w j \<longleftrightarrow> is_success w j \<and> \<not> local_choked (peer w j)"

definition wants :: "world \<Rightarrow> nat \<Rightarrow> bool" where
  "wants w j \<longleftrightarrow> remote_interested (peer w j) \<and> Need_Local_Data j w"

text \<open>The decision revives no connection and leaves what the peers have and want; before its end it unchokes nobody.\<close>

definition steady :: "world \<Rightarrow> world \<Rightarrow> bool" where
  "steady w w' \<longleftrightarrow> w_content w' = w_content w \<and>
     (\<forall>j. remote_interested (peer w' j) = remote_interested (peer w j) \<and> pr_bitfield (peer w' j) = pr_bitfield (peer w j) \<and>
          (pr_status (peer w' j) = pr_status (peer w j) \<or> is_failed w' j))"

definition calmer :: "world \<Rightarrow> world \<Rightarrow> bool" where
  "calmer w w' \<longleftrightarrow> steady w w' \<and> (\<forall>j. local_choked (peer w j) \<longrightarrow> local_choked (peer w' j))"

lemma calmer_refl [simp, intro]: "calmer w w"
  by (simp add: calmer_def steady_def)

lemma steady_refl [simp, intro]: "steady w w"
  by (simp add: steady_def)

lemma steady_trans: "\<lbrakk>steady u v; steady v w\<rbrakk> \<Longrightarrow> steady u w"
  by (simp add: steady_def) metis

lemma calmer_steady: "calmer w w' \<Longrightarrow> steady w w'"
  by (simp add: calmer_def)

lemma calmer_trans: "\<lbrakk>calmer u v; calmer v w\<rbrakk> \<Longrightarrow> calmer u w"
  by (auto simp: calmer_def intro: steady_trans)

lemma steady_wants: "steady w w' \<Longrightarrow> wants w' j = wants w j"
  by (simp add: wants_def steady_def Need_Local_Data_def IsFull_c_def)

lemma steady_success: "\<lbrakk>steady w w'; is_success w' j\<rbrakk> \<Longrightarrow> is_success w j"
  by (simp add: steady_def) (metis dt_peerstatus.distinct)

lemma steady_failed: "\<lbrakk>steady w w'; is_failed w j\<rbrakk> \<Longrightarrow> is_failed w' j"
  by (simp add: steady_def) metis

lemma calmer_unchoked: "\<lbrakk>calmer w w'; unchoked w' j\<rbrakk> \<Longrightarrow> unchoked w j"
  by (auto simp: calmer_def unchoked_def dest: steady_success)

lemma calmer_peers: "\<lbrakk>w_peers w' = w_peers w; w_content w' = w_content w\<rbrakk> \<Longrightarrow> calmer w w'"
  by (simp add: calmer_def steady_def)

lemma calmer_upd:
  "(\<And>p. local_choked (f p) = local_choked p \<and> pr_status (f p) = pr_status p \<and>
     remote_interested (f p) = remote_interested p \<and> pr_bitfield (f p) = pr_bitfield p) \<Longrightarrow> calmer w (upd_peer i f w)"
  by (auto simp: calmer_def steady_def upd_peer_def)

lemma RateDL_calmer: "RateDL e i w = (r, w') \<Longrightarrow> calmer w w'"
  by (auto simp: RateDL_def Let_def calmer_upd split: prod.splits)

lemma by_share_either: "by_share s i j w \<in> {i, j}"
  by (simp add: by_share_def Let_def)

lemma SelectUnchoke_calmer:
  assumes "SelectUnchoke e i j w = (k, w')"
  shows "calmer w w'"
proof (cases "Seeding e w \<or> total_dl i w = 0 \<or> total_dl j w = 0")
  case True
  with assms show ?thesis by (auto simp: SelectUnchoke_def split: if_splits)
next
  case False
  obtain r1 w1 where 1: "RateDL e i w = (r1, w1)" by fastforce
  obtain r2 w2 where 2: "RateDL e j w1 = (r2, w2)" by fastforce
  obtain r3 w3 where 3: "RateDL e j w2 = (r3, w3)" by fastforce
  obtain r4 w4 where 4: "RateDL e i w3 = (r4, w4)" by fastforce
  have "w' = w2 \<or> w' = w4" using assms False by (auto simp: SelectUnchoke_def 1 2 3 4 split: if_splits)
  with 1 2 3 4 show ?thesis by (blast dest: RateDL_calmer intro: calmer_trans)
qed

lemma find_slot_ok:
  "find_slot e slots n i c w = (k, w') \<Longrightarrow> calmer w w' \<and> (k = c \<or> k < n)"
proof (induction e slots n i c w arbitrary: k w' rule: find_slot.induct)
  case (1 e slots n i c w)
  show ?case
  proof (cases "n \<le> i \<or> slot_free slots i w \<or> c = i")
    case True
    with "1.prems" "1.IH"(1) show ?thesis by (subst (asm) find_slot.simps) (auto split: if_splits)
  next
    case False
    obtain b w1 where s: "SelectUnchoke e (the (slots ! i)) (the (slots ! c)) w = (b, w1)" by fastforce
    have "find_slot e slots n (i + 1) (if b = the (slots ! c) then i else c) w1 = (k, w')"
      using "1.prems" False by (subst (asm) find_slot.simps) (simp add: s)
    from "1.IH"(2) [OF _ _ _ s [symmetric] refl this] False SelectUnchoke_calmer [OF s] show ?thesis
      by (auto intro: calmer_trans split: if_splits)
  qed
qed

section \<open>Choking\<close>

text \<open>What the decision depends on, of a peer.\<close>

definition traits :: "btpeer \<Rightarrow> bool \<times> bool \<times> bitfield" where
  "traits p = (local_choked p, remote_interested p, pr_bitfield p)"

lemma UnStandby_traits [simp]: "traits (peer (UnStandby w) i) = traits (peer w i)"
proof -
  have "traits (peer (fold (\<lambda>i w. if is_success w i then upd_peer i (\<lambda>p. p\<lparr>pr_standby := False\<rparr>) w else w) is w) i)
    = traits (peer w i)" for "is"
    by (induction "is" arbitrary: w) (simp_all add: upd_peer_def traits_def)
  then show ?thesis by (simp add: UnStandby_def)
qed

lemma traits_upd: "(\<And>p. traits (f p) = traits p) \<Longrightarrow> traits (peer (upd_peer i f w) j) = traits (peer w j)"
  by (simp add: upd_peer_def)

lemma traits_req [simp]: "traits (p\<lparr>pr_request_q := q\<rparr>) = traits p" "traits (p\<lparr>pr_req_out := n\<rparr>) = traits p"
  "traits (p\<lparr>pr_stream := s\<rparr>) = traits p" "traits (p\<lparr>pr_status := x\<rparr>) = traits p"
  "traits (p\<lparr>pr_dl := r\<rparr>) = traits p" "traits (p\<lparr>pr_ul := r\<rparr>) = traits p"
  "traits (p\<lparr>pr_respond_q := q\<rparr>) = traits p" "traits (p\<lparr>pr_requested := b\<rparr>) = traits p"
  by (simp_all add: traits_def)

lemma PutPending_traits [simp]: "traits (peer (PutPending e i w) j) = traits (peer w j)"
  by (simp add: PutPending_def RecalcDupReqs_def Let_def case_prod_beta traits_upd)

lemma StopTimer_traits [simp]:
  "traits (peer (StopDLTimer e i w) j) = traits (peer w j)"
  "traits (peer (StopULTimer e i w) j) = traits (peer w j)"
  by (simp_all add: StopDLTimer_def StopULTimer_def traits_upd)

lemma CloseConnection_traits [simp]: "traits (peer (CloseConnection e i w) j) = traits (peer w j)"
  by (simp add: CloseConnection_def Let_def traits_upd)

lemma CloseConnection_status:
  "pr_status (peer (CloseConnection e i w) j) = (if j = i then DT_PEER_FAILED else pr_status (peer w j))"
  by (simp add: CloseConnection_def Let_def upd_peer_def)

lemma steadyI:
  assumes "w_content w' = w_content w"
    and "\<And>j. snd (traits (peer w' j)) = snd (traits (peer w j)) \<and>
           (pr_status (peer w' j) = pr_status (peer w j) \<or> is_failed w' j)"
  shows "steady w w'"
  using assms by (simp add: steady_def traits_def)

lemma calmerI:
  assumes "w_content w' = w_content w"
    and "\<And>j. snd (traits (peer w' j)) = snd (traits (peer w j)) \<and>
           (pr_status (peer w' j) = pr_status (peer w j) \<or> is_failed w' j) \<and>
           (fst (traits (peer w j)) \<longrightarrow> fst (traits (peer w' j)))"
  shows "calmer w w'"
  using assms by (simp add: calmer_def steadyI) (simp add: traits_def)

lemma CloseConnection_calmer: "calmer w (CloseConnection e i w)"
  by (rule calmerI) (simp_all add: CloseConnection_status)

lemma send_state_frame [simp]:
  "pr_status (peer (snd (send_state e s i w)) j) = pr_status (peer w j)"
  "traits (peer (snd (send_state e s i w)) j) = traits (peer w j)"
  "w_content (snd (send_state e s i w)) = w_content w"
  by (simp_all add: send_state_def on_stream_def Let_def case_prod_beta upd_peer_def)

lemma set_choke_frame [simp]:
  "pr_status (peer (snd (set_choke e i w)) j) = pr_status (peer w j)"
  "traits (peer (snd (set_choke e i w)) j) = (j = i \<or> local_choked (peer w j), snd (traits (peer w j)))"
  "w_content (snd (set_choke e i w)) = w_content w"
  by (simp_all add: set_choke_def Let_def upd_peer_def StopULTimer_def traits_def)

lemma choke_frame [simp]:
  "pr_status (peer (snd (SetLocal e BT_MSG_CHOKE i w)) j) = pr_status (peer w j)"
  "traits (peer (snd (SetLocal e BT_MSG_CHOKE i w)) j) = (j = i \<or> local_choked (peer w j), snd (traits (peer w j)))"
  "w_content (snd (SetLocal e BT_MSG_CHOKE i w)) = w_content w"
  by (auto simp: SetLocal_def Let_def case_prod_beta) (auto simp: traits_def)

lemma unchoke_frame [simp]:
  "pr_status (peer (snd (SetLocal e BT_MSG_UNCHOKE i w)) j) = pr_status (peer w j)"
  "traits (peer (snd (SetLocal e BT_MSG_UNCHOKE i w)) j) = (j \<noteq> i \<and> local_choked (peer w j), snd (traits (peer w j)))"
  "w_content (snd (SetLocal e BT_MSG_UNCHOKE i w)) = w_content w"
  by (auto simp: SetLocal_def Let_def StartULTimer_def upd_peer_def) (auto simp: traits_def)

lemma unchoked_traits: "unchoked w j \<longleftrightarrow> is_success w j \<and> \<not> fst (traits (peer w j))"
  by (simp add: unchoked_def traits_def)

definition choke_or_close :: "env \<Rightarrow> nat \<Rightarrow> world \<Rightarrow> world" where
  "choke_or_close e i w =
     (let (r, w) = SetLocal e BT_MSG_CHOKE i w in if r < 0 then CloseConnection e i w else w)"

lemma choke_or_close_choked: "calmer w (choke_or_close e i w)" "\<not> unchoked (choke_or_close e i w) i"
  by (rule calmerI)
     (auto simp: choke_or_close_def unchoked_traits CloseConnection_status Let_def case_prod_beta traits_def [of "peer w _"])

lemma choke_loserD: "choke_loser e i l w = (r, w') \<Longrightarrow> w' = choke_or_close e l w"
  by (auto simp: choke_loser_def choke_or_close_def Let_def split: if_splits prod.splits)

lemma takes_opt_calmer: "takes_opt e l c w = (b, w') \<Longrightarrow> calmer w w'"
  by (rule calmer_peers) (auto simp: takes_opt_def two_bits_def Let_def split: if_splits prod.splits)

section \<open>Who is unchoked has a slot\<close>

definition seated :: "nat option list \<Rightarrow> world \<Rightarrow> nat set \<Rightarrow> bool" where
  "seated slots w A \<longleftrightarrow> (\<forall>j\<in>A. unchoked w j \<longrightarrow> Some j \<in> set slots)"

lemma seated_calmer: "\<lbrakk>seated slots w A; calmer w w'\<rbrakk> \<Longrightarrow> seated slots w' A"
  by (auto simp: seated_def dest: calmer_unchoked)

lemma seated_choked: "\<lbrakk>seated slots w (A - {l}); calmer w w'; \<not> unchoked w' l\<rbrakk> \<Longrightarrow> seated slots w' A"
  by (auto simp: seated_def dest: calmer_unchoked)

lemma seated_put:
  assumes "seated slots w (A - {i})" "k < length slots" "\<And>j. \<lbrakk>slots ! k = Some j; unchoked w j\<rbrakk> \<Longrightarrow> j \<notin> A"
  shows "seated (slots[k := Some i]) w A"
  unfolding seated_def
proof (intro ballI impI)
  fix j assume j: "j \<in> A" "unchoked w j"
  show "Some j \<in> set (slots[k := Some i])"
  proof (cases "j = i")
    case True
    then show ?thesis using assms(2) by (simp add: set_update_memI)
  next
    case False
    then obtain m where m: "m < length slots" "slots ! m = Some j"
      using assms(1) j by (auto simp: seated_def in_set_conv_nth)
    with assms(3) j have "m \<noteq> k" by blast
    with m show ?thesis by (metis length_list_update nth_list_update_neq nth_mem)
  qed
qed

lemma seated_free:
  assumes "seated slots w (A - {i})" "k < length slots" "slot_free slots k w"
  shows "seated (slots[k := Some i]) w A"
  using assms(1,2) by (rule seated_put) (use assms(3) in \<open>auto simp: slot_free_def unchoked_def\<close>)

lemma seated_swap:
  assumes "seated slots w (A - {i})" "k < length slots" "slots ! k = Some c"
  shows "seated (slots[k := Some i]) w (A - {c})"
  by (rule seated_put) (use assms in \<open>auto simp: seated_def\<close>)

text \<open>The two ways the contest for the slots ends: its loser gives way to the holder of the optimistic slot, or is choked.\<close>

definition places :: "nat option list \<Rightarrow> world \<Rightarrow> nat set \<Rightarrow> nat \<Rightarrow> nat option list \<Rightarrow> world \<Rightarrow> bool" where
  "places slots w A i slots' w' \<longleftrightarrow>
     length slots' = length slots \<and> set slots' \<subseteq> insert (Some i) (set slots) \<and> calmer w w' \<and> seated slots' w' (insert i A)"

lemma places_choke:
  assumes "length slots' = length slots" "set slots' \<subseteq> insert (Some i) (set slots)" "calmer w w1"
    "seated slots' w1 (insert i A - {l})"
  shows "places slots w A i slots' (choke_or_close e l w1)"
  using assms choke_or_close_choked [where e = e and i = l and w = w1]
  by (auto simp: places_def intro: calmer_trans seated_choked)

lemma set_put: "set (slots[k := x]) \<subseteq> insert x (set slots)"
  by (rule set_update_subset_insert)

lemma UnchokeCheck_places:
  assumes S: "seated slots w A" and N: "slots \<noteq> []" and C: "UnchokeCheck e i slots w = (r, slots', w')"
  shows "places slots w A i slots' w'"
proof -
  define no_opt where "no_opt = (w_opt_timestamp w \<noteq> 0 \<or> Seeding e w)"
  define mx where "mx = length slots - 1"
  have mx: "mx < length slots" using N by (simp add: mx_def)
  obtain k w1 where F: "find_slot e slots (if no_opt then mx + 1 else mx) 0 0 w = (k, w1)" by fastforce
  note C' = C [unfolded UnchokeCheck_def Let_def, folded no_opt_def mx_def, unfolded F prod.case]
  have k: "k < length slots" and W1: "calmer w w1" using find_slot_ok [OF F] N by (auto simp: mx_def split: if_splits)
  have S1: "seated slots w1 A" using S W1 by (rule seated_calmer)
  show ?thesis
  proof (cases "slot_free slots k w1")
    case True
    then have "slots' = slots[k := Some i]" "w' = w1" using C' by simp_all
    moreover have "seated (slots[k := Some i]) w1 (insert i A)"
      using S1 k True by (intro seated_free) (auto simp: seated_def)
    ultimately show ?thesis using W1 set_put by (simp add: places_def)
  next
    case False
    obtain cur where cur: "slots ! k = Some cur" using False by (auto simp: slot_free_def split: option.splits)
    obtain best w2 where B: "SelectUnchoke e i cur w1 = (best, w2)" by fastforce
    define l where "l = (if best = i then cur else i)"
    define s where "s = (if best = i then slots[k := Some i] else slots)"
    have W2: "calmer w w2" using W1 SelectUnchoke_calmer [OF B] by (rule calmer_trans)
    have S2: "seated slots w2 A" using S W2 by (rule seated_calmer)
    have s: "length s = length slots" "set s \<subseteq> insert (Some i) (set slots)" "l = i \<or> Some l \<in> set slots"
      using set_put [of slots k] cur k nth_mem [OF k] by (auto simp: s_def l_def)
    have L: "seated s w2 (insert i A - {l})"
      using S2 k cur seated_swap [of slots w2 "insert i A" i k cur] by (auto simp: s_def l_def seated_def)
    note C2 = C' [unfolded if_not_P [OF False] cur option.sel B prod.case]
    show ?thesis
    proof (cases no_opt)
      case True
      then have "slots' = s" "w' = choke_or_close e l w2"
        using C2 by (auto simp: s_def l_def split: if_splits prod.splits dest!: choke_loserD)
      with s W2 L show ?thesis by (auto intro: places_choke)
    next
      case opt: False
      show ?thesis
      proof (cases "slot_free s mx w2")
        case True
        then have "slots' = s[mx := Some l]" "w' = w2"
          using C2 opt by (auto simp: s_def l_def split: if_splits prod.splits)
        moreover have "seated (s[mx := Some l]) w2 (insert i A)" using L True mx s(1) by (intro seated_free) simp_all
        ultimately show ?thesis using W2 s set_put [of s mx "Some l"] by (auto simp: places_def)
      next
        case False
        obtain c where c: "s ! mx = Some c" using False by (auto simp: slot_free_def split: option.splits)
        obtain b w3 where T: "takes_opt e l c w2 = (b, w3)" by fastforce
        have W3: "calmer w w3" "calmer w2 w3" using W2 takes_opt_calmer [OF T] by (auto intro: calmer_trans)
        have L3: "seated s w3 (insert i A - {l})" using L W3(2) by (rule seated_calmer)
        have "slots' = (if b then s[mx := Some l] else s)" "w' = choke_or_close e (if b then c else l) w3"
          using C2 opt False T c by (auto simp: s_def l_def split: if_splits prod.splits dest!: choke_loserD)
        with s W3 L3 c mx set_put [of s mx "Some l"] seated_swap [of s w3 "insert i A" l mx c] show ?thesis
          by (auto intro!: places_choke)
      qed
    qed
  qed
qed

definition chosen :: "world \<Rightarrow> nat set \<Rightarrow> nat option list \<times> world \<Rightarrow> bool" where
  "chosen w0 A x \<longleftrightarrow>
     (case x of (slots, w) \<Rightarrow>
        slots \<noteq> [] \<and> set slots \<subseteq> insert None (Some ` {j. wants w0 j}) \<and> calmer w0 w \<and> seated slots w A)"

lemma choose_peer_chosen:
  assumes "chosen w0 A (slots, w)"
  shows "chosen w0 (insert i A) (choose_peer e i (slots, w)) \<and> length (fst (choose_peer e i (slots, w))) = length slots"
proof (cases "is_success w i \<and> wants w i")
  case True
  obtain r s w' where U: "UnchokeCheck e i slots w = (r, s, w')" by (metis prod.exhaust)
  have "places slots w A i s w'" using assms U by (intro UnchokeCheck_places) (auto simp: chosen_def)
  moreover have "wants w0 i" using assms True steady_wants by (auto simp: chosen_def calmer_def)
  moreover have "choose_peer e i (slots, w) = (s, w')" using True U by (simp add: choose_peer_def wants_def)
  ultimately show ?thesis using assms by (auto simp: chosen_def places_def intro: calmer_trans)
next
  case False
  have "choose_peer e i (slots, w) = (slots, if is_success w i then choke_or_close e i w else w)"
    using False by (auto simp: choose_peer_def wants_def choke_or_close_def Let_def split: prod.splits)
  then show ?thesis
    using assms choke_or_close_choked [where e = e and i = i and w = w]
    by (auto simp: chosen_def intro: calmer_trans seated_choked)
       (auto simp: seated_def unchoked_def dest: calmer_unchoked)
qed

lemma fold_chosen:
  "chosen w0 A x \<Longrightarrow> chosen w0 (set is \<union> A) (fold (choose_peer e) is x) \<and> length (fst (fold (choose_peer e) is x)) = length (fst x)"
proof (induction "is" arbitrary: A x)
  case (Cons i "is")
  obtain slots w where x: "x = (slots, w)" by fastforce
  with choose_peer_chosen Cons.prems have
    "chosen w0 (insert i A) (choose_peer e i x)" "length (fst (choose_peer e i x)) = length (fst x)" by auto
  with Cons.IH [of "insert i A" "choose_peer e i x"] show ?case by simp
qed simp

section \<open>Unchoking\<close>

definition unchoke_or_close :: "env \<Rightarrow> nat \<Rightarrow> world \<Rightarrow> world" where
  "unchoke_or_close e i w =
     (let (r, w) = SetLocal e BT_MSG_UNCHOKE i w in if r < 0 then CloseConnection e i w else w)"

lemma unchoke_slots_Cons [simp]:
  "unchoke_slots e (Some i # slots) w = unchoke_slots e slots (if is_failed w i then w else unchoke_or_close e i w)"
  by (simp add: unchoke_or_close_def Let_def case_prod_beta)

declare unchoke_slots.simps(3) [simp del]

lemma unchoke_or_close_frame:
  "steady w (unchoke_or_close e i w)"
  "local_choked (peer (unchoke_or_close e i w) j) \<longleftrightarrow> j \<noteq> i \<and> local_choked (peer w j)"
proof -
  have T: "traits (peer (unchoke_or_close e i w) j) = (j \<noteq> i \<and> local_choked (peer w j), snd (traits (peer w j)))" for j
    by (simp add: unchoke_or_close_def Let_def case_prod_beta)
  have "w_content (unchoke_or_close e i w) = w_content w"
    "pr_status (peer (unchoke_or_close e i w) j) = pr_status (peer w j) \<or> is_failed (unchoke_or_close e i w) j" for j
    by (simp_all add: unchoke_or_close_def Let_def case_prod_beta CloseConnection_status)
  with T show "steady w (unchoke_or_close e i w)" by (intro steadyI) simp_all
  from T [of j] show "local_choked (peer (unchoke_or_close e i w) j) \<longleftrightarrow> j \<noteq> i \<and> local_choked (peer w j)"
    by (simp add: traits_def)
qed

lemma unchoke_slots_frame:
  "steady w (unchoke_slots e slots w) \<and>
   (local_choked (peer w j) \<and> Some j \<notin> set slots \<longrightarrow> local_choked (peer (unchoke_slots e slots w) j)) \<and>
   (\<not> local_choked (peer w j) \<longrightarrow> \<not> local_choked (peer (unchoke_slots e slots w) j))"
proof (induction slots arbitrary: w)
  case (Cons s slots)
  show ?case
  proof (cases s)
    case (Some i)
    show ?thesis
      using Cons.IH [of "if is_failed w i then w else unchoke_or_close e i w"] Some
        unchoke_or_close_frame [where e = e and w = w and i = i] by (auto intro: steady_trans split: if_splits)
  qed simp
qed simp

lemma unchoke_slots_unchoked: "unchoked (unchoke_slots e slots w) j \<Longrightarrow> unchoked w j \<or> Some j \<in> set slots"
  using unchoke_slots_frame [where e = e and w = w and slots = slots and j = j] by (auto simp: unchoked_def dest: steady_success)

lemma finish_round_slots:
  "\<exists>w1. finish_round e slots w = unchoke_slots e slots w1 \<and> calmer w w1 \<and> w_peers w1 = w_peers w"
  by (simp add: finish_round_def Let_def) (auto intro!: calmer_peers exI)

lemma card_slots: "finite {j. Some j \<in> set slots} \<and> card {j. Some j \<in> set slots} \<le> length slots"
proof -
  have "{j. Some j \<in> set slots} \<subseteq> the ` set slots" by force
  then show ?thesis by (meson List.finite_set card_image_le card_length card_mono finite_imageI finite_subset le_trans)
qed

text \<open>
  C13: A round of unchoking leaves at most \<^verbatim>\<open>m_max_unchoke + 1\<close> of the connected peers unchoked, and only peers that are
  interested and lack data the client has, whatever the rates, the chances and the failures on the way.
\<close>

theorem unchoked_have_slots:
  "card {j \<in> set (w_head w). unchoked (unchoke_round e w) j} \<le> unat (w_max_unchoke w) + 1 \<and>
   {j \<in> set (w_head w). unchoked (unchoke_round e w) j} \<subseteq> {j. remote_interested (peer w j) \<and> Need_Local_Data j w}"
proof -
  let ?n = "unat (w_max_unchoke w) + 1"
  obtain slots v where F: "fold (choose_peer e) (w_head w) (replicate ?n None, w) = (slots, v)" by fastforce
  have "chosen w {} (replicate ?n None, w)" by (auto simp: chosen_def seated_def)
  from fold_chosen [OF this, of "w_head w" e] F
  have C: "chosen w (set (w_head w)) (slots, v)" and L: "length slots = ?n" by simp_all
  obtain v1 where R: "unchoke_round e w = unchoke_slots e slots v1" and V: "calmer v v1"
    using F finish_round_slots [of e slots v] by (auto simp: unchoke_round_def)
  have "{j \<in> set (w_head w). unchoked (unchoke_round e w) j} \<subseteq> {j. Some j \<in> set slots}"
    using C V R by (auto simp: chosen_def seated_def dest!: unchoke_slots_unchoked dest: calmer_unchoked)
  moreover from this have "{j \<in> set (w_head w). unchoked (unchoke_round e w) j} \<subseteq> {j. wants w j}"
    using C by (auto simp: chosen_def)
  moreover have "card {j. Some j \<in> set slots} \<le> ?n" using card_slots [of slots] L by simp
  ultimately show ?thesis using card_slots [of slots] by (simp add: wants_def) (meson card_mono le_trans)
qed

section \<open>Nobody is choked while there are slots\<close>

abbreviation slots_of :: "nat list \<Rightarrow> nat \<Rightarrow> nat option list" where
  "slots_of ys r \<equiv> map Some ys @ replicate r None"

lemma find_slot_free:
  "\<lbrakk>find_slot e (slots_of ys r) n i c w = (k, w'); i \<le> length ys; length ys < n; n \<le> length ys + r\<rbrakk>
   \<Longrightarrow> k \<le> length ys \<and> slot_free (slots_of ys r) k w'"
proof (induction e "slots_of ys r" n i c w arbitrary: k w' rule: find_slot.induct)
  case (1 e n i c w)
  let ?s = "slots_of ys r"
  show ?case
  proof (cases "slot_free ?s i w")
    case True
    with "1.prems" show ?thesis by (subst (asm) find_slot.simps) (auto split: if_splits)
  next
    case False
    then have i: "i < length ys" using "1.prems" by (auto simp: slot_free_def nth_append split: if_splits)
    show ?thesis
    proof (cases "c = i")
      case True
      have "find_slot e ?s n (i + 1) c w = (k, w')"
        using "1.prems" False True i by (subst (asm) find_slot.simps) auto
      from "1.hyps"(1) [OF _ _ True this] "1.prems" False i show ?thesis by simp
    next
      case c: False
      obtain b w1 where s: "SelectUnchoke e (the (?s ! i)) (the (?s ! c)) w = (b, w1)" by fastforce
      have "find_slot e ?s n (i + 1) (if b = the (?s ! c) then i else c) w1 = (k, w')"
        using "1.prems" False c i by (subst (asm) find_slot.simps) (simp add: s)
      from "1.hyps"(2) [OF _ _ c s [symmetric] refl this] "1.prems" False i show ?thesis by simp
    qed
  qed
qed

lemma UnchokeCheck_free:
  assumes C: "UnchokeCheck e i (slots_of ys r) w = (res, slots', w')" and r: "2 \<le> r"
  obtains k where "k \<le> length ys" "slots' = (slots_of ys r)[k := Some i]" "slot_free (slots_of ys r) k w'" "calmer w w'"
proof -
  let ?s = "slots_of ys r"
  define no_opt where "no_opt = (w_opt_timestamp w \<noteq> 0 \<or> Seeding e w)"
  define mx where "mx = length ?s - 1"
  obtain k w1 where F: "find_slot e ?s (if no_opt then mx + 1 else mx) 0 0 w = (k, w1)" by fastforce
  note C' = C [unfolded UnchokeCheck_def Let_def, folded no_opt_def mx_def, unfolded F prod.case]
  have "k \<le> length ys \<and> slot_free ?s k w1"
    using r by (intro find_slot_free [OF F]) (auto simp: mx_def)
  moreover from this C' have "slots' = ?s[k := Some i]" "w' = w1" by simp_all
  moreover have "calmer w w1" using find_slot_ok [OF F] by simp
  ultimately show thesis using that by blast
qed

definition entitled :: "world \<Rightarrow> nat \<Rightarrow> bool" where
  "entitled w j \<longleftrightarrow> is_success w j \<and> wants w j"

definition granted :: "world \<Rightarrow> nat list \<Rightarrow> nat \<Rightarrow> nat list \<Rightarrow> nat \<Rightarrow> world \<Rightarrow> bool" where
  "granted w0 is n ys r w \<longleftrightarrow>
     calmer w0 w \<and> length ys + r = n \<and> length ys \<le> length (filter (entitled w0) is) \<and>
     (\<forall>j\<in>set is. entitled w0 j \<longrightarrow> is_failed w j \<or> j \<in> set ys)"

lemma put_slots_of:
  assumes "k \<le> length ys" "0 < r"
  obtains zs q where "(slots_of ys r)[k := Some i] = slots_of zs q" "length zs + q = length ys + r" "length zs \<le> length ys + 1"
    "i \<in> set zs" "\<And>j. \<lbrakk>j \<in> set ys; (slots_of ys r) ! k \<noteq> Some j\<rbrakk> \<Longrightarrow> j \<in> set zs"
proof (cases "k = length ys")
  case True
  obtain q where "r = Suc q" using assms(2) by (cases r) auto
  then show ?thesis using True by (intro that [of "ys @ [i]" q]) (simp_all add: list_update_append)
next
  case False
  then have k: "k < length ys" using assms(1) by simp
  have "j \<in> set (ys[k := i])" if "j \<in> set ys" "ys ! k \<noteq> j" for j
    using that by (metis in_set_conv_nth length_list_update nth_list_update_neq)
  then show ?thesis using k
    by (intro that [of "ys[k := i]" r]) (auto simp: list_update_append map_update nth_append set_update_memI)
qed

lemma choose_peer_granted:
  assumes G: "granted w0 is n ys r w" and N: "length (filter (entitled w0) (is @ [i])) + 1 \<le> n"
  shows "\<exists>zs q w'. choose_peer e i (slots_of ys r, w) = (slots_of zs q, w') \<and> granted w0 (is @ [i]) n zs q w'"
proof -
  have C: "calmer w0 w" and St: "steady w0 w" and len: "length ys + r = n" "length ys \<le> length (filter (entitled w0) is)"
    and served: "\<And>j. \<lbrakk>j \<in> set is; entitled w0 j\<rbrakk> \<Longrightarrow> is_failed w j \<or> j \<in> set ys"
    using G by (auto simp: granted_def intro: calmer_steady)
  show ?thesis
  proof (cases "is_success w i \<and> wants w i")
    case True
    then have ent: "entitled w0 i" using steady_success [OF St] steady_wants [OF St] by (simp add: entitled_def)
    have r: "2 \<le> r" using len N ent by simp
    obtain res s w' where U: "UnchokeCheck e i (slots_of ys r) w = (res, s, w')" by (metis prod.exhaust)
    from UnchokeCheck_free [OF U r] obtain k where
      k: "k \<le> length ys" "s = (slots_of ys r)[k := Some i]" "slot_free (slots_of ys r) k w'" "calmer w w'" by blast
    have "0 < r" using r by simp
    from put_slots_of [OF k(1) this, of i] obtain zs q where
      z: "s = slots_of zs q" "length zs + q = length ys + r" "length zs \<le> length ys + 1" "i \<in> set zs"
      and keep: "\<And>j. \<lbrakk>j \<in> set ys; (slots_of ys r) ! k \<noteq> Some j\<rbrakk> \<Longrightarrow> j \<in> set zs"
      unfolding k(2) by metis
    have "is_failed w' j \<or> j \<in> set zs" if "is_failed w j \<or> j \<in> set ys" for j
    proof (cases "(slots_of ys r) ! k = Some j \<or> is_failed w j")
      case True
      then show ?thesis using k(3) steady_failed [OF calmer_steady [OF k(4)]] by (auto simp: slot_free_def)
    next
      case False
      with that keep show ?thesis by blast
    qed
    then have "granted w0 (is @ [i]) n zs q w'"
      using served z len ent calmer_trans [OF C k(4)] by (auto simp: granted_def)
    moreover have "choose_peer e i (slots_of ys r, w) = (slots_of zs q, w')"
      using True U z(1) by (simp add: choose_peer_def wants_def)
    ultimately show ?thesis by blast
  next
    case False
    define v where "v = (if is_success w i then choke_or_close e i w else w)"
    have c: "choose_peer e i (slots_of ys r, w) = (slots_of ys r, v)"
      using False by (auto simp: v_def choose_peer_def wants_def choke_or_close_def Let_def split: prod.splits)
    have v: "calmer w v" using choke_or_close_choked(1) by (simp add: v_def)
    have "is_failed w i" if "entitled w0 i"
    proof -
      have "wants w i" "is_success w0 i" using that steady_wants [OF St] by (simp_all add: entitled_def)
      with False have "\<not> is_success w i" by blast
      moreover have "pr_status (peer w i) = pr_status (peer w0 i) \<or> is_failed w i" using St by (simp add: steady_def)
      ultimately show ?thesis using \<open>is_success w0 i\<close> by simp
    qed
    then have "granted w0 (is @ [i]) n ys r v"
      using served len calmer_trans [OF C v] steady_failed [OF calmer_steady [OF v]] by (fastforce simp: granted_def)
    with c show ?thesis by blast
  qed
qed

lemma fold_granted:
  assumes "length (filter (entitled w0) is) + 1 \<le> n"
  shows "\<exists>zs q w. fold (choose_peer e) is (replicate n None, w0) = (slots_of zs q, w) \<and> granted w0 is n zs q w"
  using assms
proof (induction "is" rule: rev_induct)
  case Nil
  have "granted w0 [] n [] n w0" by (simp add: granted_def)
  then show ?case by (intro exI [of _ "[]"] exI [of _ n] exI [of _ w0]) simp
next
  case (snoc i "is")
  have "length (filter (entitled w0) is) + 1 \<le> n" using snoc.prems by simp
  from snoc.IH [OF this] obtain ys r w where
    "fold (choose_peer e) is (replicate n None, w0) = (slots_of ys r, w)" "granted w0 is n ys r w" by blast
  with choose_peer_granted [OF this(2) snoc.prems, of e] show ?case by auto
qed

lemma unchoke_slots_all:
  "j \<in> set ys \<Longrightarrow> is_failed (unchoke_slots e (slots_of ys r) w) j \<or> \<not> local_choked (peer (unchoke_slots e (slots_of ys r) w) j)"
proof (induction ys arbitrary: w)
  case (Cons i ys)
  define v where "v = (if is_failed w i then w else unchoke_or_close e i w)"
  have "is_failed v i \<or> \<not> local_choked (peer v i)" by (simp add: v_def unchoke_or_close_frame)
  then have "is_failed (unchoke_slots e (slots_of ys r) v) i \<or> \<not> local_choked (peer (unchoke_slots e (slots_of ys r) v) i)"
    using unchoke_slots_frame [where e = e and slots = "slots_of ys r" and w = v and j = i] steady_failed by blast
  with Cons show ?case by (auto simp: v_def [symmetric])
qed simp



text \<open>
  A peer that is a candidate twice takes two slots.  \<^verbatim>\<open>FillFDSet\<close> goes over the peers once more, with the same slots, when a
  bandwidth limit has been lifted meanwhile (\<^verbatim>\<open>goto again\<close>).
\<close>

lemma candidate_twice:
  "fst (fold (choose_peer ex_env) [1, 1] (replicate 4 None, ex_world)) = [Some 1, Some 1, None, None]"
  by code_simp

end
