(* ===== verification/Spec2Isabelle.thy ===== *)
theory Spec2Isabelle
  imports Bencode Control Httpencode Msglist Multitracker Sha1 Tracker_Resp Unchoke Util
begin

text \<open>
  Verification of dtorrent (Enhanced CTorrent), a BitTorrent client written in C++.  This theory imports all the others;
  the properties are stated in the theories of the components they are about and carry the numbers C1 to C40.

  \<^bold>\<open>The program.\<close>  One process, one thread.  The main loop (\<^verbatim>\<open>downloader.cpp\<close>) selects on sockets and calls the tracker
  client \<^verbatim>\<open>TRACKER\<close> (\<^verbatim>\<open>tracker.cpp\<close>) and the peer list \<^verbatim>\<open>WORLD\<close> (\<^verbatim>\<open>peerlist.cpp\<close>).  A peer (\<^verbatim>\<open>btPeer\<close>, \<^verbatim>\<open>peer.cpp\<close>)
  has a message stream (\<^verbatim>\<open>btStream\<close>) over two buffers (\<^verbatim>\<open>BufIo\<close>), the set of pieces it has (\<^verbatim>\<open>Bitfield\<close>), a queue of requests
  to it and one of requests from it (\<^verbatim>\<open>RequestQueue\<close>), and two rates (\<^verbatim>\<open>Rate\<close>).  Requests that were given back wait in
  \<^verbatim>\<open>PENDING\<close>.  The data go through \<^verbatim>\<open>BTCONTENT\<close> (\<^verbatim>\<open>btContent\<close>): a cache of slices over the files (\<^verbatim>\<open>btFiles\<close>), with the
  SHA-1 check of complete pieces.  Addresses found by the tracker client wait in \<^verbatim>\<open>IPQUEUE\<close> (\<^verbatim>\<open>IpList\<close>).

  \<^bold>\<open>The model.\<close>  The globals and objects are the fields of one record \<open>world\<close> (theory \<open>World\<close>); a method is a function from
  the world to a result and a new world, in the order of the source's effects.  A pointer to a peer or a tracker is a number.
  What does not change is a record \<open>env\<close>: configuration, allocations that succeed, random numbers, and the operating
  system behind the files (\<open>osenv\<close>), the clock and the network (\<open>netenv\<close>), whose answers depend on the number of the
  call.  \<open>None\<close> is a run that crashes or does not end.  Machine integers are words of their width, \<^verbatim>\<open>time_t\<close> is an integer,
  \<^verbatim>\<open>double\<close> values are exact rationals.  Debug output and console messages are left out.

  \<^bold>\<open>The theories.\<close>
  \<^item> \<open>Prelude\<close>: types, facts on words and lists, and the locales \<open>cursor\<close> and \<open>queue_cursor\<close> (something is taken out step by step,
    in order, each once), which the iterations of \<open>Request_Queue\<close>, the messages of \<open>Btstream\<close> and the addresses of \<open>Iplist\<close>
    interpret.
  \<^item> \<open>Geometry\<close>, \<open>Bitfield\<close>, \<open>Request_Queue\<close>: piece arithmetic of \<^verbatim>\<open>btcontent.cpp\<close>, \<^verbatim>\<open>bitfield.cpp\<close> (an algebra of sets, locale
    \<open>piece_set\<close>), \<^verbatim>\<open>btrequest.cpp\<close> (an ordered list of groups of requests; the send cursor is an address).
  \<^item> \<open>Bufio\<close>, \<open>Btstream\<close>: \<^verbatim>\<open>bufio.cpp\<close> over scripted sockets, \<^verbatim>\<open>btstream.cpp\<close>; the locales \<open>byte_sink\<close> and \<open>flush_sink\<close> say
    that bytes are neither lost nor reordered.
  \<^item> \<open>Bencode\<close>, \<open>Httpencode\<close>, \<open>Iplist\<close>, \<open>Msglist\<close>, \<open>Rate\<close>, \<open>Sha1\<close>, \<open>Util\<close>: the files of these names; \<open>Sha1\<close> compares the unrolled
    code with the text of FIPS 180-1.
  \<^item> \<open>Net\<close>, \<open>World\<close>: the network parameter, the state of trackers and timers, and the world.
  \<^item> \<open>Files\<close>, \<open>Disk\<close>, \<open>Disk_Ok\<close>: \<^verbatim>\<open>btfiles.cpp\<close>, with staging files and merging, and its meaning as one space of bytes.
  \<^item> \<open>Store\<close>, \<open>Cache\<close>, \<open>Cache_Ok\<close>, \<open>Cache_Flow\<close>, \<open>Slices\<close>, \<open>Verify\<close>: the cache of \<^verbatim>\<open>btcontent.cpp\<close>; \<open>content_at\<close> is the byte at an
    offset of the torrent, in the cache or on disk, and every operation is shown to act on it as it should.
  \<^item> \<open>Peer\<close>, \<open>Peerlist\<close>, \<open>Request_Flow\<close>: requests, their cancellation, piece selection, announcements, rotation.  \<open>World_Ok\<close> has the
    invariant of the world, \<open>Flow_Ok\<close> and \<open>Flow_Progress\<close> show that the flow of requests returns, \<open>Peer_Props\<close> the sets it decides on.
  \<^item> \<open>Deliver\<close>, \<open>Serve\<close>: the messages of a peer (\<^verbatim>\<open>MsgDeliver\<close>, \<^verbatim>\<open>PieceDeliver\<close>, \<^verbatim>\<open>ReportComplete\<close>), and receiving, sending, the
    handshake and prefetching (\<^verbatim>\<open>RecvModule\<close>, \<^verbatim>\<open>SendModule\<close>, \<^verbatim>\<open>RespondSlice\<close>, \<^verbatim>\<open>HandShake\<close>, \<^verbatim>\<open>Prefetch\<close>).  \<open>Serve_Ok\<close> shows what
    they do to the bytes of the torrent, \<open>Control\<close> that no message without data can hurt the client.
  \<^item> \<open>Unchoke\<close>: the choice of the peers to unchoke (\<^verbatim>\<open>UnchokeCheck\<close>, \<^verbatim>\<open>SelectUnchoke\<close>, \<^verbatim>\<open>SetUnchokeIntervals\<close>) as one round over the
    peers; it unchokes no more than there are slots, and everyone it may when there are enough.
  \<^item> \<open>Tracker\<close>, \<open>Tracker_Ok\<close>, \<open>Tracker_Resp\<close>, \<open>Multitracker\<close>: \<^verbatim>\<open>tracker.cpp\<close>; one tracker as a state machine whose runs are an
    inductive relation, the buffers of its requests, the meaning of its responses, and the tiers of trackers.

  \<^bold>\<open>Assumptions and bounds.\<close>  Two nodes of the list of files have different paths, and other programs leave the files alone.
  \<open>os_fine\<close>, \<open>usable\<close>, \<open>good\<close> and \<open>slice_in\<close>, where a property has them, say that the system opens and reads the files, that
  they can be written to, that the world is well formed and that the slice lies in the torrent.  \<open>e_open_depth\<close> bounds the
  recursion of \<^verbatim>\<open>_btf_open\<close>, which calls itself through \<^verbatim>\<open>MergeNext\<close> on \<^verbatim>\<open>ENOSPC\<close> only.  Where flushing nests, \<open>depth\<close> 2 is enough:
  the inner \<^verbatim>\<open>FlushEntry\<close> finds \<^verbatim>\<open>m_flush_failed\<close> cleared and ends.  The depth is a parameter of the \<open>_with\<close> functions.
  \<^verbatim>\<open>HandShake\<close> and the keep-alive take the bytes behind the empty string literal they send as a parameter.  A second entry at the same
  offset of the cache is not added, as in the code.

  \<^bold>\<open>Not modelled.\<close>  Reading and creating metainfo files (\<^verbatim>\<open>InitialFromMI\<close>, \<^verbatim>\<open>InitialFromFS\<close>, \<^verbatim>\<open>BuildFromMI\<close>): parsing and system calls
  over the modelled scanners; the check of existing files at the start.  Of the peer list: accepting and making connections and the
  sets for \<^verbatim>\<open>select\<close>.  \<^verbatim>\<open>console.cpp\<close> and \<^verbatim>\<open>ctcs.cpp\<close> format text for a terminal and a control
  server; \<^verbatim>\<open>ctorrent.cpp\<close> and \<^verbatim>\<open>btconfig.cpp\<close> hold options and tables; \<^verbatim>\<open>sigint.cpp\<close>, \<^verbatim>\<open>connect_nonb.cpp\<close>, \<^verbatim>\<open>setnonblock.cpp\<close> and
  \<^verbatim>\<open>compat.c\<close> wrap system calls or replace library functions; \<^verbatim>\<open>downloader.cpp\<close> is the loop around the others.
\<close>

end
